(* ===== verification/Gcore_Prelude.thy ===== *)
theory Gcore_Prelude
  imports Main "HOL-Library.Word"
begin

unbundle bit_operations_syntax

text \<open>
  Shared vocabulary of the development: the machine integer types of the kernel, the
  \<open>Vec\<close> operations of the Rust standard library the sources use (push and pop at the
  back, \<open>resize\<close>, \<open>rotate_left\<close>), byte/double-word views of a page of memory, and the
  generic lemmas on words, lists and options the component theories rest on.
  The kernel is built with \<open>overflow-checks = false\<close> (\<open>os/Cargo.toml\<close>), so every \<open>+\<close>,
  \<open>-\<close> and \<open>*\<close> on a machine integer wraps around.
\<close>

section \<open>Machine integers\<close>

type_synonym u8 = "8 word"
type_synonym u16 = "16 word"
type_synonym u32 = "32 word"
type_synonym u64 = "64 word"
type_synonym usize = "64 word"

named_theorems bits_simps "bit-level characterisations of the page-table and flag words"
named_theorems inv_intros "operations preserve their component's invariant"

section \<open>Vectors\<close>

text \<open>\<open>Vec::pop\<close>: the last element and the shortened vector.\<close>

definition vec_pop :: "'a list \<Rightarrow> ('a \<times> 'a list) option" where
  "vec_pop xs = (if xs = [] then None else Some (last xs, butlast xs))"

text \<open>\<open>Vec::resize\<close>: cut or pad with copies of the given value.\<close>

definition vec_resize :: "nat \<Rightarrow> 'a \<Rightarrow> 'a list \<Rightarrow> 'a list" where
  "vec_resize n x xs = take n xs @ replicate (n - length xs) x"

text \<open>\<open>slice::rotate_left\<close>; it panics when the amount exceeds the length.\<close>

definition slice_rotate_left :: "nat \<Rightarrow> 'a list \<Rightarrow> 'a list option" where
  "slice_rotate_left k xs = (if k \<le> length xs then Some (drop k xs @ take k xs) else None)"

text \<open>Indexing that panics out of range.\<close>

definition vec_get :: "'a list \<Rightarrow> nat \<Rightarrow> 'a option" where
  "vec_get xs i = (if i < length xs then Some (xs ! i) else None)"

text \<open>\<open>assert!\<close>: panics when the condition is false.\<close>

definition assert_that :: "bool \<Rightarrow> unit option" where
  "assert_that b = (if b then Some () else None)"

text \<open>\<open>Vec::insert\<close> and \<open>Vec::remove\<close> inside the bounds.\<close>

definition vec_insert :: "nat \<Rightarrow> 'a \<Rightarrow> 'a list \<Rightarrow> 'a list" where
  "vec_insert i x xs = take i xs @ x # drop i xs"

definition vec_remove :: "nat \<Rightarrow> 'a list \<Rightarrow> 'a list" where
  "vec_remove i xs = take i xs @ drop (Suc i) xs"

text \<open>\<open>iter().enumerate().find(p)\<close>: the first index whose element satisfies the test.\<close>

fun find_idx_from :: "nat \<Rightarrow> ('a \<Rightarrow> bool) \<Rightarrow> 'a list \<Rightarrow> nat option" where
  "find_idx_from k p [] = None"
| "find_idx_from k p (x # xs) = (if p x then Some k else find_idx_from (Suc k) p xs)"

definition find_idx :: "('a \<Rightarrow> bool) \<Rightarrow> 'a list \<Rightarrow> nat option" where
  "find_idx p xs = find_idx_from 0 p xs"

section \<open>Pages of bytes and their double words\<close>

type_synonym page = "nat \<Rightarrow> u8"

definition zero_page :: page where
  "zero_page = (\<lambda>_. 0)"

text \<open>Little-endian view of eight bytes, as \<open>get_pte_array\<close> and \<open>get_dwords_array\<close> give it.\<close>

definition dword_at :: "page \<Rightarrow> nat \<Rightarrow> u64" where
  "dword_at p i =
     foldr (\<lambda>k w. push_bit (8 * k) (ucast (p (8 * i + k))) OR w) [0..<8] 0"

definition set_dword :: "page \<Rightarrow> nat \<Rightarrow> u64 \<Rightarrow> page" where
  "set_dword p i w =
     (\<lambda>n. if n div 8 = i then ucast (drop_bit (8 * (n mod 8)) w) else p n)"

text \<open>Four little-endian bytes.\<close>

definition le32 :: "u32 \<Rightarrow> u8 list" where
  "le32 x = map (\<lambda>k. ucast (drop_bit (8 * k) x)) [0..<4]"

definition un32 :: "u8 list \<Rightarrow> u32" where
  "un32 bs = foldr (\<lambda>k x. push_bit (8 * k) (ucast (bs ! k)) OR x) [0..<4] 0"

definition le64 :: "u64 \<Rightarrow> u8 list" where
  "le64 x = map (\<lambda>k. ucast (drop_bit (8 * k) x)) [0..<8]"

definition un64 :: "u8 list \<Rightarrow> u64" where
  "un64 bs = foldr (\<lambda>k x. push_bit (8 * k) (ucast (bs ! k)) OR x) [0..<8] 0"

definition le16 :: "u16 \<Rightarrow> u8 list" where
  "le16 x = [ucast x, ucast (drop_bit 8 x)]"

definition un16 :: "u8 list \<Rightarrow> u16" where
  "un16 bs = ucast (bs ! 0) OR push_bit 8 (ucast (bs ! 1))"

section \<open>Lemmas on vectors\<close>

lemma vec_pop_Some [simp]:
  "vec_pop xs = Some (x, ys) \<longleftrightarrow> xs = ys @ [x]"
  by (auto simp: vec_pop_def)

lemma assert_that_Some [simp]: "assert_that b = Some u \<longleftrightarrow> b"
  by (simp add: assert_that_def)

lemma assert_that_True [simp]: "assert_that True = Some ()" "assert_that False = None"
  by (simp_all add: assert_that_def)

lemma vec_pop_Nil [simp]: "vec_pop [] = None"
  by (simp add: vec_pop_def)

lemma vec_pop_None [simp]: "vec_pop xs = None \<longleftrightarrow> xs = []"
  by (simp add: vec_pop_def)

lemma vec_pop_snoc [simp]: "vec_pop (xs @ [x]) = Some (x, xs)"
  by simp

lemma length_vec_resize [simp]: "length (vec_resize n x xs) = n"
  by (simp add: vec_resize_def)

lemma nth_vec_resize:
  "i < n \<Longrightarrow> vec_resize n x xs ! i = (if i < length xs then xs ! i else x)"
  by (auto simp: vec_resize_def nth_append)

lemma vec_get_Some [simp]: "vec_get xs i = Some y \<longleftrightarrow> i < length xs \<and> xs ! i = y"
  by (auto simp: vec_get_def)

lemma vec_get_None [simp]: "vec_get xs i = None \<longleftrightarrow> length xs \<le> i"
  by (auto simp: vec_get_def)

lemma length_vec_insert [simp]:
  "i \<le> length xs \<Longrightarrow> length (vec_insert i x xs) = Suc (length xs)"
  by (simp add: vec_insert_def)

lemma set_vec_insert [simp]: "set (vec_insert i x xs) = insert x (set xs)"
proof -
  have "set xs = set (take i xs) \<union> set (drop i xs)"
    by (metis append_take_drop_id set_append)
  then show ?thesis by (auto simp: vec_insert_def)
qed

lemma set_vec_remove_subset: "set (vec_remove i xs) \<subseteq> set xs"
  by (auto simp: vec_remove_def dest: in_set_takeD in_set_dropD)

lemma find_idx_from_Some:
  "find_idx_from k p xs = Some i \<Longrightarrow>
     k \<le> i \<and> i - k < length xs \<and> p (xs ! (i - k)) \<and> (\<forall>j < i - k. \<not> p (xs ! j))"
proof (induction xs arbitrary: k)
  case Nil
  then show ?case by simp
next
  case (Cons x xs)
  show ?case
  proof (cases "p x")
    case True
    with Cons.prems show ?thesis by simp
  next
    case False
    with Cons.prems have "find_idx_from (Suc k) p xs = Some i" by simp
    from Cons.IH [OF this]
    have i: "Suc k \<le> i" "i - Suc k < length xs" "p (xs ! (i - Suc k))"
      and before: "\<forall>j < i - Suc k. \<not> p (xs ! j)" by auto
    have "i - k = Suc (i - Suc k)" using i(1) by simp
    moreover have "\<not> p ((x # xs) ! j)" if "j < Suc (i - Suc k)" for j
      using that False before by (cases j) auto
    ultimately show ?thesis using i by simp
  qed
qed

lemma find_idx_from_None: "find_idx_from k p xs = None \<longleftrightarrow> (\<forall>x \<in> set xs. \<not> p x)"
  by (induction xs arbitrary: k) auto

lemma find_idx_Some:
  "find_idx p xs = Some i \<Longrightarrow> i < length xs \<and> p (xs ! i) \<and> (\<forall>j < i. \<not> p (xs ! j))"
  using find_idx_from_Some [of 0 p xs i] by (simp add: find_idx_def)

lemma find_idx_None: "find_idx p xs = None \<longleftrightarrow> (\<forall>x \<in> set xs. \<not> p x)"
  by (simp add: find_idx_def find_idx_from_None)

section \<open>Lemmas on words\<close>

lemma unat_u64_bound: "unat (w :: u64) < 2 ^ 64"
  using unsigned_less [of w, where ?'a = nat] by simp

lemma unat_of_nat_u64: "n < 2 ^ 64 \<Longrightarrow> unat (of_nat n :: u64) = n"
  by (simp add: unat_of_nat take_bit_eq_mod)

lemma unat_add_no_wrap:
  fixes a b :: "'a::len word"
  shows "unat a + unat b < 2 ^ LENGTH('a) \<Longrightarrow> unat (a + b) = unat a + unat b"
  by (simp add: unat_word_ariths)

lemma unat_sub_no_wrap:
  fixes a b :: "'a::len word"
  shows "b \<le> a \<Longrightarrow> unat (a - b) = unat a - unat b"
  by (simp add: unat_sub)

lemma unat_Suc_no_wrap:
  fixes a b :: "'a::len word"
  assumes "a < b"
  shows "unat (a + 1) = Suc (unat a)"
proof -
  have "unat a < unat b" using assms by (simp add: word_less_nat_alt)
  also have "unat b < 2 ^ LENGTH('a)" by (rule unsigned_less)
  finally have "unat a + 1 < 2 ^ LENGTH('a)"
    using \<open>unat a < unat b\<close> \<open>unat b < 2 ^ LENGTH('a)\<close> by linarith
  then show ?thesis
    using unat_add_no_wrap [of a 1] by simp
qed

lemma bit_u8_beyond: "8 \<le> m \<Longrightarrow> \<not> bit (x :: u8) m"
  using bit_imp_le_length [of x m] by auto

lemma bit_u64_beyond: "64 \<le> m \<Longrightarrow> \<not> bit (x :: u64) m"
  using bit_imp_le_length [of x m] by auto

lemma bit_ucast_u8: "bit (ucast (x :: u8) :: u64) m \<longleftrightarrow> bit x m"
  using bit_u8_beyond [of m x]
  by (auto simp: bit_unsigned_iff bit_u64_beyond intro: ccontr)

lemma div8_eq_iff: "n div 8 = q \<longleftrightarrow> 8 * q \<le> n \<and> n - 8 * q < (8 :: nat)"
  by linarith

lemma bit_byte_of_dword:
  "bit (push_bit (8 * q) (ucast (x :: u8)) :: u64) n \<longleftrightarrow>
     n < 64 \<and> n div 8 = q \<and> bit x (n mod 8)"
proof (cases "n < 64 \<and> n div 8 = q")
  case True
  then have "8 * q \<le> n" and "n mod 8 = n - 8 * q"
    by (auto simp: minus_mult_div_eq_mod [symmetric])
  with True show ?thesis by (simp add: bit_push_bit_iff bit_ucast_u8)
next
  case False
  then have "\<not> bit (push_bit (8 * q) (ucast x) :: u64) n"
    using bit_u8_beyond [of "n - 8 * q" x]
    by (auto simp: bit_push_bit_iff bit_ucast_u8 div8_eq_iff not_less bit_u64_beyond)
  with False show ?thesis by auto
qed

lemma bit_foldr_or:
  "bit (foldr (\<lambda>k w. f k OR w) ks (0 :: 'a::len word)) n \<longleftrightarrow> (\<exists>k \<in> set ks. bit (f k) n)"
  by (induction ks) (auto simp: bit_or_iff)

lemma bit_dword_at:
  "bit (dword_at p i) n \<longleftrightarrow> n < 64 \<and> bit (p (8 * i + n div 8)) (n mod 8)"
proof -
  have "n < 64 \<Longrightarrow> n div 8 < 8" by simp
  then show ?thesis by (auto simp: dword_at_def bit_foldr_or bit_byte_of_dword)
qed

lemma dword_at_set_dword_same [simp]: "dword_at (set_dword p i w) i = w"
proof (rule bit_word_eqI)
  fix n assume "n < LENGTH(64)"
  then have n: "n < 64" by simp
  have "(8 * i + n div 8) div 8 = i" and "(8 * i + n div 8) mod 8 = n div 8"
    using n by (simp_all add: div_mult_self3 mod_mult_self4)
  moreover have "8 * (n div 8) + n mod 8 = n" by simp
  ultimately show "bit (dword_at (set_dword p i w) i) n = bit w n"
    using n by (simp add: bit_dword_at set_dword_def bit_simps)
qed

lemma dword_at_set_dword_other [simp]:
  assumes "i \<noteq> j"
  shows "dword_at (set_dword p i w) j = dword_at p j"
proof (rule bit_word_eqI)
  fix n assume "n < LENGTH(64)"
  then have n: "n < 64" by simp
  then have "(8 * j + n div 8) div 8 = j"
    by (simp add: div_mult_self3)
  with assms n show "bit (dword_at (set_dword p i w) j) n = bit (dword_at p j) n"
    by (simp add: bit_dword_at set_dword_def)
qed

lemma dword_at_set_dword:
  "dword_at (set_dword p i w) j = (if i = j then w else dword_at p j)"
  by simp

lemma dword_at_zero_page [simp]: "dword_at zero_page i = 0"
  by (rule bit_word_eqI) (simp add: bit_dword_at zero_page_def)

section \<open>Four-byte values\<close>

lemma length_le32 [simp]: "length (le32 x) = 4"
  by (simp add: le32_def)

lemma un32_le32 [simp]: "un32 (le32 x) = x"
proof (rule bit_word_eqI)
  fix n assume "n < LENGTH(32)"
  then have n: "n < 32" "n div 8 < 4" by simp_all
  have byte: "bit (push_bit (8 * k) (ucast (b :: u8)) :: u32) n \<longleftrightarrow> n div 8 = k \<and> bit b (n mod 8)" if "k < 4" for k b
  proof (cases "n div 8 = k")
    case True
    then have "8 * k \<le> n" "n mod 8 = n - 8 * k" by (auto simp: minus_mult_div_eq_mod [symmetric])
    with True n show ?thesis by (auto simp: bit_simps)
  next
    case False
    then show ?thesis using bit_u8_beyond [of "n - 8 * k" b] by (auto simp: bit_simps div8_eq_iff not_less)
  qed
  have "bit (un32 (le32 x)) n = bit (ucast (drop_bit (8 * (n div 8)) x) :: u8) (n mod 8)"
    using n byte by (auto simp: un32_def bit_foldr_or le32_def)
  also have "\<dots> = bit x (8 * (n div 8) + n mod 8)" by (simp add: bit_simps)
  finally show "bit (un32 (le32 x)) n = bit x n" by simp
qed

section \<open>Eight-byte and two-byte values\<close>

lemma length_le64 [simp]: "length (le64 x) = 8"
  by (simp add: le64_def)

lemma un64_dword: "un64 bs = dword_at (\<lambda>i. bs ! i) 0"
  by (simp add: un64_def dword_at_def)

lemma un64_le64 [simp]: "un64 (le64 x @ bs) = x" "un64 (le64 x) = x"
proof -
  have "un64 (le64 x @ cs) = x" for cs
  proof (rule bit_word_eqI)
    fix n assume "n < LENGTH(64)"
    then have n: "n < 64" by simp
    then have d: "n div 8 < 8" by simp
    have "bit (un64 (le64 x @ cs)) n = bit (ucast (drop_bit (8 * (n div 8)) x) :: u8) (n mod 8)"
      using n d by (simp add: un64_dword bit_dword_at nth_append le64_def)
    also have "\<dots> = bit x (8 * (n div 8) + n mod 8)" by (simp add: bit_simps)
    finally show "bit (un64 (le64 x @ cs)) n = bit x n" by simp
  qed
  from this [of bs] this [of "[]"] show "un64 (le64 x @ bs) = x" "un64 (le64 x) = x" by simp_all
qed

lemma length_le16 [simp]: "length (le16 x) = 2"
  by (simp add: le16_def)

lemma un16_le16 [simp]: "un16 (le16 x @ bs) = x" "un16 (le16 x) = x"
proof -
  have "un16 (ucast x # ucast (drop_bit 8 x) # cs) = x" for cs
    unfolding un16_def by (rule bit_word_eqI) (auto simp: bit_simps)
  then show "un16 (le16 x @ bs) = x" "un16 (le16 x) = x" by (simp_all add: le16_def)
qed

lemma un32_app [simp]: "un32 (le32 x @ bs) = x"
proof -
  have "un32 (le32 x @ bs) = un32 (le32 x)" by (simp add: un32_def nth_append upt_rec)
  then show ?thesis by simp
qed

end
