(* ===== verification/Mm_Address.thy ===== *)
theory Mm_Address
  imports Gcore_Prelude
begin

text \<open>
  Addresses and page numbers, \<open>os/src/mm/address.rs\<close>, with the RISC-V constants of
  \<open>os/src/hal/arch/riscv/config.rs\<close>. The newtypes \<open>PhysAddr\<close>, \<open>VirtAddr\<close>,
  \<open>PhysPageNum\<close> and \<open>VirtPageNum\<close> are all transparent wrappers of \<open>usize\<close>.
  The lemmas show that a page number and an offset are a lossless decomposition of an
  address, what the two roundings compute (and where the rounding up wraps around), that
  the index vector of a page number is its base-512 notation, and which list a range
  iterator produces.
\<close>

type_synonym PhysAddr = usize
type_synonym VirtAddr = usize
type_synonym PhysPageNum = usize
type_synonym VirtPageNum = usize

section \<open>Definitions\<close>

subsection \<open>Constants\<close>

definition PAGE_SIZE :: usize where
  "PAGE_SIZE = 0x1000"

definition PAGE_SIZE_BITS :: nat where
  "PAGE_SIZE_BITS = 0xc"

subsection \<open>VirtAddr and PhysAddr\<close>

definition va_floor :: "VirtAddr \<Rightarrow> VirtPageNum" where
  "va_floor a = a div PAGE_SIZE"

definition va_ceil :: "VirtAddr \<Rightarrow> VirtPageNum" where
  "va_ceil a = (a - 1 + PAGE_SIZE) div PAGE_SIZE"

definition va_page_offset :: "VirtAddr \<Rightarrow> usize" where
  "va_page_offset a = (let c = PAGE_SIZE - 1 in a AND c)"

definition va_aligned :: "VirtAddr \<Rightarrow> bool" where
  "va_aligned a \<longleftrightarrow> va_page_offset a = 0"

text \<open>\<open>VirtPageNum::from(VirtAddr)\<close> asserts alignment; \<open>None\<close> is the failed assertion.\<close>

definition vpn_from_va :: "VirtAddr \<Rightarrow> VirtPageNum option" where
  "vpn_from_va a = (if va_page_offset a = 0 then Some (va_floor a) else None)"

definition va_from_vpn :: "VirtPageNum \<Rightarrow> VirtAddr" where
  "va_from_vpn v = push_bit PAGE_SIZE_BITS v"

definition pa_floor :: "PhysAddr \<Rightarrow> PhysPageNum" where
  "pa_floor a = a div PAGE_SIZE"

definition pa_ceil :: "PhysAddr \<Rightarrow> PhysPageNum" where
  "pa_ceil a = (a - 1 + PAGE_SIZE) div PAGE_SIZE"

definition pa_page_offset :: "PhysAddr \<Rightarrow> usize" where
  "pa_page_offset a = a AND (PAGE_SIZE - 1)"

definition pa_aligned :: "PhysAddr \<Rightarrow> bool" where
  "pa_aligned a \<longleftrightarrow> pa_page_offset a = 0"

definition ppn_from_pa :: "PhysAddr \<Rightarrow> PhysPageNum option" where
  "ppn_from_pa a = (if pa_page_offset a = 0 then Some (pa_floor a) else None)"

definition pa_from_ppn :: "PhysPageNum \<Rightarrow> PhysAddr" where
  "pa_from_ppn v = push_bit PAGE_SIZE_BITS v"

subsection \<open>VirtPageNum and PhysPageNum\<close>

definition vpn_start_addr :: "VirtPageNum \<Rightarrow> VirtAddr" where
  "vpn_start_addr v = push_bit PAGE_SIZE_BITS v"

definition vpn_offset :: "VirtPageNum \<Rightarrow> usize \<Rightarrow> VirtAddr" where
  "vpn_offset v off = push_bit PAGE_SIZE_BITS v + off"

definition ppn_start_addr :: "PhysPageNum \<Rightarrow> PhysAddr" where
  "ppn_start_addr v = push_bit PAGE_SIZE_BITS v"

definition ppn_offset :: "PhysPageNum \<Rightarrow> usize \<Rightarrow> PhysAddr" where
  "ppn_offset v off = push_bit PAGE_SIZE_BITS v + off"

text \<open>\<open>indexes::<T>\<close> fills the array from its last cell to its first, nine bits at a time.\<close>

fun indexes_loop :: "nat \<Rightarrow> usize \<Rightarrow> usize list \<Rightarrow> usize list" where
  "indexes_loop 0 vpn idx = idx"
| "indexes_loop (Suc i) vpn idx = indexes_loop i (drop_bit 9 vpn) (idx[i := vpn AND 511])"

definition vpn_indexes :: "nat \<Rightarrow> VirtPageNum \<Rightarrow> usize list" where
  "vpn_indexes T vpn = indexes_loop T vpn (replicate T 0)"

subsection \<open>Ranges\<close>

text \<open>\<open>StepByOne::step\<close>, the range constructor with its assertion, and the iterator.\<close>

definition vpn_step :: "usize \<Rightarrow> usize" where
  "vpn_step v = v + 1"

record simple_range =
  range_l :: usize
  range_r :: usize

definition range_new :: "usize \<Rightarrow> usize \<Rightarrow> simple_range option" where
  "range_new s e = (if s \<le> e then Some \<lparr>range_l = s, range_r = e\<rparr> else None)"

definition range_next :: "simple_range \<Rightarrow> (usize \<times> simple_range) option" where
  "range_next it =
     (if range_l it = range_r it then None
      else Some (range_l it, it\<lparr>range_l := vpn_step (range_l it)\<rparr>))"

text \<open>Running the iterator to its end, as a \<open>for\<close> loop does.\<close>

lemma range_step_decreases:
  fixes a b :: usize
  assumes "a \<noteq> b"
  shows "unat (b - (a + 1)) < unat (b - a)"
proof -
  have "b - a \<noteq> 0" using assms by simp
  then have "unat (b - a - 1) < unat (b - a)"
    by (metis measure_unat)
  then show ?thesis by (simp add: algebra_simps)
qed

function range_list :: "simple_range \<Rightarrow> usize list" where
  "range_list it = (case range_next it of None \<Rightarrow> [] | Some (v, it') \<Rightarrow> v # range_list it')"
  by pat_completeness auto
termination
  by (relation "measure (\<lambda>it. unat (range_r it - range_l it))")
    (auto simp: range_next_def vpn_step_def range_step_decreases split: if_splits)

declare range_list.simps [simp del]

section \<open>Addresses and pages\<close>

lemmas page_consts = PAGE_SIZE_def PAGE_SIZE_BITS_def

lemma unat_PAGE_SIZE [simp]: "unat PAGE_SIZE = 4096"
  by (simp add: PAGE_SIZE_def)

lemma unat_va_floor: "unat (va_floor a) = unat a div 4096"
  by (simp add: va_floor_def unat_div)

lemma va_page_offset_take_bit: "va_page_offset a = take_bit 12 a"
  by (simp add: va_page_offset_def PAGE_SIZE_def take_bit_eq_mask mask_numeral)

lemma va_floor_drop_bit: "va_floor a = drop_bit 12 a"
  by (simp add: va_floor_def PAGE_SIZE_def drop_bit_eq_div)

lemma unat_va_page_offset: "unat (va_page_offset a) = unat a mod 4096"
  by (simp add: va_page_offset_take_bit take_bit_eq_mod unat_mod)

lemma va_page_offset_less: "va_page_offset a < PAGE_SIZE"
  by (simp add: word_less_nat_alt unat_va_page_offset)

lemma va_aligned_iff: "va_aligned a \<longleftrightarrow> unat a mod 4096 = 0"
  by (simp add: va_aligned_def word_unat_eq_iff unat_va_page_offset)


lemma vpn_offset_floor: "vpn_offset (va_floor a) (va_page_offset a) = a"
  by (simp add: vpn_offset_def PAGE_SIZE_BITS_def va_floor_drop_bit va_page_offset_take_bit
      bits_ident)

lemma unat_va_from_vpn: "unat v < 2 ^ 52 \<Longrightarrow> unat (va_from_vpn v) = unat v * 4096"
  by (simp add: va_from_vpn_def PAGE_SIZE_BITS_def push_bit_eq_mult unat_mult_lem [THEN iffD1])

lemma unat_vpn_offset:
  assumes "unat v < 2 ^ 52" and "unat off < 4096"
  shows "unat (vpn_offset v off) = unat v * 4096 + unat off"
proof -
  have "unat (push_bit PAGE_SIZE_BITS v) = unat v * 4096"
    using unat_va_from_vpn [OF assms(1)] by (simp add: va_from_vpn_def)
  then show ?thesis
    using assms by (simp add: vpn_offset_def unat_add_no_wrap)
qed

lemma va_floor_vpn_offset:
  assumes "unat v < 2 ^ 52" and "unat off < 4096"
  shows "va_floor (vpn_offset v off) = v" and "va_page_offset (vpn_offset v off) = off"
  using assms by (simp_all add: word_unat_eq_iff unat_va_floor unat_va_page_offset unat_vpn_offset)

lemma va_floor_bound: "unat (va_floor a) < 2 ^ 52"
proof -
  have "unat a < 2 ^ 64" by (rule unat_u64_bound)
  then show ?thesis by (simp add: unat_va_floor)
qed

lemma va_floor_from_vpn [simp]: "unat v < 2 ^ 52 \<Longrightarrow> va_floor (va_from_vpn v) = v"
  using va_floor_vpn_offset(1) [of v 0] by (simp add: vpn_offset_def va_from_vpn_def)

lemma unat_va_ceil:
  "unat (va_ceil a) = (if unat a \<le> 2 ^ 64 - 4096 then (unat a + 4095) div 4096 else 0)"
proof -
  have a: "unat a < 2 ^ 64" by (rule unat_u64_bound)
  have "unat (a - 1 + PAGE_SIZE) = unat (a + 4095)"
    by (simp add: PAGE_SIZE_def add.commute)
  also have "\<dots> = (unat a + 4095) mod 2 ^ 64"
    by (simp add: unat_word_ariths)
  finally have sum: "unat (a - 1 + PAGE_SIZE) = (unat a + 4095) mod 2 ^ 64" .
  show ?thesis
  proof (cases "unat a \<le> 2 ^ 64 - 4096")
    case True
    then show ?thesis using sum by (simp add: va_ceil_def unat_div)
  next
    case False
    then have "(unat a + 4095) mod 2 ^ 64 = unat a + 4095 - 2 ^ 64"
      using a by (simp add: mod_if)
    then show ?thesis using sum False a by (simp add: va_ceil_def unat_div)
  qed
qed

lemma va_ceil_from_vpn [simp]:
  assumes "unat v < 2 ^ 52"
  shows "va_ceil (va_from_vpn v) = v"
proof -
  have "unat (va_from_vpn v) = unat v * 4096" using assms by (rule unat_va_from_vpn)
  moreover have "unat v * 4096 \<le> 2 ^ 64 - 4096" using assms by simp
  ultimately show ?thesis by (simp add: word_unat_eq_iff unat_va_ceil)
qed

section \<open>Index vectors\<close>

lemma length_indexes_loop [simp]: "length (indexes_loop i v idx) = length idx"
  by (induction i v idx rule: indexes_loop.induct) auto

lemma vpn_indexes_3:
  "vpn_indexes 3 v = [drop_bit 18 v AND 511, drop_bit 9 v AND 511, v AND 511]"
  by (simp add: vpn_indexes_def numeral_3_eq_3 drop_bit_drop_bit)

lemma and_511_take_bit: "w AND 511 = take_bit 9 (w :: usize)"
  by (simp add: take_bit_eq_mask mask_numeral)

lemma unat_and_511: "unat (w AND 511 :: usize) = unat w mod 512"
  by (simp add: and_511_take_bit take_bit_eq_mod unat_mod)

lemma unat_and_511_less [simp]: "unat (w AND 511 :: usize) < 512"
  by (simp add: unat_and_511)

section \<open>Range iteration\<close>

lemma range_list_eq:
  "range_list it =
     (if range_l it = range_r it then []
      else range_l it # range_list (it\<lparr>range_l := range_l it + 1\<rparr>))"
  by (subst range_list.simps) (simp add: range_next_def vpn_step_def)

lemma range_list_upt:
  "range_l it \<le> range_r it \<Longrightarrow>
     range_list it = map of_nat [unat (range_l it)..<unat (range_r it)]"
proof (induction it rule: range_list.induct)
  case (1 it)
  show ?case
  proof (cases "range_l it = range_r it")
    case True
    then show ?thesis by (simp add: range_list_eq [of it])
  next
    case False
    with "1.prems" have less: "range_l it < range_r it" by simp
    let ?it' = "it\<lparr>range_l := range_l it + 1\<rparr>"
    have suc: "unat (range_l it + 1) = Suc (unat (range_l it))"
      using less by (rule unat_Suc_no_wrap)
    have "range_next it = Some (range_l it, ?it')"
      using False by (simp add: range_next_def vpn_step_def)
    moreover have "range_l ?it' \<le> range_r ?it'"
      using less suc by (simp add: word_le_nat_alt word_less_nat_alt)
    ultimately have "range_list ?it' = map of_nat [Suc (unat (range_l it))..<unat (range_r it)]"
      using "1.IH" suc by fastforce
    moreover have "[unat (range_l it)..<unat (range_r it)] =
        unat (range_l it) # [Suc (unat (range_l it))..<unat (range_r it)]"
      using less by (simp add: upt_conv_Cons word_less_nat_alt)
    ultimately show ?thesis using False by (simp add: range_list_eq [of it])
  qed
qed

lemma set_range_list:
  assumes "range_l it \<le> range_r it"
  shows "set (range_list it) = {v. range_l it \<le> v \<and> v < range_r it}"
proof -
  have "v \<in> set (range_list it) \<longleftrightarrow> range_l it \<le> v \<and> v < range_r it" for v
  proof
    assume "v \<in> set (range_list it)"
    then obtain n where n: "v = of_nat n" "unat (range_l it) \<le> n" "n < unat (range_r it)"
      by (auto simp: range_list_upt [OF assms])
    moreover have "n < 2 ^ 64" using n(3) unat_u64_bound [of "range_r it"] by linarith
    ultimately show "range_l it \<le> v \<and> v < range_r it"
      by (simp add: word_le_nat_alt word_less_nat_alt unat_of_nat_u64)
  next
    assume "range_l it \<le> v \<and> v < range_r it"
    then have "unat v \<in> {unat (range_l it)..<unat (range_r it)}"
      by (simp add: word_le_nat_alt word_less_nat_alt)
    then have "of_nat (unat v) \<in> set (range_list it)"
      unfolding range_list_upt [OF assms] set_map set_upt by (rule imageI)
    then show "v \<in> set (range_list it)" by simp
  qed
  then show ?thesis by blast
qed

section \<open>Properties\<close>

text \<open>
  A virtual address is its page number and its offset in the page, and this splitting is
  unique: \<open>floor\<close> and \<open>page_offset\<close> return the only in-range pair from which \<open>offset\<close>
  rebuilds the address.
\<close>

theorem address_split_unique:
  "vpn_offset (va_floor a) (va_page_offset a) = a \<and>
   unat (va_floor a) < 2 ^ 52 \<and> unat (va_page_offset a) < 4096 \<and>
   (\<forall>v off. unat v < 2 ^ 52 \<longrightarrow> unat off < 4096 \<longrightarrow> vpn_offset v off = a \<longrightarrow>
      v = va_floor a \<and> off = va_page_offset a)"
  using vpn_offset_floor [of a] va_floor_bound [of a] va_floor_vpn_offset
  by (auto simp: unat_va_page_offset)

theorem address_split_unique_witness:
  "vpn_offset 5 7 = 0x5007 \<and> (5 :: VirtPageNum) = va_floor 0x5007 \<and> (7 :: usize) = va_page_offset 0x5007"
proof -
  have eq: "vpn_offset 5 7 = 0x5007" by (simp add: vpn_offset_def PAGE_SIZE_BITS_def push_bit_eq_mult)
  from address_split_unique [of "0x5007", THEN conjunct2, THEN conjunct2, THEN conjunct2, rule_format, of 5 7] eq
  have "(5 :: VirtPageNum) = va_floor 0x5007 \<and> (7 :: usize) = va_page_offset 0x5007" by simp
  with eq show ?thesis by simp
qed

text \<open>
  C40. \<open>VirtAddr::ceil\<close> rounds up to the next page number for every address up to
  \<open>2\<^sup>6\<^sup>4 - 4096\<close>; above it the addition wraps and the result is page 0.
\<close>

theorem va_ceil_rounds_up:
  "unat (va_ceil a) = (if unat a \<le> 2 ^ 64 - 4096 then (unat a + 4095) div 4096 else 0)"
  by (rule unat_va_ceil)

text \<open>
  The index vector of a page number is the base-512 notation of its low 27 bits, most
  significant digit first.
\<close>

theorem vpn_indexes_base_512:
  "\<exists>a b c. vpn_indexes 3 v = [a, b, c] \<and> unat a < 512 \<and> unat b < 512 \<and> unat c < 512 \<and>
     unat v mod 2 ^ 27 = unat a * 512 ^ 2 + unat b * 512 + unat c"
proof -
  have "n mod 2 ^ 27 = n div 2 ^ 18 mod 512 * 512 ^ 2 + n div 2 ^ 9 mod 512 * 512 + n mod 512" for n :: nat
  proof -
    have "n mod (512 * (512 * 512)) = 512 * (n div 512 mod (512 * 512)) + n mod 512" by (rule mod_mult2_eq)
    moreover have "n div 512 mod (512 * 512) = 512 * (n div 512 div 512 mod 512) + n div 512 mod 512"
      by (rule mod_mult2_eq)
    moreover have "n div 512 div 512 = n div 2 ^ 18" by (simp add: div_mult2_eq [symmetric])
    ultimately show ?thesis by simp
  qed
  then show ?thesis
    by (simp add: vpn_indexes_3 unat_and_511 drop_bit_eq_div unat_div)
qed

text \<open>
  Iterating over a page range visits exactly its pages, each once and in increasing
  order; constructing a range whose end is below its start panics.
\<close>

theorem range_iterates:
  "(range_new s e = None \<longleftrightarrow> e < s) \<and>
   (s \<le> e \<longrightarrow> (\<exists>r. range_new s e = Some r \<and> range_list r = map of_nat [unat s..<unat e] \<and>
                  set (range_list r) = {v. s \<le> v \<and> v < e}))"
  using range_list_upt [of "\<lparr>range_l = s, range_r = e\<rparr>"] set_range_list [of "\<lparr>range_l = s, range_r = e\<rparr>"]
  by (auto simp: range_new_def)

theorem range_iterates_witness:
  "\<exists>r. range_new 3 6 = Some r \<and> range_list r = [3, 4, 5]"
proof -
  have "(3 :: usize) \<le> 6" by simp
  with range_iterates [of 3 6] obtain r where "range_new 3 6 = Some r" "range_list r = map of_nat [3..<6]"
    by auto
  then show ?thesis by (simp add: upt_rec)
qed

end
