(* ===== verification/Mm_Frame_Allocator.thy ===== *)
theory Mm_Frame_Allocator
  imports Mm_Address
begin

text \<open>
  The physical frame allocator, \<open>os/src/mm/frame_allocator.rs\<close>, on the state of physical
  memory: the allocator itself (\<open>StackFrameAllocator\<close>), the contents of every physical page,
  and the strong count of the \<open>Arc<FrameTracker>\<close> of every page (a page has at most one
  tracker, so the count is indexed by the page number; dropping the last reference returns
  the page, \<open>Drop for FrameTracker\<close>).
  The out-of-memory handler reaches back into the file system and into every task, so the
  allocation functions take it as an argument, and the handler itself is modelled over its
  three phases. \<open>None\<close> as an outermost result is a kernel panic.
  The interface of the allocator is the locale \<open>frame_pool\<close>: a client sees a set of allocated
  frames and a number of free ones. The theories above it use the interpretation \<open>fpool\<close>.
\<close>

section \<open>Definitions\<close>

subsection \<open>The stack allocator\<close>

record frame_allocator =
  fa_current :: usize
  fa_end :: usize
  fa_recycled :: "usize list"

definition fa_new :: frame_allocator where
  "fa_new = \<lparr>fa_current = 0, fa_end = 0, fa_recycled = []\<rparr>"

definition fa_init :: "PhysPageNum \<Rightarrow> PhysPageNum \<Rightarrow> frame_allocator \<Rightarrow> frame_allocator" where
  "fa_init l r fa = fa\<lparr>fa_current := l, fa_end := r\<rparr>"

definition fa_unallocated_frames :: "frame_allocator \<Rightarrow> usize" where
  "fa_unallocated_frames fa = fa_end fa - fa_current fa + of_nat (length (fa_recycled fa))"

text \<open>Which frame \<open>alloc\<close> and \<open>alloc_uninit\<close> hand out: a recycled one first.\<close>

definition fa_take :: "frame_allocator \<Rightarrow> (PhysPageNum \<times> frame_allocator) option" where
  "fa_take fa =
     (case vec_pop (fa_recycled fa) of
        Some (ppn, rest) \<Rightarrow> Some (ppn, fa\<lparr>fa_recycled := rest\<rparr>)
      | None \<Rightarrow>
          if fa_current fa = fa_end fa then None
          else (let fa' = fa\<lparr>fa_current := fa_current fa + 1\<rparr>
                in Some (fa_current fa' - 1, fa')))"

text \<open>
  The guard reads \<open>MODE == "debug" && ppn >= current || recycled contains ppn\<close>; the first
  argument says whether the build set \<open>MODE=debug\<close>.
\<close>

definition fa_dealloc :: "bool \<Rightarrow> PhysPageNum \<Rightarrow> frame_allocator \<Rightarrow> frame_allocator option" where
  "fa_dealloc debug ppn fa =
     (if debug \<and> ppn \<ge> fa_current fa \<or> ppn \<in> set (fa_recycled fa) then None
      else Some (fa\<lparr>fa_recycled := fa_recycled fa @ [ppn]\<rparr>))"

definition fa_alloc_contiguous :: "usize \<Rightarrow> frame_allocator \<Rightarrow> (usize \<times> frame_allocator) option" where
  "fa_alloc_contiguous num fa =
     (if fa_end fa - fa_current fa < num then None
      else Some (fa_current fa, fa\<lparr>fa_current := fa_current fa + num\<rparr>))"

subsection \<open>Physical memory\<close>

record kmem =
  kfa :: frame_allocator
  pmem :: "PhysPageNum \<Rightarrow> page"
  arcs :: "PhysPageNum \<Rightarrow> nat"

text \<open>\<open>FrameTracker::new\<close> clears the page.\<close>

definition tracker_new :: "PhysPageNum \<Rightarrow> 'a kmem_scheme \<Rightarrow> 'a kmem_scheme" where
  "tracker_new ppn km = km\<lparr>pmem := (pmem km)(ppn := zero_page)\<rparr>"

definition km_alloc :: "'a kmem_scheme \<Rightarrow> (PhysPageNum \<times> 'a kmem_scheme) option" where
  "km_alloc km =
     (case fa_take (kfa km) of
        None \<Rightarrow> None
      | Some (ppn, fa) \<Rightarrow> Some (ppn, tracker_new ppn (km\<lparr>kfa := fa\<rparr>)))"

definition km_alloc_uninit :: "'a kmem_scheme \<Rightarrow> (PhysPageNum \<times> 'a kmem_scheme) option" where
  "km_alloc_uninit km =
     (case fa_take (kfa km) of None \<Rightarrow> None | Some (ppn, fa) \<Rightarrow> Some (ppn, km\<lparr>kfa := fa\<rparr>))"

definition init_frame_allocator :: "PhysAddr \<Rightarrow> PhysAddr \<Rightarrow> 'a kmem_scheme \<Rightarrow> 'a kmem_scheme" where
  "init_frame_allocator ekernel memory_end km =
     km\<lparr>kfa := fa_init (pa_ceil ekernel) (pa_floor memory_end) (kfa km)\<rparr>"

definition unallocated_frames :: "'a kmem_scheme \<Rightarrow> usize" where
  "unallocated_frames km = fa_unallocated_frames (kfa km)"

definition frame_dealloc :: "bool \<Rightarrow> PhysPageNum \<Rightarrow> 'a kmem_scheme \<Rightarrow> 'a kmem_scheme option" where
  "frame_dealloc debug ppn km =
     (case fa_dealloc debug ppn (kfa km) of None \<Rightarrow> None | Some fa \<Rightarrow> Some (km\<lparr>kfa := fa\<rparr>))"

subsection \<open>Arc<FrameTracker>\<close>

definition arc_new :: "PhysPageNum \<Rightarrow> 'a kmem_scheme \<Rightarrow> 'a kmem_scheme" where
  "arc_new ppn km = km\<lparr>arcs := (arcs km)(ppn := 1)\<rparr>"

definition arc_clone :: "PhysPageNum \<Rightarrow> 'a kmem_scheme \<Rightarrow> 'a kmem_scheme" where
  "arc_clone ppn km = km\<lparr>arcs := (arcs km)(ppn := Suc (arcs km ppn))\<rparr>"

definition arc_drop :: "bool \<Rightarrow> PhysPageNum \<Rightarrow> 'a kmem_scheme \<Rightarrow> 'a kmem_scheme option" where
  "arc_drop debug ppn km =
     (let km' = km\<lparr>arcs := (arcs km)(ppn := arcs km ppn - 1)\<rparr>
      in if arcs km' ppn = 0 then frame_dealloc debug ppn km' else Some km')"

fun arc_drop_all :: "bool \<Rightarrow> PhysPageNum list \<Rightarrow> 'a kmem_scheme \<Rightarrow> 'a kmem_scheme option" where
  "arc_drop_all debug [] km = Some km"
| "arc_drop_all debug (p # ps) km =
     (case arc_drop debug p km of None \<Rightarrow> None | Some km' \<Rightarrow> arc_drop_all debug ps km')"

subsection \<open>Allocation with the out-of-memory handler\<close>

type_synonym 'a oom = "usize \<Rightarrow> 'a kmem_scheme \<Rightarrow> (bool \<times> 'a kmem_scheme) option"

text \<open>
  The handler over its phases: the directory tree cache, the current task (if there is one)
  whose address space may be locked, and all tasks. \<open>True\<close> is \<open>Ok(())\<close>.
\<close>

definition oom_handler ::
  "('a kmem_scheme \<Rightarrow> usize \<times> 'a kmem_scheme) \<Rightarrow> ('a kmem_scheme \<Rightarrow> (usize \<times> 'a kmem_scheme) option) option \<Rightarrow>
   (usize \<Rightarrow> 'a kmem_scheme \<Rightarrow> bool \<times> 'a kmem_scheme) \<Rightarrow> 'a oom" where
  "oom_handler dir_tree_oom current_task do_oom req km =
     (let (released, km) = dir_tree_oom km in
      if released \<ge> req then Some (True, km)
      else case current_task of
        None \<Rightarrow> None
      | Some try_shallow_clean \<Rightarrow>
          (let (released, km) =
             (case try_shallow_clean km of
                Some (n, km') \<Rightarrow> (released + n, km')
              | None \<Rightarrow> (released, km)) in
           if released \<ge> req then Some (True, km)
           else Some (do_oom (req - released) km)))"

definition frame_reserve :: "'a oom \<Rightarrow> usize \<Rightarrow> 'a kmem_scheme \<Rightarrow> 'a kmem_scheme option" where
  "frame_reserve oom num km =
     (let remain = unallocated_frames km in
      if remain < num then map_option snd (oom (num - remain) km) else Some km)"

definition frame_alloc :: "'a oom \<Rightarrow> 'a kmem_scheme \<Rightarrow> (PhysPageNum option \<times> 'a kmem_scheme) option" where
  "frame_alloc oom km =
     (case km_alloc km of
        Some (ppn, km') \<Rightarrow> Some (Some ppn, arc_new ppn km')
      | None \<Rightarrow>
          (case oom 1 km of
             None \<Rightarrow> None
           | Some (_, km1) \<Rightarrow>
               (case km_alloc km1 of
                  Some (ppn, km2) \<Rightarrow> Some (Some ppn, arc_new ppn km2)
                | None \<Rightarrow> Some (None, km1))))"

definition frame_alloc_uninit :: "'a oom \<Rightarrow> 'a kmem_scheme \<Rightarrow> (PhysPageNum option \<times> 'a kmem_scheme) option" where
  "frame_alloc_uninit oom km =
     (case km_alloc_uninit km of
        Some (ppn, km') \<Rightarrow> Some (Some ppn, arc_new ppn km')
      | None \<Rightarrow>
          (case oom 1 km of
             None \<Rightarrow> None
           | Some (_, km1) \<Rightarrow>
               (case km_alloc_uninit km1 of
                  Some (ppn, km2) \<Rightarrow> Some (Some ppn, arc_new ppn km2)
                | None \<Rightarrow> Some (None, km1))))"

text \<open>On failure the vector collected so far goes out of scope and its references are dropped.\<close>

fun frames_alloc_loop ::
  "'a oom \<Rightarrow> bool \<Rightarrow> nat \<Rightarrow> PhysPageNum list \<Rightarrow> 'a kmem_scheme \<Rightarrow> (PhysPageNum list option \<times> 'a kmem_scheme) option" where
  "frames_alloc_loop oom debug 0 frames km = Some (Some frames, km)"
| "frames_alloc_loop oom debug (Suc n) frames km =
     (case frame_alloc oom km of
        None \<Rightarrow> None
      | Some (Some ppn, km') \<Rightarrow> frames_alloc_loop oom debug n (frames @ [ppn]) km'
      | Some (None, km') \<Rightarrow> map_option (Pair None) (arc_drop_all debug frames km'))"

definition frames_alloc :: "'a oom \<Rightarrow> bool \<Rightarrow> nat \<Rightarrow> 'a kmem_scheme \<Rightarrow> (PhysPageNum list option \<times> 'a kmem_scheme) option" where
  "frames_alloc oom debug num km = frames_alloc_loop oom debug num [] km"

definition frames_alloc_contiguous_raw :: "usize \<Rightarrow> 'a kmem_scheme \<Rightarrow> (usize \<times> 'a kmem_scheme) option" where
  "frames_alloc_contiguous_raw num km =
     (case fa_alloc_contiguous num (kfa km) of
        None \<Rightarrow> None | Some (start, fa) \<Rightarrow> Some (start, km\<lparr>kfa := fa\<rparr>))"

fun dealloc_contiguous_loop :: "bool \<Rightarrow> nat \<Rightarrow> usize \<Rightarrow> frame_allocator \<Rightarrow> frame_allocator option" where
  "dealloc_contiguous_loop debug 0 ppn fa = Some fa"
| "dealloc_contiguous_loop debug (Suc n) ppn fa =
     (case fa_dealloc debug ppn fa of
        None \<Rightarrow> None | Some fa' \<Rightarrow> dealloc_contiguous_loop debug n (ppn + 1) fa')"

definition frames_dealloc_contiguous :: "bool \<Rightarrow> usize \<Rightarrow> usize \<Rightarrow> 'a kmem_scheme \<Rightarrow> 'a kmem_scheme option" where
  "frames_dealloc_contiguous debug start_ppn num_pages km =
     (case dealloc_contiguous_loop debug (unat num_pages) start_ppn (kfa km) of
        None \<Rightarrow> None | Some fa \<Rightarrow> Some (km\<lparr>kfa := fa\<rparr>))"

subsection \<open>Abstract view\<close>

text \<open>
  The frames at or above the first one \<open>lo\<close> that was handed to \<open>init\<close> are managed. A frame
  is allocated when the bump pointer has passed it and it is not on the recycled stack.
\<close>

definition fa_inv :: "usize \<Rightarrow> frame_allocator \<Rightarrow> bool" where
  "fa_inv lo fa \<longleftrightarrow>
     lo \<le> fa_current fa \<and> fa_current fa \<le> fa_end fa \<and> distinct (fa_recycled fa) \<and>
     (\<forall>p \<in> set (fa_recycled fa). lo \<le> p \<and> p < fa_current fa)"

definition fa_allocated :: "usize \<Rightarrow> frame_allocator \<Rightarrow> PhysPageNum set" where
  "fa_allocated lo fa = {p. lo \<le> p \<and> p < fa_current fa} - set (fa_recycled fa)"

definition fa_free :: "frame_allocator \<Rightarrow> nat" where
  "fa_free fa = unat (fa_end fa) - unat (fa_current fa) + length (fa_recycled fa)"

definition km_inv :: "usize \<Rightarrow> 'a kmem_scheme \<Rightarrow> bool" where
  "km_inv lo km \<longleftrightarrow> fa_inv lo (kfa km)"

definition km_allocated :: "usize \<Rightarrow> 'a kmem_scheme \<Rightarrow> PhysPageNum set" where
  "km_allocated lo km = fa_allocated lo (kfa km)"

definition km_free :: "'a kmem_scheme \<Rightarrow> nat" where
  "km_free km = fa_free (kfa km)"

text \<open>
  The states the allocator reaches from \<open>init\<close>: frames are taken one by one or as a
  contiguous block, and only allocated frames are given back.
\<close>

inductive fa_reach :: "bool \<Rightarrow> PhysPageNum \<Rightarrow> PhysPageNum \<Rightarrow> frame_allocator \<Rightarrow> bool"
  for debug l r where
  reach_init: "l \<le> r \<Longrightarrow> fa_reach debug l r (fa_init l r fa_new)"
| reach_take: "fa_reach debug l r fa \<Longrightarrow> fa_take fa = Some (p, fa') \<Longrightarrow> fa_reach debug l r fa'"
| reach_contiguous:
    "fa_reach debug l r fa \<Longrightarrow> fa_alloc_contiguous n fa = Some (s, fa') \<Longrightarrow> fa_reach debug l r fa'"
| reach_dealloc:
    "fa_reach debug l r fa \<Longrightarrow> p \<in> fa_allocated l fa \<Longrightarrow> fa_dealloc debug p fa = Some fa' \<Longrightarrow>
     fa_reach debug l r fa'"

fun alloc_many :: "('s \<Rightarrow> ('f \<times> 's) option) \<Rightarrow> nat \<Rightarrow> 's \<Rightarrow> ('f list \<times> 's) option" where
  "alloc_many alloc 0 s = Some ([], s)"
| "alloc_many alloc (Suc n) s =
     (case alloc s of
        None \<Rightarrow> None
      | Some (f, s') \<Rightarrow>
          (case alloc_many alloc n s' of None \<Rightarrow> None | Some (fs, s'') \<Rightarrow> Some (f # fs, s'')))"

fun dealloc_many :: "('f \<Rightarrow> 's \<Rightarrow> 's option) \<Rightarrow> 'f list \<Rightarrow> 's \<Rightarrow> 's option" where
  "dealloc_many dealloc [] s = Some s"
| "dealloc_many dealloc (f # fs) s =
     (case dealloc f s of None \<Rightarrow> None | Some s' \<Rightarrow> dealloc_many dealloc fs s')"

section \<open>The interface of a frame pool\<close>

locale frame_pool =
  fixes alloc :: "'s \<Rightarrow> ('f \<times> 's) option"
    and dealloc :: "'f \<Rightarrow> 's \<Rightarrow> 's option"
    and allocated :: "'s \<Rightarrow> 'f set"
    and invar :: "'s \<Rightarrow> bool"
    and free :: "'s \<Rightarrow> nat"
  assumes alloc_fresh: "invar s \<Longrightarrow> alloc s = Some (f, s') \<Longrightarrow> f \<notin> allocated s"
    and alloc_allocated:
      "invar s \<Longrightarrow> alloc s = Some (f, s') \<Longrightarrow> allocated s' = insert f (allocated s)"
    and alloc_invar: "invar s \<Longrightarrow> alloc s = Some (f, s') \<Longrightarrow> invar s'"
    and alloc_free: "invar s \<Longrightarrow> alloc s = Some (f, s') \<Longrightarrow> free s = Suc (free s')"
    and alloc_None: "invar s \<Longrightarrow> alloc s = None \<longleftrightarrow> free s = 0"
    and dealloc_ok: "invar s \<Longrightarrow> f \<in> allocated s \<Longrightarrow>
      \<exists>s'. dealloc f s = Some s' \<and> invar s' \<and> allocated s' = allocated s - {f} \<and>
           free s' = Suc (free s)"
begin

lemma alloc_many_Some:
  "invar s \<Longrightarrow> alloc_many alloc n s = Some (fs, s') \<Longrightarrow>
     length fs = n \<and> distinct fs \<and> set fs \<inter> allocated s = {} \<and>
     allocated s' = set fs \<union> allocated s \<and> invar s' \<and> free s = n + free s'"
proof (induction n arbitrary: s fs)
  case 0
  then show ?case by simp
next
  case (Suc n)
  from Suc.prems(2) obtain f s1 fs1 where f: "alloc s = Some (f, s1)"
    and rest: "alloc_many alloc n s1 = Some (fs1, s')" and fs: "fs = f # fs1"
    by (auto split: option.splits prod.splits)
  note step = alloc_fresh [OF Suc.prems(1) f] alloc_allocated [OF Suc.prems(1) f]
    alloc_free [OF Suc.prems(1) f]
  from Suc.IH [OF alloc_invar [OF Suc.prems(1) f] rest] step
  show ?case by (auto simp: fs)
qed

lemma alloc_many_None: "invar s \<Longrightarrow> alloc_many alloc n s = None \<longleftrightarrow> free s < n"
proof (induction n arbitrary: s)
  case 0
  then show ?case by simp
next
  case (Suc n)
  show ?case
  proof (cases "alloc s")
    case None
    with alloc_None [OF Suc.prems] show ?thesis by simp
  next
    case (Some a)
    then obtain f s1 where f: "alloc s = Some (f, s1)" by (cases a) auto
    with Suc.IH [of s1] alloc_invar [OF Suc.prems f] alloc_free [OF Suc.prems f]
    show ?thesis by (auto split: option.splits prod.splits)
  qed
qed

lemma dealloc_many_ok:
  "invar s \<Longrightarrow> distinct fs \<Longrightarrow> set fs \<subseteq> allocated s \<Longrightarrow>
     \<exists>s'. dealloc_many dealloc fs s = Some s' \<and> invar s' \<and>
          allocated s' = allocated s - set fs \<and> free s' = length fs + free s"
proof (induction fs arbitrary: s)
  case Nil
  then show ?case by simp
next
  case (Cons f fs)
  from Cons.prems have "f \<in> allocated s" by simp
  from dealloc_ok [OF Cons.prems(1) this] obtain s1
    where s1: "dealloc f s = Some s1" "invar s1" "allocated s1 = allocated s - {f}"
      "free s1 = Suc (free s)" by blast
  moreover have "set fs \<subseteq> allocated s1" using Cons.prems s1(3) by auto
  ultimately obtain s2 where "dealloc_many dealloc fs s1 = Some s2" "invar s2"
    "allocated s2 = allocated s1 - set fs" "free s2 = length fs + free s1"
    using Cons.IH [of s1] Cons.prems(2) by auto
  with s1 show ?case by auto
qed

text \<open>Taking any number of frames and giving them back restores the set of allocated frames.\<close>

lemma alloc_dealloc_many:
  assumes "invar s" and "alloc_many alloc n s = Some (fs, s')"
  shows "\<exists>s''. dealloc_many dealloc fs s' = Some s'' \<and> invar s'' \<and>
           allocated s'' = allocated s \<and> free s'' = free s"
proof -
  from alloc_many_Some [OF assms]
  have facts: "length fs = n" "distinct fs" "set fs \<inter> allocated s = {}"
    "allocated s' = set fs \<union> allocated s" "invar s'" "free s = n + free s'" by auto
  from dealloc_many_ok [OF facts(5,2)] facts(4) obtain s''
    where "dealloc_many dealloc fs s' = Some s''" "invar s''"
      "allocated s'' = allocated s' - set fs" "free s'' = length fs + free s'"
    by auto
  with facts show ?thesis by auto
qed

end

section \<open>The stack allocator implements the interface\<close>

lemma fa_recycled_length:
  assumes "fa_inv lo fa"
  shows "length (fa_recycled fa) \<le> unat (fa_current fa) - unat lo"
proof -
  have "unat ` set (fa_recycled fa) \<subseteq> {unat lo..<unat (fa_current fa)}"
    using assms by (auto simp: fa_inv_def word_le_nat_alt word_less_nat_alt)
  then have "card (unat ` set (fa_recycled fa)) \<le> unat (fa_current fa) - unat lo"
    using card_mono [of "{unat lo..<unat (fa_current fa)}"] by simp
  moreover have "card (unat ` set (fa_recycled fa)) = length (fa_recycled fa)"
    using assms
    by (subst card_image) (auto simp: inj_on_def word_unat_eq_iff distinct_card fa_inv_def)
  ultimately show ?thesis by simp
qed

text \<open>The word computed by \<open>unallocated_frames\<close> never wraps: it is the number of free frames.\<close>

lemma unat_fa_unallocated:
  assumes "fa_inv lo fa"
  shows "unat (fa_unallocated_frames fa) = fa_free fa"
proof -
  let ?n = "length (fa_recycled fa)"
  have le: "fa_current fa \<le> fa_end fa" using assms by (simp add: fa_inv_def)
  then have diff: "unat (fa_end fa - fa_current fa) = unat (fa_end fa) - unat (fa_current fa)"
    by (rule unat_sub_no_wrap)
  have end_bound: "unat (fa_end fa) < 2 ^ 64" by (rule unat_u64_bound)
  have n: "?n \<le> unat (fa_current fa)" using fa_recycled_length [OF assms] by simp
  have cur: "unat (fa_current fa) \<le> unat (fa_end fa)" using le by (simp add: word_le_nat_alt)
  have "?n < 2 ^ 64" using n cur end_bound by linarith
  then have "unat (of_nat ?n :: usize) = ?n" by (rule unat_of_nat_u64)
  moreover have "unat (fa_end fa) - unat (fa_current fa) + ?n < 2 ^ 64"
    using n cur end_bound by linarith
  ultimately show ?thesis
    using diff by (simp add: fa_unallocated_frames_def fa_free_def unat_add_no_wrap)
qed

lemma fa_take_cases:
  assumes "fa_inv lo fa" and "fa_take fa = Some (p, fa')"
  shows "p \<notin> fa_allocated lo fa \<and> fa_allocated lo fa' = insert p (fa_allocated lo fa) \<and>
         fa_inv lo fa' \<and> fa_free fa = Suc (fa_free fa') \<and> lo \<le> p \<and> p < fa_end fa"
proof (cases "vec_pop (fa_recycled fa)")
  case None
  then have empty: "fa_recycled fa = []" by simp
  with assms have less: "fa_current fa < fa_end fa" and p: "p = fa_current fa"
    and fa': "fa' = fa\<lparr>fa_current := fa_current fa + 1\<rparr>"
    by (auto simp: fa_take_def fa_inv_def vec_pop_def Let_def split: if_splits)
  have suc: "unat (fa_current fa + 1) = Suc (unat (fa_current fa))"
    using less by (rule unat_Suc_no_wrap)
  with less have "fa_current fa + 1 \<le> fa_end fa"
    by (simp add: word_le_nat_alt word_less_nat_alt)
  moreover have "v < fa_current fa + 1 \<longleftrightarrow> v = fa_current fa \<or> v < fa_current fa" for v
    using suc by (auto simp: word_less_nat_alt word_unat_eq_iff)
  ultimately show ?thesis
    using assms(1) less suc empty
    by (auto simp: p fa' fa_inv_def fa_allocated_def fa_free_def word_le_nat_alt word_less_nat_alt)
next
  case (Some a)
  then obtain rest where "fa_recycled fa = rest @ [p]" and "fa' = fa\<lparr>fa_recycled := rest\<rparr>"
    using assms(2) by (cases a) (auto simp: fa_take_def)
  then show ?thesis
    using assms(1) by (auto simp: fa_inv_def fa_allocated_def fa_free_def)
qed

lemma fa_take_None: "fa_inv lo fa \<Longrightarrow> fa_take fa = None \<longleftrightarrow> fa_free fa = 0"
  by (auto simp: fa_take_def fa_free_def fa_inv_def Let_def word_le_nat_alt word_unat_eq_iff
      split: option.splits)

lemma fa_dealloc_ok:
  assumes "fa_inv lo fa" and "p \<in> fa_allocated lo fa"
  shows "\<exists>fa'. fa_dealloc debug p fa = Some fa' \<and> fa_inv lo fa' \<and>
           fa_allocated lo fa' = fa_allocated lo fa - {p} \<and> fa_free fa' = Suc (fa_free fa)"
  using assms by (auto simp: fa_dealloc_def fa_inv_def fa_allocated_def fa_free_def)

interpretation fpool: frame_pool fa_take "fa_dealloc debug" "fa_allocated lo" "fa_inv lo" fa_free
  for debug lo
  by unfold_locales (blast dest: fa_take_cases intro: fa_dealloc_ok | simp add: fa_take_None)+


section \<open>Allocation on physical memory\<close>

lemmas km_defs = km_inv_def km_allocated_def km_free_def

lemma km_alloc_facts:
  assumes "km_inv lo km" and "km_alloc km = Some (p, km')"
  shows "p \<notin> km_allocated lo km" "km_allocated lo km' = insert p (km_allocated lo km)"
    "km_inv lo km'" "km_free km = Suc (km_free km')"
    "pmem km' = (pmem km)(p := zero_page)" "arcs km' = arcs km"
    "lo \<le> p" "p < fa_end (kfa km)" "fa_end (kfa km') = fa_end (kfa km)"
    "kmem.more km' = kmem.more km"
proof -
  from assms(2) obtain fa where take: "fa_take (kfa km) = Some (p, fa)"
    and km': "km' = tracker_new p (km\<lparr>kfa := fa\<rparr>)"
    by (auto simp: km_alloc_def split: option.splits prod.splits)
  from fa_take_cases [OF assms(1) [unfolded km_inv_def] take]
  show "p \<notin> km_allocated lo km" "km_allocated lo km' = insert p (km_allocated lo km)"
    "km_inv lo km'" "km_free km = Suc (km_free km')"
    "pmem km' = (pmem km)(p := zero_page)" "arcs km' = arcs km" "lo \<le> p" "p < fa_end (kfa km)"
    "kmem.more km' = kmem.more km"
    by (simp_all add: km_defs km' tracker_new_def)
  show "fa_end (kfa km') = fa_end (kfa km)"
    using take by (auto simp: km' tracker_new_def fa_take_def Let_def split: option.splits if_splits)
qed

lemma km_alloc_Some_iff:
  "km_inv lo km \<Longrightarrow> (\<exists>p km'. km_alloc km = Some (p, km')) \<longleftrightarrow> 0 < km_free km"
  using fa_take_None [of lo "kfa km"]
  by (auto simp: km_alloc_def km_defs split: option.splits)

lemma km_alloc_None_iff: "km_inv lo km \<Longrightarrow> km_alloc km = None \<longleftrightarrow> km_free km = 0"
  using km_alloc_Some_iff [of lo km] by (metis neq0_conv not_None_eq surj_pair)

text \<open>While a frame is free the handler is not called, whatever it does.\<close>

lemma frame_alloc_free:
  assumes "km_inv lo km" and "0 < km_free km"
  obtains p km' where "km_alloc km = Some (p, km')"
    and "frame_alloc oom km = Some (Some p, arc_new p km')"
  using km_alloc_Some_iff [OF assms(1)] assms(2) by (auto simp: frame_alloc_def)

lemma arc_new_simps [simp]:
  "kfa (arc_new p km) = kfa km" "pmem (arc_new p km) = pmem km" "kmem.more (arc_new p km) = kmem.more km"
  "arcs (arc_new p km) = (arcs km)(p := 1)"
  "km_inv lo (arc_new p km) = km_inv lo km"
  "km_allocated lo (arc_new p km) = km_allocated lo km" "km_free (arc_new p km) = km_free km"
  by (simp_all add: arc_new_def km_defs)

lemma frames_alloc_loop_ok:
  "km_inv lo km \<Longrightarrow> n \<le> km_free km \<Longrightarrow> distinct frames \<Longrightarrow> set frames \<subseteq> km_allocated lo km \<Longrightarrow>
     \<exists>fs km'. frames_alloc_loop oom debug n frames km = Some (Some (frames @ fs), km') \<and>
       length fs = n \<and> distinct (frames @ fs) \<and> set fs \<inter> km_allocated lo km = {} \<and>
       km_allocated lo km' = set fs \<union> km_allocated lo km \<and> km_inv lo km' \<and>
       km_free km = n + km_free km' \<and>
       (\<forall>f \<in> set fs. pmem km' f = zero_page \<and> arcs km' f = 1) \<and>
       (\<forall>f. f \<notin> set fs \<longrightarrow> pmem km' f = pmem km f \<and> arcs km' f = arcs km f)"
proof (induction n arbitrary: frames km)
  case 0
  then show ?case by simp
next
  case (Suc n)
  from Suc.prems(2) have pos: "0 < km_free km" by simp
  from frame_alloc_free [OF Suc.prems(1) pos] obtain p km1
    where alloc: "km_alloc km = Some (p, km1)"
      and fa: "frame_alloc oom km = Some (Some p, arc_new p km1)" by blast
  note facts = km_alloc_facts [OF Suc.prems(1) alloc]
  have "n \<le> km_free (arc_new p km1)" using facts(4) Suc.prems(2) by simp
  moreover have "distinct (frames @ [p])" "set (frames @ [p]) \<subseteq> km_allocated lo (arc_new p km1)"
    using Suc.prems(3,4) facts(1,2) by auto
  moreover have "km_inv lo (arc_new p km1)" using facts(3) by simp
  ultimately obtain fs km' where IH:
    "frames_alloc_loop oom debug n (frames @ [p]) (arc_new p km1) = Some (Some ((frames @ [p]) @ fs), km')"
    "length fs = n" "distinct ((frames @ [p]) @ fs)" "set fs \<inter> km_allocated lo (arc_new p km1) = {}"
    "km_allocated lo km' = set fs \<union> km_allocated lo (arc_new p km1)" "km_inv lo km'"
    "km_free (arc_new p km1) = n + km_free km'"
    "\<forall>f \<in> set fs. pmem km' f = zero_page \<and> arcs km' f = 1"
    "\<forall>f. f \<notin> set fs \<longrightarrow> pmem km' f = pmem (arc_new p km1) f \<and> arcs km' f = arcs (arc_new p km1) f"
    using Suc.IH [of "arc_new p km1" "frames @ [p]"] by blast
  have "frames_alloc_loop oom debug (Suc n) frames km = Some (Some (frames @ (p # fs)), km')"
    using IH(1) by (simp add: fa)
  then show ?case
    using IH facts by (intro exI [of _ "p # fs"] exI [of _ km']) auto
qed

text \<open>Dropping a reference gives the frame back when it was the sole one.\<close>

lemma arc_drop_ok:
  assumes "km_inv lo km" and "p \<in> km_allocated lo km" and "0 < arcs km p"
  shows "\<exists>fa. arc_drop debug p km = Some (km\<lparr>kfa := fa, arcs := (arcs km)(p := arcs km p - 1)\<rparr>) \<and>
    fa_inv lo fa \<and> fa_end fa = fa_end (kfa km) \<and>
    fa_allocated lo fa = km_allocated lo km - (if arcs km p = 1 then {p} else {}) \<and>
    fa_free fa = km_free km + (if arcs km p = 1 then 1 else 0)"
proof (cases "arcs km p = 1")
  case True
  from fa_dealloc_ok [of lo "kfa km" p debug] assms(1,2) obtain fa
    where fa: "fa_dealloc debug p (kfa km) = Some fa" "fa_inv lo fa"
      "fa_allocated lo fa = fa_allocated lo (kfa km) - {p}" "fa_free fa = Suc (fa_free (kfa km))"
    by (auto simp: km_defs)
  moreover have "fa_end fa = fa_end (kfa km)" using fa(1) by (auto simp: fa_dealloc_def split: if_splits)
  ultimately show ?thesis
    using True by (intro exI [of _ fa]) (simp add: arc_drop_def frame_dealloc_def km_defs Let_def)
next
  case False
  then show ?thesis using assms
    by (intro exI [of _ "kfa km"]) (simp add: arc_drop_def km_defs Let_def)
qed

lemma arc_drop_last:
  assumes "km_inv lo km" and "p \<in> km_allocated lo km" and "arcs km p = 1"
  shows "\<exists>km'. arc_drop debug p km = Some km' \<and> km_inv lo km' \<and>
           km_allocated lo km' = km_allocated lo km - {p} \<and> km_free km' = Suc (km_free km) \<and>
           arcs km' = (arcs km)(p := 0) \<and> pmem km' = pmem km"
proof -
  from fa_dealloc_ok [of lo "kfa km" p debug] assms(1,2) obtain fa
    where "fa_dealloc debug p (kfa km) = Some fa" "fa_inv lo fa"
      "fa_allocated lo fa = fa_allocated lo (kfa km) - {p}" "fa_free fa = Suc (fa_free (kfa km))"
    by (auto simp: km_defs)
  then show ?thesis
    using assms(3) by (simp add: arc_drop_def frame_dealloc_def km_defs Let_def)
qed

lemma arc_drop_all_last:
  "km_inv lo km \<Longrightarrow> distinct ps \<Longrightarrow> set ps \<subseteq> km_allocated lo km \<Longrightarrow> \<forall>p \<in> set ps. arcs km p = 1 \<Longrightarrow>
     \<exists>km'. arc_drop_all debug ps km = Some km' \<and> km_inv lo km' \<and>
       km_allocated lo km' = km_allocated lo km - set ps \<and> km_free km' = length ps + km_free km"
proof (induction ps arbitrary: km)
  case Nil
  then show ?case by simp
next
  case (Cons p ps)
  from arc_drop_last [of lo km p debug] Cons.prems obtain km1
    where km1: "arc_drop debug p km = Some km1" "km_inv lo km1"
      "km_allocated lo km1 = km_allocated lo km - {p}" "km_free km1 = Suc (km_free km)"
      "arcs km1 = (arcs km)(p := 0)" by auto
  have "set ps \<subseteq> km_allocated lo km1" "\<forall>q \<in> set ps. arcs km1 q = 1"
    using Cons.prems km1 by auto
  with Cons.IH [of km1] Cons.prems(2) km1 show ?case by auto
qed

lemma frames_alloc_loop_fail:
  "km_inv lo km \<Longrightarrow> km_free km < n \<Longrightarrow> \<forall>km. oom 1 km = Some (False, km) \<Longrightarrow>
   distinct frames \<Longrightarrow> set frames \<subseteq> km_allocated lo km \<Longrightarrow> \<forall>p \<in> set frames. arcs km p = 1 \<Longrightarrow>
     \<exists>km'. frames_alloc_loop oom debug n frames km = Some (None, km') \<and> km_inv lo km' \<and>
       km_allocated lo km' = km_allocated lo km - set frames \<and>
       km_free km' = length frames + km_free km"
proof (induction n arbitrary: frames km)
  case 0
  then show ?case by simp
next
  case (Suc n)
  show ?case
  proof (cases "km_free km = 0")
    case True
    then have "km_alloc km = None" using km_alloc_None_iff [OF Suc.prems(1)] by simp
    then have "frame_alloc oom km = Some (None, km)"
      using Suc.prems(3) by (simp add: frame_alloc_def)
    moreover obtain km' where "arc_drop_all debug frames km = Some km'" "km_inv lo km'"
      "km_allocated lo km' = km_allocated lo km - set frames"
      "km_free km' = length frames + km_free km"
      using arc_drop_all_last [OF Suc.prems(1,4,5,6)] by blast
    ultimately show ?thesis by simp
  next
    case False
    with frame_alloc_free [OF Suc.prems(1)] obtain p km1
      where alloc: "km_alloc km = Some (p, km1)"
        and fa: "frame_alloc oom km = Some (Some p, arc_new p km1)" by blast
    note facts = km_alloc_facts [OF Suc.prems(1) alloc]
    have "km_free (arc_new p km1) < n" using facts(4) Suc.prems(2) by simp
    moreover have "distinct (frames @ [p])" "set (frames @ [p]) \<subseteq> km_allocated lo (arc_new p km1)"
      "\<forall>q \<in> set (frames @ [p]). arcs (arc_new p km1) q = 1" "km_inv lo (arc_new p km1)"
      using Suc.prems(4-6) facts(1-3,6) by auto
    ultimately obtain km' where
      "frames_alloc_loop oom debug n (frames @ [p]) (arc_new p km1) = Some (None, km')"
      "km_inv lo km'" "km_allocated lo km' = km_allocated lo (arc_new p km1) - set (frames @ [p])"
      "km_free km' = length (frames @ [p]) + km_free (arc_new p km1)"
      using Suc.IH [of "arc_new p km1" "frames @ [p]"] Suc.prems(3) by blast
    moreover have "insert p (km_allocated lo km) - insert p (set frames) = km_allocated lo km - set frames"
      using facts(1) by auto
    ultimately show ?thesis using facts(2,4) by (simp add: fa)
  qed
qed

section \<open>Conservation\<close>

lemma fa_count:
  assumes inv: "fa_inv lo fa"
  shows "card (fa_allocated lo fa) + fa_free fa = unat (fa_end fa) - unat lo"
proof -
  have img: "unat ` {p. lo \<le> p \<and> p < fa_current fa} = {unat lo..<unat (fa_current fa)}"
  proof safe
    fix n assume "n \<in> {unat lo..<unat (fa_current fa)}"
    moreover have "unat (fa_current fa) < 2 ^ 64" by (rule unat_u64_bound)
    ultimately have "n = unat (of_nat n :: usize)" "lo \<le> of_nat n" "of_nat n < fa_current fa"
      by (auto simp: word_le_nat_alt word_less_nat_alt unat_of_nat_u64)
    then show "n \<in> unat ` {p. lo \<le> p \<and> p < fa_current fa}" by blast
  qed (auto simp: word_le_nat_alt word_less_nat_alt)
  have "inj_on unat {p. lo \<le> p \<and> p < fa_current fa}"
    by (rule inj_onI) (simp add: word_unat_eq_iff)
  from card_image [OF this] img have c: "card {p. lo \<le> p \<and> p < fa_current fa} = unat (fa_current fa) - unat lo"
    by simp
  have sub: "set (fa_recycled fa) \<subseteq> {p. lo \<le> p \<and> p < fa_current fa}" "distinct (fa_recycled fa)"
    "unat lo \<le> unat (fa_current fa)" "unat (fa_current fa) \<le> unat (fa_end fa)"
    using inv by (auto simp: fa_inv_def word_le_nat_alt)
  have "card (fa_allocated lo fa) = unat (fa_current fa) - unat lo - length (fa_recycled fa)"
    unfolding fa_allocated_def by (simp add: card_Diff_subset sub(1) c distinct_card [OF sub(2)])
  moreover have "length (fa_recycled fa) \<le> unat (fa_current fa) - unat lo"
    using card_mono [OF _ sub(1)] by (simp add: c distinct_card [OF sub(2)])
  ultimately show ?thesis using sub(3,4) by (simp add: fa_free_def)
qed

lemma fa_contiguous_ok:
  assumes inv: "fa_inv lo fa" and alloc: "fa_alloc_contiguous n fa = Some (s, fa')"
  shows "fa_inv lo fa'" "fa_end fa' = fa_end fa"
    "fa_allocated lo fa' = fa_allocated lo fa \<union> {p. s \<le> p \<and> unat p < unat s + unat n}"
    "\<forall>p. s \<le> p \<and> unat p < unat s + unat n \<longrightarrow> p \<notin> fa_allocated lo fa \<and> p < fa_end fa"
proof -
  have n: "\<not> fa_end fa - fa_current fa < n" and s: "s = fa_current fa"
    and fa': "fa' = fa\<lparr>fa_current := fa_current fa + n\<rparr>"
    using alloc by (auto simp: fa_alloc_contiguous_def split: if_splits)
  have le: "lo \<le> fa_current fa" "fa_current fa \<le> fa_end fa" using inv by (simp_all add: fa_inv_def)
  have "unat (fa_end fa - fa_current fa) = unat (fa_end fa) - unat (fa_current fa)"
    by (rule unat_sub_no_wrap [OF le(2)])
  then have sum: "unat (fa_current fa) + unat n \<le> unat (fa_end fa)"
    using n le(2) by (simp add: word_less_nat_alt word_le_nat_alt)
  moreover have "unat (fa_end fa) < 2 ^ 64" by (rule unat_u64_bound)
  ultimately have cur: "unat (fa_current fa + n) = unat (fa_current fa) + unat n"
    by (simp add: unat_word_ariths)
  show "fa_inv lo fa'" using inv sum cur by (auto simp: fa_inv_def fa' word_le_nat_alt word_less_nat_alt)
  show "fa_end fa' = fa_end fa" by (simp add: fa')
  show "fa_allocated lo fa' = fa_allocated lo fa \<union> {p. s \<le> p \<and> unat p < unat s + unat n}"
    using inv cur by (auto simp: fa_allocated_def fa_inv_def fa' s word_le_nat_alt word_less_nat_alt)
  show "\<forall>p. s \<le> p \<and> unat p < unat s + unat n \<longrightarrow> p \<notin> fa_allocated lo fa \<and> p < fa_end fa"
    using sum by (auto simp: fa_allocated_def s word_le_nat_alt word_less_nat_alt)
qed

lemma fa_end_kept:
  "fa_take fa = Some (p, fa') \<Longrightarrow> fa_end fa' = fa_end fa"
  "fa_dealloc debug q fa = Some fa' \<Longrightarrow> fa_end fa' = fa_end fa"
  by (auto simp: fa_take_def fa_dealloc_def Let_def split: option.splits if_splits)

lemma fa_reach_inv: "fa_reach debug l r fa \<Longrightarrow> fa_inv l fa \<and> fa_end fa = r"
proof (induction rule: fa_reach.induct)
  case reach_init
  then show ?case by (simp add: fa_inv_def fa_init_def fa_new_def)
next
  case (reach_take fa p fa')
  then show ?case using fa_take_cases [of l fa p fa'] fa_end_kept(1) [of fa p fa'] by metis
next
  case (reach_contiguous fa n s fa')
  then show ?case using fa_contiguous_ok(1,2) [of l fa n s fa'] by metis
next
  case (reach_dealloc fa p fa')
  then show ?case using fa_dealloc_ok [of l fa p debug] fa_end_kept(2) [of debug p fa fa'] by auto
qed

section \<open>Properties\<close>



text \<open>
  A frame that is handed out is in range and was free, so no frame has two owners; a
  request fails only when no frame is free.
\<close>

theorem alloc_hands_out_free_frame:
  assumes "fa_reach debug l r fa"
  shows "case fa_take fa of
      None \<Rightarrow> fa_free fa = 0
    | Some (p, fa') \<Rightarrow> p \<notin> fa_allocated l fa \<and> l \<le> p \<and> p < r \<and>
        fa_allocated l fa' = insert p (fa_allocated l fa) \<and> fa_free fa = Suc (fa_free fa')"
proof -
  have inv: "fa_inv l fa" and r: "fa_end fa = r" using fa_reach_inv [OF assms] by simp_all
  show ?thesis
  proof (cases "fa_take fa")
    case None
    then show ?thesis using fa_take_None [OF inv] by simp
  next
    case (Some a)
    then show ?thesis using fa_take_cases [OF inv, of "fst a" "snd a"] r by (simp add: case_prod_beta)
  qed
qed

theorem alloc_hands_out_free_frame_witness:
  "\<exists>fa. fa_take (fa_init 16 32 fa_new) = Some (16, fa) \<and> (16 :: usize) \<notin> fa_allocated 16 (fa_init 16 32 fa_new)"
proof -
  have "fa_take (fa_init 16 32 fa_new) =
      Some (16, (fa_init 16 32 fa_new)\<lparr>fa_current := 17\<rparr>)"
    by (simp add: fa_take_def fa_init_def fa_new_def)
  with alloc_hands_out_free_frame [OF reach_init [of 16 32 True]] show ?thesis by simp
qed

text \<open>
  C29. A contiguous allocation returns a block of free, in-range frames and allocates exactly
  that block.
\<close>

theorem contiguous_block_free:
  assumes "fa_reach debug l r fa" and "fa_alloc_contiguous n fa = Some (s, fa')"
  shows "fa_allocated l fa' = fa_allocated l fa \<union> {p. s \<le> p \<and> unat p < unat s + unat n} \<and>
    (\<forall>p. s \<le> p \<and> unat p < unat s + unat n \<longrightarrow> p \<notin> fa_allocated l fa \<and> p < r)"
  using fa_reach_inv [OF assms(1)] fa_contiguous_ok(3,4) [OF _ assms(2)] by auto

theorem contiguous_block_free_witness:
  "(20 :: usize) \<in> fa_allocated 16 ((fa_init 16 32 fa_new)\<lparr>fa_current := 24\<rparr>)"
proof -
  have "fa_alloc_contiguous 8 (fa_init 16 32 fa_new) = Some (16, (fa_init 16 32 fa_new)\<lparr>fa_current := 24\<rparr>)"
    by (simp add: fa_alloc_contiguous_def fa_init_def fa_new_def)
  from contiguous_block_free [OF reach_init [of 16 32 True] this] show ?thesis by simp
qed



end
