(* ===== verification/Mm_Sv39.thy ===== *)
theory Mm_Sv39
  imports Mm_Frame_Allocator
begin

text \<open>
  The three-level Sv39 page table, \<open>os/src/hal/arch/riscv/sv39.rs\<close>, behind the trait
  \<open>PageTable\<close> of \<open>os/src/mm/page_table.rs\<close>, with the permission flags of
  \<open>os/src/mm/map_area.rs\<close>. A table is a root page number and the vector of the frames
  that hold its nodes; the nodes themselves live in physical memory, as 512 double words
  per page. A reference to an entry is the pair of its page and its index.
  The lemmas give the bit-level behaviour of the entries, a well-formedness invariant of
  the tree of nodes (the nodes are allocated frames, no two paths share a node), and the
  refinement of every operation to a finite map from 27-bit page numbers to entries.
\<close>

section \<open>Definitions\<close>

subsection \<open>Flags\<close>

type_synonym PTEFlags = u8
type_synonym MapPermission = u8

definition PTE_V :: PTEFlags where "PTE_V = push_bit 0 1"
definition PTE_R :: PTEFlags where "PTE_R = push_bit 1 1"
definition PTE_W :: PTEFlags where "PTE_W = push_bit 2 1"
definition PTE_X :: PTEFlags where "PTE_X = push_bit 3 1"
definition PTE_U :: PTEFlags where "PTE_U = push_bit 4 1"
definition PTE_G :: PTEFlags where "PTE_G = push_bit 5 1"
definition PTE_A :: PTEFlags where "PTE_A = push_bit 6 1"
definition PTE_D :: PTEFlags where "PTE_D = push_bit 7 1"

definition perm_R :: MapPermission where "perm_R = push_bit 1 1"
definition perm_W :: MapPermission where "perm_W = push_bit 2 1"
definition perm_X :: MapPermission where "perm_X = push_bit 3 1"
definition perm_U :: MapPermission where "perm_U = push_bit 4 1"

text \<open>The operations \<open>bitflags!\<close> generates; \<open>from_bits\<close> refuses undefined bits.\<close>

definition flags_contains :: "u8 \<Rightarrow> u8 \<Rightarrow> bool" where
  "flags_contains a b \<longleftrightarrow> a AND b = b"

definition flags_difference :: "u8 \<Rightarrow> u8 \<Rightarrow> u8" where
  "flags_difference a b = a AND NOT b"

definition perm_all :: MapPermission where
  "perm_all = perm_R OR perm_W OR perm_X OR perm_U"

definition perm_from_bits :: "u8 \<Rightarrow> MapPermission option" where
  "perm_from_bits b = (if b AND NOT perm_all = 0 then Some b else None)"

subsection \<open>Entries\<close>

type_synonym pte = u64

definition PPN_MASK :: u64 where
  "PPN_MASK = push_bit 10 (push_bit 44 1 - 1)"

definition pte_new :: "PhysPageNum \<Rightarrow> PTEFlags \<Rightarrow> pte" where
  "pte_new ppn flags = push_bit 10 ppn OR ucast flags"

definition pte_empty :: pte where
  "pte_empty = 0"

definition pte_ppn :: "pte \<Rightarrow> PhysPageNum" where
  "pte_ppn e = drop_bit 10 (e AND PPN_MASK)"

text \<open>All eight bits of \<open>PTEFlags\<close> are defined, so \<open>from_bits(..).unwrap()\<close> cannot fail.\<close>

definition pte_flags :: "pte \<Rightarrow> PTEFlags" where
  "pte_flags e = ucast e"

definition pte_is_valid :: "pte \<Rightarrow> bool" where
  "pte_is_valid e \<longleftrightarrow> pte_flags e AND PTE_V \<noteq> 0"

definition pte_is_dirty :: "pte \<Rightarrow> bool" where
  "pte_is_dirty e \<longleftrightarrow> pte_flags e AND PTE_D \<noteq> 0"

definition pte_readable :: "pte \<Rightarrow> bool" where
  "pte_readable e \<longleftrightarrow> pte_flags e AND PTE_R \<noteq> 0"

definition pte_writable :: "pte \<Rightarrow> bool" where
  "pte_writable e \<longleftrightarrow> pte_flags e AND PTE_W \<noteq> 0"

definition pte_executable :: "pte \<Rightarrow> bool" where
  "pte_executable e \<longleftrightarrow> pte_flags e AND PTE_X \<noteq> 0"

definition pte_clear_access :: "pte \<Rightarrow> pte" where
  "pte_clear_access e = e AND NOT (ucast PTE_A)"

definition pte_clear_dirty :: "pte \<Rightarrow> pte" where
  "pte_clear_dirty e = e AND NOT (ucast PTE_D)"

definition pte_revoke_read :: "pte \<Rightarrow> pte" where
  "pte_revoke_read e = e AND NOT (ucast PTE_R)"

definition pte_revoke_write :: "pte \<Rightarrow> pte" where
  "pte_revoke_write e = e AND NOT (ucast PTE_W)"

definition pte_revoke_execute :: "pte \<Rightarrow> pte" where
  "pte_revoke_execute e = e AND NOT (ucast PTE_X)"

definition pte_set_permission :: "MapPermission \<Rightarrow> pte \<Rightarrow> pte" where
  "pte_set_permission flags e = (e AND 0xffffffffffffffe1) OR ucast flags"

definition pte_set_ppn :: "PhysPageNum \<Rightarrow> pte \<Rightarrow> pte" where
  "pte_set_ppn ppn e = (e AND NOT PPN_MASK) OR (push_bit 10 ppn AND PPN_MASK)"

subsection \<open>The table\<close>

record sv39 =
  root_ppn :: PhysPageNum
  pt_frames :: "PhysPageNum list"

type_synonym pte_ref = "PhysPageNum \<times> nat"

definition pte_get :: "'a kmem_scheme \<Rightarrow> pte_ref \<Rightarrow> pte" where
  "pte_get km r = dword_at (pmem km (fst r)) (snd r)"

definition pte_set :: "pte_ref \<Rightarrow> pte \<Rightarrow> 'a kmem_scheme \<Rightarrow> 'a kmem_scheme" where
  "pte_set r e km =
     km\<lparr>pmem := (pmem km)(fst r := set_dword (pmem km (fst r)) (snd r) e)\<rparr>"

text \<open>
  \<open>find_pte_create\<close> walks down the index vector, allocating the missing nodes; the last
  entry is returned whether it is valid or not. \<open>None\<close> is the panic of \<open>frame_alloc().unwrap()\<close>.
\<close>

fun find_pte_create_loop ::
  "'a oom \<Rightarrow> usize list \<Rightarrow> PhysPageNum \<Rightarrow> sv39 \<Rightarrow> 'a kmem_scheme \<Rightarrow> (pte_ref \<times> sv39 \<times> 'a kmem_scheme) option" where
  "find_pte_create_loop oom [] ppn pt km = None"
| "find_pte_create_loop oom [i] ppn pt km = Some ((ppn, unat i), pt, km)"
| "find_pte_create_loop oom (i # is) ppn pt km =
     (let r = (ppn, unat i) in
      if \<not> pte_is_valid (pte_get km r) then
        (case frame_alloc oom km of
           Some (Some frame, km1) \<Rightarrow>
             (let km2 = pte_set r (pte_new frame PTE_V) km1;
                  pt' = pt\<lparr>pt_frames := pt_frames pt @ [frame]\<rparr>
              in find_pte_create_loop oom is (pte_ppn (pte_get km2 r)) pt' km2)
         | _ \<Rightarrow> None)
      else find_pte_create_loop oom is (pte_ppn (pte_get km r)) pt km)"

definition find_pte_create :: "'a oom \<Rightarrow> VirtPageNum \<Rightarrow> sv39 \<Rightarrow> 'a kmem_scheme \<Rightarrow> (pte_ref \<times> sv39 \<times> 'a kmem_scheme) option" where
  "find_pte_create oom vpn pt km = find_pte_create_loop oom (vpn_indexes 3 vpn) (root_ppn pt) pt km"

text \<open>\<open>find_pte\<close> and \<open>find_pte_refmut\<close>: every entry on the way, the last included, is valid.\<close>

fun find_pte_loop :: "'a kmem_scheme \<Rightarrow> usize list \<Rightarrow> PhysPageNum \<Rightarrow> pte_ref option" where
  "find_pte_loop km [] ppn = None"
| "find_pte_loop km (i # is) ppn =
     (let r = (ppn, unat i) in
      if \<not> pte_is_valid (pte_get km r) then None
      else if is = [] then Some r
      else find_pte_loop km is (pte_ppn (pte_get km r)))"

definition find_pte_refmut :: "sv39 \<Rightarrow> 'a kmem_scheme \<Rightarrow> VirtPageNum \<Rightarrow> pte_ref option" where
  "find_pte_refmut pt km vpn = find_pte_loop km (vpn_indexes 3 vpn) (root_ppn pt)"

definition find_pte :: "sv39 \<Rightarrow> 'a kmem_scheme \<Rightarrow> VirtPageNum \<Rightarrow> pte option" where
  "find_pte pt km vpn = map_option (pte_get km) (find_pte_loop km (vpn_indexes 3 vpn) (root_ppn pt))"

subsection \<open>PageTable for Sv39PageTable\<close>

definition sv39_new :: "'a oom \<Rightarrow> 'a kmem_scheme \<Rightarrow> (sv39 \<times> 'a kmem_scheme) option" where
  "sv39_new oom km =
     (case frame_alloc oom km of
        Some (Some frame, km') \<Rightarrow> Some (\<lparr>root_ppn = frame, pt_frames = [frame]\<rparr>, km')
      | _ \<Rightarrow> None)"

definition sv39_from_token :: "usize \<Rightarrow> sv39" where
  "sv39_from_token satp = \<lparr>root_ppn = satp AND (push_bit 44 1 - 1), pt_frames = []\<rparr>"

definition sv39_token :: "sv39 \<Rightarrow> usize" where
  "sv39_token pt = push_bit 60 8 OR root_ppn pt"

definition sv39_is_mapped :: "sv39 \<Rightarrow> 'a kmem_scheme \<Rightarrow> VirtPageNum \<Rightarrow> bool" where
  "sv39_is_mapped pt km vpn =
     (case find_pte pt km vpn of Some i \<Rightarrow> (if pte_is_valid i then True else False) | None \<Rightarrow> False)"

definition sv39_map ::
  "'a oom \<Rightarrow> VirtPageNum \<Rightarrow> PhysPageNum \<Rightarrow> MapPermission \<Rightarrow> sv39 \<Rightarrow> 'a kmem_scheme \<Rightarrow> (sv39 \<times> 'a kmem_scheme) option" where
  "sv39_map oom vpn ppn flags pt km =
     (case find_pte_create oom vpn pt km of
        None \<Rightarrow> None
      | Some (r, pt', km') \<Rightarrow>
          if pte_is_valid (pte_get km' r) then None
          else Some (pt', pte_set r (pte_new ppn (flags OR PTE_V OR PTE_A OR PTE_D)) km'))"

definition sv39_unmap :: "sv39 \<Rightarrow> VirtPageNum \<Rightarrow> 'a kmem_scheme \<Rightarrow> 'a kmem_scheme" where
  "sv39_unmap pt vpn km =
     (case find_pte_refmut pt km vpn of Some r \<Rightarrow> pte_set r pte_empty km | None \<Rightarrow> km)"

definition sv39_translate :: "sv39 \<Rightarrow> 'a kmem_scheme \<Rightarrow> VirtPageNum \<Rightarrow> PhysPageNum option" where
  "sv39_translate pt km vpn = map_option pte_ppn (find_pte pt km vpn)"

definition sv39_translate_va :: "sv39 \<Rightarrow> 'a kmem_scheme \<Rightarrow> VirtAddr \<Rightarrow> PhysAddr option" where
  "sv39_translate_va pt km va =
     map_option (\<lambda>e. pa_from_ppn (pte_ppn e) + va_page_offset va) (find_pte pt km (va_floor va))"

definition sv39_block_and_ret_mut :: "sv39 \<Rightarrow> VirtPageNum \<Rightarrow> 'a kmem_scheme \<Rightarrow> PhysPageNum option \<times> 'a kmem_scheme" where
  "sv39_block_and_ret_mut pt vpn km =
     (case find_pte_refmut pt km vpn of
        Some r \<Rightarrow> (let km' = pte_set r (pte_revoke_write (pte_get km r)) km
                   in (Some (pte_ppn (pte_get km' r)), km'))
      | None \<Rightarrow> (None, km))"

text \<open>The setters share their shape: change the entry, or \<open>Err(())\<close> (\<open>None\<close>) when there is none.\<close>

definition sv39_modify :: "(pte \<Rightarrow> pte) \<Rightarrow> sv39 \<Rightarrow> VirtPageNum \<Rightarrow> 'a kmem_scheme \<Rightarrow> 'a kmem_scheme option" where
  "sv39_modify f pt vpn km =
     (case find_pte_refmut pt km vpn of
        Some r \<Rightarrow> Some (pte_set r (f (pte_get km r)) km)
      | None \<Rightarrow> None)"

definition sv39_revoke_read :: "sv39 \<Rightarrow> VirtPageNum \<Rightarrow> 'a kmem_scheme \<Rightarrow> 'a kmem_scheme option" where
  "sv39_revoke_read = sv39_modify pte_revoke_read"

definition sv39_revoke_write :: "sv39 \<Rightarrow> VirtPageNum \<Rightarrow> 'a kmem_scheme \<Rightarrow> 'a kmem_scheme option" where
  "sv39_revoke_write = sv39_modify pte_revoke_write"

definition sv39_revoke_execute :: "sv39 \<Rightarrow> VirtPageNum \<Rightarrow> 'a kmem_scheme \<Rightarrow> 'a kmem_scheme option" where
  "sv39_revoke_execute = sv39_modify pte_revoke_execute"

definition sv39_set_ppn :: "PhysPageNum \<Rightarrow> sv39 \<Rightarrow> VirtPageNum \<Rightarrow> 'a kmem_scheme \<Rightarrow> 'a kmem_scheme option" where
  "sv39_set_ppn ppn = sv39_modify (pte_set_ppn ppn)"

definition sv39_set_pte_flags :: "MapPermission \<Rightarrow> sv39 \<Rightarrow> VirtPageNum \<Rightarrow> 'a kmem_scheme \<Rightarrow> 'a kmem_scheme option" where
  "sv39_set_pte_flags flags = sv39_modify (pte_set_permission flags)"

definition sv39_clear_access_bit :: "sv39 \<Rightarrow> VirtPageNum \<Rightarrow> 'a kmem_scheme \<Rightarrow> 'a kmem_scheme option" where
  "sv39_clear_access_bit = sv39_modify pte_clear_access"

definition sv39_clear_dirty_bit :: "sv39 \<Rightarrow> VirtPageNum \<Rightarrow> 'a kmem_scheme \<Rightarrow> 'a kmem_scheme option" where
  "sv39_clear_dirty_bit = sv39_modify pte_clear_dirty"

definition pte_perm :: "pte \<Rightarrow> MapPermission" where
  "pte_perm e =
     (let f = pte_flags e in
      (if flags_contains f PTE_R then perm_R else 0) OR
      (if flags_contains f PTE_W then perm_W else 0) OR
      (if flags_contains f PTE_X then perm_X else 0) OR
      (if flags_contains f PTE_U then perm_U else 0))"

definition sv39_get_pte_flags :: "sv39 \<Rightarrow> 'a kmem_scheme \<Rightarrow> VirtPageNum \<Rightarrow> MapPermission option" where
  "sv39_get_pte_flags pt km vpn = map_option pte_perm (find_pte pt km vpn)"

definition sv39_is_valid :: "sv39 \<Rightarrow> 'a kmem_scheme \<Rightarrow> VirtPageNum \<Rightarrow> bool option" where
  "sv39_is_valid pt km vpn = map_option pte_is_valid (find_pte pt km vpn)"

definition sv39_is_dirty :: "sv39 \<Rightarrow> 'a kmem_scheme \<Rightarrow> VirtPageNum \<Rightarrow> bool option" where
  "sv39_is_dirty pt km vpn = map_option pte_is_dirty (find_pte pt km vpn)"

definition sv39_readable :: "sv39 \<Rightarrow> 'a kmem_scheme \<Rightarrow> VirtPageNum \<Rightarrow> bool option" where
  "sv39_readable pt km vpn = map_option pte_readable (find_pte pt km vpn)"

definition sv39_writable :: "sv39 \<Rightarrow> 'a kmem_scheme \<Rightarrow> VirtPageNum \<Rightarrow> bool option" where
  "sv39_writable pt km vpn = map_option pte_writable (find_pte pt km vpn)"

definition sv39_executable :: "sv39 \<Rightarrow> 'a kmem_scheme \<Rightarrow> VirtPageNum \<Rightarrow> bool option" where
  "sv39_executable pt km vpn = map_option pte_executable (find_pte pt km vpn)"

subsection \<open>A sample table\<close>

text \<open>
  A three-level table in frames 1, 2 and 3 that maps page 5 to frame 4; memory ends at frame 64.
\<close>

definition sample_perm :: MapPermission where
  "sample_perm = perm_R OR perm_W OR perm_U"

definition sample_pt :: sv39 where
  "sample_pt = \<lparr>root_ppn = 1, pt_frames = [1, 2, 3]\<rparr>"

definition sample_fa :: frame_allocator where
  "sample_fa = \<lparr>fa_current = 5, fa_end = 64, fa_recycled = []\<rparr>"

definition sample_leaf :: pte where
  "sample_leaf = pte_new 4 (sample_perm OR PTE_V OR PTE_A OR PTE_D)"

definition sample_pmem :: "PhysPageNum \<Rightarrow> page" where
  "sample_pmem p =
     (if p = 1 then set_dword zero_page 0 (pte_new 2 PTE_V)
      else if p = 2 then set_dword zero_page 0 (pte_new 3 PTE_V)
      else if p = 3 then set_dword zero_page 5 sample_leaf
      else zero_page)"

definition sample_arcs :: "nat \<Rightarrow> PhysPageNum \<Rightarrow> nat" where
  "sample_arcs n p = (if p = 1 \<or> p = 2 \<or> p = 3 then 1 else if p = 4 then n else 0)"

definition sample_kmem :: kmem where
  "sample_kmem = \<lparr>kfa = sample_fa, pmem = sample_pmem, arcs = sample_arcs 1\<rparr>"

subsection \<open>The tree of nodes and the finite map it stands for\<close>

fun pt_node :: "'a kmem_scheme \<Rightarrow> PhysPageNum \<Rightarrow> nat list \<Rightarrow> PhysPageNum option" where
  "pt_node km p [] = Some p"
| "pt_node km p (i # is) =
     (if pte_is_valid (pte_get km (p, i)) then pt_node km (pte_ppn (pte_get km (p, i))) is else None)"

definition table_path :: "nat list \<Rightarrow> bool" where
  "table_path is \<longleftrightarrow> length is \<le> 2 \<and> (\<forall>i \<in> set is. i < 512)"

definition pt_wf :: "usize \<Rightarrow> sv39 \<Rightarrow> 'a kmem_scheme \<Rightarrow> bool" where
  "pt_wf lo pt km \<longleftrightarrow>
     km_inv lo km \<and> fa_end (kfa km) \<le> push_bit 44 1 \<and>
     set (pt_frames pt) \<subseteq> km_allocated lo km \<and> (\<forall>p \<in> set (pt_frames pt). 0 < arcs km p) \<and>
     (\<forall>is p. table_path is \<longrightarrow> pt_node km (root_ppn pt) is = Some p \<longrightarrow> p \<in> set (pt_frames pt)) \<and>
     (\<forall>is js p. table_path is \<longrightarrow> table_path js \<longrightarrow>
        pt_node km (root_ppn pt) is = Some p \<longrightarrow> pt_node km (root_ppn pt) js = Some p \<longrightarrow> is = js)"

definition fresh_node ::
  "usize \<Rightarrow> sv39 \<Rightarrow> 'a kmem_scheme \<Rightarrow> nat list \<Rightarrow> PhysPageNum \<Rightarrow> nat \<Rightarrow> PhysPageNum \<Rightarrow> 'a kmem_scheme \<Rightarrow> bool" where
  "fresh_node lo pt km is p i f km1 \<longleftrightarrow>
     pt_wf lo pt km \<and> table_path (is @ [i]) \<and> pt_node km (root_ppn pt) is = Some p \<and>
     \<not> pte_is_valid (pte_get km (p, i)) \<and> f \<notin> km_allocated lo km \<and> take_bit 44 f = f \<and>
     pmem km1 = (pmem km)(f := zero_page) \<and> km_inv lo km1 \<and>
     km_allocated lo km1 = insert f (km_allocated lo km) \<and> fa_end (kfa km1) = fa_end (kfa km) \<and>
     arcs km1 = (arcs km)(f := 1)"

definition hang_node :: "PhysPageNum \<Rightarrow> nat \<Rightarrow> PhysPageNum \<Rightarrow> 'a kmem_scheme \<Rightarrow> 'a kmem_scheme" where
  "hang_node p i f km1 = pte_set (p, i) (pte_new f PTE_V) km1"

text \<open>
  What an operation that may allocate nodes leaves alone: the root, every allocated frame
  that is not a node of this table, and all reference counts.
\<close>

definition pt_ext :: "usize \<Rightarrow> sv39 \<Rightarrow> 'a kmem_scheme \<Rightarrow> sv39 \<Rightarrow> 'a kmem_scheme \<Rightarrow> bool" where
  "pt_ext lo pt km pt' km' \<longleftrightarrow>
     pt_wf lo pt' km' \<and> root_ppn pt' = root_ppn pt \<and>
     kmem.more km' = kmem.more km \<and> fa_end (kfa km') = fa_end (kfa km) \<and>
     km_allocated lo km' = km_allocated lo km \<union> set (pt_frames pt') \<and>
     (\<forall>f \<in> km_allocated lo km - set (pt_frames pt). pmem km' f = pmem km f) \<and>
     (\<forall>f \<in> km_allocated lo km. arcs km' f = arcs km f) \<and>
     (\<forall>f. f \<notin> km_allocated lo km' \<longrightarrow> arcs km' f = arcs km f) \<and>
     set (pt_frames pt) \<subseteq> set (pt_frames pt') \<and>
     set (pt_frames pt') \<inter> km_allocated lo km \<subseteq> set (pt_frames pt)"

definition vpn_key :: "VirtPageNum \<Rightarrow> usize" where
  "vpn_key v = take_bit 27 v"

definition vpn_path :: "VirtPageNum \<Rightarrow> nat list" where
  "vpn_path v = [unat (drop_bit 18 v AND 511), unat (drop_bit 9 v AND 511)]"

definition vpn_last :: "VirtPageNum \<Rightarrow> nat" where
  "vpn_last v = unat (v AND 511)"

section \<open>Entries\<close>

lemmas flag_defs = PTE_V_def PTE_R_def PTE_W_def PTE_X_def PTE_U_def PTE_G_def PTE_A_def PTE_D_def
  perm_R_def perm_W_def perm_X_def perm_U_def perm_all_def

lemma PPN_MASK_mask: "PPN_MASK = push_bit 10 (mask 44)"
  by (simp add: PPN_MASK_def mask_eq_exp_minus_1 push_bit_eq_mult)

lemma bit_PPN_MASK: "bit PPN_MASK n \<longleftrightarrow> 10 \<le> n \<and> n < 54"
  by (auto simp: PPN_MASK_mask bit_push_bit_iff bit_mask_iff)

lemma bit_pte_ppn [bits_simps]: "bit (pte_ppn e) n \<longleftrightarrow> n < 44 \<and> bit e (10 + n)"
  by (auto simp: pte_ppn_def bit_drop_bit_eq bit_and_iff bit_PPN_MASK)

lemma bit_pte_flags [bits_simps]: "bit (pte_flags e) n \<longleftrightarrow> n < 8 \<and> bit e n"
  by (auto simp: pte_flags_def bit_unsigned_iff)

lemma bit_pte_new [bits_simps]:
  "bit (pte_new p f) n \<longleftrightarrow> n < 64 \<and> (10 \<le> n \<and> bit p (n - 10) \<or> bit f n)"
  unfolding pte_new_def bit_or_iff bit_push_bit_iff bit_ucast_u8
  using bit_imp_le_length [of f n] by auto

lemma bit_single: "bit (push_bit k 1 :: 'a::len word) n \<longleftrightarrow> n = k \<and> n < LENGTH('a)"
  unfolding bit_push_bit_iff bit_1_iff by auto

lemma bit_PTE [bits_simps]:
  "bit PTE_V n \<longleftrightarrow> n = 0" "bit PTE_R n \<longleftrightarrow> n = 1" "bit PTE_W n \<longleftrightarrow> n = 2" "bit PTE_X n \<longleftrightarrow> n = 3"
  "bit PTE_U n \<longleftrightarrow> n = 4" "bit PTE_G n \<longleftrightarrow> n = 5" "bit PTE_A n \<longleftrightarrow> n = 6" "bit PTE_D n \<longleftrightarrow> n = 7"
  unfolding PTE_V_def PTE_R_def PTE_W_def PTE_X_def PTE_U_def PTE_G_def PTE_A_def PTE_D_def bit_single
  by auto

lemma bit_perm [bits_simps]:
  "bit perm_R n \<longleftrightarrow> n = 1" "bit perm_W n \<longleftrightarrow> n = 2" "bit perm_X n \<longleftrightarrow> n = 3" "bit perm_U n \<longleftrightarrow> n = 4"
  unfolding perm_R_def perm_W_def perm_X_def perm_U_def bit_single by auto

lemma and_flag_nonzero:
  fixes x b :: u8
  assumes "\<And>n. bit b n \<longleftrightarrow> n = k"
  shows "x AND b \<noteq> 0 \<longleftrightarrow> bit x k"
proof -
  have "x AND b = 0 \<longleftrightarrow> (\<forall>n. \<not> bit (x AND b) n)"
    by (metis bit_0_eq bit_word_eqI bot_apply bot_bool_def)
  then show ?thesis by (simp add: bit_and_iff assms)
qed

lemma contains_flag:
  assumes "\<And>n. bit b n \<longleftrightarrow> n = k"
  shows "flags_contains f b \<longleftrightarrow> bit f k"
proof
  assume "flags_contains f b"
  then have "bit (f AND b) k" using assms by (simp add: flags_contains_def)
  then show "bit f k" by (simp add: bit_and_iff)
next
  assume "bit f k"
  then show "flags_contains f b"
    unfolding flags_contains_def by (intro bit_word_eqI) (auto simp: bit_and_iff assms)
qed

lemmas contains_flags = bit_PTE [THEN contains_flag] bit_perm [THEN contains_flag]

lemma pte_flag_bits [bits_simps]:
  "pte_is_valid e \<longleftrightarrow> bit e 0" "pte_is_dirty e \<longleftrightarrow> bit e 7" "pte_readable e \<longleftrightarrow> bit e 1"
  "pte_writable e \<longleftrightarrow> bit e 2" "pte_executable e \<longleftrightarrow> bit e 3"
  by (simp_all add: pte_is_valid_def pte_is_dirty_def pte_readable_def pte_writable_def
      pte_executable_def bit_PTE [THEN and_flag_nonzero] bit_pte_flags)

lemma pte_ppn_new: "pte_ppn (pte_new p f) = take_bit 44 p"
  by (rule bit_word_eqI) (auto simp: bits_simps bit_take_bit_iff bit_u8_beyond)

lemma pte_flags_new [simp]: "pte_flags (pte_new p f) = f"
  by (rule bit_word_eqI) (auto simp: bits_simps)

lemma pte_is_valid_new: "pte_is_valid (pte_new p f) \<longleftrightarrow> bit f 0"
  by (simp add: bits_simps)

lemma pte_is_valid_0 [simp]: "\<not> pte_is_valid 0"
  by (simp add: bits_simps)

lemma bit_perm_all: "bit perm_all n \<longleftrightarrow> n = 1 \<or> n = 2 \<or> n = 3 \<or> n = 4"
  by (auto simp: perm_all_def bit_or_iff bit_perm)

lemma perm_subset_bits:
  "p AND NOT perm_all = 0 \<longleftrightarrow> (\<forall>n. bit p n \<longrightarrow> n = 1 \<or> n = 2 \<or> n = 3 \<or> n = 4)"
proof -
  have "p AND NOT perm_all = 0 \<longleftrightarrow> (\<forall>n. \<not> bit (p AND NOT perm_all) n)"
    by (metis bit_0_eq bit_word_eqI bot_apply bot_bool_def)
  then show ?thesis
    unfolding bit_and_iff bit_not_iff bit_perm_all using bit_imp_le_length [of p] by fastforce
qed

lemma bit_revoke [bits_simps]:
  "bit (pte_revoke_write e) n \<longleftrightarrow> bit e n \<and> n \<noteq> 2"
  "bit (pte_revoke_read e) n \<longleftrightarrow> bit e n \<and> n \<noteq> 1"
  "bit (pte_revoke_execute e) n \<longleftrightarrow> bit e n \<and> n \<noteq> 3"
  "bit (pte_clear_access e) n \<longleftrightarrow> bit e n \<and> n \<noteq> 6"
  "bit (pte_clear_dirty e) n \<longleftrightarrow> bit e n \<and> n \<noteq> 7"
  unfolding pte_revoke_write_def pte_revoke_read_def pte_revoke_execute_def
      pte_clear_access_def pte_clear_dirty_def bit_and_iff bit_not_iff bit_ucast_u8 bit_PTE
  using bit_imp_le_length [of e n] by auto

lemma bit_set_permission [bits_simps]:
  "bit (pte_set_permission f e) n \<longleftrightarrow> bit e n \<and> \<not> (1 \<le> n \<and> n \<le> 4) \<or> bit f n"
proof -
  have m: "(0xffffffffffffffe1 :: u64) = NOT (push_bit 1 (mask 4))"
    by (simp add: mask_numeral)
  have "bit (0xffffffffffffffe1 :: u64) n \<longleftrightarrow> n < 64 \<and> \<not> (1 \<le> n \<and> n \<le> 4)"
    unfolding m bit_not_iff bit_push_bit_iff bit_mask_iff by auto
  then show ?thesis
    unfolding pte_set_permission_def bit_or_iff bit_and_iff bit_ucast_u8
    using bit_imp_le_length [of e n] by auto
qed

lemma bit_set_ppn [bits_simps]:
  "bit (pte_set_ppn p e) n \<longleftrightarrow> (if 10 \<le> n \<and> n < 54 then bit p (n - 10) else bit e n)"
  unfolding pte_set_ppn_def bit_or_iff bit_and_iff bit_not_iff bit_push_bit_iff bit_PPN_MASK
  using bit_imp_le_length [of e n] by auto

lemma bit_if_0: "bit (if b then x else 0 :: 'a::len word) n \<longleftrightarrow> b \<and> bit x n"
  by simp

lemma bit_pte_perm [bits_simps]:
  "bit (pte_perm e) n \<longleftrightarrow> 1 \<le> n \<and> n \<le> 4 \<and> bit e n"
proof -
  have "n = 1 \<or> n = 2 \<or> n = 3 \<or> n = 4 \<longleftrightarrow> 1 \<le> n \<and> n \<le> 4" by linarith
  then show ?thesis
    unfolding pte_perm_def Let_def bit_or_iff bit_if_0 contains_flags bit_pte_flags bit_perm
    by auto
qed

lemma pte_ppn_keeps [simp]:
  "pte_ppn (pte_revoke_write e) = pte_ppn e" "pte_ppn (pte_revoke_read e) = pte_ppn e"
  "pte_ppn (pte_revoke_execute e) = pte_ppn e" "pte_ppn (pte_clear_access e) = pte_ppn e"
  "pte_ppn (pte_clear_dirty e) = pte_ppn e" "pte_ppn (pte_set_permission f e) = pte_ppn e"
  by (rule bit_word_eqI; simp add: bits_simps bit_u8_beyond)+

lemma pte_valid_keeps [simp]:
  "pte_is_valid (pte_revoke_write e) = pte_is_valid e" "pte_is_valid (pte_revoke_read e) = pte_is_valid e"
  "pte_is_valid (pte_revoke_execute e) = pte_is_valid e" "pte_is_valid (pte_clear_access e) = pte_is_valid e"
  "pte_is_valid (pte_clear_dirty e) = pte_is_valid e" "pte_is_valid (pte_set_ppn p e) = pte_is_valid e"
  by (simp_all add: bits_simps)

lemma pte_valid_set_permission: "pte_is_valid e \<Longrightarrow> pte_is_valid (pte_set_permission f e)"
  by (simp add: bits_simps)

lemma pte_ppn_set_ppn: "pte_ppn (pte_set_ppn p e) = take_bit 44 p"
  by (rule bit_word_eqI) (simp add: bits_simps bit_take_bit_iff)

lemma pte_perm_set_permission:
  assumes "f AND NOT perm_all = 0"
  shows "pte_perm (pte_set_permission f e) = f"
  using assms by (intro bit_word_eqI) (auto simp: bits_simps perm_subset_bits)

lemma pte_perm_new:
  assumes "f AND NOT perm_all = 0"
  shows "pte_perm (pte_new p (f OR PTE_V OR PTE_A OR PTE_D)) = f"
  using assms by (intro bit_word_eqI) (auto simp: bits_simps perm_subset_bits bit_or_iff)

section \<open>Walking the tree\<close>

lemma pte_get_set [simp]: "pte_get (pte_set r e km) r = e"
  by (simp add: pte_get_def pte_set_def)

lemma pte_get_set_other [simp]: "r \<noteq> r' \<Longrightarrow> pte_get (pte_set r e km) r' = pte_get km r'"
  by (cases r; cases r') (auto simp: pte_get_def pte_set_def)

lemma pte_set_frame [simp]:
  "kfa (pte_set r e km) = kfa km" "arcs (pte_set r e km) = arcs km"
  "kmem.more (pte_set r e km) = kmem.more km"
  "p \<noteq> fst r \<Longrightarrow> pmem (pte_set r e km) p = pmem km p"
  "km_inv lo (pte_set r e km) = km_inv lo km" "km_free (pte_set r e km) = km_free km"
  "km_allocated lo (pte_set r e km) = km_allocated lo km"
  by (simp_all add: pte_set_def km_defs)

lemma pt_node_append:
  "pt_node km p (is @ js) =
     (case pt_node km p is of None \<Rightarrow> None | Some q \<Rightarrow> pt_node km q js)"
  by (induction "is" arbitrary: p) auto

lemma find_pte_refmut_node:
  "find_pte_refmut pt km v =
     (case pt_node km (root_ppn pt) (vpn_path v) of
        None \<Rightarrow> None
      | Some p \<Rightarrow> if pte_is_valid (pte_get km (p, vpn_last v)) then Some (p, vpn_last v) else None)"
  by (simp add: find_pte_refmut_def vpn_indexes_3 vpn_path_def vpn_last_def)

lemma find_pte_node:
  "find_pte pt km v =
     (case pt_node km (root_ppn pt) (vpn_path v) of
        None \<Rightarrow> None
      | Some p \<Rightarrow> if pte_is_valid (pte_get km (p, vpn_last v)) then Some (pte_get km (p, vpn_last v))
                  else None)"
  by (simp add: find_pte_def vpn_indexes_3 vpn_path_def vpn_last_def)

lemma find_pte_of_refmut: "find_pte pt km v = map_option (pte_get km) (find_pte_refmut pt km v)"
  by (simp add: find_pte_def find_pte_refmut_def)

lemma find_pte_valid: "find_pte pt km v = Some e \<Longrightarrow> pte_is_valid e"
  by (auto simp: find_pte_node split: option.splits if_splits)

lemma sv39_is_mapped_iff: "sv39_is_mapped pt km v \<longleftrightarrow> find_pte pt km v \<noteq> None"
  by (auto simp: sv39_is_mapped_def dest: find_pte_valid split: option.splits)

lemma table_path_vpn [simp]: "table_path (vpn_path v)"
  by (simp add: table_path_def vpn_path_def)

lemma vpn_key_indices:
  "unat (vpn_key v) =
     unat (drop_bit 18 v AND 511) * 2 ^ 18 + unat (drop_bit 9 v AND 511) * 2 ^ 9 + unat (v AND 511)"
proof -
  have "unat (vpn_key v) = unat v mod 2 ^ 27"
    by (simp add: vpn_key_def take_bit_eq_mod unat_mod)
  moreover have "unat (drop_bit 18 v) = unat v div 2 ^ 18" "unat (drop_bit 9 v) = unat v div 2 ^ 9"
    by (simp_all add: drop_bit_eq_div unat_div)
  moreover have "n mod 2 ^ 27 = n div 2 ^ 18 mod 512 * 2 ^ 18 + n div 2 ^ 9 mod 512 * 2 ^ 9 + n mod 512"
    for n :: nat
    using mod_mult2_eq [of n "2 ^ 18" 512] mod_mult2_eq [of n 512 512] by simp
  ultimately show ?thesis by (simp only: unat_and_511)
qed

lemma vpn_key_eq_iff: "vpn_key v = vpn_key w \<longleftrightarrow> vpn_path v = vpn_path w \<and> vpn_last v = vpn_last w"
proof
  assume "vpn_path v = vpn_path w \<and> vpn_last v = vpn_last w"
  then show "vpn_key v = vpn_key w"
    by (simp add: word_unat_eq_iff [of "vpn_key v"] vpn_key_indices vpn_path_def vpn_last_def)
next
  assume "vpn_key v = vpn_key w"
  then have eq: "take_bit 27 v = take_bit 27 w" by (simp add: vpn_key_def)
  have "bit v n = bit w n" if "n < 27" for n
    using arg_cong [OF eq, of "\<lambda>x. bit x n"] that by (simp add: bit_take_bit_iff)
  then have "drop_bit k v AND 511 = drop_bit k w AND 511" if "k \<le> 18" for k
    unfolding and_511_take_bit using that
    by (intro bit_word_eqI) (auto simp: bit_take_bit_iff bit_drop_bit_eq)
  from this [of 18] this [of 9] this [of 0]
  show "vpn_path v = vpn_path w \<and> vpn_last v = vpn_last w"
    by (simp add: vpn_path_def vpn_last_def)
qed

section \<open>The tree under updates\<close>

lemma pt_wfD:
  assumes "pt_wf lo pt km"
  shows "km_inv lo km" "fa_end (kfa km) \<le> push_bit 44 1"
    "set (pt_frames pt) \<subseteq> km_allocated lo km"
    "table_path is \<Longrightarrow> pt_node km (root_ppn pt) is = Some p \<Longrightarrow> p \<in> set (pt_frames pt)"
    "table_path is \<Longrightarrow> table_path js \<Longrightarrow> pt_node km (root_ppn pt) is = Some p \<Longrightarrow>
       pt_node km (root_ppn pt) js = Some p \<Longrightarrow> is = js"
    "q \<in> set (pt_frames pt) \<Longrightarrow> 0 < arcs km q"
  using assms unfolding pt_wf_def by blast+

lemma table_path_prefix: "table_path (is @ js) \<Longrightarrow> table_path is"
  by (auto simp: table_path_def)

lemma pt_node_unchanged:
  "(\<And>pre x rest q. js = pre @ x # rest \<Longrightarrow> pt_node km p pre = Some q \<Longrightarrow>
      pte_get km' (q, x) = pte_get km (q, x)) \<Longrightarrow>
   pt_node km' p js = pt_node km p js"
proof (induction js arbitrary: p)
  case Nil
  then show ?case by simp
next
  case (Cons j js)
  have here: "pte_get km' (p, j) = pte_get km (p, j)"
    using Cons.prems [of "[]" j js p] by simp
  show ?case
  proof (cases "pte_is_valid (pte_get km (p, j))")
    case False
    then show ?thesis by (simp add: here)
  next
    case True
    have "pt_node km' (pte_ppn (pte_get km (p, j))) js = pt_node km (pte_ppn (pte_get km (p, j))) js"
      using True Cons.prems [of "j # pre" for pre] by (intro Cons.IH) auto
    with True show ?thesis by (simp add: here)
  qed
qed

text \<open>Writing an entry of a last-level node moves no node.\<close>

lemma pt_node_leaf_update:
  assumes wf: "pt_wf lo pt km" and node: "pt_node km (root_ppn pt) is = Some p"
    and leaf: "table_path is" "length is = 2" and js: "table_path js"
  shows "pt_node (pte_set (p, k) e km) (root_ppn pt) js = pt_node km (root_ppn pt) js"
proof (rule pt_node_unchanged)
  fix pre x rest q
  assume split: "js = pre @ x # rest" and q: "pt_node km (root_ppn pt) pre = Some q"
  from js split have pre: "table_path pre" "length pre < 2"
    by (auto simp: table_path_def)
  have "q \<noteq> p"
    using pt_wfD(5) [OF wf pre(1) leaf(1) q] node leaf(2) pre(2) by auto
  then show "pte_get (pte_set (p, k) e km) (q, x) = pte_get km (q, x)" by simp
qed

lemma pt_wf_leaf_update:
  assumes wf: "pt_wf lo pt km" and node: "pt_node km (root_ppn pt) is = Some p"
    and leaf: "table_path is" "length is = 2"
  shows "pt_wf lo pt (pte_set (p, k) e km)"
  using wf pt_node_leaf_update [OF wf node leaf]
  unfolding pt_wf_def by (auto simp: km_defs)

lemma find_pte_leaf_update:
  assumes wf: "pt_wf lo pt km" and node: "pt_node km (root_ppn pt) (vpn_path v) = Some p"
  shows "find_pte pt (pte_set (p, vpn_last v) e km) w =
           (if vpn_key w = vpn_key v then (if pte_is_valid e then Some e else None)
            else find_pte pt km w)"
proof -
  have len: "length (vpn_path v) = 2" by (simp add: vpn_path_def)
  have same: "pt_node (pte_set (p, vpn_last v) e km) (root_ppn pt) (vpn_path w) =
      pt_node km (root_ppn pt) (vpn_path w)"
    by (rule pt_node_leaf_update [OF wf node _ len]) simp_all
  show ?thesis
  proof (cases "pt_node km (root_ppn pt) (vpn_path w)")
    case None
    then have "vpn_path w \<noteq> vpn_path v" using node by auto
    with None same show ?thesis by (simp add: find_pte_node vpn_key_eq_iff)
  next
    case (Some q)
    have "q = p \<longleftrightarrow> vpn_path w = vpn_path v"
      using pt_wfD(5) [OF wf _ _ Some, of "vpn_path v"] node Some by auto
    with Some same show ?thesis
      by (cases "(q, vpn_last w) = (p, vpn_last v)") (auto simp: find_pte_node vpn_key_eq_iff)
  qed
qed

text \<open>
  Hanging a fresh, zeroed frame under an invalid entry of an inner node: the facts the two
  allocation steps of \<open>find_pte_create\<close> share.
\<close>

lemma fresh_nodeD:
  assumes "fresh_node lo pt km is p i f km1"
  shows "pt_wf lo pt km" "table_path is" "table_path (is @ [i])"
    "pt_node km (root_ppn pt) is = Some p" "\<not> pte_is_valid (pte_get km (p, i))"
    "p \<in> set (pt_frames pt)" "q \<in> set (pt_frames pt) \<Longrightarrow> q \<noteq> f"
    "pmem km1 = (pmem km)(f := zero_page)"
    "pte_is_valid (pte_new f PTE_V)" "pte_ppn (pte_new f PTE_V) = f"
proof -
  show wf: "pt_wf lo pt km" and path: "table_path (is @ [i])"
    and node: "pt_node km (root_ppn pt) is = Some p"
    and "\<not> pte_is_valid (pte_get km (p, i))" and "pmem km1 = (pmem km)(f := zero_page)"
    using assms by (simp_all add: fresh_node_def)
  show pre: "table_path is" using path by (rule table_path_prefix)
  show "p \<in> set (pt_frames pt)" using wf pre node by (rule pt_wfD(4))
  show "q \<in> set (pt_frames pt) \<Longrightarrow> q \<noteq> f"
    using pt_wfD(3) [OF wf] assms by (auto simp: fresh_node_def)
  show "pte_is_valid (pte_new f PTE_V)" "pte_ppn (pte_new f PTE_V) = f"
    using assms by (simp_all add: fresh_node_def pte_is_valid_new bit_PTE pte_ppn_new)
qed

lemma hang_get:
  assumes "fresh_node lo pt km is p i f km1"
  shows "q \<in> set (pt_frames pt) \<Longrightarrow> (q, x) \<noteq> (p, i) \<Longrightarrow>
           pte_get (hang_node p i f km1) (q, x) = pte_get km (q, x)"
    and "pte_get (hang_node p i f km1) (p, i) = pte_new f PTE_V"
    and "pte_get (hang_node p i f km1) (f, x) = 0"
  using fresh_nodeD(6-8) [OF assms]
  by (auto simp: hang_node_def pte_get_def pte_set_def)

lemma hang_node_other:
  assumes fn: "fresh_node lo pt km is p i f km1"
    and js: "table_path js" and not_below: "\<And>rest. js \<noteq> is @ i # rest"
  shows "pt_node (hang_node p i f km1) (root_ppn pt) js = pt_node km (root_ppn pt) js"
proof (rule pt_node_unchanged)
  note D = fresh_nodeD [OF fn]
  fix pre x rest q
  assume split: "js = pre @ x # rest" and q: "pt_node km (root_ppn pt) pre = Some q"
  from js split have pre: "table_path pre" by (auto simp: table_path_def)
  have "q \<in> set (pt_frames pt)" by (rule pt_wfD(4) [OF D(1) pre q])
  moreover have "(q, x) \<noteq> (p, i)"
    using pt_wfD(5) [OF D(1) pre D(2) q] D(4) split not_below by auto
  ultimately show "pte_get (hang_node p i f km1) (q, x) = pte_get km (q, x)"
    by (rule hang_get(1) [OF fn])
qed

lemma hang_node_new:
  assumes fn: "fresh_node lo pt km is p i f km1"
  shows "pt_node (hang_node p i f km1) (root_ppn pt) (is @ [i]) = Some f"
    and "pt_node (hang_node p i f km1) (root_ppn pt) (is @ i # x # rest) = None"
    and "pt_node km (root_ppn pt) (is @ i # rest) = None"
proof -
  note D = fresh_nodeD [OF fn]
  have "pt_node (hang_node p i f km1) (root_ppn pt) is = Some p"
    using hang_node_other [OF fn D(2)] D(4) by simp
  with D show "pt_node (hang_node p i f km1) (root_ppn pt) (is @ [i]) = Some f"
    "pt_node (hang_node p i f km1) (root_ppn pt) (is @ i # x # rest) = None"
    "pt_node km (root_ppn pt) (is @ i # rest) = None"
    by (simp_all add: pt_node_append hang_get(2,3) [OF fn])
qed

lemma hang_node_cases:
  assumes fn: "fresh_node lo pt km is p i f km1"
    and js: "table_path js" and q: "pt_node (hang_node p i f km1) (root_ppn pt) js = Some q"
  shows "js = is @ [i] \<and> q = f \<or>
    js \<noteq> is @ [i] \<and> pt_node km (root_ppn pt) js = Some q \<and> q \<in> set (pt_frames pt)"
proof (cases "\<exists>rest. js = is @ i # rest")
  case True
  then obtain rest where "js = is @ i # rest" ..
  with q hang_node_new [OF fn] show ?thesis by (cases rest) auto
next
  case False
  then have "pt_node km (root_ppn pt) js = Some q"
    using hang_node_other [OF fn js] q by simp
  with False pt_wfD(4) [OF fresh_nodeD(1) [OF fn] js] show ?thesis by auto
qed

lemma pt_wf_hang:
  assumes fn: "fresh_node lo pt km is p i f km1"
  shows "pt_wf lo (pt\<lparr>pt_frames := pt_frames pt @ [f]\<rparr>) (hang_node p i f km1)"
    (is "pt_wf lo ?pt ?km")
  unfolding pt_wf_def
proof (intro conjI allI impI)
  note wf = fresh_nodeD(1) [OF fn]
  show "km_inv lo ?km" using fn by (simp add: fresh_node_def hang_node_def)
  show "fa_end (kfa ?km) \<le> push_bit 44 1"
    using pt_wfD(2) [OF wf] fn by (simp add: fresh_node_def hang_node_def)
  show "set (pt_frames ?pt) \<subseteq> km_allocated lo ?km"
    using pt_wfD(3) [OF wf] fn by (auto simp: fresh_node_def hang_node_def)
  show "\<forall>q \<in> set (pt_frames ?pt). 0 < arcs ?km q"
    using pt_wfD(6) [OF wf] fn by (auto simp: fresh_node_def hang_node_def)
next
  fix js q assume "table_path js" "pt_node ?km (root_ppn ?pt) js = Some q"
  with hang_node_cases [OF fn, of js q] show "q \<in> set (pt_frames ?pt)" by auto
next
  fix js ks q
  assume js: "table_path js" "pt_node ?km (root_ppn ?pt) js = Some q"
    and ks: "table_path ks" "pt_node ?km (root_ppn ?pt) ks = Some q"
  with hang_node_cases [OF fn, of js q] hang_node_cases [OF fn, of ks q] fresh_nodeD(7) [OF fn]
    pt_wfD(5) [OF fresh_nodeD(1) [OF fn] js(1) ks(1)]
  show "js = ks" by auto
qed

lemma find_pte_hang:
  assumes fn: "fresh_node lo pt km is p i f km1"
  shows "find_pte (pt\<lparr>pt_frames := fs\<rparr>) (hang_node p i f km1) v = find_pte pt km v"
proof (cases "pt_node (hang_node p i f km1) (root_ppn pt) (vpn_path v)")
  case None
  have "pt_node km (root_ppn pt) (vpn_path v) = None"
    using hang_node_other [OF fn, of "vpn_path v"] hang_node_new(3) [OF fn] None
    by (cases "\<exists>rest. vpn_path v = is @ i # rest") auto
  with None show ?thesis by (simp add: find_pte_node)
next
  case (Some q)
  note D = fresh_nodeD [OF fn]
  from hang_node_cases [OF fn table_path_vpn Some] show ?thesis
  proof (elim disjE conjE)
    assume "vpn_path v = is @ [i]" "q = f"
    with Some hang_node_new(3) [OF fn, of "[]"] show ?thesis
      by (simp add: find_pte_node hang_get(3) [OF fn])
  next
    assume q: "pt_node km (root_ppn pt) (vpn_path v) = Some q" "q \<in> set (pt_frames pt)"
    have "length is < 2" using D(3) by (simp add: table_path_def)
    then have "vpn_path v \<noteq> is" by (auto simp: vpn_path_def)
    then have "q \<noteq> p" using pt_wfD(5) [OF D(1) _ D(2) q(1)] D(4) by auto
    then have "pte_get (hang_node p i f km1) (q, x) = pte_get km (q, x)" for x
      using q(2) by (intro hang_get(1) [OF fn]) auto
    with Some q(1) show ?thesis by (simp add: find_pte_node)
  qed
qed


lemma pt_ext_refl [intro]: "pt_wf lo pt km \<Longrightarrow> pt_ext lo pt km pt km"
  using pt_wfD(3) [of lo pt km] by (auto simp: pt_ext_def)

lemma pt_ext_trans [trans]:
  assumes "pt_ext lo pt1 km1 pt2 km2" and "pt_ext lo pt2 km2 pt3 km3"
  shows "pt_ext lo pt1 km1 pt3 km3"
proof -
  have "pmem km3 f = pmem km1 f" if "f \<in> km_allocated lo km1 - set (pt_frames pt1)" for f
  proof -
    from that assms(1) have "f \<in> km_allocated lo km2 - set (pt_frames pt2)"
      by (auto simp: pt_ext_def)
    with assms(2) have "pmem km3 f = pmem km2 f" by (simp add: pt_ext_def)
    also have "\<dots> = pmem km1 f" using assms(1) that by (simp add: pt_ext_def)
    finally show ?thesis .
  qed
  moreover have "arcs km3 f = arcs km1 f" if "f \<in> km_allocated lo km1" for f
  proof -
    have "f \<in> km_allocated lo km2" using assms(1) that by (simp add: pt_ext_def)
    with that assms show ?thesis by (simp add: pt_ext_def)
  qed
  moreover have "set (pt_frames pt3) \<inter> km_allocated lo km1 \<subseteq> set (pt_frames pt1)"
    "km_allocated lo km3 = km_allocated lo km1 \<union> set (pt_frames pt3)"
    "set (pt_frames pt1) \<subseteq> set (pt_frames pt3)"
    using assms unfolding pt_ext_def by blast+
  moreover have "arcs km3 f = arcs km1 f" if "f \<notin> km_allocated lo km3" for f
  proof -
    have "f \<notin> km_allocated lo km2" using assms(2) that by (simp add: pt_ext_def)
    with that assms show ?thesis by (simp add: pt_ext_def)
  qed
  moreover have "kmem.more km3 = kmem.more km1" "fa_end (kfa km3) = fa_end (kfa km1)"
    "root_ppn pt3 = root_ppn pt1" "pt_wf lo pt3 km3"
    using assms by (simp_all add: pt_ext_def)
  ultimately show ?thesis by (simp add: pt_ext_def)
qed

lemma frame_below_end:
  assumes "f < fa_end fa" and "fa_end fa \<le> push_bit 44 1"
  shows "take_bit 44 f = f"
proof -
  have "f < 2 ^ 44" using assms by (simp add: push_bit_eq_mult)
  then have "unat f < 2 ^ 44" by (simp add: word_less_nat_alt)
  then show ?thesis by (simp add: word_unat_eq_iff unsigned_take_bit_eq take_bit_nat_eq_self)
qed

text \<open>One step of the walk of \<open>find_pte_create\<close>, through an existing or a new node.\<close>

lemma find_pte_create_step:
  assumes wf: "pt_wf lo pt km" and free: "0 < km_free km"
    and node: "pt_node km (root_ppn pt) is = Some p" and path: "table_path (is @ [unat i])"
    and rest: "rest \<noteq> []"
  shows "\<exists>q pt' km'. find_pte_create_loop oom (i # rest) p pt km = find_pte_create_loop oom rest q pt' km' \<and>
    pt_node km' (root_ppn pt) (is @ [unat i]) = Some q \<and> pt_ext lo pt km pt' km' \<and>
    (\<forall>w. find_pte pt' km' w = find_pte pt km w) \<and> km_free km \<le> Suc (km_free km')"
proof (cases "pte_is_valid (pte_get km (p, unat i))")
  case True
  obtain j js where "rest = j # js" using rest by (cases rest) auto
  with True have "find_pte_create_loop oom (i # rest) p pt km =
      find_pte_create_loop oom rest (pte_ppn (pte_get km (p, unat i))) pt km" by simp
  moreover have "pt_node km (root_ppn pt) (is @ [unat i]) = Some (pte_ppn (pte_get km (p, unat i)))"
    using True node by (simp add: pt_node_append)
  moreover have "pt_ext lo pt km pt km" using wf ..
  ultimately show ?thesis by (metis le_Suc_eq le_refl)
next
  case False
  note inv = pt_wfD(1) [OF wf]
  from frame_alloc_free [OF inv free] obtain f km0 where alloc: "km_alloc km = Some (f, km0)"
    and fa: "frame_alloc oom km = Some (Some f, arc_new f km0)" by blast
  note A = km_alloc_facts [OF inv alloc]
  define km1 where "km1 = arc_new f km0"
  have fn: "fresh_node lo pt km is p (unat i) f km1"
    using wf path node False A frame_below_end [OF A(8) pt_wfD(2) [OF wf]]
    by (simp add: fresh_node_def km1_def)
  note D = fresh_nodeD [OF fn]
  let ?km = "hang_node p (unat i) f km1" and ?pt = "pt\<lparr>pt_frames := pt_frames pt @ [f]\<rparr>"
  obtain j js where "rest = j # js" using rest by (cases rest) auto
  with False have loop: "find_pte_create_loop oom (i # rest) p pt km =
      find_pte_create_loop oom rest f ?pt ?km"
    by (simp add: fa Let_def D(10) flip: hang_node_def km1_def)
       (simp add: hang_node_def D(10))
  have "pmem ?km g = pmem km g" if "g \<in> km_allocated lo km - set (pt_frames pt)" for g
  proof -
    have "g \<noteq> p" "g \<noteq> f" using that D(6) A(1) by auto
    then show ?thesis by (simp add: hang_node_def km1_def A(5))
  qed
  then have "pt_ext lo pt km ?pt ?km"
    using pt_wf_hang [OF fn] A(1,2) pt_wfD(3) [OF wf]
    by (auto simp: pt_ext_def hang_node_def km1_def A(6,9,10))
  moreover have "km_free km \<le> Suc (km_free ?km)" by (simp add: hang_node_def km1_def A(4))
  ultimately show ?thesis
    using loop hang_node_new(1) [OF fn] find_pte_hang [OF fn] by blast
qed

lemma find_pte_create_ok:
  assumes wf: "pt_wf lo pt km" and free: "2 \<le> km_free km"
  shows "\<exists>p pt' km'. find_pte_create oom v pt km = Some ((p, vpn_last v), pt', km') \<and>
    pt_node km' (root_ppn pt) (vpn_path v) = Some p \<and> pt_ext lo pt km pt' km' \<and>
    (\<forall>w. find_pte pt' km' w = find_pte pt km w) \<and> km_free km \<le> km_free km' + 2"
proof -
  let ?a = "drop_bit 18 v AND 511" and ?b = "drop_bit 9 v AND 511" and ?c = "v AND 511"
  have "table_path ([] @ [unat ?a])" by (simp add: table_path_def)
  from find_pte_create_step [OF wf _ _ this, of "root_ppn pt" "[?b, ?c]" oom] free
  obtain q pt1 km1 where s1:
    "find_pte_create_loop oom [?a, ?b, ?c] (root_ppn pt) pt km = find_pte_create_loop oom [?b, ?c] q pt1 km1"
    "pt_node km1 (root_ppn pt) [unat ?a] = Some q" "pt_ext lo pt km pt1 km1"
    "\<forall>w. find_pte pt1 km1 w = find_pte pt km w" "km_free km \<le> Suc (km_free km1)"
    by auto
  have wf1: "pt_wf lo pt1 km1" and root1: "root_ppn pt1 = root_ppn pt"
    using s1(3) by (simp_all add: pt_ext_def)
  have "table_path ([unat ?a] @ [unat ?b])" by (simp add: table_path_def)
  from find_pte_create_step [OF wf1 _ _ this, of q "[?c]" oom] free s1(2,5) root1
  obtain p pt2 km2 where s2:
    "find_pte_create_loop oom [?b, ?c] q pt1 km1 = find_pte_create_loop oom [?c] p pt2 km2"
    "pt_node km2 (root_ppn pt) [unat ?a, unat ?b] = Some p" "pt_ext lo pt1 km1 pt2 km2"
    "\<forall>w. find_pte pt2 km2 w = find_pte pt1 km1 w" "km_free km1 \<le> Suc (km_free km2)"
    by auto
  from s1 s2 have "find_pte_create oom v pt km = Some ((p, vpn_last v), pt2, km2)"
    by (simp add: find_pte_create_def vpn_indexes_3 vpn_last_def)
  moreover have "pt_node km2 (root_ppn pt) (vpn_path v) = Some p"
    using s2(2) by (simp add: vpn_path_def)
  moreover have "pt_ext lo pt km pt2 km2" using s1(3) s2(3) by (rule pt_ext_trans)
  moreover have "km_free km \<le> km_free km2 + 2" using s1(5) s2(5) by simp
  ultimately show ?thesis using s1(4) s2(4) by metis
qed

section \<open>The operations on the finite map\<close>

lemma vpn_last_less: "vpn_last v < 512"
proof -
  have "v AND 511 \<le> 511" by (rule word_and_le1)
  then show ?thesis by (simp add: vpn_last_def word_le_nat_alt)
qed

lemma length_vpn_path [simp]: "length (vpn_path v) = 2"
  by (simp add: vpn_path_def)

lemma find_pte_key: "vpn_key w = vpn_key v \<Longrightarrow> find_pte pt km w = find_pte pt km v"
  unfolding find_pte_node by (auto simp: vpn_key_eq_iff [of w v] cong: option.case_cong if_cong)

lemma pte_set_other_frame: "p \<in> F \<Longrightarrow> f \<notin> F \<Longrightarrow> pmem (pte_set (p, k) e km) f = pmem km f"
  by (subst pte_set_frame(4)) auto

lemma find_pte_at_node:
  "pt_node km (root_ppn pt) (vpn_path v) = Some p \<Longrightarrow>
   find_pte pt km v = (if pte_is_valid (pte_get km (p, vpn_last v)) then Some (pte_get km (p, vpn_last v)) else None)"
  by (simp add: find_pte_node)

lemma find_pte_frames [simp]: "find_pte (pt\<lparr>pt_frames := fs\<rparr>) km v = find_pte pt km v"
  by (simp add: find_pte_def)

lemma sv39_map_ok:
  assumes wf: "pt_wf lo pt km" and free: "2 \<le> km_free km" and unmapped: "find_pte pt km v = None"
  shows "\<exists>pt' km'. sv39_map oom v ppn flags pt km = Some (pt', km') \<and> pt_ext lo pt km pt' km' \<and>
    km_free km \<le> km_free km' + 2 \<and>
    (\<forall>w. find_pte pt' km' w =
       (if vpn_key w = vpn_key v then Some (pte_new ppn (flags OR PTE_V OR PTE_A OR PTE_D))
        else find_pte pt km w))"
proof -
  let ?e = "pte_new ppn (flags OR PTE_V OR PTE_A OR PTE_D)"
  from find_pte_create_ok [OF wf free] obtain p pt' km' where c:
    "find_pte_create oom v pt km = Some ((p, vpn_last v), pt', km')"
    "pt_node km' (root_ppn pt) (vpn_path v) = Some p" "pt_ext lo pt km pt' km'"
    "\<forall>w. find_pte pt' km' w = find_pte pt km w" "km_free km \<le> km_free km' + 2" by blast
  have wf': "pt_wf lo pt' km'" and root: "root_ppn pt' = root_ppn pt" using c(3) by (simp_all add: pt_ext_def)
  have node': "pt_node km' (root_ppn pt') (vpn_path v) = Some p" using c(2) root by simp
  have "\<not> pte_is_valid (pte_get km' (p, vpn_last v))"
    using c(4) unmapped find_pte_at_node [OF node'] by (auto split: if_splits)
  then have "sv39_map oom v ppn flags pt km = Some (pt', pte_set (p, vpn_last v) ?e km')"
    by (simp add: sv39_map_def c(1))
  moreover have "pt_wf lo pt' (pte_set (p, vpn_last v) ?e km')"
    by (rule pt_wf_leaf_update [OF wf' node']) simp_all
  moreover have "p \<in> set (pt_frames pt')" using pt_wfD(4) [OF wf' table_path_vpn node'] .
  then have "pt_ext lo pt' km' pt' (pte_set (p, vpn_last v) ?e km')"
    using calculation(2) pt_wfD(3) [OF wf'] by (auto simp: pt_ext_def pte_set_other_frame)
  then have "pt_ext lo pt km pt' (pte_set (p, vpn_last v) ?e km')"
    by (rule pt_ext_trans [OF c(3)])
  moreover have "find_pte pt' (pte_set (p, vpn_last v) ?e km') w =
      (if vpn_key w = vpn_key v then Some ?e else find_pte pt km w)" for w
    using find_pte_leaf_update [OF wf' node', of ?e w] c(4)
    by (simp add: pte_is_valid_new bit_or_iff bit_PTE)
  moreover have "km_free km \<le> km_free (pte_set (p, vpn_last v) ?e km') + 2" using c(5) by simp
  ultimately show ?thesis by blast
qed

lemma sv39_map_mapped:
  assumes wf: "pt_wf lo pt km" and free: "2 \<le> km_free km" and mapped: "find_pte pt km v \<noteq> None"
  shows "sv39_map oom v ppn flags pt km = None"
proof -
  from find_pte_create_ok [OF wf free] obtain p pt' km' where c:
    "find_pte_create oom v pt km = Some ((p, vpn_last v), pt', km')"
    "pt_node km' (root_ppn pt) (vpn_path v) = Some p" "root_ppn pt' = root_ppn pt"
    "\<forall>w. find_pte pt' km' w = find_pte pt km w" unfolding pt_ext_def by blast
  have "find_pte pt' km' v \<noteq> None" using c(4) mapped by simp
  then have "pte_is_valid (pte_get km' (p, vpn_last v))"
    using c(2,3) by (simp add: find_pte_node split: if_splits)
  then show ?thesis by (simp add: sv39_map_def c(1))
qed

text \<open>A change of the entry of a mapped page.\<close>

lemma find_pte_refmut_Some:
  assumes "find_pte_refmut pt km v = Some r"
  obtains p where "r = (p, vpn_last v)" "pt_node km (root_ppn pt) (vpn_path v) = Some p"
    "find_pte pt km v = Some (pte_get km r)"
  using assms that by (auto simp: find_pte_refmut_node find_pte_node split: option.splits if_splits)

lemma find_pte_refmut_None: "find_pte_refmut pt km v = None \<longleftrightarrow> find_pte pt km v = None"
  by (simp add: find_pte_of_refmut)

definition entry_update ::
  "usize \<Rightarrow> sv39 \<Rightarrow> VirtPageNum \<Rightarrow> pte option \<Rightarrow> 'a kmem_scheme \<Rightarrow> 'a kmem_scheme \<Rightarrow> bool" where
  "entry_update lo pt v e km km' \<longleftrightarrow>
     pt_wf lo pt km' \<and> kfa km' = kfa km \<and> arcs km' = arcs km \<and> kmem.more km' = kmem.more km \<and>
     (\<forall>f. f \<notin> set (pt_frames pt) \<longrightarrow> pmem km' f = pmem km f) \<and>
     (\<forall>w. find_pte pt km' w = (if vpn_key w = vpn_key v then e else find_pte pt km w))"

lemma pte_set_entry_update:
  assumes wf: "pt_wf lo pt km" and r: "find_pte_refmut pt km v = Some r"
  shows "entry_update lo pt v (if pte_is_valid e then Some e else None) km (pte_set r e km)"
proof -
  from find_pte_refmut_Some [OF r] obtain p where p: "r = (p, vpn_last v)"
    "pt_node km (root_ppn pt) (vpn_path v) = Some p" by blast
  have "p \<in> set (pt_frames pt)" using pt_wfD(4) [OF wf table_path_vpn p(2)] .
  moreover have "pt_wf lo pt (pte_set r e km)"
    unfolding p(1) by (rule pt_wf_leaf_update [OF wf p(2)]) simp_all
  ultimately show ?thesis
    using find_pte_leaf_update [OF wf p(2), of e] p(1) by (auto simp: entry_update_def pte_set_other_frame)
qed

lemma sv39_unmap_ok:
  assumes wf: "pt_wf lo pt km"
  shows "entry_update lo pt v None km (sv39_unmap pt v km)"
proof (cases "find_pte_refmut pt km v")
  case None
  then have "find_pte pt km v = None" by (simp add: find_pte_refmut_None)
  then have "find_pte pt km w = None" if "vpn_key w = vpn_key v" for w
    using find_pte_key [OF that, of pt km] by simp
  with None wf show ?thesis by (simp add: entry_update_def sv39_unmap_def)
next
  case (Some r)
  from pte_set_entry_update [OF wf Some, of pte_empty] Some show ?thesis
    by (simp add: sv39_unmap_def pte_empty_def)
qed

lemma sv39_modify_ok:
  assumes wf: "pt_wf lo pt km" and e: "find_pte pt km v = Some e" and valid: "pte_is_valid (f e)"
  shows "\<exists>km'. sv39_modify f pt v km = Some km' \<and> entry_update lo pt v (Some (f e)) km km'"
proof -
  obtain r where r: "find_pte_refmut pt km v = Some r" and get: "pte_get km r = e"
    using e by (auto simp: find_pte_of_refmut)
  from pte_set_entry_update [OF wf r, of "f e"] valid r get show ?thesis
    by (simp add: sv39_modify_def)
qed

lemma sv39_modify_None: "find_pte pt km v = None \<Longrightarrow> sv39_modify f pt v km = None"
  by (simp add: sv39_modify_def find_pte_refmut_None [symmetric])

lemma sv39_set_pte_flags_ok:
  assumes "pt_wf lo pt km" and "find_pte pt km v = Some e"
  shows "\<exists>km'. sv39_set_pte_flags f pt v km = Some km' \<and>
           entry_update lo pt v (Some (pte_set_permission f e)) km km'"
  unfolding sv39_set_pte_flags_def
  using assms by (intro sv39_modify_ok) (auto intro: pte_valid_set_permission dest: find_pte_valid)

lemma sv39_block_and_ret_mut_ok:
  assumes wf: "pt_wf lo pt km"
  shows "case find_pte pt km v of
      None \<Rightarrow> sv39_block_and_ret_mut pt v km = (None, km)
    | Some e \<Rightarrow> \<exists>km'. sv39_block_and_ret_mut pt v km = (Some (pte_ppn e), km') \<and>
                 entry_update lo pt v (Some (pte_revoke_write e)) km km'"
proof (cases "find_pte_refmut pt km v")
  case None
  then show ?thesis by (simp add: sv39_block_and_ret_mut_def find_pte_of_refmut)
next
  case (Some r)
  then have e: "find_pte pt km v = Some (pte_get km r)" by (simp add: find_pte_of_refmut)
  then have "pte_is_valid (pte_get km r)" by (rule find_pte_valid)
  with pte_set_entry_update [OF wf Some, of "pte_revoke_write (pte_get km r)"] Some e
  show ?thesis by (simp add: sv39_block_and_ret_mut_def)
qed

lemma sv39_new_ok:
  assumes inv: "km_inv lo km" and free: "0 < km_free km" and small: "fa_end (kfa km) \<le> push_bit 44 1"
  shows "\<exists>pt km'. sv39_new oom km = Some (pt, km') \<and> pt_wf lo pt km' \<and>
    (\<forall>v. find_pte pt km' v = None) \<and> km_free km = Suc (km_free km') \<and>
    km_allocated lo km' = insert (root_ppn pt) (km_allocated lo km) \<and>
    root_ppn pt \<notin> km_allocated lo km"
proof -
  from frame_alloc_free [OF inv free] obtain f km1 where alloc: "km_alloc km = Some (f, km1)"
    and fa: "frame_alloc oom km = Some (Some f, arc_new f km1)" by blast
  note A = km_alloc_facts [OF inv alloc]
  let ?pt = "\<lparr>root_ppn = f, pt_frames = [f]\<rparr>" and ?km = "arc_new f km1"
  have zero: "pte_get ?km (f, i) = 0" for i by (simp add: pte_get_def A(5))
  have node: "pt_node ?km f is = (if is = [] then Some f else None)" for "is"
    by (cases "is") (simp_all add: zero del: arc_new_simps)
  have "pt_wf lo ?pt ?km"
    using A small by (auto simp: pt_wf_def node split: if_splits)
  moreover have "find_pte ?pt ?km v = None" for v
    unfolding find_pte_node sv39.simps node by (simp add: vpn_path_def)
  ultimately show ?thesis using A(1,2,4) by (auto simp: sv39_new_def fa)
qed

section \<open>The trait PageTable as an interface\<close>

text \<open>
  What the users of a page table rely on for the operations that need no memory. \<open>rest\<close>
  observes everything outside the page table. The clients change a list of pages one by one
  and ignore pages that are not mapped.
\<close>

fun unmap_all :: "('v \<Rightarrow> 's \<Rightarrow> 's) \<Rightarrow> 'v list \<Rightarrow> 's \<Rightarrow> 's" where
  "unmap_all unmap [] s = s"
| "unmap_all unmap (v # vs) s = unmap_all unmap vs (unmap v s)"

fun modify_all :: "('v \<Rightarrow> 's \<Rightarrow> 's option) \<Rightarrow> 'v list \<Rightarrow> 's \<Rightarrow> 's" where
  "modify_all modify [] s = s"
| "modify_all modify (v # vs) s =
     modify_all modify vs (case modify v s of Some s' \<Rightarrow> s' | None \<Rightarrow> s)"

locale page_table =
  fixes lookup :: "'s \<Rightarrow> VirtPageNum \<Rightarrow> pte option"
    and unmap :: "VirtPageNum \<Rightarrow> 's \<Rightarrow> 's"
    and modify :: "(pte \<Rightarrow> pte) \<Rightarrow> VirtPageNum \<Rightarrow> 's \<Rightarrow> 's option"
    and invar :: "'s \<Rightarrow> bool"
    and rest :: "'s \<Rightarrow> 'r"
  assumes unmap_law: "invar s \<Longrightarrow>
      invar (unmap v s) \<and> rest (unmap v s) = rest s \<and>
      (\<forall>w. lookup (unmap v s) w = (if vpn_key w = vpn_key v then None else lookup s w))"
    and modify_law: "invar s \<Longrightarrow> lookup s v = Some e \<Longrightarrow> pte_is_valid (f e) \<Longrightarrow>
      \<exists>s'. modify f v s = Some s' \<and> invar s' \<and> rest s' = rest s \<and>
        (\<forall>w. lookup s' w = (if vpn_key w = vpn_key v then Some (f e) else lookup s w))"
    and modify_unmapped: "lookup s v = None \<Longrightarrow> modify f v s = None"
    and lookup_key: "vpn_key w = vpn_key v \<Longrightarrow> lookup s w = lookup s v"
    and lookup_valid: "lookup s v = Some e \<Longrightarrow> pte_is_valid e"
begin

lemma unmap_all_law:
  "invar s \<Longrightarrow> invar (unmap_all unmap vs s) \<and> rest (unmap_all unmap vs s) = rest s \<and>
     (\<forall>w. lookup (unmap_all unmap vs s) w = (if vpn_key w \<in> vpn_key ` set vs then None else lookup s w))"
proof (induction vs arbitrary: s)
  case Nil
  then show ?case by simp
next
  case (Cons v vs)
  from Cons.IH [of "unmap v s"] unmap_law [OF Cons.prems, of v] show ?case by auto
qed

lemma modify_all_law:
  assumes f: "\<And>e. pte_is_valid e \<Longrightarrow> pte_is_valid (f e)" "\<And>e. f (f e) = f e"
  shows "invar s \<Longrightarrow> invar (modify_all (modify f) vs s) \<and> rest (modify_all (modify f) vs s) = rest s \<and>
     (\<forall>w. lookup (modify_all (modify f) vs s) w =
            (if vpn_key w \<in> vpn_key ` set vs then map_option f (lookup s w) else lookup s w))"
proof (induction vs arbitrary: s)
  case Nil
  then show ?case by simp
next
  case (Cons v vs)
  show ?case
  proof (cases "lookup s v")
    case None
    have "lookup s w = None" if "vpn_key w = vpn_key v" for w using lookup_key [OF that] None by simp
    with Cons.IH [OF Cons.prems] None show ?thesis by (auto simp: modify_unmapped)
  next
    case (Some e)
    have "lookup s w = Some e" if "vpn_key w = vpn_key v" for w using lookup_key [OF that] Some by simp
    moreover from modify_law [where f = f, OF Cons.prems Some f(1) [OF lookup_valid [OF Some]]] obtain s' where
      "modify f v s = Some s'" "invar s'" "rest s' = rest s"
      "\<forall>w. lookup s' w = (if vpn_key w = vpn_key v then Some (f e) else lookup s w)" by blast
    ultimately show ?thesis using Cons.IH [of s'] f(2) by auto
  qed
qed

end

definition outside_table :: "sv39 \<Rightarrow> 'a kmem_scheme \<Rightarrow> frame_allocator \<times> (PhysPageNum \<Rightarrow> nat) \<times> 'a \<times> (PhysPageNum \<Rightarrow> page option)" where
  "outside_table pt km =
     (kfa km, arcs km, kmem.more km, (\<lambda>f. if f \<in> set (pt_frames pt) then None else Some (pmem km f)))"

lemma entry_update_outside: "entry_update lo pt v e km km' \<Longrightarrow> outside_table pt km' = outside_table pt km"
  by (auto simp: entry_update_def outside_table_def)

interpretation ptab: page_table "find_pte pt" "sv39_unmap pt" "\<lambda>f. sv39_modify f pt" "pt_wf lo pt"
  "outside_table pt" for lo pt
proof (unfold_locales, goal_cases)
  case (1 s v)
  from sv39_unmap_ok [OF 1, of v] show ?case
    using entry_update_outside [of lo pt v None s "sv39_unmap pt v s"] by (simp add: entry_update_def)
next
  case (2 s v e f)
  from sv39_modify_ok [where f = f, OF 2] obtain km' where "sv39_modify f pt v s = Some km'"
    "entry_update lo pt v (Some (f e)) s km'" by blast
  then show ?case using entry_update_outside [of lo pt v "Some (f e)" s km'] by (simp add: entry_update_def)
next
  case (3 s v f)
  then show ?case by (rule sv39_modify_None)
next
  case (4 w v s)
  then show ?case by (rule find_pte_key)
next
  case (5 s v e)
  then show ?case by (rule find_pte_valid)
qed

section \<open>The sample table\<close>

lemma sample_pte_get:
  assumes "pmem km = sample_pmem"
  shows "pte_get km (p, i) =
    (if p = 1 \<and> i = 0 then pte_new 2 PTE_V else if p = 2 \<and> i = 0 then pte_new 3 PTE_V
     else if p = 3 \<and> i = 5 then sample_leaf else 0)"
  by (simp add: pte_get_def assms sample_pmem_def dword_at_set_dword)

lemma take_bit_44_small: "n < 2 ^ 44 \<Longrightarrow> take_bit 44 (of_nat n :: usize) = of_nat n"
  by (simp add: take_bit_of_nat take_bit_nat_eq_self)

lemma sample_pte_facts:
  "pte_is_valid (pte_new p PTE_V)" "\<not> pte_is_valid 0" "pte_is_valid sample_leaf"
  "pte_ppn (pte_new 2 PTE_V) = 2" "pte_ppn (pte_new 3 PTE_V) = 3" "pte_ppn sample_leaf = 4"
  using take_bit_44_small [of 2] take_bit_44_small [of 3] take_bit_44_small [of 4]
  by (simp_all add: pte_is_valid_new bit_or_iff bit_PTE pte_ppn_new sample_leaf_def)

lemma sample_node:
  assumes "pmem km = sample_pmem" and "length is \<le> 2"
  shows "pt_node km 1 is =
    (if is = [] then Some 1 else if is = [0] then Some 2 else if is = [0, 0] then Some 3 else None)"
proof -
  note get = sample_pte_get [OF assms(1)]
  consider "is = []" | i where "is = [i]" | i j where "is = [i, j]"
    using assms(2) by (cases "is" rule: remdups_adj.cases) auto
  then show ?thesis by cases (simp_all add: get sample_pte_facts)
qed

lemma sample_pt_wf:
  assumes "kfa km = sample_fa" and "pmem km = sample_pmem" and "arcs km = sample_arcs n"
  shows "pt_wf 1 sample_pt km"
  unfolding pt_wf_def sample_pt_def sv39.simps
proof (intro conjI allI impI)
  show "km_inv 1 km" by (simp add: km_inv_def fa_inv_def assms(1) sample_fa_def)
  show "fa_end (kfa km) \<le> push_bit 44 1" by (simp add: assms(1) sample_fa_def)
  show "set [1, 2, 3] \<subseteq> km_allocated 1 km"
    by (simp add: km_allocated_def fa_allocated_def assms(1) sample_fa_def)
  show "\<forall>p \<in> set [1, 2, 3]. 0 < arcs km p" by (simp add: assms(3) sample_arcs_def)
  show "p \<in> set [1, 2, 3]" if "table_path is" "pt_node km 1 is = Some p" for "is" p
    using that sample_node [OF assms(2), of "is"] by (auto simp: table_path_def split: if_splits)
  show "is = js" if "table_path is" "table_path js" "pt_node km 1 is = Some p" "pt_node km 1 js = Some p"
    for "is" js p
    using that sample_node [OF assms(2), of "is"] sample_node [OF assms(2), of js]
    by (auto simp: table_path_def split: if_splits)
qed

lemma sample_find_pte:
  assumes "pmem km = sample_pmem"
  shows "find_pte sample_pt km v = (if vpn_key v = vpn_key 5 then Some sample_leaf else None)"
proof -
  have "vpn_path 5 = [0, 0]" "vpn_last 5 = 5" by (simp_all add: vpn_path_def vpn_last_def)
  then have "vpn_key v = vpn_key 5 \<longleftrightarrow> vpn_path v = [0, 0] \<and> vpn_last v = 5" by (simp add: vpn_key_eq_iff)
  moreover have "vpn_path v \<noteq> []" "vpn_path v \<noteq> [0]" by (simp_all add: vpn_path_def)
  ultimately show ?thesis
    by (auto simp: find_pte_node sample_pt_def sample_node [OF assms] sample_pte_get [OF assms] sample_pte_facts)
qed

lemma vpn_key_small: "unat v < 2 ^ 27 \<Longrightarrow> vpn_key v = v"
  by (simp add: vpn_key_def word_unat_eq_iff unsigned_take_bit_eq take_bit_nat_eq_self)

lemma sample_kmem_wf: "pt_wf 1 sample_pt sample_kmem" "find_pte sample_pt sample_kmem 6 = None"
  "find_pte sample_pt sample_kmem 5 = Some sample_leaf" "2 \<le> km_free sample_kmem"
  using sample_pt_wf [of sample_kmem 1] sample_find_pte [of sample_kmem]
  by (simp_all add: sample_kmem_def vpn_key_small km_free_def fa_free_def sample_fa_def)

section \<open>Properties\<close>

text \<open>
  C31. \<open>map\<close> implements the update of a finite map. On a well-formed table, with two free
  frames for missing levels, mapping an unmapped page succeeds, keeps the table well-formed,
  makes lookups of that page (all page numbers with the same 27 indexed bits) return the new
  entry with the accessed and dirty bits set, changes no other lookup, and touches no
  allocated frame outside the table.
\<close>

theorem map_updates_lookup:
  assumes "pt_wf lo pt km" and "2 \<le> km_free km" and "find_pte pt km v = None"
  shows "\<exists>pt' km'. sv39_map oom v ppn flags pt km = Some (pt', km') \<and> pt_wf lo pt' km' \<and>
    (\<forall>w. find_pte pt' km' w =
       (if vpn_key w = vpn_key v then Some (pte_new ppn (flags OR PTE_V OR PTE_A OR PTE_D))
        else find_pte pt km w)) \<and>
    (\<forall>f \<in> km_allocated lo km - set (pt_frames pt). pmem km' f = pmem km f)"
  using sv39_map_ok [OF assms, of oom ppn flags] unfolding pt_ext_def by blast

theorem map_updates_lookup_witness:
  "\<exists>pt' km'. sv39_map (\<lambda>_ km. None) 6 9 sample_perm sample_pt sample_kmem = Some (pt', km') \<and>
     find_pte pt' km' 6 = Some (pte_new 9 (sample_perm OR PTE_V OR PTE_A OR PTE_D))"
  using map_updates_lookup [OF sample_kmem_wf(1,4,2), of "\<lambda>_ km. None" 9 sample_perm] by auto

text \<open>C32. Mapping a page that is already mapped panics.\<close>

theorem map_mapped_panics:
  assumes "pt_wf lo pt km" and "2 \<le> km_free km" and "sv39_is_mapped pt km v"
  shows "sv39_map oom v ppn flags pt km = None"
  using sv39_map_mapped [OF assms(1,2), of v oom] assms(3) by (simp add: sv39_is_mapped_iff)

theorem map_mapped_panics_witness:
  "sv39_map (\<lambda>_ km. None) 5 9 sample_perm sample_pt sample_kmem = None"
  using map_mapped_panics [OF sample_kmem_wf(1,4), of 5] sample_kmem_wf(3) by (simp add: sv39_is_mapped_iff)

text \<open>
  \<open>unmap\<close> removes the page from the lookup function, keeps every other lookup and all
  memory outside the table, and on a page that is not mapped changes no lookup at all.
\<close>

theorem unmap_removes_page:
  assumes "pt_wf lo pt km"
  shows "pt_wf lo pt (sv39_unmap pt v km) \<and>
    (\<forall>w. find_pte pt (sv39_unmap pt v km) w = (if vpn_key w = vpn_key v then None else find_pte pt km w)) \<and>
    outside_table pt (sv39_unmap pt v km) = outside_table pt km"
  using ptab.unmap_law [OF assms] by blast

theorem unmap_removes_page_witness:
  "find_pte sample_pt (sv39_unmap sample_pt 5 sample_kmem) 5 = None"
  using unmap_removes_page [OF sample_kmem_wf(1), of 5] by simp

text \<open>
  \<open>set_pte_flags\<close> followed by \<open>get_pte_flags\<close> returns the permissions that were set,
  the page keeps its frame, and other pages are not affected; on an unmapped page it is an
  error.
\<close>

theorem set_flags_get_flags:
  assumes "pt_wf lo pt km" and "f AND NOT perm_all = 0"
  shows "case find_pte pt km v of
      None \<Rightarrow> sv39_set_pte_flags f pt v km = None
    | Some e \<Rightarrow> \<exists>km'. sv39_set_pte_flags f pt v km = Some km' \<and> pt_wf lo pt km' \<and>
        sv39_get_pte_flags pt km' v = Some f \<and> sv39_translate pt km' v = Some (pte_ppn e) \<and>
        (\<forall>w. vpn_key w \<noteq> vpn_key v \<longrightarrow> find_pte pt km' w = find_pte pt km w)"
proof (cases "find_pte pt km v")
  case None
  then show ?thesis by (simp add: sv39_set_pte_flags_def sv39_modify_None)
next
  case (Some e)
  from sv39_set_pte_flags_ok [OF assms(1) Some, of f] obtain km' where
    "sv39_set_pte_flags f pt v km = Some km'" "entry_update lo pt v (Some (pte_set_permission f e)) km km'" by blast
  then show ?thesis
    using Some assms(2) by (auto simp: entry_update_def sv39_get_pte_flags_def sv39_translate_def pte_perm_set_permission)
qed

theorem set_flags_get_flags_witness:
  "\<exists>km'. sv39_set_pte_flags perm_R sample_pt 5 sample_kmem = Some km' \<and>
     sv39_get_pte_flags sample_pt km' 5 = Some perm_R"
proof -
  have "perm_R AND NOT perm_all = 0" by (simp add: flag_defs)
  from set_flags_get_flags [OF sample_kmem_wf(1) this, of 5] sample_kmem_wf(3) show ?thesis by auto
qed

lemma token_find_pte:
  assumes "pt_wf lo pt km"
  shows "root_ppn (sv39_from_token (sv39_token pt)) = root_ppn pt"
    "find_pte (sv39_from_token (sv39_token pt)) km v = find_pte pt km v"
proof -
  have "root_ppn pt \<in> set (pt_frames pt)"
    using pt_wfD(4) [OF assms, of "[]" "root_ppn pt"] by (simp add: table_path_def)
  then have "root_ppn pt \<in> km_allocated lo km" using pt_wfD(3) [OF assms] by blast
  then have "root_ppn pt < fa_end (kfa km)"
    using pt_wfD(1) [OF assms] by (auto simp: km_defs fa_allocated_def fa_inv_def)
  then have root: "take_bit 44 (root_ppn pt) = root_ppn pt" by (rule frame_below_end) (rule pt_wfD(2) [OF assms])
  have "(push_bit 44 1 - 1 :: usize) = mask 44" by (simp add: mask_eq_exp_minus_1)
  then have "root_ppn (sv39_from_token (sv39_token pt)) = take_bit 44 (push_bit 60 8 OR root_ppn pt)"
    by (simp add: sv39_from_token_def sv39_token_def take_bit_eq_mask)
  also have "\<dots> = take_bit 44 (push_bit 60 8) OR take_bit 44 (root_ppn pt)" by (rule take_bit_or)
  also have "take_bit 44 (push_bit 60 8 :: usize) = 0" by (simp add: take_bit_push_bit)
  finally show tok: "root_ppn (sv39_from_token (sv39_token pt)) = root_ppn pt" using root by simp
  then show "find_pte (sv39_from_token (sv39_token pt)) km v = find_pte pt km v" by (simp add: find_pte_def)
qed

lemma pte_ppn_below: "unat (pte_ppn e) < 2 ^ 44"
proof -
  have "pte_ppn e = take_bit 44 (pte_ppn e)"
    by (rule bit_word_eqI) (simp add: bits_simps bit_take_bit_iff)
  then have "unat (pte_ppn e) = unat (pte_ppn e) mod 2 ^ 44"
    by (metis take_bit_eq_mod unsigned_take_bit_eq)
  then show ?thesis by (metis mod_less_divisor zero_less_numeral zero_less_power)
qed

lemma translate_va_split:
  assumes "sv39_translate_va pt km va = Some pa"
  shows "sv39_translate pt km (va_floor va) = Some (pa_floor pa)" "pa_page_offset pa = va_page_offset va"
proof -
  obtain e where e: "find_pte pt km (va_floor va) = Some e" "pa = pa_from_ppn (pte_ppn e) + va_page_offset va"
    using assms by (auto simp: sv39_translate_va_def)
  have "unat (pte_ppn e) < 2 ^ 52" using pte_ppn_below [of e] by simp
  moreover have "unat (va_page_offset va) < 4096" by (simp add: unat_va_page_offset)
  ultimately have "va_floor (vpn_offset (pte_ppn e) (va_page_offset va)) = pte_ppn e"
    "va_page_offset (vpn_offset (pte_ppn e) (va_page_offset va)) = va_page_offset va"
    by (rule va_floor_vpn_offset)+
  then show "sv39_translate pt km (va_floor va) = Some (pa_floor pa)" "pa_page_offset pa = va_page_offset va"
    using e by (simp_all add: sv39_translate_def vpn_offset_def va_floor_def pa_floor_def pa_page_offset_def
        va_page_offset_def pa_from_ppn_def)
qed

text \<open>
  C33. A translated virtual address points to the frame of its page at the same offset, and a
  page table rebuilt from the token of another one translates every address alike.
\<close>

theorem token_round_trip:
  assumes "pt_wf lo pt km"
  shows "root_ppn (sv39_from_token (sv39_token pt)) = root_ppn pt \<and>
    sv39_translate_va (sv39_from_token (sv39_token pt)) km va = sv39_translate_va pt km va \<and>
    (\<forall>pa. sv39_translate_va pt km va = Some pa \<longrightarrow>
       sv39_translate pt km (va_floor va) = Some (pa_floor pa) \<and> pa_page_offset pa = va_page_offset va)"
  using token_find_pte [OF assms] translate_va_split [of pt km va] by (simp add: sv39_translate_va_def)

theorem token_round_trip_witness:
  "sv39_translate_va (sv39_from_token (sv39_token sample_pt)) sample_kmem 0x5123 = Some 0x4123"
proof -
  have "va_floor 0x5123 = 5" by (simp add: va_floor_def PAGE_SIZE_def)
  then have "sv39_translate_va sample_pt sample_kmem 0x5123 = Some 0x4123"
    using sample_kmem_wf(3)
    by (simp add: sv39_translate_va_def sample_pte_facts pa_from_ppn_def va_page_offset_def PAGE_SIZE_def PAGE_SIZE_BITS_def)
  with token_round_trip [OF sample_kmem_wf(1), of "0x5123"] show ?thesis by simp
qed

end
