(* ===== verification/Mm_Zram.thy ===== *)
theory Mm_Zram
  imports Gcore_Prelude
begin

text \<open>
  The compressed page store, \<open>mm/zram.rs\<close>. Slots are numbered by \<open>usize\<close> ids (naturals
  here), the bump pointer \<open>tail\<close> and the recycled ids are 16-bit words as in the code.
  The LZ4 codec (crate \<open>lz4_flex\<close>) is the argument \<open>codec\<close> of the operations that use
  it; \<open>lz4_ok\<close> is its documented round trip. An outer \<^const>\<open>None\<close> is a panic.

  The slot store contract that zram and the swap partition share is the locale
  \<open>slot_store\<close>; it is interpreted here for zram and in \<open>Fs_Swap\<close> for swap.
\<close>

section \<open>Definitions\<close>

datatype zram_error = InvalidIndex | NoSpace | NotAllocated

record lz4 =
  compress_prepend_size :: "u8 list \<Rightarrow> u8 list"
  decompress_size_prepended :: "u8 list \<Rightarrow> u8 list option"

definition lz4_ok :: "lz4 \<Rightarrow> bool" where
  "lz4_ok codec \<longleftrightarrow>
     (\<forall>bs. decompress_size_prepended codec (compress_prepend_size codec bs) = Some bs)"

record zram =
  zr_compressed :: "u8 list option list"
  zr_recycled :: "u16 list"
  zr_tail :: u16

definition zram_new :: "nat \<Rightarrow> zram" where
  "zram_new capacity =
     \<lparr>zr_compressed = vec_resize capacity None [], zr_recycled = [], zr_tail = 0\<rparr>"

definition zram_store :: "nat \<Rightarrow> u8 list \<Rightarrow> zram \<Rightarrow> ((zram_error + nat) \<times> zram) option" where
  "zram_store zram_id data z =
     (if zram_id < length (zr_compressed z)
      then Some (Inr zram_id, z\<lparr>zr_compressed := (zr_compressed z)[zram_id := Some data]\<rparr>)
      else None)"

definition zram_insert :: "u8 list \<Rightarrow> zram \<Rightarrow> ((zram_error + nat) \<times> zram) option" where
  "zram_insert data z =
     (case vec_pop (zr_recycled z) of
        Some (zram_id, recycled) \<Rightarrow> zram_store (unat zram_id) data (z\<lparr>zr_recycled := recycled\<rparr>)
      | None \<Rightarrow>
          if unat (zr_tail z) = length (zr_compressed z) then Some (Inl NoSpace, z)
          else (let tail = zr_tail z + 1
                in zram_store (unat (tail - 1)) data (z\<lparr>zr_tail := tail\<rparr>)))"

definition zram_get :: "nat \<Rightarrow> zram \<Rightarrow> zram_error + u8 list" where
  "zram_get zram_id z =
     (if zram_id \<ge> length (zr_compressed z) then Inl InvalidIndex
      else case zr_compressed z ! zram_id of
        Some compressed_data \<Rightarrow> Inr compressed_data
      | None \<Rightarrow> Inl NotAllocated)"

definition zram_remove :: "nat \<Rightarrow> zram \<Rightarrow> (zram_error + u8 list) \<times> zram" where
  "zram_remove zram_id z =
     (if zram_id \<ge> length (zr_compressed z) then (Inl InvalidIndex, z)
      else
        let z1 = (if zram_id = unat (zr_tail z - 1) then z\<lparr>zr_tail := of_nat zram_id\<rparr>
                  else z\<lparr>zr_recycled := zr_recycled z @ [of_nat zram_id]\<rparr>);
            z2 = z1\<lparr>zr_compressed := (zr_compressed z1)[zram_id := None]\<rparr>
        in case zr_compressed z ! zram_id of
             Some compressed_data \<Rightarrow> (Inr compressed_data, z2)
           | None \<Rightarrow> (Inl NotAllocated, z2))"

text \<open>
  \<open>read\<close> copies into a buffer of \<open>n\<close> bytes; \<open>copy_from_slice\<close> panics when the lengths
  differ, \<open>unwrap\<close> when the stored data does not decompress.
\<close>

definition zram_read :: "lz4 \<Rightarrow> nat \<Rightarrow> nat \<Rightarrow> zram \<Rightarrow> (zram_error + u8 list) option" where
  "zram_read codec zram_id n z =
     (case zram_get zram_id z of
        Inl error \<Rightarrow> Some (Inl error)
      | Inr compressed_data \<Rightarrow>
          (case decompress_size_prepended codec compressed_data of
             None \<Rightarrow> None
           | Some decompressed_data \<Rightarrow>
               if length decompressed_data = n then Some (Inr decompressed_data) else None))"

definition zram_write :: "lz4 \<Rightarrow> u8 list \<Rightarrow> zram \<Rightarrow> ((zram_error + nat) \<times> zram) option" where
  "zram_write codec buf z = zram_insert (compress_prepend_size codec buf) z"

definition zram_discard :: "nat \<Rightarrow> zram \<Rightarrow> (zram_error + unit) \<times> zram" where
  "zram_discard zram_id z =
     (case zram_remove zram_id z of (Inr _, z') \<Rightarrow> (Inr (), z') | (Inl error, z') \<Rightarrow> (Inl error, z'))"

definition ZRAM_DEVICE :: zram where
  "ZRAM_DEVICE = zram_new 2048"

text \<open>Dropping a tracker discards its slot and unwraps the result.\<close>

definition zram_tracker_drop :: "nat \<Rightarrow> zram \<Rightarrow> zram option" where
  "zram_tracker_drop zram_id z =
     (case zram_discard zram_id z of (Inr _, z') \<Rightarrow> Some z' | (Inl _, _) \<Rightarrow> None)"

subsection \<open>Abstract view\<close>

definition zram_live :: "zram \<Rightarrow> nat set" where
  "zram_live z = {i. i < length (zr_compressed z) \<and> zr_compressed z ! i \<noteq> None}"

definition zram_inv :: "zram \<Rightarrow> bool" where
  "zram_inv z \<longleftrightarrow>
     length (zr_compressed z) < 2 ^ 16 \<and> unat (zr_tail z) \<le> length (zr_compressed z) \<and>
     distinct (zr_recycled z) \<and>
     zram_live z = {..<unat (zr_tail z)} - unat ` set (zr_recycled z) \<and>
     unat ` set (zr_recycled z) \<subseteq> {..<unat (zr_tail z)}"

definition zram_put :: "u8 list \<Rightarrow> zram \<Rightarrow> (nat \<times> zram) option" where
  "zram_put data z = (case zram_insert data z of Some (Inr i, z') \<Rightarrow> Some (i, z') | _ \<Rightarrow> None)"

definition zram_lookup :: "nat \<Rightarrow> zram \<Rightarrow> u8 list option" where
  "zram_lookup i z = (case zram_get i z of Inr d \<Rightarrow> Some d | Inl _ \<Rightarrow> None)"

fun put_all :: "('d \<Rightarrow> 's \<Rightarrow> (nat \<times> 's) option) \<Rightarrow> 'd list \<Rightarrow> 's \<Rightarrow> (nat list \<times> 's) option" where
  "put_all put [] s = Some ([], s)"
| "put_all put (d # ds) s =
     (case put d s of
        None \<Rightarrow> None
      | Some (i, s') \<Rightarrow> map_option (\<lambda>(js, s''). (i # js, s'')) (put_all put ds s'))"

section \<open>The contract of a slot store\<close>

locale slot_store =
  fixes put :: "'d \<Rightarrow> 's \<Rightarrow> (nat \<times> 's) option"
    and look :: "nat \<Rightarrow> 's \<Rightarrow> 'd option"
    and discard :: "nat \<Rightarrow> 's \<Rightarrow> 's option"
    and invar :: "'s \<Rightarrow> bool"
    and live :: "'s \<Rightarrow> nat set"
    and ok :: "'d \<Rightarrow> bool"
  assumes put_law: "invar s \<Longrightarrow> ok d \<Longrightarrow> put d s = Some (i, s') \<Longrightarrow>
      invar s' \<and> i \<notin> live s \<and> live s' = insert i (live s) \<and> look i s' = Some d \<and>
      (\<forall>j \<in> live s. look j s' = look j s)"
    and discard_law: "invar s \<Longrightarrow> i \<in> live s \<Longrightarrow>
      \<exists>s'. discard i s = Some s' \<and> invar s' \<and> live s' = live s - {i} \<and>
           (\<forall>j \<in> live s - {i}. look j s' = look j s)"
begin

lemma put_all_law:
  assumes "invar s" and "\<forall>d \<in> set ds. ok d" and "put_all put ds s = Some (js, s')"
  shows "invar s' \<and> distinct js \<and> set js \<inter> live s = {} \<and> live s' = set js \<union> live s \<and>
    map (\<lambda>j. look j s') js = map Some ds \<and> (\<forall>j \<in> live s. look j s' = look j s)"
  using assms
proof (induction ds arbitrary: s js)
  case Nil
  then show ?case by simp
next
  case (Cons d ds)
  from Cons.prems(3) obtain i s1 ks where p: "put d s = Some (i, s1)"
    "put_all put ds s1 = Some (ks, s')" and js: "js = i # ks"
    by (auto split: option.splits)
  note L = put_law [OF Cons.prems(1) _ p(1)]
  have d: "ok d" "\<forall>d \<in> set ds. ok d" using Cons.prems(2) by simp_all
  note IH = Cons.IH [OF _ d(2) p(2)]
  have "look i s' = look i s1" using IH L d(1) by simp
  with IH L d(1) show ?case by (auto simp: js)
qed

lemma put_discard:
  assumes "invar s" and "ok d" and "put d s = Some (i, s1)"
  shows "\<exists>s2. discard i s1 = Some s2 \<and> invar s2 \<and> live s2 = live s \<and>
    (\<forall>j \<in> live s. look j s2 = look j s)"
proof -
  note L = put_law [OF assms]
  from discard_law [of s1 i] L obtain s2 where "discard i s1 = Some s2" "invar s2"
    "live s2 = live s1 - {i}" "\<forall>j \<in> live s1 - {i}. look j s2 = look j s1" by auto
  with L show ?thesis by auto
qed

end

section \<open>Zram keeps the contract\<close>

lemma zram_new_inv: "capacity < 2 ^ 16 \<Longrightarrow> zram_inv (zram_new capacity) \<and> zram_live (zram_new capacity) = {}"
  by (auto simp: zram_inv_def zram_live_def zram_new_def nth_vec_resize)

lemma zram_invD:
  assumes "zram_inv z"
  shows "length (zr_compressed z) < 2 ^ 16" "unat (zr_tail z) \<le> length (zr_compressed z)"
    "distinct (zr_recycled z)" "zram_live z = {..<unat (zr_tail z)} - unat ` set (zr_recycled z)"
    "unat ` set (zr_recycled z) \<subseteq> {..<unat (zr_tail z)}"
  using assms unfolding zram_inv_def by blast+

lemma unat_image_iff [simp]: "unat x \<in> unat ` A \<longleftrightarrow> x \<in> A"
  by (metis imageE image_eqI unsigned_word_eqI)

lemma zram_store_law:
  assumes "i < length (zr_compressed z)"
  shows "\<exists>z'. zram_store i d z = Some (Inr i, z') \<and> zr_tail z' = zr_tail z \<and>
    zr_recycled z' = zr_recycled z \<and> length (zr_compressed z') = length (zr_compressed z) \<and>
    zram_live z' = insert i (zram_live z) \<and> zram_lookup i z' = Some d \<and>
    (\<forall>j. j \<noteq> i \<longrightarrow> zram_lookup j z' = zram_lookup j z)"
  using assms
  by (auto simp: zram_store_def zram_live_def zram_lookup_def zram_get_def nth_list_update)

lemma zram_insert_law:
  assumes inv: "zram_inv z"
  shows "case zram_insert d z of
      None \<Rightarrow> False
    | Some (Inl e, z') \<Rightarrow> e = NoSpace \<and> z' = z \<and> zram_live z = {..<length (zr_compressed z)}
    | Some (Inr i, z') \<Rightarrow> zram_inv z' \<and> i \<notin> zram_live z \<and> zram_live z' = insert i (zram_live z) \<and>
        i < length (zr_compressed z) \<and> length (zr_compressed z') = length (zr_compressed z) \<and>
        zram_lookup i z' = Some d \<and> (\<forall>j. j \<noteq> i \<longrightarrow> zram_lookup j z' = zram_lookup j z)"
proof (cases "vec_pop (zr_recycled z)")
  case (Some a)
  then obtain r rs where a: "a = (r, rs)" and rec: "zr_recycled z = rs @ [r]"
    by (cases a) (auto simp: vec_pop_Some)
  let ?z = "z\<lparr>zr_recycled := rs\<rparr>"
  note I = zram_invD [OF inv, unfolded rec]
  have r: "unat r < unat (zr_tail z)" "r \<notin> set rs" "unat r < length (zr_compressed ?z)"
    using I(2,3,5) by auto
  from zram_store_law [OF r(3), of d] obtain z' where z': "zram_store (unat r) d ?z = Some (Inr (unat r), z')"
    "zr_tail z' = zr_tail z" "zr_recycled z' = rs" "length (zr_compressed z') = length (zr_compressed z)"
    "zram_live z' = insert (unat r) (zram_live z)" "zram_lookup (unat r) z' = Some d"
    "\<forall>j. j \<noteq> unat r \<longrightarrow> zram_lookup j z' = zram_lookup j z"
    by (auto simp: zram_live_def zram_lookup_def zram_get_def)
  have "insert (unat r) (zram_live z) = {..<unat (zr_tail z)} - unat ` set rs"
    using r(1,2) by (auto simp: I(4) simp flip: word_unat_eq_iff)
  then have "zram_inv z'" using I by (simp add: zram_inv_def z'(2-5))
  moreover have "unat r \<notin> zram_live z" by (simp add: I(4))
  ultimately show ?thesis using Some a z' r by (simp add: zram_insert_def)
next
  case None
  then have rec: "zr_recycled z = []" by (simp add: vec_pop_None)
  show ?thesis
  proof (cases "unat (zr_tail z) = length (zr_compressed z)")
    case True
    with None inv rec show ?thesis by (simp add: zram_insert_def zram_inv_def)
  next
    case False
    let ?z = "z\<lparr>zr_tail := zr_tail z + 1\<rparr>"
    have lt: "unat (zr_tail z) < length (zr_compressed ?z)" using inv False by (simp add: zram_inv_def)
    have tail: "unat (zr_tail z + 1) = Suc (unat (zr_tail z))"
      using lt inv by (simp add: zram_inv_def unat_word_ariths)
    from zram_store_law [OF lt, of d] obtain z' where z':
      "zram_store (unat (zr_tail z)) d ?z = Some (Inr (unat (zr_tail z)), z')"
      "zr_tail z' = zr_tail z + 1" "zr_recycled z' = []" "length (zr_compressed z') = length (zr_compressed z)"
      "zram_live z' = insert (unat (zr_tail z)) (zram_live z)" "zram_lookup (unat (zr_tail z)) z' = Some d"
      "\<forall>j. j \<noteq> unat (zr_tail z) \<longrightarrow> zram_lookup j z' = zram_lookup j z"
      by (auto simp: zram_live_def zram_lookup_def zram_get_def rec)
    note I = zram_invD [OF inv, unfolded rec]
    have "insert (unat (zr_tail z)) (zram_live z) = {..<unat (zr_tail z + 1)}"
      unfolding tail by (auto simp: I(4))
    then have "zram_inv z'" using I(1) lt by (simp add: zram_inv_def z'(2-5) tail)
    moreover have "unat (zr_tail z) \<notin> zram_live z" by (simp add: I(4))
    ultimately show ?thesis using None False z' lt by (simp add: zram_insert_def Let_def)
  qed
qed

lemma zram_insert_cases:
  assumes "zram_inv z"
  obtains (full) "zram_insert d z = Some (Inl NoSpace, z)" "zram_live z = {..<length (zr_compressed z)}"
  | (ok) i z' where "zram_insert d z = Some (Inr i, z')" "zram_inv z'" "i \<notin> zram_live z"
      "zram_live z' = insert i (zram_live z)" "length (zr_compressed z') = length (zr_compressed z)"
      "zram_lookup i z' = Some d" "\<forall>j. j \<noteq> i \<longrightarrow> zram_lookup j z' = zram_lookup j z"
proof -
  note law = zram_insert_law [OF assms, of d]
  obtain res z' where r: "zram_insert d z = Some (res, z')"
    using law by (cases "zram_insert d z") auto
  show ?thesis
  proof (cases res)
    case (Inl e)
    then show ?thesis using law r by (intro full) simp_all
  next
    case (Inr i)
    then show ?thesis using law r by (intro ok [of i z']) simp_all
  qed
qed

lemma unat_pred_u16: "0 < unat x \<Longrightarrow> unat (x - 1 :: u16) = unat x - 1"
  by (metis One_nat_def Suc_pred unat_1 unat_gt_0 unat_minus_one word_neq_0_conv)

lemma zram_remove_law:
  assumes inv: "zram_inv z" and live: "i \<in> zram_live z"
  shows "\<exists>d z'. zram_remove i z = (Inr d, z') \<and> zram_lookup i z = Some d \<and> zram_inv z' \<and>
    zram_live z' = zram_live z - {i} \<and> length (zr_compressed z') = length (zr_compressed z) \<and>
    (\<forall>j. j \<noteq> i \<longrightarrow> zram_lookup j z' = zram_lookup j z)"
proof -
  note I = zram_invD [OF inv]
  obtain d where i: "i < length (zr_compressed z)" "zr_compressed z ! i = Some d"
    using live by (auto simp: zram_live_def)
  have tail: "i < unat (zr_tail z)" "i \<notin> unat ` set (zr_recycled z)"
    using live by (simp_all add: I(4))
  then have pred: "unat (zr_tail z - 1) = unat (zr_tail z) - 1" by (simp add: unat_pred_u16)
  have i16: "unat (of_nat i :: u16) = i" using i I(1) by (simp add: unat_of_nat)
  let ?c = "(zr_compressed z)[i := None]"
  let ?z1 = "if i = unat (zr_tail z - 1) then z\<lparr>zr_tail := of_nat i\<rparr>
             else z\<lparr>zr_recycled := zr_recycled z @ [of_nat i]\<rparr>"
  let ?z = "?z1\<lparr>zr_compressed := ?c\<rparr>"
  have rem: "zram_remove i z = (Inr d, ?z)" using i by (simp add: zram_remove_def Let_def)
  have live': "zram_live ?z = zram_live z - {i}"
    using i(1) by (auto simp: zram_live_def nth_list_update split: if_splits)
  have "zram_inv ?z"
  proof (cases "i = unat (zr_tail z - 1)")
    case True
    with tail(1) pred have t: "unat (zr_tail z) = Suc i" by simp
    have "{..<Suc i} - R - {i} = {..<i} - R" for R :: "nat set" by auto
    moreover have "unat ` set (zr_recycled z) \<subseteq> {..<i}" using I(5) tail(2) t by (force simp: less_Suc_eq)
    ultimately show ?thesis using True I(1,3) i live' by (simp add: zram_inv_def i16 I(4) t)
  next
    case False
    have "{..<t} - R - {i} = {..<t} - insert i R" for R t by auto
    moreover have "of_nat i \<notin> set (zr_recycled z)" using tail(2) i16 by (metis imageI)
    ultimately show ?thesis using False I tail live' by (simp add: zram_inv_def i16)
  qed
  moreover have "zram_lookup i z = Some d" using i by (simp add: zram_lookup_def zram_get_def)
  moreover have "zram_lookup j ?z = zram_lookup j z" if "j \<noteq> i" for j
    using that by (simp add: zram_lookup_def zram_get_def)
  ultimately show ?thesis using rem live' by auto
qed

lemma zram_tracker_drop_law:
  assumes "zram_inv z" and "i \<in> zram_live z"
  shows "\<exists>z'. zram_tracker_drop i z = Some z' \<and> zram_inv z' \<and> zram_live z' = zram_live z - {i} \<and>
    (\<forall>j. j \<noteq> i \<longrightarrow> zram_lookup j z' = zram_lookup j z)"
  using zram_remove_law [OF assms] by (auto simp: zram_tracker_drop_def zram_discard_def)

interpretation zslots: slot_store zram_put zram_lookup zram_tracker_drop zram_inv zram_live "\<lambda>_. True"
proof (unfold_locales, goal_cases)
  case (1 s d i s')
  then have "zram_insert d s = Some (Inr i, s')"
    by (auto simp: zram_put_def split: option.splits sum.splits)
  with zram_insert_law [OF 1(1), of d] show ?case by auto
next
  case (2 s i)
  then show ?case using zram_tracker_drop_law [of s i] by auto
qed

lemma zram_write_read:
  assumes "lz4_ok codec" and "zram_inv z" and "zram_write codec buf z = Some (Inr i, z')"
  shows "zram_read codec i (length buf) z' = Some (Inr buf)"
  using zram_insert_law [OF assms(2), of "compress_prepend_size codec buf"] assms(1,3)
  by (auto simp: zram_write_def zram_read_def zram_lookup_def lz4_ok_def split: sum.splits)

end
