(* ===== verification/Fs_Swap.thy ===== *)
theory Fs_Swap
  imports Mm_Zram
begin

text \<open>
  The swap partition, \<open>fs/swap.rs\<close>, and the block device it writes to,
  \<open>drivers/block/virtio_blk.rs\<close>. One bit of \<open>bitmap\<close> stands for one page; the page with
  id \<open>i\<close> is kept in the blocks \<open>block_ids[i * BLK_PER_PG ..]\<close>. The medium is the
  argument \<open>dev\<close>; \<open>blk_ok\<close> says that a sector holds what was last written to it. Block ids are
  naturals. That the driver and the device behave like this medium is shown in \<open>Virtio_Blk\<close>.
\<close>

section \<open>Definitions\<close>

subsection \<open>The block device\<close>

definition BLOCK_SZ :: nat where "BLOCK_SZ = 4096"
definition VIRT_IO_BLOCK_SZ :: nat where "VIRT_IO_BLOCK_SZ = 512"
definition BLOCK_RATIO :: nat where "BLOCK_RATIO = BLOCK_SZ div VIRT_IO_BLOCK_SZ"

record 'd blk =
  read_blocks :: "nat \<Rightarrow> 'd \<Rightarrow> u8 list"
  write_blocks :: "nat \<Rightarrow> u8 list \<Rightarrow> 'd \<Rightarrow> 'd"

definition blk_ok :: "'d blk \<Rightarrow> bool" where
  "blk_ok dev \<longleftrightarrow>
     (\<forall>k d. length (read_blocks dev k d) = VIRT_IO_BLOCK_SZ) \<and>
     (\<forall>k b d. length b = VIRT_IO_BLOCK_SZ \<longrightarrow> read_blocks dev k (write_blocks dev k b d) = b) \<and>
     (\<forall>j k b d. j \<noteq> k \<longrightarrow> read_blocks dev j (write_blocks dev k b d) = read_blocks dev j d)"

text \<open>A device that meets the contract: an array of sectors.\<close>

definition sample_blk :: "(nat \<Rightarrow> u8 list) blk" where
  "sample_blk = \<lparr>read_blocks = (\<lambda>k d. take 512 (d k @ replicate 512 0)), write_blocks = (\<lambda>k b d. d(k := b))\<rparr>"

text \<open>\<open>slice::chunks\<close>: pieces of \<open>n\<close> bytes, the last one possibly shorter.\<close>

fun chunks_loop :: "nat \<Rightarrow> nat \<Rightarrow> u8 list \<Rightarrow> u8 list list" where
  "chunks_loop 0 n bs = []"
| "chunks_loop (Suc k) n bs = (if bs = [] then [] else take n bs # chunks_loop k n (drop n bs))"

definition chunks :: "nat \<Rightarrow> u8 list \<Rightarrow> u8 list list" where
  "chunks n bs = chunks_loop (length bs) n bs"

fun read_sectors :: "'d blk \<Rightarrow> nat \<Rightarrow> nat \<Rightarrow> 'd \<Rightarrow> u8 list" where
  "read_sectors dev k 0 d = []"
| "read_sectors dev k (Suc n) d = read_blocks dev k d @ read_sectors dev (Suc k) n d"

fun write_sectors :: "'d blk \<Rightarrow> nat \<Rightarrow> u8 list list \<Rightarrow> 'd \<Rightarrow> 'd" where
  "write_sectors dev k [] d = d"
| "write_sectors dev k (c # cs) d = write_sectors dev (Suc k) cs (write_blocks dev k c d)"

definition read_block :: "'d blk \<Rightarrow> nat \<Rightarrow> nat \<Rightarrow> 'd \<Rightarrow> u8 list option" where
  "read_block dev block_id len d =
     (if len mod BLOCK_SZ = 0
      then Some (read_sectors dev (block_id * BLOCK_RATIO) (len div VIRT_IO_BLOCK_SZ) d) else None)"

definition write_block :: "'d blk \<Rightarrow> nat \<Rightarrow> u8 list \<Rightarrow> 'd \<Rightarrow> 'd option" where
  "write_block dev block_id buf d =
     (if length buf mod BLOCK_SZ = 0
      then Some (write_sectors dev (block_id * BLOCK_RATIO) (chunks VIRT_IO_BLOCK_SZ buf) d) else None)"

subsection \<open>The swap partition\<close>

definition BLK_PER_PG :: nat where "BLK_PER_PG = 4096 div BLOCK_SZ"
definition SWAP_SIZE :: nat where "SWAP_SIZE = 1024 * 1024"

record swap =
  sw_bitmap :: "u64 list"
  sw_block_ids :: "nat list"
  sw_usable :: bool

text \<open>The file system's block allocation is the argument \<open>alloc_blocks\<close>.\<close>

definition swap_new :: "(nat \<Rightarrow> nat list) \<Rightarrow> nat \<Rightarrow> swap" where
  "swap_new alloc_blocks mb =
     (let blocks = mb * (SWAP_SIZE div BLOCK_SZ);
          allocated = alloc_blocks blocks;
          usable = (allocated \<noteq> [] \<and> length allocated = blocks);
          bit = (if usable then mb * (SWAP_SIZE div 4096) else 0);
          vec_len = (if usable then bit div 64 else 0)
      in \<lparr>sw_bitmap = vec_resize vec_len 0 [], sw_block_ids = allocated, sw_usable = usable\<rparr>)"

definition get_block_ids :: "nat \<Rightarrow> swap \<Rightarrow> nat list option" where
  "get_block_ids swap_id s =
     (if swap_id * BLK_PER_PG + BLK_PER_PG \<le> length (sw_block_ids s)
      then Some (take BLK_PER_PG (drop (swap_id * BLK_PER_PG) (sw_block_ids s))) else None)"

definition read_page :: "'d blk \<Rightarrow> nat list \<Rightarrow> nat \<Rightarrow> 'd \<Rightarrow> u8 list option" where
  "read_page dev block_ids len d =
     (if block_ids ! 0 + BLK_PER_PG - 1 = block_ids ! (BLK_PER_PG - 1)
      then read_block dev (block_ids ! 0) len d else None)"

definition write_page :: "'d blk \<Rightarrow> nat list \<Rightarrow> u8 list \<Rightarrow> 'd \<Rightarrow> 'd option" where
  "write_page dev block_ids buf d =
     (if block_ids ! 0 + (BLK_PER_PG - 1) = block_ids ! (BLK_PER_PG - 1)
      then write_block dev (block_ids ! 0) buf d else None)"

definition swap_set_bit :: "nat \<Rightarrow> swap \<Rightarrow> swap option" where
  "swap_set_bit pos s =
     (if pos div 64 < length (sw_bitmap s)
      then Some (s\<lparr>sw_bitmap := (sw_bitmap s)[pos div 64 := sw_bitmap s ! (pos div 64) OR push_bit (pos mod 64) 1]\<rparr>)
      else None)"

definition swap_clear_bit :: "nat \<Rightarrow> swap \<Rightarrow> swap option" where
  "swap_clear_bit pos s =
     (if pos div 64 < length (sw_bitmap s)
      then Some (s\<lparr>sw_bitmap := (sw_bitmap s)[pos div 64 :=
                     sw_bitmap s ! (pos div 64) AND NOT (push_bit (pos mod 64) 1)]\<rparr>)
      else None)"

definition trailing_zeros :: "u64 \<Rightarrow> nat" where
  "trailing_zeros w = length (takeWhile (\<lambda>i. \<not> bit w i) [0..<64])"

fun swap_alloc_loop :: "nat \<Rightarrow> u64 list \<Rightarrow> nat option" where
  "swap_alloc_loop i [] = None"
| "swap_alloc_loop i (b # bs) =
     (if b = - 1 then swap_alloc_loop (Suc i) bs else Some (i * 64 + trailing_zeros (NOT b)))"

definition swap_alloc_page :: "swap \<Rightarrow> nat option" where
  "swap_alloc_page s = swap_alloc_loop 0 (sw_bitmap s)"

text \<open>
  An unusable partition leaves the buffer as it is: the inner \<^const>\<open>None\<close>.
\<close>

definition swap_read :: "'d blk \<Rightarrow> nat \<Rightarrow> nat \<Rightarrow> swap \<Rightarrow> 'd \<Rightarrow> u8 list option option" where
  "swap_read dev swap_id len s d =
     (if \<not> sw_usable s then Some None
      else case get_block_ids swap_id s of
        None \<Rightarrow> None | Some ids \<Rightarrow> map_option Some (read_page dev ids len d))"

definition swap_write :: "'d blk \<Rightarrow> u8 list \<Rightarrow> swap \<Rightarrow> 'd \<Rightarrow> (nat option \<times> swap \<times> 'd) option" where
  "swap_write dev buf s d =
     (if \<not> sw_usable s then Some (None, s, d)
      else case swap_alloc_page s of
        None \<Rightarrow> Some (None, s, d)
      | Some swap_id \<Rightarrow>
          (case get_block_ids swap_id s of
             None \<Rightarrow> None
           | Some ids \<Rightarrow>
               (case write_page dev ids buf d of
                  None \<Rightarrow> None
                | Some d' \<Rightarrow> map_option (\<lambda>s'. (Some swap_id, s', d')) (swap_set_bit swap_id s))))"

definition swap_discard :: "nat \<Rightarrow> swap \<Rightarrow> swap option" where
  "swap_discard swap_id s = swap_clear_bit swap_id s"

subsection \<open>Abstract view\<close>

definition swap_live :: "swap \<Rightarrow> nat set" where
  "swap_live s = {i. i div 64 < length (sw_bitmap s) \<and> bit (sw_bitmap s ! (i div 64)) (i mod 64)}"

definition swap_inv :: "swap \<Rightarrow> bool" where
  "swap_inv s \<longleftrightarrow>
     distinct (sw_block_ids s) \<and> length (sw_bitmap s) * 64 * BLK_PER_PG \<le> length (sw_block_ids s) \<and>
     (\<not> sw_usable s \<longrightarrow> sw_bitmap s = [])"

definition swap_put :: "'d blk \<Rightarrow> u8 list \<Rightarrow> swap \<times> 'd \<Rightarrow> (nat \<times> swap \<times> 'd) option" where
  "swap_put dev buf = (\<lambda>(s, d). case swap_write dev buf s d of Some (Some i, s', d') \<Rightarrow> Some (i, s', d') | _ \<Rightarrow> None)"

definition swap_lookup :: "'d blk \<Rightarrow> nat \<Rightarrow> swap \<times> 'd \<Rightarrow> u8 list option" where
  "swap_lookup dev i = (\<lambda>(s, d). case swap_read dev i 4096 s d of Some (Some bs) \<Rightarrow> Some bs | _ \<Rightarrow> None)"

definition swap_tracker_drop :: "nat \<Rightarrow> swap \<times> 'd \<Rightarrow> (swap \<times> 'd) option" where
  "swap_tracker_drop i = (\<lambda>(s, d). map_option (\<lambda>s'. (s', d)) (swap_discard i s))"

section \<open>Sectors\<close>

lemmas blk_consts = BLOCK_SZ_def VIRT_IO_BLOCK_SZ_def BLOCK_RATIO_def BLK_PER_PG_def

lemma read_sectors_cong:
  "(\<And>j. k \<le> j \<Longrightarrow> j < k + n \<Longrightarrow> read_blocks dev j d' = read_blocks dev j d) \<Longrightarrow>
   read_sectors dev k n d' = read_sectors dev k n d"
  by (induction n arbitrary: k) auto

lemma read_write_other:
  "blk_ok dev \<Longrightarrow> j < k \<or> k + length cs \<le> j \<Longrightarrow>
   read_blocks dev j (write_sectors dev k cs d) = read_blocks dev j d"
  by (induction cs arbitrary: k d) (auto simp: blk_ok_def)

lemma read_write_sectors:
  "blk_ok dev \<Longrightarrow> \<forall>c \<in> set cs. length c = VIRT_IO_BLOCK_SZ \<Longrightarrow>
   read_sectors dev k (length cs) (write_sectors dev k cs d) = concat cs"
proof (induction cs arbitrary: k d)
  case Nil
  then show ?case by simp
next
  case (Cons c cs)
  then have "read_blocks dev k (write_sectors dev (Suc k) cs (write_blocks dev k c d)) = c"
    using read_write_other [of dev k "Suc k" cs] by (simp add: blk_ok_def)
  with Cons show ?case by simp
qed

lemma chunks_loop_exact:
  "length bs = m * n \<Longrightarrow> 0 < n \<Longrightarrow> m \<le> k \<Longrightarrow>
   length (chunks_loop k n bs) = m \<and> (\<forall>c \<in> set (chunks_loop k n bs). length c = n) \<and>
   concat (chunks_loop k n bs) = bs"
proof (induction k arbitrary: m bs)
  case 0
  then show ?case by simp
next
  case (Suc k)
  show ?case
  proof (cases m)
    case 0
    with Suc.prems show ?thesis by simp
  next
    case (Suc m')
    with Suc.IH [of "drop n bs" m'] Suc.prems show ?thesis by auto
  qed
qed

lemma chunks_page:
  assumes "length bs = 4096"
  shows "length (chunks VIRT_IO_BLOCK_SZ bs) = 8"
    "\<forall>c \<in> set (chunks VIRT_IO_BLOCK_SZ bs). length c = VIRT_IO_BLOCK_SZ"
    "concat (chunks VIRT_IO_BLOCK_SZ bs) = bs"
  using chunks_loop_exact [of bs 8 512 4096] assms by (auto simp: chunks_def VIRT_IO_BLOCK_SZ_def)

lemma write_read_block:
  assumes "blk_ok dev" and "length buf = 4096"
  shows "\<exists>d'. write_block dev k buf d = Some d' \<and> read_block dev k 4096 d' = Some buf \<and>
    (\<forall>j. j \<noteq> k \<longrightarrow> read_block dev j 4096 d' = read_block dev j 4096 d)"
proof -
  let ?cs = "chunks VIRT_IO_BLOCK_SZ buf"
  let ?d = "write_sectors dev (k * 8) ?cs d"
  have w: "write_block dev k buf d = Some ?d"
    using assms(2) by (simp add: write_block_def blk_consts)
  have "read_sectors dev (k * 8) 8 ?d = buf"
    using read_write_sectors [OF assms(1) chunks_page(2) [OF assms(2)], of "k * 8" d]
    by (simp add: chunks_page [OF assms(2)])
  then have r: "read_block dev k 4096 ?d = Some buf" by (simp add: read_block_def blk_consts)
  have "read_sectors dev (j * 8) 8 ?d = read_sectors dev (j * 8) 8 d" if "j \<noteq> k" for j
  proof (rule read_sectors_cong)
    fix i assume "j * 8 \<le> i" "i < j * 8 + 8"
    with that have "i < k * 8 \<or> k * 8 + 8 \<le> i" by presburger
    then show "read_blocks dev i ?d = read_blocks dev i d"
      using read_write_other [OF assms(1), of i "k * 8" ?cs] by (simp add: chunks_page(1) [OF assms(2)])
  qed
  then show ?thesis using w r by (simp add: read_block_def blk_consts)
qed

section \<open>Swap keeps the contract\<close>

lemma trailing_zeros_NOT:
  assumes "b \<noteq> - 1"
  shows "trailing_zeros (NOT b) < 64" "\<not> bit b (trailing_zeros (NOT b))"
proof -
  let ?P = "\<lambda>i. \<not> bit (NOT b) i"
  have "\<exists>i. i < 64 \<and> \<not> bit b i"
  proof (rule ccontr)
    assume "\<not> ?thesis"
    then have "b = - 1" by (intro bit_word_eqI) auto
    with assms show False by simp
  qed
  then obtain i where i: "i < 64" "\<not> bit b i" by blast
  then have "\<not> ?P i" "i \<in> set [0..<64]" by (simp_all add: bit_not_iff)
  then have ne: "takeWhile ?P [0..<64] \<noteq> [0..<64]"
    by (metis set_takeWhileD)
  then have lt: "length (takeWhile ?P [0..<64]) < length [0..<64]"
    by (metis length_takeWhile_le nat_less_le takeWhile_eq_take take_all_iff)
  from lt show *: "trailing_zeros (NOT b) < 64" by (simp add: trailing_zeros_def)
  show "\<not> bit b (trailing_zeros (NOT b))"
    using nth_length_takeWhile [OF lt] * by (simp add: trailing_zeros_def bit_not_iff)
qed

lemma swap_alloc_loop_Some:
  "swap_alloc_loop k bs = Some i \<Longrightarrow>
     k \<le> i div 64 \<and> i div 64 < k + length bs \<and> \<not> bit (bs ! (i div 64 - k)) (i mod 64)"
proof (induction bs arbitrary: k)
  case Nil
  then show ?case by simp
next
  case (Cons b bs)
  show ?case
  proof (cases "b = - 1")
    case True
    with Cons.IH [of "Suc k"] Cons.prems show ?thesis by (auto simp: nth_Cons')
  next
    case False
    with Cons.prems trailing_zeros_NOT [OF False] show ?thesis by auto
  qed
qed

lemma swap_alloc_loop_None: "swap_alloc_loop k bs = None \<longleftrightarrow> (\<forall>b \<in> set bs. b = - 1)"
  by (induction bs arbitrary: k) auto

lemma swap_alloc_page_Some:
  "swap_alloc_page s = Some i \<Longrightarrow> i div 64 < length (sw_bitmap s) \<and> i \<notin> swap_live s"
  using swap_alloc_loop_Some [of 0 "sw_bitmap s" i] by (simp add: swap_alloc_page_def swap_live_def)

lemma swap_alloc_page_None:
  "swap_alloc_page s = None \<longleftrightarrow> swap_live s = {..<64 * length (sw_bitmap s)}"
proof -
  have "swap_live s = {..<64 * length (sw_bitmap s)} \<longleftrightarrow> (\<forall>k < length (sw_bitmap s). sw_bitmap s ! k = - 1)"
  proof
    assume full: "swap_live s = {..<64 * length (sw_bitmap s)}"
    show "\<forall>k < length (sw_bitmap s). sw_bitmap s ! k = - 1"
    proof (intro allI impI bit_word_eqI)
      fix k n assume k: "k < length (sw_bitmap s)" and n: "n < LENGTH(64)"
      then have "k * 64 + n < 64 * length (sw_bitmap s)" by simp
      then have "k * 64 + n \<in> swap_live s" using full by simp
      then show "bit (sw_bitmap s ! k) n \<longleftrightarrow> bit (- 1 :: u64) n" using n by (simp add: swap_live_def)
    qed
  qed (auto simp: swap_live_def)
  then show ?thesis by (simp add: swap_alloc_page_def swap_alloc_loop_None all_set_conv_all_nth)
qed

lemma bit_single_u64: "bit (push_bit k 1 :: u64) n \<longleftrightarrow> n = k \<and> n < 64"
  unfolding bit_push_bit_iff bit_1_iff by auto

lemma bit_pow2_u64: "bit (2 ^ k :: u64) n \<longleftrightarrow> n = k \<and> n < 64"
  using bit_single_u64 [of k n] by simp

lemma div_mod_64_eq: "i div 64 = j div 64 \<Longrightarrow> i mod 64 = j mod 64 \<Longrightarrow> i = (j :: nat)"
  by (metis div_mult_mod_eq)

lemma swap_set_bit_law:
  assumes "i div 64 < length (sw_bitmap s)"
  shows "\<exists>s'. swap_set_bit i s = Some s' \<and> swap_live s' = insert i (swap_live s) \<and>
    sw_block_ids s' = sw_block_ids s \<and> sw_usable s' = sw_usable s \<and>
    length (sw_bitmap s') = length (sw_bitmap s)"
  using assms
  by (auto simp: swap_set_bit_def swap_live_def nth_list_update bit_or_iff bit_pow2_u64
      dest: div_mod_64_eq split: if_splits)

lemma swap_clear_bit_law:
  assumes "i div 64 < length (sw_bitmap s)"
  shows "\<exists>s'. swap_clear_bit i s = Some s' \<and> swap_live s' = swap_live s - {i} \<and>
    sw_block_ids s' = sw_block_ids s \<and> sw_usable s' = sw_usable s \<and>
    length (sw_bitmap s') = length (sw_bitmap s)"
  using assms
  by (auto simp: swap_clear_bit_def swap_live_def nth_list_update bit_and_iff bit_not_iff bit_pow2_u64
      dest: div_mod_64_eq split: if_splits)

lemma swap_inv_cong:
  "sw_block_ids s' = sw_block_ids s \<Longrightarrow> sw_usable s' = sw_usable s \<Longrightarrow>
   length (sw_bitmap s') = length (sw_bitmap s) \<Longrightarrow> swap_inv s \<Longrightarrow> swap_inv s'"
  unfolding swap_inv_def by auto

lemma get_block_ids_Some:
  assumes "swap_inv s" and "i div 64 < length (sw_bitmap s)"
  shows "get_block_ids i s = Some [sw_block_ids s ! i]" "i < length (sw_block_ids s)" "sw_usable s"
proof -
  have "i < 64 * length (sw_bitmap s)" using assms(2) by simp
  then show lt: "i < length (sw_block_ids s)" using assms(1) by (simp add: swap_inv_def blk_consts)
  then have "take (Suc 0) (drop i (sw_block_ids s)) = [sw_block_ids s ! i]"
    by (simp add: take_Suc_conv_app_nth [where i = 0, simplified])
  with lt show "get_block_ids i s = Some [sw_block_ids s ! i]"
    by (simp add: get_block_ids_def blk_consts)
  show "sw_usable s" using assms by (auto simp: swap_inv_def)
qed

lemma swap_lookup_block:
  assumes "swap_inv s" and "i div 64 < length (sw_bitmap s)"
  shows "swap_lookup dev i (s, d) = read_block dev (sw_block_ids s ! i) 4096 d"
  using get_block_ids_Some [OF assms]
  by (simp add: swap_lookup_def swap_read_def read_page_def blk_consts split: option.splits)

lemma swap_write_law:
  assumes dev: "blk_ok dev" and inv: "swap_inv s" and buf: "length buf = 4096"
  shows "case swap_write dev buf s d of
      None \<Rightarrow> False
    | Some (None, s', d') \<Rightarrow> s' = s \<and> d' = d \<and> swap_live s = {..<64 * length (sw_bitmap s)}
    | Some (Some i, s', d') \<Rightarrow> swap_inv s' \<and> i \<notin> swap_live s \<and> swap_live s' = insert i (swap_live s) \<and>
        swap_lookup dev i (s', d') = Some buf \<and>
        (\<forall>j \<in> swap_live s. swap_lookup dev j (s', d') = swap_lookup dev j (s, d))"
proof (cases "sw_usable s \<and> swap_alloc_page s \<noteq> None")
  case False
  have "swap_live s = {..<64 * length (sw_bitmap s)}"
  proof (cases "sw_usable s")
    case True
    with False show ?thesis by (simp add: swap_alloc_page_None)
  next
    case unusable: False
    with inv have "sw_bitmap s = []" by (simp add: swap_inv_def)
    then show ?thesis by (simp add: swap_live_def)
  qed
  then show ?thesis using False by (cases "sw_usable s") (simp_all add: swap_write_def)
next
  case True
  then obtain i where i: "swap_alloc_page s = Some i" by blast
  then have lt: "i div 64 < length (sw_bitmap s)" and new: "i \<notin> swap_live s"
    using swap_alloc_page_Some by blast+
  note ids = get_block_ids_Some [OF inv lt]
  from write_read_block [OF dev buf, of "sw_block_ids s ! i" d] obtain d' where d':
    "write_block dev (sw_block_ids s ! i) buf d = Some d'"
    "read_block dev (sw_block_ids s ! i) 4096 d' = Some buf"
    "\<forall>k. k \<noteq> sw_block_ids s ! i \<longrightarrow> read_block dev k 4096 d' = read_block dev k 4096 d" by blast
  from swap_set_bit_law [OF lt] obtain s' where s': "swap_set_bit i s = Some s'"
    "swap_live s' = insert i (swap_live s)" "sw_block_ids s' = sw_block_ids s"
    "sw_usable s' = sw_usable s" "length (sw_bitmap s') = length (sw_bitmap s)" by blast
  have inv': "swap_inv s'" using swap_inv_cong [OF s'(3-5) inv] .
  have w: "swap_write dev buf s d = Some (Some i, s', d')"
    using i ids(1,3) d'(1) s'(1) by (simp add: swap_write_def write_page_def BLK_PER_PG_def BLOCK_SZ_def)
  have "swap_lookup dev i (s', d') = Some buf"
    using swap_lookup_block [OF inv', of i dev d'] lt s'(3,5) d'(2) by simp
  moreover have "swap_lookup dev j (s', d') = swap_lookup dev j (s, d)" if "j \<in> swap_live s" for j
  proof -
    have j: "j div 64 < length (sw_bitmap s)" using that by (simp add: swap_live_def)
    have "j \<noteq> i" using that new by blast
    then have "sw_block_ids s ! j \<noteq> sw_block_ids s ! i"
      using inv ids(2) get_block_ids_Some(2) [OF inv j] unfolding swap_inv_def by (metis nth_eq_iff_index_eq)
    then show ?thesis
      using swap_lookup_block [OF inv', of j dev d'] swap_lookup_block [OF inv j, of dev d] j s'(3,5) d'(3) by simp
  qed
  ultimately show ?thesis using w inv' new s'(2) by simp
qed

lemma swap_write_cases:
  assumes "blk_ok dev" "swap_inv s" "length buf = 4096"
  obtains (full) "swap_write dev buf s d = Some (None, s, d)" "swap_live s = {..<64 * length (sw_bitmap s)}"
  | (ok) i s' d' where "swap_write dev buf s d = Some (Some i, s', d')" "swap_inv s'" "i \<notin> swap_live s"
      "swap_live s' = insert i (swap_live s)" "swap_lookup dev i (s', d') = Some buf"
      "\<forall>j \<in> swap_live s. swap_lookup dev j (s', d') = swap_lookup dev j (s, d)"
proof -
  note law = swap_write_law [OF assms, of d]
  obtain res s' d' where r: "swap_write dev buf s d = Some (res, s', d')"
    using law by (cases "swap_write dev buf s d") auto
  show ?thesis
  proof (cases res)
    case None
    then show ?thesis using law r by (intro full) simp_all
  next
    case (Some i)
    then show ?thesis using law r by (intro ok [of i s' d']) simp_all
  qed
qed

interpretation sslots: slot_store "swap_put dev" "swap_lookup dev" swap_tracker_drop
  "\<lambda>(s, d). blk_ok dev \<and> swap_inv s" "\<lambda>(s, d). swap_live s" "\<lambda>bs. length bs = 4096" for dev :: "'d blk"
proof (unfold_locales, goal_cases)
  case (1 sd buf i sd')
  obtain s d where sd: "sd = (s, d)" by fastforce
  obtain s' d' where sd': "sd' = (s', d')" by fastforce
  have "swap_write dev buf s d = Some (Some i, s', d')"
    using 1(3) by (auto simp: sd sd' swap_put_def split: option.splits)
  with swap_write_law [of dev s buf d] 1(1,2) show ?case by (simp add: sd sd')
next
  case (2 sd i)
  obtain s d where sd: "sd = (s, d)" by fastforce
  with 2 have i: "i div 64 < length (sw_bitmap s)" by (simp add: swap_live_def)
  from swap_clear_bit_law [OF i] obtain s' where s': "swap_clear_bit i s = Some s'"
    "swap_live s' = swap_live s - {i}" "sw_block_ids s' = sw_block_ids s"
    "sw_usable s' = sw_usable s" "length (sw_bitmap s') = length (sw_bitmap s)" by blast
  have inv: "swap_inv s" "blk_ok dev" using 2 sd by simp_all
  have inv': "swap_inv s'" using swap_inv_cong [OF s'(3-5) inv(1)] .
  have "swap_lookup dev j (s', d) = swap_lookup dev j (s, d)" if "j \<in> swap_live s" for j
  proof -
    have "j div 64 < length (sw_bitmap s)" using that by (simp add: swap_live_def)
    then show ?thesis using swap_lookup_block [OF inv', of j dev d] swap_lookup_block [OF inv(1), of j dev d] s' by simp
  qed
  then show ?case using s' inv inv' by (simp add: sd swap_tracker_drop_def swap_discard_def)
qed

lemma swap_new_inv:
  assumes "distinct (alloc_blocks (mb * (SWAP_SIZE div BLOCK_SZ)))"
  shows "swap_inv (swap_new alloc_blocks mb) \<and> swap_live (swap_new alloc_blocks mb) = {}"
  using assms
  by (auto simp: swap_inv_def swap_live_def swap_new_def Let_def blk_consts SWAP_SIZE_def vec_resize_def)

lemma length_read_sectors: "blk_ok dev \<Longrightarrow> length (read_sectors dev k n d) = n * VIRT_IO_BLOCK_SZ"
  by (induction n arbitrary: k) (auto simp: blk_ok_def)

end
