(* ===== verification/Mm_Frame.thy ===== *)
theory Mm_Frame
  imports Mm_Sv39 Fs_Swap "HOL-Library.Monad_Syntax" "HOL-Library.Multiset"
begin

text \<open>
  One page of an address space, \<open>enum Frame\<close> of \<open>mm/map_area.rs\<close>: resident in memory,
  compressed in zram, swapped out, or not allocated. The state is the world: physical memory
  extended by the zram device, the swap partition, the disk below it, and the strong counts of
  \<open>Arc<ZramTracker>\<close> and \<open>Arc<SwapTracker>\<close>. Overwriting a \<open>Frame\<close> drops the old value,
  which may free a page or a slot. The argument \<open>env\<close> holds the codec, the disk driver and
  the \<open>MODE=debug\<close> flag of the build; \<open>oom\<close> is the out-of-memory handler.

  \<open>frame_content\<close> is the logical content of a page wherever it is kept. The lemmas show that
  \<open>zip\<close>/\<open>unzip\<close> and \<open>swap_out\<close>/\<open>swap_in\<close> keep it.
\<close>

section \<open>Definitions\<close>

subsection \<open>The world\<close>

record 'd kworld = kmem +
  kzram :: zram
  zarcs :: "nat \<Rightarrow> nat"
  kswap :: swap
  sarcs :: "nat \<Rightarrow> nat"
  kdisk :: 'd

record 'd kenv =
  env_codec :: lz4
  env_dev :: "'d blk"
  env_debug :: bool

type_synonym ('d, 'z) world = "('d, 'z) kworld_scheme"
type_synonym ('d, 'z) woom = "usize \<Rightarrow> ('d, 'z) kworld_scheme \<Rightarrow> (bool \<times> ('d, 'z) kworld_scheme) option"

definition page_bytes :: "page \<Rightarrow> u8 list" where
  "page_bytes pg = map pg [0..<4096]"

definition bytes_array :: "PhysPageNum \<Rightarrow> 'a kmem_scheme \<Rightarrow> u8 list" where
  "bytes_array ppn w = page_bytes (pmem w ppn)"

definition page_fill :: "u8 list \<Rightarrow> page \<Rightarrow> page" where
  "page_fill bs pg = (\<lambda>i. if i < length bs then bs ! i else pg i)"

definition set_bytes :: "PhysPageNum \<Rightarrow> u8 list \<Rightarrow> 'a kmem_scheme \<Rightarrow> 'a kmem_scheme" where
  "set_bytes ppn bs w = w\<lparr>pmem := (pmem w)(ppn := page_fill bs (pmem w ppn))\<rparr>"

definition zarc_drop :: "nat \<Rightarrow> ('d, 'z) world \<Rightarrow> ('d, 'z) world option" where
  "zarc_drop i w =
     (let w' = w\<lparr>zarcs := (zarcs w)(i := zarcs w i - 1)\<rparr>
      in if zarcs w' i = 0 then map_option (\<lambda>z. w'\<lparr>kzram := z\<rparr>) (zram_tracker_drop i (kzram w'))
         else Some w')"

definition sarc_drop :: "nat \<Rightarrow> ('d, 'z) world \<Rightarrow> ('d, 'z) world option" where
  "sarc_drop i w =
     (let w' = w\<lparr>sarcs := (sarcs w)(i := sarcs w i - 1)\<rparr>
      in if sarcs w' i = 0 then map_option (\<lambda>s. w'\<lparr>kswap := s\<rparr>) (swap_discard i (kswap w'))
         else Some w')"

subsection \<open>Frame\<close>

datatype memory_error = BadAddress | AreaNotFound | AlreadyMapped | NotMapped | NoPermission
  | NotInMemory | NotCompressed | NotSwappedOut | AlreadyAllocated | SharedPage
  | ZramIsFull | SwapIsFull | BeyondEOF

datatype frame = InMemory PhysPageNum | Compressed nat | SwappedOut nat | Unallocated

definition frame_drop :: "'d kenv \<Rightarrow> frame \<Rightarrow> ('d, 'z) world \<Rightarrow> ('d, 'z) world option" where
  "frame_drop env fr w =
     (case fr of
        InMemory p \<Rightarrow> arc_drop (env_debug env) p w
      | Compressed i \<Rightarrow> zarc_drop i w
      | SwappedOut i \<Rightarrow> sarc_drop i w
      | Unallocated \<Rightarrow> Some w)"

fun frames_drop :: "'d kenv \<Rightarrow> frame list \<Rightarrow> ('d, 'z) world \<Rightarrow> ('d, 'z) world option" where
  "frames_drop env [] w = Some w"
| "frames_drop env (fr # frs) w = frame_drop env fr w \<bind> frames_drop env frs"

definition frame_clone :: "frame \<Rightarrow> ('d, 'z) world \<Rightarrow> ('d, 'z) world" where
  "frame_clone fr w =
     (case fr of
        InMemory p \<Rightarrow> arc_clone p w
      | Compressed i \<Rightarrow> w\<lparr>zarcs := (zarcs w)(i := Suc (zarcs w i))\<rparr>
      | SwappedOut i \<Rightarrow> w\<lparr>sarcs := (sarcs w)(i := Suc (sarcs w i))\<rparr>
      | Unallocated \<Rightarrow> w)"

text \<open>On \<open>Err\<close> the tracker that was passed in is dropped.\<close>

definition insert_in_memory ::
  "'d kenv \<Rightarrow> PhysPageNum \<Rightarrow> frame \<Rightarrow> ('d, 'z) world \<Rightarrow> ((memory_error + unit) \<times> frame \<times> ('d, 'z) world) option" where
  "insert_in_memory env ppn fr w =
     (case fr of
        Unallocated \<Rightarrow> Some (Inr (), InMemory ppn, w)
      | _ \<Rightarrow> map_option (\<lambda>w'. (Inl AlreadyAllocated, fr, w')) (arc_drop (env_debug env) ppn w))"

definition take_in_memory :: "frame \<Rightarrow> PhysPageNum option \<times> frame" where
  "take_in_memory fr = (case fr of InMemory p \<Rightarrow> (Some p, Unallocated) | _ \<Rightarrow> (None, fr))"

definition force_swap_out ::
  "'d kenv \<Rightarrow> frame \<Rightarrow> ('d, 'z) world \<Rightarrow> ((memory_error + nat) \<times> frame \<times> ('d, 'z) world) option" where
  "force_swap_out env fr w =
     (case fr of
        InMemory p \<Rightarrow>
          (case swap_write (env_dev env) (bytes_array p w) (kswap w) (kdisk w) of
             None \<Rightarrow> None
           | Some (Some swap_id, s, d) \<Rightarrow>
               map_option (\<lambda>w'. (Inr swap_id, SwappedOut swap_id, w'))
                 (frame_drop env fr (w\<lparr>kswap := s, kdisk := d, sarcs := (sarcs w)(swap_id := 1)\<rparr>))
           | Some (None, s, d) \<Rightarrow> Some (Inl SwapIsFull, fr, w\<lparr>kswap := s, kdisk := d\<rparr>))
      | _ \<Rightarrow> Some (Inl NotInMemory, fr, w))"

definition swap_out ::
  "'d kenv \<Rightarrow> frame \<Rightarrow> ('d, 'z) world \<Rightarrow> ((memory_error + nat) \<times> frame \<times> ('d, 'z) world) option" where
  "swap_out env fr w =
     (case fr of
        InMemory p \<Rightarrow>
          if arcs w p = 1 then
            (case swap_write (env_dev env) (bytes_array p w) (kswap w) (kdisk w) of
               None \<Rightarrow> None
             | Some (Some swap_id, s, d) \<Rightarrow>
                 map_option (\<lambda>w'. (Inr swap_id, SwappedOut swap_id, w'))
                   (frame_drop env fr (w\<lparr>kswap := s, kdisk := d, sarcs := (sarcs w)(swap_id := 1)\<rparr>))
             | Some (None, s, d) \<Rightarrow> Some (Inl SwapIsFull, fr, w\<lparr>kswap := s, kdisk := d\<rparr>))
          else Some (Inl SharedPage, fr, w)
      | _ \<Rightarrow> Some (Inl NotInMemory, fr, w))"

definition swap_in ::
  "'d kenv \<Rightarrow> ('d, 'z) woom \<Rightarrow> frame \<Rightarrow> ('d, 'z) world \<Rightarrow>
   ((memory_error + PhysPageNum) \<times> frame \<times> ('d, 'z) world) option" where
  "swap_in env oom fr w =
     (case fr of
        SwappedOut swap_id \<Rightarrow>
          (case frame_alloc oom w of
             Some (Some ppn, w1) \<Rightarrow>
               (case swap_read (env_dev env) swap_id 4096 (kswap w1) (kdisk w1) of
                  None \<Rightarrow> None
                | Some res \<Rightarrow>
                    (let w2 = (case res of None \<Rightarrow> w1 | Some bs \<Rightarrow> set_bytes ppn bs w1)
                     in map_option (\<lambda>w'. (Inr ppn, InMemory ppn, w')) (frame_drop env fr w2)))
           | _ \<Rightarrow> None)
      | _ \<Rightarrow> Some (Inl NotSwappedOut, fr, w))"

definition zip_frame ::
  "'d kenv \<Rightarrow> frame \<Rightarrow> ('d, 'z) world \<Rightarrow> ((memory_error + nat) \<times> frame \<times> ('d, 'z) world) option" where
  "zip_frame env fr w =
     (case fr of
        InMemory p \<Rightarrow>
          if arcs w p = 1 then
            (case zram_write (env_codec env) (bytes_array p w) (kzram w) of
               None \<Rightarrow> None
             | Some (Inr zram_id, z) \<Rightarrow>
                 map_option (\<lambda>w'. (Inr zram_id, Compressed zram_id, w'))
                   (frame_drop env fr (w\<lparr>kzram := z, zarcs := (zarcs w)(zram_id := 1)\<rparr>))
             | Some (Inl _, z) \<Rightarrow> Some (Inl ZramIsFull, fr, w\<lparr>kzram := z\<rparr>))
          else Some (Inl SharedPage, fr, w)
      | _ \<Rightarrow> Some (Inl NotInMemory, fr, w))"

definition unzip_frame ::
  "'d kenv \<Rightarrow> ('d, 'z) woom \<Rightarrow> frame \<Rightarrow> ('d, 'z) world \<Rightarrow>
   ((memory_error + PhysPageNum) \<times> frame \<times> ('d, 'z) world) option" where
  "unzip_frame env oom fr w =
     (case fr of
        Compressed zram_id \<Rightarrow>
          (case frame_alloc oom w of
             Some (Some ppn, w1) \<Rightarrow>
               (case zram_read (env_codec env) zram_id 4096 (kzram w1) of
                  Some (Inr bs) \<Rightarrow>
                    map_option (\<lambda>w'. (Inr ppn, InMemory ppn, w')) (frame_drop env fr (set_bytes ppn bs w1))
                | _ \<Rightarrow> None)
           | _ \<Rightarrow> None)
      | _ \<Rightarrow> Some (Inl NotCompressed, fr, w))"

subsection \<open>Abstract view\<close>

text \<open>The content of a page, wherever it is kept.\<close>

definition frame_content :: "'d kenv \<Rightarrow> ('d, 'z) world \<Rightarrow> frame \<Rightarrow> u8 list option" where
  "frame_content env w fr =
     (case fr of
        InMemory p \<Rightarrow> Some (bytes_array p w)
      | Compressed i \<Rightarrow> (case zram_read (env_codec env) i 4096 (kzram w) of Some (Inr bs) \<Rightarrow> Some bs | _ \<Rightarrow> None)
      | SwappedOut i \<Rightarrow> swap_lookup (env_dev env) i (kswap w, kdisk w)
      | Unallocated \<Rightarrow> None)"

definition env_ok :: "'d kenv \<Rightarrow> bool" where
  "env_ok env \<longleftrightarrow> lz4_ok (env_codec env) \<and> blk_ok (env_dev env)"

text \<open>
  The world is well-formed: the allocator and the two stores keep their invariants, a page with
  a positive count is allocated, and the live slots are those with a positive count.
\<close>

definition world_inv :: "usize \<Rightarrow> ('d, 'z) world \<Rightarrow> bool" where
  "world_inv lo w \<longleftrightarrow>
     km_inv lo w \<and> (\<forall>p. 0 < arcs w p \<longrightarrow> p \<in> km_allocated lo w) \<and>
     zram_inv (kzram w) \<and> zram_live (kzram w) = {i. 0 < zarcs w i} \<and>
     swap_inv (kswap w) \<and> swap_live (kswap w) = {i. 0 < sarcs w i}"

text \<open>The number of references to what a frame holds.\<close>

definition frame_count :: "('d, 'z) world \<Rightarrow> frame \<Rightarrow> nat" where
  "frame_count w fr =
     (case fr of
        InMemory p \<Rightarrow> arcs w p
      | Compressed i \<Rightarrow> zarcs w i
      | SwappedOut i \<Rightarrow> sarcs w i
      | Unallocated \<Rightarrow> 0)"

definition frame_held :: "('d, 'z) world \<Rightarrow> frame \<Rightarrow> bool" where
  "frame_held w fr \<longleftrightarrow> fr = Unallocated \<or> 0 < frame_count w fr"

text \<open>All frames in use but the listed ones keep their count and content.\<close>

definition frames_kept :: "'d kenv \<Rightarrow> frame set \<Rightarrow> ('d, 'z) world \<Rightarrow> ('d, 'z) world \<Rightarrow> bool" where
  "frames_kept env A w w' \<longleftrightarrow>
     (\<forall>g. g \<notin> A \<longrightarrow> frame_count w' g = frame_count w g \<and>
          (0 < frame_count w g \<longrightarrow> frame_content env w' g = frame_content env w g))"

text \<open>What was in \<open>fr\<close> is now in the fresh frame \<open>fr'\<close>, which has one reference.\<close>

definition frame_moved ::
  "usize \<Rightarrow> 'd kenv \<Rightarrow> frame \<Rightarrow> ('d, 'z) world \<Rightarrow> frame \<Rightarrow> ('d, 'z) world \<Rightarrow> bool" where
  "frame_moved lo env fr w fr' w' \<longleftrightarrow>
     world_inv lo w' \<and> frame_content env w' fr' = frame_content env w fr \<and>
     frame_count w fr' = 0 \<and> frame_count w' fr' = 1 \<and> frame_count w' fr = frame_count w fr - 1 \<and>
     (1 < frame_count w fr \<longrightarrow> frame_content env w' fr = frame_content env w fr) \<and>
     frames_kept env {fr, fr'} w w'"

section \<open>Dropping a reference\<close>

lemma world_more:
  fixes w w' :: "('d, 'z) world"
  assumes "kmem.more w' = kmem.more w"
  shows "kzram w' = kzram w" "zarcs w' = zarcs w" "kswap w' = kswap w" "sarcs w' = sarcs w"
    "kdisk w' = kdisk w" "kworld.more w' = kworld.more w"
  using assms by (cases w; cases w'; simp)+

lemma world_invD:
  assumes "world_inv lo w"
  shows "km_inv lo w" "0 < arcs w p \<Longrightarrow> p \<in> km_allocated lo w" "zram_inv (kzram w)"
    "zram_live (kzram w) = {i. 0 < zarcs w i}" "swap_inv (kswap w)"
    "swap_live (kswap w) = {i. 0 < sarcs w i}"
  using assms by (simp_all add: world_inv_def)

lemma length_page_bytes [simp]: "length (page_bytes pg) = 4096"
  by (simp add: page_bytes_def)

lemma length_bytes_array [simp]: "length (bytes_array p w) = 4096"
  by (simp add: bytes_array_def)

lemma page_bytes_fill: "length bs = 4096 \<Longrightarrow> page_bytes (page_fill bs pg) = bs"
  by (auto simp: page_bytes_def page_fill_def intro: nth_equalityI)

lemma bytes_array_set_bytes:
  "length bs = 4096 \<Longrightarrow> bytes_array q (set_bytes p bs w) = (if q = p then bs else bytes_array q w)"
  by (simp add: bytes_array_def set_bytes_def page_bytes_fill)

lemma set_bytes_simps [simp]:
  "kfa (set_bytes p bs w) = kfa w" "arcs (set_bytes p bs w) = arcs w"
  "kmem.more (set_bytes p bs w) = kmem.more w" "km_inv lo (set_bytes p bs w) = km_inv lo w"
  "km_allocated lo (set_bytes p bs w) = km_allocated lo w" "km_free (set_bytes p bs w) = km_free w"
  by (simp_all add: set_bytes_def km_defs)

lemma set_bytes_world [simp]:
  "kzram (set_bytes p bs w) = kzram w" "zarcs (set_bytes p bs w) = zarcs w"
  "kswap (set_bytes p bs w) = kswap w" "sarcs (set_bytes p bs w) = sarcs w"
  "kdisk (set_bytes p bs w) = kdisk w" "kworld.more (set_bytes p bs w) = kworld.more w"
  by (simp_all add: set_bytes_def)

lemma zram_read_lookup:
  "zram_read codec i n z =
     (case zram_lookup i z of
        None \<Rightarrow> Some (Inl (if i \<ge> length (zr_compressed z) then InvalidIndex else NotAllocated))
      | Some c \<Rightarrow> (case decompress_size_prepended codec c of
                     None \<Rightarrow> None | Some d \<Rightarrow> if length d = n then Some (Inr d) else None))"
  by (simp add: zram_read_def zram_lookup_def zram_get_def split: option.split)

lemma frame_content_cong:
  assumes "case g of InMemory p \<Rightarrow> pmem w' p = pmem w p
      | Compressed i \<Rightarrow> zram_lookup i (kzram w') = zram_lookup i (kzram w) \<and>
          length (zr_compressed (kzram w')) = length (zr_compressed (kzram w))
      | SwappedOut i \<Rightarrow> swap_lookup (env_dev env) i (kswap w', kdisk w') =
          swap_lookup (env_dev env) i (kswap w, kdisk w)
      | Unallocated \<Rightarrow> True"
  shows "frame_content env w' g = frame_content env w g"
  using assms by (cases g) (simp_all add: frame_content_def bytes_array_def zram_read_lookup)

lemma frames_kept_trans:
  "frames_kept env A w w1 \<Longrightarrow> frames_kept env B w1 w2 \<Longrightarrow> frames_kept env (A \<union> B) w w2"
  by (simp add: frames_kept_def)

lemma arc_drop_world:
  fixes w :: "('d, 'z) world"
  assumes inv: "world_inv lo w" and pos: "0 < arcs w p"
  shows "\<exists>w'. arc_drop debug p w = Some w' \<and> world_inv lo w' \<and> pmem w' = pmem w \<and>
    kmem.more w' = kmem.more w \<and> arcs w' = (arcs w)(p := arcs w p - 1) \<and>
    fa_end (kfa w') = fa_end (kfa w) \<and>
    km_allocated lo w' = km_allocated lo w - (if arcs w p = 1 then {p} else {}) \<and>
    km_free w' = km_free w + (if arcs w p = 1 then 1 else 0)"
proof -
  from arc_drop_ok [OF world_invD(1) [OF inv] world_invD(2) [OF inv pos] pos, of debug] obtain fa where fa:
    "arc_drop debug p w = Some (w\<lparr>kfa := fa, arcs := (arcs w)(p := arcs w p - 1)\<rparr>)"
    "fa_inv lo fa" "fa_end fa = fa_end (kfa w)"
    "fa_allocated lo fa = km_allocated lo w - (if arcs w p = 1 then {p} else {})"
    "fa_free fa = km_free w + (if arcs w p = 1 then 1 else 0)" by blast
  let ?w = "w\<lparr>kfa := fa, arcs := (arcs w)(p := arcs w p - 1)\<rparr>"
  have "world_inv lo ?w" using inv fa(2,4) by (auto simp: world_inv_def km_defs)
  then show ?thesis using fa by (intro exI [of _ ?w]) (simp add: km_defs)
qed

lemma zarc_drop_world:
  fixes w :: "('d, 'z) world"
  assumes inv: "world_inv lo w" and pos: "0 < zarcs w i"
  shows "\<exists>z. zarc_drop i w = Some (w\<lparr>kzram := z, zarcs := (zarcs w)(i := zarcs w i - 1)\<rparr>) \<and>
    zram_inv z \<and> zram_live z = zram_live (kzram w) - (if zarcs w i = 1 then {i} else {}) \<and>
    length (zr_compressed z) = length (zr_compressed (kzram w)) \<and>
    (\<forall>j. j \<noteq> i \<or> zarcs w i \<noteq> 1 \<longrightarrow> zram_lookup j z = zram_lookup j (kzram w))"
proof (cases "zarcs w i = 1")
  case True
  then have "i \<in> zram_live (kzram w)" using world_invD(4) [OF inv] by simp
  from zram_remove_law [OF world_invD(3) [OF inv] this] obtain d z where
    "zram_remove i (kzram w) = (Inr d, z)" "zram_inv z" "zram_live z = zram_live (kzram w) - {i}"
    "length (zr_compressed z) = length (zr_compressed (kzram w))"
    "\<forall>j. j \<noteq> i \<longrightarrow> zram_lookup j z = zram_lookup j (kzram w)" by blast
  with True show ?thesis
    by (intro exI [of _ z]) (simp add: zarc_drop_def zram_tracker_drop_def zram_discard_def Let_def)
next
  case False
  with pos world_invD(3) [OF inv] show ?thesis
    by (intro exI [of _ "kzram w"]) (simp add: zarc_drop_def Let_def)
qed

lemma sarc_drop_world:
  fixes w :: "('d, 'z) world"
  assumes inv: "world_inv lo w" and pos: "0 < sarcs w i"
  shows "\<exists>s. sarc_drop i w = Some (w\<lparr>kswap := s, sarcs := (sarcs w)(i := sarcs w i - 1)\<rparr>) \<and>
    swap_inv s \<and> swap_live s = swap_live (kswap w) - (if sarcs w i = 1 then {i} else {}) \<and>
    (\<forall>(dev :: 'd blk) d. \<forall>j \<in> swap_live (kswap w). swap_lookup dev j (s, d) = swap_lookup dev j (kswap w, d))"
proof (cases "sarcs w i = 1")
  case True
  note I = world_invD [OF inv]
  have i: "i div 64 < length (sw_bitmap (kswap w))" using I(6) pos by (auto simp: swap_live_def)
  from swap_clear_bit_law [OF i] obtain s where s: "swap_clear_bit i (kswap w) = Some s"
    "swap_live s = swap_live (kswap w) - {i}" "sw_block_ids s = sw_block_ids (kswap w)"
    "sw_usable s = sw_usable (kswap w)" "length (sw_bitmap s) = length (sw_bitmap (kswap w))" by blast
  have inv': "swap_inv s" using swap_inv_cong [OF s(3-5) I(5)] .
  have "swap_lookup dev j (s, d) = swap_lookup dev j (kswap w, d)" if "j \<in> swap_live (kswap w)" for j dev and d :: 'd
  proof -
    have j: "j div 64 < length (sw_bitmap (kswap w))" using that by (simp add: swap_live_def)
    then show ?thesis
      using swap_lookup_block [OF inv', of j dev d] swap_lookup_block [OF I(5) j, of dev d] s(3,5) by simp
  qed
  then show ?thesis
    using True s inv' by (intro exI [of _ s]) (simp add: sarc_drop_def swap_discard_def Let_def)
next
  case False
  with pos world_invD(5) [OF inv] show ?thesis
    by (intro exI [of _ "kswap w"]) (simp add: sarc_drop_def Let_def)
qed

text \<open>One lemma for the four cases.\<close>

definition drop_effect :: "usize \<Rightarrow> 'd kenv \<Rightarrow> frame \<Rightarrow> ('d, 'z) world \<Rightarrow> ('d, 'z) world \<Rightarrow> bool" where
  "drop_effect lo env fr w w' \<longleftrightarrow>
     world_inv lo w' \<and> pmem w' = pmem w \<and> kdisk w' = kdisk w \<and> kworld.more w' = kworld.more w \<and>
     fa_end (kfa w') = fa_end (kfa w) \<and> km_free w \<le> km_free w' \<and>
     (\<forall>p. p \<in> km_allocated lo w' \<longleftrightarrow> p \<in> km_allocated lo w \<and> \<not> (fr = InMemory p \<and> arcs w p = 1)) \<and>
     frame_count w' fr = frame_count w fr - 1 \<and>
     (1 < frame_count w fr \<longrightarrow> frame_content env w' fr = frame_content env w fr) \<and>
     frames_kept env {fr} w w'"

lemma frame_count_simps [simp]:
  "frame_count w (InMemory p) = arcs w p" "frame_count w (Compressed i) = zarcs w i"
  "frame_count w (SwappedOut i) = sarcs w i" "frame_count w Unallocated = 0"
  by (simp_all add: frame_count_def)

lemma frames_keptI:
  assumes "\<And>g. g \<notin> A \<Longrightarrow> frame_count w' g = frame_count w g"
    and "\<And>p. InMemory p \<notin> A \<Longrightarrow> 0 < arcs w p \<Longrightarrow> pmem w' p = pmem w p"
    and "\<And>i. Compressed i \<notin> A \<Longrightarrow> 0 < zarcs w i \<Longrightarrow> zram_lookup i (kzram w') = zram_lookup i (kzram w)"
    and "length (zr_compressed (kzram w')) = length (zr_compressed (kzram w))"
    and "\<And>i. SwappedOut i \<notin> A \<Longrightarrow> 0 < sarcs w i \<Longrightarrow>
      swap_lookup (env_dev env) i (kswap w', kdisk w') = swap_lookup (env_dev env) i (kswap w, kdisk w)"
  shows "frames_kept env A w w'"
  unfolding frames_kept_def
proof (intro allI impI conjI)
  fix g assume "g \<notin> A" "0 < frame_count w g"
  then show "frame_content env w' g = frame_content env w g"
    using assms by (intro frame_content_cong) (cases g; simp)
qed (rule assms(1))

lemma frame_drop_ok:
  assumes inv: "world_inv lo w" and held: "frame_held w fr"
  shows "\<exists>w'. frame_drop env fr w = Some w' \<and> drop_effect lo env fr w w'"
proof (cases fr)
  case (InMemory p)
  with held have pos: "0 < arcs w p" by (simp add: frame_held_def)
  from arc_drop_world [OF inv pos, of "env_debug env"] obtain w' where w':
    "arc_drop (env_debug env) p w = Some w'" "world_inv lo w'" "pmem w' = pmem w"
    "kmem.more w' = kmem.more w" "arcs w' = (arcs w)(p := arcs w p - 1)"
    "fa_end (kfa w') = fa_end (kfa w)"
    "km_allocated lo w' = km_allocated lo w - (if arcs w p = 1 then {p} else {})"
    "km_free w' = km_free w + (if arcs w p = 1 then 1 else 0)" by blast
  note M = world_more [OF w'(4)]
  have "frames_kept env {fr} w w'"
    by (rule frames_keptI) (auto simp: frame_count_def InMemory w' M split: frame.splits)
  moreover have "frame_content env w' fr = frame_content env w fr"
    by (rule frame_content_cong) (simp add: InMemory w')
  ultimately show ?thesis using w' M by (auto simp: frame_drop_def drop_effect_def InMemory)
next
  case (Compressed i)
  with held have pos: "0 < zarcs w i" by (simp add: frame_held_def)
  from zarc_drop_world [OF inv pos] obtain z where z:
    "zarc_drop i w = Some (w\<lparr>kzram := z, zarcs := (zarcs w)(i := zarcs w i - 1)\<rparr>)"
    "zram_inv z" "zram_live z = zram_live (kzram w) - (if zarcs w i = 1 then {i} else {})"
    "length (zr_compressed z) = length (zr_compressed (kzram w))"
    "\<forall>j. j \<noteq> i \<or> zarcs w i \<noteq> 1 \<longrightarrow> zram_lookup j z = zram_lookup j (kzram w)" by blast
  let ?w = "w\<lparr>kzram := z, zarcs := (zarcs w)(i := zarcs w i - 1)\<rparr>"
  have "world_inv lo ?w" using inv z(2,3) pos by (auto simp: world_inv_def km_defs)
  moreover have "frames_kept env {fr} w ?w"
    by (rule frames_keptI) (auto simp: frame_count_def Compressed z split: frame.splits)
  moreover have "1 < frame_count w fr \<longrightarrow> frame_content env ?w fr = frame_content env w fr"
    by (intro impI frame_content_cong) (simp add: Compressed z)
  ultimately show ?thesis using z(1) by (auto simp: frame_drop_def drop_effect_def Compressed km_defs)
next
  case (SwappedOut i)
  with held have pos: "0 < sarcs w i" by (simp add: frame_held_def)
  from sarc_drop_world [OF inv pos] obtain s where s:
    "sarc_drop i w = Some (w\<lparr>kswap := s, sarcs := (sarcs w)(i := sarcs w i - 1)\<rparr>)"
    "swap_inv s" "swap_live s = swap_live (kswap w) - (if sarcs w i = 1 then {i} else {})"
    "\<And>dev d. \<forall>j \<in> swap_live (kswap w). swap_lookup (dev :: 'a blk) j (s, d) = swap_lookup dev j (kswap w, d)"
    by blast
  let ?w = "w\<lparr>kswap := s, sarcs := (sarcs w)(i := sarcs w i - 1)\<rparr>"
  note L = world_invD(6) [OF inv]
  have "world_inv lo ?w" using inv s(2,3) pos by (auto simp: world_inv_def km_defs)
  moreover have "frames_kept env {fr} w ?w"
    by (rule frames_keptI) (auto simp: frame_count_def SwappedOut s(4) L split: frame.splits)
  moreover have "1 < frame_count w fr \<longrightarrow> frame_content env ?w fr = frame_content env w fr"
    by (intro impI frame_content_cong) (simp add: SwappedOut s(4) L)
  ultimately show ?thesis using s(1) by (auto simp: frame_drop_def drop_effect_def SwappedOut km_defs)
next
  case Unallocated
  have "frames_kept env {fr} w w" by (simp add: frames_kept_def)
  then show ?thesis using inv by (auto simp: frame_drop_def drop_effect_def Unallocated)
qed

section \<open>Taking a fresh page\<close>

definition alloc_effect :: "usize \<Rightarrow> PhysPageNum \<Rightarrow> ('d, 'z) world \<Rightarrow> ('d, 'z) world \<Rightarrow> bool" where
  "alloc_effect lo p w w' \<longleftrightarrow>
     world_inv lo w' \<and> kmem.more w' = kmem.more w \<and> arcs w p = 0 \<and> arcs w' = (arcs w)(p := 1) \<and>
     p \<notin> km_allocated lo w \<and> km_allocated lo w' = insert p (km_allocated lo w) \<and>
     km_free w = Suc (km_free w') \<and> fa_end (kfa w') = fa_end (kfa w) \<and> lo \<le> p \<and> p < fa_end (kfa w) \<and>
     (\<forall>q. q \<noteq> p \<longrightarrow> pmem w' q = pmem w q)"

lemma km_take_effect:
  fixes w :: "('d, 'z) world"
  assumes inv: "world_inv lo w" and take: "fa_take (kfa w) = Some (p, fa)"
    and pm: "\<forall>q. q \<noteq> p \<longrightarrow> pm q = pmem w q"
  shows "alloc_effect lo p w (w\<lparr>kfa := fa, pmem := pm, arcs := (arcs w)(p := 1)\<rparr>)"
proof -
  note T = fa_take_cases [OF world_invD(1) [OF inv, unfolded km_inv_def] take]
  have "fa_end fa = fa_end (kfa w)"
    using take by (auto simp: fa_take_def Let_def split: option.splits if_splits)
  moreover have "arcs w p = 0" using world_invD(2) [OF inv, of p] T by (auto simp: km_defs)
  ultimately show ?thesis using inv T pm by (auto simp: alloc_effect_def world_inv_def km_defs)
qed

lemma fa_take_free:
  "world_inv lo w \<Longrightarrow> 0 < km_free w \<Longrightarrow> \<exists>p fa. fa_take (kfa w) = Some (p, fa)"
  using fa_take_None [of lo "kfa w"] by (cases "fa_take (kfa w)") (auto simp: world_inv_def km_defs)

lemma frame_alloc_world:
  assumes "world_inv lo w" and "0 < km_free w"
  shows "\<exists>p w'. frame_alloc oom w = Some (Some p, w') \<and> alloc_effect lo p w w' \<and> pmem w' p = zero_page"
proof -
  from fa_take_free [OF assms] obtain p fa where take: "fa_take (kfa w) = Some (p, fa)" by blast
  have "frame_alloc oom w = Some (Some p, w\<lparr>kfa := fa, pmem := (pmem w)(p := zero_page), arcs := (arcs w)(p := 1)\<rparr>)"
    by (simp add: frame_alloc_def km_alloc_def take tracker_new_def arc_new_def)
  then show ?thesis using km_take_effect [OF assms(1) take, of "(pmem w)(p := zero_page)"] by auto
qed

lemma frame_alloc_uninit_world:
  assumes "world_inv lo w" and "0 < km_free w"
  shows "\<exists>p w'. frame_alloc_uninit oom w = Some (Some p, w') \<and> alloc_effect lo p w w'"
proof -
  from fa_take_free [OF assms] obtain p fa where take: "fa_take (kfa w) = Some (p, fa)" by blast
  have "frame_alloc_uninit oom w = Some (Some p, w\<lparr>kfa := fa, pmem := pmem w, arcs := (arcs w)(p := 1)\<rparr>)"
    by (simp add: frame_alloc_uninit_def km_alloc_uninit_def take arc_new_def)
  then show ?thesis using km_take_effect [OF assms(1) take, of "pmem w"] by auto
qed

lemma alloc_effect_kept:
  assumes "alloc_effect lo p w w'"
  shows "frames_kept env {InMemory p} w w'"
proof -
  have w': "kmem.more w' = kmem.more w" "arcs w' = (arcs w)(p := 1)" "\<forall>q. q \<noteq> p \<longrightarrow> pmem w' q = pmem w q"
    using assms by (simp_all add: alloc_effect_def)
  note M = world_more [OF w'(1)]
  show ?thesis
    by (rule frames_keptI) (auto simp: frame_count_def w' M split: frame.splits)
qed

section \<open>Moving a page between memory and the stores\<close>

lemma frames_keptD:
  "frames_kept env A w w' \<Longrightarrow> g \<notin> A \<Longrightarrow> frame_count w' g = frame_count w g"
  "frames_kept env A w w' \<Longrightarrow> g \<notin> A \<Longrightarrow> 0 < frame_count w g \<Longrightarrow> frame_content env w' g = frame_content env w g"
  by (simp_all add: frames_kept_def)

lemma frame_moved_pos:
  assumes "frame_moved lo env fr w fr' w'" and "InMemory f \<noteq> fr" and "0 < arcs w f"
  shows "0 < arcs w' f"
proof (cases "InMemory f = fr'")
  case True
  then show ?thesis using assms(1) by (auto simp: frame_moved_def)
next
  case False
  with assms show ?thesis using frames_keptD(1) [of env "{fr, fr'}" w w' "InMemory f"]
    by (auto simp: frame_moved_def)
qed

lemma frames_kept_subset: "frames_kept env A w w' \<Longrightarrow> A \<subseteq> B \<Longrightarrow> frames_kept env B w w'"
  by (auto simp: frames_kept_def)

text \<open>
  The common step of \<open>zip\<close> and \<open>swap_out\<close>: the page has been stored in a fresh slot \<open>fr'\<close>,
  then the sole reference to the page is dropped.
\<close>

lemma store_then_drop:
  assumes inv1: "world_inv lo w1" and pos: "0 < arcs w p"
    and kept: "frames_kept env {fr'} w w1" and fresh: "frame_count w fr' = 0" "frame_count w1 fr' = 1"
    and stored: "frame_content env w1 fr' = Some (bytes_array p w)" and fr': "fr' \<noteq> InMemory p"
  shows "\<exists>w'. frame_drop env (InMemory p) w1 = Some w' \<and> frame_moved lo env (InMemory p) w fr' w' \<and>
    drop_effect lo env (InMemory p) w1 w'"
proof -
  have p1: "frame_count w1 (InMemory p) = arcs w p"
    "frame_content env w1 (InMemory p) = frame_content env w (InMemory p)"
    using kept fr' pos unfolding frames_kept_def by auto
  then have "frame_held w1 (InMemory p)" using pos by (simp add: frame_held_def)
  from frame_drop_ok [OF inv1 this, of env] obtain w' where d: "frame_drop env (InMemory p) w1 = Some w'"
    "drop_effect lo env (InMemory p) w1 w'" by blast
  then have k: "frames_kept env {InMemory p} w1 w'" "world_inv lo w'" "frame_count w' (InMemory p) = arcs w p - 1"
    "1 < arcs w p \<longrightarrow> frame_content env w' (InMemory p) = frame_content env w (InMemory p)"
    using p1 by (simp_all add: drop_effect_def)
  have "frame_content env w' fr' = Some (bytes_array p w)" "frame_count w' fr' = 1"
    using k(1) fr' fresh(2) stored unfolding frames_kept_def by auto
  moreover have "frames_kept env {InMemory p, fr'} w w'"
    using frames_kept_trans [OF kept k(1)] by (simp add: insert_commute)
  ultimately have "frame_moved lo env (InMemory p) w fr' w'"
    using k(2-4) fresh by (simp add: frame_moved_def frame_content_def [of env w "InMemory p"])
  with d show ?thesis by blast
qed

lemma zip_frame_ok:
  fixes w :: "('d, 'z) world"
  assumes env: "env_ok env" and inv: "world_inv lo w" and sole: "arcs w p = 1"
  shows "case zip_frame env (InMemory p) w of
      None \<Rightarrow> False
    | Some (Inl e, fr', w') \<Rightarrow> e = ZramIsFull \<and> fr' = InMemory p \<and> w' = w
    | Some (Inr i, fr', w') \<Rightarrow> fr' = Compressed i \<and> frame_moved lo env (InMemory p) w fr' w' \<and>
        km_allocated lo w' = km_allocated lo w - {p} \<and> pmem w' = pmem w \<and>
        fa_end (kfa w') = fa_end (kfa w)"
proof -
  note I = world_invD [OF inv]
  let ?c = "compress_prepend_size (env_codec env) (bytes_array p w)"
  from I(3) show ?thesis
  proof (cases rule: zram_insert_cases [where d = ?c])
    case full
    then show ?thesis using sole by (simp add: zip_frame_def zram_write_def)
  next
    case (ok i z)
    let ?w = "w\<lparr>kzram := z, zarcs := (zarcs w)(i := 1)\<rparr>"
    have new: "zarcs w i = 0" using ok(3) I(4) by simp
    have inv1: "world_inv lo ?w" using inv ok(2,4) by (auto simp: world_inv_def km_defs)
    have kept: "frames_kept env {Compressed i} w ?w"
      by (rule frames_keptI) (auto simp: frame_count_def ok split: frame.splits)
    have stored: "frame_content env ?w (Compressed i) = Some (bytes_array p w)"
      using env by (simp add: frame_content_def zram_read_lookup ok(6) env_ok_def lz4_ok_def)
    from store_then_drop [OF inv1 _ kept _ _ stored] new sole obtain w' where
      "frame_drop env (InMemory p) ?w = Some w'" "frame_moved lo env (InMemory p) w (Compressed i) w'"
      "drop_effect lo env (InMemory p) ?w w'" by auto
    then show ?thesis using ok(1) sole by (auto simp: zip_frame_def zram_write_def drop_effect_def km_defs)
  qed
qed

lemma swap_store_ok:
  fixes w :: "('d, 'z) world"
  assumes env: "env_ok env" and inv: "world_inv lo w" and pos: "0 < arcs w p"
  shows "case force_swap_out env (InMemory p) w of
      None \<Rightarrow> False
    | Some (Inl e, fr', w') \<Rightarrow> e = SwapIsFull \<and> fr' = InMemory p \<and> w' = w
    | Some (Inr i, fr', w') \<Rightarrow> fr' = SwappedOut i \<and> frame_moved lo env (InMemory p) w fr' w' \<and>
        km_allocated lo w' = km_allocated lo w - (if arcs w p = 1 then {p} else {}) \<and> pmem w' = pmem w \<and>
        fa_end (kfa w') = fa_end (kfa w)"
proof -
  note I = world_invD [OF inv]
  have dev: "blk_ok (env_dev env)" using env by (simp add: env_ok_def)
  from dev I(5) length_bytes_array show ?thesis
  proof (cases rule: swap_write_cases [where buf = "bytes_array p w" and d = "kdisk w"])
    case full
    then show ?thesis by (simp add: force_swap_out_def)
  next
    case (ok i s d)
    let ?w = "w\<lparr>kswap := s, kdisk := d, sarcs := (sarcs w)(i := 1)\<rparr>"
    have new: "sarcs w i = 0" using ok(3) I(6) by simp
    have inv1: "world_inv lo ?w" using inv ok(2,4) by (auto simp: world_inv_def km_defs)
    have kept: "frames_kept env {SwappedOut i} w ?w"
      by (rule frames_keptI) (auto simp: frame_count_def ok I(6) split: frame.splits)
    have stored: "frame_content env ?w (SwappedOut i) = Some (bytes_array p w)"
      by (simp add: frame_content_def ok(5))
    from store_then_drop [OF inv1 pos kept _ _ stored] new obtain w' where
      "frame_drop env (InMemory p) ?w = Some w'" "frame_moved lo env (InMemory p) w (SwappedOut i) w'"
      "drop_effect lo env (InMemory p) ?w w'" by auto
    then show ?thesis using ok(1) by (auto simp: force_swap_out_def drop_effect_def km_defs)
  qed
qed

lemma zip_frame_cases:
  fixes w :: "('d, 'z) world"
  assumes "env_ok env" and "world_inv lo w" and "arcs w p = 1"
  obtains (full) "zip_frame env (InMemory p) w = Some (Inl ZramIsFull, InMemory p, w)"
  | (ok) k w1 where "zip_frame env (InMemory p) w = Some (Inr k, Compressed k, w1)"
      "frame_moved lo env (InMemory p) w (Compressed k) w1" "pmem w1 = pmem w"
      "fa_end (kfa w1) = fa_end (kfa w)"
      "km_allocated lo w1 = km_allocated lo w - (if arcs w p = 1 then {p} else {})"
proof -
  note Z = zip_frame_ok [OF assms]
  obtain res fr w1 where z: "zip_frame env (InMemory p) w = Some (res, fr, w1)"
    using Z by (cases "zip_frame env (InMemory p) w") auto
  show ?thesis
  proof (cases res)
    case (Inl e)
    then show ?thesis using Z z full by simp
  next
    case (Inr k)
    then show ?thesis using Z z ok [of k w1] assms(3) by auto
  qed
qed

lemma force_swap_cases:
  fixes w :: "('d, 'z) world"
  assumes "env_ok env" and "world_inv lo w" and "0 < arcs w p"
  obtains (full) "force_swap_out env (InMemory p) w = Some (Inl SwapIsFull, InMemory p, w)"
  | (ok) k w1 where "force_swap_out env (InMemory p) w = Some (Inr k, SwappedOut k, w1)"
      "frame_moved lo env (InMemory p) w (SwappedOut k) w1" "pmem w1 = pmem w"
      "fa_end (kfa w1) = fa_end (kfa w)"
      "km_allocated lo w1 = km_allocated lo w - (if arcs w p = 1 then {p} else {})"
proof -
  note S = swap_store_ok [OF assms]
  obtain res fr w1 where z: "force_swap_out env (InMemory p) w = Some (res, fr, w1)"
    using S by (cases "force_swap_out env (InMemory p) w") auto
  show ?thesis
  proof (cases res)
    case (Inl e)
    then show ?thesis using S z full by simp
  next
    case (Inr k)
    then show ?thesis using S z ok [of k w1] by auto
  qed
qed

lemma swap_out_sole: "arcs w p = 1 \<Longrightarrow> swap_out env (InMemory p) w = force_swap_out env (InMemory p) w"
  by (simp add: swap_out_def force_swap_out_def)

lemma zip_frame_shared: "arcs w p \<noteq> 1 \<Longrightarrow> zip_frame env (InMemory p) w = Some (Inl SharedPage, InMemory p, w)"
  by (simp add: zip_frame_def)

text \<open>The common part of \<open>unzip\<close> and \<open>swap_in\<close>.\<close>

definition load_effect ::
  "usize \<Rightarrow> 'd kenv \<Rightarrow> frame \<Rightarrow> ('d, 'z) world \<Rightarrow> PhysPageNum \<Rightarrow> ('d, 'z) world \<Rightarrow> bool" where
  "load_effect lo env fr w p w' \<longleftrightarrow>
     frame_moved lo env fr w (InMemory p) w' \<and> p \<notin> km_allocated lo w \<and>
     km_allocated lo w' = insert p (km_allocated lo w) \<and> km_free w = Suc (km_free w') \<and>
     fa_end (kfa w') = fa_end (kfa w) \<and> p < fa_end (kfa w) \<and> arcs w' = (arcs w)(p := 1) \<and>
     (\<forall>q. q \<noteq> p \<longrightarrow> pmem w' q = pmem w q) \<and> kworld.more w' = kworld.more w"

lemma set_bytes_inv [simp]: "world_inv lo (set_bytes p bs w) = world_inv lo w"
  by (simp add: world_inv_def)

lemma frame_count_set_bytes [simp]: "frame_count (set_bytes p bs w) g = frame_count w g"
  by (cases g) simp_all

lemma set_bytes_kept: "frames_kept env {InMemory p} w (set_bytes p bs w)"
  by (rule frames_keptI) (auto simp: set_bytes_def frame_count_def split: frame.splits)

lemma km_count:
  assumes "km_inv lo w"
  shows "card (km_allocated lo w) + km_free w = unat (fa_end (kfa w)) - unat lo"
  using fa_count [of lo "kfa w"] assms by (simp add: km_defs)

lemma km_free_allocated:
  assumes "km_inv lo w" "km_inv lo w'" "fa_end (kfa w') = fa_end (kfa w)"
    "km_allocated lo w' = km_allocated lo w"
  shows "km_free w' = km_free w"
  using km_count [OF assms(1)] km_count [OF assms(2)] assms(3,4) by simp

lemma km_free_released:
  assumes "km_inv lo w" "km_inv lo w'" "fa_end (kfa w') = fa_end (kfa w)"
    "km_allocated lo w' = km_allocated lo w - {p}" "p \<in> km_allocated lo w"
  shows "km_free w' = Suc (km_free w)"
proof -
  have "finite (km_allocated lo w)"
    by (rule finite_subset [of _ UNIV]) simp_all
  then have "card (km_allocated lo w) = Suc (card (km_allocated lo w'))"
    using card_Suc_Diff1 [OF _ assms(5)] assms(4) by simp
  then show ?thesis using km_count [OF assms(1)] km_count [OF assms(2)] assms(3) by simp
qed

lemma load_then_drop:
  fixes w :: "('d, 'z) world"
  assumes inv: "world_inv lo w" and free: "0 < km_free w" and held: "0 < frame_count w fr"
    and slot: "\<forall>q. fr \<noteq> InMemory q" and content: "frame_content env w fr = Some bs" and len: "length bs = 4096"
  shows "\<exists>p w1 w'. frame_alloc oom w = Some (Some p, w1) \<and> frame_content env w1 fr = Some bs \<and>
    frame_drop env fr (set_bytes p bs w1) = Some w' \<and> load_effect lo env fr w p w'"
proof -
  from frame_alloc_world [OF inv free] obtain p w1 where a: "frame_alloc oom w = Some (Some p, w1)"
    "alloc_effect lo p w w1" by blast
  let ?w = "set_bytes p bs w1"
  have A: "world_inv lo w1" "kmem.more w1 = kmem.more w" "arcs w p = 0" "arcs w1 = (arcs w)(p := 1)"
    "p \<notin> km_allocated lo w" "km_allocated lo w1 = insert p (km_allocated lo w)"
    "km_free w = Suc (km_free w1)" "fa_end (kfa w1) = fa_end (kfa w)" "p < fa_end (kfa w)"
    "\<forall>q. q \<noteq> p \<longrightarrow> pmem w1 q = pmem w q"
    using a(2) by (simp_all add: alloc_effect_def)
  have kept: "frames_kept env {InMemory p} w ?w"
    using frames_kept_trans [OF alloc_effect_kept [OF a(2)] set_bytes_kept [of env p w1 bs]] by simp
  have c1: "frame_content env w1 fr = Some bs" "frame_count ?w fr = frame_count w fr"
    using alloc_effect_kept [OF a(2), of env] kept slot held content by (auto simp: frames_kept_def)
  have "frame_held ?w fr" using held c1(2) by (simp add: frame_held_def)
  from frame_drop_ok [OF _ this, of lo env] A(1) obtain w' where d: "frame_drop env fr ?w = Some w'"
    "drop_effect lo env fr ?w w'" by auto
  have D: "world_inv lo w'" "pmem w' = pmem ?w" "kworld.more w' = kworld.more ?w"
    "fa_end (kfa w') = fa_end (kfa ?w)" "km_allocated lo w' = km_allocated lo ?w"
    "frame_count w' fr = frame_count ?w fr - 1" "frames_kept env {fr} ?w w'"
    using d(2) slot by (auto simp: drop_effect_def)
  have "arcs w' q = arcs ?w q" for q using D(7) slot unfolding frames_kept_def
    by (metis frame_count_simps(1) singletonD)
  then have arcs': "arcs w' = (arcs w)(p := 1)" using A(4) by auto
  have "frame_content env w' (InMemory p) = Some bs"
    using len by (simp add: frame_content_def bytes_array_def D(2) set_bytes_def page_bytes_fill)
  moreover have many: "1 < frame_count w fr \<longrightarrow> frame_content env w' fr = frame_content env w fr"
    using d(2) c1(2) kept slot held by (auto simp: drop_effect_def frames_kept_def)
  moreover have "frames_kept env {fr, InMemory p} w w'"
    using frames_kept_trans [OF kept D(7)] by (simp add: insert_commute)
  ultimately have "frame_moved lo env fr w (InMemory p) w'"
    using D(1,6) c1(2) A(3) arcs' content many by (simp add: frame_moved_def)
  moreover have "km_free w' = km_free w1"
    using km_free_allocated [of lo w1 w'] A(1) D(1,4,5) by (simp add: world_inv_def)
  moreover have "\<forall>q. q \<noteq> p \<longrightarrow> pmem w' q = pmem w q" using A(10) D(2) by (simp add: set_bytes_def)
  moreover have "kworld.more w' = kworld.more w" using D(3) world_more(6) [OF A(2)] by simp
  ultimately have "load_effect lo env fr w p w'"
    using A D(4,5) arcs' by (simp add: load_effect_def)
  with a(1) c1(1) d(1) show ?thesis by blast
qed

lemma unzip_frame_ok:
  fixes w :: "('d, 'z) world"
  assumes "world_inv lo w" and "0 < km_free w" and "0 < zarcs w i"
    and content: "frame_content env w (Compressed i) = Some bs"
  shows "\<exists>p w'. unzip_frame env oom (Compressed i) w = Some (Inr p, InMemory p, w') \<and>
    load_effect lo env (Compressed i) w p w'"
proof -
  have "length bs = 4096" using content
    by (auto simp: frame_content_def zram_read_lookup split: option.splits sum.splits if_splits)
  with load_then_drop [OF assms(1,2) _ _ content, of oom] assms(3) obtain p w1 w' where
    "frame_alloc oom w = Some (Some p, w1)" "frame_content env w1 (Compressed i) = Some bs"
    "frame_drop env (Compressed i) (set_bytes p bs w1) = Some w'" "load_effect lo env (Compressed i) w p w'"
    by auto
  moreover from this(2) have "zram_read (env_codec env) i 4096 (kzram w1) = Some (Inr bs)"
    by (auto simp: frame_content_def split: option.splits sum.splits)
  ultimately show ?thesis by (simp add: unzip_frame_def)
qed

lemma swap_in_ok:
  fixes w :: "('d, 'z) world"
  assumes env: "env_ok env" and inv: "world_inv lo w" and "0 < km_free w" and pos: "0 < sarcs w i"
  shows "\<exists>p w'. swap_in env oom (SwappedOut i) w = Some (Inr p, InMemory p, w') \<and>
    load_effect lo env (SwappedOut i) w p w'"
proof -
  note I = world_invD [OF inv]
  have "i div 64 < length (sw_bitmap (kswap w))" using I(6) pos by (auto simp: swap_live_def)
  note L = swap_lookup_block [OF I(5) this, of "env_dev env" "kdisk w"]
  have rd: "length (read_sectors dev k n d) = n * 512" if "blk_ok dev" for dev k n and d :: 'd
    using that by (induction n arbitrary: k) (simp_all add: blk_ok_def VIRT_IO_BLOCK_SZ_def)
  obtain bs where bs: "frame_content env w (SwappedOut i) = Some bs" "length bs = 4096"
    using env rd by (auto simp: frame_content_def L read_block_def blk_consts env_ok_def)
  with load_then_drop [OF inv assms(3) _ _ bs(1), of oom] pos obtain p w1 w' where
    "frame_alloc oom w = Some (Some p, w1)" "frame_content env w1 (SwappedOut i) = Some bs"
    "frame_drop env (SwappedOut i) (set_bytes p bs w1) = Some w'" "load_effect lo env (SwappedOut i) w p w'"
    by auto
  moreover from this(2) have "swap_read (env_dev env) i 4096 (kswap w1) (kdisk w1) = Some (Some bs)"
    by (auto simp: frame_content_def swap_lookup_def split: option.splits)
  ultimately show ?thesis by (simp add: swap_in_def)
qed

section \<open>Several holders\<close>

text \<open>
  \<open>M\<close> collects the frames that some data structures hold; each of them accounts for one
  reference.
\<close>

definition frames_ref :: "('d, 'z) world \<Rightarrow> frame multiset \<Rightarrow> bool" where
  "frames_ref w M \<longleftrightarrow> (\<forall>fr. fr \<noteq> Unallocated \<longrightarrow> count M fr \<le> frame_count w fr)"

lemma frames_refD: "frames_ref w M \<Longrightarrow> fr \<in># M \<Longrightarrow> fr \<noteq> Unallocated \<Longrightarrow> 0 < frame_count w fr"
  unfolding frames_ref_def by (metis count_greater_zero_iff leD neq0_conv)

lemma frames_ref_held: "frames_ref w M \<Longrightarrow> fr \<in># M \<Longrightarrow> frame_held w fr"
  by (cases "fr = Unallocated") (simp_all add: frame_held_def frames_refD)

lemma frames_ref_two:
  "frames_ref w (add_mset fr (add_mset fr M)) \<Longrightarrow> fr \<noteq> Unallocated \<Longrightarrow> 1 < frame_count w fr"
  unfolding frames_ref_def by (elim allE [of _ fr]) simp

lemma frames_ref_moved:
  assumes ref: "frames_ref w (add_mset fr M)" and mv: "frame_moved lo env fr w fr' w'" and fr: "fr \<noteq> Unallocated"
  shows "frames_ref w' (add_mset fr' M)" and "\<And>g. g \<in># M \<Longrightarrow> frame_content env w' g = frame_content env w g"
proof -
  have kept: "frames_kept env {fr, fr'} w w'" and new: "frame_count w fr' = 0" "frame_count w' fr' = 1"
    and old: "frame_count w' fr = frame_count w fr - 1"
    and many: "1 < frame_count w fr \<longrightarrow> frame_content env w' fr = frame_content env w fr"
    using mv by (simp_all add: frame_moved_def)
  have out: "fr' \<notin># M" if "fr' \<noteq> Unallocated"
    using frames_refD [OF ref, of fr'] that new(1) by auto
  show "frames_ref w' (add_mset fr' M)"
    unfolding frames_ref_def
  proof (intro allI impI)
    fix g :: frame assume g: "g \<noteq> Unallocated"
    have le: "count (add_mset fr M) g \<le> frame_count w g" using ref g by (simp add: frames_ref_def)
    consider "g = fr'" | "g = fr" "g \<noteq> fr'" | "g \<noteq> fr" "g \<noteq> fr'" by blast
    then show "count (add_mset fr' M) g \<le> frame_count w' g"
    proof cases
      case 1
      then show ?thesis using out g new by (simp add: not_in_iff)
    next
      case 2
      then show ?thesis using le old by simp
    next
      case 3
      then show ?thesis using le kept by (simp add: frames_kept_def)
    qed
  qed
  fix g assume g: "g \<in># M"
  show "frame_content env w' g = frame_content env w g"
  proof (cases "g = fr")
    case True
    then obtain N where "M = add_mset fr N" using g by (metis insert_DiffM)
    then show ?thesis using many True frames_ref_two [of w fr N] ref fr by simp
  next
    case False
    show ?thesis
    proof (cases "g = Unallocated")
      case True
      then show ?thesis by (simp add: frame_content_def)
    next
      case nu: False
      have "0 < frame_count w g" using frames_refD [OF ref, of g] g nu by simp
      moreover have "g \<noteq> fr'" using out g nu by auto
      ultimately show ?thesis using kept False by (simp add: frames_kept_def)
    qed
  qed
qed

lemma frames_ref_dropped:
  assumes ref: "frames_ref w (add_mset fr M)" and d: "drop_effect lo env fr w w'"
  shows "frames_ref w' M" and "\<And>g. g \<in># M \<Longrightarrow> frame_content env w' g = frame_content env w g"
proof -
  have kept: "frames_kept env {fr} w w'" and old: "frame_count w' fr = frame_count w fr - 1"
    and many: "1 < frame_count w fr \<longrightarrow> frame_content env w' fr = frame_content env w fr"
    using d by (simp_all add: drop_effect_def)
  show "frames_ref w' M"
    unfolding frames_ref_def
  proof (intro allI impI)
    fix g :: frame assume g: "g \<noteq> Unallocated"
    have le: "count (add_mset fr M) g \<le> frame_count w g" using ref g by (simp add: frames_ref_def)
    then show "count M g \<le> frame_count w' g"
      using old kept by (cases "g = fr") (simp_all add: frames_kept_def)
  qed
  fix g assume g: "g \<in># M"
  show "frame_content env w' g = frame_content env w g"
  proof (cases "g = Unallocated")
    case True
    then show ?thesis by (simp add: frame_content_def)
  next
    case nu: False
    show ?thesis
    proof (cases "g = fr")
      case True
      then obtain N where "M = add_mset fr N" using g by (metis insert_DiffM)
      then show ?thesis using many True frames_ref_two [of w fr N] ref nu by simp
    next
      case False
      have "0 < frame_count w g" using frames_refD [OF ref, of g] g nu by simp
      then show ?thesis using kept False by (simp add: frames_kept_def)
    qed
  qed
qed

end
