(* ===== verification/Mm_Linear_Map.thy ===== *)
theory Mm_Linear_Map
  imports Mm_Frame
begin

text \<open>
  The frames of one contiguous range of virtual pages, \<open>struct LinearMap\<close> of
  \<open>mm/map_area.rs\<close>: one \<^typ>\<open>frame\<close> per page, the queue \<open>active\<close> of the indices (16-bit
  words) of pages that entered memory, and counters of compressed and swapped pages.
  An outer \<^const>\<open>None\<close> is a panic (an index out of range, a failed \<open>unwrap\<close> or the
  assertion of \<open>VPNRange::new\<close>); \<open>Err(())\<close> is a value.
\<close>

section \<open>Definitions\<close>

record linear_map =
  lm_range :: simple_range
  lm_frames :: "frame list"
  lm_active :: "u16 list"
  lm_compressed :: usize
  lm_swapped :: usize

definition lm_get_start :: "linear_map \<Rightarrow> VirtPageNum" where
  "lm_get_start lm = range_l (lm_range lm)"

definition lm_get_end :: "linear_map \<Rightarrow> VirtPageNum" where
  "lm_get_end lm = range_r (lm_range lm)"

definition lm_gen_dict :: "simple_range \<Rightarrow> linear_map" where
  "lm_gen_dict r = \<lparr>lm_range = r, lm_frames = [], lm_active = [], lm_compressed = 0, lm_swapped = 0\<rparr>"

definition lm_new :: "simple_range \<Rightarrow> linear_map" where
  "lm_new r =
     (let len = unat (range_r r - range_l r)
      in \<lparr>lm_range = r, lm_frames = vec_resize len Unallocated [], lm_active = [],
          lm_compressed = 0, lm_swapped = 0\<rparr>)"

definition lm_index :: "VirtPageNum \<Rightarrow> linear_map \<Rightarrow> nat" where
  "lm_index key lm = unat (key - lm_get_start lm)"

definition lm_get :: "VirtPageNum \<Rightarrow> linear_map \<Rightarrow> frame option" where
  "lm_get key lm = vec_get (lm_frames lm) (lm_index key lm)"

definition lm_get_in_memory :: "VirtPageNum \<Rightarrow> linear_map \<Rightarrow> PhysPageNum option option" where
  "lm_get_in_memory key lm =
     map_option (\<lambda>fr. case fr of InMemory p \<Rightarrow> Some p | _ \<Rightarrow> None) (lm_get key lm)"

definition lm_alloc_in_memory ::
  "'d kenv \<Rightarrow> VirtPageNum \<Rightarrow> PhysPageNum \<Rightarrow> linear_map \<Rightarrow> ('d, 'z) world \<Rightarrow> (linear_map \<times> ('d, 'z) world) option" where
  "lm_alloc_in_memory env key value lm w =
     do { let idx = lm_index key lm;
          let lm = lm\<lparr>lm_active := lm_active lm @ [ucast (key - lm_get_start lm)]\<rparr>;
          fr \<leftarrow> vec_get (lm_frames lm) idx;
          (res, fr', w') \<leftarrow> insert_in_memory env value fr w;
          case res of
            Inr _ \<Rightarrow> Some (lm\<lparr>lm_frames := (lm_frames lm)[idx := fr']\<rparr>, w')
          | Inl _ \<Rightarrow> None }"

definition lm_remove_in_memory :: "VirtPageNum \<Rightarrow> linear_map \<Rightarrow> (PhysPageNum option \<times> linear_map) option" where
  "lm_remove_in_memory key lm =
     do { let idx = lm_index key lm;
          let lm = lm\<lparr>lm_active := filter (\<lambda>elem. unat elem \<noteq> idx) (lm_active lm)\<rparr>;
          fr \<leftarrow> vec_get (lm_frames lm) idx;
          let (taken, fr') = take_in_memory fr;
          Some (taken, lm\<lparr>lm_frames := (lm_frames lm)[idx := fr']\<rparr>) }"

text \<open>\<open>Vec::resize\<close> on frames drops what it cuts off.\<close>

definition frames_resize ::
  "'d kenv \<Rightarrow> nat \<Rightarrow> frame list \<Rightarrow> ('d, 'z) world \<Rightarrow> (frame list \<times> ('d, 'z) world) option" where
  "frames_resize env n frs w =
     map_option (\<lambda>w'. (vec_resize n Unallocated frs, w')) (frames_drop env (drop n frs) w)"

definition lm_set_start ::
  "'d kenv \<Rightarrow> VirtPageNum \<Rightarrow> linear_map \<Rightarrow> ('d, 'z) world \<Rightarrow>
   ((unit + unit) \<times> linear_map \<times> ('d, 'z) world) option" where
  "lm_set_start env new_vpn_start lm w =
     (let vpn_start = lm_get_start lm; vpn_end = lm_get_end lm in
      if new_vpn_start > vpn_end then Some (Inl (), lm, w)
      else do {
        r \<leftarrow> range_new new_vpn_start vpn_end;
        frames \<leftarrow> slice_rotate_left
          (if new_vpn_start < vpn_start then unat (vpn_start - new_vpn_start)
           else unat (new_vpn_start - vpn_start)) (lm_frames lm);
        (frames, w) \<leftarrow> frames_resize env (unat (vpn_end - new_vpn_start)) frames w;
        Some (Inr (), lm\<lparr>lm_range := r, lm_frames := frames\<rparr>, w) })"

definition lm_set_end ::
  "'d kenv \<Rightarrow> VirtPageNum \<Rightarrow> linear_map \<Rightarrow> ('d, 'z) world \<Rightarrow>
   ((unit + unit) \<times> linear_map \<times> ('d, 'z) world) option" where
  "lm_set_end env new_vpn_end lm w =
     do { let vpn_start = lm_get_start lm;
          r \<leftarrow> range_new vpn_start new_vpn_end;
          let lm = lm\<lparr>lm_range := r\<rparr>;
          if vpn_start > new_vpn_end then Some (Inl (), lm, w)
          else do {
            (frames, w) \<leftarrow> frames_resize env (unat (new_vpn_end - vpn_start)) (lm_frames lm) w;
            Some (Inr (), lm\<lparr>lm_frames := frames\<rparr>, w) } }"

definition lm_count_compressed_and_swapped :: "nat \<Rightarrow> nat \<Rightarrow> linear_map \<Rightarrow> (usize \<times> usize) option" where
  "lm_count_compressed_and_swapped start end lm =
     (if lm_compressed lm = 0 \<and> lm_swapped lm = 0 then Some (0, 0)
      else if start \<le> end \<and> end \<le> length (lm_frames lm) then
        Some (foldl (\<lambda>(compressed, swapped) fr.
                case fr of
                  Compressed _ \<Rightarrow> (compressed + 1, swapped)
                | SwappedOut _ \<Rightarrow> (compressed, swapped + 1)
                | _ \<Rightarrow> (compressed, swapped))
              (0, 0) (take (end - start) (drop start (lm_frames lm))))
      else None)"

definition split_active_into_two :: "u16 list \<Rightarrow> usize \<Rightarrow> u16 list \<times> u16 list" where
  "split_active_into_two active cut_idx =
     (if active = [] then ([], [])
      else foldl (\<lambda>(first_active, second_active) idx.
             if unat idx < unat cut_idx then (first_active @ [idx], second_active)
             else (first_active, second_active @ [idx - ucast cut_idx])) ([], []) active)"

definition split_active_into_three :: "u16 list \<Rightarrow> usize \<Rightarrow> usize \<Rightarrow> (u16 list \<times> u16 list \<times> u16 list) option" where
  "split_active_into_three active first_cut_idx second_cut_idx =
     (if \<not> first_cut_idx < second_cut_idx then None
      else if active = [] then Some ([], [], [])
      else Some (foldl (\<lambda>(first_active, second_active, third_active) idx.
             if unat idx < unat first_cut_idx then (first_active @ [idx], second_active, third_active)
             else if unat idx < unat second_cut_idx then
               (first_active, second_active @ [idx - ucast first_cut_idx], third_active)
             else (first_active, second_active, third_active @ [idx - ucast second_cut_idx]))
             ([], [], []) active))"

text \<open>
  \<open>into_two\<close> keeps the pages below the cut and returns the rest; \<open>into_three\<close> cuts twice,
  and when the second cut fails the part above the first one goes out of scope.
\<close>

definition lm_into_two :: "VirtPageNum \<Rightarrow> linear_map \<Rightarrow> ((unit + linear_map) \<times> linear_map) option" where
  "lm_into_two cut_vpn lm =
     (let vpn_start = lm_get_start lm; vpn_end = lm_get_end lm in
      if cut_vpn \<le> vpn_start \<or> cut_vpn \<ge> vpn_end then Some (Inl (), lm)
      else
        (let at = unat (cut_vpn - vpn_start) in
         if at > length (lm_frames lm) then None
         else do {
           let second_frames = drop at (lm_frames lm);
           let lm = lm\<lparr>lm_frames := take at (lm_frames lm)\<rparr>;
           let (first_active, second_active) = split_active_into_two (lm_active lm) (cut_vpn - vpn_start);
           (first_compressed, first_swapped) \<leftarrow> lm_count_compressed_and_swapped 0 at lm;
           r2 \<leftarrow> range_new cut_vpn vpn_end;
           r1 \<leftarrow> range_new vpn_start cut_vpn;
           Some (Inr \<lparr>lm_range = r2, lm_frames = second_frames, lm_active = second_active,
                      lm_compressed = lm_compressed lm - first_compressed,
                      lm_swapped = lm_swapped lm - first_swapped\<rparr>,
                 lm\<lparr>lm_range := r1, lm_active := first_active, lm_compressed := first_compressed,
                    lm_swapped := first_swapped\<rparr>) }))"

definition lm_into_three ::
  "'d kenv \<Rightarrow> VirtPageNum \<Rightarrow> VirtPageNum \<Rightarrow> linear_map \<Rightarrow> ('d, 'z) world \<Rightarrow>
   ((unit + linear_map \<times> linear_map) \<times> linear_map \<times> ('d, 'z) world) option" where
  "lm_into_three env first_cut second_cut lm w =
     do { (res1, lm) \<leftarrow> lm_into_two first_cut lm;
          case res1 of
            Inl _ \<Rightarrow> Some (Inl (), lm, w)
          | Inr second \<Rightarrow>
              do { (res2, second) \<leftarrow> lm_into_two second_cut second;
                   case res2 of
                     Inr third \<Rightarrow> Some (Inr (second, third), lm, w)
                   | Inl _ \<Rightarrow> map_option (\<lambda>w'. (Inl (), lm, w')) (frames_drop env (lm_frames second) w) } }"

subsection \<open>Well-formedness\<close>

definition lm_wf :: "linear_map \<Rightarrow> bool" where
  "lm_wf lm \<longleftrightarrow>
     lm_get_start lm \<le> lm_get_end lm \<and>
     length (lm_frames lm) = unat (lm_get_end lm) - unat (lm_get_start lm)"

text \<open>A compressed and a swapped page are counted.\<close>

definition frame_is_compressed :: "frame \<Rightarrow> bool" where
  "frame_is_compressed fr = (case fr of Compressed _ \<Rightarrow> True | _ \<Rightarrow> False)"

definition frame_is_swapped :: "frame \<Rightarrow> bool" where
  "frame_is_swapped fr = (case fr of SwappedOut _ \<Rightarrow> True | _ \<Rightarrow> False)"

definition lm_counts :: "linear_map \<Rightarrow> bool" where
  "lm_counts lm \<longleftrightarrow>
     lm_compressed lm = of_nat (length (filter frame_is_compressed (lm_frames lm))) \<and>
     lm_swapped lm = of_nat (length (filter frame_is_swapped (lm_frames lm))) \<and>
     length (lm_frames lm) < 2 ^ 64"

section \<open>Lemmas\<close>

lemma lm_new_simps [simp]:
  "lm_get_start (lm_new r) = range_l r" "lm_get_end (lm_new r) = range_r r" "lm_range (lm_new r) = r"
  "lm_frames (lm_new r) = replicate (unat (range_r r - range_l r)) Unallocated"
  "lm_active (lm_new r) = []" "lm_compressed (lm_new r) = 0" "lm_swapped (lm_new r) = 0"
  by (simp_all add: lm_new_def lm_get_start_def lm_get_end_def Let_def vec_resize_def)

lemma lm_new_wf:
  assumes "range_l r \<le> range_r r"
  shows "lm_wf (lm_new r)" "lm_counts (lm_new r)"
  using assms unat_sub_no_wrap [OF assms] unat_u64_bound [of "range_r r - range_l r"]
  unfolding lm_wf_def lm_counts_def lm_new_simps length_replicate
  by (simp_all add: frame_is_compressed_def frame_is_swapped_def del: unat_sub_no_wrap)

text \<open>The page number of an index and the index of a page number.\<close>

definition lm_vpn :: "linear_map \<Rightarrow> nat \<Rightarrow> VirtPageNum" where
  "lm_vpn lm i = lm_get_start lm + of_nat i"

definition lm_in_range :: "linear_map \<Rightarrow> VirtPageNum \<Rightarrow> bool" where
  "lm_in_range lm v \<longleftrightarrow> lm_get_start lm \<le> v \<and> v < lm_get_end lm"

lemma lm_bounds_update [simp]:
  "lm_get_start (lm\<lparr>lm_frames := frs\<rparr>) = lm_get_start lm" "lm_get_end (lm\<lparr>lm_frames := frs\<rparr>) = lm_get_end lm"
  "lm_get_start (lm\<lparr>lm_active := a\<rparr>) = lm_get_start lm" "lm_get_end (lm\<lparr>lm_active := a\<rparr>) = lm_get_end lm"
  "lm_get_start (lm\<lparr>lm_compressed := c\<rparr>) = lm_get_start lm" "lm_get_end (lm\<lparr>lm_compressed := c\<rparr>) = lm_get_end lm"
  "lm_get_start (lm\<lparr>lm_swapped := c\<rparr>) = lm_get_start lm" "lm_get_end (lm\<lparr>lm_swapped := c\<rparr>) = lm_get_end lm"
  by (simp_all add: lm_get_start_def lm_get_end_def)

lemma lm_range_cong:
  assumes "lm_range lm' = lm_range lm"
  shows "lm_get_start lm' = lm_get_start lm" "lm_get_end lm' = lm_get_end lm"
    "lm_index v lm' = lm_index v lm" "lm_vpn lm' i = lm_vpn lm i" "lm_in_range lm' v = lm_in_range lm v"
  using assms by (simp_all add: lm_get_start_def lm_get_end_def lm_index_def lm_vpn_def lm_in_range_def)

lemma lm_index_in_range:
  assumes "lm_wf lm" and "lm_in_range lm v"
  shows "lm_index v lm < length (lm_frames lm)" "lm_vpn lm (lm_index v lm) = v"
    "unat v = unat (lm_get_start lm) + lm_index v lm"
proof -
  have le: "lm_get_start lm \<le> v" using assms(2) by (simp add: lm_in_range_def)
  have idx: "lm_index v lm = unat v - unat (lm_get_start lm)"
    unfolding lm_index_def by (rule unat_sub_no_wrap [OF le])
  show "unat v = unat (lm_get_start lm) + lm_index v lm" using le idx by (simp add: word_le_nat_alt)
  show "lm_index v lm < length (lm_frames lm)"
    using assms idx unfolding lm_wf_def lm_in_range_def word_le_nat_alt word_less_nat_alt by linarith
  show "lm_vpn lm (lm_index v lm) = v" by (simp add: lm_vpn_def lm_index_def)
qed

lemma lm_vpn_in_range:
  assumes "lm_wf lm" and "i < length (lm_frames lm)"
  shows "lm_in_range lm (lm_vpn lm i)" "lm_index (lm_vpn lm i) lm = i"
    "unat (lm_vpn lm i) = unat (lm_get_start lm) + i"
proof -
  have len: "unat (lm_get_start lm) + i < unat (lm_get_end lm)" using assms by (simp add: lm_wf_def)
  moreover have b: "unat (lm_get_end lm) < 2 ^ 64" by (rule unat_u64_bound)
  ultimately have i: "unat (of_nat i :: usize) = i" by (intro unat_of_nat_u64) simp
  have "unat (lm_get_start lm) + unat (of_nat i :: usize) < 2 ^ 64" using i len b by simp
  then have u: "unat (lm_vpn lm i) = unat (lm_get_start lm) + i"
    unfolding lm_vpn_def using i by (simp add: unat_word_ariths)
  then show "unat (lm_vpn lm i) = unat (lm_get_start lm) + i" .
  show "lm_in_range lm (lm_vpn lm i)" using u len by (simp add: lm_in_range_def word_le_nat_alt word_less_nat_alt)
  show "lm_index (lm_vpn lm i) lm = i" by (simp add: lm_index_def lm_vpn_def i)
qed

lemma set_lm_range: "lm_wf lm \<Longrightarrow> set (range_list (lm_range lm)) = {v. lm_in_range lm v}"
  using set_range_list [of "lm_range lm"]
  by (simp add: lm_wf_def lm_get_start_def lm_get_end_def lm_in_range_def)

lemma distinct_range_list:
  assumes "range_l r \<le> range_r r"
  shows "distinct (range_list r)"
proof -
  have b: "unat (range_r r) < 2 ^ 64" by (rule unat_u64_bound)
  have "inj_on (of_nat :: nat \<Rightarrow> usize) {unat (range_l r)..<unat (range_r r)}"
  proof (rule inj_onI)
    fix x y assume "x \<in> {unat (range_l r)..<unat (range_r r)}" "y \<in> {unat (range_l r)..<unat (range_r r)}"
      and eq: "(of_nat x :: usize) = of_nat y"
    then have "x < 2 ^ 64" "y < 2 ^ 64" using b by auto
    then show "x = y" using arg_cong [OF eq, of unat] by (simp add: unat_of_nat_u64)
  qed
  then show ?thesis by (simp add: range_list_upt [OF assms] distinct_map)
qed

lemma foldl_count:
  "foldl (\<lambda>(c, s) fr. case fr of Compressed _ \<Rightarrow> (c + 1, s) | SwappedOut _ \<Rightarrow> (c, s + 1) | _ \<Rightarrow> (c, s)) (c, s) frs =
     (c + of_nat (length (filter frame_is_compressed frs)), s + of_nat (length (filter frame_is_swapped frs)) :: usize)"
  for c s :: usize
  by (induction frs arbitrary: c s)
    (auto simp: frame_is_compressed_def frame_is_swapped_def split: frame.splits)

lemma of_nat_eq_0_u64: "n < 2 ^ 64 \<Longrightarrow> (of_nat n :: usize) = 0 \<longleftrightarrow> n = 0"
  using unat_of_nat_u64 [of n] by auto

lemma length_filter_update:
  assumes "i < length xs" and "\<not> P (xs ! i)"
  shows "length (filter P (xs[i := y])) = length (filter P xs) + (if P y then 1 else 0)"
proof -
  have "xs = take i xs @ xs ! i # drop (Suc i) xs" by (rule id_take_nth_drop [OF assms(1)])
  then have "length (filter P xs) = length (filter P (take i xs)) + length (filter P (drop (Suc i) xs))"
    using assms(2) by (metis filter.simps(2) filter_append length_append)
  then show ?thesis by (simp add: upd_conv_take_nth_drop [OF assms(1)])
qed

lemma nth_other_mset:
  assumes "i < length xs" and "j < length xs" and "j \<noteq> i"
  shows "xs ! j \<in># mset xs - {#xs ! i#}"
proof -
  let ?ys = "take i xs @ drop (Suc i) xs"
  have "mset xs = add_mset (xs ! i) (mset ?ys)"
    by (subst id_take_nth_drop [OF assms(1)]) simp
  moreover have "xs ! j \<in> set ?ys"
  proof (cases "j < i")
    case True
    then have "xs ! j = take i xs ! j" "j < length (take i xs)" using assms(1) by simp_all
    then show ?thesis by (metis Un_iff nth_mem set_append)
  next
    case False
    then have "xs ! j = drop (Suc i) xs ! (j - Suc i)" "j - Suc i < length (drop (Suc i) xs)"
      using assms by simp_all
    then show ?thesis by (metis Un_iff nth_mem set_append)
  qed
  ultimately show ?thesis by simp
qed

lemma lm_counts_update:
  assumes counts: "lm_counts lm" and i: "i < length (lm_frames lm)" "lm_frames lm ! i = InMemory p"
    and lm': "lm_frames lm' = (lm_frames lm)[i := fr']"
      "lm_compressed lm' = lm_compressed lm + (if frame_is_compressed fr' then 1 else 0)"
      "lm_swapped lm' = lm_swapped lm + (if frame_is_swapped fr' then 1 else 0)"
  shows "lm_counts lm'"
proof -
  have "\<not> frame_is_compressed (lm_frames lm ! i)" "\<not> frame_is_swapped (lm_frames lm ! i)"
    by (simp_all add: i(2) frame_is_compressed_def frame_is_swapped_def)
  note F = length_filter_update [where P = frame_is_compressed, OF i(1) this(1), of fr']
    length_filter_update [where P = frame_is_swapped, OF i(1) this(2), of fr']
  show ?thesis using counts by (simp add: lm_counts_def lm' F)
qed

lemma lm_count_first:
  assumes counts: "lm_counts lm" and n: "n \<le> length (lm_frames lm)"
  shows "lm_count_compressed_and_swapped 0 n (lm\<lparr>lm_frames := take n (lm_frames lm)\<rparr>) =
    Some (of_nat (length (filter frame_is_compressed (take n (lm_frames lm)))),
          of_nat (length (filter frame_is_swapped (take n (lm_frames lm)))))"
proof (cases "lm_compressed lm = 0 \<and> lm_swapped lm = 0")
  case True
  let ?c = "length (filter frame_is_compressed (lm_frames lm))" and ?s = "length (filter frame_is_swapped (lm_frames lm))"
  have "?c < 2 ^ 64" "?s < 2 ^ 64"
    using counts length_filter_le [of _ "lm_frames lm"] unfolding lm_counts_def by (meson le_less_trans)+
  then have "?c = 0" "?s = 0" using True counts by (simp_all add: lm_counts_def of_nat_eq_0_u64)
  then have "\<forall>fr \<in> set (lm_frames lm). \<not> frame_is_compressed fr \<and> \<not> frame_is_swapped fr"
    by (simp add: filter_empty_conv)
  then have "filter frame_is_compressed (take n (lm_frames lm)) = []" "filter frame_is_swapped (take n (lm_frames lm)) = []"
    by (auto simp: filter_empty_conv dest: in_set_takeD)
  then show ?thesis using True by (simp add: lm_count_compressed_and_swapped_def)
next
  case False
  then show ?thesis using n
    by (auto simp: lm_count_compressed_and_swapped_def foldl_count min_def)
qed

lemma lm_into_two_ok:
  assumes wf: "lm_wf lm" and counts: "lm_counts lm" and inside: "lm_get_start lm < k" "k < lm_get_end lm"
  shows "\<exists>first second. lm_into_two k lm = Some (Inr second, first) \<and>
    lm_frames first @ lm_frames second = lm_frames lm \<and>
    lm_wf first \<and> lm_get_start first = lm_get_start lm \<and> lm_get_end first = k \<and>
    lm_wf second \<and> lm_get_start second = k \<and> lm_get_end second = lm_get_end lm \<and>
    lm_counts first \<and> lm_counts second"
proof -
  define n where "n = unat (k - lm_get_start lm)"
  have le: "lm_get_start lm \<le> k" "k \<le> lm_get_end lm" using inside by simp_all
  have n: "n = unat k - unat (lm_get_start lm)" unfolding n_def by (rule unat_sub_no_wrap [OF le(1)])
  then have len: "n \<le> length (lm_frames lm)" using wf le by (simp add: lm_wf_def word_le_nat_alt)
  obtain a1 a2 where act: "split_active_into_two (lm_active lm) (k - lm_get_start lm) = (a1, a2)" by fastforce
  define c1 where "c1 = (of_nat (length (filter frame_is_compressed (take n (lm_frames lm)))) :: usize)"
  define s1 where "s1 = (of_nat (length (filter frame_is_swapped (take n (lm_frames lm)))) :: usize)"
  let ?second = "\<lparr>lm_range = \<lparr>range_l = k, range_r = lm_get_end lm\<rparr>, lm_frames = drop n (lm_frames lm),
    lm_active = a2, lm_compressed = lm_compressed lm - c1, lm_swapped = lm_swapped lm - s1\<rparr>"
  let ?first = "lm\<lparr>lm_frames := take n (lm_frames lm), lm_range := \<lparr>range_l = lm_get_start lm, range_r = k\<rparr>,
    lm_active := a1, lm_compressed := c1, lm_swapped := s1\<rparr>"
  have eq: "lm_into_two k lm = Some (Inr ?second, ?first)"
    using inside le len lm_count_first [OF counts len] less_imp_neq [OF inside(1)] less_imp_neq [OF inside(2)]
    by (simp add: lm_into_two_def Let_def act range_new_def c1_def s1_def flip: n_def)
  have bound: "length (lm_frames lm) < 2 ^ 64" using counts by (simp add: lm_counts_def)
  have split: "length (filter P (lm_frames lm)) =
      length (filter P (take n (lm_frames lm))) + length (filter P (drop n (lm_frames lm)))" for P
    by (metis append_take_drop_id filter_append length_append)
  have "lm_compressed lm = c1 + of_nat (length (filter frame_is_compressed (drop n (lm_frames lm))))"
    "lm_swapped lm = s1 + of_nat (length (filter frame_is_swapped (drop n (lm_frames lm))))"
    using counts unfolding lm_counts_def split [of frame_is_compressed] split [of frame_is_swapped]
    by (simp_all add: c1_def s1_def)
  then have "lm_counts ?second" "lm_counts ?first"
    using bound by (simp_all add: lm_counts_def c1_def s1_def)
  moreover have "lm_wf ?first" "lm_wf ?second"
    using wf le len n by (simp_all add: lm_wf_def lm_get_start_def lm_get_end_def word_le_nat_alt)
  ultimately show ?thesis using eq by (intro exI [of _ ?first] exI [of _ ?second])
    (simp add: lm_get_start_def lm_get_end_def)
qed

lemma lm_into_three_ok:
  assumes wf: "lm_wf lm" and counts: "lm_counts lm"
    and inside: "lm_get_start lm < a" "a < b" "b < lm_get_end lm"
  shows "\<exists>first second third. lm_into_three env a b lm w = Some (Inr (second, third), first, w) \<and>
    lm_frames first @ lm_frames second @ lm_frames third = lm_frames lm \<and>
    lm_wf first \<and> lm_get_start first = lm_get_start lm \<and> lm_get_end first = a \<and>
    lm_wf second \<and> lm_get_start second = a \<and> lm_get_end second = b \<and>
    lm_wf third \<and> lm_get_start third = b \<and> lm_get_end third = lm_get_end lm \<and>
    lm_counts first \<and> lm_counts second \<and> lm_counts third"
proof -
  have "a < lm_get_end lm" using inside by simp
  from lm_into_two_ok [OF wf counts inside(1) this] obtain first rest where 1:
    "lm_into_two a lm = Some (Inr rest, first)" "lm_frames first @ lm_frames rest = lm_frames lm"
    "lm_wf first" "lm_get_start first = lm_get_start lm" "lm_get_end first = a" "lm_counts first"
    "lm_wf rest" "lm_get_start rest = a" "lm_get_end rest = lm_get_end lm" "lm_counts rest" by blast
  from lm_into_two_ok [OF 1(7,10), of b] inside(2,3) obtain second third where 2:
    "lm_into_two b rest = Some (Inr third, second)" "lm_frames second @ lm_frames third = lm_frames rest"
    "lm_wf second" "lm_get_start second = a" "lm_get_end second = b" "lm_counts second"
    "lm_wf third" "lm_get_start third = b" "lm_get_end third = lm_get_end lm" "lm_counts third"
    using 1(8,9) by auto
  have "lm_into_three env a b lm w = Some (Inr (second, third), first, w)"
    by (simp add: lm_into_three_def 1(1) 2(1))
  moreover have "lm_frames first @ lm_frames second @ lm_frames third = lm_frames lm" by (simp add: 1(2) 2(2))
  ultimately show ?thesis using 1(3-6) 2(3-10) by blast
qed

end
