(* ===== verification/Mm_Map_Area.thy ===== *)
theory Mm_Map_Area
  imports Mm_Linear_Map
begin

text \<open>
  A segment of an address space, \<open>struct MapArea\<close> of \<open>mm/map_area.rs\<close>: the linear map
  with the mapping type, the permissions and an optional backing file. Its operations change
  the area, the page table (a \<^typ>\<open>sv39\<close>) and the world together.

  The methods of the trait object \<open>Arc<dyn File>\<close> that back a file mapping are the argument
  \<open>fops\<close>. \<open>tlb_flush_local\<close> and the log macros have no effect on the modelled state.
\<close>

section \<open>Definitions\<close>

datatype map_type = Identical | Framed

datatype seek_whence = SEEK_SET | SEEK_CUR | SEEK_END

record ('f, 'w) file_ops =
  fo_readable :: "'f \<Rightarrow> bool"
  fo_get_offset :: "'f \<Rightarrow> 'w \<Rightarrow> usize"
  fo_get_size :: "'f \<Rightarrow> 'w \<Rightarrow> usize"
  fo_lseek :: "'f \<Rightarrow> usize \<Rightarrow> seek_whence \<Rightarrow> 'w \<Rightarrow> (usize + usize) \<times> 'w"
  fo_read :: "'f \<Rightarrow> nat \<Rightarrow> 'w \<Rightarrow> u8 list \<times> 'w"
  fo_get_single_cache :: "'f \<Rightarrow> usize \<Rightarrow> 'w \<Rightarrow> (PhysPageNum \<times> 'w) option"
  fo_deep_clone :: "'f \<Rightarrow> 'w \<Rightarrow> 'f \<times> 'w"

record 'f map_area =
  ma_inner :: linear_map
  ma_map_type :: map_type
  ma_map_perm :: MapPermission
  ma_writable_stripped :: bool
  ma_map_file :: "'f option"

definition ma_get_start :: "'f map_area \<Rightarrow> VirtPageNum" where
  "ma_get_start ma = lm_get_start (ma_inner ma)"

definition ma_get_end :: "'f map_area \<Rightarrow> VirtPageNum" where
  "ma_get_end ma = lm_get_end (ma_inner ma)"

definition ma_new ::
  "VirtAddr \<Rightarrow> VirtAddr \<Rightarrow> map_type \<Rightarrow> MapPermission \<Rightarrow> 'f option \<Rightarrow> 'f map_area option" where
  "ma_new start_va end_va map_type map_perm map_file =
     map_option (\<lambda>r. \<lparr>ma_inner = lm_new r, ma_map_type = map_type, ma_map_perm = map_perm,
                      ma_writable_stripped = False, ma_map_file = map_file\<rparr>)
       (range_new (va_floor start_va) (va_ceil end_va))"

definition ma_from_another :: "'f map_area \<Rightarrow> 'f map_area option" where
  "ma_from_another another =
     map_option (\<lambda>r. another\<lparr>ma_inner := lm_new r\<rparr>) (range_new (ma_get_start another) (ma_get_end another))"

definition ma_from_existing_frame ::
  "VirtAddr \<Rightarrow> map_type \<Rightarrow> MapPermission \<Rightarrow> frame list \<Rightarrow> 'f map_area option" where
  "ma_from_existing_frame start_va map_type map_perm frames =
     (let start_vpn = va_floor start_va; end_vpn = start_vpn + of_nat (length frames) in
      map_option (\<lambda>r. \<lparr>ma_inner = \<lparr>lm_range = r, lm_frames = frames, lm_active = [], lm_compressed = 0,
                        lm_swapped = 0\<rparr>, ma_map_type = map_type, ma_map_perm = map_perm,
                        ma_writable_stripped = False, ma_map_file = None\<rparr>)
        (range_new start_vpn end_vpn))"

subsection \<open>Mapping and unmapping pages\<close>

definition map_one_unchecked ::
  "'d kenv \<Rightarrow> ('d, 'z) woom \<Rightarrow> VirtPageNum \<Rightarrow> 'f map_area \<Rightarrow> sv39 \<Rightarrow> ('d, 'z) world \<Rightarrow>
   (PhysPageNum \<times> 'f map_area \<times> sv39 \<times> ('d, 'z) world) option" where
  "map_one_unchecked env oom vpn ma pt w =
     (case ma_map_type ma of
        Identical \<Rightarrow>
          do { (pt, w) \<leftarrow> sv39_map oom vpn vpn (ma_map_perm ma) pt w;
               Some (vpn, ma, pt, w) }
      | Framed \<Rightarrow>
          do { (res, w) \<leftarrow> frame_alloc_uninit oom w;
               ppn \<leftarrow> res;
               (lm, w) \<leftarrow> lm_alloc_in_memory env vpn ppn (ma_inner ma) w;
               (pt, w) \<leftarrow> sv39_map oom vpn ppn (ma_map_perm ma) pt w;
               Some (ppn, ma\<lparr>ma_inner := lm\<rparr>, pt, w) })"

definition map_one ::
  "'d kenv \<Rightarrow> ('d, 'z) woom \<Rightarrow> VirtPageNum \<Rightarrow> 'f map_area \<Rightarrow> sv39 \<Rightarrow> ('d, 'z) world \<Rightarrow>
   ((memory_error \<times> VirtPageNum + PhysPageNum) \<times> 'f map_area \<times> sv39 \<times> ('d, 'z) world) option" where
  "map_one env oom vpn ma pt w =
     (if ma_map_type ma = Identical \<or> \<not> sv39_is_mapped pt w vpn then
        do { (ppn, ma, pt, w) \<leftarrow> map_one_unchecked env oom vpn ma pt w;
             Some (Inr ppn, ma, pt, w) }
      else Some (Inl (AlreadyMapped, vpn), ma, pt, w))"

definition map_one_zeroed_unchecked ::
  "'d kenv \<Rightarrow> ('d, 'z) woom \<Rightarrow> VirtPageNum \<Rightarrow> 'f map_area \<Rightarrow> sv39 \<Rightarrow> ('d, 'z) world \<Rightarrow>
   (PhysPageNum option \<times> 'f map_area \<times> sv39 \<times> ('d, 'z) world) option" where
  "map_one_zeroed_unchecked env oom vpn ma pt w =
     do { (res, w) \<leftarrow> frame_alloc oom w;
          case res of
            None \<Rightarrow> Some (None, ma, pt, w)
          | Some ppn \<Rightarrow>
              do { (lm, w) \<leftarrow> lm_alloc_in_memory env vpn ppn (ma_inner ma) w;
                   (pt, w) \<leftarrow> sv39_map oom vpn ppn (ma_map_perm ma) pt w;
                   Some (Some ppn, ma\<lparr>ma_inner := lm\<rparr>, pt, w) } }"

text \<open>The reference that \<open>remove_in_memory\<close> returns is dropped at once.\<close>

definition arc_drop_opt :: "'d kenv \<Rightarrow> PhysPageNum option \<Rightarrow> ('d, 'z) world \<Rightarrow> ('d, 'z) world option" where
  "arc_drop_opt env taken w = (case taken of None \<Rightarrow> Some w | Some p \<Rightarrow> arc_drop (env_debug env) p w)"

definition unmap_one ::
  "'d kenv \<Rightarrow> VirtPageNum \<Rightarrow> 'f map_area \<Rightarrow> sv39 \<Rightarrow> ('d, 'z) world \<Rightarrow>
   ((memory_error + unit) \<times> 'f map_area \<times> ('d, 'z) world) option" where
  "unmap_one env vpn ma pt w =
     (if \<not> sv39_is_mapped pt w vpn then Some (Inl NotMapped, ma, w)
      else case ma_map_type ma of
        Framed \<Rightarrow>
          do { (taken, lm) \<leftarrow> lm_remove_in_memory vpn (ma_inner ma);
               w \<leftarrow> arc_drop_opt env taken w;
               Some (Inr (), ma\<lparr>ma_inner := lm\<rparr>, sv39_unmap pt vpn w) }
      | _ \<Rightarrow> Some (Inr (), ma, w))"

fun unmap_loop ::
  "'d kenv \<Rightarrow> VirtPageNum list \<Rightarrow> bool \<Rightarrow> 'f map_area \<Rightarrow> sv39 \<Rightarrow> ('d, 'z) world \<Rightarrow>
   (bool \<times> 'f map_area \<times> ('d, 'z) world) option" where
  "unmap_loop env [] has_unmapped_page ma pt w = Some (has_unmapped_page, ma, w)"
| "unmap_loop env (vpn # vpns) has_unmapped_page ma pt w =
     do { (res, ma, w) \<leftarrow> unmap_one env vpn ma pt w;
          unmap_loop env vpns (case res of Inl _ \<Rightarrow> True | Inr _ \<Rightarrow> has_unmapped_page) ma pt w }"

definition ma_unmap ::
  "'d kenv \<Rightarrow> 'f map_area \<Rightarrow> sv39 \<Rightarrow> ('d, 'z) world \<Rightarrow>
   ((memory_error + unit) \<times> 'f map_area \<times> ('d, 'z) world) option" where
  "ma_unmap env ma pt w =
     do { (has_unmapped_page, ma, w) \<leftarrow> unmap_loop env (range_list (lm_range (ma_inner ma))) False ma pt w;
          Some (if has_unmapped_page then Inl NotMapped else Inr (), ma, w) }"

subsection \<open>Fork: sharing and copying pages\<close>

fun map_existing_loop ::
  "('d, 'z) woom \<Rightarrow> MapPermission \<Rightarrow> VirtPageNum list \<Rightarrow> sv39 \<Rightarrow> sv39 \<Rightarrow> ('d, 'z) world \<Rightarrow>
   ((unit + unit) \<times> sv39 \<times> ('d, 'z) world) option" where
  "map_existing_loop oom map_perm [] dst src w = Some (Inr (), dst, w)"
| "map_existing_loop oom map_perm (vpn # vpns) dst src w =
     (let (res, w) = sv39_block_and_ret_mut src vpn w in
      case res of
        None \<Rightarrow> map_existing_loop oom map_perm vpns dst src w
      | Some ppn \<Rightarrow>
          if \<not> sv39_is_mapped dst w vpn then
            do { (dst, w) \<leftarrow> sv39_map oom vpn ppn map_perm dst w;
                 map_existing_loop oom map_perm vpns dst src w }
          else Some (Inl (), dst, w))"

definition map_from_existing_page_table ::
  "('d, 'z) woom \<Rightarrow> 'f map_area \<Rightarrow> sv39 \<Rightarrow> sv39 \<Rightarrow> ('d, 'z) world \<Rightarrow>
   ((unit + unit) \<times> sv39 \<times> ('d, 'z) world) option" where
  "map_from_existing_page_table oom ma dst src w =
     map_existing_loop oom (flags_difference (ma_map_perm ma) perm_W) (range_list (lm_range (ma_inner ma))) dst src w"

text \<open>Assigning \<open>frames[idx]\<close> drops the frame that was there.\<close>

definition set_frame ::
  "'d kenv \<Rightarrow> nat \<Rightarrow> frame \<Rightarrow> linear_map \<Rightarrow> ('d, 'z) world \<Rightarrow> (linear_map \<times> ('d, 'z) world) option" where
  "set_frame env idx fr lm w =
     do { old \<leftarrow> vec_get (lm_frames lm) idx;
          w \<leftarrow> frame_drop env old w;
          Some (lm\<lparr>lm_frames := (lm_frames lm)[idx := fr]\<rparr>, w) }"

fun map_prealloc_loop ::
  "'d kenv \<Rightarrow> ('d, 'z) woom \<Rightarrow> VirtPageNum list \<Rightarrow> 'f map_area \<Rightarrow> sv39 \<Rightarrow> sv39 \<Rightarrow> ('d, 'z) world \<Rightarrow>
   ((unit + unit) \<times> 'f map_area \<times> sv39 \<times> ('d, 'z) world) option" where
  "map_prealloc_loop env oom [] ma dst src w = Some (Inr (), ma, dst, w)"
| "map_prealloc_loop env oom (vpn # vpns) ma dst src w =
     (let idx = lm_index vpn (ma_inner ma); (res, w) = sv39_block_and_ret_mut src vpn w in
      case res of
        None \<Rightarrow>
          do { (lm, w) \<leftarrow> set_frame env idx Unallocated (ma_inner ma) w;
               map_prealloc_loop env oom vpns (ma\<lparr>ma_inner := lm\<rparr>) dst src w }
      | Some old_ppn \<Rightarrow>
          if sv39_is_mapped dst w vpn then Some (Inl (), ma, dst, w)
          else do {
            (new_frame, w) \<leftarrow> frame_alloc_uninit oom w;
            case new_frame of
              None \<Rightarrow>
                do { (dst, w) \<leftarrow> sv39_map oom vpn old_ppn (flags_difference (ma_map_perm ma) perm_W) dst w;
                     map_prealloc_loop env oom vpns ma dst src w }
            | Some new_ppn \<Rightarrow>
                do { let w = set_bytes new_ppn (bytes_array old_ppn w) w;
                     (lm, w) \<leftarrow> set_frame env idx (InMemory new_ppn) (ma_inner ma) w;
                     (dst, w) \<leftarrow> sv39_map oom vpn new_ppn (ma_map_perm ma) dst w;
                     map_prealloc_loop env oom vpns (ma\<lparr>ma_inner := lm\<rparr>) dst src w } })"

definition map_from_existing_page_table_prealloc ::
  "'d kenv \<Rightarrow> ('d, 'z) woom \<Rightarrow> 'f map_area \<Rightarrow> sv39 \<Rightarrow> sv39 \<Rightarrow> ('d, 'z) world \<Rightarrow>
   ((unit + unit) \<times> 'f map_area \<times> sv39 \<times> ('d, 'z) world) option" where
  "map_from_existing_page_table_prealloc env oom ma dst src w =
     map_prealloc_loop env oom (range_list (lm_range (ma_inner ma))) ma dst src w"

text \<open>\<open>map_from_kernel_area\<close>, after the kernel area has been looked up.\<close>

fun map_kernel_loop ::
  "'d kenv \<Rightarrow> ('d, 'z) woom \<Rightarrow> linear_map \<Rightarrow> VirtPageNum \<Rightarrow> VirtPageNum list \<Rightarrow> 'f map_area \<Rightarrow> sv39 \<Rightarrow>
   ('d, 'z) world \<Rightarrow> ((unit + unit) \<times> 'f map_area \<times> sv39 \<times> ('d, 'z) world) option" where
  "map_kernel_loop env oom kernel_area src_vpn [] ma pt w = Some (Inr (), ma, pt, w)"
| "map_kernel_loop env oom kernel_area src_vpn (vpn # vpns) ma pt w =
     do { frame \<leftarrow> lm_get_in_memory src_vpn kernel_area;
          case frame of
            None \<Rightarrow> Some (Inl (), ma, pt, w)
          | Some ppn \<Rightarrow>
              if \<not> sv39_is_mapped pt w vpn then
                do { (lm, w) \<leftarrow> lm_alloc_in_memory env vpn ppn (ma_inner ma) (arc_clone ppn w);
                     (pt, w) \<leftarrow> sv39_map oom vpn ppn (ma_map_perm ma) pt w;
                     map_kernel_loop env oom kernel_area (src_vpn + 1) vpns (ma\<lparr>ma_inner := lm\<rparr>) pt w }
              else Some (Inl (), ma, pt, w) }"

definition map_from_kernel_area ::
  "'d kenv \<Rightarrow> ('d, 'z) woom \<Rightarrow> 'f map_area option \<Rightarrow> VirtPageNum \<Rightarrow> 'f map_area \<Rightarrow> sv39 \<Rightarrow> ('d, 'z) world \<Rightarrow>
   ((unit + unit) \<times> 'f map_area \<times> sv39 \<times> ('d, 'z) world) option" where
  "map_from_kernel_area env oom kernel_area start_vpn_in_kernel_area ma pt w =
     do { ka \<leftarrow> kernel_area;
          map_kernel_loop env oom (ma_inner ka) start_vpn_in_kernel_area
            (range_list (lm_range (ma_inner ma))) ma pt w }"

subsection \<open>Copy on write\<close>

definition copy_on_write ::
  "'d kenv \<Rightarrow> ('d, 'z) woom \<Rightarrow> VirtPageNum \<Rightarrow> 'f map_area \<Rightarrow> sv39 \<Rightarrow> ('d, 'z) world \<Rightarrow>
   ((memory_error + PhysPageNum) \<times> 'f map_area \<times> sv39 \<times> ('d, 'z) world) option" where
  "copy_on_write env oom vpn ma pt w =
     do { (taken, lm) \<leftarrow> lm_remove_in_memory vpn (ma_inner ma);
          case taken of
            None \<Rightarrow> Some (Inl NotMapped, ma\<lparr>ma_inner := lm\<rparr>, pt, w)
          | Some old_ppn \<Rightarrow>
              if arcs w old_ppn = 1 then
                do { (lm, w) \<leftarrow> lm_alloc_in_memory env vpn old_ppn lm w;
                     w \<leftarrow> sv39_set_pte_flags (ma_map_perm ma) pt vpn w;
                     Some (Inr old_ppn, ma\<lparr>ma_inner := lm\<rparr>, pt, w) }
              else
                do { let w = sv39_unmap pt vpn w;
                     (res, w) \<leftarrow> frame_alloc_uninit oom w;
                     new_ppn \<leftarrow> res;
                     (lm, w) \<leftarrow> lm_alloc_in_memory env vpn new_ppn lm w;
                     (pt, w) \<leftarrow> sv39_map oom vpn new_ppn (ma_map_perm ma) pt w;
                     let w = set_bytes new_ppn (bytes_array old_ppn w) w;
                     w \<leftarrow> arc_drop (env_debug env) old_ppn w;
                     Some (Inr new_ppn, ma\<lparr>ma_inner := lm\<rparr>, pt, w) } }"

subsection \<open>Growing, shrinking and splitting\<close>

definition expand_to ::
  "'d kenv \<Rightarrow> VirtAddr \<Rightarrow> 'f map_area \<Rightarrow> ('d, 'z) world \<Rightarrow>
   ((unit + unit) \<times> 'f map_area \<times> ('d, 'z) world) option" where
  "expand_to env new_end ma w =
     (let new_end_vpn = va_ceil new_end; old_end_vpn = ma_get_end ma in
      if new_end_vpn < old_end_vpn then Some (Inl (), ma, w)
      else do { (res, lm, w) \<leftarrow> lm_set_end env new_end_vpn (ma_inner ma) w;
                Some (res, ma\<lparr>ma_inner := lm\<rparr>, w) })"

definition shrink_to ::
  "'d kenv \<Rightarrow> VirtAddr \<Rightarrow> 'f map_area \<Rightarrow> sv39 \<Rightarrow> ('d, 'z) world \<Rightarrow>
   ((unit + unit) \<times> 'f map_area \<times> ('d, 'z) world) option" where
  "shrink_to env new_end ma pt w =
     (let new_end_vpn = va_ceil new_end; old_end_vpn = ma_get_end ma in
      if new_end_vpn > old_end_vpn then Some (Inl (), ma, w)
      else do {
        r \<leftarrow> range_new new_end_vpn old_end_vpn;
        (has_unmapped_page, ma, w) \<leftarrow> unmap_loop env (range_list r) False ma pt w;
        (res, lm, w) \<leftarrow> lm_set_end env new_end_vpn (ma_inner ma) w;
        Some (case res of Inl _ \<Rightarrow> Inl () | Inr _ \<Rightarrow> if has_unmapped_page then Inl () else Inr (),
              ma\<lparr>ma_inner := lm\<rparr>, w) })"

definition rshrink_to ::
  "'d kenv \<Rightarrow> VirtAddr \<Rightarrow> 'f map_area \<Rightarrow> sv39 \<Rightarrow> ('d, 'z) world \<Rightarrow>
   ((unit + unit) \<times> 'f map_area \<times> ('d, 'z) world) option" where
  "rshrink_to env new_start ma pt w =
     (let new_start_vpn = va_floor new_start; old_start_vpn = ma_get_start ma in
      if new_start_vpn < old_start_vpn then Some (Inl (), ma, w)
      else do {
        r \<leftarrow> range_new old_start_vpn new_start_vpn;
        (has_unmapped_page, ma, w) \<leftarrow> unmap_loop env (range_list r) False ma pt w;
        (res, lm, w) \<leftarrow> lm_set_start env new_start_vpn (ma_inner ma) w;
        Some (case res of Inl _ \<Rightarrow> Inl () | Inr _ \<Rightarrow> if has_unmapped_page then Inl () else Inr (),
              ma\<lparr>ma_inner := lm\<rparr>, w) })"

definition check_overlapping ::
  "VirtPageNum \<Rightarrow> VirtPageNum \<Rightarrow> 'f map_area \<Rightarrow> (VirtPageNum \<times> VirtPageNum) option" where
  "check_overlapping start_vpn end_vpn ma =
     (let area_start_vpn = ma_get_start ma; area_end_vpn = ma_get_end ma in
      if end_vpn < area_start_vpn \<or> start_vpn \<ge> area_end_vpn then None
      else Some (if start_vpn > area_start_vpn then start_vpn else area_start_vpn,
                 if end_vpn < area_end_vpn then end_vpn else area_end_vpn))"

definition ma_into_two ::
  "('f, ('d, 'z) world) file_ops \<Rightarrow> VirtPageNum \<Rightarrow> 'f map_area \<Rightarrow> ('d, 'z) world \<Rightarrow>
   ((unit + 'f map_area) \<times> 'f map_area \<times> ('d, 'z) world) option" where
  "ma_into_two fops cut_vpn ma w =
     do { (second_file, w) \<leftarrow>
            (case ma_map_file ma of
               None \<Rightarrow> Some (None, w)
             | Some file \<Rightarrow>
                 (let (new_file, w) = fo_deep_clone fops file w;
                      off = fo_get_offset fops file w + va_from_vpn cut_vpn - va_from_vpn (ma_get_start ma);
                      (res, w) = fo_lseek fops new_file off SEEK_SET w
                  in case res of Inr _ \<Rightarrow> Some (Some new_file, w) | Inl _ \<Rightarrow> None));
          (res, lm) \<leftarrow> lm_into_two cut_vpn (ma_inner ma);
          Some (case res of
                  Inl _ \<Rightarrow> Inl ()
                | Inr second \<Rightarrow> Inr (ma\<lparr>ma_inner := second, ma_map_file := second_file\<rparr>),
                ma\<lparr>ma_inner := lm\<rparr>, w) }"

definition ma_into_three ::
  "'d kenv \<Rightarrow> VirtPageNum \<Rightarrow> VirtPageNum \<Rightarrow> 'f map_area \<Rightarrow> ('d, 'z) world \<Rightarrow>
   ((unit + 'f map_area \<times> 'f map_area) \<times> 'f map_area \<times> ('d, 'z) world) option" where
  "ma_into_three env first_cut second_cut ma w =
     (if ma_map_file ma \<noteq> None then Some (Inl (), ma, w)
      else do {
        (res, lm, w) \<leftarrow> lm_into_three env first_cut second_cut (ma_inner ma) w;
        Some (case res of
                Inl _ \<Rightarrow> Inl ()
              | Inr (second, third) \<Rightarrow>
                  Inr (ma\<lparr>ma_inner := second, ma_map_file := None\<rparr>, ma\<lparr>ma_inner := third, ma_map_file := None\<rparr>),
              ma\<lparr>ma_inner := lm\<rparr>, w) })"

subsection \<open>Reclaiming memory\<close>

text \<open>\<open>while let Some(idx) = active.pop_front()\<close> with the turn \<open>one\<close>.\<close>

fun evict_loop ::
  "(u16 \<Rightarrow> 'f map_area \<Rightarrow> sv39 \<Rightarrow> ('d, 'z) world \<Rightarrow> ('f map_area \<times> ('d, 'z) world) option) \<Rightarrow>
   u16 list \<Rightarrow> 'f map_area \<Rightarrow> sv39 \<Rightarrow> ('d, 'z) world \<Rightarrow> ('f map_area \<times> ('d, 'z) world) option" where
  "evict_loop one [] ma pt w = Some (ma, w)"
| "evict_loop one (idx # active) ma pt w =
     do { (ma, w) \<leftarrow> one idx (ma\<lparr>ma_inner := (ma_inner ma)\<lparr>lm_active := active\<rparr>\<rparr>) pt w;
          evict_loop one active ma pt w }"

text \<open>
  One turn of the loop of \<open>do_oom\<close> for the index popped from \<open>active\<close>: compress, or swap out
  when zram is full; either success unmaps the page.
\<close>

definition do_oom_one ::
  "'d kenv \<Rightarrow> u16 \<Rightarrow> 'f map_area \<Rightarrow> sv39 \<Rightarrow> ('d, 'z) world \<Rightarrow> ('f map_area \<times> ('d, 'z) world) option" where
  "do_oom_one env idx ma pt w =
     (let lm = ma_inner ma; i = unat idx; vpn = ma_get_start ma + ucast idx in
      if i \<ge> length (lm_frames lm) then Some (ma, w)
      else do {
        (res, fr, w) \<leftarrow> zip_frame env (lm_frames lm ! i) w;
        let lm = lm\<lparr>lm_frames := (lm_frames lm)[i := fr]\<rparr>;
        case res of
          Inr zram_id \<Rightarrow>
            Some (ma\<lparr>ma_inner := lm\<lparr>lm_compressed := lm_compressed lm + 1\<rparr>\<rparr>, sv39_unmap pt vpn w)
        | Inl ZramIsFull \<Rightarrow>
            do { (res, fr, w) \<leftarrow> swap_out env fr w;
                 let lm = lm\<lparr>lm_frames := (lm_frames lm)[i := fr]\<rparr>;
                 case res of
                   Inr swap_id \<Rightarrow>
                     Some (ma\<lparr>ma_inner := lm\<lparr>lm_swapped := lm_swapped lm + 1\<rparr>\<rparr>, sv39_unmap pt vpn w)
                 | Inl _ \<Rightarrow> Some (ma\<lparr>ma_inner := lm\<rparr>, w) }
        | Inl _ \<Rightarrow> Some (ma\<lparr>ma_inner := lm\<rparr>, w) })"

definition ma_do_oom ::
  "'d kenv \<Rightarrow> 'f map_area \<Rightarrow> sv39 \<Rightarrow> ('d, 'z) world \<Rightarrow> (usize \<times> 'f map_area \<times> ('d, 'z) world) option" where
  "ma_do_oom env ma pt w =
     do { let compressed_before = lm_compressed (ma_inner ma);
          let swapped_before = lm_swapped (ma_inner ma);
          (ma, w) \<leftarrow> evict_loop (do_oom_one env) (lm_active (ma_inner ma)) ma pt w;
          Some (lm_compressed (ma_inner ma) + lm_swapped (ma_inner ma) - compressed_before - swapped_before, ma, w) }"

definition force_swap_one ::
  "'d kenv \<Rightarrow> u16 \<Rightarrow> 'f map_area \<Rightarrow> sv39 \<Rightarrow> ('d, 'z) world \<Rightarrow> ('f map_area \<times> ('d, 'z) world) option" where
  "force_swap_one env idx ma pt w =
     (let lm = ma_inner ma; i = unat idx; vpn = ma_get_start ma + ucast idx in
      if i \<ge> length (lm_frames lm) then Some (ma, w)
      else do {
        (res, fr, w) \<leftarrow> force_swap_out env (lm_frames lm ! i) w;
        let lm = lm\<lparr>lm_frames := (lm_frames lm)[i := fr]\<rparr>;
        case res of
          Inr swap_id \<Rightarrow>
            Some (ma\<lparr>ma_inner := lm\<lparr>lm_swapped := lm_swapped lm + 1\<rparr>\<rparr>, sv39_unmap pt vpn w)
        | Inl _ \<Rightarrow> Some (ma\<lparr>ma_inner := lm\<rparr>, w) })"

definition ma_force_swap ::
  "'d kenv \<Rightarrow> 'f map_area \<Rightarrow> sv39 \<Rightarrow> ('d, 'z) world \<Rightarrow> (usize \<times> 'f map_area \<times> ('d, 'z) world) option" where
  "ma_force_swap env ma pt w =
     do { let swapped_before = lm_swapped (ma_inner ma);
          (ma, w) \<leftarrow> evict_loop (force_swap_one env) (lm_active (ma_inner ma)) ma pt w;
          Some (lm_swapped (ma_inner ma) - swapped_before, ma, w) }"

subsection \<open>The invariant of an area\<close>

definition resident :: "frame \<Rightarrow> PhysPageNum option" where
  "resident fr = (case fr of InMemory p \<Rightarrow> Some p | _ \<Rightarrow> None)"

definition table_frames :: "sv39 \<Rightarrow> frame set" where
  "table_frames pt = InMemory ` set (pt_frames pt)"

text \<open>
  A framed area whose pages the page table translates exactly to their resident frames. \<open>M\<close>
  collects the frames that other structures hold; no frame in use is part of the page table.
  The width bound says that no two pages of the area agree on the 27 bits the table indexes.
\<close>

definition area_inv ::
  "usize \<Rightarrow> frame multiset \<Rightarrow> sv39 \<Rightarrow> ('d, 'z) world \<Rightarrow> 'f map_area \<Rightarrow> bool" where
  "area_inv lo M pt w ma \<longleftrightarrow>
     world_inv lo w \<and> pt_wf lo pt w \<and> ma_map_type ma = Framed \<and> lm_wf (ma_inner ma) \<and>
     length (lm_frames (ma_inner ma)) \<le> 2 ^ 27 \<and>
     frames_ref w (mset (lm_frames (ma_inner ma)) + M) \<and>
     set_mset (mset (lm_frames (ma_inner ma)) + M) \<inter> table_frames pt = {} \<and>
     (\<forall>i < length (lm_frames (ma_inner ma)).
        sv39_translate pt w (lm_vpn (ma_inner ma) i) = resident (lm_frames (ma_inner ma) ! i))"

text \<open>The page-table keys of the pages of an area.\<close>

definition area_keys :: "'f map_area \<Rightarrow> usize set" where
  "area_keys ma = vpn_key ` {v. lm_in_range (ma_inner ma) v}"

section \<open>Page-table updates in the world\<close>

lemma in_table_frames [simp]:
  "InMemory p \<in> table_frames pt \<longleftrightarrow> p \<in> set (pt_frames pt)"
  "Compressed i \<notin> table_frames pt" "SwappedOut i \<notin> table_frames pt" "Unallocated \<notin> table_frames pt"
  by (auto simp: table_frames_def)

lemma entry_update_kept:
  fixes w :: "('d, 'z) world"
  assumes inv: "world_inv lo w" and u: "entry_update lo pt v e w w'"
  shows "world_inv lo w'" "frames_kept env (table_frames pt) w w'"
proof -
  have U: "kfa w' = kfa w" "arcs w' = arcs w" "kmem.more w' = kmem.more w"
    "\<forall>f. f \<notin> set (pt_frames pt) \<longrightarrow> pmem w' f = pmem w f"
    using u by (simp_all add: entry_update_def)
  note M = world_more [OF U(3)]
  show "world_inv lo w'" using inv by (simp add: world_inv_def km_defs U M)
  show "frames_kept env (table_frames pt) w w'"
    by (rule frames_keptI) (auto simp: frame_count_def U M split: frame.splits)
qed

lemma pt_ext_kept:
  fixes w :: "('d, 'z) world"
  assumes inv: "world_inv lo w" and e: "pt_ext lo pt w pt' w'"
  shows "world_inv lo w'" "frames_kept env (table_frames pt') w w'"
proof -
  have U: "pt_wf lo pt' w'" "kmem.more w' = kmem.more w"
    "km_allocated lo w' = km_allocated lo w \<union> set (pt_frames pt')"
    "\<forall>f \<in> km_allocated lo w - set (pt_frames pt). pmem w' f = pmem w f"
    "\<forall>f \<in> km_allocated lo w. arcs w' f = arcs w f"
    "\<forall>f. f \<notin> km_allocated lo w' \<longrightarrow> arcs w' f = arcs w f"
    "set (pt_frames pt) \<subseteq> set (pt_frames pt')"
    using e by (simp_all add: pt_ext_def)
  note M = world_more [OF U(2)]
  have "p \<in> km_allocated lo w'" if "0 < arcs w' p" for p
  proof (rule ccontr)
    assume "p \<notin> km_allocated lo w'"
    then have "0 < arcs w p" "p \<notin> km_allocated lo w" using U(3,6) that by auto
    then show False using world_invD(2) [OF inv] by blast
  qed
  then show "world_inv lo w'" using inv pt_wfD(1) [OF U(1)] by (simp add: world_inv_def M)
  have arcs': "arcs w' p = arcs w p" if "p \<notin> set (pt_frames pt')" for p
    using U(3,5,6) that by (cases "p \<in> km_allocated lo w") auto
  show "frames_kept env (table_frames pt') w w'"
  proof (rule frames_keptI)
    fix p assume "InMemory p \<notin> table_frames pt'" "0 < arcs w p"
    then have "p \<in> km_allocated lo w" "p \<notin> set (pt_frames pt)"
      using world_invD(2) [OF inv] U(7) by auto
    then show "pmem w' p = pmem w p" using U(4) by simp
  qed (auto simp: frame_count_def arcs' M split: frame.splits)
qed

lemma frames_ref_kept:
  assumes ref: "frames_ref w M" and kept: "frames_kept env A w w'" and out: "set_mset M \<inter> A = {}"
  shows "frames_ref w' M" and "\<And>g. g \<in># M \<Longrightarrow> frame_content env w' g = frame_content env w g"
proof -
  show "frames_ref w' M"
    unfolding frames_ref_def
  proof (intro allI impI)
    fix g :: frame assume "g \<noteq> Unallocated"
    then have le: "count M g \<le> frame_count w g" using ref by (simp add: frames_ref_def)
    show "count M g \<le> frame_count w' g"
    proof (cases "g \<in># M")
      case True
      then have "g \<notin> A" using out by blast
      then show ?thesis using le kept by (simp add: frames_kept_def)
    qed (simp add: not_in_iff)
  qed
  fix g assume g: "g \<in># M"
  show "frame_content env w' g = frame_content env w g"
  proof (cases "g = Unallocated")
    case False
    with frames_refD [OF ref g] g out kept show ?thesis by (auto simp: frames_kept_def)
  qed (simp add: frame_content_def)
qed

lemma frames_kept_mono_frame: "frames_kept env A w w' \<Longrightarrow> g \<notin> A \<Longrightarrow> frame_count w' g = frame_count w g"
  by (simp add: frames_kept_def)

lemma pt_node_pmem: "pmem w' = pmem w \<Longrightarrow> pt_node w' p is = pt_node w p is"
  by (induction "is" arbitrary: p) (simp_all add: pte_get_def)

lemma find_pte_pmem:
  assumes "pmem w' = pmem w"
  shows "find_pte pt w' v = find_pte pt w v"
  unfolding find_pte_node pt_node_pmem [OF assms] pte_get_def assms by (rule refl)

lemma drop_effect_table:
  assumes wf: "pt_wf lo pt w" and d: "drop_effect lo env fr w w'" and fr: "fr \<notin> table_frames pt"
  shows "pt_wf lo pt w'" "find_pte pt w' v = find_pte pt w v"
proof -
  have D: "pmem w' = pmem w" "fa_end (kfa w') = fa_end (kfa w)" "world_inv lo w'"
    "\<forall>p. p \<in> km_allocated lo w' \<longleftrightarrow> p \<in> km_allocated lo w \<and> \<not> (fr = InMemory p \<and> arcs w p = 1)"
    "frames_kept env {fr} w w'"
    using d by (simp_all add: drop_effect_def)
  have "0 < arcs w' p" if "p \<in> set (pt_frames pt)" for p
  proof -
    have "InMemory p \<noteq> fr" using that fr by auto
    then show ?thesis using frames_keptD(1) [OF D(5), of "InMemory p"] pt_wfD(6) [OF wf that] by simp
  qed
  moreover have "set (pt_frames pt) \<subseteq> km_allocated lo w'"
    using pt_wfD(3) [OF wf] fr D(4) by auto
  ultimately show "pt_wf lo pt w'"
    using wf D(2,3) by (simp add: pt_wf_def world_inv_def pt_node_pmem [OF D(1)])
  show "find_pte pt w' v = find_pte pt w v" by (rule find_pte_pmem [OF D(1)])
qed

lemma add_mod_inj:
  fixes i j :: nat
  assumes "(a + i) mod n = (a + j) mod n" and "i < n" and "j < n"
  shows "i = j"
  using assms
proof (induction i j rule: linorder_wlog)
  case (le i j)
  then have "n dvd (a + j) - (a + i)" by (intro iffD1 [OF mod_eq_dvd_iff_nat]) auto
  then have "n dvd j - i" by simp
  with le show ?case by (auto dest: dvd_imp_le)
next
  case (sym i j)
  then show ?case by simp
qed

lemma lm_keys:
  assumes "lm_wf lm" and "length (lm_frames lm) \<le> 2 ^ 27"
    and "i < length (lm_frames lm)" "j < length (lm_frames lm)"
    and "vpn_key (lm_vpn lm i) = vpn_key (lm_vpn lm j)"
  shows "i = j"
proof -
  have key: "unat (vpn_key v) = unat v mod 2 ^ 27" for v
    unfolding vpn_key_def unsigned_take_bit_eq by (simp add: take_bit_eq_mod)
  have "unat (vpn_key (lm_vpn lm i)) = unat (vpn_key (lm_vpn lm j))" by (simp only: assms(5))
  then have "(unat (lm_get_start lm) + i) mod 2 ^ 27 = (unat (lm_get_start lm) + j) mod 2 ^ 27"
    unfolding key lm_vpn_in_range(3) [OF assms(1,3)] lm_vpn_in_range(3) [OF assms(1,4)] .
  then show ?thesis by (rule add_mod_inj) (use assms(2-4) in linarith)+
qed

section \<open>Changing one page of an area\<close>

definition other_frames :: "nat \<Rightarrow> frame multiset \<Rightarrow> 'f map_area \<Rightarrow> frame multiset" where
  "other_frames i M ma = mset (lm_frames (ma_inner ma)) - {#lm_frames (ma_inner ma) ! i#} + M"

lemma area_invD:
  assumes "area_inv lo M pt w ma"
  shows "world_inv lo w" "pt_wf lo pt w" "ma_map_type ma = Framed" "lm_wf (ma_inner ma)"
    "length (lm_frames (ma_inner ma)) \<le> 2 ^ 27"
    "frames_ref w (mset (lm_frames (ma_inner ma)) + M)"
    "set_mset (mset (lm_frames (ma_inner ma)) + M) \<inter> table_frames pt = {}"
    "i < length (lm_frames (ma_inner ma)) \<Longrightarrow>
       sv39_translate pt w (lm_vpn (ma_inner ma) i) = resident (lm_frames (ma_inner ma) ! i)"
  using assms by (simp_all add: area_inv_def)

lemma split_frame:
  "i < length (lm_frames (ma_inner ma)) \<Longrightarrow>
     mset (lm_frames (ma_inner ma)) + M = add_mset (lm_frames (ma_inner ma) ! i) (other_frames i M ma)"
  by (simp add: other_frames_def)

lemma update_frame:
  "i < length frs \<Longrightarrow> mset (frs[i := fr]) + M = add_mset fr (mset frs - {#frs ! i#} + M)"
  by (simp add: mset_update)

lemma area_inv_update:
  assumes inv: "area_inv lo M pt w ma" and i: "i < length (lm_frames (ma_inner ma))"
    and lm': "lm_range lm' = lm_range (ma_inner ma)" "lm_frames lm' = (lm_frames (ma_inner ma))[i := fr']"
    and w': "world_inv lo w'" "pt_wf lo pt' w'" "frames_ref w' (add_mset fr' (other_frames i M ma))"
    and out: "set_mset (add_mset fr' (other_frames i M ma)) \<inter> table_frames pt' = {}"
    and trans: "\<And>u. sv39_translate pt' w' u =
      (if vpn_key u = vpn_key (lm_vpn (ma_inner ma) i) then resident fr' else sv39_translate pt w u)"
  shows "area_inv lo M pt' w' (ma\<lparr>ma_inner := lm'\<rparr>)"
proof -
  note I = area_invD [OF inv]
  have start: "lm_get_start lm' = lm_get_start (ma_inner ma)" "lm_get_end lm' = lm_get_end (ma_inner ma)"
    by (simp_all add: lm_get_start_def lm_get_end_def lm')
  then have vpn: "lm_vpn lm' j = lm_vpn (ma_inner ma) j" for j by (simp add: lm_vpn_def)
  have wf: "lm_wf lm'" using I(4) by (simp add: lm_wf_def start lm')
  have M: "mset (lm_frames lm') + M = add_mset fr' (other_frames i M ma)"
    using i by (simp add: lm' other_frames_def update_frame)
  have "sv39_translate pt' w' (lm_vpn lm' j) = resident (lm_frames lm' ! j)"
    if j: "j < length (lm_frames lm')" for j
  proof (cases "j = i")
    case True
    then show ?thesis using i by (simp add: vpn trans lm')
  next
    case False
    have "vpn_key (lm_vpn (ma_inner ma) j) \<noteq> vpn_key (lm_vpn (ma_inner ma) i)"
      using lm_keys [OF I(4,5)] i j False by (auto simp: lm')
    then show ?thesis using False j I(8) by (simp add: vpn trans lm')
  qed
  then show ?thesis using I(3,5) wf w' out M by (simp add: area_inv_def lm')
qed

lemma area_keys_cong: "lm_range (ma_inner ma') = lm_range (ma_inner ma) \<Longrightarrow> area_keys ma' = area_keys ma"
  by (simp add: area_keys_def lm_in_range_def lm_get_start_def lm_get_end_def)

lemma area_keys_vpn:
  "lm_wf (ma_inner ma) \<Longrightarrow> i < length (lm_frames (ma_inner ma)) \<Longrightarrow> vpn_key (lm_vpn (ma_inner ma) i) \<in> area_keys ma"
  unfolding area_keys_def using lm_vpn_in_range(1) by blast

lemma translate_key: "vpn_key u = vpn_key v \<Longrightarrow> sv39_translate pt w u = sv39_translate pt w v"
  unfolding sv39_translate_def by (simp add: find_pte_key [of u v])

lemma entry_update_translate:
  "entry_update lo pt v e w w' \<Longrightarrow>
   sv39_translate pt w' u = (if vpn_key u = vpn_key v then map_option pte_ppn e else sv39_translate pt w u)"
  by (simp add: entry_update_def sv39_translate_def)

subsection \<open>Unmapping\<close>

text \<open>
  What unmapping does to a page: a resident frame loses a reference, the page table forgets the
  page, and all other frames keep their content.
\<close>

definition unmap_effect ::
  "'d kenv \<Rightarrow> VirtPageNum set \<Rightarrow> frame multiset \<Rightarrow> sv39 \<Rightarrow> ('d, 'z) world \<Rightarrow> 'f map_area \<Rightarrow>
   ('d, 'z) world \<Rightarrow> 'f map_area \<Rightarrow> bool" where
  "unmap_effect env V M pt w ma w' ma' \<longleftrightarrow>
     lm_range (ma_inner ma') = lm_range (ma_inner ma) \<and>
     length (lm_frames (ma_inner ma')) = length (lm_frames (ma_inner ma)) \<and>
     ma_map_perm ma' = ma_map_perm ma \<and> ma_map_file ma' = ma_map_file ma \<and>
     ma_writable_stripped ma' = ma_writable_stripped ma \<and>
     (\<forall>i < length (lm_frames (ma_inner ma)).
        lm_frames (ma_inner ma') ! i =
          (if lm_vpn (ma_inner ma) i \<in> V \<and> resident (lm_frames (ma_inner ma) ! i) \<noteq> None then Unallocated
           else lm_frames (ma_inner ma) ! i)) \<and>
     (\<forall>u. find_pte pt w' u = (if vpn_key u \<in> vpn_key ` V then None else find_pte pt w u)) \<and>
     (\<forall>g \<in># mset (lm_frames (ma_inner ma')) + M. frame_content env w' g = frame_content env w g)"

lemma unmap_one_ok:
  fixes w :: "('d, 'z) world"
  assumes inv: "area_inv lo M pt w ma" and v: "lm_in_range (ma_inner ma) v"
  shows "\<exists>w' ma'. unmap_one env v ma pt w =
      Some (if find_pte pt w v = None then Inl NotMapped else Inr (), ma', w') \<and>
    area_inv lo M pt w' ma' \<and> unmap_effect env {v} M pt w ma w' ma'"
proof -
  note I = area_invD [OF inv]
  let ?lm = "ma_inner ma"
  define i where "i = lm_index v ?lm"
  note V = lm_index_in_range [OF I(4) v, folded i_def]
  have tr: "sv39_translate pt w v = resident (lm_frames ?lm ! i)" using I(8) [OF V(1)] V(2) by simp
  have keys: "lm_vpn ?lm j = v \<longleftrightarrow> j = i" if "j < length (lm_frames ?lm)" for j
    using lm_vpn_in_range(2) [OF I(4) that] lm_vpn_in_range(2) [OF I(4) V(1)] V(2) by metis
  show ?thesis
  proof (cases "resident (lm_frames ?lm ! i)")
    case None
    then have un: "find_pte pt w v = None" using tr by (simp add: sv39_translate_def)
    then have key: "find_pte pt w u = None" if "vpn_key u = vpn_key v" for u
      using find_pte_key [OF that, of pt w] by simp
    have "unmap_effect env {v} M pt w ma w ma"
      using None key keys by (auto simp: unmap_effect_def)
    then show ?thesis using un inv by (auto simp: unmap_one_def sv39_is_mapped_iff)
  next
    case (Some p)
    then have fr: "lm_frames ?lm ! i = InMemory p" by (auto simp: resident_def split: frame.splits)
    have mapped: "find_pte pt w v \<noteq> None" using tr Some by (auto simp: sv39_translate_def)
    define lm' where "lm' = ?lm\<lparr>lm_active := filter (\<lambda>elem. unat elem \<noteq> i) (lm_active ?lm),
      lm_frames := (lm_frames ?lm)[i := Unallocated]\<rparr>"
    have rem: "lm_remove_in_memory v ?lm = Some (Some p, lm')"
      using V(1) fr by (simp add: lm_remove_in_memory_def vec_get_def take_in_memory_def lm'_def flip: i_def)
    note sp = split_frame [OF V(1), of M, unfolded fr]
    have ref: "frames_ref w (add_mset (InMemory p) (other_frames i M ma))" using I(6) sp by simp
    have out: "InMemory p \<notin> table_frames pt" "set_mset (other_frames i M ma) \<inter> table_frames pt = {}"
      using I(7) unfolding sp by auto
    have "frame_held w (InMemory p)" by (rule frames_ref_held [OF ref]) simp
    from frame_drop_ok [OF I(1) this, of env] obtain w1 where d: "frame_drop env (InMemory p) w = Some w1"
      "drop_effect lo env (InMemory p) w w1" by blast
    then have drop: "arc_drop (env_debug env) p w = Some w1" by (simp add: frame_drop_def)
    note R = frames_ref_dropped [OF ref d(2)]
    note T = drop_effect_table [OF I(2) d(2) out(1)]
    have inv1: "world_inv lo w1" using d(2) by (simp add: drop_effect_def)
    let ?w = "sv39_unmap pt v w1"
    have u: "entry_update lo pt v None w1 ?w" by (rule sv39_unmap_ok [OF T(1)])
    note K = entry_update_kept [OF inv1 u]
    note R2 = frames_ref_kept [OF R(1) K(2) out(2)]
    have find': "find_pte pt ?w x = (if vpn_key x = vpn_key v then None else find_pte pt w x)" for x
      using u T(2) by (simp add: entry_update_def)
    have eq: "unmap_one env v ma pt w = Some (Inr (), ma\<lparr>ma_inner := lm'\<rparr>, ?w)"
      using mapped I(3) rem drop by (simp add: unmap_one_def sv39_is_mapped_iff arc_drop_opt_def)
    have "area_inv lo M pt ?w (ma\<lparr>ma_inner := lm'\<rparr>)"
    proof (rule area_inv_update [OF inv V(1), where fr' = Unallocated])
      show "frames_ref ?w (add_mset Unallocated (other_frames i M ma))"
        using R2(1) by (auto simp: frames_ref_def)
      show "pt_wf lo pt ?w" using u by (simp add: entry_update_def)
      show "sv39_translate pt ?w x = (if vpn_key x = vpn_key (lm_vpn ?lm i) then resident Unallocated
          else sv39_translate pt w x)" for x
        by (simp add: V(2) sv39_translate_def find' resident_def)
    qed (use K(1) out(2) in \<open>simp_all add: lm'_def\<close>)
    moreover have "unmap_effect env {v} M pt w ma ?w (ma\<lparr>ma_inner := lm'\<rparr>)"
    proof -
      have "mset (lm_frames lm') + M = add_mset Unallocated (other_frames i M ma)"
        using V(1) by (simp add: lm'_def update_frame other_frames_def)
      then have "\<forall>g \<in># mset (lm_frames lm') + M. frame_content env ?w g = frame_content env w g"
        using R(2) R2(2) by (auto simp: frame_content_def)
      then show ?thesis using keys V(1) fr find' by (auto simp: unmap_effect_def lm'_def nth_list_update resident_def)
    qed
    ultimately show ?thesis using eq mapped by auto
  qed
qed

lemma unmap_effect_frames:
  assumes "unmap_effect env V M pt w ma w' ma'"
    and "g \<in># mset (lm_frames (ma_inner ma')) + M" and "g \<noteq> Unallocated"
  shows "g \<in># mset (lm_frames (ma_inner ma)) + M"
proof (cases "g \<in> set (lm_frames (ma_inner ma'))")
  case True
  then obtain i where "i < length (lm_frames (ma_inner ma'))" "g = lm_frames (ma_inner ma') ! i"
    by (metis in_set_conv_nth)
  then have "g = lm_frames (ma_inner ma) ! i" "i < length (lm_frames (ma_inner ma))"
    using assms(1,3) by (auto simp: unmap_effect_def split: if_splits)
  then show ?thesis by (metis nth_mem_mset union_iff)
qed (use assms(2) in simp)

lemma unmap_effect_trans:
  assumes a: "unmap_effect env V M pt w ma w1 ma1" and b: "unmap_effect env U M pt w1 ma1 w2 ma2"
  shows "unmap_effect env (V \<union> U) M pt w ma w2 ma2"
proof -
  have range: "lm_range (ma_inner ma1) = lm_range (ma_inner ma)" using a by (simp add: unmap_effect_def)
  then have vpn: "lm_vpn (ma_inner ma1) = lm_vpn (ma_inner ma)"
    by (simp add: lm_vpn_def lm_get_start_def fun_eq_iff)
  have "lm_frames (ma_inner ma2) ! i =
      (if lm_vpn (ma_inner ma) i \<in> V \<union> U \<and> resident (lm_frames (ma_inner ma) ! i) \<noteq> None then Unallocated
       else lm_frames (ma_inner ma) ! i)" if "i < length (lm_frames (ma_inner ma))" for i
  proof -
    have "lm_frames (ma_inner ma1) ! i =
      (if lm_vpn (ma_inner ma) i \<in> V \<and> resident (lm_frames (ma_inner ma) ! i) \<noteq> None then Unallocated
       else lm_frames (ma_inner ma) ! i)" using a that by (simp add: unmap_effect_def)
    moreover have "lm_frames (ma_inner ma2) ! i =
      (if lm_vpn (ma_inner ma) i \<in> U \<and> resident (lm_frames (ma_inner ma1) ! i) \<noteq> None then Unallocated
       else lm_frames (ma_inner ma1) ! i)" using a b that vpn by (simp add: unmap_effect_def)
    ultimately show ?thesis by (auto simp: resident_def)
  qed
  moreover have "frame_content env w2 g = frame_content env w g"
    if "g \<in># mset (lm_frames (ma_inner ma2)) + M" for g
  proof (cases "g = Unallocated")
    case True
    then show ?thesis by (simp add: frame_content_def)
  next
    case False
    then have "g \<in># mset (lm_frames (ma_inner ma1)) + M" by (rule unmap_effect_frames [OF b that])
    then have "frame_content env w1 g = frame_content env w g" using a by (simp only: unmap_effect_def)
    moreover have "frame_content env w2 g = frame_content env w1 g" using b that by (simp only: unmap_effect_def)
    ultimately show ?thesis by simp
  qed
  moreover have "find_pte pt w2 u = (if vpn_key u \<in> vpn_key ` (V \<union> U) then None else find_pte pt w u)" for u
    using a b by (auto simp: unmap_effect_def)
  ultimately show ?thesis using a b by (simp add: unmap_effect_def)
qed

lemma unmap_effect_refl: "unmap_effect env {} M pt w ma w ma"
  by (simp add: unmap_effect_def)

lemma unmap_loop_ok:
  fixes w :: "('d, 'z) world"
  assumes "area_inv lo M pt w ma" and "distinct vs" and "\<forall>v \<in> set vs. lm_in_range (ma_inner ma) v"
  shows "\<exists>w' ma'. unmap_loop env vs b ma pt w = Some (b \<or> (\<exists>v \<in> set vs. find_pte pt w v = None), ma', w') \<and>
    area_inv lo M pt w' ma' \<and> unmap_effect env (set vs) M pt w ma w' ma'"
  using assms
proof (induction vs arbitrary: b ma w)
  case Nil
  then show ?case by (simp add: unmap_effect_refl)
next
  case (Cons v vs)
  note I = area_invD [OF Cons.prems(1)]
  from unmap_one_ok [OF Cons.prems(1), of v env] Cons.prems(3) obtain w1 ma1 where 1:
    "unmap_one env v ma pt w = Some (if find_pte pt w v = None then Inl NotMapped else Inr (), ma1, w1)"
    "area_inv lo M pt w1 ma1" "unmap_effect env {v} M pt w ma w1 ma1" by auto
  let ?b = "b \<or> find_pte pt w v = None"
  have range: "lm_in_range (ma_inner ma1) = lm_in_range (ma_inner ma)"
    using 1(3) by (simp add: unmap_effect_def lm_in_range_def lm_get_start_def lm_get_end_def fun_eq_iff)
  from Cons.IH [OF 1(2), of ?b] Cons.prems(2,3) obtain w2 ma2 where 2:
    "unmap_loop env vs ?b ma1 pt w1 = Some (?b \<or> (\<exists>u \<in> set vs. find_pte pt w1 u = None), ma2, w2)"
    "area_inv lo M pt w2 ma2" "unmap_effect env (set vs) M pt w1 ma1 w2 ma2" by (auto simp: range)
  have "find_pte pt w1 u = find_pte pt w u" if "u \<in> set vs" for u
  proof -
    have in_r: "lm_in_range (ma_inner ma) u" "lm_in_range (ma_inner ma) v" using that Cons.prems(3) by auto
    have "u \<noteq> v" using that Cons.prems(2) by auto
    then have "vpn_key u \<noteq> vpn_key v"
      using lm_keys [OF I(4,5) lm_index_in_range(1) [OF I(4) in_r(1)] lm_index_in_range(1) [OF I(4) in_r(2)]]
        lm_index_in_range(2) [OF I(4) in_r(1)] lm_index_in_range(2) [OF I(4) in_r(2)] by metis
    then show ?thesis using 1(3) by (simp add: unmap_effect_def)
  qed
  then have "(\<exists>u \<in> set vs. find_pte pt w1 u = None) \<longleftrightarrow> (\<exists>u \<in> set vs. find_pte pt w u = None)" by simp
  moreover have "unmap_effect env (set (v # vs)) M pt w ma w2 ma2"
    using unmap_effect_trans [OF 1(3) 2(3)] by simp
  ultimately show ?case
    using 1(1) 2(1,2) by (cases "find_pte pt w v = None") auto
qed

lemma ma_unmap_ok:
  fixes w :: "('d, 'z) world"
  assumes inv: "area_inv lo M pt w ma"
  shows "\<exists>w' ma'. ma_unmap env ma pt w =
      Some (if \<exists>v. lm_in_range (ma_inner ma) v \<and> find_pte pt w v = None then Inl NotMapped else Inr (), ma', w') \<and>
    area_inv lo M pt w' ma' \<and> unmap_effect env {v. lm_in_range (ma_inner ma) v} M pt w ma w' ma'"
proof -
  note I = area_invD [OF inv]
  have set: "set (range_list (lm_range (ma_inner ma))) = {v. lm_in_range (ma_inner ma) v}"
    by (rule set_lm_range [OF I(4)])
  have "distinct (range_list (lm_range (ma_inner ma)))"
    using I(4) by (intro distinct_range_list) (simp add: lm_wf_def lm_get_start_def lm_get_end_def)
  from unmap_loop_ok [OF inv this, of env False] set show ?thesis
    by (auto simp: ma_unmap_def)
qed

subsection \<open>Mapping\<close>

text \<open>A change of memory outside the frames of the table does not concern it.\<close>

lemma pte_get_bytes:
  assumes "bytes_array q w' = bytes_array q w" and "x < 512"
  shows "pte_get w' (q, x) = pte_get w (q, x)"
proof -
  have "pmem w' q i = pmem w q i" if "i < 4096" for i
    using arg_cong [OF assms(1), of "\<lambda>bs. bs ! i"] that by (simp add: bytes_array_def page_bytes_def)
  then have "pmem w' q (8 * x + k) = pmem w q (8 * x + k)" if "k \<in> set [0..<8]" for k
    using that assms(2) by simp
  then show ?thesis unfolding pte_get_def dword_at_def by (auto intro!: foldr_cong)
qed

lemma pt_same_bytes:
  fixes w w' :: "('d, 'z) world"
  assumes wf: "pt_wf lo pt w" and inv: "km_inv lo w'" and fa: "fa_end (kfa w') \<le> push_bit 44 1"
    and sub: "set (pt_frames pt) \<subseteq> km_allocated lo w'"
    and pos: "\<And>f. f \<in> set (pt_frames pt) \<Longrightarrow> 0 < arcs w' f"
    and same: "\<And>f. f \<in> set (pt_frames pt) \<Longrightarrow> bytes_array f w' = bytes_array f w"
  shows "pt_wf lo pt w'" "find_pte pt w' v = find_pte pt w v"
proof -
  have node: "pt_node w' (root_ppn pt) is = pt_node w (root_ppn pt) is" if path: "table_path is" for "is"
  proof (rule pt_node_unchanged)
    fix pre x rest q assume split: "is = pre @ x # rest" and q: "pt_node w (root_ppn pt) pre = Some q"
    have "table_path pre" using path split table_path_prefix [of pre "x # rest"] by simp
    then have "q \<in> set (pt_frames pt)" using q by (rule pt_wfD(4) [OF wf])
    moreover have "x < 512" using path split by (simp add: table_path_def)
    ultimately show "pte_get w' (q, x) = pte_get w (q, x)" using same by (intro pte_get_bytes) auto
  qed
  show "pt_wf lo pt w'"
    using wf inv fa sub pos unfolding pt_wf_def by (auto simp: node)
  show "find_pte pt w' v = find_pte pt w v"
  proof (cases "pt_node w (root_ppn pt) (vpn_path v)")
    case None
    then show ?thesis by (simp add: find_pte_node node)
  next
    case (Some q)
    then have "q \<in> set (pt_frames pt)" by (rule pt_wfD(4) [OF wf table_path_vpn])
    then have "pte_get w' (q, vpn_last v) = pte_get w (q, vpn_last v)"
      using same by (intro pte_get_bytes) (auto simp: vpn_last_less)
    then show ?thesis by (simp add: find_pte_node node Some)
  qed
qed

lemma pt_same_frames:
  fixes w w' :: "('d, 'z) world"
  assumes wf: "pt_wf lo pt w" and inv: "km_inv lo w'" and fa: "fa_end (kfa w') = fa_end (kfa w)"
    and sub: "set (pt_frames pt) \<subseteq> km_allocated lo w'"
    and pos: "\<And>f. f \<in> set (pt_frames pt) \<Longrightarrow> 0 < arcs w' f"
    and same: "\<And>f. f \<in> set (pt_frames pt) \<Longrightarrow> bytes_array f w' = bytes_array f w"
  shows "pt_wf lo pt w'" "find_pte pt w' v = find_pte pt w v"
  using pt_same_bytes [OF wf inv _ sub pos same] fa pt_wfD(2) [OF wf] by simp_all

lemma alloc_effect_table:
  fixes w w1 :: "('d, 'z) world"
  assumes wf: "pt_wf lo pt w" and a: "alloc_effect lo p w w1"
  shows "pt_wf lo pt w1" "find_pte pt w1 v = find_pte pt w v" "p \<notin> set (pt_frames pt)"
proof -
  have A: "world_inv lo w1" "km_allocated lo w1 = insert p (km_allocated lo w)" "p \<notin> km_allocated lo w"
    "fa_end (kfa w1) = fa_end (kfa w)" "\<forall>q. q \<noteq> p \<longrightarrow> pmem w1 q = pmem w q"
    using a by (simp_all add: alloc_effect_def)
  show out: "p \<notin> set (pt_frames pt)" using pt_wfD(3) [OF wf] A(3) by blast
  have "km_inv lo w1" by (rule world_invD(1) [OF A(1)])
  moreover have "set (pt_frames pt) \<subseteq> km_allocated lo w1" using pt_wfD(3) [OF wf] A(2) by auto
  moreover have "0 < arcs w1 f" if "f \<in> set (pt_frames pt)" for f
    using pt_wfD(6) [OF wf that] a by (simp add: alloc_effect_def)
  moreover have "bytes_array f w1 = bytes_array f w" if "f \<in> set (pt_frames pt)" for f
    using A(5) out that by (auto simp: bytes_array_def)
  ultimately show "pt_wf lo pt w1" "find_pte pt w1 v = find_pte pt w v"
    using pt_same_frames [OF wf _ A(4)] by blast+
qed

lemma allocated_ppn:
  assumes "pt_wf lo pt w" and "p \<in> km_allocated lo w"
  shows "pte_ppn (pte_new p f) = p"
proof -
  have "p < fa_end (kfa w)"
    using assms(2) pt_wfD(1) [OF assms(1)] by (auto simp: km_defs fa_allocated_def fa_inv_def)
  then show ?thesis using frame_below_end [OF _ pt_wfD(2) [OF assms(1)]] by (simp add: pte_ppn_new)
qed

text \<open>Every way to make a page resident ends by mapping its frame.\<close>

lemma install_page:
  fixes w w1 :: "('d, 'z) world"
  assumes inv: "area_inv lo M pt w ma" and i: "i < length (lm_frames (ma_inner ma))"
    and unmapped: "resident (lm_frames (ma_inner ma) ! i) = None"
    and inv1: "world_inv lo w1" "pt_wf lo pt w1" "\<And>v. find_pte pt w1 v = find_pte pt w v"
    and ref: "frames_ref w1 (add_mset (InMemory p) (other_frames i M ma))"
    and out: "p \<notin> set (pt_frames pt)" and free: "2 \<le> km_free w1"
  shows "\<exists>pt' w'. sv39_map oom (lm_vpn (ma_inner ma) i) p perm pt w1 = Some (pt', w') \<and>
    pt_ext lo pt w1 pt' w' \<and> km_free w1 \<le> km_free w' + 2 \<and> frames_kept env (table_frames pt') w1 w' \<and>
    (\<forall>lm'. lm_range lm' = lm_range (ma_inner ma) \<longrightarrow> lm_frames lm' = (lm_frames (ma_inner ma))[i := InMemory p] \<longrightarrow>
       area_inv lo M pt' w' (ma\<lparr>ma_inner := lm'\<rparr>)) \<and>
    (\<forall>u. find_pte pt' w' u = (if vpn_key u = vpn_key (lm_vpn (ma_inner ma) i)
       then Some (pte_new p (perm OR PTE_V OR PTE_A OR PTE_D)) else find_pte pt w u)) \<and>
    (\<forall>g \<in># add_mset (InMemory p) (other_frames i M ma). frame_content env w' g = frame_content env w1 g)"
proof -
  note I = area_invD [OF inv]
  let ?v = "lm_vpn (ma_inner ma) i" and ?e = "pte_new p (perm OR PTE_V OR PTE_A OR PTE_D)"
  have p: "p \<in> km_allocated lo w1"
    using frames_refD [OF ref, of "InMemory p"] world_invD(2) [OF inv1(1)] by simp
  have un: "find_pte pt w1 ?v = None" using I(8) [OF i] unmapped inv1(3) by (simp add: sv39_translate_def)
  from sv39_map_ok [OF inv1(2) free un, of oom p perm] obtain pt' w' where m:
    "sv39_map oom ?v p perm pt w1 = Some (pt', w')" "pt_ext lo pt w1 pt' w'" "km_free w1 \<le> km_free w' + 2"
    "\<forall>u. find_pte pt' w' u = (if vpn_key u = vpn_key ?v then Some ?e else find_pte pt w1 u)" by blast
  note K = pt_ext_kept [OF inv1(1) m(2)]
  have "set_mset (other_frames i M ma) \<inter> table_frames pt = {}"
    using I(7) unfolding split_frame [OF i, of M] by auto
  have out': "set_mset (add_mset (InMemory p) (other_frames i M ma)) \<inter> table_frames pt' = {}"
  proof (rule equals0I)
    fix g assume g: "g \<in> set_mset (add_mset (InMemory p) (other_frames i M ma)) \<inter> table_frames pt'"
    then obtain q where q: "g = InMemory q" "q \<in> set (pt_frames pt')" by (auto simp: table_frames_def)
    have "q \<in> km_allocated lo w1"
      using frames_refD [OF ref, of g] g q(1) world_invD(2) [OF inv1(1)] by auto
    then have "q \<in> set (pt_frames pt)" using q(2) m(2) by (auto simp: pt_ext_def)
    then show False using g q(1) out \<open>set_mset (other_frames i M ma) \<inter> table_frames pt = {}\<close> by auto
  qed
  note R = frames_ref_kept [OF ref K(2) out']
  have "area_inv lo M pt' w' (ma\<lparr>ma_inner := lm'\<rparr>)"
    if "lm_range lm' = lm_range (ma_inner ma)" "lm_frames lm' = (lm_frames (ma_inner ma))[i := InMemory p]" for lm'
  proof (rule area_inv_update [OF inv i that K(1) _ R(1) out'])
    show "pt_wf lo pt' w'" using m(2) by (simp add: pt_ext_def)
    show "sv39_translate pt' w' u = (if vpn_key u = vpn_key ?v then resident (InMemory p)
        else sv39_translate pt w u)" for u
      using m(4) inv1(3) allocated_ppn [OF inv1(2) p] by (simp add: sv39_translate_def resident_def)
  qed
  then show ?thesis using m R(2) inv1(3) K(2) by auto
qed

lemma lm_alloc_in_memory_ok:
  assumes "lm_index v lm < length (lm_frames lm)" and "lm_frames lm ! lm_index v lm = Unallocated"
  shows "lm_alloc_in_memory env v p lm w =
    Some (lm\<lparr>lm_active := lm_active lm @ [ucast (v - lm_get_start lm)],
             lm_frames := (lm_frames lm)[lm_index v lm := InMemory p]\<rparr>, w)"
  using assms by (simp add: lm_alloc_in_memory_def vec_get_def insert_in_memory_def Let_def)

text \<open>
  The result of making page \<open>v\<close> of an area resident in frame \<open>p\<close>, with permissions \<open>perm\<close>.
\<close>

definition page_in ::
  "usize \<Rightarrow> 'd kenv \<Rightarrow> VirtPageNum \<Rightarrow> PhysPageNum \<Rightarrow> frame multiset \<Rightarrow> sv39 \<Rightarrow> ('d, 'z) world \<Rightarrow> 'f map_area \<Rightarrow>
   sv39 \<Rightarrow> ('d, 'z) world \<Rightarrow> 'f map_area \<Rightarrow> bool" where
  "page_in lo env v p M pt w ma pt' w' ma' \<longleftrightarrow>
     area_inv lo M pt' w' ma' \<and> lm_range (ma_inner ma') = lm_range (ma_inner ma) \<and>
     ma_map_perm ma' = ma_map_perm ma \<and> ma_map_file ma' = ma_map_file ma \<and>
     ma_writable_stripped ma' = ma_writable_stripped ma \<and>
     lm_frames (ma_inner ma') = (lm_frames (ma_inner ma))[lm_index v (ma_inner ma) := InMemory p] \<and>
     (\<forall>u. find_pte pt' w' u = (if vpn_key u = vpn_key v
        then Some (pte_new p (ma_map_perm ma OR PTE_V OR PTE_A OR PTE_D)) else find_pte pt w u)) \<and>
     (\<forall>g \<in># other_frames (lm_index v (ma_inner ma)) M ma. frame_content env w' g = frame_content env w g) \<and>
     arcs w p = 0"

lemma map_fresh_ok:
  fixes w w1 :: "('d, 'z) world"
  assumes inv: "area_inv lo M pt w ma" and v: "lm_in_range (ma_inner ma) v"
    and un: "lm_frames (ma_inner ma) ! lm_index v (ma_inner ma) = Unallocated"
    and a: "alloc_effect lo p w w1" and free: "3 \<le> km_free w"
  shows "\<exists>lm pt' w'. lm_alloc_in_memory env v p (ma_inner ma) w1 = Some (lm, w1) \<and>
    sv39_map oom v p (ma_map_perm ma) pt w1 = Some (pt', w') \<and>
    page_in lo env v p M pt w ma pt' w' (ma\<lparr>ma_inner := lm\<rparr>) \<and> bytes_array p w' = bytes_array p w1 \<and>
    frames_kept env (insert (InMemory p) (table_frames pt')) w w' \<and> km_free w \<le> km_free w' + 3 \<and>
    arcs w' p = 1"
proof -
  note I = area_invD [OF inv]
  let ?i = "lm_index v (ma_inner ma)"
  note V = lm_index_in_range [OF I(4) v]
  have A: "world_inv lo w1" "km_free w = Suc (km_free w1)" "arcs w p = 0" "arcs w1 = (arcs w)(p := 1)"
    using a by (simp_all add: alloc_effect_def)
  note T = alloc_effect_table [OF I(2) a]
  note sp = split_frame [OF V(1), of M, unfolded un]
  have ref0: "frames_ref w (other_frames ?i M ma)" using I(6) unfolding sp by (auto simp: frames_ref_def)
  have "set_mset (other_frames ?i M ma) \<inter> {InMemory p} = {}"
    using frames_refD [OF ref0, of "InMemory p"] A(3) by auto
  note R = frames_ref_kept [OF ref0 alloc_effect_kept [OF a] this]
  have np: "InMemory p \<notin># other_frames ?i M ma" using frames_refD [OF ref0, of "InMemory p"] A(3) by auto
  have ref1: "frames_ref w1 (add_mset (InMemory p) (other_frames ?i M ma))"
    using R(1) np A(4) by (auto simp: frames_ref_def not_in_iff)
  have unm: "resident (lm_frames (ma_inner ma) ! ?i) = None" using un by (simp add: resident_def)
  have free1: "2 \<le> km_free w1" using free A(2) by simp
  from install_page [OF inv V(1) unm A(1) T(1,2) ref1 T(3) free1, of oom "ma_map_perm ma" env]
  obtain pt' w' where m: "sv39_map oom v p (ma_map_perm ma) pt w1 = Some (pt', w')"
    "frames_kept env (table_frames pt') w1 w'" "km_free w1 \<le> km_free w' + 2" "pt_ext lo pt w1 pt' w'"
    "\<forall>lm'. lm_range lm' = lm_range (ma_inner ma) \<longrightarrow> lm_frames lm' = (lm_frames (ma_inner ma))[?i := InMemory p] \<longrightarrow>
       area_inv lo M pt' w' (ma\<lparr>ma_inner := lm'\<rparr>)"
    "\<forall>u. find_pte pt' w' u = (if vpn_key u = vpn_key v
       then Some (pte_new p (ma_map_perm ma OR PTE_V OR PTE_A OR PTE_D)) else find_pte pt w u)"
    "\<forall>g \<in># add_mset (InMemory p) (other_frames ?i M ma). frame_content env w' g = frame_content env w1 g"
    unfolding V(2) by blast
  have "bytes_array p w' = bytes_array p w1" using m(7) by (simp add: frame_content_def)
  moreover have "\<forall>g \<in># other_frames ?i M ma. frame_content env w' g = frame_content env w g"
    using m(7) R(2) by simp
  moreover have "arcs w' p = 1"
    using m(4) a A(4) by (simp add: pt_ext_def alloc_effect_def)
  moreover have "frames_kept env (insert (InMemory p) (table_frames pt')) w w'"
    using frames_kept_trans [OF alloc_effect_kept [OF a] m(2)] by simp
  ultimately show ?thesis
    using m(1,3,5,6) A(2,3) lm_alloc_in_memory_ok [OF V(1) un, of env p w1] by (simp add: page_in_def)
qed

lemma map_one_zeroed_ok:
  fixes w :: "('d, 'z) world"
  assumes "area_inv lo M pt w ma" and "lm_in_range (ma_inner ma) v"
    and "lm_frames (ma_inner ma) ! lm_index v (ma_inner ma) = Unallocated" and "3 \<le> km_free w"
  shows "\<exists>p ma' pt' w'. map_one_zeroed_unchecked env oom v ma pt w = Some (Some p, ma', pt', w') \<and>
    page_in lo env v p M pt w ma pt' w' ma' \<and> bytes_array p w' = replicate 4096 0"
proof -
  have "0 < km_free w" using assms(4) by simp
  from frame_alloc_world [OF area_invD(1) [OF assms(1)] this] obtain p w1 where
    a: "frame_alloc oom w = Some (Some p, w1)" "alloc_effect lo p w w1" "pmem w1 p = zero_page" by blast
  have "bytes_array p w1 = replicate 4096 0"
    by (simp add: bytes_array_def page_bytes_def a(3) zero_page_def map_replicate_const)
  with map_fresh_ok [OF assms(1-3) a(2) assms(4), of env oom] a(1) show ?thesis
    by (auto simp: map_one_zeroed_unchecked_def)
qed

lemma map_one_ok:
  fixes w :: "('d, 'z) world"
  assumes "area_inv lo M pt w ma" and "lm_in_range (ma_inner ma) v"
    and "lm_frames (ma_inner ma) ! lm_index v (ma_inner ma) = Unallocated" and "3 \<le> km_free w"
  shows "\<exists>p ma' pt' w'. map_one env oom v ma pt w = Some (Inr p, ma', pt', w') \<and>
    page_in lo env v p M pt w ma pt' w' ma' \<and> km_free w \<le> km_free w' + 3 \<and>
    frames_kept env (insert (InMemory p) (table_frames pt')) w w'"
proof -
  note I = area_invD [OF assms(1)]
  have "0 < km_free w" using assms(4) by simp
  from frame_alloc_uninit_world [OF I(1) this] obtain p w1 where
    a: "frame_alloc_uninit oom w = Some (Some p, w1)" "alloc_effect lo p w w1" by blast
  have "find_pte pt w v = None"
    using I(8) [OF lm_index_in_range(1) [OF I(4) assms(2)]] lm_index_in_range(2) [OF I(4) assms(2)] assms(3)
    by (simp add: sv39_translate_def resident_def)
  with map_fresh_ok [OF assms(1-3) a(2) assms(4), of env oom] a(1) I(3) show ?thesis
    by (auto simp: map_one_def map_one_unchecked_def sv39_is_mapped_iff)
qed

subsection \<open>Copy on write\<close>

lemma area_inv_drop:
  fixes w :: "('d, 'z) world"
  assumes inv: "area_inv lo (add_mset fr M) pt w ma"
  shows "\<exists>w'. frame_drop env fr w = Some w' \<and> drop_effect lo env fr w w' \<and> area_inv lo M pt w' ma \<and>
    (\<forall>g \<in># mset (lm_frames (ma_inner ma)) + M. frame_content env w' g = frame_content env w g) \<and>
    (\<forall>u. find_pte pt w' u = find_pte pt w u)"
proof -
  note I = area_invD [OF inv]
  let ?F = "mset (lm_frames (ma_inner ma))"
  have ref: "frames_ref w (add_mset fr (?F + M))" using I(6) by simp
  have out: "fr \<notin> table_frames pt" using I(7) by auto
  have "frame_held w fr" by (rule frames_ref_held [OF ref]) simp
  from frame_drop_ok [OF I(1) this, of env] obtain w' where d: "frame_drop env fr w = Some w'"
    "drop_effect lo env fr w w'" by blast
  note R = frames_ref_dropped [OF ref d(2)]
  note T = drop_effect_table [OF I(2) d(2) out]
  have "world_inv lo w'" using d(2) by (simp add: drop_effect_def)
  then have "area_inv lo M pt w' ma"
    using I T R(1) by (auto simp: area_inv_def sv39_translate_def)
  then show ?thesis using d R(2) T(2) by auto
qed

lemma set_bytes_table:
  fixes w :: "('d, 'z) world"
  assumes "pt_wf lo pt w" and "q \<notin> set (pt_frames pt)"
  shows "pt_wf lo pt (set_bytes q bs w)" "find_pte pt (set_bytes q bs w) v = find_pte pt w v"
proof -
  have "bytes_array f (set_bytes q bs w) = bytes_array f w" if "f \<in> set (pt_frames pt)" for f
    using that assms(2) by (auto simp: set_bytes_def bytes_array_def)
  with pt_same_frames [OF assms(1), of "set_bytes q bs w"] pt_wfD(1,3,6) [OF assms(1)]
  show "pt_wf lo pt (set_bytes q bs w)" "find_pte pt (set_bytes q bs w) v = find_pte pt w v" by auto
qed

lemma area_inv_set_bytes:
  fixes w :: "('d, 'z) world"
  assumes inv: "area_inv lo M pt w ma" and q: "q \<notin> set (pt_frames pt)"
  shows "area_inv lo M pt (set_bytes q bs w) ma"
proof -
  note I = area_invD [OF inv]
  note T = set_bytes_table [OF I(2) q]
  show ?thesis using I T by (auto simp: area_inv_def sv39_translate_def frames_ref_def)
qed

text \<open>
  Taking the frame out of the area: the reference is now held by the caller.
\<close>

lemma take_page:
  fixes w w1 :: "('d, 'z) world"
  assumes inv: "area_inv lo M pt w ma" and v: "lm_in_range (ma_inner ma) v"
    and fr: "lm_frames (ma_inner ma) ! lm_index v (ma_inner ma) = InMemory p"
    and u: "entry_update lo pt v None w w1"
    and lm': "lm_range lm' = lm_range (ma_inner ma)"
      "lm_frames lm' = (lm_frames (ma_inner ma))[lm_index v (ma_inner ma) := Unallocated]"
  shows "area_inv lo (add_mset (InMemory p) M) pt w1 (ma\<lparr>ma_inner := lm'\<rparr>)"
    "\<And>g. g \<in># mset (lm_frames (ma_inner ma)) + M \<Longrightarrow> frame_content env w1 g = frame_content env w g"
proof -
  note I = area_invD [OF inv]
  let ?i = "lm_index v (ma_inner ma)" and ?F = "mset (lm_frames (ma_inner ma))"
  note V = lm_index_in_range [OF I(4) v]
  note K = entry_update_kept [OF I(1) u]
  note R = frames_ref_kept [OF I(6) K(2) I(7)]
  have "?F = add_mset (InMemory p) (?F - {#InMemory p#})" using V(1) fr by (metis insert_DiffM nth_mem_mset)
  then have M: "mset (lm_frames lm') + add_mset (InMemory p) M = add_mset Unallocated (?F + M)"
    using V(1) fr by (simp add: lm' mset_update)
  have start: "lm_get_start lm' = lm_get_start (ma_inner ma)" "lm_get_end lm' = lm_get_end (ma_inner ma)"
    by (simp_all add: lm_get_start_def lm_get_end_def lm')
  have trans: "sv39_translate pt w1 (lm_vpn lm' j) = resident (lm_frames lm' ! j)"
    if j: "j < length (lm_frames lm')" for j
  proof (cases "j = ?i")
    case True
    then show ?thesis using V entry_update_translate [OF u]
      by (simp add: lm_vpn_def start lm' resident_def)
  next
    case False
    have "vpn_key (lm_vpn (ma_inner ma) j) \<noteq> vpn_key (lm_vpn (ma_inner ma) ?i)"
      using lm_keys [OF I(4,5)] V(1) j False by (auto simp: lm')
    then show ?thesis using False j I(8) [of j] V(2) entry_update_translate [OF u, of "lm_vpn (ma_inner ma) j"]
      by (simp add: lm_vpn_def start lm')
  qed
  have "frames_ref w1 (mset (lm_frames lm') + add_mset (InMemory p) M)"
    unfolding M using R(1) by (auto simp: frames_ref_def)
  moreover have "set_mset (mset (lm_frames lm') + add_mset (InMemory p) M) \<inter> table_frames pt = {}"
    unfolding M using I(7) by auto
  moreover have "pt_wf lo pt w1" using u by (simp add: entry_update_def)
  moreover have "lm_wf lm'" using I(4) by (simp add: lm_wf_def start lm')
  ultimately show "area_inv lo (add_mset (InMemory p) M) pt w1 (ma\<lparr>ma_inner := lm'\<rparr>)"
    using K(1) I(3,5) trans by (simp add: area_inv_def lm')
  show "\<And>g. g \<in># ?F + M \<Longrightarrow> frame_content env w1 g = frame_content env w g" by (rule R(2))
qed

lemma lm_remove_in_memory_ok:
  assumes "lm_index v lm < length (lm_frames lm)" and "lm_frames lm ! lm_index v lm = InMemory p"
  shows "lm_remove_in_memory v lm = Some (Some p,
    lm\<lparr>lm_active := filter (\<lambda>elem. unat elem \<noteq> lm_index v lm) (lm_active lm),
       lm_frames := (lm_frames lm)[lm_index v lm := Unallocated]\<rparr>)"
  using assms by (simp add: lm_remove_in_memory_def vec_get_def take_in_memory_def Let_def)

lemma cow_sole:
  fixes w :: "('d, 'z) world"
  assumes inv: "area_inv lo M pt w ma" and v: "lm_in_range (ma_inner ma) v"
    and fr: "lm_frames (ma_inner ma) ! lm_index v (ma_inner ma) = InMemory p" and sole: "arcs w p = 1"
  shows "\<exists>ma' w' e. copy_on_write env oom v ma pt w = Some (Inr p, ma', pt, w') \<and> area_inv lo M pt w' ma' \<and>
    lm_range (ma_inner ma') = lm_range (ma_inner ma) \<and> lm_frames (ma_inner ma') = lm_frames (ma_inner ma) \<and>
    ma_map_file ma' = ma_map_file ma \<and> arcs w' = arcs w \<and>
    find_pte pt w v = Some e \<and>
    (\<forall>u. find_pte pt w' u = (if vpn_key u = vpn_key v then Some (pte_set_permission (ma_map_perm ma) e)
                              else find_pte pt w u)) \<and>
    (\<forall>g \<in># mset (lm_frames (ma_inner ma)) + M. frame_content env w' g = frame_content env w g)"
proof -
  note I = area_invD [OF inv]
  let ?lm = "ma_inner ma" and ?i = "lm_index v (ma_inner ma)"
  note V = lm_index_in_range [OF I(4) v]
  obtain e where e: "find_pte pt w v = Some e" "pte_ppn e = p"
    using I(8) [OF V(1)] V(2) fr by (auto simp: sv39_translate_def resident_def)
  from sv39_set_pte_flags_ok [OF I(2) e(1), of "ma_map_perm ma"] obtain w' where
    w': "sv39_set_pte_flags (ma_map_perm ma) pt v w = Some w'"
    and u: "entry_update lo pt v (Some (pte_set_permission (ma_map_perm ma) e)) w w'" by blast
  note K = entry_update_kept [OF I(1) u]
  note R = frames_ref_kept [OF I(6) K(2) I(7)]
  let ?lm1 = "?lm\<lparr>lm_active := filter (\<lambda>elem. unat elem \<noteq> ?i) (lm_active ?lm), lm_frames := (lm_frames ?lm)[?i := Unallocated]\<rparr>"
  have idx: "lm_index v ?lm1 = ?i" by (rule lm_range_cong) simp
  have same: "(lm_frames ?lm)[?i := InMemory p] = lm_frames ?lm" by (metis fr list_update_id)
  obtain lm2 where lm2: "lm_alloc_in_memory env v p ?lm1 w = Some (lm2, w)" "lm_frames lm2 = lm_frames ?lm"
    "lm_range lm2 = lm_range ?lm"
    using lm_alloc_in_memory_ok [of v ?lm1 env p w] V(1) idx same by simp
  have "copy_on_write env oom v ma pt w = Some (Inr p, ma\<lparr>ma_inner := lm2\<rparr>, pt, w')"
    using lm_remove_in_memory_ok [OF V(1) fr] sole lm2(1) w' by (simp add: copy_on_write_def)
  moreover have "area_inv lo M pt w' (ma\<lparr>ma_inner := lm2\<rparr>)"
  proof (rule area_inv_update [OF inv V(1), where fr' = "InMemory p"])
    show "lm_frames lm2 = (lm_frames ?lm)[?i := InMemory p]" by (simp add: lm2(2) same)
    show "frames_ref w' (add_mset (InMemory p) (other_frames ?i M ma))"
      using R(1) unfolding split_frame [OF V(1), of M, unfolded fr] .
    show "set_mset (add_mset (InMemory p) (other_frames ?i M ma)) \<inter> table_frames pt = {}"
      using I(7) unfolding split_frame [OF V(1), of M, unfolded fr] .
    show "sv39_translate pt w' x = (if vpn_key x = vpn_key (lm_vpn ?lm ?i) then resident (InMemory p)
        else sv39_translate pt w x)" for x
      using entry_update_translate [OF u, of x] e(2) by (simp add: V(2) resident_def)
    show "pt_wf lo pt w'" using u by (simp add: entry_update_def)
  qed (use lm2(3) K(1) in simp_all)
  moreover have "\<forall>x. find_pte pt w' x = (if vpn_key x = vpn_key v
      then Some (pte_set_permission (ma_map_perm ma) e) else find_pte pt w x)"
    using u by (simp add: entry_update_def)
  moreover have "arcs w' = arcs w" using u by (simp add: entry_update_def)
  ultimately show ?thesis using lm2(2,3) e(1) R(2) by auto
qed

lemma cow_shared:
  fixes w :: "('d, 'z) world"
  assumes inv: "area_inv lo M pt w ma" and v: "lm_in_range (ma_inner ma) v"
    and fr: "lm_frames (ma_inner ma) ! lm_index v (ma_inner ma) = InMemory p" and shared: "arcs w p \<noteq> 1"
    and free: "3 \<le> km_free w"
  shows "\<exists>q ma' pt' w'. copy_on_write env oom v ma pt w = Some (Inr q, ma', pt', w') \<and> q \<noteq> p \<and>
    page_in lo env v q M pt w ma pt' w' ma' \<and> bytes_array q w' = bytes_array p w \<and>
    arcs w' p = arcs w p - 1 \<and> arcs w' q = 1"
proof -
  note I = area_invD [OF inv]
  let ?lm = "ma_inner ma" and ?i = "lm_index v (ma_inner ma)"
  note V = lm_index_in_range [OF I(4) v]
  define lm1 where "lm1 = ?lm\<lparr>lm_active := filter (\<lambda>elem. unat elem \<noteq> ?i) (lm_active ?lm),
    lm_frames := (lm_frames ?lm)[?i := Unallocated]\<rparr>"
  define ma1 where "ma1 = ma\<lparr>ma_inner := lm1\<rparr>"
  have lm1: "lm_range lm1 = lm_range ?lm" "lm_frames lm1 = (lm_frames ?lm)[?i := Unallocated]"
    by (simp_all add: lm1_def)
  note L1 = lm_range_cong [OF lm1(1)]
  define w1 where "w1 = sv39_unmap pt v w"
  have u: "entry_update lo pt v None w w1" unfolding w1_def by (rule sv39_unmap_ok [OF I(2)])
  have U: "kfa w1 = kfa w" "arcs w1 = arcs w" using u by (simp_all add: entry_update_def)
  note T = take_page [OF inv v fr u lm1, folded ma1_def]
  note I1 = area_invD [OF T(1)]
  have free1: "3 \<le> km_free w1" using free U(1) by (simp add: km_defs)
  then have "0 < km_free w1" by simp
  from frame_alloc_uninit_world [OF I1(1) this] obtain q w2 where
    a: "frame_alloc_uninit oom w1 = Some (Some q, w2)" "alloc_effect lo q w1 w2" by blast
  have p1: "0 < arcs w p" "0 < arcs w1 p"
    using frames_refD [OF I(6), of "InMemory p"] V(1) fr U(2) by (metis frame.distinct(5) frame_count_simps(1) nth_mem_mset union_iff)+
  have q: "q \<noteq> p" using a(2) p1(2) by (auto simp: alloc_effect_def)
  have v1: "lm_in_range (ma_inner ma1) v" using v L1 by (simp add: ma1_def)
  have un: "lm_frames (ma_inner ma1) ! lm_index v (ma_inner ma1) = Unallocated"
    using V(1) L1 lm1(2) by (simp add: ma1_def)
  from map_fresh_ok [OF T(1) v1 un a(2) free1, of env oom] obtain lm2 pt' w3 where m:
    "lm_alloc_in_memory env v q (ma_inner ma1) w2 = Some (lm2, w2)"
    "sv39_map oom v q (ma_map_perm ma1) pt w2 = Some (pt', w3)"
    "page_in lo env v q (add_mset (InMemory p) M) pt w1 ma1 pt' w3 (ma1\<lparr>ma_inner := lm2\<rparr>)"
    "frames_kept env (insert (InMemory q) (table_frames pt')) w1 w3" "arcs w3 q = 1" by blast
  define ma2 where "ma2 = ma1\<lparr>ma_inner := lm2\<rparr>"
  have P: "area_inv lo (add_mset (InMemory p) M) pt' w3 ma2" "lm_range lm2 = lm_range ?lm"
    "lm_frames lm2 = (lm_frames ?lm)[?i := InMemory q]"
    "\<forall>x. find_pte pt' w3 x = (if vpn_key x = vpn_key v
        then Some (pte_new q (ma_map_perm ma OR PTE_V OR PTE_A OR PTE_D)) else find_pte pt w1 x)"
    "\<forall>g \<in># other_frames ?i (add_mset (InMemory p) M) ma1. frame_content env w3 g = frame_content env w1 g"
    using m(3) L1 lm1 by (simp_all add: page_in_def ma1_def ma2_def)
  have oth: "other_frames ?i (add_mset (InMemory p) M) ma1 = add_mset (InMemory p) (other_frames ?i M ma)"
    using V(1) by (simp add: other_frames_def ma1_def lm1(2) mset_update fr)
  define w4 where "w4 = set_bytes q (bytes_array p w3) w3"
  have F2: "mset (lm_frames (ma_inner ma2)) + M = add_mset (InMemory q) (other_frames ?i M ma)"
    using V(1) by (simp add: ma2_def P(3) update_frame other_frames_def)
  have qt: "q \<notin> set (pt_frames pt')" "p \<notin> set (pt_frames pt')"
    using area_invD(7) [OF P(1)] F2 by auto
  have inv4: "area_inv lo (add_mset (InMemory p) M) pt' w4 ma2"
    unfolding w4_def by (rule area_inv_set_bytes [OF P(1) qt(1)])
  from area_inv_drop [OF inv4, of env] obtain w5 where w5: "arc_drop (env_debug env) p w4 = Some w5"
    "drop_effect lo env (InMemory p) w4 w5" "area_inv lo M pt' w5 ma2"
    "\<forall>g \<in># mset (lm_frames (ma_inner ma2)) + M. frame_content env w5 g = frame_content env w4 g"
    "\<forall>x. find_pte pt' w5 x = find_pte pt' w4 x" by (auto simp: frame_drop_def)
  have eq: "copy_on_write env oom v ma pt w = Some (Inr q, ma2, pt', w5)"
    using lm_remove_in_memory_ok [OF V(1) fr] shared a(1) m(1,2) w5(1)
    by (simp add: copy_on_write_def ma1_def ma2_def Let_def flip: lm1_def w1_def w4_def)
  have bytes: "bytes_array p w3 = bytes_array p w"
  proof -
    have "frame_content env w3 (InMemory p) = frame_content env w1 (InMemory p)" using P(5) oth by simp
    also have "\<dots> = frame_content env w (InMemory p)" using T(2) V(1) fr by (metis nth_mem_mset union_iff)
    finally show ?thesis by (simp add: frame_content_def)
  qed
  have "bytes_array q w5 = bytes_array p w"
  proof -
    have "frame_content env w5 (InMemory q) = frame_content env w4 (InMemory q)" using w5(4) F2 by simp
    then show ?thesis by (simp add: frame_content_def w4_def bytes bytes_array_set_bytes)
  qed
  moreover have "frame_content env w5 g = frame_content env w g" if g: "g \<in># other_frames ?i M ma" for g
  proof -
    have gF: "g \<in># mset (lm_frames ?lm) + M" using g split_frame [OF V(1), of M] by simp
    have ne: "g \<noteq> InMemory q"
      using frames_refD [OF I(6) gF] a(2) U(2) by (auto simp: alloc_effect_def)
    have "frame_content env w5 g = frame_content env w4 g" using w5(4) F2 g by simp
    also have "\<dots> = frame_content env w3 g"
      using ne by (intro frame_content_cong) (auto simp: w4_def set_bytes_def split: frame.splits)
    also have "\<dots> = frame_content env w1 g" using P(5) oth g by simp
    also have "\<dots> = frame_content env w g" by (rule T(2) [OF gF])
    finally show ?thesis .
  qed
  moreover have "find_pte pt' w5 x = (if vpn_key x = vpn_key v
        then Some (pte_new q (ma_map_perm ma OR PTE_V OR PTE_A OR PTE_D)) else find_pte pt w x)" for x
    using w5(5) P(4) u set_bytes_table(2) [OF area_invD(2) [OF P(1)] qt(1)]
    by (simp add: w4_def entry_update_def)
  moreover have "arcs w5 p = arcs w p - 1"
    using w5(2) m(4) q qt(2) U(2) by (simp add: drop_effect_def frames_kept_def w4_def)
      (metis frame.inject(1) frame_count_simps(1) in_table_frames(1) insertE)
  moreover have "arcs w5 q = 1"
    using w5(2) m(5) q by (simp add: drop_effect_def frames_kept_def w4_def)
      (metis frame.inject(1) frame_count_simps(1))
  moreover have "arcs w q = 0" using a(2) U(2) by (simp add: alloc_effect_def)
  ultimately show ?thesis using eq q w5(3) P(2,3)
    by (auto simp: page_in_def ma2_def ma1_def)
qed

subsection \<open>Reclaiming\<close>

text \<open>Every way to evict a page ends by unmapping it.\<close>

lemma page_out:
  fixes w w1 :: "('d, 'z) world"
  assumes inv: "area_inv lo M pt w ma" and i: "i < length (lm_frames (ma_inner ma))"
    and fr: "lm_frames (ma_inner ma) ! i = InMemory p"
    and mv: "frame_moved lo env (InMemory p) w fr' w1" and fr': "resident fr' = None"
    and w1: "pmem w1 = pmem w" "fa_end (kfa w1) = fa_end (kfa w)"
      "km_allocated lo w1 = km_allocated lo w - (if arcs w p = 1 then {p} else {})"
    and w2: "w2 = sv39_unmap pt (lm_vpn (ma_inner ma) i) w1"
  shows "\<lbrakk>lm_range lm' = lm_range (ma_inner ma); lm_frames lm' = (lm_frames (ma_inner ma))[i := fr']\<rbrakk> \<Longrightarrow>
      area_inv lo M pt w2 (ma\<lparr>ma_inner := lm'\<rparr>)"
    and "frame_content env w2 fr' = frame_content env w (InMemory p)"
    and "\<And>g. g \<in># other_frames i M ma \<Longrightarrow> frame_content env w2 g = frame_content env w g"
    and "arcs w p = 1 \<Longrightarrow> km_free w2 = Suc (km_free w)"
    and "arcs w p \<noteq> 1 \<Longrightarrow> km_free w2 = km_free w"
    and "\<And>u. vpn_key u \<noteq> vpn_key (lm_vpn (ma_inner ma) i) \<Longrightarrow> find_pte pt w2 u = find_pte pt w u"
    and "\<And>u. vpn_key u = vpn_key (lm_vpn (ma_inner ma) i) \<Longrightarrow> find_pte pt w2 u = None"
proof -
  note I = area_invD [OF inv]
  let ?v = "lm_vpn (ma_inner ma) i"
  note sp = split_frame [OF i, of M, unfolded fr]
  have ref: "frames_ref w (add_mset (InMemory p) (other_frames i M ma))" using I(6) unfolding sp .
  have out: "p \<notin> set (pt_frames pt)" "set_mset (other_frames i M ma) \<inter> table_frames pt = {}"
    using I(7) unfolding sp by auto
  note R = frames_ref_moved [OF ref mv, simplified]
  have inv1: "world_inv lo w1" and c1: "frame_content env w1 fr' = frame_content env w (InMemory p)"
    using mv by (simp_all add: frame_moved_def)
  have sub: "set (pt_frames pt) \<subseteq> km_allocated lo w1" using pt_wfD(3) [OF I(2)] out(1) w1(3) by auto
  have pos: "0 < arcs w1 f" if "f \<in> set (pt_frames pt)" for f
    by (rule frame_moved_pos [OF mv]) (use that out(1) pt_wfD(6) [OF I(2) that] in auto)
  have same: "bytes_array f w1 = bytes_array f w" for f by (simp only: w1(1) bytes_array_def)
  note T = pt_same_frames [OF I(2) world_invD(1) [OF inv1] w1(2) sub pos same]
  have u: "entry_update lo pt ?v None w1 w2" unfolding w2 by (rule sv39_unmap_ok [OF T(1)])
  note K = entry_update_kept [OF inv1 u]
  have fr't: "fr' \<notin> table_frames pt" using fr' by (auto simp: resident_def table_frames_def)
  then have out': "set_mset (add_mset fr' (other_frames i M ma)) \<inter> table_frames pt = {}" using out(2) by auto
  note R2 = frames_ref_kept [OF R(1) K(2) out']
  show "frame_content env w2 fr' = frame_content env w (InMemory p)" using R2(2) c1 by simp
  show "\<And>g. g \<in># other_frames i M ma \<Longrightarrow> frame_content env w2 g = frame_content env w g" using R2(2) R(2) by simp
  have fin: "find_pte pt w1 x = find_pte pt w x" for x by (rule T(2))
  show "area_inv lo M pt w2 (ma\<lparr>ma_inner := lm'\<rparr>)"
    if "lm_range lm' = lm_range (ma_inner ma)" "lm_frames lm' = (lm_frames (ma_inner ma))[i := fr']"
  proof (rule area_inv_update [OF inv i that K(1) _ R2(1) out'])
    show "pt_wf lo pt w2" using u by (simp add: entry_update_def)
    show "sv39_translate pt w2 x = (if vpn_key x = vpn_key ?v then resident fr' else sv39_translate pt w x)" for x
      using entry_update_translate [OF u, of x] fin by (simp add: fr' sv39_translate_def)
  qed
  show "find_pte pt w2 x = find_pte pt w x" if "vpn_key x \<noteq> vpn_key ?v" for x
    using u fin that by (simp add: entry_update_def)
  show "find_pte pt w2 x = None" if "vpn_key x = vpn_key ?v" for x
    using u that by (simp add: entry_update_def)
  have same: "km_free w2 = km_free w1" using u by (simp add: entry_update_def km_defs)
  note count = km_count [OF world_invD(1) [OF I(1)]] km_count [OF world_invD(1) [OF inv1]]
  show "km_free w2 = km_free w" if "arcs w p \<noteq> 1"
    using count that by (simp add: same w1(2,3))
  assume sole: "arcs w p = 1"
  have "p \<in> km_allocated lo w" using sole world_invD(2) [OF I(1), of p] by simp
  then have "km_free w1 = Suc (km_free w)"
    using km_free_released [OF world_invD(1) [OF I(1)] world_invD(1) [OF inv1] w1(2)] w1(3) sole by simp
  then show "km_free w2 = Suc (km_free w)" by (simp add: same)
qed

text \<open>
  The content of every page of the area, and of every other frame in use, is what it was.
\<close>

definition reclaim_effect ::
  "usize \<Rightarrow> 'd kenv \<Rightarrow> frame multiset \<Rightarrow> sv39 \<Rightarrow> ('d, 'z) world \<Rightarrow> 'f map_area \<Rightarrow> ('d, 'z) world \<Rightarrow> 'f map_area \<Rightarrow> bool" where
  "reclaim_effect lo env M pt w ma w' ma' \<longleftrightarrow>
     area_inv lo M pt w' ma' \<and> lm_range (ma_inner ma') = lm_range (ma_inner ma) \<and>
     ma_map_perm ma' = ma_map_perm ma \<and> ma_map_file ma' = ma_map_file ma \<and>
     ma_writable_stripped ma' = ma_writable_stripped ma \<and>
     length (lm_frames (ma_inner ma')) = length (lm_frames (ma_inner ma)) \<and>
     (\<forall>j < length (lm_frames (ma_inner ma)).
        frame_content env w' (lm_frames (ma_inner ma') ! j) = frame_content env w (lm_frames (ma_inner ma) ! j) \<and>
        (lm_frames (ma_inner ma') ! j = lm_frames (ma_inner ma) ! j \<or>
         resident (lm_frames (ma_inner ma) ! j) \<noteq> None \<and> resident (lm_frames (ma_inner ma') ! j) = None)) \<and>
     (\<forall>g \<in># M. frame_content env w' g = frame_content env w g) \<and>
     (\<forall>u. vpn_key u \<notin> area_keys ma \<longrightarrow> find_pte pt w' u = find_pte pt w u) \<and>
     (\<forall>u. find_pte pt w' u = find_pte pt w u \<or> find_pte pt w' u = None) \<and>
     (lm_counts (ma_inner ma) \<longrightarrow> lm_counts (ma_inner ma'))"

text \<open>The pages of an area that are in memory.\<close>

definition residents :: "frame list \<Rightarrow> nat" where
  "residents fs = length (filter (\<lambda>fr. resident fr \<noteq> None) fs)"

lemma residents_simps [simp]:
  "residents [] = 0" "residents (fr # fs) = (if resident fr = None then 0 else 1) + residents fs"
  "residents (fs @ gs) = residents fs + residents gs"
  by (simp_all add: residents_def)

lemma residents_le: "residents fs \<le> length fs"
  by (simp add: residents_def)

lemma residents_out:
  assumes "i < length fs" "fs ! i = InMemory p" "resident fr = None"
  shows "Suc (residents (fs[i := fr])) = residents fs"
proof -
  have "residents (fs[i := fr]) = residents (take i fs) + residents (drop (Suc i) fs)"
    using assms by (simp add: upd_conv_take_nth_drop)
  moreover have "residents fs = Suc (residents (take i fs) + residents (drop (Suc i) fs))"
    by (subst id_take_nth_drop [OF assms(1)]) (simp add: assms(2) resident_def)
  ultimately show ?thesis by simp
qed

lemma reclaim_refl: "area_inv lo M pt w ma \<Longrightarrow> reclaim_effect lo env M pt w ma w ma"
  by (simp add: reclaim_effect_def)

lemma reclaim_trans:
  assumes 1: "reclaim_effect lo env M pt w ma w1 ma1" and 2: "reclaim_effect lo env M pt w1 ma1 w2 ma2"
  shows "reclaim_effect lo env M pt w ma w2 ma2"
proof -
  have k: "area_keys ma1 = area_keys ma" by (rule area_keys_cong) (use 1 in \<open>simp add: reclaim_effect_def\<close>)
  have "find_pte pt w2 u = find_pte pt w u \<or> find_pte pt w2 u = None" for u
    using 1 2 unfolding reclaim_effect_def by metis
  moreover have "lm_frames (ma_inner ma2) ! j = lm_frames (ma_inner ma) ! j \<or>
      resident (lm_frames (ma_inner ma) ! j) \<noteq> None \<and> resident (lm_frames (ma_inner ma2) ! j) = None"
    if "j < length (lm_frames (ma_inner ma))" for j
    using 1 2 that unfolding reclaim_effect_def by metis
  ultimately show ?thesis using 1 2 k by (simp add: reclaim_effect_def)
qed

lemma reclaim_cong:
  assumes "ma_inner ma2 = (ma_inner ma1)\<lparr>lm_active := a\<rparr>" "ma_map_type ma2 = ma_map_type ma1"
    "ma_map_perm ma2 = ma_map_perm ma1" "ma_map_file ma2 = ma_map_file ma1"
    "ma_writable_stripped ma2 = ma_writable_stripped ma1"
  shows "reclaim_effect lo env M pt w ma1 w' ma' = reclaim_effect lo env M pt w ma2 w' ma'"
  using assms area_keys_cong [of ma2 ma1] by (simp add: reclaim_effect_def lm_counts_def)

lemma area_inv_active:
  "area_inv lo M pt w (ma\<lparr>ma_inner := (ma_inner ma)\<lparr>lm_active := a\<rparr>\<rparr>) = area_inv lo M pt w ma"
  by (simp add: area_inv_def lm_wf_def lm_vpn_def)

lemma page_out_reclaim:
  fixes w w1 :: "('d, 'z) world"
  assumes inv: "area_inv lo M pt w ma" and i: "i < length (lm_frames (ma_inner ma))"
    and fr: "lm_frames (ma_inner ma) ! i = InMemory p"
    and mv: "frame_moved lo env (InMemory p) w fr' w1" and fr': "resident fr' = None"
    and w1: "pmem w1 = pmem w" "fa_end (kfa w1) = fa_end (kfa w)"
      "km_allocated lo w1 = km_allocated lo w - (if arcs w p = 1 then {p} else {})"
    and lm': "lm_range lm' = lm_range (ma_inner ma)" "lm_frames lm' = (lm_frames (ma_inner ma))[i := fr']"
      "lm_compressed lm' = lm_compressed (ma_inner ma) + (if frame_is_compressed fr' then 1 else 0)"
      "lm_swapped lm' = lm_swapped (ma_inner ma) + (if frame_is_swapped fr' then 1 else 0)"
  shows "reclaim_effect lo env M pt w ma (sv39_unmap pt (lm_vpn (ma_inner ma) i) w1) (ma\<lparr>ma_inner := lm'\<rparr>)"
proof -
  note P = page_out [OF inv i fr mv fr' w1 refl]
  let ?w = "sv39_unmap pt (lm_vpn (ma_inner ma) i) w1" and ?F = "lm_frames (ma_inner ma)"
  have "frame_content env ?w (lm_frames lm' ! j) = frame_content env w (?F ! j) \<and>
      (lm_frames lm' ! j = ?F ! j \<or> resident (?F ! j) \<noteq> None \<and> resident (lm_frames lm' ! j) = None)"
    if j: "j < length ?F" for j
  proof (cases "j = i")
    case True
    then show ?thesis using i fr P(2) fr' by (simp add: lm' resident_def)
  next
    case False
    then have "?F ! j \<in># other_frames i M ma"
      unfolding other_frames_def using nth_other_mset [OF i j] by simp
    then show ?thesis using False P(3) by (simp add: lm')
  qed
  moreover have "frame_content env ?w g = frame_content env w g" if "g \<in># M" for g
    using P(3) [of g] that by (simp add: other_frames_def)
  moreover have "find_pte pt ?w u = find_pte pt w u" if "vpn_key u \<notin> area_keys ma" for u
    by (rule P(6)) (use area_keys_vpn [OF area_invD(4) [OF inv] i] that in auto)
  moreover have "find_pte pt ?w u = find_pte pt w u \<or> find_pte pt ?w u = None" for u
    using P(6) [of u] P(7) [of u] by (cases "vpn_key u = vpn_key (lm_vpn (ma_inner ma) i)") simp_all
  moreover have "lm_counts (ma_inner ma) \<longrightarrow> lm_counts lm'"
    using lm_counts_update [OF _ i fr lm'(2-4)] by blast
  ultimately show ?thesis using P(1) [OF lm'(1,2)] lm'(1,2) by (simp add: reclaim_effect_def)
qed

lemma resident_Some: "resident fr = Some p \<longleftrightarrow> fr = InMemory p"
  by (auto simp: resident_def split: frame.splits)

lemma evict_vpn: "ma_get_start ma + ucast idx = lm_vpn (ma_inner ma) (unat idx)" for idx :: u16
  by (simp add: lm_vpn_def ma_get_start_def)

text \<open>The turn of \<open>do_oom\<close> for a page with one reference.\<close>

lemma do_oom_sole:
  fixes w :: "('d, 'z) world"
  assumes env: "env_ok env" and inv: "area_inv lo M pt w ma"
    and i: "unat idx < length (lm_frames (ma_inner ma))"
    and fr: "lm_frames (ma_inner ma) ! unat idx = InMemory p" and sole: "arcs w p = 1"
  obtains (stay) "do_oom_one env idx ma pt w = Some (ma, w)"
  | (out) ma' w' where "do_oom_one env idx ma pt w = Some (ma', w')" "reclaim_effect lo env M pt w ma w' ma'"
      "km_free w' = Suc (km_free w)"
      "lm_compressed (ma_inner ma') + lm_swapped (ma_inner ma') =
         lm_compressed (ma_inner ma) + lm_swapped (ma_inner ma) + 1"
      "Suc (residents (lm_frames (ma_inner ma'))) = residents (lm_frames (ma_inner ma))"
proof -
  note I = area_invD [OF inv]
  let ?lm = "ma_inner ma" and ?i = "unat idx"
  have same: "(lm_frames ?lm)[?i := InMemory p] = lm_frames ?lm" by (metis fr list_update_id)
  from env I(1) sole show ?thesis
  proof (cases rule: zip_frame_cases)
    case (ok k w1)
    let ?lm' = "?lm\<lparr>lm_frames := (lm_frames ?lm)[?i := Compressed k], lm_compressed := lm_compressed ?lm + 1\<rparr>"
    have r: "resident (Compressed k) = None" by (simp add: resident_def)
    show ?thesis
    proof (rule out)
      show "do_oom_one env idx ma pt w = Some (ma\<lparr>ma_inner := ?lm'\<rparr>, sv39_unmap pt (lm_vpn ?lm ?i) w1)"
        using i by (simp add: do_oom_one_def Let_def fr ok(1) evict_vpn)
      show "reclaim_effect lo env M pt w ma (sv39_unmap pt (lm_vpn ?lm ?i) w1) (ma\<lparr>ma_inner := ?lm'\<rparr>)"
        by (rule page_out_reclaim [OF inv i fr ok(2) r ok(3-5)])
          (simp_all add: frame_is_compressed_def frame_is_swapped_def)
      show "km_free (sv39_unmap pt (lm_vpn ?lm ?i) w1) = Suc (km_free w)"
        by (rule page_out(4) [OF inv i fr ok(2) r ok(3-5) refl sole])
    qed (simp_all add: algebra_simps residents_out [OF i fr r])
  next
    case zfull: full
    have pos: "0 < arcs w p" using sole by simp
    from env I(1) pos show ?thesis
    proof (cases rule: force_swap_cases)
      case full
      then show ?thesis using i fr zfull same sole
        by (intro stay) (simp add: do_oom_one_def Let_def swap_out_sole)
    next
      case (ok k w1)
      let ?lm' = "?lm\<lparr>lm_frames := (lm_frames ?lm)[?i := SwappedOut k], lm_swapped := lm_swapped ?lm + 1\<rparr>"
      have r: "resident (SwappedOut k) = None" by (simp add: resident_def)
      show ?thesis
      proof (rule out)
        show "do_oom_one env idx ma pt w = Some (ma\<lparr>ma_inner := ?lm'\<rparr>, sv39_unmap pt (lm_vpn ?lm ?i) w1)"
          using i sole by (simp add: do_oom_one_def Let_def fr zfull ok(1) evict_vpn swap_out_sole)
        show "reclaim_effect lo env M pt w ma (sv39_unmap pt (lm_vpn ?lm ?i) w1) (ma\<lparr>ma_inner := ?lm'\<rparr>)"
          by (rule page_out_reclaim [OF inv i fr ok(2) r ok(3-5)])
            (simp_all add: frame_is_compressed_def frame_is_swapped_def)
        show "km_free (sv39_unmap pt (lm_vpn ?lm ?i) w1) = Suc (km_free w)"
          by (rule page_out(4) [OF inv i fr ok(2) r ok(3-5) refl sole])
      qed (simp_all add: algebra_simps residents_out [OF i fr r])
    qed
  qed
qed

lemma do_oom_one_ok:
  fixes w :: "('d, 'z) world"
  assumes env: "env_ok env" and inv: "area_inv lo M pt w ma"
  shows "\<exists>ma' w' n. do_oom_one env idx ma pt w = Some (ma', w') \<and> reclaim_effect lo env M pt w ma w' ma' \<and>
    km_free w' = km_free w + n \<and>
    lm_compressed (ma_inner ma') + lm_swapped (ma_inner ma') =
      lm_compressed (ma_inner ma) + lm_swapped (ma_inner ma) + of_nat n \<and>
    residents (lm_frames (ma_inner ma')) + n = residents (lm_frames (ma_inner ma))"
proof -
  let ?lm = "ma_inner ma" and ?i = "unat idx"
  have stay: ?thesis if "do_oom_one env idx ma pt w = Some (ma, w)"
    using that reclaim_refl [OF inv] by (intro exI [of _ ma] exI [of _ w] exI [of _ 0]) simp
  consider (range) "length (lm_frames ?lm) \<le> ?i" | (none) "?i < length (lm_frames ?lm)" "resident (lm_frames ?lm ! ?i) = None"
    | (shared) p where "?i < length (lm_frames ?lm)" "lm_frames ?lm ! ?i = InMemory p" "arcs w p \<noteq> 1"
    | (sole) p where "?i < length (lm_frames ?lm)" "lm_frames ?lm ! ?i = InMemory p" "arcs w p = 1"
    by (metis not_le option.exhaust resident_Some)
  then show ?thesis
  proof cases
    case range
    then show ?thesis by (intro stay) (simp add: do_oom_one_def Let_def)
  next
    case none
    then have "zip_frame env (lm_frames ?lm ! ?i) w = Some (Inl NotInMemory, lm_frames ?lm ! ?i, w)"
      by (auto simp: zip_frame_def resident_def split: frame.splits)
    then show ?thesis using none(1) by (intro stay) (simp add: do_oom_one_def Let_def)
  next
    case shared
    then have "(lm_frames ?lm)[?i := InMemory p] = lm_frames ?lm" by (metis list_update_id)
    then show ?thesis using shared by (intro stay) (simp add: do_oom_one_def Let_def zip_frame_shared)
  next
    case sole
    from env inv sole show ?thesis
    proof (cases rule: do_oom_sole)
      case (out ma' w')
      then show ?thesis by (intro exI [of _ ma'] exI [of _ w'] exI [of _ 1]) simp
    qed (rule stay)
  qed
qed

text \<open>
  What a turn of an eviction loop promises: the area keeps its contents, \<open>n\<close> frames come
  free, \<open>m\<close> pages leave the memory and the counter grows by as many, and \<open>rel\<close> relates the
  two numbers.
\<close>

locale evictor =
  fixes env :: "'d kenv"
    and one :: "u16 \<Rightarrow> 'f map_area \<Rightarrow> sv39 \<Rightarrow> ('d, 'z) world \<Rightarrow> ('f map_area \<times> ('d, 'z) world) option"
    and counter :: "linear_map \<Rightarrow> usize"
    and rel :: "nat \<Rightarrow> nat \<Rightarrow> bool"
  assumes one_ok: "env_ok env \<Longrightarrow> area_inv lo M pt w ma \<Longrightarrow>
      \<exists>ma' w' n m. one idx ma pt w = Some (ma', w') \<and> reclaim_effect lo env M pt w ma w' ma' \<and>
        km_free w' = km_free w + n \<and> counter (ma_inner ma') = counter (ma_inner ma) + of_nat m \<and> rel n m \<and>
        residents (lm_frames (ma_inner ma')) + m = residents (lm_frames (ma_inner ma))"
    and counter_active: "counter (lm\<lparr>lm_active := a\<rparr>) = counter lm"
    and rel_zero: "rel 0 0"
    and rel_add: "rel n m \<Longrightarrow> rel n' m' \<Longrightarrow> rel (n + n') (m + m')"
begin

lemma loop_ok:
  assumes env: "env_ok env"
  shows "area_inv lo M pt w ma \<Longrightarrow>
    \<exists>ma' w' n m. evict_loop one active ma pt w = Some (ma', w') \<and> reclaim_effect lo env M pt w ma w' ma' \<and>
      km_free w' = km_free w + n \<and> counter (ma_inner ma') = counter (ma_inner ma) + of_nat m \<and> rel n m \<and>
        residents (lm_frames (ma_inner ma')) + m = residents (lm_frames (ma_inner ma))"
proof (induction active arbitrary: ma w)
  case Nil
  then show ?case using reclaim_refl rel_zero
    by (intro exI [of _ ma] exI [of _ w] exI [of _ 0]) simp
next
  case (Cons idx active)
  let ?ma = "ma\<lparr>ma_inner := (ma_inner ma)\<lparr>lm_active := active\<rparr>\<rparr>"
  have "area_inv lo M pt w ?ma" using Cons.prems by (simp add: area_inv_active)
  from one_ok [OF env this, of idx] obtain ma1 w1 n1 m1 where 1:
    "one idx ?ma pt w = Some (ma1, w1)" "reclaim_effect lo env M pt w ?ma w1 ma1"
    "km_free w1 = km_free w + n1" "counter (ma_inner ma1) = counter (ma_inner ma) + of_nat m1" "rel n1 m1"
    "residents (lm_frames (ma_inner ma1)) + m1 = residents (lm_frames (ma_inner ma))"
    by (auto simp: counter_active)
  have eff: "reclaim_effect lo env M pt w ma w1 ma1"
    using 1(2) by (subst reclaim_cong [where ?ma1.0 = ma and ?ma2.0 = ?ma and a = active]) simp_all
  have "area_inv lo M pt w1 ma1" using eff by (simp add: reclaim_effect_def)
  from Cons.IH [OF this] obtain ma2 w2 n2 m2 where 2:
    "evict_loop one active ma1 pt w1 = Some (ma2, w2)" "reclaim_effect lo env M pt w1 ma1 w2 ma2"
    "km_free w2 = km_free w1 + n2" "counter (ma_inner ma2) = counter (ma_inner ma1) + of_nat m2" "rel n2 m2"
    "residents (lm_frames (ma_inner ma2)) + m2 = residents (lm_frames (ma_inner ma1))" by blast
  show ?case
    using 1(1,3,4,6) 2(1,3,4,6) reclaim_trans [OF eff 2(2)] rel_add [OF 1(5) 2(5)]
    by (intro exI [of _ ma2] exI [of _ w2] exI [of _ "n1 + n2"] exI [of _ "m1 + m2"]) simp
qed

end

interpretation oom_evictor: evictor env "do_oom_one env" "\<lambda>lm. lm_compressed lm + lm_swapped lm" "(=)"
  for env :: "'d kenv"
proof unfold_locales
  fix lo M pt and w :: "('d, 'z) world" and ma :: "'f map_area" and idx
  assume "env_ok env" "area_inv lo M pt w ma"
  from do_oom_one_ok [OF this, of idx]
  show "\<exists>ma' w' n m. do_oom_one env idx ma pt w = Some (ma', w') \<and> reclaim_effect lo env M pt w ma w' ma' \<and>
      km_free w' = km_free w + n \<and>
      lm_compressed (ma_inner ma') + lm_swapped (ma_inner ma') =
        lm_compressed (ma_inner ma) + lm_swapped (ma_inner ma) + of_nat m \<and> n = m \<and>
      residents (lm_frames (ma_inner ma')) + m = residents (lm_frames (ma_inner ma))" by blast
qed simp_all

lemma ma_do_oom_ok:
  fixes w :: "('d, 'z) world"
  assumes env: "env_ok env" and inv: "area_inv lo M pt w ma"
  shows "\<exists>ma' w' n. ma_do_oom env ma pt w = Some (of_nat n, ma', w') \<and>
    reclaim_effect lo env M pt w ma w' ma' \<and> km_free w' = km_free w + n \<and>
    residents (lm_frames (ma_inner ma')) + n = residents (lm_frames (ma_inner ma))"
proof -
  from oom_evictor.loop_ok [OF env inv, of "lm_active (ma_inner ma)"] obtain ma' w' n where
    "evict_loop (do_oom_one env) (lm_active (ma_inner ma)) ma pt w = Some (ma', w')"
    "reclaim_effect lo env M pt w ma w' ma'" "km_free w' = km_free w + n"
    "lm_compressed (ma_inner ma') + lm_swapped (ma_inner ma') =
      lm_compressed (ma_inner ma) + lm_swapped (ma_inner ma) + of_nat n"
    "residents (lm_frames (ma_inner ma')) + n = residents (lm_frames (ma_inner ma))" by blast
  then show ?thesis by (intro exI [of _ ma'] exI [of _ w'] exI [of _ n]) (simp add: ma_do_oom_def)
qed

text \<open>A turn of \<open>force_swap\<close>: a shared page is swapped out as well, and its frame stays in use.\<close>

lemma force_swap_one_ok:
  fixes w :: "('d, 'z) world"
  assumes env: "env_ok env" and inv: "area_inv lo M pt w ma"
  shows "\<exists>ma' w' n m. force_swap_one env idx ma pt w = Some (ma', w') \<and> reclaim_effect lo env M pt w ma w' ma' \<and>
    km_free w' = km_free w + n \<and>
    lm_swapped (ma_inner ma') = lm_swapped (ma_inner ma) + of_nat m \<and> n \<le> m \<and>
    residents (lm_frames (ma_inner ma')) + m = residents (lm_frames (ma_inner ma))"
proof -
  note I = area_invD [OF inv]
  let ?lm = "ma_inner ma" and ?i = "unat idx"
  have stay: ?thesis if "force_swap_one env idx ma pt w = Some (ma, w)"
    using that reclaim_refl [OF inv] by (intro exI [of _ ma] exI [of _ w] exI [of _ 0]) simp
  consider (range) "length (lm_frames ?lm) \<le> ?i" | (none) "?i < length (lm_frames ?lm)" "resident (lm_frames ?lm ! ?i) = None"
    | (page) p where "?i < length (lm_frames ?lm)" "lm_frames ?lm ! ?i = InMemory p"
    by (metis not_le option.exhaust resident_Some)
  then show ?thesis
  proof cases
    case range
    then show ?thesis by (intro stay) (simp add: force_swap_one_def Let_def)
  next
    case none
    then have "force_swap_out env (lm_frames ?lm ! ?i) w = Some (Inl NotInMemory, lm_frames ?lm ! ?i, w)"
      by (auto simp: force_swap_out_def resident_def split: frame.splits)
    then show ?thesis using none(1) by (intro stay) (simp add: force_swap_one_def Let_def)
  next
    case page
    have "frame_held w (InMemory p)"
      by (rule frames_ref_held [OF I(6)]) (metis page nth_mem_mset union_iff)
    then have pos: "0 < arcs w p" by (simp add: frame_held_def frame_count_def)
    from env I(1) pos show ?thesis
    proof (cases rule: force_swap_cases)
      case full
      have "(lm_frames ?lm)[?i := InMemory p] = lm_frames ?lm" by (metis page(2) list_update_id)
      then show ?thesis using full page by (intro stay) (simp add: force_swap_one_def Let_def)
    next
      case (ok k w1)
      let ?lm' = "?lm\<lparr>lm_frames := (lm_frames ?lm)[?i := SwappedOut k], lm_swapped := lm_swapped ?lm + 1\<rparr>"
      let ?w' = "sv39_unmap pt (lm_vpn ?lm ?i) w1"
      have r: "resident (SwappedOut k) = None" by (simp add: resident_def)
      have "force_swap_one env idx ma pt w = Some (ma\<lparr>ma_inner := ?lm'\<rparr>, ?w')"
        using page by (simp add: force_swap_one_def Let_def ok(1) evict_vpn)
      moreover have "reclaim_effect lo env M pt w ma ?w' (ma\<lparr>ma_inner := ?lm'\<rparr>)"
        by (rule page_out_reclaim [OF inv page ok(2) r ok(3-5)])
          (simp_all add: frame_is_compressed_def frame_is_swapped_def)
      moreover have "km_free ?w' = km_free w + (if arcs w p = 1 then 1 else 0)"
        using page_out(4,5) [OF inv page ok(2) r ok(3-5) refl] by simp
      moreover have "Suc (residents (lm_frames ?lm')) = residents (lm_frames ?lm)"
        using residents_out [OF page r] by simp
      ultimately show ?thesis
        by (intro exI [of _ "ma\<lparr>ma_inner := ?lm'\<rparr>"] exI [of _ ?w']
            exI [of _ "if arcs w p = 1 then 1 else 0"] exI [of _ 1]) simp
    qed
  qed
qed

interpretation swap_evictor: evictor env "force_swap_one env" lm_swapped "(\<le>)"
  for env :: "'d kenv"
  by unfold_locales (erule (1) force_swap_one_ok, simp_all)

lemma ma_force_swap_ok:
  fixes w :: "('d, 'z) world"
  assumes env: "env_ok env" and inv: "area_inv lo M pt w ma"
  shows "\<exists>ma' w' n m. ma_force_swap env ma pt w = Some (of_nat m, ma', w') \<and>
    reclaim_effect lo env M pt w ma w' ma' \<and> km_free w' = km_free w + n \<and> n \<le> m \<and>
    residents (lm_frames (ma_inner ma')) + m = residents (lm_frames (ma_inner ma))"
proof -
  from swap_evictor.loop_ok [OF env inv, of "lm_active (ma_inner ma)"] obtain ma' w' n m where
    "evict_loop (force_swap_one env) (lm_active (ma_inner ma)) ma pt w = Some (ma', w')"
    "reclaim_effect lo env M pt w ma w' ma'" "km_free w' = km_free w + n"
    "lm_swapped (ma_inner ma') = lm_swapped (ma_inner ma) + of_nat m" "n \<le> m"
    "residents (lm_frames (ma_inner ma')) + m = residents (lm_frames (ma_inner ma))" by blast
  then show ?thesis
    by (intro exI [of _ ma'] exI [of _ w'] exI [of _ n] exI [of _ m]) (simp add: ma_force_swap_def)
qed

end
