(* ===== verification/Mm_Memory_Set.thy ===== *)
theory Mm_Memory_Set
  imports Mm_Map_Area
begin

text \<open>
  An address space, \<open>struct MemorySet\<close> of \<open>mm/memory_set.rs\<close>: a page table and the vector of
  its areas. The operations are those of the file, in its order: inserting and removing areas,
  the page-fault handler, reclaiming under memory pressure, fork, \<open>sbrk\<close>, \<open>mmap\<close>,
  \<open>munmap\<close>, \<open>mprotect\<close> and the resources of a thread.

  \<open>Err\<close> is \<open>Inl\<close>; a panic (a failed \<open>unwrap\<close>, \<open>assert\<close> or \<open>unreachable!\<close>) is \<open>None\<close>.
  Addresses the linker fixes are the argument \<open>ly\<close>. What the program does after
  \<open>unwrap_unchecked\<close> on an \<open>Err\<close> is undefined; the argument \<open>ub\<close> says whether it goes on
  (\<open>Some ()\<close>, what code that drops the check does) or not.
\<close>

section \<open>Definitions\<close>

type_synonym isize = "64 word"

subsection \<open>Constants\<close>

definition ENOMEM :: isize where "ENOMEM = - 12"
definition EACCES :: isize where "EACCES = - 13"
definition EFAULT :: isize where "EFAULT = - 14"
definition EINVAL :: isize where "EINVAL = - 22"

definition TASK_SIZE :: usize where "TASK_SIZE = 0xc0000000"
definition USER_STACK_BASE :: usize where "USER_STACK_BASE = TASK_SIZE - PAGE_SIZE"
definition USER_STACK_SIZE :: usize where "USER_STACK_SIZE = PAGE_SIZE * 0x40"
definition USER_HEAP_SIZE :: usize where "USER_HEAP_SIZE = PAGE_SIZE * 0x20"
definition MMAP_BASE :: usize where "MMAP_BASE = 0x60000000"
definition MMAP_END :: usize where "MMAP_END = 0x80000000"
definition SKIP_NUM :: nat where "SKIP_NUM = 2"
definition MEMORY_START :: usize where "MEMORY_START = 0x80000000"
definition MEMORY_SIZE :: usize where "MEMORY_SIZE = 0x30000000"
definition MEMORY_END :: usize where "MEMORY_END = MEMORY_START + MEMORY_SIZE"
definition TRAMPOLINE :: usize where "TRAMPOLINE = - 1 - PAGE_SIZE + 1"
definition SIGNAL_TRAMPOLINE :: usize where "SIGNAL_TRAMPOLINE = TRAMPOLINE - PAGE_SIZE"
definition TRAP_CONTEXT_BASE :: usize where "TRAP_CONTEXT_BASE = SIGNAL_TRAMPOLINE - PAGE_SIZE"

definition MMIO :: "(usize \<times> usize) list" where
  "MMIO = [(0x10000000, 0x1000), (0x10001000, 0x1000), (0x00101000, 0x1000), (0xC000000, 0x400000)]"

type_synonym MapFlags = usize

definition MAP_PRIVATE :: MapFlags where "MAP_PRIVATE = 0x02"
definition MAP_FIXED :: MapFlags where "MAP_FIXED = 0x10"
definition MAP_ANONYMOUS :: MapFlags where "MAP_ANONYMOUS = 0x20"

definition mflags_contains :: "MapFlags \<Rightarrow> MapFlags \<Rightarrow> bool" where
  "mflags_contains a b \<longleftrightarrow> a AND b = b"

text \<open>
  The size of \<open>struct TrapContext\<close> (\<open>repr(C)\<close>): 32 general registers, 32 floating-point
  registers with \<open>fcsr\<close> padded to a word, and five more words.
\<close>

definition TRAP_CONTEXT_SIZE :: nat where
  "TRAP_CONTEXT_SIZE = 32 * 8 + (32 * 8 + 8) + 5 * 8"

record kernel_layout =
  ly_stext :: usize
  ly_etext :: usize
  ly_srodata :: usize
  ly_erodata :: usize
  ly_sdata :: usize
  ly_edata :: usize
  ly_sbss_with_stack :: usize
  ly_ebss :: usize
  ly_ekernel :: usize
  ly_strampoline :: usize
  ly_ssignaltrampoline :: usize

record 'f memory_set =
  ms_page_table :: sv39
  ms_areas :: "'f map_area list"

subsection \<open>Creating a set and inserting areas\<close>

definition ms_new_bare :: "('d, 'z) woom \<Rightarrow> ('d, 'z) world \<Rightarrow> ('f memory_set \<times> ('d, 'z) world) option" where
  "ms_new_bare oom w =
     do { (pt, w) \<leftarrow> sv39_new oom w;
          Some (\<lparr>ms_page_table = pt, ms_areas = []\<rparr>, w) }"

definition ms_token :: "'f memory_set \<Rightarrow> usize" where
  "ms_token ms = sv39_token (ms_page_table ms)"

text \<open>
  The loops of \<open>push\<close>. \<open>data[start..len.min(end)]\<close> panics when the data ended on an earlier
  page; the source slice goes to the front of the new page.
\<close>

fun push_data_loop ::
  "'d kenv \<Rightarrow> ('d, 'z) woom \<Rightarrow> u8 list \<Rightarrow> nat \<Rightarrow> VirtPageNum list \<Rightarrow> 'f map_area \<Rightarrow> sv39 \<Rightarrow> ('d, 'z) world \<Rightarrow>
   ((memory_error \<times> VirtPageNum + unit) \<times> 'f map_area \<times> sv39 \<times> ('d, 'z) world) option" where
  "push_data_loop env oom data start [] ma pt w = Some (Inr (), ma, pt, w)"
| "push_data_loop env oom data start (vpn # vpns) ma pt w =
     do { (res, ma, pt, w) \<leftarrow> map_one env oom vpn ma pt w;
          case res of
            Inl e \<Rightarrow> Some (Inl e, ma, pt, w)
          | Inr ppn \<Rightarrow>
              (let end = start + 4096; upto = min (length data) end in
               if start \<le> upto then
                 push_data_loop env oom data end vpns ma pt (set_bytes ppn (take (upto - start) (drop start data)) w)
               else None) }"

fun push_loop ::
  "'d kenv \<Rightarrow> ('d, 'z) woom \<Rightarrow> VirtPageNum list \<Rightarrow> 'f map_area \<Rightarrow> sv39 \<Rightarrow> ('d, 'z) world \<Rightarrow>
   ((memory_error \<times> VirtPageNum + unit) \<times> 'f map_area \<times> sv39 \<times> ('d, 'z) world) option" where
  "push_loop env oom [] ma pt w = Some (Inr (), ma, pt, w)"
| "push_loop env oom (vpn # vpns) ma pt w =
     do { (res, ma, pt, w) \<leftarrow> map_one env oom vpn ma pt w;
          case res of
            Inl e \<Rightarrow> Some (Inl e, ma, pt, w)
          | Inr ppn \<Rightarrow> push_loop env oom vpns ma pt w }"

text \<open>On an error the area that was passed in is dropped with the frames it got.\<close>

definition push_finish ::
  "'d kenv \<Rightarrow> (memory_error \<times> VirtPageNum + unit) \<times> 'f map_area \<times> sv39 \<times> ('d, 'z) world \<Rightarrow> 'f memory_set \<Rightarrow>
   ((memory_error \<times> VirtPageNum + unit) \<times> 'f memory_set \<times> ('d, 'z) world) option" where
  "push_finish env r ms =
     (case r of (res, ma, pt, w) \<Rightarrow>
        (case res of
           Inl e \<Rightarrow> do { w \<leftarrow> frames_drop env (lm_frames (ma_inner ma)) w;
                        Some (Inl e, ms\<lparr>ms_page_table := pt\<rparr>, w) }
         | Inr _ \<Rightarrow> Some (Inr (), ms\<lparr>ms_page_table := pt, ms_areas := ms_areas ms @ [ma]\<rparr>, w)))"

definition ms_push ::
  "'d kenv \<Rightarrow> ('d, 'z) woom \<Rightarrow> 'f map_area \<Rightarrow> u8 list option \<Rightarrow> 'f memory_set \<Rightarrow> ('d, 'z) world \<Rightarrow>
   ((memory_error \<times> VirtPageNum + unit) \<times> 'f memory_set \<times> ('d, 'z) world) option" where
  "ms_push env oom ma data ms w =
     do { r \<leftarrow> (case data of
              Some data \<Rightarrow> push_data_loop env oom data 0 (range_list (lm_range (ma_inner ma))) ma (ms_page_table ms) w
            | None \<Rightarrow> push_loop env oom (range_list (lm_range (ma_inner ma))) ma (ms_page_table ms) w);
          push_finish env r ms }"

definition insert_framed_area ::
  "'d kenv \<Rightarrow> ('d, 'z) woom \<Rightarrow> VirtAddr \<Rightarrow> VirtAddr \<Rightarrow> MapPermission \<Rightarrow> 'f memory_set \<Rightarrow> ('d, 'z) world \<Rightarrow>
   ('f memory_set \<times> ('d, 'z) world) option" where
  "insert_framed_area env oom start_va end_va permission ms w =
     do { ma \<leftarrow> ma_new start_va end_va Framed permission None;
          (res, ms, w) \<leftarrow> ms_push env oom ma None ms w;
          case res of Inl _ \<Rightarrow> None | Inr _ \<Rightarrow> Some (ms, w) }"

fun push_no_alloc_loop ::
  "('d, 'z) woom \<Rightarrow> VirtPageNum list \<Rightarrow> 'f map_area \<Rightarrow> sv39 \<Rightarrow> ('d, 'z) world \<Rightarrow>
   (bool \<times> sv39 \<times> ('d, 'z) world) option" where
  "push_no_alloc_loop oom [] ma pt w = Some (True, pt, w)"
| "push_no_alloc_loop oom (vpn # vpns) ma pt w =
     do { frame \<leftarrow> lm_get_in_memory vpn (ma_inner ma);
          ppn \<leftarrow> frame;
          if \<not> sv39_is_mapped pt w vpn then
            do { (pt, w) \<leftarrow> sv39_map oom vpn ppn (ma_map_perm ma) pt w;
                 push_no_alloc_loop oom vpns ma pt w }
          else Some (False, pt, w) }"

definition push_no_alloc ::
  "'d kenv \<Rightarrow> ('d, 'z) woom \<Rightarrow> 'f map_area \<Rightarrow> 'f memory_set \<Rightarrow> ('d, 'z) world \<Rightarrow>
   ((unit + unit) \<times> 'f memory_set \<times> ('d, 'z) world) option" where
  "push_no_alloc env oom ma ms w =
     do { (ok, pt, w) \<leftarrow> push_no_alloc_loop oom (range_list (lm_range (ma_inner ma))) ma (ms_page_table ms) w;
          if ok then Some (Inr (), ms\<lparr>ms_page_table := pt, ms_areas := ms_areas ms @ [ma]\<rparr>, w)
          else do { w \<leftarrow> frames_drop env (lm_frames (ma_inner ma)) w;
                    Some (Inl (), ms\<lparr>ms_page_table := pt\<rparr>, w) } }"

definition insert_program_area ::
  "'d kenv \<Rightarrow> ('d, 'z) woom \<Rightarrow> VirtAddr \<Rightarrow> MapPermission \<Rightarrow> frame list \<Rightarrow> 'f memory_set \<Rightarrow> ('d, 'z) world \<Rightarrow>
   ((unit + unit) \<times> 'f memory_set \<times> ('d, 'z) world) option" where
  "insert_program_area env oom start_va permission frames ms w =
     do { ma \<leftarrow> ma_from_existing_frame start_va Framed permission frames;
          push_no_alloc env oom ma ms w }"

text \<open>\<open>areas.remove(idx)\<close> drops the area that leaves the vector.\<close>

definition areas_remove ::
  "'d kenv \<Rightarrow> nat \<Rightarrow> 'f map_area list \<Rightarrow> ('d, 'z) world \<Rightarrow> ('f map_area list \<times> ('d, 'z) world) option" where
  "areas_remove env idx areas w =
     do { ma \<leftarrow> vec_get areas idx;
          w \<leftarrow> frames_drop env (lm_frames (ma_inner ma)) w;
          Some (vec_remove idx areas, w) }"

definition remove_area_with_start_vpn ::
  "'d kenv \<Rightarrow> VirtPageNum \<Rightarrow> 'f memory_set \<Rightarrow> ('d, 'z) world \<Rightarrow>
   ((memory_error + unit) \<times> 'f memory_set \<times> ('d, 'z) world) option" where
  "remove_area_with_start_vpn env start_vpn ms w =
     (case find_idx (\<lambda>area. ma_get_start area = start_vpn) (ms_areas ms) of
        None \<Rightarrow> Some (Inl AreaNotFound, ms, w)
      | Some idx \<Rightarrow>
          do { (result, area, w) \<leftarrow> ma_unmap env (ms_areas ms ! idx) (ms_page_table ms) w;
               (areas, w) \<leftarrow> areas_remove env idx ((ms_areas ms)[idx := area]) w;
               Some (Inr (), ms\<lparr>ms_areas := areas\<rparr>, w) })"

text \<open>Bytes written into a page from an offset on.\<close>

definition page_write :: "nat \<Rightarrow> u8 list \<Rightarrow> page \<Rightarrow> page" where
  "page_write off bs pg = (\<lambda>i. if off \<le> i \<and> i < off + length bs then bs ! (i - off) else pg i)"

definition write_bytes :: "PhysPageNum \<Rightarrow> nat \<Rightarrow> u8 list \<Rightarrow> 'a kmem_scheme \<Rightarrow> 'a kmem_scheme" where
  "write_bytes ppn off bs w = w\<lparr>pmem := (pmem w)(ppn := page_write off bs (pmem w ppn))\<rparr>"

text \<open>The pages of \<open>push_with_offset\<close> after the first.\<close>

definition offset_page :: "u8 list \<Rightarrow> nat \<Rightarrow> u8 list" where
  "offset_page data start =
     (let len = length data; end = start + 4096 in
      if start < len then
        (if len \<ge> end then take (end - start) (drop start data)
         else drop start data @ replicate (4096 - (len - start)) 0)
      else replicate 4096 0)"

fun push_offset_loop ::
  "'d kenv \<Rightarrow> ('d, 'z) woom \<Rightarrow> u8 list \<Rightarrow> nat \<Rightarrow> VirtPageNum list \<Rightarrow> 'f map_area \<Rightarrow> sv39 \<Rightarrow> ('d, 'z) world \<Rightarrow>
   ((memory_error \<times> VirtPageNum + unit) \<times> 'f map_area \<times> sv39 \<times> ('d, 'z) world) option" where
  "push_offset_loop env oom data start [] ma pt w = Some (Inr (), ma, pt, w)"
| "push_offset_loop env oom data start (vpn # vpns) ma pt w =
     do { (res, ma, pt, w) \<leftarrow> map_one env oom vpn ma pt w;
          case res of
            Inl e \<Rightarrow> Some (Inl e, ma, pt, w)
          | Inr ppn \<Rightarrow>
              push_offset_loop env oom data (start + 4096) vpns ma pt (set_bytes ppn (offset_page data start) w) }"

definition push_with_offset ::
  "'d kenv \<Rightarrow> ('d, 'z) woom \<Rightarrow> 'f map_area \<Rightarrow> nat \<Rightarrow> u8 list \<Rightarrow> 'f memory_set \<Rightarrow> ('d, 'z) world \<Rightarrow>
   ((memory_error \<times> VirtPageNum + unit) \<times> 'f memory_set \<times> ('d, 'z) world) option" where
  "push_with_offset env oom ma offset data ms w =
     do { r \<leftarrow> (case range_list (lm_range (ma_inner ma)) of
              [] \<Rightarrow> Some (Inr (), ma, ms_page_table ms, w)
            | vpn # vpns \<Rightarrow>
                do { (res, ma, pt, w) \<leftarrow> map_one env oom vpn ma (ms_page_table ms) w;
                     case res of
                       Inl e \<Rightarrow> Some (Inl e, ma, pt, w)
                     | Inr first_ppn \<Rightarrow>
                         if offset \<le> 4096 then
                           (let w = write_bytes first_ppn 0 (replicate offset 0) w;
                                first_src = take (min (length data) (4096 - offset)) data;
                                w = write_bytes first_ppn offset first_src w in
                            push_offset_loop env oom data (4096 - offset) vpns ma pt w)
                         else None });
          push_finish env r ms }"

subsection \<open>Queries\<close>

definition get_area_by_vpn_range :: "VirtPageNum \<Rightarrow> 'f memory_set \<Rightarrow> 'f map_area option" where
  "get_area_by_vpn_range vpn ms =
     find (\<lambda>area. ma_get_start area \<le> vpn \<and> vpn < ma_get_end area) (rev (ms_areas ms))"

text \<open>The backward search for the last area of the mmap region; running off the front is \<open>unreachable!\<close>.\<close>

fun last_mmap_loop :: "VirtPageNum \<Rightarrow> VirtPageNum \<Rightarrow> (nat \<times> 'f map_area) list \<Rightarrow> nat option option" where
  "last_mmap_loop base_vpn end_vpn [] = None"
| "last_mmap_loop base_vpn end_vpn ((idx, area) # rest) =
     (let start_vpn = ma_get_start area in
      if start_vpn \<ge> end_vpn then last_mmap_loop base_vpn end_vpn rest
      else if start_vpn \<ge> base_vpn \<and> start_vpn < end_vpn then Some (Some idx)
      else Some None)"

definition last_mmap_area_idx :: "'f memory_set \<Rightarrow> nat option option" where
  "last_mmap_area_idx ms =
     do { end_vpn \<leftarrow> vpn_from_va MMAP_END;
          base_vpn \<leftarrow> vpn_from_va MMAP_BASE;
          last_mmap_loop base_vpn end_vpn (drop SKIP_NUM (rev (enumerate 0 (ms_areas ms)))) }"

definition highest_addr :: "'f memory_set \<Rightarrow> VirtAddr option" where
  "highest_addr ms =
     (if ms_areas ms = [] then None else Some (va_from_vpn (ma_get_end (last (ms_areas ms)))))"

definition contains_valid_buffer :: "usize \<Rightarrow> usize \<Rightarrow> MapPermission \<Rightarrow> 'f memory_set \<Rightarrow> bool" where
  "contains_valid_buffer buf len perm ms =
     (let start_vpn = va_floor buf; end_vpn = va_ceil (buf + len) in
      list_ex (\<lambda>area. flags_contains (ma_map_perm area) (perm OR perm_U) \<and>
                 ma_get_start area \<le> start_vpn \<and> end_vpn \<le> ma_get_end area) (ms_areas ms))"

definition ms_translate :: "VirtPageNum \<Rightarrow> 'f memory_set \<Rightarrow> ('d, 'z) world \<Rightarrow> PhysPageNum option" where
  "ms_translate vpn ms w = sv39_translate (ms_page_table ms) w vpn"

subsection \<open>The page-fault handler\<close>

text \<open>A page that is not mapped in a file-backed area.\<close>

definition fault_file ::
  "'d kenv \<Rightarrow> ('f, ('d, 'z) world) file_ops \<Rightarrow> ('d, 'z) woom \<Rightarrow> VirtAddr \<Rightarrow> 'f \<Rightarrow> 'f map_area \<Rightarrow> sv39 \<Rightarrow> ('d, 'z) world \<Rightarrow>
   ((memory_error + PhysAddr) \<times> 'f map_area \<times> sv39 \<times> ('d, 'z) world) option" where
  "fault_file env fops oom addr file area pt w =
     (let vpn = va_floor addr;
          old_offset = fo_get_offset fops file w;
          offset_in_area = va_from_vpn vpn - va_from_vpn (ma_get_start area) in
      if old_offset + offset_in_area > (fo_get_size fops file w + PAGE_SIZE - 1) AND NOT 0xfff then
        Some (Inl BeyondEOF, area, pt, w)
      else if flags_contains (ma_map_perm area) perm_W then
        do { (res, area, pt, w) \<leftarrow> map_one_zeroed_unchecked env oom vpn area pt w;
             case res of
               None \<Rightarrow> Some (Inl BadAddress, area, pt, w)
             | Some ppn \<Rightarrow>
                 (let (sought, w) = fo_lseek fops file offset_in_area SEEK_CUR w in
                  case sought of
                    Inl _ \<Rightarrow> None
                  | Inr _ \<Rightarrow>
                      (let (bs, w) = fo_read fops file 4096 w;
                           w = set_bytes ppn bs w;
                           (sought, w) = fo_lseek fops file old_offset SEEK_SET w in
                       case sought of
                         Inl _ \<Rightarrow> None
                       | Inr _ \<Rightarrow> Some (Inr (ppn_offset ppn (va_page_offset addr)), area, pt, w))) }
      else
        do { (cache_ppn, w) \<leftarrow> fo_get_single_cache fops file (old_offset + offset_in_area) w;
             (pt, w) \<leftarrow> sv39_map oom vpn cache_ppn (ma_map_perm area) pt w;
             (lm, w) \<leftarrow> lm_alloc_in_memory env vpn cache_ppn (ma_inner area) w;
             Some (Inr (ppn_offset cache_ppn (va_page_offset addr)), area\<lparr>ma_inner := lm\<rparr>, pt, w) })"

text \<open>
  A page that is not mapped in an anonymous area: allocate it, or bring it back. \<open>loaded\<close> is
  the common tail of the two arms that bring a page back; they differ in the counter.
\<close>

definition fault_loaded ::
  "('d, 'z) woom \<Rightarrow> VirtPageNum \<Rightarrow> memory_error + PhysPageNum \<Rightarrow> frame \<Rightarrow> (linear_map \<Rightarrow> linear_map) \<Rightarrow>
   'f map_area \<Rightarrow> sv39 \<Rightarrow> ('d, 'z) world \<Rightarrow> (PhysPageNum \<times> 'f map_area \<times> sv39 \<times> ('d, 'z) world) option" where
  "fault_loaded oom vpn res fr counted area pt w =
     (case res of
        Inl _ \<Rightarrow> None
      | Inr ppn \<Rightarrow>
          do { (pt, w) \<leftarrow> sv39_map oom vpn ppn (ma_map_perm area) pt w;
               let lm = ma_inner area;
               let lm = lm\<lparr>lm_frames := (lm_frames lm)[lm_index vpn lm := fr],
                          lm_active := lm_active lm @ [ucast (vpn - ma_get_start area)]\<rparr>;
               Some (ppn, area\<lparr>ma_inner := counted lm\<rparr>, pt, w) })"

definition fault_anonymous ::
  "'d kenv \<Rightarrow> ('d, 'z) woom \<Rightarrow> VirtAddr \<Rightarrow> 'f map_area \<Rightarrow> sv39 \<Rightarrow> ('d, 'z) world \<Rightarrow>
   ((memory_error + PhysAddr) \<times> 'f map_area \<times> sv39 \<times> ('d, 'z) world) option" where
  "fault_anonymous env oom addr area pt w =
     do { let vpn = va_floor addr;
          frame \<leftarrow> lm_get vpn (ma_inner area);
          case frame of
            InMemory _ \<Rightarrow> None
          | Unallocated \<Rightarrow>
              do { (res, area, pt, w) \<leftarrow> map_one_zeroed_unchecked env oom vpn area pt w;
                   Some (case res of
                           None \<Rightarrow> Inl BadAddress
                         | Some ppn \<Rightarrow> Inr (ppn_offset ppn (va_page_offset addr)), area, pt, w) }
          | Compressed _ \<Rightarrow>
              do { (res, fr, w) \<leftarrow> unzip_frame env oom frame w;
                   (ppn, area, pt, w) \<leftarrow>
                     fault_loaded oom vpn res fr (\<lambda>lm. lm\<lparr>lm_compressed := lm_compressed lm - 1\<rparr>) area pt w;
                   Some (Inr (ppn_offset ppn (va_page_offset addr)), area, pt, w) }
          | SwappedOut _ \<Rightarrow>
              do { (res, fr, w) \<leftarrow> swap_in env oom frame w;
                   (ppn, area, pt, w) \<leftarrow>
                     fault_loaded oom vpn res fr (\<lambda>lm. lm\<lparr>lm_swapped := lm_swapped lm - 1\<rparr>) area pt w;
                   Some (Inr (ppn_offset ppn (va_page_offset addr)), area, pt, w) } }"

text \<open>A page that is mapped: a write to a page that is shared or lost its permission.\<close>

definition fault_mapped ::
  "'d kenv \<Rightarrow> ('d, 'z) woom \<Rightarrow> VirtAddr \<Rightarrow> 'f map_area \<Rightarrow> sv39 \<Rightarrow> ('d, 'z) world \<Rightarrow>
   ((memory_error + PhysAddr) \<times> 'f map_area \<times> sv39 \<times> ('d, 'z) world) option" where
  "fault_mapped env oom addr area pt w =
     (if ma_writable_stripped area then Some (Inl NoPermission, area, pt, w)
      else if flags_contains (ma_map_perm area) perm_W \<or> ma_map_type area = Framed then
        do { (res, area, pt, w) \<leftarrow> copy_on_write env oom (va_floor addr) area pt w;
             Some (case res of
                     Inl e \<Rightarrow> Inl e
                   | Inr ppn \<Rightarrow> Inr (ppn_offset ppn (va_page_offset addr)), area, pt, w) }
      else Some (Inl NoPermission, area, pt, w))"

definition faulting_area :: "VirtPageNum \<Rightarrow> 'f map_area \<Rightarrow> bool" where
  "faulting_area vpn area \<longleftrightarrow>
     flags_contains (ma_map_perm area) (perm_R OR perm_U) \<and>
     ma_get_start area \<le> vpn \<and> vpn < ma_get_end area"

definition do_page_fault ::
  "'d kenv \<Rightarrow> ('f, ('d, 'z) world) file_ops \<Rightarrow> ('d, 'z) woom \<Rightarrow> VirtAddr \<Rightarrow> 'f memory_set \<Rightarrow> ('d, 'z) world \<Rightarrow>
   ((memory_error + PhysAddr) \<times> 'f memory_set \<times> ('d, 'z) world) option" where
  "do_page_fault env fops oom addr ms w =
     (let vpn = va_floor addr; pt = ms_page_table ms in
      case find_idx (faulting_area vpn) (ms_areas ms) of
        None \<Rightarrow> Some (Inl BadAddress, ms, w)
      | Some i \<Rightarrow>
          do { let area = ms_areas ms ! i;
               (res, area, pt, w) \<leftarrow>
                 (if \<not> sv39_is_mapped pt w vpn then
                    (case ma_map_file area of
                       Some file \<Rightarrow> fault_file env fops oom addr file area pt w
                     | None \<Rightarrow> fault_anonymous env oom addr area pt w)
                  else fault_mapped env oom addr area pt w);
               Some (res, ms\<lparr>ms_page_table := pt, ms_areas := (ms_areas ms)[i := area]\<rparr>, w) })"

text \<open>\<open>check_page_fault\<close>; the argument is the address space of the current task, if there is one.\<close>

definition check_page_fault ::
  "'d kenv \<Rightarrow> ('f, ('d, 'z) world) file_ops \<Rightarrow> ('d, 'z) woom \<Rightarrow> VirtAddr \<Rightarrow> 'f memory_set option \<Rightarrow> ('d, 'z) world \<Rightarrow>
   ((isize + PhysAddr) \<times> 'f memory_set option \<times> ('d, 'z) world) option" where
  "check_page_fault env fops oom addr vm w =
     do { w \<leftarrow> frame_reserve oom 3 w;
          case vm of
            None \<Rightarrow> Some (Inl EFAULT, None, w)
          | Some ms \<Rightarrow>
              do { (res, ms, w) \<leftarrow> do_page_fault env fops oom addr ms w;
                   case res of
                     Inr pa \<Rightarrow> Some (Inr pa, Some ms, w)
                   | Inl e \<Rightarrow> if e \<in> {BeyondEOF, NoPermission, BadAddress} then Some (Inl EFAULT, Some ms, w)
                             else None } }"

subsection \<open>Reclaiming memory\<close>

text \<open>\<open>iter_mut().filter(p).map(f).sum()\<close> over the areas.\<close>

fun clean_areas ::
  "('f map_area \<Rightarrow> bool) \<Rightarrow> ('f map_area \<Rightarrow> ('d, 'z) world \<Rightarrow> (usize \<times> 'f map_area \<times> ('d, 'z) world) option) \<Rightarrow>
   'f map_area list \<Rightarrow> ('d, 'z) world \<Rightarrow> (usize \<times> 'f map_area list \<times> ('d, 'z) world) option" where
  "clean_areas p f [] w = Some (0, [], w)"
| "clean_areas p f (area # areas) w =
     do { (n, area, w) \<leftarrow> (if p area then f area w else Some (0, area, w));
          (total, areas, w) \<leftarrow> clean_areas p f areas w;
          Some (n + total, area # areas, w) }"

definition do_shallow_clean ::
  "'d kenv \<Rightarrow> 'f memory_set \<Rightarrow> ('d, 'z) world \<Rightarrow> (usize \<times> 'f memory_set \<times> ('d, 'z) world) option" where
  "do_shallow_clean env ms w =
     do { (n, areas, w) \<leftarrow> clean_areas
            (\<lambda>area. ma_get_start area \<ge> drop_bit PAGE_SIZE_BITS MMAP_BASE \<and>
                    ma_get_start area < drop_bit PAGE_SIZE_BITS TASK_SIZE \<and> ma_map_file area = None)
            (\<lambda>area w. ma_do_oom env area (ms_page_table ms) w) (ms_areas ms) w;
          Some (n, ms\<lparr>ms_areas := areas\<rparr>, w) }"

definition do_deep_clean ::
  "'d kenv \<Rightarrow> 'f memory_set \<Rightarrow> ('d, 'z) world \<Rightarrow> (usize \<times> 'f memory_set \<times> ('d, 'z) world) option" where
  "do_deep_clean env ms w =
     do { (n, areas, w) \<leftarrow> clean_areas
            (\<lambda>area. ma_get_start area < drop_bit PAGE_SIZE_BITS TASK_SIZE \<and> ma_map_file area = None)
            (\<lambda>area w. if ma_get_start area < drop_bit PAGE_SIZE_BITS MMAP_BASE
                      then ma_force_swap env area (ms_page_table ms) w
                      else ma_do_oom env area (ms_page_table ms) w) (ms_areas ms) w;
          Some (n, ms\<lparr>ms_areas := areas\<rparr>, w) }"

subsection \<open>The kernel space and fork\<close>

definition map_page_at ::
  "('d, 'z) woom \<Rightarrow> usize \<Rightarrow> usize \<Rightarrow> MapPermission \<Rightarrow> 'f memory_set \<Rightarrow> ('d, 'z) world \<Rightarrow>
   ('f memory_set \<times> ('d, 'z) world) option" where
  "map_page_at oom va pa perm ms w =
     do { vpn \<leftarrow> vpn_from_va va;
          ppn \<leftarrow> ppn_from_pa pa;
          (pt, w) \<leftarrow> sv39_map oom vpn ppn perm (ms_page_table ms) w;
          Some (ms\<lparr>ms_page_table := pt\<rparr>, w) }"

definition map_trampoline ::
  "('d, 'z) woom \<Rightarrow> kernel_layout \<Rightarrow> 'f memory_set \<Rightarrow> ('d, 'z) world \<Rightarrow> ('f memory_set \<times> ('d, 'z) world) option" where
  "map_trampoline oom ly = map_page_at oom TRAMPOLINE (ly_strampoline ly) (perm_R OR perm_X)"

definition map_signaltrampoline ::
  "('d, 'z) woom \<Rightarrow> kernel_layout \<Rightarrow> 'f memory_set \<Rightarrow> ('d, 'z) world \<Rightarrow> ('f memory_set \<times> ('d, 'z) world) option" where
  "map_signaltrampoline oom ly =
     map_page_at oom SIGNAL_TRAMPOLINE (ly_ssignaltrampoline ly) (perm_R OR perm_X OR perm_U)"

text \<open>The macro \<open>anonymous_identical_map!\<close> and the list of its uses in \<open>new_kernel\<close>.\<close>

definition identical_map ::
  "'d kenv \<Rightarrow> ('d, 'z) woom \<Rightarrow> usize \<times> usize \<times> MapPermission \<Rightarrow> 'f memory_set \<Rightarrow> ('d, 'z) world \<Rightarrow>
   ('f memory_set \<times> ('d, 'z) world) option" where
  "identical_map env oom seg ms w =
     (case seg of (begin, end, permission) \<Rightarrow>
        do { ma \<leftarrow> ma_new begin end Identical permission None;
             (res, ms, w) \<leftarrow> ms_push env oom ma None ms w;
             case res of Inl _ \<Rightarrow> None | Inr _ \<Rightarrow> Some (ms, w) })"

definition kernel_segments :: "kernel_layout \<Rightarrow> (usize \<times> usize \<times> MapPermission) list" where
  "kernel_segments ly =
     [(ly_stext ly, ly_etext ly, perm_R OR perm_X),
      (ly_srodata ly, ly_erodata ly, perm_R),
      (ly_sdata ly, ly_edata ly, perm_R OR perm_W),
      (ly_sbss_with_stack ly, ly_ebss ly, perm_R OR perm_W),
      (ly_ekernel ly, MEMORY_END, perm_R OR perm_W)] @
     map (\<lambda>(base, len). (base, base + len, perm_R OR perm_W)) MMIO"

fun identical_maps ::
  "'d kenv \<Rightarrow> ('d, 'z) woom \<Rightarrow> (usize \<times> usize \<times> MapPermission) list \<Rightarrow> 'f memory_set \<Rightarrow> ('d, 'z) world \<Rightarrow>
   ('f memory_set \<times> ('d, 'z) world) option" where
  "identical_maps env oom [] ms w = Some (ms, w)"
| "identical_maps env oom (seg # segs) ms w =
     do { (ms, w) \<leftarrow> identical_map env oom seg ms w;
          identical_maps env oom segs ms w }"

definition new_kernel ::
  "'d kenv \<Rightarrow> ('d, 'z) woom \<Rightarrow> kernel_layout \<Rightarrow> ('d, 'z) world \<Rightarrow> ('f memory_set \<times> ('d, 'z) world) option" where
  "new_kernel env oom ly w =
     do { (ms, w) \<leftarrow> ms_new_bare oom w;
          (ms, w) \<leftarrow> map_trampoline oom ly ms w;
          identical_maps env oom (kernel_segments ly) ms w }"

text \<open>\<open>clone\<close> on an area clones the reference that each frame holds.\<close>

fun frames_clone :: "frame list \<Rightarrow> ('d, 'z) world \<Rightarrow> ('d, 'z) world" where
  "frames_clone [] w = w"
| "frames_clone (fr # frs) w = frames_clone frs (frame_clone fr w)"

fun fork_areas ::
  "('d, 'z) woom \<Rightarrow> 'f map_area list \<Rightarrow> sv39 \<Rightarrow> sv39 \<Rightarrow> ('d, 'z) world \<Rightarrow> (sv39 \<times> ('d, 'z) world) option" where
  "fork_areas oom [] dst src w = Some (dst, w)"
| "fork_areas oom (area # areas) dst src w =
     do { (res, dst, w) \<leftarrow>
            map_from_existing_page_table oom area dst src (frames_clone (lm_frames (ma_inner area)) w);
          case res of Inl _ \<Rightarrow> None | Inr _ \<Rightarrow> fork_areas oom areas dst src w }"

definition from_existing_user ::
  "'d kenv \<Rightarrow> ('d, 'z) woom \<Rightarrow> kernel_layout \<Rightarrow> 'f memory_set \<Rightarrow> ('d, 'z) world \<Rightarrow>
   ('f memory_set \<times> ('d, 'z) world) option" where
  "from_existing_user env oom ly user_space w =
     do { (ms, w) \<leftarrow> ms_new_bare oom w;
          (ms, w) \<leftarrow> map_trampoline oom ly ms w;
          (ms, w) \<leftarrow> map_signaltrampoline oom ly ms w;
          if ms_areas user_space = [] then None
          else do {
            let shared = butlast (ms_areas user_space);
            (pt, w) \<leftarrow> fork_areas oom shared (ms_page_table ms) (ms_page_table user_space) w;
            let ms = ms\<lparr>ms_page_table := pt, ms_areas := shared\<rparr>;
            let trap_cx_area = last (ms_areas user_space);
            area \<leftarrow> ma_from_another trap_cx_area;
            ppn \<leftarrow> ms_translate (ma_get_start trap_cx_area) user_space w;
            (res, ms, w) \<leftarrow> ms_push env oom area (Some (take TRAP_CONTEXT_SIZE (bytes_array ppn w))) ms w;
            case res of Inl _ \<Rightarrow> None | Inr _ \<Rightarrow> Some (ms, w) } }"

fun areas_clear :: "'d kenv \<Rightarrow> 'f map_area list \<Rightarrow> ('d, 'z) world \<Rightarrow> ('d, 'z) world option" where
  "areas_clear env [] w = Some w"
| "areas_clear env (area # areas) w =
     do { w \<leftarrow> frames_drop env (lm_frames (ma_inner area)) w;
          areas_clear env areas w }"

definition recycle_data_pages ::
  "'d kenv \<Rightarrow> 'f memory_set \<Rightarrow> ('d, 'z) world \<Rightarrow> ('f memory_set \<times> ('d, 'z) world) option" where
  "recycle_data_pages env ms w =
     do { w \<leftarrow> areas_clear env (ms_areas ms) w;
          Some (ms\<lparr>ms_areas := []\<rparr>, w) }"

subsection \<open>munmap\<close>

text \<open>
  The closure of \<open>for_each\<close> over the areas: what is done to one area, whether it goes to
  \<open>delete\<close>, and whether it is to be broken apart.
\<close>

datatype munmap_action = Keep | Delete | BreakApart

definition munmap_area ::
  "'d kenv \<Rightarrow> VirtPageNum \<Rightarrow> VirtPageNum \<Rightarrow> 'f map_area \<Rightarrow> sv39 \<Rightarrow> ('d, 'z) world \<Rightarrow>
   (bool \<times> munmap_action \<times> 'f map_area \<times> ('d, 'z) world) option" where
  "munmap_area env start_vpn end_vpn area pt w =
     (case check_overlapping start_vpn end_vpn area of
        None \<Rightarrow> Some (False, Keep, area, w)
      | Some (overlap_start, overlap_end) \<Rightarrow>
          if overlap_start = ma_get_start area \<and> overlap_end = ma_get_end area then
            do { (_, area, w) \<leftarrow> ma_unmap env area pt w;
                 Some (True, Delete, area, w) }
          else if overlap_start = ma_get_start area then
            do { (_, area, w) \<leftarrow> rshrink_to env (va_from_vpn overlap_end) area pt w;
                 Some (True, Keep, area, w) }
          else if overlap_end = ma_get_end area then
            do { (_, area, w) \<leftarrow> shrink_to env (va_from_vpn overlap_start) area pt w;
                 Some (True, Keep, area, w) }
          else Some (True, BreakApart, area, w))"

record munmap_state =
  mu_found :: bool
  mu_delete :: "nat list"
  mu_break :: "nat option"

fun munmap_loop ::
  "'d kenv \<Rightarrow> VirtPageNum \<Rightarrow> VirtPageNum \<Rightarrow> nat \<Rightarrow> 'f map_area list \<Rightarrow> sv39 \<Rightarrow> munmap_state \<Rightarrow> ('d, 'z) world \<Rightarrow>
   (munmap_state \<times> 'f map_area list \<times> ('d, 'z) world) option" where
  "munmap_loop env start_vpn end_vpn idx [] pt st w = Some (st, [], w)"
| "munmap_loop env start_vpn end_vpn idx (area # areas) pt st w =
     do { (found, action, area, w) \<leftarrow> munmap_area env start_vpn end_vpn area pt w;
          let st = \<lparr>mu_found = mu_found st \<or> found,
                    mu_delete = mu_delete st @ (if action = Delete then [idx] else []),
                    mu_break = (if action = BreakApart then Some idx else mu_break st)\<rparr>;
          (st, areas, w) \<leftarrow> munmap_loop env start_vpn end_vpn (Suc idx) areas pt st w;
          Some (st, area # areas, w) }"

fun areas_remove_all ::
  "'d kenv \<Rightarrow> nat list \<Rightarrow> 'f map_area list \<Rightarrow> ('d, 'z) world \<Rightarrow> ('f map_area list \<times> ('d, 'z) world) option" where
  "areas_remove_all env [] areas w = Some (areas, w)"
| "areas_remove_all env (idx # idxs) areas w =
     do { (areas, w) \<leftarrow> areas_remove env idx areas w;
          areas_remove_all env idxs areas w }"

text \<open>The pages of a \<open>while vpn < end { ...; vpn.step() }\<close> loop.\<close>

definition vpns_while :: "VirtPageNum \<Rightarrow> VirtPageNum \<Rightarrow> VirtPageNum list" where
  "vpns_while start end =
     (if start < end then range_list \<lparr>range_l = start, range_r = end\<rparr> else [])"

definition unmap_vpns :: "sv39 \<Rightarrow> VirtPageNum list \<Rightarrow> ('d, 'z) world \<Rightarrow> ('d, 'z) world" where
  "unmap_vpns pt vpns w = fold (\<lambda>vpn w. sv39_unmap pt vpn w) vpns w"

definition munmap_break ::
  "'d kenv \<Rightarrow> VirtPageNum \<Rightarrow> VirtPageNum \<Rightarrow> nat \<Rightarrow> sv39 \<Rightarrow> 'f map_area list \<Rightarrow> ('d, 'z) world \<Rightarrow>
   ('f map_area list \<times> ('d, 'z) world) option" where
  "munmap_break env start_vpn end_vpn idx pt areas w =
     do { area \<leftarrow> vec_get areas idx;
          (res, area, w) \<leftarrow> ma_into_three env start_vpn end_vpn area w;
          let areas = areas[idx := area];
          case res of
            Inr (second, third) \<Rightarrow>
              do { (_, second, w) \<leftarrow> ma_unmap env second pt w;
                   let areas = vec_insert (idx + 1) third areas;
                   w \<leftarrow> frames_drop env (lm_frames (ma_inner second)) w;
                   Some (areas, w) }
          | Inl _ \<Rightarrow> Some (areas, unmap_vpns pt (vpns_while start_vpn end_vpn) w) }"

definition munmap ::
  "'d kenv \<Rightarrow> usize \<Rightarrow> usize \<Rightarrow> 'f memory_set \<Rightarrow> ('d, 'z) world \<Rightarrow>
   ((isize + unit) \<times> 'f memory_set \<times> ('d, 'z) world) option" where
  "munmap env start len ms w =
     (if \<not> va_aligned start then Some (Inl EINVAL, ms, w)
      else do {
        let start_vpn = va_floor start;
        let end_vpn = va_ceil (start + len);
        let pt = ms_page_table ms;
        (st, areas, w) \<leftarrow> munmap_loop env start_vpn end_vpn 0 (ms_areas ms) pt
          \<lparr>mu_found = False, mu_delete = [], mu_break = None\<rparr> w;
        (areas, w) \<leftarrow> areas_remove_all env (rev (mu_delete st)) areas w;
        (areas, w) \<leftarrow> (case mu_break st of
            None \<Rightarrow> Some (areas, w)
          | Some idx \<Rightarrow> munmap_break env start_vpn end_vpn idx pt areas w);
        Some (if mu_found st then Inr () else Inl EINVAL, ms\<lparr>ms_areas := areas\<rparr>, w) })"

subsection \<open>mmap and sbrk\<close>

definition unwrap_unchecked :: "unit option \<Rightarrow> 'e + unit \<Rightarrow> unit option" where
  "unwrap_unchecked ub r = (case r of Inr _ \<Rightarrow> Some () | Inl _ \<Rightarrow> ub)"

text \<open>
  The place where the new area goes: \<open>skip_while\<close> over the areas above the mmap region, then
  the first area that does not start below the new one.
\<close>

definition mmap_insert_idx :: "VirtPageNum \<Rightarrow> VirtPageNum \<Rightarrow> 'f map_area list \<Rightarrow> nat option" where
  "mmap_insert_idx end_vpn start_vpn areas =
     map_option fst (find (\<lambda>(_, area). ma_get_start area \<ge> start_vpn)
       (dropWhile (\<lambda>(_, area). ma_get_start area \<ge> end_vpn) (enumerate 0 areas)))"

text \<open>
  \<open>mmap\<close>. \<open>files\<close> looks a descriptor up in the table of the current task (\<open>None\<close> when there
  is no current task).
\<close>

datatype mmap_spot = Placed VirtAddr | Merged isize

definition mmap_place ::
  "'d kenv \<Rightarrow> unit option \<Rightarrow> usize \<Rightarrow> usize \<Rightarrow> MapPermission \<Rightarrow> MapFlags \<Rightarrow> 'f memory_set \<Rightarrow> ('d, 'z) world \<Rightarrow>
   (mmap_spot \<times> 'f memory_set \<times> ('d, 'z) world) option" where
  "mmap_place env ub start len prot flags ms w =
     do { idx \<leftarrow> last_mmap_area_idx ms;
          if mflags_contains flags MAP_FIXED then
            do { (res, ms, w) \<leftarrow> munmap env start len ms w;
                 _ \<leftarrow> unwrap_unchecked ub res;
                 Some (Placed start, ms, w) }
          else case idx of
            None \<Rightarrow> Some (Placed MMAP_BASE, ms, w)
          | Some idx \<Rightarrow>
              do { let area = ms_areas ms ! idx;
                   let end_va = va_from_vpn (ma_get_end area);
                   if mflags_contains flags (MAP_PRIVATE OR MAP_ANONYMOUS) \<and> prot = ma_map_perm area \<and>
                      ma_map_file area = None then
                     do { (res, area, w) \<leftarrow> expand_to env (end_va + len) area w;
                          case res of
                            Inl _ \<Rightarrow> None
                          | Inr _ \<Rightarrow> Some (Merged end_va, ms\<lparr>ms_areas := (ms_areas ms)[idx := area]\<rparr>, w) }
                   else Some (Placed end_va, ms, w) } }"

definition mmap_file ::
  "('f, ('d, 'z) world) file_ops \<Rightarrow> (usize \<Rightarrow> isize + 'f) \<Rightarrow> MapFlags \<Rightarrow> usize \<Rightarrow> usize \<Rightarrow> ('d, 'z) world \<Rightarrow>
   ((isize + 'f option) \<times> ('d, 'z) world) option" where
  "mmap_file fops files flags fd offset w =
     (if mflags_contains flags MAP_ANONYMOUS then Some (Inr None, w)
      else case files fd of
        Inl errno \<Rightarrow> Some (Inl errno, w)
      | Inr file_descriptor \<Rightarrow>
          if \<not> fo_readable fops file_descriptor then Some (Inl EACCES, w)
          else (let (file, w) = fo_deep_clone fops file_descriptor w;
                    (res, w) = fo_lseek fops file offset SEEK_SET w in
                case res of Inl _ \<Rightarrow> None | Inr _ \<Rightarrow> Some (Inr (Some file), w)))"

definition mmap ::
  "'d kenv \<Rightarrow> ('f, ('d, 'z) world) file_ops \<Rightarrow> unit option \<Rightarrow> (usize \<Rightarrow> isize + 'f) option \<Rightarrow>
   usize \<Rightarrow> usize \<Rightarrow> MapPermission \<Rightarrow> MapFlags \<Rightarrow> usize \<Rightarrow> usize \<Rightarrow> 'f memory_set \<Rightarrow> ('d, 'z) world \<Rightarrow>
   (isize \<times> 'f memory_set \<times> ('d, 'z) world) option" where
  "mmap env fops ub task_files start len prot flags fd offset ms w =
     (if start AND 0xfff \<noteq> 0 then Some (EINVAL, ms, w)
      else do {
        let len = (if len = 0 then PAGE_SIZE else len);
        files \<leftarrow> task_files;
        (place, ms, w) \<leftarrow> mmap_place env ub start len prot flags ms w;
        case place of
          Merged va \<Rightarrow> Some (va, ms, w)
        | Placed start_va \<Rightarrow>
            do { new_area \<leftarrow> ma_new start_va (start_va + len) Framed prot None;
                 (res, w) \<leftarrow> mmap_file fops files flags fd offset w;
                 case res of
                   Inl errno \<Rightarrow> Some (errno, ms, w)
                 | Inr file \<Rightarrow>
                     do { let new_area = new_area\<lparr>ma_map_file := file\<rparr>;
                          end_vpn \<leftarrow> vpn_from_va MMAP_END;
                          start_vpn \<leftarrow> vpn_from_va start_va;
                          let areas = (case mmap_insert_idx end_vpn start_vpn (ms_areas ms) of
                                         Some idx \<Rightarrow> vec_insert idx new_area (ms_areas ms)
                                       | None \<Rightarrow> ms_areas ms @ [new_area]);
                          Some (start_va, ms\<lparr>ms_areas := areas\<rparr>, w) } } })"

definition sbrk ::
  "'d kenv \<Rightarrow> ('f, ('d, 'z) world) file_ops \<Rightarrow> unit option \<Rightarrow> (usize \<Rightarrow> isize + 'f) option \<Rightarrow>
   usize \<Rightarrow> usize \<Rightarrow> isize \<Rightarrow> 'f memory_set \<Rightarrow> ('d, 'z) world \<Rightarrow> (usize \<times> 'f memory_set \<times> ('d, 'z) world) option" where
  "sbrk env fops ub task_files heap_pt heap_bottom increment ms w =
     (let old_pt = heap_pt; new_pt = old_pt + increment in
      if 0 <s increment then
        (if new_pt > heap_bottom + USER_HEAP_SIZE then Some (old_pt, ms, w)
         else do {
           (_, ms, w) \<leftarrow> mmap env fops ub task_files old_pt increment (perm_R OR perm_W OR perm_U)
             (MAP_ANONYMOUS OR MAP_FIXED OR MAP_PRIVATE) (- 1) 0 ms w;
           Some (new_pt, ms, w) })
      else if increment <s 0 then
        (if new_pt \<le> heap_bottom then Some (old_pt, ms, w)
         else do {
           (res, ms, w) \<leftarrow> munmap env old_pt increment ms w;
           case res of Inl _ \<Rightarrow> None | Inr _ \<Rightarrow> Some (new_pt, ms, w) })
      else Some (new_pt, ms, w))"

subsection \<open>mprotect\<close>

definition set_flags_vpns :: "sv39 \<Rightarrow> MapPermission \<Rightarrow> VirtPageNum list \<Rightarrow> ('d, 'z) world \<Rightarrow> ('d, 'z) world" where
  "set_flags_vpns pt flags vpns w =
     fold (\<lambda>vpn w. case sv39_set_pte_flags flags pt vpn w of Some w' \<Rightarrow> w' | None \<Rightarrow> w) vpns w"

text \<open>The statements the four arms share: new flags for the pages of one area, and its new permissions.\<close>

definition protect_area ::
  "sv39 \<Rightarrow> MapPermission \<Rightarrow> MapPermission \<Rightarrow> bool \<Rightarrow> nat \<Rightarrow> 'f map_area list \<Rightarrow> ('d, 'z) world \<Rightarrow>
   'f map_area list \<times> ('d, 'z) world" where
  "protect_area pt new_flags area_perm stripping_w idx areas w =
     (let area = areas ! idx;
          w = set_flags_vpns pt new_flags (range_list (lm_range (ma_inner area))) w in
      (areas[idx := area\<lparr>ma_map_perm := area_perm,
                         ma_writable_stripped := stripping_w \<or> ma_writable_stripped area\<rparr>], w))"

text \<open>One turn of the loop: the part of the range that lies in the area at \<open>idx\<close>.\<close>

definition mprotect_segment ::
  "'d kenv \<Rightarrow> ('f, ('d, 'z) world) file_ops \<Rightarrow> MapPermission \<Rightarrow> sv39 \<Rightarrow> nat \<Rightarrow> VirtPageNum \<Rightarrow> VirtPageNum \<Rightarrow>
   'f map_area list \<Rightarrow> ('d, 'z) world \<Rightarrow> ('f map_area list \<times> ('d, 'z) world) option" where
  "mprotect_segment env fops prot pt idx seg_start seg_end areas w =
     (let area = areas ! idx;
          area_start = ma_get_start area;
          area_end = ma_get_end area;
          real_perm = (case sv39_get_pte_flags pt w seg_start of Some p \<Rightarrow> p | None \<Rightarrow> ma_map_perm area);
          real_x = real_perm AND perm_X;
          new_flags = flags_difference prot perm_W OR real_x;
          area_perm = prot OR real_x;
          stripping_w = (flags_contains (ma_map_perm area) perm_W \<and> \<not> flags_contains area_perm perm_W);
          fallback = (\<lambda>areas w. (areas, set_flags_vpns pt new_flags (vpns_while seg_start seg_end) w)) in
      if seg_start = area_start \<and> seg_end = area_end then
        Some (protect_area pt new_flags area_perm stripping_w idx areas w)
      else if seg_start = area_start then
        do { (res, area, w) \<leftarrow> ma_into_two fops seg_end area w;
             Some (case res of
                     Inr second \<Rightarrow>
                       protect_area pt new_flags area_perm stripping_w idx
                         (vec_insert (idx + 1) second (areas[idx := area])) w
                   | Inl _ \<Rightarrow> fallback (areas[idx := area]) w) }
      else if seg_end = area_end then
        do { (res, area, w) \<leftarrow> ma_into_two fops seg_start area w;
             Some (case res of
                     Inr second \<Rightarrow>
                       protect_area pt new_flags area_perm stripping_w (idx + 1)
                         (vec_insert (idx + 1) second (areas[idx := area])) w
                   | Inl _ \<Rightarrow> fallback (areas[idx := area]) w) }
      else
        do { (res, area, w) \<leftarrow> ma_into_three env seg_start seg_end area w;
             Some (case res of
                     Inr (second, third) \<Rightarrow>
                       protect_area pt new_flags area_perm stripping_w (idx + 1)
                         (vec_insert (idx + 2) third (vec_insert (idx + 1) second (areas[idx := area]))) w
                   | Inl _ \<Rightarrow> fallback (areas[idx := area]) w) })"

function mprotect_loop ::
  "'d kenv \<Rightarrow> ('f, ('d, 'z) world) file_ops \<Rightarrow> MapPermission \<Rightarrow> sv39 \<Rightarrow> VirtPageNum \<Rightarrow> VirtPageNum \<Rightarrow>
   'f map_area list \<Rightarrow> ('d, 'z) world \<Rightarrow> ((isize + unit) \<times> 'f map_area list \<times> ('d, 'z) world) option" where
  "mprotect_loop env fops prot pt cur_vpn end_vpn areas w =
     (if cur_vpn < end_vpn then
        (case find_idx (\<lambda>area. ma_get_start area \<le> cur_vpn \<and> cur_vpn < ma_get_end area) areas of
           None \<Rightarrow> Some (Inl ENOMEM, areas, w)
         | Some area_idx \<Rightarrow>
             (let seg_end = min end_vpn (ma_get_end (areas ! area_idx)) in
              case mprotect_segment env fops prot pt area_idx cur_vpn seg_end areas w of
                None \<Rightarrow> None
              | Some (areas, w) \<Rightarrow> mprotect_loop env fops prot pt seg_end end_vpn areas w))
      else Some (Inr (), areas, w))"
  by pat_completeness auto
termination
  by (relation "measure (\<lambda>(env, fops, prot, pt, cur_vpn, end_vpn, areas, w). unat end_vpn - unat cur_vpn)")
    (auto dest!: find_idx_Some simp: word_less_nat_alt min_def)

declare mprotect_loop.simps [simp del]

definition mprotect ::
  "'d kenv \<Rightarrow> ('f, ('d, 'z) world) file_ops \<Rightarrow> usize \<Rightarrow> usize \<Rightarrow> usize \<Rightarrow> 'f memory_set \<Rightarrow> ('d, 'z) world \<Rightarrow>
   ((isize + unit) \<times> 'f memory_set \<times> ('d, 'z) world) option" where
  "mprotect env fops addr len prot ms w =
     (if \<not> va_aligned addr then Some (Inl EINVAL, ms, w)
      else if len = 0 then Some (Inr (), ms, w)
      else do {
        prot \<leftarrow> perm_from_bits (push_bit 1 (ucast prot) OR push_bit 4 1);
        (res, areas, w) \<leftarrow> mprotect_loop env fops prot (ms_page_table ms)
          (va_floor addr) (va_ceil (addr + len)) (ms_areas ms) w;
        Some (res, ms\<lparr>ms_areas := areas\<rparr>, w) })"

subsection \<open>Resources of a thread\<close>

definition trap_cx_bottom_from_tid :: "usize \<Rightarrow> usize" where
  "trap_cx_bottom_from_tid tid = TRAP_CONTEXT_BASE - tid * PAGE_SIZE"

definition ustack_bottom_from_tid :: "usize \<Rightarrow> usize" where
  "ustack_bottom_from_tid tid = USER_STACK_BASE - tid * (PAGE_SIZE + USER_STACK_SIZE)"

definition alloc_user_res ::
  "'d kenv \<Rightarrow> ('d, 'z) woom \<Rightarrow> usize \<Rightarrow> bool \<Rightarrow> 'f memory_set \<Rightarrow> ('d, 'z) world \<Rightarrow>
   ('f memory_set \<times> ('d, 'z) world) option" where
  "alloc_user_res env oom tid alloc_stack ms w =
     do { (ms, w) \<leftarrow>
            (if alloc_stack then
               (let ustack_bottom = ustack_bottom_from_tid tid in
                insert_framed_area env oom (ustack_bottom - USER_STACK_SIZE) ustack_bottom
                  (perm_R OR perm_W OR perm_U) ms w)
             else Some (ms, w));
          let trap_cx_bottom = trap_cx_bottom_from_tid tid;
          insert_framed_area env oom trap_cx_bottom (trap_cx_bottom + PAGE_SIZE) (perm_R OR perm_W) ms w }"

definition dealloc_user_res ::
  "'d kenv \<Rightarrow> usize \<Rightarrow> 'f memory_set \<Rightarrow> ('d, 'z) world \<Rightarrow> ('f memory_set \<times> ('d, 'z) world) option" where
  "dealloc_user_res env tid ms w =
     do { ustack_top \<leftarrow> vpn_from_va (ustack_bottom_from_tid tid - USER_STACK_SIZE);
          (res, ms, w) \<leftarrow> remove_area_with_start_vpn env ustack_top ms w;
          (case res of
             Inl e \<Rightarrow> if e = AreaNotFound \<or> e = NotMapped then Some () else None
           | Inr _ \<Rightarrow> Some ());
          trap_cx \<leftarrow> vpn_from_va (trap_cx_bottom_from_tid tid);
          (res, ms, w) \<leftarrow> remove_area_with_start_vpn env trap_cx ms w;
          (case res of
             Inl e \<Rightarrow> if e = AreaNotFound then Some () else None
           | Inr _ \<Rightarrow> Some ());
          Some (ms, w) }"

definition ms_is_dirty :: "PhysPageNum \<Rightarrow> 'f memory_set \<Rightarrow> ('d, 'z) world \<Rightarrow> bool option" where
  "ms_is_dirty ppn ms w = sv39_is_dirty (ms_page_table ms) w ppn"

end
