(* ===== verification/Mm_Space.thy ===== *)
theory Mm_Space
  imports Mm_Memory_Set
begin

text \<open>
  The invariant of an address space and its abstract view, the content of every page as the
  process sees it. The invariant ties the areas to the page table and counts every reference
  they hold; \<open>M\<close> collects the frames other spaces and structures hold. An operation is
  proved on one area and lifted to the space by two lemmas: \<open>space_focus\<close> gives the area
  invariant with the other areas' frames in \<open>M\<close>, \<open>space_replace\<close> puts the changed area, or
  the pieces it was cut into, back.

  Page faults, reclaiming and the clean-up under memory pressure leave the view as it is.
\<close>

section \<open>The invariant\<close>

definition area_frames :: "'f map_area \<Rightarrow> frame multiset" where
  "area_frames ma = mset (lm_frames (ma_inner ma))"

definition space_frames :: "'f map_area list \<Rightarrow> frame multiset" where
  "space_frames areas = sum_list (map area_frames areas)"

definition area_ok :: "sv39 \<Rightarrow> ('d, 'z) world \<Rightarrow> 'f map_area \<Rightarrow> bool" where
  "area_ok pt w ma \<longleftrightarrow>
     ma_map_type ma = Framed \<and> lm_wf (ma_inner ma) \<and> length (lm_frames (ma_inner ma)) \<le> 2 ^ 27 \<and>
     (\<forall>i < length (lm_frames (ma_inner ma)).
        sv39_translate pt w (lm_vpn (ma_inner ma) i) = resident (lm_frames (ma_inner ma) ! i))"

definition disjoint_areas :: "'f map_area list \<Rightarrow> bool" where
  "disjoint_areas areas \<longleftrightarrow> sorted_wrt (\<lambda>a b. area_keys a \<inter> area_keys b = {}) areas"

definition space_inv :: "usize \<Rightarrow> frame multiset \<Rightarrow> sv39 \<Rightarrow> 'f map_area list \<Rightarrow> ('d, 'z) world \<Rightarrow> bool" where
  "space_inv lo M pt areas w \<longleftrightarrow>
     world_inv lo w \<and> pt_wf lo pt w \<and>
     frames_ref w (space_frames areas + M) \<and> set_mset (space_frames areas + M) \<inter> table_frames pt = {} \<and>
     (\<forall>ma \<in> set areas. area_ok pt w ma) \<and> disjoint_areas areas"

section \<open>The abstract view\<close>

text \<open>
  What a process sees in a page. A page of an anonymous area that was never touched is zero; a
  page of a file mapping that is not loaded is not part of the view.
\<close>

definition page_view :: "'d kenv \<Rightarrow> ('d, 'z) world \<Rightarrow> 'f map_area \<Rightarrow> frame \<Rightarrow> u8 list option" where
  "page_view env w ma fr =
     (if fr = Unallocated then (if ma_map_file ma = None then Some (replicate 4096 0) else None)
      else frame_content env w fr)"

definition area_view :: "'d kenv \<Rightarrow> ('d, 'z) world \<Rightarrow> 'f map_area \<Rightarrow> VirtPageNum \<Rightarrow> u8 list option" where
  "area_view env w ma v =
     (if lm_in_range (ma_inner ma) v then page_view env w ma (lm_frames (ma_inner ma) ! lm_index v (ma_inner ma))
      else None)"

definition space_view :: "'d kenv \<Rightarrow> ('d, 'z) world \<Rightarrow> 'f map_area list \<Rightarrow> VirtPageNum \<Rightarrow> u8 list option" where
  "space_view env w areas v =
     (case find (\<lambda>ma. lm_in_range (ma_inner ma) v) areas of None \<Rightarrow> None | Some ma \<Rightarrow> area_view env w ma v)"

text \<open>The invariant and the view of a memory set.\<close>

definition ms_inv :: "usize \<Rightarrow> frame multiset \<Rightarrow> 'f memory_set \<Rightarrow> ('d, 'z) world \<Rightarrow> bool" where
  "ms_inv lo M ms w \<longleftrightarrow> space_inv lo M (ms_page_table ms) (ms_areas ms) w"

definition ms_view :: "'d kenv \<Rightarrow> ('d, 'z) world \<Rightarrow> 'f memory_set \<Rightarrow> VirtPageNum \<Rightarrow> u8 list option" where
  "ms_view env w ms = space_view env w (ms_areas ms)"

text \<open>
  What an operation on a space may do to the rest of the system: the frames others hold keep
  their content, and a frame the space refers to more often than before is one nobody had,
  which it now refers to once.
\<close>

definition fresh_frames :: "('d, 'z) world \<Rightarrow> frame multiset \<Rightarrow> frame multiset \<Rightarrow> bool" where
  "fresh_frames w F F' \<longleftrightarrow>
     (\<forall>p. count F' (InMemory p) \<le> count F (InMemory p) \<or> arcs w p = 0 \<and> count F' (InMemory p) \<le> 1)"

definition space_step ::
  "usize \<Rightarrow> 'd kenv \<Rightarrow> frame multiset \<Rightarrow> 'f memory_set \<Rightarrow> ('d, 'z) world \<Rightarrow> 'f memory_set \<Rightarrow> ('d, 'z) world \<Rightarrow> bool" where
  "space_step lo env M ms w ms' w' \<longleftrightarrow>
     ms_inv lo M ms' w' \<and> (\<forall>g \<in># M. frame_content env w' g = frame_content env w g) \<and>
     fresh_frames w (space_frames (ms_areas ms)) (space_frames (ms_areas ms'))"

section \<open>What the page table grants\<close>

text \<open>
  The leaf entries of a space are those of its areas and of the two trampolines, and an entry
  that grants write access points to a frame that \<open>T\<close>, all references of the system, counts
  once.
\<close>

definition areas_keys :: "'f map_area list \<Rightarrow> usize set" where
  "areas_keys areas = (\<Union>ma \<in> set areas. area_keys ma)"

definition trampoline_keys :: "usize set" where
  "trampoline_keys = {vpn_key (va_floor TRAMPOLINE), vpn_key (va_floor SIGNAL_TRAMPOLINE)}"

definition ms_tight :: "frame multiset \<Rightarrow> 'f memory_set \<Rightarrow> ('d, 'z) world \<Rightarrow> bool" where
  "ms_tight T ms w \<longleftrightarrow> (\<forall>u e. find_pte (ms_page_table ms) w u = Some e \<longrightarrow>
     (vpn_key u \<in> areas_keys (ms_areas ms) \<or> vpn_key u \<in> trampoline_keys \<and> \<not> pte_writable e) \<and>
     (pte_writable e \<longrightarrow> count T (InMemory (pte_ppn e)) \<le> 1))"

text \<open>
  How an operation may change the entries: each one it leaves was there before, and is still
  inside an area if it was, or it is in an area and, if writable, the only reference to its
  frame.
\<close>

definition pte_step ::
  "frame multiset \<Rightarrow> 'f memory_set \<Rightarrow> ('d, 'z) world \<Rightarrow> 'f memory_set \<Rightarrow> ('d, 'z) world \<Rightarrow> bool" where
  "pte_step M ms w ms' w' \<longleftrightarrow> (\<forall>u e. find_pte (ms_page_table ms') w' u = Some e \<longrightarrow>
     find_pte (ms_page_table ms) w u = Some e \<and>
       (vpn_key u \<in> areas_keys (ms_areas ms) \<longrightarrow> vpn_key u \<in> areas_keys (ms_areas ms')) \<or>
     vpn_key u \<in> areas_keys (ms_areas ms') \<and>
       (pte_writable e \<longrightarrow> count (space_frames (ms_areas ms') + M) (InMemory (pte_ppn e)) \<le> 1))"

lemma areas_keys_simps [simp]:
  "areas_keys [] = {}" "areas_keys (ma # areas) = area_keys ma \<union> areas_keys areas"
  "areas_keys (xs @ ys) = areas_keys xs \<union> areas_keys ys"
  by (auto simp: areas_keys_def)

lemma fresh_frames_in: "fresh_frames w F F' \<Longrightarrow> InMemory p \<in># F' \<Longrightarrow> InMemory p \<in># F \<or> arcs w p = 0"
  unfolding fresh_frames_def by (metis count_greater_zero_iff le_zero_eq neq0_conv)

lemma frames_ref_mono: "frames_ref w F \<Longrightarrow> F' \<subseteq># F \<Longrightarrow> frames_ref w F'"
  unfolding frames_ref_def by (meson mset_subset_eq_count order_trans)

lemma frames_ref_zero: "frames_ref w F \<Longrightarrow> arcs w p = 0 \<Longrightarrow> count F (InMemory p) = 0"
  using frames_refD [of w F "InMemory p"] by (auto simp: count_eq_zero_iff)

lemma frames_ref_one: "frames_ref w F \<Longrightarrow> arcs w p = 1 \<Longrightarrow> count F (InMemory p) \<le> 1"
  unfolding frames_ref_def by (metis frame.distinct(5) frame_count_simps(1))

lemma fresh_frames_refl [simp]: "fresh_frames w F F"
  by (simp add: fresh_frames_def)

lemma fresh_frames_add:
  assumes "fresh_frames w F F'" and "frames_ref w G"
  shows "fresh_frames w (F + G) (F' + G)"
  unfolding fresh_frames_def
proof
  fix p
  show "count (F' + G) (InMemory p) \<le> count (F + G) (InMemory p) \<or> arcs w p = 0 \<and> count (F' + G) (InMemory p) \<le> 1"
    using assms(1) frames_ref_zero [OF assms(2), of p] by (auto simp: fresh_frames_def dest: spec [of _ p])
qed

text \<open>A frame that was counted at most once still is.\<close>

lemma fresh_frames_once:
  assumes "fresh_frames w F F'" and "frames_ref w G" and "count (F + G) (InMemory p) \<le> 1"
  shows "count (F' + G) (InMemory p) \<le> 1"
  using fresh_frames_add [OF assms(1,2)] assms(3) unfolding fresh_frames_def by (meson order_trans)

lemma count_page_in:
  assumes "i < length fs" "count (mset fs) (InMemory p) = 0"
  shows "count (mset (fs[i := InMemory p])) (InMemory p) = 1"
    and "q \<noteq> p \<Longrightarrow> count (mset (fs[i := InMemory p])) (InMemory q) \<le> count (mset fs) (InMemory q)"
proof -
  have "fs ! i \<noteq> InMemory p" using assms by (metis count_eq_zero_iff nth_mem set_mset_mset)
  then have "count (mset fs - {#fs ! i#}) (InMemory p) = 0" using assms(2) by simp
  then show "count (mset (fs[i := InMemory p])) (InMemory p) = 1" by (simp add: mset_update assms(1) del: count_diff)
  show "q \<noteq> p \<Longrightarrow> count (mset (fs[i := InMemory p])) (InMemory q) \<le> count (mset fs) (InMemory q)"
    by (simp add: mset_update assms(1))
qed

lemma fresh_page_in:
  assumes "i < length fs" "count (mset fs) (InMemory p) = 0" "arcs w p = 0"
  shows "fresh_frames w (mset fs) (mset (fs[i := InMemory p]))"
  unfolding fresh_frames_def
proof
  fix q
  show "count (mset (fs[i := InMemory p])) (InMemory q) \<le> count (mset fs) (InMemory q) \<or>
      arcs w q = 0 \<and> count (mset (fs[i := InMemory p])) (InMemory q) \<le> 1"
    using count_page_in [OF assms(1,2)] assms(3) by (cases "q = p") simp_all
qed

section \<open>Focusing on one area\<close>

lemma area_inv_iff:
  "area_inv lo M pt w ma \<longleftrightarrow>
     world_inv lo w \<and> pt_wf lo pt w \<and> frames_ref w (area_frames ma + M) \<and>
     set_mset (area_frames ma + M) \<inter> table_frames pt = {} \<and> area_ok pt w ma"
  unfolding area_inv_def area_ok_def area_frames_def by blast

lemma space_frames_simps [simp]:
  "space_frames [] = {#}" "space_frames (ma # areas) = area_frames ma + space_frames areas"
  "space_frames (xs @ ys) = space_frames xs + space_frames ys"
  by (simp_all add: space_frames_def)

lemma area_frames_sub: "ma \<in> set areas \<Longrightarrow> area_frames ma \<subseteq># space_frames areas"
  by (induction areas) (auto intro: subset_mset.order_trans)

lemma space_invD:
  assumes "space_inv lo M pt areas w"
  shows "world_inv lo w" "pt_wf lo pt w" "frames_ref w (space_frames areas + M)"
    "set_mset (space_frames areas + M) \<inter> table_frames pt = {}"
    "ma \<in> set areas \<Longrightarrow> area_ok pt w ma" "disjoint_areas areas"
  using assms by (simp_all add: space_inv_def)

lemma space_focus:
  "space_inv lo M pt (xs @ ma # ys) w \<Longrightarrow> area_inv lo (space_frames (xs @ ys) + M) pt w ma"
  by (simp add: space_inv_def area_inv_iff ac_simps)

lemma area_ok_cong:
  assumes "area_ok pt w ma" and "\<And>u. vpn_key u \<in> area_keys ma \<Longrightarrow> find_pte pt' w' u = find_pte pt w u"
  shows "area_ok pt' w' ma"
proof -
  have "sv39_translate pt' w' (lm_vpn (ma_inner ma) i) = sv39_translate pt w (lm_vpn (ma_inner ma) i)"
    if "i < length (lm_frames (ma_inner ma))" for i
    using assms(2) [OF area_keys_vpn [OF _ that]] assms(1) by (simp add: sv39_translate_def area_ok_def)
  then show ?thesis using assms(1) by (simp add: area_ok_def)
qed

text \<open>A leaf entry of an area points to a frame the space refers to.\<close>

lemma leaf_frame:
  assumes ok: "\<And>ma. ma \<in> set areas \<Longrightarrow> area_ok pt w ma"
    and e: "find_pte pt w u = Some e" and u: "vpn_key u \<in> areas_keys areas"
  shows "InMemory (pte_ppn e) \<in># space_frames areas"
proof -
  from u obtain ma v where ma: "ma \<in> set areas" "lm_in_range (ma_inner ma) v" "vpn_key u = vpn_key v"
    by (auto simp: areas_keys_def area_keys_def)
  note A = ok [OF ma(1), unfolded area_ok_def]
  have wf: "lm_wf (ma_inner ma)" using A by blast
  note i = lm_index_in_range [OF wf ma(2)]
  have "sv39_translate pt w v = resident (lm_frames (ma_inner ma) ! lm_index v (ma_inner ma))"
    using A i by (metis i(2))
  then have "lm_frames (ma_inner ma) ! lm_index v (ma_inner ma) = InMemory (pte_ppn e)"
    using e translate_key [OF ma(3), of pt w] resident_Some by (metis option.simps(9) sv39_translate_def)
  then have "InMemory (pte_ppn e) \<in># area_frames ma" unfolding area_frames_def using i(1) by (metis nth_mem set_mset_mset)
  then show ?thesis using mset_subset_eqD [OF area_frames_sub [OF ma(1)]] by blast
qed

lemma disjoint_areas_replace:
  assumes "disjoint_areas (xs @ ma # ys)" and "disjoint_areas bs"
    and "\<And>b. b \<in> set bs \<Longrightarrow> area_keys b \<subseteq> area_keys ma"
  shows "disjoint_areas (xs @ bs @ ys)"
  using assms unfolding disjoint_areas_def sorted_wrt_append by (auto, blast+)

lemma space_replace:
  fixes w w' :: "('d, 'z) world"
  assumes inv: "space_inv lo M pt (xs @ ma # ys) w"
    and w': "world_inv lo w'" "pt_wf lo pt' w'"
    and ref: "frames_ref w' (space_frames bs + (space_frames (xs @ ys) + M))"
    and out: "set_mset (space_frames bs + (space_frames (xs @ ys) + M)) \<inter> table_frames pt' = {}"
    and bs: "\<And>b. b \<in> set bs \<Longrightarrow> area_ok pt' w' b \<and> area_keys b \<subseteq> area_keys ma" "disjoint_areas bs"
    and rest: "\<And>u. vpn_key u \<notin> area_keys ma \<Longrightarrow> find_pte pt' w' u = find_pte pt w u"
  shows "space_inv lo M pt' (xs @ bs @ ys) w'"
proof -
  have "area_ok pt' w' a" if a: "a \<in> set xs \<union> set ys" for a
  proof (rule area_ok_cong)
    show "area_ok pt w a" using space_invD(5) [OF inv, of a] a by auto
    have "area_keys a \<inter> area_keys ma = {}"
      using space_invD(6) [OF inv] a unfolding disjoint_areas_def sorted_wrt_append by auto
    then show "find_pte pt' w' u = find_pte pt w u" if "vpn_key u \<in> area_keys a" for u
      using rest [of u] that by auto
  qed
  then show ?thesis
    using w' ref out bs disjoint_areas_replace [OF space_invD(6) [OF inv] bs(2)]
    by (auto simp: space_inv_def ac_simps)
qed

lemma space_update:
  fixes w w' :: "('d, 'z) world"
  assumes inv: "space_inv lo M pt (xs @ ma # ys) w"
    and ma': "area_inv lo (space_frames (xs @ ys) + M) pt' w' ma'" "area_keys ma' \<subseteq> area_keys ma"
    and rest: "\<And>u. vpn_key u \<notin> area_keys ma \<Longrightarrow> find_pte pt' w' u = find_pte pt w u"
  shows "space_inv lo M pt' (xs @ ma' # ys) w'"
  using space_replace [where bs = "[ma']", OF inv _ _ _ _ _ _ rest] ma'
  by (simp add: area_inv_iff disjoint_areas_def)

section \<open>The view of a space and its areas\<close>

lemma area_view_cong:
  assumes "\<And>j. j < length (lm_frames (ma_inner ma)) \<Longrightarrow>
      page_view env w' ma' (lm_frames (ma_inner ma') ! j) = page_view env w ma (lm_frames (ma_inner ma) ! j)"
    and "lm_range (ma_inner ma') = lm_range (ma_inner ma)" and "lm_wf (ma_inner ma)"
  shows "area_view env w' ma' = area_view env w ma"
proof
  fix v
  show "area_view env w' ma' v = area_view env w ma v"
    using assms(1) lm_index_in_range(1) [OF assms(3), of v] lm_range_cong [OF assms(2)]
    by (auto simp: area_view_def)
qed

lemma space_view_simps [simp]:
  "space_view env w [] v = None"
  "space_view env w (ma # areas) v = (if lm_in_range (ma_inner ma) v then area_view env w ma v else space_view env w areas v)"
  by (simp_all add: space_view_def)

lemma space_view_append:
  "space_view env w (xs @ ys) v =
     (if \<exists>ma \<in> set xs. lm_in_range (ma_inner ma) v then space_view env w xs v else space_view env w ys v)"
  by (induction xs) auto

lemma space_view_cong:
  "(\<And>ma. ma \<in> set areas \<Longrightarrow> area_view env w' ma = area_view env w ma) \<Longrightarrow>
   space_view env w' areas v = space_view env w areas v"
  by (induction areas) auto

lemma space_view_update:
  assumes "area_view env w' ma' = area_view env w ma"
    and "lm_range (ma_inner ma') = lm_range (ma_inner ma)"
    and "\<And>a. a \<in> set xs \<union> set ys \<Longrightarrow> area_view env w' a = area_view env w a"
  shows "space_view env w' (xs @ ma' # ys) = space_view env w (xs @ ma # ys)"
  using assms(1,3) lm_range_cong(5) [OF assms(2)] space_view_cong [of xs env w' w] space_view_cong [of ys env w' w]
  by (auto simp: fun_eq_iff space_view_append)

text \<open>A page view depends on the content of a frame in use only.\<close>

lemma frames_view:
  assumes "\<And>g. g \<in># area_frames ma \<Longrightarrow> frame_content env w' g = frame_content env w g" and "lm_wf (ma_inner ma)"
  shows "area_view env w' ma = area_view env w ma"
  by (rule area_view_cong) (use assms in \<open>simp_all add: page_view_def area_frames_def\<close>)

lemma rest_view:
  assumes "space_inv lo M pt (xs @ ma # ys) w"
    and "\<And>g. g \<in># space_frames (xs @ ys) + M \<Longrightarrow> frame_content env w' g = frame_content env w g"
    and "a \<in> set xs \<union> set ys"
  shows "area_view env w' a = area_view env w a"
proof (rule frames_view)
  have "area_frames a \<subseteq># space_frames (xs @ ys)" using assms(3) by (intro area_frames_sub) simp
  then show "frame_content env w' g = frame_content env w g" if "g \<in># area_frames a" for g
    using assms(2) [of g] that by (meson mset_subset_eqD union_iff)
  show "lm_wf (ma_inner a)" using space_invD(5) [OF assms(1), of a] assms(3) by (auto simp: area_ok_def)
qed

section \<open>Page faults\<close>

text \<open>A page brought into an area is seen there with the content it had before.\<close>

lemma page_in_view:
  assumes inv: "area_inv lo N pt w ma" and v: "lm_in_range (ma_inner ma) v"
    and p: "page_in lo env v p N pt w ma pt' w' ma'"
    and content: "Some (bytes_array p w') = page_view env w ma (lm_frames (ma_inner ma) ! lm_index v (ma_inner ma))"
  shows "area_view env w' ma' = area_view env w ma"
proof (rule area_view_cong)
  let ?i = "lm_index v (ma_inner ma)" and ?F = "lm_frames (ma_inner ma)"
  note wf = area_invD(4) [OF inv]
  note i = lm_index_in_range(1) [OF wf v]
  have P: "lm_range (ma_inner ma') = lm_range (ma_inner ma)" "ma_map_file ma' = ma_map_file ma"
    "lm_frames (ma_inner ma') = ?F[?i := InMemory p]"
    "\<And>g. g \<in># other_frames ?i N ma \<Longrightarrow> frame_content env w' g = frame_content env w g"
    using p by (simp_all add: page_in_def)
  show "lm_range (ma_inner ma') = lm_range (ma_inner ma)" "lm_wf (ma_inner ma)" by (rule P wf)+
  fix j assume j: "j < length ?F"
  show "page_view env w' ma' (lm_frames (ma_inner ma') ! j) = page_view env w ma (?F ! j)"
  proof (cases "j = ?i")
    case True
    then show ?thesis using i content P(3) by (simp add: page_view_def frame_content_def)
  next
    case False
    then have "?F ! j \<in># other_frames ?i N ma"
      unfolding other_frames_def using nth_other_mset [OF i j] by simp
    then show ?thesis using False P by (simp add: page_view_def)
  qed
qed

lemma page_in_rest:
  assumes "page_in lo env v p N pt w ma pt' w' ma'" and "lm_in_range (ma_inner ma) v"
  shows "vpn_key u \<notin> area_keys ma \<Longrightarrow> find_pte pt' w' u = find_pte pt w u"
    and "g \<in># N \<Longrightarrow> frame_content env w' g = frame_content env w g"
    and "area_keys ma' = area_keys ma"
proof -
  have "vpn_key v \<in> area_keys ma" unfolding area_keys_def using assms(2) by blast
  then show "vpn_key u \<notin> area_keys ma \<Longrightarrow> find_pte pt' w' u = find_pte pt w u"
    using assms(1) unfolding page_in_def by metis
  show "g \<in># N \<Longrightarrow> frame_content env w' g = frame_content env w g"
    using assms(1) unfolding page_in_def other_frames_def by simp
  show "area_keys ma' = area_keys ma"
    by (rule area_keys_cong) (use assms(1) in \<open>simp add: page_in_def\<close>)
qed

text \<open>
  The effect of a successful fault on the space: the invariant and the view are kept, and the
  page is now mapped to \<open>p\<close> with the permissions of its area.
\<close>

definition fault_effect ::
  "usize \<Rightarrow> 'd kenv \<Rightarrow> frame multiset \<Rightarrow> VirtPageNum \<Rightarrow> PhysPageNum \<Rightarrow> 'f memory_set \<Rightarrow> ('d, 'z) world \<Rightarrow>
   'f memory_set \<Rightarrow> ('d, 'z) world \<Rightarrow> bool" where
  "fault_effect lo env M v p ms w ms' w' \<longleftrightarrow>
     space_step lo env M ms w ms' w' \<and> ms_view env w' ms' = ms_view env w ms \<and>
     ms_view env w ms v = Some (bytes_array p w') \<and>
     sv39_translate (ms_page_table ms') w' v = Some p \<and> pte_step M ms w ms' w'"

text \<open>A step that changes the entry of one page of an area.\<close>

lemma pte_step_one:
  assumes keys: "areas_keys (ms_areas ms') = areas_keys (ms_areas ms)" "vpn_key v \<in> areas_keys (ms_areas ms)"
    and rest: "\<And>u. vpn_key u \<noteq> vpn_key v \<Longrightarrow>
      find_pte (ms_page_table ms') w' u = find_pte (ms_page_table ms) w u"
    and tr: "sv39_translate (ms_page_table ms') w' v = Some p"
    and once: "count (space_frames (ms_areas ms') + M) (InMemory p) \<le> 1"
  shows "pte_step M ms w ms' w'"
  unfolding pte_step_def
proof (intro allI impI)
  fix u e assume e: "find_pte (ms_page_table ms') w' u = Some e"
  show "find_pte (ms_page_table ms) w u = Some e \<and>
      (vpn_key u \<in> areas_keys (ms_areas ms) \<longrightarrow> vpn_key u \<in> areas_keys (ms_areas ms')) \<or>
    vpn_key u \<in> areas_keys (ms_areas ms') \<and>
      (pte_writable e \<longrightarrow> count (space_frames (ms_areas ms') + M) (InMemory (pte_ppn e)) \<le> 1)"
  proof (cases "vpn_key u = vpn_key v")
    case True
    then have "pte_ppn e = p" using tr e translate_key [OF True, of "ms_page_table ms'" w'] by (auto simp: sv39_translate_def)
    then show ?thesis using True keys once by simp
  next
    case False
    then show ?thesis using rest e keys(1) by simp
  qed
qed

lemma page_in_space:
  assumes inv: "space_inv lo M (ms_page_table ms) (xs @ ma # ys) w" and ms: "ms_areas ms = xs @ ma # ys"
    and v: "lm_in_range (ma_inner ma) v"
    and p: "page_in lo env v p (space_frames (xs @ ys) + M) (ms_page_table ms) w ma pt' w' ma'"
    and content: "Some (bytes_array p w') = page_view env w ma (lm_frames (ma_inner ma) ! lm_index v (ma_inner ma))"
    and ms': "ms' = ms\<lparr>ms_page_table := pt', ms_areas := xs @ ma' # ys\<rparr>"
  shows "fault_effect lo env M v p ms w ms' w'"
  unfolding fault_effect_def space_step_def ms_inv_def ms_view_def
proof (intro conjI)
  note F = space_focus [OF inv]
  note R = page_in_rest [OF p v]
  have P: "area_inv lo (space_frames (xs @ ys) + M) pt' w' ma'" "lm_range (ma_inner ma') = lm_range (ma_inner ma)"
    using p by (simp_all add: page_in_def)
  show "space_inv lo M (ms_page_table ms') (ms_areas ms') w'"
    using space_update [OF inv P(1) _ R(1)] R(3) ms' by simp
  have others: "area_view env w' a = area_view env w a" if "a \<in> set xs \<union> set ys" for a
    by (rule rest_view [OF inv R(2) that])
  have "space_view env w' (xs @ ma' # ys) = space_view env w (xs @ ma # ys)"
    by (rule space_view_update [OF page_in_view [OF F v p content] P(2) others])
  then show "space_view env w' (ms_areas ms') = space_view env w (ms_areas ms)" by (simp add: ms ms')
  note i = lm_index_in_range [OF area_invD(4) [OF F] v]
  have "sv39_translate pt' w' (lm_vpn (ma_inner ma) (lm_index v (ma_inner ma))) = Some p"
    using area_invD(8) [OF P(1), of "lm_index v (ma_inner ma)"] i(1) p
    by (simp add: page_in_def lm_range_cong [OF P(2)] resident_def)
  then show tr: "sv39_translate (ms_page_table ms') w' v = Some p" by (simp add: ms' i(2))
  show "\<forall>g \<in># M. frame_content env w' g = frame_content env w g" using R(2) by simp
  have p0: "arcs w p = 0" and fr': "lm_frames (ma_inner ma') = (lm_frames (ma_inner ma))[lm_index v (ma_inner ma) := InMemory p]"
    using p by (simp_all add: page_in_def)
  note ref = space_invD(3) [OF inv]
  have zero: "count (area_frames ma) (InMemory p) = 0" "count (space_frames (xs @ ys) + M) (InMemory p) = 0"
    using frames_ref_zero [OF ref p0] by simp_all
  have fresh: "fresh_frames w (area_frames ma) (area_frames ma')"
    using fresh_page_in [OF i(1) zero(1) [unfolded area_frames_def] p0] by (simp add: area_frames_def fr')
  have refG: "frames_ref w (space_frames (xs @ ys))" by (rule frames_ref_mono [OF ref]) (simp add: ac_simps)
  show "fresh_frames w (space_frames (ms_areas ms)) (space_frames (ms_areas ms'))"
    using fresh_frames_add [OF fresh refG] by (simp add: ms ms' ac_simps)
  have "count (area_frames ma') (InMemory p) \<le> 1" 
    using count_page_in(1) [OF i(1) zero(1) [unfolded area_frames_def]] by (simp add: area_frames_def fr')
  then have once: "count (space_frames (ms_areas ms') + M) (InMemory p) \<le> 1" using zero(2) by (simp add: ms')
  have "vpn_key v \<in> area_keys ma" unfolding area_keys_def using v by blast
  moreover have "find_pte (ms_page_table ms') w' u = find_pte (ms_page_table ms) w u" if "vpn_key u \<noteq> vpn_key v" for u
    using p that by (simp add: page_in_def ms')
  ultimately show "pte_step M ms w ms' w'"
    by (intro pte_step_one [OF _ _ _ tr once]) (simp_all add: ms ms' R(3))
  have "\<not> lm_in_range (ma_inner a) v" if a: "a \<in> set xs" for a
  proof -
    have "area_keys a \<inter> area_keys ma = {}"
      using space_invD(6) [OF inv] a by (auto simp: disjoint_areas_def sorted_wrt_append)
    then show ?thesis using v by (auto simp: area_keys_def)
  qed
  then show "space_view env w (ms_areas ms) v = Some (bytes_array p w')"
    using v content by (auto simp: ms space_view_append area_view_def)
qed

text \<open>A page that comes back from zram or the swap partition.\<close>

lemma load_page:
  fixes w w1 :: "('d, 'z) world"
  assumes inv: "area_inv lo N pt w ma" and v: "lm_in_range (ma_inner ma) v"
    and fr: "lm_frames (ma_inner ma) ! lm_index v (ma_inner ma) = fr" "fr \<noteq> Unallocated" "resident fr = None"
    and ld: "load_effect lo env fr w p w1" and free: "3 \<le> km_free w"
  shows "\<exists>pt' w'. sv39_map oom v p (ma_map_perm ma) pt w1 = Some (pt', w') \<and>
    Some (bytes_array p w') = frame_content env w fr \<and>
    (\<forall>lm'. lm_range lm' = lm_range (ma_inner ma) \<longrightarrow>
       lm_frames lm' = (lm_frames (ma_inner ma))[lm_index v (ma_inner ma) := InMemory p] \<longrightarrow>
       page_in lo env v p N pt w ma pt' w' (ma\<lparr>ma_inner := lm'\<rparr>))"
proof -
  note I = area_invD [OF inv]
  let ?i = "lm_index v (ma_inner ma)"
  note V = lm_index_in_range [OF I(4) v]
  have L: "frame_moved lo env fr w (InMemory p) w1" "km_free w = Suc (km_free w1)" "p \<notin> km_allocated lo w"
    "fa_end (kfa w1) = fa_end (kfa w)" "km_allocated lo w1 = insert p (km_allocated lo w)"
    "\<forall>q. q \<noteq> p \<longrightarrow> pmem w1 q = pmem w q"
    using ld by (simp_all add: load_effect_def)
  have inv1: "world_inv lo w1" and c1: "frame_content env w1 (InMemory p) = frame_content env w fr"
    using L(1) by (simp_all add: frame_moved_def)
  note sp = split_frame [OF V(1), of N, unfolded fr(1)]
  have ref: "frames_ref w (add_mset fr (other_frames ?i N ma))" using I(6) unfolding sp .
  note R = frames_ref_moved [OF ref L(1) fr(2)]
  have out: "p \<notin> set (pt_frames pt)" using pt_wfD(3) [OF I(2)] L(3) by blast
  have sub: "set (pt_frames pt) \<subseteq> km_allocated lo w1" using pt_wfD(3) [OF I(2)] L(5) by auto
  have same: "bytes_array f w1 = bytes_array f w" if "f \<in> set (pt_frames pt)" for f
    using L(6) out that by (auto simp: bytes_array_def)
  have pos: "0 < arcs w1 f" if "f \<in> set (pt_frames pt)" for f
    by (rule frame_moved_pos [OF L(1)]) (use that fr(2,3) pt_wfD(6) [OF I(2) that] in \<open>auto simp: resident_def\<close>)
  note T = pt_same_frames [OF I(2) world_invD(1) [OF inv1] L(4) sub pos same]
  have un: "resident (lm_frames (ma_inner ma) ! ?i) = None" using fr by simp
  have free1: "2 \<le> km_free w1" using free L(2) by simp
  from install_page [OF inv V(1) un inv1 T R(1) out free1, of oom "ma_map_perm ma" env]
  obtain pt' w' where m: "sv39_map oom v p (ma_map_perm ma) pt w1 = Some (pt', w')"
    "\<forall>lm'. lm_range lm' = lm_range (ma_inner ma) \<longrightarrow> lm_frames lm' = (lm_frames (ma_inner ma))[?i := InMemory p] \<longrightarrow>
       area_inv lo N pt' w' (ma\<lparr>ma_inner := lm'\<rparr>)"
    "\<forall>u. find_pte pt' w' u = (if vpn_key u = vpn_key v
       then Some (pte_new p (ma_map_perm ma OR PTE_V OR PTE_A OR PTE_D)) else find_pte pt w u)"
    "\<forall>g \<in># add_mset (InMemory p) (other_frames ?i N ma). frame_content env w' g = frame_content env w1 g"
    unfolding V(2) by blast
  have "Some (bytes_array p w') = frame_content env w fr" using m(4) c1 by (simp add: frame_content_def)
  moreover have "\<forall>g \<in># other_frames ?i N ma. frame_content env w' g = frame_content env w g"
    using m(4) R(2) by simp
  moreover have "arcs w p = 0" using L(1) by (simp add: frame_moved_def)
  ultimately show ?thesis using m(1-3) by (simp add: page_in_def)
qed

lemma fault_anonymous_ok:
  fixes w :: "('d, 'z) world"
  assumes env: "env_ok env" and inv: "area_inv lo N pt w ma"
    and v: "lm_in_range (ma_inner ma) v" "v = va_floor addr"
    and fr: "fr = lm_frames (ma_inner ma) ! lm_index v (ma_inner ma)" "resident fr = None"
    and anon: "ma_map_file ma = None" and view: "page_view env w ma fr = Some bs" and free: "3 \<le> km_free w"
  shows "\<exists>p ma' pt' w'. fault_anonymous env oom addr ma pt w =
      Some (Inr (ppn_offset p (va_page_offset addr)), ma', pt', w') \<and>
    page_in lo env v p N pt w ma pt' w' ma' \<and> bytes_array p w' = bs"
proof -
  note I = area_invD [OF inv]
  have get: "lm_get v (ma_inner ma) = Some fr"
    using lm_index_in_range [OF I(4) v(1)] fr(1) by (simp add: lm_get_def vec_get_def)
  have "fr \<in># mset (lm_frames (ma_inner ma)) + N"
    using lm_index_in_range(1) [OF I(4) v(1)] fr(1) by simp
  then have held: "frame_held w fr" by (rule frames_ref_held [OF I(6)])
  have load: ?thesis
    if "fr = Compressed k \<or> fr = SwappedOut k" "load_effect lo env fr w p w1"
      "\<And>pt' w'. sv39_map oom v p (ma_map_perm ma) pt w1 = Some (pt', w') \<Longrightarrow>
        \<exists>lm'. lm_range lm' = lm_range (ma_inner ma) \<and>
          lm_frames lm' = (lm_frames (ma_inner ma))[lm_index v (ma_inner ma) := InMemory p] \<and>
          fault_anonymous env oom addr ma pt w =
            Some (Inr (ppn_offset p (va_page_offset addr)), ma\<lparr>ma_inner := lm'\<rparr>, pt', w')" for k p w1
  proof -
    have ne: "fr \<noteq> Unallocated" using that(1) by auto
    from load_page [OF inv v(1) fr(1) [symmetric] ne fr(2) that(2) free, of oom] obtain pt' w' where
      m: "sv39_map oom v p (ma_map_perm ma) pt w1 = Some (pt', w')"
      "Some (bytes_array p w') = frame_content env w fr"
      "\<And>lm'. lm_range lm' = lm_range (ma_inner ma) \<Longrightarrow>
         lm_frames lm' = (lm_frames (ma_inner ma))[lm_index v (ma_inner ma) := InMemory p] \<Longrightarrow>
         page_in lo env v p N pt w ma pt' w' (ma\<lparr>ma_inner := lm'\<rparr>)" by blast
    have "bytes_array p w' = bs" using m(2) view ne by (simp add: page_view_def)
    with that(3) [OF m(1)] m(3) show ?thesis by blast
  qed
  show ?thesis
  proof (cases fr)
    case (InMemory p)
    then show ?thesis using fr(2) by (simp add: resident_def)
  next
    case Unallocated
    then have "bs = replicate 4096 0" using view anon by (simp add: page_view_def)
    with map_one_zeroed_ok [OF inv v(1) _ free, of env oom] Unallocated fr(1) get v(2) show ?thesis
      by (fastforce simp: fault_anonymous_def)
  next
    case (Compressed k)
    have c: "frame_content env w (Compressed k) = Some bs" using view Compressed by (simp add: page_view_def)
    have pos: "0 < zarcs w k" using held Compressed by (simp add: frame_held_def frame_count_def)
    have "0 < km_free w" using free by simp
    from unzip_frame_ok [OF I(1) this pos c, of oom] obtain p w1 where u:
      "unzip_frame env oom (Compressed k) w = Some (Inr p, InMemory p, w1)" "load_effect lo env (Compressed k) w p w1"
      by blast
    show ?thesis
    proof (rule load)
      fix pt' w' assume "sv39_map oom v p (ma_map_perm ma) pt w1 = Some (pt', w')"
      then show "\<exists>lm'. lm_range lm' = lm_range (ma_inner ma) \<and>
          lm_frames lm' = (lm_frames (ma_inner ma))[lm_index v (ma_inner ma) := InMemory p] \<and>
          fault_anonymous env oom addr ma pt w =
            Some (Inr (ppn_offset p (va_page_offset addr)), ma\<lparr>ma_inner := lm'\<rparr>, pt', w')"
        using get Compressed u(1) v(2)
        by (intro exI [of _ "(ma_inner ma)\<lparr>lm_frames := (lm_frames (ma_inner ma))[lm_index v (ma_inner ma) := InMemory p],
            lm_active := lm_active (ma_inner ma) @ [ucast (v - ma_get_start ma)],
            lm_compressed := lm_compressed (ma_inner ma) - 1\<rparr>"])
          (simp add: fault_anonymous_def fault_loaded_def Let_def)
    qed (use Compressed u in simp_all)
  next
    case (SwappedOut k)
    have pos: "0 < sarcs w k" using held SwappedOut by (simp add: frame_held_def frame_count_def)
    have "0 < km_free w" using free by simp
    from swap_in_ok [OF env I(1) this pos, of oom] obtain p w1 where u:
      "swap_in env oom (SwappedOut k) w = Some (Inr p, InMemory p, w1)" "load_effect lo env (SwappedOut k) w p w1"
      by blast
    show ?thesis
    proof (rule load)
      fix pt' w' assume "sv39_map oom v p (ma_map_perm ma) pt w1 = Some (pt', w')"
      then show "\<exists>lm'. lm_range lm' = lm_range (ma_inner ma) \<and>
          lm_frames lm' = (lm_frames (ma_inner ma))[lm_index v (ma_inner ma) := InMemory p] \<and>
          fault_anonymous env oom addr ma pt w =
            Some (Inr (ppn_offset p (va_page_offset addr)), ma\<lparr>ma_inner := lm'\<rparr>, pt', w')"
        using get SwappedOut u(1) v(2)
        by (intro exI [of _ "(ma_inner ma)\<lparr>lm_frames := (lm_frames (ma_inner ma))[lm_index v (ma_inner ma) := InMemory p],
            lm_active := lm_active (ma_inner ma) @ [ucast (v - ma_get_start ma)],
            lm_swapped := lm_swapped (ma_inner ma) - 1\<rparr>"])
          (simp add: fault_anonymous_def fault_loaded_def Let_def)
    qed (use SwappedOut u in simp_all)
  qed
qed

lemma space_view_area:
  assumes "disjoint_areas (xs @ ma # ys)" and "lm_in_range (ma_inner ma) v"
  shows "space_view env w (xs @ ma # ys) v = area_view env w ma v"
proof -
  have "\<not> lm_in_range (ma_inner a) v" if a: "a \<in> set xs" for a
  proof -
    have "area_keys a \<inter> area_keys ma = {}"
      using assms(1) a by (auto simp: disjoint_areas_def sorted_wrt_append)
    then show ?thesis using assms(2) by (auto simp: area_keys_def)
  qed
  then show ?thesis using assms(2) by (auto simp: space_view_append)
qed

text \<open>The area the handler finds, with the areas before and after it.\<close>

lemma faulting_split:
  assumes inv: "ms_inv lo M ms w" and i: "find_idx (faulting_area v) (ms_areas ms) = Some i"
  obtains xs ma ys where "ms_areas ms = xs @ ma # ys" "ma = ms_areas ms ! i" "length xs = i"
    "space_inv lo M (ms_page_table ms) (xs @ ma # ys) w"
    "\<And>a. (ms_areas ms)[i := a] = xs @ a # ys" "lm_in_range (ma_inner ma) v"
    "area_inv lo (space_frames (xs @ ys) + M) (ms_page_table ms) w ma"
    "ms_view env w ms v = page_view env w ma (lm_frames (ma_inner ma) ! lm_index v (ma_inner ma))"
    "sv39_translate (ms_page_table ms) w v = resident (lm_frames (ma_inner ma) ! lm_index v (ma_inner ma))"
proof -
  let ?A = "ms_areas ms"
  note F = find_idx_Some [OF i]
  define xs ys where "xs = take i ?A" and "ys = drop (Suc i) ?A"
  let ?ma = "?A ! i"
  have A: "?A = xs @ ?ma # ys" unfolding xs_def ys_def using F by (simp add: id_take_nth_drop)
  have inv': "space_inv lo M (ms_page_table ms) (xs @ ?ma # ys) w" using inv by (simp add: ms_inv_def flip: A)
  have v: "lm_in_range (ma_inner ?ma) v"
    using F by (simp add: faulting_area_def lm_in_range_def ma_get_start_def ma_get_end_def)
  note area = space_focus [OF inv']
  note idx = lm_index_in_range [OF area_invD(4) [OF area] v]
  have "ms_view env w ms v = area_view env w ?ma v"
    unfolding ms_view_def by (subst A) (rule space_view_area [OF space_invD(6) [OF inv'] v])
  moreover have "sv39_translate (ms_page_table ms) w v = resident (lm_frames (ma_inner ?ma) ! lm_index v (ma_inner ?ma))"
    using area_invD(8) [OF area idx(1)] idx(2) by simp
  moreover have "?A[i := a] = xs @ a # ys" for a
    unfolding xs_def ys_def using F by (simp add: upd_conv_take_nth_drop)
  moreover have "length xs = i" unfolding xs_def using F by simp
  ultimately show ?thesis using that [OF A refl _ inv' _ v area] v by (simp add: area_view_def)
qed

lemma fault_lazy_ok:
  fixes w :: "('d, 'z) world"
  assumes env: "env_ok env" and inv: "ms_inv lo M ms w"
    and i: "find_idx (faulting_area (va_floor addr)) (ms_areas ms) = Some i"
    and anon: "ma_map_file (ms_areas ms ! i) = None"
    and un: "\<not> sv39_is_mapped (ms_page_table ms) w (va_floor addr)"
    and view: "ms_view env w ms (va_floor addr) = Some bs" and free: "3 \<le> km_free w"
  shows "\<exists>p ms' w'. do_page_fault env fops oom addr ms w =
      Some (Inr (ppn_offset p (va_page_offset addr)), ms', w') \<and>
    fault_effect lo env M (va_floor addr) p ms w ms' w' \<and>
    find_pte (ms_page_table ms') w' (va_floor addr) =
      Some (pte_new p (ma_map_perm (ms_areas ms ! i) OR PTE_V OR PTE_A OR PTE_D))"
proof -
  let ?v = "va_floor addr"
  obtain xs ma ys where S: "ms_areas ms = xs @ ma # ys" "ma = ms_areas ms ! i"
    "space_inv lo M (ms_page_table ms) (xs @ ma # ys) w"
    "\<And>a. (ms_areas ms)[i := a] = xs @ a # ys" "lm_in_range (ma_inner ma) ?v"
    "area_inv lo (space_frames (xs @ ys) + M) (ms_page_table ms) w ma"
    "ms_view env w ms ?v = page_view env w ma (lm_frames (ma_inner ma) ! lm_index ?v (ma_inner ma))"
    "sv39_translate (ms_page_table ms) w ?v = resident (lm_frames (ma_inner ma) ! lm_index ?v (ma_inner ma))"
    using faulting_split [OF inv i, of env] by metis
  have res: "resident (lm_frames (ma_inner ma) ! lm_index ?v (ma_inner ma)) = None"
    using un S(8) by (simp add: sv39_is_mapped_iff sv39_translate_def)
  from fault_anonymous_ok [OF env S(6,5) refl refl res _ _ free, of bs oom] anon view S(2,7)
  obtain p ma' pt' w' where f: "fault_anonymous env oom addr ma (ms_page_table ms) w =
      Some (Inr (ppn_offset p (va_page_offset addr)), ma', pt', w')"
    "page_in lo env ?v p (space_frames (xs @ ys) + M) (ms_page_table ms) w ma pt' w' ma'" "bytes_array p w' = bs"
    by auto
  let ?ms = "ms\<lparr>ms_page_table := pt', ms_areas := xs @ ma' # ys\<rparr>"
  have "do_page_fault env fops oom addr ms w = Some (Inr (ppn_offset p (va_page_offset addr)), ?ms, w')"
    using i un anon f(1) by (simp add: do_page_fault_def Let_def S(4) flip: S(2))
  moreover have "fault_effect lo env M ?v p ms w ?ms w'"
    by (rule page_in_space [OF S(3,1,5) f(2) _ refl]) (use f(3) view S(7) in simp)
  moreover have "find_pte pt' w' ?v = Some (pte_new p (ma_map_perm ma OR PTE_V OR PTE_A OR PTE_D))"
    using f(2) by (simp add: page_in_def)
  ultimately show ?thesis using S(2) by auto
qed

text \<open>A write fault on a page that is mapped ends with a frame that the space alone refers to.\<close>

lemma fault_write_ok:
  fixes w :: "('d, 'z) world"
  assumes inv: "ms_inv lo M ms w"
    and i: "find_idx (faulting_area (va_floor addr)) (ms_areas ms) = Some i"
    and perm: "\<not> ma_writable_stripped (ms_areas ms ! i)"
    and mapped: "sv39_is_mapped (ms_page_table ms) w (va_floor addr)" and free: "3 \<le> km_free w"
  shows "\<exists>p ms' w'. do_page_fault env fops oom addr ms w =
      Some (Inr (ppn_offset p (va_page_offset addr)), ms', w') \<and>
    fault_effect lo env M (va_floor addr) p ms w ms' w' \<and> arcs w' p = 1 \<and>
    (\<exists>e. find_pte (ms_page_table ms') w' (va_floor addr) = Some (pte_set_permission (ma_map_perm (ms_areas ms ! i)) e) \<or>
         find_pte (ms_page_table ms') w' (va_floor addr) =
           Some (pte_new p (ma_map_perm (ms_areas ms ! i) OR PTE_V OR PTE_A OR PTE_D)))"
proof -
  let ?v = "va_floor addr" and ?pt = "ms_page_table ms"
  obtain xs ma ys where S: "ms_areas ms = xs @ ma # ys" "ma = ms_areas ms ! i"
    "space_inv lo M ?pt (xs @ ma # ys) w"
    "\<And>a. (ms_areas ms)[i := a] = xs @ a # ys" "lm_in_range (ma_inner ma) ?v"
    "area_inv lo (space_frames (xs @ ys) + M) ?pt w ma"
    "ms_view env w ms ?v = page_view env w ma (lm_frames (ma_inner ma) ! lm_index ?v (ma_inner ma))"
    "sv39_translate ?pt w ?v = resident (lm_frames (ma_inner ma) ! lm_index ?v (ma_inner ma))"
    using faulting_split [OF inv i, of env] by metis
  let ?N = "space_frames (xs @ ys) + M"
  from mapped obtain p where fr: "lm_frames (ma_inner ma) ! lm_index ?v (ma_inner ma) = InMemory p"
    using S(8) by (auto simp: sv39_is_mapped_iff sv39_translate_def resident_def split: frame.splits)
  have eq: "do_page_fault env fops oom addr ms w =
      Some (Inr (ppn_offset q (va_page_offset addr)), ms\<lparr>ms_page_table := pt', ms_areas := xs @ ma' # ys\<rparr>, w')"
    if "copy_on_write env oom ?v ma ?pt w = Some (Inr q, ma', pt', w')" for q ma' pt' w'
    using i mapped perm that area_invD(3) [OF S(6)]
    by (simp add: do_page_fault_def fault_mapped_def Let_def S(4) flip: S(2))
  show ?thesis
  proof (cases "arcs w p = 1")
    case True
    from cow_sole [OF S(6,5) fr True, of env oom] obtain ma' w' e where c:
      "copy_on_write env oom ?v ma ?pt w = Some (Inr p, ma', ?pt, w')" "area_inv lo ?N ?pt w' ma'"
      "lm_range (ma_inner ma') = lm_range (ma_inner ma)" "lm_frames (ma_inner ma') = lm_frames (ma_inner ma)"
      "ma_map_file ma' = ma_map_file ma" "arcs w' = arcs w" "find_pte ?pt w ?v = Some e"
      "\<And>u. find_pte ?pt w' u = (if vpn_key u = vpn_key ?v then Some (pte_set_permission (ma_map_perm ma) e)
                                else find_pte ?pt w u)"
      "\<And>g. g \<in># mset (lm_frames (ma_inner ma)) + ?N \<Longrightarrow> frame_content env w' g = frame_content env w g" by blast
    let ?ms = "ms\<lparr>ms_page_table := ?pt, ms_areas := xs @ ma' # ys\<rparr>"
    have key: "vpn_key ?v \<in> area_keys ma" unfolding area_keys_def using S(5) by blast
    have "space_inv lo M ?pt (xs @ ma' # ys) w'"
      using area_keys_cong [OF c(3)] c(8) key by (intro space_update [OF S(3) c(2)]) auto
    moreover have "space_view env w' (xs @ ma' # ys) = space_view env w (xs @ ma # ys)"
    proof (rule space_view_update [OF area_view_cong c(3)])
      fix j assume "j < length (lm_frames (ma_inner ma))"
      then have "lm_frames (ma_inner ma) ! j \<in># mset (lm_frames (ma_inner ma)) + ?N" by simp
      then show "page_view env w' ma' (lm_frames (ma_inner ma') ! j) = page_view env w ma (lm_frames (ma_inner ma) ! j)"
        using c(9) by (simp add: page_view_def c(4,5))
    next
      fix a assume "a \<in> set xs \<union> set ys"
      then show "area_view env w' a = area_view env w a"
        using c(9) by (intro rest_view [OF S(3)]) auto
    qed (use c(3) area_invD(4) [OF S(6)] in simp_all)
    moreover have "frame_content env w' (InMemory p) = frame_content env w (InMemory p)"
      using c(9) lm_index_in_range(1) [OF area_invD(4) [OF S(6)] S(5)] by (simp flip: fr)
    moreover have "sv39_translate ?pt w' ?v = Some p"
      using S(8) c(7,8) fr by (simp add: sv39_translate_def resident_def)
    moreover have "pte_step M ms w ?ms w'"
    proof (rule pte_step_one)
      show "sv39_translate (ms_page_table ?ms) w' ?v = Some p"
        using S(8) c(7,8) fr by (simp add: sv39_translate_def resident_def)
      show "count (space_frames (ms_areas ?ms) + M) (InMemory p) \<le> 1"
        using frames_ref_one [OF space_invD(3) [OF S(3)] True] c(4) by (simp add: area_frames_def)
    qed (use S(1) key area_keys_cong [OF c(3)] c(8) in simp_all)
    ultimately have "fault_effect lo env M ?v p ms w ?ms w'"
      using S(1,7) fr c(4,9)
      by (simp add: fault_effect_def space_step_def ms_inv_def area_frames_def
          page_view_def frame_content_def ms_view_def)
    then show ?thesis using eq [OF c(1)] True c(6,8) S(2)
      by (intro exI [of _ p] exI [of _ ?ms] exI [of _ w']) auto
  next
    case False
    from cow_shared [OF S(6,5) fr False free, of env oom] obtain q ma' pt' w' where c:
      "copy_on_write env oom ?v ma ?pt w = Some (Inr q, ma', pt', w')"
      "page_in lo env ?v q ?N ?pt w ma pt' w' ma'" "bytes_array q w' = bytes_array p w" "arcs w' q = 1" by blast
    let ?ms = "ms\<lparr>ms_page_table := pt', ms_areas := xs @ ma' # ys\<rparr>"
    have "fault_effect lo env M ?v q ms w ?ms w'"
      by (rule page_in_space [OF S(3,1,5) c(2) _ refl]) (simp add: c(3) fr page_view_def frame_content_def)
    moreover have "find_pte pt' w' ?v = Some (pte_new q (ma_map_perm ma OR PTE_V OR PTE_A OR PTE_D))"
      using c(2) by (simp add: page_in_def)
    ultimately show ?thesis using eq [OF c(1)] c(4) S(2)
      by (intro exI [of _ q] exI [of _ ?ms] exI [of _ w']) auto
  qed
qed

section \<open>Reclaiming memory\<close>

text \<open>
  The effect of reclaiming on the space: invariant and view are kept, and so are the frames
  outside.
\<close>

definition clean_effect ::
  "usize \<Rightarrow> 'd kenv \<Rightarrow> frame multiset \<Rightarrow> sv39 \<Rightarrow> 'f map_area list \<Rightarrow> ('d, 'z) world \<Rightarrow> 'f map_area list \<Rightarrow>
   ('d, 'z) world \<Rightarrow> bool" where
  "clean_effect lo env M pt areas w areas' w' \<longleftrightarrow>
     space_inv lo M pt areas' w' \<and> space_view env w' areas' = space_view env w areas \<and>
     map (\<lambda>ma. lm_range (ma_inner ma)) areas' = map (\<lambda>ma. lm_range (ma_inner ma)) areas \<and>
     (\<forall>g \<in># M. frame_content env w' g = frame_content env w g) \<and>
     (\<forall>p. count (space_frames areas') (InMemory p) \<le> count (space_frames areas) (InMemory p)) \<and>
     (\<forall>u. find_pte pt w' u = find_pte pt w u \<or> find_pte pt w' u = None)"

lemma clean_effect_trans:
  "clean_effect lo env M pt areas w areas1 w1 \<Longrightarrow> clean_effect lo env M pt areas1 w1 areas2 w2 \<Longrightarrow>
   clean_effect lo env M pt areas w areas2 w2"
  unfolding clean_effect_def by (intro conjI allI ballI) (simp_all, blast intro: order_trans, metis)

text \<open>Pages that leave the memory take their references with them.\<close>

lemma count_resident_le:
  assumes "length gs = length fs"
    and "\<And>j. j < length fs \<Longrightarrow> gs ! j = fs ! j \<or> resident (gs ! j) = None"
  shows "count (mset gs) (InMemory p) \<le> count (mset fs) (InMemory p)"
proof -
  have "list_all2 (\<lambda>g f. g = f \<or> resident g = None) gs fs" using assms by (simp add: list_all2_conv_all_nth)
  then show ?thesis by (induction rule: list_all2_induct) (auto simp: resident_def)
qed

lemma reclaim_effectD:
  "reclaim_effect lo env M pt w ma w' ma' \<Longrightarrow> area_inv lo M pt w' ma'"
  "reclaim_effect lo env M pt w ma w' ma' \<Longrightarrow> lm_range (ma_inner ma') = lm_range (ma_inner ma)"
  "reclaim_effect lo env M pt w ma w' ma' \<Longrightarrow> ma_map_file ma' = ma_map_file ma"
  "reclaim_effect lo env M pt w ma w' ma' \<Longrightarrow> length (lm_frames (ma_inner ma')) = length (lm_frames (ma_inner ma))"
  "reclaim_effect lo env M pt w ma w' ma' \<Longrightarrow> \<forall>j < length (lm_frames (ma_inner ma)).
      frame_content env w' (lm_frames (ma_inner ma') ! j) = frame_content env w (lm_frames (ma_inner ma) ! j) \<and>
      (lm_frames (ma_inner ma') ! j = lm_frames (ma_inner ma) ! j \<or>
       resident (lm_frames (ma_inner ma) ! j) \<noteq> None \<and> resident (lm_frames (ma_inner ma') ! j) = None)"
  "reclaim_effect lo env M pt w ma w' ma' \<Longrightarrow> \<forall>g \<in># M. frame_content env w' g = frame_content env w g"
  "reclaim_effect lo env M pt w ma w' ma' \<Longrightarrow> \<forall>u. vpn_key u \<notin> area_keys ma \<longrightarrow> find_pte pt w' u = find_pte pt w u"
  "reclaim_effect lo env M pt w ma w' ma' \<Longrightarrow> \<forall>u. find_pte pt w' u = find_pte pt w u \<or> find_pte pt w' u = None"
  unfolding reclaim_effect_def by (elim conjE, assumption)+

lemma reclaim_space:
  assumes inv: "space_inv lo M pt (xs @ ma # ys) w"
    and r: "reclaim_effect lo env (space_frames (xs @ ys) + M) pt w ma w' ma'"
  shows "clean_effect lo env M pt (xs @ ma # ys) w (xs @ ma' # ys) w'"
  unfolding clean_effect_def
proof (intro conjI)
  note D = reclaim_effectD [OF r]
  note R = D(1-3) D(5) [rule_format] D(6) [rule_format] D(7) [rule_format]
  show "space_inv lo M pt (xs @ ma' # ys) w'"
    using area_keys_cong [OF R(2)] by (intro space_update [OF inv R(1) _ R(6)]) auto
  show "space_view env w' (xs @ ma' # ys) = space_view env w (xs @ ma # ys)"
  proof (rule space_view_update [OF area_view_cong R(2)])
    fix j assume j: "j < length (lm_frames (ma_inner ma))"
    have "lm_frames (ma_inner ma') ! j \<noteq> Unallocated" if "resident (lm_frames (ma_inner ma) ! j) \<noteq> None"
      using R(4) [OF j] that by (auto simp: frame_content_def resident_def split: frame.splits)
    then show "page_view env w' ma' (lm_frames (ma_inner ma') ! j) = page_view env w ma (lm_frames (ma_inner ma) ! j)"
      using R(4) [OF j] by (auto simp: page_view_def R(3) resident_def)
  next
    show "area_view env w' a = area_view env w a" if "a \<in> set xs \<union> set ys" for a
      by (rule rest_view [OF inv R(5) that])
  qed (use R(2) area_invD(4) [OF space_focus [OF inv]] in simp_all)
  show "map (\<lambda>ma. lm_range (ma_inner ma)) (xs @ ma' # ys) = map (\<lambda>ma. lm_range (ma_inner ma)) (xs @ ma # ys)"
    using R(2) by simp
  show "\<forall>g \<in># M. frame_content env w' g = frame_content env w g" using R(5) by simp
  have "count (area_frames ma') (InMemory p) \<le> count (area_frames ma) (InMemory p)" for p
    unfolding area_frames_def by (rule count_resident_le [OF D(4)]) (drule R(4), elim conjE disjE, simp_all)
  then show "\<forall>p. count (space_frames (xs @ ma' # ys)) (InMemory p) \<le> count (space_frames (xs @ ma # ys)) (InMemory p)" by simp
  show "\<forall>u. find_pte pt w' u = find_pte pt w u \<or> find_pte pt w' u = None"
    by (rule D(8))
qed

text \<open>The pages of a space that are in memory.\<close>

definition space_residents :: "'f map_area list \<Rightarrow> nat" where
  "space_residents areas = (\<Sum>ma \<leftarrow> areas. residents (lm_frames (ma_inner ma)))"

lemma space_residents_simps [simp]:
  "space_residents [] = 0"
  "space_residents (ma # areas) = residents (lm_frames (ma_inner ma)) + space_residents areas"
  by (simp_all add: space_residents_def)

text \<open>A space has at most as many pages as the page table has keys.\<close>

lemma card_area_keys:
  assumes "area_ok pt w ma"
  shows "card (area_keys ma) = length (lm_frames (ma_inner ma))" "area_keys ma \<subseteq> {k. unat k < 2 ^ 27}"
proof -
  have wf: "lm_wf (ma_inner ma)" and len: "length (lm_frames (ma_inner ma)) \<le> 2 ^ 27" using assms by (simp_all add: area_ok_def)
  let ?k = "\<lambda>i. vpn_key (lm_vpn (ma_inner ma) i)" and ?I = "{..<length (lm_frames (ma_inner ma))}"
  have "area_keys ma = ?k ` ?I"
  proof
    show "area_keys ma \<subseteq> ?k ` ?I"
    proof
      fix k assume "k \<in> area_keys ma"
      then obtain v where v: "lm_in_range (ma_inner ma) v" "k = vpn_key v" by (auto simp: area_keys_def)
      then have "k = ?k (lm_index v (ma_inner ma))" "lm_index v (ma_inner ma) \<in> ?I" using lm_index_in_range [OF wf v(1)] by simp_all
      then show "k \<in> ?k ` ?I" by (rule image_eqI)
    qed
  qed (use area_keys_vpn [OF wf] in auto)
  moreover have "inj_on ?k ?I" using lm_keys [OF wf len] by (auto simp: inj_on_def)
  ultimately show "card (area_keys ma) = length (lm_frames (ma_inner ma))" by (simp add: card_image)
  have "unat (vpn_key v) < 2 ^ 27" for v unfolding vpn_key_def unsigned_take_bit_eq by (simp add: take_bit_eq_mod)
  then show "area_keys ma \<subseteq> {k. unat k < 2 ^ 27}" unfolding area_keys_def by auto
qed

lemma card_unat: "card {k :: usize. unat k < n} \<le> n"
proof -
  have "card {k :: usize. unat k < n} \<le> card {..<n}"
    by (rule card_inj_on_le [of unat]) (auto intro!: inj_onI unsigned_word_eqI)
  then show ?thesis by simp
qed

lemma space_residents_keys:
  assumes "\<forall>ma \<in> set areas. area_ok pt w ma" and "disjoint_areas areas"
  shows "space_residents areas \<le> card (areas_keys areas) \<and> areas_keys areas \<subseteq> {k. unat k < 2 ^ 27}"
  using assms
proof (induction areas)
  case (Cons ma as)
  then have IH: "space_residents as \<le> card (areas_keys as)" "areas_keys as \<subseteq> {k. unat k < 2 ^ 27}"
    by (simp_all add: disjoint_areas_def)
  have ok: "area_ok pt w ma" using Cons.prems by simp
  note A = card_area_keys [OF ok]
  have "area_keys ma \<inter> areas_keys as = {}" using Cons.prems(2) by (auto simp: disjoint_areas_def areas_keys_def)
  then have "card (areas_keys (ma # as)) = length (lm_frames (ma_inner ma)) + card (areas_keys as)"
    using A(1) card_Un_disjoint [OF finite finite, of "area_keys ma" "areas_keys as"] by simp
  moreover have "areas_keys (ma # as) \<subseteq> {k. unat k < 2 ^ 27}"
    unfolding areas_keys_simps by (rule Un_least [OF A(2) IH(2)])
  ultimately show ?case using IH(1) residents_le [of "lm_frames (ma_inner ma)"] by simp
qed simp

lemma space_residents_bound:
  assumes "space_inv lo M pt areas w"
  shows "space_residents areas \<le> 2 ^ 27"
proof -
  have K: "space_residents areas \<le> card (areas_keys areas) \<and> areas_keys areas \<subseteq> {k. unat k < 2 ^ 27}"
    by (rule space_residents_keys) (use space_invD(5,6) [OF assms] in blast)+
  have "card (areas_keys areas) \<le> card {k :: usize. unat k < 2 ^ 27}"
    by (rule card_mono [OF finite conjunct2 [OF K]])
  then show ?thesis using conjunct1 [OF K] card_unat [of "2 ^ 27"] by (meson order_trans)
qed

text \<open>
  A routine that reclaims pages of one area. It reports the \<open>m\<close> pages that left the memory
  when \<open>n\<close> frames came free; \<open>rel\<close> relates the two.
\<close>

locale area_cleaner =
  fixes env :: "'d kenv" and pt :: sv39
    and clean :: "'f map_area \<Rightarrow> ('d, 'z) world \<Rightarrow> (usize \<times> 'f map_area \<times> ('d, 'z) world) option"
    and rel :: "nat \<Rightarrow> nat \<Rightarrow> bool"
  assumes clean_ok: "env_ok env \<Longrightarrow> area_inv lo N pt w ma \<Longrightarrow>
      \<exists>ma' w' n m. clean ma w = Some (of_nat m, ma', w') \<and> reclaim_effect lo env N pt w ma w' ma' \<and>
        km_free w' = km_free w + n \<and> rel n m \<and>
        residents (lm_frames (ma_inner ma')) + m = residents (lm_frames (ma_inner ma))"
    and rel_zero: "rel 0 0"
    and rel_add: "rel n m \<Longrightarrow> rel n' m' \<Longrightarrow> rel (n + n') (m + m')"
begin

lemma areas_ok:
  assumes env: "env_ok env"
  shows "space_inv lo M pt (xs @ areas) w \<Longrightarrow>
    \<exists>areas' w' n m. clean_areas p clean areas w = Some (of_nat m, areas', w') \<and>
      clean_effect lo env M pt (xs @ areas) w (xs @ areas') w' \<and> km_free w' = km_free w + n \<and> rel n m \<and>
      space_residents areas' + m = space_residents areas"
proof (induction areas arbitrary: xs w)
  case Nil
  then show ?case using rel_zero
    by (intro exI [of _ "[]"] exI [of _ w] exI [of _ 0]) (simp add: clean_effect_def)
next
  case (Cons ma areas)
  obtain ma1 w1 n1 m1 where 1:
    "(if p ma then clean ma w else Some (0, ma, w)) = Some (of_nat m1, ma1, w1)"
    "clean_effect lo env M pt (xs @ ma # areas) w (xs @ ma1 # areas) w1" "km_free w1 = km_free w + n1" "rel n1 m1"
    "residents (lm_frames (ma_inner ma1)) + m1 = residents (lm_frames (ma_inner ma))"
  proof (cases "p ma")
    case True
    from clean_ok [OF env space_focus [OF Cons.prems]] obtain ma1 w1 n1 m1 where
      "clean ma w = Some (of_nat m1, ma1, w1)" "reclaim_effect lo env (space_frames (xs @ areas) + M) pt w ma w1 ma1"
      "km_free w1 = km_free w + n1" "rel n1 m1"
      "residents (lm_frames (ma_inner ma1)) + m1 = residents (lm_frames (ma_inner ma))" by blast
    then show thesis using that [of m1 ma1 w1 n1] True reclaim_space [OF Cons.prems] by simp
  next
    case False
    then show thesis using that [of 0 ma w 0] Cons.prems rel_zero by (simp add: clean_effect_def)
  qed
  from 1(2) have "space_inv lo M pt ((xs @ [ma1]) @ areas) w1" by (simp add: clean_effect_def)
  from Cons.IH [OF this] obtain areas2 w2 n2 m2 where 2:
    "clean_areas p clean areas w1 = Some (of_nat m2, areas2, w2)"
    "clean_effect lo env M pt ((xs @ [ma1]) @ areas) w1 ((xs @ [ma1]) @ areas2) w2"
    "km_free w2 = km_free w1 + n2" "rel n2 m2" "space_residents areas2 + m2 = space_residents areas" by blast
  have "clean_effect lo env M pt (xs @ ma # areas) w (xs @ ma1 # areas2) w2"
    by (rule clean_effect_trans [OF 1(2)]) (use 2(2) in simp)
  then show ?case using 1(1,3,5) 2(1,3,5) rel_add [OF 1(4) 2(4)]
    by (intro exI [of _ "ma1 # areas2"] exI [of _ w2] exI [of _ "n1 + n2"] exI [of _ "m1 + m2"]) simp
qed

end

interpretation shallow_cleaner: area_cleaner env pt "\<lambda>ma w. ma_do_oom env ma pt w" "(=)"
  for env :: "'d kenv" and pt
proof unfold_locales
  fix lo N and w :: "('d, 'z) world" and ma :: "'f map_area"
  assume "env_ok env" "area_inv lo N pt w ma"
  from ma_do_oom_ok [OF this]
  show "\<exists>ma' w' n m. ma_do_oom env ma pt w = Some (of_nat m, ma', w') \<and> reclaim_effect lo env N pt w ma w' ma' \<and>
      km_free w' = km_free w + n \<and> n = m \<and>
      residents (lm_frames (ma_inner ma')) + m = residents (lm_frames (ma_inner ma))" by blast
qed simp_all

lemma deep_clean_one_ok:
  fixes w :: "('d, 'z) world"
  assumes "env_ok env" "area_inv lo N pt w ma"
  shows "\<exists>ma' w' n m. (if ma_get_start ma < drop_bit PAGE_SIZE_BITS MMAP_BASE then ma_force_swap env ma pt w
      else ma_do_oom env ma pt w) = Some (of_nat m, ma', w') \<and>
    reclaim_effect lo env N pt w ma w' ma' \<and> km_free w' = km_free w + n \<and> n \<le> m \<and>
    residents (lm_frames (ma_inner ma')) + m = residents (lm_frames (ma_inner ma))"
proof (cases "ma_get_start ma < drop_bit PAGE_SIZE_BITS MMAP_BASE")
  case True
  then show ?thesis using ma_force_swap_ok [OF assms] by simp
next
  case False
  obtain ma' w' n where "ma_do_oom env ma pt w = Some (of_nat n, ma', w')" "reclaim_effect lo env N pt w ma w' ma'"
    "km_free w' = km_free w + n" "residents (lm_frames (ma_inner ma')) + n = residents (lm_frames (ma_inner ma))"
    using ma_do_oom_ok [OF assms] by blast
  then show ?thesis using False by (intro exI [of _ ma'] exI [of _ w'] exI [of _ n]) simp
qed

interpretation deep_cleaner: area_cleaner env pt
  "\<lambda>ma w. if ma_get_start ma < drop_bit PAGE_SIZE_BITS MMAP_BASE then ma_force_swap env ma pt w else ma_do_oom env ma pt w"
  "(\<le>)" for env pt
  by unfold_locales (erule (1) deep_clean_one_ok, simp_all)

lemma areas_keys_cong:
  "map (\<lambda>ma. lm_range (ma_inner ma)) areas' = map (\<lambda>ma. lm_range (ma_inner ma)) areas \<Longrightarrow>
   areas_keys areas' = areas_keys areas"
  by (induction areas' areas rule: list_induct2') (simp_all, metis area_keys_cong)

lemma clean_step:
  assumes "clean_effect lo env M (ms_page_table ms) (ms_areas ms) w (ms_areas ms') w'"
    and "ms_page_table ms' = ms_page_table ms"
  shows "space_step lo env M ms w ms' w'" "ms_view env w' ms' = ms_view env w ms" "pte_step M ms w ms' w'"
proof -
  show "space_step lo env M ms w ms' w'" "ms_view env w' ms' = ms_view env w ms"
    using assms by (simp_all add: clean_effect_def space_step_def ms_inv_def fresh_frames_def ms_view_def)
  have "map (\<lambda>ma. lm_range (ma_inner ma)) (ms_areas ms') = map (\<lambda>ma. lm_range (ma_inner ma)) (ms_areas ms)"
    using assms(1) by (simp add: clean_effect_def)
  then have "areas_keys (ms_areas ms') = areas_keys (ms_areas ms)"
    by (rule areas_keys_cong)
  then show "pte_step M ms w ms' w'"
    using assms unfolding clean_effect_def pte_step_def by (metis option.distinct(1))
qed

lemma unat_residents:
  "space_inv lo M pt areas w \<Longrightarrow> n + m = space_residents areas \<Longrightarrow> unat (of_nat m :: usize) = m"
  using space_residents_bound [of lo M pt areas w] by (simp add: unat_of_nat take_bit_eq_mod)

lemma do_shallow_clean_ok:
  fixes w :: "('d, 'z) world"
  assumes env: "env_ok env" and inv: "ms_inv lo M ms w"
  shows "\<exists>ms' w' r. do_shallow_clean env ms w = Some (r, ms', w') \<and>
    clean_effect lo env M (ms_page_table ms) (ms_areas ms) w (ms_areas ms') w' \<and>
    ms_page_table ms' = ms_page_table ms \<and> km_free w' = km_free w + unat r \<and>
    space_residents (ms_areas ms') + unat r = space_residents (ms_areas ms)"
proof -
  let ?p = "\<lambda>area. ma_get_start area \<ge> drop_bit PAGE_SIZE_BITS MMAP_BASE \<and>
    ma_get_start area < drop_bit PAGE_SIZE_BITS TASK_SIZE \<and> ma_map_file area = None"
  have inv': "space_inv lo M (ms_page_table ms) ([] @ ms_areas ms) w" using inv by (simp add: ms_inv_def)
  from shallow_cleaner.areas_ok [OF env inv', of ?p] obtain areas' w' n where
    "clean_areas ?p (\<lambda>area w. ma_do_oom env area (ms_page_table ms) w) (ms_areas ms) w = Some (of_nat n, areas', w')"
    "clean_effect lo env M (ms_page_table ms) (ms_areas ms) w areas' w'" "km_free w' = km_free w + n"
    "space_residents areas' + n = space_residents (ms_areas ms)" by auto
  then show ?thesis using unat_residents [OF inv [unfolded ms_inv_def]]
    by (intro exI [of _ "ms\<lparr>ms_areas := areas'\<rparr>"] exI [of _ w'] exI [of _ "of_nat n"]) (simp add: do_shallow_clean_def)
qed

lemma do_deep_clean_ok:
  fixes w :: "('d, 'z) world"
  assumes env: "env_ok env" and inv: "ms_inv lo M ms w"
  shows "\<exists>ms' w' n r. do_deep_clean env ms w = Some (r, ms', w') \<and>
    clean_effect lo env M (ms_page_table ms) (ms_areas ms) w (ms_areas ms') w' \<and>
    ms_page_table ms' = ms_page_table ms \<and> km_free w' = km_free w + n \<and> n \<le> unat r \<and>
    space_residents (ms_areas ms') + unat r = space_residents (ms_areas ms)"
proof -
  let ?p = "\<lambda>area. ma_get_start area < drop_bit PAGE_SIZE_BITS TASK_SIZE \<and> ma_map_file area = None"
  have inv': "space_inv lo M (ms_page_table ms) ([] @ ms_areas ms) w" using inv by (simp add: ms_inv_def)
  from deep_cleaner.areas_ok [OF env inv', of ?p] obtain areas' w' n m where
    "clean_areas ?p (\<lambda>area w. if ma_get_start area < drop_bit PAGE_SIZE_BITS MMAP_BASE
       then ma_force_swap env area (ms_page_table ms) w else ma_do_oom env area (ms_page_table ms) w) (ms_areas ms) w =
     Some (of_nat m, areas', w')"
    "clean_effect lo env M (ms_page_table ms) (ms_areas ms) w areas' w'" "km_free w' = km_free w + n" "n \<le> m"
    "space_residents areas' + m = space_residents (ms_areas ms)" by auto
  then show ?thesis using unat_residents [OF inv [unfolded ms_inv_def]]
    by (intro exI [of _ "ms\<lparr>ms_areas := areas'\<rparr>"] exI [of _ w'] exI [of _ n] exI [of _ "of_nat m"])
      (simp add: do_deep_clean_def)
qed

end
