(* ===== verification/Mm_System.thy ===== *)
theory Mm_System
  imports Mm_Space
begin

text \<open>
  Several address spaces over one physical memory. The invariant counts the references of all
  spaces together and keeps their page tables apart. What one process does to its space through
  an operation that respects \<open>space_step\<close> leaves the invariant of the system and the view of
  every other process as they are.
\<close>

section \<open>Definitions\<close>

definition all_frames :: "'f memory_set list \<Rightarrow> frame multiset" where
  "all_frames spaces = sum_list (map (\<lambda>ms. space_frames (ms_areas ms)) spaces)"

definition all_tables :: "'f memory_set list \<Rightarrow> frame multiset" where
  "all_tables spaces = sum_list (map (\<lambda>ms. mset_set (table_frames (ms_page_table ms))) spaces)"

text \<open>All that the listed spaces hold.\<close>

definition held_by :: "'f memory_set list \<Rightarrow> frame multiset" where
  "held_by spaces = all_frames spaces + all_tables spaces"

definition space_ok :: "usize \<Rightarrow> frame multiset \<Rightarrow> ('d, 'z) world \<Rightarrow> 'f memory_set \<Rightarrow> bool" where
  "space_ok lo F w ms \<longleftrightarrow>
     pt_wf lo (ms_page_table ms) w \<and> set_mset F \<inter> table_frames (ms_page_table ms) = {} \<and>
     (\<forall>ma \<in> set (ms_areas ms). area_ok (ms_page_table ms) w ma) \<and> disjoint_areas (ms_areas ms)"

definition disjoint_tables :: "'f memory_set list \<Rightarrow> bool" where
  "disjoint_tables spaces \<longleftrightarrow>
     sorted_wrt (\<lambda>a b. table_frames (ms_page_table a) \<inter> table_frames (ms_page_table b) = {}) spaces"

definition sys_inv :: "usize \<Rightarrow> frame multiset \<Rightarrow> 'f memory_set list \<Rightarrow> ('d, 'z) world \<Rightarrow> bool" where
  "sys_inv lo M spaces w \<longleftrightarrow>
     world_inv lo w \<and> frames_ref w (all_frames spaces + M) \<and>
     (\<forall>ms \<in> set spaces. space_ok lo (all_frames spaces + M) w ms) \<and> disjoint_tables spaces"

text \<open>
  The spaces of processes that run, and of processes that have exited and wait to be reaped:
  their areas are gone, their page tables are still allocated. The entries of a table in use
  are those of the areas and of the trampolines, and each that can be written points to a
  frame that is referenced once in the whole system.
\<close>

definition sys_safe ::
  "usize \<Rightarrow> frame multiset \<Rightarrow> 'f memory_set list \<Rightarrow> 'f memory_set list \<Rightarrow> ('d, 'z) world \<Rightarrow> bool" where
  "sys_safe lo M alive zombies w \<longleftrightarrow>
     sys_inv lo M (alive @ zombies) w \<and> (\<forall>ms \<in> set alive. ms_tight (all_frames (alive @ zombies) + M) ms w)"

section \<open>One space and the others\<close>

lemma finite_table_frames [simp]: "finite (table_frames pt)"
  by (simp add: table_frames_def)

lemma all_frames_simps [simp]:
  "all_frames [] = {#}" "all_frames (ms # spaces) = space_frames (ms_areas ms) + all_frames spaces"
  "all_frames (ss @ ts) = all_frames ss + all_frames ts"
  by (simp_all add: all_frames_def)

lemma all_tables_simps [simp]:
  "all_tables [] = {#}" "all_tables (ms # spaces) = mset_set (table_frames (ms_page_table ms)) + all_tables spaces"
  "all_tables (ss @ ts) = all_tables ss + all_tables ts"
  by (simp_all add: all_tables_def)

lemma set_all_tables [simp]: "set_mset (all_tables spaces) = (\<Union>ms \<in> set spaces. table_frames (ms_page_table ms))"
  by (induction spaces) auto

lemma count_all_tables:
  "disjoint_tables spaces \<Longrightarrow>
   count (all_tables spaces) g = (if \<exists>ms \<in> set spaces. g \<in> table_frames (ms_page_table ms) then 1 else 0)"
  by (induction spaces) (auto simp: disjoint_tables_def count_mset_set')

text \<open>The references to the nodes of the tables come on top of all others.\<close>

lemma frames_ref_tables:
  assumes ref: "frames_ref w F" and ok: "\<And>ms. ms \<in> set spaces \<Longrightarrow>
      pt_wf lo (ms_page_table ms) w \<and> set_mset F \<inter> table_frames (ms_page_table ms) = {}"
    and dis: "disjoint_tables spaces"
  shows "frames_ref w (F + all_tables spaces)"
  unfolding frames_ref_def
proof (intro allI impI)
  fix fr :: frame assume ne: "fr \<noteq> Unallocated"
  show "count (F + all_tables spaces) fr \<le> frame_count w fr"
  proof (cases "\<exists>ms \<in> set spaces. fr \<in> table_frames (ms_page_table ms)")
    case True
    then obtain ms where ms: "ms \<in> set spaces" "fr \<in> table_frames (ms_page_table ms)" by blast
    then obtain p where p: "fr = InMemory p" "p \<in> set (pt_frames (ms_page_table ms))"
      by (auto simp: table_frames_def)
    have "0 < arcs w p" using ok [OF ms(1)] pt_wfD(6) p(2) by blast
    moreover have "count F fr = 0" using ok [OF ms(1)] ms(2) by (auto simp: not_in_iff [symmetric])
    ultimately show ?thesis using True by (simp add: count_all_tables [OF dis] p(1))
  next
    case False
    then show ?thesis using ref ne by (simp add: count_all_tables [OF dis] frames_ref_def)
  qed
qed

lemma sys_invD:
  assumes "sys_inv lo M spaces w"
  shows "world_inv lo w" "frames_ref w (all_frames spaces + M)"
    "ms \<in> set spaces \<Longrightarrow> space_ok lo (all_frames spaces + M) w ms" "disjoint_tables spaces"
  using assms by (simp_all add: sys_inv_def)

lemma sys_focus:
  assumes inv: "sys_inv lo M (ss @ ms # ts) w"
  shows "ms_inv lo (held_by (ss @ ts) + M) ms w"
proof -
  note S = sys_invD [OF inv]
  have dis: "disjoint_tables (ss @ ts)" "\<forall>k \<in> set ss \<union> set ts.
      table_frames (ms_page_table k) \<inter> table_frames (ms_page_table ms) = {}"
    using S(4) by (auto simp: disjoint_tables_def sorted_wrt_append)
  have "frames_ref w (all_frames (ss @ ms # ts) + M + all_tables (ss @ ts))"
    by (rule frames_ref_tables [OF S(2) _ dis(1)]) (use S(3) in \<open>auto simp: space_ok_def\<close>)
  then have "frames_ref w (space_frames (ms_areas ms) + (held_by (ss @ ts) + M))"
    by (simp add: held_by_def ac_simps)
  moreover have "space_ok lo (all_frames (ss @ ms # ts) + M) w ms" using S(3) by simp
  ultimately show ?thesis
    using S(1) dis(2) by (auto simp: ms_inv_def space_inv_def space_ok_def held_by_def)
qed

lemma space_ok_kept:
  fixes w w' :: "('d, 'z) world"
  assumes ok: "space_ok lo F w ms" and w': "world_inv lo w'" "fa_end (kfa w') \<le> push_bit 44 1"
    and pos: "\<And>p. p \<in> set (pt_frames (ms_page_table ms)) \<Longrightarrow> 0 < arcs w' p"
    and same: "\<And>p. p \<in> set (pt_frames (ms_page_table ms)) \<Longrightarrow> bytes_array p w' = bytes_array p w"
    and out: "set_mset F' \<inter> table_frames (ms_page_table ms) = {}"
  shows "space_ok lo F' w' ms" "find_pte (ms_page_table ms) w' v = find_pte (ms_page_table ms) w v"
proof -
  have wf: "pt_wf lo (ms_page_table ms) w" using ok by (simp add: space_ok_def)
  have sub: "set (pt_frames (ms_page_table ms)) \<subseteq> km_allocated lo w'" using pos world_invD(2) [OF w'(1)] by blast
  note T = pt_same_bytes [OF wf world_invD(1) [OF w'(1)] w'(2) sub pos same]
  have "area_ok (ms_page_table ms) w' ma" if "ma \<in> set (ms_areas ms)" for ma
    by (rule area_ok_cong [where pt = "ms_page_table ms" and w = w]) (use ok that T(2) in \<open>auto simp: space_ok_def\<close>)
  then show "space_ok lo F' w' ms" using T(1) out ok by (simp add: space_ok_def)
  show "find_pte (ms_page_table ms) w' v = find_pte (ms_page_table ms) w v" by (rule T(2))
qed

lemma space_frames_sub: "ms \<in> set spaces \<Longrightarrow> space_frames (ms_areas ms) \<subseteq># all_frames spaces"
  by (induction spaces) (auto intro: subset_mset.order_trans)

lemma ms_view_kept:
  assumes "space_ok lo F w ms"
    and "\<And>g. g \<in># space_frames (ms_areas ms) \<Longrightarrow> frame_content env w' g = frame_content env w g"
  shows "ms_view env w' ms = ms_view env w ms"
proof -
  have "area_view env w' ma = area_view env w ma" if ma: "ma \<in> set (ms_areas ms)" for ma
  proof (rule frames_view)
    note area_frames_sub [OF ma]
    then show "frame_content env w' g = frame_content env w g" if "g \<in># area_frames ma" for g
      using assms(2) that by (meson mset_subset_eqD)
    show "lm_wf (ma_inner ma)" using assms(1) ma by (simp add: space_ok_def area_ok_def)
  qed
  then show ?thesis unfolding ms_view_def by (intro ext space_view_cong) simp
qed

lemma sys_update:
  fixes w w' :: "('d, 'z) world"
  assumes inv: "sys_inv lo M (ss @ ms # ts) w" and st: "space_step lo env (held_by (ss @ ts) + M) ms w ms' w'"
  shows "sys_inv lo M (ss @ ms' # ts) w'"
    and "k \<in> set ss \<union> set ts \<Longrightarrow> ms_view env w' k = ms_view env w k"
    and "k \<in> set ss \<union> set ts \<Longrightarrow> find_pte (ms_page_table k) w' v = find_pte (ms_page_table k) w v"
proof -
  note S = sys_invD [OF inv]
  let ?O = "ss @ ts" and ?pt' = "ms_page_table ms'"
  have I: "space_inv lo (held_by ?O + M) ?pt' (ms_areas ms') w'"
    and content: "\<And>g. g \<in># held_by ?O + M \<Longrightarrow> frame_content env w' g = frame_content env w g"
    and fresh: "fresh_frames w (space_frames (ms_areas ms)) (space_frames (ms_areas ms'))"
    using st by (simp_all add: space_step_def ms_inv_def)
  note D = space_invD [OF I]
  have frames: "all_frames (ss @ ms' # ts) + M = space_frames (ms_areas ms') + (all_frames ?O + M)" by (simp add: ac_simps)
  have sub: "all_frames (ss @ ms' # ts) + M \<subseteq># space_frames (ms_areas ms') + (held_by ?O + M)"
    by (simp add: held_by_def)
  have table: "InMemory p \<in># held_by ?O + M" if "k \<in> set ?O" "p \<in> set (pt_frames (ms_page_table k))" for k p
    using that by (auto simp: held_by_def)
  have wi: "world_inv lo w'" "fa_end (kfa w') \<le> push_bit 44 1" using D(1) pt_wfD(2) [OF D(2)] by simp_all
  have okk: "space_ok lo (all_frames (ss @ ms # ts) + M) w k" if "k \<in> set ?O" for k using S(3) that by auto
  have same: "0 < arcs w' p" "bytes_array p w' = bytes_array p w"
    if k: "k \<in> set ?O" and p: "p \<in> set (pt_frames (ms_page_table k))" for k p
  proof -
    have "frame_content env w' (InMemory p) = frame_content env w (InMemory p)"
      by (rule content [OF table [OF k p]])
    then show "bytes_array p w' = bytes_array p w" by (simp add: frame_content_def)
    have "InMemory p \<in># space_frames (ms_areas ms') + (held_by ?O + M)" using table [OF k p] by simp
    then show "0 < arcs w' p" using frames_refD [OF D(3)] by fastforce
  qed
  have out: "set_mset (all_frames (ss @ ms' # ts) + M) \<inter> table_frames (ms_page_table k) = {}" if k: "k \<in> set ?O" for k
  proof -
    have "InMemory p \<notin># space_frames (ms_areas ms')" if p: "p \<in> set (pt_frames (ms_page_table k))" for p
    proof
      assume "InMemory p \<in># space_frames (ms_areas ms')"
      then have "InMemory p \<in># space_frames (ms_areas ms) \<or> arcs w p = 0" by (rule fresh_frames_in [OF fresh])
      moreover have "0 < arcs w p" using okk [OF k] p pt_wfD(6) by (auto simp: space_ok_def)
      ultimately have "InMemory p \<in># all_frames (ss @ ms # ts) + M" by simp
      then show False using okk [OF k] p by (auto simp: space_ok_def)
    qed
    then show ?thesis using okk [OF k] by (auto simp: space_ok_def table_frames_def)
  qed
  have ok: "space_ok lo (all_frames (ss @ ms' # ts) + M) w' k" if k: "k \<in> set ?O" for k
    by (rule space_ok_kept(1) [OF okk [OF k] wi same [OF k] out [OF k]])
  show "find_pte (ms_page_table k) w' v = find_pte (ms_page_table k) w v" if "k \<in> set ss \<union> set ts"
  proof -
    have k: "k \<in> set ?O" using that by simp
    show ?thesis by (rule space_ok_kept(2) [OF okk [OF k] wi same [OF k] out [OF k]])
  qed
  show "k \<in> set ss \<union> set ts \<Longrightarrow> ms_view env w' k = ms_view env w k"
  proof (rule ms_view_kept)
    assume k: "k \<in> set ss \<union> set ts"
    then show "space_ok lo (all_frames (ss @ ms # ts) + M) w k" using S(3) by auto
    have "space_frames (ms_areas k) \<subseteq># all_frames ?O" using k by (intro space_frames_sub) simp
    then have "g \<in># all_frames ?O" if "g \<in># space_frames (ms_areas k)" for g using that by (rule mset_subset_eqD)
    then show "frame_content env w' g = frame_content env w g" if "g \<in># space_frames (ms_areas k)" for g
      using content [of g] that by (simp add: held_by_def)
  qed
  have "space_ok lo (all_frames (ss @ ms' # ts) + M) w' ms'"
    using D(2,4,5,6) sub unfolding space_ok_def by (auto dest!: set_mset_mono)
  moreover have "disjoint_tables (ss @ ms' # ts)"
  proof -
    have "table_frames (ms_page_table k) \<inter> table_frames ?pt' = {}" if "k \<in> set ?O" for k
      using D(4) that by (auto simp: held_by_def)
    then show ?thesis using S(4) by (auto simp: disjoint_tables_def sorted_wrt_append)
  qed
  moreover have "frames_ref w' (all_frames (ss @ ms' # ts) + M)" by (rule frames_ref_mono [OF D(3) sub])
  ultimately show "sys_inv lo M (ss @ ms' # ts) w'" using D(1) ok by (auto simp: sys_inv_def)
qed

section \<open>Entries and references\<close>

text \<open>The frame behind a writable entry is held once, also when the page tables are counted.\<close>

lemma safe_focus:
  assumes safe: "sys_safe lo M (ss @ ms # ts) zs w"
  shows "ms_inv lo (held_by (ss @ ts @ zs) + M) ms w"
    and "ms_tight (space_frames (ms_areas ms) + (held_by (ss @ ts @ zs) + M)) ms w"
proof -
  let ?all = "all_frames (ss @ ms # ts @ zs) + M"
  have inv: "sys_inv lo M (ss @ ms # (ts @ zs)) w" and tight: "ms_tight ?all ms w"
    using safe by (simp_all add: sys_safe_def)
  show "ms_inv lo (held_by (ss @ ts @ zs) + M) ms w" using sys_focus [OF inv] by simp
  note S = sys_invD [OF inv]
  have ok: "\<And>ma. ma \<in> set (ms_areas ms) \<Longrightarrow> area_ok (ms_page_table ms) w ma"
    using S(3) [of ms] by (simp add: space_ok_def)
  have dis: "disjoint_tables (ss @ ts @ zs)" using S(4) by (auto simp: disjoint_tables_def sorted_wrt_append)
  have sub: "space_frames (ms_areas ms) \<subseteq># ?all" by (simp add: ac_simps)
  have "count (space_frames (ms_areas ms) + (held_by (ss @ ts @ zs) + M)) (InMemory (pte_ppn e)) \<le> 1"
    if e: "find_pte (ms_page_table ms) w u = Some e" "pte_writable e" for u e
  proof -
    have k: "vpn_key u \<in> areas_keys (ms_areas ms)" and c: "count ?all (InMemory (pte_ppn e)) \<le> 1"
      using tight e by (auto simp: ms_tight_def)
    have "InMemory (pte_ppn e) \<in># ?all" using leaf_frame [OF ok e(1) k] by (rule mset_subset_eqD [OF sub])
    then have "InMemory (pte_ppn e) \<notin> table_frames (ms_page_table k)" if "k \<in> set (ss @ ts @ zs)" for k
      using S(3) [of k] that unfolding space_ok_def by auto
    then have "count (all_tables (ss @ ts @ zs)) (InMemory (pte_ppn e)) = 0" 
      by (intro trans [OF count_all_tables [OF dis] if_not_P]) blast
    then show ?thesis using c by (simp add: held_by_def)
  qed
  then show "ms_tight (space_frames (ms_areas ms) + (held_by (ss @ ts @ zs) + M)) ms w"
    using tight unfolding ms_tight_def by blast
qed

lemma ms_tight_mono:
  assumes "ms_tight T ms w" and "\<And>u. find_pte (ms_page_table ms) w' u = find_pte (ms_page_table ms) w u"
    and "\<And>p. count T (InMemory p) \<le> 1 \<Longrightarrow> count T' (InMemory p) \<le> 1"
  shows "ms_tight T' ms w'"
  using assms unfolding ms_tight_def by metis

lemma safe_others:
  fixes w w' :: "('d, 'z) world"
  assumes safe: "sys_safe lo M (ss @ ms # ts) zs w"
    and st: "space_step lo env (held_by (ss @ ts @ zs) + M) ms w ms' w'"
  shows "sys_inv lo M (ss @ ms' # (ts @ zs)) w'"
    and "count (all_frames (ss @ ms # ts @ zs) + M) (InMemory p) \<le> 1 \<Longrightarrow>
      count (all_frames (ss @ ms' # ts @ zs) + M) (InMemory p) \<le> 1"
    and "k \<in> set ss \<union> set ts \<Longrightarrow> ms_tight (all_frames (ss @ ms' # ts @ zs) + M) k w'"
proof -
  let ?O = "all_frames (ss @ ts @ zs) + M"
  let ?T = "all_frames (ss @ ms # ts @ zs) + M" and ?T' = "all_frames (ss @ ms' # ts @ zs) + M"
  have T: "?T = space_frames (ms_areas ms) + ?O" "?T' = space_frames (ms_areas ms') + ?O" by (simp_all add: ac_simps)
  have inv: "sys_inv lo M (ss @ ms # (ts @ zs)) w" using safe by (simp add: sys_safe_def)
  have st': "space_step lo env (held_by (ss @ (ts @ zs)) + M) ms w ms' w'" using st by simp
  note U = sys_update [OF inv st']
  show "sys_inv lo M (ss @ ms' # (ts @ zs)) w'" by (rule U(1))
  have fresh: "fresh_frames w (space_frames (ms_areas ms)) (space_frames (ms_areas ms'))" using st by (simp add: space_step_def)
  have "frames_ref w ?O" by (rule frames_ref_mono [OF sys_invD(2) [OF inv]]) (simp add: ac_simps)
  note once = fresh_frames_once [OF fresh this, folded T]
  then show "count ?T (InMemory p) \<le> 1 \<Longrightarrow> count ?T' (InMemory p) \<le> 1" .
  show "ms_tight ?T' k w'" if k: "k \<in> set ss \<union> set ts"
  proof (rule ms_tight_mono [where T = ?T and w = w])
    show "ms_tight ?T k w" using safe k by (auto simp: sys_safe_def)
    show "find_pte (ms_page_table k) w' u = find_pte (ms_page_table k) w u" for u by (rule U(3)) (use k in auto)
  qed (rule once)
qed

lemma safe_update:
  fixes w w' :: "('d, 'z) world"
  assumes safe: "sys_safe lo M (ss @ ms # ts) zs w"
    and st: "space_step lo env (held_by (ss @ ts @ zs) + M) ms w ms' w'" "pte_step (held_by (ss @ ts @ zs) + M) ms w ms' w'"
  shows "sys_safe lo M (ss @ ms' # ts) zs w'"
proof -
  let ?T = "all_frames (ss @ ms # ts @ zs) + M" and ?T' = "all_frames (ss @ ms' # ts @ zs) + M"
  note U = safe_others [OF safe st(1)]
  have tight: "ms_tight ?T ms w" using safe by (simp add: sys_safe_def)
  have le: "count ?T' g \<le> count (space_frames (ms_areas ms') + (held_by (ss @ ts @ zs) + M)) g" for g
    by (simp add: held_by_def)
  have "(vpn_key u \<in> areas_keys (ms_areas ms') \<or> vpn_key u \<in> trampoline_keys \<and> \<not> pte_writable e) \<and>
      (pte_writable e \<longrightarrow> count ?T' (InMemory (pte_ppn e)) \<le> 1)"
    if e: "find_pte (ms_page_table ms') w' u = Some e" for u e
  proof -
    from st(2) e consider
      "find_pte (ms_page_table ms) w u = Some e" "vpn_key u \<in> areas_keys (ms_areas ms) \<longrightarrow> vpn_key u \<in> areas_keys (ms_areas ms')"
    | "vpn_key u \<in> areas_keys (ms_areas ms')"
      "pte_writable e \<longrightarrow> count (space_frames (ms_areas ms') + (held_by (ss @ ts @ zs) + M)) (InMemory (pte_ppn e)) \<le> 1"
      unfolding pte_step_def by blast
    then show ?thesis
    proof cases
      case 1
      have "(vpn_key u \<in> areas_keys (ms_areas ms) \<or> vpn_key u \<in> trampoline_keys \<and> \<not> pte_writable e) \<and>
          (pte_writable e \<longrightarrow> count ?T (InMemory (pte_ppn e)) \<le> 1)"
        using tight 1(1) unfolding ms_tight_def by blast
      then show ?thesis using 1(2) U(2) [of "pte_ppn e"] by blast
    next
      case 2
      then show ?thesis using order_trans [OF le [of "InMemory (pte_ppn e)"]] by blast
    qed
  qed
  then have "ms_tight ?T' ms' w'" unfolding ms_tight_def by blast
  then show ?thesis using U(1) U(3) by (simp add: sys_safe_def)
qed

text \<open>What exit leaves behind: a space that holds its page table only.\<close>

lemma sys_inv_perm:
  assumes "sys_inv lo M (ss @ ms # ts) w"
  shows "sys_inv lo M (ss @ ts @ [ms]) w"
proof -
  have "all_frames (ss @ ts @ [ms]) = all_frames (ss @ ms # ts)" "set (ss @ ts @ [ms]) = set (ss @ ms # ts)"
    by (auto simp: ac_simps)
  moreover have "disjoint_tables (ss @ ts @ [ms])"
    using sys_invD(4) [OF assms] unfolding disjoint_tables_def sorted_wrt_append by (simp, blast)
  ultimately show ?thesis using assms unfolding sys_inv_def by metis
qed

lemma safe_exit:
  fixes w w' :: "('d, 'z) world"
  assumes safe: "sys_safe lo M (ss @ ms # ts) zs w"
    and st: "space_step lo env (held_by (ss @ ts @ zs) + M) ms w ms' w'"
  shows "sys_safe lo M (ss @ ts) (zs @ [ms']) w'"
proof -
  note U = safe_others [OF safe st]
  have "all_frames (ss @ ms' # ts @ zs) = all_frames ((ss @ ts) @ zs @ [ms'])" by (simp add: ac_simps)
  with U(3) have "\<forall>k \<in> set (ss @ ts). ms_tight (all_frames ((ss @ ts) @ zs @ [ms']) + M) k w'"
    by (metis Un_iff set_append)
  moreover have "sys_inv lo M ((ss @ ts) @ zs @ [ms']) w'" using sys_inv_perm [OF U(1)] by simp
  ultimately show ?thesis by (simp only: sys_safe_def)
qed

end
