(* ===== verification/Mm_Insert.thy ===== *)
theory Mm_Insert
  imports Mm_Space
begin

text \<open>
  Inserting a framed area into an address space: \<open>push\<close> with and without data,
  \<open>insert_framed_area\<close> and the user stack and trap context of a thread. Every page of the new
  area gets a frame nobody had; the view of the older areas stays as it is.
\<close>

section \<open>Mapping a list of pages\<close>

definition push_effect ::
  "usize \<Rightarrow> 'd kenv \<Rightarrow> VirtPageNum set \<Rightarrow> frame multiset \<Rightarrow> sv39 \<Rightarrow> ('d, 'z) world \<Rightarrow> 'f map_area \<Rightarrow>
   sv39 \<Rightarrow> ('d, 'z) world \<Rightarrow> 'f map_area \<Rightarrow> bool" where
  "push_effect lo env V M pt w ma pt' w' ma' \<longleftrightarrow>
     area_inv lo M pt' w' ma' \<and> lm_range (ma_inner ma') = lm_range (ma_inner ma) \<and>
     ma_map_perm ma' = ma_map_perm ma \<and> ma_map_file ma' = ma_map_file ma \<and>
     ma_writable_stripped ma' = ma_writable_stripped ma \<and>
     (\<forall>v. lm_in_range (ma_inner ma) v \<longrightarrow> v \<notin> V \<longrightarrow>
        lm_frames (ma_inner ma') ! lm_index v (ma_inner ma) = lm_frames (ma_inner ma) ! lm_index v (ma_inner ma)) \<and>
     (\<forall>u. vpn_key u \<notin> vpn_key ` V \<longrightarrow> find_pte pt' w' u = find_pte pt w u) \<and>
     (\<forall>g \<in># M. frame_content env w' g = frame_content env w g) \<and>
     (\<forall>p. 0 < arcs w p \<longrightarrow> 0 < arcs w' p) \<and>
     fresh_frames w (area_frames ma) (area_frames ma')"

lemma push_effectD:
  assumes "push_effect lo env V M pt w ma pt' w' ma'"
  shows "area_inv lo M pt' w' ma'" "lm_range (ma_inner ma') = lm_range (ma_inner ma)"
    "ma_map_perm ma' = ma_map_perm ma" "ma_map_file ma' = ma_map_file ma"
    "lm_in_range (ma_inner ma) v \<Longrightarrow> v \<notin> V \<Longrightarrow>
       lm_frames (ma_inner ma') ! lm_index v (ma_inner ma) = lm_frames (ma_inner ma) ! lm_index v (ma_inner ma)"
    "vpn_key u \<notin> vpn_key ` V \<Longrightarrow> find_pte pt' w' u = find_pte pt w u"
    "g \<in># M \<Longrightarrow> frame_content env w' g = frame_content env w g"
    "0 < arcs w p \<Longrightarrow> 0 < arcs w' p"
    "fresh_frames w (area_frames ma) (area_frames ma')" "ma_writable_stripped ma' = ma_writable_stripped ma"
  using assms unfolding push_effect_def by - (elim conjE, (assumption | blast))+

lemma push_refl: "area_inv lo M pt w ma \<Longrightarrow> push_effect lo env {} M pt w ma pt w ma"
  by (simp add: push_effect_def fresh_frames_def)

lemma push_trans:
  assumes a: "push_effect lo env V M pt w ma pt1 w1 ma1" and b: "push_effect lo env U M pt1 w1 ma1 pt2 w2 ma2"
  shows "push_effect lo env (V \<union> U) M pt w ma pt2 w2 ma2"
proof -
  note A = push_effectD [OF a] and B = push_effectD [OF b]
  note R = lm_range_cong [OF A(2)]
  have "fresh_frames w (area_frames ma) (area_frames ma2)"
    unfolding fresh_frames_def
  proof
    fix p
    have "count (area_frames ma2) (InMemory p) \<le> count (area_frames ma1) (InMemory p) \<or>
        arcs w1 p = 0 \<and> count (area_frames ma2) (InMemory p) \<le> 1"
      "count (area_frames ma1) (InMemory p) \<le> count (area_frames ma) (InMemory p) \<or>
        arcs w p = 0 \<and> count (area_frames ma1) (InMemory p) \<le> 1"
      using A(9) B(9) unfolding fresh_frames_def by blast+
    then show "count (area_frames ma2) (InMemory p) \<le> count (area_frames ma) (InMemory p) \<or>
        arcs w p = 0 \<and> count (area_frames ma2) (InMemory p) \<le> 1"
      using A(8) [of p] by linarith
  qed
  moreover have "lm_frames (ma_inner ma2) ! lm_index v (ma_inner ma) = lm_frames (ma_inner ma) ! lm_index v (ma_inner ma)"
    if "lm_in_range (ma_inner ma) v" "v \<notin> V \<union> U" for v
    using A(5) [of v] B(5) [of v] that by (simp add: R)
  moreover have "find_pte pt2 w2 u = find_pte pt w u" if "vpn_key u \<notin> vpn_key ` (V \<union> U)" for u
    using A(6) [of u] B(6) [of u] that by (simp add: image_Un)
  ultimately show ?thesis
    unfolding push_effect_def using A(2-4,7,8,10) B(1-4,7,8,10) by simp
qed

lemma map_one_push:
  fixes w :: "('d, 'z) world"
  assumes inv: "area_inv lo M pt w ma" and v: "lm_in_range (ma_inner ma) v"
    and un: "lm_frames (ma_inner ma) ! lm_index v (ma_inner ma) = Unallocated" and free: "3 \<le> km_free w"
  shows "\<exists>p ma' pt' w'. map_one env oom v ma pt w = Some (Inr p, ma', pt', w') \<and>
    push_effect lo env {v} M pt w ma pt' w' ma' \<and> km_free w \<le> km_free w' + 3 \<and>
    lm_frames (ma_inner ma') ! lm_index v (ma_inner ma) = InMemory p"
proof -
  from map_one_ok [OF assms, of env oom] obtain p ma' pt' w' where m:
    "map_one env oom v ma pt w = Some (Inr p, ma', pt', w')" "page_in lo env v p M pt w ma pt' w' ma'"
    "km_free w \<le> km_free w' + 3" "frames_kept env (insert (InMemory p) (table_frames pt')) w w'" by blast
  let ?i = "lm_index v (ma_inner ma)"
  have P: "area_inv lo M pt' w' ma'" "lm_range (ma_inner ma') = lm_range (ma_inner ma)"
    "ma_map_perm ma' = ma_map_perm ma" "ma_map_file ma' = ma_map_file ma"
    "lm_frames (ma_inner ma') = (lm_frames (ma_inner ma))[?i := InMemory p]" "arcs w p = 0"
    "\<And>u. find_pte pt' w' u = (if vpn_key u = vpn_key v
        then Some (pte_new p (ma_map_perm ma OR PTE_V OR PTE_A OR PTE_D)) else find_pte pt w u)"
    "\<And>g. g \<in># other_frames ?i M ma \<Longrightarrow> frame_content env w' g = frame_content env w g"
    using m(2) by (simp_all add: page_in_def)
  have str: "ma_writable_stripped ma' = ma_writable_stripped ma" using m(2) by (simp add: page_in_def)
  note i = lm_index_in_range(1) [OF area_invD(4) [OF inv] v]
  have other: "lm_index u (ma_inner ma) \<noteq> ?i" if "lm_in_range (ma_inner ma) u" "u \<notin> {v}" for u
    using lm_index_in_range(2) [OF area_invD(4) [OF inv]] v that by (metis insertI1)
  have fresh: "fresh_frames w (area_frames ma) (area_frames ma')"
  proof -
    have "count (mset (lm_frames (ma_inner ma))) (InMemory p) = 0"
      using frames_ref_zero [OF area_invD(6) [OF inv] P(6)] by simp
    from fresh_page_in [OF i this P(6)] show ?thesis by (simp add: area_frames_def P(5))
  qed
  have pos: "0 < arcs w' q" if q: "0 < arcs w q" for q
  proof (cases "q \<in> set (pt_frames pt')")
    case True
    then show ?thesis using pt_wfD(6) [OF area_invD(2) [OF P(1)]] by blast
  next
    case False
    then show ?thesis using m(4) q P(6) by (auto simp: frames_kept_def dest!: spec [of _ "InMemory q"])
  qed
  have frs: "lm_frames (ma_inner ma') ! lm_index u (ma_inner ma) = lm_frames (ma_inner ma) ! lm_index u (ma_inner ma)"
    if "lm_in_range (ma_inner ma) u" "u \<notin> {v}" for u
    unfolding P(5) by (rule nth_list_update_neq) (use other [OF that] in simp)
  have "push_effect lo env {v} M pt w ma pt' w' ma'"
    unfolding push_effect_def using P(1-4) str frs fresh pos P(7) P(8) by (simp add: other_frames_def)
  then show ?thesis using m(1,3) P(5) i by auto
qed

lemma push_loop_ok:
  fixes w :: "('d, 'z) world"
  assumes "area_inv lo M pt w ma" and "distinct vs" and "\<forall>v \<in> set vs. lm_in_range (ma_inner ma) v"
    and "\<forall>v \<in> set vs. lm_frames (ma_inner ma) ! lm_index v (ma_inner ma) = Unallocated"
    and "3 * length vs \<le> km_free w"
  shows "\<exists>ma' pt' w'. push_loop env oom vs ma pt w = Some (Inr (), ma', pt', w') \<and>
    push_effect lo env (set vs) M pt w ma pt' w' ma' \<and> km_free w \<le> km_free w' + 3 * length vs \<and>
    (\<forall>v \<in> set vs. resident (lm_frames (ma_inner ma') ! lm_index v (ma_inner ma)) \<noteq> None)"
  using assms
proof (induction vs arbitrary: ma pt w)
  case Nil
  then show ?case using push_refl by fastforce
next
  case (Cons v vs)
  have "lm_in_range (ma_inner ma) v" "lm_frames (ma_inner ma) ! lm_index v (ma_inner ma) = Unallocated" "3 \<le> km_free w"
    using Cons.prems by simp_all
  from map_one_push [OF Cons.prems(1) this, of env oom] obtain p ma1 pt1 w1 where one:
    "map_one env oom v ma pt w = Some (Inr p, ma1, pt1, w1)" "push_effect lo env {v} M pt w ma pt1 w1 ma1"
    "km_free w \<le> km_free w1 + 3" "lm_frames (ma_inner ma1) ! lm_index v (ma_inner ma) = InMemory p" by blast
  note E = push_effectD [OF one(2)]
  note R = lm_range_cong [OF E(2)]
  have un: "\<forall>u \<in> set vs. lm_frames (ma_inner ma1) ! lm_index u (ma_inner ma1) = Unallocated"
  proof
    fix u assume "u \<in> set vs"
    then show "lm_frames (ma_inner ma1) ! lm_index u (ma_inner ma1) = Unallocated"
      using E(5) [of u] Cons.prems(2-4) by (auto simp: R)
  qed
  have rng: "\<forall>u \<in> set vs. lm_in_range (ma_inner ma1) u" "distinct vs" "3 * length vs \<le> km_free w1"
    using Cons.prems(2,3,5) one(3) by (simp_all add: R)
  from Cons.IH [OF E(1) rng(2,1) un rng(3)] obtain ma' pt' w' where l:
    "push_loop env oom vs ma1 pt1 w1 = Some (Inr (), ma', pt', w')" "push_effect lo env (set vs) M pt1 w1 ma1 pt' w' ma'"
    "km_free w1 \<le> km_free w' + 3 * length vs"
    "\<forall>u \<in> set vs. resident (lm_frames (ma_inner ma') ! lm_index u (ma_inner ma1)) \<noteq> None" by blast
  have "lm_frames (ma_inner ma') ! lm_index v (ma_inner ma) = InMemory p"
    using push_effectD(5) [OF l(2), of v] Cons.prems(2,3) one(4) by (simp add: R)
  moreover have "push_effect lo env (set (v # vs)) M pt w ma pt' w' ma'"
    using push_trans [OF one(2) l(2)] by simp
  ultimately show ?case using one(1,3) l(1,3,4)
    by (intro exI [of _ ma'] exI [of _ pt'] exI [of _ w']) (auto simp: R resident_def)
qed

section \<open>Adding an area to a space\<close>

text \<open>An area none of whose pages has a frame or a page table entry.\<close>

definition blank_area :: "sv39 \<Rightarrow> ('d, 'z) world \<Rightarrow> 'f map_area \<Rightarrow> bool" where
  "blank_area pt w ma \<longleftrightarrow>
     ma_map_type ma = Framed \<and> lm_wf (ma_inner ma) \<and> length (lm_frames (ma_inner ma)) \<le> 2 ^ 27 \<and>
     set (lm_frames (ma_inner ma)) \<subseteq> {Unallocated} \<and> (\<forall>u. vpn_key u \<in> area_keys ma \<longrightarrow> find_pte pt w u = None)"

lemma blank_frames:
  assumes "blank_area pt w ma"
  shows "g \<in># area_frames ma \<Longrightarrow> g = Unallocated" "g \<noteq> Unallocated \<Longrightarrow> count (area_frames ma) g = 0"
  using assms by (auto simp: blank_area_def area_frames_def not_in_iff [symmetric])

lemma blank_area_ok: "blank_area pt w ma \<Longrightarrow> area_ok pt w ma"
  unfolding blank_area_def area_ok_def
  by (auto simp: sv39_translate_def area_keys_vpn resident_def dest!: nth_mem)

lemma space_add:
  assumes inv: "space_inv lo M pt (xs @ ys) w" and blank: "blank_area pt w ma"
    and dis: "\<And>a. a \<in> set xs \<union> set ys \<Longrightarrow> area_keys a \<inter> area_keys ma = {}"
  shows "space_inv lo M pt (xs @ ma # ys) w"
proof -
  note I = space_invD [OF inv]
  have "frames_ref w (space_frames (xs @ ma # ys) + M)"
    using I(3) blank_frames(2) [OF blank] by (simp add: frames_ref_def)
  moreover have "set_mset (space_frames (xs @ ma # ys) + M) \<inter> table_frames pt = {}"
    using I(4) by (auto dest!: blank_frames(1) [OF blank])
  moreover have "disjoint_areas (xs @ ma # ys)"
    using I(6) dis by (auto simp: disjoint_areas_def sorted_wrt_append)
  ultimately show ?thesis
    using I(1,2,5) blank_area_ok [OF blank] by (auto simp: space_inv_def)
qed

text \<open>The effect of inserting an area: the older areas keep their view.\<close>

definition insert_effect ::
  "usize \<Rightarrow> 'd kenv \<Rightarrow> frame multiset \<Rightarrow> 'f map_area \<Rightarrow> 'f memory_set \<Rightarrow> ('d, 'z) world \<Rightarrow>
   'f memory_set \<Rightarrow> ('d, 'z) world \<Rightarrow> bool" where
  "insert_effect lo env M ma ms w ms' w' \<longleftrightarrow>
     space_step lo env M ms w ms' w' \<and>
     (\<exists>ma'. ms_areas ms' = ms_areas ms @ [ma'] \<and> lm_range (ma_inner ma') = lm_range (ma_inner ma) \<and>
        ma_map_perm ma' = ma_map_perm ma \<and> ma_map_file ma' = ma_map_file ma \<and>
        ma_writable_stripped ma' = ma_writable_stripped ma \<and>
        (\<forall>v. lm_in_range (ma_inner ma) v \<longrightarrow>
           resident (lm_frames (ma_inner ma') ! lm_index v (ma_inner ma)) \<noteq> None)) \<and>
     pte_step M ms w ms' w' \<and>
     (\<forall>a \<in> set (ms_areas ms). area_view env w' a = area_view env w a) \<and>
     (\<forall>u. vpn_key u \<notin> area_keys ma \<longrightarrow> find_pte (ms_page_table ms') w' u = find_pte (ms_page_table ms) w u)"

lemma push_effect_insert:
  fixes w :: "('d, 'z) world"
  assumes inv: "ms_inv lo M ms w" and blank: "blank_area (ms_page_table ms) w ma"
    and dis: "\<And>a. a \<in> set (ms_areas ms) \<Longrightarrow> area_keys a \<inter> area_keys ma = {}"
    and p: "push_effect lo env {v. lm_in_range (ma_inner ma) v} (space_frames (ms_areas ms) + M) (ms_page_table ms) w ma pt' w' ma'"
    and res: "\<forall>v. lm_in_range (ma_inner ma) v \<longrightarrow> resident (lm_frames (ma_inner ma') ! lm_index v (ma_inner ma)) \<noteq> None"
  shows "insert_effect lo env M ma ms w (ms\<lparr>ms_page_table := pt', ms_areas := ms_areas ms @ [ma']\<rparr>) w'"
proof -
  note P = push_effectD [OF p]
  have keys: "vpn_key ` {v. lm_in_range (ma_inner ma) v} = area_keys ma" by (auto simp: area_keys_def)
  have sp: "space_inv lo M (ms_page_table ms) (ms_areas ms @ [ma]) w"
    by (rule space_add [where ys = "[]"]) (use inv blank dis in \<open>auto simp: ms_inv_def\<close>)
  have ai: "area_inv lo (space_frames (ms_areas ms @ []) + M) pt' w' ma'" "area_keys ma' \<subseteq> area_keys ma"
    using P(1) area_keys_cong [OF P(2)] by simp_all
  have rest: "find_pte pt' w' u = find_pte (ms_page_table ms) w u" if "vpn_key u \<notin> area_keys ma" for u
    using P(6) [of u] that by (simp add: keys)
  have "space_inv lo M pt' (ms_areas ms @ [ma']) w'" by (rule space_update [OF sp ai rest])
  moreover have "fresh_frames w (space_frames (ms_areas ms)) (space_frames (ms_areas ms @ [ma']))"
  proof -
    have "frames_ref w (space_frames (ms_areas ms))" by (rule frames_ref_mono [OF space_invD(3) [OF sp]]) simp
    from fresh_frames_add [OF P(9) this] show ?thesis using blank_frames(2) [OF blank] by (simp add: fresh_frames_def add.commute)
  qed
  moreover have "pte_step M ms w (ms\<lparr>ms_page_table := pt', ms_areas := ms_areas ms @ [ma']\<rparr>) w'"
    unfolding pte_step_def
  proof (intro allI impI)
    let ?ms = "ms\<lparr>ms_page_table := pt', ms_areas := ms_areas ms @ [ma']\<rparr>"
    fix u e assume "find_pte (ms_page_table ?ms) w' u = Some e"
    then have e: "find_pte pt' w' u = Some e" by simp
    have k: "area_keys ma' = area_keys ma" by (rule area_keys_cong [OF P(2)])
    show "find_pte (ms_page_table ms) w u = Some e \<and>
        (vpn_key u \<in> areas_keys (ms_areas ms) \<longrightarrow> vpn_key u \<in> areas_keys (ms_areas ?ms)) \<or>
      vpn_key u \<in> areas_keys (ms_areas ?ms) \<and>
        (pte_writable e \<longrightarrow> count (space_frames (ms_areas ?ms) + M) (InMemory (pte_ppn e)) \<le> 1)"
    proof (cases "vpn_key u \<in> area_keys ma")
      case False
      then show ?thesis using rest [of u] e by simp
    next
      case True
      let ?f = "InMemory (pte_ppn e)"
      have "?f \<in># space_frames [ma']"
        by (rule leaf_frame [OF _ e]) (use P(1) True in \<open>simp_all add: area_inv_iff k\<close>)
      then have in': "?f \<in># area_frames ma'" by simp
      have "count (area_frames ma) ?f = 0" using blank_frames(2) [OF blank] by simp
      then have f: "arcs w (pte_ppn e) = 0" "count (area_frames ma') ?f \<le> 1"
        using P(9) in' unfolding fresh_frames_def by (metis count_greater_zero_iff le_zero_eq less_irrefl)+
      have "count (space_frames (ms_areas ms @ [ma]) + M) ?f = 0" by (rule frames_ref_zero [OF space_invD(3) [OF sp] f(1)])
      then show ?thesis using f(2) True k by simp
    qed
  qed
  moreover have "area_view env w' a = area_view env w a" if "a \<in> set (ms_areas ms)" for a
    by (rule rest_view [OF sp, where env = env]) (use P(7) that in auto)
  ultimately show ?thesis
    using P(2-4,7,10) res rest by (simp add: insert_effect_def space_step_def ms_inv_def)
qed

lemma push_area_ok:
  fixes w :: "('d, 'z) world"
  assumes inv: "ms_inv lo M ms w" and blank: "blank_area (ms_page_table ms) w ma"
    and dis: "\<And>a. a \<in> set (ms_areas ms) \<Longrightarrow> area_keys a \<inter> area_keys ma = {}"
    and free: "3 * length (lm_frames (ma_inner ma)) \<le> km_free w"
  shows "\<exists>ms' w'. ms_push env oom ma None ms w = Some (Inr (), ms', w') \<and> insert_effect lo env M ma ms w ms' w' \<and>
    km_free w \<le> km_free w' + 3 * length (lm_frames (ma_inner ma))"
proof -
  have B: "lm_wf (ma_inner ma)" "set (lm_frames (ma_inner ma)) \<subseteq> {Unallocated}" using blank by (simp_all add: blank_area_def)
  have sp: "space_inv lo M (ms_page_table ms) (ms_areas ms @ [ma]) w"
    by (rule space_add [where ys = "[]"]) (use inv blank dis in \<open>auto simp: ms_inv_def\<close>)
  have ai: "area_inv lo (space_frames (ms_areas ms) + M) (ms_page_table ms) w ma" using space_focus [OF sp] by simp
  let ?vs = "range_list (lm_range (ma_inner ma))"
  have r: "range_l (lm_range (ma_inner ma)) \<le> range_r (lm_range (ma_inner ma))"
    using B(1) by (simp add: lm_wf_def lm_get_start_def lm_get_end_def)
  have vs: "set ?vs = {v. lm_in_range (ma_inner ma) v}" by (rule set_lm_range [OF B(1)])
  have un: "\<forall>v \<in> set ?vs. lm_frames (ma_inner ma) ! lm_index v (ma_inner ma) = Unallocated"
    using B(2) lm_index_in_range(1) [OF B(1)] by (auto simp: vs dest!: nth_mem)
  have len: "length ?vs = length (lm_frames (ma_inner ma))"
    using B(1) range_list_upt [OF r] by (simp add: lm_wf_def lm_get_start_def lm_get_end_def)
  from push_loop_ok [OF ai distinct_range_list [OF r] _ un, of env oom] free vs len
  obtain ma' pt' w' where l: "push_loop env oom ?vs ma (ms_page_table ms) w = Some (Inr (), ma', pt', w')"
    "push_effect lo env (set ?vs) (space_frames (ms_areas ms) + M) (ms_page_table ms) w ma pt' w' ma'"
    "km_free w \<le> km_free w' + 3 * length ?vs"
    "\<forall>v \<in> set ?vs. resident (lm_frames (ma_inner ma') ! lm_index v (ma_inner ma)) \<noteq> None" by auto
  let ?ms = "ms\<lparr>ms_page_table := pt', ms_areas := ms_areas ms @ [ma']\<rparr>"
  have "insert_effect lo env M ma ms w ?ms w'"
    by (rule push_effect_insert [OF inv blank dis]) (use l(2,4) in \<open>simp_all add: vs\<close>)
  moreover have "ms_push env oom ma None ms w = Some (Inr (), ?ms, w')"
    using l(1) by (simp add: ms_push_def push_finish_def)
  ultimately show ?thesis using l(3) len by auto
qed

text \<open>\<open>insert_framed_area\<close> on a range of pages nobody uses.\<close>

lemma ma_new_blank:
  assumes "ma_new start_va end_va Framed perm None = Some ma" and "unat (va_ceil end_va) - unat (va_floor start_va) \<le> 2 ^ 27"
    and "\<And>v. va_floor start_va \<le> v \<Longrightarrow> v < va_ceil end_va \<Longrightarrow> find_pte pt w v = None"
  shows "blank_area pt w ma" "length (lm_frames (ma_inner ma)) = unat (va_ceil end_va) - unat (va_floor start_va)"
    "lm_in_range (ma_inner ma) v \<longleftrightarrow> va_floor start_va \<le> v \<and> v < va_ceil end_va"
proof -
  have ma: "va_floor start_va \<le> va_ceil end_va"
    "ma = \<lparr>ma_inner = lm_new \<lparr>range_l = va_floor start_va, range_r = va_ceil end_va\<rparr>, ma_map_type = Framed, ma_map_perm = perm,
           ma_writable_stripped = False, ma_map_file = None\<rparr>"
    using assms(1) by (auto simp: ma_new_def range_new_def split: if_splits)
  show rng: "lm_in_range (ma_inner ma) v \<longleftrightarrow> va_floor start_va \<le> v \<and> v < va_ceil end_va" for v
    by (simp add: ma(2) lm_in_range_def)
  show len: "length (lm_frames (ma_inner ma)) = unat (va_ceil end_va) - unat (va_floor start_va)"
    using ma(1) unat_sub_no_wrap [OF ma(1)] by (simp add: ma(2))
  have "find_pte pt w u = None" if "vpn_key u \<in> area_keys ma" for u
  proof -
    from that obtain v where "lm_in_range (ma_inner ma) v" "vpn_key u = vpn_key v" by (auto simp: area_keys_def)
    then show ?thesis using assms(3) [of v] rng by (simp add: find_pte_key [of u v])
  qed
  moreover have "lm_wf (ma_inner ma)" using lm_new_wf(1) ma by simp
  ultimately show "blank_area pt w ma"
    using assms(2) len by (auto simp: blank_area_def ma(2))
qed

subsection \<open>A page with initial data\<close>

lemma push_set_bytes:
  assumes p: "push_effect lo env V M pt w ma pt' w' ma'" and new: "arcs w q = 0" and out: "q \<notin> set (pt_frames pt')"
    and ref: "frames_ref w M"
  shows "push_effect lo env V M pt w ma pt' (set_bytes q bs w') ma'"
proof -
  note P = push_effectD [OF p]
  have "frame_content env (set_bytes q bs w') g = frame_content env w g" if g: "g \<in># M" for g
  proof -
    have "g \<noteq> InMemory q" using frames_refD [OF ref g] new by auto
    then have "frame_content env (set_bytes q bs w') g = frame_content env w' g"
      by (cases g) (simp_all add: frame_content_def bytes_array_def set_bytes_def)
    then show ?thesis using P(7) [OF g] by simp
  qed
  moreover have "find_pte pt' (set_bytes q bs w') u = find_pte pt' w' u" for u
    by (rule set_bytes_table(2) [OF area_invD(2) [OF P(1)] out])
  ultimately show ?thesis
    using P(2-6,8,9,10) area_inv_set_bytes [OF P(1) out] unfolding push_effect_def by simp
qed

lemma push_page_ok:
  fixes w :: "('d, 'z) world"
  assumes inv: "ms_inv lo M ms w" and blank: "blank_area (ms_page_table ms) w ma"
    and one: "length (lm_frames (ma_inner ma)) = 1" and data: "length data \<le> 4096"
    and dis: "\<And>a. a \<in> set (ms_areas ms) \<Longrightarrow> area_keys a \<inter> area_keys ma = {}"
    and free: "3 \<le> km_free w"
  shows "\<exists>ms' w' p ma'. ms_push env oom ma (Some data) ms w = Some (Inr (), ms', w') \<and>
    insert_effect lo env M ma ms w ms' w' \<and> km_free w \<le> km_free w' + 3 \<and>
    ms_areas ms' = ms_areas ms @ [ma'] \<and> lm_range (ma_inner ma') = lm_range (ma_inner ma) \<and>
    lm_frames (ma_inner ma') = [InMemory p] \<and> take (length data) (bytes_array p w') = data \<and> arcs w p = 0"
proof -
  have B: "lm_wf (ma_inner ma)" "set (lm_frames (ma_inner ma)) \<subseteq> {Unallocated}" using blank by (simp_all add: blank_area_def)
  have sp: "space_inv lo M (ms_page_table ms) (ms_areas ms @ [ma]) w"
    by (rule space_add [where ys = "[]"]) (use inv blank dis in \<open>auto simp: ms_inv_def\<close>)
  have ai: "area_inv lo (space_frames (ms_areas ms) + M) (ms_page_table ms) w ma" using space_focus [OF sp] by simp
  let ?r = "lm_range (ma_inner ma)" and ?v = "ma_get_start ma"
  have b: "unat (range_r ?r) = Suc (unat (range_l ?r))"
    using B(1) one unfolding lm_wf_def lm_get_start_def lm_get_end_def by linarith
  then have r: "range_l ?r \<le> range_r ?r" by (simp add: word_le_nat_alt)
  have vs: "range_list ?r = [?v]" using range_list_upt [OF r] b by (simp add: ma_get_start_def lm_get_start_def)
  have rng: "{v. lm_in_range (ma_inner ma) v} = {?v}" using set_lm_range [OF B(1)] vs by simp
  have v: "lm_in_range (ma_inner ma) ?v" "lm_index ?v (ma_inner ma) = 0"
    using rng by (auto simp: lm_index_def ma_get_start_def)
  have "lm_frames (ma_inner ma) ! 0 \<in> set (lm_frames (ma_inner ma))" using one by (intro nth_mem) simp
  then have un: "lm_frames (ma_inner ma) ! lm_index ?v (ma_inner ma) = Unallocated" using B(2) v(2) by auto
  from map_one_push [OF ai v(1) un free, of env oom] obtain p ma' pt' w' where m:
    "map_one env oom ?v ma (ms_page_table ms) w = Some (Inr p, ma', pt', w')"
    "push_effect lo env {?v} (space_frames (ms_areas ms) + M) (ms_page_table ms) w ma pt' w' ma'"
    "km_free w \<le> km_free w' + 3" "lm_frames (ma_inner ma') ! 0 = InMemory p" unfolding v(2) by blast
  note P = push_effectD [OF m(2)]
  note I' = area_invD [OF P(1)]
  have len': "length (lm_frames (ma_inner ma')) = 1"
    using I'(4) B(1) one lm_range_cong [OF P(2)] by (simp add: lm_wf_def)
  then have frs: "lm_frames (ma_inner ma') = [InMemory p]" using m(4) by (cases "lm_frames (ma_inner ma')") auto
  have "InMemory p \<in># area_frames ma'" by (simp add: area_frames_def frs)
  then have new: "arcs w p = 0"
    using fresh_frames_in [OF P(9)] by (auto dest!: blank_frames(1) [OF blank])
  have out: "p \<notin> set (pt_frames pt')" using I'(7) by (auto simp: frs)
  have ref: "frames_ref w (space_frames (ms_areas ms) + M)" using space_invD(3) inv by (simp add: ms_inv_def)
  note Q = push_set_bytes [OF m(2) new out ref, of data]
  let ?ms = "ms\<lparr>ms_page_table := pt', ms_areas := ms_areas ms @ [ma']\<rparr>" and ?w = "set_bytes p data w'"
  have "insert_effect lo env M ma ms w ?ms ?w"
    by (rule push_effect_insert [OF inv blank dis])
      (use Q rng frs v(2) in \<open>simp_all add: resident_def set_eq_iff\<close>)
  moreover have "ms_push env oom ma (Some data) ms w = Some (Inr (), ?ms, ?w)"
    using m(1) data by (simp add: ms_push_def push_finish_def vs Let_def)
  moreover have "take (length data) (bytes_array p ?w) = data"
    using data by (auto simp: bytes_array_def set_bytes_def page_bytes_def page_fill_def take_map intro: nth_equalityI)
  ultimately show ?thesis using m(3) P(2) frs new
    by (intro exI [of _ ?ms] exI [of _ ?w] exI [of _ p] exI [of _ ma']) simp
qed

end
