(* ===== verification/Mm_Fork.thy ===== *)
theory Mm_Fork
  imports Mm_System Mm_Insert
begin

text \<open>
  Fork, \<open>from_existing_user\<close>: the child gets the areas of the parent with one more reference to
  every frame, and both page tables map the shared pages without write permission. The child
  sees what the parent sees.
\<close>

section \<open>Cloning references\<close>

lemma frame_clone_ok:
  fixes w :: "('d, 'z) world"
  assumes inv: "world_inv lo w" and held: "frame_held w fr"
  shows "world_inv lo (frame_clone fr w)" "kfa (frame_clone fr w) = kfa w" "pmem (frame_clone fr w) = pmem w"
    "frame_count (frame_clone fr w) g = frame_count w g + (if g = fr \<and> fr \<noteq> Unallocated then 1 else 0)"
    "frame_content env (frame_clone fr w) g = frame_content env w g"
proof -
  show "world_inv lo (frame_clone fr w)"
    using inv held
    by (cases fr) (auto simp: frame_clone_def world_inv_def frame_held_def arc_clone_def km_defs)
  show "kfa (frame_clone fr w) = kfa w" "pmem (frame_clone fr w) = pmem w"
    by (simp_all add: frame_clone_def arc_clone_def split: frame.split)
  show "frame_count (frame_clone fr w) g = frame_count w g + (if g = fr \<and> fr \<noteq> Unallocated then 1 else 0)"
    by (cases fr; cases g) (auto simp: frame_clone_def arc_clone_def frame_count_def)
  show "frame_content env (frame_clone fr w) g = frame_content env w g"
    by (rule frame_content_cong) (cases fr; cases g; simp add: frame_clone_def arc_clone_def)
qed

lemma frames_clone_all:
  fixes w :: "('d, 'z) world"
  assumes "world_inv lo w" and "\<forall>fr \<in> set frs. frame_held w fr"
  shows "world_inv lo (frames_clone frs w) \<and> kfa (frames_clone frs w) = kfa w \<and> pmem (frames_clone frs w) = pmem w \<and>
    (\<forall>g. frame_count (frames_clone frs w) g = frame_count w g + (if g = Unallocated then 0 else count (mset frs) g)) \<and>
    (\<forall>g. frame_content env (frames_clone frs w) g = frame_content env w g)"
  using assms
proof (induction frs arbitrary: w)
  case (Cons fr frs)
  have h: "frame_held w fr" using Cons.prems by simp
  note C = frame_clone_ok [OF Cons.prems(1) h]
  have "\<forall>g \<in> set frs. frame_held (frame_clone fr w) g"
    using Cons.prems(2) by (auto simp: frame_held_def C(4))
  from Cons.IH [OF C(1) this] C(2-5) show ?case by auto
qed simp

lemma frames_clone_ok:
  fixes w :: "('d, 'z) world"
  assumes "world_inv lo w" and "\<And>fr. fr \<in> set frs \<Longrightarrow> frame_held w fr"
  shows "world_inv lo (frames_clone frs w)" "kfa (frames_clone frs w) = kfa w" "pmem (frames_clone frs w) = pmem w"
    "frame_count (frames_clone frs w) g = frame_count w g + (if g = Unallocated then 0 else count (mset frs) g)"
    "frame_content env (frames_clone frs w) g = frame_content env w g"
  using frames_clone_all [OF assms(1), of frs env] assms(2) by simp_all

lemma frames_clone_ref:
  fixes w :: "('d, 'z) world"
  assumes "world_inv lo w" and "frames_ref w (mset frs + M)"
  shows "frames_ref (frames_clone frs w) (mset frs + (mset frs + M))"
proof -
  have "frame_held w fr" if "fr \<in> set frs" for fr by (rule frames_ref_held [OF assms(2)]) (use that in simp)
  note C = frames_clone_ok(4) [OF assms(1) this]
  show ?thesis using assms(2) by (simp add: frames_ref_def C)
qed

section \<open>Sharing the pages of one area\<close>

text \<open>
  The effect of \<open>map_from_existing_page_table\<close> on the pages \<open>V\<close>: the source loses the write
  permission, the destination maps the same frames; no frame outside the two tables changes.
\<close>

definition share_effect ::
  "usize \<Rightarrow> 'd kenv \<Rightarrow> MapPermission \<Rightarrow> VirtPageNum set \<Rightarrow> sv39 \<Rightarrow> sv39 \<Rightarrow> ('d, 'z) world \<Rightarrow> sv39 \<Rightarrow> ('d, 'z) world \<Rightarrow> bool" where
  "share_effect lo env perm V src dst w dst' w' \<longleftrightarrow>
     world_inv lo w' \<and> pt_wf lo src w' \<and> pt_wf lo dst' w' \<and> root_ppn dst' = root_ppn dst \<and>
     table_frames src \<inter> table_frames dst' = {} \<and> table_frames dst \<subseteq> table_frames dst' \<and>
     (\<forall>u. find_pte src w' u = (if vpn_key u \<in> vpn_key ` V then map_option pte_revoke_write (find_pte src w u)
                                else find_pte src w u)) \<and>
     (\<forall>u. find_pte dst' w' u = (if vpn_key u \<in> vpn_key ` V
        then map_option (\<lambda>e. pte_new (pte_ppn e) (perm OR PTE_V OR PTE_A OR PTE_D)) (find_pte src w u)
        else find_pte dst w u)) \<and>
     (\<forall>p. InMemory p \<in> table_frames dst' \<longrightarrow> InMemory p \<in> table_frames dst \<or> arcs w p = 0) \<and>
     frames_kept env (table_frames src \<union> table_frames dst') w w'"

lemma share_refl:
  "world_inv lo w \<Longrightarrow> pt_wf lo src w \<Longrightarrow> pt_wf lo dst w \<Longrightarrow> table_frames src \<inter> table_frames dst = {} \<Longrightarrow>
   share_effect lo env perm {} src dst w dst w"
  by (auto simp: share_effect_def frames_kept_def)

lemma share_effect_parts:
  assumes "share_effect lo env perm V src dst w dst' w'"
  shows "world_inv lo w'" "pt_wf lo src w'" "pt_wf lo dst' w'" "root_ppn dst' = root_ppn dst"
    "table_frames src \<inter> table_frames dst' = {}" "table_frames dst \<subseteq> table_frames dst'"
    "frames_kept env (table_frames src \<union> table_frames dst') w w'"
    "\<forall>p. InMemory p \<in> table_frames dst' \<longrightarrow> InMemory p \<in> table_frames dst \<or> arcs w p = 0"
    "\<forall>u. find_pte src w' u = (if vpn_key u \<in> vpn_key ` V then map_option pte_revoke_write (find_pte src w u)
                                else find_pte src w u)"
    "\<forall>u. find_pte dst' w' u = (if vpn_key u \<in> vpn_key ` V
        then map_option (\<lambda>e. pte_new (pte_ppn e) (perm OR PTE_V OR PTE_A OR PTE_D)) (find_pte src w u)
        else find_pte dst w u)"
  using assms unfolding share_effect_def by - (elim conjE, assumption)+

lemmas share_effectD = share_effect_parts [rule_format]

lemma share_trans:
  assumes a: "share_effect lo env perm V src dst w dst1 w1" and b: "share_effect lo env perm U src dst1 w1 dst2 w2"
    and keys: "vpn_key ` V \<inter> vpn_key ` U = {}"
  shows "share_effect lo env perm (V \<union> U) src dst w dst2 w2"
proof -
  note A = share_effectD [OF a] and B = share_effectD [OF b]
  have fresh: "InMemory p \<in> table_frames dst \<or> arcs w p = 0" if p: "InMemory p \<in> table_frames dst2" for p
  proof (cases "InMemory p \<in> table_frames dst1")
    case True
    then show ?thesis by (rule A(8))
  next
    case False
    then have "arcs w1 p = 0" using B(8) [OF p] by blast
    moreover have "InMemory p \<notin> table_frames src" using B(5) p by blast
    ultimately show ?thesis using frames_keptD(1) [OF A(7), of "InMemory p"] False by simp
  qed
  have kept: "frames_kept env (table_frames src \<union> table_frames dst2) w w2"
    by (rule frames_kept_subset [OF frames_kept_trans [OF A(7) B(7)]]) (use B(6) in auto)
  have new: "vpn_key u \<in> vpn_key ` U \<Longrightarrow> vpn_key u \<notin> vpn_key ` V" for u using keys by blast
  have src: "find_pte src w2 u = (if vpn_key u \<in> vpn_key ` (V \<union> U)
      then map_option pte_revoke_write (find_pte src w u) else find_pte src w u)" for u
  proof (cases "vpn_key u \<in> vpn_key ` U")
    case True
    then show ?thesis using new [OF True] by (simp only: image_Un Un_iff B(9) A(9) if_True if_False simp_thms)
  qed (simp only: image_Un Un_iff B(9) A(9) if_False simp_thms)
  have dst: "find_pte dst2 w2 u = (if vpn_key u \<in> vpn_key ` (V \<union> U)
      then map_option (\<lambda>e. pte_new (pte_ppn e) (perm OR PTE_V OR PTE_A OR PTE_D)) (find_pte src w u)
      else find_pte dst w u)" for u
  proof (cases "vpn_key u \<in> vpn_key ` U")
    case True
    then show ?thesis using new [OF True] by (simp only: image_Un Un_iff B(10) A(9) if_True if_False simp_thms)
  qed (simp only: image_Un Un_iff B(10) A(10) if_False simp_thms)
  have "root_ppn dst2 = root_ppn dst" "table_frames dst \<subseteq> table_frames dst2" using A(4,6) B(4,6) by auto
  then show ?thesis unfolding share_effect_def 
    by (intro conjI allI impI B(1-3,5) fresh kept src dst)
qed

text \<open>A table that an operation leaves alone.\<close>

lemma table_kept:
  fixes w w' :: "('d, 'z) world"
  assumes wf: "pt_wf lo pt w" and inv: "world_inv lo w'" and fa: "fa_end (kfa w') = fa_end (kfa w)"
    and kept: "frames_kept env A w w'" and out: "table_frames pt \<inter> A = {}"
  shows "pt_wf lo pt w'" "find_pte pt w' v = find_pte pt w v"
proof -
  have pos: "0 < arcs w f" "InMemory f \<notin> A" if "f \<in> set (pt_frames pt)" for f
    using pt_wfD(6) [OF wf that] out that by (auto simp: table_frames_def)
  have pos': "0 < arcs w' f" "bytes_array f w' = bytes_array f w" if "f \<in> set (pt_frames pt)" for f
    using kept pos [OF that] unfolding frames_kept_def
    by (auto dest!: spec [of _ "InMemory f"] simp: frame_content_def)
  have sub: "set (pt_frames pt) \<subseteq> km_allocated lo w'" using pos'(1) world_invD(2) [OF inv] by blast
  show "pt_wf lo pt w'" by (rule pt_same_frames(1) [OF wf world_invD(1) [OF inv] fa sub pos'])
  show "find_pte pt w' v = find_pte pt w v" by (rule pt_same_frames(2) [OF wf world_invD(1) [OF inv] fa sub pos'])
qed

lemma share_one:
  fixes w :: "('d, 'z) world"
  assumes inv: "world_inv lo w" and src: "pt_wf lo src w" and dst: "pt_wf lo dst w"
    and dis: "table_frames src \<inter> table_frames dst = {}" and un: "find_pte dst w v = None" and free: "2 \<le> km_free w"
  shows "\<exists>dst' w'. map_existing_loop oom perm (v # vs) dst src w = map_existing_loop oom perm vs dst' src w' \<and>
    share_effect lo env perm {v} src dst w dst' w' \<and> km_free w \<le> km_free w' + 2"
proof (cases "find_pte src w v")
  case None
  then have "sv39_block_and_ret_mut src v w = (None, w)" using sv39_block_and_ret_mut_ok [OF src, of v] by simp
  moreover have "find_pte src w u = None" "find_pte dst w u = None" if "vpn_key u = vpn_key v" for u
    using None un by (simp_all add: find_pte_key [OF that])
  then have "share_effect lo env perm {v} src dst w dst w"
    unfolding share_effect_def using inv src dst dis by (simp add: frames_kept_def)
  ultimately show ?thesis by (intro exI [of _ dst] exI [of _ w]) simp
next
  case (Some e)
  then obtain w1 where b: "sv39_block_and_ret_mut src v w = (Some (pte_ppn e), w1)"
    "entry_update lo src v (Some (pte_revoke_write e)) w w1" using sv39_block_and_ret_mut_ok [OF src, of v] by auto
  note K1 = entry_update_kept [OF inv b(2)]
  have U1: "pt_wf lo src w1" "kfa w1 = kfa w" "arcs w1 = arcs w"
    "\<And>u. find_pte src w1 u = (if vpn_key u = vpn_key v then Some (pte_revoke_write e) else find_pte src w u)"
    using b(2) by (simp_all add: entry_update_def)
  have fa1: "fa_end (kfa w1) = fa_end (kfa w)" "km_free w1 = km_free w" by (simp_all add: U1(2) km_defs)
  have dis1: "table_frames dst \<inter> table_frames src = {}" using dis by blast
  note D1 = table_kept [OF dst K1(1) fa1(1) K1(2) dis1]
  have "2 \<le> km_free w1" "find_pte dst w1 v = None" using free fa1 un D1(2) by simp_all
  from sv39_map_ok [OF D1(1) this, of oom "pte_ppn e" perm] obtain dst' w' where m:
    "sv39_map oom v (pte_ppn e) perm dst w1 = Some (dst', w')" "pt_ext lo dst w1 dst' w'" "km_free w1 \<le> km_free w' + 2"
    "\<forall>u. find_pte dst' w' u = (if vpn_key u = vpn_key v then Some (pte_new (pte_ppn e) (perm OR PTE_V OR PTE_A OR PTE_D))
        else find_pte dst w1 u)" by blast
  note K2 = pt_ext_kept [OF K1(1) m(2)]
  have X: "pt_wf lo dst' w'" "root_ppn dst' = root_ppn dst" "fa_end (kfa w') = fa_end (kfa w1)"
    "set (pt_frames dst) \<subseteq> set (pt_frames dst')" "set (pt_frames dst') \<inter> km_allocated lo w1 \<subseteq> set (pt_frames dst)"
    using m(2) by (simp_all add: pt_ext_def)
  have dis': "table_frames src \<inter> table_frames dst' = {}"
    using X(5) pt_wfD(3) [OF U1(1)] dis by (auto simp: table_frames_def)
  note S2 = table_kept [OF U1(1) K2(1) X(3) K2(2) dis']
  have fresh: "InMemory p \<in> table_frames dst \<or> arcs w p = 0" if "InMemory p \<in> table_frames dst'" for p
  proof (cases "p \<in> km_allocated lo w1")
    case False
    then show ?thesis using world_invD(2) [OF K1(1)] U1(3) by auto
  qed (use that X(5) in auto)
  have "frames_kept env (table_frames src \<union> table_frames dst') w w'"
    by (rule frames_kept_trans [OF K1(2) K2(2)])
  moreover have "find_pte src w' u = (if vpn_key u \<in> vpn_key ` {v} then map_option pte_revoke_write (find_pte src w u)
      else find_pte src w u)" for u
    by (cases "vpn_key u = vpn_key v") (simp_all add: S2(2) U1(4) Some find_pte_key [of u v])
  moreover have "find_pte dst' w' u = (if vpn_key u \<in> vpn_key ` {v}
      then map_option (\<lambda>e. pte_new (pte_ppn e) (perm OR PTE_V OR PTE_A OR PTE_D)) (find_pte src w u)
      else find_pte dst w u)" for u
    using m(4) by (cases "vpn_key u = vpn_key v") (simp_all add: D1(2) Some find_pte_key [of u v])
  moreover have "table_frames dst \<subseteq> table_frames dst'" using X(4) by (auto simp: table_frames_def)
  ultimately have "share_effect lo env perm {v} src dst w dst' w'"
    unfolding share_effect_def using K2(1) S2(1) X(1,2) dis' fresh by (intro conjI allI impI)
  moreover have "\<not> sv39_is_mapped dst w1 v" using \<open>find_pte dst w1 v = None\<close> by (simp add: sv39_is_mapped_iff)
  ultimately show ?thesis using b(1) m(1,3) fa1(2)
    by (intro exI [of _ dst'] exI [of _ w']) simp
qed

lemma share_loop:
  fixes w :: "('d, 'z) world"
  assumes "world_inv lo w" and "pt_wf lo src w" and "pt_wf lo dst w"
    and "table_frames src \<inter> table_frames dst = {}" and "distinct (map vpn_key vs)"
    and "\<forall>v \<in> set vs. find_pte dst w v = None" and "2 * length vs \<le> km_free w"
  shows "\<exists>dst' w'. map_existing_loop oom perm vs dst src w = Some (Inr (), dst', w') \<and>
    share_effect lo env perm (set vs) src dst w dst' w' \<and> km_free w \<le> km_free w' + 2 * length vs"
  using assms
proof (induction vs arbitrary: dst w)
  case Nil
  then show ?case using share_refl by fastforce
next
  case (Cons v vs)
  have "find_pte dst w v = None" "2 \<le> km_free w" using Cons.prems(6,7) by simp_all
  from share_one [OF Cons.prems(1-4) this, of oom perm vs env] obtain dst1 w1 where one:
    "map_existing_loop oom perm (v # vs) dst src w = map_existing_loop oom perm vs dst1 src w1"
    "share_effect lo env perm {v} src dst w dst1 w1" "km_free w \<le> km_free w1 + 2" by blast
  note E = share_effectD [OF one(2)]
  have key: "vpn_key ` {v} \<inter> vpn_key ` set vs = {}" "distinct (map vpn_key vs)" using Cons.prems(5) by auto
  have un: "\<forall>u \<in> set vs. find_pte dst1 w1 u = None"
  proof
    fix u assume u: "u \<in> set vs"
    then have "vpn_key u \<notin> vpn_key ` {v}" using key(1) by blast
    then show "find_pte dst1 w1 u = None" using E(10) [of u] Cons.prems(6) u by simp
  qed
  have "2 * length vs \<le> km_free w1" using one(3) Cons.prems(7) by simp
  from Cons.IH [OF E(1-3,5) key(2) un this] obtain dst' w' where
    l: "map_existing_loop oom perm vs dst1 src w1 = Some (Inr (), dst', w')"
      "share_effect lo env perm (set vs) src dst1 w1 dst' w'" "km_free w1 \<le> km_free w' + 2 * length vs" by blast
  have "share_effect lo env perm (set (v # vs)) src dst w dst' w'"
    using share_trans [OF one(2) l(2) key(1)] by simp
  then show ?case using one(1,3) l(1,3) by (intro exI [of _ dst'] exI [of _ w']) simp
qed

section \<open>A new page table\<close>

text \<open>What building a table does to the world: only frames nobody had become part of it.\<close>

definition table_grown ::
  "usize \<Rightarrow> 'd kenv \<Rightarrow> frame set \<Rightarrow> ('d, 'z) world \<Rightarrow> sv39 \<Rightarrow> ('d, 'z) world \<Rightarrow> bool" where
  "table_grown lo env T w pt w' \<longleftrightarrow>
     world_inv lo w' \<and> pt_wf lo pt w' \<and> fa_end (kfa w') = fa_end (kfa w) \<and>
     frames_kept env (table_frames pt) w w' \<and> T \<subseteq> table_frames pt \<and>
     (\<forall>p. InMemory p \<in> table_frames pt \<longrightarrow> InMemory p \<in> T \<or> arcs w p = 0)"

lemma sv39_new_grown:
  fixes w :: "('d, 'z) world"
  assumes inv: "world_inv lo w" and free: "0 < km_free w" and small: "fa_end (kfa w) \<le> push_bit 44 1"
  shows "\<exists>pt w'. sv39_new oom w = Some (pt, w') \<and> table_grown lo env {} w pt w' \<and>
    (\<forall>v. find_pte pt w' v = None) \<and> km_free w = Suc (km_free w')"
proof -
  from sv39_new_ok [OF world_invD(1) [OF inv] free small, of oom] obtain pt w' where n:
    "sv39_new oom w = Some (pt, w')" "pt_wf lo pt w'" "\<forall>v. find_pte pt w' v = None" "km_free w = Suc (km_free w')" by blast
  from frame_alloc_world [OF inv free, of oom] obtain p w1 where
    a: "frame_alloc oom w = Some (Some p, w1)" "alloc_effect lo p w w1" by blast
  have eq: "pt = \<lparr>root_ppn = p, pt_frames = [p]\<rparr>" "w' = w1" using n(1) by (simp_all add: sv39_new_def a(1))
  have "table_grown lo env {} w pt w'"
    using a(2) n(2) alloc_effect_kept [OF a(2), of env] by (simp add: table_grown_def eq alloc_effect_def table_frames_def)
  then show ?thesis using n(1,3,4) by blast
qed

lemma sv39_map_grown:
  fixes w1 :: "('d, 'z) world"
  assumes g: "table_grown lo env T w pt w1" and un: "find_pte pt w1 v = None" and free: "2 \<le> km_free w1"
  shows "\<exists>pt' w'. sv39_map oom v ppn perm pt w1 = Some (pt', w') \<and> table_grown lo env T w pt' w' \<and>
    km_free w1 \<le> km_free w' + 2 \<and> (\<forall>u. vpn_key u \<noteq> vpn_key v \<longrightarrow> find_pte pt' w' u = find_pte pt w1 u) \<and>
    (\<forall>u. vpn_key u = vpn_key v \<longrightarrow> find_pte pt' w' u = Some (pte_new ppn (perm OR PTE_V OR PTE_A OR PTE_D)))"
proof -
  have G: "world_inv lo w1" "pt_wf lo pt w1" "fa_end (kfa w1) = fa_end (kfa w)" "T \<subseteq> table_frames pt"
    "frames_kept env (table_frames pt) w w1" "\<And>p. p \<in> set (pt_frames pt) \<Longrightarrow> InMemory p \<in> T \<or> arcs w p = 0"
    using g by (simp_all add: table_grown_def)
  from sv39_map_ok [OF G(2) free un, of oom ppn perm] obtain pt' w' where m:
    "sv39_map oom v ppn perm pt w1 = Some (pt', w')" "pt_ext lo pt w1 pt' w'" "km_free w1 \<le> km_free w' + 2"
    "\<forall>u. find_pte pt' w' u = (if vpn_key u = vpn_key v then Some (pte_new ppn (perm OR PTE_V OR PTE_A OR PTE_D))
        else find_pte pt w1 u)" by blast
  note K = pt_ext_kept [OF G(1) m(2)]
  have X: "pt_wf lo pt' w'" "fa_end (kfa w') = fa_end (kfa w1)"
    "set (pt_frames pt) \<subseteq> set (pt_frames pt')" "set (pt_frames pt') \<inter> km_allocated lo w1 \<subseteq> set (pt_frames pt)"
    using m(2) by (simp_all add: pt_ext_def)
  have sub: "table_frames pt \<subseteq> table_frames pt'" using X(3) by (auto simp: table_frames_def)
  have "frames_kept env (table_frames pt') w w'"
    by (rule frames_kept_subset [OF frames_kept_trans [OF G(5) K(2)]]) (use sub in auto)
  moreover have "InMemory p \<in> T \<or> arcs w p = 0" if "InMemory p \<in> table_frames pt'" for p
  proof (cases "p \<in> set (pt_frames pt)")
    case False
    then have "p \<notin> km_allocated lo w1" using that X(4) by auto
    then have "arcs w1 p = 0" using world_invD(2) [OF G(1)] by blast
    then show ?thesis using frames_keptD(1) [OF G(5), of "InMemory p"] False by simp
  qed (use G(6) in simp)
  ultimately have "table_grown lo env T w pt' w'"
    using K(1) X(1,2) G(3,4) sub by (auto simp: table_grown_def)
  then show ?thesis using m(1,3,4) by auto
qed

section \<open>Sharing all areas\<close>

text \<open>No entry for the page grants write access.\<close>

definition read_only :: "sv39 \<Rightarrow> ('d, 'z) world \<Rightarrow> VirtPageNum \<Rightarrow> bool" where
  "read_only pt w v \<longleftrightarrow> (\<forall>e. find_pte pt w v = Some e \<longrightarrow> \<not> pte_writable e)"

definition fork_effect ::
  "usize \<Rightarrow> 'd kenv \<Rightarrow> 'f map_area list \<Rightarrow> sv39 \<Rightarrow> sv39 \<Rightarrow> ('d, 'z) world \<Rightarrow> sv39 \<Rightarrow> ('d, 'z) world \<Rightarrow> bool" where
  "fork_effect lo env areas src dst w dst' w' \<longleftrightarrow>
     world_inv lo w' \<and> pt_wf lo src w' \<and> pt_wf lo dst' w' \<and>
     table_frames src \<inter> table_frames dst' = {} \<and> table_frames dst \<subseteq> table_frames dst' \<and>
     (\<forall>p. InMemory p \<in> table_frames dst' \<longrightarrow> InMemory p \<in> table_frames dst \<or> arcs w p = 0) \<and>
     (\<forall>u. vpn_key u \<notin> areas_keys areas \<longrightarrow>
        find_pte src w' u = find_pte src w u \<and> find_pte dst' w' u = find_pte dst w u) \<and>
     (\<forall>u. vpn_key u \<in> areas_keys areas \<longrightarrow>
        sv39_translate src w' u = sv39_translate src w u \<and> sv39_translate dst' w' u = sv39_translate src w u \<and>
        read_only src w' u \<and> read_only dst' w' u) \<and>
     (\<forall>g. g \<noteq> Unallocated \<longrightarrow> g \<notin> table_frames src \<union> table_frames dst' \<longrightarrow>
        frame_count w' g = frame_count w g + count (space_frames areas) g \<and>
        (0 < frame_count w g \<longrightarrow> frame_content env w' g = frame_content env w g))"

lemma fork_effect_parts:
  assumes "fork_effect lo env areas src dst w dst' w'"
  shows "world_inv lo w'" "pt_wf lo src w'" "pt_wf lo dst' w'"
    "table_frames src \<inter> table_frames dst' = {}" "table_frames dst \<subseteq> table_frames dst'"
    "\<forall>p. InMemory p \<in> table_frames dst' \<longrightarrow> InMemory p \<in> table_frames dst \<or> arcs w p = 0"
    "\<forall>u. vpn_key u \<notin> areas_keys areas \<longrightarrow>
        find_pte src w' u = find_pte src w u \<and> find_pte dst' w' u = find_pte dst w u"
    "\<forall>u. vpn_key u \<in> areas_keys areas \<longrightarrow>
        sv39_translate src w' u = sv39_translate src w u \<and> sv39_translate dst' w' u = sv39_translate src w u \<and>
        read_only src w' u \<and> read_only dst' w' u"
    "\<forall>g. g \<noteq> Unallocated \<longrightarrow> g \<notin> table_frames src \<union> table_frames dst' \<longrightarrow>
        frame_count w' g = frame_count w g + count (space_frames areas) g \<and>
        (0 < frame_count w g \<longrightarrow> frame_content env w' g = frame_content env w g)"
  using assms unfolding fork_effect_def by - (elim conjE, assumption)+

lemmas fork_effectD = fork_effect_parts [rule_format]

lemma fork_refl:
  "world_inv lo w \<Longrightarrow> pt_wf lo src w \<Longrightarrow> pt_wf lo dst w \<Longrightarrow> table_frames src \<inter> table_frames dst = {} \<Longrightarrow>
   fork_effect lo env [] src dst w dst w"
  by (simp add: fork_effect_def areas_keys_def)

lemma read_only_cong: "find_pte pt' w' v = find_pte pt w v \<Longrightarrow> read_only pt' w' v = read_only pt w v"
  by (simp add: read_only_def)

lemma translate_cong: "find_pte pt' w' v = find_pte pt w v \<Longrightarrow> sv39_translate pt' w' v = sv39_translate pt w v"
  by (simp add: sv39_translate_def)

lemma fork_trans:
  fixes w w1 w2 :: "('d, 'z) world"
  assumes a: "fork_effect lo env [ma] src dst w dst1 w1" and b: "fork_effect lo env areas src dst1 w1 dst2 w2"
    and keys: "area_keys ma \<inter> areas_keys areas = {}"
  shows "fork_effect lo env (ma # areas) src dst w dst2 w2"
proof -
  note A = fork_effectD [OF a] and B = fork_effectD [OF b]
  have K: "areas_keys [ma] = area_keys ma" "areas_keys (ma # areas) = area_keys ma \<union> areas_keys areas"
    by (simp_all add: areas_keys_def)
  have count1: "frame_count w1 g = frame_count w g + count (area_frames ma) g"
    "0 < frame_count w g \<Longrightarrow> frame_content env w1 g = frame_content env w g"
    if "g \<noteq> Unallocated" "g \<notin> table_frames src \<union> table_frames dst2" for g
    using A(9) [of g] that B(5) by auto
  have "InMemory p \<in> table_frames dst \<or> arcs w p = 0" if p: "InMemory p \<in> table_frames dst2" for p
  proof (cases "InMemory p \<in> table_frames dst1")
    case True
    then show ?thesis by (rule A(6))
  next
    case False
    then have "arcs w1 p = 0" using B(6) [OF p] by blast
    moreover have "InMemory p \<notin> table_frames src" using B(4) p by blast
    ultimately show ?thesis using A(9) [of "InMemory p"] False by simp
  qed
  moreover have "find_pte src w2 u = find_pte src w u \<and> find_pte dst2 w2 u = find_pte dst w u"
    if "vpn_key u \<notin> areas_keys (ma # areas)" for u
    using A(7) [of u] B(7) [of u] that by (simp add: K)
  moreover have "sv39_translate src w2 u = sv39_translate src w u \<and> sv39_translate dst2 w2 u = sv39_translate src w u \<and>
      read_only src w2 u \<and> read_only dst2 w2 u" if u: "vpn_key u \<in> areas_keys (ma # areas)" for u
  proof (cases "vpn_key u \<in> area_keys ma")
    case True
    then have "vpn_key u \<notin> areas_keys areas" using keys by blast
    note E = B(7) [OF this]
    show ?thesis
      using A(8) [of u] True read_only_cong [OF conjunct1 [OF E]] read_only_cong [OF conjunct2 [OF E]]
        translate_cong [OF conjunct1 [OF E]] translate_cong [OF conjunct2 [OF E]] by (simp add: K)
  next
    case False
    then have "vpn_key u \<in> areas_keys areas" "find_pte src w1 u = find_pte src w u" using u A(7) by (auto simp: K)
    then show ?thesis using B(8) [of u] translate_cong by metis
  qed
  moreover have "frame_count w2 g = frame_count w g + count (space_frames (ma # areas)) g \<and>
      (0 < frame_count w g \<longrightarrow> frame_content env w2 g = frame_content env w g)"
    if "g \<noteq> Unallocated" "g \<notin> table_frames src \<union> table_frames dst2" for g
    using B(9) [OF that] count1 [OF that] by auto
  moreover have "table_frames dst \<subseteq> table_frames dst2" using A(5) B(5) by blast
  ultimately show ?thesis unfolding fork_effect_def using B(1-4) by blast
qed

lemma pte_shared:
  "\<not> pte_writable (pte_revoke_write e)"
  "\<not> pte_writable (pte_new p (flags_difference perm perm_W OR PTE_V OR PTE_A OR PTE_D))"
  "pte_ppn (pte_new (pte_ppn e) f) = pte_ppn e"
proof -
  show "\<not> pte_writable (pte_revoke_write e)" by (simp add: bits_simps)
  show "\<not> pte_writable (pte_new p (flags_difference perm perm_W OR PTE_V OR PTE_A OR PTE_D))"
    by (simp add: bits_simps flags_difference_def bit_or_iff bit_and_iff bit_not_iff)
  show "pte_ppn (pte_new (pte_ppn e) f) = pte_ppn e"
    unfolding pte_ppn_new by (rule bit_word_eqI) (auto simp: bit_take_bit_iff bit_pte_ppn)
qed

lemma pte_trampoline:
  "\<not> pte_writable (pte_new p (perm_R OR perm_X OR PTE_V OR PTE_A OR PTE_D))"
  "\<not> pte_writable (pte_new p (perm_R OR perm_X OR perm_U OR PTE_V OR PTE_A OR PTE_D))"
  by (simp_all add: bits_simps bit_or_iff)

lemma area_vpns:
  assumes "lm_wf (ma_inner ma)" and "length (lm_frames (ma_inner ma)) \<le> 2 ^ 27"
  shows "length (range_list (lm_range (ma_inner ma))) = length (lm_frames (ma_inner ma))"
    "vpn_key ` set (range_list (lm_range (ma_inner ma))) = area_keys ma"
    "distinct (map vpn_key (range_list (lm_range (ma_inner ma))))"
proof -
  let ?r = "lm_range (ma_inner ma)"
  have r: "range_l ?r \<le> range_r ?r" using assms(1) by (simp add: lm_wf_def lm_get_start_def lm_get_end_def)
  show "length (range_list ?r) = length (lm_frames (ma_inner ma))"
    using assms(1) range_list_upt [OF r] by (simp add: lm_wf_def lm_get_start_def lm_get_end_def)
  show "vpn_key ` set (range_list ?r) = area_keys ma"
    by (auto simp: set_lm_range [OF assms(1)] area_keys_def)
  have "inj_on vpn_key (set (range_list ?r))"
  proof (rule inj_onI)
    fix u v assume "u \<in> set (range_list ?r)" "v \<in> set (range_list ?r)" and eq: "vpn_key u = vpn_key v"
    then have uv: "lm_in_range (ma_inner ma) u" "lm_in_range (ma_inner ma) v" by (simp_all add: set_lm_range [OF assms(1)])
    note U = lm_index_in_range [OF assms(1) uv(1)] and V = lm_index_in_range [OF assms(1) uv(2)]
    have "lm_index u (ma_inner ma) = lm_index v (ma_inner ma)"
      by (rule lm_keys [OF assms U(1) V(1)]) (simp add: U(2) V(2) eq)
    then show "u = v" using U(2) V(2) by metis
  qed
  then show "distinct (map vpn_key (range_list ?r))"
    using distinct_range_list [OF r] by (simp add: distinct_map)
qed

lemma fork_one:
  fixes w :: "('d, 'z) world"
  assumes inv: "world_inv lo w" and src: "pt_wf lo src w" and dst: "pt_wf lo dst w"
    and dis: "table_frames src \<inter> table_frames dst = {}" and ok: "area_ok src w ma"
    and held: "\<And>fr. fr \<in># area_frames ma \<Longrightarrow> frame_held w fr"
    and un: "\<And>u. vpn_key u \<in> area_keys ma \<Longrightarrow> find_pte dst w u = None"
    and free: "2 * length (lm_frames (ma_inner ma)) \<le> km_free w"
  shows "\<exists>dst' w'. map_from_existing_page_table oom ma dst src (frames_clone (lm_frames (ma_inner ma)) w) = Some (Inr (), dst', w') \<and>
    fork_effect lo env [ma] src dst w dst' w' \<and> km_free w \<le> km_free w' + 2 * length (lm_frames (ma_inner ma))"
proof -
  let ?frs = "lm_frames (ma_inner ma)" and ?perm = "flags_difference (ma_map_perm ma) perm_W"
  let ?w1 = "frames_clone ?frs w" and ?vs = "range_list (lm_range (ma_inner ma))"
  have O: "lm_wf (ma_inner ma)" "length ?frs \<le> 2 ^ 27" using ok by (simp_all add: area_ok_def)
  note V = area_vpns [OF O]
  have h: "\<forall>fr \<in> set ?frs. frame_held w fr" using held by (simp add: area_frames_def)
  have C: "world_inv lo ?w1" "kfa ?w1 = kfa w" "pmem ?w1 = pmem w"
    "\<And>g. frame_count ?w1 g = frame_count w g + (if g = Unallocated then 0 else count (mset ?frs) g)"
    "\<And>g. frame_content env ?w1 g = frame_content env w g"
    using frames_clone_all [OF inv h, of env] by simp_all
  have keep: "pt_wf lo pt ?w1" "find_pte pt ?w1 u = find_pte pt w u" if wf: "pt_wf lo pt w" for pt u
  proof -
    have "0 < arcs ?w1 f" if "f \<in> set (pt_frames pt)" for f
      using pt_wfD(6) [OF wf that] C(4) [of "InMemory f"] by simp
    moreover from this have "set (pt_frames pt) \<subseteq> km_allocated lo ?w1" using world_invD(2) [OF C(1)] by blast
    moreover have "bytes_array f ?w1 = bytes_array f w" for f by (simp add: bytes_array_def C(3))
    ultimately show "pt_wf lo pt ?w1" "find_pte pt ?w1 u = find_pte pt w u"
      using pt_same_frames [OF wf world_invD(1) [OF C(1)]] by (simp_all add: C(2))
  qed
  have fr: "km_free ?w1 = km_free w" by (simp add: km_defs C(2))
  have un1: "\<forall>v \<in> set ?vs. find_pte dst ?w1 v = None"
    using un V(2) keep(2) [OF dst] by auto
  have "2 * length ?vs \<le> km_free ?w1" using free V(1) fr by simp
  from share_loop [OF C(1) keep(1) [OF src] keep(1) [OF dst] dis V(3) un1 this, of oom ?perm env]
  obtain dst' w' where l: "map_existing_loop oom ?perm ?vs dst src ?w1 = Some (Inr (), dst', w')"
    "share_effect lo env ?perm (set ?vs) src dst ?w1 dst' w'" "km_free ?w1 \<le> km_free w' + 2 * length ?vs" by blast
  note E = share_effectD [OF l(2), unfolded V(2) keep(2) [OF src] keep(2) [OF dst]]
  have fresh: "InMemory p \<in> table_frames dst \<or> arcs w p = 0" if "InMemory p \<in> table_frames dst'" for p
    using E(8) [OF that] C(4) [of "InMemory p"] by auto
  have out: "find_pte src w' u = find_pte src w u \<and> find_pte dst' w' u = find_pte dst w u"
    if "vpn_key u \<notin> areas_keys [ma]" for u
    using E(9) [of u] E(10) [of u] that by (simp add: areas_keys_def)
  have "in": "sv39_translate src w' u = sv39_translate src w u \<and> sv39_translate dst' w' u = sv39_translate src w u \<and>
      read_only src w' u \<and> read_only dst' w' u" if "vpn_key u \<in> areas_keys [ma]" for u
    using E(9) [of u] E(10) [of u] that
    by (cases "find_pte src w u") (simp_all add: areas_keys_def sv39_translate_def read_only_def pte_shared)
  have cnt: "frame_count w' g = frame_count w g + count (space_frames [ma]) g \<and>
      (0 < frame_count w g \<longrightarrow> frame_content env w' g = frame_content env w g)"
    if g: "g \<noteq> Unallocated" "g \<notin> table_frames src \<union> table_frames dst'" for g
    using E(7) g C(4,5) [of g] unfolding frames_kept_def by (auto simp: area_frames_def)
  have "fork_effect lo env [ma] src dst w dst' w'"
    unfolding fork_effect_def using E(1-3,5,6) fresh out "in" cnt by blast
  then show ?thesis using l(1,3) V(1) fr by (auto simp: map_from_existing_page_table_def)
qed

lemma fork_areas_ok:
  fixes w :: "('d, 'z) world"
  assumes "world_inv lo w" and "pt_wf lo src w" and "pt_wf lo dst w" and "table_frames src \<inter> table_frames dst = {}"
    and "\<forall>ma \<in> set areas. area_ok src w ma" and "disjoint_areas areas"
    and "\<forall>fr \<in># space_frames areas. frame_held w fr \<and> fr \<notin> table_frames src \<union> table_frames dst"
    and "\<forall>u. vpn_key u \<in> areas_keys areas \<longrightarrow> find_pte dst w u = None"
    and "2 * size (space_frames areas) \<le> km_free w"
  shows "\<exists>dst' w'. fork_areas oom areas dst src w = Some (dst', w') \<and>
    fork_effect lo env areas src dst w dst' w' \<and> km_free w \<le> km_free w' + 2 * size (space_frames areas)"
  using assms
proof (induction areas arbitrary: dst w)
  case Nil
  then show ?case using fork_refl by fastforce
next
  case (Cons ma areas)
  let ?n = "length (lm_frames (ma_inner ma))"
  have sz: "size (area_frames ma) = ?n" by (simp add: area_frames_def)
  have K: "areas_keys (ma # areas) = area_keys ma \<union> areas_keys areas" by (simp add: areas_keys_def)
  have dk: "area_keys ma \<inter> areas_keys areas = {}" "disjoint_areas areas"
    using Cons.prems(6) by (auto simp: disjoint_areas_def areas_keys_def)
  have "area_ok src w ma" "\<And>fr. fr \<in># area_frames ma \<Longrightarrow> frame_held w fr"
    "\<And>u. vpn_key u \<in> area_keys ma \<Longrightarrow> find_pte dst w u = None" "2 * ?n \<le> km_free w"
    using Cons.prems(5,7,8,9) sz by (auto simp: K)
  from fork_one [OF Cons.prems(1-4) this, of oom env] obtain dst1 w1 where one:
    "map_from_existing_page_table oom ma dst src (frames_clone (lm_frames (ma_inner ma)) w) = Some (Inr (), dst1, w1)"
    "fork_effect lo env [ma] src dst w dst1 w1" "km_free w \<le> km_free w1 + 2 * ?n" by blast
  note E = fork_effectD [OF one(2)]
  have same: "find_pte src w1 u = find_pte src w u" "find_pte dst1 w1 u = find_pte dst w u"
    if "vpn_key u \<in> areas_keys areas" for u
    using E(7) [of u] that dk(1) by (auto simp: areas_keys_def)
  have ok: "\<forall>a \<in> set areas. area_ok src w1 a"
  proof
    fix a assume a: "a \<in> set areas"
    show "area_ok src w1 a"
      by (rule area_ok_cong [where pt = src and w = w]) (use Cons.prems(5) a same(1) in \<open>auto simp: areas_keys_def\<close>)
  qed
  have held: "\<forall>fr \<in># space_frames areas. frame_held w1 fr \<and> fr \<notin> table_frames src \<union> table_frames dst1"
  proof
    fix fr assume "fr \<in># space_frames areas"
    then have fr: "frame_held w fr" "fr \<notin> table_frames src \<union> table_frames dst" using Cons.prems(7) by auto
    have "fr \<notin> table_frames dst1"
    proof
      assume t: "fr \<in> table_frames dst1"
      then obtain p where "fr = InMemory p" by (auto simp: table_frames_def)
      then show False using E(6) [of p] t fr by (simp add: frame_held_def)
    qed
    then show "frame_held w1 fr \<and> fr \<notin> table_frames src \<union> table_frames dst1"
      using E(9) [of fr] fr by (cases "fr = Unallocated") (auto simp: frame_held_def)
  qed
  have un: "\<forall>u. vpn_key u \<in> areas_keys areas \<longrightarrow> find_pte dst1 w1 u = None"
    using same(2) Cons.prems(8) by (simp add: K)
  have "2 * size (space_frames areas) \<le> km_free w1" using one(3) Cons.prems(9) sz by simp
  from Cons.IH [OF E(1-4) ok dk(2) held un this] obtain dst' w' where l:
    "fork_areas oom areas dst1 src w1 = Some (dst', w')" "fork_effect lo env areas src dst1 w1 dst' w'"
    "km_free w1 \<le> km_free w' + 2 * size (space_frames areas)" by blast
  have "fork_effect lo env (ma # areas) src dst w dst' w'" by (rule fork_trans [OF one(2) l(2) dk(1)])
  then show ?case using one(1,3) l(1,3) sz by (intro exI [of _ dst'] exI [of _ w']) simp
qed

section \<open>The system after fork\<close>

lemma area_ok_translate:
  assumes "area_ok pt w ma" and "\<And>u. vpn_key u \<in> area_keys ma \<Longrightarrow> sv39_translate pt' w' u = sv39_translate pt w u"
  shows "area_ok pt' w' ma"
  using assms by (simp add: area_ok_def area_keys_vpn)

text \<open>
  A table that was built apart and shares the given areas of one space makes a new space of the
  system. \<open>w0\<close> is the world after the table was built, \<open>w'\<close> the one after the areas were shared.
\<close>

lemma sys_fork:
  fixes w w0 w' :: "('d, 'z) world"
  assumes inv: "sys_inv lo M (ss @ parent # ts) w"
    and built: "table_grown lo env {} w dst w0"
    and fork: "fork_effect lo env areas (ms_page_table parent) dst w0 dst' w'"
    and areas: "ms_areas parent = areas @ rest"
    and child: "child = \<lparr>ms_page_table = dst', ms_areas = areas\<rparr>"
  shows "sys_inv lo M (child # ss @ parent # ts) w'"
    and "\<forall>k \<in> set (ss @ parent # ts). ms_view env w' k = ms_view env w k"
    and "g \<in># all_frames (ss @ parent # ts) + M \<Longrightarrow> frame_content env w' g = frame_content env w g"
    and "k \<in> set ss \<union> set ts \<Longrightarrow> find_pte (ms_page_table k) w' u = find_pte (ms_page_table k) w u"
    and "find_pte (ms_page_table parent) w0 u = find_pte (ms_page_table parent) w u"
proof -
  note S = sys_invD [OF inv] and E = fork_effectD [OF fork]
  let ?src = "ms_page_table parent" and ?all = "all_frames (ss @ parent # ts) + M" and ?spaces = "ss @ parent # ts"
  have G: "world_inv lo w0" "frames_kept env (table_frames dst) w w0"
    "\<And>p. InMemory p \<in> table_frames dst \<Longrightarrow> arcs w p = 0"
    using built by (simp_all add: table_grown_def)
  have new: "arcs w p = 0" if p: "InMemory p \<in> table_frames dst'" for p
  proof (cases "InMemory p \<in> table_frames dst")
    case False
    then have "arcs w0 p = 0" using E(6) [OF p] by blast
    then show ?thesis using frames_keptD(1) [OF G(2) False] by simp
  qed (use G(3) in blast)
  have count: "frame_count w' g = frame_count w g + count (space_frames areas) g"
    and content: "frame_content env w' g = frame_content env w g"
    if "g \<noteq> Unallocated" "0 < frame_count w g" "g \<notin> table_frames ?src" for g
  proof -
    have "g \<notin> table_frames dst'" using new that(2) by (auto simp: table_frames_def)
    moreover from this have "g \<notin> table_frames dst" using E(5) by blast
    ultimately show "frame_count w' g = frame_count w g + count (space_frames areas) g"
      "frame_content env w' g = frame_content env w g"
      using E(9) [of g] that G(2) by (auto simp: frames_kept_def)
  qed
  have okp: "space_ok lo ?all w parent" using S(3) by simp
  have held: "0 < frame_count w g \<and> g \<notin> table_frames (ms_page_table k)"
    if "g \<in># ?all" "g \<noteq> Unallocated" "k \<in> set ?spaces" for g k
    using frames_refD [OF S(2) that(1,2)] S(3) [OF that(3)] that(1) by (auto simp: space_ok_def)
  have sub: "space_frames areas \<subseteq># ?all" by (simp add: areas)
  have all': "all_frames (child # ?spaces) + M = space_frames areas + ?all" by (simp add: child)
  have ref: "frames_ref w' (space_frames areas + ?all)"
    unfolding frames_ref_def
  proof (intro allI impI)
    fix g :: frame assume ne: "g \<noteq> Unallocated"
    show "count (space_frames areas + ?all) g \<le> frame_count w' g"
    proof (cases "g \<in># ?all")
      case True
      then show ?thesis using held [OF True ne, of parent] count [OF ne] S(2) ne by (auto simp: frames_ref_def)
    next
      case False
      then have "count (space_frames areas + ?all) g = 0"
        using sub by (metis count_eq_zero_iff mset_subset_eqD set_mset_union Un_iff)
      then show ?thesis by simp
    qed
  qed
  show fr: "frame_content env w' fr = frame_content env w fr" if "fr \<in># ?all" for fr
    using content held [OF that, of parent] by (cases "fr = Unallocated") (simp_all add: frame_content_def)
  have sub': "set_mset (space_frames areas + ?all) \<subseteq> set_mset ?all" using set_mset_mono [OF sub] by auto
  have w': "world_inv lo w'" "fa_end (kfa w') \<le> push_bit 44 1" using E(1) pt_wfD(2) [OF E(2)] by simp_all
  have table: "0 < arcs w' p" "bytes_array p w' = bytes_array p w"
    if k: "k \<in> set ss \<union> set ts" and p: "p \<in> set (pt_frames (ms_page_table k))" for k p
  proof -
    have pos: "0 < arcs w p" using S(3) [of k] k p pt_wfD(6) by (auto simp: space_ok_def)
    have "table_frames (ms_page_table k) \<inter> table_frames ?src = {}"
      using S(4) k by (auto simp: disjoint_tables_def sorted_wrt_append Int_commute)
    then have "InMemory p \<notin> table_frames ?src" using p by (auto simp: table_frames_def)
    then show "0 < arcs w' p" "bytes_array p w' = bytes_array p w"
      using pos count [of "InMemory p"] content [of "InMemory p"] by (auto simp: frame_content_def)
  qed
  have okk: "space_ok lo ?all w k" if "k \<in> set ss \<union> set ts" for k using S(3) that by auto
  have outk: "set_mset (space_frames areas + ?all) \<inter> table_frames (ms_page_table k) = {}" if "k \<in> set ss \<union> set ts" for k
    using okk [OF that] sub' by (auto simp: space_ok_def)
  have others: "space_ok lo (space_frames areas + ?all) w' k" if k: "k \<in> set ss \<union> set ts" for k
    by (rule space_ok_kept(1) [OF okk [OF k] w' table [OF k] outk [OF k]])
  show "find_pte (ms_page_table k) w' u = find_pte (ms_page_table k) w u" if k: "k \<in> set ss \<union> set ts"
    by (rule space_ok_kept(2) [OF okk [OF k] w' table [OF k] outk [OF k]])
  have src0: "find_pte ?src w0 u = find_pte ?src w u" for u
  proof (rule table_kept(2) [OF _ G(1) _ G(2)])
    show wf: "pt_wf lo ?src w" using okp by (simp add: space_ok_def)
    show "fa_end (kfa w0) = fa_end (kfa w)" using built by (simp add: table_grown_def)
    show "table_frames ?src \<inter> table_frames dst = {}" using G(3) pt_wfD(6) [OF wf] by (force simp: table_frames_def)
  qed
  then show "find_pte ?src w0 u = find_pte ?src w u" .
  have src': "sv39_translate ?src w' u = sv39_translate ?src w u" for u
    using E(7) [of u] E(8) [of u] src0 [of u] by (cases "vpn_key u \<in> areas_keys areas") (auto simp: sv39_translate_def)
  have ok_areas: "area_ok ?src w a" if "a \<in> set (areas @ rest)" for a
    using okp that by (auto simp: space_ok_def areas)
  have "area_ok ?src w' a" if "a \<in> set (areas @ rest)" for a
    by (rule area_ok_translate [OF ok_areas [OF that]]) (rule src')
  then have parent: "space_ok lo (space_frames areas + ?all) w' parent"
    using okp E(2) sub' by (auto simp: space_ok_def areas)
  have out': "fr \<notin> table_frames dst'" if "fr \<in># space_frames areas + ?all" for fr
    using that sub' new held [of fr parent] by (auto simp: table_frames_def)
  have "area_ok dst' w' a" if a: "a \<in> set areas" for a
  proof (rule area_ok_translate [OF ok_areas])
    show "a \<in> set (areas @ rest)" using a by simp
    show "sv39_translate dst' w' u = sv39_translate ?src w u" if "vpn_key u \<in> area_keys a" for u
      using E(8) [of u] that a src0 [of u] by (auto simp: areas_keys_def sv39_translate_def)
  qed
  then have child_ok: "space_ok lo (space_frames areas + ?all) w' child"
    using okp E(3) out' by (auto simp: space_ok_def areas child disjoint_areas_def sorted_wrt_append)
  have "table_frames dst' \<inter> table_frames (ms_page_table k) = {}" if k: "k \<in> set ?spaces" for k
    using new S(3) [OF k] pt_wfD(6) by (force simp: space_ok_def table_frames_def)
  then have dis: "disjoint_tables (child # ?spaces)" using S(4) by (auto simp: disjoint_tables_def child)
  show "sys_inv lo M (child # ?spaces) w'"
    unfolding sys_inv_def all' using E(1) ref others parent child_ok dis by auto
  show "\<forall>k \<in> set ?spaces. ms_view env w' k = ms_view env w k"
  proof
    fix k assume k: "k \<in> set ?spaces"
    show "ms_view env w' k = ms_view env w k"
    proof (rule ms_view_kept [OF S(3) [OF k]])
      fix g assume g: "g \<in># space_frames (ms_areas k)"
      have "g \<in># ?all" using g space_frames_sub [OF k] by (meson mset_subset_eqD union_iff)
      then show "frame_content env w' g = frame_content env w g" by (rule fr)
    qed
  qed
qed

text \<open>
  After the areas are shared, no entry of the child is writable, none of the parent for a shared
  page, and no writable entry of the system points to a shared frame.
\<close>

lemma entry_once:
  assumes "ms_tight (A + R) k w" and "find_pte (ms_page_table k) w u = Some e"
    and "vpn_key u \<in> areas_keys (ms_areas k) \<Longrightarrow> pte_writable e \<Longrightarrow> InMemory (pte_ppn e) \<in># R"
  shows "(vpn_key u \<in> areas_keys (ms_areas k) \<or> vpn_key u \<in> trampoline_keys \<and> \<not> pte_writable e) \<and>
    (pte_writable e \<longrightarrow> count (A + (A + R)) (InMemory (pte_ppn e)) \<le> 1)"
proof -
  have t: "vpn_key u \<in> areas_keys (ms_areas k) \<or> vpn_key u \<in> trampoline_keys \<and> \<not> pte_writable e"
    "pte_writable e \<longrightarrow> count (A + R) (InMemory (pte_ppn e)) \<le> 1"
    using assms(1,2) unfolding ms_tight_def by blast+
  have "count (A + (A + R)) (InMemory (pte_ppn e)) \<le> 1" if wr: "pte_writable e"
  proof -
    have "1 \<le> count R (InMemory (pte_ppn e))" using assms(3) t(1) wr by (simp add: Suc_le_eq count_greater_zero_iff)
    then show ?thesis using t(2) wr unfolding count_union by linarith
  qed
  then show ?thesis using t(1) by blast
qed

lemma safe_fork:
  fixes w w0 w' :: "('d, 'z) world"
  assumes safe: "sys_safe lo M (ss @ parent # ts) zs w"
    and built: "table_grown lo env {} w dst w0"
    and fork: "fork_effect lo env areas (ms_page_table parent) dst w0 dst' w'"
    and areas: "ms_areas parent = areas @ rest"
    and child: "child = \<lparr>ms_page_table = dst', ms_areas = areas\<rparr>"
    and dst: "\<forall>u. vpn_key u \<notin> trampoline_keys \<longrightarrow> find_pte dst w0 u = None"
      "\<forall>u e. find_pte dst w0 u = Some e \<longrightarrow> \<not> pte_writable e"
  shows "sys_safe lo M (child # ss @ parent # ts) zs w'"
proof -
  let ?spaces = "ss @ parent # (ts @ zs)" and ?src = "ms_page_table parent"
  let ?A = "space_frames areas" and ?R = "all_frames (ss @ ts @ zs) + space_frames rest + M"
  have T: "all_frames ((ss @ parent # ts) @ zs) + M = ?A + ?R"
    "all_frames ((child # ss @ parent # ts) @ zs) + M = ?A + (?A + ?R)" by (simp_all add: child areas ac_simps)
  have inv: "sys_inv lo M ?spaces w" using safe by (simp add: sys_safe_def)
  have tight: "ms_tight (?A + ?R) k w" if "k \<in> set (ss @ parent # ts)" for k
    using safe that unfolding sys_safe_def T by blast
  note F = sys_fork [OF inv built fork areas child] and E = fork_effectD [OF fork]
  have ok: "\<And>ma. ma \<in> set (ms_areas k) \<Longrightarrow> area_ok (ms_page_table k) w ma" if "k \<in> set ?spaces" for k
    using sys_invD(3) [OF inv that] by (simp add: space_ok_def)
  have "ms_tight (?A + (?A + ?R)) child w'"
    unfolding ms_tight_def
  proof (intro allI impI)
    fix u e assume "find_pte (ms_page_table child) w' u = Some e"
    then have e: "find_pte dst' w' u = Some e" by (simp add: child)
    show "(vpn_key u \<in> areas_keys (ms_areas child) \<or> vpn_key u \<in> trampoline_keys \<and> \<not> pte_writable e) \<and>
        (pte_writable e \<longrightarrow> count (?A + (?A + ?R)) (InMemory (pte_ppn e)) \<le> 1)"
    proof (cases "vpn_key u \<in> areas_keys areas")
      case True
      then show ?thesis using E(8) [OF True] e by (simp add: read_only_def child)
    next
      case False
      then show ?thesis using E(7) [OF False] e dst by (cases "vpn_key u \<in> trampoline_keys") auto
    qed
  qed
  moreover have "ms_tight (?A + (?A + ?R)) parent w'"
    unfolding ms_tight_def
  proof (intro allI impI)
    fix u e assume e: "find_pte ?src w' u = Some e"
    show "(vpn_key u \<in> areas_keys (ms_areas parent) \<or> vpn_key u \<in> trampoline_keys \<and> \<not> pte_writable e) \<and>
        (pte_writable e \<longrightarrow> count (?A + (?A + ?R)) (InMemory (pte_ppn e)) \<le> 1)"
    proof (cases "vpn_key u \<in> areas_keys areas")
      case True
      then show ?thesis using E(8) [OF True] e by (simp add: read_only_def areas)
    next
      case False
      have e0: "find_pte ?src w u = Some e" using E(7) [OF False] e F(5) by simp
      have "InMemory (pte_ppn e) \<in># space_frames rest" if "vpn_key u \<in> areas_keys (ms_areas parent)"
        using ok [of parent] False that by (intro leaf_frame [OF _ e0]) (simp_all add: areas)
      then show ?thesis by (intro entry_once [OF _ e0]) (use tight [of parent] in simp_all)
    qed
  qed
  moreover have "ms_tight (?A + (?A + ?R)) k w'" if k: "k \<in> set ss \<union> set ts" for k
    unfolding ms_tight_def
  proof (intro allI impI entry_once)
    fix u e assume e: "find_pte (ms_page_table k) w' u = Some e"
    have k': "k \<in> set ss \<union> set (ts @ zs)" using k by auto
    show e0: "find_pte (ms_page_table k) w u = Some e" using e F(4) [OF k'] by simp
    show "ms_tight (?A + ?R) k w" by (rule tight) (use k in auto)
    have "space_frames (ms_areas k) \<subseteq># all_frames (ss @ ts @ zs)" using k by (intro space_frames_sub) auto
    moreover assume "vpn_key u \<in> areas_keys (ms_areas k)"
    then have "InMemory (pte_ppn e) \<in># space_frames (ms_areas k)" using k by (intro leaf_frame [OF ok e0]) auto
    ultimately have "InMemory (pte_ppn e) \<in># all_frames (ss @ ts @ zs)" by (rule mset_subset_eqD)
    then show "InMemory (pte_ppn e) \<in># ?R" by simp
  qed
  ultimately show ?thesis using F(1) unfolding sys_safe_def T by simp
qed

section \<open>from\_existing\_user\<close>

definition layout_aligned :: "kernel_layout \<Rightarrow> bool" where
  "layout_aligned ly \<longleftrightarrow> pa_page_offset (ly_strampoline ly) = 0 \<and> pa_page_offset (ly_ssignaltrampoline ly) = 0"

lemma trampoline_facts:
  "vpn_from_va TRAMPOLINE = Some (va_floor TRAMPOLINE)" "vpn_from_va SIGNAL_TRAMPOLINE = Some (va_floor SIGNAL_TRAMPOLINE)"
  "vpn_key (va_floor SIGNAL_TRAMPOLINE) \<noteq> vpn_key (va_floor TRAMPOLINE)"
  unfolding vpn_from_va_def TRAMPOLINE_def SIGNAL_TRAMPOLINE_def PAGE_SIZE_def by code_simp+

lemma new_user_table:
  fixes w :: "('d, 'z) world"
  assumes inv: "world_inv lo w" and small: "fa_end (kfa w) \<le> push_bit 44 1" and free: "5 \<le> km_free w"
    and ly: "layout_aligned ly"
  shows "\<exists>ms1 w1 ms2 w2 ms3 w3. ms_new_bare oom w = Some (ms1 :: 'f memory_set, w1) \<and> map_trampoline oom ly ms1 w1 = Some (ms2, w2) \<and>
    map_signaltrampoline oom ly ms2 w2 = Some (ms3, w3) \<and> table_grown lo env {} w (ms_page_table ms3) w3 \<and>
    (\<forall>u. vpn_key u \<notin> trampoline_keys \<longrightarrow> find_pte (ms_page_table ms3) w3 u = None) \<and> km_free w \<le> km_free w3 + 5 \<and>
    (\<forall>u e. find_pte (ms_page_table ms3) w3 u = Some e \<longrightarrow> \<not> pte_writable e)"
proof -
  have "0 < km_free w" using free by simp
  from sv39_new_grown [OF inv this small, of oom env] obtain pt1 w1 where n:
    "sv39_new oom w = Some (pt1, w1)" "table_grown lo env {} w pt1 w1" "\<And>v. find_pte pt1 w1 v = None" "km_free w = Suc (km_free w1)"
    by blast
  let ?t = "va_floor TRAMPOLINE" and ?s = "va_floor SIGNAL_TRAMPOLINE"
  have "2 \<le> km_free w1" using n(4) free by simp
  from sv39_map_grown [OF n(2,3) this, of oom ?t "pa_floor (ly_strampoline ly)" "perm_R OR perm_X"]
  obtain pt2 w2 where t: "sv39_map oom ?t (pa_floor (ly_strampoline ly)) (perm_R OR perm_X) pt1 w1 = Some (pt2, w2)"
    "table_grown lo env {} w pt2 w2" "km_free w1 \<le> km_free w2 + 2"
    "\<forall>u. vpn_key u \<noteq> vpn_key ?t \<longrightarrow> find_pte pt2 w2 u = find_pte pt1 w1 u"
    "\<forall>u. vpn_key u = vpn_key ?t \<longrightarrow>
       find_pte pt2 w2 u = Some (pte_new (pa_floor (ly_strampoline ly)) ((perm_R OR perm_X) OR PTE_V OR PTE_A OR PTE_D))" by blast
  have "2 \<le> km_free w2" "find_pte pt2 w2 ?s = None" using n(3,4) t(3,4) free trampoline_facts(3) by simp_all
  from sv39_map_grown [OF t(2) this(2,1), of oom "pa_floor (ly_ssignaltrampoline ly)" "perm_R OR perm_X OR perm_U"]
  obtain pt3 w3 where g: "sv39_map oom ?s (pa_floor (ly_ssignaltrampoline ly)) (perm_R OR perm_X OR perm_U) pt2 w2 = Some (pt3, w3)"
    "table_grown lo env {} w pt3 w3" "km_free w2 \<le> km_free w3 + 2"
    "\<forall>u. vpn_key u \<noteq> vpn_key ?s \<longrightarrow> find_pte pt3 w3 u = find_pte pt2 w2 u"
    "\<forall>u. vpn_key u = vpn_key ?s \<longrightarrow> find_pte pt3 w3 u =
       Some (pte_new (pa_floor (ly_ssignaltrampoline ly)) ((perm_R OR perm_X OR perm_U) OR PTE_V OR PTE_A OR PTE_D))" by blast
  let ?ms = "\<lambda>pt. \<lparr>ms_page_table = pt, ms_areas = []\<rparr> :: 'f memory_set"
  have "ms_new_bare oom w = Some (?ms pt1, w1)" by (simp add: ms_new_bare_def n(1))
  moreover have "map_trampoline oom ly (?ms pt1) w1 = Some (?ms pt2, w2)"
    "map_signaltrampoline oom ly (?ms pt2) w2 = Some (?ms pt3, w3)"
    using ly t(1) g(1)
    by (simp_all add: map_trampoline_def map_signaltrampoline_def map_page_at_def trampoline_facts ppn_from_pa_def layout_aligned_def)
  moreover have "find_pte pt3 w3 u = None" if "vpn_key u \<notin> trampoline_keys" for u
    using that n(3) t(4) g(4) by (simp add: trampoline_keys_def)
  moreover have "\<not> pte_writable e" if "find_pte pt3 w3 u = Some e" for u e
    using that n(3) [of u] t(4,5) g(4,5) pte_trampoline
    by (cases "vpn_key u = vpn_key ?s"; cases "vpn_key u = vpn_key ?t") (auto simp: ac_simps)
  moreover have "km_free w \<le> km_free w3 + 5" using n(4) t(3) g(3) by simp
  ultimately show ?thesis using g(2)
    by (intro exI [of _ "?ms pt1"] exI [of _ w1] exI [of _ "?ms pt2"] exI [of _ w2] exI [of _ "?ms pt3"] exI [of _ w3]) simp
qed

lemma fork_shared:
  fixes w :: "('d, 'z) world" and parent :: "'f memory_set"
  assumes inv: "sys_inv lo M (ss @ parent # ts) w" and areas: "ms_areas parent = areas @ rest"
    and ly: "layout_aligned ly" and keys: "areas_keys areas \<inter> trampoline_keys = {}"
    and free: "5 + 2 * size (space_frames areas) \<le> km_free w"
  shows "\<exists>ms1 w1 ms2 w2 ms3 w3 dst' w'. ms_new_bare oom w = Some (ms1 :: 'f memory_set, w1) \<and>
    map_trampoline oom ly ms1 w1 = Some (ms2, w2) \<and> map_signaltrampoline oom ly ms2 w2 = Some (ms3, w3) \<and>
    fork_areas oom areas (ms_page_table ms3) (ms_page_table parent) w3 = Some (dst', w') \<and>
    table_grown lo env {} w (ms_page_table ms3) w3 \<and>
    fork_effect lo env areas (ms_page_table parent) (ms_page_table ms3) w3 dst' w' \<and>
    (\<forall>u. vpn_key u \<notin> trampoline_keys \<longrightarrow> find_pte (ms_page_table ms3) w3 u = None) \<and>
    (\<forall>u. find_pte (ms_page_table parent) w3 u = find_pte (ms_page_table parent) w u) \<and>
    (\<forall>u e. find_pte (ms_page_table ms3) w3 u = Some e \<longrightarrow> \<not> pte_writable e) \<and>
    km_free w \<le> km_free w' + 5 + 2 * size (space_frames areas)"
proof -
  note S = sys_invD [OF inv]
  let ?src = "ms_page_table parent" and ?all = "all_frames (ss @ parent # ts) + M"
  have okp: "space_ok lo ?all w parent" using S(3) by simp
  then have src: "pt_wf lo ?src w" by (simp add: space_ok_def)
  have "5 \<le> km_free w" using free by simp
  from new_user_table [OF S(1) pt_wfD(2) [OF src] this ly, of oom env] obtain ms1 ms2 ms3 :: "'f memory_set" and w1 w2 w3 where b:
    "ms_new_bare oom w = Some (ms1, w1)" "map_trampoline oom ly ms1 w1 = Some (ms2, w2)"
    "map_signaltrampoline oom ly ms2 w2 = Some (ms3, w3)" "table_grown lo env {} w (ms_page_table ms3) w3"
    "\<forall>u. vpn_key u \<notin> trampoline_keys \<longrightarrow> find_pte (ms_page_table ms3) w3 u = None" "km_free w \<le> km_free w3 + 5"
    "\<forall>u e. find_pte (ms_page_table ms3) w3 u = Some e \<longrightarrow> \<not> pte_writable e" by blast
  let ?dst = "ms_page_table ms3"
  have G: "world_inv lo w3" "pt_wf lo ?dst w3" "fa_end (kfa w3) = fa_end (kfa w)" "frames_kept env (table_frames ?dst) w w3"
    "\<And>p. InMemory p \<in> table_frames ?dst \<Longrightarrow> arcs w p = 0"
    using b(4) by (simp_all add: table_grown_def)
  have dis: "table_frames ?src \<inter> table_frames ?dst = {}" using G(5) pt_wfD(6) [OF src] by (force simp: table_frames_def)
  note T = table_kept [OF src G(1,3,4) dis]
  have ok: "\<forall>ma \<in> set areas. area_ok ?src w3 ma"
  proof
    fix a assume "a \<in> set areas"
    then have "area_ok ?src w a" using okp by (simp add: space_ok_def areas)
    then show "area_ok ?src w3 a" by (rule area_ok_cong) (rule T(2))
  qed
  have held: "\<forall>fr \<in># space_frames areas. frame_held w3 fr \<and> fr \<notin> table_frames ?src \<union> table_frames ?dst"
  proof
    fix fr assume fr: "fr \<in># space_frames areas"
    then have all: "fr \<in># ?all" by (simp add: areas)
    have h: "frame_held w fr" by (rule frames_ref_held [OF S(2) all])
    have nd: "fr \<notin> table_frames ?dst" using h G(5) by (auto simp: table_frames_def frame_held_def)
    then have "frame_held w3 fr" using h frames_keptD(1) [OF G(4) nd] by (simp add: frame_held_def)
    moreover have "fr \<notin> table_frames ?src" using okp all by (auto simp: space_ok_def)
    ultimately show "frame_held w3 fr \<and> fr \<notin> table_frames ?src \<union> table_frames ?dst" using nd by simp
  qed
  have un: "\<forall>u. vpn_key u \<in> areas_keys areas \<longrightarrow> find_pte ?dst w3 u = None" using keys b(5) by blast
  have da: "disjoint_areas areas" using okp by (simp add: space_ok_def areas disjoint_areas_def sorted_wrt_append)
  have "2 * size (space_frames areas) \<le> km_free w3" using b(6) free by simp
  from fork_areas_ok [OF G(1) T(1) G(2) dis ok da held un this, of oom env] obtain dst' w' where
    "fork_areas oom areas ?dst ?src w3 = Some (dst', w')" "fork_effect lo env areas ?src ?dst w3 dst' w'"
    "km_free w3 \<le> km_free w' + 2 * size (space_frames areas)" by blast
  then show ?thesis using b T(2)
    by (intro exI [of _ ms1] exI [of _ w1] exI [of _ ms2] exI [of _ w2] exI [of _ ms3] exI [of _ w3] exI [of _ dst'] exI [of _ w']) simp
qed

text \<open>The trap context area of the child, before it is filled.\<close>

lemma from_another_blank:
  assumes "area_ok pt0 w0 trap" and "\<And>u. vpn_key u \<in> area_keys trap \<Longrightarrow> find_pte pt w u = None"
  shows "\<exists>area. ma_from_another trap = Some area \<and> blank_area pt w area \<and> area_keys area = area_keys trap \<and>
    lm_range (ma_inner area) = lm_range (ma_inner trap) \<and> ma_map_file area = ma_map_file trap \<and>
    length (lm_frames (ma_inner area)) = length (lm_frames (ma_inner trap))"
proof -
  let ?r = "lm_range (ma_inner trap)" and ?area = "trap\<lparr>ma_inner := lm_new (lm_range (ma_inner trap))\<rparr>"
  have T: "ma_map_type trap = Framed" "lm_wf (ma_inner trap)" "length (lm_frames (ma_inner trap)) \<le> 2 ^ 27"
    using assms(1) by (simp_all add: area_ok_def)
  have r: "range_l ?r \<le> range_r ?r" using T(2) by (simp add: lm_wf_def lm_get_start_def lm_get_end_def)
  have keys: "area_keys ?area = area_keys trap" by (rule area_keys_cong) simp
  have len: "length (lm_frames (ma_inner ?area)) = length (lm_frames (ma_inner trap))"
    using T(2) unat_sub_no_wrap [OF r] by (simp add: lm_wf_def lm_get_start_def lm_get_end_def)
  have "lm_wf (ma_inner ?area)" using lm_new_wf(1) [OF r] by simp
  then have "blank_area pt w ?area" using T len keys assms(2) by (auto simp: blank_area_def)
  moreover have "ma_from_another trap = Some ?area"
    using r by (simp add: ma_from_another_def range_new_def ma_get_start_def ma_get_end_def lm_get_start_def lm_get_end_def)
  ultimately show ?thesis using keys len by (intro exI [of _ ?area]) simp
qed

lemma fork_trap_page:
  assumes "sys_inv lo M (child # ss @ parent # ts) w" and "ms_areas parent = areas @ [trap]"
    and "lm_frames (ma_inner trap) = [InMemory q]"
  shows "ms_translate (ma_get_start trap) parent w = Some q" "InMemory q \<in># all_frames (ss @ parent # ts) + M"
    "area_ok (ms_page_table parent) w trap" "area_keys trap \<inter> areas_keys areas = {}"
proof -
  have ok: "space_ok lo (all_frames (child # ss @ parent # ts) + M) w parent" using sys_invD(3) [OF assms(1)] by simp
  then show t: "area_ok (ms_page_table parent) w trap" by (simp add: space_ok_def assms(2))
  then show "ms_translate (ma_get_start trap) parent w = Some q"
    using assms(3) by (auto simp: area_ok_def ms_translate_def lm_vpn_def ma_get_start_def resident_def)
  show "InMemory q \<in># all_frames (ss @ parent # ts) + M" by (simp add: assms(2) area_frames_def assms(3))
  show "area_keys trap \<inter> areas_keys areas = {}"
    using ok by (auto simp: space_ok_def assms(2) disjoint_areas_def sorted_wrt_append areas_keys_def)
qed

text \<open>What fork promises: \<open>shared\<close> are the areas of the parent but the trap context area \<open>trap\<close>.\<close>

definition forked ::
  "'d kenv \<Rightarrow> 'f map_area list \<Rightarrow> 'f map_area \<Rightarrow> PhysPageNum \<Rightarrow> 'f memory_set \<Rightarrow> ('d, 'z) world \<Rightarrow>
   'f memory_set \<Rightarrow> ('d, 'z) world \<Rightarrow> bool" where
  "forked env shared trap q parent w child w' \<longleftrightarrow>
     (\<forall>ma \<in> set shared. \<forall>v. lm_in_range (ma_inner ma) v \<longrightarrow>
        ms_view env w' child v = ms_view env w parent v \<and>
        sv39_translate (ms_page_table child) w' v = sv39_translate (ms_page_table parent) w v \<and>
        read_only (ms_page_table child) w' v \<and> read_only (ms_page_table parent) w' v) \<and>
     (\<exists>p. sv39_translate (ms_page_table child) w' (ma_get_start trap) = Some p \<and> p \<noteq> q \<and>
        take TRAP_CONTEXT_SIZE (bytes_array p w') = take TRAP_CONTEXT_SIZE (bytes_array q w))"

lemma fork_ok:
  fixes w :: "('d, 'z) world" and parent :: "'f memory_set"
  assumes inv: "sys_inv lo M (ss @ parent # ts) w" and areas: "ms_areas parent = shared @ [trap]"
    and trap: "lm_frames (ma_inner trap) = [InMemory q]" and ly: "layout_aligned ly"
    and keys: "areas_keys (ms_areas parent) \<inter> trampoline_keys = {}"
    and free: "8 + 2 * size (space_frames shared) \<le> km_free w"
  shows "\<exists>child w'. from_existing_user env oom ly parent w = Some (child, w') \<and>
    sys_inv lo M (child # ss @ parent # ts) w' \<and>
    (\<forall>k \<in> set (ss @ parent # ts). ms_view env w' k = ms_view env w k) \<and>
    forked env shared trap q parent w child w' \<and>
    (\<exists>ma'. ms_areas child = shared @ [ma']) \<and> km_free w \<le> km_free w' + 8 + 2 * size (space_frames shared) \<and>
    (\<forall>ts' zs. ts = ts' @ zs \<longrightarrow> sys_safe lo M (ss @ parent # ts') zs w \<longrightarrow>
       sys_safe lo M (child # ss @ parent # ts') zs w')"
proof -
  let ?spaces = "ss @ parent # ts" and ?src = "ms_page_table parent"
  have k: "areas_keys shared \<inter> trampoline_keys = {}" "area_keys trap \<inter> trampoline_keys = {}"
    using keys by (auto simp: areas areas_keys_def)
  have "5 + 2 * size (space_frames shared) \<le> km_free w" using free by simp
  from fork_shared [OF inv areas ly k(1) this, of oom env] obtain ms1 ms2 ms3 :: "'f memory_set" and w1 w2 w3 dst' w4 where b:
    "ms_new_bare oom w = Some (ms1, w1)" "map_trampoline oom ly ms1 w1 = Some (ms2, w2)"
    "map_signaltrampoline oom ly ms2 w2 = Some (ms3, w3)"
    "fork_areas oom shared (ms_page_table ms3) ?src w3 = Some (dst', w4)"
    "table_grown lo env {} w (ms_page_table ms3) w3"
    "fork_effect lo env shared ?src (ms_page_table ms3) w3 dst' w4"
    "\<forall>u. vpn_key u \<notin> trampoline_keys \<longrightarrow> find_pte (ms_page_table ms3) w3 u = None"
    "\<forall>u. find_pte ?src w3 u = find_pte ?src w u" "\<forall>u e. find_pte (ms_page_table ms3) w3 u = Some e \<longrightarrow> \<not> pte_writable e"
    "km_free w \<le> km_free w4 + 5 + 2 * size (space_frames shared)" by blast
  let ?child = "\<lparr>ms_page_table = dst', ms_areas = shared\<rparr>"
  note F = sys_fork [OF inv b(5,6) areas refl] and E = fork_effectD [OF b(6)]
  note T = fork_trap_page [OF F(1) areas trap]
  have un: "find_pte dst' w4 u = None" if "vpn_key u \<in> area_keys trap" for u
  proof -
    have "vpn_key u \<notin> areas_keys shared" "vpn_key u \<notin> trampoline_keys" using that T(4) k(2) by blast+
    then show ?thesis using E(7) [of u] b(7) by simp
  qed
  from from_another_blank [OF T(3) un] obtain area where area: "ma_from_another trap = Some area"
    "blank_area dst' w4 area" "area_keys area = area_keys trap" "lm_range (ma_inner area) = lm_range (ma_inner trap)"
    "length (lm_frames (ma_inner area)) = 1" using trap by auto
  let ?data = "take TRAP_CONTEXT_SIZE (bytes_array q w4)"
  have inv4: "ms_inv lo (held_by ?spaces + M) ?child w4" using sys_focus [where ss = "[]", simplified, OF F(1)] .
  have data: "length ?data \<le> 4096" "bytes_array q w4 = bytes_array q w"
    using F(3) [OF T(2)] by (simp_all add: TRAP_CONTEXT_SIZE_def frame_content_def)
  have dk: "area_keys a \<inter> area_keys area = {}" if "a \<in> set (ms_areas ?child)" for a
    using T(4) that by (auto simp: area(3) areas_keys_def)
  have "3 \<le> km_free w4" using b(10) free by simp
  from push_page_ok [OF inv4 _ area(5) data(1) dk this, of env oom] area(2) obtain ms' w' p ma' where p:
    "ms_push env oom area (Some ?data) ?child w4 = Some (Inr (), ms', w')"
    "insert_effect lo env (held_by ?spaces + M) area ?child w4 ms' w'"
    "ms_areas ms' = shared @ [ma']" "lm_range (ma_inner ma') = lm_range (ma_inner area)"
    "lm_frames (ma_inner ma') = [InMemory p]" "take (length ?data) (bytes_array p w') = ?data" "arcs w4 p = 0"
    "km_free w4 \<le> km_free w' + 3" by auto
  have step: "space_step lo env (held_by ?spaces + M) ?child w4 ms' w'" using p(2) by (simp add: insert_effect_def)
  note U = sys_update [where ss = "[]", simplified, OF F(1) step]
  have res: "from_existing_user env oom ly parent w = Some (ms', w')"
    using b(1-4) area(1) T(1) p(1) by (cases ms3) (simp add: from_existing_user_def areas Let_def)
  have rest: "find_pte (ms_page_table ms') w' u = find_pte dst' w4 u" if "vpn_key u \<notin> area_keys trap" for u
    using p(2) that by (simp add: insert_effect_def area(3))
  have view: "ms_view env w' ms' v = ms_view env w parent v" if "ma \<in> set shared" "lm_in_range (ma_inner ma) v" for ma v
  proof -
    have "area_view env w' a = area_view env w a" if a: "a \<in> set shared" for a
    proof -
      have "area_view env w' a = area_view env w4 a" using p(2) a by (simp add: insert_effect_def)
      also have "\<dots> = area_view env w a"
      proof (rule frames_view)
        show "frame_content env w4 g = frame_content env w g" if "g \<in># area_frames a" for g
          using F(3) [of g] that area_frames_sub [OF a] by (auto simp: areas dest: mset_subset_eqD)
        show "lm_wf (ma_inner a)" using sys_invD(3) [OF inv, of parent] a by (simp add: space_ok_def areas area_ok_def)
      qed
      finally show ?thesis .
    qed
    then have "space_view env w' shared v = space_view env w shared v" by (rule space_view_cong)
    then show ?thesis using that by (auto simp: ms_view_def p(3) areas space_view_append)
  qed
  have tables: "sv39_translate (ms_page_table ms') w' v = sv39_translate ?src w v \<and>
      read_only (ms_page_table ms') w' v \<and> read_only ?src w' v"
    if "ma \<in> set shared" "lm_in_range (ma_inner ma) v" for ma v
  proof -
    have key: "vpn_key v \<in> areas_keys shared" using that by (auto simp: areas_keys_def area_keys_def)
    then have "vpn_key v \<notin> area_keys trap" using T(4) by blast
    from rest [OF this] U(3) [of parent v] E(8) [OF key] b(8) show ?thesis
      by (simp add: sv39_translate_def read_only_def)
  qed
  have "space_ok lo (all_frames (ms' # ?spaces) + M) w' ms'" using sys_invD(3) [OF U(1)] by simp
  then have "sv39_translate (ms_page_table ms') w' (lm_vpn (ma_inner ma') 0) = Some p"
    by (simp add: space_ok_def p(3,5) area_ok_def resident_def)
  then have "sv39_translate (ms_page_table ms') w' (ma_get_start trap) = Some p"
    using p(4) area(4) by (simp add: lm_vpn_def ma_get_start_def lm_get_start_def)
  moreover have "p \<noteq> q"
    using frames_refD [OF sys_invD(2) [OF F(1)], of "InMemory q"] T(2) p(7) by auto
  moreover have "take TRAP_CONTEXT_SIZE (bytes_array p w') = take TRAP_CONTEXT_SIZE (bytes_array q w)"
    using p(6) data(2) by (simp add: min_def TRAP_CONTEXT_SIZE_def)
  ultimately have "forked env shared trap q parent w ms' w'" using view tables by (auto simp: forked_def)
  moreover have "sys_safe lo M (ms' # ss @ parent # ts') zs w'"
    if s: "ts = ts' @ zs" "sys_safe lo M (ss @ parent # ts') zs w" for ts' zs
  proof -
    have "sys_safe lo M (?child # ss @ parent # ts') zs w4" by (rule safe_fork [OF s(2) b(5,6) areas refl b(7,9)])
    moreover have "pte_step (held_by ?spaces + M) ?child w4 ms' w'" using p(2) by (simp add: insert_effect_def)
    ultimately show ?thesis
      using safe_update [where ss = "[]" and ts = "ss @ parent # ts'" and ms = ?child and ms' = ms', of lo M zs w4 env w'] step
      by (simp add: s(1))
  qed
  moreover have "km_free w \<le> km_free w' + 8 + 2 * size (space_frames shared)" using b(10) p(8) by simp
  ultimately show ?thesis using U(1,2) F(2) res p(3) by (intro exI [of _ ms'] exI [of _ w']) simp
qed

end
