(* ===== verification/Mm_Process.thy ===== *)
theory Mm_Process
  imports Mm_Fork
begin

text \<open>
  The beginning and the end of an address space: a new space joins the system with the two
  trampolines mapped, and a space gives its pages back on exit.
\<close>

section \<open>Creating a space\<close>

lemma sys_add:
  fixes w w' :: "('d, 'z) world"
  assumes inv: "sys_inv lo M spaces w" and built: "table_grown lo env {} w pt w'"
  shows "sys_inv lo M (\<lparr>ms_page_table = pt, ms_areas = []\<rparr> # spaces) w'"
    and "\<forall>k \<in> set spaces. ms_view env w' k = ms_view env w k"
    and "k \<in> set spaces \<Longrightarrow> find_pte (ms_page_table k) w' u = find_pte (ms_page_table k) w u"
proof -
  note S = sys_invD [OF inv]
  let ?F = "all_frames spaces + M"
  have G: "world_inv lo w'" "pt_wf lo pt w'" "frames_kept env (table_frames pt) w w'"
    "\<And>p. InMemory p \<in> table_frames pt \<Longrightarrow> arcs w p = 0"
    using built by (simp_all add: table_grown_def)
  have out: "set_mset ?F \<inter> table_frames pt = {}"
  proof (rule equals0I)
    fix g assume g: "g \<in> set_mset ?F \<inter> table_frames pt"
    then obtain p where "g = InMemory p" by (auto simp: table_frames_def)
    then show False using g G(4) frames_refD [OF S(2), of g] by auto
  qed
  note R = frames_ref_kept [OF S(2) G(3) out]
  have tab: "table_frames pt \<inter> table_frames (ms_page_table k) = {}" if "k \<in> set spaces" for k
    using G(4) S(3) [OF that] pt_wfD(6) by (force simp: space_ok_def table_frames_def)
  have same: "0 < arcs w' p" "bytes_array p w' = bytes_array p w"
    if k: "k \<in> set spaces" and p: "p \<in> set (pt_frames (ms_page_table k))" for k p
  proof -
    have "0 < arcs w p" using S(3) [OF k] p pt_wfD(6) by (auto simp: space_ok_def)
    moreover have "InMemory p \<notin> table_frames pt" using tab [OF k] p by (auto simp: table_frames_def)
    ultimately show "0 < arcs w' p" "bytes_array p w' = bytes_array p w"
      using G(3) by (auto simp: frames_kept_def frame_content_def dest!: spec [of _ "InMemory p"])
  qed
  have outk: "set_mset ?F \<inter> table_frames (ms_page_table k) = {}" if "k \<in> set spaces" for k
    using S(3) [OF that] by (simp add: space_ok_def)
  note kept = space_ok_kept [OF S(3) G(1) pt_wfD(2) [OF G(2)] same outk]
  show "k \<in> set spaces \<Longrightarrow> find_pte (ms_page_table k) w' u = find_pte (ms_page_table k) w u"
    by (rule kept(2)) assumption+
  have "space_ok lo ?F w' k" if "k \<in> set spaces" for k by (rule kept(1)) (use that in auto)
  then show "sys_inv lo M (\<lparr>ms_page_table = pt, ms_areas = []\<rparr> # spaces) w'"
    using G(1,2) R(1) out tab S(4) by (simp add: sys_inv_def space_ok_def disjoint_tables_def disjoint_areas_def)
  show "\<forall>k \<in> set spaces. ms_view env w' k = ms_view env w k"
  proof
    fix k assume k: "k \<in> set spaces"
    show "ms_view env w' k = ms_view env w k"
      by (rule ms_view_kept [OF S(3) [OF k]]) (use R(2) space_frames_sub [OF k] in \<open>meson mset_subset_eqD union_iff\<close>)
  qed
qed

lemma safe_add:
  fixes w w' :: "('d, 'z) world" and ms :: "'f memory_set"
  assumes safe: "sys_safe lo M alive zombies w" and built: "table_grown lo env {} w (ms_page_table ms) w'"
    and ms: "ms_areas ms = []"
    and tr: "\<forall>u. vpn_key u \<notin> trampoline_keys \<longrightarrow> find_pte (ms_page_table ms) w' u = None"
      "\<forall>u e. find_pte (ms_page_table ms) w' u = Some e \<longrightarrow> \<not> pte_writable e"
  shows "sys_safe lo M (ms # alive) zombies w'"
proof -
  have inv: "sys_inv lo M (alive @ zombies) w" using safe by (simp add: sys_safe_def)
  have ms': "ms = \<lparr>ms_page_table = ms_page_table ms, ms_areas = []\<rparr>" using ms by (cases ms) simp
  note A = sys_add [OF inv built]
  have T: "all_frames ((ms # alive) @ zombies) = all_frames (alive @ zombies)" by (simp add: ms)
  have "ms_tight (all_frames (alive @ zombies) + M) k w'" if k: "k \<in> set alive" for k
    by (rule ms_tight_mono [where T = "all_frames (alive @ zombies) + M" and w = w])
      (use safe A(3) [of k] k in \<open>simp_all add: sys_safe_def\<close>)
  moreover have "ms_tight (all_frames (alive @ zombies) + M) ms w'"
    using tr unfolding ms_tight_def by (metis option.distinct(1))
  moreover have "sys_inv lo M ((ms # alive) @ zombies) w'" using A(1) ms' by simp
  ultimately show ?thesis unfolding sys_safe_def T by simp
qed

section \<open>Giving the pages back\<close>

text \<open>Every reference is given back, and a frame nobody refers to any more is free.\<close>

definition returned :: "usize \<Rightarrow> frame multiset \<Rightarrow> ('d, 'z) world \<Rightarrow> ('d, 'z) world \<Rightarrow> bool" where
  "returned lo F w w' \<longleftrightarrow>
     (\<forall>g. g \<noteq> Unallocated \<longrightarrow> frame_count w' g = frame_count w g - count F g) \<and>
     (\<forall>p. p \<in> km_allocated lo w' \<longleftrightarrow> p \<in> km_allocated lo w \<and> \<not> (InMemory p \<in># F \<and> arcs w' p = 0))"

lemma returned_empty [simp]: "returned lo {#} w w"
  by (simp add: returned_def)

lemma returned_drop:
  assumes "drop_effect lo env fr w w1" and "frame_held w fr"
  shows "returned lo {#fr#} w w1"
proof -
  have "frame_count w1 g = frame_count w g - count {#fr#} g" if "g \<noteq> Unallocated" for g
    using assms that by (cases "g = fr") (auto simp: drop_effect_def frames_kept_def)
  moreover from this [of "InMemory p" for p] have "p \<in> km_allocated lo w1 \<longleftrightarrow> p \<in> km_allocated lo w \<and> \<not> (InMemory p \<in># {#fr#} \<and> arcs w1 p = 0)" for p
    using assms by (auto simp: drop_effect_def frame_held_def)
  ultimately show ?thesis unfolding returned_def by blast
qed

lemma returned_trans:
  assumes "returned lo F w w1" and "returned lo G w1 w2"
  shows "returned lo (F + G) w w2"
proof -
  have c: "arcs w1 p = arcs w p - count F (InMemory p)" "arcs w2 p = arcs w1 p - count G (InMemory p)" for p
    using assms frame_count_simps(1) unfolding returned_def by (metis frame.distinct(5))+
  have "p \<in> km_allocated lo w2 \<longleftrightarrow> p \<in> km_allocated lo w \<and> \<not> (InMemory p \<in># F + G \<and> arcs w2 p = 0)" for p
  proof (cases "InMemory p \<in># G")
    case True
    then show ?thesis using assms c [of p] unfolding returned_def by auto
  next
    case False
    then have "arcs w2 p = arcs w1 p" using c(2) [of p] by (simp add: not_in_iff)
    then show ?thesis using assms False unfolding returned_def by auto
  qed
  then show ?thesis using assms unfolding returned_def by (simp add: diff_diff_add)
qed

lemma frames_drop_ok:
  fixes w :: "('d, 'z) world"
  assumes "world_inv lo w" and "pt_wf lo pt w" and "frames_ref w (mset frs + M)" and "set frs \<inter> table_frames pt = {}"
  shows "\<exists>w'. frames_drop env frs w = Some w' \<and> world_inv lo w' \<and> pt_wf lo pt w' \<and> frames_ref w' M \<and>
    (\<forall>g \<in># M. frame_content env w' g = frame_content env w g) \<and> km_free w \<le> km_free w' \<and> (\<forall>u. find_pte pt w' u = find_pte pt w u) \<and>
    returned lo (mset frs) w w'"
  using assms
proof (induction frs arbitrary: w)
  case (Cons fr frs)
  have ref: "frames_ref w (add_mset fr (mset frs + M))" using Cons.prems(3) by simp
  have held: "frame_held w fr" by (rule frames_ref_held [OF ref]) simp
  from frame_drop_ok [OF Cons.prems(1) held, of env] obtain w1 where d: "frame_drop env fr w = Some w1"
    "drop_effect lo env fr w w1" by blast
  have D: "world_inv lo w1" "km_free w \<le> km_free w1" using d(2) by (simp_all add: drop_effect_def)
  note R = frames_ref_dropped [OF ref d(2)]
  have out: "fr \<notin> table_frames pt" "set frs \<inter> table_frames pt = {}" using Cons.prems(4) by auto
  from Cons.IH [OF D(1) drop_effect_table(1) [OF Cons.prems(2) d(2) out(1)] R(1) out(2)] obtain w' where
    w': "frames_drop env frs w1 = Some w'" "world_inv lo w'" "pt_wf lo pt w'" "frames_ref w' M"
    "\<forall>g \<in># M. frame_content env w' g = frame_content env w1 g" "km_free w1 \<le> km_free w'" "\<forall>u. find_pte pt w' u = find_pte pt w1 u"
    "returned lo (mset frs) w1 w'" by blast
  have "returned lo (mset (fr # frs)) w w'"
    using returned_trans [OF returned_drop [OF d(2) held] w'(8)] by simp
  then show ?case using w' d(1) D(2) R(2) drop_effect_table(2) [OF Cons.prems(2) d(2) out(1)] by auto
qed simp

lemma areas_clear_ok:
  fixes w :: "('d, 'z) world"
  assumes "world_inv lo w" and "pt_wf lo pt w" and "frames_ref w (space_frames areas + M)"
    and "set_mset (space_frames areas) \<inter> table_frames pt = {}"
  shows "\<exists>w'. areas_clear env areas w = Some w' \<and> world_inv lo w' \<and> pt_wf lo pt w' \<and> frames_ref w' M \<and>
    (\<forall>g \<in># M. frame_content env w' g = frame_content env w g) \<and> km_free w \<le> km_free w' \<and> returned lo (space_frames areas) w w'"
  using assms
proof (induction areas arbitrary: w)
  case (Cons ma areas)
  have ref: "frames_ref w (mset (lm_frames (ma_inner ma)) + (space_frames areas + M))"
    using Cons.prems(3) by (simp add: area_frames_def add.assoc)
  have out: "set (lm_frames (ma_inner ma)) \<inter> table_frames pt = {}" "set_mset (space_frames areas) \<inter> table_frames pt = {}"
    using Cons.prems(4) by (auto simp: area_frames_def)
  from frames_drop_ok [OF Cons.prems(1,2) ref out(1), of env] obtain w1 where d:
    "frames_drop env (lm_frames (ma_inner ma)) w = Some w1" "world_inv lo w1" "pt_wf lo pt w1"
    "frames_ref w1 (space_frames areas + M)" "km_free w \<le> km_free w1"
    "\<forall>g \<in># space_frames areas + M. frame_content env w1 g = frame_content env w g"
    "returned lo (mset (lm_frames (ma_inner ma))) w w1" by blast
  from Cons.IH [OF d(2-4) out(2)] obtain w' where w': "areas_clear env areas w1 = Some w'" "world_inv lo w'" "pt_wf lo pt w'"
    "frames_ref w' M" "\<forall>g \<in># M. frame_content env w' g = frame_content env w1 g" "km_free w1 \<le> km_free w'"
    "returned lo (space_frames areas) w1 w'" by blast
  have "returned lo (space_frames (ma # areas)) w w'"
    using returned_trans [OF d(7) w'(7)] by (simp add: area_frames_def)
  then show ?case using w' d(1,5,6) by fastforce
qed simp

lemma recycle_data_pages_ok:
  fixes w :: "('d, 'z) world"
  assumes "ms_inv lo M ms w"
  shows "\<exists>w'. recycle_data_pages env ms w = Some (ms\<lparr>ms_areas := []\<rparr>, w') \<and>
    space_step lo env M ms w (ms\<lparr>ms_areas := []\<rparr>) w' \<and> km_free w \<le> km_free w' \<and> returned lo (space_frames (ms_areas ms)) w w'"
proof -
  note I = space_invD [OF assms [unfolded ms_inv_def]]
  have "set_mset (space_frames (ms_areas ms)) \<inter> table_frames (ms_page_table ms) = {}" using I(4) by auto
  from areas_clear_ok [OF I(1-3) this, of env] obtain w' where
    "areas_clear env (ms_areas ms) w = Some w'" "world_inv lo w'" "pt_wf lo (ms_page_table ms) w'" "frames_ref w' M"
    "\<forall>g \<in># M. frame_content env w' g = frame_content env w g" "km_free w \<le> km_free w'"
    "returned lo (space_frames (ms_areas ms)) w w'" by blast
  then show ?thesis using I(4)
    by (auto simp: recycle_data_pages_def space_step_def ms_inv_def space_inv_def disjoint_areas_def fresh_frames_def)
qed

section \<open>Steps of a space\<close>

lemma insert_framed_area_ok:
  fixes w :: "('d, 'z) world"
  assumes inv: "ms_inv lo M (ms :: 'f memory_set) w" and ma: "ma_new start_va end_va Framed perm (None :: 'f option) = Some ma"
    and blank: "blank_area (ms_page_table ms) w ma" and dis: "area_keys ma \<inter> areas_keys (ms_areas ms) = {}"
    and free: "3 * length (lm_frames (ma_inner ma)) \<le> km_free w"
  shows "\<exists>ms' w'. insert_framed_area env oom start_va end_va perm ms w = Some (ms', w') \<and>
    insert_effect lo env M ma ms w ms' w' \<and> km_free w \<le> km_free w' + 3 * length (lm_frames (ma_inner ma))"
proof -
  have "area_keys a \<inter> area_keys ma = {}" if "a \<in> set (ms_areas ms)" for a
    using dis that by (auto simp: areas_keys_def)
  from push_area_ok [OF inv blank this free, of env oom] show ?thesis
    using ma by (auto simp: insert_framed_area_def)
qed

end
