(* ===== verification/Mm_Munmap.thy ===== *)
theory Mm_Munmap
  imports Mm_Process
begin

text \<open>
  \<open>munmap\<close>. An area that the range covers is unmapped and removed; one it overlaps at an end is
  shortened; one it lies inside is cut in three and loses the middle. All of it is made of three
  steps on a space: unmapping pages of an area, cutting an area in two, and dropping an area that
  has no page mapped.
\<close>

section \<open>Cutting an area\<close>

definition cut_at :: "VirtPageNum \<Rightarrow> 'f map_area \<Rightarrow> 'f map_area \<Rightarrow> 'f map_area \<Rightarrow> bool" where
  "cut_at k ma a b \<longleftrightarrow>
     ma_map_type a = Framed \<and> ma_map_type b = Framed \<and> ma_map_file a = ma_map_file ma \<and> ma_map_file b = ma_map_file ma \<and>
     lm_wf (ma_inner a) \<and> lm_wf (ma_inner b) \<and>
     lm_frames (ma_inner a) @ lm_frames (ma_inner b) = lm_frames (ma_inner ma) \<and>
     ma_get_start a = ma_get_start ma \<and> ma_get_end a = k \<and> ma_get_start b = k \<and> ma_get_end b = ma_get_end ma"

lemma area_range: "lm_in_range (ma_inner ma) v \<longleftrightarrow> ma_get_start ma \<le> v \<and> v < ma_get_end ma"
  by (simp add: lm_in_range_def ma_get_start_def ma_get_end_def)

lemma cut_frames:
  assumes cut: "cut_at k ma a b" and wf: "lm_wf (ma_inner ma)"
  shows "i < length (lm_frames (ma_inner a)) \<Longrightarrow>
      lm_frames (ma_inner a) ! i = lm_frames (ma_inner ma) ! i \<and> lm_vpn (ma_inner a) i = lm_vpn (ma_inner ma) i"
    and "i < length (lm_frames (ma_inner b)) \<Longrightarrow>
      lm_frames (ma_inner b) ! i = lm_frames (ma_inner ma) ! (length (lm_frames (ma_inner a)) + i) \<and>
      lm_vpn (ma_inner b) i = lm_vpn (ma_inner ma) (length (lm_frames (ma_inner a)) + i)"
proof -
  let ?n = "length (lm_frames (ma_inner a))"
  have C: "lm_frames (ma_inner a) @ lm_frames (ma_inner b) = lm_frames (ma_inner ma)"
    "lm_get_start (ma_inner a) = lm_get_start (ma_inner ma)" "lm_get_end (ma_inner a) = lm_get_start (ma_inner b)"
    "lm_wf (ma_inner a)"
    using cut by (simp_all add: cut_at_def ma_get_start_def ma_get_end_def)
  have "unat (lm_get_start (ma_inner b)) = unat (lm_get_start (ma_inner ma)) + ?n"
    using C(2-4) by (auto simp: lm_wf_def word_le_nat_alt)
  then have "of_nat (unat (lm_get_start (ma_inner b))) = (of_nat (unat (lm_get_start (ma_inner ma)) + ?n) :: usize)" by simp
  then have "lm_get_start (ma_inner b) = lm_get_start (ma_inner ma) + of_nat ?n" by simp
  then show "i < length (lm_frames (ma_inner b)) \<Longrightarrow>
      lm_frames (ma_inner b) ! i = lm_frames (ma_inner ma) ! (?n + i) \<and> lm_vpn (ma_inner b) i = lm_vpn (ma_inner ma) (?n + i)"
    by (simp add: lm_vpn_def flip: C(1))
  show "i < ?n \<Longrightarrow> lm_frames (ma_inner a) ! i = lm_frames (ma_inner ma) ! i \<and> lm_vpn (ma_inner a) i = lm_vpn (ma_inner ma) i"
    using C(2) by (simp add: lm_vpn_def nth_append flip: C(1))
qed

lemma cut_range:
  assumes "cut_at k ma a b"
  shows "lm_in_range (ma_inner a) v \<longleftrightarrow> lm_in_range (ma_inner ma) v \<and> v < k"
    and "lm_in_range (ma_inner b) v \<longleftrightarrow> lm_in_range (ma_inner ma) v \<and> k \<le> v"
  using assms unfolding cut_at_def area_range
  by (auto simp: lm_wf_def ma_get_start_def ma_get_end_def dest: order.trans less_le_trans le_less_trans)

lemma cut_view:
  assumes cut: "cut_at k ma a b" and wf: "lm_wf (ma_inner ma)"
  shows "area_view env w a v = (if v < k then area_view env w ma v else None)"
    and "area_view env w b v = (if v < k then None else area_view env w ma v)"
proof -
  have C: "lm_wf (ma_inner a)" "lm_wf (ma_inner b)" "ma_map_file a = ma_map_file ma" "ma_map_file b = ma_map_file ma"
    using cut by (simp_all add: cut_at_def)
  have pv: "page_view env w a = page_view env w ma" "page_view env w b = page_view env w ma"
    using C(3,4) by (simp_all add: page_view_def fun_eq_iff)
  have idx: "lm_index (lm_vpn (ma_inner ma) i) (ma_inner ma) = i" if "i < length (lm_frames (ma_inner ma))" for i
    by (rule lm_vpn_in_range(2) [OF wf that])
  have len: "length (lm_frames (ma_inner ma)) = length (lm_frames (ma_inner a)) + length (lm_frames (ma_inner b))"
    using cut by (metis cut_at_def length_append)
  show "area_view env w a v = (if v < k then area_view env w ma v else None)"
  proof (cases "lm_in_range (ma_inner a) v")
    case True
    note V = lm_index_in_range [OF C(1) True]
    have "lm_index v (ma_inner ma) = lm_index v (ma_inner a)"
      using cut_frames(1) [OF cut wf V(1)] V idx [of "lm_index v (ma_inner a)"] len by simp
    then show ?thesis using True cut_range(1) [OF cut, of v] cut_frames(1) [OF cut wf V(1)] by (simp add: area_view_def pv)
  next
    case False
    then show ?thesis using cut_range(1) [OF cut, of v] by (auto simp: area_view_def)
  qed
  show "area_view env w b v = (if v < k then None else area_view env w ma v)"
  proof (cases "lm_in_range (ma_inner b) v")
    case True
    note V = lm_index_in_range [OF C(2) True]
    have "lm_index v (ma_inner ma) = length (lm_frames (ma_inner a)) + lm_index v (ma_inner b)"
      using cut_frames(2) [OF cut wf V(1)] V idx [of "length (lm_frames (ma_inner a)) + lm_index v (ma_inner b)"] len by simp
    then show ?thesis
      using True cut_range(2) [OF cut, of v] cut_frames(2) [OF cut wf V(1)] by (simp add: area_view_def pv leD)
  next
    case False
    then show ?thesis using cut_range(2) [OF cut, of v] by (auto simp: area_view_def not_less)
  qed
qed

lemma cut_ok:
  assumes cut: "cut_at k ma a b" and ok: "area_ok pt w ma"
  shows "area_ok pt w a" "area_ok pt w b" "area_keys a \<subseteq> area_keys ma" "area_keys b \<subseteq> area_keys ma"
    "area_keys a \<inter> area_keys b = {}" "area_frames a + area_frames b = area_frames ma"
proof -
  have wf: "lm_wf (ma_inner ma)" "length (lm_frames (ma_inner ma)) \<le> 2 ^ 27" using ok by (simp_all add: area_ok_def)
  have fr: "lm_frames (ma_inner a) @ lm_frames (ma_inner b) = lm_frames (ma_inner ma)" using cut by (simp add: cut_at_def)
  then have len: "length (lm_frames (ma_inner ma)) = length (lm_frames (ma_inner a)) + length (lm_frames (ma_inner b))"
    by (metis length_append)
  show "area_ok pt w a"
    using ok cut len cut_frames(1) [OF cut wf(1)] by (simp add: area_ok_def cut_at_def)
  show "area_ok pt w b"
    using ok cut len cut_frames(2) [OF cut wf(1)] by (simp add: area_ok_def cut_at_def)
  show "area_frames a + area_frames b = area_frames ma" by (simp add: area_frames_def flip: fr)
  show "area_keys a \<subseteq> area_keys ma" "area_keys b \<subseteq> area_keys ma"
    using cut_range [OF cut] by (auto simp: area_keys_def)
  show "area_keys a \<inter> area_keys b = {}"
  proof (rule equals0I)
    fix x assume "x \<in> area_keys a \<inter> area_keys b"
    then obtain u v where uv: "lm_in_range (ma_inner ma) u" "u < k" "lm_in_range (ma_inner ma) v" "k \<le> v" "vpn_key u = vpn_key v"
      using cut_range [OF cut] by (auto simp: area_keys_def)
    note U = lm_index_in_range [OF wf(1) uv(1)] and V = lm_index_in_range [OF wf(1) uv(3)]
    have "lm_index u (ma_inner ma) = lm_index v (ma_inner ma)"
      by (rule lm_keys [OF wf U(1) V(1)]) (simp add: U(2) V(2) uv(5))
    then have "u = v" using U(2) V(2) by metis
    then show False using uv(2,4) by simp
  qed
qed

text \<open>Cutting changes neither the invariant nor the view of the space.\<close>

lemma space_cut:
  assumes inv: "space_inv lo M pt (xs @ ma # ys) w" and cut: "cut_at k ma a b"
  shows "space_inv lo M pt (xs @ a # b # ys) w"
proof -
  note I = space_invD [OF inv]
  have ok: "area_ok pt w ma" using I(5) by simp
  note C = cut_ok [OF cut ok]
  have frs: "space_frames [a, b] + (space_frames (xs @ ys) + M) = space_frames (xs @ ma # ys) + M"
    by (simp add: C(6) [symmetric] ac_simps)
  have bs: "area_ok pt w c \<and> area_keys c \<subseteq> area_keys ma" if "c \<in> set [a, b]" for c using that C(1-4) by auto
  have "disjoint_areas [a, b]" using C(5) by (simp add: disjoint_areas_def)
  then show ?thesis
    using space_replace [where bs = "[a, b]", OF inv I(1,2), unfolded frs, OF I(3,4) bs] by simp
qed

section \<open>Unmapping pages of an area, dropping an area\<close>

lemma unmap_area_view:
  assumes eff: "unmap_effect env V M pt w ma w' ma'" and wf: "lm_wf (ma_inner ma)" and v: "v \<notin> V"
  shows "area_view env w' ma' v = area_view env w ma v"
proof (cases "lm_in_range (ma_inner ma) v")
  case True
  note E = eff [unfolded unmap_effect_def]
  have range: "lm_range (ma_inner ma') = lm_range (ma_inner ma)" using E by blast
  note R = lm_range_cong [OF range] and I = lm_index_in_range [OF wf True]
  let ?i = "lm_index v (ma_inner ma)"
  have fr: "lm_frames (ma_inner ma') ! ?i = lm_frames (ma_inner ma) ! ?i" using E I v by auto
  have "?i < length (lm_frames (ma_inner ma'))" using E I(1) by simp
  then have "lm_frames (ma_inner ma') ! ?i \<in># mset (lm_frames (ma_inner ma')) + M" by simp
  then have "frame_content env w' (lm_frames (ma_inner ma') ! ?i) = frame_content env w (lm_frames (ma_inner ma') ! ?i)"
    using E by blast
  then show ?thesis using E True fr by (simp add: area_view_def R page_view_def)
next
  case False
  then show ?thesis using eff lm_range_cong(5) [of "ma_inner ma'" "ma_inner ma"]
    by (simp add: area_view_def unmap_effect_def)
qed

definition subframes :: "frame multiset \<Rightarrow> frame multiset \<Rightarrow> bool" where
  "subframes F' F \<longleftrightarrow> (\<forall>g. g \<noteq> Unallocated \<longrightarrow> count F' g \<le> count F g)"

lemma subframes_simps [simp]: "subframes F F" "subframes F (G + F)" "subframes F (F + G)"
  by (simp_all add: subframes_def)

lemma subframes_add: "subframes F F' \<Longrightarrow> subframes G G' \<Longrightarrow> subframes (F + G) (F' + G')"
  by (simp add: subframes_def add_mono)

lemma subframes_subset: "F \<subseteq># G \<Longrightarrow> subframes F G"
  by (simp add: subframes_def mset_subset_eq_count)

lemma subframes_trans: "subframes F G \<Longrightarrow> subframes G H \<Longrightarrow> subframes F H"
  unfolding subframes_def by (meson order_trans)

lemma subframes_nth:
  assumes "length gs = length fs" and "\<And>i. i < length fs \<Longrightarrow> gs ! i = fs ! i \<or> gs ! i = Unallocated"
  shows "subframes (mset gs) (mset fs)"
proof -
  have "list_all2 (\<lambda>g f. g = f \<or> g = Unallocated) gs fs" using assms by (simp add: list_all2_conv_all_nth)
  then show ?thesis by (induction rule: list_all2_induct) (auto simp: subframes_def)
qed

text \<open>The entries of the pages in \<open>V\<close> are gone, the others are as they were.\<close>

definition cleared :: "sv39 \<Rightarrow> VirtPageNum set \<Rightarrow> ('d, 'z) world \<Rightarrow> ('d, 'z) world \<Rightarrow> bool" where
  "cleared pt V w w' \<longleftrightarrow> (\<forall>u. find_pte pt w' u = (if vpn_key u \<in> vpn_key ` V then None else find_pte pt w u))"

lemma cleared_none: "cleared pt {} w w' \<longleftrightarrow> (\<forall>u. find_pte pt w' u = find_pte pt w u)"
  by (simp add: cleared_def)

lemma cleared_trans: "cleared pt V w w1 \<Longrightarrow> cleared pt U w1 w2 \<Longrightarrow> cleared pt (V \<union> U) w w2"
  by (simp add: cleared_def image_Un)

lemma cleared_pte_step:
  assumes c: "cleared (ms_page_table ms) V w w'"
    and r: "\<And>v ma. v \<notin> V \<Longrightarrow> ma \<in> set (ms_areas ms) \<Longrightarrow> lm_in_range (ma_inner ma) v \<Longrightarrow>
      \<exists>a \<in> set as. lm_in_range (ma_inner a) v"
  shows "pte_step M ms w (ms\<lparr>ms_areas := as\<rparr>) w'"
  unfolding pte_step_def
proof (intro allI impI disjI1 conjI)
  let ?ms = "ms\<lparr>ms_areas := as\<rparr>"
  fix u e assume "find_pte (ms_page_table ?ms) w' u = Some e"
  then have e: "vpn_key u \<notin> vpn_key ` V" "find_pte (ms_page_table ms) w u = Some e"
    using c by (auto simp: cleared_def split: if_splits)
  then show "find_pte (ms_page_table ms) w u = Some e" by simp
  assume "vpn_key u \<in> areas_keys (ms_areas ms)"
  then obtain ma v where v: "ma \<in> set (ms_areas ms)" "lm_in_range (ma_inner ma) v" "vpn_key u = vpn_key v"
    by (auto simp: areas_keys_def area_keys_def)
  have "v \<notin> V" using e(1) v(3) by auto
  from r [OF this v(1,2)] show "vpn_key u \<in> areas_keys (ms_areas ?ms)"
    using v(3) by (auto simp: areas_keys_def area_keys_def)
qed

lemma space_unmap:
  fixes w :: "('d, 'z) world"
  assumes inv: "space_inv lo M pt (xs @ ma # ys) w" and vs: "distinct vs" "\<forall>v \<in> set vs. lm_in_range (ma_inner ma) v"
  shows "\<exists>r w' ma'. unmap_loop env vs b ma pt w = Some (r, ma', w') \<and> space_inv lo M pt (xs @ ma' # ys) w' \<and>
    (\<forall>g \<in># space_frames (xs @ ys) + M. frame_content env w' g = frame_content env w g) \<and>
    subframes (area_frames ma') (area_frames ma) \<and>
    lm_range (ma_inner ma') = lm_range (ma_inner ma) \<and> ma_map_file ma' = ma_map_file ma \<and>
    (\<forall>v. v \<notin> set vs \<longrightarrow> area_view env w' ma' v = area_view env w ma v) \<and> cleared pt (set vs) w w'"
proof -
  let ?N = "space_frames (xs @ ys) + M"
  have area: "area_inv lo ?N pt w ma" by (rule space_focus [OF inv])
  from unmap_loop_ok [OF area vs, of env b] obtain r w' ma' where u: "unmap_loop env vs b ma pt w = Some (r, ma', w')"
    "area_inv lo ?N pt w' ma'" "unmap_effect env (set vs) ?N pt w ma w' ma'" by blast
  note E = u(3) [unfolded unmap_effect_def]
  have range: "lm_range (ma_inner ma') = lm_range (ma_inner ma)" using E by blast
  note A = u(2) [unfolded area_inv_iff]
  have "space_inv lo M pt (xs @ [ma'] @ ys) w'"
  proof (rule space_replace [OF inv])
    show "find_pte pt w' u = find_pte pt w u" if "vpn_key u \<notin> area_keys ma" for u
      using E that vs(2) by (auto simp: area_keys_def)
  qed (use A area_keys_cong [OF range] in \<open>auto simp: ac_simps disjoint_areas_def\<close>)
  moreover have "subframes (area_frames ma') (area_frames ma)"
    unfolding area_frames_def by (rule subframes_nth) (use E in auto)
  moreover have "\<forall>g \<in># ?N. frame_content env w' g = frame_content env w g" using E by auto
  ultimately show ?thesis
    using u(1) range E unmap_area_view [OF u(3) area_invD(4) [OF area]] unfolding cleared_def
    by (intro exI [of _ r] exI [of _ w'] exI [of _ ma']) simp
qed

lemma space_drop:
  fixes w :: "('d, 'z) world"
  assumes inv: "space_inv lo M pt (xs @ ma # ys) w"
  shows "\<exists>w'. frames_drop env (lm_frames (ma_inner ma)) w = Some w' \<and> space_inv lo M pt (xs @ ys) w' \<and>
    (\<forall>g \<in># space_frames (xs @ ys) + M. frame_content env w' g = frame_content env w g) \<and> cleared pt {} w w'"
proof -
  note I = space_invD [OF inv]
  have "frames_ref w (mset (lm_frames (ma_inner ma)) + (space_frames (xs @ ys) + M))"
    using I(3) by (simp add: area_frames_def ac_simps)
  moreover have "set (lm_frames (ma_inner ma)) \<inter> table_frames pt = {}" using I(4) by (auto simp: area_frames_def)
  ultimately obtain w' where d: "frames_drop env (lm_frames (ma_inner ma)) w = Some w'" "world_inv lo w'" "pt_wf lo pt w'"
    "frames_ref w' (space_frames (xs @ ys) + M)" "\<forall>u. find_pte pt w' u = find_pte pt w u"
    "\<forall>g \<in># space_frames (xs @ ys) + M. frame_content env w' g = frame_content env w g"
    using frames_drop_ok [OF I(1,2)] by blast
  have "space_inv lo M pt (xs @ [] @ ys) w'"
    by (rule space_replace [OF inv d(2,3)]) (use d(4,5) I(4) in \<open>auto simp: disjoint_areas_def\<close>)
  then show ?thesis using d(1,5,6) by (simp add: cleared_none)
qed

section \<open>Shortening an area\<close>

text \<open>The pages in \<open>V\<close> leave the area; the others stay as they were, and so does the rest.\<close>

definition area_cut ::
  "usize \<Rightarrow> 'd kenv \<Rightarrow> frame multiset \<Rightarrow> sv39 \<Rightarrow> 'f map_area list \<Rightarrow> 'f map_area list \<Rightarrow> VirtPageNum set \<Rightarrow>
   ('d, 'z) world \<Rightarrow> 'f map_area \<Rightarrow> ('d, 'z) world \<Rightarrow> 'f map_area \<Rightarrow> bool" where
  "area_cut lo env M pt xs ys V w ma w' ma' \<longleftrightarrow>
     space_inv lo M pt (xs @ ma' # ys) w' \<and>
     (\<forall>g \<in># space_frames (xs @ ys) + M. frame_content env w' g = frame_content env w g) \<and>
     subframes (area_frames ma') (area_frames ma) \<and>
     (\<forall>v. lm_in_range (ma_inner ma') v \<longleftrightarrow> lm_in_range (ma_inner ma) v \<and> v \<notin> V) \<and>
     (\<forall>v. area_view env w' ma' v = (if v \<in> V then None else area_view env w ma v)) \<and> cleared pt V w w'"

text \<open>After the pages of one side are unmapped, that side is dropped.\<close>

lemma cut_drop:
  fixes w :: "('d, 'z) world"
  assumes inv: "space_inv lo M pt (xs @ ma # ys) w" and u: "space_inv lo M pt (xs @ ma1 # ys) w1"
    "\<forall>g \<in># space_frames (xs @ ys) + M. frame_content env w1 g = frame_content env w g"
    "subframes (area_frames ma1) (area_frames ma)" "lm_range (ma_inner ma1) = lm_range (ma_inner ma)"
    "\<forall>v. v \<notin> V \<longrightarrow> area_view env w1 ma1 v = area_view env w ma v" "cleared pt V w w1"
    and cut: "cut_at k ma1 a b"
  shows "V = {v. lm_in_range (ma_inner ma) v \<and> k \<le> v} \<Longrightarrow>
      \<exists>w'. frames_drop env (lm_frames (ma_inner b)) w1 = Some w' \<and> area_cut lo env M pt xs ys V w ma w' a"
    and "V = {v. lm_in_range (ma_inner ma) v \<and> v < k} \<Longrightarrow>
      \<exists>w'. frames_drop env (lm_frames (ma_inner a)) w1 = Some w' \<and> area_cut lo env M pt xs ys V w ma w' b"
proof -
  have ok: "area_ok pt w1 ma1" using space_invD(5) [OF u(1)] by simp
  then have wf: "lm_wf (ma_inner ma1)" by (simp add: area_ok_def)
  note C = cut_ok [OF cut ok] and V = cut_view [OF cut wf, of env w1] and R = cut_range [OF cut]
  note range = lm_range_cong(5) [OF u(4)]
  have sub: "subframes (area_frames a) (area_frames ma)" "subframes (area_frames b) (area_frames ma)"
    by - (rule subframes_trans [OF _ u(3)], simp flip: C(6))+
  have out: "area_view env w ma v = None" if "\<not> lm_in_range (ma_inner ma) v" for v
    using that by (simp add: area_view_def)
  have inv2: "space_inv lo M pt ((xs @ [a]) @ b # ys) w1" "space_inv lo M pt (xs @ a # b # ys) w1"
    using space_cut [OF u(1) cut] by simp_all
  {
    assume VV: "V = {v. lm_in_range (ma_inner ma) v \<and> k \<le> v}"
    from space_drop [OF inv2(1), of env] obtain w' where d: "frames_drop env (lm_frames (ma_inner b)) w1 = Some w'"
      "space_inv lo M pt (xs @ a # ys) w'"
      "\<forall>g \<in># space_frames (xs @ a # ys) + M. frame_content env w' g = frame_content env w1 g" "cleared pt {} w1 w'" by auto
    have "area_view env w' a = area_view env w1 a"
      by (rule frames_view) (use d(3) cut in \<open>simp_all add: cut_at_def\<close>)
    moreover have "cleared pt V w w'" using cleared_trans [OF u(6) d(4)] by simp
    ultimately have "area_cut lo env M pt xs ys V w ma w' a"
      using d(2,3) u(2,5) sub(1) R(1) V(1) out by (auto simp: area_cut_def VV range not_less)
    then show "\<exists>w'. frames_drop env (lm_frames (ma_inner b)) w1 = Some w' \<and> area_cut lo env M pt xs ys V w ma w' a"
      using d(1) by blast
  next
    assume VV: "V = {v. lm_in_range (ma_inner ma) v \<and> v < k}"
    from space_drop [OF inv2(2), of env] obtain w' where d: "frames_drop env (lm_frames (ma_inner a)) w1 = Some w'"
      "space_inv lo M pt (xs @ b # ys) w'"
      "\<forall>g \<in># space_frames (xs @ b # ys) + M. frame_content env w' g = frame_content env w1 g" "cleared pt {} w1 w'" by auto
    have "area_view env w' b = area_view env w1 b"
      by (rule frames_view) (use d(3) cut in \<open>simp_all add: cut_at_def\<close>)
    moreover have "cleared pt V w w'" using cleared_trans [OF u(6) d(4)] by simp
    ultimately have "area_cut lo env M pt xs ys V w ma w' b"
      using d(2,3) u(2,5) sub(2) R(2) V(2) out by (auto simp: area_cut_def VV range not_less)
    then show "\<exists>w'. frames_drop env (lm_frames (ma_inner a)) w1 = Some w' \<and> area_cut lo env M pt xs ys V w ma w' b"
      using d(1) by blast
  }
qed

lemma range_part:
  assumes "ma_get_start ma \<le> k" "k \<le> ma_get_end ma"
  shows "set (range_list \<lparr>range_l = k, range_r = ma_get_end ma\<rparr>) = {v. lm_in_range (ma_inner ma) v \<and> k \<le> v}"
    and "set (range_list \<lparr>range_l = ma_get_start ma, range_r = k\<rparr>) = {v. lm_in_range (ma_inner ma) v \<and> v < k}"
    and "distinct (range_list \<lparr>range_l = k, range_r = ma_get_end ma\<rparr>)"
    and "distinct (range_list \<lparr>range_l = ma_get_start ma, range_r = k\<rparr>)"
  using assms by (auto simp: set_range_list area_range intro!: distinct_range_list dest: order.trans less_le_trans)

lemma lm_cut_index:
  assumes wf: "lm_wf lm" and k: "lm_get_start lm \<le> k" "k \<le> lm_get_end lm"
  shows "unat (k - lm_get_start lm) = unat k - unat (lm_get_start lm)"
    "unat (k - lm_get_start lm) \<le> length (lm_frames lm)"
    "unat (lm_get_end lm - k) = length (lm_frames lm) - unat (k - lm_get_start lm)"
proof -
  show 1: "unat (k - lm_get_start lm) = unat k - unat (lm_get_start lm)" by (rule unat_sub_no_wrap [OF k(1)])
  have 2: "unat (lm_get_end lm - k) = unat (lm_get_end lm) - unat k" by (rule unat_sub_no_wrap [OF k(2)])
  show "unat (k - lm_get_start lm) \<le> length (lm_frames lm)"
    "unat (lm_get_end lm - k) = length (lm_frames lm) - unat (k - lm_get_start lm)"
    using wf k unfolding 1 2 lm_wf_def word_le_nat_alt by auto
qed

text \<open>The two sides of a cut at \<open>k\<close>.\<close>

definition lm_lower :: "VirtPageNum \<Rightarrow> linear_map \<Rightarrow> linear_map" where
  "lm_lower k lm = lm\<lparr>lm_range := \<lparr>range_l = lm_get_start lm, range_r = k\<rparr>,
     lm_frames := take (unat (k - lm_get_start lm)) (lm_frames lm)\<rparr>"

definition lm_upper :: "VirtPageNum \<Rightarrow> linear_map \<Rightarrow> linear_map" where
  "lm_upper k lm = lm\<lparr>lm_range := \<lparr>range_l = k, range_r = lm_get_end lm\<rparr>,
     lm_frames := drop (unat (k - lm_get_start lm)) (lm_frames lm)\<rparr>"

lemma lm_parts_wf:
  assumes "lm_wf lm" "lm_get_start lm \<le> k" "k \<le> lm_get_end lm"
  shows "lm_wf (lm_lower k lm)" "lm_wf (lm_upper k lm)"
  using assms lm_cut_index [OF assms]
  by (simp_all add: lm_wf_def lm_lower_def lm_upper_def lm_get_start_def lm_get_end_def word_le_nat_alt)

lemma cut_parts:
  assumes "ma_map_type ma = Framed" "lm_wf (ma_inner ma)" "ma_get_start ma \<le> k" "k \<le> ma_get_end ma"
  shows "cut_at k ma (ma\<lparr>ma_inner := lm_lower k (ma_inner ma)\<rparr>) (ma\<lparr>ma_inner := lm_upper k (ma_inner ma)\<rparr>)"
  using assms lm_parts_wf [OF assms(2), of k]
  by (simp add: cut_at_def ma_get_start_def ma_get_end_def)
    (simp add: lm_lower_def lm_upper_def lm_get_start_def lm_get_end_def)

lemma lm_set_end_cut:
  assumes "lm_wf lm" "lm_get_start lm \<le> k" "k \<le> lm_get_end lm"
  shows "lm_set_end env k lm w =
    map_option (\<lambda>w'. (Inr (), lm_lower k lm, w')) (frames_drop env (lm_frames (lm_upper k lm)) w)"
  using assms(2) lm_cut_index(2) [OF assms]
  by (cases "frames_drop env (lm_frames (lm_upper k lm)) w")
    (simp_all add: lm_set_end_def range_new_def frames_resize_def vec_resize_def lm_lower_def lm_upper_def Let_def
       lm_get_start_def not_less)

lemma lm_set_start_cut:
  assumes "lm_wf lm" "lm_get_start lm \<le> k" "k \<le> lm_get_end lm"
  shows "lm_set_start env k lm w =
    map_option (\<lambda>w'. (Inr (), lm_upper k lm, w')) (frames_drop env (lm_frames (lm_lower k lm)) w)"
proof -
  have [simp]: "(k < lm_get_start lm) = False" "(lm_get_end lm < k) = False" using assms(2,3) by auto
  show ?thesis
    using assms(3) lm_cut_index(2,3) [OF assms]
    by (cases "frames_drop env (lm_frames (lm_lower k lm)) w")
      (simp_all add: lm_set_start_def range_new_def frames_resize_def vec_resize_def slice_rotate_left_def lm_lower_def
         lm_upper_def Let_def)
qed

lemma shrink_to_ok:
  fixes w :: "('d, 'z) world"
  assumes inv: "space_inv lo M pt (xs @ ma # ys) w"
    and k: "ma_get_start ma \<le> k" "k \<le> ma_get_end ma" "unat k < 2 ^ 52"
  shows "\<exists>r w' ma'. shrink_to env (va_from_vpn k) ma pt w = Some (r, ma', w') \<and>
    area_cut lo env M pt xs ys {v. lm_in_range (ma_inner ma) v \<and> k \<le> v} w ma w' ma'"
proof -
  let ?vs = "range_list \<lparr>range_l = k, range_r = ma_get_end ma\<rparr>"
  note P = range_part [OF k(1,2)]
  have "\<forall>v \<in> set ?vs. lm_in_range (ma_inner ma) v" unfolding P(1) by simp
  from space_unmap [OF inv P(3) this, of env False] obtain r w1 ma1 where u:
    "unmap_loop env ?vs False ma pt w = Some (r, ma1, w1)" "space_inv lo M pt (xs @ ma1 # ys) w1"
    "\<forall>g \<in># space_frames (xs @ ys) + M. frame_content env w1 g = frame_content env w g"
    "subframes (area_frames ma1) (area_frames ma)" "lm_range (ma_inner ma1) = lm_range (ma_inner ma)"
    "\<forall>v. v \<notin> {v. lm_in_range (ma_inner ma) v \<and> k \<le> v} \<longrightarrow> area_view env w1 ma1 v = area_view env w ma v"
    "cleared pt {v. lm_in_range (ma_inner ma) v \<and> k \<le> v} w w1"
    unfolding P(1) by blast
  have ok: "ma_map_type ma1 = Framed" "lm_wf (ma_inner ma1)" using space_invD(5) [OF u(2), of ma1] by (simp_all add: area_ok_def)
  have k1: "ma_get_start ma1 \<le> k" "k \<le> ma_get_end ma1"
    using k(1,2) lm_range_cong(1,2) [OF u(5)] by (simp_all add: ma_get_start_def ma_get_end_def)
  from cut_drop(1) [OF inv u(2-7) cut_parts [OF ok k1] refl] obtain w' where
    d: "frames_drop env (lm_frames (lm_upper k (ma_inner ma1))) w1 = Some w'"
    "area_cut lo env M pt xs ys {v. lm_in_range (ma_inner ma) v \<and> k \<le> v} w ma w' (ma1\<lparr>ma_inner := lm_lower k (ma_inner ma1)\<rparr>)"
    by auto
  have "\<exists>r. shrink_to env (va_from_vpn k) ma pt w = Some (r, ma1\<lparr>ma_inner := lm_lower k (ma_inner ma1)\<rparr>, w')"
    using k(2,3) u(1) d(1)
    by (simp add: lm_set_end_cut [OF ok(2) k1 [unfolded ma_get_start_def ma_get_end_def]] shrink_to_def range_new_def va_ceil_from_vpn not_less Let_def)
  then show ?thesis using d(2) by blast
qed

lemma rshrink_to_ok:
  fixes w :: "('d, 'z) world"
  assumes inv: "space_inv lo M pt (xs @ ma # ys) w"
    and k: "ma_get_start ma \<le> k" "k \<le> ma_get_end ma" "unat k < 2 ^ 52"
  shows "\<exists>r w' ma'. rshrink_to env (va_from_vpn k) ma pt w = Some (r, ma', w') \<and>
    area_cut lo env M pt xs ys {v. lm_in_range (ma_inner ma) v \<and> v < k} w ma w' ma'"
proof -
  let ?vs = "range_list \<lparr>range_l = ma_get_start ma, range_r = k\<rparr>"
  note P = range_part [OF k(1,2)]
  have "\<forall>v \<in> set ?vs. lm_in_range (ma_inner ma) v" unfolding P(2) by simp
  from space_unmap [OF inv P(4) this, of env False] obtain r w1 ma1 where u:
    "unmap_loop env ?vs False ma pt w = Some (r, ma1, w1)" "space_inv lo M pt (xs @ ma1 # ys) w1"
    "\<forall>g \<in># space_frames (xs @ ys) + M. frame_content env w1 g = frame_content env w g"
    "subframes (area_frames ma1) (area_frames ma)" "lm_range (ma_inner ma1) = lm_range (ma_inner ma)"
    "\<forall>v. v \<notin> {v. lm_in_range (ma_inner ma) v \<and> v < k} \<longrightarrow> area_view env w1 ma1 v = area_view env w ma v"
    "cleared pt {v. lm_in_range (ma_inner ma) v \<and> v < k} w w1"
    unfolding P(2) by blast
  have ok: "ma_map_type ma1 = Framed" "lm_wf (ma_inner ma1)" using space_invD(5) [OF u(2), of ma1] by (simp_all add: area_ok_def)
  have k1: "ma_get_start ma1 \<le> k" "k \<le> ma_get_end ma1"
    using k(1,2) lm_range_cong(1,2) [OF u(5)] by (simp_all add: ma_get_start_def ma_get_end_def)
  from cut_drop(2) [OF inv u(2-7) cut_parts [OF ok k1] refl] obtain w' where
    d: "frames_drop env (lm_frames (lm_lower k (ma_inner ma1))) w1 = Some w'"
    "area_cut lo env M pt xs ys {v. lm_in_range (ma_inner ma) v \<and> v < k} w ma w' (ma1\<lparr>ma_inner := lm_upper k (ma_inner ma1)\<rparr>)"
    by auto
  have "\<exists>r. rshrink_to env (va_from_vpn k) ma pt w = Some (r, ma1\<lparr>ma_inner := lm_upper k (ma_inner ma1)\<rparr>, w')"
    using k(1,3) u(1) d(1)
    by (simp add: lm_set_start_cut [OF ok(2) k1 [unfolded ma_get_start_def ma_get_end_def]] rshrink_to_def range_new_def not_less Let_def)
  then show ?thesis using d(2) by blast
qed

section \<open>One area of munmap\<close>

text \<open>What becomes of an area, when the pages in \<open>S\<close> are to go.\<close>

definition munmapped ::
  "'d kenv \<Rightarrow> VirtPageNum set \<Rightarrow> ('d, 'z) world \<Rightarrow> ('d, 'z) world \<Rightarrow> munmap_action \<Rightarrow> 'f map_area \<Rightarrow> 'f map_area \<Rightarrow> bool" where
  "munmapped env S w w' act ma ma' \<longleftrightarrow>
     (case act of
        Keep \<Rightarrow> (\<forall>v. lm_in_range (ma_inner ma') v \<longleftrightarrow> lm_in_range (ma_inner ma) v \<and> v \<notin> S) \<and>
          (\<forall>v. area_view env w' ma' v = (if v \<in> S then None else area_view env w ma v))
      | Delete \<Rightarrow> {v. lm_in_range (ma_inner ma) v} \<subseteq> S
      | BreakApart \<Rightarrow> ma' = ma \<and> S \<subseteq> {v. lm_in_range (ma_inner ma) v} \<and> area_view env w' ma = area_view env w ma)"

lemma area_cut_munmapped:
  assumes "area_cut lo env M pt xs ys V w ma w' ma'" and "\<And>v. lm_in_range (ma_inner ma) v \<Longrightarrow> v \<in> V \<longleftrightarrow> v \<in> S"
  shows "munmapped env S w w' Keep ma ma'"
proof -
  note C = assms(1) [unfolded area_cut_def]
  have "area_view env w' ma' v = (if v \<in> S then None else area_view env w ma v)" for v
    using C assms(2) [of v] by (cases "lm_in_range (ma_inner ma) v") (auto simp: area_view_def [of env w])
  then show ?thesis using C assms(2) by (auto simp: munmapped_def)
qed

definition page_range :: "VirtPageNum \<Rightarrow> VirtPageNum \<Rightarrow> VirtPageNum set" where
  "page_range s e = {v. s \<le> v \<and> v < e}"

lemma area_cut_none:
  assumes "space_inv lo M pt (xs @ ma # ys) w" shows "area_cut lo env M pt xs ys {} w ma w ma"
  using assms by (simp add: area_cut_def cleared_none)

lemma munmap_area_ok:
  fixes w :: "('d, 'z) world"
  assumes inv: "space_inv lo M pt (xs @ ma # ys) w" and se: "s < e"
    and ne: "ma_get_start ma < ma_get_end ma" and b: "unat (ma_get_end ma) < 2 ^ 52"
  shows "\<exists>act ma' w'. munmap_area env s e ma pt w =
      Some (s < ma_get_end ma \<and> ma_get_start ma \<le> e, act, ma', w') \<and>
    space_inv lo M pt (xs @ ma' # ys) w' \<and>
    (\<forall>g \<in># space_frames (xs @ ys) + M. frame_content env w' g = frame_content env w g) \<and>
    subframes (area_frames ma') (area_frames ma) \<and> munmapped env (page_range s e) w w' act ma ma' \<and>
    (act = BreakApart \<longrightarrow> ma_get_start ma < s \<and> e < ma_get_end ma) \<and>
    cleared pt (if act = BreakApart then {} else {v. lm_in_range (ma_inner ma) v \<and> v \<in> page_range s e}) w w'"
proof -
  let ?S = "page_range s e"
  let ?found = "s < ma_get_end ma \<and> ma_get_start ma \<le> e"
  have finish: ?thesis if "munmap_area env s e ma pt w = Some (?found, Keep, ma', w')" "area_cut lo env M pt xs ys V w ma w' ma'"
    "V = {v. lm_in_range (ma_inner ma) v \<and> v \<in> ?S}" for V ma' w'
  proof -
    have "munmapped env ?S w w' Keep ma ma'" by (rule area_cut_munmapped [OF that(2)]) (simp add: that(3))
    then show ?thesis using that(1,2) unfolding area_cut_def that(3)
      by (intro exI [of _ Keep] exI [of _ ma'] exI [of _ w']) simp
  qed
  consider (none) "\<not> ?found" | (all) "?found" "s \<le> ma_get_start ma" "ma_get_end ma \<le> e"
    | (lower) "?found" "s \<le> ma_get_start ma" "e < ma_get_end ma" | (upper) "?found" "ma_get_start ma < s" "ma_get_end ma \<le> e"
    | (mid) "?found" "ma_get_start ma < s" "e < ma_get_end ma" by fastforce
  then show ?thesis
  proof cases
    case none
    show ?thesis
      by (rule finish [OF _ area_cut_none [OF inv]])
        (use none in \<open>auto simp: munmap_area_def check_overlapping_def Let_def area_range page_range_def\<close>)
  next
    case all
    have wf: "lm_wf (ma_inner ma)" using space_invD(5) [OF inv] by (simp add: area_ok_def)
    have set: "set (range_list (lm_range (ma_inner ma))) = {v. lm_in_range (ma_inner ma) v}" by (rule set_lm_range [OF wf])
    have "distinct (range_list (lm_range (ma_inner ma)))"
      using wf by (intro distinct_range_list) (simp add: lm_wf_def lm_get_start_def lm_get_end_def)
    from space_unmap [OF inv this, of env False] obtain r w' ma' where u:
      "unmap_loop env (range_list (lm_range (ma_inner ma))) False ma pt w = Some (r, ma', w')"
      "space_inv lo M pt (xs @ ma' # ys) w'" "subframes (area_frames ma') (area_frames ma)"
      "\<forall>g \<in># space_frames (xs @ ys) + M. frame_content env w' g = frame_content env w g"
      "cleared pt {v. lm_in_range (ma_inner ma) v} w w'" unfolding set by blast
    have "munmap_area env s e ma pt w = Some (?found, Delete, ma', w')"
      using all u(1) by (auto simp: munmap_area_def check_overlapping_def Let_def ma_unmap_def not_less)
    moreover have "munmapped env ?S w w' Delete ma ma'"
      using all by (auto simp: munmapped_def area_range page_range_def)
    moreover have "{v. lm_in_range (ma_inner ma) v \<and> v \<in> ?S} = {v. lm_in_range (ma_inner ma) v}"
      using all by (auto simp: area_range page_range_def)
    ultimately show ?thesis using u(2-5) by (intro exI [of _ Delete] exI [of _ ma'] exI [of _ w']) simp
  next
    case lower
    have "ma_get_start ma \<le> e" "e \<le> ma_get_end ma" "unat e < 2 ^ 52" using lower b by (auto simp: word_less_nat_alt word_le_nat_alt)
    from rshrink_to_ok [OF inv this, of env] obtain r w' ma' where r:
      "rshrink_to env (va_from_vpn e) ma pt w = Some (r, ma', w')"
      "area_cut lo env M pt xs ys {v. lm_in_range (ma_inner ma) v \<and> v < e} w ma w' ma'"
      by blast
    show ?thesis
      by (rule finish [OF _ r(2)])
        (use lower r(1) in \<open>auto simp: munmap_area_def check_overlapping_def Let_def area_range page_range_def not_less\<close>)
  next
    case upper
    have "ma_get_start ma \<le> s" "s \<le> ma_get_end ma" "unat s < 2 ^ 52" using upper b by (auto simp: word_less_nat_alt word_le_nat_alt)
    from shrink_to_ok [OF inv this, of env] obtain r w' ma' where r:
      "shrink_to env (va_from_vpn s) ma pt w = Some (r, ma', w')"
      "area_cut lo env M pt xs ys {v. lm_in_range (ma_inner ma) v \<and> s \<le> v} w ma w' ma'"
      by blast
    show ?thesis
      by (rule finish [OF _ r(2)])
        (use upper r(1) in \<open>auto simp: munmap_area_def check_overlapping_def Let_def area_range page_range_def not_less\<close>)
  next
    case mid
    then have "munmap_area env s e ma pt w = Some (?found, BreakApart, ma, w)"
      by (auto simp: munmap_area_def check_overlapping_def Let_def not_less)
    moreover have "munmapped env ?S w w BreakApart ma ma"
      using mid by (auto simp: munmapped_def area_range page_range_def)
    ultimately show ?thesis using inv mid
      by (intro exI [of _ BreakApart] exI [of _ ma] exI [of _ w]) (simp add: cleared_none)
  qed
qed

section \<open>All areas\<close>

fun deleted :: "nat \<Rightarrow> munmap_action list \<Rightarrow> nat list" where
  "deleted k [] = []"
| "deleted k (act # acts) = (if act = Delete then [k] else []) @ deleted (Suc k) acts"

fun last_break :: "nat \<Rightarrow> munmap_action list \<Rightarrow> nat option \<Rightarrow> nat option" where
  "last_break k [] b = b"
| "last_break k (act # acts) b = last_break (Suc k) acts (if act = BreakApart then Some k else b)"

fun kept :: "munmap_action list \<Rightarrow> 'a list \<Rightarrow> 'a list" where
  "kept (act # acts) (x # xs) = (if act = Delete then [] else [x]) @ kept acts xs"
| "kept _ _ = []"

lemma deleted_none: "deleted k acts = [] \<longleftrightarrow> Delete \<notin> set acts"
  by (induction acts arbitrary: k) auto

lemma kept_all: "Delete \<notin> set acts \<Longrightarrow> length acts = length xs \<Longrightarrow> kept acts xs = xs"
  by (induction acts xs rule: kept.induct) auto

lemma last_break_Some:
  "last_break k acts b = Some i \<Longrightarrow> b = Some i \<or> (k \<le> i \<and> i - k < length acts \<and> acts ! (i - k) = BreakApart)"
proof (induction acts arbitrary: k b)
  case (Cons act acts)
  from Cons.IH [OF Cons.prems [simplified]] show ?case
    by (auto simp: nth_Cons' split: if_splits)
qed simp

lemma last_break_None: "last_break k acts b = None \<Longrightarrow> b = None \<and> BreakApart \<notin> set acts"
proof (induction acts arbitrary: k b)
  case (Cons act acts)
  from Cons.IH [OF Cons.prems [simplified]] show ?case by (auto split: if_splits)
qed simp

text \<open>What became of each area of a list.\<close>

fun all_munmapped ::
  "'d kenv \<Rightarrow> VirtPageNum set \<Rightarrow> ('d, 'z) world \<Rightarrow> ('d, 'z) world \<Rightarrow> munmap_action list \<Rightarrow> 'f map_area list \<Rightarrow>
   'f map_area list \<Rightarrow> bool" where
  "all_munmapped env S w w' [] [] [] = True"
| "all_munmapped env S w w' (act # acts) (ma # mas) (ma' # mas') =
     (munmapped env S w w' act ma ma' \<and> all_munmapped env S w w' acts mas mas')"
| "all_munmapped _ _ _ _ _ _ _ = False"

lemma all_munmapped_length:
  "all_munmapped env S w w' acts mas mas' \<Longrightarrow> length acts = length mas \<and> length mas' = length mas"
  by (induction env S w w' acts mas mas' rule: all_munmapped.induct) auto

lemma all_munmapped_nth:
  "all_munmapped env S w w' acts mas mas' \<Longrightarrow> i < length mas \<Longrightarrow> munmapped env S w w' (acts ! i) (mas ! i) (mas' ! i)"
  by (induction env S w w' acts mas mas' arbitrary: i rule: all_munmapped.induct) (auto simp: nth_Cons')

lemma munmapped_cong:
  "area_view env w1 ma = area_view env w ma \<Longrightarrow> munmapped env S w1 w' act ma ma' \<Longrightarrow> munmapped env S w w' act ma ma'"
  "area_view env w' ma' = area_view env w1 ma' \<Longrightarrow> munmapped env S w w1 act ma ma' \<Longrightarrow> munmapped env S w w' act ma ma'"
  by (auto simp: munmapped_def split: munmap_action.splits)

lemma all_munmapped_before:
  "all_munmapped env S w1 w' acts mas mas' \<Longrightarrow> (\<And>a. a \<in> set mas \<Longrightarrow> area_view env w1 a = area_view env w a) \<Longrightarrow>
   all_munmapped env S w w' acts mas mas'"
  by (induction env S w1 w' acts mas mas' rule: all_munmapped.induct) (auto intro: munmapped_cong(1))

text \<open>The pages that the loop over the areas unmaps.\<close>

fun cut_pages :: "VirtPageNum set \<Rightarrow> munmap_action list \<Rightarrow> 'f map_area list \<Rightarrow> VirtPageNum set" where
  "cut_pages S (act # acts) (ma # mas) =
     (if act = BreakApart then {} else {v. lm_in_range (ma_inner ma) v \<and> v \<in> S}) \<union> cut_pages S acts mas"
| "cut_pages S _ _ = {}"

lemma cut_pages_all:
  "BreakApart \<notin> set acts \<Longrightarrow> length acts = length mas \<Longrightarrow>
   cut_pages S acts mas = {v \<in> S. \<exists>ma \<in> set mas. lm_in_range (ma_inner ma) v}"
  by (induction S acts mas rule: cut_pages.induct) auto

lemma cut_pages_sub: "cut_pages S acts mas \<subseteq> {v \<in> S. \<exists>ma \<in> set mas. lm_in_range (ma_inner ma) v}"
  by (induction S acts mas rule: cut_pages.induct) auto

text \<open>Every page outside the range is still in an area.\<close>

lemma all_munmapped_range:
  "all_munmapped env S w w' acts mas mas' \<Longrightarrow> v \<notin> S \<Longrightarrow> \<exists>ma \<in> set mas. lm_in_range (ma_inner ma) v \<Longrightarrow>
   \<exists>ma \<in> set (kept acts mas'). lm_in_range (ma_inner ma) v"
  by (induction env S w w' acts mas mas' rule: all_munmapped.induct)
    (auto simp: munmapped_def split: munmap_action.splits)

lemma munmap_loop_ok:
  fixes w :: "('d, 'z) world"
  assumes "space_inv lo M pt (xs @ areas) w" and "s < e"
    and "\<forall>ma \<in> set areas. ma_get_start ma < ma_get_end ma \<and> unat (ma_get_end ma) < 2 ^ 52"
  shows "\<exists>acts areas' w'. munmap_loop env s e k areas pt st w =
      Some (\<lparr>mu_found = mu_found st \<or> (\<exists>ma \<in> set areas. s < ma_get_end ma \<and> ma_get_start ma \<le> e),
             mu_delete = mu_delete st @ deleted k acts, mu_break = last_break k acts (mu_break st)\<rparr>, areas', w') \<and>
    space_inv lo M pt (xs @ areas') w' \<and>
    (\<forall>g \<in># space_frames xs + M. frame_content env w' g = frame_content env w g) \<and>
    subframes (space_frames areas') (space_frames areas) \<and>
    all_munmapped env (page_range s e) w w' acts areas areas' \<and>
    (\<forall>i < length areas. acts ! i = BreakApart \<longrightarrow> ma_get_start (areas ! i) < s \<and> e < ma_get_end (areas ! i)) \<and>
    cleared pt (cut_pages (page_range s e) acts areas) w w'"
  using assms(1,3)
proof (induction areas arbitrary: xs k st w)
  case Nil
  then show ?case by (intro exI [of _ "[]"]) (simp add: cleared_none)
next
  case (Cons ma areas)
  have m: "ma_get_start ma < ma_get_end ma" "unat (ma_get_end ma) < 2 ^ 52" using Cons.prems(2) by auto
  from munmap_area_ok [OF Cons.prems(1) assms(2) m, of env] obtain act ma1 w1 where 1:
    "munmap_area env s e ma pt w = Some (s < ma_get_end ma \<and> ma_get_start ma \<le> e, act, ma1, w1)"
    "space_inv lo M pt (xs @ ma1 # areas) w1"
    "\<forall>g \<in># space_frames (xs @ areas) + M. frame_content env w1 g = frame_content env w g"
    "subframes (area_frames ma1) (area_frames ma)" "munmapped env (page_range s e) w w1 act ma ma1"
    "act = BreakApart \<longrightarrow> ma_get_start ma < s \<and> e < ma_get_end ma"
    "cleared pt (if act = BreakApart then {} else {v. lm_in_range (ma_inner ma) v \<and> v \<in> page_range s e}) w w1" by blast
  let ?st = "\<lparr>mu_found = mu_found st \<or> s < ma_get_end ma \<and> ma_get_start ma \<le> e,
    mu_delete = mu_delete st @ (if act = Delete then [k] else []),
    mu_break = (if act = BreakApart then Some k else mu_break st)\<rparr>"
  from Cons.IH [of "xs @ [ma1]" w1 "Suc k" ?st] 1(2) Cons.prems(2) obtain acts areas' w' where 2:
    "munmap_loop env s e (Suc k) areas pt ?st w1 =
      Some (\<lparr>mu_found = mu_found ?st \<or> (\<exists>ma \<in> set areas. s < ma_get_end ma \<and> ma_get_start ma \<le> e),
             mu_delete = mu_delete ?st @ deleted (Suc k) acts, mu_break = last_break (Suc k) acts (mu_break ?st)\<rparr>, areas', w')"
    "space_inv lo M pt (xs @ ma1 # areas') w'"
    "\<forall>g \<in># space_frames (xs @ [ma1]) + M. frame_content env w' g = frame_content env w1 g"
    "subframes (space_frames areas') (space_frames areas)"
    "all_munmapped env (page_range s e) w1 w' acts areas areas'"
    "\<forall>i < length areas. acts ! i = BreakApart \<longrightarrow> ma_get_start (areas ! i) < s \<and> e < ma_get_end (areas ! i)"
    "cleared pt (cut_pages (page_range s e) acts areas) w1 w'" by auto
  have "area_view env w' ma1 = area_view env w1 ma1"
    by (rule frames_view) (use 2(3) space_invD(5) [OF 1(2), of ma1] in \<open>simp_all add: area_ok_def\<close>)
  then have "munmapped env (page_range s e) w w' act ma ma1" by (rule munmapped_cong(2) [OF _ 1(5)])
  moreover have "all_munmapped env (page_range s e) w w' acts areas areas'"
    by (rule all_munmapped_before [OF 2(5)]) (rule rest_view [OF Cons.prems(1)], use 1(3) in auto)
  ultimately have mm: "all_munmapped env (page_range s e) w w' (act # acts) (ma # areas) (ma1 # areas')" by simp
  have eq: "munmap_loop env s e k (ma # areas) pt st w =
      Some (\<lparr>mu_found = mu_found st \<or> (\<exists>ma \<in> set (ma # areas). s < ma_get_end ma \<and> ma_get_start ma \<le> e),
             mu_delete = mu_delete st @ deleted k (act # acts), mu_break = last_break k (act # acts) (mu_break st)\<rparr>,
            ma1 # areas', w')"
    using 1(1) 2(1) by (simp add: Let_def disj_assoc)
  have sub: "subframes (space_frames (ma1 # areas')) (space_frames (ma # areas))"
    using subframes_add [OF 1(4) 2(4)] by simp
  have cl: "cleared pt (cut_pages (page_range s e) (act # acts) (ma # areas)) w w'"
    unfolding cut_pages.simps by (rule cleared_trans [OF 1(7) 2(7)])
  have con: "\<forall>g \<in># space_frames xs + M. frame_content env w' g = frame_content env w g" using 1(3) 2(3) by auto
  have br: "\<forall>i < length (ma # areas). (act # acts) ! i = BreakApart \<longrightarrow>
      ma_get_start ((ma # areas) ! i) < s \<and> e < ma_get_end ((ma # areas) ! i)"
    using 1(6) 2(6) by (simp add: nth_Cons split: nat.split)
  show ?case using eq 2(2) con sub mm br cl by (intro exI conjI)
qed

text \<open>The areas marked for deletion are removed, last first.\<close>

lemma areas_remove_all_append:
  "areas_remove_all env (is @ js) areas w =
     areas_remove_all env is areas w \<bind> (\<lambda>(areas, w). areas_remove_all env js areas w)"
  by (induction "is" arbitrary: areas w) (auto simp: Option.bind_assoc split_def)

lemma remove_all_ok:
  fixes w :: "('d, 'z) world"
  assumes "length acts = length areas" and "space_inv lo M pt (xs @ areas) w"
  shows "\<exists>w'. areas_remove_all env (rev (deleted (length xs) acts)) (xs @ areas) w = Some (xs @ kept acts areas, w') \<and>
    space_inv lo M pt (xs @ kept acts areas) w' \<and>
    (\<forall>g \<in># space_frames (xs @ kept acts areas) + M. frame_content env w' g = frame_content env w g) \<and> cleared pt {} w w'"
  using assms
proof (induction acts areas arbitrary: xs rule: list_induct2)
  case (Cons act acts ma areas)
  from Cons.IH [of "xs @ [ma]"] Cons.prems obtain w1 where 1:
    "areas_remove_all env (rev (deleted (Suc (length xs)) acts)) (xs @ ma # areas) w = Some (xs @ ma # kept acts areas, w1)"
    "space_inv lo M pt (xs @ ma # kept acts areas) w1"
    "\<forall>g \<in># space_frames (xs @ ma # kept acts areas) + M. frame_content env w1 g = frame_content env w g"
    "cleared pt {} w w1" by auto
  show ?case
  proof (cases "act = Delete")
    case True
    from space_drop [OF 1(2), of env] obtain w' where
      "frames_drop env (lm_frames (ma_inner ma)) w1 = Some w'" "space_inv lo M pt (xs @ kept acts areas) w'"
      "\<forall>g \<in># space_frames (xs @ kept acts areas) + M. frame_content env w' g = frame_content env w1 g"
      "cleared pt {} w1 w'" by blast
    then show ?thesis using True 1
      by (auto simp: areas_remove_all_append areas_remove_def vec_get_def vec_remove_def cleared_none)
  qed (use 1 in simp)
qed (simp add: cleared_none)

lemma kept_frames: "length acts = length areas \<Longrightarrow> space_frames (kept acts areas) \<subseteq># space_frames areas"
  by (induction acts areas rule: list_induct2)
    (auto intro: subset_mset.add_mono simp: subset_mset.add_increasing)

text \<open>Outside the range the view is the one before; inside, only an area still to be broken apart has pages.\<close>

lemma all_munmapped_view:
  assumes "all_munmapped env S w w' acts mas mas'"
  shows "v \<notin> S \<Longrightarrow> space_view env w' (kept acts mas') v = space_view env w mas v"
    and "v \<in> S \<Longrightarrow> BreakApart \<notin> set acts \<Longrightarrow> space_view env w' (kept acts mas') v = None"
  using assms
  by (induction env S w w' acts mas mas' rule: all_munmapped.induct) (auto simp: munmapped_def split: munmap_action.splits)

section \<open>Breaking an area apart\<close>

lemma lm_into_two_cut:
  assumes wf: "lm_wf lm" and k: "lm_get_start lm < k" "k < lm_get_end lm"
  shows "\<exists>a1 a2 c s c' s'. lm_into_two k lm =
    Some (Inr ((lm_upper k lm)\<lparr>lm_active := a2, lm_compressed := c', lm_swapped := s'\<rparr>),
          (lm_lower k lm)\<lparr>lm_active := a1, lm_compressed := c, lm_swapped := s\<rparr>)"
proof -
  have le: "lm_get_start lm \<le> k" "k \<le> lm_get_end lm" and "\<not> k \<le> lm_get_start lm" "\<not> lm_get_end lm \<le> k"
    using k by auto
  note I = lm_cut_index [OF wf le]
  let ?n = "unat (k - lm_get_start lm)"
  have "\<exists>cs. lm_count_compressed_and_swapped 0 ?n (lm\<lparr>lm_frames := take ?n (lm_frames lm)\<rparr>) = Some cs"
    using I(2) by (simp add: lm_count_compressed_and_swapped_def)
  then obtain c s where c: "lm_count_compressed_and_swapped 0 ?n (lm\<lparr>lm_frames := take ?n (lm_frames lm)\<rparr>) = Some (c, s)"
    by auto
  obtain a1 a2 where "split_active_into_two (lm_active lm) (k - lm_get_start lm) = (a1, a2)" by fastforce
  then show ?thesis
    using k le I(2) c by (cases lm) (auto simp: lm_into_two_def Let_def range_new_def lm_lower_def lm_upper_def not_le)
qed

lemma lm_upd_simps:
  "lm_wf (lm\<lparr>lm_active := a, lm_compressed := c, lm_swapped := s\<rparr>) = lm_wf lm"
  "lm_get_start (lm\<lparr>lm_active := a, lm_compressed := c, lm_swapped := s\<rparr>) = lm_get_start lm"
  "lm_get_end (lm\<lparr>lm_active := a, lm_compressed := c, lm_swapped := s\<rparr>) = lm_get_end lm"
  by (simp_all add: lm_wf_def lm_get_start_def lm_get_end_def)

lemma lm_parts_range:
  "lm_get_start (lm_lower k lm) = lm_get_start lm" "lm_get_end (lm_lower k lm) = k"
  "lm_get_start (lm_upper k lm) = k" "lm_get_end (lm_upper k lm) = lm_get_end lm"
  "lm_frames (lm_lower k lm) @ lm_frames (lm_upper k lm) = lm_frames lm"
  by (simp_all add: lm_lower_def lm_upper_def lm_get_start_def lm_get_end_def)

lemma ma_into_three_cut:
  assumes ma: "ma_map_type ma = Framed" "ma_map_file ma = None" "lm_wf (ma_inner ma)"
    and k: "ma_get_start ma < s" "s < e" "e < ma_get_end ma"
  shows "\<exists>first rest second third. ma_into_three env s e ma w = Some (Inr (second, third), first, w) \<and>
    cut_at s ma first rest \<and> cut_at e rest second third"
proof -
  let ?lm = "ma_inner ma"
  have k': "lm_get_start ?lm < s" "s < lm_get_end ?lm" "lm_get_start ?lm \<le> s" "s \<le> lm_get_end ?lm"
    using k by (auto simp: ma_get_start_def ma_get_end_def)
  from lm_into_two_cut [OF ma(3) k'(1,2)] obtain first rest where 1: "lm_into_two s ?lm = Some (Inr rest, first)"
    "\<exists>a c n. first = (lm_lower s ?lm)\<lparr>lm_active := a, lm_compressed := c, lm_swapped := n\<rparr>"
    "\<exists>a c n. rest = (lm_upper s ?lm)\<lparr>lm_active := a, lm_compressed := c, lm_swapped := n\<rparr>" by blast
  have cut1: "cut_at s ma (ma\<lparr>ma_inner := first\<rparr>) (ma\<lparr>ma_inner := rest\<rparr>)"
    using 1(2,3) ma(1) lm_parts_wf [OF ma(3) k'(3,4)]
    by (auto simp: cut_at_def ma_get_start_def ma_get_end_def lm_upd_simps lm_parts_range)
  have r: "lm_wf rest" "lm_get_start rest = s" "lm_get_end rest = lm_get_end ?lm"
    using 1(3) lm_parts_wf(2) [OF ma(3) k'(3,4)] by (auto simp: lm_upd_simps lm_parts_range)
  have ke: "lm_get_start rest < e" "e < lm_get_end rest" "lm_get_start rest \<le> e" "e \<le> lm_get_end rest"
    using k r by (auto simp: ma_get_end_def)
  from lm_into_two_cut [OF r(1) ke(1,2)] obtain second third where 2: "lm_into_two e rest = Some (Inr third, second)"
    "\<exists>a c n. second = (lm_lower e rest)\<lparr>lm_active := a, lm_compressed := c, lm_swapped := n\<rparr>"
    "\<exists>a c n. third = (lm_upper e rest)\<lparr>lm_active := a, lm_compressed := c, lm_swapped := n\<rparr>" by blast
  have "cut_at e (ma\<lparr>ma_inner := rest\<rparr>) (ma\<lparr>ma_inner := second, ma_map_file := None\<rparr>) (ma\<lparr>ma_inner := third, ma_map_file := None\<rparr>)"
    using 2(2,3) ma(1,2) lm_parts_wf [OF r(1) ke(3,4)]
    by (auto simp: cut_at_def ma_get_start_def ma_get_end_def lm_upd_simps lm_parts_range)
  then show ?thesis using cut1 ma(2) by (auto simp: ma_into_three_def lm_into_three_def 1(1) 2(1))
qed

lemma space_view_outside:
  "\<not> (\<exists>a \<in> set areas. lm_in_range (ma_inner a) v) \<Longrightarrow> space_view env w areas v = None"
  by (induction areas) auto

lemma disjoint_outside:
  assumes "disjoint_areas (xs @ ma # ys)" "lm_in_range (ma_inner ma) v" "a \<in> set xs \<union> set ys"
  shows "\<not> lm_in_range (ma_inner a) v"
proof -
  have "area_keys a \<inter> area_keys ma = {}"
    using assms(1,3) by (auto simp: disjoint_areas_def sorted_wrt_append)
  then show ?thesis using assms(2) by (auto simp: area_keys_def)
qed

lemma munmap_break_ok:
  fixes w :: "('d, 'z) world"
  assumes inv: "space_inv lo M pt (xs @ ma # ys) w" and k: "ma_get_start ma < s" "s < e" "e < ma_get_end ma"
    and anon: "ma_map_file ma = None"
  shows "\<exists>first third w'. munmap_break env s e (length xs) pt (xs @ ma # ys) w = Some (xs @ first # third # ys, w') \<and>
    space_inv lo M pt (xs @ first # third # ys) w' \<and>
    (\<forall>g \<in># M. frame_content env w' g = frame_content env w g) \<and>
    subframes (space_frames (xs @ first # third # ys)) (space_frames (xs @ ma # ys)) \<and>
    (\<forall>v. space_view env w' (xs @ first # third # ys) v =
      (if v \<in> page_range s e then None else space_view env w (xs @ ma # ys) v)) \<and>
    cleared pt (page_range s e) w w' \<and>
    (\<forall>v a. v \<notin> page_range s e \<longrightarrow> a \<in> set (xs @ ma # ys) \<longrightarrow> lm_in_range (ma_inner a) v \<longrightarrow>
       (\<exists>b \<in> set (xs @ first # third # ys). lm_in_range (ma_inner b) v))"
proof -
  have ok: "area_ok pt w ma" using space_invD(5) [OF inv] by simp
  then have fw: "ma_map_type ma = Framed" "lm_wf (ma_inner ma)" by (simp_all add: area_ok_def)
  from ma_into_three_cut [OF fw(1) anon fw(2) k, of env w] obtain first rest second third where
    3: "ma_into_three env s e ma w = Some (Inr (second, third), first, w)" "cut_at s ma first rest" "cut_at e rest second third"
    by blast
  have inv3: "space_inv lo M pt ((xs @ [first]) @ second # (third # ys)) w"
    using space_cut [where xs = "xs @ [first]" and ma = rest and ys = ys, OF _ 3(3)] space_cut [OF inv 3(2)] by simp
  have rok: "area_ok pt w rest" using cut_ok(2) [OF 3(2) ok] .
  then have rwf: "lm_wf (ma_inner rest)" by (simp add: area_ok_def)
  have swf: "lm_wf (ma_inner second)" using 3(3) by (simp add: cut_at_def)
  have set: "set (range_list (lm_range (ma_inner second))) = {v. lm_in_range (ma_inner second) v}" by (rule set_lm_range [OF swf])
  have "distinct (range_list (lm_range (ma_inner second)))"
    using swf by (intro distinct_range_list) (simp add: lm_wf_def lm_get_start_def lm_get_end_def)
  from space_unmap [OF inv3 this, of env False] obtain r w1 second1 where u:
    "unmap_loop env (range_list (lm_range (ma_inner second))) False second pt w = Some (r, second1, w1)"
    "space_inv lo M pt ((xs @ [first]) @ second1 # (third # ys)) w1"
    "\<forall>g \<in># space_frames ((xs @ [first]) @ third # ys) + M. frame_content env w1 g = frame_content env w g"
    "cleared pt {v. lm_in_range (ma_inner second) v} w w1"
    unfolding set by blast
  from space_drop [OF u(2), of env] obtain w' where d: "frames_drop env (lm_frames (ma_inner second1)) w1 = Some w'"
    "space_inv lo M pt (xs @ first # third # ys) w'"
    "\<forall>g \<in># space_frames ((xs @ [first]) @ third # ys) + M. frame_content env w' g = frame_content env w1 g"
    "cleared pt {} w1 w'" by auto
  have con: "frame_content env w' g = frame_content env w g" if "g \<in># space_frames ((xs @ [first]) @ third # ys) + M" for g
    using bspec [OF u(3) that] bspec [OF d(3) that] by simp
  have eq: "munmap_break env s e (length xs) pt (xs @ ma # ys) w = Some (xs @ first # third # ys, w')"
    using 3(1) u(1) d(1) by (simp add: munmap_break_def vec_get_def Let_def ma_unmap_def vec_insert_def list_update_append)
  have av: "area_view env w' a = area_view env w a" if "a \<in> set (xs @ [first, third] @ ys)" for a
    by (rule rest_view [OF inv3]) (use con that in auto)
  note V = cut_view(1) [OF 3(2) fw(2), of env w] cut_view(2) [OF 3(3) rwf, of env w] cut_view(2) [OF 3(2) fw(2), of env w]
    and R = cut_range [OF 3(2)] cut_range [OF 3(3)]
  have in_r: "lm_in_range (ma_inner first) v \<longleftrightarrow> lm_in_range (ma_inner ma) v \<and> v < s"
    "lm_in_range (ma_inner third) v \<longleftrightarrow> lm_in_range (ma_inner ma) v \<and> e \<le> v" for v
    using R k by auto
  have "{v. lm_in_range (ma_inner second) v} = page_range s e"
    using R k by (auto simp: page_range_def area_range)
  then have cl: "cleared pt (page_range s e) w w'" using cleared_trans [OF u(4) d(4)] by simp
  have rng: "\<forall>v a. v \<notin> page_range s e \<longrightarrow> a \<in> set (xs @ ma # ys) \<longrightarrow> lm_in_range (ma_inner a) v \<longrightarrow>
      (\<exists>b \<in> set (xs @ first # third # ys). lm_in_range (ma_inner b) v)"
    using in_r by (auto simp: page_range_def not_less not_le)
  have view: "space_view env w' (xs @ first # third # ys) v =
      (if v \<in> page_range s e then None else space_view env w (xs @ ma # ys) v)" for v
  proof -
    have eqw: "space_view env w' (xs @ first # third # ys) v = space_view env w (xs @ first # third # ys) v"
      by (rule space_view_cong) (use av in auto)
    show ?thesis
    proof (cases "v \<in> page_range s e")
      case True
      then have "lm_in_range (ma_inner ma) v" using k by (auto simp: page_range_def area_range)
      then have "\<not> (\<exists>a \<in> set (xs @ first # third # ys). lm_in_range (ma_inner a) v)"
        using disjoint_outside [OF space_invD(6) [OF inv], of v] True in_r by (auto simp: page_range_def)
      then have "space_view env w (xs @ first # third # ys) v = None" by (rule space_view_outside)
      then show ?thesis using True eqw by simp
    next
      case False
      then consider (low) "v < s" | (high) "e \<le> v" "\<not> v < s" "\<not> v < e" using k(2) by (force simp: page_range_def)
      then have pick: "(if lm_in_range (ma_inner first) v then area_view env w first v
          else if lm_in_range (ma_inner third) v then area_view env w third v else z) =
        (if lm_in_range (ma_inner ma) v then area_view env w ma v else z)" for z
        by cases (use k(2) in \<open>simp_all add: in_r V\<close>)
      show ?thesis unfolding eqw by (simp only: space_view_append space_view_simps pick False if_False)
    qed
  qed
  have frs: "area_frames ma = area_frames first + (area_frames second + area_frames third)"
    using cut_ok(6) [OF 3(2) ok] cut_ok(6) [OF 3(3) rok] by simp
  have sub: "subframes (space_frames (xs @ first # third # ys)) (space_frames (xs @ ma # ys))"
    by (simp add: subframes_def frs)
  have "\<forall>g \<in># M. frame_content env w' g = frame_content env w g" using con by simp
  then show ?thesis using eq d(2) sub view cl rng
    by (intro exI [of _ first] exI [of _ third] exI [of _ w'] conjI) (assumption | simp)+
qed

section \<open>munmap\<close>

lemma nth_other: "i \<noteq> j \<Longrightarrow> j < length xs \<Longrightarrow> xs ! j \<in> set (take i xs) \<union> set (drop (Suc i) xs)"
proof (cases "j < i")
  case False
  assume "i \<noteq> j" "j < length xs"
  then have "xs ! j = drop (Suc i) xs ! (j - Suc i)" "j - Suc i < length (drop (Suc i) xs)" using False by auto
  then show ?thesis by (metis UnI2 nth_mem)
qed (auto simp: in_set_conv_nth)

text \<open>
  For a range that is not empty, in a space of non-empty areas below \<open>2 ^ 52\<close> pages in which
  a file mapping does not strictly contain it: the pages of the range are gone, every other
  page is as it was, and the invariant holds again.
\<close>

lemma munmap_ok:
  fixes w :: "('d, 'z) world"
  assumes inv: "ms_inv lo M ms w" and al: "va_aligned start" and se: "va_floor start < va_ceil (start + len)"
    and areas: "\<forall>ma \<in> set (ms_areas ms). ma_get_start ma < ma_get_end ma \<and> unat (ma_get_end ma) < 2 ^ 52 \<and>
      (ma_get_start ma < va_floor start \<longrightarrow> va_ceil (start + len) < ma_get_end ma \<longrightarrow> ma_map_file ma = None)"
  shows "\<exists>ms' w'. munmap env start len ms w =
      Some (if \<exists>ma \<in> set (ms_areas ms). va_floor start < ma_get_end ma \<and> ma_get_start ma \<le> va_ceil (start + len)
            then Inr () else Inl EINVAL, ms', w') \<and>
    ms_page_table ms' = ms_page_table ms \<and> space_step lo env M ms w ms' w' \<and>
    (\<forall>v. ms_view env w' ms' v =
      (if v \<in> page_range (va_floor start) (va_ceil (start + len)) then None else ms_view env w ms v)) \<and>
    cleared (ms_page_table ms) {v \<in> page_range (va_floor start) (va_ceil (start + len)).
      \<exists>ma \<in> set (ms_areas ms). lm_in_range (ma_inner ma) v} w w' \<and>
    pte_step M ms w ms' w'"
proof -
  let ?s = "va_floor start" and ?e = "va_ceil (start + len)" and ?pt = "ms_page_table ms" and ?A = "ms_areas ms"
  have ne: "\<forall>ma \<in> set ?A. ma_get_start ma < ma_get_end ma \<and> unat (ma_get_end ma) < 2 ^ 52" using areas by blast
  have inv0: "space_inv lo M ?pt ([] @ ?A) w" using inv by (simp add: ms_inv_def)
  from munmap_loop_ok [OF inv0 se ne, of env 0 "\<lparr>mu_found = False, mu_delete = [], mu_break = None\<rparr>"]
  obtain acts areas1 w1 where l: "munmap_loop env ?s ?e 0 ?A ?pt \<lparr>mu_found = False, mu_delete = [], mu_break = None\<rparr> w =
      Some (\<lparr>mu_found = (\<exists>ma \<in> set ?A. ?s < ma_get_end ma \<and> ma_get_start ma \<le> ?e),
             mu_delete = deleted 0 acts, mu_break = last_break 0 acts None\<rparr>, areas1, w1)"
    "space_inv lo M ?pt ([] @ areas1) w1" "\<forall>g \<in># M. frame_content env w1 g = frame_content env w g"
    "subframes (space_frames areas1) (space_frames ?A)" "all_munmapped env (page_range ?s ?e) w w1 acts ?A areas1"
    "\<forall>i < length ?A. acts ! i = BreakApart \<longrightarrow> ma_get_start (?A ! i) < ?s \<and> ?e < ma_get_end (?A ! i)"
    "cleared ?pt (cut_pages (page_range ?s ?e) acts ?A) w w1" by auto
  have len: "length acts = length ?A" "length areas1 = length ?A" "length acts = length areas1"
    using all_munmapped_length [OF l(5)] by auto
  from remove_all_ok [OF len(3) l(2), of env] obtain w2 where r:
    "areas_remove_all env (rev (deleted 0 acts)) areas1 w1 = Some (kept acts areas1, w2)"
    "space_inv lo M ?pt (kept acts areas1) w2"
    "\<forall>g \<in># space_frames (kept acts areas1) + M. frame_content env w2 g = frame_content env w1 g" "cleared ?pt {} w1 w2" by auto
  let ?V = "{v \<in> page_range ?s ?e. \<exists>ma \<in> set ?A. lm_in_range (ma_inner ma) v}"
  have cl2: "cleared ?pt (cut_pages (page_range ?s ?e) acts ?A) w w2" using cleared_trans [OF l(7) r(4)] by simp
  have rng2: "\<exists>a \<in> set (kept acts areas1). lm_in_range (ma_inner a) v"
    if "v \<notin> ?V" "ma \<in> set ?A" "lm_in_range (ma_inner ma) v" for v ma
    by (rule all_munmapped_range [OF l(5)]) (use that in auto)
  have sub: "subframes (space_frames (kept acts areas1)) (space_frames ?A)"
    by (rule subframes_trans [OF subframes_subset [OF kept_frames [OF len(3)]] l(4)])
  have view2: "space_view env w2 (kept acts areas1) v = space_view env w1 (kept acts areas1) v" for v
  proof (rule space_view_cong)
    fix ma assume ma: "ma \<in> set (kept acts areas1)"
    show "area_view env w2 ma = area_view env w1 ma"
    proof (rule frames_view)
      show "lm_wf (ma_inner ma)" using space_invD(5) [OF r(2) ma] by (simp add: area_ok_def)
      show "frame_content env w2 g = frame_content env w1 g" if "g \<in># area_frames ma" for g
        using r(3) mset_subset_eqD [OF area_frames_sub [OF ma] that] by simp
    qed
  qed
  note A = all_munmapped_view [OF l(5)]
  have con2: "\<forall>g \<in># M. frame_content env w2 g = frame_content env w g" using l(3) r(3) by simp
  have step: "space_step lo env M ms w (ms\<lparr>ms_areas := as\<rparr>) w'"
    if "space_inv lo M ?pt as w'" "\<forall>g \<in># M. frame_content env w' g = frame_content env w g" "subframes (space_frames as) (space_frames ?A)"
    for as w' using that by (simp add: space_step_def ms_inv_def fresh_frames_def subframes_def)
  show ?thesis
  proof (cases "last_break 0 acts None")
    case None
    then have "BreakApart \<notin> set acts" using last_break_None by blast
    then have "\<forall>v. ms_view env w2 (ms\<lparr>ms_areas := kept acts areas1\<rparr>) v =
        (if v \<in> page_range ?s ?e then None else ms_view env w ms v)"
      using A by (simp add: ms_view_def view2)
    moreover have "munmap env start len ms w =
      Some (if \<exists>ma \<in> set ?A. ?s < ma_get_end ma \<and> ma_get_start ma \<le> ?e then Inr () else Inl EINVAL,
            ms\<lparr>ms_areas := kept acts areas1\<rparr>, w2)"
      using al l(1) r(1) None by (simp add: munmap_def)
    moreover have "cleared ?pt ?V w w2"
      using cl2 cut_pages_all [OF \<open>BreakApart \<notin> set acts\<close> len(1)] by simp
    moreover from this have "pte_step M ms w (ms\<lparr>ms_areas := kept acts areas1\<rparr>) w2" by (rule cleared_pte_step [OF _ rng2])
    ultimately show ?thesis using step [OF r(2) con2 sub]
      by (intro exI [of _ "ms\<lparr>ms_areas := kept acts areas1\<rparr>"] exI [of _ w2]) simp
  next
    case (Some i)
    from last_break_Some [OF Some] have i: "i < length acts" "acts ! i = BreakApart" by auto
    have iA: "i < length ?A" using i(1) len(1) by simp
    have b: "ma_get_start (?A ! i) < ?s" "?e < ma_get_end (?A ! i)" using l(6) i(2) iA by auto
    have anon: "ma_map_file (?A ! i) = None" using areas b nth_mem [OF iA] by blast
    have mi: "areas1 ! i = ?A ! i" using all_munmapped_nth [OF l(5) iA] i(2) by (simp add: munmapped_def)
    have none: "Delete \<notin> set acts"
    proof
      assume "Delete \<in> set acts"
      then obtain j where j: "j < length ?A" "acts ! j = Delete" using len(1) by (metis in_set_conv_nth)
      have "i \<noteq> j" using i(2) j(2) by auto
      from nth_other [OF this j(1)] have "?A ! j \<in> set (take i ?A) \<union> set (drop (Suc i) ?A)" .
      moreover have "lm_in_range (ma_inner (?A ! j)) (ma_get_start (?A ! j))"
        using ne nth_mem [OF j(1)] by (auto simp: area_range)
      moreover have "lm_in_range (ma_inner (?A ! j)) v \<Longrightarrow> lm_in_range (ma_inner (?A ! i)) v" for v
        using all_munmapped_nth [OF l(5) j(1)] all_munmapped_nth [OF l(5) iA] i(2) j(2) by (auto simp: munmapped_def)
      ultimately show False
        using disjoint_outside [of "take i ?A" "?A ! i" "drop (Suc i) ?A"] space_invD(6) [OF inv0]
          id_take_nth_drop [OF iA] by (metis append_Nil)
    qed
    then have k: "kept acts areas1 = areas1" "deleted 0 acts = []" using kept_all len(3) deleted_none by auto
    have split: "areas1 = take i areas1 @ ?A ! i # drop (Suc i) areas1"
      using id_take_nth_drop [of i areas1] iA len(2) mi by simp
    have "space_inv lo M ?pt (take i areas1 @ ?A ! i # drop (Suc i) areas1) w2" using r(2) k(1) split by simp
    from munmap_break_ok [OF this b(1) se b(2) anon, of env, folded split] obtain areas3 w3 where m:
      "munmap_break env ?s ?e i ?pt areas1 w2 = Some (areas3, w3)" "space_inv lo M ?pt areas3 w3"
      "\<forall>g \<in># M. frame_content env w3 g = frame_content env w2 g" "subframes (space_frames areas3) (space_frames areas1)"
      "\<forall>v. space_view env w3 areas3 v = (if v \<in> page_range ?s ?e then None else space_view env w2 areas1 v)"
      "cleared ?pt (page_range ?s ?e) w2 w3"
      "\<forall>v a. v \<notin> page_range ?s ?e \<longrightarrow> a \<in> set areas1 \<longrightarrow> lm_in_range (ma_inner a) v \<longrightarrow>
         (\<exists>b \<in> set areas3. lm_in_range (ma_inner b) v)"
      using iA len(2) by (auto simp: min_def)
    have "munmap env start len ms w =
      Some (if \<exists>ma \<in> set ?A. ?s < ma_get_end ma \<and> ma_get_start ma \<le> ?e then Inr () else Inl EINVAL,
            ms\<lparr>ms_areas := areas3\<rparr>, w3)"
      using al l(1) r(1) Some m(1) by (simp add: munmap_def k)
    moreover have "\<forall>v. ms_view env w3 (ms\<lparr>ms_areas := areas3\<rparr>) v =
        (if v \<in> page_range ?s ?e then None else ms_view env w ms v)"
      using A(1) m(5) view2 by (simp add: ms_view_def k)
    moreover have "subframes (space_frames areas3) (space_frames ?A)" by (rule subframes_trans [OF m(4) l(4)])
    moreover have V: "cut_pages (page_range ?s ?e) acts ?A \<union> page_range ?s ?e = ?V"
    proof -
      have "page_range ?s ?e \<subseteq> {v. lm_in_range (ma_inner (?A ! i)) v}"
        using all_munmapped_nth [OF l(5) iA] i(2) by (simp add: munmapped_def)
      then show ?thesis using cut_pages_sub [of "page_range ?s ?e" acts ?A] nth_mem [OF iA] by blast
    qed
    moreover have cl3: "cleared ?pt ?V w w3" using cleared_trans [OF cl2 m(6)] unfolding V .
    moreover have "pte_step M ms w (ms\<lparr>ms_areas := areas3\<rparr>) w3"
    proof (rule cleared_pte_step [OF cl3])
      fix v ma assume v: "v \<notin> ?V" "ma \<in> set ?A" "lm_in_range (ma_inner ma) v"
      then have "v \<notin> page_range ?s ?e" by blast
      then show "\<exists>a \<in> set areas3. lm_in_range (ma_inner a) v" using m(7) rng2 [OF v] k(1) by auto
    qed
    ultimately show ?thesis using step [OF m(2)] m(3) con2
      by (intro exI [of _ "ms\<lparr>ms_areas := areas3\<rparr>"] exI [of _ w3]) simp
  qed
qed

end
