(* ===== verification/Mm_Mmap.thy ===== *)
theory Mm_Mmap
  imports Mm_Insert
begin

text \<open>
  \<open>mmap\<close> of anonymous memory: the new pages read as zero and nothing else in the view changes;
  no frame is taken until a page is touched.
\<close>

section \<open>Inserting a blank area\<close>

lemma area_keys_in: "lm_in_range (ma_inner ma) v \<Longrightarrow> vpn_key v \<in> area_keys ma"
  by (auto simp: area_keys_def)

lemma blank_view:
  assumes "blank_area pt w ma" and "ma_map_file ma = None" and "lm_in_range (ma_inner ma) v"
  shows "area_view env w ma v = Some (replicate 4096 0)"
proof -
  have "lm_index v (ma_inner ma) < length (lm_frames (ma_inner ma))"
    using assms by (intro lm_index_in_range(1)) (simp_all add: blank_area_def)
  then have "lm_frames (ma_inner ma) ! lm_index v (ma_inner ma) = Unallocated"
    using assms(1) nth_mem by (fastforce simp: blank_area_def)
  then show ?thesis using assms(2,3) by (simp add: area_view_def page_view_def)
qed

lemma space_view_insert:
  assumes "blank_area pt w ma" and "ma_map_file ma = None"
    and "\<And>a. a \<in> set xs \<union> set ys \<Longrightarrow> area_keys a \<inter> area_keys ma = {}"
  shows "space_view env w (xs @ ma # ys) v =
    (if lm_in_range (ma_inner ma) v then Some (replicate 4096 0) else space_view env w (xs @ ys) v)"
proof (cases "lm_in_range (ma_inner ma) v")
  case True
  have "\<not> lm_in_range (ma_inner a) v" if "a \<in> set xs" for a
    using assms(3) [of a] area_keys_in [OF True] area_keys_in [of a v] that by blast
  then show ?thesis using True blank_view [OF assms(1,2) True] by (auto simp: space_view_append)
next
  case False
  then show ?thesis by (simp add: space_view_append)
qed

lemma vec_insert_split: "i \<le> length xs \<Longrightarrow> \<exists>us vs. xs = us @ vs \<and> vec_insert i x xs = us @ x # vs"
  by (rule exI [of _ "take i xs"], rule exI [of _ "drop i xs"]) (simp add: vec_insert_def)

lemma find_enumerate_bound:
  assumes "find P (dropWhile Q (enumerate 0 xs)) = Some (i, x)"
  shows "i < length xs"
proof -
  have "(i, x) \<in> set (dropWhile Q (enumerate 0 xs))" using assms by (auto simp: find_Some_iff)
  then have "(i, x) \<in> set (enumerate 0 xs)" by (rule set_dropWhileD)
  then show ?thesis by (auto simp: in_set_enumerate_eq)
qed

section \<open>mmap\<close>

text \<open>The vector of areas after the insertion of \<open>new_area\<close>.\<close>

definition mmap_areas :: "VirtPageNum \<Rightarrow> VirtPageNum \<Rightarrow> 'f map_area \<Rightarrow> 'f map_area list \<Rightarrow> 'f map_area list" where
  "mmap_areas end_vpn start_vpn new_area areas =
     (case mmap_insert_idx end_vpn start_vpn areas of
        Some idx \<Rightarrow> vec_insert idx new_area areas
      | None \<Rightarrow> areas @ [new_area])"

lemma mmap_areas_split: "\<exists>us vs. areas = us @ vs \<and> mmap_areas e s ma areas = us @ ma # vs"
proof (cases "mmap_insert_idx e s areas")
  case None
  then show ?thesis by (intro exI [of _ areas] exI [of _ "[]"]) (simp add: mmap_areas_def)
next
  case (Some i)
  then have "i \<le> length areas" by (auto simp: mmap_insert_idx_def dest!: find_enumerate_bound)
  from vec_insert_split [OF this] show ?thesis by (simp add: mmap_areas_def Some)
qed

lemma mmap_anonymous_ok:
  fixes w :: "('d, 'z) world"
  assumes inv: "ms_inv lo M (ms :: 'f memory_set) w" and start: "start AND 0xfff = 0"
    and place: "mmap_place env ub start (if len = 0 then PAGE_SIZE else len) prot flags ms w = Some (Placed va, ms, w)"
    and anon: "mflags_contains flags MAP_ANONYMOUS"
    and ma: "ma_new va (va + (if len = 0 then PAGE_SIZE else len)) Framed prot (None :: 'f option) = Some ma"
    and va: "va_page_offset va = 0"
    and blank: "blank_area (ms_page_table ms) w ma" and dis: "\<And>a. a \<in> set (ms_areas ms) \<Longrightarrow> area_keys a \<inter> area_keys ma = {}"
  shows "\<exists>ms'. mmap env fops ub (Some files) start len prot flags fd offset ms w = Some (va, ms', w) \<and>
    ms' = ms\<lparr>ms_areas := mmap_areas (va_floor MMAP_END) (va_floor va) ma (ms_areas ms)\<rparr> \<and> space_step lo env M ms w ms' w \<and> pte_step M ms w ms' w \<and>
    ms_view env w ms' = (\<lambda>v. if lm_in_range (ma_inner ma) v then Some (replicate 4096 0) else ms_view env w ms v)"
proof -
  have anon_ma: "ma_map_file ma = None" using ma by (auto simp: ma_new_def)
  have e: "va_page_offset MMAP_END = 0" unfolding MMAP_END_def by code_simp
  let ?areas = "mmap_areas (va_floor MMAP_END) (va_floor va) ma (ms_areas ms)" and ?ms = "ms\<lparr>ms_areas := mmap_areas (va_floor MMAP_END) (va_floor va) ma (ms_areas ms)\<rparr>"
  obtain us vs where s: "ms_areas ms = us @ vs" "?areas = us @ ma # vs" using mmap_areas_split by blast
  have dis': "area_keys a \<inter> area_keys ma = {}" if "a \<in> set us \<union> set vs" for a using dis [of a] that s(1) by auto
  have "space_inv lo M (ms_page_table ms) (us @ ma # vs) w"
    by (rule space_add [OF _ blank dis']) (use inv s(1) in \<open>simp_all add: ms_inv_def\<close>)
  moreover have "fresh_frames w (space_frames (ms_areas ms)) (space_frames (us @ ma # vs))"
    using blank_frames(2) [OF blank] by (simp add: fresh_frames_def s(1))
  ultimately have "space_step lo env M ms w ?ms w" by (simp add: space_step_def ms_inv_def s(2))
  moreover have "pte_step M ms w ?ms w" unfolding pte_step_def memory_set.simps s(2) unfolding s(1) by auto
  moreover have "ms_view env w ?ms = (\<lambda>v. if lm_in_range (ma_inner ma) v then Some (replicate 4096 0) else ms_view env w ms v)"
    unfolding ms_view_def memory_set.simps s(2) unfolding s(1)
    using space_view_insert [OF blank anon_ma, of us vs env] dis' by (simp add: fun_eq_iff)
  moreover have "mmap env fops ub (Some files) start len prot flags fd offset ms w = Some (va, ?ms, w)"
    using start place anon ma va anon_ma
    by (cases ma) (simp add: mmap_def mmap_file_def e vpn_from_va_def mmap_areas_def Let_def cong: option.case_cong)
  ultimately show ?thesis by blast
qed

end
