(* ===== verification/Mm_User_Access.thy ===== *)
theory Mm_User_Access
  imports Mm_Memory_Set
begin

text \<open>
  Access of the kernel to user memory, the functions of \<open>mm/page_table.rs\<close>: they walk the page
  table named by a token, take a page fault where a page is missing, and read or write the
  physical pages directly.

  A slice \<open>&'static mut [u8]\<close> of a page is the frame with the two bounds; reading and writing
  it goes to physical memory, so two slices of one frame alias. \<open>vm\<close> is the address space of
  the current task, which \<open>check_page_fault\<close> works on. The loops over addresses may wrap around
  the top of the address space and are partial functions; \<open>None\<close> is a panic or a run without
  end. Lengths of memory the kernel holds are natural numbers.
\<close>

section \<open>Definitions\<close>

subsection \<open>Physical bytes and slices\<close>

definition phys_byte :: "'a kmem_scheme \<Rightarrow> PhysAddr \<Rightarrow> u8" where
  "phys_byte w pa = pmem w (pa_floor pa) (unat (pa_page_offset pa))"

definition phys_set :: "PhysAddr \<Rightarrow> u8 \<Rightarrow> 'a kmem_scheme \<Rightarrow> 'a kmem_scheme" where
  "phys_set pa b w = write_bytes (pa_floor pa) (unat (pa_page_offset pa)) [b] w"

definition phys_read :: "'a kmem_scheme \<Rightarrow> PhysAddr \<Rightarrow> nat \<Rightarrow> u8 list" where
  "phys_read w pa n = map (\<lambda>i. phys_byte w (pa + of_nat i)) [0..<n]"

fun phys_write :: "PhysAddr \<Rightarrow> u8 list \<Rightarrow> 'a kmem_scheme \<Rightarrow> 'a kmem_scheme" where
  "phys_write pa [] w = w"
| "phys_write pa (b # bs) w = phys_write (pa + 1) bs (phys_set pa b w)"

record slice =
  sl_ppn :: PhysPageNum
  sl_start :: nat
  sl_end :: nat

definition slice_len :: "slice \<Rightarrow> nat" where
  "slice_len sl = sl_end sl - sl_start sl"

definition slice_bytes :: "'a kmem_scheme \<Rightarrow> slice \<Rightarrow> u8 list" where
  "slice_bytes w sl = map (pmem w (sl_ppn sl)) [sl_start sl..<sl_end sl]"

text \<open>\<open>slice[off..off + len].copy_from_slice(bs)\<close>.\<close>

definition slice_write :: "slice \<Rightarrow> nat \<Rightarrow> u8 list \<Rightarrow> 'a kmem_scheme \<Rightarrow> 'a kmem_scheme" where
  "slice_write sl off bs w = write_bytes (sl_ppn sl) (sl_start sl + off) bs w"

subsection \<open>Walking user addresses\<close>

definition gen_start_end :: "VirtAddr \<Rightarrow> VirtAddr \<Rightarrow> VirtPageNum \<times> VirtPageNum" where
  "gen_start_end start end = (va_floor start, va_ceil end)"

text \<open>\<open>match translate \<dots> { Some \<dots>, None => check_page_fault \<dots> }\<close>, for a page and for an address.\<close>

definition user_ppn ::
  "'d kenv \<Rightarrow> ('f, ('d, 'z) world) file_ops \<Rightarrow> ('d, 'z) woom \<Rightarrow> usize \<Rightarrow> VirtPageNum \<Rightarrow> 'f memory_set option \<Rightarrow>
   ('d, 'z) world \<Rightarrow> ((isize + PhysPageNum) \<times> 'f memory_set option \<times> ('d, 'z) world) option" where
  "user_ppn env fops oom token vpn vm w =
     (case sv39_translate (sv39_from_token token) w vpn of
        Some ppn \<Rightarrow> Some (Inr ppn, vm, w)
      | None \<Rightarrow>
          do { (res, vm, w) \<leftarrow> check_page_fault env fops oom (va_from_vpn vpn) vm w;
               Some (map_sum id pa_floor res, vm, w) })"

definition user_pa ::
  "'d kenv \<Rightarrow> ('f, ('d, 'z) world) file_ops \<Rightarrow> ('d, 'z) woom \<Rightarrow> usize \<Rightarrow> VirtAddr \<Rightarrow> 'f memory_set option \<Rightarrow>
   ('d, 'z) world \<Rightarrow> ((isize + PhysAddr) \<times> 'f memory_set option \<times> ('d, 'z) world) option" where
  "user_pa env fops oom token va vm w =
     (case sv39_translate_va (sv39_from_token token) w va of
        Some pa \<Rightarrow> Some (Inr pa, vm, w)
      | None \<Rightarrow> check_page_fault env fops oom va vm w)"

text \<open>The slice pushed for the page of \<open>start_va\<close>, where \<open>end_va\<close> ends it or the page does.\<close>

definition page_slice :: "PhysPageNum \<Rightarrow> VirtAddr \<Rightarrow> VirtAddr \<Rightarrow> slice option" where
  "page_slice ppn start_va end_va =
     (if va_page_offset end_va = 0 then
        Some \<lparr>sl_ppn = ppn, sl_start = unat (va_page_offset start_va), sl_end = 4096\<rparr>
      else if va_page_offset start_va \<le> va_page_offset end_va then
        Some \<lparr>sl_ppn = ppn, sl_start = unat (va_page_offset start_va), sl_end = unat (va_page_offset end_va)\<rparr>
      else None)"

partial_function (option) byte_buffer_loop ::
  "'d kenv \<Rightarrow> ('f, ('d, 'z) world) file_ops \<Rightarrow> ('d, 'z) woom \<Rightarrow> usize \<Rightarrow> usize \<Rightarrow> usize \<Rightarrow> slice list \<Rightarrow>
   'f memory_set option \<Rightarrow> ('d, 'z) world \<Rightarrow>
   ((isize + unit) \<times> slice list \<times> 'f memory_set option \<times> ('d, 'z) world) option" where
  "byte_buffer_loop env fops oom token start end v vm w =
     (if start < end then
        (case user_ppn env fops oom token (va_floor start) vm w of
           None \<Rightarrow> None
         | Some (Inl errno, vm, w) \<Rightarrow> Some (Inl errno, v, vm, w)
         | Some (Inr ppn, vm, w) \<Rightarrow>
             (case page_slice ppn start (min (va_from_vpn (vpn_step (va_floor start))) end) of
                None \<Rightarrow> None
              | Some sl \<Rightarrow>
                  byte_buffer_loop env fops oom token (min (va_from_vpn (vpn_step (va_floor start))) end) end
                    (v @ [sl]) vm w))
      else Some (Inr (), v, vm, w))"

definition translated_byte_buffer_append_to_existing_vec ::
  "'d kenv \<Rightarrow> ('f, ('d, 'z) world) file_ops \<Rightarrow> ('d, 'z) woom \<Rightarrow> slice list \<Rightarrow> usize \<Rightarrow> usize \<Rightarrow> usize \<Rightarrow>
   'f memory_set option \<Rightarrow> ('d, 'z) world \<Rightarrow>
   ((isize + unit) \<times> slice list \<times> 'f memory_set option \<times> ('d, 'z) world) option" where
  "translated_byte_buffer_append_to_existing_vec env fops oom existing_vec token ptr len vm w =
     byte_buffer_loop env fops oom token ptr (ptr + len) existing_vec vm w"

definition translated_byte_buffer ::
  "'d kenv \<Rightarrow> ('f, ('d, 'z) world) file_ops \<Rightarrow> ('d, 'z) woom \<Rightarrow> usize \<Rightarrow> usize \<Rightarrow> usize \<Rightarrow>
   'f memory_set option \<Rightarrow> ('d, 'z) world \<Rightarrow>
   ((isize + slice list) \<times> 'f memory_set option \<times> ('d, 'z) world) option" where
  "translated_byte_buffer env fops oom token ptr len vm w =
     do { (res, v, vm, w) \<leftarrow> byte_buffer_loop env fops oom token ptr (ptr + len) [] vm w;
          Some (case res of Inl errno \<Rightarrow> Inl errno | Inr _ \<Rightarrow> Inr v, vm, w) }"

text \<open>\<open>ch as char\<close> maps a byte to the code point of the same number.\<close>

partial_function (option) str_loop ::
  "'d kenv \<Rightarrow> ('f, ('d, 'z) world) file_ops \<Rightarrow> ('d, 'z) woom \<Rightarrow> usize \<Rightarrow> usize \<Rightarrow> u8 list \<Rightarrow>
   'f memory_set option \<Rightarrow> ('d, 'z) world \<Rightarrow>
   ((isize + u8 list) \<times> 'f memory_set option \<times> ('d, 'z) world) option" where
  "str_loop env fops oom token cur string vm w =
     (case user_pa env fops oom token cur vm w of
        None \<Rightarrow> None
      | Some (Inl errno, vm, w) \<Rightarrow> Some (Inl errno, vm, w)
      | Some (Inr pa, vm, w) \<Rightarrow>
          (if phys_byte w pa = 0 then Some (Inr string, vm, w)
           else str_loop env fops oom token (cur + 1) (string @ [phys_byte w pa]) vm w))"

definition translated_str ::
  "'d kenv \<Rightarrow> ('f, ('d, 'z) world) file_ops \<Rightarrow> ('d, 'z) woom \<Rightarrow> usize \<Rightarrow> usize \<Rightarrow>
   'f memory_set option \<Rightarrow> ('d, 'z) world \<Rightarrow>
   ((isize + u8 list) \<times> 'f memory_set option \<times> ('d, 'z) world) option" where
  "translated_str env fops oom token ptr vm w = str_loop env fops oom token ptr [] vm w"

text \<open>\<open>translated_ref\<close> and \<open>translated_refmut\<close>: the reference is the physical address.\<close>

definition translated_ref ::
  "'d kenv \<Rightarrow> ('f, ('d, 'z) world) file_ops \<Rightarrow> ('d, 'z) woom \<Rightarrow> usize \<Rightarrow> usize \<Rightarrow>
   'f memory_set option \<Rightarrow> ('d, 'z) world \<Rightarrow>
   ((isize + PhysAddr) \<times> 'f memory_set option \<times> ('d, 'z) world) option" where
  "translated_ref env fops oom token ptr vm w = user_pa env fops oom token ptr vm w"

definition translated_refmut ::
  "'d kenv \<Rightarrow> ('f, ('d, 'z) world) file_ops \<Rightarrow> ('d, 'z) woom \<Rightarrow> usize \<Rightarrow> usize \<Rightarrow>
   'f memory_set option \<Rightarrow> ('d, 'z) world \<Rightarrow>
   ((isize + PhysAddr) \<times> 'f memory_set option \<times> ('d, 'z) world) option" where
  "translated_refmut env fops oom token ptr vm w = user_pa env fops oom token ptr vm w"

subsection \<open>UserBuffer\<close>

record user_buffer =
  ub_buffers :: "slice list"
  ub_len :: nat

definition ub_new :: "slice list \<Rightarrow> user_buffer" where
  "ub_new buffers = \<lparr>ub_buffers = buffers, ub_len = sum_list (map slice_len buffers)\<rparr>"

text \<open>
  \<open>copy_from_slice\<close> into a part of a kernel slice, which is a list here.
\<close>

definition list_write :: "nat \<Rightarrow> 'a list \<Rightarrow> 'a list \<Rightarrow> 'a list" where
  "list_write off bs xs = take off xs @ bs @ drop (off + length bs) xs"

fun ub_read_loop :: "'a kmem_scheme \<Rightarrow> nat \<Rightarrow> nat \<Rightarrow> slice list \<Rightarrow> u8 list \<Rightarrow> nat \<times> u8 list" where
  "ub_read_loop w len_total start [] dst = (len_total, dst)"
| "ub_read_loop w len_total start (buffer # buffers) dst =
     (let end = start + slice_len buffer; dst_len = length dst in
      if end > dst_len then
        (dst_len, list_write start (take (dst_len - start) (slice_bytes w buffer)) dst)
      else ub_read_loop w len_total end buffers (list_write start (slice_bytes w buffer) dst))"

definition ub_read :: "user_buffer \<Rightarrow> u8 list \<Rightarrow> 'a kmem_scheme \<Rightarrow> nat \<times> u8 list" where
  "ub_read ub dst w = ub_read_loop w (ub_len ub) 0 (ub_buffers ub) dst"

fun ub_write_loop :: "nat \<Rightarrow> nat \<Rightarrow> slice list \<Rightarrow> u8 list \<Rightarrow> 'a kmem_scheme \<Rightarrow> nat \<times> 'a kmem_scheme" where
  "ub_write_loop len_total start [] src w = (len_total, w)"
| "ub_write_loop len_total start (buffer # buffers) src w =
     (let end = start + slice_len buffer; src_len = length src in
      if end > src_len then (src_len, slice_write buffer 0 (drop start src) w)
      else ub_write_loop len_total end buffers src (slice_write buffer 0 (take (end - start) (drop start src)) w))"

definition ub_write :: "user_buffer \<Rightarrow> u8 list \<Rightarrow> 'a kmem_scheme \<Rightarrow> nat \<times> 'a kmem_scheme" where
  "ub_write ub src w = ub_write_loop (ub_len ub) 0 (ub_buffers ub) src w"

text \<open>
  The intersection of the buffer at \<open>[dst_start, dst_end)\<close> with the requested range
  \<open>[offset, offset + len)\<close>, relative to the request and to the buffer.
\<close>

definition ub_overlap :: "nat \<Rightarrow> nat \<Rightarrow> nat \<Rightarrow> nat \<Rightarrow> (nat \<times> nat \<times> nat) option" where
  "ub_overlap offset len dst_start dst_end =
     (let copy_dst_start = max dst_start offset; copy_dst_end = min dst_end (len + offset) in
      if copy_dst_start \<ge> copy_dst_end then None
      else Some (copy_dst_start - offset, copy_dst_start - dst_start, copy_dst_end - copy_dst_start))"

fun ub_read_at_loop ::
  "'a kmem_scheme \<Rightarrow> nat \<Rightarrow> nat \<Rightarrow> nat \<Rightarrow> slice list \<Rightarrow> u8 list \<Rightarrow> nat \<times> u8 list" where
  "ub_read_at_loop w offset read_bytes dst_start [] dst = (read_bytes, dst)"
| "ub_read_at_loop w offset read_bytes dst_start (buffer # buffers) dst =
     (let dst_end = dst_start + slice_len buffer in
      case ub_overlap offset (length dst) dst_start dst_end of
        None \<Rightarrow> ub_read_at_loop w offset read_bytes dst_end buffers dst
      | Some (src_start, buf_start, n) \<Rightarrow>
          ub_read_at_loop w offset (read_bytes + n) dst_end buffers
            (list_write src_start (take n (drop buf_start (slice_bytes w buffer))) dst))"

definition ub_read_at :: "user_buffer \<Rightarrow> nat \<Rightarrow> u8 list \<Rightarrow> 'a kmem_scheme \<Rightarrow> nat \<times> u8 list" where
  "ub_read_at ub offset dst w =
     (if offset \<ge> ub_len ub then (0, dst) else ub_read_at_loop w offset 0 0 (ub_buffers ub) dst)"

fun ub_write_at_loop ::
  "nat \<Rightarrow> nat \<Rightarrow> nat \<Rightarrow> slice list \<Rightarrow> u8 list \<Rightarrow> 'a kmem_scheme \<Rightarrow> nat \<times> 'a kmem_scheme" where
  "ub_write_at_loop offset written dst_start [] src w = (written, w)"
| "ub_write_at_loop offset written dst_start (buffer # buffers) src w =
     (let dst_end = dst_start + slice_len buffer in
      case ub_overlap offset (length src) dst_start dst_end of
        None \<Rightarrow> ub_write_at_loop offset written dst_end buffers src w
      | Some (src_start, buf_start, n) \<Rightarrow>
          ub_write_at_loop offset (written + n) dst_end buffers src
            (slice_write buffer buf_start (take n (drop src_start src)) w))"

definition ub_write_at :: "user_buffer \<Rightarrow> nat \<Rightarrow> u8 list \<Rightarrow> 'a kmem_scheme \<Rightarrow> nat \<times> 'a kmem_scheme" where
  "ub_write_at ub offset src w =
     (if offset \<ge> ub_len ub then (0, w) else ub_write_at_loop offset 0 0 (ub_buffers ub) src w)"

definition ub_clear :: "user_buffer \<Rightarrow> 'a kmem_scheme \<Rightarrow> 'a kmem_scheme" where
  "ub_clear ub w = fold (\<lambda>buffer w. slice_write buffer 0 (replicate (slice_len buffer) 0) w) (ub_buffers ub) w"

text \<open>Indexing: the frame and the offset of the byte; \<open>None\<close> is the failed assertion or \<open>unreachable!\<close>.\<close>

fun ub_index_loop :: "nat \<Rightarrow> slice list \<Rightarrow> (PhysPageNum \<times> nat) option" where
  "ub_index_loop left [] = None"
| "ub_index_loop left (buffer # buffers) =
     (if left < slice_len buffer then Some (sl_ppn buffer, sl_start buffer + left)
      else ub_index_loop (left - slice_len buffer) buffers)"

definition ub_index :: "user_buffer \<Rightarrow> nat \<Rightarrow> (PhysPageNum \<times> nat) option" where
  "ub_index ub i = (if i < ub_len ub then ub_index_loop i (ub_buffers ub) else None)"

record ub_iterator =
  it_buffers :: "slice list"
  it_buffer :: nat
  it_idx :: nat

definition ub_into_iter :: "user_buffer \<Rightarrow> ub_iterator" where
  "ub_into_iter ub = \<lparr>it_buffers = ub_buffers ub, it_buffer = 0, it_idx = 0\<rparr>"

text \<open>The outer \<open>None\<close> is the out-of-range panic on an empty slice.\<close>

definition ub_iter_next :: "ub_iterator \<Rightarrow> ((PhysPageNum \<times> nat) option \<times> ub_iterator) option" where
  "ub_iter_next it =
     (if it_buffer it \<ge> length (it_buffers it) then Some (None, it)
      else let sl = it_buffers it ! it_buffer it in
           if it_idx it < slice_len sl then
             Some (Some (sl_ppn sl, sl_start sl + it_idx it),
                   if it_idx it + 1 = slice_len sl then it\<lparr>it_idx := 0, it_buffer := it_buffer it + 1\<rparr>
                   else it\<lparr>it_idx := it_idx it + 1\<rparr>)
           else None)"

subsection \<open>Copying values and arrays\<close>

definition same_page :: "usize \<Rightarrow> usize \<Rightarrow> bool" where
  "same_page ptr n \<longleftrightarrow> va_floor ptr = va_floor (ptr + n - 1)"

text \<open>
  \<open>copy_from_user\<close> and \<open>copy_from_user_array\<close> of \<open>n\<close> bytes; \<open>dst\<close> is the kernel
  memory they overwrite. The two functions differ only in how they compute the size.
\<close>

definition copy_bytes_from_user ::
  "'d kenv \<Rightarrow> ('f, ('d, 'z) world) file_ops \<Rightarrow> ('d, 'z) woom \<Rightarrow> usize \<Rightarrow> usize \<Rightarrow> usize \<Rightarrow> u8 list \<Rightarrow>
   'f memory_set option \<Rightarrow> ('d, 'z) world \<Rightarrow>
   ((isize + unit) \<times> u8 list \<times> 'f memory_set option \<times> ('d, 'z) world) option" where
  "copy_bytes_from_user env fops oom token src n dst vm w =
     (if same_page src n then
        do { (res, vm, w) \<leftarrow> user_pa env fops oom token src vm w;
             Some (case res of
                     Inl errno \<Rightarrow> (Inl errno, dst, vm, w)
                   | Inr pa \<Rightarrow> (Inr (), phys_read w pa (unat n), vm, w)) }
      else
        do { (res, vm, w) \<leftarrow> translated_byte_buffer env fops oom token src n vm w;
             Some (case res of
                     Inl errno \<Rightarrow> (Inl errno, dst, vm, w)
                   | Inr v \<Rightarrow> (Inr (), snd (ub_read (ub_new v) dst w), vm, w)) })"

definition copy_from_user ::
  "'d kenv \<Rightarrow> ('f, ('d, 'z) world) file_ops \<Rightarrow> ('d, 'z) woom \<Rightarrow> usize \<Rightarrow> usize \<Rightarrow> usize \<Rightarrow> u8 list \<Rightarrow>
   'f memory_set option \<Rightarrow> ('d, 'z) world \<Rightarrow>
   ((isize + unit) \<times> u8 list \<times> 'f memory_set option \<times> ('d, 'z) world) option" where
  "copy_from_user env fops oom token src type_size dst vm w =
     copy_bytes_from_user env fops oom token src type_size dst vm w"

definition copy_from_user_array ::
  "'d kenv \<Rightarrow> ('f, ('d, 'z) world) file_ops \<Rightarrow> ('d, 'z) woom \<Rightarrow> usize \<Rightarrow> usize \<Rightarrow> usize \<Rightarrow> usize \<Rightarrow> u8 list \<Rightarrow>
   'f memory_set option \<Rightarrow> ('d, 'z) world \<Rightarrow>
   ((isize + unit) \<times> u8 list \<times> 'f memory_set option \<times> ('d, 'z) world) option" where
  "copy_from_user_array env fops oom token src type_size len dst vm w =
     copy_bytes_from_user env fops oom token src (type_size * len) dst vm w"

definition copy_bytes_to_user ::
  "'d kenv \<Rightarrow> ('f, ('d, 'z) world) file_ops \<Rightarrow> ('d, 'z) woom \<Rightarrow> usize \<Rightarrow> u8 list \<Rightarrow> usize \<Rightarrow> usize \<Rightarrow>
   'f memory_set option \<Rightarrow> ('d, 'z) world \<Rightarrow>
   ((isize + unit) \<times> 'f memory_set option \<times> ('d, 'z) world) option" where
  "copy_bytes_to_user env fops oom token src dst n vm w =
     (if same_page dst n then
        do { (res, vm, w) \<leftarrow> user_pa env fops oom token dst vm w;
             Some (case res of
                     Inl errno \<Rightarrow> (Inl errno, vm, w)
                   | Inr pa \<Rightarrow> (Inr (), vm, phys_write pa src w)) }
      else
        do { (res, vm, w) \<leftarrow> translated_byte_buffer env fops oom token dst n vm w;
             Some (case res of
                     Inl errno \<Rightarrow> (Inl errno, vm, w)
                   | Inr v \<Rightarrow> (Inr (), vm, snd (ub_write (ub_new v) src w))) })"

definition copy_to_user ::
  "'d kenv \<Rightarrow> ('f, ('d, 'z) world) file_ops \<Rightarrow> ('d, 'z) woom \<Rightarrow> usize \<Rightarrow> u8 list \<Rightarrow> usize \<Rightarrow>
   'f memory_set option \<Rightarrow> ('d, 'z) world \<Rightarrow>
   ((isize + unit) \<times> 'f memory_set option \<times> ('d, 'z) world) option" where
  "copy_to_user env fops oom token src dst vm w =
     copy_bytes_to_user env fops oom token src dst (of_nat (length src)) vm w"

definition copy_to_user_array ::
  "'d kenv \<Rightarrow> ('f, ('d, 'z) world) file_ops \<Rightarrow> ('d, 'z) woom \<Rightarrow> usize \<Rightarrow> u8 list \<Rightarrow> usize \<Rightarrow> usize \<Rightarrow> usize \<Rightarrow>
   'f memory_set option \<Rightarrow> ('d, 'z) world \<Rightarrow>
   ((isize + unit) \<times> 'f memory_set option \<times> ('d, 'z) world) option" where
  "copy_to_user_array env fops oom token src dst type_size len vm w =
     copy_bytes_to_user env fops oom token src dst (type_size * len) vm w"

text \<open>\<open>get_from_user\<close> starts from uninitialised memory, the argument \<open>uninit\<close>.\<close>

definition get_from_user ::
  "'d kenv \<Rightarrow> ('f, ('d, 'z) world) file_ops \<Rightarrow> ('d, 'z) woom \<Rightarrow> usize \<Rightarrow> usize \<Rightarrow> u8 list \<Rightarrow>
   'f memory_set option \<Rightarrow> ('d, 'z) world \<Rightarrow>
   ((isize + u8 list) \<times> 'f memory_set option \<times> ('d, 'z) world) option" where
  "get_from_user env fops oom token src uninit vm w =
     do { (res, dst, vm, w) \<leftarrow> copy_from_user env fops oom token src (of_nat (length uninit)) uninit vm w;
          Some (case res of Inl errno \<Rightarrow> Inl errno | Inr _ \<Rightarrow> Inr dst, vm, w) }"

definition try_get_from_user ::
  "'d kenv \<Rightarrow> ('f, ('d, 'z) world) file_ops \<Rightarrow> ('d, 'z) woom \<Rightarrow> usize \<Rightarrow> usize \<Rightarrow> u8 list \<Rightarrow>
   'f memory_set option \<Rightarrow> ('d, 'z) world \<Rightarrow>
   ((isize + u8 list option) \<times> 'f memory_set option \<times> ('d, 'z) world) option" where
  "try_get_from_user env fops oom token src uninit vm w =
     (if src \<noteq> 0 then
        do { (res, vm, w) \<leftarrow> get_from_user env fops oom token src uninit vm w;
             Some (map_sum id Some res, vm, w) }
      else Some (Inr None, vm, w))"

definition copy_to_user_string ::
  "'d kenv \<Rightarrow> ('f, ('d, 'z) world) file_ops \<Rightarrow> ('d, 'z) woom \<Rightarrow> usize \<Rightarrow> u8 list \<Rightarrow> usize \<Rightarrow>
   'f memory_set option \<Rightarrow> ('d, 'z) world \<Rightarrow>
   ((isize + unit) \<times> 'f memory_set option \<times> ('d, 'z) world) option" where
  "copy_to_user_string env fops oom token src dst vm w =
     do { let n = of_nat (length src);
          (res, vm, w) \<leftarrow> user_pa env fops oom token dst vm w;
          case res of
            Inl errno \<Rightarrow> Some (Inl errno, vm, w)
          | Inr dst_pa \<Rightarrow>
              if va_floor dst = va_floor (dst + n) then
                Some (Inr (), vm, phys_set (dst_pa + n) 0 (phys_write dst_pa src w))
              else
                do { (res, vm, w) \<leftarrow> translated_byte_buffer env fops oom token dst n vm w;
                     Some (case res of
                             Inl errno \<Rightarrow> (Inl errno, vm, w)
                           | Inr v \<Rightarrow> (Inr (), vm, phys_set (dst_pa + n) 0 (snd (ub_write (ub_new v) src w)))) } }"

end
