(* ===== verification/Mm_User_Copy.thy ===== *)
theory Mm_User_Copy
  imports Mm_User_Access Mm_Space
begin

text \<open>
  Correctness of the copies between kernel and user memory of \<open>mm/page_table.rs\<close>. The bytes of
  a user range are the positions \<open>user_pos\<close> in physical memory, page by page; the slices
  \<open>translated_byte_buffer\<close> collects, and the direct access of a range inside one page, are
  these positions in this order. A read returns the bytes there, a write stores exactly there,
  and neither touches a page table.
\<close>

section \<open>Positions of user bytes\<close>

definition user_pos :: "sv39 \<Rightarrow> 'a kmem_scheme \<Rightarrow> usize \<Rightarrow> nat \<Rightarrow> (PhysPageNum \<times> nat) list" where
  "user_pos pt w a n =
     map (\<lambda>i. (the (sv39_translate pt w (va_floor (a + of_nat i))), unat (va_page_offset (a + of_nat i)))) [0..<n]"

text \<open>A range below the last page of the address space whose pages all have an entry.\<close>

definition user_mapped :: "sv39 \<Rightarrow> 'a kmem_scheme \<Rightarrow> usize \<Rightarrow> nat \<Rightarrow> bool" where
  "user_mapped pt w a n \<longleftrightarrow>
     unat a + n \<le> 2 ^ 64 - 4096 \<and> (\<forall>i < n. sv39_translate pt w (va_floor (a + of_nat i)) \<noteq> None)"

definition sl_pos :: "slice \<Rightarrow> (PhysPageNum \<times> nat) list" where
  "sl_pos sl = map (Pair (sl_ppn sl)) [sl_start sl..<sl_end sl]"

fun pmem_get :: "'a kmem_scheme \<Rightarrow> PhysPageNum \<times> nat \<Rightarrow> u8" where
  "pmem_get w (p, k) = pmem w p k"

fun pmem_put :: "((PhysPageNum \<times> nat) \<times> u8) list \<Rightarrow> 'a kmem_scheme \<Rightarrow> 'a kmem_scheme" where
  "pmem_put [] w = w"
| "pmem_put (((p, k), b) # ps) w = pmem_put ps (write_bytes p k [b] w)"

lemma length_user_pos [simp]: "length (user_pos pt w a n) = n"
  by (simp add: user_pos_def)

lemma length_sl_pos [simp]: "length (sl_pos sl) = slice_len sl"
  by (simp add: sl_pos_def slice_len_def)

lemma slice_bytes_pos: "slice_bytes w sl = map (pmem_get w) (sl_pos sl)"
  by (simp add: slice_bytes_def sl_pos_def)

lemma user_pos_split:
  assumes "m \<le> n"
  shows "user_pos pt w a n = user_pos pt w a m @ user_pos pt w (a + of_nat m) (n - m)"
proof -
  have "[0..<n] = [0..<m] @ [m..<n]" using assms upt_add_eq_append [of 0 m "n - m"] by simp
  also have "[m..<n] = map (\<lambda>i. i + m) [0..<n - m]" using assms by (simp add: map_add_upt)
  finally have "[0..<n] = [0..<m] @ map (\<lambda>i. m + i) [0..<n - m]" by (simp add: add.commute)
  then show ?thesis by (simp add: user_pos_def add.assoc)
qed

lemma va_add:
  fixes a :: usize
  assumes "unat a + n < 2 ^ 64"
  shows "unat (a + of_nat n) = unat a + n"
  using assms unat_add_no_wrap [of a "of_nat n"] by (simp add: unat_of_nat_u64)

lemma same_page_div:
  fixes x i :: nat
  assumes "x mod 4096 + i < 4096"
  shows "(x + i) div 4096 = x div 4096" "(x + i) mod 4096 = x mod 4096 + i"
proof -
  have digits: "(q * 4096 + r) div 4096 = q" "(q * 4096 + r) mod 4096 = r" if "r < 4096" for q r :: nat
    using that by simp_all
  have x: "x + i = x div 4096 * 4096 + (x mod 4096 + i)" using div_mult_mod_eq [of x 4096] by linarith
  show "(x + i) div 4096 = x div 4096" by (subst x) (rule digits(1) [OF assms])
  show "(x + i) mod 4096 = x mod 4096 + i" by (subst x) (rule digits(2) [OF assms])
qed

lemma va_add_in_page:
  assumes "unat (va_page_offset a) + i < 4096"
  shows "va_floor (a + of_nat i) = va_floor a" "unat (va_page_offset (a + of_nat i)) = unat (va_page_offset a) + i"
proof -
  have off: "unat a mod 4096 + i < 4096" using assms by (simp add: unat_va_page_offset)
  have "unat a = unat a div 4096 * 4096 + unat a mod 4096" by simp
  moreover have "unat a div 4096 < 2 ^ 52" using va_floor_bound [of a] by (simp add: unat_va_floor)
  ultimately have "unat a + i < 2 ^ 52 * 4096" using off by linarith
  then have "unat a + i < 2 ^ 64" by simp
  then have u: "unat (a + of_nat i) = unat a + i" by (rule va_add)
  note same_page_div [OF off]
  then show "va_floor (a + of_nat i) = va_floor a" "unat (va_page_offset (a + of_nat i)) = unat (va_page_offset a) + i"
    using u by (simp_all add: word_unat_eq_iff unat_va_floor unat_va_page_offset)
qed

lemma user_pos_page:
  assumes "sv39_translate pt w (va_floor a) = Some p" and "unat (va_page_offset a) + m \<le> 4096"
  shows "user_pos pt w a m = map (Pair p) [unat (va_page_offset a)..<unat (va_page_offset a) + m]"
proof (rule nth_equalityI)
  fix i assume "i < length (user_pos pt w a m)"
  then show "user_pos pt w a m ! i = map (Pair p) [unat (va_page_offset a)..<unat (va_page_offset a) + m] ! i"
    using va_add_in_page [of a i] assms by (simp add: user_pos_def)
qed simp

section \<open>The slices of a range\<close>

lemma user_mapped_step:
  assumes "user_mapped pt w a n" and "m \<le> n"
  shows "user_mapped pt w (a + of_nat m) (n - m)"
proof -
  have u: "unat (a + of_nat m) = unat a + m" using assms by (intro va_add) (simp add: user_mapped_def)
  have "sv39_translate pt w (va_floor (a + of_nat m + of_nat i)) \<noteq> None" if "i < n - m" for i
    using assms that by (simp add: user_mapped_def add.assoc flip: of_nat_add)
  then show ?thesis using u assms by (simp add: user_mapped_def)
qed

lemma min_unat: "unat (min x y) = min (unat x) (unat y)" for x y :: usize
  by (simp add: min_def word_le_nat_alt)

lemma next_page_min: "k < 4096 \<Longrightarrow> min ((q + 1) * 4096) (q * 4096 + k + n) = q * 4096 + k + min (4096 - k) n" for n :: nat
  by (simp add: min_def) linarith

text \<open>The first turn of the loop: how far it gets in the first page, and the slice it pushes.\<close>

lemma first_slice:
  assumes map: "user_mapped pt w a n" and n: "0 < n"
  obtains p m sl where "sv39_translate pt w (va_floor a) = Some p" "0 < m" "m \<le> n"
    "min (va_from_vpn (vpn_step (va_floor a))) (a + of_nat n) = a + of_nat m"
    "page_slice p a (a + of_nat m) = Some sl" "sl_pos sl = user_pos pt w a m" "sl_start sl \<le> sl_end sl"
proof -
  obtain p where p: "sv39_translate pt w (va_floor a) = Some p"
    using map n by (auto simp: user_mapped_def dest: spec [of _ 0])
  have fin: "unat (a + of_nat n) = unat a + n" using map by (intro va_add) (simp add: user_mapped_def)
  let ?off = "unat a mod 4096" and ?q = "unat a div 4096"
  have a: "unat a = ?q * 4096 + ?off" by simp
  have "?q + 1 < 2 ^ 52" using map n a by (simp add: user_mapped_def) linarith
  then have "unat (vpn_step (va_floor a)) = ?q + 1"
    by (simp add: vpn_step_def unat_va_floor unat_add_no_wrap)
  then have next_page: "unat (va_from_vpn (vpn_step (va_floor a))) = (?q + 1) * 4096"
    using \<open>?q + 1 < 2 ^ 52\<close> by (simp add: unat_va_from_vpn)
  define m where "m = min (4096 - ?off) n"
  have off: "?off < 4096" by simp
  have m: "0 < m" "m \<le> n" "?off + m \<le> 4096" using n off unfolding m_def by auto
  have um: "unat (a + of_nat m) = unat a + m" using map m(2) by (intro va_add) (simp add: user_mapped_def)
  have "unat (min (va_from_vpn (vpn_step (va_floor a))) (a + of_nat n)) = unat a + m"
    unfolding min_unat next_page fin m_def using next_page_min [OF off, of ?q n] a by simp
  then have mn: "min (va_from_vpn (vpn_step (va_floor a))) (a + of_nat n) = a + of_nat m"
    using um by (simp add: word_unat_eq_iff)
  have "unat (va_page_offset (a + of_nat m)) = (?off + m) mod 4096"
    by (simp add: unat_va_page_offset um mod_add_left_eq)
  then have offm: "unat (va_page_offset (a + of_nat m)) = (if ?off + m = 4096 then 0 else ?off + m)"
    using m(3) by simp
  have pos: "user_pos pt w a m = map (Pair p) [?off..<?off + m]"
    using user_pos_page [OF p, of m] m(3) by (simp add: unat_va_page_offset)
  show ?thesis
  proof (cases "?off + m = 4096")
    case True
    then have "va_page_offset (a + of_nat m) = 0" using offm by (simp add: word_unat_eq_iff)
    then have "page_slice p a (a + of_nat m) = Some \<lparr>sl_ppn = p, sl_start = ?off, sl_end = 4096\<rparr>"
      by (simp add: page_slice_def unat_va_page_offset)
    then show ?thesis using that [OF p m(1,2) mn] pos True by (simp add: sl_pos_def)
  next
    case False
    then have o: "unat (va_page_offset (a + of_nat m)) = ?off + m" using offm by simp
    then have "va_page_offset (a + of_nat m) \<noteq> 0" using m(1) by (auto simp: word_unat_eq_iff)
    moreover have "va_page_offset a \<le> va_page_offset (a + of_nat m)"
      by (simp add: word_le_nat_alt o) (simp add: unat_va_page_offset)
    ultimately have "page_slice p a (a + of_nat m) = Some \<lparr>sl_ppn = p, sl_start = ?off, sl_end = ?off + m\<rparr>"
      using o by (simp add: page_slice_def) (simp add: unat_va_page_offset)
    then show ?thesis using that [OF p m(1,2) mn] pos by (simp add: sl_pos_def)
  qed
qed

lemma byte_buffer_loop_ok:
  assumes "user_mapped (sv39_from_token token) w a n"
  shows "\<exists>sls. byte_buffer_loop env fops oom token a (a + of_nat n) v vm w = Some (Inr (), v @ sls, vm, w) \<and>
    concat (map sl_pos sls) = user_pos (sv39_from_token token) w a n \<and> (\<forall>sl \<in> set sls. sl_start sl \<le> sl_end sl)"
  using assms
proof (induction n arbitrary: a v rule: less_induct)
  case (less n)
  show ?case
  proof (cases "n = 0")
    case True
    then show ?thesis by (subst byte_buffer_loop.simps) (simp add: user_pos_def)
  next
    case False
    then obtain p m sl where s: "sv39_translate (sv39_from_token token) w (va_floor a) = Some p" "0 < m" "m \<le> n"
      "min (va_from_vpn (vpn_step (va_floor a))) (a + of_nat n) = a + of_nat m"
      "page_slice p a (a + of_nat m) = Some sl" "sl_pos sl = user_pos (sv39_from_token token) w a m"
      "sl_start sl \<le> sl_end sl" using first_slice [OF less.prems] by blast
    have "unat (a + of_nat n) = unat a + n" using less.prems by (intro va_add) (simp add: user_mapped_def)
    then have lt: "a < a + of_nat n" using False by (simp add: word_less_nat_alt)
    have e: "a + of_nat m + of_nat (n - m) = a + of_nat n" using s(3) by (simp add: of_nat_diff)
    from less.IH [OF _ user_mapped_step [OF less.prems s(3)], of "v @ [sl]"] s(2,3) obtain sls where
      i: "byte_buffer_loop env fops oom token (a + of_nat m) (a + of_nat n) (v @ [sl]) vm w = Some (Inr (), (v @ [sl]) @ sls, vm, w)"
      "concat (map sl_pos sls) = user_pos (sv39_from_token token) w (a + of_nat m) (n - m)"
      "\<forall>sl \<in> set sls. sl_start sl \<le> sl_end sl"
      unfolding e by auto
    have "byte_buffer_loop env fops oom token a (a + of_nat n) v vm w = Some (Inr (), v @ (sl # sls), vm, w)"
      by (subst byte_buffer_loop.simps) (simp add: lt user_ppn_def s(1,4,5) i(1))
    moreover have "concat (map sl_pos (sl # sls)) = user_pos (sv39_from_token token) w a n"
      using user_pos_split [OF s(3), of "sv39_from_token token" w a] by (simp add: s(6) i(2))
    moreover have "\<forall>sl \<in> set (sl # sls). sl_start sl \<le> sl_end sl" using s(7) i(3) by simp
    ultimately show ?thesis by blast
  qed
qed

section \<open>Reading and writing positions\<close>

lemma ub_read_loop_pos:
  assumes "length dst = start + sum_list (map slice_len sls)"
  shows "snd (ub_read_loop w t start sls dst) = take start dst @ map (pmem_get w) (concat (map sl_pos sls))"
  using assms
proof (induction sls arbitrary: start dst)
  case (Cons sl sls)
  let ?dst = "list_write start (slice_bytes w sl) dst"
  have len: "length (slice_bytes w sl) = slice_len sl" by (simp add: slice_bytes_pos)
  then have "length ?dst = (start + slice_len sl) + sum_list (map slice_len sls)"
    using Cons.prems by (simp add: list_write_def)
  from Cons.IH [OF this] show ?case
    using Cons.prems len by (simp add: Let_def list_write_def slice_bytes_pos)
qed simp

lemma pmem_put_append: "pmem_put (ps @ qs) w = pmem_put qs (pmem_put ps w)"
  by (induction ps w rule: pmem_put.induct) simp_all

lemma page_write_Cons: "page_write k (b # bs) pg = page_write (Suc k) bs (page_write k [b] pg)"
  by (rule ext) (auto simp: page_write_def nth_Cons' not_le)

lemma write_bytes_put: "write_bytes p k bs w = pmem_put (zip (map (Pair p) [k..<k + length bs]) bs) w"
proof (induction bs arbitrary: k w)
  case Nil
  have "page_write k [] pg = pg" for pg by (rule ext) (auto simp: page_write_def)
  then show ?case by (simp add: write_bytes_def)
next
  case (Cons b bs)
  have "write_bytes p k (b # bs) w = write_bytes p (Suc k) bs (write_bytes p k [b] w)"
    using page_write_Cons [of k b bs "pmem w p"] by (simp add: write_bytes_def)
  also have "\<dots> = pmem_put (zip (map (Pair p) [Suc k..<Suc k + length bs]) bs) (write_bytes p k [b] w)"
    by (rule Cons.IH)
  finally show ?case by (simp add: upt_conv_Cons del: upt_Suc)
qed

lemma slice_write_put:
  assumes "length bs = slice_len sl" and "sl_start sl \<le> sl_end sl"
  shows "slice_write sl 0 bs w = pmem_put (zip (sl_pos sl) bs) w"
proof -
  have "sl_start sl + length bs = sl_end sl" using assms by (simp add: slice_len_def)
  then show ?thesis using write_bytes_put [of "sl_ppn sl" "sl_start sl" bs w] by (simp add: slice_write_def sl_pos_def)
qed

lemma ub_write_loop_pos:
  assumes "length src = start + sum_list (map slice_len sls)" and "\<forall>sl \<in> set sls. sl_start sl \<le> sl_end sl"
  shows "snd (ub_write_loop t start sls src w) = pmem_put (zip (concat (map sl_pos sls)) (drop start src)) w"
  using assms
proof (induction sls arbitrary: start w)
  case (Cons sl sls)
  let ?bs = "take (slice_len sl) (drop start src)"
  have len: "length ?bs = slice_len sl" using Cons.prems by simp
  have "zip (concat (map sl_pos (sl # sls))) (drop start src) =
      zip (sl_pos sl) ?bs @ zip (concat (map sl_pos sls)) (drop (start + slice_len sl) src)"
    by (simp add: zip_append1 add.commute)
  moreover have "slice_write sl 0 ?bs w = pmem_put (zip (sl_pos sl) ?bs) w"
    using Cons.prems(2) len by (intro slice_write_put) simp_all
  ultimately show ?case
    using Cons.IH [of "start + slice_len sl"] Cons.prems by (simp add: Let_def pmem_put_append)
qed simp

text \<open>What a write leaves: the bytes at the positions, and everything else as it was.\<close>

lemma pmem_put_other: "x \<notin> fst ` set ps \<Longrightarrow> pmem_get (pmem_put ps w) x = pmem_get w x"
  by (induction ps w rule: pmem_put.induct; cases x) (auto simp: write_bytes_def page_write_def)

lemma pmem_put_get:
  assumes "distinct ps" and "length bs = length ps"
  shows "map (pmem_get (pmem_put (zip ps bs) w)) ps = bs"
  using assms
proof (induction ps arbitrary: bs w)
  case (Cons x ps)
  obtain b bs' where bs: "bs = b # bs'" using Cons.prems by (cases bs) auto
  obtain p k where x: "x = (p, k)" by force
  have "x \<notin> fst ` set (zip ps bs')" using Cons.prems(1) by (auto dest: set_zip_leftD)
  then have "pmem_get (pmem_put (zip ps bs') (write_bytes p k [b] w)) x = b"
    by (subst pmem_put_other) (simp_all add: x write_bytes_def page_write_def)
  then show ?case using Cons.IH [of bs' "write_bytes p k [b] w"] Cons.prems bs x by simp
qed simp

lemma pmem_put_frame:
  assumes "p \<notin> fst ` fst ` set ps"
  shows "pmem (pmem_put ps w) p = pmem w p"
proof (rule ext)
  fix k
  have "(p, k) \<notin> fst ` set ps" using assms by force
  from pmem_put_other [OF this, of w] show "pmem (pmem_put ps w) p k = pmem w p k" by simp
qed

lemma pmem_put_simps [simp]:
  "kfa (pmem_put ps w) = kfa w" "arcs (pmem_put ps w) = arcs w" "kmem.more (pmem_put ps w) = kmem.more w"
  by (induction ps w rule: pmem_put.induct) (simp_all add: write_bytes_def)

lemma pmem_put_world [simp]:
  "kzram (pmem_put ps w) = kzram w" "zarcs (pmem_put ps w) = zarcs w" "kswap (pmem_put ps w) = kswap w"
  "sarcs (pmem_put ps w) = sarcs w" "kdisk (pmem_put ps w) = kdisk w"
  by (induction ps w rule: pmem_put.induct) (simp_all add: write_bytes_def)

section \<open>The copies\<close>

lemma same_page_range:
  assumes "same_page a (of_nat n)" and "0 < n" and "unat a + n \<le> 2 ^ 64 - 4096"
  shows "unat (va_page_offset a) + n \<le> 4096"
proof -
  have e: "a + of_nat n - 1 = a + of_nat (n - 1)" using assms(2) by (simp add: of_nat_diff)
  have u: "unat (a + of_nat (n - 1)) = unat a + (n - 1)" using assms by (intro va_add) simp
  have "unat (va_floor a) = unat (va_floor (a + of_nat (n - 1)))"
    using assms(1) unfolding same_page_def e by (rule arg_cong)
  then have d: "(unat a + (n - 1)) div 4096 = unat a div 4096" unfolding unat_va_floor u by (rule sym)
  have "unat a mod 4096 + (n - 1) = (unat a + (n - 1)) mod 4096"
    using div_mult_mod_eq [of "unat a" 4096] div_mult_mod_eq [of "unat a + (n - 1)" 4096] unfolding d by linarith
  then have "unat a mod 4096 + (n - 1) < 4096" by (metis mod_less_divisor zero_less_numeral)
  then show ?thesis using assms(2) by (simp add: unat_va_page_offset)
qed

text \<open>A range inside one page is accessed through the physical address of its first byte.\<close>

lemma pa_add_in_page:
  assumes "unat (pa_page_offset pa) + i < 4096"
  shows "pa_floor (pa + of_nat i) = pa_floor pa" "unat (pa_page_offset (pa + of_nat i)) = unat (pa_page_offset pa) + i"
  using va_add_in_page [of pa i] assms
  by (simp_all add: va_floor_def pa_floor_def va_page_offset_def pa_page_offset_def)

lemma phys_read_pos:
  assumes "unat (pa_page_offset pa) + n \<le> 4096"
  shows "phys_read w pa n = map (pmem_get w) (map (Pair (pa_floor pa)) [unat (pa_page_offset pa)..<unat (pa_page_offset pa) + n])"
  using assms pa_add_in_page [of pa] by (intro nth_equalityI) (simp_all add: phys_read_def phys_byte_def)

lemma phys_write_pos:
  assumes "unat (pa_page_offset pa) + length bs \<le> 4096"
  shows "phys_write pa bs w =
    pmem_put (zip (map (Pair (pa_floor pa)) [unat (pa_page_offset pa)..<unat (pa_page_offset pa) + length bs]) bs) w"
  using assms
proof (induction bs arbitrary: pa w)
  case (Cons b bs)
  show ?case
  proof (cases "bs = []")
    case True
    then show ?thesis by (simp add: phys_set_def)
  next
    case False
    then have "unat (pa_page_offset pa) + 1 < 4096" using Cons.prems by (cases bs) simp_all
    note P = pa_add_in_page [OF this]
    have "unat (pa_page_offset (pa + 1)) + length bs \<le> 4096" using P(2) Cons.prems by simp
    from Cons.IH [OF this] P show ?thesis by (simp add: phys_set_def upt_conv_Cons del: upt_Suc)
  qed
qed simp

lemma user_pa_ok:
  assumes "user_mapped (sv39_from_token token) w a n" and "0 < n"
  obtains pa where "user_pa env fops oom token a vm w = Some (Inr pa, vm, w)"
    "sv39_translate (sv39_from_token token) w (va_floor a) = Some (pa_floor pa)" "pa_page_offset pa = va_page_offset a"
proof -
  have "sv39_translate (sv39_from_token token) w (va_floor a) \<noteq> None"
    using assms by (auto simp: user_mapped_def dest: spec [of _ 0])
  then obtain pa where pa: "sv39_translate_va (sv39_from_token token) w a = Some pa"
    by (auto simp: sv39_translate_def sv39_translate_va_def)
  from that [OF _ translate_va_split [OF pa]] show ?thesis by (simp add: user_pa_def pa)
qed

lemma copy_from_user_pos:
  assumes map: "user_mapped (sv39_from_token token) w a n" and n: "0 < n" "length dst = n"
  shows "copy_from_user env fops oom token a (of_nat n) dst vm w =
    Some (Inr (), map (pmem_get w) (user_pos (sv39_from_token token) w a n), vm, w)"
proof (cases "same_page a (of_nat n)")
  case True
  have r: "unat a + n \<le> 2 ^ 64 - 4096" using map by (simp add: user_mapped_def)
  note off = same_page_range [OF True n(1) r]
  obtain pa where pa: "user_pa env fops oom token a vm w = Some (Inr pa, vm, w)"
    "sv39_translate (sv39_from_token token) w (va_floor a) = Some (pa_floor pa)" "pa_page_offset pa = va_page_offset a"
    by (rule user_pa_ok [OF map n(1)])
  have "unat (of_nat n :: usize) = n" using r by (intro unat_of_nat_u64) simp
  then show ?thesis
    using phys_read_pos [of pa n w] off
    by (simp add: copy_from_user_def copy_bytes_from_user_def True pa(1) user_pos_page [OF pa(2) off] pa(3))
next
  case False
  obtain sls where b: "byte_buffer_loop env fops oom token a (a + of_nat n) [] vm w = Some (Inr (), [] @ sls, vm, w)"
    "concat (map sl_pos sls) = user_pos (sv39_from_token token) w a n"
    using byte_buffer_loop_ok [OF map, where v = "[]"] by metis
  have "sum_list (map slice_len sls) = length (concat (map sl_pos sls))" by (simp add: length_concat comp_def)
  then have "length dst = 0 + sum_list (map slice_len sls)" using b(2) n(2) by simp
  from ub_read_loop_pos [OF this] b show ?thesis
    by (simp add: copy_from_user_def copy_bytes_from_user_def False translated_byte_buffer_def ub_read_def ub_new_def)
qed

lemma copy_to_user_pos:
  assumes map: "user_mapped (sv39_from_token token) w a (length bs)" and n: "bs \<noteq> []"
  shows "copy_to_user env fops oom token bs a vm w =
    Some (Inr (), vm, pmem_put (zip (user_pos (sv39_from_token token) w a (length bs)) bs) w)"
proof (cases "same_page a (of_nat (length bs))")
  case True
  have r: "unat a + length bs \<le> 2 ^ 64 - 4096" using map by (simp add: user_mapped_def)
  have n': "0 < length bs" using n by simp
  note off = same_page_range [OF True n' r]
  obtain pa where pa: "user_pa env fops oom token a vm w = Some (Inr pa, vm, w)"
    "sv39_translate (sv39_from_token token) w (va_floor a) = Some (pa_floor pa)" "pa_page_offset pa = va_page_offset a"
    by (rule user_pa_ok [OF map n'])
  show ?thesis
    using phys_write_pos [of pa bs w] off
    by (simp add: copy_to_user_def copy_bytes_to_user_def True pa(1) user_pos_page [OF pa(2) off] pa(3))
next
  case False
  obtain sls where b: "byte_buffer_loop env fops oom token a (a + of_nat (length bs)) [] vm w = Some (Inr (), [] @ sls, vm, w)"
    "concat (map sl_pos sls) = user_pos (sv39_from_token token) w a (length bs)" "\<forall>sl \<in> set sls. sl_start sl \<le> sl_end sl"
    using byte_buffer_loop_ok [OF map, where v = "[]"] by metis
  have "sum_list (map slice_len sls) = length (concat (map sl_pos sls))" by (simp add: length_concat comp_def)
  then have "length bs = 0 + sum_list (map slice_len sls)" using b(2) by simp
  from ub_write_loop_pos [OF this b(3)] b(1,2) show ?thesis
    by (simp add: copy_to_user_def copy_bytes_to_user_def False translated_byte_buffer_def ub_write_def ub_new_def)
qed

section \<open>Address spaces\<close>

text \<open>
  Writing to frames of the areas of a space keeps its page table, so the same addresses lead to
  the same positions afterwards, and it keeps the invariant of the space.
\<close>

definition in_areas :: "'f memory_set \<Rightarrow> usize \<Rightarrow> nat \<Rightarrow> bool" where
  "in_areas ms a n \<longleftrightarrow>
     (\<forall>i < n. \<exists>ma \<in> set (ms_areas ms). lm_in_range (ma_inner ma) (va_floor (a + of_nat i)))"

lemma user_pos_frames:
  fixes w :: "('d, 'z) world"
  assumes inv: "ms_inv lo M ms w" and map: "user_mapped (ms_page_table ms) w a n" and dom: "in_areas ms a n"
    and x: "x \<in> set (user_pos (ms_page_table ms) w a n)"
  shows "fst x \<notin> set (pt_frames (ms_page_table ms))"
proof -
  obtain i where i: "i < n" "fst x = the (sv39_translate (ms_page_table ms) w (va_floor (a + of_nat i)))"
    using x by (auto simp: user_pos_def)
  then have t: "sv39_translate (ms_page_table ms) w (va_floor (a + of_nat i)) = Some (fst x)"
    using map by (auto simp: user_mapped_def)
  obtain ma where ma: "ma \<in> set (ms_areas ms)" "lm_in_range (ma_inner ma) (va_floor (a + of_nat i))"
    using dom i(1) by (auto simp: in_areas_def)
  have ok: "area_ok (ms_page_table ms) w ma" using inv ma(1) by (simp add: ms_inv_def space_inv_def)
  then have "lm_wf (ma_inner ma)" by (simp add: area_ok_def)
  note I = lm_index_in_range [OF this ma(2)]
  have "resident (lm_frames (ma_inner ma) ! lm_index (va_floor (a + of_nat i)) (ma_inner ma)) = Some (fst x)"
    using ok I(1,2) t unfolding area_ok_def by metis
  then have "InMemory (fst x) \<in> set (lm_frames (ma_inner ma))"
    using I(1) nth_mem by (fastforce simp: resident_def split: frame.splits)
  then have "InMemory (fst x) \<in># space_frames (ms_areas ms)" using ma(1) by (auto simp: space_frames_def area_frames_def)
  then show ?thesis using inv by (auto simp: ms_inv_def space_inv_def table_frames_def)
qed

lemma pmem_put_inv:
  fixes w :: "('d, 'z) world"
  assumes inv: "ms_inv lo M ms w" and out: "\<And>x. x \<in> fst ` set ps \<Longrightarrow> fst x \<notin> set (pt_frames (ms_page_table ms))"
  shows "ms_inv lo M ms (pmem_put ps w)" "find_pte (ms_page_table ms) (pmem_put ps w) v = find_pte (ms_page_table ms) w v"
proof -
  have wf: "pt_wf lo (ms_page_table ms) w" using inv by (simp add: ms_inv_def space_inv_def)
  have world: "world_inv lo (pmem_put ps w) = world_inv lo w" "frames_ref (pmem_put ps w) F = frames_ref w F" for F
    by (simp_all add: world_inv_def frames_ref_def frame_count_def km_defs cong: frame.case_cong)
  have "bytes_array f (pmem_put ps w) = bytes_array f w" if "f \<in> set (pt_frames (ms_page_table ms))" for f
  proof -
    have "f \<notin> fst ` fst ` set ps" using out that by blast
    then show ?thesis by (simp add: bytes_array_def pmem_put_frame)
  qed
  with pt_same_frames [OF wf, of "pmem_put ps w"] pt_wfD(1,3,6) [OF wf]
  have T: "pt_wf lo (ms_page_table ms) (pmem_put ps w)"
    "find_pte (ms_page_table ms) (pmem_put ps w) u = find_pte (ms_page_table ms) w u" for u by (auto simp: km_defs)
  then show "find_pte (ms_page_table ms) (pmem_put ps w) v = find_pte (ms_page_table ms) w v" by blast
  show "ms_inv lo M ms (pmem_put ps w)"
    using inv T world by (simp add: ms_inv_def space_inv_def area_ok_def sv39_translate_def)
qed

lemma token_translate:
  assumes "ms_inv lo M ms w"
  shows "sv39_translate (sv39_from_token (ms_token ms)) w = sv39_translate (ms_page_table ms) w"
    "user_mapped (sv39_from_token (ms_token ms)) w a n = user_mapped (ms_page_table ms) w a n"
    "user_pos (sv39_from_token (ms_token ms)) w a n = user_pos (ms_page_table ms) w a n"
proof -
  have wf: "pt_wf lo (ms_page_table ms) w" using assms by (simp add: ms_inv_def space_inv_def)
  show t: "sv39_translate (sv39_from_token (ms_token ms)) w = sv39_translate (ms_page_table ms) w"
    by (rule ext) (simp add: sv39_translate_def ms_token_def token_find_pte(2) [OF wf])
  show "user_mapped (sv39_from_token (ms_token ms)) w a n = user_mapped (ms_page_table ms) w a n"
    "user_pos (sv39_from_token (ms_token ms)) w a n = user_pos (ms_page_table ms) w a n"
    by (simp_all add: user_mapped_def user_pos_def t)
qed

lemma copy_round_trip:
  fixes w :: "('d, 'z) world" and ms :: "'f memory_set"
  assumes inv: "ms_inv lo M ms w" and map: "user_mapped (ms_page_table ms) w a (length bs)"
    and dom: "in_areas ms a (length bs)" and dist: "distinct (user_pos (ms_page_table ms) w a (length bs))"
    and bs: "bs \<noteq> []" "length dst = length bs"
  shows "\<exists>w'. copy_to_user env fops oom (ms_token ms) bs a vm w = Some (Inr (), vm, w') \<and>
    copy_from_user env fops oom (ms_token ms) a (of_nat (length bs)) dst vm w' = Some (Inr (), bs, vm, w') \<and>
    ms_inv lo M ms w' \<and> (\<forall>v. find_pte (ms_page_table ms) w' v = find_pte (ms_page_table ms) w v) \<and>
    (\<forall>p k. (p, k) \<notin> set (user_pos (ms_page_table ms) w a (length bs)) \<longrightarrow> pmem w' p k = pmem w p k)"
proof -
  let ?pos = "user_pos (ms_page_table ms) w a (length bs)"
  let ?w = "pmem_put (zip ?pos bs) w"
  have fst: "fst ` set (zip ?pos bs) = set ?pos" by (metis length_user_pos map_fst_zip set_map)
  have out: "fst x \<notin> set (pt_frames (ms_page_table ms))" if "x \<in> fst ` set (zip ?pos bs)" for x
    using user_pos_frames [OF inv map dom] that unfolding fst by blast
  note I = pmem_put_inv [OF inv out]
  have same: "user_mapped (ms_page_table ms) ?w a n = user_mapped (ms_page_table ms) w a n"
    "user_pos (ms_page_table ms) ?w a n = user_pos (ms_page_table ms) w a n" for n
    by (simp_all add: user_mapped_def user_pos_def sv39_translate_def I(2))
  have "copy_to_user env fops oom (ms_token ms) bs a vm w = Some (Inr (), vm, ?w)"
    using copy_to_user_pos [of "ms_token ms" w a bs env fops oom vm] map bs(1) by (simp add: token_translate [OF inv])
  moreover have "copy_from_user env fops oom (ms_token ms) a (of_nat (length bs)) dst vm ?w = Some (Inr (), bs, vm, ?w)"
    using copy_from_user_pos [of "ms_token ms" ?w a "length bs" dst env fops oom vm] map bs pmem_put_get [OF dist, of bs w]
    by (simp add: token_translate [OF I(1)] same)
  moreover have "pmem ?w p k = pmem w p k" if "(p, k) \<notin> set ?pos" for p k
    using pmem_put_other [of "(p, k)" "zip ?pos bs" w] that fst by simp
  ultimately show ?thesis using I by blast
qed

text \<open>The page the process sees at a mapped address is the frame of its page table entry.\<close>

lemma ms_view_frame:
  fixes w :: "('d, 'z) world"
  assumes inv: "ms_inv lo M ms w" and ma: "ma \<in> set (ms_areas ms)" "lm_in_range (ma_inner ma) v"
    and t: "sv39_translate (ms_page_table ms) w v = Some p"
  shows "ms_view env w' ms v = Some (bytes_array p w')"
proof -
  obtain ma' where f: "find (\<lambda>ma. lm_in_range (ma_inner ma) v) (ms_areas ms) = Some ma'"
    using ma by (cases "find (\<lambda>ma. lm_in_range (ma_inner ma) v) (ms_areas ms)") (auto simp: find_None_iff)
  then have m: "ma' \<in> set (ms_areas ms)" "lm_in_range (ma_inner ma') v" by (auto simp: find_Some_iff)
  have ok: "area_ok (ms_page_table ms) w ma'" using inv m(1) by (simp add: ms_inv_def space_inv_def)
  then have "lm_wf (ma_inner ma')" by (simp add: area_ok_def)
  note I = lm_index_in_range [OF this m(2)]
  have "resident (lm_frames (ma_inner ma') ! lm_index v (ma_inner ma')) = Some p"
    using ok I(1,2) t unfolding area_ok_def by metis
  then have "lm_frames (ma_inner ma') ! lm_index v (ma_inner ma') = InMemory p"
    by (auto simp: resident_def split: frame.splits)
  then show ?thesis using m(2) by (simp add: ms_view_def space_view_def f area_view_def page_view_def frame_content_def)
qed

end
