(* ===== verification/Mm_Isolation.thy ===== *)
theory Mm_Isolation
  imports Mm_Munmap Mm_Mmap Mm_User_Copy
begin

text \<open>
  Runs of the memory subsystem: the steps a process takes inside its own space, the stores of
  its user code included, and the steps of the system, which also start processes, fork them
  and let them exit. The invariant \<open>sys_safe\<close> holds in every reachable state, and what one
  process does in its space no other process sees.
\<close>

section \<open>Stores\<close>

text \<open>
  A store of user code as Sv39 defines it: it reaches the frame of the leaf entry when the entry
  grants write access to user mode, and faults otherwise.
\<close>

definition user_store :: "usize \<Rightarrow> u8 \<Rightarrow> 'f memory_set \<Rightarrow> ('d, 'z) world \<Rightarrow> ('d, 'z) world option" where
  "user_store va b ms w =
     (case find_pte (ms_page_table ms) w (va_floor va) of
        None \<Rightarrow> None
      | Some e \<Rightarrow>
          if pte_writable e \<and> pte_flags e AND PTE_U \<noteq> 0
          then Some (write_bytes (pte_ppn e) (unat (va_page_offset va)) [b] w) else None)"

text \<open>Writing to frames that the space refers to, and nobody else.\<close>

lemma put_step:
  fixes w :: "('d, 'z) world"
  assumes inv: "ms_inv lo M ms w"
    and own: "\<And>x. x \<in> fst ` set ps \<Longrightarrow> InMemory (fst x) \<in># space_frames (ms_areas ms) \<and>
      count (space_frames (ms_areas ms) + M) (InMemory (fst x)) \<le> 1"
  shows "space_step lo env M ms w ms (pmem_put ps w)" "pte_step M ms w ms (pmem_put ps w)"
proof -
  note I = space_invD [OF inv [unfolded ms_inv_def]]
  have "fst x \<notin> set (pt_frames (ms_page_table ms))" if "x \<in> fst ` set ps" for x
    using own [OF that] I(4) by (auto simp: table_frames_def)
  note P = pmem_put_inv [OF inv this]
  have "frame_content env (pmem_put ps w) g = frame_content env w g" if g: "g \<in># M" for g
  proof (cases g)
    case (InMemory q)
    have "q \<notin> fst ` fst ` set ps"
    proof
      assume "q \<in> fst ` fst ` set ps"
      then obtain x where x: "x \<in> fst ` set ps" "q = fst x" by blast
      have "0 < count (space_frames (ms_areas ms)) g" "0 < count M g"
        using own [OF x(1)] g InMemory x(2) by (simp_all only: count_greater_zero_iff)
      moreover have "count (space_frames (ms_areas ms)) g + count M g \<le> 1" using own [OF x(1)] InMemory x(2) by simp
      ultimately show False by linarith
    qed
    then show ?thesis by (simp add: InMemory frame_content_def bytes_array_def pmem_put_frame)
  qed (simp_all add: frame_content_def)
  then show "space_step lo env M ms w ms (pmem_put ps w)" using P(1) by (simp add: space_step_def)
  show "pte_step M ms w ms (pmem_put ps w)" by (simp add: pte_step_def P(2))
qed

text \<open>A writable entry of a space leads to such a frame.\<close>

lemma tight_own:
  assumes "ms_inv lo M ms w" and "ms_tight (space_frames (ms_areas ms) + M) ms w"
    and "find_pte (ms_page_table ms) w u = Some e" and "pte_writable e"
  shows "InMemory (pte_ppn e) \<in># space_frames (ms_areas ms) \<and>
    count (space_frames (ms_areas ms) + M) (InMemory (pte_ppn e)) \<le> 1"
proof
  have k: "vpn_key u \<in> areas_keys (ms_areas ms)"
    and "count (space_frames (ms_areas ms) + M) (InMemory (pte_ppn e)) \<le> 1"
    using assms(2-4) unfolding ms_tight_def by blast+
  then show "count (space_frames (ms_areas ms) + M) (InMemory (pte_ppn e)) \<le> 1" by simp
  show "InMemory (pte_ppn e) \<in># space_frames (ms_areas ms)"
    by (rule leaf_frame [OF _ assms(3) k]) (use space_invD(5) [OF assms(1) [unfolded ms_inv_def]] in blast)
qed

lemma user_store_ok:
  assumes "ms_inv lo M ms w" and "ms_tight (space_frames (ms_areas ms) + M) ms w"
    and "user_store va b ms w = Some w'"
  shows "space_step lo env M ms w ms w'" "pte_step M ms w ms w'"
proof -
  from assms(3) obtain e where e: "find_pte (ms_page_table ms) w (va_floor va) = Some e" "pte_writable e"
    "w' = pmem_put [((pte_ppn e, unat (va_page_offset va)), b)] w"
    by (auto simp: user_store_def split: option.splits if_splits)
  show "space_step lo env M ms w ms w'" "pte_step M ms w ms w'"
    unfolding e(3) by (rule put_step [OF assms(1)], use tight_own [OF assms(1,2) e(1,2)] in simp)+
qed

lemma kernel_store_ok:
  assumes inv: "ms_inv lo M ms w" and tight: "ms_tight (space_frames (ms_areas ms) + M) ms w"
    and map: "user_mapped (ms_page_table ms) w a (length bs)" and ne: "bs \<noteq> []"
    and wr: "\<forall>i < length bs. \<forall>e. find_pte (ms_page_table ms) w (va_floor (a + of_nat i)) = Some e \<longrightarrow> pte_writable e"
    and c: "copy_to_user env fops oom (ms_token ms) bs a vm w = Some (res, vm', w')"
  shows "space_step lo env M ms w ms w'" "pte_step M ms w ms w'"
proof -
  let ?ps = "zip (user_pos (ms_page_table ms) w a (length bs)) bs"
  have w': "w' = pmem_put ?ps w"
    using copy_to_user_pos [of "ms_token ms" w a bs env fops oom vm] map ne c by (simp add: token_translate [OF inv])
  have "InMemory (fst x) \<in># space_frames (ms_areas ms) \<and> count (space_frames (ms_areas ms) + M) (InMemory (fst x)) \<le> 1"
    if "x \<in> fst ` set ?ps" for x
  proof -
    from that have "x \<in> set (user_pos (ms_page_table ms) w a (length bs))" by (auto dest: set_zip_leftD)
    then obtain i where i: "i < length bs" "fst x = the (sv39_translate (ms_page_table ms) w (va_floor (a + of_nat i)))"
      by (auto simp: user_pos_def)
    then obtain e where e: "find_pte (ms_page_table ms) w (va_floor (a + of_nat i)) = Some e" "fst x = pte_ppn e"
      using map by (auto simp: user_mapped_def sv39_translate_def)
    then show ?thesis using tight_own [OF inv tight e(1)] wr i(1) by simp
  qed
  note own = put_step [OF inv this]
  show "space_step lo env M ms w ms w'" "pte_step M ms w ms w'" unfolding w' by (rule own, assumption)+
qed

section \<open>What a process does to its space\<close>

text \<open>
  The steps of a process: a store of its user code; a page fault with the three free frames that
  the trap handler reserves, unless it is the first access to a page of a file mapping; the
  insertion of a framed area where nothing is mapped; an anonymous \<open>mmap\<close>; \<open>munmap\<close>; a write of
  the kernel to pages that are mapped writable; and the two reclaiming passes.
\<close>

inductive proc_step ::
  "'d kenv \<Rightarrow> ('f, ('d, 'z) world) file_ops \<Rightarrow> ('d, 'z) woom \<Rightarrow> 'f memory_set \<times> ('d, 'z) world \<Rightarrow>
   'f memory_set \<times> ('d, 'z) world \<Rightarrow> bool"
  for env fops oom where
  store: "user_store va b ms w = Some w' \<Longrightarrow> proc_step env fops oom (ms, w) (ms, w')"
| page_fault: "do_page_fault env fops oom addr ms w = Some (res, ms', w') \<Longrightarrow> 3 \<le> km_free w \<Longrightarrow>
    (\<And>i. find_idx (faulting_area (va_floor addr)) (ms_areas ms) = Some i \<Longrightarrow>
      \<not> sv39_is_mapped (ms_page_table ms) w (va_floor addr) \<Longrightarrow>
      ma_map_file (ms_areas ms ! i) = None \<and> ms_view env w ms (va_floor addr) \<noteq> None) \<Longrightarrow>
    proc_step env fops oom (ms, w) (ms', w')"
| insert_area: "insert_framed_area env oom start_va end_va perm ms w = Some (ms', w') \<Longrightarrow>
    ma_new start_va end_va Framed perm (None :: 'f option) = Some ma \<Longrightarrow> blank_area (ms_page_table ms) w ma \<Longrightarrow>
    area_keys ma \<inter> areas_keys (ms_areas ms) = {} \<Longrightarrow> 3 * length (lm_frames (ma_inner ma)) \<le> km_free w \<Longrightarrow>
    proc_step env fops oom (ms, w) (ms', w')"
| mmap_anon: "mmap env fops ub (Some files) start len prot flags fd offset ms w = Some (va, ms', w') \<Longrightarrow>
    start AND 0xfff = 0 \<Longrightarrow> mflags_contains flags MAP_ANONYMOUS \<Longrightarrow> va_page_offset va' = 0 \<Longrightarrow>
    mmap_place env ub start (if len = 0 then PAGE_SIZE else len) prot flags ms w = Some (Placed va', ms, w) \<Longrightarrow>
    ma_new va' (va' + (if len = 0 then PAGE_SIZE else len)) Framed prot (None :: 'f option) = Some ma \<Longrightarrow>
    blank_area (ms_page_table ms) w ma \<Longrightarrow> area_keys ma \<inter> areas_keys (ms_areas ms) = {} \<Longrightarrow>
    proc_step env fops oom (ms, w) (ms', w')"
| munmap_pages: "munmap env start len ms w = Some (res, ms', w') \<Longrightarrow>
    va_aligned start \<Longrightarrow> va_floor start < va_ceil (start + len) \<Longrightarrow>
    \<forall>ma \<in> set (ms_areas ms). ma_get_start ma < ma_get_end ma \<and> unat (ma_get_end ma) < 2 ^ 52 \<and>
      (ma_get_start ma < va_floor start \<longrightarrow> va_ceil (start + len) < ma_get_end ma \<longrightarrow> ma_map_file ma = None) \<Longrightarrow>
    proc_step env fops oom (ms, w) (ms', w')"
| kernel_store: "copy_to_user env fops oom (ms_token ms) bs a (Some ms) w = Some (res, vm, w') \<Longrightarrow> bs \<noteq> [] \<Longrightarrow>
    user_mapped (ms_page_table ms) w a (length bs) \<Longrightarrow>
    \<forall>i < length bs. \<forall>e. find_pte (ms_page_table ms) w (va_floor (a + of_nat i)) = Some e \<longrightarrow> pte_writable e \<Longrightarrow>
    proc_step env fops oom (ms, w) (ms, w')"
| shallow_clean: "do_shallow_clean env ms w = Some (n, ms', w') \<Longrightarrow> proc_step env fops oom (ms, w) (ms', w')"
| deep_clean: "do_deep_clean env ms w = Some (n, ms', w') \<Longrightarrow> proc_step env fops oom (ms, w) (ms', w')"

lemma step_refl: "ms_inv lo M ms w \<Longrightarrow> space_step lo env M ms w ms w" "pte_step M ms w ms w"
  by (simp_all add: space_step_def pte_step_def)

lemma page_fault_step:
  fixes w w' :: "('d, 'z) world"
  assumes env: "env_ok env" and inv: "ms_inv lo M ms w"
    and f: "do_page_fault env fops oom addr ms w = Some (res, ms', w')" "3 \<le> km_free w"
    and anon: "\<And>i. find_idx (faulting_area (va_floor addr)) (ms_areas ms) = Some i \<Longrightarrow>
      \<not> sv39_is_mapped (ms_page_table ms) w (va_floor addr) \<Longrightarrow>
      ma_map_file (ms_areas ms ! i) = None \<and> ms_view env w ms (va_floor addr) \<noteq> None"
  shows "space_step lo env M ms w ms' w' \<and> pte_step M ms w ms' w'"
proof (cases "find_idx (faulting_area (va_floor addr)) (ms_areas ms)")
  case None
  then have "ms' = ms" "w' = w" using f(1) by (simp_all add: do_page_fault_def Let_def)
  then show ?thesis using step_refl(1) [OF inv] step_refl(2) by simp
next
  case (Some i)
  show ?thesis
  proof (cases "sv39_is_mapped (ms_page_table ms) w (va_floor addr)")
    case False
    with anon [OF Some] obtain bs where "ma_map_file (ms_areas ms ! i) = None" "ms_view env w ms (va_floor addr) = Some bs" by blast
    from fault_lazy_ok [OF env inv Some this(1) False this(2) f(2), of fops oom] f(1) show ?thesis by (auto simp: fault_effect_def)
  next
    case True
    show ?thesis
    proof (cases "ma_writable_stripped (ms_areas ms ! i)")
      case stripped: True
      then have "ms' = ms" "w' = w" using f(1) Some True by (simp_all add: do_page_fault_def fault_mapped_def Let_def)
      then show ?thesis using step_refl(1) [OF inv] step_refl(2) by simp
    next
      case False
      from fault_write_ok [OF inv Some False True f(2), of env fops oom] f(1) show ?thesis by (auto simp: fault_effect_def)
    qed
  qed
qed

lemma proc_step_ok:
  fixes w w' :: "('d, 'z) world"
  assumes env: "env_ok env" and step: "proc_step env fops oom (ms, w) (ms', w')" and inv: "ms_inv lo M ms w"
    and tight: "ms_tight (space_frames (ms_areas ms) + M) ms w"
  shows "space_step lo env M ms w ms' w' \<and> pte_step M ms w ms' w'"
  using step
proof cases
  case (store va b)
  then show ?thesis using user_store_ok [OF inv tight] by blast
next
  case (page_fault addr res)
  then show ?thesis using page_fault_step [OF env inv] by blast
next
  case (insert_area start_va end_va perm ma)
  from insert_framed_area_ok [OF inv insert_area(2-5), of env oom] insert_area(1)
  show ?thesis by (auto simp: insert_effect_def)
next
  case (mmap_anon ub files start len prot flags fd offset va va' ma)
  have "area_keys a \<inter> area_keys ma = {}" if "a \<in> set (ms_areas ms)" for a
    using mmap_anon(8) that by (auto simp: areas_keys_def)
  from mmap_anonymous_ok [OF inv mmap_anon(2,5,3,6,4,7) this, of fops files fd offset] mmap_anon(1)
  show ?thesis by auto
next
  case (munmap_pages start len res)
  from munmap_ok [OF inv munmap_pages(2-4), of env] munmap_pages(1) show ?thesis by auto
next
  case (kernel_store bs a res vm)
  then show ?thesis using kernel_store_ok [OF inv tight kernel_store(4,3,5,2)] by blast
next
  case (shallow_clean n)
  with do_shallow_clean_ok [OF env inv] show ?thesis using clean_step by fastforce
next
  case (deep_clean n)
  with do_deep_clean_ok [OF env inv] show ?thesis using clean_step by fastforce
qed

lemma isolation:
  fixes w w' :: "('d, 'z) world"
  assumes env: "env_ok env" and steps: "(proc_step env fops oom)\<^sup>*\<^sup>* (ms, w) (ms', w')"
    and safe: "sys_safe lo M (ss @ ms # ts) zs w"
  shows "sys_safe lo M (ss @ ms' # ts) zs w' \<and> (\<forall>k \<in> set ss \<union> set ts. ms_view env w' k = ms_view env w k \<and>
    (\<forall>v. find_pte (ms_page_table k) w' v = find_pte (ms_page_table k) w v))"
  using steps
proof (induction rule: rtranclp_induct2)
  case refl
  then show ?case using safe by simp
next
  case (step ms1 w1 ms2 w2)
  have s1: "sys_safe lo M (ss @ ms1 # ts) zs w1" using step.IH by blast
  have st: "space_step lo env (held_by (ss @ ts @ zs) + M) ms1 w1 ms2 w2" "pte_step (held_by (ss @ ts @ zs) + M) ms1 w1 ms2 w2"
    using proc_step_ok [OF env step.hyps(2) safe_focus [OF s1]] by blast+
  have inv: "sys_inv lo M (ss @ ms1 # (ts @ zs)) w1" using s1 by (simp add: sys_safe_def)
  have st': "space_step lo env (held_by (ss @ (ts @ zs)) + M) ms1 w1 ms2 w2" using st(1) by simp
  note U = sys_update(2,3) [OF inv st']
  have "ms_view env w2 k = ms_view env w k \<and> (\<forall>v. find_pte (ms_page_table k) w2 v = find_pte (ms_page_table k) w v)"
    if k: "k \<in> set ss \<union> set ts" for k
    using U [of k] step.IH k by auto
  then show ?case using safe_update [OF s1 st] by blast
qed

text \<open>The last step of a process: its pages go back, and its page table stays until it is reaped.\<close>

lemma exit_isolation:
  fixes w w' :: "('d, 'z) world"
  assumes safe: "sys_safe lo M (ss @ ms # ts) zs w" and exit: "recycle_data_pages env ms w = Some (ms', w')"
  shows "sys_safe lo M (ss @ ts) (zs @ [ms']) w' \<and> (\<forall>k \<in> set ss \<union> set ts. ms_view env w' k = ms_view env w k \<and>
    (\<forall>v. find_pte (ms_page_table k) w' v = find_pte (ms_page_table k) w v))"
proof -
  have st: "space_step lo env (held_by (ss @ ts @ zs) + M) ms w ms' w'"
    using recycle_data_pages_ok [OF safe_focus(1) [OF safe], of env] exit by auto
  have inv: "sys_inv lo M (ss @ ms # (ts @ zs)) w" using safe by (simp add: sys_safe_def)
  have st': "space_step lo env (held_by (ss @ (ts @ zs)) + M) ms w ms' w'" using st by simp
  show ?thesis using safe_exit [OF safe st] sys_update(2,3) [OF inv st'] by auto
qed

section \<open>Runs of the system\<close>

text \<open>
  A state is the list of the address spaces in use, the list of those whose process has exited,
  and the world they live in.
\<close>

inductive sys_step ::
  "'d kenv \<Rightarrow> ('f, ('d, 'z) world) file_ops \<Rightarrow> ('d, 'z) woom \<Rightarrow> kernel_layout \<Rightarrow>
   'f memory_set list \<times> 'f memory_set list \<times> ('d, 'z) world \<Rightarrow>
   'f memory_set list \<times> 'f memory_set list \<times> ('d, 'z) world \<Rightarrow> bool"
  for env fops oom ly where
  spawn: "ms_new_bare oom w = Some (ms1, w1) \<Longrightarrow> map_trampoline oom ly ms1 w1 = Some (ms2, w2) \<Longrightarrow>
    map_signaltrampoline oom ly ms2 w2 = Some (ms3, w3) \<Longrightarrow> layout_aligned ly \<Longrightarrow> 5 \<le> km_free w \<Longrightarrow>
    fa_end (kfa w) \<le> push_bit 44 1 \<Longrightarrow> sys_step env fops oom ly (alive, zombies, w) (ms3 # alive, zombies, w3)"
| run: "proc_step env fops oom (ms, w) (ms', w') \<Longrightarrow>
    sys_step env fops oom ly (ss @ ms # ts, zombies, w) (ss @ ms' # ts, zombies, w')"
| fork: "from_existing_user env oom ly parent w = Some (child, w') \<Longrightarrow> ms_areas parent = shared @ [trap] \<Longrightarrow>
    lm_frames (ma_inner trap) = [InMemory q] \<Longrightarrow> layout_aligned ly \<Longrightarrow>
    areas_keys (ms_areas parent) \<inter> trampoline_keys = {} \<Longrightarrow> 8 + 2 * size (space_frames shared) \<le> km_free w \<Longrightarrow>
    sys_step env fops oom ly (ss @ parent # ts, zombies, w) (child # ss @ parent # ts, zombies, w')"
| exit: "recycle_data_pages env ms w = Some (ms', w') \<Longrightarrow>
    sys_step env fops oom ly (ss @ ms # ts, zombies, w) (ss @ ts, zombies @ [ms'], w')"

lemma spawn_areas:
  assumes "ms_new_bare oom w = Some (ms1, w1)" "map_trampoline oom ly ms1 w1 = Some (ms2, w2)"
    "map_signaltrampoline oom ly ms2 w2 = Some (ms3, w3)"
  shows "ms_areas ms3 = []"
  using assms
  by (auto simp: ms_new_bare_def map_trampoline_def map_signaltrampoline_def map_page_at_def bind_eq_Some_conv)

lemma fork_safe:
  fixes w :: "('d, 'z) world" and parent :: "'f memory_set"
  assumes safe: "sys_safe lo M (ss @ parent # ts) zs w" and areas: "ms_areas parent = shared @ [trap]"
    and trap: "lm_frames (ma_inner trap) = [InMemory q]" and ly: "layout_aligned ly"
    and keys: "areas_keys (ms_areas parent) \<inter> trampoline_keys = {}"
    and free: "8 + 2 * size (space_frames shared) \<le> km_free w"
  shows "\<exists>child w'. from_existing_user env oom ly parent w = Some (child, w') \<and>
    sys_safe lo M (child # ss @ parent # ts) zs w' \<and>
    (\<forall>k \<in> set (ss @ parent # ts). ms_view env w' k = ms_view env w k) \<and>
    forked env shared trap q parent w child w' \<and>
    (\<exists>ma'. ms_areas child = shared @ [ma']) \<and> km_free w \<le> km_free w' + 8 + 2 * size (space_frames shared)"
proof -
  have "sys_inv lo M (ss @ parent # (ts @ zs)) w" using safe by (simp add: sys_safe_def)
  from fork_ok [OF this areas trap ly keys free, of env oom] safe show ?thesis by auto
qed

lemma sys_step_ok:
  fixes w w' :: "('d, 'z) world" and alive alive' :: "'f memory_set list"
  assumes env: "env_ok env" and step: "sys_step env fops oom ly (alive, zombies, w) (alive', zombies', w')"
    and safe: "sys_safe lo M alive zombies w"
  shows "sys_safe lo M alive' zombies' w'"
  using step
proof cases
  case (spawn ms1 w1 ms2 w2 ms3)
  have "world_inv lo w" using safe by (simp add: sys_safe_def sys_inv_def)
  from new_user_table [OF this spawn(8,7,6), where oom = oom and env = env and 'f = 'f] spawn(3-5)
  show ?thesis using safe_add [OF safe _ spawn_areas [OF spawn(3-5)]] spawn(1,2) by auto
next
  case (run ms ms' ss ts)
  have "(proc_step env fops oom)\<^sup>*\<^sup>* (ms, w) (ms', w')" by (rule r_into_rtranclp) (rule run(4))
  from isolation [OF env this] safe run(1-3) show ?thesis by blast
next
  case (fork parent child shared trap q ss ts)
  from fork_safe [OF safe [unfolded fork(1)] fork(5-9), of env oom] fork(2,3,4) show ?thesis by auto
next
  case (exit ms ms' ss ts)
  with exit_isolation safe show ?thesis by blast
qed

lemma reachable_inv:
  fixes w w' :: "('d, 'z) world"
  assumes "env_ok env" and "(sys_step env fops oom ly)\<^sup>*\<^sup>* s s'"
  shows "(case s of (alive, zombies, w) \<Rightarrow> sys_safe lo M alive zombies w) \<Longrightarrow>
    (case s' of (alive, zombies, w) \<Rightarrow> sys_safe lo M alive zombies w)"
  using assms(2)
  by (induction rule: rtranclp_induct) (use sys_step_ok [OF assms(1)] in \<open>fastforce split: prod.splits\<close>)+

text \<open>What \<open>sys_safe\<close> says of an entry that the hardware can find.\<close>

lemma safe_entry:
  fixes w :: "('d, 'z) world"
  assumes safe: "sys_safe lo M alive zombies w" and ms: "ms \<in> set alive"
    and e: "find_pte (ms_page_table ms) w u = Some e"
  shows "vpn_key u \<in> trampoline_keys \<and> \<not> pte_writable e \<or>
    InMemory (pte_ppn e) \<in># space_frames (ms_areas ms) \<and> pte_ppn e \<in> km_allocated lo w \<and>
    (\<forall>k \<in> set (alive @ zombies). pte_ppn e \<notin> set (pt_frames (ms_page_table k))) \<and>
    (pte_writable e \<longrightarrow> count (all_frames (alive @ zombies) + M) (InMemory (pte_ppn e)) = 1)"
proof -
  let ?T = "all_frames (alive @ zombies) + M" and ?f = "InMemory (pte_ppn e)"
  have inv: "sys_inv lo M (alive @ zombies) w" and "ms_tight ?T ms w" using safe ms by (simp_all add: sys_safe_def)
  then have t: "vpn_key u \<in> areas_keys (ms_areas ms) \<or> vpn_key u \<in> trampoline_keys \<and> \<not> pte_writable e"
    "pte_writable e \<longrightarrow> count ?T ?f \<le> 1"
    using e unfolding ms_tight_def by blast+
  note S = sys_invD [OF inv]
  have "?f \<in># space_frames (ms_areas ms) \<and> pte_ppn e \<in> km_allocated lo w \<and>
      (\<forall>k \<in> set (alive @ zombies). pte_ppn e \<notin> set (pt_frames (ms_page_table k))) \<and> (pte_writable e \<longrightarrow> count ?T ?f = 1)"
    if k: "vpn_key u \<in> areas_keys (ms_areas ms)"
  proof (intro conjI)
    have ok: "space_ok lo ?T w ms" by (rule S(3)) (simp add: ms)
    show f: "?f \<in># space_frames (ms_areas ms)"
      by (rule leaf_frame [OF _ e k]) (use ok in \<open>simp add: space_ok_def\<close>)
    have "space_frames (ms_areas ms) \<subseteq># all_frames (alive @ zombies)" by (rule space_frames_sub) (simp add: ms)
    then have T: "?f \<in># ?T" using f by (auto dest: mset_subset_eqD)
    have "0 < arcs w (pte_ppn e)" using frames_refD [OF S(2) T] by simp
    then show "pte_ppn e \<in> km_allocated lo w" using world_invD(2) [OF S(1)] by blast
    show "\<forall>k \<in> set (alive @ zombies). pte_ppn e \<notin> set (pt_frames (ms_page_table k))"
      using S(3) T by (fastforce simp: space_ok_def table_frames_def)
    have "0 < count ?T ?f" using T by (simp only: count_greater_zero_iff)
    then show "pte_writable e \<longrightarrow> count ?T ?f = 1" using t(2) by linarith
  qed
  then show ?thesis using t(1) by blast
qed

end
