(* ===== verification/Mm_Boot.thy ===== *)
theory Mm_Boot
  imports Mm_Isolation
begin

text \<open>
  The state the kernel starts from: the frame allocator initialised between the end of the
  kernel and the end of memory (\<open>init_frame_allocator\<close>), an empty zram store and a swap area,
  no address space. A small process built on it by the kernel's own operations serves as the
  concrete input of the witnesses of the memory properties.
\<close>

section \<open>Definitions\<close>

definition boot_world :: "PhysAddr \<Rightarrow> PhysAddr \<Rightarrow> (PhysPageNum \<Rightarrow> page) \<Rightarrow> nat \<Rightarrow> swap \<Rightarrow> 'd \<Rightarrow> 'd kworld" where
  "boot_world ekernel memory_end mem zram_capacity swap disk =
     init_frame_allocator ekernel memory_end
       \<lparr>kfa = fa_new, pmem = mem, arcs = (\<lambda>_. 0), kzram = zram_new zram_capacity, zarcs = (\<lambda>_. 0),
        kswap = swap, sarcs = (\<lambda>_. 0), kdisk = disk\<rparr>"

subsection \<open>A sample environment and process\<close>

definition sample_env :: "(nat \<Rightarrow> u8 list) kenv" where
  "sample_env = \<lparr>env_codec = \<lparr>compress_prepend_size = (\<lambda>bs. bs), decompress_size_prepended = Some\<rparr>,
     env_dev = sample_blk, env_debug = False\<rparr>"

definition sample_layout :: kernel_layout where
  "sample_layout = \<lparr>ly_stext = 0x80200000, ly_etext = 0x80300000, ly_srodata = 0x80300000, ly_erodata = 0x80380000,
     ly_sdata = 0x80380000, ly_edata = 0x80390000, ly_sbss_with_stack = 0x80390000, ly_ebss = 0x80400000,
     ly_ekernel = 0x80400000, ly_strampoline = 0x80200000, ly_ssignaltrampoline = 0x80201000\<rparr>"

definition sample_boot :: "(nat \<Rightarrow> u8 list) kworld" where
  "sample_boot = boot_world 0x80400000 MEMORY_END (\<lambda>_ _. 0) 2048 (swap_new (\<lambda>_. []) 16) (\<lambda>_. [])"

definition sample_oom :: "(nat \<Rightarrow> u8 list, unit) woom" where
  "sample_oom req w = None"

definition sample_process :: "(unit memory_set \<times> (nat \<Rightarrow> u8 list) kworld) option" where
  "sample_process =
     do { (ms, w) \<leftarrow> ms_new_bare sample_oom sample_boot;
          (ms, w) \<leftarrow> map_trampoline sample_oom sample_layout ms w;
          (ms, w) \<leftarrow> map_signaltrampoline sample_oom sample_layout ms w;
          (ms, w) \<leftarrow> insert_framed_area sample_env sample_oom 0x10000 0x12000 (perm_R OR perm_W OR perm_U) ms w;
          (ms, w) \<leftarrow> insert_framed_area sample_env sample_oom 0x20000 0x21000 (perm_R OR perm_W OR perm_U) ms w;
          insert_framed_area sample_env sample_oom TRAP_CONTEXT_BASE SIGNAL_TRAMPOLINE (perm_R OR perm_W) ms w }"

definition sample_ms :: "unit memory_set" where "sample_ms = fst (the sample_process)"
definition sample_w :: "(nat \<Rightarrow> u8 list) kworld" where "sample_w = snd (the sample_process)"

section \<open>The boot state\<close>

lemma boot_inv:
  assumes "pa_ceil ekernel \<le> pa_floor memory_end" "zram_capacity < 2 ^ 16" "swap_inv swap" "swap_live swap = {}"
  shows "sys_inv (pa_ceil ekernel) {#} [] (boot_world ekernel memory_end mem zram_capacity swap disk)"
  using assms zram_new_inv [of zram_capacity]
  by (auto simp: sys_inv_def world_inv_def boot_world_def init_frame_allocator_def fa_init_def fa_new_def km_inv_def fa_inv_def
      disjoint_tables_def frames_ref_def frame_count_def split: frame.splits)

lemma sample_env_ok: "env_ok sample_env"
  by (auto simp: env_ok_def sample_env_def lz4_ok_def blk_ok_def sample_blk_def blk_consts)

section \<open>A process on top of it\<close>

text \<open>
  A system of one space, in which only the pages with a key in \<open>U\<close> are mapped or belong to an
  area, and with \<open>n\<close> free frames.
\<close>

definition built :: "usize \<Rightarrow> usize set \<Rightarrow> nat \<Rightarrow> 'f memory_set \<Rightarrow> ('d, 'z) world \<Rightarrow> bool" where
  "built lo U n ms w \<longleftrightarrow>
     sys_safe lo {#} [ms] [] w \<and> (\<forall>u. vpn_key u \<notin> U \<longrightarrow> find_pte (ms_page_table ms) w u = None) \<and>
     areas_keys (ms_areas ms) \<subseteq> U \<and> n \<le> km_free w"

definition filled :: "VirtPageNum \<Rightarrow> VirtPageNum \<Rightarrow> MapPermission \<Rightarrow> 'f map_area \<Rightarrow> bool" where
  "filled s e perm ma \<longleftrightarrow>
     lm_range (ma_inner ma) = \<lparr>range_l = s, range_r = e\<rparr> \<and> lm_wf (ma_inner ma) \<and> ma_map_perm ma = perm \<and>
     ma_map_file ma = None \<and> \<not> ma_writable_stripped ma \<and> (\<forall>fr \<in> set (lm_frames (ma_inner ma)). resident fr \<noteq> None)"

lemma sole_focus: "sys_inv lo {#} [ms] w \<Longrightarrow> ms_inv lo {#} ms w"
  using sys_focus [of lo "{#}" "[]" ms "[]" w] by (simp add: held_by_def all_tables_def)

lemma built_focus: "built lo U n ms w \<Longrightarrow> ms_inv lo {#} ms w"
  by (simp add: built_def sole_focus sys_safe_def)

lemma built_insert:
  fixes w :: "('d, 'z) world" and ms :: "'f memory_set"
  assumes b: "built lo U n ms w" and se: "va_floor start_va \<le> va_ceil end_va"
    and dis: "vpn_key ` set (range_list \<lparr>range_l = va_floor start_va, range_r = va_ceil end_va\<rparr>) \<inter> U = {}"
    and k: "unat (va_ceil end_va) - unat (va_floor start_va) = k" "k \<le> 2 ^ 27" "3 * k \<le> n"
  shows "\<exists>ms' w' ma'. insert_framed_area env oom start_va end_va perm ms w = Some (ms', w') \<and>
    built lo (U \<union> vpn_key ` set (range_list \<lparr>range_l = va_floor start_va, range_r = va_ceil end_va\<rparr>)) (n - 3 * k) ms' w' \<and>
    ms_areas ms' = ms_areas ms @ [ma'] \<and> filled (va_floor start_va) (va_ceil end_va) perm ma'"
proof -
  let ?K = "vpn_key ` set (range_list \<lparr>range_l = va_floor start_va, range_r = va_ceil end_va\<rparr>)"
  note B = b [unfolded built_def]
  obtain ma where ma: "ma_new start_va end_va Framed perm (None :: 'f option) = Some ma"
    using se by (simp add: ma_new_def range_new_def)
  have set: "set (range_list \<lparr>range_l = va_floor start_va, range_r = va_ceil end_va\<rparr>) =
      {v. va_floor start_va \<le> v \<and> v < va_ceil end_va}" using se by (simp add: set_range_list)
  have un: "find_pte (ms_page_table ms) w v = None" if "va_floor start_va \<le> v" "v < va_ceil end_va" for v
    using B dis that unfolding set by (metis (mono_tags, lifting) disjoint_iff image_eqI mem_Collect_eq)
  have k': "unat (va_ceil end_va) - unat (va_floor start_va) \<le> 2 ^ 27" using k by simp
  note blank = ma_new_blank [OF ma k' un]
  have rma: "lm_range (ma_inner ma) = \<lparr>range_l = va_floor start_va, range_r = va_ceil end_va\<rparr>"
    and m: "ma_map_perm ma = perm" "ma_map_file ma = None" "\<not> ma_writable_stripped ma"
    using ma by (auto simp: ma_new_def range_new_def lm_new_def split: if_splits)
  have keys: "area_keys ma = ?K" unfolding area_keys_def set using blank(3) by auto
  have dis': "area_keys ma \<inter> areas_keys (ms_areas ms) = {}" using dis B unfolding keys by blast
  have free: "3 * length (lm_frames (ma_inner ma)) \<le> km_free w" using B k by (simp add: blank(2))
  from insert_framed_area_ok [OF built_focus [OF b] ma blank(1) dis' free, of env oom] obtain ms' w' where i:
    "insert_framed_area env oom start_va end_va perm ms w = Some (ms', w')" "insert_effect lo env {#} ma ms w ms' w'"
    "km_free w \<le> km_free w' + 3 * k" using blank(2) k(1) by auto
  note I = i(2) [unfolded insert_effect_def]
  from I obtain ma' where ma': "ms_areas ms' = ms_areas ms @ [ma']" "lm_range (ma_inner ma') = lm_range (ma_inner ma)"
    "ma_map_perm ma' = perm" "ma_map_file ma' = None" "\<not> ma_writable_stripped ma'"
    "\<forall>v. lm_in_range (ma_inner ma) v \<longrightarrow> resident (lm_frames (ma_inner ma') ! lm_index v (ma_inner ma)) \<noteq> None"
    using m by auto
  have sys: "sys_safe lo {#} [ms'] [] w'"
    using safe_update [of lo "{#}" "[]" ms "[]" "[]" w env ms' w'] B I by (simp add: held_by_def all_tables_def)
  then have "sys_inv lo {#} [ms'] w'" by (simp add: sys_safe_def)
  then have wf: "lm_wf (ma_inner ma')"
    using sole_focus [of lo ms' w'] ma'(1) by (simp add: ms_inv_def space_inv_def area_ok_def)
  have "resident fr \<noteq> None" if "fr \<in> set (lm_frames (ma_inner ma'))" for fr
  proof -
    from that obtain j where j: "j < length (lm_frames (ma_inner ma'))" "fr = lm_frames (ma_inner ma') ! j" by (metis in_set_conv_nth)
    from lm_vpn_in_range [OF wf j(1)] ma'(6) j(2) lm_range_cong [OF ma'(2)] show ?thesis by metis
  qed
  then have "filled (va_floor start_va) (va_ceil end_va) perm ma'" using ma' wf rma by (simp add: filled_def)
  moreover have "built lo (U \<union> ?K) (n - 3 * k) ms' w'"
    using sys B I i(3) ma'(1) area_keys_cong [OF ma'(2)] keys unfolding built_def areas_keys_def by auto
  ultimately show ?thesis using i(1) ma'(1) by blast
qed

lemma sample_consts:
  "pa_ceil 0x80400000 = 0x80400" "pa_floor MEMORY_END = 0xb0000"
  "va_floor 0x10000 = 0x10" "va_ceil 0x12000 = 0x12" "va_floor 0x20000 = 0x20" "va_ceil 0x21000 = 0x21"
  "va_floor TRAP_CONTEXT_BASE = 0xffffffffffffd" "va_ceil SIGNAL_TRAMPOLINE = 0xffffffffffffe"
  "va_floor TRAMPOLINE = 0xfffffffffffff" "va_floor SIGNAL_TRAMPOLINE = 0xffffffffffffe"
  unfolding MEMORY_END_def MEMORY_START_def MEMORY_SIZE_def TRAP_CONTEXT_BASE_def SIGNAL_TRAMPOLINE_def TRAMPOLINE_def
    PAGE_SIZE_def by code_simp+

lemma sample_ranges:
  "set (range_list \<lparr>range_l = 0x10, range_r = 0x12\<rparr>) = {0x10, 0x11}"
  "set (range_list \<lparr>range_l = 0x20, range_r = 0x21\<rparr>) = {0x20}"
  "set (range_list \<lparr>range_l = 0xffffffffffffd, range_r = 0xffffffffffffe\<rparr>) = {0xffffffffffffd}"
  by code_simp+

lemma sample_keys: "trampoline_keys = {0x7ffffff, 0x7fffffe}"
  unfolding trampoline_keys_def sample_consts vpn_key_def by code_simp

lemma sample_boot_ok:
  "sys_inv 0x80400 {#} ([] :: unit memory_set list) sample_boot" "km_free sample_boot = 195584" "fa_end (kfa sample_boot) \<le> push_bit 44 1"
  "layout_aligned sample_layout" "sys_safe 0x80400 {#} ([] :: unit memory_set list) [] sample_boot"
proof -
  show inv: "sys_inv 0x80400 {#} ([] :: unit memory_set list) sample_boot"
    unfolding sample_boot_def sample_consts(1) [symmetric]
    by (rule boot_inv) (use swap_new_inv [of "\<lambda>_. []" 16] in \<open>simp_all add: sample_consts\<close>)
  then show "sys_safe 0x80400 {#} ([] :: unit memory_set list) [] sample_boot" by (simp add: sys_safe_def)
  show "km_free sample_boot = 195584" "fa_end (kfa sample_boot) \<le> push_bit 44 1"
    by (simp_all add: sample_boot_def boot_world_def init_frame_allocator_def fa_init_def fa_new_def km_free_def fa_free_def sample_consts)
  show "layout_aligned sample_layout"
    unfolding layout_aligned_def sample_layout_def unfolding PAGE_SIZE_def pa_page_offset_def by code_simp
qed

lemma sample_process_ok:
  "\<exists>prog stack trap ms w. sample_process = Some (ms, w) \<and> ms_areas ms = [prog, stack, trap] \<and>
     built 0x80400 {0x7ffffff, 0x7fffffe, 0x10, 0x11, 0x20, 0x7fffffd} 190000 ms w \<and>
     filled 0x10 0x12 (perm_R OR perm_W OR perm_U) prog \<and> filled 0x20 0x21 (perm_R OR perm_W OR perm_U) stack \<and>
     filled 0xffffffffffffd 0xffffffffffffe (perm_R OR perm_W) trap"
proof -
  note S = sample_boot_ok
  have "world_inv 0x80400 sample_boot" "5 \<le> km_free sample_boot" using S(1,2) by (simp_all add: sys_inv_def)
  from new_user_table [OF this(1) S(3) this(2) S(4), where oom = sample_oom and env = sample_env and 'f = unit]
  obtain ms1 w1 ms2 w2 ms3 w3 where n: "ms_new_bare sample_oom sample_boot = Some (ms1 :: unit memory_set, w1)"
    "map_trampoline sample_oom sample_layout ms1 w1 = Some (ms2, w2)"
    "map_signaltrampoline sample_oom sample_layout ms2 w2 = Some (ms3, w3)"
    "table_grown 0x80400 sample_env {} sample_boot (ms_page_table ms3) w3"
    "\<forall>u. vpn_key u \<notin> trampoline_keys \<longrightarrow> find_pte (ms_page_table ms3) w3 u = None" "km_free sample_boot \<le> km_free w3 + 5"
    "\<forall>u e. find_pte (ms_page_table ms3) w3 u = Some e \<longrightarrow> \<not> pte_writable e" by blast
  have a3: "ms_areas ms3 = []" by (rule spawn_areas [OF n(1-3)])
  have "built 0x80400 trampoline_keys 195579 ms3 w3"
    using safe_add [OF S(5) n(4) a3 n(5,7)] n(5,6) S(2) a3 by (simp add: built_def)
  from built_insert [OF this, of "0x10000" "0x12000" 2 sample_env sample_oom "perm_R OR perm_W OR perm_U"] a3
  obtain ms4 w4 prog where i4: "insert_framed_area sample_env sample_oom 0x10000 0x12000 (perm_R OR perm_W OR perm_U) ms3 w3 = Some (ms4, w4)"
    "built 0x80400 {0x7ffffff, 0x7fffffe, 0x10, 0x11} 195573 ms4 w4" "ms_areas ms4 = [prog]"
    "filled 0x10 0x12 (perm_R OR perm_W OR perm_U) prog"
    by (auto simp: sample_consts sample_ranges sample_keys vpn_key_def insert_commute)
  from built_insert [OF i4(2), of "0x20000" "0x21000" 1 sample_env sample_oom "perm_R OR perm_W OR perm_U"] i4(3)
  obtain ms5 w5 stack where i5: "insert_framed_area sample_env sample_oom 0x20000 0x21000 (perm_R OR perm_W OR perm_U) ms4 w4 = Some (ms5, w5)"
    "built 0x80400 {0x7ffffff, 0x7fffffe, 0x10, 0x11, 0x20} 195570 ms5 w5" "ms_areas ms5 = [prog, stack]"
    "filled 0x20 0x21 (perm_R OR perm_W OR perm_U) stack"
    by (auto simp: sample_consts sample_ranges vpn_key_def insert_commute)
  from built_insert [OF i5(2), of TRAP_CONTEXT_BASE SIGNAL_TRAMPOLINE 1 sample_env sample_oom "perm_R OR perm_W"] i5(3)
  obtain ms6 w6 trap where i6: "insert_framed_area sample_env sample_oom TRAP_CONTEXT_BASE SIGNAL_TRAMPOLINE (perm_R OR perm_W) ms5 w5 = Some (ms6, w6)"
    "built 0x80400 {0x7ffffff, 0x7fffffe, 0x10, 0x11, 0x20, 0x7fffffd} 195567 ms6 w6" "ms_areas ms6 = [prog, stack, trap]"
    "filled 0xffffffffffffd 0xffffffffffffe (perm_R OR perm_W) trap"
    by (auto simp: sample_consts sample_ranges vpn_key_def insert_commute)
  have "sample_process = Some (ms6, w6)" by (simp add: sample_process_def n(1-3) i4(1) i5(1) i6(1))
  moreover have "built 0x80400 {0x7ffffff, 0x7fffffe, 0x10, 0x11, 0x20, 0x7fffffd} 190000 ms6 w6"
    using i6(2) by (simp add: built_def)
  ultimately show ?thesis using i6(3,4) i5(4) i4(4) by blast
qed

end
