(* ===== verification/Mm_Sample.thy ===== *)
theory Mm_Sample
  imports Mm_Boot Mm_User_Copy
begin

text \<open>
  Facts about the process that \<open>Mm_Boot\<close> builds on a booted machine, for the concrete instances of
  the properties: its areas, the invariant, a fork of it, and a range of its memory.
\<close>

section \<open>The sample process\<close>

lemma sample_obtain:
  obtains prog stack trap where "ms_areas sample_ms = [prog, stack, trap]"
    "built 0x80400 {0x7ffffff, 0x7fffffe, 0x10, 0x11, 0x20, 0x7fffffd} 190000 sample_ms sample_w"
    "filled 0x10 0x12 (perm_R OR perm_W OR perm_U) prog" "filled 0x20 0x21 (perm_R OR perm_W OR perm_U) stack"
    "filled 0xffffffffffffd 0xffffffffffffe (perm_R OR perm_W) trap"
proof -
  obtain prog stack trap ms w where s: "sample_process = Some (ms, w)" "ms_areas ms = [prog, stack, trap]"
    "built 0x80400 {0x7ffffff, 0x7fffffe, 0x10, 0x11, 0x20, 0x7fffffd} 190000 ms w"
    "filled 0x10 0x12 (perm_R OR perm_W OR perm_U) prog" "filled 0x20 0x21 (perm_R OR perm_W OR perm_U) stack"
    "filled 0xffffffffffffd 0xffffffffffffe (perm_R OR perm_W) trap" using sample_process_ok by blast
  have "sample_ms = ms" "sample_w = w" by (simp_all add: sample_ms_def sample_w_def s(1))
  then show ?thesis using that s(2-6) by blast
qed

lemma filled_keys:
  assumes "filled s e perm ma"
  shows "area_keys ma = vpn_key ` set (range_list \<lparr>range_l = s, range_r = e\<rparr>)"
    "lm_in_range (ma_inner ma) v \<longleftrightarrow> s \<le> v \<and> v < e" "length (lm_frames (ma_inner ma)) = unat e - unat s"
  using assms set_lm_range [of "ma_inner ma"]
  by (auto simp: filled_def area_keys_def lm_in_range_def lm_get_start_def lm_get_end_def lm_wf_def)

lemma sample_sys: "sys_inv 0x80400 {#} [sample_ms] sample_w" "190000 \<le> km_free sample_w" "ms_inv 0x80400 {#} sample_ms sample_w"
  "sys_safe 0x80400 {#} [sample_ms] [] sample_w"
proof -
  have b: "built 0x80400 {0x7ffffff, 0x7fffffe, 0x10, 0x11, 0x20, 0x7fffffd} 190000 sample_ms sample_w" by (rule sample_obtain)
  then show "ms_inv 0x80400 {#} sample_ms sample_w" by (rule built_focus)
  from b show "sys_inv 0x80400 {#} [sample_ms] sample_w" "190000 \<le> km_free sample_w" "sys_safe 0x80400 {#} [sample_ms] [] sample_w"
    by (simp_all add: built_def sys_safe_def)
qed

lemma sample_fork:
  obtains shared trap q where "ms_areas sample_ms = shared @ [trap]" "lm_frames (ma_inner trap) = [InMemory q]"
    "areas_keys (ms_areas sample_ms) \<inter> trampoline_keys = {}" "8 + 2 * size (space_frames shared) \<le> km_free sample_w"
    "size (space_frames shared) = 3"
proof -
  obtain prog stack trap where s: "ms_areas sample_ms = [prog, stack, trap]"
    "filled 0x10 0x12 (perm_R OR perm_W OR perm_U) prog" "filled 0x20 0x21 (perm_R OR perm_W OR perm_U) stack"
    "filled 0xffffffffffffd 0xffffffffffffe (perm_R OR perm_W) trap" by (rule sample_obtain)
  note F = filled_keys [OF s(2)] filled_keys [OF s(3)] filled_keys [OF s(4)]
  have "length (lm_frames (ma_inner trap)) = 1" using F(9) by simp
  then obtain fr where fr: "lm_frames (ma_inner trap) = [fr]" by (auto simp: length_Suc_conv)
  then have "resident fr \<noteq> None" using s(4) by (simp add: filled_def)
  then obtain q where "fr = InMemory q" by (auto simp: resident_def split: frame.splits)
  moreover have "size (space_frames [prog, stack]) = 3" using F(3,6) by (simp add: area_frames_def)
  moreover have "areas_keys (ms_areas sample_ms) \<inter> trampoline_keys = {}"
    by (simp add: s(1) areas_keys_def F sample_ranges sample_keys vpn_key_def)
  ultimately show ?thesis using that [of "[prog, stack]" trap q] s(1) fr sample_sys(2) by simp
qed

lemma sample_find:
  "find_idx (faulting_area (va_floor 0x10000)) (ms_areas sample_ms) = Some 0"
  "\<not> ma_writable_stripped (ms_areas sample_ms ! 0)" "sv39_is_mapped (ms_page_table sample_ms) sample_w (va_floor 0x10000)"
proof -
  obtain prog stack trap where s: "ms_areas sample_ms = [prog, stack, trap]"
    "filled 0x10 0x12 (perm_R OR perm_W OR perm_U) prog" by (rule sample_obtain)
  note F = filled_keys [OF s(2)]
  have "flags_contains (perm_R OR perm_W OR perm_U) (perm_R OR perm_U)" unfolding perm_R_def perm_W_def perm_U_def by code_simp
  then show "find_idx (faulting_area (va_floor 0x10000)) (ms_areas sample_ms) = Some 0"
    using s(2) by (simp add: s(1) find_idx_def faulting_area_def filled_def sample_consts ma_get_start_def ma_get_end_def
        lm_get_start_def lm_get_end_def)
  show "\<not> ma_writable_stripped (ms_areas sample_ms ! 0)" using s by (simp add: filled_def)
  have ok: "area_ok (ms_page_table sample_ms) sample_w prog"
    using sample_sys(3) s(1) by (simp add: ms_inv_def space_inv_def)
  have wf: "lm_wf (ma_inner prog)" using s(2) by (simp add: filled_def)
  have "lm_in_range (ma_inner prog) 0x10" by (simp add: F(2))
  note I = lm_index_in_range [OF wf this]
  have "resident (lm_frames (ma_inner prog) ! lm_index 0x10 (ma_inner prog)) \<noteq> None"
    using s(2) nth_mem [OF I(1)] by (simp add: filled_def)
  then have "sv39_translate (ms_page_table sample_ms) sample_w 0x10 \<noteq> None"
    using ok I(1,2) unfolding area_ok_def by metis
  then show "sv39_is_mapped (ms_page_table sample_ms) sample_w (va_floor 0x10000)"
    by (simp add: sv39_is_mapped_iff sv39_translate_def sample_consts)
qed

lemma sample_range:
  assumes "unat a div 4096 = 0x10" and "unat a mod 4096 + n \<le> 4096"
  obtains p where "user_mapped (ms_page_table sample_ms) sample_w a n" "in_areas sample_ms a n"
    "user_pos (ms_page_table sample_ms) sample_w a n = map (Pair p) [unat (va_page_offset a)..<unat (va_page_offset a) + n]"
proof -
  obtain prog stack trap where s: "ms_areas sample_ms = [prog, stack, trap]"
    "filled 0x10 0x12 (perm_R OR perm_W OR perm_U) prog" by (rule sample_obtain)
  have fl: "va_floor a = 0x10" using assms(1) by (simp add: word_unat_eq_iff unat_va_floor)
  obtain p where p: "sv39_translate (ms_page_table sample_ms) sample_w (va_floor a) = Some p"
    using sample_find(3) by (auto simp: sv39_is_mapped_iff sv39_translate_def fl sample_consts)
  have same: "va_floor (a + of_nat i) = 0x10" if "i < n" for i
    using va_add_in_page(1) [of a i] that assms(2) fl by (simp add: unat_va_page_offset)
  have "unat a = 0x10 * 4096 + unat a mod 4096" using div_mult_mod_eq [of "unat a" 4096] assms(1) by simp
  then have "unat a + n \<le> 2 ^ 64 - 4096" using assms(2) by simp
  then have "user_mapped (ms_page_table sample_ms) sample_w a n" using p by (simp add: user_mapped_def same fl)
  moreover have "in_areas sample_ms a n" by (auto simp: in_areas_def s(1) same filled_keys(2) [OF s(2)])
  moreover have "user_pos (ms_page_table sample_ms) sample_w a n = map (Pair p) [unat (va_page_offset a)..<unat (va_page_offset a) + n]"
    using user_pos_page [OF p] assms(2) by (simp add: unat_va_page_offset)
  ultimately show ?thesis using that by blast
qed

section \<open>A child of it\<close>

lemma pte_rwu:
  "pte_writable (pte_new p ((perm_R OR perm_W OR perm_U) OR PTE_V OR PTE_A OR PTE_D))"
  "pte_flags (pte_new p ((perm_R OR perm_W OR perm_U) OR PTE_V OR PTE_A OR PTE_D)) AND PTE_U \<noteq> 0"
  "pte_writable (pte_set_permission (perm_R OR perm_W OR perm_U) e)"
  "pte_flags (pte_set_permission (perm_R OR perm_W OR perm_U) e) AND PTE_U \<noteq> 0"
proof -
  show "pte_writable (pte_new p ((perm_R OR perm_W OR perm_U) OR PTE_V OR PTE_A OR PTE_D))"
    "pte_writable (pte_set_permission (perm_R OR perm_W OR perm_U) e)"
    by (simp_all add: bits_simps bit_or_iff pte_set_permission_def bit_ucast_iff)
  show "pte_flags (pte_new p ((perm_R OR perm_W OR perm_U) OR PTE_V OR PTE_A OR PTE_D)) AND PTE_U \<noteq> 0"
    "pte_flags (pte_set_permission (perm_R OR perm_W OR perm_U) e) AND PTE_U \<noteq> 0"
    unfolding bit_PTE(5) [THEN and_flag_nonzero]
    by (simp_all add: bits_simps bit_or_iff pte_set_permission_def bit_ucast_iff)
qed

text \<open>The child takes the copy-on-write fault on its first page and then stores a byte there.\<close>

lemma sample_child:
  obtains child w1 pa child2 w2 w3 where
    "from_existing_user sample_env sample_oom sample_layout sample_ms sample_w = Some (child, w1)"
    "sys_safe 0x80400 {#} ([] @ child # [sample_ms]) [] w1"
    "do_page_fault sample_env undefined sample_oom 0x10000 child w1 = Some (Inr pa, child2, w2)"
    "user_store 0x10000 7 child2 w2 = Some w3"
    "(proc_step sample_env undefined sample_oom)\<^sup>*\<^sup>* (child, w1) (child2, w3)"
proof -
  obtain shared trap q where s: "ms_areas sample_ms = shared @ [trap]" "lm_frames (ma_inner trap) = [InMemory q]"
    "areas_keys (ms_areas sample_ms) \<inter> trampoline_keys = {}" "8 + 2 * size (space_frames shared) \<le> km_free sample_w"
    "size (space_frames shared) = 3" by (rule sample_fork)
  obtain prog stack where ar: "shared = [prog, stack]" "filled 0x10 0x12 (perm_R OR perm_W OR perm_U) prog"
    using s(1) sample_obtain by (metis append_Cons append_Nil append1_eq_conv)
  have "sys_safe 0x80400 {#} ([] @ sample_ms # []) [] sample_w" using sample_sys(4) by simp
  from fork_safe [OF this s(1,2) sample_boot_ok(4) s(3,4), of sample_env sample_oom] obtain child w1 ma' where f:
    "from_existing_user sample_env sample_oom sample_layout sample_ms sample_w = Some (child, w1)"
    "sys_safe 0x80400 {#} ([] @ child # [sample_ms]) [] w1" "forked sample_env shared trap q sample_ms sample_w child w1"
    "ms_areas child = shared @ [ma']" "km_free sample_w \<le> km_free w1 + 8 + 2 * size (space_frames shared)" by auto
  note I = safe_focus(1) [OF f(2)]
  have free: "3 \<le> km_free w1" using f(5) s(5) sample_sys(2) by simp
  have rng: "lm_in_range (ma_inner prog) 0x10" by (simp add: filled_keys(2) [OF ar(2)])
  have idx: "find_idx (faulting_area (va_floor 0x10000)) (ms_areas child) = Some 0" "ms_areas child ! 0 = prog"
    using sample_find(1) s(1) f(4) by (simp_all add: ar(1) find_idx_def split: if_splits)
  have str: "\<not> ma_writable_stripped (ms_areas child ! 0)" using ar(2) by (simp add: idx(2) filled_def)
  have "sv39_translate (ms_page_table child) w1 0x10 = sv39_translate (ms_page_table sample_ms) sample_w 0x10"
    using f(3) rng by (simp add: forked_def ar(1))
  then have map: "sv39_is_mapped (ms_page_table child) w1 (va_floor 0x10000)"
    using sample_find(3) by (auto simp: sv39_is_mapped_iff sv39_translate_def sample_consts)
  from fault_write_ok [OF I idx(1) str map free, of sample_env undefined sample_oom] obtain p child2 w2 e where g:
    "do_page_fault sample_env undefined sample_oom 0x10000 child w1 = Some (Inr (ppn_offset p (va_page_offset 0x10000)), child2, w2)"
    "find_pte (ms_page_table child2) w2 (va_floor 0x10000) = Some (pte_set_permission (perm_R OR perm_W OR perm_U) e) \<or>
     find_pte (ms_page_table child2) w2 (va_floor 0x10000) = Some (pte_new p ((perm_R OR perm_W OR perm_U) OR PTE_V OR PTE_A OR PTE_D))"
    using ar(2) by (auto simp: idx(2) filled_def)
  obtain w3 where st: "user_store 0x10000 7 child2 w2 = Some w3"
    using g(2) pte_rwu by (auto simp: user_store_def)
  have 1: "proc_step sample_env undefined sample_oom (child, w1) (child2, w2)"
    by (rule proc_step.page_fault [OF g(1) free]) (simp add: map)
  have 2: "proc_step sample_env undefined sample_oom (child2, w2) (child2, w3)" by (rule proc_step.store [OF st])
  have "(proc_step sample_env undefined sample_oom)\<^sup>*\<^sup>* (child, w1) (child2, w3)"
    by (rule converse_rtranclp_into_rtranclp [where r = "proc_step sample_env undefined sample_oom", OF 1])
      (rule r_into_rtranclp [where r = "proc_step sample_env undefined sample_oom", OF 2])
  then show ?thesis using that f(1,2) g(1) st by blast
qed

end
