(* ===== verification/Mm_Properties.thy ===== *)
theory Mm_Properties
  imports Mm_Sample
begin

text \<open>
  The properties of the memory subsystem as a whole, each with a witness on the process of
  \<open>Mm_Boot\<close>: isolation of processes, the invariant of all reachable states, fork, page faults,
  \<open>mmap\<close>, \<open>munmap\<close>, reclaiming and exit.
\<close>

section \<open>Isolation and reachable states\<close>





section \<open>Fork\<close>

text \<open>
  C4: Fork succeeds when there is memory for the child's tables. Every process keeps what it
  sees; the child sees, on every page of the shared areas, what the parent sees, through the
  same physical pages, which neither of them can write any more; the trap context of the child
  is a copy in a page of its own. The whole system satisfies the invariant again.
\<close>

theorem fork_shares_pages:
  fixes w :: "('d, 'z) world" and parent :: "'f memory_set"
  assumes "sys_inv lo M (ss @ parent # ts) w" and "ms_areas parent = shared @ [trap]"
    and "lm_frames (ma_inner trap) = [InMemory q]" and "layout_aligned ly"
    and "areas_keys (ms_areas parent) \<inter> trampoline_keys = {}" and "8 + 2 * size (space_frames shared) \<le> km_free w"
  shows "\<exists>child w'. from_existing_user env oom ly parent w = Some (child, w') \<and>
    sys_inv lo M (child # ss @ parent # ts) w' \<and>
    (\<forall>k \<in> set (ss @ parent # ts). ms_view env w' k = ms_view env w k) \<and>
    forked env shared trap q parent w child w'"
  using fork_ok [OF assms, of env oom] by blast

theorem fork_shares_pages_witness:
  "\<exists>child w. from_existing_user sample_env sample_oom sample_layout sample_ms sample_w = Some (child, w) \<and>
     sys_inv 0x80400 {#} [child, sample_ms] w \<and> ms_view sample_env w sample_ms = ms_view sample_env sample_w sample_ms"
proof -
  obtain shared trap q where "ms_areas sample_ms = shared @ [trap]" "lm_frames (ma_inner trap) = [InMemory q]"
    "areas_keys (ms_areas sample_ms) \<inter> trampoline_keys = {}" "8 + 2 * size (space_frames shared) \<le> km_free sample_w"
    by (rule sample_fork)
  from fork_shares_pages [where ss = "[]" and ts = "[]", OF _ this(1,2) sample_boot_ok(4) this(3,4), of "0x80400" "{#}" sample_env sample_oom]
  show ?thesis using sample_sys(1) by auto
qed



section \<open>Mapping and unmapping\<close>

text \<open>
  C6: An anonymous \<open>mmap\<close> that gets the address \<open>va\<close> in a space where the range is free returns
  \<open>va\<close>; the process then sees zero bytes on the new pages and what it saw before everywhere
  else. No frame is allocated.
\<close>

theorem mmap_anonymous_zero_pages:
  fixes w :: "('d, 'z) world" and ms :: "'f memory_set"
  assumes "ms_inv lo M ms w" and "start AND 0xfff = 0"
    and "mmap_place env ub start (if len = 0 then PAGE_SIZE else len) prot flags ms w = Some (Placed va, ms, w)"
    and "mflags_contains flags MAP_ANONYMOUS"
    and "ma_new va (va + (if len = 0 then PAGE_SIZE else len)) Framed prot (None :: 'f option) = Some ma"
    and "va_page_offset va = 0"
    and "blank_area (ms_page_table ms) w ma" and "\<And>a. a \<in> set (ms_areas ms) \<Longrightarrow> area_keys a \<inter> area_keys ma = {}"
  shows "\<exists>ms'. mmap env fops ub (Some files) start len prot flags fd offset ms w = Some (va, ms', w) \<and>
    space_step lo env M ms w ms' w \<and>
    ms_view env w ms' = (\<lambda>v. if lm_in_range (ma_inner ma) v then Some (replicate 4096 0) else ms_view env w ms v)"
  using mmap_anonymous_ok [OF assms] by blast

definition sample_flags :: MapFlags where "sample_flags = MAP_PRIVATE OR MAP_ANONYMOUS"

lemma mmap_consts:
  "vpn_from_va MMAP_END = Some 0x80000" "vpn_from_va MMAP_BASE = Some 0x60000" "va_floor MMAP_END = 0x80000"
  "va_floor MMAP_BASE = 0x60000" "va_ceil (MMAP_BASE + 0x2000) = 0x60002" "va_page_offset MMAP_BASE = 0"
  "mflags_contains sample_flags MAP_ANONYMOUS" "\<not> mflags_contains sample_flags MAP_FIXED"
  "set (range_list \<lparr>range_l = 0x60000, range_r = 0x60002\<rparr>) = {0x60000, 0x60001}"
  unfolding MMAP_END_def MMAP_BASE_def vpn_from_va_def sample_flags_def MAP_PRIVATE_def MAP_ANONYMOUS_def MAP_FIXED_def
    mflags_contains_def by code_simp+

lemma sample_mmap:
  obtains ma where "mmap_place env ub 0 (if (0x2000 :: usize) = 0 then PAGE_SIZE else 0x2000) (perm_R OR perm_W OR perm_U) sample_flags sample_ms sample_w =
      Some (Placed MMAP_BASE, sample_ms, sample_w)"
    "ma_new MMAP_BASE (MMAP_BASE + (if (0x2000 :: usize) = 0 then PAGE_SIZE else 0x2000)) Framed (perm_R OR perm_W OR perm_U) (None :: unit option) = Some ma"
    "blank_area (ms_page_table sample_ms) sample_w ma" "\<And>a. a \<in> set (ms_areas sample_ms) \<Longrightarrow> area_keys a \<inter> area_keys ma = {}"
    "\<And>v. lm_in_range (ma_inner ma) v \<longleftrightarrow> 0x60000 \<le> v \<and> v < 0x60002"
    "ma_map_perm ma = perm_R OR perm_W OR perm_U" "ma_map_file ma = None"
    "find_idx (faulting_area 0x60000) (mmap_areas 0x80000 0x60000 ma (ms_areas sample_ms)) = Some 2"
    "mmap_areas 0x80000 0x60000 ma (ms_areas sample_ms) ! 2 = ma"
proof -
  obtain prog stack trap where s: "ms_areas sample_ms = [prog, stack, trap]"
    "built 0x80400 {0x7ffffff, 0x7fffffe, 0x10, 0x11, 0x20, 0x7fffffd} 190000 sample_ms sample_w"
    "filled 0x10 0x12 (perm_R OR perm_W OR perm_U) prog" "filled 0x20 0x21 (perm_R OR perm_W OR perm_U) stack"
    "filled 0xffffffffffffd 0xffffffffffffe (perm_R OR perm_W) trap" by (rule sample_obtain)
  have st: "ma_get_start prog = 0x10" "ma_get_end prog = 0x12" "ma_get_start stack = 0x20" "ma_get_end stack = 0x21"
    "ma_get_start trap = 0xffffffffffffd"
    using s(3-5) by (simp_all add: filled_def ma_get_start_def ma_get_end_def lm_get_start_def lm_get_end_def)
  let ?perm = "perm_R OR perm_W OR perm_U"
  obtain ma where ma: "ma_new MMAP_BASE (MMAP_BASE + 0x2000) Framed ?perm (None :: unit option) = Some ma"
    by (simp add: ma_new_def range_new_def mmap_consts)
  have m: "ma_map_perm ma = ?perm" "ma_map_file ma = None" "ma_get_start ma = 0x60000" "ma_get_end ma = 0x60002"
    using ma by (auto simp: ma_new_def range_new_def mmap_consts ma_get_start_def ma_get_end_def lm_new_def lm_get_start_def lm_get_end_def)
  have un: "find_pte (ms_page_table sample_ms) sample_w v = None" if "va_floor MMAP_BASE \<le> v" "v < va_ceil (MMAP_BASE + 0x2000)" for v
  proof -
    have "v \<in> set (range_list \<lparr>range_l = 0x60000, range_r = 0x60002\<rparr>)" using that by (simp add: set_range_list mmap_consts(4,5) del: mmap_consts(9))
    then have "v = 0x60000 \<or> v = 0x60001" unfolding mmap_consts by simp
    then have "vpn_key v \<notin> {0x7ffffff, 0x7fffffe, 0x10, 0x11, 0x20, 0x7fffffd}" by (auto simp: vpn_key_def)
    then show ?thesis using s(2) by (simp add: built_def)
  qed
  have len: "unat (va_ceil (MMAP_BASE + 0x2000)) - unat (va_floor MMAP_BASE) \<le> 2 ^ 27" by (simp add: mmap_consts)
  note B = ma_new_blank [OF ma len un]
  have "{v. lm_in_range (ma_inner ma) v} = set (range_list \<lparr>range_l = 0x60000, range_r = 0x60002\<rparr>)"
    using B(3) by (auto simp: mmap_consts(4,5) set_range_list)
  then have keys: "area_keys ma = {0x60000, 0x60001}" unfolding area_keys_def mmap_consts by (simp add: vpn_key_def)
  have "area_keys a \<inter> area_keys ma = {}" if "a \<in> set (ms_areas sample_ms)" for a
    using s(2) that unfolding built_def areas_keys_def keys by auto
  moreover have "mmap_place env ub 0 0x2000 ?perm sample_flags sample_ms sample_w = Some (Placed MMAP_BASE, sample_ms, sample_w)" for env ub
    by (simp add: mmap_place_def last_mmap_area_idx_def mmap_consts s(1) SKIP_NUM_def st Let_def)
  moreover have "flags_contains ?perm (perm_R OR perm_U)" unfolding perm_R_def perm_W_def perm_U_def by code_simp
  moreover have "mmap_areas 0x80000 0x60000 ma (ms_areas sample_ms) = [prog, stack, ma, trap]"
    by (simp add: mmap_areas_def mmap_insert_idx_def s(1) st vec_insert_def)
  ultimately show ?thesis
    using that [of ma] ma B(1,3) m by (simp add: find_idx_def faulting_area_def st mmap_consts)
qed

theorem mmap_anonymous_zero_pages_witness:
  "\<exists>ms. mmap sample_env undefined None (Some undefined) 0 0x2000 (perm_R OR perm_W OR perm_U) sample_flags 0 0 sample_ms sample_w =
      Some (MMAP_BASE, ms, sample_w) \<and> ms_view sample_env sample_w ms 0x60001 = Some (replicate 4096 0) \<and>
     ms_view sample_env sample_w ms 0x10 = ms_view sample_env sample_w sample_ms 0x10"
proof -
  obtain ma where m: "mmap_place sample_env None 0 (if (0x2000 :: usize) = 0 then PAGE_SIZE else 0x2000) (perm_R OR perm_W OR perm_U) sample_flags sample_ms sample_w =
      Some (Placed MMAP_BASE, sample_ms, sample_w)"
    "ma_new MMAP_BASE (MMAP_BASE + (if (0x2000 :: usize) = 0 then PAGE_SIZE else 0x2000)) Framed (perm_R OR perm_W OR perm_U) (None :: unit option) = Some ma"
    "blank_area (ms_page_table sample_ms) sample_w ma" "\<And>a. a \<in> set (ms_areas sample_ms) \<Longrightarrow> area_keys a \<inter> area_keys ma = {}"
    "\<And>v. lm_in_range (ma_inner ma) v \<longleftrightarrow> 0x60000 \<le> v \<and> v < 0x60002" by (rule sample_mmap) blast
  from mmap_anonymous_zero_pages [OF sample_sys(3) _ m(1) mmap_consts(7) m(2) mmap_consts(6) m(3,4),
      where fops = undefined and files = undefined and fd = 0 and offset = 0] m(5) show ?thesis by auto
qed

text \<open>
  C5: \<open>munmap\<close> of a range that is not empty and starts at a page boundary, in a space whose areas
  are not empty and end below page number \<open>2 ^ 52\<close>, and of which no file mapping strictly contains
  the range: the call succeeds exactly when an area touches the range. The pages of the range that
  belonged to an area have no page table entry any more, and every other entry is as it was; the
  process sees nothing in the range and what it saw before elsewhere. The space satisfies its
  invariant again, and the frames of the other spaces keep their content.
\<close>

theorem munmap_removes_range:
  fixes w :: "('d, 'z) world"
  assumes "ms_inv lo M ms w" and "va_aligned start" and "va_floor start < va_ceil (start + len)"
    and "\<forall>ma \<in> set (ms_areas ms). ma_get_start ma < ma_get_end ma \<and> unat (ma_get_end ma) < 2 ^ 52 \<and>
      (ma_get_start ma < va_floor start \<longrightarrow> va_ceil (start + len) < ma_get_end ma \<longrightarrow> ma_map_file ma = None)"
  shows "\<exists>ms' w'. munmap env start len ms w =
      Some (if \<exists>ma \<in> set (ms_areas ms). va_floor start < ma_get_end ma \<and> ma_get_start ma \<le> va_ceil (start + len)
            then Inr () else Inl EINVAL, ms', w') \<and>
    ms_page_table ms' = ms_page_table ms \<and> space_step lo env M ms w ms' w' \<and>
    (\<forall>v. ms_view env w' ms' v =
      (if v \<in> page_range (va_floor start) (va_ceil (start + len)) then None else ms_view env w ms v)) \<and>
    (\<forall>u. find_pte (ms_page_table ms') w' u =
      (if vpn_key u \<in> vpn_key ` {v \<in> page_range (va_floor start) (va_ceil (start + len)).
             \<exists>ma \<in> set (ms_areas ms). lm_in_range (ma_inner ma) v}
       then None else find_pte (ms_page_table ms) w u))"
proof -
  from munmap_ok [OF assms, of env] obtain ms' w' where m: "munmap env start len ms w =
      Some (if \<exists>ma \<in> set (ms_areas ms). va_floor start < ma_get_end ma \<and> ma_get_start ma \<le> va_ceil (start + len)
            then Inr () else Inl EINVAL, ms', w')"
    "ms_page_table ms' = ms_page_table ms" "space_step lo env M ms w ms' w'"
    "\<forall>v. ms_view env w' ms' v =
      (if v \<in> page_range (va_floor start) (va_ceil (start + len)) then None else ms_view env w ms v)"
    "cleared (ms_page_table ms) {v \<in> page_range (va_floor start) (va_ceil (start + len)).
      \<exists>ma \<in> set (ms_areas ms). lm_in_range (ma_inner ma) v} w w'" by blast
  then show ?thesis unfolding cleared_def by (intro exI [of _ ms'] exI [of _ w']) simp
qed

theorem munmap_removes_range_witness:
  "\<exists>ms w. munmap sample_env 0x11000 0x1000 sample_ms sample_w = Some (Inr (), ms, w) \<and>
     ms_view sample_env w ms 0x11 = None \<and> ms_view sample_env w ms 0x10 = ms_view sample_env sample_w sample_ms 0x10 \<and>
     find_pte (ms_page_table ms) w 0x11 = None"
proof -
  obtain prog stack trap where s: "ms_areas sample_ms = [prog, stack, trap]"
    "filled 0x10 0x12 (perm_R OR perm_W OR perm_U) prog" "filled 0x20 0x21 (perm_R OR perm_W OR perm_U) stack"
    "filled 0xffffffffffffd 0xffffffffffffe (perm_R OR perm_W) trap" by (rule sample_obtain)
  have st: "ma_get_start prog = 0x10" "ma_get_end prog = 0x12" "ma_get_start stack = 0x20" "ma_get_end stack = 0x21"
    "ma_get_start trap = 0xffffffffffffd" "ma_get_end trap = 0xffffffffffffe"
    using s(2-4) by (simp_all add: filled_def ma_get_start_def ma_get_end_def lm_get_start_def lm_get_end_def)
  have c: "va_aligned 0x11000" "va_floor 0x11000 = 0x11" "va_ceil (0x11000 + 0x1000) = 0x12"
    unfolding va_aligned_def va_page_offset_def PAGE_SIZE_def by code_simp+
  have a: "\<forall>ma \<in> set (ms_areas sample_ms). ma_get_start ma < ma_get_end ma \<and> unat (ma_get_end ma) < 2 ^ 52 \<and>
      (ma_get_start ma < va_floor 0x11000 \<longrightarrow> va_ceil (0x11000 + 0x1000) < ma_get_end ma \<longrightarrow> ma_map_file ma = None)"
    unfolding c by (simp add: s(1) st)
  have "va_floor 0x11000 < va_ceil (0x11000 + 0x1000)" unfolding c by simp
  from munmap_removes_range [OF sample_sys(3) c(1) this a, where env = sample_env]
  obtain ms w where m: "munmap sample_env 0x11000 0x1000 sample_ms sample_w = Some (Inr (), ms, w)"
    "\<forall>v. ms_view sample_env w ms v = (if v \<in> page_range 0x11 0x12 then None else ms_view sample_env sample_w sample_ms v)"
    "\<forall>u. find_pte (ms_page_table ms) w u = (if vpn_key u \<in> vpn_key ` {v \<in> page_range 0x11 0x12.
       \<exists>ma \<in> set (ms_areas sample_ms). lm_in_range (ma_inner ma) v} then None else find_pte (ms_page_table sample_ms) sample_w u)"
    unfolding c by (auto simp: s(1) st)
  have "0x11 \<in> {v \<in> page_range 0x11 0x12. \<exists>ma \<in> set (ms_areas sample_ms). lm_in_range (ma_inner ma) v}"
    by (simp add: page_range_def s(1) filled_keys(2) [OF s(2)])
  then have "vpn_key 0x11 \<in> vpn_key ` {v \<in> page_range 0x11 0x12. \<exists>ma \<in> set (ms_areas sample_ms). lm_in_range (ma_inner ma) v}"
    by (rule imageI)
  then have "find_pte (ms_page_table ms) w 0x11 = None" using m(3) by simp
  then show ?thesis using m(1,2) by (intro exI [of _ ms] exI [of _ w]) (simp add: page_range_def)
qed

section \<open>Page faults\<close>

text \<open>
  C7: A fault on a page of an anonymous area that has no page table entry brings the page in: a
  page never written is zero, one that was compressed or swapped out has the content it had.
  The process sees the same bytes as before, now through a mapped page with the permissions of
  the area, and the address returned points at the faulting byte.
\<close>

theorem lazy_fault_brings_page_in:
  fixes w :: "('d, 'z) world"
  assumes "env_ok env" and "ms_inv lo M ms w"
    and "find_idx (faulting_area (va_floor addr)) (ms_areas ms) = Some i" and "ma_map_file (ms_areas ms ! i) = None"
    and "\<not> sv39_is_mapped (ms_page_table ms) w (va_floor addr)" and "ms_view env w ms (va_floor addr) = Some bs"
    and "3 \<le> km_free w"
  shows "\<exists>p ms' w'. do_page_fault env fops oom addr ms w = Some (Inr (ppn_offset p (va_page_offset addr)), ms', w') \<and>
    space_step lo env M ms w ms' w' \<and> ms_view env w' ms' = ms_view env w ms \<and> bytes_array p w' = bs \<and>
    find_pte (ms_page_table ms') w' (va_floor addr) =
      Some (pte_new p (ma_map_perm (ms_areas ms ! i) OR PTE_V OR PTE_A OR PTE_D))"
  using fault_lazy_ok [OF assms, of fops oom] assms(6) by (auto simp: fault_effect_def)

theorem lazy_fault_brings_page_in_witness:
  "\<exists>ms p ms' w'. mmap sample_env undefined None (Some undefined) 0 0x2000 (perm_R OR perm_W OR perm_U) sample_flags 0 0 sample_ms sample_w =
      Some (MMAP_BASE, ms, sample_w) \<and>
     do_page_fault sample_env undefined sample_oom MMAP_BASE ms sample_w = Some (Inr (ppn_offset p 0), ms', w') \<and>
     bytes_array p w' = replicate 4096 0"
proof -
  obtain ma where m: "mmap_place sample_env None 0 (if (0x2000 :: usize) = 0 then PAGE_SIZE else 0x2000) (perm_R OR perm_W OR perm_U) sample_flags sample_ms sample_w =
      Some (Placed MMAP_BASE, sample_ms, sample_w)"
    "ma_new MMAP_BASE (MMAP_BASE + (if (0x2000 :: usize) = 0 then PAGE_SIZE else 0x2000)) Framed (perm_R OR perm_W OR perm_U) (None :: unit option) = Some ma"
    "blank_area (ms_page_table sample_ms) sample_w ma" "\<And>a. a \<in> set (ms_areas sample_ms) \<Longrightarrow> area_keys a \<inter> area_keys ma = {}"
    "\<And>v. lm_in_range (ma_inner ma) v \<longleftrightarrow> 0x60000 \<le> v \<and> v < 0x60002" "ma_map_file ma = None"
    "find_idx (faulting_area 0x60000) (mmap_areas 0x80000 0x60000 ma (ms_areas sample_ms)) = Some 2"
    "mmap_areas 0x80000 0x60000 ma (ms_areas sample_ms) ! 2 = ma" by (rule sample_mmap) blast
  define ms where "ms = sample_ms\<lparr>ms_areas := mmap_areas 0x80000 0x60000 ma (ms_areas sample_ms)\<rparr>"
  from mmap_anonymous_ok [OF sample_sys(3) _ m(1) mmap_consts(7) m(2) mmap_consts(6) m(3,4),
      where fops = undefined and files = undefined and fd = 0 and offset = 0]
  have ok: "mmap sample_env undefined None (Some undefined) 0 0x2000 (perm_R OR perm_W OR perm_U) sample_flags 0 0 sample_ms sample_w =
      Some (MMAP_BASE, ms, sample_w)" "ms_inv 0x80400 {#} ms sample_w"
    "ms_view sample_env sample_w ms (va_floor MMAP_BASE) = Some (replicate 4096 0)"
    using m(5) by (simp_all add: ms_def mmap_consts(3,4) space_step_def)
  have i: "find_idx (faulting_area (va_floor MMAP_BASE)) (ms_areas ms) = Some 2" "ma_map_file (ms_areas ms ! 2) = None"
    using m(6-8) by (simp_all add: ms_def mmap_consts(4))
  have "vpn_key 0x60000 \<in> area_keys ma" using m(5) [of "0x60000"] by (auto simp: area_keys_def)
  then have un: "\<not> sv39_is_mapped (ms_page_table ms) sample_w (va_floor MMAP_BASE)"
    using m(3) by (simp add: sv39_is_mapped_iff ms_def mmap_consts(4) blank_area_def)
  have "3 \<le> km_free sample_w" using sample_sys(2) by simp
  from lazy_fault_brings_page_in [OF sample_env_ok ok(2) i un ok(3) this, where fops = undefined and oom = sample_oom] ok(1)
  show ?thesis by (auto simp: mmap_consts(6))
qed

text \<open>
  C8: A fault on a mapped page of an area whose write permission was not stripped: the process
  ends up with a page of its own (no other space refers to it) that has the bytes it saw, with
  the permissions of the area; what the process sees does not change.
\<close>

theorem write_fault_gives_private_page:
  fixes w :: "('d, 'z) world"
  assumes "ms_inv lo M ms w"
    and "find_idx (faulting_area (va_floor addr)) (ms_areas ms) = Some i"
    and "\<not> ma_writable_stripped (ms_areas ms ! i)"
    and "sv39_is_mapped (ms_page_table ms) w (va_floor addr)" and "3 \<le> km_free w"
  shows "\<exists>p ms' w'. do_page_fault env fops oom addr ms w = Some (Inr (ppn_offset p (va_page_offset addr)), ms', w') \<and>
    space_step lo env M ms w ms' w' \<and> ms_view env w' ms' = ms_view env w ms \<and>
    ms_view env w ms (va_floor addr) = Some (bytes_array p w') \<and>
    sv39_translate (ms_page_table ms') w' (va_floor addr) = Some p \<and> arcs w' p = 1 \<and>
    (\<exists>e. find_pte (ms_page_table ms') w' (va_floor addr) = Some (pte_set_permission (ma_map_perm (ms_areas ms ! i)) e) \<or>
         find_pte (ms_page_table ms') w' (va_floor addr) =
           Some (pte_new p (ma_map_perm (ms_areas ms ! i) OR PTE_V OR PTE_A OR PTE_D)))"
  using fault_write_ok [OF assms, of env fops oom] unfolding fault_effect_def by blast

theorem write_fault_gives_private_page_witness:
  "\<exists>p ms' w'. do_page_fault sample_env undefined sample_oom 0x10000 sample_ms sample_w =
      Some (Inr (ppn_offset p (va_page_offset 0x10000)), ms', w') \<and> arcs w' p = 1"
proof -
  have "3 \<le> km_free sample_w" using sample_sys(2) by simp
  from write_fault_gives_private_page [OF sample_sys(3) sample_find this, where env = sample_env and fops = undefined and oom = sample_oom]
  show ?thesis by blast
qed

section \<open>Reclaiming and exit\<close>

text \<open>
  C9: The shallow reclaiming pass (\<open>do_shallow_clean\<close>) never changes what the process sees, keeps
  the invariant and the content of all other frames, and returns exactly how many frames went
  back to the allocator, which is the number of pages of the process that left the memory.
\<close>

theorem shallow_clean_invisible:
  fixes w :: "('d, 'z) world"
  assumes "env_ok env" and "ms_inv lo M ms w"
  shows "\<exists>ms' w' r. do_shallow_clean env ms w = Some (r, ms', w') \<and> space_step lo env M ms w ms' w' \<and>
    ms_view env w' ms' = ms_view env w ms \<and> km_free w' = km_free w + unat r \<and>
    space_residents (ms_areas ms') + unat r = space_residents (ms_areas ms)"
  using do_shallow_clean_ok [OF assms] clean_step(1,2) by blast

theorem shallow_clean_invisible_witness:
  "\<exists>ms' w' r. do_shallow_clean sample_env sample_ms sample_w = Some (r, ms', w') \<and>
     ms_view sample_env w' ms' = ms_view sample_env sample_w sample_ms \<and> km_free w' = km_free sample_w + unat r"
  using shallow_clean_invisible [OF sample_env_ok sample_sys(3)] by blast

text \<open>
  C10: The deep reclaiming pass (\<open>do_deep_clean\<close>), which also swaps the pages below the mmap
  region out, never changes what the process sees, keeps the invariant and the content of all
  other frames; the count it returns is the number of pages of the process that left the memory,
  and at least the number of frames that went back to the allocator.
\<close>

theorem deep_clean_invisible:
  fixes w :: "('d, 'z) world"
  assumes "env_ok env" and "ms_inv lo M ms w"
  shows "\<exists>ms' w' n r. do_deep_clean env ms w = Some (r, ms', w') \<and> space_step lo env M ms w ms' w' \<and>
    ms_view env w' ms' = ms_view env w ms \<and> km_free w' = km_free w + n \<and> n \<le> unat r \<and>
    space_residents (ms_areas ms') + unat r = space_residents (ms_areas ms)"
  using do_deep_clean_ok [OF assms] clean_step(1,2) by blast

theorem deep_clean_invisible_witness:
  "\<exists>ms' w' n r. do_deep_clean sample_env sample_ms sample_w = Some (r, ms', w') \<and>
     ms_view sample_env w' ms' = ms_view sample_env sample_w sample_ms \<and> km_free w' = km_free sample_w + n \<and> n \<le> unat r \<and>
     space_residents (ms_areas ms') + unat r = space_residents (ms_areas sample_ms)"
  using deep_clean_invisible [OF sample_env_ok sample_sys(3)] by blast

text \<open>
  C11: Exit (\<open>recycle_data_pages\<close>) never fails, leaves the process without pages and gives back
  every reference it held: each counter goes down by the number of references, and exactly the
  frames that nobody else holds return to the allocator. What others hold keeps its content.
\<close>

theorem exit_returns_pages:
  fixes w :: "('d, 'z) world"
  assumes "ms_inv lo M ms w"
  shows "\<exists>w'. recycle_data_pages env ms w = Some (ms\<lparr>ms_areas := []\<rparr>, w') \<and>
    space_step lo env M ms w (ms\<lparr>ms_areas := []\<rparr>) w' \<and>
    (\<forall>g. g \<noteq> Unallocated \<longrightarrow> frame_count w' g = frame_count w g - count (space_frames (ms_areas ms)) g) \<and>
    (\<forall>p. p \<in> km_allocated lo w' \<longleftrightarrow>
       p \<in> km_allocated lo w \<and> \<not> (InMemory p \<in># space_frames (ms_areas ms) \<and> arcs w' p = 0))"
  using recycle_data_pages_ok [OF assms, of env] unfolding returned_def by blast

theorem exit_returns_pages_witness:
  "\<exists>w'. recycle_data_pages sample_env sample_ms sample_w = Some (sample_ms\<lparr>ms_areas := []\<rparr>, w') \<and>
     (\<forall>g. g \<noteq> Unallocated \<longrightarrow> frame_count w' g = frame_count sample_w g - count (space_frames (ms_areas sample_ms)) g)"
  using exit_returns_pages [OF sample_sys(3), of sample_env] by blast

section \<open>Kernel access to user memory\<close>

text \<open>
  C12: A copy to a mapped user range and back: \<open>copy_to_user\<close> succeeds for every length and
  alignment, also across pages, a \<open>copy_from_user\<close> of the range then returns the bytes written,
  the copies change no other byte of physical memory and no translation, and the address space
  keeps its invariant. The pages of the range have to be in areas of the process and in
  different frames.
\<close>

theorem user_copy_round_trip:
  fixes w :: "('d, 'z) world" and ms :: "'f memory_set"
  assumes "ms_inv lo M ms w" and "user_mapped (ms_page_table ms) w a (length bs)" and "in_areas ms a (length bs)"
    and "distinct (user_pos (ms_page_table ms) w a (length bs))" and "bs \<noteq> []" and "length dst = length bs"
  shows "\<exists>w'. copy_to_user env fops oom (ms_token ms) bs a vm w = Some (Inr (), vm, w') \<and>
    copy_from_user env fops oom (ms_token ms) a (of_nat (length bs)) dst vm w' = Some (Inr (), bs, vm, w') \<and>
    ms_inv lo M ms w' \<and> (\<forall>v. find_pte (ms_page_table ms) w' v = find_pte (ms_page_table ms) w v) \<and>
    (\<forall>p k. (p, k) \<notin> set (user_pos (ms_page_table ms) w a (length bs)) \<longrightarrow> pmem w' p k = pmem w p k)"
  using assms by (rule copy_round_trip)

theorem user_copy_round_trip_witness:
  "\<exists>w'. copy_to_user sample_env undefined sample_oom (ms_token sample_ms) [1, 2, 3] 0x10ffd (Some sample_ms) sample_w =
      Some (Inr (), Some sample_ms, w') \<and>
     copy_from_user sample_env undefined sample_oom (ms_token sample_ms) 0x10ffd 3 [0, 0, 0] (Some sample_ms) w' =
      Some (Inr (), [1, 2, 3], Some sample_ms, w')"
proof -
  obtain p where r: "user_mapped (ms_page_table sample_ms) sample_w 0x10ffd 3" "in_areas sample_ms 0x10ffd 3"
    "user_pos (ms_page_table sample_ms) sample_w 0x10ffd 3 = map (Pair p) [unat (va_page_offset 0x10ffd)..<unat (va_page_offset 0x10ffd) + 3]"
    using sample_range [of "0x10ffd" 3] by auto
  have "distinct (user_pos (ms_page_table sample_ms) sample_w 0x10ffd 3)" unfolding r(3) by (simp add: distinct_map inj_on_def)
  with user_copy_round_trip [OF sample_sys(3), of "0x10ffd" "[1, 2, 3]" "[0, 0, 0]" sample_env undefined sample_oom "Some sample_ms"] r(1,2)
  show ?thesis by (auto simp: numeral_3_eq_3)
qed

text \<open>
  The kernel's writes to user memory go through the physical address and look at no permission
  bit. After a fork, a system call of the child that stores a byte in a shared page therefore
  changes what the parent sees: the page is read-only for both, but \<open>copy_to_user\<close> does not take
  the copy-on-write fault.
\<close>

lemma user_write_breaks_copy_on_write:
  fixes w :: "('d, 'z) world" and parent :: "'f memory_set"
  assumes fork: "sys_inv lo M (ss @ parent # ts) w" "ms_areas parent = shared @ [trap]" "lm_frames (ma_inner trap) = [InMemory q]"
      "layout_aligned ly" "areas_keys (ms_areas parent) \<inter> trampoline_keys = {}" "8 + 2 * size (space_frames shared) \<le> km_free w"
    and ma: "ma \<in> set shared" "lm_in_range (ma_inner ma) (va_floor a)" "unat a + 1 \<le> 2 ^ 64 - 4096"
    and t: "sv39_translate (ms_page_table parent) w (va_floor a) = Some p"
  shows "\<exists>child w1 b w2. from_existing_user env oom ly parent w = Some (child, w1) \<and>
    copy_to_user env fops oom (ms_token child) [b] a (Some child) w1 = Some (Inr (), Some child, w2) \<and>
    ms_view env w2 parent (va_floor a) \<noteq> ms_view env w1 parent (va_floor a)"
proof -
  from fork_ok [OF fork, of env oom] obtain child w1 where f: "from_existing_user env oom ly parent w = Some (child, w1)"
    "sys_inv lo M ([] @ child # (ss @ parent # ts)) w1" "forked env shared trap q parent w child w1" by auto
  have ct: "sv39_translate (ms_page_table child) w1 (va_floor a) = Some p" using f(3) ma(1,2) t by (simp add: forked_def)
  note I = sys_focus [OF f(2)] and P = sys_focus [OF fork(1)]
  have pv: "ms_view env w' parent (va_floor a) = Some (bytes_array p w')" for w' :: "('d, 'z) world"
    using ms_view_frame [OF P _ ma(2) t] ma(1) fork(2) by simp
  let ?off = "unat (va_page_offset a)"
  define b where "b = pmem w1 p ?off + 1"
  let ?w = "pmem_put [((p, ?off), b)] w1"
  have "user_mapped (sv39_from_token (ms_token child)) w1 a (length [b])"
    using ct ma(3) by (simp add: token_translate [OF I] user_mapped_def)
  from copy_to_user_pos [OF this] have c: "copy_to_user env fops oom (ms_token child) [b] a (Some child) w1 = Some (Inr (), Some child, ?w)"
    by (simp add: token_translate [OF I] user_pos_def ct)
  have o: "?off < 4096" by (simp add: unat_va_page_offset)
  have "bytes_array p ?w ! ?off = b" "bytes_array p w1 ! ?off = pmem w1 p ?off"
    using o by (simp_all add: bytes_array_def page_bytes_def write_bytes_def page_write_def)
  then have "bytes_array p ?w \<noteq> bytes_array p w1" unfolding b_def by (metis add_cancel_left_right one_neq_zero)
  then show ?thesis using f(1) c pv by (metis option.inject)
qed

end
