(* ===== verification/Virtio_Queue.thy ===== *)
theory Virtio_Queue
  imports Gcore_Prelude "HOL-Library.Monad_Syntax"
begin

text \<open>
  The virtqueue of the driver library, \<open>dependency/virtio-drivers/src/queue.rs\<close>, with the feature
  \<open>alloc\<close> the kernel selects. The driver offers chains of descriptors to the device in the
  available ring and gets them back in the used ring. The kernel's part of the contract (\<open>Hal\<close>:
  sharing a buffer with the device and taking it back) is the argument \<open>hal\<close>, over a state \<open>'h\<close>;
  \<open>Box\<close>ed indirect lists are values. A buffer is its bytes; taking it back returns the new bytes.

  The lemmas show that the descriptors are always split between the free list and the chains in
  flight, that \<open>add\<close> publishes exactly the buffers it was given, and that \<open>pop_used\<close> takes back
  each buffer at the address at which it was shared.
\<close>

section \<open>Definitions\<close>

subsection \<open>Errors, directions and the contract of the platform\<close>

datatype socket_error =
  ConnectionExists | NotConnected | PeerSocketShutdown | BufferTooShort | OutputBufferTooShort usize |
  BufferTooLong usize usize | UnknownOperation u16 | InvalidOperation | InvalidNumber | UnexpectedDataInPacket |
  InsufficientBufferSpaceInPeer | RecycledWrongBuffer

datatype virtio_error =
  QueueFull | NotReady | WrongToken | AlreadyUsed | InvalidParam | DmaError | IoError | Unsupported |
  ConfigSpaceTooSmall | ConfigSpaceMissing | SocketDeviceError socket_error

datatype buffer_direction = DriverToDevice | DeviceToDriver | Both

record 'h hal =
  hal_share :: "u8 list \<Rightarrow> buffer_direction \<Rightarrow> 'h \<Rightarrow> (usize \<times> 'h) option"
  hal_unshare :: "usize \<Rightarrow> u8 list \<Rightarrow> buffer_direction \<Rightarrow> 'h \<Rightarrow> (u8 list \<times> 'h) option"

subsection \<open>Descriptors and rings\<close>

record descriptor =
  d_addr :: u64
  d_len :: u32
  d_flags :: u16
  d_next :: u16

definition DESC_NEXT :: u16 where "DESC_NEXT = 1"
definition DESC_WRITE :: u16 where "DESC_WRITE = 2"
definition DESC_INDIRECT :: u16 where "DESC_INDIRECT = 4"

definition zero_desc :: descriptor where
  "zero_desc = \<lparr>d_addr = 0, d_len = 0, d_flags = 0, d_next = 0\<rparr>"

definition set_buf ::
  "'h hal \<Rightarrow> u8 list \<Rightarrow> buffer_direction \<Rightarrow> u16 \<Rightarrow> descriptor \<Rightarrow> 'h \<Rightarrow> (descriptor \<times> 'h) option" where
  "set_buf hal buf direction extra_flags d h =
     do { (addr, h) \<leftarrow> hal_share hal buf direction h;
          assert_that (length buf < 2 ^ 32);
          fl \<leftarrow> (case direction of DeviceToDriver \<Rightarrow> Some DESC_WRITE | DriverToDevice \<Rightarrow> Some 0 | Both \<Rightarrow> None);
          Some (d\<lparr>d_addr := addr, d_len := of_nat (length buf), d_flags := extra_flags OR fl\<rparr>, h) }"

definition unset_buf :: "descriptor \<Rightarrow> descriptor" where
  "unset_buf d = d\<lparr>d_addr := 0, d_len := 0\<rparr>"

definition desc_next :: "descriptor \<Rightarrow> u16 option" where
  "desc_next d = (if d_flags d AND DESC_NEXT = DESC_NEXT then Some (d_next d) else None)"

definition desc_bytes :: "descriptor \<Rightarrow> u8 list" where
  "desc_bytes d = le64 (d_addr d) @ le32 (d_len d) @ le16 (d_flags d) @ le16 (d_next d)"

record avail_ring =
  av_flags :: u16
  av_idx :: u16
  av_ring :: "u16 list"
  av_used_event :: u16

record used_elem =
  ue_id :: u32
  ue_len :: u32

record used_ring =
  us_flags :: u16
  us_idx :: u16
  us_ring :: "used_elem list"
  us_avail_event :: u16

text \<open>The constant \<open>SIZE\<close> is the length of the array \<open>desc_shadow\<close>.\<close>

record virt_queue =
  vq_desc :: "descriptor list"
  vq_avail :: avail_ring
  vq_used :: used_ring
  queue_idx :: u16
  num_used :: u16
  free_head :: u16
  desc_shadow :: "descriptor list"
  avail_idx :: u16
  last_used_idx :: u16
  event_idx :: bool
  indirect :: bool
  indirect_lists :: "descriptor list option list"

abbreviation vq_size :: "virt_queue \<Rightarrow> nat" where
  "vq_size q \<equiv> length (desc_shadow q)"

definition link_descs :: "nat \<Rightarrow> descriptor list" where
  "link_descs n = map (\<lambda>i. if i < n - 1 then zero_desc\<lparr>d_next := of_nat (i + 1)\<rparr> else zero_desc) [0..<n]"

text \<open>The queue of \<open>VirtQueue::new\<close> once the rings are allocated; \<open>dma_alloc\<close> zeroes them.\<close>

definition vq_new :: "nat \<Rightarrow> u16 \<Rightarrow> bool \<Rightarrow> bool \<Rightarrow> virt_queue" where
  "vq_new n idx ind event =
     \<lparr>vq_desc = link_descs n,
      vq_avail = \<lparr>av_flags = 0, av_idx = 0, av_ring = replicate n 0, av_used_event = 0\<rparr>,
      vq_used = \<lparr>us_flags = 0, us_idx = 0, us_ring = replicate n \<lparr>ue_id = 0, ue_len = 0\<rparr>, us_avail_event = 0\<rparr>,
      queue_idx = idx, num_used = 0, free_head = 0, desc_shadow = link_descs n, avail_idx = 0, last_used_idx = 0,
      event_idx = event, indirect = ind, indirect_lists = replicate n None\<rparr>"

subsection \<open>Offering buffers\<close>

definition input_output :: "u8 list list \<Rightarrow> u8 list list \<Rightarrow> (u8 list \<times> buffer_direction) list" where
  "input_output inputs outputs = map (\<lambda>b. (b, DriverToDevice)) inputs @ map (\<lambda>b. (b, DeviceToDriver)) outputs"

definition write_desc :: "u16 \<Rightarrow> virt_queue \<Rightarrow> virt_queue option" where
  "write_desc i q =
     (if unat i < length (vq_desc q) \<and> unat i < vq_size q
      then Some (q\<lparr>vq_desc := (vq_desc q)[unat i := desc_shadow q ! unat i]\<rparr>) else None)"

fun add_direct_loop ::
  "'h hal \<Rightarrow> (u8 list \<times> buffer_direction) list \<Rightarrow> u16 \<Rightarrow> virt_queue \<Rightarrow> 'h \<Rightarrow> (u16 \<times> virt_queue \<times> 'h) option" where
  "add_direct_loop hal [] lst q h = Some (lst, q, h)"
| "add_direct_loop hal ((buf, direction) # bufs) lst q h =
     do { assert_that (buf \<noteq> []);
          d \<leftarrow> vec_get (desc_shadow q) (unat (free_head q));
          (d, h) \<leftarrow> set_buf hal buf direction DESC_NEXT d h;
          let lst = free_head q;
          q \<leftarrow> write_desc lst (q\<lparr>desc_shadow := (desc_shadow q)[unat lst := d], free_head := d_next d\<rparr>);
          add_direct_loop hal bufs lst q h }"

definition add_direct ::
  "'h hal \<Rightarrow> u8 list list \<Rightarrow> u8 list list \<Rightarrow> virt_queue \<Rightarrow> 'h \<Rightarrow> (u16 \<times> virt_queue \<times> 'h) option" where
  "add_direct hal inputs outputs q h =
     do { let head = free_head q;
          (lst, q, h) \<leftarrow> add_direct_loop hal (input_output inputs outputs) (free_head q) q h;
          d \<leftarrow> vec_get (desc_shadow q) (unat lst);
          q \<leftarrow> write_desc lst (q\<lparr>desc_shadow := (desc_shadow q)[unat lst := d\<lparr>d_flags := d_flags d AND NOT DESC_NEXT\<rparr>]\<rparr>);
          Some (head, q\<lparr>num_used := num_used q + of_nat (length inputs + length outputs)\<rparr>, h) }"

fun indirect_loop ::
  "'h hal \<Rightarrow> nat \<Rightarrow> (u8 list \<times> buffer_direction) list \<Rightarrow> 'h \<Rightarrow> (descriptor list \<times> 'h) option" where
  "indirect_loop hal i [] h = Some ([], h)"
| "indirect_loop hal i ((buf, direction) # bufs) h =
     do { (d, h) \<leftarrow> set_buf hal buf direction DESC_NEXT zero_desc h;
          (ds, h) \<leftarrow> indirect_loop hal (Suc i) bufs h;
          Some (d\<lparr>d_next := of_nat (Suc i)\<rparr> # ds, h) }"

definition clear_last :: "descriptor list \<Rightarrow> descriptor list" where
  "clear_last ds = butlast ds @ [(last ds)\<lparr>d_flags := d_flags (last ds) AND NOT DESC_NEXT\<rparr>]"

definition add_indirect ::
  "'h hal \<Rightarrow> u8 list list \<Rightarrow> u8 list list \<Rightarrow> virt_queue \<Rightarrow> 'h \<Rightarrow> (u16 \<times> virt_queue \<times> 'h) option" where
  "add_indirect hal inputs outputs q h =
     do { let head = free_head q;
          (ds, h) \<leftarrow> indirect_loop hal 0 (input_output inputs outputs) h;
          let ds = clear_last ds;
          slot \<leftarrow> vec_get (indirect_lists q) (unat head);
          assert_that (slot = None);
          let q = q\<lparr>indirect_lists := (indirect_lists q)[unat head := Some ds]\<rparr>;
          d \<leftarrow> vec_get (desc_shadow q) (unat head);
          let q = q\<lparr>free_head := d_next d\<rparr>;
          (d, h) \<leftarrow> set_buf hal (concat (map desc_bytes ds)) DriverToDevice DESC_INDIRECT d h;
          q \<leftarrow> write_desc head (q\<lparr>desc_shadow := (desc_shadow q)[unat head := d]\<rparr>);
          Some (head, q\<lparr>num_used := num_used q + 1\<rparr>, h) }"

definition vq_add ::
  "'h hal \<Rightarrow> u8 list list \<Rightarrow> u8 list list \<Rightarrow> virt_queue \<Rightarrow> 'h \<Rightarrow> ((virtio_error + u16) \<times> virt_queue \<times> 'h) option" where
  "vq_add hal inputs outputs q h =
     (if inputs = [] \<and> outputs = [] then Some (Inl InvalidParam, q, h)
      else let descriptors_needed = length inputs + length outputs in
        if unat (num_used q) + 1 > vq_size q \<or> descriptors_needed > vq_size q \<or>
           (\<not> indirect q \<and> unat (num_used q) + descriptors_needed > vq_size q)
        then Some (Inl QueueFull, q, h)
        else
          do { (head, q, h) \<leftarrow> (if indirect q \<and> 1 < descriptors_needed then add_indirect hal inputs outputs q h
                              else add_direct hal inputs outputs q h);
               let avail_slot = unat (avail_idx q AND (of_nat (vq_size q) - 1));
               assert_that (avail_slot < length (av_ring (vq_avail q)));
               let q = q\<lparr>vq_avail := (vq_avail q)\<lparr>av_ring := (av_ring (vq_avail q))[avail_slot := head]\<rparr>\<rparr>;
               let q = q\<lparr>avail_idx := avail_idx q + 1\<rparr>;
               Some (Inr head, q\<lparr>vq_avail := (vq_avail q)\<lparr>av_idx := avail_idx q\<rparr>\<rparr>, h) })"

subsection \<open>Notifications\<close>

definition set_dev_notify :: "bool \<Rightarrow> virt_queue \<Rightarrow> virt_queue" where
  "set_dev_notify enable q =
     (if \<not> event_idx q then q\<lparr>vq_avail := (vq_avail q)\<lparr>av_flags := (if enable then 0 else 1)\<rparr>\<rparr> else q)"

definition should_notify :: "virt_queue \<Rightarrow> bool" where
  "should_notify q =
     (if event_idx q then us_avail_event (vq_used q) + 1 \<le> avail_idx q else us_flags (vq_used q) AND 1 = 0)"

subsection \<open>Taking buffers back\<close>

definition can_pop :: "virt_queue \<Rightarrow> bool" where
  "can_pop q \<longleftrightarrow> last_used_idx q \<noteq> us_idx (vq_used q)"

definition last_used_elem :: "virt_queue \<Rightarrow> used_elem option" where
  "last_used_elem q = vec_get (us_ring (vq_used q)) (unat (last_used_idx q AND (of_nat (vq_size q) - 1)))"

definition peek_used :: "virt_queue \<Rightarrow> u16 option option" where
  "peek_used q = (if can_pop q then map_option (\<lambda>e. Some (ucast (ue_id e))) (last_used_elem q) else Some None)"

definition available_desc :: "virt_queue \<Rightarrow> nat" where
  "available_desc q =
     (if indirect q then (if unat (num_used q) = vq_size q then 0 else vq_size q) else vq_size q - unat (num_used q))"

fun unshare_all ::
  "'h hal \<Rightarrow> descriptor list \<Rightarrow> (u8 list \<times> buffer_direction) list \<Rightarrow> 'h \<Rightarrow> (u8 list list \<times> 'h) option" where
  "unshare_all hal ds [] h = Some ([], h)"
| "unshare_all hal [] (x # bufs) h = None"
| "unshare_all hal (d # ds) ((buf, direction) # bufs) h =
     do { assert_that (buf \<noteq> []);
          (buf, h) \<leftarrow> hal_unshare hal (d_addr d) buf direction h;
          (rest, h) \<leftarrow> unshare_all hal ds bufs h;
          Some (buf # rest, h) }"

fun recycle_loop ::
  "'h hal \<Rightarrow> u16 \<Rightarrow> (u8 list \<times> buffer_direction) list \<Rightarrow> u16 option \<Rightarrow> virt_queue \<Rightarrow> 'h \<Rightarrow>
   (u16 option \<times> u8 list list \<times> virt_queue \<times> 'h) option" where
  "recycle_loop hal original_free_head [] nxt q h = Some (nxt, [], q, h)"
| "recycle_loop hal original_free_head ((buf, direction) # bufs) nxt q h =
     do { assert_that (buf \<noteq> []);
          desc_index \<leftarrow> nxt;
          d \<leftarrow> vec_get (desc_shadow q) (unat desc_index);
          let paddr = d_addr d;
          let d = unset_buf d;
          let nxt = desc_next d;
          let d = (if nxt = None then d\<lparr>d_next := original_free_head\<rparr> else d);
          q \<leftarrow> write_desc desc_index
                (q\<lparr>desc_shadow := (desc_shadow q)[unat desc_index := d], num_used := num_used q - 1\<rparr>);
          (buf, h) \<leftarrow> hal_unshare hal paddr buf direction h;
          (nxt, rest, q, h) \<leftarrow> recycle_loop hal original_free_head bufs nxt q h;
          Some (nxt, buf # rest, q, h) }"

definition recycle_indirect ::
  "'h hal \<Rightarrow> u16 \<Rightarrow> u16 \<Rightarrow> (u8 list \<times> buffer_direction) list \<Rightarrow> virt_queue \<Rightarrow> 'h \<Rightarrow> (u8 list list \<times> virt_queue \<times> 'h) option" where
  "recycle_indirect hal original_free_head head bufs q h =
     do { d \<leftarrow> vec_get (desc_shadow q) (unat head);
          slot \<leftarrow> vec_get (indirect_lists q) (unat head);
          ds \<leftarrow> slot;
          let q = q\<lparr>indirect_lists := (indirect_lists q)[unat head := None],
                    desc_shadow := (desc_shadow q)[unat head := (unset_buf d)\<lparr>d_next := original_free_head\<rparr>],
                    num_used := num_used q - 1\<rparr>;
          (_, h) \<leftarrow> hal_unshare hal (d_addr d) (concat (map desc_bytes ds)) DriverToDevice h;
          assert_that (length ds = length bufs);
          (rest, h) \<leftarrow> unshare_all hal ds bufs h;
          Some (rest, q, h) }"

definition recycle_descriptors ::
  "'h hal \<Rightarrow> u16 \<Rightarrow> u8 list list \<Rightarrow> u8 list list \<Rightarrow> virt_queue \<Rightarrow> 'h \<Rightarrow> (u8 list list \<times> virt_queue \<times> 'h) option" where
  "recycle_descriptors hal head inputs outputs q h =
     do { let original_free_head = free_head q;
          let q = q\<lparr>free_head := head\<rparr>;
          d \<leftarrow> vec_get (desc_shadow q) (unat head);
          if d_flags d AND DESC_INDIRECT = DESC_INDIRECT
          then recycle_indirect hal original_free_head head (input_output inputs outputs) q h
          else do { (nxt, bufs, q, h) \<leftarrow>
                      recycle_loop hal original_free_head (input_output inputs outputs) (Some head) q h;
                    if nxt \<noteq> None then None else Some (bufs, q, h) } }"

text \<open>\<open>pop_used\<close> also returns the bytes of all buffers, the inputs first.\<close>

definition pop_used ::
  "'h hal \<Rightarrow> u16 \<Rightarrow> u8 list list \<Rightarrow> u8 list list \<Rightarrow> virt_queue \<Rightarrow> 'h \<Rightarrow>
   ((virtio_error + u32) \<times> u8 list list \<times> virt_queue \<times> 'h) option" where
  "pop_used hal token inputs outputs q h =
     (if \<not> can_pop q then Some (Inl NotReady, inputs @ outputs, q, h)
      else
        do { e \<leftarrow> last_used_elem q;
             if ucast (ue_id e) \<noteq> token then Some (Inl WrongToken, inputs @ outputs, q, h)
             else
               do { (bufs, q, h) \<leftarrow> recycle_descriptors hal (ucast (ue_id e)) inputs outputs q h;
                    let q = q\<lparr>last_used_idx := last_used_idx q + 1\<rparr>;
                    let q = (if event_idx q then q\<lparr>vq_avail := (vq_avail q)\<lparr>av_used_event := last_used_idx q\<rparr>\<rparr> else q);
                    Some (Inr (ue_len e), bufs, q, h) } })"

text \<open>
  \<open>add_notify_wait_pop\<close>: the device (\<open>dev\<close>, which sees the descriptors and the available ring, and
  writes the used ring and shared memory) works while the driver spins; the loop need not end.
\<close>

partial_function (option) wait_pop ::
  "(descriptor list \<Rightarrow> avail_ring \<Rightarrow> used_ring \<Rightarrow> 'h \<Rightarrow> used_ring \<times> 'h) \<Rightarrow> virt_queue \<Rightarrow> 'h \<Rightarrow> (virt_queue \<times> 'h) option" where
  "wait_pop dev q h =
     (if can_pop q then Some (q, h)
      else (let (u, h') = dev (vq_desc q) (vq_avail q) (vq_used q) h in wait_pop dev (q\<lparr>vq_used := u\<rparr>) h'))"

definition add_notify_wait_pop ::
  "'h hal \<Rightarrow> (u16 \<Rightarrow> 'h \<Rightarrow> 'h) \<Rightarrow> (descriptor list \<Rightarrow> avail_ring \<Rightarrow> used_ring \<Rightarrow> 'h \<Rightarrow> used_ring \<times> 'h) \<Rightarrow>
   u8 list list \<Rightarrow> u8 list list \<Rightarrow> virt_queue \<Rightarrow> 'h \<Rightarrow> ((virtio_error + u32) \<times> u8 list list \<times> virt_queue \<times> 'h) option" where
  "add_notify_wait_pop hal notify dev inputs outputs q h =
     do { (res, q, h) \<leftarrow> vq_add hal inputs outputs q h;
          (case res of
             Inl e \<Rightarrow> Some (Inl e, inputs @ outputs, q, h)
           | Inr token \<Rightarrow>
               do { let h = (if should_notify q then notify (queue_idx q) h else h);
                    (q, h) \<leftarrow> wait_pop dev q h;
                    pop_used hal token inputs outputs q h }) }"

section \<open>Paths through the descriptor table\<close>

text \<open>\<open>path sh x xs y\<close>: following \<open>next\<close> from \<open>x\<close> visits the descriptors \<open>xs\<close> and arrives at \<open>y\<close>.\<close>

primrec path :: "descriptor list \<Rightarrow> u16 \<Rightarrow> u16 list \<Rightarrow> u16 \<Rightarrow> bool" where
  "path sh x [] y \<longleftrightarrow> x = y"
| "path sh x (a # as) y \<longleftrightarrow> a = x \<and> unat x < length sh \<and> path sh (d_next (sh ! unat x)) as y"

lemma path_app [simp]: "path sh x (as @ bs) z \<longleftrightarrow> (\<exists>y. path sh x as y \<and> path sh y bs z)"
  by (induction as arbitrary: x) auto

lemma path_cong:
  assumes "\<forall>a \<in> set as. d_next (sh' ! unat a) = d_next (sh ! unat a)" and "length sh' = length sh"
  shows "path sh' x as y \<longleftrightarrow> path sh x as y"
  using assms(1) by (induction as arbitrary: x) (auto simp: assms(2))

lemma path_in: "path sh x as y \<Longrightarrow> a \<in> set as \<Longrightarrow> unat a < length sh"
  by (induction as arbitrary: x) auto

lemma path_next:
  "path sh x as y \<Longrightarrow> Suc k < length as \<Longrightarrow> d_next (sh ! unat (as ! k)) = as ! Suc k"
proof (induction as arbitrary: x k)
  case (Cons a as)
  then show ?case by (cases k; cases as) auto
qed simp

section \<open>The buffers a chain describes\<close>

type_synonym bufs = "(u8 list \<times> buffer_direction) list"

definition dir_flag :: "buffer_direction \<Rightarrow> u16" where
  "dir_flag direction = (if direction = DeviceToDriver then DESC_WRITE else 0)"

definition desc_for :: "u16 \<Rightarrow> u8 list \<times> buffer_direction \<Rightarrow> usize \<Rightarrow> descriptor \<Rightarrow> bool" where
  "desc_for fl b a d \<longleftrightarrow> d_addr d = a \<and> d_len d = of_nat (length (fst b)) \<and> d_flags d = fl OR dir_flag (snd b)"

definition shareable :: "u8 list \<times> buffer_direction \<Rightarrow> bool" where
  "shareable b \<longleftrightarrow> fst b \<noteq> [] \<and> length (fst b) < 2 ^ 32 \<and> snd b \<noteq> Both"

fun share_all :: "'h hal \<Rightarrow> bufs \<Rightarrow> 'h \<Rightarrow> (usize list \<times> 'h) option" where
  "share_all hal [] h = Some ([], h)"
| "share_all hal ((buf, direction) # bufs) h =
     do { (a, h) \<leftarrow> hal_share hal buf direction h;
          (as, h) \<leftarrow> share_all hal bufs h;
          Some (a # as, h) }"

lemma length_share_all: "share_all hal bufs h = Some (as, h') \<Longrightarrow> length as = length bufs"
  by (induction hal bufs h arbitrary: as h' rule: share_all.induct) (auto split: bind_splits)

lemma set_buf_ok:
  assumes "shareable (buf, direction)" and "hal_share hal buf direction h = Some (a, h')"
  shows "set_buf hal buf direction fl d h =
    Some (d\<lparr>d_addr := a, d_len := of_nat (length buf), d_flags := fl OR dir_flag direction\<rparr>, h')"
  using assms by (cases direction) (simp_all add: set_buf_def shareable_def dir_flag_def)

lemmas desc_flags = DESC_NEXT_def DESC_WRITE_def DESC_INDIRECT_def dir_flag_def

lemma flags_next [simp]:
  "(DESC_NEXT OR dir_flag b) AND DESC_NEXT = DESC_NEXT" "dir_flag b AND DESC_NEXT \<noteq> DESC_NEXT"
  "(DESC_NEXT OR dir_flag b) AND NOT DESC_NEXT = dir_flag b"
  by (simp_all add: desc_flags)

lemma flags_indirect [simp]:
  "dir_flag b AND DESC_INDIRECT \<noteq> DESC_INDIRECT" "(DESC_NEXT OR dir_flag b) AND DESC_INDIRECT \<noteq> DESC_INDIRECT"
  "DESC_INDIRECT OR dir_flag DriverToDevice = DESC_INDIRECT"
  by (simp_all add: desc_flags)

text \<open>The descriptors of \<open>cs\<close>, in this order, describe the buffers, shared at these addresses.\<close>

definition describes :: "(nat \<Rightarrow> u16) \<Rightarrow> descriptor list \<Rightarrow> u16 list \<Rightarrow> bufs \<Rightarrow> usize list \<Rightarrow> bool" where
  "describes fl sh cs bufs as \<longleftrightarrow> length bufs = length cs \<and> length as = length cs \<and>
     (\<forall>k < length cs. desc_for (fl k) (bufs ! k) (as ! k) (sh ! unat (cs ! k)))"

abbreviation chain_flags :: "nat \<Rightarrow> nat \<Rightarrow> u16" where
  "chain_flags n k \<equiv> (if Suc k < n then DESC_NEXT else 0)"

text \<open>Two tables agree outside a set of entries.\<close>

definition same_but :: "u16 set \<Rightarrow> descriptor list \<Rightarrow> descriptor list \<Rightarrow> bool" where
  "same_but A sh sh' \<longleftrightarrow> length sh' = length sh \<and> (\<forall>x. x \<notin> A \<longrightarrow> sh' ! unat x = sh ! unat x)"

lemma same_but_refl [simp]: "same_but A sh sh"
  by (simp add: same_but_def)

lemma same_but_trans: "same_but A sh sh1 \<Longrightarrow> same_but B sh1 sh2 \<Longrightarrow> same_but (A \<union> B) sh sh2"
  by (simp add: same_but_def)

lemma same_but_update: "x \<in> A \<Longrightarrow> same_but A sh (sh[unat x := d])"
  unfolding same_but_def by (metis length_list_update nth_list_update_neq word_unat_eq_iff)

lemma same_butD: "same_but A sh sh' \<Longrightarrow> x \<notin> A \<Longrightarrow> sh' ! unat x = sh ! unat x" "same_but A sh sh' \<Longrightarrow> length sh' = length sh"
  by (simp_all add: same_but_def)

lemma same_but_path:
  assumes "same_but A sh sh'" and "A \<inter> set as = {}"
  shows "path sh' x as y \<longleftrightarrow> path sh x as y"
proof (rule path_cong)
  show "\<forall>a \<in> set as. d_next (sh' ! unat a) = d_next (sh ! unat a)"
    using assms(2) same_butD(1) [OF assms(1)] by (metis disjoint_iff)
qed (rule same_butD(2) [OF assms(1)])

lemma same_but_describes:
  assumes "same_but A sh sh'" and "A \<inter> set cs = {}"
  shows "describes fl sh' cs bufs as \<longleftrightarrow> describes fl sh cs bufs as"
proof -
  have "sh' ! unat (cs ! k) = sh ! unat (cs ! k)" if "k < length cs" for k
    using assms same_butD(1) [OF assms(1)] that nth_mem by blast
  then show ?thesis by (auto simp: describes_def)
qed

lemma describes_Cons:
  "describes fl sh (c # cs) (b # bufs) (a # as) \<longleftrightarrow>
     desc_for (fl 0) b a (sh ! unat c) \<and> describes (fl \<circ> Suc) sh cs bufs as"
  by (auto simp: describes_def less_Suc_eq_0_disj)

section \<open>Adding a chain of descriptors\<close>

lemma write_desc_ok:
  "unat i < vq_size q \<Longrightarrow> length (vq_desc q) = vq_size q \<Longrightarrow>
   write_desc i q = Some (q\<lparr>vq_desc := (vq_desc q)[unat i := desc_shadow q ! unat i]\<rparr>)"
  by (simp add: write_desc_def)

lemma add_direct_loop_ok:
  assumes "path (desc_shadow q) (free_head q) cs y" and "distinct cs" and "length bufs = length cs"
    and "\<forall>b \<in> set bufs. shareable b" and "share_all hal bufs h = Some (as, h')" and "length (vq_desc q) = vq_size q"
  shows "\<exists>sh de. add_direct_loop hal bufs lst q h =
      Some (last (lst # cs), q\<lparr>desc_shadow := sh, vq_desc := de, free_head := y\<rparr>, h') \<and>
    same_but (set cs) (desc_shadow q) sh \<and> same_but (set cs) (vq_desc q) de \<and>
    (\<forall>c \<in> set cs. de ! unat c = sh ! unat c \<and> d_next (sh ! unat c) = d_next (desc_shadow q ! unat c)) \<and>
    describes (\<lambda>_. DESC_NEXT) sh cs bufs as"
  using assms
proof (induction bufs arbitrary: cs lst q h as)
  case Nil
  then show ?case by (intro exI [of _ "desc_shadow q"] exI [of _ "vq_desc q"]) (auto simp: describes_def)
next
  case (Cons b bufs)
  obtain buf direction where b: "b = (buf, direction)" by (cases b)
  obtain c cs' where cs: "cs = c # cs'" using Cons.prems(3) by (cases cs) auto
  let ?sh = "desc_shadow q" and ?f = "free_head q"
  have c: "c = ?f" "unat ?f < length ?sh" "path ?sh (d_next (?sh ! unat ?f)) cs' y" using Cons.prems(1) cs by auto
  obtain a h1 as' where a: "hal_share hal buf direction h = Some (a, h1)" "share_all hal bufs h1 = Some (as', h')" "as = a # as'"
    using Cons.prems(5) b by (auto split: bind_splits)
  let ?d = "(?sh ! unat ?f)\<lparr>d_addr := a, d_len := of_nat (length buf), d_flags := DESC_NEXT OR dir_flag direction\<rparr>"
  let ?q = "q\<lparr>desc_shadow := ?sh[unat ?f := ?d], free_head := d_next (?sh ! unat ?f), vq_desc := (vq_desc q)[unat ?f := ?d]\<rparr>"
  have sb: "set_buf hal buf direction DESC_NEXT (?sh ! unat ?f) h = Some (?d, h1)"
    using set_buf_ok [OF _ a(1)] Cons.prems(4) b by simp
  have step: "add_direct_loop hal (b # bufs) lst q h = add_direct_loop hal bufs ?f ?q h1"
    using c(2) sb Cons.prems(4,6) b by (simp add: write_desc_def vec_get_def shareable_def Let_def)
  have s1: "same_but {c} ?sh (desc_shadow ?q)" "same_but {c} (vq_desc q) (vq_desc ?q)"
    using same_but_update [of c "{c}"] c(1) by simp_all
  have p: "path (desc_shadow ?q) (free_head ?q) cs' y"
    using same_but_path [OF s1(1), of cs'] Cons.prems(2) cs c(3) by simp
  obtain sh de where r: "add_direct_loop hal bufs ?f ?q h1 =
      Some (last (?f # cs'), ?q\<lparr>desc_shadow := sh, vq_desc := de, free_head := y\<rparr>, h')"
    "same_but (set cs') (desc_shadow ?q) sh" "same_but (set cs') (vq_desc ?q) de"
    "\<forall>x \<in> set cs'. de ! unat x = sh ! unat x \<and> d_next (sh ! unat x) = d_next (desc_shadow ?q ! unat x)"
    "describes (\<lambda>_. DESC_NEXT) sh cs' bufs as'"
    using Cons.IH [OF p, of h1 as' ?f] Cons.prems a(2) cs by auto
  have nc: "c \<notin> set cs'" using Cons.prems(2) cs by simp
  have at: "sh ! unat c = ?d" "de ! unat c = ?d"
    using same_butD(1) [OF r(2) nc] same_butD(1) [OF r(3) nc] c(1,2) Cons.prems(6) by simp_all
  have dn: "d_next (desc_shadow ?q ! unat x) = d_next (?sh ! unat x)" if "x \<in> set cs'" for x
  proof -
    have "x \<notin> {c}" using that nc by auto
    from same_butD(1) [OF s1(1) this] show ?thesis by simp
  qed
  have 1: "same_but (set cs) ?sh sh" "same_but (set cs) (vq_desc q) de"
    using same_but_trans [OF s1(1) r(2)] same_but_trans [OF s1(2) r(3)] cs by simp_all
  have 2: "\<forall>x \<in> set cs. de ! unat x = sh ! unat x \<and> d_next (sh ! unat x) = d_next (?sh ! unat x)"
    using r(4) dn at c(1) cs by auto
  have 3: "describes (\<lambda>_. DESC_NEXT) sh cs (b # bufs) as"
    using r(5) at(1) by (simp add: cs a(3) b describes_Cons desc_for_def comp_def)
  show ?case
    by (intro exI [of _ sh] exI [of _ de] conjI) (use step r(1) cs c(1) 1 2 3 in simp_all)
qed

lemma length_input_output [simp]: "length (input_output ins outs) = length ins + length outs"
  by (simp add: input_output_def)

lemma add_direct_ok:
  assumes p: "path (desc_shadow q) (free_head q) cs y" and d: "distinct cs" and n: "length cs = length ins + length outs" "cs \<noteq> []"
    and b: "\<forall>b \<in> set (input_output ins outs). shareable b"
    and sh: "share_all hal (input_output ins outs) h = Some (as, h')" and l: "length (vq_desc q) = vq_size q"
  shows "\<exists>sh de. add_direct hal ins outs q h =
      Some (hd cs, q\<lparr>desc_shadow := sh, vq_desc := de, free_head := y, num_used := num_used q + of_nat (length cs)\<rparr>, h') \<and>
    same_but (set cs) (desc_shadow q) sh \<and> same_but (set cs) (vq_desc q) de \<and>
    (\<forall>c \<in> set cs. de ! unat c = sh ! unat c \<and> d_next (sh ! unat c) = d_next (desc_shadow q ! unat c)) \<and>
    describes (chain_flags (length cs)) sh cs (input_output ins outs) as"
proof -
  let ?b = "input_output ins outs"
  obtain sh de where r: "add_direct_loop hal ?b (free_head q) q h =
      Some (last (free_head q # cs), q\<lparr>desc_shadow := sh, vq_desc := de, free_head := y\<rparr>, h')"
    "same_but (set cs) (desc_shadow q) sh" "same_but (set cs) (vq_desc q) de"
    "\<forall>c \<in> set cs. de ! unat c = sh ! unat c \<and> d_next (sh ! unat c) = d_next (desc_shadow q ! unat c)"
    "describes (\<lambda>_. DESC_NEXT) sh cs ?b as"
    using add_direct_loop_ok [OF p d _ b sh l, of "free_head q"] n by auto
  let ?x = "last cs"
  let ?d = "(sh ! unat ?x)\<lparr>d_flags := d_flags (sh ! unat ?x) AND NOT DESC_NEXT\<rparr>"
  let ?sh = "sh[unat ?x := ?d]" and ?de = "de[unat ?x := ?d]"
  have x: "?x \<in> set cs" "unat ?x < length sh" "length de = length sh" "length sh = vq_size q"
    using n(2) path_in [OF p, of ?x] same_butD(2) [OF r(2)] same_butD(2) [OF r(3)] l by simp_all
  have hd: "hd cs = free_head q" using p n(2) by (cases cs) auto
  have 0: "add_direct hal ins outs q h =
      Some (hd cs, q\<lparr>desc_shadow := ?sh, vq_desc := ?de, free_head := y, num_used := num_used q + of_nat (length cs)\<rparr>, h')"
    using r(1) x n hd by (simp add: add_direct_def Let_def vec_get_def write_desc_def)
  have 1: "same_but (set cs) (desc_shadow q) ?sh" "same_but (set cs) (vq_desc q) ?de"
    using same_but_trans [OF r(2) same_but_update [OF x(1)]] same_but_trans [OF r(3) same_but_update [OF x(1)]] by simp_all
  have at: "?sh ! unat c = (if c = ?x then ?d else sh ! unat c)" "?de ! unat c = (if c = ?x then ?d else de ! unat c)" for c
    using x by (auto simp: nth_list_update word_unat_eq_iff)
  have 2: "\<forall>c \<in> set cs. ?de ! unat c = ?sh ! unat c \<and> d_next (?sh ! unat c) = d_next (desc_shadow q ! unat c)"
    using r(4) x(1) unfolding at by auto
  have 3: "desc_for (chain_flags (length cs) k) (?b ! k) (as ! k) (?sh ! unat (cs ! k))" if k: "k < length cs" for k
  proof (cases "Suc k < length cs")
    case True
    then have "cs ! k \<noteq> ?x" using d k by (simp add: last_conv_nth n(2) nth_eq_iff_index_eq)
    then show ?thesis using r(5) k True unfolding at describes_def by simp
  next
    case False
    then have "k = length cs - 1" using k by simp
    then have "cs ! k = ?x" by (simp add: last_conv_nth n(2))
    moreover from this have "desc_for DESC_NEXT (?b ! k) (as ! k) (sh ! unat ?x)" using r(5) k unfolding describes_def by metis
    ultimately show ?thesis using False unfolding at by (simp add: desc_for_def)
  qed
  have 4: "describes (chain_flags (length cs)) ?sh cs ?b as" using 3 r(5) unfolding describes_def by simp
  show ?thesis by (intro exI [of _ ?sh] exI [of _ ?de] conjI) (fact 0 1 2 4)+
qed

subsection \<open>Indirect tables\<close>

text \<open>The table \<open>add_indirect\<close> builds for the given buffers and addresses.\<close>

definition table_for :: "bufs \<Rightarrow> usize list \<Rightarrow> descriptor list" where
  "table_for bufs as = map (\<lambda>k. \<lparr>d_addr = as ! k, d_len = of_nat (length (fst (bufs ! k))),
      d_flags = chain_flags (length bufs) k OR dir_flag (snd (bufs ! k)), d_next = of_nat (Suc k)\<rparr>) [0..<length bufs]"

lemma indirect_loop_ok:
  assumes "\<forall>b \<in> set bufs. shareable b" and "share_all hal bufs h = Some (as, h')"
  shows "indirect_loop hal i bufs h =
    Some (map (\<lambda>k. \<lparr>d_addr = as ! k, d_len = of_nat (length (fst (bufs ! k))),
       d_flags = DESC_NEXT OR dir_flag (snd (bufs ! k)), d_next = of_nat (Suc (i + k))\<rparr>) [0..<length bufs], h')"
  using assms
proof (induction bufs arbitrary: i h as)
  case (Cons b bufs)
  obtain buf direction where b: "b = (buf, direction)" by (cases b)
  obtain a h1 as' where a: "hal_share hal buf direction h = Some (a, h1)" "share_all hal bufs h1 = Some (as', h')" "as = a # as'"
    using Cons.prems(2) b by (auto split: bind_splits)
  have s: "shareable (buf, direction)" using Cons.prems(1) b by simp
  show ?case
    using Cons.IH [of h1 as' "Suc i"] Cons.prems(1) a
    by (simp add: b set_buf_ok [OF s a(1)] zero_desc_def upt_conv_Cons map_Suc_upt [symmetric] comp_def del: upt_Suc)
qed simp

lemma clear_last_table:
  assumes "bufs \<noteq> []"
  shows "clear_last (map (\<lambda>k. \<lparr>d_addr = as ! k, d_len = of_nat (length (fst (bufs ! k))),
      d_flags = DESC_NEXT OR dir_flag (snd (bufs ! k)), d_next = of_nat (Suc (0 + k))\<rparr>) [0..<length bufs]) = table_for bufs as"
proof -
  obtain n where n: "length bufs = Suc n" using assms by (cases bufs) auto
  show ?thesis unfolding clear_last_def table_for_def n by simp
qed

lemma length_table_bytes: "length (concat (map desc_bytes ds)) = 16 * length ds"
  by (induction ds) (simp_all add: desc_bytes_def)

lemma length_table_for [simp]: "length (table_for bufs as) = length bufs"
  by (simp add: table_for_def)

section \<open>The invariant\<close>

text \<open>
  A request in flight: its descriptors, its buffers and the addresses at which they are shared, and
  the indirect table with its address if it has one.
\<close>

record request =
  rq_chain :: "u16 list"
  rq_ins :: "u8 list list"
  rq_outs :: "u8 list list"
  rq_addrs :: "usize list"
  rq_table :: "(usize \<times> descriptor list) option"

abbreviation rq_bufs :: "request \<Rightarrow> bufs" where
  "rq_bufs r \<equiv> input_output (rq_ins r) (rq_outs r)"

definition req_ok :: "descriptor list \<Rightarrow> descriptor list \<Rightarrow> descriptor list option list \<Rightarrow> request \<Rightarrow> bool" where
  "req_ok sh de il r \<longleftrightarrow> (\<forall>b \<in> set (rq_bufs r). shareable b) \<and> rq_chain r \<noteq> [] \<and>
     (\<forall>c \<in> set (rq_chain r). unat c < length sh \<and> de ! unat c = sh ! unat c) \<and>
     (case rq_table r of
        None \<Rightarrow> (\<exists>y. path sh (hd (rq_chain r)) (rq_chain r) y) \<and>
                describes (chain_flags (length (rq_chain r))) sh (rq_chain r) (rq_bufs r) (rq_addrs r)
      | Some (a, ds) \<Rightarrow> \<exists>c. rq_chain r = [c] \<and> ds = table_for (rq_bufs r) (rq_addrs r) \<and> length (rq_addrs r) = length (rq_bufs r) \<and>
                desc_for DESC_INDIRECT (concat (map desc_bytes ds), DriverToDevice) a (sh ! unat c) \<and> il ! unat c = Some ds)"

definition in_flight :: "request list \<Rightarrow> u16 list" where
  "in_flight rs = concat (map rq_chain rs)"

text \<open>
  The descriptors are split between the free list \<open>fl\<close> and the requests in flight \<open>rs\<close>; the device's
  copy of a chain in flight is the driver's; an indirect table is kept exactly for the requests
  that use one.
\<close>

definition vq_inv :: "virt_queue \<Rightarrow> u16 list \<Rightarrow> request list \<Rightarrow> bool" where
  "vq_inv q fl rs \<longleftrightarrow>
     (\<exists>k < 16. vq_size q = 2 ^ k) \<and> length (vq_desc q) = vq_size q \<and> length (av_ring (vq_avail q)) = vq_size q \<and>
     length (us_ring (vq_used q)) = vq_size q \<and> length (indirect_lists q) = vq_size q \<and>
     (\<exists>y. path (desc_shadow q) (free_head q) fl y) \<and>
     distinct (fl @ in_flight rs) \<and> length fl + length (in_flight rs) = vq_size q \<and>
     unat (num_used q) = length (in_flight rs) \<and> av_idx (vq_avail q) = avail_idx q \<and>
     (\<forall>r \<in> set rs. req_ok (desc_shadow q) (vq_desc q) (indirect_lists q) r) \<and>
     (\<forall>x. unat x < vq_size q \<longrightarrow> (\<forall>r \<in> set rs. x \<in> set (rq_chain r) \<longrightarrow> rq_table r = None) \<longrightarrow> indirect_lists q ! unat x = None)"

lemma in_flight_app [simp]: "in_flight (rs @ ss) = in_flight rs @ in_flight ss" "in_flight (r # rs) = rq_chain r @ in_flight rs"
  "in_flight [] = []"
  by (simp_all add: in_flight_def)

lemma in_flight_in: "r \<in> set rs \<Longrightarrow> set (rq_chain r) \<subseteq> set (in_flight rs)"
  by (auto simp: in_flight_def)

text \<open>A request is not affected by changes of other descriptors.\<close>

lemma req_ok_frame:
  assumes ok: "req_ok sh de il r" and s: "same_but A sh sh'" "same_but A de de'" and dis: "A \<inter> set (rq_chain r) = {}"
    and il: "\<forall>c \<in> set (rq_chain r). il' ! unat c = il ! unat c"
  shows "req_ok sh' de' il' r"
proof -
  have at: "sh' ! unat c = sh ! unat c" "de' ! unat c = de ! unat c" if "c \<in> set (rq_chain r)" for c
    using that dis same_butD(1) [OF s(1)] same_butD(1) [OF s(2)] by blast+
  show ?thesis
    using ok il at same_but_path [OF s(1) dis] same_but_describes [OF s(1) dis] same_butD(2) [OF s(1)]
    unfolding req_ok_def by (auto split: option.splits)
qed

lemma vq_size_word:
  fixes x :: u16
  assumes "vq_inv q fl rs"
  shows "unat (x AND (of_nat (vq_size q) - 1)) < vq_size q" "vq_size q \<le> 32768"
proof -
  obtain k where k: "k < 16" "vq_size q = 2 ^ k" using assms by (auto simp: vq_inv_def)
  have m: "(of_nat (vq_size q) - 1 :: u16) = mask k" using k by (simp add: mask_eq_exp_minus_1)
  have "unat (take_bit k x) = take_bit k (unat x)" by (rule unsigned_take_bit_eq)
  then have "unat (x AND mask k) < vq_size q" using k(2) take_bit_nat_less_exp [of k "unat x"] by (simp add: take_bit_eq_mask)
  then show "unat (x AND (of_nat (vq_size q) - 1)) < vq_size q" by (simp only: m)
  have "(2 :: nat) ^ k \<le> 2 ^ 15" using k(1) by (intro power_increasing) auto
  then show "vq_size q \<le> 32768" using k(2) by simp
qed

section \<open>Offering a request\<close>

text \<open>What \<open>add\<close> asks the platform to share: the buffers in order, then the indirect table.\<close>

definition share_plan :: "'h hal \<Rightarrow> bool \<Rightarrow> bufs \<Rightarrow> 'h \<Rightarrow> (usize list \<times> (usize \<times> descriptor list) option \<times> 'h) option" where
  "share_plan hal ind bufs h =
     do { (as, h) \<leftarrow> share_all hal bufs h;
          if ind \<and> 1 < length bufs then
            do { (a, h) \<leftarrow> hal_share hal (concat (map desc_bytes (table_for bufs as))) DriverToDevice h;
                 Some (as, Some (a, table_for bufs as), h) }
          else Some (as, None, h) }"

definition has_room :: "virt_queue \<Rightarrow> nat \<Rightarrow> bool" where
  "has_room q n \<longleftrightarrow> unat (num_used q) + 1 \<le> vq_size q \<and> n \<le> vq_size q \<and> (indirect q \<or> unat (num_used q) + n \<le> vq_size q)"

lemma shareable_table:
  assumes "1 \<le> length bufs" and "length bufs \<le> 32768"
  shows "shareable (concat (map desc_bytes (table_for bufs as)), DriverToDevice)"
proof -
  have "length (concat (map desc_bytes (table_for bufs as))) = 16 * length bufs" by (simp add: length_table_bytes)
  then show ?thesis using assms by (auto simp: shareable_def simp del: concat_eq_Nil_conv)
qed

lemma add_indirect_ok:
  assumes f: "free_head q = c" "unat c < vq_size q" "length (vq_desc q) = vq_size q" "length (indirect_lists q) = vq_size q"
    "indirect_lists q ! unat c = None"
    and b: "\<forall>b \<in> set (input_output ins outs). shareable b" "1 \<le> length (input_output ins outs)" "length (input_output ins outs) \<le> 32768"
    and sh: "share_all hal (input_output ins outs) h = Some (as, h1)"
    and tb: "ds = table_for (input_output ins outs) as" "hal_share hal (concat (map desc_bytes ds)) DriverToDevice h1 = Some (a, h')"
  shows "\<exists>d. add_indirect hal ins outs q h =
      Some (c, q\<lparr>desc_shadow := (desc_shadow q)[unat c := d], vq_desc := (vq_desc q)[unat c := d],
                free_head := d_next (desc_shadow q ! unat c), indirect_lists := (indirect_lists q)[unat c := Some ds],
                num_used := num_used q + 1\<rparr>, h') \<and>
    desc_for DESC_INDIRECT (concat (map desc_bytes ds), DriverToDevice) a d"
proof -
  let ?b = "input_output ins outs" and ?bs = "concat (map desc_bytes ds)"
  have ne: "?b \<noteq> []" using b(2) by (auto simp del: length_input_output)
  let ?d = "(desc_shadow q ! unat c)\<lparr>d_addr := a, d_len := of_nat (length ?bs), d_flags := DESC_INDIRECT OR dir_flag DriverToDevice\<rparr>"
  have l: "indirect_loop hal 0 ?b h = Some (map (\<lambda>k. \<lparr>d_addr = as ! k, d_len = of_nat (length (fst (?b ! k))),
       d_flags = DESC_NEXT OR dir_flag (snd (?b ! k)), d_next = of_nat (Suc (0 + k))\<rparr>) [0..<length ?b], h1)"
    by (rule indirect_loop_ok [OF b(1) sh])
  have s: "set_buf hal ?bs DriverToDevice DESC_INDIRECT (desc_shadow q ! unat c) h1 = Some (?d, h')"
    by (rule set_buf_ok [OF _ tb(2)]) (simp only: tb(1) shareable_table [OF b(2,3)])
  have "add_indirect hal ins outs q h =
      Some (c, q\<lparr>desc_shadow := (desc_shadow q)[unat c := ?d], vq_desc := (vq_desc q)[unat c := ?d],
                free_head := d_next (desc_shadow q ! unat c), indirect_lists := (indirect_lists q)[unat c := Some ds],
                num_used := num_used q + 1\<rparr>, h')"
    unfolding add_indirect_def l Let_def bind.bind_lunit prod.case clear_last_table [OF ne] tb(1) [symmetric]
    using f s by (simp add: vec_get_def write_desc_def del: map_map)
  then show ?thesis by (intro exI [of _ ?d]) (simp add: desc_for_def)
qed

lemma path_split:
  assumes "path sh x fl y" and "n \<le> length fl"
  shows "\<exists>z. path sh x (take n fl) z \<and> path sh z (drop n fl) y"
  using assms path_app [of sh x "take n fl" "drop n fl" y] by simp

text \<open>Moving the first free descriptors into a new request keeps the accounts.\<close>

lemma vq_inv_take:
  assumes inv: "vq_inv q fl rs" and fl: "fl = cs @ fl'" and cs: "cs = rq_chain r"
    and q': "same_but (set cs) (desc_shadow q) (desc_shadow q')" "same_but (set cs) (vq_desc q) (vq_desc q')"
      "vq_avail q' = (vq_avail q)\<lparr>av_ring := ring, av_idx := avail_idx q'\<rparr>" "length ring = vq_size q" "vq_used q' = vq_used q"
      "num_used q' = num_used q + of_nat (length cs)" "\<exists>y. path (desc_shadow q') (free_head q') fl' y"
      "length (indirect_lists q') = length (indirect_lists q)"
      "\<forall>x. x \<notin> set cs \<longrightarrow> indirect_lists q' ! unat x = indirect_lists q ! unat x"
      "rq_table r = None \<longrightarrow> indirect_lists q' = indirect_lists q"
    and ok: "req_ok (desc_shadow q') (vq_desc q') (indirect_lists q') r"
  shows "vq_inv q' fl' (rs @ [r])"
proof -
  note I = inv [unfolded vq_inv_def fl]
  have sz: "vq_size q' = vq_size q" "length (vq_desc q') = length (vq_desc q)"
    using same_butD(2) [OF q'(1)] same_butD(2) [OF q'(2)] by simp_all
  have old: "req_ok (desc_shadow q') (vq_desc q') (indirect_lists q') s" if s: "s \<in> set rs" for s
  proof (rule req_ok_frame [OF _ q'(1,2)])
    show "req_ok (desc_shadow q) (vq_desc q) (indirect_lists q) s" using I s by blast
    show dis: "set cs \<inter> set (rq_chain s) = {}" using I in_flight_in [OF s] by auto
    show "\<forall>c \<in> set (rq_chain s). indirect_lists q' ! unat c = indirect_lists q ! unat c" using q'(9) dis by blast
  qed
  have n: "length (in_flight rs) + length cs < 2 ^ 16" using I vq_size_word(2) [OF inv] by simp
  then have "unat (num_used q') = length (in_flight rs) + length cs"
    using I q'(6) by (simp add: unat_word_ariths unat_of_nat take_bit_eq_mod)
  moreover have "indirect_lists q' ! unat x = None"
    if "unat x < vq_size q'" "\<forall>s \<in> set (rs @ [r]). x \<in> set (rq_chain s) \<longrightarrow> rq_table s = None" for x
  proof (cases "rq_table r")
    case None
    then show ?thesis using I that sz q'(10) by auto
  next
    case Some
    then have "x \<notin> set cs" using that(2) cs by auto
    then show ?thesis using I that sz q'(9) by auto
  qed
  ultimately show ?thesis
    unfolding vq_inv_def using I sz q'(3-5,7,8) old ok cs by auto
qed

text \<open>The state after \<open>add\<close>: the head is published in the next slot of the available ring.\<close>

definition published :: "u16 \<Rightarrow> virt_queue \<Rightarrow> virt_queue \<Rightarrow> bool" where
  "published head q q' \<longleftrightarrow> vq_used q' = vq_used q \<and> avail_idx q' = avail_idx q + 1 \<and>
     vq_avail q' = (vq_avail q)\<lparr>av_ring := (av_ring (vq_avail q))[unat (avail_idx q AND (of_nat (vq_size q) - 1)) := head],
                              av_idx := avail_idx q + 1\<rparr> \<and>
     last_used_idx q' = last_used_idx q \<and> event_idx q' = event_idx q \<and> indirect q' = indirect q \<and> queue_idx q' = queue_idx q \<and>
     vq_size q' = vq_size q"

definition plan_request :: "u16 list \<Rightarrow> u8 list list \<Rightarrow> u8 list list \<Rightarrow> usize list \<Rightarrow> (usize \<times> descriptor list) option \<Rightarrow> request" where
  "plan_request fl ins outs as tb =
     \<lparr>rq_chain = take (if tb = None then length ins + length outs else 1) fl, rq_ins = ins, rq_outs = outs, rq_addrs = as, rq_table = tb\<rparr>"

lemma vq_add_direct:
  fixes ins outs :: "u8 list list"
  defines "n \<equiv> length ins + length outs"
  assumes inv: "vq_inv q fl rs" and n: "0 < n" "n \<le> length fl" and b: "\<forall>b \<in> set (input_output ins outs). shareable b"
    and sh: "share_all hal (input_output ins outs) h = Some (as, h')"
  shows "\<exists>q1. add_direct hal ins outs q h = Some (hd fl, q1, h') \<and>
    (\<forall>ring i. length ring = vq_size q \<longrightarrow>
       vq_inv (q1\<lparr>vq_avail := (vq_avail q1)\<lparr>av_ring := ring, av_idx := i\<rparr>, avail_idx := i\<rparr>) (drop n fl) (rs @ [plan_request fl ins outs as None])) \<and>
    vq_used q1 = vq_used q \<and> avail_idx q1 = avail_idx q \<and> vq_avail q1 = vq_avail q \<and> last_used_idx q1 = last_used_idx q \<and>
    event_idx q1 = event_idx q \<and> indirect q1 = indirect q \<and> queue_idx q1 = queue_idx q \<and> vq_size q1 = vq_size q"
proof -
  let ?cs = "take n fl"
  note I = inv [unfolded vq_inv_def]
  obtain y where "path (desc_shadow q) (free_head q) fl y" using I by blast
  then obtain z where z: "path (desc_shadow q) (free_head q) ?cs z" "path (desc_shadow q) z (drop n fl) y"
    using path_split [OF _ n(2)] by blast
  have dis: "distinct (?cs @ drop n fl)" and d: "distinct ?cs" using I by auto
  have len: "length ?cs = n" "?cs \<noteq> []" using n by auto
  have l: "length (vq_desc q) = vq_size q" using I by blast
  obtain sh' de where r: "add_direct hal ins outs q h =
      Some (hd ?cs, q\<lparr>desc_shadow := sh', vq_desc := de, free_head := z, num_used := num_used q + of_nat (length ?cs)\<rparr>, h')"
    "same_but (set ?cs) (desc_shadow q) sh'" "same_but (set ?cs) (vq_desc q) de"
    "\<forall>c \<in> set ?cs. de ! unat c = sh' ! unat c \<and> d_next (sh' ! unat c) = d_next (desc_shadow q ! unat c)"
    "describes (chain_flags (length ?cs)) sh' ?cs (input_output ins outs) as"
    using add_direct_ok [OF z(1) d _ len(2) b sh l] len(1) n_def by metis
  let ?q = "q\<lparr>desc_shadow := sh', vq_desc := de, free_head := z, num_used := num_used q + of_nat (length ?cs)\<rparr>"
  let ?r = "plan_request fl ins outs as None"
  have rc: "rq_chain ?r = ?cs" "rq_table ?r = None" by (simp_all add: plan_request_def n_def)
  have sz: "length sh' = vq_size q" using same_butD(2) [OF r(2)] .
  have p': "path sh' (free_head q) ?cs z" using z(1) path_cong [of ?cs sh' "desc_shadow q"] r(4) sz by blast
  have hd: "hd ?cs = free_head q" using z(1) len(2) by (cases ?cs) auto
  have ds: "describes (chain_flags n) sh' ?cs (input_output ins outs) as" using r(5) unfolding len(1) .
  have ok: "req_ok sh' de il ?r" for il
    unfolding req_ok_def rc using b r(4) ds p' hd len path_in [OF p'] by (auto simp: plan_request_def)
  have fr: "path sh' z (drop n fl) y" using z(2) same_but_path [OF r(2), of "drop n fl"] dis unfolding distinct_append by blast
  have "vq_inv (?q\<lparr>vq_avail := (vq_avail ?q)\<lparr>av_ring := ring, av_idx := i\<rparr>, avail_idx := i\<rparr>) (drop n fl) (rs @ [?r])"
    if "length ring = vq_size q" for ring i
    by (rule vq_inv_take [OF inv, of ?cs _ _ _ ring]) (use that r(2,3) ok fr rc in auto)
  then show ?thesis using r(1) sz len by (intro exI [of _ ?q]) auto
qed

lemma vq_add_indirect:
  fixes ins outs :: "u8 list list"
  assumes inv: "vq_inv q fl rs" and fl: "fl \<noteq> []" and n: "length ins + length outs \<le> vq_size q" "1 < length ins + length outs"
    and b: "\<forall>b \<in> set (input_output ins outs). shareable b"
    and sh: "share_all hal (input_output ins outs) h = Some (as, h1)"
    and tb: "ds = table_for (input_output ins outs) as" "hal_share hal (concat (map desc_bytes ds)) DriverToDevice h1 = Some (a, h')"
  shows "\<exists>q1. add_indirect hal ins outs q h = Some (hd fl, q1, h') \<and>
    (\<forall>ring i. length ring = vq_size q \<longrightarrow>
       vq_inv (q1\<lparr>vq_avail := (vq_avail q1)\<lparr>av_ring := ring, av_idx := i\<rparr>, avail_idx := i\<rparr>) (drop 1 fl) (rs @ [plan_request fl ins outs as (Some (a, ds))])) \<and>
    vq_used q1 = vq_used q \<and> avail_idx q1 = avail_idx q \<and> vq_avail q1 = vq_avail q \<and> last_used_idx q1 = last_used_idx q \<and>
    event_idx q1 = event_idx q \<and> indirect q1 = indirect q \<and> queue_idx q1 = queue_idx q \<and> vq_size q1 = vq_size q"
proof -
  obtain c fl' where c: "fl = c # fl'" using fl by (cases fl) auto
  note I = inv [unfolded vq_inv_def c]
  obtain y where y: "path (desc_shadow q) (free_head q) (c # fl') y" using I by blast
  have f: "free_head q = c" "unat c < vq_size q" "path (desc_shadow q) (d_next (desc_shadow q ! unat c)) fl' y" using y by auto
  have free: "\<forall>r \<in> set rs. c \<notin> set (rq_chain r)" using I in_flight_in by fastforce
  have il: "indirect_lists q ! unat c = None" using I f(2) free by blast
  have len: "length (vq_desc q) = vq_size q" "length (indirect_lists q) = vq_size q" using I by blast+
  have bb: "1 \<le> length (input_output ins outs)" "length (input_output ins outs) \<le> 32768" using n vq_size_word(2) [OF inv] by simp_all
  obtain d where d: "add_indirect hal ins outs q h =
      Some (c, q\<lparr>desc_shadow := (desc_shadow q)[unat c := d], vq_desc := (vq_desc q)[unat c := d],
                free_head := d_next (desc_shadow q ! unat c), indirect_lists := (indirect_lists q)[unat c := Some ds],
                num_used := num_used q + 1\<rparr>, h')"
    "desc_for DESC_INDIRECT (concat (map desc_bytes ds), DriverToDevice) a d"
    using add_indirect_ok [OF f(1,2) len il b bb sh tb] by blast
  let ?q = "q\<lparr>desc_shadow := (desc_shadow q)[unat c := d], vq_desc := (vq_desc q)[unat c := d],
                free_head := d_next (desc_shadow q ! unat c), indirect_lists := (indirect_lists q)[unat c := Some ds],
                num_used := num_used q + 1\<rparr>"
  let ?r = "plan_request fl ins outs as (Some (a, ds))"
  have rc: "rq_chain ?r = [c]" "rq_table ?r = Some (a, ds)" by (simp_all add: plan_request_def c)
  have s1: "same_but {c} (desc_shadow q) (desc_shadow ?q)" "same_but {c} (vq_desc q) (vq_desc ?q)"
    using same_but_update [of c "{c}"] by simp_all
  have ok: "req_ok (desc_shadow ?q) (vq_desc ?q) (indirect_lists ?q) ?r"
    unfolding req_ok_def rc using b f(2) len d(2) tb(1) length_share_all [OF sh] by (auto simp: plan_request_def)
  have fr: "path (desc_shadow ?q) (free_head ?q) fl' y" using f(3) same_but_path [OF s1(1), of fl'] I by auto
  have other: "\<forall>x. x \<notin> {c} \<longrightarrow> indirect_lists ?q ! unat x = indirect_lists q ! unat x"
    by (auto simp: nth_list_update_neq word_unat_eq_iff)
  have "vq_inv (?q\<lparr>vq_avail := (vq_avail ?q)\<lparr>av_ring := ring, av_idx := i\<rparr>, avail_idx := i\<rparr>) fl' (rs @ [?r])"
    if "length ring = vq_size q" for ring i
    by (rule vq_inv_take [OF inv, of "[c]" _ _ _ ring]) (use that s1 ok fr rc other c in auto)
  then show ?thesis using d(1) c by (intro exI [of _ ?q]) auto
qed

lemma vq_add_ok:
  fixes ins outs :: "u8 list list"
  assumes inv: "vq_inv q fl rs" and ne: "ins \<noteq> [] \<or> outs \<noteq> []" and room: "has_room q (length ins + length outs)"
    and b: "\<forall>b \<in> set (input_output ins outs). shareable b"
    and plan: "share_plan hal (indirect q) (input_output ins outs) h = Some (as, tb, h')"
  shows "\<exists>q'. vq_add hal ins outs q h = Some (Inr (hd fl), q', h') \<and> published (hd fl) q q' \<and>
    rq_chain (plan_request fl ins outs as tb) \<noteq> [] \<and> hd (rq_chain (plan_request fl ins outs as tb)) = hd fl \<and>
    vq_inv q' (drop (if tb = None then length ins + length outs else 1) fl) (rs @ [plan_request fl ins outs as tb])"
proof -
  let ?n = "length ins + length outs" and ?m = "if tb = None then length ins + length outs else 1" and ?r = "plan_request fl ins outs as tb"
  note I = inv [unfolded vq_inv_def]
  have n: "0 < ?n" using ne by auto
  have u: "length fl + unat (num_used q) = vq_size q" using I by auto
  have fl: "fl \<noteq> []" using room u by (auto simp: has_room_def)
  obtain q1 where q1: "(if indirect q \<and> 1 < ?n then add_indirect hal ins outs q h else add_direct hal ins outs q h) = Some (hd fl, q1, h')"
    "\<forall>ring i. length ring = vq_size q \<longrightarrow>
       vq_inv (q1\<lparr>vq_avail := (vq_avail q1)\<lparr>av_ring := ring, av_idx := i\<rparr>, avail_idx := i\<rparr>) (drop ?m fl) (rs @ [?r])"
    "vq_used q1 = vq_used q" "avail_idx q1 = avail_idx q" "vq_avail q1 = vq_avail q" "last_used_idx q1 = last_used_idx q"
    "event_idx q1 = event_idx q" "indirect q1 = indirect q" "queue_idx q1 = queue_idx q" "vq_size q1 = vq_size q"
  proof (cases "indirect q \<and> 1 < ?n")
    case True
    then obtain h1 a where t: "share_all hal (input_output ins outs) h = Some (as, h1)"
      "tb = Some (a, table_for (input_output ins outs) as)"
      "hal_share hal (concat (map desc_bytes (table_for (input_output ins outs) as))) DriverToDevice h1 = Some (a, h')"
      using plan by (auto simp: share_plan_def split: bind_splits)
    show ?thesis
      using vq_add_indirect [OF inv fl _ _ b t(1) refl t(3)] True room t(2) that by (auto simp: has_room_def)
  next
    case False
    then have t: "share_all hal (input_output ins outs) h = Some (as, h')" "tb = None"
      using plan by (auto simp: share_plan_def split: bind_splits if_splits)
    have "?n \<le> length fl" using False room u by (auto simp: has_room_def)
    then show ?thesis using vq_add_direct [OF inv n _ b t(1)] False t(2) that by auto
  qed
  let ?s = "unat (avail_idx q AND (of_nat (vq_size q) - 1))"
  let ?ring = "(av_ring (vq_avail q))[?s := hd fl]" and ?i = "avail_idx q + 1"
  let ?q = "q1\<lparr>vq_avail := (vq_avail q1)\<lparr>av_ring := ?ring, av_idx := ?i\<rparr>, avail_idx := ?i\<rparr>"
  have s: "?s < length (av_ring (vq_avail q))" using vq_size_word(1) [OF inv] I by simp
  have "vq_add hal ins outs q h = Some (Inr (hd fl), ?q, h')"
    using q1(1,4,5,10) s n ne room by (auto simp: vq_add_def has_room_def Let_def)
  moreover have "published (hd fl) q ?q" using q1 by (simp add: published_def)
  moreover have "vq_inv ?q (drop ?m fl) (rs @ [?r])" using q1(2) I by simp
  moreover have "rq_chain ?r \<noteq> []" "hd (rq_chain ?r) = hd fl" using fl n by (auto simp: plan_request_def)
  ultimately show ?thesis by blast
qed

text \<open>The other outcomes of \<open>add\<close> leave the queue and the platform as they were.\<close>

lemma vq_add_refused:
  "vq_add hal [] [] q h = Some (Inl InvalidParam, q, h)"
  "ins \<noteq> [] \<or> outs \<noteq> [] \<Longrightarrow> \<not> has_room q (length ins + length outs) \<Longrightarrow> vq_add hal ins outs q h = Some (Inl QueueFull, q, h)"
  by (auto simp: vq_add_def has_room_def Let_def)

section \<open>Taking a request back\<close>

text \<open>What \<open>pop_used\<close> asks the platform to take back: the indirect table, then the buffers in order.\<close>

fun unshare_list :: "'h hal \<Rightarrow> usize list \<Rightarrow> bufs \<Rightarrow> 'h \<Rightarrow> (u8 list list \<times> 'h) option" where
  "unshare_list hal as [] h = Some ([], h)"
| "unshare_list hal [] (x # bufs) h = None"
| "unshare_list hal (a # as) ((buf, direction) # bufs) h =
     do { (buf, h) \<leftarrow> hal_unshare hal a buf direction h;
          (rest, h) \<leftarrow> unshare_list hal as bufs h;
          Some (buf # rest, h) }"

definition unshare_plan :: "'h hal \<Rightarrow> request \<Rightarrow> 'h \<Rightarrow> (u8 list list \<times> 'h) option" where
  "unshare_plan hal r h =
     (case rq_table r of
        None \<Rightarrow> unshare_list hal (rq_addrs r) (rq_bufs r) h
      | Some (a, ds) \<Rightarrow>
          do { (_, h) \<leftarrow> hal_unshare hal a (concat (map desc_bytes ds)) DriverToDevice h;
               unshare_list hal (rq_addrs r) (rq_bufs r) h })"

lemma unshare_all_list:
  "\<forall>b \<in> set bufs. shareable b \<Longrightarrow> unshare_all hal ds bufs h = unshare_list hal (map d_addr ds) bufs h"
  by (induction hal ds bufs h rule: unshare_all.induct) (auto simp: shareable_def intro!: bind_option_cong split: prod.splits)

lemma recycle_loop_ok:
  assumes "path (desc_shadow q) (hd cs) cs y" and "cs \<noteq> []" and "distinct cs"
    and "describes (chain_flags (length cs)) (desc_shadow q) cs bufs as" and "\<forall>b \<in> set bufs. shareable b"
    and "length (vq_desc q) = vq_size q" and "unshare_list hal as bufs h = Some (out, h')"
  shows "\<exists>sh de. recycle_loop hal orig bufs (Some (hd cs)) q h =
      Some (None, out, q\<lparr>desc_shadow := sh, vq_desc := de, num_used := num_used q - of_nat (length cs)\<rparr>, h') \<and>
    same_but (set cs) (desc_shadow q) sh \<and> same_but (set cs) (vq_desc q) de \<and> path sh (hd cs) cs orig"
  using assms
proof (induction bufs arbitrary: cs q h as out)
  case Nil
  then show ?case by (simp add: describes_def)
next
  case (Cons b bufs)
  obtain buf direction where b: "b = (buf, direction)" by (cases b)
  obtain c cs' where cs: "cs = c # cs'" using Cons.prems(2) by (cases cs) auto
  obtain a as' where as: "as = a # as'" using Cons.prems(4) cs by (cases as) (auto simp: describes_def)
  let ?sh = "desc_shadow q" and ?d = "desc_shadow q ! unat c"
  have ub: "buf \<noteq> []" using Cons.prems(5) b by (simp add: shareable_def)
  have c: "unat c < length ?sh" "path ?sh (d_next ?d) cs' y" using Cons.prems(1) cs by auto
  have df: "desc_for (chain_flags (length cs) 0) b a ?d" "describes (chain_flags (length cs')) ?sh cs' bufs as'"
  proof -
    have e: "chain_flags (length cs) \<circ> Suc = chain_flags (length cs')" by (auto simp: fun_eq_iff cs)
    note D = Cons.prems(4) [unfolded cs as describes_Cons, folded cs]
    show "desc_for (chain_flags (length cs) 0) b a ?d" using D by (rule conjunct1)
    show "describes (chain_flags (length cs')) ?sh cs' bufs as'" using D unfolding e by (rule conjunct2)
  qed
  obtain o1 h1 out' where u: "hal_unshare hal a buf direction h = Some (o1, h1)" "unshare_list hal as' bufs h1 = Some (out', h')"
    "out = o1 # out'" using Cons.prems(7) as b by (auto split: bind_splits)
  show ?case
  proof (cases "cs' = []")
    case True
    then have bn: "bufs = []" using df(2) by (simp add: describes_def)
    let ?e = "(unset_buf ?d)\<lparr>d_next := orig\<rparr>"
    let ?s = "?sh[unat c := ?e]" and ?t = "(vq_desc q)[unat c := ?e]"
    have nx: "desc_next (unset_buf ?d) = None" "d_addr ?d = a" using df(1) cs True by (simp_all add: desc_for_def desc_next_def unset_buf_def)
    have "recycle_loop hal orig (b # bufs) (Some (hd cs)) q h =
        Some (None, out, q\<lparr>desc_shadow := ?s, vq_desc := ?t, num_used := num_used q - of_nat (length cs)\<rparr>, h')"
      using nx u ub c(1) Cons.prems(6) cs True bn b by (simp add: Let_def vec_get_def write_desc_def)
    moreover have "same_but (set cs) ?sh ?s" "same_but (set cs) (vq_desc q) ?t" using same_but_update [of c "set cs"] cs by simp_all
    moreover have "path ?s (hd cs) cs orig" using cs True c(1) by simp
    ultimately show ?thesis by blast
  next
    case False
    let ?e = "unset_buf ?d"
    let ?q = "q\<lparr>desc_shadow := ?sh[unat c := ?e], num_used := num_used q - 1, vq_desc := (vq_desc q)[unat c := ?e]\<rparr>"
    have hd': "d_next ?d = hd cs'" using c(2) False by (cases cs') auto
    have nx: "desc_next ?e = Some (hd cs')" "d_addr ?d = a"
      using df(1) cs False hd' by (simp_all add: desc_for_def desc_next_def unset_buf_def)
    have s1: "same_but {c} ?sh (desc_shadow ?q)" "same_but {c} (vq_desc q) (vq_desc ?q)" using same_but_update [of c "{c}"] by simp_all
    have nc: "{c} \<inter> set cs' = {}" "c \<notin> set cs'" "distinct cs'" using Cons.prems(3) cs by auto
    have p1: "path (desc_shadow ?q) (hd cs') cs' y" using c(2) hd' same_but_path [OF s1(1) nc(1)] by simp
    have d1: "describes (chain_flags (length cs')) (desc_shadow ?q) cs' bufs as'" using df(2) same_but_describes [OF s1(1) nc(1)] by blast
    have sb: "\<forall>b \<in> set bufs. shareable b" "length (vq_desc ?q) = vq_size ?q" using Cons.prems(5,6) by simp_all
    obtain sh de where r: "recycle_loop hal orig bufs (Some (hd cs')) ?q h1 =
        Some (None, out', ?q\<lparr>desc_shadow := sh, vq_desc := de, num_used := num_used ?q - of_nat (length cs')\<rparr>, h')"
      "same_but (set cs') (desc_shadow ?q) sh" "same_but (set cs') (vq_desc ?q) de" "path sh (hd cs') cs' orig"
      using Cons.IH [OF p1 False nc(3) d1 sb u(2)] by blast
    have "recycle_loop hal orig (b # bufs) (Some (hd cs)) q h =
        Some (None, out, q\<lparr>desc_shadow := sh, vq_desc := de, num_used := num_used q - of_nat (length cs)\<rparr>, h')"
      using r(1) nx u ub c(1) Cons.prems(6) cs b by (simp add: Let_def vec_get_def write_desc_def algebra_simps)
    moreover have "same_but (set cs) ?sh sh" "same_but (set cs) (vq_desc q) de"
      using same_but_trans [OF s1(1) r(2)] same_but_trans [OF s1(2) r(3)] cs by simp_all
    moreover have "sh ! unat c = ?e" using same_butD(1) [OF r(2) nc(2)] c(1) by simp
    then have "path sh (hd cs) cs orig"
      using r(4) hd' c(1) cs same_butD(2) [OF r(2)] by (simp add: unset_buf_def)
    ultimately show ?thesis by blast
  qed
qed

text \<open>Giving the descriptors of a request back to the free list keeps the accounts.\<close>

lemma vq_inv_give:
  assumes inv: "vq_inv q fl (rs1 @ r # rs2)" and cs: "cs = rq_chain r"
    and q': "same_but (set cs) (desc_shadow q) (desc_shadow q')" "same_but (set cs) (vq_desc q) (vq_desc q')"
      "length (av_ring (vq_avail q')) = vq_size q" "av_idx (vq_avail q') = avail_idx q'"
      "vq_used q' = vq_used q" "num_used q' = num_used q - of_nat (length cs)"
      "path (desc_shadow q') (free_head q') cs (free_head q)" "length (indirect_lists q') = length (indirect_lists q)"
      "\<forall>x. x \<notin> set cs \<longrightarrow> indirect_lists q' ! unat x = indirect_lists q ! unat x"
      "\<forall>x \<in> set cs. indirect_lists q' ! unat x = None"
  shows "vq_inv q' (cs @ fl) (rs1 @ rs2)"
proof -
  note I = inv [unfolded vq_inv_def]
  have sz: "vq_size q' = vq_size q" "length (vq_desc q') = length (vq_desc q)"
    using same_butD(2) [OF q'(1)] same_butD(2) [OF q'(2)] by simp_all
  have dis: "set cs \<inter> set (in_flight (rs1 @ rs2)) = {}" "set cs \<inter> set fl = {}" using I cs by auto
  have old: "req_ok (desc_shadow q') (vq_desc q') (indirect_lists q') s" if s: "s \<in> set (rs1 @ rs2)" for s
  proof (rule req_ok_frame [OF _ q'(1,2)])
    show "req_ok (desc_shadow q) (vq_desc q) (indirect_lists q) s" using I s by auto
    show d: "set cs \<inter> set (rq_chain s) = {}" using dis(1) in_flight_in [OF s] by blast
    show "\<forall>c \<in> set (rq_chain s). indirect_lists q' ! unat c = indirect_lists q ! unat c" using q'(9) d by blast
  qed
  obtain y where "path (desc_shadow q) (free_head q) fl y" using I by blast
  then have p: "path (desc_shadow q') (free_head q') (cs @ fl) y" using q'(7) same_but_path [OF q'(1) dis(2)] by auto
  have n: "unat (num_used q) = length cs + length (in_flight (rs1 @ rs2))" using I cs by simp
  then have le: "of_nat (length cs) \<le> num_used q"
    by (simp add: word_le_nat_alt unat_of_nat take_bit_eq_mod)
  have "length cs < 2 ^ 16" using I cs vq_size_word(2) [OF inv] by simp
  then have u: "unat (num_used q') = length (in_flight (rs1 @ rs2))"
    using n le q'(6) by (simp add: unat_sub unat_of_nat take_bit_eq_mod)
  have il: "indirect_lists q' ! unat x = None"
    if x: "unat x < vq_size q'" "\<forall>s \<in> set (rs1 @ rs2). x \<in> set (rq_chain s) \<longrightarrow> rq_table s = None" for x
  proof (cases "x \<in> set cs")
    case False
    then have "\<forall>s \<in> set (rs1 @ r # rs2). x \<in> set (rq_chain s) \<longrightarrow> rq_table s = None" using x(2) cs by auto
    then show ?thesis using I x(1) sz q'(9) False by simp
  qed (use q'(10) in blast)
  have d: "distinct ((cs @ fl) @ in_flight (rs1 @ rs2))" "length (cs @ fl) + length (in_flight (rs1 @ rs2)) = vq_size q"
    using I cs by auto
  show ?thesis
    unfolding vq_inv_def using I sz q'(3-5,8) old p u il d by auto
qed

definition popped :: "virt_queue \<Rightarrow> virt_queue \<Rightarrow> bool" where
  "popped q q' \<longleftrightarrow> vq_used q' = vq_used q \<and> avail_idx q' = avail_idx q \<and> av_idx (vq_avail q') = av_idx (vq_avail q) \<and>
     av_ring (vq_avail q') = av_ring (vq_avail q) \<and> last_used_idx q' = last_used_idx q + 1 \<and>
     event_idx q' = event_idx q \<and> indirect q' = indirect q \<and> queue_idx q' = queue_idx q \<and> vq_size q' = vq_size q"

lemma map_addr_table:
  assumes "length as = length bufs"
  shows "map d_addr (table_for bufs as) = as"
  using assms by (auto simp: table_for_def intro: nth_equalityI)

lemma recycle_ok:
  assumes inv: "vq_inv q fl (rs1 @ r # rs2)" and un: "unshare_plan hal r h = Some (out, h')"
  shows "\<exists>q1. recycle_descriptors hal (hd (rq_chain r)) (rq_ins r) (rq_outs r) q h = Some (out, q1, h') \<and>
    (\<forall>i e. vq_inv (q1\<lparr>last_used_idx := i, vq_avail := (vq_avail q1)\<lparr>av_used_event := e\<rparr>\<rparr>) (rq_chain r @ fl) (rs1 @ rs2)) \<and>
    vq_used q1 = vq_used q \<and> avail_idx q1 = avail_idx q \<and> vq_avail q1 = vq_avail q \<and> last_used_idx q1 = last_used_idx q \<and>
    event_idx q1 = event_idx q \<and> indirect q1 = indirect q \<and> queue_idx q1 = queue_idx q \<and> vq_size q1 = vq_size q"
proof -
  let ?cs = "rq_chain r" and ?q0 = "q\<lparr>free_head := hd (rq_chain r)\<rparr>"
  note I = inv [unfolded vq_inv_def]
  have ok: "req_ok (desc_shadow q) (vq_desc q) (indirect_lists q) r" using I by auto
  have len: "length (vq_desc q) = vq_size q" "length (indirect_lists q) = vq_size q" "length (av_ring (vq_avail q)) = vq_size q"
    "av_idx (vq_avail q) = avail_idx q" using I by blast+
  have ne: "?cs \<noteq> []" "distinct ?cs" and b: "\<forall>b \<in> set (rq_bufs r). shareable b" using I ok by (auto simp: req_ok_def)
  have hd: "unat (hd ?cs) < vq_size q" using ok ne by (auto simp: req_ok_def)
  show ?thesis
  proof (cases "rq_table r")
    case None
    then obtain y where y: "path (desc_shadow q) (hd ?cs) ?cs y"
      "describes (chain_flags (length ?cs)) (desc_shadow q) ?cs (rq_bufs r) (rq_addrs r)"
      using ok by (auto simp: req_ok_def)
    have un': "unshare_list hal (rq_addrs r) (rq_bufs r) h = Some (out, h')" using un None by (simp add: unshare_plan_def)
    obtain sh de where R: "recycle_loop hal (free_head q) (rq_bufs r) (Some (hd ?cs)) ?q0 h =
        Some (None, out, ?q0\<lparr>desc_shadow := sh, vq_desc := de, num_used := num_used q - of_nat (length ?cs)\<rparr>, h')"
      "same_but (set ?cs) (desc_shadow q) sh" "same_but (set ?cs) (vq_desc q) de" "path sh (hd ?cs) ?cs (free_head q)"
      using recycle_loop_ok [of ?q0 ?cs y "rq_bufs r" "rq_addrs r" hal h out h' "free_head q"] y ne b len un' by auto
    let ?q = "?q0\<lparr>desc_shadow := sh, vq_desc := de, num_used := num_used q - of_nat (length ?cs)\<rparr>"
    have fl: "desc_for (chain_flags (length ?cs) 0) (rq_bufs r ! 0) (rq_addrs r ! 0) (desc_shadow q ! unat (hd ?cs))"
      using y(2) ne by (auto simp: describes_def hd_conv_nth)
    then have "d_flags (desc_shadow q ! unat (hd ?cs)) AND DESC_INDIRECT \<noteq> DESC_INDIRECT" by (auto simp: desc_for_def)
    then have 1: "recycle_descriptors hal (hd ?cs) (rq_ins r) (rq_outs r) q h = Some (out, ?q, h')"
      using R(1) hd by (simp add: recycle_descriptors_def Let_def vec_get_def)
    have none: "\<forall>x \<in> set ?cs. indirect_lists q ! unat x = None"
    proof
      fix x assume x: "x \<in> set ?cs"
      have "x \<notin> set (rq_chain s)" if "s \<in> set rs1 \<union> set rs2" for s
        using that I x in_flight_in [of s rs1] in_flight_in [of s rs2] by auto
      then have "\<forall>s \<in> set (rs1 @ r # rs2). x \<in> set (rq_chain s) \<longrightarrow> rq_table s = None" using None by auto
      moreover have "unat x < vq_size q" using x ok by (auto simp: req_ok_def)
      ultimately show "indirect_lists q ! unat x = None" using I by blast
    qed
    have 2: "vq_inv (?q\<lparr>last_used_idx := i, vq_avail := (vq_avail ?q)\<lparr>av_used_event := e\<rparr>\<rparr>) (?cs @ fl) (rs1 @ rs2)" for i e
      by (rule vq_inv_give [OF inv refl]) (use R(2-4) len none in auto)
    show ?thesis using 1 2 same_butD(2) [OF R(2)] by (intro exI [of _ ?q]) auto
  next
    case (Some t)
    then obtain a ds c where t: "rq_table r = Some (a, ds)" "?cs = [c]" "ds = table_for (rq_bufs r) (rq_addrs r)"
      "length (rq_addrs r) = length (rq_bufs r)"
      "desc_for DESC_INDIRECT (concat (map desc_bytes ds), DriverToDevice) a (desc_shadow q ! unat c)" "indirect_lists q ! unat c = Some ds"
      using ok by (cases t) (auto simp: req_ok_def)
    let ?d = "(unset_buf (desc_shadow q ! unat c))\<lparr>d_next := free_head q\<rparr>"
    let ?q = "?q0\<lparr>indirect_lists := (indirect_lists q)[unat c := None], desc_shadow := (desc_shadow q)[unat c := ?d], num_used := num_used q - 1\<rparr>"
    obtain z h1 where u: "hal_unshare hal a (concat (map desc_bytes ds)) DriverToDevice h = Some (z, h1)"
      "unshare_list hal (rq_addrs r) (rq_bufs r) h1 = Some (out, h')"
      using un t(1) by (auto simp: unshare_plan_def split: bind_splits)
    have ua: "unshare_all hal ds (rq_bufs r) h1 = Some (out, h')"
      using u(2) unshare_all_list [OF b, of hal ds h1] map_addr_table [OF t(4)] t(3) by simp
    have c: "unat c < vq_size q" "hd ?cs = c" "d_addr (desc_shadow q ! unat c) = a"
      "d_flags (desc_shadow q ! unat c) AND DESC_INDIRECT = DESC_INDIRECT"
      using hd t(2,5) by (simp_all add: desc_for_def)
    have lds: "length ds = length (rq_bufs r)" using t(3) by simp
    have 1: "recycle_descriptors hal (hd ?cs) (rq_ins r) (rq_outs r) q h = Some (out, ?q, h')"
      using c len t(6) u(1) ua lds by (simp add: recycle_descriptors_def recycle_indirect_def Let_def vec_get_def)
    have s1: "same_but {c} (desc_shadow q) ((desc_shadow q)[unat c := ?d])" using same_but_update [of c "{c}"] by simp
    have 2: "vq_inv (?q\<lparr>last_used_idx := i, vq_avail := (vq_avail ?q)\<lparr>av_used_event := e\<rparr>\<rparr>) (?cs @ fl) (rs1 @ rs2)" for i e
      by (rule vq_inv_give [OF inv refl]) (use s1 t(2) c len in \<open>auto simp: nth_list_update word_unat_eq_iff\<close>)
    show ?thesis using 1 2 by (intro exI [of _ ?q]) auto
  qed
qed

lemma pop_used_ok:
  assumes inv: "vq_inv q fl (rs1 @ r # rs2)" and cp: "can_pop q" and e: "last_used_elem q = Some e" "ucast (ue_id e) = hd (rq_chain r)"
    and un: "unshare_plan hal r h = Some (out, h')"
  shows "\<exists>q'. pop_used hal (hd (rq_chain r)) (rq_ins r) (rq_outs r) q h = Some (Inr (ue_len e), out, q', h') \<and>
    popped q q' \<and> vq_inv q' (rq_chain r @ fl) (rs1 @ rs2)"
proof -
  obtain q1 where q1: "recycle_descriptors hal (hd (rq_chain r)) (rq_ins r) (rq_outs r) q h = Some (out, q1, h')"
    "\<forall>i e. vq_inv (q1\<lparr>last_used_idx := i, vq_avail := (vq_avail q1)\<lparr>av_used_event := e\<rparr>\<rparr>) (rq_chain r @ fl) (rs1 @ rs2)"
    "vq_used q1 = vq_used q" "avail_idx q1 = avail_idx q" "vq_avail q1 = vq_avail q" "last_used_idx q1 = last_used_idx q"
    "event_idx q1 = event_idx q" "indirect q1 = indirect q" "queue_idx q1 = queue_idx q" "vq_size q1 = vq_size q"
    using recycle_ok [OF inv un] by blast
  let ?e = "if event_idx q then last_used_idx q + 1 else av_used_event (vq_avail q)"
  let ?q = "q1\<lparr>last_used_idx := last_used_idx q + 1, vq_avail := (vq_avail q1)\<lparr>av_used_event := ?e\<rparr>\<rparr>"
  have "pop_used hal (hd (rq_chain r)) (rq_ins r) (rq_outs r) q h = Some (Inr (ue_len e), out, ?q, h')"
    using cp e q1 by (auto simp: pop_used_def Let_def)
  moreover have "popped q ?q" using q1 by (simp add: popped_def)
  ultimately show ?thesis using q1(2) by blast
qed

text \<open>The outcomes of \<open>pop_used\<close> that take nothing leave the queue and the platform as they were.\<close>

lemma pop_used_refused:
  "\<not> can_pop q \<Longrightarrow> pop_used hal token ins outs q h = Some (Inl NotReady, ins @ outs, q, h)"
  "can_pop q \<Longrightarrow> last_used_elem q = Some e \<Longrightarrow> ucast (ue_id e) \<noteq> token \<Longrightarrow>
   pop_used hal token ins outs q h = Some (Inl WrongToken, ins @ outs, q, h)"
  by (simp_all add: pop_used_def)

section \<open>What the device sees\<close>

text \<open>The device follows a chain of at most \<open>n\<close> descriptors through a table.\<close>

primrec walk :: "nat \<Rightarrow> descriptor list \<Rightarrow> u16 \<Rightarrow> descriptor list" where
  "walk 0 ds i = []"
| "walk (Suc n) ds i =
     (if unat i < length ds then ds ! unat i # (case desc_next (ds ! unat i) of None \<Rightarrow> [] | Some j \<Rightarrow> walk n ds j) else [])"

definition carries :: "bufs \<Rightarrow> usize list \<Rightarrow> descriptor list \<Rightarrow> bool" where
  "carries bufs as ds \<longleftrightarrow> length ds = length bufs \<and> length as = length bufs \<and>
     (\<forall>k < length bufs. d_addr (ds ! k) = as ! k \<and> d_len (ds ! k) = of_nat (length (fst (bufs ! k))) \<and>
        d_flags (ds ! k) AND DESC_WRITE = dir_flag (snd (bufs ! k)))"

lemma flags_write [simp]: "(chain_flags n k OR dir_flag b) AND DESC_WRITE = dir_flag b"
  by (simp add: desc_flags)

lemma walk_path:
  assumes "path sh (hd cs) cs y" and "cs \<noteq> []" and "length cs \<le> n" and "length de = length sh"
    and "\<forall>c \<in> set cs. de ! unat c = sh ! unat c"
    and "\<forall>k < length cs. d_flags (sh ! unat (cs ! k)) AND DESC_NEXT = DESC_NEXT \<longleftrightarrow> Suc k < length cs"
  shows "walk n de (hd cs) = map (\<lambda>c. sh ! unat c) cs"
  using assms
proof (induction cs arbitrary: n)
  case (Cons c cs)
  obtain m where n: "n = Suc m" using Cons.prems(3) by (cases n) auto
  have c: "unat c < length de" "path sh (d_next (sh ! unat c)) cs y" "de ! unat c = sh ! unat c"
    using Cons.prems(1,4,5) by auto
  have f: "d_flags (sh ! unat c) AND DESC_NEXT = DESC_NEXT \<longleftrightarrow> cs \<noteq> []" using Cons.prems(6) [rule_format, of 0] by simp
  show ?case
  proof (cases "cs = []")
    case True
    then show ?thesis using n c f by (simp add: desc_next_def)
  next
    case False
    then have hd': "d_next (sh ! unat c) = hd cs" using c(2) by (cases cs) auto
    have "\<forall>k < length cs. d_flags (sh ! unat (cs ! k)) AND DESC_NEXT = DESC_NEXT \<longleftrightarrow> Suc k < length cs"
      using Cons.prems(6) by (metis Suc_less_eq length_Cons nth_Cons_Suc)
    then have "walk m de (hd cs) = map (\<lambda>c. sh ! unat c) cs"
      using Cons.IH [of m] c(2) hd' False Cons.prems(3,4,5) n by simp
    then show ?thesis using n c f False hd' by (simp add: desc_next_def)
  qed
qed simp

lemma walk_direct:
  assumes "vq_inv q fl rs" and "r \<in> set rs" and "rq_table r = None"
  shows "carries (rq_bufs r) (rq_addrs r) (walk (vq_size q) (vq_desc q) (hd (rq_chain r)))"
proof -
  let ?cs = "rq_chain r" and ?sh = "desc_shadow q"
  note I = assms(1) [unfolded vq_inv_def]
  have ok: "req_ok ?sh (vq_desc q) (indirect_lists q) r" using I assms(2) by blast
  then obtain y where y: "path ?sh (hd ?cs) ?cs y" "describes (chain_flags (length ?cs)) ?sh ?cs (rq_bufs r) (rq_addrs r)" "?cs \<noteq> []"
    "\<forall>c \<in> set ?cs. vq_desc q ! unat c = ?sh ! unat c"
    using assms(3) by (auto simp: req_ok_def)
  have "length ?cs \<le> length (in_flight rs)" using assms(2) by (auto simp: in_flight_def length_concat intro: member_le_sum_list)
  then have l: "length ?cs \<le> vq_size q" using I by simp
  have D: "length (rq_bufs r) = length ?cs" "length (rq_addrs r) = length ?cs"
    "\<And>k. k < length ?cs \<Longrightarrow> desc_for (chain_flags (length ?cs) k) (rq_bufs r ! k) (rq_addrs r ! k) (?sh ! unat (?cs ! k))"
    using y(2) by (simp_all add: describes_def)
  have "walk (vq_size q) (vq_desc q) (hd ?cs) = map (\<lambda>c. ?sh ! unat c) ?cs"
    by (rule walk_path [OF y(1,3) l _ y(4)]) (use I D(3) in \<open>auto simp: desc_for_def\<close>)
  then show ?thesis using D by (auto simp: carries_def desc_for_def simp del: length_input_output)
qed

lemma walk_table:
  assumes "length as = length bufs" and "bufs \<noteq> []" and "length bufs \<le> 32768"
  shows "carries bufs as (walk (length bufs) (table_for bufs as) 0)"
proof -
  have w: "walk n (table_for bufs as) (of_nat k) = drop k (table_for bufs as)" if "k < length bufs" "n = length bufs - k" for n k
    using that
  proof (induction n arbitrary: k)
    case (Suc n)
    have u: "unat (of_nat k :: u16) = k" using Suc.prems assms(3) by (simp add: unat_of_nat take_bit_eq_mod)
    have d: "drop k (table_for bufs as) = table_for bufs as ! k # drop (Suc k) (table_for bufs as)"
      using Suc.prems(1) by (simp add: Cons_nth_drop_Suc)
    have x: "table_for bufs as ! k = \<lparr>d_addr = as ! k, d_len = of_nat (length (fst (bufs ! k))),
      d_flags = chain_flags (length bufs) k OR dir_flag (snd (bufs ! k)), d_next = of_nat (Suc k)\<rparr>"
      using Suc.prems(1) by (simp add: table_for_def)
    show ?case
    proof (cases "Suc k < length bufs")
      case True
      have "walk n (table_for bufs as) (of_nat (Suc k)) = drop (Suc k) (table_for bufs as)"
        by (rule Suc.IH) (use True Suc.prems in auto)
      then show ?thesis using True Suc.prems(1) unfolding d by (simp add: u x desc_next_def)
    next
      case False
      then show ?thesis using Suc.prems(1) unfolding d by (simp add: u x desc_next_def)
    qed
  qed simp
  have "walk (length bufs) (table_for bufs as) 0 = table_for bufs as" using w [of 0 "length bufs"] assms(2) by simp
  then show ?thesis using assms(1) by (simp add: carries_def table_for_def)
qed

lemma request_seen:
  assumes inv: "vq_inv q fl rs" and r: "r \<in> set rs" and ne: "rq_ins r \<noteq> [] \<or> rq_outs r \<noteq> []" and len: "length (rq_ins r) + length (rq_outs r) \<le> 32768"
  shows "case rq_table r of
       None \<Rightarrow> carries (rq_bufs r) (rq_addrs r) (walk (vq_size q) (vq_desc q) (hd (rq_chain r))) \<and>
         d_flags (vq_desc q ! unat (hd (rq_chain r))) AND DESC_INDIRECT \<noteq> DESC_INDIRECT
     | Some (a, ds) \<Rightarrow> carries (rq_bufs r) (rq_addrs r) (walk (length ds) ds 0) \<and> ds = table_for (rq_bufs r) (rq_addrs r) \<and>
         d_addr (vq_desc q ! unat (hd (rq_chain r))) = a \<and> d_len (vq_desc q ! unat (hd (rq_chain r))) = of_nat (16 * length ds) \<and>
         d_flags (vq_desc q ! unat (hd (rq_chain r))) = DESC_INDIRECT"
proof -
  have ok: "req_ok (desc_shadow q) (vq_desc q) (indirect_lists q) r" using inv r by (auto simp: vq_inv_def)
  show ?thesis
  proof (cases "rq_table r")
    case None
    have "desc_for (chain_flags (length (rq_chain r)) 0) (rq_bufs r ! 0) (rq_addrs r ! 0) (vq_desc q ! unat (hd (rq_chain r)))"
      using ok None by (auto simp: req_ok_def describes_def hd_conv_nth)
    then have "d_flags (vq_desc q ! unat (hd (rq_chain r))) AND DESC_INDIRECT \<noteq> DESC_INDIRECT" by (auto simp: desc_for_def)
    then show ?thesis using walk_direct [OF inv r None] None by simp
  next
    case (Some t)
    obtain a ds where t: "rq_table r = Some (a, ds)" using Some by (cases t) auto
    obtain c where c: "rq_chain r = [c]" "ds = table_for (rq_bufs r) (rq_addrs r)" "length (rq_addrs r) = length (rq_bufs r)"
      "desc_for DESC_INDIRECT (concat (map desc_bytes ds), DriverToDevice) a (desc_shadow q ! unat c)" "vq_desc q ! unat c = desc_shadow q ! unat c"
      using ok t by (auto simp: req_ok_def)
    have "rq_bufs r \<noteq> []" using ne by (auto simp: input_output_def)
    then have "carries (rq_bufs r) (rq_addrs r) (walk (length ds) ds 0)" using walk_table [OF c(3)] c(2) len by simp
    then show ?thesis using t c by (simp add: desc_for_def length_table_bytes)
  qed
qed

section \<open>The queue as a whole\<close>

lemma nth_link_descs: "i < n \<Longrightarrow> d_next (link_descs n ! i) = (if Suc i < n then of_nat (Suc i) else 0)"
  by (auto simp: link_descs_def zero_desc_def)

lemma length_link_descs [simp]: "length (link_descs n) = n"
  by (simp add: link_descs_def)

lemma path_link_descs:
  assumes "k + m = n" and "n \<le> 32768"
  shows "\<exists>y. path (link_descs n) (if m = 0 then 0 else of_nat k) (map of_nat [k..<n]) y"
  using assms(1)
proof (induction m arbitrary: k)
  case 0
  then show ?case by (intro exI [of _ 0]) simp
next
  case (Suc m)
  have u: "unat (of_nat k :: u16) = k" using Suc.prems assms(2) by (simp add: unat_of_nat take_bit_eq_mod)
  have nx: "d_next (link_descs n ! k) = (if m = 0 then 0 else of_nat (Suc k))" using Suc.prems nth_link_descs [of k n] by auto
  obtain y where "path (link_descs n) (if m = 0 then 0 else of_nat (Suc k)) (map of_nat [Suc k..<n]) y"
    using Suc.IH [of "Suc k"] Suc.prems by auto
  moreover have "[k..<n] = k # [Suc k..<n]" using Suc.prems by (simp add: upt_conv_Cons)
  moreover have "k < n" using Suc.prems by simp
  ultimately show ?case by (intro exI [of _ y]) (simp add: u nx del: of_nat_Suc)
qed

lemma inj_of_nat_u16: "n \<le> 32768 \<Longrightarrow> inj_on (of_nat :: nat \<Rightarrow> u16) {0..<n}"
  by (rule inj_onI) (auto simp: word_unat_eq_iff unat_of_nat take_bit_eq_mod)

lemma vq_new_inv:
  assumes "k < 16"
  shows "vq_inv (vq_new (2 ^ k) idx ind ev) (map of_nat [0..<2 ^ k]) []"
proof -
  have n: "(2 :: nat) ^ k \<le> 32768" using assms power_increasing [of k 15 "2 :: nat"] by simp
  obtain y where "path (link_descs (2 ^ k)) 0 (map of_nat [0..<2 ^ k]) y" using path_link_descs [of 0 "2 ^ k" "2 ^ k"] n by auto
  moreover have "distinct (map (of_nat :: nat \<Rightarrow> u16) [0..<2 ^ k])" using inj_of_nat_u16 [OF n] by (simp add: distinct_map)
  ultimately show ?thesis using assms by (auto simp: vq_inv_def vq_new_def)
qed

lemma card_below_u16:
  assumes "n \<le> 32768"
  shows "card {x :: u16. unat x < n} = n"
proof -
  have "{x :: u16. unat x < n} = of_nat ` {0..<n}"
  proof (rule set_eqI)
    fix x :: u16
    have "unat x < n \<Longrightarrow> x \<in> of_nat ` {0..<n}" by (rule image_eqI [of _ _ "unat x"]) simp_all
    then show "x \<in> {x. unat x < n} \<longleftrightarrow> x \<in> of_nat ` {0..<n}"
      using assms by (auto simp: unat_of_nat take_bit_eq_mod)
  qed
  then show ?thesis using card_image [OF inj_of_nat_u16 [OF assms]] by simp
qed

lemma distinct_heads:
  assumes "\<forall>r \<in> set rs. rq_chain r \<noteq> []" and "distinct (in_flight rs)"
  shows "distinct (map (\<lambda>r. hd (rq_chain r)) rs)"
  using assms
proof (induction rs)
  case (Cons r rs)
  have "hd (rq_chain r) \<noteq> hd (rq_chain s)" if "s \<in> set rs" for s
    using that Cons.prems in_flight_in [OF that] hd_in_set [of "rq_chain r"] hd_in_set [of "rq_chain s"] by fastforce
  then show ?case using Cons by auto
qed simp

text \<open>The device may write anything into the used ring.\<close>

lemma vq_inv_used: "vq_inv q fl rs \<Longrightarrow> length (us_ring u) = vq_size q \<Longrightarrow> vq_inv (q\<lparr>vq_used := u\<rparr>) fl rs"
  by (simp add: vq_inv_def)

text \<open>The descriptors reached from the head of the free list.\<close>

primrec walk_free :: "descriptor list \<Rightarrow> u16 \<Rightarrow> nat \<Rightarrow> u16 list" where
  "walk_free sh x 0 = []"
| "walk_free sh x (Suc n) = x # walk_free sh (d_next (sh ! unat x)) n"

lemma walk_free_path: "path sh x fl y \<Longrightarrow> n \<le> length fl \<Longrightarrow> walk_free sh x n = take n fl"
proof (induction n arbitrary: x fl)
  case (Suc n)
  then show ?case by (cases fl) auto
qed simp

text \<open>
  The states of a queue: the driver offers requests, the device writes the used ring as it likes, and
  the driver takes back, in any order, requests that are in flight.
\<close>

inductive vq_reach :: "'h hal \<Rightarrow> virt_queue \<Rightarrow> request list \<Rightarrow> bool" for hal where
  reach_new: "k < 16 \<Longrightarrow> vq_reach hal (vq_new (2 ^ k) idx ind ev) []"
| reach_add:
    "vq_reach hal q rs \<Longrightarrow> vq_add hal (rq_ins r) (rq_outs r) q h = Some (Inr token, q', h') \<Longrightarrow>
     \<forall>b \<in> set (rq_bufs r). shareable b \<Longrightarrow>
     share_plan hal (indirect q) (rq_bufs r) h = Some (rq_addrs r, rq_table r, h') \<Longrightarrow>
     rq_chain r = walk_free (desc_shadow q) (free_head q) (if rq_table r = None then length (rq_bufs r) else 1) \<Longrightarrow>
     vq_reach hal q' (rs @ [r])"
| reach_device: "vq_reach hal q rs \<Longrightarrow> length (us_ring u) = vq_size q \<Longrightarrow> vq_reach hal (q\<lparr>vq_used := u\<rparr>) rs"
| reach_pop:
    "vq_reach hal q (rs1 @ r # rs2) \<Longrightarrow> unshare_plan hal r h = Some (out, h') \<Longrightarrow>
     pop_used hal (hd (rq_chain r)) (rq_ins r) (rq_outs r) q h = Some (Inr len, out, q', h') \<Longrightarrow>
     vq_reach hal q' (rs1 @ rs2)"

lemma reach_inv: "vq_reach hal q rs \<Longrightarrow> \<exists>fl. vq_inv q fl rs"
proof (induction rule: vq_reach.induct)
  case (reach_new k idx ind ev)
  then show ?case using vq_new_inv by blast
next
  case (reach_add q rs r h token q' h')
  then obtain fl where fl: "vq_inv q fl rs" by blast
  let ?m = "if rq_table r = None then length (rq_ins r) + length (rq_outs r) else 1"
  have ne: "rq_ins r \<noteq> [] \<or> rq_outs r \<noteq> []" "has_room q (length (rq_ins r) + length (rq_outs r))"
    using reach_add.hyps(2) by (auto simp: vq_add_def has_room_def Let_def split: if_splits)
  obtain q2 where q2: "vq_add hal (rq_ins r) (rq_outs r) q h = Some (Inr (hd fl), q2, h')"
    "vq_inv q2 (drop ?m fl) (rs @ [plan_request fl (rq_ins r) (rq_outs r) (rq_addrs r) (rq_table r)])"
    using vq_add_ok [OF fl ne reach_add.hyps(3,4)] by blast
  have chain: "rq_chain (plan_request fl (rq_ins r) (rq_outs r) (rq_addrs r) (rq_table r)) = take ?m fl" by (simp add: plan_request_def)
  obtain y where y: "path (desc_shadow q) (free_head q) fl y" using fl by (auto simp: vq_inv_def)
  have "?m \<le> length fl"
  proof (cases "rq_table r")
    case None
    have "unat (num_used q) + length fl = vq_size q" using fl by (auto simp: vq_inv_def)
    moreover have "\<not> (indirect q \<and> 1 < length (rq_bufs r))"
      using reach_add.hyps(4) None by (auto simp: share_plan_def split: bind_splits)
    ultimately show ?thesis using None ne(2) by (auto simp: has_room_def)
  next
    case Some
    have "unat (num_used q) + length fl = vq_size q" using fl by (auto simp: vq_inv_def)
    then show ?thesis using Some ne(2) by (auto simp: has_room_def)
  qed
  then have "walk_free (desc_shadow q) (free_head q) ?m = take ?m fl" by (rule walk_free_path [OF y])
  then have "rq_chain r = take ?m fl" using reach_add.hyps(5) by (simp only: length_input_output)
  then have "plan_request fl (rq_ins r) (rq_outs r) (rq_addrs r) (rq_table r) = r" by (simp add: plan_request_def)
  moreover have "q2 = q'" using q2(1) reach_add.hyps(2) by simp
  ultimately show ?case using q2(2) by auto
next
  case (reach_device q rs u)
  then show ?case using vq_inv_used by blast
next
  case (reach_pop q rs1 r rs2 h out h' len q')
  then obtain fl where fl: "vq_inv q fl (rs1 @ r # rs2)" by blast
  have cp: "can_pop q" using reach_pop.hyps(3) by (auto simp: pop_used_def split: if_splits)
  obtain e where e: "last_used_elem q = Some e" "ucast (ue_id e) = hd (rq_chain r)"
    using reach_pop.hyps(3) cp by (auto simp: pop_used_def split: if_splits bind_splits)
  show ?case using pop_used_ok [OF fl cp e reach_pop.hyps(2)] reach_pop.hyps(3) by auto
qed

text \<open>
  C18. No descriptor is lost and none is used twice. In every state of a queue, whatever the device wrote
  into the used ring and in whatever order requests were taken back, the free list and the chains in
  flight are disjoint and together make up the whole table; \<open>num_used\<close> counts the descriptors in
  flight; and different requests have different tokens.
\<close>

theorem virtqueue_conserves_descriptors:
  assumes "vq_reach hal q rs"
  shows "\<exists>fl y. path (desc_shadow q) (free_head q) fl y \<and> distinct (fl @ in_flight rs) \<and>
    set (fl @ in_flight rs) = {x. unat x < vq_size q} \<and> unat (num_used q) = length (in_flight rs) \<and>
    distinct (map (\<lambda>r. hd (rq_chain r)) rs)"
proof -
  obtain fl where fl: "vq_inv q fl rs" using reach_inv [OF assms] by blast
  note I = fl [unfolded vq_inv_def]
  obtain y where y: "path (desc_shadow q) (free_head q) fl y" using I by blast
  have sub: "set (fl @ in_flight rs) \<subseteq> {x. unat x < vq_size q}"
    using path_in [OF y] I by (auto simp: in_flight_def req_ok_def)
  have c: "card {x :: u16. unat x < vq_size q} = vq_size q"
    using vq_size_word(2) [OF fl] by (rule card_below_u16)
  have "card (set (fl @ in_flight rs)) = vq_size q" using I distinct_card [of "fl @ in_flight rs"] by simp
  then have all: "set (fl @ in_flight rs) = {x. unat x < vq_size q}" using card_subset_eq [OF _ sub] c by simp
  have ne: "\<forall>r \<in> set rs. rq_chain r \<noteq> []" "distinct (in_flight rs)" using I by (auto simp: req_ok_def)
  then have "distinct (map (\<lambda>r. hd (rq_chain r)) rs)" by (rule distinct_heads)
  with y all I show ?thesis by blast
qed

text \<open>A platform that numbers the buffers it shares, and a queue of four descriptors with a request in flight.\<close>

definition sample_hal :: "usize hal" where
  "sample_hal = \<lparr>hal_share = (\<lambda>buf direction h. Some (h, h + 4096)), hal_unshare = (\<lambda>pa buf direction h. Some (buf, h))\<rparr>"

definition sample_request :: request where
  "sample_request = \<lparr>rq_chain = [0, 1], rq_ins = [[7]], rq_outs = [[0, 0]], rq_addrs = [4096, 8192], rq_table = None\<rparr>"

lemma virtqueue_conserves_descriptors_witness:
  "\<exists>q fl y. path (desc_shadow q) (free_head q) fl y \<and> distinct (fl @ [0, 1]) \<and> set (fl @ [0, 1]) = {x. unat x < vq_size q} \<and> vq_size q = 4"
proof -
  have new: "vq_reach sample_hal (vq_new 4 0 False False) []" using reach_new [of 2 sample_hal] by simp
  have inv: "vq_inv (vq_new 4 0 False False) (map of_nat [0..<4]) []" using vq_new_inv [of 2] by simp
  have pl: "share_plan sample_hal (indirect (vq_new 4 0 False False)) (rq_bufs sample_request) 4096 =
      Some (rq_addrs sample_request, rq_table sample_request, 12288)"
    by (simp add: share_plan_def sample_hal_def sample_request_def input_output_def vq_new_def)
  have ne: "rq_ins sample_request \<noteq> [] \<or> rq_outs sample_request \<noteq> []" by (simp add: sample_request_def)
  have sb: "\<forall>b \<in> set (rq_bufs sample_request). shareable b" by (simp add: sample_request_def input_output_def shareable_def)
  have room: "has_room (vq_new 4 0 False False) (length (rq_ins sample_request) + length (rq_outs sample_request))"
    by (simp add: has_room_def vq_new_def sample_request_def)
  obtain q where q: "vq_add sample_hal (rq_ins sample_request) (rq_outs sample_request) (vq_new 4 0 False False) 4096 =
      Some (Inr (hd (map of_nat [0..<4])), q, 12288)" "published (hd (map of_nat [0..<4])) (vq_new 4 0 False False) q"
    using vq_add_ok [OF inv ne room sb pl] by blast
  have ch: "rq_chain sample_request = walk_free (desc_shadow (vq_new 4 0 False False)) (free_head (vq_new 4 0 False False))
      (if rq_table sample_request = None then length (rq_bufs sample_request) else 1)"
    by (simp add: sample_request_def vq_new_def link_descs_def zero_desc_def numeral_2_eq_2)
  have "vq_reach sample_hal q ([] @ [sample_request])" by (rule reach_add [OF new q(1) sb pl ch])
  from virtqueue_conserves_descriptors [OF this] obtain fl y where f: "path (desc_shadow q) (free_head q) fl y"
    "distinct (fl @ [0, 1])" "set (fl @ [0, 1]) = {x. unat x < vq_size q}" by (auto simp: sample_request_def)
  moreover have "vq_size q = 4" using q(2) by (simp add: published_def vq_new_def)
  ultimately show ?thesis by blast
qed

text \<open>
  C19. A request comes back as it went out. With room and buffers the platform can share, \<open>add\<close> takes the
  first free descriptors, publishes their head, and the chain the device follows from that head (or the
  indirect table it points to) carries exactly the given buffers, in order, at the addresses at which
  they were shared. When the device returns the head in the used ring, \<open>pop_used\<close> succeeds, takes back
  each buffer from its own address, and leaves the free list as it was before.
\<close>

theorem virtqueue_round_trip:
  fixes ins outs :: "u8 list list"
  assumes inv: "vq_inv q fl rs" and ne: "ins \<noteq> [] \<or> outs \<noteq> []" and room: "has_room q (length ins + length outs)"
    and b: "\<forall>b \<in> set (input_output ins outs). shareable b"
    and plan: "share_plan hal (indirect q) (input_output ins outs) h = Some (as, tb, h1)"
  shows "\<exists>q1. vq_add hal ins outs q h = Some (Inr (hd fl), q1, h1) \<and> published (hd fl) q q1 \<and>
    (case tb of
       None \<Rightarrow> carries (input_output ins outs) as (walk (vq_size q) (vq_desc q1) (hd fl))
     | Some (a, ds) \<Rightarrow> carries (input_output ins outs) as (walk (length ds) ds 0) \<and> d_addr (vq_desc q1 ! unat (hd fl)) = a \<and>
         d_len (vq_desc q1 ! unat (hd fl)) = of_nat (16 * length ds) \<and> d_flags (vq_desc q1 ! unat (hd fl)) = DESC_INDIRECT) \<and>
    (\<forall>u e h2 out h3. length (us_ring u) = vq_size q \<longrightarrow> us_idx u \<noteq> last_used_idx q \<longrightarrow>
       last_used_elem (q1\<lparr>vq_used := u\<rparr>) = Some e \<longrightarrow> ucast (ue_id e) = hd fl \<longrightarrow>
       unshare_plan hal (plan_request fl ins outs as tb) h2 = Some (out, h3) \<longrightarrow>
       (\<exists>q3. pop_used hal (hd fl) ins outs (q1\<lparr>vq_used := u\<rparr>) h2 = Some (Inr (ue_len e), out, q3, h3) \<and> vq_inv q3 fl rs))"
proof -
  let ?r = "plan_request fl ins outs as tb" and ?m = "if tb = None then length ins + length outs else 1"
  obtain q1 where q1: "vq_add hal ins outs q h = Some (Inr (hd fl), q1, h1)" "published (hd fl) q q1" "rq_chain ?r \<noteq> []"
    "hd (rq_chain ?r) = hd fl" "vq_inv q1 (drop ?m fl) (rs @ [?r])"
    using vq_add_ok [OF inv ne room b plan] by blast
  have R: "rq_ins ?r = ins" "rq_outs ?r = outs" "rq_addrs ?r = as" "rq_table ?r = tb" "rq_chain ?r = take ?m fl"
    by (simp_all add: plan_request_def)
  have sz: "vq_size q1 = vq_size q" "last_used_idx q1 = last_used_idx q" using q1(2) by (simp_all add: published_def)
  have len: "length ins + length outs \<le> 32768" using room vq_size_word(2) [OF inv] by (simp add: has_room_def)
  have seen: "case tb of
       None \<Rightarrow> carries (input_output ins outs) as (walk (vq_size q) (vq_desc q1) (hd fl))
     | Some (a, ds) \<Rightarrow> carries (input_output ins outs) as (walk (length ds) ds 0) \<and> d_addr (vq_desc q1 ! unat (hd fl)) = a \<and>
         d_len (vq_desc q1 ! unat (hd fl)) = of_nat (16 * length ds) \<and> d_flags (vq_desc q1 ! unat (hd fl)) = DESC_INDIRECT"
    using request_seen [OF q1(5), of ?r] R q1(4) sz ne len by (auto split: option.splits)
  have ret: "\<exists>q3. pop_used hal (hd fl) ins outs (q1\<lparr>vq_used := u\<rparr>) h2 = Some (Inr (ue_len e), out, q3, h3) \<and> vq_inv q3 fl rs"
    if u: "length (us_ring u) = vq_size q" "us_idx u \<noteq> last_used_idx q" "last_used_elem (q1\<lparr>vq_used := u\<rparr>) = Some e"
      "ucast (ue_id e) = hd fl" "unshare_plan hal ?r h2 = Some (out, h3)" for u e h2 out h3
  proof -
    have i: "vq_inv (q1\<lparr>vq_used := u\<rparr>) (drop ?m fl) (rs @ ?r # [])" by (rule vq_inv_used [OF q1(5)]) (simp add: sz u(1))
    have cp: "can_pop (q1\<lparr>vq_used := u\<rparr>)" using u(2) sz(2) by (simp add: can_pop_def)
    show ?thesis using pop_used_ok [OF i cp u(3) _ u(5)] u(4) q1(4) R by auto
  qed
  show ?thesis using q1(1,2) seen ret by blast
qed

lemma virtqueue_round_trip_witness:
  "\<exists>q1. vq_add sample_hal [[7]] [[0, 0], [0]] (vq_new 16 0 True True) 4096 = Some (Inr 0, q1, 20480) \<and>
     d_addr (vq_desc q1 ! 0) = 16384 \<and> d_len (vq_desc q1 ! 0) = 48"
proof -
  have inv: "vq_inv (vq_new 16 0 True True) (map of_nat [0..<16]) []" using vq_new_inv [of 4] by simp
  have pl: "share_plan sample_hal (indirect (vq_new 16 0 True True)) (input_output [[7]] [[0, 0], [0]]) 4096 =
      Some ([4096, 8192, 12288], Some (16384, table_for (input_output [[7]] [[0, 0], [0]]) [4096, 8192, 12288]), 20480)"
    by (simp add: share_plan_def sample_hal_def input_output_def vq_new_def)
  have sb: "\<forall>b \<in> set (input_output [[7 :: u8]] [[0, 0], [0]]). shareable b" by (simp add: input_output_def shareable_def)
  have room: "has_room (vq_new 16 0 True True) (length [[7 :: u8]] + length [[0, 0], [0 :: u8]])" by (simp add: has_room_def vq_new_def)
  have hd: "hd (map of_nat [0..<16]) = (0 :: u16)" by (simp add: upt_conv_Cons)
  show ?thesis using virtqueue_round_trip [OF inv _ room sb pl] hd by auto
qed

end
