(* ===== verification/Virtio_Blk.thy ===== *)
theory Virtio_Blk
  imports Virtio_Queue Mm_User_Access Mm_Boot
begin

text \<open>
  The block driver: \<open>device/blk.rs\<close> of the driver library over the virtqueue, and the platform part
  the kernel provides, \<open>VirtioHal\<close> of \<open>drivers/block/virtio_blk.rs\<close>, which copies every buffer into
  frames of its own. The static \<open>QUEUE_FRAMES\<close> is a field of the world. The device is an argument;
  \<open>blk_device\<close> states what the VirtIO specification says of a block device: it serves the
  request at the head of the available ring, writes the answer into the buffers it may write, and
  puts the head into the used ring.

  The theorems show that the driver and such a device together are the medium the swap partition
  and the block cache are verified against: a read returns the sectors, a write replaces them, and
  the queue and the frames are as before.
\<close>

section \<open>Definitions\<close>

subsection \<open>The platform\<close>

record 'd vworld = "'d kworld" +
  queue_frames :: "PhysPageNum list"

type_synonym ('d, 'z) vw = "('d, 'z) vworld_scheme"

definition virtio_share ::
  "'d kenv \<Rightarrow> ('d, 'z vworld_ext) woom \<Rightarrow> u8 list \<Rightarrow> buffer_direction \<Rightarrow> ('d, 'z) vw \<Rightarrow> (usize \<times> ('d, 'z) vw) option" where
  "virtio_share env oom buffer direction w =
     do { let pages = drop_bit PAGE_SIZE_BITS (of_nat (length buffer) + PAGE_SIZE - 1);
          (res, w) \<leftarrow> frames_alloc oom (env_debug env) (unat pages) w;
          frames \<leftarrow> res;
          first \<leftarrow> vec_get frames 0;
          let pa = ppn_start_addr first;
          let w = (if direction = DriverToDevice \<or> direction = Both then phys_write pa buffer w else w);
          Some (pa, w\<lparr>queue_frames := queue_frames w @ frames\<rparr>) }"

text \<open>\<open>while current_ppn != ppn_end\<close> makes as many turns as the difference, modulo the word size.\<close>

fun dealloc_pages :: "bool \<Rightarrow> nat \<Rightarrow> PhysPageNum \<Rightarrow> 'a kmem_scheme \<Rightarrow> 'a kmem_scheme option" where
  "dealloc_pages debug 0 ppn w = Some w"
| "dealloc_pages debug (Suc n) ppn w = do { w \<leftarrow> frame_dealloc debug ppn w; dealloc_pages debug n (ppn + 1) w }"

definition virtio_unshare ::
  "'d kenv \<Rightarrow> usize \<Rightarrow> u8 list \<Rightarrow> buffer_direction \<Rightarrow> ('d, 'z) vw \<Rightarrow> (u8 list \<times> ('d, 'z) vw) option" where
  "virtio_unshare env paddr buffer direction w =
     do { let ppn_start = pa_floor paddr;
          let ppn_end = pa_ceil (paddr + of_nat (length buffer));
          let buffer = (if direction = DeviceToDriver \<or> direction = Both then phys_read w paddr (length buffer) else buffer);
          w \<leftarrow> dealloc_pages (env_debug env) (unat (ppn_end - ppn_start)) ppn_start w;
          Some (buffer, w) }"

definition virtio_hal :: "'d kenv \<Rightarrow> ('d, 'z vworld_ext) woom \<Rightarrow> ('d, 'z) vw hal" where
  "virtio_hal env oom = \<lparr>hal_share = virtio_share env oom, hal_unshare = virtio_unshare env\<rparr>"

fun dma_alloc_loop ::
  "('d, 'z vworld_ext) woom \<Rightarrow> nat \<Rightarrow> nat \<Rightarrow> PhysPageNum \<Rightarrow> ('d, 'z) vw \<Rightarrow> (PhysPageNum \<times> ('d, 'z) vw) option" where
  "dma_alloc_loop oom i 0 ppn_base w = Some (ppn_base, w)"
| "dma_alloc_loop oom i (Suc n) ppn_base w =
     do { (res, w) \<leftarrow> frame_alloc oom w;
          frame \<leftarrow> res;
          let ppn_base = (if i = 0 then frame else ppn_base);
          assert_that (frame = ppn_base + of_nat i);
          dma_alloc_loop oom (Suc i) n ppn_base (w\<lparr>queue_frames := queue_frames w @ [frame]\<rparr>) }"

definition virtio_dma_alloc :: "('d, 'z vworld_ext) woom \<Rightarrow> nat \<Rightarrow> ('d, 'z) vw \<Rightarrow> (usize \<times> ('d, 'z) vw) option" where
  "virtio_dma_alloc oom pages w =
     do { (ppn_base, w) \<leftarrow> dma_alloc_loop oom 0 pages 0 w;
          Some (pa_from_ppn ppn_base, w) }"

definition virtio_dma_dealloc :: "'d kenv \<Rightarrow> usize \<Rightarrow> nat \<Rightarrow> ('d, 'z) vw \<Rightarrow> ('d, 'z) vw option" where
  "virtio_dma_dealloc env pa pages w =
     do { ppn_base \<leftarrow> ppn_from_pa pa;
          dealloc_pages (env_debug env) pages ppn_base w }"

subsection \<open>Requests\<close>

definition SECTOR_SIZE :: nat where "SECTOR_SIZE = 512"

datatype req_type = ReqIn | ReqOut | ReqFlush | ReqGetId | ReqGetLifetime | ReqDiscard | ReqWriteZeroes | ReqSecureErase

fun req_code :: "req_type \<Rightarrow> u32" where
  "req_code ReqIn = 0"
| "req_code ReqOut = 1"
| "req_code ReqFlush = 4"
| "req_code ReqGetId = 8"
| "req_code ReqGetLifetime = 10"
| "req_code ReqDiscard = 11"
| "req_code ReqWriteZeroes = 13"
| "req_code ReqSecureErase = 14"

record blk_req =
  rt_type :: req_type
  rt_reserved :: u32
  rt_sector :: u64

definition blk_req_default :: blk_req where
  "blk_req_default = \<lparr>rt_type = ReqIn, rt_reserved = 0, rt_sector = 0\<rparr>"

definition req_bytes :: "blk_req \<Rightarrow> u8 list" where
  "req_bytes r = le32 (req_code (rt_type r)) @ le32 (rt_reserved r) @ le64 (rt_sector r)"

text \<open>The default of \<open>BlkResp\<close> is \<open>NOT_READY\<close>.\<close>

definition blk_resp_default :: u8 where "blk_resp_default = 3"

definition status_result :: "u8 \<Rightarrow> virtio_error + unit" where
  "status_result status =
     (if status = 0 then Inr () else if status = 1 then Inl IoError else if status = 2 then Inl Unsupported
      else if status = 3 then Inl NotReady else Inl IoError)"

type_synonym 'h device = "descriptor list \<Rightarrow> avail_ring \<Rightarrow> used_ring \<Rightarrow> 'h \<Rightarrow> used_ring \<times> 'h"

record 'h blk_driver =
  bd_hal :: "'h hal"
  bd_notify :: "u16 \<Rightarrow> 'h \<Rightarrow> 'h"
  bd_device :: "'h device"
  bd_flush :: bool

text \<open>The status is the last byte of the last buffer; an error of the queue is returned as it is.\<close>

definition blk_request :: "'h blk_driver \<Rightarrow> blk_req \<Rightarrow> virt_queue \<Rightarrow> 'h \<Rightarrow> ((virtio_error + unit) \<times> virt_queue \<times> 'h) option" where
  "blk_request drv request q h =
     do { (res, bufs, q, h) \<leftarrow>
            add_notify_wait_pop (bd_hal drv) (bd_notify drv) (bd_device drv) [req_bytes request] [[blk_resp_default]] q h;
          Some (case res of Inl e \<Rightarrow> Inl e | Inr _ \<Rightarrow> status_result (hd (last bufs)), q, h) }"

definition request_read ::
  "'h blk_driver \<Rightarrow> blk_req \<Rightarrow> u8 list \<Rightarrow> virt_queue \<Rightarrow> 'h \<Rightarrow> ((virtio_error + unit) \<times> u8 list \<times> virt_queue \<times> 'h) option" where
  "request_read drv request data q h =
     do { (res, bufs, q, h) \<leftarrow>
            add_notify_wait_pop (bd_hal drv) (bd_notify drv) (bd_device drv) [req_bytes request] [data, [blk_resp_default]] q h;
          Some (case res of Inl e \<Rightarrow> Inl e | Inr _ \<Rightarrow> status_result (hd (last bufs)), bufs ! 1, q, h) }"

definition request_write ::
  "'h blk_driver \<Rightarrow> blk_req \<Rightarrow> u8 list \<Rightarrow> virt_queue \<Rightarrow> 'h \<Rightarrow> ((virtio_error + unit) \<times> virt_queue \<times> 'h) option" where
  "request_write drv request data q h =
     do { (res, bufs, q, h) \<leftarrow>
            add_notify_wait_pop (bd_hal drv) (bd_notify drv) (bd_device drv) [req_bytes request, data] [[blk_resp_default]] q h;
          Some (case res of Inl e \<Rightarrow> Inl e | Inr _ \<Rightarrow> status_result (hd (last bufs)), q, h) }"

definition blk_flush :: "'h blk_driver \<Rightarrow> virt_queue \<Rightarrow> 'h \<Rightarrow> ((virtio_error + unit) \<times> virt_queue \<times> 'h) option" where
  "blk_flush drv q h =
     (if bd_flush drv then blk_request drv (blk_req_default\<lparr>rt_type := ReqFlush\<rparr>) q h else Some (Inr (), q, h))"

definition device_id ::
  "'h blk_driver \<Rightarrow> u8 list \<Rightarrow> virt_queue \<Rightarrow> 'h \<Rightarrow> ((virtio_error + nat) \<times> u8 list \<times> virt_queue \<times> 'h) option" where
  "device_id drv i q h =
     do { (res, i, q, h) \<leftarrow> request_read drv (blk_req_default\<lparr>rt_type := ReqGetId\<rparr>) i q h;
          Some (case res of Inl e \<Rightarrow> Inl e
                | Inr _ \<Rightarrow> Inr (case find_idx (\<lambda>x. x = 0) i of None \<Rightarrow> 20 | Some n \<Rightarrow> n), i, q, h) }"

definition vblk_read_blocks ::
  "'h blk_driver \<Rightarrow> usize \<Rightarrow> u8 list \<Rightarrow> virt_queue \<Rightarrow> 'h \<Rightarrow> ((virtio_error + unit) \<times> u8 list \<times> virt_queue \<times> 'h) option" where
  "vblk_read_blocks drv block_id buf q h =
     do { assert_that (buf \<noteq> []);
          assert_that (length buf mod SECTOR_SIZE = 0);
          request_read drv \<lparr>rt_type = ReqIn, rt_reserved = 0, rt_sector = block_id\<rparr> buf q h }"

definition vblk_write_blocks ::
  "'h blk_driver \<Rightarrow> usize \<Rightarrow> u8 list \<Rightarrow> virt_queue \<Rightarrow> 'h \<Rightarrow> ((virtio_error + unit) \<times> virt_queue \<times> 'h) option" where
  "vblk_write_blocks drv block_id buf q h =
     do { assert_that (buf \<noteq> []);
          assert_that (length buf mod SECTOR_SIZE = 0);
          request_write drv (blk_req_default\<lparr>rt_type := ReqOut, rt_sector := block_id\<rparr>) buf q h }"

definition virtio_block_read_chunk ::
  "'h blk_driver \<Rightarrow> usize \<Rightarrow> u8 list \<Rightarrow> virt_queue \<Rightarrow> 'h \<Rightarrow> (u8 list \<times> virt_queue \<times> 'h) option" where
  "virtio_block_read_chunk drv block_id chunk q h =
     do { (res, chunk, q, h) \<leftarrow> vblk_read_blocks drv block_id chunk q h;
          (case res of Inl _ \<Rightarrow> None | Inr _ \<Rightarrow> Some (chunk, q, h)) }"

definition virtio_block_write_chunk ::
  "'h blk_driver \<Rightarrow> usize \<Rightarrow> u8 list \<Rightarrow> virt_queue \<Rightarrow> 'h \<Rightarrow> (virt_queue \<times> 'h) option" where
  "virtio_block_write_chunk drv block_id chunk q h =
     do { (res, q, h) \<leftarrow> vblk_write_blocks drv block_id chunk q h;
          (case res of Inl _ \<Rightarrow> None | Inr _ \<Rightarrow> Some (q, h)) }"

text \<open>\<open>read_block\<close> and \<open>write_block\<close> of the kernel: sector after sector.\<close>

fun read_chunks ::
  "'h blk_driver \<Rightarrow> usize \<Rightarrow> u8 list list \<Rightarrow> virt_queue \<Rightarrow> 'h \<Rightarrow> (u8 list \<times> virt_queue \<times> 'h) option" where
  "read_chunks drv block_id [] q h = Some ([], q, h)"
| "read_chunks drv block_id (chunk # chs) q h =
     do { (bs, q, h) \<leftarrow> virtio_block_read_chunk drv block_id chunk q h;
          (rest, q, h) \<leftarrow> read_chunks drv (block_id + 1) chs q h;
          Some (bs @ rest, q, h) }"

fun write_chunks :: "'h blk_driver \<Rightarrow> usize \<Rightarrow> u8 list list \<Rightarrow> virt_queue \<Rightarrow> 'h \<Rightarrow> (virt_queue \<times> 'h) option" where
  "write_chunks drv block_id [] q h = Some (q, h)"
| "write_chunks drv block_id (chunk # chs) q h =
     do { (q, h) \<leftarrow> virtio_block_write_chunk drv block_id chunk q h;
          write_chunks drv (block_id + 1) chs q h }"

definition virtio_read_block ::
  "'h blk_driver \<Rightarrow> usize \<Rightarrow> u8 list \<Rightarrow> virt_queue \<Rightarrow> 'h \<Rightarrow> (u8 list \<times> virt_queue \<times> 'h) option" where
  "virtio_read_block drv block_id buf q h =
     do { assert_that (length buf mod BLOCK_SZ = 0);
          read_chunks drv (block_id * of_nat BLOCK_RATIO) (chunks VIRT_IO_BLOCK_SZ buf) q h }"

definition virtio_write_block ::
  "'h blk_driver \<Rightarrow> usize \<Rightarrow> u8 list \<Rightarrow> virt_queue \<Rightarrow> 'h \<Rightarrow> (virt_queue \<times> 'h) option" where
  "virtio_write_block drv block_id buf q h =
     do { assert_that (length buf mod BLOCK_SZ = 0);
          write_chunks drv (block_id * of_nat BLOCK_RATIO) (chunks VIRT_IO_BLOCK_SZ buf) q h }"

section \<open>Frames as buffers\<close>

lemma start_addr_plus:
  assumes "unat p < 2 ^ 44" and "i < 4096"
  shows "unat (ppn_start_addr p + of_nat i) = unat p * 4096 + i"
proof -
  have m: "unat (ppn_start_addr p) = unat p * 4096"
    using assms(1) by (simp add: ppn_start_addr_def PAGE_SIZE_BITS_def push_bit_eq_mult unat_word_ariths)
  have "unat (ppn_start_addr p) + i < 2 ^ 64" unfolding m using assms by simp
  then show ?thesis using assms(2) m by (simp add: unat_word_ariths unat_of_nat take_bit_eq_mod)
qed

lemma start_addr_floor:
  assumes "unat p < 2 ^ 44" and "i < 4096"
  shows "pa_floor (ppn_start_addr p + of_nat i) = p" "unat (pa_page_offset (ppn_start_addr p + of_nat i)) = i"
proof -
  note u = start_addr_plus [OF assms]
  show "pa_floor (ppn_start_addr p + of_nat i) = p"
    unfolding pa_floor_def word_unat_eq_iff unat_div_distrib u using assms(2) by (simp add: PAGE_SIZE_def)
  have "unat (pa_page_offset (ppn_start_addr p + of_nat i)) = unat (ppn_start_addr p + of_nat i) mod 4096"
    using unat_va_page_offset by (simp only: pa_page_offset_def va_page_offset_def Let_def)
  then show "unat (pa_page_offset (ppn_start_addr p + of_nat i)) = i" unfolding u using assms(2) by simp
qed

lemma phys_read_frame:
  assumes "unat p < 2 ^ 44" and "n \<le> 4096"
  shows "phys_read w (ppn_start_addr p) n = take n (bytes_array p w)"
  using assms start_addr_floor [OF assms(1)]
  by (auto simp: phys_read_def phys_byte_def bytes_array_def page_bytes_def take_map intro!: nth_equalityI)

lemma write_bytes_twice:
  "write_bytes p (off + length bs) cs (write_bytes p off bs w) = write_bytes p off (bs @ cs) w"
  by (auto simp: write_bytes_def page_write_def nth_append fun_eq_iff intro!: arg_cong [where f = "\<lambda>x. w\<lparr>pmem := x\<rparr>"])

lemma phys_write_at:
  assumes "unat p < 2 ^ 44"
  shows "i + length bs \<le> 4096 \<Longrightarrow> phys_write (ppn_start_addr p + of_nat i) bs w = write_bytes p i bs w"
proof (induction bs arbitrary: i w)
  case Nil
  have "page_write i [] pg = pg" for pg by (rule ext) (auto simp: page_write_def)
  then show ?case by (simp add: write_bytes_def)
next
  case (Cons b bs)
  have "phys_set (ppn_start_addr p + of_nat i) b w = write_bytes p i [b] w"
    using start_addr_floor [OF assms, of i] Cons.prems by (simp add: phys_set_def)
  moreover have "ppn_start_addr p + of_nat i + 1 = ppn_start_addr p + of_nat (i + 1)" by simp
  ultimately have "phys_write (ppn_start_addr p + of_nat i) (b # bs) w = phys_write (ppn_start_addr p + of_nat (i + 1)) bs (write_bytes p i [b] w)"
    by (simp only: phys_write.simps)
  also have "\<dots> = write_bytes p (i + 1) bs (write_bytes p i [b] w)" by (rule Cons.IH) (use Cons.prems in simp)
  also have "\<dots> = write_bytes p i (b # bs) w" using write_bytes_twice [of p i "[b]" bs w] by simp
  finally show ?case .
qed

lemma phys_write_frame:
  assumes "unat p < 2 ^ 44" and "length bs \<le> 4096"
  shows "phys_write (ppn_start_addr p) bs w = write_bytes p 0 bs w"
  using phys_write_at [OF assms(1), of 0 bs w] assms(2) by simp

lemma one_page:
  assumes "1 \<le> n" and "n \<le> 4096"
  shows "unat (drop_bit PAGE_SIZE_BITS (of_nat n + PAGE_SIZE - 1)) = 1"
proof -
  have "unat (of_nat n + PAGE_SIZE - 1 :: usize) = n + 4095"
    using assms by (simp add: PAGE_SIZE_def unat_word_ariths unat_of_nat take_bit_eq_mod)
  then show ?thesis using assms by (simp add: PAGE_SIZE_BITS_def drop_bit_eq_div unat_div_distrib)
qed

lemma one_page_back:
  assumes "unat p < 2 ^ 44" and "1 \<le> n" and "n \<le> 4096"
  shows "unat (pa_ceil (ppn_start_addr p + of_nat n) - pa_floor (ppn_start_addr p)) = 1"
proof -
  have f: "pa_floor (ppn_start_addr p) = p" using start_addr_floor(1) [OF assms(1), of 0] by simp
  obtain m where m: "n = Suc m" "m < 4096" using assms(2,3) by (cases n) auto
  have e: "ppn_start_addr p + of_nat n - 1 = ppn_start_addr p + of_nat m" using m(1) by simp
  have "unat (ppn_start_addr p + of_nat n - 1) = unat p * 4096 + m" unfolding e by (rule start_addr_plus [OF assms(1) m(2)])
  moreover have "unat p * 4096 + m + 4096 < 2 ^ 64" using assms(1) m(2) by simp
  ultimately have "unat (ppn_start_addr p + of_nat n - 1 + PAGE_SIZE) = unat p * 4096 + m + 4096"
    using unat_add_no_wrap [of "ppn_start_addr p + of_nat n - 1" PAGE_SIZE] by (simp add: PAGE_SIZE_def)
  then have "unat (pa_ceil (ppn_start_addr p + of_nat n)) = unat p + 1"
    unfolding pa_ceil_def unat_div_distrib using m(2) by (simp add: PAGE_SIZE_def)
  then have "pa_ceil (ppn_start_addr p + of_nat n) = p + 1"
    using assms(1) by (simp add: word_unat_eq_iff unat_word_ariths)
  then show ?thesis using f by simp
qed

section \<open>Frames lent to the device\<close>

text \<open>The two worlds differ in what the driver and the device work on.\<close>

definition driver_only :: "('d, 'z) vw \<Rightarrow> ('d, 'z) vw \<Rightarrow> bool" where
  "driver_only w0 w \<longleftrightarrow> (\<exists>fa pm ar qf d. w = w0\<lparr>kfa := fa, pmem := pm, arcs := ar, kdisk := d, queue_frames := qf\<rparr>)"

lemma driver_only_refl: "driver_only w w"
  unfolding driver_only_def
  by (intro exI [of _ "kfa w"] exI [of _ "pmem w"] exI [of _ "arcs w"] exI [of _ "queue_frames w"] exI [of _ "kdisk w"]) simp

lemma driver_only_upd:
  assumes "driver_only w0 w"
  shows "driver_only w0 (w\<lparr>kfa := fa\<rparr>)" "driver_only w0 (w\<lparr>pmem := pm, kdisk := d\<rparr>)"
    "driver_only w0 (w\<lparr>kfa := fa, pmem := pm, arcs := ar, queue_frames := qf\<rparr>)"
proof -
  obtain fa' pm' ar' qf' d' where w: "w = w0\<lparr>kfa := fa', pmem := pm', arcs := ar', kdisk := d', queue_frames := qf'\<rparr>"
    using assms by (auto simp: driver_only_def)
  show "driver_only w0 (w\<lparr>kfa := fa\<rparr>)" unfolding driver_only_def
    by (rule exI [of _ fa], rule exI [of _ pm'], rule exI [of _ ar'], rule exI [of _ qf'], rule exI [of _ d']) (simp add: w)
  show "driver_only w0 (w\<lparr>pmem := pm, kdisk := d\<rparr>)" unfolding driver_only_def
    by (rule exI [of _ fa'], rule exI [of _ pm], rule exI [of _ ar'], rule exI [of _ qf'], rule exI [of _ d]) (simp add: w)
  show "driver_only w0 (w\<lparr>kfa := fa, pmem := pm, arcs := ar, queue_frames := qf\<rparr>)" unfolding driver_only_def
    by (rule exI [of _ fa], rule exI [of _ pm], rule exI [of _ ar], rule exI [of _ qf], rule exI [of _ d']) (simp add: w)
qed

text \<open>
  Compared with \<open>w0\<close>, the world \<open>w\<close> has the frames \<open>ps\<close> in use as buffers. Only frames of \<open>T\<close>, all of
  them free in \<open>w0\<close>, were touched, and the driver's bookkeeping.
\<close>

definition lent :: "usize \<Rightarrow> ('d, 'z) vw \<Rightarrow> PhysPageNum set \<Rightarrow> PhysPageNum list \<Rightarrow> ('d, 'z) vw \<Rightarrow> bool" where
  "lent lo w0 T ps w \<longleftrightarrow>
     driver_only w0 w \<and> km_inv lo w \<and> fa_end (kfa w) = fa_end (kfa w0) \<and> unat (fa_end (kfa w0)) \<le> 2 ^ 44 \<and>
     distinct ps \<and> set ps \<subseteq> T \<and> T \<inter> km_allocated lo w0 = {} \<and> km_allocated lo w = set ps \<union> km_allocated lo w0 \<and>
     km_free w0 = length ps + km_free w \<and> (\<forall>p. p \<notin> T \<longrightarrow> pmem w p = pmem w0 p \<and> arcs w p = arcs w0 p) \<and>
     (\<forall>p \<in> set ps. unat p < 2 ^ 44)"

lemma lentD:
  assumes "lent lo w0 T ps w"
  shows "km_inv lo w" "distinct ps" "set ps \<subseteq> T" "km_free w0 = length ps + km_free w" "p \<in> set ps \<Longrightarrow> unat p < 2 ^ 44"
    "km_allocated lo w = set ps \<union> km_allocated lo w0"
  using assms by (simp_all add: lent_def)

lemma lent_refl:
  assumes "km_inv lo w" and "unat (fa_end (kfa w)) \<le> 2 ^ 44"
  shows "lent lo w {} [] w"
  using assms driver_only_refl by (simp add: lent_def)

text \<open>Changing the contents of lent frames, and of the disk.\<close>

lemma lent_contents:
  assumes "lent lo w0 T ps w" and "\<forall>p. p \<notin> T \<longrightarrow> pm p = pmem w p"
  shows "lent lo w0 T ps (w\<lparr>pmem := pm, kdisk := d\<rparr>)"
  using assms driver_only_upd(2) [of w0 w] by (auto simp: lent_def km_defs)

definition shared_page :: "u8 list \<times> buffer_direction \<Rightarrow> page" where
  "shared_page b = (if snd b = DeviceToDriver then zero_page else page_write 0 (fst b) zero_page)"

lemma share_lent:
  fixes w :: "('d, 'z) vw"
  assumes L: "lent lo w0 T ps w" and free: "0 < km_free w" and n: "buf \<noteq> []" "length buf \<le> 4096"
  shows "\<exists>p w'. virtio_share env oom buf direction w = Some (ppn_start_addr p, w') \<and> lent lo w0 (insert p T) (ps @ [p]) w' \<and>
    p \<notin> set ps \<and> pmem w' = (pmem w)(p := shared_page (buf, direction)) \<and> kdisk w' = kdisk w \<and> queue_frames w' = queue_frames w @ [p]"
proof -
  note D = L [unfolded lent_def]
  have inv: "fa_inv lo (kfa w)" "0 < fa_free (kfa w)" using D free by (simp_all add: km_defs)
  then obtain p fa where t: "fa_take (kfa w) = Some (p, fa)" using fa_take_None [of lo "kfa w"] by (cases "fa_take (kfa w)") auto
  note c = fa_take_cases [OF inv(1) t]
  have e: "fa_end fa = fa_end (kfa w)" using t by (auto simp: fa_take_def Let_def split: option.splits if_splits)
  have p: "unat p < 2 ^ 44" using c D by (auto simp: word_less_nat_alt)
  let ?w1 = "w\<lparr>kfa := fa, pmem := (pmem w)(p := zero_page), arcs := (arcs w)(p := 1)\<rparr>"
  let ?w2 = "w\<lparr>kfa := fa, pmem := (pmem w)(p := shared_page (buf, direction)), arcs := (arcs w)(p := 1), queue_frames := queue_frames w @ [p]\<rparr>"
  have "frame_alloc oom w = Some (Some p, ?w1)"
    by (simp add: frame_alloc_def km_alloc_def t tracker_new_def arc_new_def)
  moreover have "1 \<le> length buf" using n(1) by (cases buf) auto
  ultimately have fr: "frames_alloc oom (env_debug env) (unat (drop_bit PAGE_SIZE_BITS (of_nat (length buf) + PAGE_SIZE - 1))) w = Some (Some [p], ?w1)"
    using one_page [OF _ n(2)] by (simp add: frames_alloc_def)
  have pw: "phys_write (ppn_start_addr p) buf ?w1 = ?w1\<lparr>pmem := (pmem w)(p := page_write 0 buf zero_page)\<rparr>"
    unfolding phys_write_frame [OF p n(2)] by (simp add: write_bytes_def)
  have r: "virtio_share env oom buf direction w = Some (ppn_start_addr p, ?w2)"
    using fr pw by (cases direction) (simp_all add: virtio_share_def Let_def vec_get_def shared_page_def)
  have "driver_only w0 ?w2" using D by (intro driver_only_upd) blast
  then have "lent lo w0 (insert p T) (ps @ [p]) ?w2"
    unfolding lent_def using D c e p by (auto simp: km_defs)
  then show ?thesis using r c D by (intro exI [of _ p] exI [of _ ?w2]) (auto simp: km_defs)
qed

lemma unshare_lent:
  fixes w :: "('d, 'z) vw"
  assumes L: "lent lo w0 T ps w" and p: "p \<in> set ps" and n: "buf \<noteq> []" "length buf \<le> 4096" and dir: "direction \<noteq> Both"
  shows "\<exists>w'. virtio_unshare env (ppn_start_addr p) buf direction w =
      Some (if direction = DeviceToDriver then take (length buf) (bytes_array p w) else buf, w') \<and>
    lent lo w0 T (remove1 p ps) w' \<and> pmem w' = pmem w \<and> kdisk w' = kdisk w \<and> queue_frames w' = queue_frames w"
proof -
  note D = L [unfolded lent_def]
  have pb: "unat p < 2 ^ 44" using D p by blast
  have a: "fa_inv lo (kfa w)" "p \<in> fa_allocated lo (kfa w)" using D p by (auto simp: km_defs)
  obtain fa where fa: "fa_dealloc (env_debug env) p (kfa w) = Some fa" "fa_inv lo fa" "fa_allocated lo fa = fa_allocated lo (kfa w) - {p}"
    "fa_free fa = Suc (fa_free (kfa w))" using fa_dealloc_ok [OF a] by blast
  have e: "fa_end fa = fa_end (kfa w)" using fa(1) by (auto simp: fa_dealloc_def split: if_splits)
  have f: "pa_floor (ppn_start_addr p) = p" using start_addr_floor(1) [OF pb, of 0] by simp
  have l: "1 \<le> length buf" using n(1) by (cases buf) auto
  let ?w = "w\<lparr>kfa := fa\<rparr>"
  have "virtio_unshare env (ppn_start_addr p) buf direction w =
      Some (if direction = DeviceToDriver then take (length buf) (bytes_array p w) else buf, ?w)"
    using one_page_back [OF pb l n(2)] fa(1) dir f phys_read_frame [OF pb n(2), of w]
    by (simp add: virtio_unshare_def Let_def frame_dealloc_def)
  moreover have "driver_only w0 ?w" using D by (intro driver_only_upd) blast
  moreover have "p \<notin> km_allocated lo w0" using D p by blast
  moreover have "set (remove1 p ps) = set ps - {p}" using D by (simp add: set_remove1_eq)
  moreover have "length ps = Suc (length (remove1 p ps))" using p length_pos_if_in_set [OF p] by (simp add: length_remove1)
  ultimately have "lent lo w0 T (remove1 p ps) ?w"
    unfolding lent_def using D fa e p by (auto simp: km_defs)
  then show ?thesis using \<open>virtio_unshare _ _ _ _ _ = _\<close> by auto
qed

lemma share_all_lent:
  fixes w :: "('d, 'z) vw"
  assumes "lent lo w0 T ps w" and "length bufs \<le> km_free w" and "\<forall>b \<in> set bufs. fst b \<noteq> [] \<and> length (fst b) \<le> 4096"
  shows "\<exists>qs w'. share_all (virtio_hal env oom) bufs w = Some (map ppn_start_addr qs, w') \<and> length qs = length bufs \<and>
    lent lo w0 (set qs \<union> T) (ps @ qs) w' \<and> (\<forall>k < length bufs. pmem w' (qs ! k) = shared_page (bufs ! k)) \<and>
    (\<forall>p. p \<notin> set qs \<longrightarrow> pmem w' p = pmem w p) \<and> kdisk w' = kdisk w \<and> queue_frames w' = queue_frames w @ qs"
  using assms
proof (induction bufs arbitrary: T ps w)
  case Nil
  then show ?case by (intro exI [of _ "[]"] exI [of _ w]) simp
next
  case (Cons b bufs)
  obtain buf direction where b: "b = (buf, direction)" by (cases b)
  obtain p w1 where 1: "virtio_share env oom buf direction w = Some (ppn_start_addr p, w1)" "lent lo w0 (insert p T) (ps @ [p]) w1"
    "p \<notin> set ps" "pmem w1 = (pmem w)(p := shared_page (buf, direction))" "kdisk w1 = kdisk w" "queue_frames w1 = queue_frames w @ [p]"
    using share_lent [OF Cons.prems(1), of buf env oom direction] Cons.prems(2,3) b by fastforce
  have free: "length bufs \<le> km_free w1" using Cons.prems(2) lentD(4) [OF Cons.prems(1)] lentD(4) [OF 1(2)] by simp
  obtain qs w' where 2: "share_all (virtio_hal env oom) bufs w1 = Some (map ppn_start_addr qs, w')" "length qs = length bufs"
    "lent lo w0 (set qs \<union> insert p T) ((ps @ [p]) @ qs) w'" "\<forall>k < length bufs. pmem w' (qs ! k) = shared_page (bufs ! k)"
    "\<forall>q. q \<notin> set qs \<longrightarrow> pmem w' q = pmem w1 q" "kdisk w' = kdisk w1" "queue_frames w' = queue_frames w1 @ qs"
    using Cons.IH [OF 1(2) free] Cons.prems(3) by auto
  have pq: "p \<notin> set qs" using lentD(2) [OF 2(3)] by auto
  have "share_all (virtio_hal env oom) (b # bufs) w = Some (map ppn_start_addr (p # qs), w')"
    using 1(1) 2(1) b by (simp add: virtio_hal_def)
  moreover have "lent lo w0 (set (p # qs) \<union> T) (ps @ p # qs) w'" using 2(3) by simp
  moreover have "\<forall>k < length (b # bufs). pmem w' ((p # qs) ! k) = shared_page ((b # bufs) ! k)"
    using 2(4,5) 1(4) pq b by (auto simp: less_Suc_eq_0_disj)
  moreover have "\<forall>q. q \<notin> set (p # qs) \<longrightarrow> pmem w' q = pmem w q" using 2(5) 1(4) by simp
  ultimately show ?case using 2(2,6,7) 1(5,6) by (intro exI [of _ "p # qs"] exI [of _ w']) simp
qed

definition taken_back :: "('d, 'z) vw \<Rightarrow> PhysPageNum \<Rightarrow> u8 list \<times> buffer_direction \<Rightarrow> u8 list" where
  "taken_back w p b = (if snd b = DeviceToDriver then take (length (fst b)) (bytes_array p w) else fst b)"

lemma unshare_list_lent:
  fixes w :: "('d, 'z) vw"
  assumes "lent lo w0 T ps w" and "set qs \<subseteq> set ps" and "distinct qs" and "length qs = length bufs"
    and "\<forall>b \<in> set bufs. fst b \<noteq> [] \<and> length (fst b) \<le> 4096 \<and> snd b \<noteq> Both"
  shows "\<exists>w'. unshare_list (virtio_hal env oom) (map ppn_start_addr qs) bufs w = Some (map2 (taken_back w) qs bufs, w') \<and>
    lent lo w0 T (filter (\<lambda>p. p \<notin> set qs) ps) w' \<and> pmem w' = pmem w \<and> kdisk w' = kdisk w \<and> queue_frames w' = queue_frames w"
  using assms
proof (induction bufs arbitrary: ps qs w)
  case Nil
  then show ?case by simp
next
  case (Cons b bufs)
  obtain buf direction where b: "b = (buf, direction)" by (cases b)
  obtain q qs' where q: "qs = q # qs'" using Cons.prems(4) by (cases qs) auto
  obtain w1 where 1: "virtio_unshare env (ppn_start_addr q) buf direction w =
      Some (if direction = DeviceToDriver then take (length buf) (bytes_array q w) else buf, w1)"
    "lent lo w0 T (remove1 q ps) w1" "pmem w1 = pmem w" "kdisk w1 = kdisk w" "queue_frames w1 = queue_frames w"
    using unshare_lent [OF Cons.prems(1), of q buf direction env] Cons.prems(2,5) b q by auto
  have d: "distinct ps" using lentD(2) [OF Cons.prems(1)] .
  have s: "set qs' \<subseteq> set (remove1 q ps)" "distinct qs'" using Cons.prems(2,3) q d by (auto simp: set_remove1_eq)
  obtain w' where 2: "unshare_list (virtio_hal env oom) (map ppn_start_addr qs') bufs w1 = Some (map2 (taken_back w1) qs' bufs, w')"
    "lent lo w0 T (filter (\<lambda>p. p \<notin> set qs') (remove1 q ps)) w'" "pmem w' = pmem w1" "kdisk w' = kdisk w1" "queue_frames w' = queue_frames w1"
    using Cons.IH [OF 1(2) s] Cons.prems(4,5) q by auto
  have tb: "taken_back w1 = taken_back w" by (intro ext) (simp add: taken_back_def bytes_array_def 1(3))
  have "filter (\<lambda>p. p \<notin> set qs') (remove1 q ps) = filter (\<lambda>p. p \<notin> set qs) ps"
    using d q by (auto simp: distinct_remove1_removeAll removeAll_filter_not_eq intro: filter_cong)
  then show ?case using 1 2 b q tb by (auto simp: virtio_hal_def taken_back_def)
qed

section \<open>The device\<close>

text \<open>
  What the specification says of a block device. It finds the descriptors of a request by following the
  chain from the head, or the table an indirect descriptor points to.
\<close>

definition desc_of :: "u8 list \<Rightarrow> descriptor" where
  "desc_of bs = \<lparr>d_addr = un64 bs, d_len = un32 (drop 8 bs), d_flags = un16 (drop 12 bs), d_next = un16 (drop 14 bs)\<rparr>"

definition parse_table :: "u8 list \<Rightarrow> descriptor list" where
  "parse_table bs = map (\<lambda>k. desc_of (drop (16 * k) bs)) [0..<length bs div 16]"

definition request_descs :: "descriptor list \<Rightarrow> u16 \<Rightarrow> 'a kmem_scheme \<Rightarrow> descriptor list" where
  "request_descs de head w =
     (let d = de ! unat head in
      if d_flags d AND DESC_INDIRECT = DESC_INDIRECT
      then (let t = parse_table (phys_read w (d_addr d) (unat (d_len d))) in walk (length t) t 0)
      else walk (length de) de head)"

text \<open>A read or write of whole sectors: header, data and a status byte (\<open>VirtIO 1.1, 5.2.6\<close>).\<close>

definition blk_wellformed :: "descriptor list \<Rightarrow> 'a kmem_scheme \<Rightarrow> bool" where
  "blk_wellformed ds w \<longleftrightarrow> length ds = 3 \<and> d_len (ds ! 0) = 16 \<and> d_len (ds ! 2) = 1 \<and> unat (d_len (ds ! 1)) mod 512 = 0 \<and>
     d_flags (ds ! 0) AND DESC_WRITE = 0 \<and> d_flags (ds ! 2) AND DESC_WRITE = DESC_WRITE \<and>
     (let t = un32 (phys_read w (d_addr (ds ! 0)) 16) in
      t = 0 \<and> d_flags (ds ! 1) AND DESC_WRITE = DESC_WRITE \<or> t = 1 \<and> d_flags (ds ! 1) AND DESC_WRITE = 0)"

definition blk_serve :: "'d blk \<Rightarrow> descriptor list \<Rightarrow> ('d, 'z) world \<Rightarrow> ('d, 'z) world" where
  "blk_serve med ds w =
     (let header = phys_read w (d_addr (ds ! 0)) 16;
          sector = unat (un64 (drop 8 header));
          n = unat (d_len (ds ! 1))
      in if un32 header = 0
         then phys_write (d_addr (ds ! 2)) [0] (phys_write (d_addr (ds ! 1)) (read_sectors med sector (n div 512) (kdisk w)) w)
         else phys_write (d_addr (ds ! 2)) [0]
                (w\<lparr>kdisk := write_sectors med sector (chunks 512 (phys_read w (d_addr (ds ! 1)) n)) (kdisk w)\<rparr>))"

primrec dev_steps :: "'h device \<Rightarrow> descriptor list \<Rightarrow> avail_ring \<Rightarrow> nat \<Rightarrow> used_ring \<times> 'h \<Rightarrow> used_ring \<times> 'h" where
  "dev_steps dev de av 0 s = s"
| "dev_steps dev de av (Suc n) s = dev_steps dev de av n (dev de av (fst s) (snd s))"

text \<open>
  While requests are available the device, after finitely many steps, has served the next one and put its
  head into the used ring; before that it does not advance the ring. A notification only wakes it.
\<close>

definition blk_device :: "'d blk \<Rightarrow> (('d, 'z) vw) device \<Rightarrow> bool" where
  "blk_device med dev \<longleftrightarrow>
     (\<forall>de av u w.
        let slot = unat (us_idx u AND (of_nat (length de) - 1)); head = av_ring av ! slot; ds = request_descs de head w in
        us_idx u \<noteq> av_idx av \<longrightarrow> slot < length de \<longrightarrow>
        length (us_ring u) = length de \<longrightarrow> length (av_ring av) = length de \<longrightarrow> blk_wellformed ds w \<longrightarrow>
        (\<exists>n u'. dev_steps dev de av n (u, w) = (u', blk_serve med ds w) \<and>
           (\<forall>m < n. us_idx (fst (dev_steps dev de av m (u, w))) = us_idx u) \<and>
           us_idx u' = us_idx u + 1 \<and> length (us_ring u') = length (us_ring u) \<and> ue_id (us_ring u' ! slot) = ucast head))"

lemma wait_pop_steps:
  assumes "\<forall>m < n. us_idx (fst (dev_steps dev (vq_desc q) (vq_avail q) m (vq_used q, h))) = last_used_idx q"
    and "dev_steps dev (vq_desc q) (vq_avail q) n (vq_used q, h) = (u', h')" and "us_idx u' \<noteq> last_used_idx q"
  shows "wait_pop dev q h = Some (q\<lparr>vq_used := u'\<rparr>, h')"
  using assms
proof (induction n arbitrary: q h)
  case 0
  then show ?case by (subst wait_pop.simps) (auto simp: can_pop_def)
next
  case (Suc n)
  obtain u1 h1 where s: "dev (vq_desc q) (vq_avail q) (vq_used q) h = (u1, h1)" by (cases "dev (vq_desc q) (vq_avail q) (vq_used q) h")
  have "us_idx (vq_used q) = last_used_idx q" using Suc.prems(1) [rule_format, of 0] by simp
  then have np: "\<not> can_pop q" by (simp add: can_pop_def)
  have "\<forall>m < n. us_idx (fst (dev_steps dev (vq_desc q) (vq_avail q) m (u1, h1))) = last_used_idx q"
  proof (intro allI impI)
    fix m assume "m < n"
    then show "us_idx (fst (dev_steps dev (vq_desc q) (vq_avail q) m (u1, h1))) = last_used_idx q"
      using Suc.prems(1) [rule_format, of "Suc m"] s by simp
  qed
  then have "wait_pop dev (q\<lparr>vq_used := u1\<rparr>) h1 = Some (q\<lparr>vq_used := u1\<rparr>\<lparr>vq_used := u'\<rparr>, h')"
    using Suc.IH [of "q\<lparr>vq_used := u1\<rparr>" h1] Suc.prems(2,3) s by simp
  then show ?case using np s by (subst wait_pop.simps) simp
qed

lemma desc_of_bytes [simp]: "desc_of (desc_bytes d @ bs) = d"
  by (simp add: desc_of_def desc_bytes_def)

lemma drop_table: "k < length ds \<Longrightarrow> drop (16 * k) (concat (map desc_bytes ds)) = desc_bytes (ds ! k) @ concat (map desc_bytes (drop (Suc k) ds))"
proof (induction ds arbitrary: k)
  case (Cons d ds)
  have l: "length (desc_bytes d) = 16" by (simp add: desc_bytes_def)
  show ?case using Cons l by (cases k) simp_all
qed simp

lemma parse_table_bytes: "parse_table (concat (map desc_bytes ds)) = ds"
  by (rule nth_equalityI) (simp_all add: parse_table_def length_table_bytes drop_table)

lemma take_page_write:
  assumes "length bs = n" and "n \<le> 4096"
  shows "take n (page_bytes (page_write 0 bs pg)) = bs"
  using assms by (auto simp: page_bytes_def page_write_def take_map intro: nth_equalityI)

section \<open>One request\<close>

text \<open>The frames of a request: one for each buffer, and one for the table if it is indirect.\<close>

definition table_in :: "(usize \<times> descriptor list) option \<Rightarrow> PhysPageNum list \<Rightarrow> bool" where
  "table_in tb ts \<longleftrightarrow> (case tb of None \<Rightarrow> ts = [] | Some (a, ds) \<Rightarrow> \<exists>t. ts = [t] \<and> a = ppn_start_addr t)"

lemma share_plan_lent:
  fixes w :: "('d, 'z) vw"
  assumes inv: "km_inv lo w" "unat (fa_end (kfa w)) \<le> 2 ^ 44" "length B + 1 \<le> km_free w" and B: "length B \<le> 256" "B \<noteq> []"
    "\<forall>b \<in> set B. fst b \<noteq> [] \<and> length (fst b) \<le> 4096"
  shows "\<exists>qs tb ts w1. share_plan (virtio_hal env oom) ind B w = Some (map ppn_start_addr qs, tb, w1) \<and> length qs = length B \<and>
    table_in tb ts \<and> lent lo w (set (qs @ ts)) (qs @ ts) w1 \<and> (\<forall>k < length B. pmem w1 (qs ! k) = shared_page (B ! k)) \<and>
    kdisk w1 = kdisk w \<and> queue_frames w1 = queue_frames w @ qs @ ts \<and>
    (\<forall>a ds. tb = Some (a, ds) \<longrightarrow> ds = table_for B (map ppn_start_addr qs) \<and>
       (\<forall>t \<in> set ts. pmem w1 t = page_write 0 (concat (map desc_bytes ds)) zero_page))"
proof -
  have f: "length B \<le> km_free w" using inv(3) by simp
  obtain qs w1 where 1: "share_all (virtio_hal env oom) B w = Some (map ppn_start_addr qs, w1)" "length qs = length B"
    "lent lo w (set qs \<union> {}) ([] @ qs) w1" "\<forall>k < length B. pmem w1 (qs ! k) = shared_page (B ! k)"
    "kdisk w1 = kdisk w" "queue_frames w1 = queue_frames w @ qs"
    using share_all_lent [OF lent_refl [OF inv(1,2)] f B(3)] by blast
  show ?thesis
  proof (cases "ind \<and> 1 < length B")
    case False
    then have "share_plan (virtio_hal env oom) ind B w = Some (map ppn_start_addr qs, None, w1)" using 1(1) by (auto simp: share_plan_def)
    then show ?thesis using 1 by (intro exI [of _ qs] exI [of _ None] exI [of _ "[]"] exI [of _ w1]) (simp add: table_in_def)
  next
    case True
    let ?ds = "table_for B (map ppn_start_addr qs)"
    let ?bs = "concat (map desc_bytes ?ds)"
    have l: "length ?bs = 16 * length B" by (simp add: length_table_bytes)
    have bs: "?bs \<noteq> []" "length ?bs \<le> 4096" using l B(1,2) by (auto simp del: concat_eq_Nil_conv)
    have f1: "0 < km_free w1" using inv(3) lentD(4) [OF 1(3)] 1(2) by simp
    obtain t w2 where 2: "virtio_share env oom ?bs DriverToDevice w1 = Some (ppn_start_addr t, w2)"
      "lent lo w (insert t (set qs \<union> {})) (([] @ qs) @ [t]) w2" "t \<notin> set qs"
      "pmem w2 = (pmem w1)(t := shared_page (?bs, DriverToDevice))" "kdisk w2 = kdisk w1" "queue_frames w2 = queue_frames w1 @ [t]"
      using share_lent [OF 1(3) f1 bs, of env oom DriverToDevice] by auto
    have "share_plan (virtio_hal env oom) ind B w = Some (map ppn_start_addr qs, Some (ppn_start_addr t, ?ds), w2)"
      using 1(1) 2(1) True by (simp add: share_plan_def virtio_hal_def)
    moreover have "\<forall>k < length B. pmem w2 (qs ! k) = shared_page (B ! k)" using 1(2,4) 2(3,4) by (metis fun_upd_apply nth_mem)
    ultimately show ?thesis
      using 1 2 by (intro exI [of _ qs] exI [of _ "Some (ppn_start_addr t, ?ds)"] exI [of _ "[t]"] exI [of _ w2])
        (auto simp: table_in_def shared_page_def)
  qed
qed

lemma unshare_plan_lent:
  fixes w :: "('d, 'z) vw"
  assumes L: "lent lo w0 T (qs @ ts) w" and r: "rq_addrs r = map ppn_start_addr qs" "table_in (rq_table r) ts"
    and n: "length qs = length (rq_bufs r)" "\<forall>b \<in> set (rq_bufs r). fst b \<noteq> [] \<and> length (fst b) \<le> 4096 \<and> snd b \<noteq> Both"
    and t: "\<forall>a ds. rq_table r = Some (a, ds) \<longrightarrow> ds \<noteq> [] \<and> length ds \<le> 256"
  shows "\<exists>w'. unshare_plan (virtio_hal env oom) r w = Some (map2 (taken_back w) qs (rq_bufs r), w') \<and>
    lent lo w0 T [] w' \<and> pmem w' = pmem w \<and> kdisk w' = kdisk w \<and> queue_frames w' = queue_frames w"
proof (cases "rq_table r")
  case None
  then have ts: "ts = []" using r(2) by (simp add: table_in_def)
  have d: "distinct qs" using lentD(2) [OF L] by simp
  have "set qs \<subseteq> set (qs @ ts)" by simp
  from unshare_list_lent [OF L this d n, of env oom] show ?thesis using None r(1) ts by (simp add: unshare_plan_def)
next
  case (Some x)
  then obtain a ds p where x: "rq_table r = Some (a, ds)" "ts = [p]" "a = ppn_start_addr p" using r(2) by (cases x) (auto simp: table_in_def)
  let ?bs = "concat (map desc_bytes ds)"
  have l: "length ?bs = 16 * length ds" by (simp add: length_table_bytes)
  have "ds \<noteq> []" "length ds \<le> 256" using t x(1) by blast+
  then have bs: "?bs \<noteq> []" "length ?bs \<le> 4096" using l by (auto simp del: concat_eq_Nil_conv)
  have d: "distinct qs" "p \<notin> set qs" using lentD(2) [OF L] x(2) by auto
  obtain w1 where 1: "virtio_unshare env (ppn_start_addr p) ?bs DriverToDevice w = Some (?bs, w1)"
    "lent lo w0 T (remove1 p (qs @ ts)) w1" "pmem w1 = pmem w" "kdisk w1 = kdisk w" "queue_frames w1 = queue_frames w"
    using unshare_lent [OF L _ bs, of p DriverToDevice env] x(2) by auto
  have rm: "remove1 p (qs @ ts) = qs" using x(2) d(2) by (simp add: remove1_append)
  have tb: "taken_back w1 = taken_back w" by (intro ext) (simp add: taken_back_def bytes_array_def 1(3))
  have L1: "lent lo w0 T qs w1" using 1(2) unfolding rm .
  obtain w2 where "unshare_list (virtio_hal env oom) (map ppn_start_addr qs) (rq_bufs r) w1 = Some (map2 (taken_back w1) qs (rq_bufs r), w2)"
    "lent lo w0 T [] w2" "pmem w2 = pmem w1" "kdisk w2 = kdisk w1" "queue_frames w2 = queue_frames w1"
    using unshare_list_lent [OF L1 subset_refl d(1) n, of env oom] by (auto simp: filter_empty_conv)
  then show ?thesis using 1 x r(1) tb by (auto simp: unshare_plan_def virtio_hal_def)
qed

definition idle :: "virt_queue \<Rightarrow> u16 list \<Rightarrow> bool" where
  "idle q fl \<longleftrightarrow> vq_inv q fl [] \<and> us_idx (vq_used q) = last_used_idx q \<and> avail_idx q = last_used_idx q"

lemma request_descs_carries:
  fixes w :: "('d, 'z) vw"
  assumes inv: "vq_inv q fl rs" and r: "r \<in> set rs" and ne: "rq_ins r \<noteq> [] \<or> rq_outs r \<noteq> []" and len: "length (rq_bufs r) \<le> 256"
    and ts: "table_in (rq_table r) ts" "\<forall>t \<in> set ts. unat t < 2 ^ 44"
    and tb: "\<forall>a ds. rq_table r = Some (a, ds) \<longrightarrow> (\<forall>t \<in> set ts. pmem w t = page_write 0 (concat (map desc_bytes ds)) zero_page)"
  shows "carries (rq_bufs r) (rq_addrs r) (request_descs (vq_desc q) (hd (rq_chain r)) w)"
proof (cases "rq_table r")
  case None
  have "length (vq_desc q) = vq_size q" using inv by (simp add: vq_inv_def)
  then show ?thesis using request_seen [OF inv r ne] len None by (simp add: request_descs_def)
next
  case (Some x)
  then obtain a ds t where x: "rq_table r = Some (a, ds)" "ts = [t]" "a = ppn_start_addr t" using ts(1) by (cases x) (auto simp: table_in_def)
  let ?bs = "concat (map desc_bytes ds)" and ?d = "vq_desc q ! unat (hd (rq_chain r))"
  have S: "carries (rq_bufs r) (rq_addrs r) (walk (length ds) ds 0)" "ds = table_for (rq_bufs r) (rq_addrs r)" "d_addr ?d = a"
    "d_len ?d = of_nat (16 * length ds)" "d_flags ?d = DESC_INDIRECT"
    using request_seen [OF inv r ne] len unfolding x(1) by auto
  have l: "length ?bs = 16 * length ds" "length ds \<le> 256" using length_table_bytes S(2) len by auto
  have "unat (of_nat (16 * length ds) :: u32) = 16 * length ds" using l(2) by (simp only: unat_of_nat take_bit_eq_mod) simp
  then have "unat (d_len ?d) = length ?bs" using S(4) l(1) by (simp only:)
  moreover have "phys_read w a (length ?bs) = ?bs"
    using phys_read_frame [of t "length ?bs" w] x ts(2) l tb take_page_write [of ?bs "length ?bs" zero_page] by (simp add: bytes_array_def)
  ultimately have "parse_table (phys_read w (d_addr ?d) (unat (d_len ?d))) = ds" using S(3) parse_table_bytes by simp
  then show ?thesis using S(1,5) by (simp add: request_descs_def)
qed

text \<open>The effect of the device on a request whose buffers are in the frames \<open>qs\<close>.\<close>

lemma blk_serve_frames:
  fixes w :: "('d, 'z) vw"
  assumes q: "length qs = 3" "distinct qs" "\<forall>p \<in> set qs. unat p < 2 ^ 44"
    and C: "carries [(req_bytes r, DriverToDevice), (data, direction), ([st], DeviceToDriver)] (map ppn_start_addr qs) ds"
    and kind: "rt_type r = ReqIn \<and> direction = DeviceToDriver \<or> rt_type r = ReqOut \<and> direction = DriverToDevice"
    and data: "length data \<le> 4096" "length data mod 512 = 0"
    and med: "blk_ok med"
    and pg: "pmem w (qs ! 0) = shared_page (req_bytes r, DriverToDevice)" "pmem w (qs ! 1) = shared_page (data, direction)"
      "pmem w (qs ! 2) = shared_page ([st], DeviceToDriver)"
  shows "blk_wellformed ds w"
    and "\<exists>pm d. blk_serve med ds w = w\<lparr>pmem := pm, kdisk := d\<rparr> \<and> (\<forall>p. p \<notin> set qs \<longrightarrow> pm p = pmem w p) \<and>
      pm (qs ! 2) = page_write 0 [0] zero_page \<and>
      (if rt_type r = ReqIn
       then d = kdisk w \<and> pm (qs ! 1) = page_write 0 (read_sectors med (unat (rt_sector r)) (length data div 512) (kdisk w)) zero_page
       else d = write_sectors med (unat (rt_sector r)) (chunks 512 data) (kdisk w))"
proof -
  obtain a b c where qs: "qs = [a, b, c]" using q(1) by (metis (no_types) length_0_conv length_Suc_conv numeral_3_eq_3)
  have p: "unat a < 2 ^ 44" "unat b < 2 ^ 44" "unat c < 2 ^ 44" "a \<noteq> b" "a \<noteq> c" "b \<noteq> c" using q qs by auto
  have D: "length ds = 3" "d_addr (ds ! 0) = ppn_start_addr a" "d_len (ds ! 0) = of_nat (length (req_bytes r))"
    "d_flags (ds ! 0) AND DESC_WRITE = dir_flag DriverToDevice" "d_addr (ds ! 1) = ppn_start_addr b"
    "d_len (ds ! 1) = of_nat (length data)" "d_flags (ds ! 1) AND DESC_WRITE = dir_flag direction"
    "d_addr (ds ! 2) = ppn_start_addr c" "d_len (ds ! 2) = 1" "d_flags (ds ! 2) AND DESC_WRITE = dir_flag DeviceToDriver"
    using C unfolding carries_def qs by (simp_all add: All_less_Suc numeral_3_eq_3 numeral_2_eq_2)
  have rb: "length (req_bytes r) = 16" by (simp add: req_bytes_def)
  have hdr: "phys_read w (ppn_start_addr a) 16 = req_bytes r"
    using phys_read_frame [OF p(1), of 16 w] pg(1) take_page_write [OF rb, of zero_page] by (simp add: qs bytes_array_def shared_page_def)
  have un: "un32 (req_bytes r) = req_code (rt_type r)" "un64 (drop 8 (req_bytes r)) = rt_sector r"
    by (simp_all add: req_bytes_def)
  have ln: "unat (d_len (ds ! 1)) = length data" using D(6) data(1) by (simp add: unat_of_nat take_bit_eq_mod)
  show "blk_wellformed ds w"
    unfolding blk_wellformed_def using D rb hdr un ln data kind by (auto simp: desc_flags Let_def)
  show "\<exists>pm d. blk_serve med ds w = w\<lparr>pmem := pm, kdisk := d\<rparr> \<and> (\<forall>p. p \<notin> set qs \<longrightarrow> pm p = pmem w p) \<and>
      pm (qs ! 2) = page_write 0 [0] zero_page \<and>
      (if rt_type r = ReqIn
       then d = kdisk w \<and> pm (qs ! 1) = page_write 0 (read_sectors med (unat (rt_sector r)) (length data div 512) (kdisk w)) zero_page
       else d = write_sectors med (unat (rt_sector r)) (chunks 512 data) (kdisk w))"
  proof (cases "rt_type r = ReqIn")
    case True
    let ?s = "read_sectors med (unat (rt_sector r)) (length data div 512) (kdisk w)"
    have ls: "length ?s \<le> 4096" using data length_read_sectors [OF med, of "unat (rt_sector r)" "length data div 512" "kdisk w"]
      by (simp add: VIRT_IO_BLOCK_SZ_def)
    let ?pm = "(pmem w)(b := page_write 0 ?s (pmem w b), c := page_write 0 [0] (pmem w c))"
    have "blk_serve med ds w = write_bytes c 0 [0] (write_bytes b 0 ?s w)"
      using True hdr un ln D(2,5,8) by (simp add: blk_serve_def Let_def phys_write_frame [OF p(2) ls] phys_write_frame [OF p(3), of "[0]", simplified])
    also have "\<dots> = w\<lparr>pmem := ?pm, kdisk := kdisk w\<rparr>" using p(6) by (simp add: write_bytes_def)
    finally show ?thesis using True kind pg qs p
      by (intro exI [of _ ?pm] exI [of _ "kdisk w"]) (auto simp: shared_page_def numeral_2_eq_2)
  next
    case False
    then have dir: "rt_type r = ReqOut" "direction = DriverToDevice" using kind by auto
    let ?d = "write_sectors med (unat (rt_sector r)) (chunks 512 data) (kdisk w)"
    let ?pm = "(pmem w)(c := page_write 0 [0] (pmem w c))"
    have rd: "phys_read w (ppn_start_addr b) (length data) = data"
      using phys_read_frame [OF p(2) data(1), of w] pg(2) take_page_write [OF refl data(1), of zero_page] dir
      by (simp add: qs bytes_array_def shared_page_def)
    have "blk_serve med ds w = write_bytes c 0 [0] (w\<lparr>kdisk := ?d\<rparr>)"
      using dir hdr un ln rd D(2,5,8) by (simp add: blk_serve_def Let_def phys_write_frame [OF p(3), of "[0]", simplified])
    also have "\<dots> = w\<lparr>pmem := ?pm, kdisk := ?d\<rparr>" by (simp add: write_bytes_def)
    finally show ?thesis using False pg qs p
      by (intro exI [of _ ?pm] exI [of _ ?d]) (auto simp: shared_page_def numeral_2_eq_2)
  qed
qed

lemma blk_deviceD:
  fixes w :: "('d, 'z) vw"
  assumes "blk_device med dev" and "us_idx u \<noteq> av_idx av" and "unat (us_idx u AND (of_nat (length de) - 1)) < length de"
    and "length (us_ring u) = length de" and "length (av_ring av) = length de"
    and "av_ring av ! unat (us_idx u AND (of_nat (length de) - 1)) = head" and "blk_wellformed (request_descs de head w) w"
  shows "\<exists>n u'. dev_steps dev de av n (u, w) = (u', blk_serve med (request_descs de head w) w) \<and>
    (\<forall>m < n. us_idx (fst (dev_steps dev de av m (u, w))) = us_idx u) \<and> us_idx u' = us_idx u + 1 \<and>
    length (us_ring u') = length (us_ring u) \<and> ue_id (us_ring u' ! unat (us_idx u AND (of_nat (length de) - 1))) = ucast head"
  using assms unfolding blk_device_def Let_def by blast

lemma ucast_u16_u32: "ucast (ucast (x :: u16) :: u32) = x"
  by (rule bit_word_eqI) (auto simp: bit_simps)

lemma request_ok:
  fixes w :: "('d, 'z) vw" and ins outs :: "u8 list list"
  assumes q: "idle q fl" "3 \<le> vq_size q" and inv: "km_inv lo w" "unat (fa_end (kfa w)) \<le> 2 ^ 44" "4 \<le> km_free w"
    and dev: "blk_ok med" "blk_device med dev" "\<forall>i w. notify i w = w"
    and B: "input_output ins outs = [(req_bytes r, DriverToDevice), (data, direction), ([st], DeviceToDriver)]"
    and kind: "rt_type r = ReqIn \<and> direction = DeviceToDriver \<or> rt_type r = ReqOut \<and> direction = DriverToDevice"
    and data: "data \<noteq> []" "length data \<le> 4096" "length data mod 512 = 0"
  shows "\<exists>len b c (w2 :: ('d, 'z) vw) q' w' T. add_notify_wait_pop (virtio_hal env oom) notify dev ins outs q w =
      Some (Inr len, [req_bytes r, taken_back w2 b (data, direction), taken_back w2 c ([st], DeviceToDriver)], q', w') \<and>
    idle q' fl \<and> vq_size q' = vq_size q \<and> lent lo w T [] w' \<and> kdisk w' = kdisk w2 \<and> pmem w2 c = page_write 0 [0] zero_page \<and>
    length (queue_frames w) + 3 \<le> length (queue_frames w') \<and>
    (if rt_type r = ReqIn
     then kdisk w2 = kdisk w \<and> pmem w2 b = page_write 0 (read_sectors med (unat (rt_sector r)) (length data div 512) (kdisk w)) zero_page
     else kdisk w2 = write_sectors med (unat (rt_sector r)) (chunks 512 data) (kdisk w))"
proof -
  let ?B = "input_output ins outs" and ?hal = "virtio_hal env oom"
  note Q = q(1) [unfolded idle_def]
  have vi: "vq_inv q fl []" using Q by blast
  have rb: "length (req_bytes r) = 16" by (simp add: req_bytes_def)
  have lB: "length ?B = 3" "length ins + length outs = 3" using B length_input_output [of ins outs] by simp_all
  have ne: "ins \<noteq> [] \<or> outs \<noteq> []" and nB: "?B \<noteq> []" using lB(2) B by auto
  have dir: "direction \<noteq> Both" using kind by auto
  have sz: "\<forall>b \<in> set ?B. fst b \<noteq> [] \<and> length (fst b) \<le> 4096 \<and> snd b \<noteq> Both"
    unfolding B using data rb dir by auto
  then have sb: "\<forall>b \<in> set ?B. shareable b" by (fastforce simp: shareable_def)
  have room: "has_room q (length ins + length outs)" using vi q(2) lB(2) by (simp add: has_room_def vq_inv_def)
  obtain qs tb ts w1 where P: "share_plan ?hal (indirect q) ?B w = Some (map ppn_start_addr qs, tb, w1)" "length qs = length ?B"
    "table_in tb ts" "lent lo w (set (qs @ ts)) (qs @ ts) w1" "\<forall>k < length ?B. pmem w1 (qs ! k) = shared_page (?B ! k)"
    "kdisk w1 = kdisk w" "queue_frames w1 = queue_frames w @ qs @ ts"
    "\<forall>a ds. tb = Some (a, ds) \<longrightarrow> ds = table_for ?B (map ppn_start_addr qs) \<and>
       (\<forall>t \<in> set ts. pmem w1 t = page_write 0 (concat (map desc_bytes ds)) zero_page)"
    using share_plan_lent [OF inv(1,2), of ?B env oom "indirect q"] inv(3) lB nB sz by auto
  let ?r = "plan_request fl ins outs (map ppn_start_addr qs) tb" and ?m = "if tb = None then length ins + length outs else 1"
  have R: "rq_ins ?r = ins" "rq_outs ?r = outs" "rq_addrs ?r = map ppn_start_addr qs" "rq_table ?r = tb" "rq_chain ?r = take ?m fl"
    by (simp_all add: plan_request_def)
  obtain q1 where A: "vq_add ?hal ins outs q w = Some (Inr (hd fl), q1, w1)" "published (hd fl) q q1" "rq_chain ?r \<noteq> []"
    "hd (rq_chain ?r) = hd fl" "vq_inv q1 (drop ?m fl) ([] @ [?r])"
    using vq_add_ok [OF vi ne room sb P(1)] by blast
  note pub = A(2) [unfolded published_def]
  have I1: "length (vq_desc q1) = vq_size q1" "length (av_ring (vq_avail q1)) = vq_size q1" "length (us_ring (vq_used q1)) = vq_size q1"
    using A(5) by (simp_all add: vq_inv_def)
  have bnd: "\<forall>p \<in> set (qs @ ts). unat p < 2 ^ 44" using lentD(5) [OF P(4)] by blast
  let ?ds = "request_descs (vq_desc q1) (hd fl) w1"
  have C: "carries [(req_bytes r, DriverToDevice), (data, direction), ([st], DeviceToDriver)] (map ppn_start_addr qs) ?ds"
    using request_descs_carries [OF A(5), of ?r ts w1] R A(4) ne lB P(3,8) bnd B by simp
  have pg: "pmem w1 (qs ! 0) = shared_page (req_bytes r, DriverToDevice)" "pmem w1 (qs ! 1) = shared_page (data, direction)"
    "pmem w1 (qs ! 2) = shared_page ([st], DeviceToDriver)" using P(5) unfolding lB(1) B by (simp_all add: All_less_Suc numeral_3_eq_3 numeral_2_eq_2)
  have dq: "length qs = 3" "distinct qs" "\<forall>p \<in> set qs. unat p < 2 ^ 44" using P(2) lB(1) lentD(2) [OF P(4)] bnd by auto
  note S = blk_serve_frames [OF dq C kind data(2,3) dev(1) pg]
  obtain pm d where E: "blk_serve med ?ds w1 = w1\<lparr>pmem := pm, kdisk := d\<rparr>" "\<forall>p. p \<notin> set qs \<longrightarrow> pm p = pmem w1 p"
    "pm (qs ! 2) = page_write 0 [0] zero_page"
    "if rt_type r = ReqIn
     then d = kdisk w1 \<and> pm (qs ! 1) = page_write 0 (read_sectors med (unat (rt_sector r)) (length data div 512) (kdisk w1)) zero_page
     else d = write_sectors med (unat (rt_sector r)) (chunks 512 data) (kdisk w1)" using S(2) by blast
  let ?w2 = "w1\<lparr>pmem := pm, kdisk := d\<rparr>" and ?slot = "unat (last_used_idx q AND (of_nat (vq_size q) - 1))"
  have us: "us_idx (vq_used q1) = last_used_idx q" "av_idx (vq_avail q1) = last_used_idx q + 1" using pub Q by simp_all
  have slot: "?slot < vq_size q" by (rule vq_size_word(1) [OF vi])
  have head: "av_ring (vq_avail q1) ! unat (us_idx (vq_used q1) AND (of_nat (length (vq_desc q1)) - 1)) = hd fl"
    using pub Q slot I1 vi by (simp add: vq_inv_def)
  obtain n u' where U: "dev_steps dev (vq_desc q1) (vq_avail q1) n (vq_used q1, w1) = (u', ?w2)"
    "\<forall>m < n. us_idx (fst (dev_steps dev (vq_desc q1) (vq_avail q1) m (vq_used q1, w1))) = us_idx (vq_used q1)"
    "us_idx u' = us_idx (vq_used q1) + 1" "length (us_ring u') = length (us_ring (vq_used q1))"
    "ue_id (us_ring u' ! ?slot) = ucast (hd fl)"
    using blk_deviceD [OF dev(2), of "vq_used q1" "vq_avail q1" "vq_desc q1" "hd fl" w1] us I1 head S(1) E(1) pub slot by auto
  have wait: "wait_pop dev q1 w1 = Some (q1\<lparr>vq_used := u'\<rparr>, ?w2)"
    by (rule wait_pop_steps [OF _ U(1)]) (use U(2,3) us pub in auto)
  let ?q2 = "q1\<lparr>vq_used := u'\<rparr>"
  have I2: "vq_inv ?q2 (drop ?m fl) ([] @ ?r # [])" by (rule vq_inv_used [OF A(5)]) (use U(4) I1 in simp)
  have cp: "can_pop ?q2" using U(3) us pub by (simp add: can_pop_def)
  have el: "last_used_elem ?q2 = Some (us_ring u' ! ?slot)"
    using slot U(4) I1 pub by (simp add: last_used_elem_def)
  have tok: "ucast (ue_id (us_ring u' ! ?slot)) = hd (rq_chain ?r)" using U(5) A(4) by (simp add: ucast_u16_u32)
  have L2: "lent lo w (set (qs @ ts)) (qs @ ts) ?w2" by (rule lent_contents [OF P(4)]) (use E(2) in auto)
  have tl: "\<forall>a ds. tb = Some (a, ds) \<longrightarrow> ds \<noteq> [] \<and> length ds \<le> 256"
  proof (intro allI impI)
    fix a ds assume "tb = Some (a, ds)"
    then have "length ds = 3" using P(8) lB(1) by simp
    then show "ds \<noteq> [] \<and> length ds \<le> 256" by auto
  qed
  obtain w3 where W: "unshare_plan ?hal ?r ?w2 = Some (map2 (taken_back ?w2) qs ?B, w3)" "lent lo w (set (qs @ ts)) [] w3"
    "pmem w3 = pm" "kdisk w3 = d" "queue_frames w3 = queue_frames w1"
    using unshare_plan_lent [OF L2, of ?r env oom] unfolding R using P(2,3) sz tl by auto
  obtain q3 where X: "pop_used ?hal (hd fl) ins outs ?q2 ?w2 = Some (Inr (ue_len (us_ring u' ! ?slot)), map2 (taken_back ?w2) qs ?B, q3, w3)"
    "popped ?q2 q3" "vq_inv q3 fl []"
    using pop_used_ok [OF I2 cp el tok W(1)] A(4) R by auto
  have all: "add_notify_wait_pop ?hal notify dev ins outs q w =
      Some (Inr (ue_len (us_ring u' ! ?slot)), map2 (taken_back ?w2) qs ?B, q3, w3)"
    using A(1) wait X(1) dev(3) by (simp add: add_notify_wait_pop_def Let_def)
  have id: "idle q3 fl" "vq_size q3 = vq_size q" using X(2,3) pub Q U(3) by (simp_all add: idle_def popped_def)
  obtain x y z where xyz: "qs = [x, y, z]" using dq(1) by (metis (no_types) length_0_conv length_Suc_conv numeral_3_eq_3)
  have out: "map2 (taken_back ?w2) qs ?B = [req_bytes r, taken_back ?w2 y (data, direction), taken_back ?w2 z ([st], DeviceToDriver)]"
    unfolding B xyz by (simp add: taken_back_def)
  show ?thesis
    by (rule exI [of _ "ue_len (us_ring u' ! ?slot)"], rule exI [of _ y], rule exI [of _ z], rule exI [of _ ?w2],
        rule exI [of _ q3], rule exI [of _ w3], rule exI [of _ "set (qs @ ts)"])
      (use all [unfolded out] id W E(3,4) P(6,7) xyz in \<open>auto simp: numeral_2_eq_2\<close>)
qed

text \<open>What a request leaves behind: the queue idle, the frames given back, no other memory touched.\<close>

definition request_frame :: "usize \<Rightarrow> u16 list \<Rightarrow> virt_queue \<Rightarrow> ('d, 'z) vw \<Rightarrow> virt_queue \<Rightarrow> ('d, 'z) vw \<Rightarrow> bool" where
  "request_frame lo fl q w q' w' \<longleftrightarrow> idle q' fl \<and> vq_size q' = vq_size q \<and> driver_only w w' \<and> km_inv lo w' \<and>
     km_allocated lo w' = km_allocated lo w \<and> km_free w' = km_free w \<and> fa_end (kfa w') = fa_end (kfa w) \<and>
     (\<forall>p \<in> km_allocated lo w. pmem w' p = pmem w p \<and> arcs w' p = arcs w p)"

lemma lent_frame:
  assumes "lent lo w T [] w'" and "idle q' fl" and "vq_size q' = vq_size q"
  shows "request_frame lo fl q w q' w'"
  using assms by (auto simp: request_frame_def lent_def)

text \<open>The state in which the kernel calls the driver, and a device that meets the specification.\<close>

definition driver_ready :: "usize \<Rightarrow> u16 list \<Rightarrow> virt_queue \<Rightarrow> ('d, 'z) vw \<Rightarrow> bool" where
  "driver_ready lo fl q w \<longleftrightarrow> idle q fl \<and> 3 \<le> vq_size q \<and> km_inv lo w \<and> unat (fa_end (kfa w)) \<le> 2 ^ 44 \<and> 4 \<le> km_free w"

definition driver_ok :: "'d kenv \<Rightarrow> ('d, 'z vworld_ext) woom \<Rightarrow> 'd blk \<Rightarrow> (('d, 'z) vw) blk_driver \<Rightarrow> bool" where
  "driver_ok env oom med drv \<longleftrightarrow> bd_hal drv = virtio_hal env oom \<and> blk_ok med \<and> blk_device med (bd_device drv) \<and>
     (\<forall>i w. bd_notify drv i w = w)"

lemma request_frame_ready: "driver_ready lo fl q w \<Longrightarrow> request_frame lo fl q w q' w' \<Longrightarrow> driver_ready lo fl q' w'"
  by (simp add: driver_ready_def request_frame_def)

lemma read_blocks_ok:
  fixes w :: "('d, 'z) vw"
  assumes drv: "driver_ok env oom med drv" and rd: "driver_ready lo fl q w"
    and buf: "buf \<noteq> []" "length buf \<le> 4096" "length buf mod 512 = 0"
  shows "\<exists>q' w'. vblk_read_blocks drv s buf q w = Some (Inr (), read_sectors med (unat s) (length buf div 512) (kdisk w), q', w') \<and>
    request_frame lo fl q w q' w' \<and> kdisk w' = kdisk w \<and> length (queue_frames w) + 3 \<le> length (queue_frames w')"
proof -
  let ?r = "\<lparr>rt_type = ReqIn, rt_reserved = 0, rt_sector = s\<rparr>"
  let ?s = "read_sectors med (unat s) (length buf div 512) (kdisk w)"
  have med: "blk_ok med" using drv by (simp add: driver_ok_def)
  have B: "input_output [req_bytes ?r] [buf, [blk_resp_default]] = [(req_bytes ?r, DriverToDevice), (buf, DeviceToDriver), ([blk_resp_default], DeviceToDriver)]"
    by (simp add: input_output_def)
  have H: "idle q fl" "3 \<le> vq_size q" "km_inv lo w" "unat (fa_end (kfa w)) \<le> 2 ^ 44" "4 \<le> km_free w"
    using rd by (simp_all add: driver_ready_def)
  have K: "blk_ok med" "blk_device med (bd_device drv)" "\<forall>i w. bd_notify drv i w = w" using drv by (simp_all add: driver_ok_def)
  have kind: "rt_type ?r = ReqIn \<and> DeviceToDriver = DeviceToDriver \<or> rt_type ?r = ReqOut \<and> DeviceToDriver = DriverToDevice" by simp
  obtain len b c and w2 :: "('d, 'z) vw" and q' w' T where X: "add_notify_wait_pop (virtio_hal env oom) (bd_notify drv) (bd_device drv)
      [req_bytes ?r] [buf, [blk_resp_default]] q w =
      Some (Inr len, [req_bytes ?r, taken_back w2 b (buf, DeviceToDriver), taken_back w2 c ([blk_resp_default], DeviceToDriver)], q', w')"
    "idle q' fl" "vq_size q' = vq_size q" "lent lo w T [] w'" "kdisk w' = kdisk w2" "pmem w2 c = page_write 0 [0] zero_page"
    "length (queue_frames w) + 3 \<le> length (queue_frames w')" "kdisk w2 = kdisk w" "pmem w2 b = page_write 0 ?s zero_page"
    using request_ok [OF H K B kind buf, of env oom] by auto
  have ls: "length ?s = length buf" using length_read_sectors [OF med] buf(3) mult_div_mod_eq [of 512 "length buf"] by (simp add: VIRT_IO_BLOCK_SZ_def mult.commute)
  have t: "taken_back w2 b (buf, DeviceToDriver) = ?s"
    using X(9) take_page_write [OF ls buf(2), of zero_page] by (simp add: taken_back_def bytes_array_def)
  have st: "taken_back w2 c ([blk_resp_default], DeviceToDriver) = [0]"
    using X(6) take_page_write [of "[0]" 1 zero_page] by (simp add: taken_back_def bytes_array_def)
  have hal: "bd_hal drv = virtio_hal env oom" using drv by (simp add: driver_ok_def)
  have "vblk_read_blocks drv s buf q w = Some (Inr (), ?s, q', w')"
    using X(1) t st buf hal by (simp add: vblk_read_blocks_def request_read_def SECTOR_SIZE_def status_result_def)
  then show ?thesis using lent_frame [OF X(4,2,3)] X(5,7,8) by auto
qed

lemma write_blocks_ok:
  fixes w :: "('d, 'z) vw"
  assumes drv: "driver_ok env oom med drv" and rd: "driver_ready lo fl q w"
    and buf: "buf \<noteq> []" "length buf \<le> 4096" "length buf mod 512 = 0"
  shows "\<exists>q' w'. vblk_write_blocks drv s buf q w = Some (Inr (), q', w') \<and> request_frame lo fl q w q' w' \<and>
    kdisk w' = write_sectors med (unat s) (chunks 512 buf) (kdisk w)"
proof -
  let ?r = "\<lparr>rt_type = ReqOut, rt_reserved = 0, rt_sector = s\<rparr>"
  have B: "input_output [req_bytes ?r, buf] [[blk_resp_default]] = [(req_bytes ?r, DriverToDevice), (buf, DriverToDevice), ([blk_resp_default], DeviceToDriver)]"
    by (simp add: input_output_def)
  have H: "idle q fl" "3 \<le> vq_size q" "km_inv lo w" "unat (fa_end (kfa w)) \<le> 2 ^ 44" "4 \<le> km_free w"
    using rd by (simp_all add: driver_ready_def)
  have K: "blk_ok med" "blk_device med (bd_device drv)" "\<forall>i w. bd_notify drv i w = w" using drv by (simp_all add: driver_ok_def)
  have kind: "rt_type ?r = ReqIn \<and> DriverToDevice = DeviceToDriver \<or> rt_type ?r = ReqOut \<and> DriverToDevice = DriverToDevice" by simp
  obtain len b c and w2 :: "('d, 'z) vw" and q' w' T where X: "add_notify_wait_pop (virtio_hal env oom) (bd_notify drv) (bd_device drv)
      [req_bytes ?r, buf] [[blk_resp_default]] q w =
      Some (Inr len, [req_bytes ?r, taken_back w2 b (buf, DriverToDevice), taken_back w2 c ([blk_resp_default], DeviceToDriver)], q', w')"
    "idle q' fl" "vq_size q' = vq_size q" "lent lo w T [] w'" "kdisk w' = kdisk w2" "pmem w2 c = page_write 0 [0] zero_page"
    "kdisk w2 = write_sectors med (unat s) (chunks 512 buf) (kdisk w)"
    using request_ok [OF H K B kind buf, of env oom] by auto
  have st: "taken_back w2 c ([blk_resp_default], DeviceToDriver) = [0]"
    using X(6) take_page_write [of "[0]" 1 zero_page] by (simp add: taken_back_def bytes_array_def)
  have hal: "bd_hal drv = virtio_hal env oom" using drv by (simp add: driver_ok_def)
  have "vblk_write_blocks drv s buf q w = Some (Inr (), q', w')"
    using X(1) st buf hal by (simp add: vblk_write_blocks_def request_write_def blk_req_default_def SECTOR_SIZE_def status_result_def)
  then show ?thesis using lent_frame [OF X(4,2,3)] X(5,7) by auto
qed

section \<open>Whole blocks\<close>

lemma driver_only_trans: "driver_only w w1 \<Longrightarrow> driver_only w1 w2 \<Longrightarrow> driver_only w w2"
proof -
  assume a: "driver_only w w1" "driver_only w1 w2"
  obtain fa pm ar qf d where 1: "w1 = w\<lparr>kfa := fa, pmem := pm, arcs := ar, kdisk := d, queue_frames := qf\<rparr>"
    using a(1) unfolding driver_only_def by blast
  obtain fa' pm' ar' qf' d' where 2: "w2 = w1\<lparr>kfa := fa', pmem := pm', arcs := ar', kdisk := d', queue_frames := qf'\<rparr>"
    using a(2) unfolding driver_only_def by blast
  show ?thesis unfolding driver_only_def
    by (rule exI [of _ fa'], rule exI [of _ pm'], rule exI [of _ ar'], rule exI [of _ qf'], rule exI [of _ d']) (simp add: 1 2)
qed

lemma request_frame_trans:
  "request_frame lo fl q w q1 w1 \<Longrightarrow> request_frame lo fl q1 w1 q2 w2 \<Longrightarrow> request_frame lo fl q w q2 w2"
proof -
  assume a: "request_frame lo fl q w q1 w1" and b: "request_frame lo fl q1 w1 q2 w2"
  note A = a [unfolded request_frame_def] and B = b [unfolded request_frame_def]
  have "driver_only w w2" using driver_only_trans A B by blast
  moreover have "\<forall>p \<in> km_allocated lo w. pmem w2 p = pmem w p \<and> arcs w2 p = arcs w p" using A B by simp
  ultimately show ?thesis unfolding request_frame_def using A B by simp
qed

lemma request_frame_refl: "driver_ready lo fl q w \<Longrightarrow> request_frame lo fl q w q w"
  using driver_only_refl [of w] by (simp add: request_frame_def driver_ready_def)

lemma read_chunks_ok:
  fixes w :: "('d, 'z) vw"
  assumes "driver_ok env oom med drv" and "driver_ready lo fl q w" and "\<forall>c \<in> set cs. length c = 512" and "unat s + length cs < 2 ^ 64"
  shows "\<exists>q' w'. read_chunks drv s cs q w = Some (read_sectors med (unat s) (length cs) (kdisk w), q', w') \<and>
    request_frame lo fl q w q' w' \<and> kdisk w' = kdisk w \<and> length (queue_frames w) + 3 * length cs \<le> length (queue_frames w')"
  using assms(2-)
proof (induction cs arbitrary: s q w)
  case Nil
  then show ?case using request_frame_refl by auto
next
  case (Cons c cs)
  have c: "c \<noteq> []" "length c \<le> 4096" "length c mod 512 = 0" "length c div 512 = 1" using Cons.prems(2) by auto
  obtain q1 w1 where 1: "vblk_read_blocks drv s c q w = Some (Inr (), read_sectors med (unat s) 1 (kdisk w), q1, w1)"
    "request_frame lo fl q w q1 w1" "kdisk w1 = kdisk w" "length (queue_frames w) + 3 \<le> length (queue_frames w1)"
    using read_blocks_ok [OF assms(1) Cons.prems(1) c(1-3), of s] c(4) by auto
  have u: "unat (s + 1) = Suc (unat s)" using Cons.prems(3) unat_add_no_wrap [of s 1] by simp
  have u2: "unat (s + 1) + length cs < 2 ^ 64" using u Cons.prems(3) by simp
  obtain q2 w2 where 2: "read_chunks drv (s + 1) cs q1 w1 = Some (read_sectors med (unat (s + 1)) (length cs) (kdisk w1), q2, w2)"
    "request_frame lo fl q1 w1 q2 w2" "kdisk w2 = kdisk w1" "length (queue_frames w1) + 3 * length cs \<le> length (queue_frames w2)"
    using Cons.IH [OF request_frame_ready [OF Cons.prems(1) 1(2)] _ u2] Cons.prems(2) by auto
  have "read_chunks drv s (c # cs) q w = Some (read_sectors med (unat s) (length (c # cs)) (kdisk w), q2, w2)"
    using 1(1,3) 2(1) u by (simp add: virtio_block_read_chunk_def)
  then show ?case using request_frame_trans [OF 1(2) 2(2)] 1(3,4) 2(3,4) by auto
qed

lemma chunks_single: "length c = 512 \<Longrightarrow> chunks 512 c = [c]"
proof -
  assume c: "length c = 512"
  have "chunks_loop (Suc n) 512 c = [c]" for n using c by (cases n) auto
  from this [of 511] c show ?thesis by (simp add: chunks_def)
qed

lemma write_chunks_ok:
  fixes w :: "('d, 'z) vw"
  assumes "driver_ok env oom med drv" and "driver_ready lo fl q w" and "\<forall>c \<in> set cs. length c = 512" and "unat s + length cs < 2 ^ 64"
  shows "\<exists>q' w'. write_chunks drv s cs q w = Some (q', w') \<and> request_frame lo fl q w q' w' \<and>
    kdisk w' = write_sectors med (unat s) cs (kdisk w)"
  using assms(2-)
proof (induction cs arbitrary: s q w)
  case Nil
  then show ?case using request_frame_refl by auto
next
  case (Cons c cs)
  have c: "c \<noteq> []" "length c \<le> 4096" "length c mod 512 = 0" "chunks 512 c = [c]" using Cons.prems(2) chunks_single by auto
  obtain q1 w1 where 1: "vblk_write_blocks drv s c q w = Some (Inr (), q1, w1)" "request_frame lo fl q w q1 w1"
    "kdisk w1 = write_sectors med (unat s) [c] (kdisk w)"
    using write_blocks_ok [OF assms(1) Cons.prems(1) c(1-3), of s] c(4) by auto
  have u: "unat (s + 1) = Suc (unat s)" using Cons.prems(3) unat_add_no_wrap [of s 1] by simp
  have u2: "unat (s + 1) + length cs < 2 ^ 64" using u Cons.prems(3) by simp
  obtain q2 w2 where 2: "write_chunks drv (s + 1) cs q1 w1 = Some (q2, w2)" "request_frame lo fl q1 w1 q2 w2"
    "kdisk w2 = write_sectors med (unat (s + 1)) cs (kdisk w1)"
    using Cons.IH [OF request_frame_ready [OF Cons.prems(1) 1(2)] _ u2] Cons.prems(2) by auto
  have "write_chunks drv s (c # cs) q w = Some (q2, w2)" using 1(1) 2(1) by (simp add: virtio_block_write_chunk_def)
  then show ?case using request_frame_trans [OF 1(2) 2(2)] 1(3) 2(3) u by auto
qed

lemma chunks_blocks:
  assumes "length buf mod BLOCK_SZ = 0"
  shows "length (chunks VIRT_IO_BLOCK_SZ buf) = length buf div 512" and "\<forall>c \<in> set (chunks VIRT_IO_BLOCK_SZ buf). length c = 512"
proof -
  have "4096 dvd length buf" using assms by (simp add: blk_consts mod_eq_0_iff_dvd)
  then have "512 dvd length buf" by (rule dvd_trans [rotated]) simp
  then have "length buf = length buf div 512 * 512" by simp
  from chunks_loop_exact [OF this, of "length buf"]
  show "length (chunks VIRT_IO_BLOCK_SZ buf) = length buf div 512" and "\<forall>c \<in> set (chunks VIRT_IO_BLOCK_SZ buf). length c = 512"
    by (simp_all add: chunks_def blk_consts)
qed

lemma sector_of_block:
  assumes "unat b * BLOCK_RATIO + n < 2 ^ 64"
  shows "unat (b * of_nat BLOCK_RATIO :: usize) = unat b * BLOCK_RATIO"
  using assms by (simp add: blk_consts unat_word_ariths)

text \<open>
  C17. Let the device meet the specification of a block device over a medium, the queue be idle, and four
  frames be free. A read of whole blocks through the kernel's driver, the driver library, the
  virtqueue and the device returns exactly what the medium holds there and leaves it as it was; a write
  leaves the medium as the specification of the swap partition and the block cache says. Either ends with
  the queue idle, the same free list, the same frames free, and every frame of the kernel untouched.
\<close>

theorem virtio_block_refines_medium:
  fixes w :: "('d, 'z) vw"
  assumes "driver_ok env oom med drv" and "driver_ready lo fl q w" and "length buf mod BLOCK_SZ = 0"
    and "unat b * BLOCK_RATIO + length buf div 512 < 2 ^ 64"
  shows "(\<exists>bytes q' w'. virtio_read_block drv b buf q w = Some (bytes, q', w') \<and>
      read_block med (unat b) (length buf) (kdisk w) = Some bytes \<and> kdisk w' = kdisk w \<and> request_frame lo fl q w q' w') \<and>
    (\<exists>q' w'. virtio_write_block drv b buf q w = Some (q', w') \<and>
      write_block med (unat b) buf (kdisk w) = Some (kdisk w') \<and> request_frame lo fl q w q' w')"
proof -
  let ?s = "b * of_nat BLOCK_RATIO :: usize" and ?cs = "chunks VIRT_IO_BLOCK_SZ buf"
  note c = chunks_blocks [OF assms(3)] and s = sector_of_block [OF assms(4)]
  have b: "unat ?s + length ?cs < 2 ^ 64" using assms(4) s c(1) by simp
  have r: "\<exists>bytes q' w'. virtio_read_block drv b buf q w = Some (bytes, q', w') \<and>
      read_block med (unat b) (length buf) (kdisk w) = Some bytes \<and> kdisk w' = kdisk w \<and> request_frame lo fl q w q' w'"
    using read_chunks_ok [OF assms(1,2) c(2) b] s c(1) assms(3) by (auto simp: virtio_read_block_def read_block_def VIRT_IO_BLOCK_SZ_def)
  have w: "\<exists>q' w'. virtio_write_block drv b buf q w = Some (q', w') \<and>
      write_block med (unat b) buf (kdisk w) = Some (kdisk w') \<and> request_frame lo fl q w q' w'"
    using write_chunks_ok [OF assms(1,2) c(2) b] s assms(3) by (auto simp: virtio_write_block_def write_block_def)
  show ?thesis using r w by blast
qed

text \<open>
  The trackers \<open>share\<close> puts into \<open>QUEUE_FRAMES\<close> are never taken out again, although \<open>unshare\<close> gives the frames
  back: a read of a block leaves at least 24 more of them behind.
\<close>

lemma read_block_leaks_trackers:
  fixes w :: "('d, 'z) vw"
  assumes "driver_ok env oom med drv" and "driver_ready lo fl q w" and "length buf = 4096" and "unat b * BLOCK_RATIO + 8 < 2 ^ 64"
    and "virtio_read_block drv b buf q w = Some (bytes, q', w')"
  shows "length (queue_frames w) + 24 \<le> length (queue_frames w')"
proof -
  have m: "length buf mod BLOCK_SZ = 0" using assms(3) by (simp add: blk_consts)
  note c = chunks_blocks [OF m] and s = sector_of_block [OF assms(4)]
  have b: "unat (b * of_nat BLOCK_RATIO :: usize) + length (chunks VIRT_IO_BLOCK_SZ buf) < 2 ^ 64" using assms(3,4) s c(1) by simp
  show ?thesis using read_chunks_ok [OF assms(1,2) c(2) b] assms(3,5) c(1) m by (auto simp: virtio_read_block_def)
qed

subsection \<open>A device that meets the specification\<close>

definition spec_device :: "'d blk \<Rightarrow> (('d, 'z) vw) device" where
  "spec_device med de av u w =
     (let slot = unat (us_idx u AND (of_nat (length de) - 1)); head = av_ring av ! slot in
      if us_idx u = av_idx av then (u, w)
      else (u\<lparr>us_idx := us_idx u + 1, us_ring := (us_ring u)[slot := \<lparr>ue_id = ucast head, ue_len = 1\<rparr>]\<rparr>,
            blk_serve med (request_descs de head w) w))"

lemma spec_device_ok: "blk_device med (spec_device med)"
proof -
  have "\<exists>n u'. dev_steps (spec_device med) de av n (u, w) = (u', blk_serve med (request_descs de head w) w) \<and>
      (\<forall>m < n. us_idx (fst (dev_steps (spec_device med) de av m (u, w))) = us_idx u) \<and> us_idx u' = us_idx u + 1 \<and>
      length (us_ring u') = length (us_ring u) \<and> ue_id (us_ring u' ! slot) = ucast head"
    if "slot = unat (us_idx u AND (of_nat (length de) - 1))" "head = av_ring av ! slot" "us_idx u \<noteq> av_idx av" "slot < length de"
      "length (us_ring u) = length de" for de av u head slot and w :: "('a, 'b) vw"
    by (rule exI [of _ 1]) (use that in \<open>simp add: spec_device_def Let_def\<close>)
  then show ?thesis unfolding blk_device_def Let_def by blast
qed

definition sample_vworld :: "(nat \<Rightarrow> u8 list) vworld" where
  "sample_vworld = init_frame_allocator 0x80400000 MEMORY_END
     \<lparr>kfa = fa_new, pmem = (\<lambda>_ _. 0), arcs = (\<lambda>_. 0), kzram = zram_new 2048, zarcs = (\<lambda>_. 0),
      kswap = swap_new (\<lambda>_. []) 16, sarcs = (\<lambda>_. 0), kdisk = (\<lambda>_. []), queue_frames = []\<rparr>"

definition sample_driver :: "(nat \<Rightarrow> u8 list) vworld blk_driver" where
  "sample_driver = \<lparr>bd_hal = virtio_hal sample_env (\<lambda>req w. None), bd_notify = (\<lambda>_ w. w),
     bd_device = spec_device sample_blk, bd_flush = False\<rparr>"

lemma sample_driver_ok: "driver_ok sample_env (\<lambda>req w. None) sample_blk sample_driver"
  using sample_env_ok spec_device_ok by (simp add: driver_ok_def sample_driver_def env_ok_def sample_env_def)

lemma sample_driver_ready: "driver_ready 0x80400 (map of_nat [0..<16]) (vq_new 16 0 True True) sample_vworld"
proof -
  have k: "kfa sample_vworld = fa_init 0x80400 (pa_floor MEMORY_END) fa_new"
    by (simp add: sample_vworld_def init_frame_allocator_def pa_ceil_def PAGE_SIZE_def)
  have e: "pa_floor MEMORY_END = 0xb0000" by (simp add: sample_consts)
  have i: "km_inv 0x80400 sample_vworld" unfolding km_inv_def
    using k e by (simp add: fa_init_def fa_new_def fa_inv_def sample_vworld_def init_frame_allocator_def)
  have "km_free sample_vworld = 0x2fc00" using k e by (simp add: km_free_def fa_free_def fa_init_def fa_new_def)
  moreover have "unat (fa_end (kfa sample_vworld)) \<le> 2 ^ 44" using k e by (simp add: fa_init_def fa_new_def)
  moreover have "idle (vq_new 16 0 True True) (map of_nat [0..<16])"
    using vq_new_inv [of 4 0 True True] by (simp add: idle_def vq_new_def)
  ultimately show ?thesis using i by (simp add: driver_ready_def vq_new_def)
qed

theorem virtio_block_refines_medium_witness:
  "\<exists>q' w'. virtio_write_block sample_driver 3 (replicate 4096 7) (vq_new 16 0 True True) sample_vworld = Some (q', w') \<and>
     write_block sample_blk 3 (replicate 4096 7) (kdisk sample_vworld) = Some (kdisk w') \<and>
     request_frame 0x80400 (map of_nat [0..<16]) (vq_new 16 0 True True) sample_vworld q' w'"
proof -
  have "length (replicate 4096 (7 :: u8)) mod BLOCK_SZ = 0" and "unat (3 :: usize) * BLOCK_RATIO + length (replicate 4096 (7 :: u8)) div 512 < 2 ^ 64"
    by (simp_all add: blk_consts)
  note h = virtio_block_refines_medium [OF sample_driver_ok sample_driver_ready this, THEN conjunct2]
  have "unat (3 :: usize) = 3" by simp
  from h [unfolded this] show ?thesis .
qed

end
