(* ===== verification/Fs_Block_Cache.thy ===== *)
theory Fs_Block_Cache
  imports Mm_Frame
begin

text \<open>
  The block cache of \<open>fs/cache.rs\<close>: \<open>BufferCache\<close> and \<open>BlockCacheManager\<close>. The file system reads
  and changes its metadata through a fixed pool of buffers; a buffer whose \<open>block_id\<close> is
  \<open>usize::MAX\<close> is unused. A buffer that somebody else still holds (\<open>Arc::strong_count > 1\<close>) is
  marked by the argument \<open>shared\<close>, by its index in the pool. The contract of the cache is the
  locale \<open>byte_store\<close>: an array of blocks of bytes. The cache implements it, whatever the order
  of reads, changes and evictions.
\<close>

section \<open>Definitions\<close>

definition PRIORITY_UPPERBOUND :: nat where "PRIORITY_UPPERBOUND = 1"
definition BUFFER_SIZE :: nat where "BUFFER_SIZE = BLOCK_SZ"
definition PAGE_BUFFERS :: nat where "PAGE_BUFFERS = 4096 div BUFFER_SIZE"
definition BUFFER_CACHE_NUM :: u64 where "BUFFER_CACHE_NUM = 16"

definition CACHEPOOLSIZE :: u64 where
  "CACHEPOOLSIZE = drop_bit (trailing_zeros (of_nat (BLOCK_SZ div 512))) BUFFER_CACHE_NUM"

definition CACHEPOOLPAGE :: nat where
  "CACHEPOOLPAGE = (if 1 < drop_bit 3 CACHEPOOLSIZE then unat (drop_bit 3 CACHEPOOLSIZE) else 1)"

subsection \<open>A buffer\<close>

record buffer_cache =
  bc_priority :: nat
  bc_block_id :: usize
  bc_dirty :: bool
  bc_buffer :: "u8 list"

definition buffer_new :: "u8 list \<Rightarrow> buffer_cache" where
  "buffer_new bytes = \<lparr>bc_priority = 0, bc_block_id = - 1, bc_dirty = False, bc_buffer = bytes\<rparr>"

text \<open>
  \<open>read\<close> and \<open>modify\<close> hand a reference to a value of \<open>n\<close> bytes at \<open>offset\<close> to a closure. A value
  that does not lie inside the buffer is out of bounds.
\<close>

definition bc_read :: "nat \<Rightarrow> nat \<Rightarrow> (u8 list \<Rightarrow> 'v) \<Rightarrow> buffer_cache \<Rightarrow> 'v option" where
  "bc_read offset n f bc =
     (if offset + n \<le> BUFFER_SIZE then Some (f (take n (drop offset (bc_buffer bc)))) else None)"

definition bc_modify ::
  "nat \<Rightarrow> nat \<Rightarrow> (u8 list \<Rightarrow> 'v \<times> u8 list) \<Rightarrow> buffer_cache \<Rightarrow> ('v \<times> buffer_cache) option" where
  "bc_modify offset n f bc =
     (if offset + n \<le> BUFFER_SIZE then
        (let (v, bs) = f (take n (drop offset (bc_buffer bc))) in
         Some (v, bc\<lparr>bc_dirty := True,
                     bc_buffer := take offset (bc_buffer bc) @ take n bs @ drop (offset + n) (bc_buffer bc)\<rparr>))
      else None)"

definition bc_read_block :: "'d blk \<Rightarrow> usize \<Rightarrow> buffer_cache \<Rightarrow> 'd \<Rightarrow> buffer_cache option" where
  "bc_read_block dev block_id bc d =
     map_option (\<lambda>bs. bc\<lparr>bc_block_id := block_id, bc_buffer := bs\<rparr>)
       (read_block dev (unat block_id) (length (bc_buffer bc)) d)"

subsection \<open>The pool\<close>

record block_cache_manager =
  bcm_hold :: "PhysPageNum list"
  bcm_pool :: "buffer_cache list"

text \<open>\<open>oom\<close> ages the buffers nobody else holds and empties those of priority zero.\<close>

definition oom_one :: "'d blk \<Rightarrow> buffer_cache \<Rightarrow> 'd \<Rightarrow> (buffer_cache \<times> 'd) option" where
  "oom_one dev bc d =
     (if 0 < bc_priority bc then Some (bc\<lparr>bc_priority := bc_priority bc - 1\<rparr>, d)
      else if bc_dirty bc then
        map_option (\<lambda>d'. (bc\<lparr>bc_dirty := False, bc_block_id := - 1\<rparr>, d'))
          (write_block dev (unat (bc_block_id bc)) (bc_buffer bc) d)
      else Some (bc\<lparr>bc_block_id := - 1\<rparr>, d))"

fun bcm_oom_loop ::
  "'d blk \<Rightarrow> (nat \<Rightarrow> bool) \<Rightarrow> nat \<Rightarrow> buffer_cache list \<Rightarrow> 'd \<Rightarrow> (buffer_cache list \<times> 'd) option" where
  "bcm_oom_loop dev shared i [] d = Some ([], d)"
| "bcm_oom_loop dev shared i (bc # bcs) d =
     do { (bc, d) \<leftarrow> (if shared i then Some (bc, d) else oom_one dev bc d);
          (bcs, d) \<leftarrow> bcm_oom_loop dev shared (Suc i) bcs d;
          Some (bc # bcs, d) }"

definition bcm_oom ::
  "'d blk \<Rightarrow> (nat \<Rightarrow> bool) \<Rightarrow> block_cache_manager \<Rightarrow> 'd \<Rightarrow> (block_cache_manager \<times> 'd) option" where
  "bcm_oom dev shared m d =
     map_option (\<lambda>(pool, d). (m\<lparr>bcm_pool := pool\<rparr>, d)) (bcm_oom_loop dev shared 0 (bcm_pool m) d)"

text \<open>The loop runs for ever when every buffer is held: then the value is \<^const>\<open>None\<close>.\<close>

partial_function (option) alloc_buffer_cache ::
  "'d blk \<Rightarrow> (nat \<Rightarrow> bool) \<Rightarrow> block_cache_manager \<Rightarrow> 'd \<Rightarrow> (nat \<times> block_cache_manager \<times> 'd) option" where
  "alloc_buffer_cache dev shared m d =
     (case find_idx (\<lambda>bc. bc_block_id bc = - 1) (bcm_pool m) of
        Some i \<Rightarrow> Some (i, m, d)
      | None \<Rightarrow> do { (m, d) \<leftarrow> bcm_oom dev shared m d; alloc_buffer_cache dev shared m d })"

fun bcm_new_loop ::
  "('d, 'z) woom \<Rightarrow> nat \<Rightarrow> block_cache_manager \<Rightarrow> ('d, 'z) world \<Rightarrow> (block_cache_manager \<times> ('d, 'z) world) option" where
  "bcm_new_loop oom 0 m w = Some (m, w)"
| "bcm_new_loop oom (Suc k) m w =
     do { (res, w) \<leftarrow> frame_alloc oom w;
          ppn \<leftarrow> res;
          let bufs = map (\<lambda>j. take BUFFER_SIZE (drop (j * BUFFER_SIZE) (bytes_array ppn w))) [0..<PAGE_BUFFERS];
          bcm_new_loop oom k
            (m\<lparr>bcm_hold := bcm_hold m @ [ppn], bcm_pool := bcm_pool m @ map buffer_new bufs\<rparr>) w }"

definition bcm_new :: "('d, 'z) woom \<Rightarrow> ('d, 'z) world \<Rightarrow> (block_cache_manager \<times> ('d, 'z) world) option" where
  "bcm_new oom w = bcm_new_loop oom CACHEPOOLPAGE \<lparr>bcm_hold = [], bcm_pool = []\<rparr> w"

definition bump :: "buffer_cache \<Rightarrow> buffer_cache" where
  "bump bc = (if bc_priority bc < PRIORITY_UPPERBOUND then bc\<lparr>bc_priority := bc_priority bc + 1\<rparr> else bc)"

definition try_get_block_cache :: "usize \<Rightarrow> block_cache_manager \<Rightarrow> nat option \<times> block_cache_manager" where
  "try_get_block_cache block_id m =
     (case find_idx (\<lambda>bc. bc_block_id bc = block_id) (bcm_pool m) of
        Some i \<Rightarrow> (Some i, m\<lparr>bcm_pool := (bcm_pool m)[i := bump (bcm_pool m ! i)]\<rparr>)
      | None \<Rightarrow> (None, m))"

definition get_block_cache ::
  "'d blk \<Rightarrow> (nat \<Rightarrow> bool) \<Rightarrow> usize \<Rightarrow> block_cache_manager \<Rightarrow> 'd \<Rightarrow> (nat \<times> block_cache_manager \<times> 'd) option" where
  "get_block_cache dev shared block_id m d =
     (case try_get_block_cache block_id m of
        (Some i, m) \<Rightarrow> Some (i, m, d)
      | (None, m) \<Rightarrow>
          do { (i, m, d) \<leftarrow> alloc_buffer_cache dev shared m d;
               bc \<leftarrow> bc_read_block dev block_id (bcm_pool m ! i) d;
               Some (i, m\<lparr>bcm_pool := (bcm_pool m)[i := bump bc]\<rparr>, d) })"

text \<open>
  The way the file system uses the cache: \<open>get_block_cache(..).lock().read(..)\<close> and
  \<open>get_block_cache(..).lock().modify(..)\<close>, after which the handle is dropped.
\<close>

definition cache_read ::
  "'d blk \<Rightarrow> (nat \<Rightarrow> bool) \<Rightarrow> usize \<Rightarrow> nat \<Rightarrow> nat \<Rightarrow> (u8 list \<Rightarrow> 'v) \<Rightarrow> block_cache_manager \<times> 'd \<Rightarrow>
   ('v \<times> block_cache_manager \<times> 'd) option" where
  "cache_read dev shared block_id offset n f s =
     do { (i, m, d) \<leftarrow> get_block_cache dev shared block_id (fst s) (snd s);
          v \<leftarrow> bc_read offset n f (bcm_pool m ! i);
          Some (v, m, d) }"

definition cache_modify ::
  "'d blk \<Rightarrow> (nat \<Rightarrow> bool) \<Rightarrow> usize \<Rightarrow> nat \<Rightarrow> nat \<Rightarrow> (u8 list \<Rightarrow> 'v \<times> u8 list) \<Rightarrow> block_cache_manager \<times> 'd \<Rightarrow>
   ('v \<times> block_cache_manager \<times> 'd) option" where
  "cache_modify dev shared block_id offset n f s =
     do { (i, m, d) \<leftarrow> get_block_cache dev shared block_id (fst s) (snd s);
          (v, bc) \<leftarrow> bc_modify offset n f (bcm_pool m ! i);
          Some (v, m\<lparr>bcm_pool := (bcm_pool m)[i := bc]\<rparr>, d) }"

section \<open>The blocks of the device\<close>

lemma find_app: "find P (xs @ ys) = (case find P xs of None \<Rightarrow> find P ys | Some x \<Rightarrow> Some x)"
  by (induction xs) auto

lemma list_at: "i < length xs \<Longrightarrow> xs = take i xs @ xs ! i # drop (Suc i) xs"
  by (rule id_take_nth_drop)

definition block_of :: "'d blk \<Rightarrow> 'd \<Rightarrow> usize \<Rightarrow> u8 list" where
  "block_of dev d b = the (read_block dev (unat b) 4096 d)"

lemma read_block_of: "read_block dev (unat b) 4096 d = Some (block_of dev d b)"
  by (simp add: block_of_def read_block_def BLOCK_SZ_def)

lemma length_block_of: "blk_ok dev \<Longrightarrow> length (block_of dev d b) = 4096"
  by (simp add: block_of_def read_block_def BLOCK_SZ_def length_read_sectors VIRT_IO_BLOCK_SZ_def)

lemma write_block_of:
  assumes "blk_ok dev" and "length buf = 4096"
  shows "\<exists>d'. write_block dev (unat b) buf d = Some d' \<and> block_of dev d' = (block_of dev d)(b := buf)"
proof -
  obtain d' where d: "write_block dev (unat b) buf d = Some d'" "read_block dev (unat b) 4096 d' = Some buf"
    "\<forall>j. j \<noteq> unat b \<longrightarrow> read_block dev j 4096 d' = read_block dev j 4096 d"
    using write_read_block [OF assms] by blast
  have "block_of dev d' c = ((block_of dev d)(b := buf)) c" for c
    using d(2,3) by (cases "c = b") (simp_all add: block_of_def word_unat_eq_iff)
  with d(1) show ?thesis by blast
qed

section \<open>The invariant and the view\<close>

text \<open>
  A buffer in use that is not dirty holds what the device holds; no block is in two buffers. The
  contents of a block are those of its buffer, if it has one, and those on the device otherwise.
\<close>

definition buf_ok :: "'d blk \<Rightarrow> 'd \<Rightarrow> buffer_cache \<Rightarrow> bool" where
  "buf_ok dev d bc \<longleftrightarrow> length (bc_buffer bc) = 4096 \<and> bc_priority bc \<le> 1 \<and>
     (if bc_block_id bc = - 1 then \<not> bc_dirty bc
      else bc_dirty bc \<or> bc_buffer bc = block_of dev d (bc_block_id bc))"

definition used_ids :: "buffer_cache list \<Rightarrow> usize list" where
  "used_ids pool = filter (\<lambda>b. b \<noteq> - 1) (map bc_block_id pool)"

definition pool_inv :: "'d blk \<Rightarrow> buffer_cache list \<Rightarrow> 'd \<Rightarrow> bool" where
  "pool_inv dev pool d \<longleftrightarrow> blk_ok dev \<and> (\<forall>bc \<in> set pool. buf_ok dev d bc) \<and> distinct (used_ids pool)"

definition pool_view :: "'d blk \<Rightarrow> buffer_cache list \<Rightarrow> 'd \<Rightarrow> usize \<Rightarrow> u8 list" where
  "pool_view dev pool d b =
     (case find (\<lambda>bc. bc_block_id bc = b) pool of Some bc \<Rightarrow> bc_buffer bc | None \<Rightarrow> block_of dev d b)"

lemma used_ids_simps [simp]:
  "used_ids [] = []"
  "used_ids (bc # pool) = (if bc_block_id bc = - 1 then used_ids pool else bc_block_id bc # used_ids pool)"
  "used_ids (pool @ pool') = used_ids pool @ used_ids pool'"
  by (simp_all add: used_ids_def)

lemma in_used_ids: "b \<in> set (used_ids pool) \<longleftrightarrow> b \<noteq> - 1 \<and> b \<in> bc_block_id ` set pool"
  by (auto simp: used_ids_def)

lemma find_none_id: "b \<noteq> - 1 \<Longrightarrow> b \<notin> set (used_ids pool) \<Longrightarrow> find (\<lambda>bc. bc_block_id bc = b) pool = None"
  by (auto simp: find_None_iff in_used_ids)

lemma pool_view_at:
  assumes "pool_inv dev (pre @ bc # post) d" and "b \<noteq> - 1"
  shows "pool_view dev (pre @ bc # post) d b =
    (if bc_block_id bc = b then bc_buffer bc else pool_view dev (pre @ post) d b)"
proof (cases "bc_block_id bc = b")
  case True
  then have "find (\<lambda>bc. bc_block_id bc = b) pre = None"
    using assms by (intro find_none_id) (auto simp: pool_inv_def)
  then show ?thesis using True by (simp add: pool_view_def find_app)
next
  case False
  then show ?thesis by (simp add: pool_view_def find_app split: option.splits)
qed

lemma length_pool_view: "pool_inv dev pool d \<Longrightarrow> length (pool_view dev pool d b) = 4096"
  by (auto simp: pool_view_def pool_inv_def buf_ok_def length_block_of find_Some_iff split: option.splits)

text \<open>Changing the buffer at one place, under what that needs for the rest to stay consistent.\<close>

lemma pool_replace:
  assumes "pool_inv dev (pre @ bc # post) d" and "buf_ok dev d' bc'"
    and "bc_block_id bc' = - 1 \<or> bc_block_id bc' \<notin> set (used_ids (pre @ post))"
    and "\<forall>c \<in> set (used_ids (pre @ post)). block_of dev d' c = block_of dev d c"
  shows "pool_inv dev (pre @ bc' # post) d'"
proof -
  have "buf_ok dev d' x" if x: "x \<in> set pre \<union> set post" for x
  proof -
    have "buf_ok dev d x" using assms(1) x by (auto simp: pool_inv_def)
    moreover have "bc_block_id x \<noteq> - 1 \<Longrightarrow> bc_block_id x \<in> set (used_ids (pre @ post))" using x by (auto simp: in_used_ids)
    ultimately show ?thesis using assms(4) by (auto simp: buf_ok_def split: if_splits)
  qed
  then show ?thesis using assms by (auto simp: pool_inv_def split: if_splits)
qed

lemma pool_view_cong:
  assumes "b \<notin> set (used_ids pool) \<Longrightarrow> block_of dev d' b = block_of dev d b" and "b \<noteq> - 1"
  shows "pool_view dev pool d' b = pool_view dev pool d b"
proof (cases "find (\<lambda>bc. bc_block_id bc = b) pool")
  case None
  then have "b \<notin> set (used_ids pool)" by (auto simp: find_None_iff in_used_ids)
  then show ?thesis using None assms by (simp add: pool_view_def)
qed (simp add: pool_view_def)

lemma fresh_at:
  assumes "pool_inv dev (pre @ bc # post) d"
  shows "bc_block_id bc = - 1 \<or> bc_block_id bc \<notin> set (used_ids (pre @ post))"
  using assms by (auto simp: pool_inv_def)

section \<open>Eviction\<close>

lemma oom_one_ok:
  assumes inv: "pool_inv dev (pre @ bc # post) d"
  shows "\<exists>bc' d'. oom_one dev bc d = Some (bc', d') \<and> pool_inv dev (pre @ bc' # post) d' \<and>
    bc_block_id bc' \<in> {bc_block_id bc, - 1} \<and>
    (\<forall>b. b \<noteq> - 1 \<longrightarrow> pool_view dev (pre @ bc' # post) d' b = pool_view dev (pre @ bc # post) d b)"
proof -
  let ?id = "bc_block_id bc"
  have ok: "buf_ok dev d bc" and dev: "blk_ok dev" using inv by (simp_all add: pool_inv_def)
  note fresh = fresh_at [OF inv]
  consider (age) "0 < bc_priority bc" | (dirty) "bc_priority bc = 0" "bc_dirty bc"
    | (clean) "bc_priority bc = 0" "\<not> bc_dirty bc" by auto
  then show ?thesis
  proof cases
    case age
    let ?bc = "bc\<lparr>bc_priority := bc_priority bc - 1\<rparr>"
    have inv': "pool_inv dev (pre @ ?bc # post) d"
      using ok fresh by (intro pool_replace [OF inv]) (auto simp: buf_ok_def)
    show ?thesis using age inv' pool_view_at [OF inv] pool_view_at [OF inv'] by (simp add: oom_one_def)
  next
    case dirty
    let ?bc = "bc\<lparr>bc_dirty := False, bc_block_id := - 1\<rparr>"
    have id: "?id \<noteq> - 1" "length (bc_buffer bc) = 4096" using ok dirty by (auto simp: buf_ok_def split: if_splits)
    obtain d' where d: "write_block dev (unat ?id) (bc_buffer bc) d = Some d'"
      "block_of dev d' = (block_of dev d)(?id := bc_buffer bc)"
      using write_block_of [OF dev id(2), of ?id d] by blast
    have inv': "pool_inv dev (pre @ ?bc # post) d'"
      using ok fresh id d(2) by (intro pool_replace [OF inv]) (auto simp: buf_ok_def)
    have "pool_view dev (pre @ ?bc # post) d' b = pool_view dev (pre @ bc # post) d b" if b: "b \<noteq> - 1" for b
    proof (cases "b = ?id")
      case True
      have "find (\<lambda>bc. bc_block_id bc = b) (pre @ post) = None" using fresh id(1) True by (intro find_none_id) auto
      then have "pool_view dev (pre @ post) d' b = bc_buffer bc" using d(2) True by (simp add: pool_view_def)
      then show ?thesis using True b pool_view_at [OF inv b] pool_view_at [OF inv' b] by simp
    next
      case False
      then have "pool_view dev (pre @ post) d' b = pool_view dev (pre @ post) d b"
        using d(2) b by (intro pool_view_cong) auto
      then show ?thesis using False b pool_view_at [OF inv b] pool_view_at [OF inv' b] by simp
    qed
    then show ?thesis using dirty d(1) inv' by (simp add: oom_one_def)
  next
    case clean
    let ?bc = "bc\<lparr>bc_block_id := - 1\<rparr>"
    have inv': "pool_inv dev (pre @ ?bc # post) d"
      using ok clean by (intro pool_replace [OF inv]) (auto simp: buf_ok_def)
    have "pool_view dev (pre @ ?bc # post) d b = pool_view dev (pre @ bc # post) d b" if b: "b \<noteq> - 1" for b
    proof (cases "b = ?id")
      case True
      have "find (\<lambda>bc. bc_block_id bc = b) (pre @ post) = None" using fresh b True by (intro find_none_id) auto
      then have "pool_view dev (pre @ post) d b = bc_buffer bc"
        using ok clean True b by (simp add: pool_view_def buf_ok_def)
      then show ?thesis using True b pool_view_at [OF inv b] pool_view_at [OF inv' b] by simp
    next
      case False
      then show ?thesis using b pool_view_at [OF inv b] pool_view_at [OF inv' b] by simp
    qed
    then show ?thesis using clean inv' by (simp add: oom_one_def)
  qed
qed

lemma oom_loop_ok:
  assumes "pool_inv dev (pre @ bcs) d"
  shows "\<exists>bcs' d'. bcm_oom_loop dev shared i bcs d = Some (bcs', d') \<and> pool_inv dev (pre @ bcs') d' \<and>
    bc_block_id ` set bcs' \<subseteq> insert (- 1) (bc_block_id ` set bcs) \<and>
    (\<forall>b. b \<noteq> - 1 \<longrightarrow> pool_view dev (pre @ bcs') d' b = pool_view dev (pre @ bcs) d b)"
  using assms
proof (induction bcs arbitrary: pre d i)
  case Nil
  then show ?case by simp
next
  case (Cons bc bcs)
  obtain bc1 d1 where 1: "(if shared i then Some (bc, d) else oom_one dev bc d) = Some (bc1, d1)"
    "pool_inv dev ((pre @ [bc1]) @ bcs) d1" "bc_block_id bc1 \<in> {bc_block_id bc, - 1}"
    "\<forall>b. b \<noteq> - 1 \<longrightarrow> pool_view dev ((pre @ [bc1]) @ bcs) d1 b = pool_view dev (pre @ bc # bcs) d b"
    using oom_one_ok [OF Cons.prems] Cons.prems by (cases "shared i") auto
  obtain bcs2 d2 where 2: "bcm_oom_loop dev shared (Suc i) bcs d1 = Some (bcs2, d2)"
    "pool_inv dev ((pre @ [bc1]) @ bcs2) d2"
    "bc_block_id ` set bcs2 \<subseteq> insert (- 1) (bc_block_id ` set bcs)"
    "\<forall>b. b \<noteq> - 1 \<longrightarrow> pool_view dev ((pre @ [bc1]) @ bcs2) d2 b = pool_view dev ((pre @ [bc1]) @ bcs) d1 b"
    using Cons.IH [OF 1(2)] by blast
  have "bcm_oom_loop dev shared i (bc # bcs) d = Some (bc1 # bcs2, d2)" using 1(1) 2(1) by simp
  then show ?case using 1 2 by auto
qed

text \<open>What eviction does to a buffer nobody holds: two passes empty it.\<close>

lemma oom_loop_nth:
  "bcm_oom_loop dev shared i bcs d = Some (bcs', d') \<Longrightarrow> length bcs' = length bcs \<and>
   (\<forall>j < length bcs. \<not> shared (i + j) \<longrightarrow>
      (if bc_priority (bcs ! j) = 0 then bc_block_id (bcs' ! j) = - 1
       else bc_priority (bcs' ! j) = bc_priority (bcs ! j) - 1))"
proof (induction bcs arbitrary: i d bcs')
  case Nil
  then show ?case by simp
next
  case (Cons bc bcs)
  obtain bc1 d1 bcs2 where 1: "(if shared i then Some (bc, d) else oom_one dev bc d) = Some (bc1, d1)"
    "bcm_oom_loop dev shared (Suc i) bcs d1 = Some (bcs2, d')" "bcs' = bc1 # bcs2"
    using Cons.prems by (auto split: bind_splits)
  have "\<not> shared i \<Longrightarrow> (if bc_priority bc = 0 then bc_block_id bc1 = - 1 else bc_priority bc1 = bc_priority bc - 1)"
    using 1(1) by (auto simp: oom_one_def split: if_splits)
  then show ?case using Cons.IH [OF 1(2)] 1(3) by (auto simp: nth_Cons' split: if_splits)
qed

lemma bcm_oom_ok:
  assumes "pool_inv dev (bcm_pool m) d"
  shows "\<exists>m' d'. bcm_oom dev shared m d = Some (m', d') \<and> pool_inv dev (bcm_pool m') d' \<and>
    bc_block_id ` set (bcm_pool m') \<subseteq> insert (- 1) (bc_block_id ` set (bcm_pool m)) \<and>
    length (bcm_pool m') = length (bcm_pool m) \<and>
    (\<forall>j < length (bcm_pool m). \<not> shared j \<longrightarrow>
      (if bc_priority (bcm_pool m ! j) = 0 then bc_block_id (bcm_pool m' ! j) = - 1
       else bc_priority (bcm_pool m' ! j) = bc_priority (bcm_pool m ! j) - 1)) \<and>
    (\<forall>b. b \<noteq> - 1 \<longrightarrow> pool_view dev (bcm_pool m') d' b = pool_view dev (bcm_pool m) d b)"
proof -
  obtain pool d' where p: "bcm_oom_loop dev shared 0 (bcm_pool m) d = Some (pool, d')" "pool_inv dev pool d'"
    "bc_block_id ` set pool \<subseteq> insert (- 1) (bc_block_id ` set (bcm_pool m))"
    "\<forall>b. b \<noteq> - 1 \<longrightarrow> pool_view dev pool d' b = pool_view dev (bcm_pool m) d b"
    using oom_loop_ok [of dev "[]" "bcm_pool m" d shared 0] assms by auto
  show ?thesis using p oom_loop_nth [OF p(1)] by (simp add: bcm_oom_def)
qed

section \<open>Getting a block\<close>

text \<open>One buffer nobody holds is enough for the allocation loop to end, after at most two evictions.\<close>

lemma alloc_found:
  "find_idx (\<lambda>bc. bc_block_id bc = - 1) (bcm_pool m) = Some i \<Longrightarrow> alloc_buffer_cache dev shared m d = Some (i, m, d)"
  by (subst alloc_buffer_cache.simps) simp

lemma alloc_buffer_cache_ok:
  assumes "pool_inv dev (bcm_pool m) d" and "j < length (bcm_pool m)" and "\<not> shared j"
  shows "\<exists>i m' d'. alloc_buffer_cache dev shared m d = Some (i, m', d') \<and> pool_inv dev (bcm_pool m') d' \<and>
    i < length (bcm_pool m') \<and> bc_block_id (bcm_pool m' ! i) = - 1 \<and>
    bc_block_id ` set (bcm_pool m') \<subseteq> insert (- 1) (bc_block_id ` set (bcm_pool m)) \<and>
    length (bcm_pool m') = length (bcm_pool m) \<and>
    (\<forall>b. b \<noteq> - 1 \<longrightarrow> pool_view dev (bcm_pool m') d' b = pool_view dev (bcm_pool m) d b)"
  using assms
proof (induction "bc_priority (bcm_pool m ! j)" arbitrary: m d rule: less_induct)
  case less
  show ?case
  proof (cases "find_idx (\<lambda>bc. bc_block_id bc = - 1) (bcm_pool m)")
    case (Some i)
    then show ?thesis using less.prems find_idx_Some [OF Some] alloc_found [OF Some, of dev shared d] by auto
  next
    case None
    obtain m1 d1 where 1: "bcm_oom dev shared m d = Some (m1, d1)" "pool_inv dev (bcm_pool m1) d1"
      "bc_block_id ` set (bcm_pool m1) \<subseteq> insert (- 1) (bc_block_id ` set (bcm_pool m))"
      "length (bcm_pool m1) = length (bcm_pool m)"
      "if bc_priority (bcm_pool m ! j) = 0 then bc_block_id (bcm_pool m1 ! j) = - 1
       else bc_priority (bcm_pool m1 ! j) = bc_priority (bcm_pool m ! j) - 1"
      "\<forall>b. b \<noteq> - 1 \<longrightarrow> pool_view dev (bcm_pool m1) d1 b = pool_view dev (bcm_pool m) d b"
      using bcm_oom_ok [OF less.prems(1), of shared] less.prems(2,3) by blast
    have step: "alloc_buffer_cache dev shared m d = alloc_buffer_cache dev shared m1 d1"
      using None 1(1) by (subst alloc_buffer_cache.simps) simp
    show ?thesis
    proof (cases "bc_priority (bcm_pool m ! j) = 0")
      case True
      then have "bc_block_id (bcm_pool m1 ! j) = - 1" "bcm_pool m1 ! j \<in> set (bcm_pool m1)" using 1(4,5) less.prems(2) by simp_all
      then obtain i where i: "find_idx (\<lambda>bc. bc_block_id bc = - 1) (bcm_pool m1) = Some i"
        using find_idx_None [of "\<lambda>bc. bc_block_id bc = - 1" "bcm_pool m1"] by (cases "find_idx (\<lambda>bc. bc_block_id bc = - 1) (bcm_pool m1)") auto
      then show ?thesis using step 1 find_idx_Some [OF i] alloc_found [OF i, of dev shared d1] by auto
    next
      case False
      with 1(5) have "bc_priority (bcm_pool m1 ! j) < bc_priority (bcm_pool m ! j)" by simp
      from less.hyps [OF this 1(2) _ less.prems(3)] less.prems(2) 1(4) obtain i m' d' where
        "alloc_buffer_cache dev shared m1 d1 = Some (i, m', d')" "pool_inv dev (bcm_pool m') d'"
        "i < length (bcm_pool m')" "bc_block_id (bcm_pool m' ! i) = - 1"
        "bc_block_id ` set (bcm_pool m') \<subseteq> insert (- 1) (bc_block_id ` set (bcm_pool m1))"
        "length (bcm_pool m') = length (bcm_pool m1)"
        "\<forall>b. b \<noteq> - 1 \<longrightarrow> pool_view dev (bcm_pool m') d' b = pool_view dev (bcm_pool m1) d1 b" by auto
      then show ?thesis using step 1(3,4,6) by (intro exI [of _ i] exI [of _ m'] exI [of _ d']) auto
    qed
  qed
qed

lemma pool_update:
  "i < length pool \<Longrightarrow> pool[i := bc] = take i pool @ bc # drop (Suc i) pool"
  by (rule upd_conv_take_nth_drop)

lemma bump_fields [simp]:
  "bc_block_id (bump bc) = bc_block_id bc" "bc_dirty (bump bc) = bc_dirty bc" "bc_buffer (bump bc) = bc_buffer bc"
  "bc_priority bc \<le> Suc 0 \<Longrightarrow> bc_priority (bump bc) \<le> Suc 0"
  by (simp_all add: bump_def PRIORITY_UPPERBOUND_def)

lemma buf_ok_bump [simp]: "buf_ok dev d bc \<Longrightarrow> buf_ok dev d (bump bc)"
  by (auto simp: buf_ok_def)

lemma get_block_cache_ok:
  assumes inv: "pool_inv dev (bcm_pool m) d" and j: "j < length (bcm_pool m)" "\<not> shared j" and b: "b \<noteq> - 1"
  shows "\<exists>i m' d'. get_block_cache dev shared b m d = Some (i, m', d') \<and> pool_inv dev (bcm_pool m') d' \<and>
    i < length (bcm_pool m') \<and> bc_block_id (bcm_pool m' ! i) = b \<and> length (bcm_pool m') = length (bcm_pool m) \<and>
    (\<forall>c. c \<noteq> - 1 \<longrightarrow> pool_view dev (bcm_pool m') d' c = pool_view dev (bcm_pool m) d c)"
proof (cases "find_idx (\<lambda>bc. bc_block_id bc = b) (bcm_pool m)")
  case (Some i)
  let ?p = "bcm_pool m" and ?bc = "bump (bcm_pool m ! i)"
  have i: "i < length ?p" "bc_block_id (?p ! i) = b" using find_idx_Some [OF Some] by simp_all
  have inv0: "pool_inv dev (take i ?p @ ?p ! i # drop (Suc i) ?p) d" using inv list_at [OF i(1), symmetric] by simp
  have ok: "buf_ok dev d (?p ! i)" using inv i(1) by (simp add: pool_inv_def)
  have inv': "pool_inv dev (take i ?p @ ?bc # drop (Suc i) ?p) d"
    using ok fresh_at [OF inv0] by (intro pool_replace [OF inv0]) auto
  have "pool_view dev (?p[i := ?bc]) d c = pool_view dev ?p d c" if "c \<noteq> - 1" for c
    using pool_view_at [OF inv0 that] pool_view_at [OF inv' that] list_at [OF i(1), symmetric] pool_update [OF i(1), of ?bc] by simp
  moreover have "pool_inv dev (?p[i := ?bc]) d" using inv' pool_update [OF i(1), of ?bc] by simp
  ultimately show ?thesis using i Some by (simp add: get_block_cache_def try_get_block_cache_def)
next
  case None
  obtain i m1 d1 where 1: "alloc_buffer_cache dev shared m d = Some (i, m1, d1)" "pool_inv dev (bcm_pool m1) d1"
    "i < length (bcm_pool m1)" "bc_block_id (bcm_pool m1 ! i) = - 1"
    "bc_block_id ` set (bcm_pool m1) \<subseteq> insert (- 1) (bc_block_id ` set (bcm_pool m))"
    "length (bcm_pool m1) = length (bcm_pool m)"
    "\<forall>c. c \<noteq> - 1 \<longrightarrow> pool_view dev (bcm_pool m1) d1 c = pool_view dev (bcm_pool m) d c"
    using alloc_buffer_cache_ok [where shared = shared, OF inv j] by blast
  let ?p = "bcm_pool m1"
  let ?bc = "(?p ! i)\<lparr>bc_block_id := b, bc_buffer := block_of dev d1 b\<rparr>"
  have inv0: "pool_inv dev (take i ?p @ ?p ! i # drop (Suc i) ?p) d1" using 1(2) list_at [OF 1(3), symmetric] by simp
  have ok: "buf_ok dev d1 (?p ! i)" and dev: "blk_ok dev" using 1(2,3) by (simp_all add: pool_inv_def)
  have free: "b \<notin> bc_block_id ` set ?p"
  proof
    assume "b \<in> bc_block_id ` set ?p"
    then have "b \<in> bc_block_id ` set (bcm_pool m)" using 1(5) b by blast
    then show False using None by (auto simp: find_idx_None)
  qed
  have "set (take i ?p @ drop (Suc i) ?p) \<subseteq> set ?p"
    using set_take_subset [of i ?p] set_drop_subset [of "Suc i" ?p] by simp
  with free have fresh: "b \<notin> set (used_ids (take i ?p @ drop (Suc i) ?p))" unfolding in_used_ids by blast
  have inv': "pool_inv dev (take i ?p @ bump ?bc # drop (Suc i) ?p) d1"
  proof (rule pool_replace [OF inv0])
    show "buf_ok dev d1 (bump ?bc)" using ok 1(4) b dev by (intro buf_ok_bump) (auto simp: buf_ok_def length_block_of)
  qed (use fresh in simp_all)
  have read: "bc_read_block dev b (?p ! i) d1 = Some ?bc" using ok by (simp add: bc_read_block_def buf_ok_def read_block_of)
  have "pool_view dev (?p[i := bump ?bc]) d1 c = pool_view dev ?p d1 c" if c: "c \<noteq> - 1" for c
  proof (cases "c = b")
    case True
    have "find (\<lambda>bc. bc_block_id bc = b) ?p = None" using free by (auto simp: find_None_iff)
    then have "pool_view dev ?p d1 b = block_of dev d1 b" by (simp add: pool_view_def)
    then show ?thesis using True pool_view_at [OF inv' c] pool_update [OF 1(3)] by simp
  next
    case False
    then show ?thesis
      using pool_view_at [OF inv0 c] pool_view_at [OF inv' c] 1(4) c list_at [OF 1(3), symmetric] pool_update [OF 1(3)] by simp
  qed
  moreover have "pool_inv dev (?p[i := bump ?bc]) d1" using inv' pool_update [OF 1(3), of "bump ?bc"] by simp
  ultimately show ?thesis using None 1(1,3,6,7) read by (simp add: get_block_cache_def try_get_block_cache_def)
qed

section \<open>Reading and changing bytes of a block\<close>

definition put_bytes :: "nat \<Rightarrow> nat \<Rightarrow> u8 list \<Rightarrow> u8 list \<Rightarrow> u8 list" where
  "put_bytes offset n bs buf = take offset buf @ take n bs @ drop (offset + n) buf"

definition store_ok :: "'d blk \<Rightarrow> (nat \<Rightarrow> bool) \<Rightarrow> block_cache_manager \<times> 'd \<Rightarrow> bool" where
  "store_ok dev shared s \<longleftrightarrow> pool_inv dev (bcm_pool (fst s)) (snd s) \<and> (\<exists>j < length (bcm_pool (fst s)). \<not> shared j)"

definition store_view :: "'d blk \<Rightarrow> block_cache_manager \<times> 'd \<Rightarrow> usize \<Rightarrow> u8 list" where
  "store_view dev s b = (if b = - 1 then [] else pool_view dev (bcm_pool (fst s)) (snd s) b)"

lemma store_view_length: "store_ok dev shared s \<Longrightarrow> b \<noteq> - 1 \<Longrightarrow> length (store_view dev s b) = 4096"
  by (simp add: store_ok_def store_view_def length_pool_view)

lemma pool_view_nth:
  assumes "pool_inv dev pool d" and "i < length pool" and "bc_block_id (pool ! i) \<noteq> - 1"
  shows "pool_view dev pool d (bc_block_id (pool ! i)) = bc_buffer (pool ! i)"
  using pool_view_at [of dev "take i pool" "pool ! i" "drop (Suc i) pool" d] list_at [OF assms(2), symmetric] assms(1,3) by simp

lemma cache_read_ok:
  assumes ok: "store_ok dev shared s" and b: "b \<noteq> - 1" and n: "offset + n \<le> 4096"
  shows "\<exists>s'. cache_read dev shared b offset n f s = Some (f (take n (drop offset (store_view dev s b))), s') \<and>
    store_ok dev shared s' \<and> store_view dev s' = store_view dev s \<and>
    length (bcm_pool (fst s')) = length (bcm_pool (fst s))"
proof -
  obtain m d where s: "s = (m, d)" by fastforce
  obtain j where j: "j < length (bcm_pool m)" "\<not> shared j" using ok s by (auto simp: store_ok_def)
  have inv: "pool_inv dev (bcm_pool m) d" using ok s by (simp add: store_ok_def)
  obtain i m' d' where 1: "get_block_cache dev shared b m d = Some (i, m', d')" "pool_inv dev (bcm_pool m') d'"
    "i < length (bcm_pool m')" "bc_block_id (bcm_pool m' ! i) = b" "length (bcm_pool m') = length (bcm_pool m)"
    "\<forall>c. c \<noteq> - 1 \<longrightarrow> pool_view dev (bcm_pool m') d' c = pool_view dev (bcm_pool m) d c"
    using get_block_cache_ok [where shared = shared, OF inv j b] by blast
  have buf: "bc_buffer (bcm_pool m' ! i) = pool_view dev (bcm_pool m) d b" using pool_view_nth [OF 1(2,3)] 1(4,6) b by simp
  have "store_ok dev shared (m', d')" using 1(2,5) j by (auto simp: store_ok_def)
  moreover have "store_view dev (m', d') = store_view dev s" using 1(6) s by (auto simp: store_view_def fun_eq_iff)
  ultimately show ?thesis using 1(1,5) buf b n s
    by (intro exI [of _ "(m', d')"]) (simp add: cache_read_def bc_read_def BUFFER_SIZE_def BLOCK_SZ_def store_view_def)
qed

lemma length_put_bytes: "length buf = 4096 \<Longrightarrow> offset + n \<le> 4096 \<Longrightarrow> n \<le> length bs \<Longrightarrow> length (put_bytes offset n bs buf) = 4096"
  by (simp add: put_bytes_def)

lemma cache_modify_ok:
  assumes ok: "store_ok dev shared s" and b: "b \<noteq> - 1" and n: "offset + n \<le> 4096"
    and f: "f (take n (drop offset (store_view dev s b))) = (v, bs)" "n \<le> length bs"
  shows "\<exists>s'. cache_modify dev shared b offset n f s = Some (v, s') \<and> store_ok dev shared s' \<and>
    store_view dev s' = (store_view dev s)(b := put_bytes offset n bs (store_view dev s b)) \<and>
    length (bcm_pool (fst s')) = length (bcm_pool (fst s))"
proof -
  obtain m d where s: "s = (m, d)" by fastforce
  obtain j where j: "j < length (bcm_pool m)" "\<not> shared j" using ok s by (auto simp: store_ok_def)
  have inv: "pool_inv dev (bcm_pool m) d" using ok s by (simp add: store_ok_def)
  obtain i m' d' where 1: "get_block_cache dev shared b m d = Some (i, m', d')" "pool_inv dev (bcm_pool m') d'"
    "i < length (bcm_pool m')" "bc_block_id (bcm_pool m' ! i) = b" "length (bcm_pool m') = length (bcm_pool m)"
    "\<forall>c. c \<noteq> - 1 \<longrightarrow> pool_view dev (bcm_pool m') d' c = pool_view dev (bcm_pool m) d c"
    using get_block_cache_ok [where shared = shared, OF inv j b] by blast
  let ?p = "bcm_pool m'" and ?old = "store_view dev s b"
  let ?bc = "(?p ! i)\<lparr>bc_dirty := True, bc_buffer := put_bytes offset n bs ?old\<rparr>"
  let ?m = "m'\<lparr>bcm_pool := ?p[i := ?bc]\<rparr>"
  have buf: "bc_buffer (?p ! i) = ?old" using pool_view_nth [OF 1(2,3)] 1(4,6) b s by (simp add: store_view_def)
  have inv0: "pool_inv dev (take i ?p @ ?p ! i # drop (Suc i) ?p) d'" using 1(2) list_at [OF 1(3), symmetric] by simp
  have "buf_ok dev d' (?p ! i)" using 1(2,3) by (simp add: pool_inv_def)
  then have "buf_ok dev d' ?bc" using b 1(4) n f(2) store_view_length [OF ok b] by (simp add: buf_ok_def length_put_bytes)
  then have inv': "pool_inv dev (take i ?p @ ?bc # drop (Suc i) ?p) d'"
    using fresh_at [OF inv0] by (intro pool_replace [OF inv0]) auto
  have "store_view dev (?m, d') c = ((store_view dev s)(b := put_bytes offset n bs ?old)) c" for c
    using pool_view_at [OF inv0, of c] pool_view_at [OF inv', of c] list_at [OF 1(3), symmetric] pool_update [OF 1(3), of ?bc] 1(4,6) s b
    by (auto simp: store_view_def)
  then have "store_view dev (?m, d') = (store_view dev s)(b := put_bytes offset n bs ?old)" by (rule ext)
  moreover have "pool_inv dev (?p[i := ?bc]) d'" using inv' pool_update [OF 1(3), of ?bc] by simp
  then have "store_ok dev shared (?m, d')" using j 1(5) by (auto simp: store_ok_def)
  moreover have "cache_modify dev shared b offset n f s = Some (v, ?m, d')"
    using 1(1) n f(1) s buf by (simp add: cache_modify_def bc_modify_def BUFFER_SIZE_def BLOCK_SZ_def put_bytes_def)
  ultimately show ?thesis using 1(5) s by (intro exI [of _ "(?m, d')"]) simp
qed

section \<open>The contract of the cache\<close>

text \<open>
  A store of blocks of 4096 bytes that is read and written by pieces. \<open>view\<close> is what it holds; the
  block number \<open>usize::MAX\<close> is not a block.
\<close>

locale byte_store =
  fixes rd :: "usize \<Rightarrow> nat \<Rightarrow> nat \<Rightarrow> 's \<Rightarrow> (u8 list \<times> 's) option"
    and wr :: "usize \<Rightarrow> nat \<Rightarrow> u8 list \<Rightarrow> 's \<Rightarrow> (unit \<times> 's) option"
    and ok :: "'s \<Rightarrow> bool"
    and view :: "'s \<Rightarrow> usize \<Rightarrow> u8 list"
  assumes view_size: "ok s \<Longrightarrow> b \<noteq> - 1 \<Longrightarrow> length (view s b) = 4096"
    and rd_law: "ok s \<Longrightarrow> b \<noteq> - 1 \<Longrightarrow> off + n \<le> 4096 \<Longrightarrow>
      \<exists>s'. rd b off n s = Some (take n (drop off (view s b)), s') \<and> ok s' \<and> view s' = view s"
    and wr_law: "ok s \<Longrightarrow> b \<noteq> - 1 \<Longrightarrow> off + length bs \<le> 4096 \<Longrightarrow>
      \<exists>s'. wr b off bs s = Some ((), s') \<and> ok s' \<and> view s' = (view s)(b := put_bytes off (length bs) bs (view s b))"
begin

text \<open>What was written is read back, and a disjoint piece of the same block is unchanged.\<close>

lemma read_written:
  assumes "ok s" "b \<noteq> - 1" "off + length bs \<le> 4096"
  shows "\<exists>s1 s2. wr b off bs s = Some ((), s1) \<and> rd b off (length bs) s1 = Some (bs, s2)"
proof -
  obtain s1 where 1: "wr b off bs s = Some ((), s1)" "ok s1"
    "view s1 = (view s)(b := put_bytes off (length bs) bs (view s b))" using wr_law [OF assms] by blast
  have "take (length bs) (drop off (view s1 b)) = bs"
    using view_size [OF assms(1,2)] assms(3) by (simp add: 1(3) put_bytes_def)
  then show ?thesis using rd_law [OF 1(2) assms(2,3)] 1(1) by auto
qed

end

interpretation bcm: byte_store
  "\<lambda>b off n. cache_read dev shared b off n id"
  "\<lambda>b off bs. cache_modify dev shared b off (length bs) (\<lambda>_. ((), bs))"
  "store_ok dev shared" "store_view dev" for dev :: "'d blk" and shared
proof (unfold_locales, goal_cases)
  case (1 s b)
  then show ?case by (rule store_view_length)
next
  case (2 s b off n)
  then show ?case using cache_read_ok [OF 2, of id] by auto
next
  case (3 s b off bs)
  then show ?case using cache_modify_ok [OF 3, of "\<lambda>_. ((), bs)" "()" bs] by auto
qed

section \<open>The cache is invisible\<close>

text \<open>
  Sequences of uses of the cache: reads and writes of pieces of blocks, and evictions, each under
  whatever handles are held at that time; and the same on a plain array of blocks.
\<close>

datatype cache_op = ReadAt usize nat nat | WriteAt usize nat "u8 list" | Evict

fun cache_step ::
  "'d blk \<Rightarrow> (nat \<Rightarrow> bool) \<Rightarrow> cache_op \<Rightarrow> block_cache_manager \<times> 'd \<Rightarrow> (u8 list \<times> block_cache_manager \<times> 'd) option" where
  "cache_step dev shared (ReadAt b off n) s = cache_read dev shared b off n id s"
| "cache_step dev shared (WriteAt b off bs) s =
     map_option (\<lambda>(_, s). ([], s)) (cache_modify dev shared b off (length bs) (\<lambda>_. ((), bs)) s)"
| "cache_step dev shared Evict s = map_option (\<lambda>s. ([], s)) (bcm_oom dev shared (fst s) (snd s))"

fun cache_run ::
  "'d blk \<Rightarrow> ((nat \<Rightarrow> bool) \<times> cache_op) list \<Rightarrow> block_cache_manager \<times> 'd \<Rightarrow>
   (u8 list list \<times> block_cache_manager \<times> 'd) option" where
  "cache_run dev [] s = Some ([], s)"
| "cache_run dev ((shared, op) # ops) s =
     do { (r, s) \<leftarrow> cache_step dev shared op s;
          (rs, s) \<leftarrow> cache_run dev ops s;
          Some (r # rs, s) }"

fun array_step :: "cache_op \<Rightarrow> (usize \<Rightarrow> u8 list) \<Rightarrow> u8 list \<times> (usize \<Rightarrow> u8 list)" where
  "array_step (ReadAt b off n) A = (take n (drop off (A b)), A)"
| "array_step (WriteAt b off bs) A = ([], A(b := put_bytes off (length bs) bs (A b)))"
| "array_step Evict A = ([], A)"

fun array_run :: "((nat \<Rightarrow> bool) \<times> cache_op) list \<Rightarrow> (usize \<Rightarrow> u8 list) \<Rightarrow> u8 list list \<times> (usize \<Rightarrow> u8 list)" where
  "array_run [] A = ([], A)"
| "array_run ((shared, op) # ops) A =
     (let (r, A) = array_step op A; (rs, A) = array_run ops A in (r # rs, A))"

fun op_valid :: "cache_op \<Rightarrow> bool" where
  "op_valid (ReadAt b off n) \<longleftrightarrow> b \<noteq> - 1 \<and> off + n \<le> 4096"
| "op_valid (WriteAt b off bs) \<longleftrightarrow> b \<noteq> - 1 \<and> off + length bs \<le> 4096"
| "op_valid Evict \<longleftrightarrow> True"

lemma cache_step_ok:
  assumes ok: "pool_inv dev (bcm_pool (fst s)) (snd s)" and j: "j < length (bcm_pool (fst s))" "\<not> shared j" and op: "op_valid op"
  shows "\<exists>s'. cache_step dev shared op s = Some (fst (array_step op (store_view dev s)), s') \<and>
    store_view dev s' = snd (array_step op (store_view dev s)) \<and> pool_inv dev (bcm_pool (fst s')) (snd s') \<and>
    length (bcm_pool (fst s')) = length (bcm_pool (fst s))"
proof -
  have st: "store_ok dev shared s" using ok j by (auto simp: store_ok_def)
  show ?thesis
  proof (cases op)
    case (ReadAt b off n)
    then show ?thesis using cache_read_ok [OF st, of b off n id] op by (auto simp: store_ok_def)
  next
    case (WriteAt b off bs)
    then show ?thesis using cache_modify_ok [OF st, of b off "length bs" "\<lambda>_. ((), bs)" "()" bs] op by (auto simp: store_ok_def)
  next
    case Evict
    then show ?thesis using bcm_oom_ok [OF ok, of shared] by (auto simp: store_view_def fun_eq_iff)
  qed
qed

text \<open>
  C14. The block cache is invisible. Start from any consistent pool and let the file system read and
  write pieces of blocks and the memory manager evict buffers, in any order and with any handles
  held, as long as at each step one buffer of the pool is held by nobody. Then every step returns
  (in particular the allocation loop ends), every read gives the bytes a plain array of blocks
  would give, and the blocks seen through the cache at the end are those of the array.
\<close>

theorem block_cache_transparent:
  fixes s :: "block_cache_manager \<times> 'd"
  assumes "pool_inv dev (bcm_pool (fst s)) (snd s)"
    and "\<forall>(shared, op) \<in> set ops. op_valid op \<and> (\<exists>j < length (bcm_pool (fst s)). \<not> shared j)"
  shows "\<exists>s'. cache_run dev ops s = Some (fst (array_run ops (store_view dev s)), s') \<and>
    store_view dev s' = snd (array_run ops (store_view dev s)) \<and> pool_inv dev (bcm_pool (fst s')) (snd s')"
  using assms
proof (induction ops arbitrary: s)
  case Nil
  then show ?case by simp
next
  case (Cons x ops)
  obtain shared op where x: "x = (shared, op)" by fastforce
  obtain j where j: "j < length (bcm_pool (fst s))" "\<not> shared j" "op_valid op" using Cons.prems(2) x by auto
  obtain s1 where 1: "cache_step dev shared op s = Some (fst (array_step op (store_view dev s)), s1)"
    "store_view dev s1 = snd (array_step op (store_view dev s))" "pool_inv dev (bcm_pool (fst s1)) (snd s1)"
    "length (bcm_pool (fst s1)) = length (bcm_pool (fst s))"
    using cache_step_ok [where shared = shared, OF Cons.prems(1) j] by blast
  have "\<forall>(shared, op) \<in> set ops. op_valid op \<and> (\<exists>j < length (bcm_pool (fst s1)). \<not> shared j)"
    using Cons.prems(2) 1(4) by auto
  from Cons.IH [OF 1(3) this] show ?case using 1(1,2) x by (auto simp: split_beta)
qed

lemma sample_blk_ok: "blk_ok sample_blk"
  by (auto simp: blk_ok_def sample_blk_def VIRT_IO_BLOCK_SZ_def)

text \<open>A pool of one buffer, which is what the constants give on this platform.\<close>

lemma pool_of_one: "CACHEPOOLPAGE * PAGE_BUFFERS = 1"
  by (simp add: CACHEPOOLPAGE_def CACHEPOOLSIZE_def PAGE_BUFFERS_def BUFFER_SIZE_def BLOCK_SZ_def BUFFER_CACHE_NUM_def
      trailing_zeros_def upt_rec bit_iff_odd)

definition sample_store :: "block_cache_manager \<times> (nat \<Rightarrow> u8 list)" where
  "sample_store = (\<lparr>bcm_hold = [], bcm_pool = [buffer_new (replicate 4096 0)]\<rparr>, \<lambda>_. [])"

lemma sample_store_inv: "pool_inv sample_blk (bcm_pool (fst sample_store)) (snd sample_store)"
  by (simp add: pool_inv_def sample_store_def buf_ok_def buffer_new_def sample_blk_ok)

lemma block_cache_transparent_witness:
  "\<exists>s'. cache_run sample_blk [(\<lambda>_. False, WriteAt 5 1 [1, 2]), (\<lambda>_. False, WriteAt 7 0 [3]), (\<lambda>_. False, Evict),
       (\<lambda>i. i = 1, ReadAt 5 1 2)] sample_store = Some ([[], [], [], [1, 2]], s')"
proof -
  let ?ops = "[(\<lambda>_. False, WriteAt 5 1 [1, 2]), (\<lambda>_. False, WriteAt 7 0 [3]), (\<lambda>_. False, Evict), (\<lambda>i. i = 1, ReadAt 5 1 2)]"
  have l: "length (store_view sample_blk sample_store 5) = 4096"
    using sample_store_inv by (simp add: store_view_def length_pool_view)
  have "\<forall>(shared, op) \<in> set ?ops. op_valid op \<and> (\<exists>j < length (bcm_pool (fst sample_store)). \<not> shared j)"
    by (auto simp: sample_store_def)
  note run = block_cache_transparent [OF sample_store_inv this]
  have "fst (array_run ?ops (store_view sample_blk sample_store)) = [[], [], [], [1, 2]]"
    using l by (simp add: put_bytes_def)
  with run show ?thesis by auto
qed

end
