(* ===== verification/Fs_Fat.thy ===== *)
theory Fs_Fat
  imports Fs_Block_Cache
begin

text \<open>
  The file allocation table of the FAT32 file system, \<open>fs/fat32/bitmap.rs\<close>. The table is an array
  of four-byte entries in the sectors that start at \<open>start_block_id\<close>; entry \<open>c\<close> holds the cluster
  after \<open>c\<close> in its chain, zero if \<open>c\<close> is free, and a value from \<open>0x0FFFFFF8\<close> on at the end of a
  chain. Every access goes through the block cache; the state is the in-memory structure, the
  cache and the disk.
\<close>

section \<open>Definitions\<close>

definition VACANT_CLUS_CACHE_SIZE :: nat where "VACANT_CLUS_CACHE_SIZE = 64"
definition FAT_ENTRY_FREE :: u32 where "FAT_ENTRY_FREE = 0"
definition FAT_ENTRY_RESERVED_TO_END :: u32 where "FAT_ENTRY_RESERVED_TO_END = 0x0FFFFFF8"
definition EOC :: u32 where "EOC = 0x0FFFFFFF"
definition BAD_BLOCK :: u32 where "BAD_BLOCK = 0x0FFFFFF7"

record fat =
  start_block_id :: usize
  byts_per_sec :: usize
  tot_ent :: usize
  vacant_clus :: "u32 list"
  hint :: usize

type_synonym 'd fat_state = "fat \<times> block_cache_manager \<times> 'd"

definition fat_new :: "usize \<Rightarrow> usize \<Rightarrow> usize \<Rightarrow> fat" where
  "fat_new rsvd_sec_cnt bps clus =
     \<lparr>start_block_id = rsvd_sec_cnt, byts_per_sec = bps, tot_ent = clus, vacant_clus = [], hint = 0\<rparr>"

text \<open>A sector size of zero is a division by zero: \<^const>\<open>None\<close>. The products are in \<open>u32\<close>.\<close>

definition this_fat_sec_num :: "u32 \<Rightarrow> fat \<Rightarrow> usize option" where
  "this_fat_sec_num clus_num fat =
     (if (ucast (byts_per_sec fat) :: u32) = 0 then None
      else Some (ucast (ucast (start_block_id fat) + (clus_num * 4) div ucast (byts_per_sec fat) :: u32)))"

definition this_fat_ent_offset :: "u32 \<Rightarrow> fat \<Rightarrow> usize option" where
  "this_fat_ent_offset clus_num fat =
     (if (ucast (byts_per_sec fat) :: u32) = 0 then None
      else Some (ucast ((clus_num * 4) mod ucast (byts_per_sec fat) :: u32)))"

definition get_next_clus_num ::
  "'d blk \<Rightarrow> (nat \<Rightarrow> bool) \<Rightarrow> u32 \<Rightarrow> 'd fat_state \<Rightarrow> (u32 \<times> 'd fat_state) option" where
  "get_next_clus_num dev shared current_clus_num st =
     do { sec \<leftarrow> this_fat_sec_num current_clus_num (fst st);
          offset \<leftarrow> this_fat_ent_offset current_clus_num (fst st);
          (fat_entry, s) \<leftarrow> cache_read dev shared sec (unat offset) 4 un32 (snd st);
          Some (fat_entry AND EOC, fst st, s) }"

text \<open>The loop need not end: a cycle of entries makes it run for ever.\<close>

definition ends_chain :: "u32 \<Rightarrow> bool" where
  "ends_chain c \<longleftrightarrow> c \<in> {BAD_BLOCK, FAT_ENTRY_FREE} \<or> FAT_ENTRY_RESERVED_TO_END \<le> c"

partial_function (option) all_clus_loop ::
  "'d blk \<Rightarrow> (nat \<Rightarrow> bool) \<Rightarrow> u32 list \<Rightarrow> u32 \<Rightarrow> 'd fat_state \<Rightarrow> (u32 list \<times> 'd fat_state) option" where
  "all_clus_loop dev shared v current_clus_num st =
     (case get_next_clus_num dev shared current_clus_num st of
        None \<Rightarrow> None
      | Some (next, st) \<Rightarrow>
          if ends_chain next then Some (v @ [current_clus_num], st)
          else all_clus_loop dev shared (v @ [current_clus_num]) next st)"

definition get_all_clus_num ::
  "'d blk \<Rightarrow> (nat \<Rightarrow> bool) \<Rightarrow> u32 \<Rightarrow> 'd fat_state \<Rightarrow> (u32 list \<times> 'd fat_state) option" where
  "get_all_clus_num dev shared current_clus_num st = all_clus_loop dev shared [] current_clus_num st"

definition set_next_clus ::
  "'d blk \<Rightarrow> (nat \<Rightarrow> bool) \<Rightarrow> u32 option \<Rightarrow> u32 \<Rightarrow> 'd fat_state \<Rightarrow> 'd fat_state option" where
  "set_next_clus dev shared current next st =
     (case current of
        None \<Rightarrow> Some st
      | Some current \<Rightarrow>
          do { sec \<leftarrow> this_fat_sec_num current (fst st);
               offset \<leftarrow> this_fat_ent_offset current (fst st);
               (_, s) \<leftarrow> cache_modify dev shared sec (unat offset) 4 (\<lambda>_. ((), le32 next)) (snd st);
               Some (fst st, s) })"

text \<open>The clusters of a half-open range of \<open>u32\<close>, in order.\<close>

definition clus_range :: "u32 \<Rightarrow> u32 \<Rightarrow> u32 list" where
  "clus_range a b = map of_nat [unat a..<unat b]"

fun first_free ::
  "'d blk \<Rightarrow> (nat \<Rightarrow> bool) \<Rightarrow> u32 list \<Rightarrow> 'd fat_state \<Rightarrow> (u32 option \<times> 'd fat_state) option" where
  "first_free dev shared [] st = Some (None, st)"
| "first_free dev shared (clus_id # cs) st =
     do { (next, st) \<leftarrow> get_next_clus_num dev shared clus_id st;
          if FAT_ENTRY_FREE = next then Some (Some clus_id, st) else first_free dev shared cs st }"

definition get_next_free_clus ::
  "'d blk \<Rightarrow> (nat \<Rightarrow> bool) \<Rightarrow> u32 \<Rightarrow> 'd fat_state \<Rightarrow> (u32 option \<times> 'd fat_state) option" where
  "get_next_free_clus dev shared start st =
     do { (res, st) \<leftarrow> first_free dev shared (clus_range start (ucast (tot_ent (fst st)))) st;
          case res of
            Some clus_id \<Rightarrow> Some (Some clus_id, st)
          | None \<Rightarrow> first_free dev shared (clus_range 0 start) st }"

text \<open>\<open>debug_assert!\<close> checks nothing in the release build, but its argument has been read.\<close>

definition alloc_one ::
  "'d blk \<Rightarrow> (nat \<Rightarrow> bool) \<Rightarrow> u32 option \<Rightarrow> 'd fat_state \<Rightarrow> (u32 option \<times> 'd fat_state) option" where
  "alloc_one dev shared last_clus st =
     do { st \<leftarrow> (case last_clus of
                  None \<Rightarrow> Some st
                | Some l \<Rightarrow> map_option snd (get_next_clus_num dev shared l st));
          case vec_pop (vacant_clus (fst st)) of
            Some (free_clus_id, vacant) \<Rightarrow>
              do { st \<leftarrow> set_next_clus dev shared last_clus free_clus_id ((fst st)\<lparr>vacant_clus := vacant\<rparr>, snd st);
                   Some (Some free_clus_id, st) }
          | None \<Rightarrow>
              do { (res, st) \<leftarrow> get_next_free_clus dev shared (ucast (hint (fst st))) st;
                   case res of
                     None \<Rightarrow> Some (None, st)
                   | Some free_clus_id \<Rightarrow>
                       if tot_ent (fst st) = 0 then None
                       else do { let fat = (fst st)\<lparr>hint := ucast (free_clus_id + 1) mod tot_ent (fst st)\<rparr>;
                                 st \<leftarrow> set_next_clus dev shared last_clus free_clus_id (fat, snd st);
                                 Some (Some free_clus_id, st) } } }"

fun alloc_loop ::
  "'d blk \<Rightarrow> (nat \<Rightarrow> bool) \<Rightarrow> nat \<Rightarrow> u32 option \<Rightarrow> u32 list \<Rightarrow> 'd fat_state \<Rightarrow>
   (u32 list \<times> u32 option \<times> 'd fat_state) option" where
  "alloc_loop dev shared 0 last_clus allocated st = Some (allocated, last_clus, st)"
| "alloc_loop dev shared (Suc k) last_clus allocated st =
     do { (last_clus, st) \<leftarrow> alloc_one dev shared last_clus st;
          case last_clus of
            None \<Rightarrow> Some (allocated, None, st)
          | Some c \<Rightarrow> alloc_loop dev shared k last_clus (allocated @ [c]) st }"

definition fat_alloc ::
  "'d blk \<Rightarrow> (nat \<Rightarrow> bool) \<Rightarrow> nat \<Rightarrow> u32 option \<Rightarrow> 'd fat_state \<Rightarrow> (u32 list \<times> 'd fat_state) option" where
  "fat_alloc dev shared alloc_num last_clus st =
     do { (allocated, last_clus, st) \<leftarrow> alloc_loop dev shared alloc_num last_clus [] st;
          st \<leftarrow> set_next_clus dev shared last_clus EOC st;
          Some (allocated, st) }"

fun free_loop :: "'d blk \<Rightarrow> (nat \<Rightarrow> bool) \<Rightarrow> u32 list \<Rightarrow> 'd fat_state \<Rightarrow> 'd fat_state option" where
  "free_loop dev shared [] st = Some st"
| "free_loop dev shared (cluster_id # cs) st =
     do { st \<leftarrow> set_next_clus dev shared (Some cluster_id) FAT_ENTRY_FREE st;
          let vacant = vacant_clus (fst st);
          free_loop dev shared cs
            (if length vacant < VACANT_CLUS_CACHE_SIZE then ((fst st)\<lparr>vacant_clus := vacant @ [cluster_id]\<rparr>, snd st)
             else st) }"

definition fat_free ::
  "'d blk \<Rightarrow> (nat \<Rightarrow> bool) \<Rightarrow> u32 list \<Rightarrow> u32 option \<Rightarrow> 'd fat_state \<Rightarrow> 'd fat_state option" where
  "fat_free dev shared cluster_list last_clus st =
     do { st \<leftarrow> free_loop dev shared cluster_list st;
          set_next_clus dev shared last_clus EOC st }"

section \<open>The table as an array of entries\<close>

text \<open>
  A geometry the kernel can address: sectors hold whole entries and fit a buffer of the cache, and
  no number leaves the range of \<open>u32\<close> or runs into the reserved entry values.
\<close>

definition fat_geom :: "fat \<Rightarrow> bool" where
  "fat_geom fat \<longleftrightarrow> 0 < unat (byts_per_sec fat) \<and> unat (byts_per_sec fat) \<le> 4096 \<and> 4 dvd unat (byts_per_sec fat) \<and>
     unat (tot_ent fat) \<le> 0x0FFFFFF7 \<and> unat (start_block_id fat) + unat (tot_ent fat) < 2 ^ 32"

definition ent_sec :: "fat \<Rightarrow> nat \<Rightarrow> nat" where
  "ent_sec fat c = unat (start_block_id fat) + 4 * c div unat (byts_per_sec fat)"

definition ent_off :: "fat \<Rightarrow> nat \<Rightarrow> nat" where
  "ent_off fat c = 4 * c mod unat (byts_per_sec fat)"

definition clus_ok :: "fat \<Rightarrow> u32 \<Rightarrow> bool" where
  "clus_ok fat c \<longleftrightarrow> unat c < unat (tot_ent fat)"

text \<open>The entry of a cluster, seen through the cache, without the upper four bits.\<close>

definition ents :: "'d blk \<Rightarrow> 'd fat_state \<Rightarrow> u32 \<Rightarrow> u32" where
  "ents dev st c = un32 (take 4 (drop (ent_off (fst st) (unat c))
     (store_view dev (snd st) (of_nat (ent_sec (fst st) (unat c)))))) AND EOC"

definition fat_ok :: "'d blk \<Rightarrow> (nat \<Rightarrow> bool) \<Rightarrow> 'd fat_state \<Rightarrow> bool" where
  "fat_ok dev shared st \<longleftrightarrow> store_ok dev shared (snd st) \<and> fat_geom (fst st)"

lemma geom_bounds:
  assumes "fat_geom fat" and "clus_ok fat c"
  shows "4 * unat c < 2 ^ 32" "unat (byts_per_sec fat) < 2 ^ 32" "unat (start_block_id fat) < 2 ^ 32"
    "ent_sec fat (unat c) < 2 ^ 32" "ent_off fat (unat c) + 4 \<le> 4096" "unat c < 0x0FFFFFF7"
proof -
  let ?B = "unat (byts_per_sec fat)"
  have B: "0 < ?B" "?B \<le> 4096" "4 dvd ?B" using assms(1) by (simp_all add: fat_geom_def)
  have "4 \<le> ?B" using B(1,3) by (auto dest: dvd_imp_le)
  then have "4 * unat c div ?B \<le> 4 * unat c div 4" by (rule div_le_mono2 [rotated]) simp
  then show "ent_sec fat (unat c) < 2 ^ 32"
    using assms by (simp add: ent_sec_def fat_geom_def clus_ok_def)
  have "4 dvd ent_off fat (unat c)" using B(3) by (simp add: ent_off_def dvd_mod)
  moreover have "ent_off fat (unat c) < ?B" using B(1) by (simp add: ent_off_def)
  ultimately have "ent_off fat (unat c) + 4 \<le> ?B" using B(3) by (auto elim!: dvdE)
  then show "ent_off fat (unat c) + 4 \<le> 4096" using B(2) by simp
qed (use assms in \<open>auto simp: fat_geom_def clus_ok_def\<close>)

lemma ent_place:
  assumes "fat_geom fat" and "clus_ok fat c"
  shows "this_fat_sec_num c fat = Some (of_nat (ent_sec fat (unat c)))"
    and "this_fat_ent_offset c fat = Some (of_nat (ent_off fat (unat c)))"
    and "unat (of_nat (ent_off fat (unat c)) :: usize) = ent_off fat (unat c)"
    and "(of_nat (ent_sec fat (unat c)) :: usize) \<noteq> - 1"
proof -
  note b = geom_bounds [OF assms]
  have c4: "unat (c * 4) = 4 * unat c" using b(1) by (simp add: unat_word_ariths mult.commute)
  have B: "unat (ucast (byts_per_sec fat) :: u32) = unat (byts_per_sec fat)" using b(2) by (simp add: unsigned_ucast_eq take_bit_eq_mod)
  have S: "unat (ucast (start_block_id fat) :: u32) = unat (start_block_id fat)" using b(3) by (simp add: unsigned_ucast_eq take_bit_eq_mod)
  have nz: "(ucast (byts_per_sec fat) :: u32) \<noteq> 0"
    using assms(1) B by (metis fat_geom_def less_irrefl unat_0)
  have off: "unat ((c * 4) mod ucast (byts_per_sec fat) :: u32) = ent_off fat (unat c)"
    by (simp add: unat_mod c4 B ent_off_def)
  have sec: "unat (ucast (start_block_id fat) + (c * 4) div ucast (byts_per_sec fat) :: u32) = ent_sec fat (unat c)"
  proof -
    have "unat ((c * 4) div ucast (byts_per_sec fat) :: u32) = 4 * unat c div unat (byts_per_sec fat)"
      by (simp add: unat_div c4 B)
    then show ?thesis using b(4) by (simp add: unat_word_ariths(1) S ent_sec_def)
  qed
  show "this_fat_sec_num c fat = Some (of_nat (ent_sec fat (unat c)))"
    using nz sec by (simp add: this_fat_sec_num_def unat_of_nat flip: sec)
  show "this_fat_ent_offset c fat = Some (of_nat (ent_off fat (unat c)))"
    using nz off by (simp add: this_fat_ent_offset_def flip: off)
  show "unat (of_nat (ent_off fat (unat c)) :: usize) = ent_off fat (unat c)" using b(5) by (simp add: unat_of_nat)
  have "unat (of_nat (ent_sec fat (unat c)) :: usize) < 2 ^ 32" using b(4) by (simp add: unat_of_nat)
  then show "(of_nat (ent_sec fat (unat c)) :: usize) \<noteq> - 1" by (auto simp: word_unat_eq_iff unsigned_minus_1_eq_mask mask_eq_exp_minus_1)
qed

text \<open>Different entries lie in different places.\<close>

lemma ent_disjoint:
  assumes "fat_geom fat" "clus_ok fat c" "clus_ok fat c'" "c \<noteq> c'"
    and "(of_nat (ent_sec fat (unat c)) :: usize) = of_nat (ent_sec fat (unat c'))"
  shows "ent_off fat (unat c) + 4 \<le> ent_off fat (unat c') \<or> ent_off fat (unat c') + 4 \<le> ent_off fat (unat c)"
proof -
  let ?B = "unat (byts_per_sec fat)" and ?o = "ent_off fat (unat c)" and ?o' = "ent_off fat (unat c')"
  have d: "4 dvd ?o" "4 dvd ?o'" using assms(1) by (simp_all add: ent_off_def fat_geom_def dvd_mod)
  have "ent_sec fat (unat c) = ent_sec fat (unat c')"
    using assms(5) geom_bounds(4) [OF assms(1,2)] geom_bounds(4) [OF assms(1,3)] by (simp add: word_unat_eq_iff unat_of_nat)
  then have "4 * unat c div ?B = 4 * unat c' div ?B" by (simp add: ent_sec_def)
  moreover have "4 * unat c \<noteq> 4 * unat c'" using assms(4) by (simp add: word_unat_eq_iff)
  ultimately have "?o \<noteq> ?o'" unfolding ent_off_def by (metis div_mult_mod_eq)
  then show ?thesis using d by (auto elim!: dvdE)
qed

lemma put_bytes_other:
  assumes "off + 4 \<le> off' \<or> off' + 4 \<le> off" "length buf = 4096" "off + 4 \<le> 4096" "off' + 4 \<le> 4096" "length bs = 4"
  shows "take 4 (drop off' (put_bytes off 4 bs buf)) = take 4 (drop off' buf)"
  using assms(1)
proof
  assume "off + 4 \<le> off'"
  then show ?thesis using assms(2-5) by (simp add: put_bytes_def)
next
  assume "off' + 4 \<le> off"
  then show ?thesis using assms(2-5) by (simp add: put_bytes_def drop_take)
qed

lemma put_bytes_same:
  assumes "length buf = 4096" "off + 4 \<le> 4096" "length bs = 4"
  shows "take 4 (drop off (put_bytes off 4 bs buf)) = bs"
  using assms by (simp add: put_bytes_def)

text \<open>The queue and the hint are no part of the table.\<close>

lemma geom_fields [simp]:
  "fat_geom (fat\<lparr>vacant_clus := v\<rparr>) = fat_geom fat" "fat_geom (fat\<lparr>hint := h\<rparr>) = fat_geom fat"
  "clus_ok (fat\<lparr>vacant_clus := v\<rparr>) = clus_ok fat" "clus_ok (fat\<lparr>hint := h\<rparr>) = clus_ok fat"
  "ents dev (fat\<lparr>vacant_clus := v\<rparr>, s) = ents dev (fat, s)" "ents dev (fat\<lparr>hint := h\<rparr>, s) = ents dev (fat, s)"
  by (auto simp: fat_geom_def clus_ok_def ents_def ent_sec_def ent_off_def fun_eq_iff)

lemma get_next_ok:
  assumes "fat_ok dev shared (fat, s)" and "clus_ok fat c"
  shows "\<exists>s'. get_next_clus_num dev shared c (fat, s) = Some (ents dev (fat, s) c, fat, s') \<and>
    fat_ok dev shared (fat, s') \<and> ents dev (fat, s') = ents dev (fat, s)"
proof -
  have g: "fat_geom fat" and ok: "store_ok dev shared s" using assms(1) by (simp_all add: fat_ok_def)
  note p = ent_place [OF g assms(2)]
  obtain s' where "cache_read dev shared (of_nat (ent_sec fat (unat c))) (ent_off fat (unat c)) 4 un32 s =
      Some (un32 (take 4 (drop (ent_off fat (unat c)) (store_view dev s (of_nat (ent_sec fat (unat c)))))), s')"
    "store_ok dev shared s'" "store_view dev s' = store_view dev s"
    using cache_read_ok [OF ok p(4) geom_bounds(5) [OF g assms(2)]] by blast
  then show ?thesis using p(1-3) g by (auto simp: get_next_clus_num_def ents_def fat_ok_def fun_eq_iff)
qed

lemma set_next_ok:
  assumes "fat_ok dev shared (fat, s)" and "clus_ok fat c"
  shows "\<exists>s'. set_next_clus dev shared (Some c) x (fat, s) = Some (fat, s') \<and> fat_ok dev shared (fat, s') \<and>
    (\<forall>c'. clus_ok fat c' \<longrightarrow> ents dev (fat, s') c' = (if c' = c then x AND EOC else ents dev (fat, s) c'))"
proof -
  have g: "fat_geom fat" and ok: "store_ok dev shared s" using assms(1) by (simp_all add: fat_ok_def)
  note p = ent_place [OF g assms(2)]
  let ?b = "of_nat (ent_sec fat (unat c)) :: usize" and ?o = "ent_off fat (unat c)"
  have o: "?o + 4 \<le> 4096" using geom_bounds(5) [OF g assms(2)] .
  obtain s' where s': "cache_modify dev shared ?b ?o 4 (\<lambda>_. ((), le32 x)) s = Some ((), s')" "store_ok dev shared s'"
    "store_view dev s' = (store_view dev s)(?b := put_bytes ?o 4 (le32 x) (store_view dev s ?b))"
    using cache_modify_ok [OF ok p(4) o, of "\<lambda>_. ((), le32 x)" "()" "le32 x"] by auto
  have len: "length (store_view dev s ?b) = 4096" using store_view_length [OF ok p(4)] .
  have "ents dev (fat, s') c' = (if c' = c then x AND EOC else ents dev (fat, s) c')" if c': "clus_ok fat c'" for c'
  proof (cases "c' = c")
    case True
    then show ?thesis using s'(3) put_bytes_same [OF len o] by (simp add: ents_def)
  next
    case False
    show ?thesis
    proof (cases "(of_nat (ent_sec fat (unat c')) :: usize) = ?b")
      case same: True
      then have "?o + 4 \<le> ent_off fat (unat c') \<or> ent_off fat (unat c') + 4 \<le> ?o"
        using ent_disjoint [OF g assms(2) c'] False by simp
      from put_bytes_other [OF this len o geom_bounds(5) [OF g c'], of "le32 x"] show ?thesis
        using False same s'(3) by (simp add: ents_def)
    qed (use False s'(3) in \<open>simp add: ents_def\<close>)
  qed
  then show ?thesis using s'(1,2) p(1-3) g by (simp add: set_next_clus_def fat_ok_def)
qed

text \<open>The entries of the clusters the table has; the rest is never looked at.\<close>

definition tab :: "'d blk \<Rightarrow> 'd fat_state \<Rightarrow> u32 \<Rightarrow> u32" where
  "tab dev st c = (if clus_ok (fst st) c then ents dev st c else EOC)"

lemma tab_fields [simp]:
  "tab dev (fat\<lparr>vacant_clus := v\<rparr>, s) = tab dev (fat, s)" "tab dev (fat\<lparr>hint := h\<rparr>, s) = tab dev (fat, s)"
  by (simp_all add: tab_def fun_eq_iff)

lemma fat_ok_fields [simp]:
  "fat_ok dev shared (fat\<lparr>vacant_clus := v\<rparr>, s) = fat_ok dev shared (fat, s)"
  "fat_ok dev shared (fat\<lparr>hint := h\<rparr>, s) = fat_ok dev shared (fat, s)"
  by (simp_all add: fat_ok_def)

lemma get_next_tab:
  assumes "fat_ok dev shared (fat, s)" and "clus_ok fat c"
  obtains s' where "get_next_clus_num dev shared c (fat, s) = Some (tab dev (fat, s) c, fat, s')"
    "fat_ok dev shared (fat, s')" "tab dev (fat, s') = tab dev (fat, s)"
  using get_next_ok [OF assms] assms(2) by (auto simp: tab_def fun_eq_iff)

lemma set_next_tab:
  assumes "fat_ok dev shared (fat, s)" and "clus_ok fat c"
  obtains s' where "set_next_clus dev shared (Some c) x (fat, s) = Some (fat, s')"
    "fat_ok dev shared (fat, s')" "tab dev (fat, s') = (tab dev (fat, s))(c := x AND EOC)"
proof -
  obtain s' where s: "set_next_clus dev shared (Some c) x (fat, s) = Some (fat, s')" "fat_ok dev shared (fat, s')"
    "\<forall>c'. clus_ok fat c' \<longrightarrow> ents dev (fat, s') c' = (if c' = c then x AND EOC else ents dev (fat, s) c')"
    using set_next_ok [OF assms] by blast
  have "tab dev (fat, s') = (tab dev (fat, s))(c := x AND EOC)"
    using s(3) assms(2) by (auto simp: tab_def fun_eq_iff)
  with s(1,2) show ?thesis by (rule that)
qed

lemma first_free_tab:
  assumes "fat_ok dev shared (fat, s)" and "\<forall>c \<in> set cs. clus_ok fat c"
  obtains s' where "first_free dev shared cs (fat, s) = Some (find (\<lambda>c. tab dev (fat, s) c = 0) cs, fat, s')"
    "fat_ok dev shared (fat, s')" "tab dev (fat, s') = tab dev (fat, s)"
  using assms
proof (induction cs arbitrary: s thesis)
  case Nil
  then show ?case by simp
next
  case (Cons c cs)
  obtain s1 where 1: "get_next_clus_num dev shared c (fat, s) = Some (tab dev (fat, s) c, fat, s1)"
    "fat_ok dev shared (fat, s1)" "tab dev (fat, s1) = tab dev (fat, s)"
    using get_next_tab [OF Cons.prems(2), of c] Cons.prems(3) by auto
  show ?case
  proof (cases "tab dev (fat, s) c = 0")
    case True
    then show ?thesis using 1 by (intro Cons.prems(1) [of s1]) (simp_all add: FAT_ENTRY_FREE_def)
  next
    case False
    obtain s2 where "first_free dev shared cs (fat, s1) = Some (find (\<lambda>c. tab dev (fat, s1) c = 0) cs, fat, s2)"
      "fat_ok dev shared (fat, s2)" "tab dev (fat, s2) = tab dev (fat, s1)"
      using Cons.IH [OF _ 1(2)] Cons.prems(3) by auto
    then show ?thesis using 1 False by (intro Cons.prems(1) [of s2]) (auto simp: FAT_ENTRY_FREE_def)
  qed
qed

section \<open>Allocation on the table\<close>

text \<open>
  What allocation does to the table: the cluster before the new ones, if there is one, and each new
  cluster are made to point to the next new cluster.
\<close>

fun link :: "u32 option \<Rightarrow> u32 \<Rightarrow> (u32 \<Rightarrow> u32) \<Rightarrow> u32 \<Rightarrow> u32" where
  "link None x E = E"
| "link (Some l) x E = E(l := x AND EOC)"

fun links :: "u32 option \<Rightarrow> u32 list \<Rightarrow> (u32 \<Rightarrow> u32) \<Rightarrow> u32 \<Rightarrow> u32" where
  "links l [] E = E"
| "links l (c # cs) E = links (Some c) cs (link l c E)"

definition last_of :: "u32 option \<Rightarrow> u32 list \<Rightarrow> u32 option" where
  "last_of l cs = (if cs = [] then l else Some (last cs))"

definition opt_ok :: "fat \<Rightarrow> u32 option \<Rightarrow> bool" where
  "opt_ok fat l \<longleftrightarrow> (case l of None \<Rightarrow> True | Some c \<Rightarrow> clus_ok fat c)"

lemma opt_ok_simps [simp]:
  "opt_ok fat None" "opt_ok fat (Some c) = clus_ok fat c"
  "opt_ok (fat\<lparr>vacant_clus := v\<rparr>) = opt_ok fat" "opt_ok (fat\<lparr>hint := h\<rparr>) = opt_ok fat"
  by (auto simp: opt_ok_def fun_eq_iff split: option.splits)

lemma last_of_simps [simp]: "last_of l [] = l" "last_of l (c # cs) = last_of (Some c) cs"
  by (simp_all add: last_of_def)

lemma set_next_link:
  assumes "fat_ok dev shared (fat, s)" and "opt_ok fat l"
  obtains s' where "set_next_clus dev shared l x (fat, s) = Some (fat, s')"
    "fat_ok dev shared (fat, s')" "tab dev (fat, s') = link l x (tab dev (fat, s))"
proof (cases l)
  case None
  then show ?thesis using assms(1) that [of s] by (simp add: set_next_clus_def)
next
  case (Some c)
  then show ?thesis using set_next_tab [OF assms(1), of c x] assms(2) that by auto
qed

lemma peek_last:
  assumes "fat_ok dev shared (fat, s)" and "opt_ok fat l"
  obtains s' where "(case l of None \<Rightarrow> Some (fat, s) | Some l \<Rightarrow> map_option snd (get_next_clus_num dev shared l (fat, s))) = Some (fat, s')"
    "fat_ok dev shared (fat, s')" "tab dev (fat, s') = tab dev (fat, s)"
proof (cases l)
  case None
  then show ?thesis using assms(1) that [of s] by simp
next
  case (Some c)
  then have "clus_ok fat c" using assms(2) by simp
  then obtain s' where "get_next_clus_num dev shared c (fat, s) = Some (tab dev (fat, s) c, fat, s')"
    "fat_ok dev shared (fat, s')" "tab dev (fat, s') = tab dev (fat, s)" by (rule get_next_tab [OF assms(1)])
  then show ?thesis using Some by (intro that [of s']) simp_all
qed

lemma alloc_one_vacant:
  assumes "fat_ok dev shared (fat, s)" and "opt_ok fat l" and "vacant_clus fat = vs @ [c]"
  obtains s' where "alloc_one dev shared l (fat, s) = Some (Some c, fat\<lparr>vacant_clus := vs\<rparr>, s')"
    "fat_ok dev shared (fat, s')" "tab dev (fat, s') = link l c (tab dev (fat, s))"
proof -
  obtain s1 where 1: "(case l of None \<Rightarrow> Some (fat, s) | Some l \<Rightarrow> map_option snd (get_next_clus_num dev shared l (fat, s))) = Some (fat, s1)"
    "fat_ok dev shared (fat, s1)" "tab dev (fat, s1) = tab dev (fat, s)"
    using peek_last [OF assms(1,2)] by blast
  have "fat_ok dev shared (fat\<lparr>vacant_clus := vs\<rparr>, s1)" "opt_ok (fat\<lparr>vacant_clus := vs\<rparr>) l" using 1(2) assms(2) by simp_all
  from set_next_link [OF this, of c] obtain s2 where
    "set_next_clus dev shared l c (fat\<lparr>vacant_clus := vs\<rparr>, s1) = Some (fat\<lparr>vacant_clus := vs\<rparr>, s2)"
    "fat_ok dev shared (fat\<lparr>vacant_clus := vs\<rparr>, s2)"
    "tab dev (fat\<lparr>vacant_clus := vs\<rparr>, s2) = link l c (tab dev (fat\<lparr>vacant_clus := vs\<rparr>, s1))" by blast
  then show ?thesis using 1(1,3) assms(3) by (intro that [of s2]) (simp_all add: alloc_one_def vec_pop_def)
qed

text \<open>The clusters in the order in which the search visits them.\<close>

definition cyc :: "fat \<Rightarrow> u32 list" where
  "cyc fat = clus_range (ucast (hint fat)) (ucast (tot_ent fat)) @ clus_range 0 (ucast (hint fat))"

lemma unat_ucast_small: "unat (x :: usize) < 2 ^ 32 \<Longrightarrow> unat (ucast x :: u32) = unat x"
  by (simp add: unsigned_ucast_eq take_bit_eq_mod)

lemma cyc_rotate:
  assumes "fat_geom fat" and "unat (hint fat) < unat (tot_ent fat)"
  shows "cyc fat = map of_nat (rotate (unat (hint fat)) [0..<unat (tot_ent fat)])"
proof -
  have t: "unat (tot_ent fat) < 2 ^ 32" using assms(1) by (simp add: fat_geom_def)
  then have "unat (ucast (hint fat) :: u32) = unat (hint fat)" "unat (ucast (tot_ent fat) :: u32) = unat (tot_ent fat)"
    using assms(2) by (simp_all add: unat_ucast_small)
  then show ?thesis using assms(2) by (simp add: cyc_def clus_range_def rotate_drop_take drop_upt take_upt)
qed

lemma cyc_props:
  assumes "fat_geom fat" and "unat (hint fat) < unat (tot_ent fat)"
  shows "length (cyc fat) = unat (tot_ent fat)" "distinct (cyc fat)" "set (cyc fat) = {c. clus_ok fat c}"
proof -
  have t: "unat (tot_ent fat) < 2 ^ 32" using assms(1) by (simp add: fat_geom_def)
  have inj: "inj_on (of_nat :: nat \<Rightarrow> u32) {0..<unat (tot_ent fat)}"
    using t by (intro inj_onI) (auto simp: word_unat_eq_iff unat_of_nat)
  show "length (cyc fat) = unat (tot_ent fat)" "distinct (cyc fat)"
    using inj by (simp_all add: cyc_rotate [OF assms] distinct_map)
  show "set (cyc fat) = {c. clus_ok fat c}"
  proof (intro set_eqI iffI)
    fix c assume "c \<in> {c. clus_ok fat c}"
    then have "unat c \<in> {0..<unat (tot_ent fat)}" "c = of_nat (unat c)" by (simp_all add: clus_ok_def)
    then show "c \<in> set (cyc fat)" unfolding cyc_rotate [OF assms] by (metis image_eqI set_map set_rotate set_upt)
  qed (use t in \<open>auto simp: cyc_rotate [OF assms] clus_ok_def unat_of_nat\<close>)
qed

text \<open>After an allocation the search goes on behind the cluster it found.\<close>

lemma cyc_next:
  assumes g: "fat_geom fat" "unat (hint fat) < unat (tot_ent fat)" and split: "cyc fat = xs @ c # ys"
  defines "fat' \<equiv> fat\<lparr>hint := ucast (c + 1) mod tot_ent fat\<rparr>"
  shows "cyc fat' = ys @ xs @ [c]" "unat (hint fat') < unat (tot_ent fat)"
proof -
  let ?N = "unat (tot_ent fat)" and ?h = "unat (hint fat)" and ?i = "length xs"
  have N: "0 < ?N" "?N \<le> 0x0FFFFFF7" using g by (auto simp: fat_geom_def)
  have i: "?i < ?N" using cyc_props(1) [OF g] split by simp
  have c: "unat c = (?h + ?i) mod ?N"
  proof -
    have "c = cyc fat ! ?i" using split by simp
    also have "\<dots> = of_nat ((?h + ?i) mod ?N)" using i by (simp add: cyc_rotate [OF g] nth_rotate add.commute)
    finally show ?thesis using N mod_less_divisor [OF N(1), of "?h + ?i"] by (simp add: unat_of_nat)
  qed
  have "unat c < ?N" using c N(1) by simp
  then have c1: "unat (c + 1) = unat c + 1" using N(2) by (simp add: unat_word_ariths(1))
  have "unat (ucast (c + 1) :: usize) = unat c + 1" using c1 \<open>unat c < ?N\<close> N(2) by (simp add: unsigned_ucast_eq take_bit_eq_mod)
  then have h': "unat (hint fat') = (?h + Suc ?i) mod ?N"
    using c by (simp add: fat'_def unat_mod mod_Suc_eq)
  then show "unat (hint fat') < ?N" using N(1) by simp
  then have "unat (hint fat') < unat (tot_ent fat')" "fat_geom fat'" using g by (simp_all add: fat'_def)
  moreover have "tot_ent fat' = tot_ent fat" by (simp add: fat'_def)
  ultimately have "cyc fat' = map of_nat (rotate ((?h + Suc ?i) mod ?N) [0..<?N])"
    using cyc_rotate [of fat'] h' by simp
  also have "\<dots> = rotate (Suc ?i) (cyc fat)"
    using rotate_conv_mod [of "?h + Suc ?i" "[0..<?N]"] by (simp add: cyc_rotate [OF g] rotate_map rotate_rotate add.commute)
  also have "\<dots> = ys @ xs @ [c]"
  proof (cases ys)
    case Nil
    then have "length (cyc fat) = Suc ?i" using split by simp
    then have "rotate (Suc ?i) (cyc fat) = cyc fat" by (intro rotate_id) simp
    then show ?thesis using split Nil by (simp only: append_Nil)
  next
    case (Cons y ys')
    then show ?thesis using split by (simp add: rotate_drop_take)
  qed
  finally show "cyc fat' = ys @ xs @ [c]" .
qed

lemma get_next_free_tab:
  assumes "fat_ok dev shared (fat, s)" and "unat (hint fat) < unat (tot_ent fat)"
  obtains s' where "get_next_free_clus dev shared (ucast (hint fat)) (fat, s) =
      Some (find (\<lambda>c. tab dev (fat, s) c = 0) (cyc fat), fat, s')"
    "fat_ok dev shared (fat, s')" "tab dev (fat, s') = tab dev (fat, s)"
proof -
  let ?P = "\<lambda>c. tab dev (fat, s) c = 0"
  let ?xs = "clus_range (ucast (hint fat)) (ucast (tot_ent fat))" and ?ys = "clus_range 0 (ucast (hint fat))"
  have g: "fat_geom fat" using assms(1) by (simp add: fat_ok_def)
  have "\<forall>c \<in> set (?xs @ ?ys). clus_ok fat c" using cyc_props(3) [OF g assms(2)] by (simp add: cyc_def [symmetric])
  then have ok: "\<forall>c \<in> set ?xs. clus_ok fat c" "\<forall>c \<in> set ?ys. clus_ok fat c" by simp_all
  obtain s1 where 1: "first_free dev shared ?xs (fat, s) = Some (find ?P ?xs, fat, s1)"
    "fat_ok dev shared (fat, s1)" "tab dev (fat, s1) = tab dev (fat, s)"
    using first_free_tab [OF assms(1) ok(1)] by blast
  obtain s2 where 2: "first_free dev shared ?ys (fat, s1) = Some (find ?P ?ys, fat, s2)"
    "fat_ok dev shared (fat, s2)" "tab dev (fat, s2) = tab dev (fat, s)"
    using first_free_tab [OF 1(2) ok(2)] 1(3) by metis
  show ?thesis
  proof (cases "find ?P ?xs")
    case None
    then show ?thesis using 1 2 by (intro that [of s2]) (simp_all add: get_next_free_clus_def cyc_def find_app)
  next
    case (Some c)
    then show ?thesis using 1 by (intro that [of s1]) (simp_all add: get_next_free_clus_def cyc_def find_app)
  qed
qed

lemma alloc_one_scan:
  assumes ok: "fat_ok dev shared (fat, s)" and l: "opt_ok fat l" and v: "vacant_clus fat = []"
    and h: "unat (hint fat) < unat (tot_ent fat)"
    and split: "cyc fat = xs @ c # ys" "\<forall>x \<in> set xs. tab dev (fat, s) x \<noteq> 0" "tab dev (fat, s) c = 0"
  obtains s' where "alloc_one dev shared l (fat, s) = Some (Some c, fat\<lparr>hint := ucast (c + 1) mod tot_ent fat\<rparr>, s')"
    "fat_ok dev shared (fat, s')" "tab dev (fat, s') = link l c (tab dev (fat, s))"
proof -
  let ?fat = "fat\<lparr>hint := ucast (c + 1) mod tot_ent fat\<rparr>"
  obtain s1 where 1: "(case l of None \<Rightarrow> Some (fat, s) | Some l \<Rightarrow> map_option snd (get_next_clus_num dev shared l (fat, s))) = Some (fat, s1)"
    "fat_ok dev shared (fat, s1)" "tab dev (fat, s1) = tab dev (fat, s)"
    using peek_last [OF ok l] by blast
  obtain s2 where 2: "get_next_free_clus dev shared (ucast (hint fat)) (fat, s1) =
      Some (find (\<lambda>c. tab dev (fat, s1) c = 0) (cyc fat), fat, s2)"
    "fat_ok dev shared (fat, s2)" "tab dev (fat, s2) = tab dev (fat, s1)"
    using get_next_free_tab [OF 1(2) h] by blast
  have "find (\<lambda>c. tab dev (fat, s) c = 0) xs = None" using split(2) by (simp add: find_None_iff)
  then have f: "find (\<lambda>c. tab dev (fat, s1) c = 0) (cyc fat) = Some c"
    using split(3) by (simp add: 1(3) split(1) find_app)
  have "fat_ok dev shared (?fat, s2)" "opt_ok ?fat l" using 2(2) l by simp_all
  from set_next_link [OF this, of c] obtain s3 where
    "set_next_clus dev shared l c (?fat, s2) = Some (?fat, s3)" "fat_ok dev shared (?fat, s3)"
    "tab dev (?fat, s3) = link l c (tab dev (?fat, s2))" by blast
  moreover have "tot_ent fat \<noteq> 0" using h by auto
  ultimately show ?thesis using 1 2 f v by (intro that [of s3]) (simp_all add: alloc_one_def vec_pop_def)
qed

subsection \<open>Several clusters\<close>

lemma and_eoc:
  assumes "unat (c :: u32) < 2 ^ 28"
  shows "c AND EOC = c"
proof -
  have "EOC = mask 28" by (simp add: EOC_def mask_eq_exp_minus_1)
  then have "c AND EOC = take_bit 28 c" by (simp add: take_bit_eq_mask)
  also have "\<dots> = c" using assms by (simp add: word_unat_eq_iff take_bit_eq_mod unat_mod)
  finally show ?thesis .
qed

lemma alloc_loop_vacant:
  assumes "fat_ok dev shared (fat, s)" and "opt_ok fat l" and "vacant_clus fat = vs @ rev cs" and "\<forall>c \<in> set cs. clus_ok fat c"
  shows "\<exists>s'. alloc_loop dev shared (length cs) l acc (fat, s) = Some (acc @ cs, last_of l cs, fat\<lparr>vacant_clus := vs\<rparr>, s') \<and>
    fat_ok dev shared (fat, s') \<and> tab dev (fat, s') = links l cs (tab dev (fat, s))"
  using assms
proof (induction cs arbitrary: fat s l acc)
  case Nil
  then show ?case by auto
next
  case (Cons c cs)
  have "vacant_clus fat = (vs @ rev cs) @ [c]" using Cons.prems(3) by simp
  then obtain s1 where 1: "alloc_one dev shared l (fat, s) = Some (Some c, fat\<lparr>vacant_clus := vs @ rev cs\<rparr>, s1)"
    "fat_ok dev shared (fat, s1)" "tab dev (fat, s1) = link l c (tab dev (fat, s))"
    by (rule alloc_one_vacant [OF Cons.prems(1,2)])
  let ?fat = "fat\<lparr>vacant_clus := vs @ rev cs\<rparr>"
  obtain s2 where "alloc_loop dev shared (length cs) (Some c) (acc @ [c]) (?fat, s1) =
      Some ((acc @ [c]) @ cs, last_of (Some c) cs, ?fat\<lparr>vacant_clus := vs\<rparr>, s2)"
    "fat_ok dev shared (?fat, s2)" "tab dev (?fat, s2) = links (Some c) cs (tab dev (?fat, s1))"
    using Cons.IH [of ?fat s1 "Some c" "acc @ [c]"] 1(2) Cons.prems(4) by auto
  then show ?case using 1 by (intro exI [of _ s2]) simp
qed

text \<open>
  The search: \<open>B @ A\<close> is the order in which it visits the clusters, and the clusters it still can
  take are the free ones of \<open>B\<close>. The cluster taken last is in \<open>A\<close> and its own entry is still free.
\<close>

lemma alloc_loop_scan:
  assumes "fat_ok dev shared (fat, s)" and "opt_ok fat l" and "vacant_clus fat = []"
    and "unat (hint fat) < unat (tot_ent fat)" and "cyc fat = B @ A" and "tab dev (fat, s) 0 \<noteq> 0"
    and "\<forall>x. l = Some x \<longrightarrow> tab dev (fat, s) x \<noteq> 0 \<or> x \<notin> set B"
    and "cs = take n (filter (\<lambda>c. tab dev (fat, s) c = 0) B)" and "length cs = n"
  shows "\<exists>fat' s'. alloc_loop dev shared n l acc (fat, s) = Some (acc @ cs, last_of l cs, fat', s') \<and>
    (\<exists>h. fat' = fat\<lparr>hint := h\<rparr> \<and> unat h < unat (tot_ent fat)) \<and>
    fat_ok dev shared (fat', s') \<and> tab dev (fat', s') = links l cs (tab dev (fat, s))"
  using assms
proof (induction n arbitrary: fat s l acc A B cs)
  case 0
  then show ?case by (auto intro: exI [of _ "hint fat"])
next
  case (Suc n)
  let ?E = "tab dev (fat, s)"
  obtain c cs' where cs: "cs = c # cs'" "length cs' = n" using Suc.prems(9) by (cases cs) auto
  then obtain fs where F: "filter (\<lambda>c. ?E c = 0) B = c # fs" "cs' = take n fs"
    using Suc.prems(8) by (cases "filter (\<lambda>c. ?E c = 0) B") auto
  from F(1) obtain B1 B2 where B: "B = B1 @ c # B2" "\<forall>x \<in> set B1. ?E x \<noteq> 0" "?E c = 0" "fs = filter (\<lambda>c. ?E c = 0) B2"
    by (auto simp: filter_eq_Cons_iff)
  have split: "cyc fat = B1 @ c # (B2 @ A)" using Suc.prems(5) B(1) by simp
  let ?fat = "fat\<lparr>hint := ucast (c + 1) mod tot_ent fat\<rparr>"
  obtain s1 where 1: "alloc_one dev shared l (fat, s) = Some (Some c, ?fat, s1)"
    "fat_ok dev shared (fat, s1)" "tab dev (fat, s1) = link l c ?E"
    using alloc_one_scan [OF Suc.prems(1-4) split B(2,3)] by blast
  have g: "fat_geom fat" using Suc.prems(1) by (simp add: fat_ok_def)
  note nxt = cyc_next [OF g Suc.prems(4) split]
  have dist: "distinct (B1 @ c # (B2 @ A))" using cyc_props(2) [OF g Suc.prems(4)] split by simp
  have cok: "clus_ok fat c" using cyc_props(3) [OF g Suc.prems(4)] split by auto
  have c0: "c AND EOC \<noteq> 0"
  proof -
    have "c AND EOC = c" using geom_bounds(6) [OF g cok] by (intro and_eoc) simp
    then show ?thesis using Suc.prems(6) B(3) by auto
  qed
  have E1: "link l c ?E x = 0 \<longleftrightarrow> ?E x = 0" if "x \<in> set B2" for x
    using c0 Suc.prems(7) that B(1) by (cases l) auto
  have E0: "link l c ?E 0 \<noteq> 0" using c0 Suc.prems(6) by (cases l) auto
  have same: "filter (\<lambda>c. link l c0 ?E c = 0) B2 = filter (\<lambda>c. ?E c = 0) B2" if "c0 = c" for c0
    using E1 that by (intro filter_cong) auto
  have "\<exists>fat' s'. alloc_loop dev shared n (Some c) (acc @ [c]) (?fat, s1) = Some ((acc @ [c]) @ cs', last_of (Some c) cs', fat', s') \<and>
    (\<exists>h. fat' = ?fat\<lparr>hint := h\<rparr> \<and> unat h < unat (tot_ent ?fat)) \<and>
    fat_ok dev shared (fat', s') \<and> tab dev (fat', s') = links (Some c) cs' (tab dev (?fat, s1))"
  proof (rule Suc.IH [where B = B2 and A = "A @ B1 @ [c]"])
    show "cyc ?fat = B2 @ A @ B1 @ [c]" "unat (hint ?fat) < unat (tot_ent ?fat)" using nxt by simp_all
    show "\<forall>x. Some c = Some x \<longrightarrow> tab dev (?fat, s1) x \<noteq> 0 \<or> x \<notin> set B2" using dist by simp
    show "cs' = take n (filter (\<lambda>c. tab dev (?fat, s1) c = 0) B2)" using F(2) B(4) same 1(3) by simp
  qed (use 1 E0 cok cs Suc.prems(3) in simp_all)
  then show ?case using 1 cs by auto
qed

section \<open>Chains of clusters\<close>

fun chain :: "(u32 \<Rightarrow> u32) \<Rightarrow> u32 list \<Rightarrow> bool" where
  "chain E [] \<longleftrightarrow> True"
| "chain E [x] \<longleftrightarrow> ends_chain (E x)"
| "chain E (x # y # zs) \<longleftrightarrow> E x = y \<and> chain E (y # zs)"

text \<open>The clusters of a file: a chain of clusters in use, none of them twice.\<close>

definition file_chain :: "'d blk \<Rightarrow> 'd fat_state \<Rightarrow> u32 list \<Rightarrow> bool" where
  "file_chain dev st xs \<longleftrightarrow> chain (tab dev st) xs \<and> distinct xs \<and>
     (\<forall>x \<in> set xs. clus_ok (fst st) x \<and> tab dev st x \<noteq> 0 \<and> x \<noteq> 0)"

text \<open>
  The invariant of the table: the geometry is sound, cluster 0 is reserved, and the queue of known
  vacant clusters names free clusters, none of them twice.
\<close>

definition fat_inv :: "'d blk \<Rightarrow> (nat \<Rightarrow> bool) \<Rightarrow> 'd fat_state \<Rightarrow> bool" where
  "fat_inv dev shared st \<longleftrightarrow> fat_ok dev shared st \<and> unat (hint (fst st)) < unat (tot_ent (fst st)) \<and>
     tab dev st 0 \<noteq> 0 \<and> distinct (vacant_clus (fst st)) \<and>
     (\<forall>c \<in> set (vacant_clus (fst st)). clus_ok (fst st) c \<and> tab dev st c = 0)"

lemma ends_chain_simps [simp]: "ends_chain 0" "ends_chain EOC"
  by (simp_all add: ends_chain_def FAT_ENTRY_FREE_def FAT_ENTRY_RESERVED_TO_END_def EOC_def)

lemma eoc_and [simp]: "EOC AND EOC = EOC" "EOC \<noteq> 0"
  by (simp_all add: EOC_def)

lemma not_ends_chain:
  assumes "fat_geom fat" "clus_ok fat c" "c \<noteq> 0"
  shows "\<not> ends_chain c"
  using geom_bounds(6) [OF assms(1,2)] assms(3)
  by (auto simp: ends_chain_def FAT_ENTRY_FREE_def FAT_ENTRY_RESERVED_TO_END_def BAD_BLOCK_def word_le_nat_alt)

lemma all_clus_chain:
  assumes "fat_ok dev shared (fat, s)" and "chain (tab dev (fat, s)) (x # xs)"
    and "\<forall>y \<in> set (x # xs). clus_ok fat y \<and> y \<noteq> 0"
  shows "\<exists>s'. all_clus_loop dev shared v x (fat, s) = Some (v @ x # xs, fat, s')"
  using assms
proof (induction xs arbitrary: x v s)
  case Nil
  then have "clus_ok fat x" by simp
  then obtain s1 where "get_next_clus_num dev shared x (fat, s) = Some (tab dev (fat, s) x, fat, s1)"
    by (rule get_next_tab [OF Nil.prems(1)])
  then show ?case using Nil.prems(2) by (subst all_clus_loop.simps) simp
next
  case (Cons y ys)
  then have "clus_ok fat x" by simp
  then obtain s1 where 1: "get_next_clus_num dev shared x (fat, s) = Some (y, fat, s1)"
    "fat_ok dev shared (fat, s1)" "tab dev (fat, s1) = tab dev (fat, s)"
    using get_next_tab [OF Cons.prems(1)] Cons.prems(2) by (metis chain.simps(3))
  have "\<not> ends_chain y" using Cons.prems(1,3) by (intro not_ends_chain) (auto simp: fat_ok_def)
  moreover have "\<exists>s'. all_clus_loop dev shared (v @ [x]) y (fat, s1) = Some ((v @ [x]) @ y # ys, fat, s')"
    using Cons.prems 1 by (intro Cons.IH) simp_all
  ultimately show ?case using 1(1) by (subst all_clus_loop.simps) simp
qed

lemma chain_cong: "chain E xs \<Longrightarrow> \<forall>x \<in> set xs. E' x = E x \<Longrightarrow> chain E' xs"
  by (induction E xs rule: chain.induct) auto

lemma chain_end: "chain E (xs @ [x]) \<Longrightarrow> x \<notin> set xs \<Longrightarrow> ends_chain e \<Longrightarrow> chain (E(x := e)) (xs @ [x])"
proof (induction xs)
  case (Cons y ys)
  then show ?case by (cases ys) auto
qed simp

lemma chain_snoc:
  "chain E (xs @ [x]) \<Longrightarrow> x \<notin> set xs \<Longrightarrow> c \<noteq> x \<Longrightarrow> c \<notin> set xs \<Longrightarrow> ends_chain (E c) \<Longrightarrow> chain (E(x := c)) (xs @ [x, c])"
proof (induction xs)
  case (Cons y ys)
  then show ?case by (cases ys) auto
qed simp

definition last_opt :: "u32 list \<Rightarrow> u32 option" where
  "last_opt xs = (if xs = [] then None else Some (last xs))"

text \<open>Linking free clusters behind a chain and closing it gives the longer chain.\<close>

lemma chain_links:
  assumes "chain E xs" and "distinct (xs @ cs)" and "\<forall>c \<in> set cs. E c = 0 \<and> c AND EOC = c"
  shows "chain (link (last_of (last_opt xs) cs) EOC (links (last_opt xs) cs E)) (xs @ cs)"
  using assms
proof (induction cs arbitrary: xs E)
  case Nil
  then show ?case using chain_end [where e = EOC] by (cases xs rule: rev_cases) (auto simp: last_opt_def fun_upd_def)
next
  case (Cons c cs)
  let ?E = "link (last_opt xs) c E"
  have "chain ?E (xs @ [c])"
    using Cons.prems by (cases xs rule: rev_cases) (auto simp: last_opt_def chain_snoc)
  moreover have "\<forall>c' \<in> set cs. ?E c' = 0 \<and> c' AND EOC = c'"
    using Cons.prems by (cases xs rule: rev_cases) (auto simp: last_opt_def)
  ultimately have "chain (link (last_of (last_opt (xs @ [c])) cs) EOC (links (last_opt (xs @ [c])) cs ?E)) ((xs @ [c]) @ cs)"
    using Cons.prems(2) by (intro Cons.IH) simp_all
  then show ?case by (simp add: last_opt_def)
qed

lemma links_other: "x \<notin> set_option l \<union> set cs \<Longrightarrow> links l cs E x = E x"
proof (induction cs arbitrary: l E)
  case (Cons c cs)
  then have "links (Some c) cs (link l c E) x = link l c E x" by (intro Cons.IH) auto
  then show ?case using Cons.prems by (cases l) auto
qed simp

lemma links_used:
  assumes "\<forall>c \<in> set cs. c AND EOC \<noteq> 0" and "x \<in> set_option l \<union> set cs"
  shows "link (last_of l cs) EOC (links l cs E) x \<noteq> 0"
  using assms
proof (induction cs arbitrary: l E)
  case Nil
  then show ?case by (cases l) auto
next
  case (Cons c cs)
  show ?case
  proof (cases "x \<in> insert c (set cs)")
    case True
    then show ?thesis using Cons.IH [of "Some c" "link l c E"] Cons.prems(1) by simp
  next
    case False
    then have l: "l = Some x" using Cons.prems(2) by (cases l) auto
    have "links (Some c) cs (link l c E) x = link l c E x" using False by (intro links_other) auto
    moreover have "last_of (Some c) cs \<noteq> Some x" using False by (auto simp: last_of_def)
    ultimately show ?thesis using Cons.prems(1) l by (cases "last_of (Some c) cs") auto
  qed
qed

section \<open>Allocating and freeing the clusters of a file\<close>

text \<open>
  The requests the code serves correctly: those the queue covers, and those the search covers while
  the queue is empty.
\<close>

definition can_alloc :: "'d blk \<Rightarrow> 'd fat_state \<Rightarrow> nat \<Rightarrow> bool" where
  "can_alloc dev st n \<longleftrightarrow> n \<le> length (vacant_clus (fst st)) \<or>
     vacant_clus (fst st) = [] \<and> n \<le> card {c. clus_ok (fst st) c \<and> tab dev st c = 0}"

lemma alloc_loop_ok:
  assumes inv: "fat_inv dev shared (fat, s)" and can: "can_alloc dev (fat, s) n"
    and l: "opt_ok fat l" "\<forall>x. l = Some x \<longrightarrow> tab dev (fat, s) x \<noteq> 0"
  shows "\<exists>cs fat' s'. alloc_loop dev shared n l [] (fat, s) = Some (cs, last_of l cs, fat', s') \<and>
    length cs = n \<and> distinct cs \<and> (\<forall>c \<in> set cs. clus_ok fat c \<and> tab dev (fat, s) c = 0) \<and>
    fat_ok dev shared (fat', s') \<and> tab dev (fat', s') = links l cs (tab dev (fat, s)) \<and>
    clus_ok fat' = clus_ok fat \<and> unat (hint fat') < unat (tot_ent fat') \<and>
    distinct (vacant_clus fat') \<and> set (vacant_clus fat') \<subseteq> set (vacant_clus fat) - set cs"
proof (cases "n \<le> length (vacant_clus fat)")
  case True
  let ?v = "vacant_clus fat"
  let ?cs = "take n (rev ?v)" and ?vs = "take (length ?v - n) ?v"
  have v: "?v = ?vs @ rev ?cs" by (simp add: rev_take)
  have d: "distinct ?v" "fat_ok dev shared (fat, s)" using inv by (simp_all add: fat_inv_def)
  have cs: "\<forall>c \<in> set ?cs. clus_ok fat c \<and> tab dev (fat, s) c = 0"
    using inv by (auto simp: fat_inv_def dest!: in_set_takeD)
  have dv: "distinct (?vs @ rev ?cs)" unfolding v [symmetric] by (rule d(1))
  have n: "length ?cs = n" using True by simp
  obtain s' where f: "alloc_loop dev shared (length ?cs) l [] (fat, s) = Some ([] @ ?cs, last_of l ?cs, fat\<lparr>vacant_clus := ?vs\<rparr>, s')"
    "fat_ok dev shared (fat, s')" "tab dev (fat, s') = links l ?cs (tab dev (fat, s))"
    using alloc_loop_vacant [OF d(2) l(1) v, of "[]"] cs by blast
  have run: "alloc_loop dev shared n l [] (fat, s) = Some (?cs, last_of l ?cs, fat\<lparr>vacant_clus := ?vs\<rparr>, s')"
    using f(1) unfolding n append_Nil .
  have vs: "set ?vs \<subseteq> set ?v - set ?cs" "distinct ?vs" "distinct ?cs"
    using dv set_take_subset [of _ ?v] by (auto simp del: set_take_subset)
  have h: "unat (hint fat) < unat (tot_ent fat)" using inv by (simp add: fat_inv_def)
  show ?thesis
    by (intro exI [of _ ?cs] exI [of _ "fat\<lparr>vacant_clus := ?vs\<rparr>"] exI [of _ s'] conjI)
      (fact run n vs(3) cs | (use f(2,3) h vs in simp))+
next
  case False
  then have v: "vacant_clus fat = []" and n: "n \<le> card {c. clus_ok fat c \<and> tab dev (fat, s) c = 0}"
    using can by (auto simp: can_alloc_def)
  let ?F = "filter (\<lambda>c. tab dev (fat, s) c = 0) (cyc fat)"
  have ok: "fat_ok dev shared (fat, s)" "fat_geom fat" "unat (hint fat) < unat (tot_ent fat)" "tab dev (fat, s) 0 \<noteq> 0"
    using inv by (simp_all add: fat_inv_def fat_ok_def)
  note cy = cyc_props [OF ok(2,3)]
  have F: "set ?F = {c. clus_ok fat c \<and> tab dev (fat, s) c = 0}" using cy(3) by auto
  have len: "n \<le> length ?F" using n distinct_card [OF distinct_filter [OF cy(2)]] F by metis
  let ?cs = "take n ?F"
  obtain fat' s' h where f: "alloc_loop dev shared n l [] (fat, s) = Some ([] @ ?cs, last_of l ?cs, fat', s')"
    "fat' = fat\<lparr>hint := h\<rparr>" "unat h < unat (tot_ent fat)" "fat_ok dev shared (fat', s')"
    "tab dev (fat', s') = links l ?cs (tab dev (fat, s))"
    using alloc_loop_scan [OF ok(1) l(1) v ok(3), of "cyc fat" "[]" ?cs n "[]"] ok(4) l(2) len by auto
  have cs: "length ?cs = n" "distinct ?cs" "\<forall>c \<in> set ?cs. clus_ok fat c \<and> tab dev (fat, s) c = 0"
    using len cy(2) F set_take_subset [of n ?F] by (simp_all) blast
  have fat': "clus_ok fat' = clus_ok fat" "unat (hint fat') < unat (tot_ent fat')" "vacant_clus fat' = []"
    using f(2,3) v by simp_all
  show ?thesis
    by (intro exI [of _ ?cs] exI [of _ fat'] exI [of _ s'] conjI) (use f(1) in simp, (fact cs f(4,5) fat')+, simp_all add: fat'(3))
qed

text \<open>The table after an allocation, and what is left of it outside the file.\<close>

lemma grown_table:
  assumes "chain E xs" "distinct xs" "\<forall>x \<in> set xs. E x \<noteq> 0"
    and "distinct cs" "\<forall>c \<in> set cs. E c = 0 \<and> c AND EOC = c \<and> c \<noteq> 0"
    and E': "E' = link (last_of (last_opt xs) cs) EOC (links (last_opt xs) cs E)"
  shows "chain E' (xs @ cs)" "distinct (xs @ cs)" "\<forall>c. c \<notin> set xs \<union> set cs \<longrightarrow> E' c = E c"
    "\<forall>c \<in> set xs \<union> set cs. E' c \<noteq> 0"
proof -
  have l: "set_option (last_opt xs) \<subseteq> set xs" by (simp add: last_opt_def)
  show d: "distinct (xs @ cs)" using assms(2-5) by auto
  show "chain E' (xs @ cs)" unfolding E' using assms(1,5) d by (intro chain_links) auto
  have same: "E' c = E c" if "c \<notin> set_option (last_opt xs) \<union> set cs" for c
  proof -
    have "links (last_opt xs) cs E c = E c" using that by (rule links_other)
    moreover have "last_of (last_opt xs) cs \<noteq> Some c" using that by (auto simp: last_of_def)
    ultimately show ?thesis unfolding E' by (cases "last_of (last_opt xs) cs") auto
  qed
  then show "\<forall>c. c \<notin> set xs \<union> set cs \<longrightarrow> E' c = E c" using l by blast
  show "\<forall>c \<in> set xs \<union> set cs. E' c \<noteq> 0"
  proof
    fix c assume c: "c \<in> set xs \<union> set cs"
    show "E' c \<noteq> 0"
    proof (cases "c \<in> set_option (last_opt xs) \<union> set cs")
      case True
      then show ?thesis unfolding E' using assms(5) by (intro links_used) auto
    next
      case False
      then show ?thesis using same [OF False] c assms(3) by auto
    qed
  qed
qed

lemma get_all_chain:
  assumes "fat_ok dev shared st" and "file_chain dev st xs" and "xs \<noteq> []"
  shows "\<exists>st2. get_all_clus_num dev shared (hd xs) st = Some (xs, st2)"
proof -
  obtain fat s y ys where e: "st = (fat, s)" "xs = y # ys" using assms(3) by (metis list.exhaust surj_pair)
  then show ?thesis using all_clus_chain [of dev shared fat s y ys "[]"] assms(1,2)
    by (auto simp: get_all_clus_num_def file_chain_def)
qed

lemma file_chain_keep:
  assumes "file_chain dev st ys" and "\<forall>y \<in> set ys. tab dev st' y = tab dev st y" and "clus_ok (fst st') = clus_ok (fst st)"
  shows "file_chain dev st' ys"
  using assms chain_cong [of "tab dev st" ys "tab dev st'"] by (auto simp: file_chain_def)

text \<open>
  C13. Allocation extends a file. Let a file have the clusters \<open>xs\<close> (none for a new file) and let \<open>n\<close>
  clusters be requested behind them, as many as the queue of vacant clusters has or, when that is
  empty, as many as there are free entries. Then \<open>alloc\<close> returns \<open>n\<close> clusters that were free; the
  table now chains them behind \<open>xs\<close>, so that \<open>get_all_clus_num\<close> ends and gives \<open>xs\<close> followed by the
  new clusters; no other entry changes, in particular every other file keeps its clusters, and the
  invariant of the table is kept.
\<close>

theorem fat_alloc_extends_chain:
  assumes inv: "fat_inv dev shared st" and xs: "file_chain dev st xs" and can: "can_alloc dev st n"
  shows "\<exists>cs st'. fat_alloc dev shared n (last_opt xs) st = Some (cs, st') \<and> length cs = n \<and>
    (\<forall>c \<in> set cs. tab dev st c = 0) \<and> fat_inv dev shared st' \<and> file_chain dev st' (xs @ cs) \<and>
    (xs @ cs \<noteq> [] \<longrightarrow> (\<exists>st2. get_all_clus_num dev shared (hd (xs @ cs)) st' = Some (xs @ cs, st2))) \<and>
    (\<forall>c. c \<notin> set xs \<union> set cs \<longrightarrow> tab dev st' c = tab dev st c) \<and>
    (\<forall>ys. file_chain dev st ys \<and> set ys \<inter> set xs = {} \<longrightarrow> file_chain dev st' ys)"
proof -
  obtain fat s where st: "st = (fat, s)" by (cases st)
  let ?l = "last_opt xs" and ?E = "tab dev (fat, s)"
  have fx: "chain ?E xs" "distinct xs" "\<forall>x \<in> set xs. clus_ok fat x \<and> ?E x \<noteq> 0 \<and> x \<noteq> 0"
    using xs st by (simp_all add: file_chain_def)
  then have l: "opt_ok fat ?l" "\<forall>x. ?l = Some x \<longrightarrow> ?E x \<noteq> 0" by (auto simp: last_opt_def)
  obtain cs fat1 s1 where 1: "alloc_loop dev shared n ?l [] (fat, s) = Some (cs, last_of ?l cs, fat1, s1)" "length cs = n"
    "distinct cs" "\<forall>c \<in> set cs. clus_ok fat c \<and> ?E c = 0" "fat_ok dev shared (fat1, s1)"
    "tab dev (fat1, s1) = links ?l cs ?E" "clus_ok fat1 = clus_ok fat" "unat (hint fat1) < unat (tot_ent fat1)"
    "distinct (vacant_clus fat1)" "set (vacant_clus fat1) \<subseteq> set (vacant_clus fat) - set cs"
    using alloc_loop_ok [OF inv [unfolded st] can [unfolded st] l] by blast
  have "opt_ok fat1 (last_of ?l cs)" using l(1) 1(4,7) by (auto simp: opt_ok_def last_of_def split: option.splits)
  then obtain s2 where 2: "set_next_clus dev shared (last_of ?l cs) EOC (fat1, s1) = Some (fat1, s2)"
    "fat_ok dev shared (fat1, s2)" "tab dev (fat1, s2) = link (last_of ?l cs) EOC (links ?l cs ?E)"
    using set_next_link [OF 1(5)] 1(6) by metis
  let ?E2 = "tab dev (fat1, s2)"
  have alloc: "fat_alloc dev shared n ?l st = Some (cs, fat1, s2)" using 1(1) 2(1) st by (simp add: fat_alloc_def)
  have g: "fat_geom fat1" using 2(2) by (simp add: fat_ok_def)
  have E0: "?E 0 \<noteq> 0" using inv st by (simp add: fat_inv_def)
  have new: "\<forall>c \<in> set cs. ?E c = 0 \<and> c AND EOC = c \<and> c \<noteq> 0"
  proof
    fix c assume "c \<in> set cs"
    then have "clus_ok fat1 c" "?E c = 0" using 1(4,7) by simp_all
    then show "?E c = 0 \<and> c AND EOC = c \<and> c \<noteq> 0" using geom_bounds(6) [OF g, of c] E0 and_eoc [of c] by auto
  qed
  have fx0: "\<forall>x \<in> set xs. ?E x \<noteq> 0" using fx(3) by simp
  note gt = grown_table [OF fx(1,2) fx0 1(3) new 2(3)]
  have fc: "file_chain dev (fat1, s2) (xs @ cs)" using gt(1,2,4) fx(3) new 1(4,7) by (auto simp: file_chain_def)
  have v0: "\<forall>c \<in> set (vacant_clus fat1). c \<notin> set xs \<union> set cs \<and> clus_ok fat c \<and> ?E c = 0"
    using 1(10) inv fx0 st by (auto simp: fat_inv_def)
  have "?E2 0 \<noteq> 0" using E0 gt(3,4) by (cases "0 \<in> set xs \<union> set cs") auto
  then have inv': "fat_inv dev shared (fat1, s2)" using 2(2) 1(7,8,9) v0 gt(3) by (auto simp: fat_inv_def)
  have keep: "file_chain dev (fat1, s2) ys" if ys: "file_chain dev st ys" "set ys \<inter> set xs = {}" for ys
  proof (rule file_chain_keep [OF ys(1)])
    have "\<forall>y \<in> set ys. y \<notin> set xs \<union> set cs" using ys 1(4) st by (auto simp: file_chain_def)
    then show "\<forall>y \<in> set ys. ?E2 y = tab dev st y" using gt(3) st by blast
  qed (simp add: st 1(7))
  have "\<forall>c. c \<notin> set xs \<union> set cs \<longrightarrow> ?E2 c = tab dev st c" "\<forall>c \<in> set cs. tab dev st c = 0" using gt(3) 1(4) st by blast+
  then show ?thesis using alloc 1(2) inv' fc get_all_chain [OF 2(2) fc] keep by blast
qed

subsection \<open>Freeing\<close>

lemma free_loop_ok:
  assumes "fat_ok dev shared (fat, s)" and "\<forall>c \<in> set cs. clus_ok fat c"
  shows "\<exists>s'. free_loop dev shared cs (fat, s) =
      Some (fat\<lparr>vacant_clus := vacant_clus fat @ take (64 - length (vacant_clus fat)) cs\<rparr>, s') \<and>
    fat_ok dev shared (fat, s') \<and> tab dev (fat, s') = (\<lambda>c. if c \<in> set cs then 0 else tab dev (fat, s) c)"
  using assms
proof (induction cs arbitrary: fat s)
  case Nil
  then show ?case by auto
next
  case (Cons c cs)
  then have "clus_ok fat c" by simp
  then obtain s1 where 1: "set_next_clus dev shared (Some c) FAT_ENTRY_FREE (fat, s) = Some (fat, s1)"
    "fat_ok dev shared (fat, s1)" "tab dev (fat, s1) = (tab dev (fat, s))(c := FAT_ENTRY_FREE AND EOC)"
    by (rule set_next_tab [OF Cons.prems(1)])
  let ?fat = "if length (vacant_clus fat) < 64 then fat\<lparr>vacant_clus := vacant_clus fat @ [c]\<rparr> else fat"
  have f: "fat_ok dev shared (?fat, s1)" "\<forall>c \<in> set cs. clus_ok ?fat c" "tab dev (?fat, s1) = tab dev (fat, s1)"
    using 1(2) Cons.prems(2) by simp_all
  obtain s2 where 2: "free_loop dev shared cs (?fat, s1) =
      Some (?fat\<lparr>vacant_clus := vacant_clus ?fat @ take (64 - length (vacant_clus ?fat)) cs\<rparr>, s2)"
    "fat_ok dev shared (?fat, s2)" "tab dev (?fat, s2) = (\<lambda>c. if c \<in> set cs then 0 else tab dev (?fat, s1) c)"
    using Cons.IH [OF f(1,2)] by blast
  have "?fat\<lparr>vacant_clus := vacant_clus ?fat @ take (64 - length (vacant_clus ?fat)) cs\<rparr> =
      fat\<lparr>vacant_clus := vacant_clus fat @ take (64 - length (vacant_clus fat)) (c # cs)\<rparr>"
    by (simp add: take_Cons' Suc_diff_Suc [symmetric] del: take_Cons)
  moreover have "tab dev (fat, s2) = (\<lambda>x. if x \<in> set (c # cs) then 0 else tab dev (fat, s) x)"
    using 2(3) 1(3) by (auto simp: fun_eq_iff FAT_ENTRY_FREE_def split: if_splits)
  moreover have "fat_ok dev shared (fat, s2)" using 2(2) by (simp split: if_splits)
  moreover have "free_loop dev shared (c # cs) (fat, s) = free_loop dev shared cs (?fat, s1)"
    using 1(1) by (simp add: VACANT_CLUS_CACHE_SIZE_def)
  ultimately show ?case using 2(1) by (intro exI [of _ s2]) simp
qed

lemma chain_prefix: "chain E (xs @ x # cs) \<Longrightarrow> x \<notin> set xs \<Longrightarrow> ends_chain e \<Longrightarrow> chain (E(x := e)) (xs @ [x])"
proof (induction xs)
  case (Cons y ys)
  then show ?case by (cases ys) auto
qed simp

text \<open>
  C20. Freeing cuts a file. Let a file have the clusters \<open>xs\<close> followed by \<open>cs\<close>. \<open>free\<close> of \<open>cs\<close> makes
  their entries free, \<open>get_all_clus_num\<close> then gives \<open>xs\<close>, no other entry changes and every other
  file keeps its clusters; the freed clusters are queued for reuse as long as the queue has fewer
  than 64, and the invariant of the table is kept.
\<close>

theorem fat_free_truncates_chain:
  assumes inv: "fat_inv dev shared st" and xs: "file_chain dev st (xs @ cs)"
  shows "\<exists>st'. fat_free dev shared cs (last_opt xs) st = Some st' \<and> fat_inv dev shared st' \<and> file_chain dev st' xs \<and>
    (\<forall>c \<in> set cs. tab dev st' c = 0) \<and>
    vacant_clus (fst st') = vacant_clus (fst st) @ take (64 - length (vacant_clus (fst st))) cs \<and>
    (xs \<noteq> [] \<longrightarrow> (\<exists>st2. get_all_clus_num dev shared (hd xs) st' = Some (xs, st2))) \<and>
    (\<forall>c. c \<notin> set xs \<union> set cs \<longrightarrow> tab dev st' c = tab dev st c) \<and>
    (\<forall>ys. file_chain dev st ys \<and> set ys \<inter> set (xs @ cs) = {} \<longrightarrow> file_chain dev st' ys)"
proof -
  obtain fat s where st: "st = (fat, s)" by (cases st)
  let ?E = "tab dev (fat, s)" and ?v = "vacant_clus fat"
  let ?fat = "fat\<lparr>vacant_clus := ?v @ take (64 - length ?v) cs\<rparr>"
  have fx: "chain ?E (xs @ cs)" "distinct (xs @ cs)" "\<forall>x \<in> set (xs @ cs). clus_ok fat x \<and> ?E x \<noteq> 0 \<and> x \<noteq> 0"
    using xs st by (simp_all add: file_chain_def)
  have ok: "fat_ok dev shared (fat, s)" "\<forall>c \<in> set cs. clus_ok fat c" using inv fx(3) st by (simp_all add: fat_inv_def)
  obtain s1 where 1: "free_loop dev shared cs (fat, s) = Some (?fat, s1)" "fat_ok dev shared (fat, s1)"
    "tab dev (fat, s1) = (\<lambda>c. if c \<in> set cs then 0 else ?E c)"
    using free_loop_ok [OF ok] by blast
  have "opt_ok ?fat (last_opt xs)" "fat_ok dev shared (?fat, s1)" using fx(3) 1(2) by (auto simp: last_opt_def)
  then obtain s2 where 2: "set_next_clus dev shared (last_opt xs) EOC (?fat, s1) = Some (?fat, s2)"
    "fat_ok dev shared (?fat, s2)" "tab dev (?fat, s2) = link (last_opt xs) EOC (tab dev (?fat, s1))"
    using set_next_link [of dev shared ?fat s1 "last_opt xs" EOC] by blast
  let ?E2 = "tab dev (?fat, s2)"
  have free: "fat_free dev shared cs (last_opt xs) st = Some (?fat, s2)" using 1(1) 2(1) st by (simp add: fat_free_def)
  have E2: "?E2 = link (last_opt xs) EOC (\<lambda>c. if c \<in> set cs then 0 else ?E c)" using 2(3) 1(3) by simp
  have zero: "\<forall>c \<in> set cs. ?E2 c = 0" unfolding E2 using fx(2) by (cases xs rule: rev_cases) (auto simp: last_opt_def)
  have other: "\<forall>c. c \<notin> set xs \<union> set cs \<longrightarrow> ?E2 c = ?E c" unfolding E2 by (auto simp: last_opt_def)
  have used: "\<forall>x \<in> set xs. ?E2 x \<noteq> 0" unfolding E2 using fx(2,3) by (auto simp: last_opt_def)
  have "chain ?E2 xs"
  proof (cases xs rule: rev_cases)
    case (snoc ys y)
    then have "chain (?E(y := EOC)) (ys @ [y])" using fx(1,2) by (intro chain_prefix) auto
    then show ?thesis using snoc fx(2) unfolding E2 snoc by (rule_tac chain_cong) (auto simp: last_opt_def)
  qed simp
  then have fc: "file_chain dev (?fat, s2) xs" using fx(2,3) used by (simp add: file_chain_def)
  have iv: "distinct ?v" "\<forall>c \<in> set ?v. clus_ok fat c \<and> ?E c = 0" "?E 0 \<noteq> 0" "unat (hint fat) < unat (tot_ent fat)"
    using inv st by (simp_all add: fat_inv_def)
  have d: "set ?v \<inter> (set xs \<union> set cs) = {}" using iv(2) fx(3) by auto
  have "fat_inv dev shared (?fat, s2)" unfolding fat_inv_def
  proof (intro conjI)
    show "distinct (vacant_clus (fst (?fat, s2)))" using iv(1) d fx(2) by (auto dest: in_set_takeD)
    show "\<forall>c \<in> set (vacant_clus (fst (?fat, s2))). clus_ok (fst (?fat, s2)) c \<and> ?E2 c = 0"
    proof
      fix c assume "c \<in> set (vacant_clus (fst (?fat, s2)))"
      then have "c \<in> set ?v \<or> c \<in> set cs" by (auto dest: in_set_takeD)
      then show "clus_ok (fst (?fat, s2)) c \<and> ?E2 c = 0" using iv(2) ok(2) zero other d by auto
    qed
    show "?E2 0 \<noteq> 0" using iv(3) fx(3) other by (metis UnE set_append)
  qed (use 2(2) iv(4) in simp_all)
  moreover have "file_chain dev (?fat, s2) ys" if ys: "file_chain dev st ys" "set ys \<inter> set (xs @ cs) = {}" for ys
    using ys other st by (intro file_chain_keep [OF ys(1)]) auto
  ultimately show ?thesis using free fc zero other get_all_chain [OF 2(2) fc] st by (intro exI [of _ "(?fat, s2)"]) auto
qed

section \<open>Requests that go wrong\<close>

text \<open>
  A cluster that \<open>alloc\<close> has just taken stays marked free until the next one is linked behind it.
  When the queue runs empty in the middle of a request, the search may therefore find the cluster
  taken last from the queue once more: the file gets the same cluster twice.
\<close>

lemma fat_alloc_same_cluster_twice:
  assumes "fat_ok dev shared (fat, s)" and "vacant_clus fat = [c]" and "unat (hint fat) < unat (tot_ent fat)"
    and "cyc fat = xs @ c # ys" and "\<forall>x \<in> set xs. tab dev (fat, s) x \<noteq> 0" and "tab dev (fat, s) c = 0"
  shows "\<exists>st'. fat_alloc dev shared 2 None (fat, s) = Some ([c, c], st')"
proof -
  have g: "fat_geom fat" using assms(1) by (simp add: fat_ok_def)
  have cok: "clus_ok fat c" using cyc_props(3) [OF g assms(3)] assms(4) by auto
  let ?f1 = "fat\<lparr>vacant_clus := []\<rparr>"
  obtain s1 where 1: "alloc_one dev shared None (fat, s) = Some (Some c, ?f1, s1)"
    "fat_ok dev shared (fat, s1)" "tab dev (fat, s1) = link None c (tab dev (fat, s))"
    using alloc_one_vacant [OF assms(1) opt_ok_simps(1), of "[]" c] assms(2) by auto
  have f1: "fat_ok dev shared (?f1, s1)" "opt_ok ?f1 (Some c)" "vacant_clus ?f1 = []" "unat (hint ?f1) < unat (tot_ent ?f1)"
    "cyc ?f1 = xs @ c # ys" "\<forall>x \<in> set xs. tab dev (?f1, s1) x \<noteq> 0" "tab dev (?f1, s1) c = 0"
    using 1(2,3) assms(3-6) cok by (simp_all add: cyc_def)
  let ?f2 = "?f1\<lparr>hint := ucast (c + 1) mod tot_ent ?f1\<rparr>"
  obtain s2 where 2: "alloc_one dev shared (Some c) (?f1, s1) = Some (Some c, ?f2, s2)" "fat_ok dev shared (?f1, s2)"
    by (rule alloc_one_scan [OF f1])
  have "fat_ok dev shared (?f2, s2)" "clus_ok ?f2 c" using 2(2) cok by simp_all
  then obtain s3 where "set_next_clus dev shared (Some c) EOC (?f2, s2) = Some (?f2, s3)" by (rule set_next_tab)
  then show ?thesis using 1(1) 2(1) by (simp add: fat_alloc_def numeral_2_eq_2)
qed

lemma alloc_one_full:
  assumes "fat_ok dev shared (fat, s)" and "opt_ok fat l" and "vacant_clus fat = []"
    and "unat (hint fat) < unat (tot_ent fat)" and "\<forall>x. clus_ok fat x \<longrightarrow> tab dev (fat, s) x \<noteq> 0"
  obtains s' where "alloc_one dev shared l (fat, s) = Some (None, fat, s')" "fat_ok dev shared (fat, s')"
    "tab dev (fat, s') = tab dev (fat, s)"
proof -
  have g: "fat_geom fat" using assms(1) by (simp add: fat_ok_def)
  obtain s1 where 1: "(case l of None \<Rightarrow> Some (fat, s) | Some l \<Rightarrow> map_option snd (get_next_clus_num dev shared l (fat, s))) = Some (fat, s1)"
    "fat_ok dev shared (fat, s1)" "tab dev (fat, s1) = tab dev (fat, s)"
    using peek_last [OF assms(1,2)] by blast
  obtain s2 where 2: "get_next_free_clus dev shared (ucast (hint fat)) (fat, s1) =
      Some (find (\<lambda>c. tab dev (fat, s1) c = 0) (cyc fat), fat, s2)"
    "fat_ok dev shared (fat, s2)" "tab dev (fat, s2) = tab dev (fat, s1)"
    using get_next_free_tab [OF 1(2) assms(4)] by blast
  have "find (\<lambda>c. tab dev (fat, s1) c = 0) (cyc fat) = None"
    using assms(5) cyc_props(3) [OF g assms(4)] 1(3) by (auto simp: find_None_iff)
  then show ?thesis using 1 2 assms(3) by (intro that [of s2]) (simp_all add: alloc_one_def vec_pop_def)
qed

lemma all_clus_cycle:
  assumes "all_clus_loop dev shared v x st = Some r"
  shows "x = c \<and> fat_ok dev shared st \<and> clus_ok (fst st) c \<and> tab dev st c = c \<and> c \<noteq> 0 \<longrightarrow> False"
  using assms
proof (rule all_clus_loop.raw_induct [rotated])
  fix loop :: "'a blk \<Rightarrow> (nat \<Rightarrow> bool) \<Rightarrow> u32 list \<Rightarrow> u32 \<Rightarrow> 'a fat_state \<Rightarrow> (u32 list \<times> 'a fat_state) option"
    and dev shared v x st r
  assume IH: "\<And>dev shared v x st r. loop dev shared v x st = Some r \<Longrightarrow>
      x = c \<and> fat_ok dev shared st \<and> clus_ok (fst st) c \<and> tab dev st c = c \<and> c \<noteq> 0 \<longrightarrow> False"
    and run: "(case get_next_clus_num dev shared x st of None \<Rightarrow> None
      | Some (next, st) \<Rightarrow> if ends_chain next then Some (v @ [x], st) else loop dev shared (v @ [x]) next st) = Some r"
  show "x = c \<and> fat_ok dev shared st \<and> clus_ok (fst st) c \<and> tab dev st c = c \<and> c \<noteq> 0 \<longrightarrow> False"
  proof
    assume a: "x = c \<and> fat_ok dev shared st \<and> clus_ok (fst st) c \<and> tab dev st c = c \<and> c \<noteq> 0"
    obtain fat s where st: "st = (fat, s)" by (cases st)
    have ok: "fat_ok dev shared (fat, s)" "clus_ok fat c" "tab dev (fat, s) c = c" "c \<noteq> 0" using a st by simp_all
    obtain s1 where s1: "get_next_clus_num dev shared c (fat, s) = Some (tab dev (fat, s) c, fat, s1)"
      "fat_ok dev shared (fat, s1)" "tab dev (fat, s1) = tab dev (fat, s)" by (rule get_next_tab [OF ok(1,2)])
    have "\<not> ends_chain c" using ok by (intro not_ends_chain) (auto simp: fat_ok_def)
    then have "loop dev shared (v @ [c]) c (fat, s1) = Some r" using run a st s1(1) ok(3) by simp
    from IH [OF this] show False using ok s1(2,3) by simp
  qed
qed

text \<open>
  With a single free cluster \<open>c\<close> left, a request for more takes \<open>c\<close>, finds it again, links it to
  itself and gives up without an end mark: the chain of the file is a cycle on which
  \<open>get_all_clus_num\<close> never returns.
\<close>

lemma fat_alloc_full_disk_cycle:
  assumes "fat_ok dev shared (fat, s)" and "vacant_clus fat = []" and h: "unat (hint fat) < unat (tot_ent fat)"
    and "clus_ok fat c" "c \<noteq> 0" and free: "\<forall>x. clus_ok fat x \<longrightarrow> (tab dev (fat, s) x = 0 \<longleftrightarrow> x = c)"
  shows "\<exists>st'. fat_alloc dev shared 3 None (fat, s) = Some ([c, c], st') \<and> get_all_clus_num dev shared c st' = None"
proof -
  have g: "fat_geom fat" using assms(1) by (simp add: fat_ok_def)
  note cy = cyc_props [OF g h]
  obtain xs ys where split: "cyc fat = xs @ c # ys" using cy(3) assms(4) by (metis mem_Collect_eq split_list)
  have nf: "\<forall>x \<in> set (xs @ ys). tab dev (fat, s) x \<noteq> 0" using free cy(2,3) split by (metis Un_iff distinct_append
    distinct.simps(2) list.set_intros(2) mem_Collect_eq not_distinct_conv_prefix set_append split_list)
  let ?f1 = "fat\<lparr>hint := ucast (c + 1) mod tot_ent fat\<rparr>"
  have c0: "tab dev (fat, s) c = 0" using free assms(4) by simp
  obtain s1 where 1: "alloc_one dev shared None (fat, s) = Some (Some c, ?f1, s1)"
    "fat_ok dev shared (fat, s1)" "tab dev (fat, s1) = link None c (tab dev (fat, s))"
    using alloc_one_scan [OF assms(1) opt_ok_simps(1) assms(2) h split] nf c0 by auto
  note nx = cyc_next [OF g h split]
  have f1: "fat_ok dev shared (?f1, s1)" "opt_ok ?f1 (Some c)" "vacant_clus ?f1 = []" "unat (hint ?f1) < unat (tot_ent ?f1)"
    "cyc ?f1 = (ys @ xs) @ c # []" "\<forall>x \<in> set (ys @ xs). tab dev (?f1, s1) x \<noteq> 0" "tab dev (?f1, s1) c = 0"
    using 1(2,3) nx nf c0 assms(2,4) by auto
  obtain s2 where 2: "alloc_one dev shared (Some c) (?f1, s1) = Some (Some c, ?f1\<lparr>hint := ucast (c + 1) mod tot_ent ?f1\<rparr>, s2)"
    "fat_ok dev shared (?f1, s2)" "tab dev (?f1, s2) = link (Some c) c (tab dev (?f1, s1))"
    by (rule alloc_one_scan [OF f1])
  have cc: "c AND EOC = c" using geom_bounds(6) [OF g assms(4)] by (intro and_eoc) simp
  have t2: "tab dev (?f1, s2) = (tab dev (fat, s))(c := c)" using 2(3) 1(3) cc by simp
  then have full: "\<forall>x. clus_ok ?f1 x \<longrightarrow> tab dev (?f1, s2) x \<noteq> 0" using free assms(5) by auto
  obtain s3 where 3: "alloc_one dev shared (Some c) (?f1, s2) = Some (None, ?f1, s3)" "fat_ok dev shared (?f1, s3)"
    "tab dev (?f1, s3) = tab dev (?f1, s2)"
    by (rule alloc_one_full [OF 2(2) f1(2-4) full])
  have "all_clus_loop dev shared [] c (?f1, s3) \<noteq> Some r" for r
    using all_clus_cycle [of dev shared "[]" c "(?f1, s3)" r c] 3(2,3) t2 assms(4,5) by auto
  then have "get_all_clus_num dev shared c (?f1, s3) = None" by (auto simp: get_all_clus_num_def not_Some_eq [symmetric])
  then show ?thesis using 1(1) 2(1) 3(1) by (simp add: fat_alloc_def numeral_3_eq_3 set_next_clus_def)
qed

section \<open>A sample table\<close>

text \<open>Eight entries in block 1, with one file that has the clusters 2 and 3.\<close>

definition sample_fat :: "(nat \<Rightarrow> u8 list) fat_state" where
  "sample_fat = the (do { st \<leftarrow> set_next_clus sample_blk (\<lambda>_. False) (Some 0) EOC (fat_new 1 4096 8, sample_store);
     st \<leftarrow> set_next_clus sample_blk (\<lambda>_. False) (Some 2) 3 st;
     set_next_clus sample_blk (\<lambda>_. False) (Some 3) EOC st })"

lemma sample_sectors: "read_sectors sample_blk k n (\<lambda>_. []) = replicate (n * 512) 0"
  by (induction n arbitrary: k) (simp_all add: sample_blk_def replicate_add)

lemma sample_blank: "store_view sample_blk sample_store b = (if b = - 1 then [] else replicate 4096 0)"
  by (simp add: store_view_def sample_store_def pool_view_def buffer_new_def block_of_def read_block_def blk_consts sample_sectors)

lemma sample_fat_props:
  "fat_inv sample_blk (\<lambda>_. False) sample_fat" "fst sample_fat = fat_new 1 4096 8"
  "tab sample_blk sample_fat = (\<lambda>c. if clus_ok (fat_new 1 4096 8) c then 0 else EOC)(0 := EOC, 2 := 3, 3 := EOC)"
proof -
  let ?fat = "fat_new 1 4096 8" and ?sh = "\<lambda>_ :: nat. False"
  have g: "fat_geom ?fat" by (simp add: fat_geom_def fat_new_def)
  have "store_ok sample_blk ?sh sample_store" using sample_store_inv by (simp add: store_ok_def) (simp add: sample_store_def)
  then have ok: "fat_ok sample_blk ?sh (?fat, sample_store)" using g by (simp add: fat_ok_def)
  have c: "clus_ok ?fat 0" "clus_ok ?fat 2" "clus_ok ?fat 3" by (simp_all add: clus_ok_def fat_new_def)
  have blank: "tab sample_blk (?fat, sample_store) = (\<lambda>c. if clus_ok ?fat c then 0 else EOC)"
  proof
    fix x
    show "tab sample_blk (?fat, sample_store) x = (if clus_ok ?fat x then 0 else EOC)"
    proof (cases "clus_ok ?fat x")
      case True
      have "un32 (replicate 4 0) = 0" by code_simp
      moreover have "4 \<le> 4096 - ent_off ?fat (unat x)" using geom_bounds(5) [OF g True] by simp
      ultimately show ?thesis using True ent_place(4) [OF g True] by (simp add: tab_def ents_def sample_blank min_def)
    qed (simp add: tab_def)
  qed
  obtain s1 where 1: "set_next_clus sample_blk ?sh (Some 0) EOC (?fat, sample_store) = Some (?fat, s1)"
    "fat_ok sample_blk ?sh (?fat, s1)" "tab sample_blk (?fat, s1) = (tab sample_blk (?fat, sample_store))(0 := EOC AND EOC)"
    by (rule set_next_tab [OF ok c(1)])
  obtain s2 where 2: "set_next_clus sample_blk ?sh (Some 2) 3 (?fat, s1) = Some (?fat, s2)"
    "fat_ok sample_blk ?sh (?fat, s2)" "tab sample_blk (?fat, s2) = (tab sample_blk (?fat, s1))(2 := 3 AND EOC)"
    by (rule set_next_tab [OF 1(2) c(2)])
  obtain s3 where 3: "set_next_clus sample_blk ?sh (Some 3) EOC (?fat, s2) = Some (?fat, s3)"
    "fat_ok sample_blk ?sh (?fat, s3)" "tab sample_blk (?fat, s3) = (tab sample_blk (?fat, s2))(3 := EOC AND EOC)"
    by (rule set_next_tab [OF 2(2) c(3)])
  have st: "sample_fat = (?fat, s3)" using 1(1) 2(1) 3(1) by (simp add: sample_fat_def)
  show "fst sample_fat = ?fat" unfolding st by (rule fst_conv)
  have "(3 :: u32) AND EOC = 3" by (simp add: EOC_def)
  then show t: "tab sample_blk sample_fat = (\<lambda>c. if clus_ok ?fat c then 0 else EOC)(0 := EOC, 2 := 3, 3 := EOC)"
    using 3(3) 2(3) 1(3) blank st by simp
  show "fat_inv sample_blk ?sh sample_fat" unfolding fat_inv_def t using 3(2) by (simp add: st fat_new_def)
qed

lemma sample_chain: "file_chain sample_blk sample_fat [2, 3]"
  by (simp add: file_chain_def sample_fat_props fat_new_def clus_ok_def)

lemma fat_alloc_extends_chain_witness:
  "\<exists>cs st' st2. fat_alloc sample_blk (\<lambda>_. False) 2 (Some 3) sample_fat = Some (cs, st') \<and> length cs = 2 \<and>
     get_all_clus_num sample_blk (\<lambda>_. False) 2 st' = Some ([2, 3] @ cs, st2)"
proof -
  have "{4, 5} \<subseteq> {c. clus_ok (fst sample_fat) c \<and> tab sample_blk sample_fat c = 0}"
    by (simp add: sample_fat_props fat_new_def clus_ok_def)
  then have "card {4, 5 :: u32} \<le> card {c. clus_ok (fst sample_fat) c \<and> tab sample_blk sample_fat c = 0}"
    by (intro card_mono) simp_all
  then have "can_alloc sample_blk sample_fat 2" by (simp add: can_alloc_def sample_fat_props(2)) (simp add: fat_new_def)
  from fat_alloc_extends_chain [OF sample_fat_props(1) sample_chain this] show ?thesis
    by (auto simp: last_opt_def)
qed

lemma fat_free_truncates_chain_witness:
  "\<exists>st' st2. fat_free sample_blk (\<lambda>_. False) [3] (Some 2) sample_fat = Some st' \<and> tab sample_blk st' 3 = 0 \<and>
     vacant_clus (fst st') = [3] \<and> get_all_clus_num sample_blk (\<lambda>_. False) 2 st' = Some ([2], st2)"
proof -
  have "file_chain sample_blk sample_fat ([2] @ [3])" using sample_chain by simp
  from fat_free_truncates_chain [OF sample_fat_props(1) this] show ?thesis
    by (auto simp: last_opt_def sample_fat_props(2)) (auto simp: fat_new_def)
qed

end
