(* ===== verification/Fs_Page_Cache.thy ===== *)
theory Fs_Page_Cache
  imports Fs_Block_Cache Mm_Sample
begin

text \<open>
  The page cache of files, the second half of \<open>fs/cache.rs\<close>: \<open>PageCache\<close> and \<open>PageCacheManager\<close>. A
  cached page lives in a physical frame, named by its tracker; the blocks of a page are given by the
  closure \<open>neighbor\<close>. The argument \<open>held\<close> says for which pages somebody holds a handle
  (\<open>Arc::strong_count > 1\<close>); the references to the frame itself are the counters of the world. The
  kernel's address space, whose dirty bits tell whether a page was written, is the argument
  \<open>kernel_space\<close>; it is \<^const>\<open>None\<close> when its lock is taken.
\<close>

section \<open>Definitions\<close>

subsection \<open>A page\<close>

record page_cache =
  pc_priority :: nat
  pc_tracker :: PhysPageNum

definition pc_read :: "nat \<Rightarrow> nat \<Rightarrow> (u8 list \<Rightarrow> 'v) \<Rightarrow> page_cache \<Rightarrow> ('d, 'z) world \<Rightarrow> 'v option" where
  "pc_read offset n f pc w =
     (if offset + n \<le> 4096 then Some (f (take n (drop offset (bytes_array (pc_tracker pc) w)))) else None)"

definition pc_modify ::
  "nat \<Rightarrow> nat \<Rightarrow> (u8 list \<Rightarrow> 'v \<times> u8 list) \<Rightarrow> page_cache \<Rightarrow> ('d, 'z) world \<Rightarrow> ('v \<times> ('d, 'z) world) option" where
  "pc_modify offset n f pc w =
     (if offset + n \<le> 4096 then
        (let (v, bs) = f (take n (drop offset (bytes_array (pc_tracker pc) w))) in
         Some (v, write_bytes (pc_tracker pc) offset (take n bs) w))
      else None)"

definition pc_new :: "('d, 'z) woom \<Rightarrow> ('d, 'z) world \<Rightarrow> (page_cache \<times> ('d, 'z) world) option" where
  "pc_new oom w =
     do { (res, w) \<leftarrow> frame_alloc_uninit oom w;
          ppn \<leftarrow> res;
          Some (\<lparr>pc_priority = 0, pc_tracker = ppn\<rparr>, w) }"

definition get_tracker :: "page_cache \<Rightarrow> ('d, 'z) world \<Rightarrow> PhysPageNum \<times> ('d, 'z) world" where
  "get_tracker pc w = (pc_tracker pc, arc_clone (pc_tracker pc) w)"

text \<open>
  \<open>read_in\<close> and \<open>write_back\<close> walk over the block ids and transfer each run of consecutive ids at once:
  \<open>con_length\<close> blocks from \<open>start_block_id\<close>, at buffer \<open>start_buf_id\<close> of the page. A run that leaves
  the page would access memory behind it.
\<close>

definition read_run ::
  "'d kenv \<Rightarrow> usize \<Rightarrow> nat \<Rightarrow> nat \<Rightarrow> page_cache \<Rightarrow> ('d, 'z) world \<Rightarrow> ('d, 'z) world option" where
  "read_run env start_block_id con_length start_buf_id pc w =
     (if (start_buf_id + con_length) * BUFFER_SIZE \<le> 4096 then
        map_option (\<lambda>bs. write_bytes (pc_tracker pc) (start_buf_id * BUFFER_SIZE) bs w)
          (read_block (env_dev env) (unat start_block_id) (con_length * BUFFER_SIZE) (kdisk w))
      else None)"

fun read_in_loop ::
  "'d kenv \<Rightarrow> usize list \<Rightarrow> usize \<Rightarrow> nat \<Rightarrow> nat \<Rightarrow> page_cache \<Rightarrow> ('d, 'z) world \<Rightarrow> (usize \<times> nat \<times> nat \<times> ('d, 'z) world) option" where
  "read_in_loop env [] start con buf pc w = Some (start, con, buf, w)"
| "read_in_loop env (block_id # ids) start con buf pc w =
     (if con = 0 then read_in_loop env ids block_id 1 buf pc w
      else if block_id \<noteq> start + of_nat con then
        do { w \<leftarrow> read_run env start con buf pc w;
             read_in_loop env ids block_id 1 (buf + con) pc w }
      else read_in_loop env ids start (con + 1) buf pc w)"

definition read_in :: "'d kenv \<Rightarrow> usize list \<Rightarrow> page_cache \<Rightarrow> ('d, 'z) world \<Rightarrow> ('d, 'z) world option" where
  "read_in env block_ids pc w =
     (if block_ids = [] then Some w
      else if PAGE_BUFFERS < length block_ids then None
      else do { (start, con, buf, w) \<leftarrow> read_in_loop env block_ids (- 1) 0 0 pc w;
                w \<leftarrow> read_run env start con buf pc w;
                let filled = length block_ids * BUFFER_SIZE;
                Some (write_bytes (pc_tracker pc) filled (replicate (4096 - filled) 0) w) })"

definition write_run ::
  "'d kenv \<Rightarrow> usize \<Rightarrow> nat \<Rightarrow> nat \<Rightarrow> page_cache \<Rightarrow> ('d, 'z) world \<Rightarrow> ('d, 'z) world option" where
  "write_run env start_block_id con_length start_buf_id pc w =
     (if (start_buf_id + con_length) * BUFFER_SIZE \<le> 4096 then
        map_option (\<lambda>d. w\<lparr>kdisk := d\<rparr>)
          (write_block (env_dev env) (unat start_block_id)
             (take (con_length * BUFFER_SIZE) (drop (start_buf_id * BUFFER_SIZE) (bytes_array (pc_tracker pc) w))) (kdisk w))
      else None)"

fun write_back_loop ::
  "'d kenv \<Rightarrow> usize list \<Rightarrow> usize \<Rightarrow> nat \<Rightarrow> nat \<Rightarrow> page_cache \<Rightarrow> ('d, 'z) world \<Rightarrow> (usize \<times> nat \<times> nat \<times> ('d, 'z) world) option" where
  "write_back_loop env [] start con buf pc w = Some (start, con, buf, w)"
| "write_back_loop env (block_id # ids) start con buf pc w =
     (if con = 0 then write_back_loop env ids block_id 1 buf pc w
      else if block_id \<noteq> start + of_nat con then
        do { w \<leftarrow> write_run env start con buf pc w;
             write_back_loop env ids block_id 1 (buf + con) pc w }
      else write_back_loop env ids start (con + 1) buf pc w)"

definition write_back :: "'d kenv \<Rightarrow> usize list \<Rightarrow> page_cache \<Rightarrow> ('d, 'z) world \<Rightarrow> ('d, 'z) world option" where
  "write_back env block_ids pc w =
     (if block_ids = [] then Some w
      else do { (start, con, buf, w) \<leftarrow> write_back_loop env block_ids (- 1) 0 0 pc w;
                write_run env start con buf pc w })"

definition pc_sync ::
  "'d kenv \<Rightarrow> 'f memory_set option \<Rightarrow> usize list \<Rightarrow> page_cache \<Rightarrow> ('d, 'z) world \<Rightarrow> ('d, 'z) world option" where
  "pc_sync env kernel_space block_ids pc w =
     (case kernel_space of
        Some lock \<Rightarrow>
          do { dirty \<leftarrow> ms_is_dirty (pc_tracker pc) lock w;
               if \<not> dirty then Some w else write_back env block_ids pc w }
      | None \<Rightarrow> write_back env block_ids pc w)"

subsection \<open>The pages of a file\<close>

record page_cache_manager =
  pcm_pool :: "page_cache option list"
  pcm_allocated :: "nat list"

definition pcm_new :: page_cache_manager where
  "pcm_new = \<lparr>pcm_pool = [], pcm_allocated = []\<rparr>"

definition pc_bump :: "page_cache \<Rightarrow> page_cache" where
  "pc_bump pc = (if pc_priority pc < PRIORITY_UPPERBOUND then pc\<lparr>pc_priority := pc_priority pc + 1\<rparr> else pc)"

definition try_get_cache :: "nat \<Rightarrow> page_cache_manager \<Rightarrow> page_cache option \<times> page_cache_manager" where
  "try_get_cache inner_cache_id m =
     (if length (pcm_pool m) \<le> inner_cache_id then (None, m)
      else case pcm_pool m ! inner_cache_id of
          None \<Rightarrow> (None, m)
        | Some pc \<Rightarrow> (Some (pc_bump pc), m\<lparr>pcm_pool := (pcm_pool m)[inner_cache_id := Some (pc_bump pc)]\<rparr>))"

text \<open>
  \<open>get_cache\<close> reserves a frame before it locks the pool, so the out-of-memory handler may drop pages
  of this very file. The manager is therefore a part of the world the handler works on.
\<close>

record 'd pcworld = "'d kworld" +
  fcache :: page_cache_manager

definition get_cache ::
  "'d kenv \<Rightarrow> ('d, 'z pcworld_ext) woom \<Rightarrow> nat \<Rightarrow> usize list \<Rightarrow> ('d, 'z) pcworld_scheme \<Rightarrow>
   (page_cache \<times> ('d, 'z) pcworld_scheme) option" where
  "get_cache env oom inner_cache_id neighbor w =
     do { w \<leftarrow> frame_reserve oom 1 w;
          let m = fcache w;
          let pool = vec_resize (max (Suc inner_cache_id) (length (pcm_pool m))) None (pcm_pool m);
          (pc, allocated, w) \<leftarrow>
            (case pool ! inner_cache_id of
               Some pc \<Rightarrow> Some (pc, pcm_allocated m, w)
             | None \<Rightarrow>
                 do { (pc, w) \<leftarrow> pc_new oom w;
                      w \<leftarrow> read_in env neighbor pc w;
                      Some (pc, pcm_allocated m @ [inner_cache_id], w) });
          Some (pc_bump pc,
                w\<lparr>fcache := m\<lparr>pcm_pool := pool[inner_cache_id := Some (pc_bump pc)], pcm_allocated := allocated\<rparr>\<rparr>) }"

text \<open>One turn of the loop of \<open>oom\<close>: the pool, whether the page stays allocated, and the world.\<close>

definition pcm_oom_one ::
  "'d kenv \<Rightarrow> 'f memory_set option \<Rightarrow> (nat \<Rightarrow> bool) \<Rightarrow> (nat \<Rightarrow> usize list) \<Rightarrow> nat \<Rightarrow> page_cache option list \<Rightarrow> ('d, 'z) world \<Rightarrow>
   (bool \<times> page_cache option list \<times> ('d, 'z) world) option" where
  "pcm_oom_one env ks held neighbor inner_cache_id pool w =
     (if length pool \<le> inner_cache_id then None
      else case pool ! inner_cache_id of
          None \<Rightarrow> None
        | Some pc \<Rightarrow>
            if held inner_cache_id \<or> 1 < arcs w (pc_tracker pc) then Some (True, pool, w)
            else if 0 < pc_priority pc then Some (True, pool[inner_cache_id := Some (pc\<lparr>pc_priority := pc_priority pc - 1\<rparr>)], w)
            else do { w \<leftarrow> pc_sync env ks (neighbor inner_cache_id) pc w;
                      w \<leftarrow> arc_drop (env_debug env) (pc_tracker pc) w;
                      Some (False, pool[inner_cache_id := None], w) })"

fun pcm_oom_loop ::
  "'d kenv \<Rightarrow> 'f memory_set option \<Rightarrow> (nat \<Rightarrow> bool) \<Rightarrow> (nat \<Rightarrow> usize list) \<Rightarrow> nat list \<Rightarrow> nat \<Rightarrow> nat list \<Rightarrow>
   page_cache option list \<Rightarrow> ('d, 'z) world \<Rightarrow> (nat \<times> nat list \<times> page_cache option list \<times> ('d, 'z) world) option" where
  "pcm_oom_loop env ks held neighbor [] dropped retained pool w = Some (dropped, retained, pool, w)"
| "pcm_oom_loop env ks held neighbor (inner_cache_id # ids) dropped retained pool w =
     do { (keep, pool, w) \<leftarrow> pcm_oom_one env ks held neighbor inner_cache_id pool w;
          if keep then pcm_oom_loop env ks held neighbor ids dropped (retained @ [inner_cache_id]) pool w
          else pcm_oom_loop env ks held neighbor ids (dropped + 1) retained pool w }"

definition pcm_oom ::
  "'d kenv \<Rightarrow> 'f memory_set option \<Rightarrow> (nat \<Rightarrow> bool) \<Rightarrow> (nat \<Rightarrow> usize list) \<Rightarrow> page_cache_manager \<Rightarrow> ('d, 'z) world \<Rightarrow>
   (nat \<times> page_cache_manager \<times> ('d, 'z) world) option" where
  "pcm_oom env ks held neighbor m w =
     do { (dropped, retained, pool, w) \<leftarrow> pcm_oom_loop env ks held neighbor (pcm_allocated m) 0 [] (pcm_pool m) w;
          Some (dropped, m\<lparr>pcm_pool := pool, pcm_allocated := retained\<rparr>, w) }"

text \<open>\<open>notify_new_size\<close> pops the pages behind the new size from the back; a held page is a panic.\<close>

fun pop_pages ::
  "'d kenv \<Rightarrow> (nat \<Rightarrow> bool) \<Rightarrow> nat \<Rightarrow> nat \<Rightarrow> page_cache option list \<Rightarrow> ('d, 'z) world \<Rightarrow>
   (page_cache option list \<times> ('d, 'z) world) option" where
  "pop_pages env held 0 new_pages pool w = Some (pool, w)"
| "pop_pages env held (Suc k) new_pages pool w =
     (if length pool \<le> new_pages then Some (pool, w)
      else do { w \<leftarrow> (case last pool of
                     None \<Rightarrow> Some w
                   | Some pc \<Rightarrow> if held (length pool - 1) then None else arc_drop (env_debug env) (pc_tracker pc) w);
                pop_pages env held k new_pages (butlast pool) w })"

definition notify_new_size ::
  "'d kenv \<Rightarrow> (nat \<Rightarrow> bool) \<Rightarrow> usize \<Rightarrow> page_cache_manager \<Rightarrow> ('d, 'z) world \<Rightarrow> (page_cache_manager \<times> ('d, 'z) world) option" where
  "notify_new_size env held new_size m w =
     do { let new_pages = unat ((new_size + PAGE_SIZE - 1) div PAGE_SIZE);
          (pool, w) \<leftarrow> pop_pages env held (length (pcm_pool m)) new_pages (pcm_pool m) w;
          Some (m\<lparr>pcm_pool := pool, pcm_allocated := filter (\<lambda>i. i < new_pages) (pcm_allocated m)\<rparr>, w) }"

section \<open>The pages of a file\<close>

text \<open>
  The contents of a page of the file are those of its frame, if it is cached, and those of its block
  on the device otherwise.
\<close>

definition cached :: "page_cache option list \<Rightarrow> nat \<Rightarrow> page_cache option" where
  "cached pool i = (if i < length pool then pool ! i else None)"

definition file_page :: "'d kenv \<Rightarrow> (nat \<Rightarrow> usize list) \<Rightarrow> page_cache option list \<Rightarrow> ('d, 'z) world \<Rightarrow> nat \<Rightarrow> u8 list" where
  "file_page env neighbor pool w i =
     (case cached pool i of
        Some pc \<Rightarrow> bytes_array (pc_tracker pc) w
      | None \<Rightarrow> block_of (env_dev env) (kdisk w) (hd (neighbor i)))"

text \<open>Every cached page owns a frame of its own and has a block of its own.\<close>

definition pages_ok :: "(nat \<Rightarrow> usize list) \<Rightarrow> page_cache option list \<Rightarrow> ('d, 'z) world \<Rightarrow> bool" where
  "pages_ok neighbor pool w \<longleftrightarrow>
     (\<forall>i pc. cached pool i = Some pc \<longrightarrow> 0 < arcs w (pc_tracker pc) \<and> (\<exists>b. neighbor i = [b])) \<and>
     (\<forall>i j pc pc'. cached pool i = Some pc \<longrightarrow> cached pool j = Some pc' \<longrightarrow> i \<noteq> j \<longrightarrow> pc_tracker pc \<noteq> pc_tracker pc')"

text \<open>The dirty bit is reliable: a page the kernel's table calls clean holds what the device holds.\<close>

definition clean_ok ::
  "'d kenv \<Rightarrow> 'f memory_set option \<Rightarrow> (nat \<Rightarrow> usize list) \<Rightarrow> page_cache option list \<Rightarrow> ('d, 'z) world \<Rightarrow> bool" where
  "clean_ok env ks neighbor pool w \<longleftrightarrow>
     (\<forall>k i pc. ks = Some k \<longrightarrow> cached pool i = Some pc \<longrightarrow>
        (\<exists>dirty. ms_is_dirty (pc_tracker pc) k w = Some dirty \<and>
           (dirty \<or> bytes_array (pc_tracker pc) w = block_of (env_dev env) (kdisk w) (hd (neighbor i)))))"

definition blocks_distinct :: "(nat \<Rightarrow> usize list) \<Rightarrow> bool" where
  "blocks_distinct neighbor \<longleftrightarrow> (\<forall>i j b. neighbor i = [b] \<longrightarrow> neighbor j = [b] \<longrightarrow> i = j)"

definition alloc_ok :: "page_cache_manager \<Rightarrow> bool" where
  "alloc_ok m \<longleftrightarrow> distinct (pcm_allocated m) \<and> (\<forall>i. i \<in> set (pcm_allocated m) \<longleftrightarrow> cached (pcm_pool m) i \<noteq> None)"

lemma pages_okD:
  assumes "pages_ok neighbor pool w" and "cached pool i = Some pc"
  shows "0 < arcs w (pc_tracker pc)" "\<exists>b. neighbor i = [b]"
  using assms unfolding pages_ok_def by blast+

lemma clean_okD:
  assumes "clean_ok env (Some k) neighbor pool w" and "cached pool i = Some pc"
  shows "\<exists>dirty. ms_is_dirty (pc_tracker pc) k w = Some dirty \<and>
    (dirty \<or> bytes_array (pc_tracker pc) w = block_of (env_dev env) (kdisk w) (hd (neighbor i)))"
  using assms unfolding clean_ok_def by blast

lemmas page_size_defs = BUFFER_SIZE_def PAGE_BUFFERS_def BLOCK_SZ_def

text \<open>With the block size of this platform a page is a single block.\<close>

lemma page_is_one_block: "PAGE_BUFFERS = 1"
  by (simp add: page_size_defs)

lemma bytes_write_bytes:
  assumes "length bs = 4096"
  shows "bytes_array q (write_bytes p 0 bs w) = (if q = p then bs else bytes_array q w)"
  using assms by (auto simp: bytes_array_def page_bytes_def write_bytes_def page_write_def intro!: nth_equalityI)

lemma write_nothing [simp]: "write_bytes p off [] w = w"
proof -
  have "page_write off [] pg = pg" for pg by (rule ext) (auto simp: page_write_def)
  then show ?thesis by (simp add: write_bytes_def)
qed

lemma cached_update: "i < length pool \<Longrightarrow> cached (pool[i := x]) j = (if j = i then x else cached pool j)"
  by (auto simp: cached_def)

lemma read_in_one: "read_in env [b] pc w = Some (write_bytes (pc_tracker pc) 0 (block_of (env_dev env) (kdisk w) b) w)"
  using read_block_of [of "env_dev env" b "kdisk w"] by (simp add: read_in_def read_run_def page_size_defs)

lemma write_back_one:
  assumes "blk_ok (env_dev env)"
  shows "\<exists>d. write_back env [b] pc w = Some (w\<lparr>kdisk := d\<rparr>) \<and>
    block_of (env_dev env) d = (block_of (env_dev env) (kdisk w))(b := bytes_array (pc_tracker pc) w)"
  using write_block_of [OF assms, of "bytes_array (pc_tracker pc) w" b "kdisk w"]
  by (auto simp: write_back_def write_run_def page_size_defs)

text \<open>Whether or not the dirty bit says so, after \<open>sync\<close> the block on the device is the page.\<close>

lemma pc_sync_one:
  assumes "blk_ok (env_dev env)" and "neighbor i = [b]" and "cached pool i = Some pc" and "clean_ok env ks neighbor pool w"
  shows "\<exists>d. pc_sync env ks [b] pc w = Some (w\<lparr>kdisk := d\<rparr>) \<and>
    block_of (env_dev env) d = (block_of (env_dev env) (kdisk w))(b := bytes_array (pc_tracker pc) w)"
proof (cases ks)
  case None
  then show ?thesis using write_back_one [OF assms(1), of b pc w] by (simp add: pc_sync_def)
next
  case (Some k)
  then obtain dirty where d: "ms_is_dirty (pc_tracker pc) k w = Some dirty"
    "dirty \<or> bytes_array (pc_tracker pc) w = block_of (env_dev env) (kdisk w) b"
    using assms(2-4) by (fastforce simp: clean_ok_def)
  show ?thesis
  proof (cases dirty)
    case True
    then show ?thesis using write_back_one [OF assms(1), of b pc w] d(1) Some by (simp add: pc_sync_def)
  next
    case False
    then show ?thesis using d Some by (intro exI [of _ "kdisk w"]) (auto simp: pc_sync_def)
  qed
qed

section \<open>Eviction\<close>

lemma ms_is_dirty_pmem: "pmem w' = pmem w \<Longrightarrow> ms_is_dirty p k w' = ms_is_dirty p k w"
  using find_pte_pmem [of w' w] by (simp add: ms_is_dirty_def sv39_is_dirty_def)

lemma bytes_array_pmem: "pmem w' = pmem w \<Longrightarrow> bytes_array p w' = bytes_array p w"
  by (simp add: bytes_array_def)

text \<open>What the turns of the loop keep, and the effect of dropping a page.\<close>

definition oom_inv ::
  "usize \<Rightarrow> 'd kenv \<Rightarrow> 'f memory_set option \<Rightarrow> (nat \<Rightarrow> usize list) \<Rightarrow> page_cache option list \<Rightarrow> ('d, 'z) world \<Rightarrow> bool" where
  "oom_inv lo env ks neighbor pool w \<longleftrightarrow>
     blk_ok (env_dev env) \<and> blocks_distinct neighbor \<and> world_inv lo w \<and> pages_ok neighbor pool w \<and> clean_ok env ks neighbor pool w"

lemma evict_effect:
  fixes w :: "('d, 'z) world"
  assumes inv: "oom_inv lo env ks neighbor pool w" and c: "cached pool i = Some pc" and one: "arcs w (pc_tracker pc) = 1"
    and b: "neighbor i = [b]"
  shows "\<exists>w1 w'. pc_sync env ks (neighbor i) pc w = Some w1 \<and> arc_drop (env_debug env) (pc_tracker pc) w1 = Some w' \<and>
    world_inv lo w' \<and> pmem w' = pmem w \<and> arcs w' = (arcs w)(pc_tracker pc := 0) \<and> km_free w' = km_free w + 1 \<and>
    block_of (env_dev env) (kdisk w') = (block_of (env_dev env) (kdisk w))(b := bytes_array (pc_tracker pc) w)"
proof -
  have I: "blk_ok (env_dev env)" "world_inv lo w" "clean_ok env ks neighbor pool w" using inv by (simp_all add: oom_inv_def)
  obtain d where d: "pc_sync env ks [b] pc w = Some (w\<lparr>kdisk := d\<rparr>)"
    "block_of (env_dev env) d = (block_of (env_dev env) (kdisk w))(b := bytes_array (pc_tracker pc) w)"
    using pc_sync_one [of env neighbor i b pool pc ks w, OF I(1) b c I(3)] by blast
  have w: "world_inv lo (w\<lparr>kdisk := d\<rparr>)" using I(2) by (simp add: world_inv_def km_defs)
  obtain w' where w': "arc_drop (env_debug env) (pc_tracker pc) (w\<lparr>kdisk := d\<rparr>) = Some w'" "world_inv lo w'"
    "pmem w' = pmem w" "kmem.more w' = kmem.more (w\<lparr>kdisk := d\<rparr>)" "arcs w' = (arcs w)(pc_tracker pc := 0)"
    "km_free w' = km_free w + 1"
    using arc_drop_world [OF w, of "pc_tracker pc" "env_debug env"] one by (auto simp: km_defs)
  have "kdisk w' = d" using world_more(5) [OF w'(4)] by simp
  with d w' show ?thesis unfolding b by blast
qed

lemma evict_keeps:
  fixes w w' :: "('d, 'z) world"
  assumes inv: "oom_inv lo env ks neighbor pool w" and c: "cached pool i = Some pc" and b: "neighbor i = [b]"
    and w': "world_inv lo w'" "pmem w' = pmem w" "arcs w' = (arcs w)(pc_tracker pc := 0)"
      "block_of (env_dev env) (kdisk w') = (block_of (env_dev env) (kdisk w))(b := bytes_array (pc_tracker pc) w)"
  shows "oom_inv lo env ks neighbor (pool[i := None]) w'"
    and "neighbor j = [b'] \<Longrightarrow> file_page env neighbor (pool[i := None]) w' j = file_page env neighbor pool w j"
proof -
  have i: "i < length pool" using c by (auto simp: cached_def split: if_splits)
  note cu = cached_update [OF i]
  have P: "pages_ok neighbor pool w" "clean_ok env ks neighbor pool w" "blocks_distinct neighbor"
    using inv by (simp_all add: oom_inv_def)
  have other: "block_of (env_dev env) (kdisk w') (hd (neighbor k)) = block_of (env_dev env) (kdisk w) (hd (neighbor k))"
    if "k \<noteq> i" "neighbor k = [c']" for k c'
    using that b P(3) w'(4) by (auto simp: blocks_distinct_def)
  have 1: "pages_ok neighbor (pool[i := None]) w'"
    using P(1) c by (auto simp: pages_ok_def cu w'(3) split: if_splits)
  have 2: "clean_ok env ks neighbor (pool[i := None]) w'"
    unfolding clean_ok_def
  proof (intro allI impI)
    fix k l pc' assume k: "ks = Some k" and l: "cached (pool[i := None]) l = Some pc'"
    then have l': "l \<noteq> i" "cached pool l = Some pc'" by (auto simp: cu split: if_splits)
    then obtain c' where c': "neighbor l = [c']" using pages_okD(2) [OF P(1)] by blast
    show "\<exists>dirty. ms_is_dirty (pc_tracker pc') k w' = Some dirty \<and>
        (dirty \<or> bytes_array (pc_tracker pc') w' = block_of (env_dev env) (kdisk w') (hd (neighbor l)))"
      unfolding ms_is_dirty_pmem [OF w'(2)] bytes_array_pmem [OF w'(2)] other [OF l'(1) c']
      using clean_okD [OF P(2) [unfolded k] l'(2)] .
  qed
  show "oom_inv lo env ks neighbor (pool[i := None]) w'" using inv 1 2 w'(1) by (simp add: oom_inv_def)
  show "file_page env neighbor (pool[i := None]) w' j = file_page env neighbor pool w j" if "neighbor j = [b']"
    using c b w'(4) other [of j b'] that
    by (cases "j = i") (auto simp: file_page_def cu bytes_array_pmem [OF w'(2)] split: option.splits)
qed

lemma lower_keeps:
  assumes inv: "oom_inv lo env ks neighbor pool w" and c: "cached pool i = Some pc" and t: "pc_tracker pc' = pc_tracker pc"
  shows "oom_inv lo env ks neighbor (pool[i := Some pc']) w"
    and "file_page env neighbor (pool[i := Some pc']) w j = file_page env neighbor pool w j"
proof -
  have i: "i < length pool" using c by (auto simp: cached_def split: if_splits)
  note cu = cached_update [OF i]
  have P: "pages_ok neighbor pool w" "clean_ok env ks neighbor pool w" using inv by (simp_all add: oom_inv_def)
  have "pages_ok neighbor (pool[i := Some pc']) w" "clean_ok env ks neighbor (pool[i := Some pc']) w"
    using P c t by (auto simp: pages_ok_def clean_ok_def cu split: if_splits)
  then show "oom_inv lo env ks neighbor (pool[i := Some pc']) w" using inv by (simp add: oom_inv_def)
  show "file_page env neighbor (pool[i := Some pc']) w j = file_page env neighbor pool w j"
    using c t by (auto simp: file_page_def cu split: option.splits)
qed

lemma pcm_oom_one_ok:
  fixes w :: "('d, 'z) world"
  assumes inv: "oom_inv lo env ks neighbor pool w" and c: "cached pool i = Some pc"
  shows "\<exists>keep pool' w'. pcm_oom_one env ks held neighbor i pool w = Some (keep, pool', w') \<and>
    oom_inv lo env ks neighbor pool' w' \<and>
    (\<forall>j. cached pool' j \<noteq> None \<longleftrightarrow> cached pool j \<noteq> None \<and> (j \<noteq> i \<or> keep)) \<and>
    (\<forall>j b. neighbor j = [b] \<longrightarrow> file_page env neighbor pool' w' j = file_page env neighbor pool w j) \<and>
    (held i \<longrightarrow> keep) \<and> km_free w' = km_free w + (if keep then 0 else 1)"
proof -
  have i: "i < length pool" "pool ! i = Some pc" using c by (auto simp: cached_def split: if_splits)
  have P: "pages_ok neighbor pool w" using inv by (simp add: oom_inv_def)
  obtain b where b: "neighbor i = [b]" using pages_okD(2) [OF P c] by blast
  consider (busy) "held i \<or> 1 < arcs w (pc_tracker pc)"
    | (young) "\<not> (held i \<or> 1 < arcs w (pc_tracker pc))" "0 < pc_priority pc"
    | (old) "\<not> (held i \<or> 1 < arcs w (pc_tracker pc))" "pc_priority pc = 0" by blast
  then show ?thesis
  proof cases
    case busy
    then show ?thesis using inv i by (auto simp: pcm_oom_one_def)
  next
    case young
    let ?p = "pool[i := Some (pc\<lparr>pc_priority := pc_priority pc - 1\<rparr>)]"
    have r: "pcm_oom_one env ks held neighbor i pool w = Some (True, ?p, w)" using young i by (simp add: pcm_oom_one_def)
    have k: "oom_inv lo env ks neighbor ?p w" "\<forall>j. file_page env neighbor ?p w j = file_page env neighbor pool w j"
      using lower_keeps [OF inv c, of "pc\<lparr>pc_priority := pc_priority pc - 1\<rparr>"] by simp_all
    show ?thesis unfolding r using k c by (auto simp: cached_update [OF i(1)])
  next
    case old
    have one: "arcs w (pc_tracker pc) = 1" using old(1) pages_okD(1) [OF P c] by simp
    obtain w1 w' where e: "pc_sync env ks (neighbor i) pc w = Some w1"
      "arc_drop (env_debug env) (pc_tracker pc) w1 = Some w'" "world_inv lo w'" "pmem w' = pmem w"
      "arcs w' = (arcs w)(pc_tracker pc := 0)" "km_free w' = km_free w + 1"
      "block_of (env_dev env) (kdisk w') = (block_of (env_dev env) (kdisk w))(b := bytes_array (pc_tracker pc) w)"
      using evict_effect [OF inv c one b] by blast
    have r: "pcm_oom_one env ks held neighbor i pool w = Some (False, pool[i := None], w')"
      using old i e(1,2) by (simp add: pcm_oom_one_def)
    note k = evict_keeps [OF inv c b e(3-5,7)]
    show ?thesis unfolding r using k old(1) e(6) by (auto simp: cached_update [OF i(1)])
  qed
qed

lemma pcm_oom_loop_ok:
  fixes w :: "('d, 'z) world"
  assumes "oom_inv lo env ks neighbor pool w" and "distinct ids" and "\<forall>i \<in> set ids. cached pool i \<noteq> None"
  shows "\<exists>gone stay pool' w'. pcm_oom_loop env ks held neighbor ids n retained pool w = Some (n + gone, retained @ stay, pool', w') \<and>
    oom_inv lo env ks neighbor pool' w' \<and> distinct stay \<and> set stay \<subseteq> set ids \<and>
    (\<forall>j. cached pool' j \<noteq> None \<longleftrightarrow> cached pool j \<noteq> None \<and> (j \<in> set ids \<longrightarrow> j \<in> set stay)) \<and>
    (\<forall>j b. neighbor j = [b] \<longrightarrow> file_page env neighbor pool' w' j = file_page env neighbor pool w j) \<and>
    (\<forall>j \<in> set ids. held j \<longrightarrow> j \<in> set stay) \<and> km_free w' = km_free w + gone \<and> gone + length stay = length ids"
  using assms
proof (induction ids arbitrary: n retained pool w)
  case Nil
  then show ?case by simp
next
  case (Cons i ids)
  obtain pc where c: "cached pool i = Some pc" using Cons.prems(3) by auto
  obtain keep p1 w1 where 1: "pcm_oom_one env ks held neighbor i pool w = Some (keep, p1, w1)"
    "oom_inv lo env ks neighbor p1 w1" "\<forall>j. cached p1 j \<noteq> None \<longleftrightarrow> cached pool j \<noteq> None \<and> (j \<noteq> i \<or> keep)"
    "\<forall>j b. neighbor j = [b] \<longrightarrow> file_page env neighbor p1 w1 j = file_page env neighbor pool w j"
    "held i \<longrightarrow> keep" "km_free w1 = km_free w + (if keep then 0 else 1)"
    using pcm_oom_one_ok [OF Cons.prems(1) c, of held] by blast
  have ids: "distinct ids" "i \<notin> set ids" "\<forall>j \<in> set ids. cached p1 j \<noteq> None" using Cons.prems(2,3) 1(3) by auto
  let ?n = "if keep then n else n + 1" and ?k = "if keep then retained @ [i] else retained"
  obtain gone stay p2 w2 where 2:
    "pcm_oom_loop env ks held neighbor ids ?n ?k p1 w1 = Some (?n + gone, ?k @ stay, p2, w2)"
    "oom_inv lo env ks neighbor p2 w2" "distinct stay" "set stay \<subseteq> set ids"
    "\<forall>j. cached p2 j \<noteq> None \<longleftrightarrow> cached p1 j \<noteq> None \<and> (j \<in> set ids \<longrightarrow> j \<in> set stay)"
    "\<forall>j b. neighbor j = [b] \<longrightarrow> file_page env neighbor p2 w2 j = file_page env neighbor p1 w1 j"
    "\<forall>j \<in> set ids. held j \<longrightarrow> j \<in> set stay" "km_free w2 = km_free w1 + gone" "gone + length stay = length ids"
    using Cons.IH [OF 1(2) ids(1,3), of ?n ?k] by blast
  let ?g = "if keep then gone else Suc gone" and ?s = "if keep then i # stay else stay"
  have "pcm_oom_loop env ks held neighbor (i # ids) n retained pool w = Some (n + ?g, retained @ ?s, p2, w2)"
    using 1(1) 2(1) by (cases keep) simp_all
  moreover have "distinct ?s" "set ?s \<subseteq> set (i # ids)" using 2(3,4) ids(2) by auto
  moreover have "\<forall>j. cached p2 j \<noteq> None \<longleftrightarrow> cached pool j \<noteq> None \<and> (j \<in> set (i # ids) \<longrightarrow> j \<in> set ?s)"
    unfolding 2(5) [rule_format] 1(3) [rule_format] using 2(4) ids(2) by auto
  moreover have "\<forall>j b. neighbor j = [b] \<longrightarrow> file_page env neighbor p2 w2 j = file_page env neighbor pool w j"
    using 1(4) 2(6) by simp
  moreover have "\<forall>j \<in> set (i # ids). held j \<longrightarrow> j \<in> set ?s" using 1(5) 2(7) by auto
  moreover have "km_free w2 = km_free w + ?g" "?g + length ?s = length (i # ids)" using 1(6) 2(8,9) by auto
  ultimately show ?case using 2(2) by blast
qed

section \<open>Getting a page\<close>

lemma cached_resize: "cached (vec_resize (max (Suc i) (length pool)) None pool) j = cached pool j"
  by (auto simp: cached_def vec_resize_def nth_append)

lemma length_resize: "i < length (vec_resize (max (Suc i) (length pool)) None pool)"
  by (simp add: vec_resize_def)

lemma bump_tracker [simp]: "pc_tracker (pc_bump pc) = pc_tracker pc"
  by (simp add: pc_bump_def)

lemma world_inv_fcache [simp]: "world_inv lo (w\<lparr>fcache := m\<rparr>) = world_inv lo w"
  by (simp add: world_inv_def km_defs)

lemma world_inv_write_bytes [simp]: "world_inv lo (write_bytes p off bs w) = world_inv lo w"
  by (simp add: world_inv_def km_defs write_bytes_def)

lemma fcache_more: "kmem.more w' = kmem.more w \<Longrightarrow> fcache w' = fcache w"
  by (cases w; cases w') simp

lemma write_bytes_fields [simp]:
  "arcs (write_bytes p off bs w) = arcs w" "kdisk (write_bytes p off bs v) = kdisk v" "fcache (write_bytes p off bs u) = fcache u"
  by (simp_all add: write_bytes_def)

text \<open>A page that is not cached gets a frame nobody uses, filled from its block.\<close>

lemma load_file_page:
  fixes w :: "('d, 'z) pcworld_scheme"
  assumes "blk_ok (env_dev env)" and inv: "world_inv lo w" and "0 < km_free w"
  shows "\<exists>pc w1 w'. pc_new oom w = Some (pc, w1) \<and> read_in env [b] pc w1 = Some w' \<and> world_inv lo w' \<and>
    arcs w (pc_tracker pc) = 0 \<and> arcs w' = (arcs w)(pc_tracker pc := 1) \<and> kdisk w' = kdisk w \<and> fcache w' = fcache w \<and>
    bytes_array (pc_tracker pc) w' = block_of (env_dev env) (kdisk w) b \<and>
    (\<forall>q. q \<noteq> pc_tracker pc \<longrightarrow> bytes_array q w' = bytes_array q w)"
proof -
  obtain p w1 where a: "frame_alloc_uninit oom w = Some (Some p, w1)" "alloc_effect lo p w w1"
    using frame_alloc_uninit_world [OF inv assms(3)] by blast
  have e: "world_inv lo w1" "arcs w p = 0" "arcs w1 = (arcs w)(p := 1)" "kmem.more w1 = kmem.more w"
    "\<forall>q. q \<noteq> p \<longrightarrow> pmem w1 q = pmem w q" using a(2) by (simp_all add: alloc_effect_def)
  let ?pc = "\<lparr>pc_priority = 0, pc_tracker = p\<rparr>" and ?bs = "block_of (env_dev env) (kdisk w1) b"
  have k: "kdisk w1 = kdisk w" "fcache w1 = fcache w" using world_more(5) [OF e(4)] fcache_more [OF e(4)] .
  have n: "pc_new oom w = Some (?pc, w1)" using a(1) by (simp add: pc_new_def)
  have r: "read_in env [b] ?pc w1 = Some (write_bytes p 0 ?bs w1)" using read_in_one [of env b ?pc w1] by simp
  have B: "bytes_array q (write_bytes p 0 ?bs w1) = (if q = p then ?bs else bytes_array q w1)" for q
    by (rule bytes_write_bytes) (rule length_block_of [OF assms(1)])
  show ?thesis
    by (rule exI [of _ ?pc], rule exI [of _ w1], rule exI [of _ "write_bytes p 0 ?bs w1"])
      (use n r B e k in \<open>simp add: bytes_array_def\<close>)
qed

text \<open>
  C16. The page cache gives the file's bytes. After the reservation, which may have dropped pages of
  this file, and with a frame free, \<open>get_cache\<close> returns: the page it hands out is the cached one and
  holds the contents of that page of the file, be they in memory or on the device; every page of the
  file keeps its contents, and the cache stays well-formed, no frame being used for two pages.
\<close>

theorem get_cache_gives_file:
  fixes w w1 :: "('d, 'z) pcworld_scheme"
  assumes res: "frame_reserve oom 1 w = Some w1" and dev: "blk_ok (env_dev env)" and inv: "world_inv lo w1"
    and ok: "pages_ok neighbor (pcm_pool (fcache w1)) w1" and al: "alloc_ok (fcache w1)" and free: "0 < km_free w1"
    and b: "neighbor i = [b]"
  shows "\<exists>pc w'. get_cache env oom i (neighbor i) w = Some (pc, w') \<and> world_inv lo w' \<and>
    pages_ok neighbor (pcm_pool (fcache w')) w' \<and> alloc_ok (fcache w') \<and> cached (pcm_pool (fcache w')) i = Some pc \<and>
    bytes_array (pc_tracker pc) w' = file_page env neighbor (pcm_pool (fcache w1)) w1 i \<and>
    (\<forall>j. file_page env neighbor (pcm_pool (fcache w')) w' j = file_page env neighbor (pcm_pool (fcache w1)) w1 j)"
proof -
  let ?m = "fcache w1"
  let ?pool = "vec_resize (max (Suc i) (length (pcm_pool ?m))) None (pcm_pool ?m)"
  have at: "?pool ! i = cached (pcm_pool ?m) i"
    using cached_resize [of i "pcm_pool ?m" i] length_resize [of i "pcm_pool ?m"] by (simp add: cached_def)
  have cu: "cached (?pool[i := x]) j = (if j = i then x else cached (pcm_pool ?m) j)" for x j
    using cached_update [OF length_resize] cached_resize by metis
  show ?thesis
  proof (cases "cached (pcm_pool ?m) i")
    case (Some pc)
    let ?w = "w1\<lparr>fcache := ?m\<lparr>pcm_pool := ?pool[i := Some (pc_bump pc)], pcm_allocated := pcm_allocated ?m\<rparr>\<rparr>"
    have r: "get_cache env oom i (neighbor i) w = Some (pc_bump pc, ?w)"
      using res at Some by (simp add: get_cache_def Let_def)
    have 1: "pages_ok neighbor (pcm_pool (fcache ?w)) ?w" using ok Some by (auto simp: pages_ok_def cu split: if_splits)
    have 2: "alloc_ok (fcache ?w)" using al Some by (auto simp: alloc_ok_def cu)
    have 3: "\<forall>j. file_page env neighbor (pcm_pool (fcache ?w)) ?w j = file_page env neighbor (pcm_pool ?m) w1 j"
      using Some by (auto simp: file_page_def cu bytes_array_def split: option.splits)
    show ?thesis
      by (rule exI [of _ "pc_bump pc"], rule exI [of _ ?w])
        (use r 1 2 3 inv Some in \<open>simp add: cu file_page_def bytes_array_def\<close>)
  next
    case None
    obtain pc v w2 where l: "pc_new oom w1 = Some (pc, v)" "read_in env [b] pc v = Some w2" "world_inv lo w2"
      "arcs w1 (pc_tracker pc) = 0" "arcs w2 = (arcs w1)(pc_tracker pc := 1)" "kdisk w2 = kdisk w1"
      "bytes_array (pc_tracker pc) w2 = block_of (env_dev env) (kdisk w1) b"
      "\<forall>q. q \<noteq> pc_tracker pc \<longrightarrow> bytes_array q w2 = bytes_array q w1"
      using load_file_page [OF dev inv free, of oom b] by blast
    let ?w = "w2\<lparr>fcache := ?m\<lparr>pcm_pool := ?pool[i := Some (pc_bump pc)], pcm_allocated := pcm_allocated ?m @ [i]\<rparr>\<rparr>"
    have r: "get_cache env oom i (neighbor i) w = Some (pc_bump pc, ?w)"
      using res at None l(1,2) b by (simp add: get_cache_def Let_def)
    have new: "pc_tracker pc' \<noteq> pc_tracker pc" if "cached (pcm_pool ?m) j = Some pc'" for j pc'
      using pages_okD(1) [OF ok that] l(4) by auto
    have 1: "pages_ok neighbor (pcm_pool (fcache ?w)) ?w"
      using ok b new new [symmetric] by (auto simp: pages_ok_def cu l(5) split: if_splits)
    have 2: "alloc_ok (fcache ?w)" using al None by (auto simp: alloc_ok_def cu)
    have 3: "file_page env neighbor (pcm_pool (fcache ?w)) ?w j = file_page env neighbor (pcm_pool ?m) w1 j" for j
      using None b l(6,7,8) new [of j] by (auto simp: file_page_def cu bytes_array_def split: option.splits)
    show ?thesis
      by (rule exI [of _ "pc_bump pc"], rule exI [of _ ?w])
        (use r 1 2 3 l(3,7) None b in \<open>simp add: cu file_page_def bytes_array_def\<close>)
  qed
qed

lemma frame_reserve_free:
  assumes "world_inv lo w" and "0 < km_free w"
  shows "frame_reserve oom 1 w = Some w"
proof -
  have "unat (unallocated_frames w) = km_free w"
    using assms(1) unat_fa_unallocated [of lo "kfa w"] by (simp add: world_inv_def km_defs unallocated_frames_def)
  then have "\<not> unallocated_frames w < 1" using assms(2) by (simp add: word_less_nat_alt)
  then show ?thesis by (simp add: frame_reserve_def)
qed

definition sample_pages :: "(nat \<Rightarrow> u8 list) pcworld" where
  "sample_pages = kworld.extend sample_w (pcworld.fields pcm_new)"

definition sample_neighbor :: "nat \<Rightarrow> usize list" where
  "sample_neighbor i = (if i = 0 then [7] else if i = 1 then [9] else [])"

lemma sample_pages_inv: "world_inv 0x80400 sample_pages" "0 < km_free sample_pages" "fcache sample_pages = pcm_new"
proof -
  have "world_inv 0x80400 sample_w" using sample_sys(1) by (simp add: sys_inv_def)
  then show "world_inv 0x80400 sample_pages" by (simp add: world_inv_def km_defs sample_pages_def kworld.defs pcworld.defs)
  show "0 < km_free sample_pages" using sample_sys(2) by (simp add: km_defs sample_pages_def kworld.defs pcworld.defs)
  show "fcache sample_pages = pcm_new" by (simp add: sample_pages_def kworld.defs pcworld.defs)
qed

lemma cached_nil [simp]: "cached [] i = None"
  by (simp add: cached_def)

lemma get_cache_gives_file_witness:
  "\<exists>pc w'. get_cache sample_env (\<lambda>_ _. None) 1 [9] sample_pages = Some (pc, w') \<and>
     bytes_array (pc_tracker pc) w' = block_of sample_blk (kdisk sample_pages) 9"
proof -
  note S = sample_pages_inv
  have r: "frame_reserve (\<lambda>_ _. None) 1 sample_pages = Some sample_pages" by (rule frame_reserve_free [OF S(1,2)])
  have d: "blk_ok (env_dev sample_env)" "env_dev sample_env = sample_blk" using sample_env_ok by (simp_all add: env_ok_def sample_env_def)
  have o: "pages_ok sample_neighbor (pcm_pool (fcache sample_pages)) sample_pages" "alloc_ok (fcache sample_pages)"
    by (simp_all add: S(3) pcm_new_def pages_ok_def alloc_ok_def)
  have n: "sample_neighbor 1 = [9]" by (simp add: sample_neighbor_def)
  have f: "file_page sample_env sample_neighbor (pcm_pool (fcache sample_pages)) sample_pages 1 = block_of sample_blk (kdisk sample_pages) 9"
    by (simp add: file_page_def S(3) pcm_new_def sample_neighbor_def d(2))
  show ?thesis using get_cache_gives_file [OF r d(1) S(1) o S(2) n] unfolding n f by blast
qed

text \<open>
  C15. Under memory pressure a file loses no page. For any pages held and whether or not the kernel
  space can be locked, \<open>oom\<close> on a well-formed cache whose clean pages agree with the device returns;
  every page of the file, in memory or not, keeps its contents; pages somebody holds stay cached; the
  number it returns is the number of pages dropped and of frames that became free.
\<close>

theorem page_cache_oom_keeps_file:
  fixes w :: "('d, 'z) world"
  assumes inv: "oom_inv lo env ks neighbor (pcm_pool m) w" and al: "alloc_ok m"
  shows "\<exists>n m' w'. pcm_oom env ks held neighbor m w = Some (n, m', w') \<and>
    oom_inv lo env ks neighbor (pcm_pool m') w' \<and> alloc_ok m' \<and>
    (\<forall>j b. neighbor j = [b] \<longrightarrow> file_page env neighbor (pcm_pool m') w' j = file_page env neighbor (pcm_pool m) w j) \<and>
    (\<forall>j. held j \<longrightarrow> cached (pcm_pool m) j \<noteq> None \<longrightarrow> cached (pcm_pool m') j \<noteq> None) \<and>
    km_free w' = km_free w + n \<and> n + length (pcm_allocated m') = length (pcm_allocated m)"
proof -
  have A: "distinct (pcm_allocated m)" "\<forall>i \<in> set (pcm_allocated m). cached (pcm_pool m) i \<noteq> None"
    "\<And>i. i \<in> set (pcm_allocated m) \<longleftrightarrow> cached (pcm_pool m) i \<noteq> None" using al by (auto simp: alloc_ok_def)
  obtain gone stay p w' where l:
    "pcm_oom_loop env ks held neighbor (pcm_allocated m) 0 [] (pcm_pool m) w = Some (0 + gone, [] @ stay, p, w')"
    "oom_inv lo env ks neighbor p w'" "distinct stay" "set stay \<subseteq> set (pcm_allocated m)"
    "\<forall>j. cached p j \<noteq> None \<longleftrightarrow> cached (pcm_pool m) j \<noteq> None \<and> (j \<in> set (pcm_allocated m) \<longrightarrow> j \<in> set stay)"
    "\<forall>j b. neighbor j = [b] \<longrightarrow> file_page env neighbor p w' j = file_page env neighbor (pcm_pool m) w j"
    "\<forall>j \<in> set (pcm_allocated m). held j \<longrightarrow> j \<in> set stay" "km_free w' = km_free w + gone"
    "gone + length stay = length (pcm_allocated m)"
    using pcm_oom_loop_ok [OF inv A(1,2), of held 0 "[]"] by blast
  let ?m = "m\<lparr>pcm_pool := p, pcm_allocated := stay\<rparr>"
  have r: "pcm_oom env ks held neighbor m w = Some (gone, ?m, w')" using l(1) by (simp add: pcm_oom_def)
  have a: "alloc_ok ?m" unfolding alloc_ok_def using l(3,4,5) A(3) by auto
  have h: "\<forall>j. held j \<longrightarrow> cached (pcm_pool m) j \<noteq> None \<longrightarrow> cached p j \<noteq> None" using l(5,7) A(3) by blast
  show ?thesis
    by (rule exI [of _ gone], rule exI [of _ ?m], rule exI [of _ w']) (use r a h l(2,6,8,9) in simp)
qed

text \<open>A file whose page 0 was just loaded and is held by nobody: one pass writes it back and frees its frame.\<close>

definition sample_loaded :: "page_cache \<times> (nat \<Rightarrow> u8 list) pcworld" where
  "sample_loaded = the (pc_new (\<lambda>_ _. None) sample_pages)"

lemma page_cache_oom_keeps_file_witness:
  "\<exists>n m' w'. pcm_oom sample_env (None :: unit memory_set option) (\<lambda>_. False) sample_neighbor
       \<lparr>pcm_pool = [Some (fst sample_loaded)], pcm_allocated = [0]\<rparr> (snd sample_loaded) = Some (n, m', w') \<and>
     file_page sample_env sample_neighbor (pcm_pool m') w' 0 = bytes_array (pc_tracker (fst sample_loaded)) (snd sample_loaded)"
proof -
  let ?m = "\<lparr>pcm_pool = [Some (fst sample_loaded)], pcm_allocated = [0]\<rparr>"
  obtain p w where a: "frame_alloc_uninit (\<lambda>_ _. None) sample_pages = Some (Some p, w)" "alloc_effect 0x80400 p sample_pages w"
    using frame_alloc_uninit_world [OF sample_pages_inv(1,2)] by blast
  have l: "sample_loaded = (\<lparr>pc_priority = 0, pc_tracker = p\<rparr>, w)" using a(1) by (simp add: sample_loaded_def pc_new_def)
  have w: "world_inv 0x80400 w" "arcs w p = 1" using a(2) by (simp_all add: alloc_effect_def)
  have c: "cached [x] i = (if i = 0 then x else None)" for x :: "page_cache option" and i by (simp add: cached_def)
  have i: "oom_inv 0x80400 sample_env (None :: unit memory_set option) sample_neighbor (pcm_pool ?m) (snd sample_loaded)"
    using w sample_env_ok
    by (auto simp: oom_inv_def l c env_ok_def blocks_distinct_def pages_ok_def clean_ok_def sample_neighbor_def split: if_splits)
  have al: "alloc_ok ?m" by (simp add: alloc_ok_def c)
  have n: "sample_neighbor 0 = [7]" by (simp add: sample_neighbor_def)
  have f: "file_page sample_env sample_neighbor (pcm_pool ?m) (snd sample_loaded) 0 = bytes_array (pc_tracker (fst sample_loaded)) (snd sample_loaded)"
    by (simp add: file_page_def c)
  show ?thesis using page_cache_oom_keeps_file [OF i al, of "\<lambda>_. False"] n unfolding f [symmetric] by blast
qed

end
