(* ===== verification/Task_Pid.thy ===== *)
theory Task_Pid
  imports Mm_Memory_Set
begin

text \<open>
  \<open>task/pid.rs\<close> and \<open>hal/arch/riscv/kern_stack.rs\<close>: the allocator of process ids, thread ids and
  kernel stack ids, and the kernel stacks it places below the trampoline.
\<close>

section \<open>Definitions\<close>

subsection \<open>The allocator of ids\<close>

record recycle_allocator =
  ra_current :: usize
  ra_recycled :: "usize list"

definition ra_new :: recycle_allocator where
  "ra_new = \<lparr>ra_current = 1, ra_recycled = []\<rparr>"

definition ra_alloc :: "recycle_allocator \<Rightarrow> usize \<times> recycle_allocator" where
  "ra_alloc ra =
     (case vec_pop (ra_recycled ra) of
        Some (i, recycled) \<Rightarrow> (i, ra\<lparr>ra_recycled := recycled\<rparr>)
      | None \<Rightarrow> (let ra = ra\<lparr>ra_current := ra_current ra + 1\<rparr> in (ra_current ra - 1, ra)))"

definition ra_dealloc :: "usize \<Rightarrow> recycle_allocator \<Rightarrow> recycle_allocator option" where
  "ra_dealloc i ra =
     (if \<not> i < ra_current ra then None
      else if list_ex (\<lambda>j. j = i) (ra_recycled ra) then None
      else Some (ra\<lparr>ra_recycled := ra_recycled ra @ [i]\<rparr>))"

definition ra_get_allocated :: "recycle_allocator \<Rightarrow> usize" where
  "ra_get_allocated ra = ra_current ra - of_nat (length (ra_recycled ra))"

text \<open>The global allocator behind \<open>PID_ALLOCATOR\<close>: \<open>pid_alloc\<close> and the drop of a \<open>PidHandle\<close>.\<close>

definition pid_alloc :: "recycle_allocator \<Rightarrow> usize \<times> recycle_allocator" where
  "pid_alloc ra = ra_alloc ra"

definition pid_handle_drop :: "usize \<Rightarrow> recycle_allocator \<Rightarrow> recycle_allocator option" where
  "pid_handle_drop pid ra = ra_dealloc pid ra"

subsection \<open>Kernel stacks\<close>

definition KERNEL_STACK_SIZE :: usize where "KERNEL_STACK_SIZE = PAGE_SIZE * 0x20"

definition kernel_stack_position :: "usize \<Rightarrow> usize \<times> usize" where
  "kernel_stack_position kstack_id =
     (let top = TRAMPOLINE - kstack_id * (KERNEL_STACK_SIZE + PAGE_SIZE);
          bottom = top - KERNEL_STACK_SIZE in (bottom, top))"

text \<open>The state is the allocator \<open>KSTACK_ALLOCATOR\<close>, the kernel's address space and the world.\<close>

definition kstack_alloc ::
  "'d kenv \<Rightarrow> ('d, 'z) woom \<Rightarrow> recycle_allocator \<Rightarrow> 'f memory_set \<Rightarrow> ('d, 'z) world \<Rightarrow>
   (usize \<times> recycle_allocator \<times> 'f memory_set \<times> ('d, 'z) world) option" where
  "kstack_alloc env oom ra kernel_space w =
     (let (kstack_id, ra) = ra_alloc ra;
          (kstack_bottom, kstack_top) = kernel_stack_position kstack_id in
      do { (kernel_space, w) \<leftarrow> insert_framed_area env oom kstack_bottom kstack_top (perm_R OR perm_W) kernel_space w;
           Some (kstack_id, ra, kernel_space, w) })"

definition kernel_stack_drop ::
  "'d kenv \<Rightarrow> usize \<Rightarrow> recycle_allocator \<Rightarrow> 'f memory_set \<Rightarrow> ('d, 'z) world \<Rightarrow>
   (recycle_allocator \<times> 'f memory_set \<times> ('d, 'z) world) option" where
  "kernel_stack_drop env kstack_id ra kernel_space w =
     do { let kernel_stack_bottom = fst (kernel_stack_position kstack_id);
          vpn \<leftarrow> vpn_from_va kernel_stack_bottom;
          (res, kernel_space, w) \<leftarrow> remove_area_with_start_vpn env vpn kernel_space w;
          (case res of Inl _ \<Rightarrow> None | Inr _ \<Rightarrow> Some ());
          ra \<leftarrow> ra_dealloc kstack_id ra;
          Some (ra, kernel_space, w) }"

definition kernel_stack_get_top :: "usize \<Rightarrow> usize" where
  "kernel_stack_get_top kstack_id = snd (kernel_stack_position kstack_id)"

text \<open>\<open>push_on_top\<close> writes a value of \<open>n\<close> bytes below the top and returns its address.\<close>

definition push_on_top :: "nat \<Rightarrow> usize \<Rightarrow> usize" where
  "push_on_top n kstack_id = kernel_stack_get_top kstack_id - of_nat n"

section \<open>The contract of an id allocator\<close>

text \<open>The ids handed out and not yet given back.\<close>

definition ra_live :: "recycle_allocator \<Rightarrow> usize set" where
  "ra_live ra = {i. i < ra_current ra} - set (ra_recycled ra)"

definition ra_inv :: "recycle_allocator \<Rightarrow> bool" where
  "ra_inv ra \<longleftrightarrow> distinct (ra_recycled ra) \<and> (\<forall>i \<in> set (ra_recycled ra). i < ra_current ra)"

text \<open>An id allocator refines a set of live ids; it may run out (\<open>full\<close>) when no id is left.\<close>

locale id_allocator =
  fixes alloc :: "'s \<Rightarrow> 'i \<times> 's" and dealloc :: "'i \<Rightarrow> 's \<Rightarrow> 's option" and inv :: "'s \<Rightarrow> bool"
    and live :: "'s \<Rightarrow> 'i set" and full :: "'s \<Rightarrow> bool"
  assumes alloc_inv: "inv s \<Longrightarrow> \<not> full s \<Longrightarrow> inv (snd (alloc s))"
    and alloc_fresh: "inv s \<Longrightarrow> \<not> full s \<Longrightarrow> fst (alloc s) \<notin> live s"
    and alloc_live: "inv s \<Longrightarrow> \<not> full s \<Longrightarrow> live (snd (alloc s)) = insert (fst (alloc s)) (live s)"
    and dealloc_inv: "inv s \<Longrightarrow> dealloc i s = Some s' \<Longrightarrow> inv s'"
    and dealloc_live: "inv s \<Longrightarrow> dealloc i s = Some s' \<Longrightarrow> live s' = live s - {i}"
    and dealloc_ok: "inv s \<Longrightarrow> dealloc i s \<noteq> None \<longleftrightarrow> i \<in> live s"
begin

lemma dealloc_twice: "inv s \<Longrightarrow> dealloc i s = Some s' \<Longrightarrow> dealloc i s' = None"
  using dealloc_ok [of s' i] dealloc_inv [of s i s'] dealloc_live [of s i s'] by auto

lemma alloc_dealloc:
  assumes "inv s" "\<not> full s"
  shows "\<exists>s'. dealloc (fst (alloc s)) (snd (alloc s)) = Some s' \<and> inv s' \<and> live s' = live s"
proof -
  note A = alloc_inv [OF assms] alloc_fresh [OF assms] alloc_live [OF assms]
  have "dealloc (fst (alloc s)) (snd (alloc s)) \<noteq> None" using dealloc_ok [OF A(1)] A(3) by simp
  then obtain s' where "dealloc (fst (alloc s)) (snd (alloc s)) = Some s'" by blast
  then show ?thesis using dealloc_inv [OF A(1)] dealloc_live [OF A(1)] A(2,3) by auto
qed

text \<open>A sequence of operations: \<open>None\<close> allocates, \<open>Some i\<close> gives \<open>i\<close> back.\<close>

fun run :: "'i option list \<Rightarrow> 's \<Rightarrow> ('i list \<times> 's) option" where
  "run [] s = Some ([], s)"
| "run (None # ops) s =
     (if full s then None
      else case run ops (snd (alloc s)) of None \<Rightarrow> None | Some (is, s') \<Rightarrow> Some (fst (alloc s) # is, s'))"
| "run (Some i # ops) s = (case dealloc i s of None \<Rightarrow> None | Some s1 \<Rightarrow> run ops s1)"

lemma run_inv: "run ops s = Some (is, s') \<Longrightarrow> inv s \<Longrightarrow> inv s'"
proof (induction ops s arbitrary: "is" s' rule: run.induct)
  case (3 i ops s)
  then show ?case using dealloc_inv [of s i] by (auto split: option.splits)
qed (auto split: if_splits option.splits simp: alloc_inv)

lemma run_allocs_distinct:
  "run (replicate n None) s = Some (is, s') \<Longrightarrow> inv s \<Longrightarrow>
   distinct is \<and> set is \<inter> live s = {} \<and> live s' = live s \<union> set is"
proof (induction n arbitrary: s "is" s')
  case (Suc n)
  from Suc.prems(1) obtain js where r: "\<not> full s" "run (replicate n None) (snd (alloc s)) = Some (js, s')" "is = fst (alloc s) # js"
    by (auto split: if_splits option.splits)
  note A = alloc_inv [OF Suc.prems(2) r(1)] alloc_fresh [OF Suc.prems(2) r(1)] alloc_live [OF Suc.prems(2) r(1)]
  from Suc.IH [OF r(2) A(1)] A(2,3) r(3) show ?case by auto
qed simp

end

section \<open>The allocator keeps the contract\<close>

text \<open>All ids of the width are taken.\<close>

lemma word_less_Suc: "(n :: usize) \<noteq> - 1 \<Longrightarrow> i < n + 1 \<longleftrightarrow> i < n \<or> i = n"
proof -
  assume "n \<noteq> - 1"
  then have "unat (n + 1) = Suc (unat n)"
    by (metis add.inverse_inverse eq_neg_iff_add_eq_0 unatSuc add.commute)
  then show ?thesis by (auto simp: word_less_nat_alt word_unat_eq_iff)
qed

definition ra_full :: "recycle_allocator \<Rightarrow> bool" where
  "ra_full ra \<longleftrightarrow> ra_recycled ra = [] \<and> ra_current ra = - 1"

lemma ra_alloc_cases:
  assumes "ra_inv s" and "\<not> ra_full s"
  shows "ra_inv (snd (ra_alloc s)) \<and> fst (ra_alloc s) \<notin> ra_live s \<and>
    ra_live (snd (ra_alloc s)) = insert (fst (ra_alloc s)) (ra_live s)"
proof (cases "ra_recycled s" rule: rev_cases)
  case Nil
  then have "ra_current s \<noteq> - 1" using assms(2) by (simp add: ra_full_def)
  then have "i < ra_current s + 1 \<longleftrightarrow> i < ra_current s \<or> i = ra_current s" for i by (rule word_less_Suc)
  then show ?thesis using Nil by (auto simp: ra_alloc_def ra_inv_def ra_live_def)
next
  case (snoc ys y)
  then show ?thesis using assms(1) by (auto simp: ra_alloc_def ra_inv_def ra_live_def)
qed

interpretation ids: id_allocator ra_alloc ra_dealloc ra_inv ra_live ra_full
proof
  fix s i s' assume inv: "ra_inv s"
  show "ra_inv (snd (ra_alloc s))" "fst (ra_alloc s) \<notin> ra_live s"
    "ra_live (snd (ra_alloc s)) = insert (fst (ra_alloc s)) (ra_live s)" if "\<not> ra_full s"
    using ra_alloc_cases [OF inv that] by blast+
  show "ra_inv s'" "ra_live s' = ra_live s - {i}" if "ra_dealloc i s = Some s'"
    using inv that by (auto simp: ra_dealloc_def ra_inv_def ra_live_def list_ex_iff split: if_splits)
  show "(ra_dealloc i s \<noteq> None) = (i \<in> ra_live s)"
    by (auto simp: ra_dealloc_def ra_live_def list_ex_iff)
qed

section \<open>Properties\<close>



lemma unat_mult_u64: "unat (a :: usize) * unat b < 2 ^ 64 \<Longrightarrow> unat (a * b) = unat a * unat b"
  using unat_mult_lem [of a b] by simp

lemma kernel_stack_unat:
  assumes "unat i < 2 ^ 40"
  shows "unat (snd (kernel_stack_position i)) = 2 ^ 64 - 4096 - unat i * 135168"
    "unat (fst (kernel_stack_position i)) = 2 ^ 64 - 4096 - unat i * 135168 - 131072"
proof -
  have m: "unat (i * 0x21000) = unat i * 135168" using assms by (subst unat_mult_u64) simp_all
  have t: "snd (kernel_stack_position i) = 0xfffffffffffff000 - i * 0x21000"
    by (simp add: kernel_stack_position_def Let_def TRAMPOLINE_def KERNEL_STACK_SIZE_def PAGE_SIZE_def)
  have b: "fst (kernel_stack_position i) = 0xfffffffffffff000 - i * 0x21000 - 0x20000"
    by (simp add: kernel_stack_position_def Let_def TRAMPOLINE_def KERNEL_STACK_SIZE_def PAGE_SIZE_def)
  have "unat i * 135168 \<le> 2 ^ 64 - 4096 - 131072" using assms by simp
  then have le: "i * 0x21000 \<le> 0xfffffffffffff000" "0x20000 \<le> 0xfffffffffffff000 - i * 0x21000"
    using m by (simp_all add: word_le_nat_alt unat_sub_if' m)
  show "unat (snd (kernel_stack_position i)) = 2 ^ 64 - 4096 - unat i * 135168"
    using unat_sub_no_wrap [OF le(1)] by (simp add: t m)
  then show "unat (fst (kernel_stack_position i)) = 2 ^ 64 - 4096 - unat i * 135168 - 131072"
    using unat_sub_no_wrap [OF le(2)] by (simp add: t b)
qed



end
