(* ===== verification/Fs_Pipe.thy ===== *)
theory Fs_Pipe
  imports Mm_Memory_Set
begin

text \<open>
  \<open>fs/dev/pipe.rs\<close>: the ring buffer of a pipe and the reads and writes of its two ends. Indices
  stay below the size of the buffer, so they are natural numbers. A turn of a read or write
  that would wait for the other end returns \<open>Block\<close>; the caller sleeps and tries again.
\<close>

section \<open>Definitions\<close>

definition ESPIPE :: isize where "ESPIPE = - 29"

definition RING_DEFAULT_BUFFER_SIZE :: nat where "RING_DEFAULT_BUFFER_SIZE = 65536"

datatype ring_buffer_status = FULL | EMPTY | NORMAL

text \<open>An end of the pipe is an address; a \<open>Weak\<close> reference to it can be upgraded while its strong count is positive.\<close>

record pipe_ring_buffer =
  rb_arr :: "u8 list"
  rb_head :: nat
  rb_tail :: nat
  rb_status :: ring_buffer_status
  rb_write_end :: "nat option"
  rb_read_end :: "nat option"

record pipe =
  pp_readable :: bool
  pp_writable :: bool

definition read_end_with_buffer :: pipe where
  "read_end_with_buffer = \<lparr>pp_readable = True, pp_writable = False\<rparr>"

definition write_end_with_buffer :: pipe where
  "write_end_with_buffer = \<lparr>pp_readable = False, pp_writable = True\<rparr>"

definition ring_new :: pipe_ring_buffer where
  "ring_new = \<lparr>rb_arr = replicate RING_DEFAULT_BUFFER_SIZE 0, rb_head = 0, rb_tail = 0, rb_status = EMPTY,
     rb_write_end = None, rb_read_end = None\<rparr>"

definition get_used_size :: "pipe_ring_buffer \<Rightarrow> nat option" where
  "get_used_size ring =
     (if rb_status ring = FULL then Some (length (rb_arr ring))
      else if rb_status ring = EMPTY then Some 0
      else if rb_head ring = rb_tail ring then None
      else if rb_head ring < rb_tail ring then Some (rb_tail ring - rb_head ring)
      else Some (rb_tail ring + length (rb_arr ring) - rb_head ring))"

text \<open>\<open>buffer_read\<close> into a slice of \<open>n\<close> bytes: the bytes copied.\<close>

definition buffer_read :: "nat \<Rightarrow> pipe_ring_buffer \<Rightarrow> u8 list \<times> pipe_ring_buffer" where
  "buffer_read n ring =
     (let begin = rb_head ring;
          end = (if rb_tail ring \<le> rb_head ring then RING_DEFAULT_BUFFER_SIZE else rb_tail ring);
          read_bytes = min n (end - begin)
      in (take read_bytes (drop begin (rb_arr ring)),
          ring\<lparr>rb_head := (if begin + read_bytes = RING_DEFAULT_BUFFER_SIZE then 0 else begin + read_bytes)\<rparr>))"

definition buffer_write :: "u8 list \<Rightarrow> pipe_ring_buffer \<Rightarrow> nat \<times> pipe_ring_buffer" where
  "buffer_write buf ring =
     (let begin = rb_tail ring;
          end = (if rb_tail ring < rb_head ring then rb_head ring else RING_DEFAULT_BUFFER_SIZE);
          write_bytes = min (length buf) (end - begin);
          arr = rb_arr ring
      in (write_bytes,
          ring\<lparr>rb_arr := take begin arr @ take write_bytes buf @ drop (begin + write_bytes) arr,
               rb_tail := (if begin + write_bytes = RING_DEFAULT_BUFFER_SIZE then 0 else begin + write_bytes)\<rparr>))"

definition set_write_end :: "nat \<Rightarrow> pipe_ring_buffer \<Rightarrow> pipe_ring_buffer" where
  "set_write_end write_end ring = ring\<lparr>rb_write_end := Some write_end\<rparr>"

definition set_read_end :: "nat \<Rightarrow> pipe_ring_buffer \<Rightarrow> pipe_ring_buffer" where
  "set_read_end read_end ring = ring\<lparr>rb_read_end := Some read_end\<rparr>"

text \<open>\<open>strong\<close> gives the strong counts of the ends.\<close>

definition all_write_ends_closed :: "(nat \<Rightarrow> nat) \<Rightarrow> pipe_ring_buffer \<Rightarrow> bool option" where
  "all_write_ends_closed strong ring = map_option (\<lambda>p. strong p = 0) (rb_write_end ring)"

definition all_read_ends_closed :: "(nat \<Rightarrow> nat) \<Rightarrow> pipe_ring_buffer \<Rightarrow> bool option" where
  "all_read_ends_closed strong ring = map_option (\<lambda>p. strong p = 0) (rb_read_end ring)"

definition make_pipe :: "nat \<Rightarrow> nat \<Rightarrow> pipe_ring_buffer" where
  "make_pipe read_end write_end = set_read_end read_end (set_write_end write_end ring_new)"

text \<open>
  The inner loop of a read: it ends when the slice is full or when the buffer runs empty; the
  boolean says which.
\<close>

partial_function (option) ring_read_loop ::
  "nat \<Rightarrow> u8 list \<Rightarrow> pipe_ring_buffer \<Rightarrow> (bool \<times> u8 list \<times> pipe_ring_buffer) option" where
  "ring_read_loop len acc ring =
     (if length acc < len then
        (let (bytes, ring) = buffer_read (len - length acc) ring; acc = acc @ bytes in
         if rb_head ring = rb_tail ring then Some (True, acc, ring\<lparr>rb_status := EMPTY\<rparr>)
         else ring_read_loop len acc ring)
      else Some (False, acc, ring))"

partial_function (option) ring_write_loop ::
  "u8 list \<Rightarrow> nat \<Rightarrow> pipe_ring_buffer \<Rightarrow> (bool \<times> nat \<times> pipe_ring_buffer) option" where
  "ring_write_loop buf write_size ring =
     (if write_size < length buf then
        (let (write_bytes, ring) = buffer_write (drop write_size buf) ring; write_size = write_size + write_bytes in
         if rb_head ring = rb_tail ring then Some (True, write_size, ring\<lparr>rb_status := FULL\<rparr>)
         else ring_write_loop buf write_size ring)
      else Some (False, write_size, ring))"

text \<open>One turn of the outer loop. The outermost \<open>None\<close> is a panic or a loop that does not end.\<close>

datatype 'a turn = Done 'a | Block

definition pipe_read ::
  "(nat \<Rightarrow> nat) \<Rightarrow> nat option \<Rightarrow> nat \<Rightarrow> pipe_ring_buffer \<Rightarrow> ((isize + u8 list) turn \<times> pipe_ring_buffer) option" where
  "pipe_read strong offset len ring =
     (if offset \<noteq> None then Some (Done (Inl ESPIPE), ring)
      else if rb_status ring = EMPTY then
        do { closed \<leftarrow> all_write_ends_closed strong ring;
             Some (if closed then Done (Inr []) else Block, ring) }
      else
        do { (empty, acc, ring) \<leftarrow> ring_read_loop len [] ring;
             Some (Done (Inr acc), if empty then ring else ring\<lparr>rb_status := NORMAL\<rparr>) })"

definition pipe_write ::
  "(nat \<Rightarrow> nat) \<Rightarrow> nat option \<Rightarrow> u8 list \<Rightarrow> pipe_ring_buffer \<Rightarrow> ((isize + nat) turn \<times> pipe_ring_buffer) option" where
  "pipe_write strong offset buf ring =
     (if offset \<noteq> None then Some (Done (Inl ESPIPE), ring)
      else if rb_status ring = FULL then
        do { closed \<leftarrow> all_read_ends_closed strong ring;
             Some (if closed then Done (Inr 0) else Block, ring) }
      else
        do { (full, write_size, ring) \<leftarrow> ring_write_loop buf 0 ring;
             Some (Done (Inr write_size), if full then ring else ring\<lparr>rb_status := NORMAL\<rparr>) })"

definition r_ready :: "pipe_ring_buffer \<Rightarrow> bool" where
  "r_ready ring \<longleftrightarrow> rb_status ring \<noteq> EMPTY"

definition w_ready :: "pipe_ring_buffer \<Rightarrow> bool" where
  "w_ready ring \<longleftrightarrow> rb_status ring \<noteq> FULL"

text \<open>The same with the slices of a \<open>UserBuffer\<close>, one after the other.\<close>

fun read_user_loop :: "nat list \<Rightarrow> u8 list \<Rightarrow> pipe_ring_buffer \<Rightarrow> (bool \<times> u8 list \<times> pipe_ring_buffer) option" where
  "read_user_loop [] acc ring = Some (False, acc, ring)"
| "read_user_loop (len # lens) acc ring =
     do { (empty, bytes, ring) \<leftarrow> ring_read_loop len [] ring;
          if empty then Some (True, acc @ bytes, ring) else read_user_loop lens (acc @ bytes) ring }"

fun write_user_loop :: "u8 list list \<Rightarrow> nat \<Rightarrow> pipe_ring_buffer \<Rightarrow> (bool \<times> nat \<times> pipe_ring_buffer) option" where
  "write_user_loop [] write_size ring = Some (False, write_size, ring)"
| "write_user_loop (buf # bufs) write_size ring =
     do { (full, buf_start, ring) \<leftarrow> ring_write_loop buf 0 ring;
          if full then Some (True, write_size + buf_start, ring)
          else write_user_loop bufs (write_size + buf_start) ring }"

definition read_user ::
  "(nat \<Rightarrow> nat) \<Rightarrow> nat option \<Rightarrow> nat list \<Rightarrow> pipe_ring_buffer \<Rightarrow> ((isize + u8 list) turn \<times> pipe_ring_buffer) option" where
  "read_user strong offset lens ring =
     (if offset \<noteq> None then Some (Done (Inl ESPIPE), ring)
      else if rb_status ring = EMPTY then
        do { closed \<leftarrow> all_write_ends_closed strong ring;
             Some (if closed then Done (Inr []) else Block, ring) }
      else
        do { (empty, acc, ring) \<leftarrow> read_user_loop lens [] ring;
             Some (Done (Inr acc), if empty then ring else ring\<lparr>rb_status := NORMAL\<rparr>) })"

definition write_user ::
  "(nat \<Rightarrow> nat) \<Rightarrow> nat option \<Rightarrow> u8 list list \<Rightarrow> pipe_ring_buffer \<Rightarrow> ((isize + nat) turn \<times> pipe_ring_buffer) option" where
  "write_user strong offset bufs ring =
     (if offset \<noteq> None then Some (Done (Inl ESPIPE), ring)
      else if rb_status ring = FULL then
        do { closed \<leftarrow> all_read_ends_closed strong ring;
             Some (if closed then Done (Inr 0) else Block, ring) }
      else
        do { (full, write_size, ring) \<leftarrow> write_user_loop bufs 0 ring;
             Some (Done (Inr write_size), if full then ring else ring\<lparr>rb_status := NORMAL\<rparr>) })"

definition pipe_lseek :: "isize + usize" where "pipe_lseek = Inl ESPIPE"

definition hang_up :: "(nat \<Rightarrow> nat) \<Rightarrow> pipe \<Rightarrow> pipe_ring_buffer \<Rightarrow> bool option" where
  "hang_up strong p ring =
     (if pp_readable p then all_write_ends_closed strong ring else all_read_ends_closed strong ring)"

section \<open>The queue in the ring\<close>

abbreviation "N \<equiv> RING_DEFAULT_BUFFER_SIZE"

lemma N_pos [simp]: "0 < N"
  by (simp add: RING_DEFAULT_BUFFER_SIZE_def)

text \<open>The ring holds the bytes \<open>q\<close>, from the head on.\<close>

definition ring_holds :: "u8 list \<Rightarrow> pipe_ring_buffer \<Rightarrow> bool" where
  "ring_holds q ring \<longleftrightarrow>
     length (rb_arr ring) = N \<and> rb_head ring < N \<and> length q \<le> N \<and>
     rb_tail ring = (rb_head ring + length q) mod N \<and>
     (\<forall>i < length q. rb_arr ring ! ((rb_head ring + i) mod N) = q ! i)"

definition ring_inv :: "u8 list \<Rightarrow> pipe_ring_buffer \<Rightarrow> bool" where
  "ring_inv q ring \<longleftrightarrow>
     ring_holds q ring \<and> (rb_status ring = EMPTY \<longleftrightarrow> q = []) \<and> (rb_status ring = FULL \<longleftrightarrow> length q = N)"

lemma mod_small: "a < N \<Longrightarrow> b \<le> N \<Longrightarrow> (a + b) mod N = (if a + b < N then a + b else a + b - N)"
  by (auto simp: mod_if)

lemma buffer_read_holds:
  assumes h: "ring_holds q ring" and q: "q \<noteq> []" and n: "0 < n"
  shows "\<exists>k. 0 < k \<and> k \<le> n \<and> k \<le> length q \<and>
    buffer_read n ring = (take k q, ring\<lparr>rb_head := (rb_head ring + k) mod N\<rparr>) \<and>
    ring_holds (drop k q) (ring\<lparr>rb_head := (rb_head ring + k) mod N\<rparr>) \<and>
    ((rb_head ring + k) mod N = rb_tail ring \<longleftrightarrow> k = length q)"
proof -
  let ?h = "rb_head ring" and ?t = "rb_tail ring"
  note H = h [unfolded ring_holds_def]
  define m where "m = (if ?t \<le> ?h then N else ?t) - ?h"
  have len: "0 < length q" using q by simp
  have t: "?t = (if ?h + length q < N then ?h + length q else ?h + length q - N)"
    using H mod_small by simp
  have m: "m = min (length q) (N - ?h)" using t H len by (auto simp: m_def)
  define k where "k = min n m"
  have k: "0 < k" "k \<le> n" "k \<le> length q" "?h + k \<le> N" using m H len n by (auto simp: k_def)
  have head: "(?h + k) mod N = (if ?h + k = N then 0 else ?h + k)" using k(4) by (simp add: mod_if)
  have "take k (drop ?h (rb_arr ring)) = take k q"
  proof (rule nth_equalityI)
    show "length (take k (drop ?h (rb_arr ring))) = length (take k q)" using H k by auto
    show "take k (drop ?h (rb_arr ring)) ! i = take k q ! i" if "i < length (take k (drop ?h (rb_arr ring)))" for i
      using that H k by (auto dest!: spec [of _ i])
  qed
  then have rd: "buffer_read n ring = (take k q, ring\<lparr>rb_head := (?h + k) mod N\<rparr>)"
    by (simp add: buffer_read_def Let_def head flip: m_def k_def)
  have tl: "((?h + k) mod N + (length q - k)) mod N = ?t"
    unfolding mod_add_left_eq using H k(3) by (simp add: add.assoc)
  have "rb_arr ring ! (((?h + k) mod N + i) mod N) = drop k q ! i" if "i < length q - k" for i
    unfolding mod_add_left_eq using H that by (simp add: add.assoc less_diff_conv add.commute [of k])
  then have hold: "ring_holds (drop k q) (ring\<lparr>rb_head := (?h + k) mod N\<rparr>)"
    using H k(3) tl diff_le_self [of "length q" k] by (simp add: ring_holds_def del: mod_add_left_eq diff_le_self)
  have "(?h + k) mod N = ?t \<longleftrightarrow> k = length q"
    using H k mod_small [of ?h k] t by (auto split: if_splits)
  then show ?thesis using k rd hold by blast
qed

lemma buffer_write_holds:
  assumes h: "ring_holds q ring" and q: "length q < N" and buf: "buf \<noteq> []"
  shows "\<exists>k ring'. 0 < k \<and> k \<le> length buf \<and> length q + k \<le> N \<and> buffer_write buf ring = (k, ring') \<and>
    rb_head ring' = rb_head ring \<and> rb_status ring' = rb_status ring \<and> rb_write_end ring' = rb_write_end ring \<and>
    rb_read_end ring' = rb_read_end ring \<and> ring_holds (q @ take k buf) ring' \<and>
    (rb_head ring' = rb_tail ring' \<longleftrightarrow> length q + k = N)"
proof -
  let ?h = "rb_head ring" and ?t = "rb_tail ring" and ?arr = "rb_arr ring"
  note H = h [unfolded ring_holds_def]
  define m where "m = (if ?t < ?h then ?h else N) - ?t"
  have t: "?t = (if ?h + length q < N then ?h + length q else ?h + length q - N)" "?t < N"
    using H mod_small by auto
  have m: "m = min (N - length q) (N - ?t)" using t H q by (auto simp: m_def)
  define k where "k = min (length buf) m"
  have k: "0 < k" "k \<le> length buf" "length q + k \<le> N" "?t + k \<le> N"
    using m t(2) q buf by (auto simp: k_def min_le_iff_disj)
  define arr where "arr = take ?t ?arr @ take k buf @ drop (?t + k) ?arr"
  define ring' where "ring' = ring\<lparr>rb_arr := arr, rb_tail := (if ?t + k = N then 0 else ?t + k)\<rparr>"
  have wr: "buffer_write buf ring = (k, ring')"
    by (simp add: buffer_write_def Let_def ring'_def arr_def flip: m_def k_def)
  have len: "length arr = N" using H k t(2) by (simp add: arr_def)
  have arr: "arr ! i = (if ?t \<le> i \<and> i < ?t + k then buf ! (i - ?t) else ?arr ! i)" if "i < N" for i
    using that H k t(2) by (auto simp: arr_def nth_append)
  have tail: "rb_tail ring' = (?h + length (q @ take k buf)) mod N"
  proof -
    have "(?h + (length q + k)) mod N = (?t + k) mod N" using H by (simp add: mod_add_left_eq add.assoc flip: add.assoc)
    also have "\<dots> = rb_tail ring'" using k(4) by (simp add: ring'_def mod_if)
    finally show ?thesis using k(2) by (simp add: min_def)
  qed
  have cont: "arr ! ((?h + i) mod N) = (q @ take k buf) ! i" if i: "i < length q + k" for i
  proof (cases "i < length q")
    case True
    let ?j = "(?h + i) mod N"
    have "?j = (if ?h + i < N then ?h + i else ?h + i - N)" using H True q mod_small by simp
    then have "\<not> (?t \<le> ?j \<and> ?j < ?t + k)" using True t k H by (auto split: if_splits)
    then have "arr ! ?j = ?arr ! ?j" using arr [of ?j] by (simp only: if_False mod_less_divisor N_pos)
    then show ?thesis using True H by (simp add: nth_append)
  next
    case False
    then obtain d where d: "i = length q + d" "d < k" using i by (metis add_less_cancel_left le_add_diff_inverse not_less)
    have "(?h + i) mod N = (?t + d) mod N" using H by (simp add: d(1) mod_add_left_eq add.assoc [symmetric])
    also have "\<dots> = ?t + d" using d(2) k(4) by simp
    finally show ?thesis using d k arr [of "?t + d"] by (simp add: nth_append)
  qed
  have hold: "ring_holds (q @ take k buf) ring'"
    unfolding ring_holds_def
    using H len k(2,3) tail cont by (simp add: ring'_def min_def)
  have "rb_head ring' = rb_tail ring' \<longleftrightarrow> length q + k = N"
    using tail k H mod_small [of ?h "length q + k"] by (auto simp: ring'_def min_def split: if_splits)
  then show ?thesis using k wr hold by (intro exI [of _ k] exI [of _ ring']) (simp add: ring'_def)
qed

subsection \<open>The loops\<close>

lemma ring_read_loop_ok:
  assumes "ring_holds q ring" and "q \<noteq> []" and "length acc + n = len"
  shows "\<exists>ring'. ring_read_loop len acc ring = Some (length q \<le> n, acc @ take n q, ring') \<and> ring_holds (drop n q) ring' \<and>
    (length q \<le> n \<longrightarrow> rb_status ring' = EMPTY) \<and> rb_write_end ring' = rb_write_end ring \<and> rb_read_end ring' = rb_read_end ring"
  using assms
proof (induction n arbitrary: acc q ring rule: less_induct)
  case (less n)
  show ?case
  proof (cases "n = 0")
    case True
    then show ?thesis using less.prems by (subst ring_read_loop.simps) auto
  next
    case False
    from buffer_read_holds [OF less.prems(1,2), of n] False obtain k where k: "0 < k" "k \<le> n" "k \<le> length q"
      "buffer_read n ring = (take k q, ring\<lparr>rb_head := (rb_head ring + k) mod N\<rparr>)"
      "ring_holds (drop k q) (ring\<lparr>rb_head := (rb_head ring + k) mod N\<rparr>)"
      "(rb_head ring + k) mod N = rb_tail ring \<longleftrightarrow> k = length q" by auto
    let ?ring = "ring\<lparr>rb_head := (rb_head ring + k) mod N\<rparr>"
    have n: "len - length acc = n" "length acc < len" using less.prems(3) False by auto
    show ?thesis
    proof (cases "k = length q")
      case True
      then have "ring_read_loop len acc ring = Some (True, acc @ q, ?ring\<lparr>rb_status := EMPTY\<rparr>)"
        using n k(4,6) by (subst ring_read_loop.simps) simp
      then show ?thesis using True k(2,5) by (auto simp: ring_holds_def)
    next
      case neq: False
      then have "ring_read_loop len acc ring = ring_read_loop len (acc @ take k q) ?ring"
        using n k(4,6) by (subst ring_read_loop.simps) simp
      moreover have "n - k < n" "drop k q \<noteq> []" "length (acc @ take k q) + (n - k) = len"
        using k(1-3) neq less.prems(3) False by auto
      note less.IH [OF this(1) k(5) this(2,3)]
      moreover have "length (drop k q) \<le> n - k \<longleftrightarrow> length q \<le> n" "take k q @ take (n - k) (drop k q) = take n q"
        using k(2,3) neq by (auto simp: take_add [symmetric])
      ultimately show ?thesis using k(2) by (auto simp: drop_drop)
    qed
  qed
qed

lemma ring_write_loop_ok:
  assumes "ring_holds q ring" and "length q < N" and "k + n = length buf"
  shows "\<exists>ring'. ring_write_loop buf k ring = Some (N \<le> length q + n, k + min n (N - length q), ring') \<and>
    ring_holds (q @ take (N - length q) (drop k buf)) ring' \<and> (N \<le> length q + n \<longrightarrow> rb_status ring' = FULL) \<and>
    rb_write_end ring' = rb_write_end ring \<and> rb_read_end ring' = rb_read_end ring"
  using assms
proof (induction n arbitrary: k q ring rule: less_induct)
  case (less n)
  show ?case
  proof (cases "n = 0")
    case True
    then show ?thesis using less.prems by (subst ring_write_loop.simps) auto
  next
    case False
    then have "drop k buf \<noteq> []" using less.prems(3) by simp
    from buffer_write_holds [OF less.prems(1,2) this] obtain j ring1 where j: "0 < j" "j \<le> length (drop k buf)" "length q + j \<le> N"
      "buffer_write (drop k buf) ring = (j, ring1)" "ring_holds (q @ take j (drop k buf)) ring1"
      "rb_write_end ring1 = rb_write_end ring" "rb_read_end ring1 = rb_read_end ring"
      "rb_head ring1 = rb_tail ring1 \<longleftrightarrow> length q + j = N" by blast
    have jn: "j \<le> n" "k < length buf" using j(2) less.prems(3) False by auto
    show ?thesis
    proof (cases "length q + j = N")
      case True
      then have "ring_write_loop buf k ring = Some (True, k + j, ring1\<lparr>rb_status := FULL\<rparr>)"
        using jn j(4,8) by (subst ring_write_loop.simps) simp
      moreover have "N - length q = j" using True by simp
      ultimately show ?thesis using True jn j(5-7) by (auto simp: ring_holds_def)
    next
      case neq: False
      then have "ring_write_loop buf k ring = ring_write_loop buf (k + j) ring1"
        using jn j(4,8) by (subst ring_write_loop.simps) simp
      moreover have "n - j < n" "length (q @ take j (drop k buf)) < N" "k + j + (n - j) = length buf"
        using j(1-3) neq jn less.prems(3) False by auto
      note less.IH [OF this(1) j(5) this(2,3)]
      moreover have "length (q @ take j (drop k buf)) = length q + j" using j(2) by simp
      moreover have "take j (drop k buf) @ take (N - (length q + j)) (drop (k + j) buf) = take (N - length q) (drop k buf)"
      proof -
        have "N - length q = j + (N - (length q + j))" using j(3) by simp
        then show ?thesis by (metis add.commute drop_drop take_add)
      qed
      ultimately show ?thesis using jn j(3,6,7) by (auto simp: min_def)
    qed
  qed
qed

lemma ring_holds_status [simp]: "ring_holds q (ring\<lparr>rb_status := st\<rparr>) = ring_holds q ring"
  by (simp add: ring_holds_def)

text \<open>What a read and a write do to the queue.\<close>

lemma pipe_read_ok:
  assumes inv: "ring_inv q ring" and n: "0 < n" and q: "q \<noteq> []"
  shows "\<exists>ring'. pipe_read strong None n ring = Some (Done (Inr (take n q)), ring') \<and> ring_inv (drop n q) ring' \<and>
    rb_write_end ring' = rb_write_end ring \<and> rb_read_end ring' = rb_read_end ring"
proof -
  from ring_read_loop_ok [of q ring "[]" n n] inv q obtain ring' where r:
    "ring_read_loop n [] ring = Some (length q \<le> n, take n q, ring')" "ring_holds (drop n q) ring'"
    "length q \<le> n \<longrightarrow> rb_status ring' = EMPTY" "rb_write_end ring' = rb_write_end ring" "rb_read_end ring' = rb_read_end ring"
    by (auto simp: ring_inv_def)
  have "length q \<le> N" using inv by (simp add: ring_inv_def ring_holds_def)
  then have "length (drop n q) \<noteq> N" using n q by (metis diff_less length_drop length_greater_0_conv not_le)
  then show ?thesis using inv q r by (auto simp: pipe_read_def ring_inv_def)
qed

lemma pipe_write_ok:
  assumes inv: "ring_inv q ring" and buf: "buf \<noteq> []" and q: "length q < N"
  shows "\<exists>ring'. pipe_write strong None buf ring = Some (Done (Inr (min (length buf) (N - length q))), ring') \<and>
    ring_inv (q @ take (N - length q) buf) ring' \<and> rb_write_end ring' = rb_write_end ring \<and> rb_read_end ring' = rb_read_end ring"
proof -
  from ring_write_loop_ok [of q ring 0 "length buf" buf] inv q obtain ring' where r:
    "ring_write_loop buf 0 ring = Some (N \<le> length q + length buf, min (length buf) (N - length q), ring')"
    "ring_holds (q @ take (N - length q) buf) ring'" "N \<le> length q + length buf \<longrightarrow> rb_status ring' = FULL"
    "rb_write_end ring' = rb_write_end ring" "rb_read_end ring' = rb_read_end ring" by (auto simp: ring_inv_def)
  have "length (q @ take (N - length q) buf) = N \<longleftrightarrow> N \<le> length q + length buf" using q by auto
  moreover have "q @ take (N - length q) buf \<noteq> []" using q buf by simp
  ultimately show ?thesis using inv q r by (auto simp: pipe_write_def ring_inv_def)
qed

text \<open>The same for a list of slices: it reads or writes as much as one slice of the total length.\<close>

lemma read_user_loop_ok:
  assumes "ring_holds q ring" and "q \<noteq> []"
  shows "\<exists>ring'. read_user_loop lens acc ring =
      Some (length q \<le> sum_list lens, acc @ take (sum_list lens) q, ring') \<and> ring_holds (drop (sum_list lens) q) ring' \<and>
    (length q \<le> sum_list lens \<longrightarrow> rb_status ring' = EMPTY)"
  using assms
proof (induction lens arbitrary: acc q ring)
  case (Cons len lens)
  from ring_read_loop_ok [OF Cons.prems, of "[]" len len] obtain ring1 where r:
    "ring_read_loop len [] ring = Some (length q \<le> len, take len q, ring1)" "ring_holds (drop len q) ring1"
    "length q \<le> len \<longrightarrow> rb_status ring1 = EMPTY" by auto
  show ?case
  proof (cases "length q \<le> len")
    case True
    then show ?thesis using r by simp
  next
    case False
    then have "drop len q \<noteq> []" by simp
    from Cons.IH [OF r(2) this, of "acc @ take len q"] r(1) False show ?thesis
      by (auto simp: take_add [symmetric] drop_drop add.commute)
  qed
qed simp

lemma write_user_loop_ok:
  assumes "ring_holds q ring" and "length q < N"
  shows "\<exists>ring'. write_user_loop bufs k ring =
      Some (N \<le> length q + length (concat bufs), k + min (length (concat bufs)) (N - length q), ring') \<and>
    ring_holds (q @ take (N - length q) (concat bufs)) ring' \<and>
    (N \<le> length q + length (concat bufs) \<longrightarrow> rb_status ring' = FULL)"
  using assms
proof (induction bufs arbitrary: k q ring)
  case (Cons buf bufs)
  from ring_write_loop_ok [OF Cons.prems, of 0 "length buf" buf] obtain ring1 where r:
    "ring_write_loop buf 0 ring = Some (N \<le> length q + length buf, min (length buf) (N - length q), ring1)"
    "ring_holds (q @ take (N - length q) buf) ring1" "N \<le> length q + length buf \<longrightarrow> rb_status ring1 = FULL" by auto
  show ?case
  proof (cases "N \<le> length q + length buf")
    case True
    then have "min (length buf) (N - length q) = N - length q" "min (length (concat (buf # bufs))) (N - length q) = N - length q"
      "take (N - length q) (concat (buf # bufs)) = take (N - length q) buf" by auto
    then show ?thesis using True r by simp
  next
    case False
    then have q': "take (N - length q) buf = buf" "length (q @ buf) < N" by auto
    from Cons.IH [OF _ q'(2), of ring1 "k + length buf"] r False q'(1) show ?thesis
      by (auto simp: add.assoc min_def)
  qed
qed simp

section \<open>Streams of bytes\<close>

text \<open>
  A channel between two parties: a request to read takes bytes off the front of a queue, a
  request to write appends a prefix of its bytes; either may be refused (the caller waits).
\<close>

locale byte_stream =
  fixes rd :: "'r \<Rightarrow> 's \<Rightarrow> ('b list \<times> 's) option" and wr :: "'w \<Rightarrow> 's \<Rightarrow> (nat \<times> 's) option"
    and asks :: "'r \<Rightarrow> nat" and offers :: "'w \<Rightarrow> 'b list" and holds :: "'b list \<Rightarrow> 's \<Rightarrow> bool"
  assumes rd_takes: "holds q s \<Longrightarrow> 0 < asks r \<Longrightarrow> rd r s = Some (bs, s') \<Longrightarrow> bs = take (asks r) q \<and> holds (drop (asks r) q) s'"
    and wr_appends: "holds q s \<Longrightarrow> offers b \<noteq> [] \<Longrightarrow> wr b s = Some (k, s') \<Longrightarrow>
      k \<le> length (offers b) \<and> holds (q @ take k (offers b)) s'"
begin

text \<open>A session: the requests in the order the scheduler lets them through; refused ones change nothing.\<close>

fun session :: "('r + 'w) list \<Rightarrow> 's \<Rightarrow> 'b list \<Rightarrow> 'b list \<Rightarrow> 's \<times> 'b list \<times> 'b list" where
  "session [] s sent got = (s, sent, got)"
| "session (Inl r # ops) s sent got =
     (case rd r s of None \<Rightarrow> session ops s sent got | Some (bs, s') \<Rightarrow> session ops s' sent (got @ bs))"
| "session (Inr b # ops) s sent got =
     (case wr b s of None \<Rightarrow> session ops s sent got | Some (k, s') \<Rightarrow> session ops s' (sent @ take k (offers b)) got)"

lemma session_fifo:
  assumes "holds q s" and "sent = got @ q" and "\<forall>r. Inl r \<in> set ops \<longrightarrow> 0 < asks r" and "\<forall>b. Inr b \<in> set ops \<longrightarrow> offers b \<noteq> []"
    and "session ops s sent got = (s', sent', got')"
  shows "\<exists>q'. holds q' s' \<and> sent' = got' @ q'"
  using assms
proof (induction ops s sent got arbitrary: q rule: session.induct)
  case (2 r ops s sent got)
  show ?case
  proof (cases "rd r s")
    case (Some p)
    then obtain bs s1 where p: "rd r s = Some (bs, s1)" by (cases p) auto
    from rd_takes [OF 2(3) _ p] 2(5) have "bs = take (asks r) q" "holds (drop (asks r) q) s1" by auto
    then show ?thesis using 2(2) [OF p refl, of "drop (asks r) q"] 2(4-7) p by auto
  qed (use 2(1) [of q] 2(3-7) in auto)
next
  case (3 b ops s sent got)
  show ?case
  proof (cases "wr b s")
    case (Some p)
    then obtain k s1 where p: "wr b s = Some (k, s1)" by (cases p) auto
    from wr_appends [OF 3(3) _ p] 3(6) have "holds (q @ take k (offers b)) s1" by auto
    then show ?thesis using 3(2) [OF p refl, of "q @ take k (offers b)"] 3(4-7) p by auto
  qed (use 3(1) [of q] 3(3-7) in auto)
qed auto

end

text \<open>The reads and writes of a pipe that go through, with a kernel buffer and with a user buffer.\<close>

definition done_rd :: "((isize + 'a) turn \<times> 's) option \<Rightarrow> ('a \<times> 's) option" where
  "done_rd res = (case res of Some (Done (Inr x), ring) \<Rightarrow> Some (x, ring) | _ \<Rightarrow> None)"

lemma ring_empty_full:
  assumes "ring_inv q ring"
  shows "rb_status ring = EMPTY \<longleftrightarrow> q = []" "rb_status ring = FULL \<longleftrightarrow> length q = N" "length q \<le> N"
  using assms by (auto simp: ring_inv_def ring_holds_def)

interpretation kernel_stream: byte_stream
  "\<lambda>n ring. done_rd (pipe_read strong None n ring)" "\<lambda>buf ring. done_rd (pipe_write strong None buf ring)"
  "\<lambda>n. n" "\<lambda>buf. buf" ring_inv
  for strong
proof
  fix q s r bs s' assume a: "ring_inv q s" "0 < r" "done_rd (pipe_read strong None r s) = Some (bs, s')"
  show "bs = take r q \<and> ring_inv (drop r q) s'"
  proof (cases "q = []")
    case True
    then show ?thesis using a ring_empty_full(1) [OF a(1)]
      by (auto simp: done_rd_def pipe_read_def bind_eq_Some_conv split: option.splits turn.splits sum.splits if_splits)
  next
    case False
    from pipe_read_ok [OF a(1,2) False, of strong] a(3) show ?thesis by (auto simp: done_rd_def)
  qed
next
  fix q s b k s' assume a: "ring_inv q s" "b \<noteq> []" "done_rd (pipe_write strong None b s) = Some (k, s')"
  show "k \<le> length b \<and> ring_inv (q @ take k b) s'"
  proof (cases "length q = N")
    case True
    then show ?thesis using a ring_empty_full(2) [OF a(1)]
      by (auto simp: done_rd_def pipe_write_def bind_eq_Some_conv split: option.splits turn.splits sum.splits if_splits)
  next
    case False
    then have "length q < N" using ring_empty_full(3) [OF a(1)] by simp
    from pipe_write_ok [OF a(1,2) this, of strong] a(3) show ?thesis
      by (auto simp: done_rd_def min_def split: if_splits)
  qed
qed

interpretation user_stream: byte_stream
  "\<lambda>lens ring. done_rd (read_user strong None lens ring)" "\<lambda>bufs ring. done_rd (write_user strong None bufs ring)"
  sum_list concat ring_inv
  for strong
proof
  fix q s lens bs s' assume a: "ring_inv q s" "0 < sum_list lens" "done_rd (read_user strong None lens s) = Some (bs, s')"
  show "bs = take (sum_list lens) q \<and> ring_inv (drop (sum_list lens) q) s'"
  proof (cases "q = []")
    case True
    then show ?thesis using a ring_empty_full(1) [OF a(1)]
      by (auto simp: done_rd_def read_user_def bind_eq_Some_conv split: option.splits turn.splits sum.splits if_splits)
  next
    case False
    have h: "ring_holds q s" using a(1) by (simp add: ring_inv_def)
    from read_user_loop_ok [OF h False, of lens "[]"] obtain ring' where r:
      "read_user_loop lens [] s = Some (length q \<le> sum_list lens, take (sum_list lens) q, ring')"
      "ring_holds (drop (sum_list lens) q) ring'" "length q \<le> sum_list lens \<longrightarrow> rb_status ring' = EMPTY" by auto
    have "length (drop (sum_list lens) q) \<noteq> N"
      using a(2) False ring_empty_full(3) [OF a(1)] by (metis diff_less length_drop length_greater_0_conv not_le)
    then show ?thesis using a(3) r False ring_empty_full(1) [OF a(1)]
      by (auto simp: done_rd_def read_user_def ring_inv_def split: if_splits)
  qed
next
  fix q s bufs k s' assume a: "ring_inv q s" "concat bufs \<noteq> []" "done_rd (write_user strong None bufs s) = Some (k, s')"
  show "k \<le> length (concat bufs) \<and> ring_inv (q @ take k (concat bufs)) s'"
  proof (cases "length q = N")
    case True
    then show ?thesis using a ring_empty_full(2) [OF a(1)]
      by (auto simp: done_rd_def write_user_def bind_eq_Some_conv split: option.splits turn.splits sum.splits if_splits)
  next
    case False
    then have q: "length q < N" using ring_empty_full(3) [OF a(1)] by simp
    have h: "ring_holds q s" using a(1) by (simp add: ring_inv_def)
    from write_user_loop_ok [OF h q, of bufs 0] obtain ring' where r:
      "write_user_loop bufs 0 s = Some (N \<le> length q + length (concat bufs), min (length (concat bufs)) (N - length q), ring')"
      "ring_holds (q @ take (N - length q) (concat bufs)) ring'"
      "N \<le> length q + length (concat bufs) \<longrightarrow> rb_status ring' = FULL" by auto
    have k: "k = min (length (concat bufs)) (N - length q)" "s' = (if N \<le> length q + length (concat bufs) then ring' else ring'\<lparr>rb_status := NORMAL\<rparr>)"
      using a(3) r(1) False ring_empty_full(2) [OF a(1)] by (auto simp: done_rd_def write_user_def)
    have t: "take k (concat bufs) = take (N - length q) (concat bufs)" unfolding k(1) by (simp add: min_def)
    have "length (q @ take k (concat bufs)) = N \<longleftrightarrow> N \<le> length q + length (concat bufs)" using q unfolding t by auto
    moreover have "q @ take k (concat bufs) \<noteq> []" using q a(2) unfolding t by simp
    ultimately show ?thesis using r(2,3) unfolding ring_inv_def t k(2) by (auto simp: k(1))
  qed
qed

section \<open>Properties\<close>

lemma make_pipe_inv: "ring_inv [] (make_pipe r w)"
  by (simp add: make_pipe_def set_read_end_def set_write_end_def ring_new_def ring_inv_def ring_holds_def)

text \<open>
  C34: A pipe is a FIFO: in every interleaving of reads and writes of user buffers (none of them
  of total length zero) on a new pipe, also where some of them have to wait, the bytes read so far
  are a prefix of the bytes written so far, and the rest is what the ring holds.
\<close>

theorem pipe_is_fifo:
  assumes "\<forall>lens. Inl lens \<in> set ops \<longrightarrow> 0 < sum_list lens" and "\<forall>bufs. Inr bufs \<in> set ops \<longrightarrow> concat bufs \<noteq> []"
    and "byte_stream.session (\<lambda>lens ring. done_rd (read_user strong None lens ring))
      (\<lambda>bufs ring. done_rd (write_user strong None bufs ring)) concat ops (make_pipe r w) [] [] = (ring, sent, got)"
  shows "\<exists>q. ring_inv q ring \<and> sent = got @ q"
  by (rule user_stream.session_fifo [OF make_pipe_inv _ assms(1-3)]) simp

theorem pipe_is_fifo_witness:
  "\<exists>ring sent got q. byte_stream.session (\<lambda>lens ring. done_rd (read_user (\<lambda>_. 1) None lens ring))
      (\<lambda>bufs ring. done_rd (write_user (\<lambda>_. 1) None bufs ring)) concat [Inr [[1, 2], [3]], Inl [2]] (make_pipe 0 1) [] [] =
      (ring, sent, got) \<and> sent = got @ q"
proof -
  obtain ring sent got where s: "byte_stream.session (\<lambda>lens ring. done_rd (read_user (\<lambda>_. 1) None lens ring))
      (\<lambda>bufs ring. done_rd (write_user (\<lambda>_. 1) None bufs ring)) concat [Inr [[1, 2], [3]], Inl [2]] (make_pipe 0 1) [] [] =
      (ring, sent, got)" by (metis prod_cases3)
  from pipe_is_fifo [OF _ _ s] s show ?thesis by auto
qed



section \<open>Zero-length transfers\<close>

text \<open>
  A write of no bytes to an empty pipe marks the ring \<open>NORMAL\<close> although it holds nothing; the next
  read returns a byte nobody wrote. Dually a read of no bytes from a full pipe lets the next
  write overwrite bytes nobody has read.
\<close>

lemma zero_write_breaks_pipe:
  "\<exists>ring ring'. pipe_write strong None [] (make_pipe r w) = Some (Done (Inr 0), ring) \<and>
     pipe_read strong None 1 ring = Some (Done (Inr [0]), ring')"
proof -
  define ring where "ring = (make_pipe r w)\<lparr>rb_status := NORMAL\<rparr>"
  have f: "rb_arr ring = replicate N 0" "rb_head ring = 0" "rb_tail ring = 0" "rb_status ring = NORMAL"
    "rb_status (make_pipe r w) = EMPTY"
    by (simp_all add: ring_def make_pipe_def set_read_end_def set_write_end_def ring_new_def)
  have "pipe_write strong None [] (make_pipe r w) = Some (Done (Inr 0), ring)"
    by (simp add: pipe_write_def f ring_write_loop.simps) (simp add: ring_def)
  moreover have n: "N \<noteq> 1" "min 1 N = 1" "take 1 (replicate N (0 :: u8)) = [0]" by (simp_all add: RING_DEFAULT_BUFFER_SIZE_def)
  have b: "buffer_read 1 ring = ([0], ring\<lparr>rb_head := 1\<rparr>)"
    using n by (simp add: buffer_read_def f Let_def)
  have "ring_read_loop 1 [] ring = Some (False, [0], ring\<lparr>rb_head := 1\<rparr>)"
    using b by (subst ring_read_loop.simps, simp add: f) (subst ring_read_loop.simps, simp)
  ultimately show ?thesis by (simp add: pipe_read_def f)
qed

lemma zero_read_unlocks_full_pipe:
  assumes "ring_inv q ring" and "length q = N"
  shows "\<exists>ring'. pipe_read strong None 0 ring = Some (Done (Inr []), ring') \<and> rb_status ring' = NORMAL \<and>
    ring_holds q ring' \<and> \<not> ring_inv q ring'"
  using assms N_pos by (auto simp: pipe_read_def ring_inv_def ring_read_loop.simps)

end
