(* ===== verification/Timer.thy ===== *)
theory Timer
  imports Gcore_Prelude "HOL-Library.Char_ord"
begin

text \<open>
  \<open>timer.rs\<close>: the clock readings, \<open>TimeSpec\<close> and \<open>TimeVal\<close> with their arithmetic and order, the
  interval timers and the wall clock. The tick counter and the RTC registers are arguments. All
  quantities are 64-bit words, so additions and multiplications wrap around.
\<close>

section \<open>Definitions\<close>

subsection \<open>Units and clock readings\<close>

definition MSEC_PER_SEC :: usize where "MSEC_PER_SEC = 1000"
definition USEC_PER_SEC :: usize where "USEC_PER_SEC = 1000000"
definition USEC_PER_MSEC :: usize where "USEC_PER_MSEC = 1000"
definition NSEC_PER_SEC :: usize where "NSEC_PER_SEC = 1000000000"
definition NSEC_PER_MSEC :: usize where "NSEC_PER_MSEC = 1000000"
definition NSEC_PER_USEC :: usize where "NSEC_PER_USEC = 1000"

definition CLOCK_FREQ :: usize where "CLOCK_FREQ = 12500000"

text \<open>\<open>time\<close> is what \<open>get_time\<close> returns.\<close>

definition get_time_sec :: "usize \<Rightarrow> usize" where
  "get_time_sec time = time div CLOCK_FREQ"

definition get_time_ms :: "usize \<Rightarrow> usize" where
  "get_time_ms time = time div (CLOCK_FREQ div MSEC_PER_SEC)"

definition get_time_us :: "usize \<Rightarrow> usize" where
  "get_time_us time = time div (CLOCK_FREQ div USEC_PER_SEC)"

definition get_time_ns :: "usize \<Rightarrow> usize" where
  "get_time_ns time = time * NSEC_PER_SEC div CLOCK_FREQ"

subsection \<open>TimeSpec\<close>

record time_spec =
  ts_sec :: usize
  ts_nsec :: usize

definition ts_add_assign :: "time_spec \<Rightarrow> time_spec \<Rightarrow> time_spec" where
  "ts_add_assign self rhs = \<lparr>ts_sec = ts_sec self + ts_sec rhs, ts_nsec = ts_nsec self + ts_nsec rhs\<rparr>"

definition ts_add :: "time_spec \<Rightarrow> time_spec \<Rightarrow> time_spec" where
  "ts_add self other =
     (let sec = ts_sec self + ts_sec other; nsec = ts_nsec self + ts_nsec other in
      \<lparr>ts_sec = sec + nsec div NSEC_PER_SEC, ts_nsec = nsec mod NSEC_PER_SEC\<rparr>)"

definition ts_new :: time_spec where "ts_new = \<lparr>ts_sec = 0, ts_nsec = 0\<rparr>"

definition ts_from_tick :: "usize \<Rightarrow> time_spec" where
  "ts_from_tick tick =
     \<lparr>ts_sec = tick div CLOCK_FREQ, ts_nsec = (tick mod CLOCK_FREQ) * NSEC_PER_SEC div CLOCK_FREQ\<rparr>"

definition ts_from_s :: "usize \<Rightarrow> time_spec" where
  "ts_from_s s = \<lparr>ts_sec = s, ts_nsec = 0\<rparr>"

definition ts_from_ms :: "usize \<Rightarrow> time_spec" where
  "ts_from_ms ms = \<lparr>ts_sec = ms div MSEC_PER_SEC, ts_nsec = (ms mod MSEC_PER_SEC) * NSEC_PER_MSEC\<rparr>"

definition ts_from_us :: "usize \<Rightarrow> time_spec" where
  "ts_from_us us = \<lparr>ts_sec = us div USEC_PER_SEC, ts_nsec = (us mod USEC_PER_SEC) * NSEC_PER_USEC\<rparr>"

definition ts_from_ns :: "usize \<Rightarrow> time_spec" where
  "ts_from_ns ns = \<lparr>ts_sec = ns div NSEC_PER_SEC, ts_nsec = ns mod NSEC_PER_SEC\<rparr>"

definition ts_to_ns :: "time_spec \<Rightarrow> usize" where
  "ts_to_ns self = ts_sec self * NSEC_PER_SEC + ts_nsec self"

definition ts_is_zero :: "time_spec \<Rightarrow> bool" where
  "ts_is_zero self \<longleftrightarrow> ts_sec self = 0 \<and> ts_nsec self = 0"

definition ts_now :: "usize \<Rightarrow> time_spec" where
  "ts_now time = ts_from_tick time"

definition ts_sub :: "time_spec \<Rightarrow> time_spec \<Rightarrow> time_spec" where
  "ts_sub self other =
     (let self_ns = ts_to_ns self; other_ns = ts_to_ns other in
      if self_ns \<le> other_ns then ts_new else ts_from_ns (self_ns - other_ns))"

datatype ordering = Less | Equal | Greater

definition word_cmp :: "usize \<Rightarrow> usize \<Rightarrow> ordering" where
  "word_cmp a b = (if a < b then Less else if a = b then Equal else Greater)"

definition ts_cmp :: "time_spec \<Rightarrow> time_spec \<Rightarrow> ordering" where
  "ts_cmp self other =
     (case word_cmp (ts_sec self) (ts_sec other) of
        Less \<Rightarrow> Less | Equal \<Rightarrow> word_cmp (ts_nsec self) (ts_nsec other) | Greater \<Rightarrow> Greater)"

subsection \<open>TimeVal\<close>

record time_val =
  tv_sec :: usize
  tv_usec :: usize

definition tv_new :: time_val where "tv_new = \<lparr>tv_sec = 0, tv_usec = 0\<rparr>"

definition tv_from_tick :: "usize \<Rightarrow> time_val" where
  "tv_from_tick tick =
     \<lparr>tv_sec = tick div CLOCK_FREQ, tv_usec = (tick mod CLOCK_FREQ) * USEC_PER_SEC div CLOCK_FREQ\<rparr>"

definition tv_to_tick :: "time_val \<Rightarrow> usize" where
  "tv_to_tick self = tv_sec self * CLOCK_FREQ + tv_usec self * CLOCK_FREQ div USEC_PER_SEC"

definition tv_from_s :: "usize \<Rightarrow> time_val" where
  "tv_from_s s = \<lparr>tv_sec = s, tv_usec = 0\<rparr>"

definition tv_from_ms :: "usize \<Rightarrow> time_val" where
  "tv_from_ms ms = \<lparr>tv_sec = ms div MSEC_PER_SEC, tv_usec = (ms mod MSEC_PER_SEC) * USEC_PER_MSEC\<rparr>"

definition tv_from_us :: "usize \<Rightarrow> time_val" where
  "tv_from_us us = \<lparr>tv_sec = us div USEC_PER_SEC, tv_usec = us mod USEC_PER_SEC\<rparr>"

definition tv_to_us :: "time_val \<Rightarrow> usize" where
  "tv_to_us self = tv_sec self * USEC_PER_SEC + tv_usec self"

definition tv_is_zero :: "time_val \<Rightarrow> bool" where
  "tv_is_zero self \<longleftrightarrow> tv_sec self = 0 \<and> tv_usec self = 0"

definition tv_now :: "usize \<Rightarrow> time_val" where
  "tv_now time = tv_from_tick time"

definition tv_add :: "time_val \<Rightarrow> time_val \<Rightarrow> time_val" where
  "tv_add self other =
     (let sec = tv_sec self + tv_sec other; usec = tv_usec self + tv_usec other in
      \<lparr>tv_sec = sec + usec div USEC_PER_SEC, tv_usec = usec mod USEC_PER_SEC\<rparr>)"

definition tv_sub :: "time_val \<Rightarrow> time_val \<Rightarrow> time_val" where
  "tv_sub self other =
     (let self_us = tv_to_us self; other_us = tv_to_us other in
      if self_us \<le> other_us then tv_new else tv_from_us (self_us - other_us))"

definition tv_cmp :: "time_val \<Rightarrow> time_val \<Rightarrow> ordering" where
  "tv_cmp self other =
     (case word_cmp (tv_sec self) (tv_sec other) of
        Less \<Rightarrow> Less | Equal \<Rightarrow> word_cmp (tv_usec self) (tv_usec other) | Greater \<Rightarrow> Greater)"

record i_timer_val =
  it_interval :: time_val
  it_value :: time_val

definition i_timer_val_new :: i_timer_val where
  "i_timer_val_new = \<lparr>it_interval = tv_new, it_value = tv_new\<rparr>"

subsection \<open>The wall clock\<close>

definition uptime :: "usize \<Rightarrow> u64" where
  "uptime time = get_time_sec time"

text \<open>\<open>boot_time_offset\<close> is the value of \<open>BOOT_TIME_OFFSET\<close>.\<close>

definition current_time :: "u64 \<Rightarrow> usize \<Rightarrow> u64" where
  "current_time boot_time_offset time = uptime time + boot_time_offset"

text \<open>\<open>str::split_whitespace\<close> on ASCII text, and \<open>str::parse::<u64>\<close>.\<close>

definition is_whitespace :: "char \<Rightarrow> bool" where
  "is_whitespace c \<longleftrightarrow> of_char c \<in> {9 :: nat, 10, 11, 12, 13, 32}"

fun split_whitespace_loop :: "string \<Rightarrow> string \<Rightarrow> string list" where
  "split_whitespace_loop cur [] = (if cur = [] then [] else [rev cur])"
| "split_whitespace_loop cur (c # cs) =
     (if is_whitespace c then (if cur = [] then [] else [rev cur]) @ split_whitespace_loop [] cs
      else split_whitespace_loop (c # cur) cs)"

definition split_whitespace :: "string \<Rightarrow> string list" where
  "split_whitespace s = split_whitespace_loop [] s"

definition strip_prefix :: "string \<Rightarrow> string \<Rightarrow> string option" where
  "strip_prefix pre s = (if take (length pre) s = pre then Some (drop (length pre) s) else None)"

fun parse_digits :: "nat \<Rightarrow> string \<Rightarrow> nat option" where
  "parse_digits acc [] = Some acc"
| "parse_digits acc (c # cs) =
     (if 48 \<le> (of_char c :: nat) \<and> of_char c \<le> (57 :: nat) then
        (let acc = 10 * acc + (of_char c - 48) in if acc < 2 ^ 64 then parse_digits acc cs else None)
      else None)"

definition parse_u64 :: "string \<Rightarrow> u64 option" where
  "parse_u64 s =
     (let digits = (case s of [] \<Rightarrow> s | c # cs \<Rightarrow> if c = CHR ''+'' then cs else s) in
      if digits = [] then None else map_option of_nat (parse_digits 0 digits))"

fun parse_parts :: "string list \<Rightarrow> u64 option" where
  "parse_parts [] = None"
| "parse_parts (part # parts) =
     (case strip_prefix ''now='' part of
        None \<Rightarrow> parse_parts parts
      | Some ts \<Rightarrow> (case parse_u64 ts of Some val \<Rightarrow> Some val | None \<Rightarrow> parse_parts parts))"

definition parse_cmdline_boot_time :: "string \<Rightarrow> u64 option" where
  "parse_cmdline_boot_time cmdline = parse_parts (split_whitespace cmdline)"

text \<open>The new value of \<open>BOOT_TIME_OFFSET\<close>; \<open>None\<close> is the panic.\<close>

definition init_time_from_cmdline :: "string \<Rightarrow> usize \<Rightarrow> u64 option" where
  "init_time_from_cmdline cmdline time =
     (case parse_cmdline_boot_time cmdline of Some ts \<Rightarrow> Some (ts - uptime time) | None \<Rightarrow> None)"

definition init_rtc_time :: "u32 \<Rightarrow> u32 \<Rightarrow> usize \<Rightarrow> u64 \<Rightarrow> u64" where
  "init_rtc_time time_low time_high time boot_time_offset =
     (let nsec = push_bit 32 (ucast time_high) OR ucast time_low :: u64;
          unix_sec = nsec div 1000000000 in
      if unix_sec > uptime time then unix_sec - uptime time else boot_time_offset)"

section \<open>Elapsed times in general\<close>

text \<open>
  \<open>TimeSpec\<close> and \<open>TimeVal\<close> have the same structure: seconds and a fraction counted in units of
  which \<open>per_sec\<close> make a second. The laws below are proved once for both.
\<close>

locale elapsed_time =
  fixes sec frac :: "'t \<Rightarrow> usize" and mk :: "usize \<Rightarrow> usize \<Rightarrow> 't" and per_sec :: usize
    and to_units :: "'t \<Rightarrow> usize" and from_units :: "usize \<Rightarrow> 't" and add sub :: "'t \<Rightarrow> 't \<Rightarrow> 't"
    and cmp :: "'t \<Rightarrow> 't \<Rightarrow> ordering"
  assumes sec_mk [simp]: "sec (mk s f) = s" and frac_mk [simp]: "frac (mk s f) = f" and mk_eq [simp]: "mk (sec t) (frac t) = t"
    and per_sec_pos: "0 < per_sec"
    and to_units: "to_units t = sec t * per_sec + frac t"
    and from_units: "from_units n = mk (n div per_sec) (n mod per_sec)"
    and add: "add a b = mk (sec a + sec b + (frac a + frac b) div per_sec) ((frac a + frac b) mod per_sec)"
    and sub: "sub a b = (if to_units a \<le> to_units b then mk 0 0 else from_units (to_units a - to_units b))"
    and cmp: "cmp a b = (case word_cmp (sec a) (sec b) of
        Less \<Rightarrow> Less | Equal \<Rightarrow> word_cmp (frac a) (frac b) | Greater \<Rightarrow> Greater)"
begin

text \<open>A normal value has a fraction below a second, and its total fits in a word.\<close>

definition normal :: "'t \<Rightarrow> bool" where
  "normal t \<longleftrightarrow> frac t < per_sec \<and> unat (sec t) * unat per_sec + unat (frac t) < 2 ^ 64"

lemma div_mod_units: "n div per_sec * per_sec + n mod per_sec = n"
  by (rule div_mult_mod_eq)

lemma to_from: "to_units (from_units n) = n"
  by (simp add: to_units from_units div_mod_units)

lemma to_add: "to_units (add a b) = to_units a + to_units b"
proof -
  have "to_units (add a b) = (sec a + sec b) * per_sec + ((frac a + frac b) div per_sec * per_sec + (frac a + frac b) mod per_sec)"
    by (simp add: to_units add algebra_simps)
  also have "\<dots> = to_units a + to_units b" by (simp only: div_mod_units) (simp add: to_units algebra_simps)
  finally show ?thesis .
qed

lemma frac_bound: "frac (add a b) < per_sec" "frac (from_units n) < per_sec"
  using per_sec_pos by (simp_all add: add from_units word_mod_less_divisor)

lemma unat_to_units: "normal t \<Longrightarrow> unat (to_units t) = unat (sec t) * unat per_sec + unat (frac t)"
proof -
  assume n: "normal t"
  then have m: "unat (sec t * per_sec) = unat (sec t) * unat per_sec"
    by (subst unat_mult_lem [THEN iffD1]) (simp_all add: normal_def)
  show ?thesis using n by (simp add: to_units normal_def m unat_add_lem [THEN iffD1])
qed

lemma from_to: "normal t \<Longrightarrow> from_units (to_units t) = t"
proof -
  assume n: "normal t"
  then have f: "unat (frac t) < unat per_sec" by (simp add: normal_def word_less_nat_alt)
  have "to_units t div per_sec = sec t"
    using f by (simp add: word_unat_eq_iff unat_div unat_to_units [OF n])
  moreover have "to_units t mod per_sec = frac t"
    using f by (simp add: word_unat_eq_iff unat_mod unat_to_units [OF n])
  ultimately show ?thesis by (simp add: from_units)
qed

lemma units_order:
  assumes "normal a" "normal b"
  shows "to_units a < to_units b \<longleftrightarrow> sec a < sec b \<or> sec a = sec b \<and> frac a < frac b"
    and "to_units a = to_units b \<longleftrightarrow> a = b"
proof -
  have f: "unat (frac a) < unat per_sec" "unat (frac b) < unat per_sec"
    using assms by (simp_all add: normal_def word_less_nat_alt)
  have lt: "unat (to_units a) < unat (to_units b)" if "unat (sec a) < unat (sec b)"
  proof -
    have "Suc (unat (sec a)) * unat per_sec \<le> unat (sec b) * unat per_sec" using that by (intro mult_le_mono1) simp
    then show ?thesis using f by (simp add: unat_to_units assms)
  qed
  have gt: "unat (to_units b) < unat (to_units a)" if "unat (sec b) < unat (sec a)"
  proof -
    have "Suc (unat (sec b)) * unat per_sec \<le> unat (sec a) * unat per_sec" using that by (intro mult_le_mono1) simp
    then show ?thesis using f by (simp add: unat_to_units assms)
  qed
  consider "unat (sec a) < unat (sec b)" | "unat (sec b) < unat (sec a)" | "sec a = sec b"
    by (metis linorder_neqE_nat word_unat_eq_iff)
  then show "to_units a < to_units b \<longleftrightarrow> sec a < sec b \<or> sec a = sec b \<and> frac a < frac b"
    by cases (use lt gt in \<open>auto simp: word_less_nat_alt unat_to_units assms word_unat_eq_iff\<close>)
  show "to_units a = to_units b \<longleftrightarrow> a = b" using from_to assms by metis
qed

lemma cmp_units: "normal a \<Longrightarrow> normal b \<Longrightarrow> cmp a b = word_cmp (to_units a) (to_units b)"
  using units_order [of a b] mk_eq [of a] mk_eq [of b] by (auto simp: cmp word_cmp_def simp del: mk_eq split: ordering.splits)

lemma sub_add:
  assumes "normal a" and "unat (to_units a) + unat (to_units b) < 2 ^ 64" and "sec a \<noteq> 0 \<or> frac a \<noteq> 0"
  shows "sub (add a b) b = a"
proof -
  have "to_units a \<noteq> 0" using from_to [OF assms(1)] assms(3) per_sec_pos
    by (metis div_0 frac_mk from_units mod_0 sec_mk)
  then have "\<not> to_units a + to_units b \<le> to_units b"
    using assms(2) by (simp add: word_le_nat_alt unat_add_lem [THEN iffD1] word_unat_eq_iff)
  then show ?thesis using from_to [OF assms(1)] by (simp add: sub to_add)
qed

end

interpretation spec: elapsed_time ts_sec ts_nsec "\<lambda>s n. \<lparr>ts_sec = s, ts_nsec = n\<rparr>" NSEC_PER_SEC
  ts_to_ns ts_from_ns ts_add ts_sub ts_cmp
  by unfold_locales
    (simp_all add: NSEC_PER_SEC_def ts_to_ns_def ts_from_ns_def ts_add_def ts_sub_def ts_cmp_def ts_new_def Let_def)

interpretation val: elapsed_time tv_sec tv_usec "\<lambda>s n. \<lparr>tv_sec = s, tv_usec = n\<rparr>" USEC_PER_SEC
  tv_to_us tv_from_us tv_add tv_sub tv_cmp
  by unfold_locales
    (simp_all add: USEC_PER_SEC_def tv_to_us_def tv_from_us_def tv_add_def tv_sub_def tv_cmp_def tv_new_def Let_def)

section \<open>Properties\<close>



text \<open>
  Converting a tick count to seconds and microseconds and back loses less than 13 ticks (the
  clock has 12.5 ticks per microsecond), never gains any, and the fraction stays below a second.
\<close>

theorem tick_round_trip:
  "tv_usec (tv_from_tick tick) < USEC_PER_SEC \<and> tv_to_tick (tv_from_tick tick) \<le> tick \<and>
   tick - tv_to_tick (tv_from_tick tick) < 13"
proof -
  define m where "m = unat (tick mod CLOCK_FREQ)"
  have m: "m < 12500000" "unat tick mod 12500000 = m" by (simp_all add: m_def unat_mod CLOCK_FREQ_def)
  have u: "unat (tv_usec (tv_from_tick tick)) = m * 1000000 div 12500000"
    using m(1) by (simp add: tv_from_tick_def unat_div USEC_PER_SEC_def CLOCK_FREQ_def unat_mult_lem [THEN iffD1] m_def [unfolded CLOCK_FREQ_def, symmetric])
  have b: "m * 1000000 div 12500000 < 1000000" using m(1) by (simp add: div_less_iff_less_mult)
  have ub: "unat (tv_usec (tv_from_tick tick) * CLOCK_FREQ div USEC_PER_SEC) = m * 1000000 div 12500000 * 12500000 div 1000000"
    using b u by (simp add: unat_div unat_mult_lem [THEN iffD1] CLOCK_FREQ_def USEC_PER_SEC_def)
  have s: "unat (tv_sec (tv_from_tick tick) * CLOCK_FREQ) = unat tick - m"
  proof -
    have "unat tick div 12500000 * 12500000 = unat tick - m" by (simp add: m(2) [symmetric] minus_mod_eq_div_mult)
    moreover have "unat tick < 2 ^ 64" by (rule unat_u64_bound)
    ultimately show ?thesis by (simp add: tv_from_tick_def CLOCK_FREQ_def unat_div unat_mult_lem [THEN iffD1])
  qed
  have r: "m * 1000000 div 12500000 * 12500000 div 1000000 \<le> m" "m - m * 1000000 div 12500000 * 12500000 div 1000000 < 13"
  proof -
    have "m * 1000000 div 12500000 = m * 2 div 25" using div_mult_mult2 [of 500000 "m * 2" 25] by simp
    moreover have "(m * 2 div 25) * 12500000 div 1000000 = (m * 2 div 25) * 25 div 2"
      using div_mult_mult2 [of 500000 "(m * 2 div 25) * 25" 2] by simp
    moreover have "m - (m * 2 div 25) * 25 div 2 < 13" "(m * 2 div 25) * 25 div 2 \<le> m" by presburger+
    ultimately show "m * 1000000 div 12500000 * 12500000 div 1000000 \<le> m" "m - m * 1000000 div 12500000 * 12500000 div 1000000 < 13"
      by simp_all
  qed
  have mt: "m \<le> unat tick" using m(2) mod_less_eq_dividend by metis
  have t: "unat (tv_to_tick (tv_from_tick tick)) = unat tick - m + m * 1000000 div 12500000 * 12500000 div 1000000"
    unfolding tv_to_tick_def using s ub r(1) mt unat_u64_bound [of tick] by (simp add: unat_add_lem [THEN iffD1])
  then have le: "tv_to_tick (tv_from_tick tick) \<le> tick" using r(1) mt by (simp add: word_le_nat_alt)
  moreover have "tick - tv_to_tick (tv_from_tick tick) < 13"
    using unat_sub_no_wrap [OF le] t r mt by (simp add: word_less_nat_alt)
  moreover have "tv_usec (tv_from_tick tick) < USEC_PER_SEC" using u b by (simp add: word_less_nat_alt USEC_PER_SEC_def)
  ultimately show ?thesis by blast
qed

section \<open>Clock readings that go wrong\<close>

text \<open>
  The clock makes 12.5 ticks per microsecond, and \<open>get_time_us\<close> divides by 12: after one second it
  reports 1041666 microseconds. \<open>get_time_ns\<close> multiplies first and wraps around after about 25
  minutes. \<open>+=\<close> on \<open>TimeSpec\<close> does not carry, so its result compares wrongly.
\<close>

lemma get_time_us_fast: "get_time_us CLOCK_FREQ = 1041666"
  by (simp add: get_time_us_def CLOCK_FREQ_def USEC_PER_SEC_def)

lemma get_time_ns_wraps: "get_time_ns (1476 * CLOCK_FREQ) < get_time_ns CLOCK_FREQ"
  by (simp add: get_time_ns_def CLOCK_FREQ_def NSEC_PER_SEC_def)

lemma add_assign_not_normal:
  "ts_cmp (ts_add_assign \<lparr>ts_sec = 0, ts_nsec = 900000000\<rparr> \<lparr>ts_sec = 0, ts_nsec = 900000000\<rparr>) \<lparr>ts_sec = 1, ts_nsec = 0\<rparr> = Less"
  "ts_cmp (ts_add \<lparr>ts_sec = 0, ts_nsec = 900000000\<rparr> \<lparr>ts_sec = 0, ts_nsec = 900000000\<rparr>) \<lparr>ts_sec = 1, ts_nsec = 0\<rparr> = Greater"
  by (simp_all add: ts_add_assign_def ts_add_def ts_cmp_def word_cmp_def NSEC_PER_SEC_def)

end
