(* ===== verification/Task_Manager.thy ===== *)
theory Task_Manager
  imports Mm_Properties Timer
begin

text \<open>
  Scheduling queues and waiting, \<open>task/manager.rs\<close>: the tracker of recently active tasks, the
  ready and the interruptible queue of \<open>TaskManager\<close>, reclaiming memory from the tasks (\<open>do_oom\<close>),
  and the two kinds of wait queues. A task control block is named by a natural number, the
  identity of its \<open>Arc\<close>; \<open>tasks\<close> maps the numbers of the live ones to what the queues look at, so
  \<open>Weak::upgrade\<close> fails exactly outside its domain.
\<close>

section \<open>Definitions\<close>

subsection \<open>Tasks\<close>

datatype task_status = Ready | Running | Zombie | Interruptible

record tcb =
  t_pid :: usize
  t_tgid :: usize
  t_status :: task_status
  t_vm :: nat

type_synonym tasks = "nat \<rightharpoonup> tcb"

subsection \<open>Active tasks\<close>

definition SYSTEM_TASK_LIMIT :: usize where "SYSTEM_TASK_LIMIT = 128"

definition at_new :: "u64 list" where
  "at_new = vec_resize (unat ((SYSTEM_TASK_LIMIT + 63) div 64)) 0 []"

definition ensure_capacity :: "usize \<Rightarrow> u64 list \<Rightarrow> u64 list" where
  "ensure_capacity pid bitmap =
     (let needed = unat (pid div 64 + 1) in if length bitmap < needed then vec_resize needed 0 bitmap else bitmap)"

definition check_active :: "usize \<Rightarrow> u64 list \<Rightarrow> bool" where
  "check_active pid bitmap =
     (let idx = unat (pid div 64) in
      if length bitmap \<le> idx then False else bitmap ! idx AND push_bit (unat (pid mod 64)) 1 \<noteq> 0)"

definition check_inactive :: "usize \<Rightarrow> u64 list \<Rightarrow> bool" where
  "check_inactive pid bitmap =
     (let idx = unat (pid div 64) in
      if length bitmap \<le> idx then True else bitmap ! idx AND push_bit (unat (pid mod 64)) 1 = 0)"

definition mark_active :: "usize \<Rightarrow> u64 list \<Rightarrow> u64 list" where
  "mark_active pid bitmap =
     (let bitmap = ensure_capacity pid bitmap; idx = unat (pid div 64) in
      if idx < length bitmap then bitmap[idx := bitmap ! idx OR push_bit (unat (pid mod 64)) 1] else bitmap)"

definition mark_inactive :: "usize \<Rightarrow> u64 list \<Rightarrow> u64 list" where
  "mark_inactive pid bitmap =
     (let bitmap = ensure_capacity pid bitmap; idx = unat (pid div 64) in
      if idx < length bitmap then bitmap[idx := bitmap ! idx AND NOT (push_bit (unat (pid mod 64)) 1)] else bitmap)"

subsection \<open>The task manager\<close>

record task_manager =
  ready_queue :: "nat list"
  interruptible_queue :: "nat list"
  active_tracker :: "u64 list"

definition tm_new :: task_manager where
  "tm_new = \<lparr>ready_queue = [], interruptible_queue = [], active_tracker = at_new\<rparr>"

definition tm_add :: "nat \<Rightarrow> task_manager \<Rightarrow> task_manager" where
  "tm_add t tm = tm\<lparr>ready_queue := ready_queue tm @ [t]\<rparr>"

definition tm_fetch :: "tasks \<Rightarrow> task_manager \<Rightarrow> nat option \<times> task_manager" where
  "tm_fetch tasks tm =
     (case ready_queue tm of
        [] \<Rightarrow> (None, tm)
      | t # ts \<Rightarrow> (Some t, tm\<lparr>ready_queue := ts, active_tracker := mark_active (t_pid (the (tasks t))) (active_tracker tm)\<rparr>))"

definition add_interruptible :: "nat \<Rightarrow> task_manager \<Rightarrow> task_manager" where
  "add_interruptible t tm = tm\<lparr>interruptible_queue := interruptible_queue tm @ [t]\<rparr>"

definition drop_interruptible :: "nat \<Rightarrow> task_manager \<Rightarrow> task_manager" where
  "drop_interruptible t tm = tm\<lparr>interruptible_queue := filter (\<lambda>u. u \<noteq> t) (interruptible_queue tm)\<rparr>"

definition find_by_pid :: "tasks \<Rightarrow> usize \<Rightarrow> task_manager \<Rightarrow> nat option" where
  "find_by_pid tasks pid tm = find (\<lambda>t. t_pid (the (tasks t)) = pid) (ready_queue tm @ interruptible_queue tm)"

definition find_by_tgid :: "tasks \<Rightarrow> usize \<Rightarrow> task_manager \<Rightarrow> nat option" where
  "find_by_tgid tasks tgid tm = find (\<lambda>t. t_tgid (the (tasks t)) = tgid) (ready_queue tm @ interruptible_queue tm)"

definition ready_count :: "task_manager \<Rightarrow> u16" where
  "ready_count tm = of_nat (length (ready_queue tm))"

definition interruptible_count :: "task_manager \<Rightarrow> u16" where
  "interruptible_count tm = of_nat (length (interruptible_queue tm))"

definition procs_count :: "task_manager \<Rightarrow> u16" where
  "procs_count tm = ready_count tm + interruptible_count tm"

text \<open>\<open>WaitQueueError\<close> has the one value \<open>AlreadyWaken\<close>.\<close>

definition try_wake_interruptible :: "tasks \<Rightarrow> nat \<Rightarrow> task_manager \<Rightarrow> (unit + unit) \<times> task_manager" where
  "try_wake_interruptible tasks t tm =
     (let tm = drop_interruptible t tm in
      case find_by_pid tasks (t_pid (the (tasks t))) tm of
        None \<Rightarrow> (Inr (), tm_add t tm)
      | Some _ \<Rightarrow> (Inl (), tm))"

definition wake_interruptible :: "tasks \<Rightarrow> nat \<Rightarrow> task_manager \<Rightarrow> task_manager" where
  "wake_interruptible tasks t tm = snd (try_wake_interruptible tasks t tm)"

subsection \<open>Reclaiming memory from the tasks\<close>

text \<open>
  The address spaces of the tasks are the list \<open>spaces\<close>; a task names its own by position, and the
  tasks of a thread group name the same one. The loops stop as soon as \<open>req\<close> pages are released.
\<close>

fun oom_pass ::
  "('f memory_set \<Rightarrow> ('d, 'z) world \<Rightarrow> (usize \<times> 'f memory_set \<times> ('d, 'z) world) option) \<Rightarrow> tasks \<Rightarrow> usize \<Rightarrow> nat list \<Rightarrow>
   usize list \<Rightarrow> usize \<Rightarrow> 'f memory_set list \<Rightarrow> ('d, 'z) world \<Rightarrow>
   (bool \<times> usize list \<times> usize \<times> 'f memory_set list \<times> ('d, 'z) world) option" where
  "oom_pass clean tasks req [] cleaned total_released spaces w = Some (False, cleaned, total_released, spaces, w)"
| "oom_pass clean tasks req (t # ts) cleaned total_released spaces w =
     do { let tcb = the (tasks t);
          (released, ms, w) \<leftarrow> clean (spaces ! t_vm tcb) w;
          let spaces = spaces[t_vm tcb := ms];
          let cleaned = cleaned @ [t_pid tcb];
          let total_released = total_released + released;
          if req \<le> total_released then Some (True, cleaned, total_released, spaces, w)
          else oom_pass clean tasks req ts cleaned total_released spaces w }"

definition active_tasks :: "tasks \<Rightarrow> task_manager \<Rightarrow> nat list \<Rightarrow> nat list" where
  "active_tasks tasks tm = filter (\<lambda>t. check_active (t_pid (the (tasks t))) (active_tracker tm))"

definition oom_done :: "usize list \<Rightarrow> task_manager \<Rightarrow> task_manager" where
  "oom_done cleaned tm = tm\<lparr>active_tracker := foldr mark_inactive cleaned (active_tracker tm)\<rparr>"

definition task_do_oom ::
  "'d kenv \<Rightarrow> tasks \<Rightarrow> usize \<Rightarrow> task_manager \<Rightarrow> 'f memory_set list \<Rightarrow> ('d, 'z) world \<Rightarrow>
   ((unit + unit) \<times> task_manager \<times> 'f memory_set list \<times> ('d, 'z) world) option" where
  "task_do_oom env tasks req tm spaces w =
     do { (enough, cleaned, total_released, spaces, w) \<leftarrow>
            oom_pass (do_deep_clean env) tasks req (active_tasks tasks tm (interruptible_queue tm)) [] 0 spaces w;
          if enough then Some (Inr (), oom_done cleaned tm, spaces, w)
          else do {
            (enough, cleaned, total_released, spaces, w) \<leftarrow>
              oom_pass (do_shallow_clean env) tasks req (active_tasks tasks tm (rev (ready_queue tm))) cleaned total_released spaces w;
            if enough then Some (Inr (), oom_done cleaned tm, spaces, w)
            else Some (Inl (), tm, spaces, w) } }"

subsection \<open>Wait queues\<close>

type_synonym wait_queue = "nat list"

definition wq_add_task :: "nat \<Rightarrow> wait_queue \<Rightarrow> wait_queue" where
  "wq_add_task t q = q @ [t]"

definition wq_pop_task :: "wait_queue \<Rightarrow> nat option \<times> wait_queue" where
  "wq_pop_task q = (case q of [] \<Rightarrow> (None, []) | t # ts \<Rightarrow> (Some t, ts))"

definition wq_contains :: "nat \<Rightarrow> wait_queue \<Rightarrow> bool" where
  "wq_contains t q = list_ex (\<lambda>u. u = t) q"

text \<open>
  The body shared by both kinds of queues: a task that is alive and interruptible becomes ready and
  goes to the ready queue. \<^const>\<open>None\<close> says that the task was passed over.
\<close>

definition wake_task :: "nat \<Rightarrow> tasks \<Rightarrow> task_manager \<Rightarrow> ((unit + unit) \<times> tasks \<times> task_manager) option" where
  "wake_task t tasks tm =
     (case tasks t of
        None \<Rightarrow> None
      | Some tcb \<Rightarrow>
          if t_status tcb = Interruptible then
            (let tasks = tasks(t \<mapsto> tcb\<lparr>t_status := Ready\<rparr>);
                 (res, tm) = try_wake_interruptible tasks t tm
             in Some (res, tasks, tm))
          else None)"

fun wake_loop :: "usize \<Rightarrow> usize \<Rightarrow> wait_queue \<Rightarrow> tasks \<Rightarrow> task_manager \<Rightarrow> usize \<times> wait_queue \<times> tasks \<times> task_manager" where
  "wake_loop limit cnt [] tasks tm = (cnt, [], tasks, tm)"
| "wake_loop limit cnt (t # q) tasks tm =
     (case wake_task t tasks tm of
        None \<Rightarrow> wake_loop limit cnt q tasks tm
      | Some (res, tasks, tm) \<Rightarrow>
          (let cnt = (case res of Inr _ \<Rightarrow> cnt + 1 | Inl _ \<Rightarrow> cnt) in
           if cnt = limit then (cnt, q, tasks, tm) else wake_loop limit cnt q tasks tm))"

definition wake_at_most :: "usize \<Rightarrow> wait_queue \<Rightarrow> tasks \<Rightarrow> task_manager \<Rightarrow> usize \<times> wait_queue \<times> tasks \<times> task_manager" where
  "wake_at_most limit q tasks tm = (if limit = 0 then (0, q, tasks, tm) else wake_loop limit 0 q tasks tm)"

definition wake_all :: "wait_queue \<Rightarrow> tasks \<Rightarrow> task_manager \<Rightarrow> usize \<times> wait_queue \<times> tasks \<times> task_manager" where
  "wake_all q tasks tm = wake_at_most (- 1) q tasks tm"

subsection \<open>Waiting with a timeout\<close>

text \<open>
  The binary heap gives back a waiter with the smallest timeout; which one, if there are several, is
  left to the argument \<open>pick\<close>, an index into the waiters in the heap.
\<close>

record timeout_waiter =
  tw_task :: nat
  tw_timeout :: time_spec

definition twq_add_task :: "nat \<Rightarrow> time_spec \<Rightarrow> timeout_waiter list \<Rightarrow> timeout_waiter list" where
  "twq_add_task t timeout h = h @ [\<lparr>tw_task = t, tw_timeout = timeout\<rparr>]"

definition heap_pick_ok :: "(timeout_waiter list \<Rightarrow> nat) \<Rightarrow> bool" where
  "heap_pick_ok pick \<longleftrightarrow> (\<forall>h. h \<noteq> [] \<longrightarrow> pick h < length h \<and>
     (\<forall>x \<in> set h. ts_cmp (tw_timeout (h ! pick h)) (tw_timeout x) \<noteq> Greater))"

function wake_expired ::
  "(timeout_waiter list \<Rightarrow> nat) \<Rightarrow> time_spec \<Rightarrow> timeout_waiter list \<Rightarrow> tasks \<Rightarrow> task_manager \<Rightarrow>
   (timeout_waiter list \<times> tasks \<times> task_manager)" where
  "wake_expired pick now h tasks tm =
     (if h = [] \<or> length h \<le> pick h then (h, tasks, tm)
      else let waiter = h ! pick h; h' = vec_remove (pick h) h in
        if ts_cmp (tw_timeout waiter) now = Greater then (h' @ [waiter], tasks, tm)
        else case wake_task (tw_task waiter) tasks tm of
            None \<Rightarrow> wake_expired pick now h' tasks tm
          | Some (_, tasks, tm) \<Rightarrow> wake_expired pick now h' tasks tm)"
  by pat_completeness auto
termination
  by (relation "measure (\<lambda>(pick, now, h, tasks, tm). length h)") (auto simp: vec_remove_def)

declare wake_expired.simps [simp del]

section \<open>The tracker is a set of pids\<close>

lemma pid_index: "unat (pid div 64 + 1 :: usize) = unat pid div 64 + 1" "unat (pid div 64) = unat pid div 64"
  "unat (pid mod 64) = unat pid mod 64" for pid :: usize
proof -
  show d: "unat (pid div 64) = unat pid div 64" by (simp add: unat_div)
  have "unat pid div 64 < 2 ^ 58" using unat_u64_bound [of pid] by (simp add: less_mult_imp_div_less)
  then show "unat (pid div 64 + 1) = unat pid div 64 + 1" using d by (simp add: unat_word_ariths(1))
qed (simp add: unat_mod)

lemma and_bit_zero: "(x :: u64) AND push_bit k 1 = 0 \<longleftrightarrow> \<not> bit x k" if "k < 64"
proof
  assume "x AND push_bit k 1 = 0"
  then have "\<not> bit (x AND push_bit k 1) k" by simp
  then show "\<not> bit x k" unfolding bit_and_iff bit_single using that by simp
next
  assume "\<not> bit x k"
  then show "x AND push_bit k 1 = 0" by (intro bit_word_eqI) (unfold bit_and_iff bit_single, auto)
qed

lemma check_active_bit:
  "check_active pid b \<longleftrightarrow> unat pid div 64 < length b \<and> bit (b ! (unat pid div 64)) (unat pid mod 64)"
  unfolding check_active_def Let_def pid_index using and_bit_zero [of "unat pid mod 64" "b ! (unat pid div 64)"] by auto

lemma check_inactive_not: "check_inactive pid b \<longleftrightarrow> \<not> check_active pid b"
  by (auto simp: check_active_def check_inactive_def Let_def)

lemma ensure_capacity_props:
  "unat pid div 64 < length (ensure_capacity pid b)" "check_active p (ensure_capacity pid b) = check_active p b"
  "ensure_capacity pid b ! i = (if i < length b then b ! i else ensure_capacity pid b ! i)"
proof -
  show "unat pid div 64 < length (ensure_capacity pid b)" by (simp add: ensure_capacity_def pid_index vec_resize_def)
  show e: "ensure_capacity pid b ! i = (if i < length b then b ! i else ensure_capacity pid b ! i)" for i
    by (simp add: ensure_capacity_def vec_resize_def nth_append Let_def)
  show "check_active p (ensure_capacity pid b) = check_active p b"
    by (auto simp: check_active_bit ensure_capacity_def vec_resize_def nth_append pid_index)
qed

lemma pid_bits: "unat p div 64 = unat pid div 64 \<and> unat p mod 64 = unat pid mod 64 \<longleftrightarrow> p = pid" for p pid :: usize
  by (metis div_mult_mod_eq word_unat_eq_iff)

lemma mark_active_set: "check_active p (mark_active pid b) \<longleftrightarrow> p = pid \<or> check_active p b"
proof -
  note e = ensure_capacity_props(1) [of pid b]
  have "check_active p (mark_active pid b) \<longleftrightarrow> p = pid \<or> check_active p (ensure_capacity pid b)"
    using e pid_bits [of p pid] unfolding mark_active_def Let_def pid_index check_active_bit
    by (auto simp: nth_list_update bit_or_iff bit_single simp del: push_bit_of_1)
  then show ?thesis by (simp add: ensure_capacity_props(2))
qed

lemma mark_inactive_set: "check_active p (mark_inactive pid b) \<longleftrightarrow> p \<noteq> pid \<and> check_active p b"
proof -
  note e = ensure_capacity_props(1) [of pid b]
  have "check_active p (mark_inactive pid b) \<longleftrightarrow> p \<noteq> pid \<and> check_active p (ensure_capacity pid b)"
    using e pid_bits [of p pid] unfolding mark_inactive_def Let_def pid_index check_active_bit
    by (auto simp: nth_list_update bit_and_iff bit_not_iff bit_single simp del: push_bit_of_1)
  then show ?thesis by (simp add: ensure_capacity_props(2))
qed

lemma mark_inactive_all: "check_active p (foldr mark_inactive pids b) \<longleftrightarrow> p \<notin> set pids \<and> check_active p b"
  by (induction pids) (auto simp: mark_inactive_set)

section \<open>Reclaiming leaves every process as it was\<close>

text \<open>What a clean-up of one address space promises; both passes of \<open>do_oom\<close> use such a clean-up.\<close>

locale space_cleaner =
  fixes env :: "'d kenv"
    and clean :: "'f memory_set \<Rightarrow> ('d, 'z) world \<Rightarrow> (usize \<times> 'f memory_set \<times> ('d, 'z) world) option"
  assumes clean_law: "env_ok env \<Longrightarrow> ms_inv lo N ms w \<Longrightarrow>
    \<exists>ms' w' m. clean ms w = Some (m, ms', w') \<and> space_step lo env N ms w ms' w' \<and>
      ms_view env w' ms' = ms_view env w ms \<and> km_free w \<le> km_free w'"
begin

lemma pass_ok:
  assumes "env_ok env" and "sys_inv lo M spaces w" and "\<forall>t \<in> set ts. t_vm (the (tasks t)) < length spaces"
  shows "\<exists>enough cleaned' tot' spaces' w'.
    oom_pass clean tasks req ts cleaned tot spaces w = Some (enough, cleaned', tot', spaces', w') \<and>
    sys_inv lo M spaces' w' \<and> length spaces' = length spaces \<and>
    (\<forall>i < length spaces. ms_view env w' (spaces' ! i) = ms_view env w (spaces ! i)) \<and> km_free w \<le> km_free w' \<and>
    (enough \<longrightarrow> req \<le> tot')"
  using assms(2,3)
proof (induction ts arbitrary: cleaned tot spaces w)
  case Nil
  then show ?case by (intro exI [of _ False]) simp
next
  case (Cons t ts)
  let ?i = "t_vm (the (tasks t))"
  have i: "?i < length spaces" using Cons.prems(2) by simp
  let ?ss = "take ?i spaces" and ?ms = "spaces ! ?i" and ?ts = "drop (Suc ?i) spaces"
  have split: "?ss @ ?ms # ?ts = spaces" using i by (simp add: id_take_nth_drop [symmetric])
  have inv: "sys_inv lo M (?ss @ ?ms # ?ts) w" using Cons.prems(1) unfolding split .
  obtain ms' w1 m where c: "clean ?ms w = Some (m, ms', w1)" "space_step lo env (held_by (?ss @ ?ts) + M) ?ms w ms' w1"
    "ms_view env w1 ms' = ms_view env w ?ms" "km_free w \<le> km_free w1"
    using clean_law [OF assms(1) sys_focus [OF inv]] by blast
  note up = sys_update [OF inv c(2)]
  let ?sp = "spaces[?i := ms']"
  have sp: "sys_inv lo M ?sp w1" using up(1) unfolding upd_conv_take_nth_drop [OF i] .
  have view: "ms_view env w1 (?sp ! j) = ms_view env w (spaces ! j)" if "j < length spaces" for j
  proof (cases "j = ?i")
    case False
    have "spaces ! j \<in> set ?ss \<union> set ?ts"
    proof (cases "j < ?i")
      case True
      then have "?ss ! j = spaces ! j" "j < length ?ss" using i by simp_all
      then show ?thesis by (metis UnI1 nth_mem)
    next
      case False
      with \<open>j \<noteq> ?i\<close> have "?ts ! (j - Suc ?i) = spaces ! j" "j - Suc ?i < length ?ts" using that by simp_all
      then show ?thesis by (metis UnI2 nth_mem)
    qed
    then show ?thesis using up(2) False by simp
  qed (use c(3) i in simp)
  show ?case
  proof (cases "req \<le> tot + m")
    case True
    then show ?thesis using c(1,4) sp view by (intro exI [of _ True]) (simp add: Let_def)
  next
    case False
    have "sys_inv lo M ?sp w1" "\<forall>t \<in> set ts. t_vm (the (tasks t)) < length ?sp" using sp Cons.prems(2) by simp_all
    from Cons.IH [OF this, of "cleaned @ [t_pid (the (tasks t))]" "tot + m"] obtain enough cleaned' tot' spaces' w' where
      "oom_pass clean tasks req ts (cleaned @ [t_pid (the (tasks t))]) (tot + m) ?sp w1 = Some (enough, cleaned', tot', spaces', w')"
      "sys_inv lo M spaces' w'" "length spaces' = length ?sp"
      "\<forall>j < length ?sp. ms_view env w' (spaces' ! j) = ms_view env w1 (?sp ! j)" "km_free w1 \<le> km_free w'"
      "enough \<longrightarrow> req \<le> tot'" by blast
    then show ?thesis using False c(1,4) view by (simp add: Let_def)
  qed
qed

end

interpretation deep: space_cleaner env "do_deep_clean env" for env :: "'d kenv"
proof
  fix lo N ms and w :: "('d, 'z) world"
  assume "env_ok env" "ms_inv lo N ms w"
  from do_deep_clean_ok [OF this] obtain ms' w' n r where c: "do_deep_clean env ms w = Some (r, ms', w')"
    "clean_effect lo env N (ms_page_table ms) (ms_areas ms) w (ms_areas ms') w'" "ms_page_table ms' = ms_page_table ms"
    "km_free w' = km_free w + n" by blast
  with clean_step(1,2) [OF c(2,3)] show "\<exists>ms' w' m. do_deep_clean env ms w = Some (m, ms', w') \<and> space_step lo env N ms w ms' w' \<and>
      ms_view env w' ms' = ms_view env w ms \<and> km_free w \<le> km_free w'" by simp
qed

interpretation shallow: space_cleaner env "do_shallow_clean env" for env :: "'d kenv"
proof
  fix lo N ms and w :: "('d, 'z) world"
  assume "env_ok env" "ms_inv lo N ms w"
  from do_shallow_clean_ok [OF this] obtain ms' w' r where c: "do_shallow_clean env ms w = Some (r, ms', w')"
    "clean_effect lo env N (ms_page_table ms) (ms_areas ms) w (ms_areas ms') w'" "ms_page_table ms' = ms_page_table ms"
    "km_free w' = km_free w + unat r" by blast
  with clean_step(1,2) [OF c(2,3)] show "\<exists>ms' w' m. do_shallow_clean env ms w = Some (m, ms', w') \<and> space_step lo env N ms w ms' w' \<and>
      ms_view env w' ms' = ms_view env w ms \<and> km_free w \<le> km_free w'" by simp
qed

text \<open>
  C21. Reclaiming memory from the tasks is invisible. Whatever the queues and the tracker hold,
  \<open>do_oom\<close> returns; the system invariant still holds, every process sees the same memory as before,
  no frame is taken from the allocator, the queues are unchanged and no task becomes active.
\<close>

theorem task_oom_invisible:
  fixes w :: "('d, 'z) world" and spaces :: "'f memory_set list"
  assumes env: "env_ok env" and inv: "sys_inv lo M spaces w"
    and tasks: "\<forall>t \<in> set (ready_queue tm) \<union> set (interruptible_queue tm). t_vm (the (tasks t)) < length spaces"
  shows "\<exists>res tm' spaces' w'. task_do_oom env tasks req tm spaces w = Some (res, tm', spaces', w') \<and>
    sys_inv lo M spaces' w' \<and> length spaces' = length spaces \<and>
    (\<forall>i < length spaces. ms_view env w' (spaces' ! i) = ms_view env w (spaces ! i)) \<and> km_free w \<le> km_free w' \<and>
    ready_queue tm' = ready_queue tm \<and> interruptible_queue tm' = interruptible_queue tm \<and>
    (\<forall>pid. check_active pid (active_tracker tm') \<longrightarrow> check_active pid (active_tracker tm))"
proof -
  let ?ts1 = "active_tasks tasks tm (interruptible_queue tm)" and ?ts2 = "active_tasks tasks tm (rev (ready_queue tm))"
  have 0: "\<forall>t \<in> set ?ts1. t_vm (the (tasks t)) < length spaces" "\<forall>t \<in> set ?ts2. t_vm (the (tasks t)) < length spaces"
    using tasks by (auto simp: active_tasks_def)
  obtain e1 c1 n1 sp1 w1 where 1: "oom_pass (do_deep_clean env) tasks req ?ts1 [] 0 spaces w = Some (e1, c1, n1, sp1, w1)"
    "sys_inv lo M sp1 w1" "length sp1 = length spaces"
    "\<forall>i < length spaces. ms_view env w1 (sp1 ! i) = ms_view env w (spaces ! i)" "km_free w \<le> km_free w1"
    using deep.pass_ok [OF env inv 0(1), of req "[]" 0] by blast
  have 02: "\<forall>t \<in> set ?ts2. t_vm (the (tasks t)) < length sp1" using 0(2) 1(3) by simp
  obtain e2 c2 n2 sp2 w2 where 2: "oom_pass (do_shallow_clean env) tasks req ?ts2 c1 n1 sp1 w1 = Some (e2, c2, n2, sp2, w2)"
    "sys_inv lo M sp2 w2" "length sp2 = length sp1"
    "\<forall>i < length sp1. ms_view env w2 (sp2 ! i) = ms_view env w1 (sp1 ! i)" "km_free w1 \<le> km_free w2"
    using shallow.pass_ok [OF env 1(2) 02, of req c1 n1] by blast
  show ?thesis
  proof (cases e1)
    case True
    then show ?thesis using 1 by (simp add: task_do_oom_def oom_done_def mark_inactive_all)
  next
    case False
    then show ?thesis using 1 2 by (cases e2) (simp_all add: task_do_oom_def oom_done_def mark_inactive_all)
  qed
qed

definition sample_tm :: task_manager where
  "sample_tm = \<lparr>ready_queue = [0], interruptible_queue = [1], active_tracker = [6, 0]\<rparr>"

definition sample_tasks :: tasks where
  "sample_tasks = [0 \<mapsto> \<lparr>t_pid = 1, t_tgid = 1, t_status = Ready, t_vm = 0\<rparr>,
     1 \<mapsto> \<lparr>t_pid = 2, t_tgid = 1, t_status = Interruptible, t_vm = 0\<rparr>]"

theorem task_oom_invisible_witness:
  "\<exists>res tm' ms' w'. task_do_oom sample_env sample_tasks 1 sample_tm [sample_ms] sample_w = Some (res, tm', [ms'], w') \<and>
     ms_view sample_env w' ms' = ms_view sample_env sample_w sample_ms"
proof -
  have "\<forall>t \<in> set (ready_queue sample_tm) \<union> set (interruptible_queue sample_tm). t_vm (the (sample_tasks t)) < length [sample_ms]"
    by (simp add: sample_tm_def sample_tasks_def)
  from task_oom_invisible [OF sample_env_ok sample_sys(1) this] show ?thesis
    by (fastforce simp: length_Suc_conv)
qed

section \<open>The queues of the scheduler\<close>

text \<open>
  No task is queued twice; the queued tasks are alive and in the state their queue stands for, every
  interruptible task is in the interruptible queue, and pids are unique.
\<close>

definition has_status :: "task_status \<Rightarrow> tasks \<Rightarrow> nat \<Rightarrow> bool" where
  "has_status st tasks t \<longleftrightarrow> (\<exists>tcb. tasks t = Some tcb \<and> t_status tcb = st)"

definition sched_inv :: "tasks \<Rightarrow> task_manager \<Rightarrow> bool" where
  "sched_inv tasks tm \<longleftrightarrow> distinct (ready_queue tm @ interruptible_queue tm) \<and>
     (\<forall>t \<in> set (ready_queue tm). has_status Ready tasks t) \<and>
     (\<forall>t. t \<in> set (interruptible_queue tm) \<longleftrightarrow> has_status Interruptible tasks t) \<and>
     inj_on (\<lambda>t. t_pid (the (tasks t))) (dom tasks)"

definition set_ready :: "nat set \<Rightarrow> tasks \<Rightarrow> tasks" where
  "set_ready W tasks t = (if t \<in> W then map_option (\<lambda>tcb. tcb\<lparr>t_status := Ready\<rparr>) (tasks t) else tasks t)"

definition move_ready :: "nat list \<Rightarrow> task_manager \<Rightarrow> task_manager" where
  "move_ready ts tm = tm\<lparr>ready_queue := ready_queue tm @ ts,
     interruptible_queue := filter (\<lambda>t. t \<notin> set ts) (interruptible_queue tm)\<rparr>"

lemma move_ready_simps [simp]:
  "move_ready [] tm = tm" "move_ready us (move_ready ts tm) = move_ready (ts @ us) tm"
  by (simp_all add: move_ready_def conj_commute)

lemma set_ready_simps [simp]: "set_ready {} tasks = tasks" "set_ready V (set_ready W tasks) = set_ready (V \<union> W) tasks"
  by (auto simp: set_ready_def fun_eq_iff option.map_comp o_def)

lemma set_ready_dom [simp]: "dom (set_ready W tasks) = dom tasks"
  by (auto simp: set_ready_def split: if_splits)

lemma set_ready_pid [simp]: "t \<in> dom tasks \<Longrightarrow> t_pid (the (set_ready W tasks t)) = t_pid (the (tasks t))"
  by (auto simp: set_ready_def)

lemma has_status_ready [simp]:
  "has_status st (set_ready W tasks) t \<longleftrightarrow> (if t \<in> W then t \<in> dom tasks \<and> st = Ready else has_status st tasks t)"
  by (auto simp: has_status_def set_ready_def)

lemma sched_dom: "sched_inv tasks tm \<Longrightarrow> t \<in> set (ready_queue tm) \<union> set (interruptible_queue tm) \<Longrightarrow> t \<in> dom tasks"
  by (auto simp: sched_inv_def has_status_def)

lemma find_by_pid_none:
  assumes "sched_inv tasks tm" and "t \<in> dom tasks" and "t \<notin> set (ready_queue tm) \<union> set (interruptible_queue tm)"
  shows "find_by_pid tasks (t_pid (the (tasks t))) tm = None"
proof -
  have "t_pid (the (tasks u)) \<noteq> t_pid (the (tasks t))" if "u \<in> set (ready_queue tm) \<union> set (interruptible_queue tm)" for u
    using sched_dom [OF assms(1) that] assms that unfolding sched_inv_def inj_on_def by blast
  then show ?thesis by (auto simp: find_by_pid_def find_None_iff)
qed

lemma wake_task_sched:
  assumes inv: "sched_inv tasks tm" and t: "has_status Interruptible tasks t"
  shows "wake_task t tasks tm = Some (Inr (), set_ready {t} tasks, move_ready [t] tm)"
    and "sched_inv (set_ready {t} tasks) (move_ready [t] tm)"
proof -
  obtain tcb where tcb: "tasks t = Some tcb" "t_status tcb = Interruptible" using t by (auto simp: has_status_def)
  have tasks': "tasks(t \<mapsto> tcb\<lparr>t_status := Ready\<rparr>) = set_ready {t} tasks" using tcb(1) by (auto simp: set_ready_def fun_eq_iff)
  have d: "distinct (ready_queue tm @ interruptible_queue tm)" "t \<notin> set (ready_queue tm)"
    using inv tcb by (auto simp: sched_inv_def has_status_def)
  have "t_pid (the (tasks u)) \<noteq> t_pid tcb" if "u \<in> set (ready_queue tm) \<union> set (interruptible_queue tm)" "u \<noteq> t" for u
    using sched_dom [OF inv that(1)] inv that(2) tcb(1) unfolding sched_inv_def inj_on_def by (metis domI option.sel)
  moreover have "\<forall>u \<in> set (ready_queue tm). u \<noteq> t" using d(2) by auto
  ultimately have "find_by_pid (set_ready {t} tasks) (t_pid tcb) (drop_interruptible t tm) = None"
    by (auto simp: find_by_pid_def find_None_iff drop_interruptible_def set_ready_def)
  then show "wake_task t tasks tm = Some (Inr (), set_ready {t} tasks, move_ready [t] tm)"
    using tcb tasks' by (simp add: wake_task_def Let_def try_wake_interruptible_def tm_add_def drop_interruptible_def move_ready_def)
      (simp add: set_ready_def tm_add_def)
  show "sched_inv (set_ready {t} tasks) (move_ready [t] tm)"
    unfolding sched_inv_def
  proof (intro conjI)
    have "inj_on (\<lambda>u. t_pid (the (tasks u))) (dom tasks)" using inv by (simp add: sched_inv_def)
    then show "inj_on (\<lambda>u. t_pid (the (set_ready {t} tasks u))) (dom (set_ready {t} tasks))"
      unfolding set_ready_dom by (rule inj_on_cong [THEN iffD1, rotated]) simp
    show "\<forall>u \<in> set (ready_queue (move_ready [t] tm)). has_status Ready (set_ready {t} tasks) u"
      using inv tcb(1) by (auto simp: sched_inv_def move_ready_def)
    show "\<forall>u. u \<in> set (interruptible_queue (move_ready [t] tm)) \<longleftrightarrow> has_status Interruptible (set_ready {t} tasks) u"
      using inv by (simp add: sched_inv_def move_ready_def)
  qed (use d in \<open>auto simp: move_ready_def\<close>)
qed

lemma wake_task_skip: "\<not> has_status Interruptible tasks t \<Longrightarrow> wake_task t tasks tm = None"
  by (auto simp: wake_task_def has_status_def split: option.splits)

section \<open>Waking\<close>

fun nub :: "'a list \<Rightarrow> 'a list" where
  "nub [] = []"
| "nub (x # xs) = x # filter (\<lambda>y. y \<noteq> x) (nub xs)"

lemma set_nub [simp]: "set (nub xs) = set xs"
  by (induction xs) auto

lemma filter_nub: "filter P (nub xs) = nub (filter P xs)"
proof (induction xs)
  case (Cons a xs)
  have "filter P (filter (\<lambda>y. y \<noteq> a) (nub xs)) = filter (\<lambda>y. y \<noteq> a) (nub (filter P xs))"
    by (simp add: conj_commute flip: Cons.IH)
  moreover have "filter (\<lambda>y. y \<noteq> a) (nub (filter P xs)) = nub (filter P xs)" if "\<not> P a"
    using that by (auto simp: filter_id_conv)
  ultimately show ?case by simp
qed simp

lemma distinct_nub: "distinct (nub xs)"
  by (induction xs) auto

lemma length_nub: "length (nub xs) \<le> length xs"
proof (induction xs)
  case (Cons x xs)
  then show ?case using le_trans [OF length_filter_le] by simp
qed simp

text \<open>The tasks of a wait queue that a wake-up finds asleep, in the order of the queue, each once.\<close>

definition sleepers :: "tasks \<Rightarrow> wait_queue \<Rightarrow> nat list" where
  "sleepers tasks q = nub (filter (has_status Interruptible tasks) q)"

lemma sleepers_simps [simp]:
  "sleepers tasks [] = []"
  "\<not> has_status Interruptible tasks t \<Longrightarrow> sleepers tasks (t # q) = sleepers tasks q"
  by (simp_all add: sleepers_def)

lemma sleepers_wake:
  assumes "has_status Interruptible tasks t"
  shows "sleepers tasks (t # q) = t # sleepers (set_ready {t} tasks) q"
proof -
  have "filter (has_status Interruptible (set_ready {t} tasks)) q = filter (\<lambda>u. u \<noteq> t) (filter (has_status Interruptible tasks) q)"
    by (auto intro!: filter_cong split: if_splits)
  then show ?thesis using assms by (simp add: sleepers_def filter_nub)
qed

lemma wake_loop_ok:
  assumes "sched_inv tasks tm" and "unat cnt < unat limit"
  shows "\<exists>p q' ws. wake_loop limit cnt q tasks tm = (cnt + of_nat (length ws), q', set_ready (set ws) tasks, move_ready ws tm) \<and>
    q = p @ q' \<and> ws = sleepers tasks p \<and> unat cnt + length ws \<le> unat limit \<and>
    (unat cnt + length ws < unat limit \<longrightarrow> q' = []) \<and> sched_inv (set_ready (set ws) tasks) (move_ready ws tm)"
  using assms
proof (induction q arbitrary: cnt tasks tm)
  case Nil
  then show ?case by simp
next
  case (Cons t q)
  show ?case
  proof (cases "has_status Interruptible tasks t")
    case False
    obtain p q' ws where "wake_loop limit cnt q tasks tm = (cnt + of_nat (length ws), q', set_ready (set ws) tasks, move_ready ws tm)"
      "q = p @ q'" "ws = sleepers tasks p" "unat cnt + length ws \<le> unat limit"
      "unat cnt + length ws < unat limit \<longrightarrow> q' = []" "sched_inv (set_ready (set ws) tasks) (move_ready ws tm)"
      using Cons.IH [OF Cons.prems] by blast
    then show ?thesis using False by (intro exI [of _ "t # p"] exI [of _ q'] exI [of _ ws]) (simp add: wake_task_skip)
  next
    case True
    let ?tasks = "set_ready {t} tasks" and ?tm = "move_ready [t] tm"
    note wake = wake_task_sched [OF Cons.prems(1) True]
    have c1: "unat (cnt + 1) = unat cnt + 1"
      using Cons.prems(2) unat_u64_bound [of limit] by (simp add: unat_word_ariths(1))
    show ?thesis
    proof (cases "cnt + 1 = limit")
      case lim: True
      then show ?thesis using wake True c1
        by (intro exI [of _ "[t]"] exI [of _ q] exI [of _ "[t]"]) (auto simp: sleepers_wake)
    next
      case False
      then have "unat (cnt + 1) < unat limit" using Cons.prems(2) c1 by (simp add: word_unat_eq_iff)
      from Cons.IH [OF wake(2) this] obtain p q' ws where
        IH: "wake_loop limit (cnt + 1) q ?tasks ?tm = (cnt + 1 + of_nat (length ws), q', set_ready (set ws) ?tasks, move_ready ws ?tm)"
        "q = p @ q'" "ws = sleepers ?tasks p" "unat (cnt + 1) + length ws \<le> unat limit"
        "unat (cnt + 1) + length ws < unat limit \<longrightarrow> q' = []" "sched_inv (set_ready (set ws) ?tasks) (move_ready ws ?tm)" by blast
      have "wake_loop limit cnt (t # q) tasks tm =
          (cnt + of_nat (length (t # ws)), q', set_ready (set (t # ws)) tasks, move_ready (t # ws) tm)"
        using wake(1) False IH(1) by (simp add: add.assoc insert_commute Un_commute)
      moreover have "t # ws = sleepers tasks (t # p)" using IH(3) sleepers_wake [OF True, of p] by simp
      moreover have "sched_inv (set_ready (set (t # ws)) tasks) (move_ready (t # ws) tm)" using IH(6) by (simp add: Un_commute)
      moreover have "t # q = (t # p) @ q'" "unat cnt + length (t # ws) \<le> unat limit"
        "unat cnt + length (t # ws) < unat limit \<longrightarrow> q' = []" using IH(2,4,5) c1 by simp_all
      ultimately show ?thesis by blast
    qed
  qed
qed

lemma wake_sched:
  assumes "sched_inv tasks tm"
  shows "\<exists>p q' ws. wake_at_most limit q tasks tm = (of_nat (length ws), q', set_ready (set ws) tasks, move_ready ws tm) \<and>
    q = p @ q' \<and> ws = sleepers tasks p \<and> length ws \<le> unat limit \<and> (length ws < unat limit \<longrightarrow> q' = []) \<and>
    sched_inv (set_ready (set ws) tasks) (move_ready ws tm)"
proof (cases "limit = 0")
  case True
  then show ?thesis using assms by (intro exI [of _ "[]"] exI [of _ q]) (simp add: wake_at_most_def)
next
  case False
  then have "unat (0 :: usize) < unat limit" by (simp add: unat_gt_0)
  from wake_loop_ok [OF assms this, of q] False show ?thesis by (simp add: wake_at_most_def)
qed

text \<open>
  C26. A wake-up wakes sleepers in order. Let the scheduler's queues be consistent. \<open>wake_at_most\<close>
  takes tasks from the front of the wait queue; those that are alive and asleep, in this order
  and each once, become ready and are appended to the ready queue, at most \<open>limit\<close> of them, and their
  number is returned; no other task changes and the scheduler stays consistent. If it returns less
  than the limit, the wait queue is empty: nobody who was asleep in it is left asleep.
\<close>

theorem wake_at_most_wakes_in_order:
  assumes "sched_inv tasks tm"
  shows "\<exists>p q' ws. wake_at_most limit q tasks tm = (of_nat (length ws), q', set_ready (set ws) tasks, move_ready ws tm) \<and>
    q = p @ q' \<and> ws = sleepers tasks p \<and> length ws \<le> unat limit \<and> (length ws < unat limit \<longrightarrow> q' = []) \<and>
    sched_inv (set_ready (set ws) tasks) (move_ready ws tm)"
  using wake_sched [OF assms] .

lemma sample_sched: "sched_inv sample_tasks sample_tm"
  by (auto simp: sched_inv_def sample_tm_def sample_tasks_def has_status_def inj_on_def split: if_splits)

lemma length_sleepers: "length (sleepers tasks q) \<le> length q"
  using le_trans [OF length_nub length_filter_le] by (simp add: sleepers_def)

theorem wake_at_most_wakes_in_order_witness:
  "\<exists>tasks' tm'. wake_at_most 5 [7, 1, 0] sample_tasks sample_tm = (1, [], tasks', tm') \<and> ready_queue tm' = [0, 1]"
proof -
  have st: "\<not> has_status Interruptible sample_tasks 7" "has_status Interruptible sample_tasks 1"
    "\<not> has_status Interruptible sample_tasks 0" by (simp_all add: has_status_def sample_tasks_def)
  obtain p q' ws where w: "wake_at_most 5 [7, 1, 0] sample_tasks sample_tm =
      (of_nat (length ws), q', set_ready (set ws) sample_tasks, move_ready ws sample_tm)"
    "[7, 1, 0] = p @ q'" "ws = sleepers sample_tasks p" "length ws < unat (5 :: usize) \<longrightarrow> q' = []"
    using wake_at_most_wakes_in_order [OF sample_sched, of 5 "[7, 1, 0]"] by blast
  have "length p \<le> 3" using arg_cong [OF w(2), of length] by simp
  then have "length ws < unat (5 :: usize)" using length_sleepers [of sample_tasks p] w(3) by simp
  then have q: "q' = []" using w(4) by blast
  then have "p = [7, 1, 0]" using w(2) by (simp only: append_Nil2)
  then have "ws = [1]" unfolding w(3) sleepers_def using st by simp
  then show ?thesis unfolding w(1) q by (simp add: move_ready_def sample_tm_def)
qed

section \<open>Timeouts\<close>

definition expired :: "time_spec \<Rightarrow> timeout_waiter \<Rightarrow> bool" where
  "expired now x \<longleftrightarrow> ts_cmp (tw_timeout x) now \<noteq> Greater"

lemma ts_cmp_greater: "ts_cmp a b = Greater \<longleftrightarrow> ts_sec b < ts_sec a \<or> ts_sec b = ts_sec a \<and> ts_nsec b < ts_nsec a"
  by (auto simp: ts_cmp_def word_cmp_def split: if_splits)

lemma later_not_expired:
  assumes "heap_pick_ok pick" "h \<noteq> []" "\<not> expired now (h ! pick h)" "x \<in> set h"
  shows "\<not> expired now x"
proof -
  have "ts_cmp (tw_timeout (h ! pick h)) (tw_timeout x) \<noteq> Greater" using assms(1,2,4) by (auto simp: heap_pick_ok_def)
  then show ?thesis using assms(3) by (auto simp: expired_def ts_cmp_greater)
qed

lemma mset_vec_remove: "i < length h \<Longrightarrow> mset h = add_mset (h ! i) (mset (vec_remove i h))"
  by (subst id_take_nth_drop [of i h]) (simp_all add: vec_remove_def)

text \<open>
  Timeouts wake exactly the expired sleepers. Whatever waiter the heap hands out among those with
  the smallest timeout, \<open>wake_expired\<close> removes from the heap the waiters whose time has come and no
  others, and makes ready, once each, exactly the tasks of these that are alive and asleep; the
  scheduler stays consistent.
\<close>

theorem wake_expired_wakes_expired:
  assumes "heap_pick_ok pick" and "sched_inv tasks tm"
  shows "\<exists>h' ws. wake_expired pick now h tasks tm = (h', set_ready (set ws) tasks, move_ready ws tm) \<and>
    mset h' = filter_mset (\<lambda>x. \<not> expired now x) (mset h) \<and> distinct ws \<and>
    set ws = {t. has_status Interruptible tasks t \<and> (\<exists>x \<in> set h. tw_task x = t \<and> expired now x)} \<and>
    sched_inv (set_ready (set ws) tasks) (move_ready ws tm)"
  using assms(2)
proof (induction "length h" arbitrary: h tasks tm)
  case 0
  then show ?case by (subst wake_expired.simps) auto
next
  case (Suc n)
  let ?x = "h ! pick h" and ?h = "vec_remove (pick h) h"
  have h: "h \<noteq> []" using Suc.hyps(2) by auto
  have "pick h < length h" using assms(1) h unfolding heap_pick_ok_def by blast
  note h = h this
  have m: "mset h = add_mset ?x (mset ?h)" using mset_vec_remove [OF h(2)] .
  then have sh: "set h = insert ?x (set ?h)" by (metis set_mset_add_mset_insert set_mset_mset)
  have n: "n = length ?h" using Suc.hyps(2) arg_cong [OF m, of size] by simp
  show ?case
  proof (cases "expired now ?x")
    case False
    then have none: "\<forall>y \<in> set h. \<not> expired now y" using later_not_expired [OF assms(1) h(1)] by blast
    have "wake_expired pick now h tasks tm = (?h @ [?x], tasks, tm)"
      using h False by (subst wake_expired.simps) (simp add: Let_def expired_def)
    moreover have "filter_mset (\<lambda>x. \<not> expired now x) (mset h) = mset h" using none by (auto simp: filter_mset_eq_conv)
    ultimately show ?thesis using none Suc.prems m by (intro exI [of _ "?h @ [?x]"] exI [of _ "[]"]) auto
  next
    case True
    show ?thesis
    proof (cases "has_status Interruptible tasks (tw_task ?x)")
      case False
      obtain h' ws where "wake_expired pick now ?h tasks tm = (h', set_ready (set ws) tasks, move_ready ws tm)"
        "mset h' = filter_mset (\<lambda>x. \<not> expired now x) (mset ?h)" "distinct ws"
        "set ws = {t. has_status Interruptible tasks t \<and> (\<exists>x \<in> set ?h. tw_task x = t \<and> expired now x)}"
        "sched_inv (set_ready (set ws) tasks) (move_ready ws tm)"
        using Suc.hyps(1) [OF n Suc.prems] by blast
      moreover have "wake_expired pick now h tasks tm = wake_expired pick now ?h tasks tm"
        using h True False by (subst wake_expired.simps) (simp add: Let_def expired_def wake_task_skip)
      ultimately show ?thesis using True False m sh by (intro exI [of _ h'] exI [of _ ws]) auto
    next
      case st: True
      let ?t = "tw_task ?x"
      let ?tasks = "set_ready {?t} tasks" and ?tm = "move_ready [?t] tm"
      note wake = wake_task_sched [OF Suc.prems st]
      obtain h' ws where 1: "wake_expired pick now ?h ?tasks ?tm = (h', set_ready (set ws) ?tasks, move_ready ws ?tm)"
        "mset h' = filter_mset (\<lambda>x. \<not> expired now x) (mset ?h)" "distinct ws"
        "set ws = {t. has_status Interruptible ?tasks t \<and> (\<exists>x \<in> set ?h. tw_task x = t \<and> expired now x)}"
        "sched_inv (set_ready (set ws) ?tasks) (move_ready ws ?tm)"
        using Suc.hyps(1) [OF n wake(2)] by blast
      have "wake_expired pick now h tasks tm = wake_expired pick now ?h ?tasks ?tm"
        using h True wake(1) by (subst wake_expired.simps) (simp add: Let_def expired_def)
      then have "wake_expired pick now h tasks tm = (h', set_ready (set (?t # ws)) tasks, move_ready (?t # ws) tm)"
        using 1(1) by (simp add: Un_commute)
      moreover have "mset h' = filter_mset (\<lambda>x. \<not> expired now x) (mset h)" using 1(2) m True by simp
      moreover have "set (?t # ws) = {t. has_status Interruptible tasks t \<and> (\<exists>x \<in> set h. tw_task x = t \<and> expired now x)}"
        unfolding sh using 1(4) st True by (auto split: if_splits)
      moreover have "distinct (?t # ws)" using 1(3,4) by simp
      moreover have "sched_inv (set_ready (set (?t # ws)) tasks) (move_ready (?t # ws) tm)" using 1(5) by (simp add: Un_commute)
      ultimately show ?thesis by blast
    qed
  qed
qed

text \<open>A heap that hands out the waiter that came first.\<close>

fun first_min :: "timeout_waiter list \<Rightarrow> nat" where
  "first_min (x # y # ys) =
     (let i = first_min (y # ys) in if ts_cmp (tw_timeout x) (tw_timeout ((y # ys) ! i)) = Greater then Suc i else 0)"
| "first_min _ = 0"

lemma first_min_ok: "heap_pick_ok first_min"
proof -
  have "first_min h < length h \<and> (\<forall>z \<in> set h. ts_cmp (tw_timeout (h ! first_min h)) (tw_timeout z) \<noteq> Greater)" if "h \<noteq> []" for h
    using that
  proof (induction h rule: first_min.induct)
    case (1 x y ys)
    let ?i = "first_min (y # ys)"
    have IH: "?i < length (y # ys)" "\<forall>z \<in> set (y # ys). ts_cmp (tw_timeout ((y # ys) ! ?i)) (tw_timeout z) \<noteq> Greater"
      using 1 by simp_all
    show ?case
    proof (cases "ts_cmp (tw_timeout x) (tw_timeout ((y # ys) ! ?i)) = Greater")
      case True
      moreover from True have "ts_cmp (tw_timeout ((y # ys) ! ?i)) (tw_timeout x) \<noteq> Greater" by (auto simp: ts_cmp_greater)
      ultimately show ?thesis using IH by (auto simp: Let_def)
    next
      case False
      have "ts_cmp (tw_timeout x) (tw_timeout z) \<noteq> Greater" if "z \<in> set (y # ys)" for z
        using IH(2) [rule_format, OF that] False by (auto simp: ts_cmp_greater)
      then show ?thesis using False by (auto simp: Let_def ts_cmp_greater)
    qed
  qed (simp_all add: ts_cmp_greater)
  then show ?thesis by (simp add: heap_pick_ok_def)
qed

theorem wake_expired_wakes_expired_witness:
  "\<exists>h' tasks' tm'. wake_expired first_min \<lparr>ts_sec = 5, ts_nsec = 0\<rparr> [\<lparr>tw_task = 1, tw_timeout = \<lparr>ts_sec = 9, ts_nsec = 0\<rparr>\<rparr>,
       \<lparr>tw_task = 1, tw_timeout = \<lparr>ts_sec = 2, ts_nsec = 7\<rparr>\<rparr>] sample_tasks sample_tm = (h', tasks', tm') \<and>
     mset h' = {#\<lparr>tw_task = 1, tw_timeout = \<lparr>ts_sec = 9, ts_nsec = 0\<rparr>\<rparr>#} \<and> ready_queue tm' = [0, 1]"
proof -
  let ?now = "\<lparr>ts_sec = 5, ts_nsec = 0\<rparr>"
  let ?x = "\<lparr>tw_task = 1, tw_timeout = \<lparr>ts_sec = 9, ts_nsec = 0\<rparr>\<rparr>" and ?y = "\<lparr>tw_task = 1, tw_timeout = \<lparr>ts_sec = 2, ts_nsec = 7\<rparr>\<rparr>"
  have e: "\<not> expired ?now ?x" "expired ?now ?y" by (simp_all add: expired_def ts_cmp_greater)
  have st: "has_status Interruptible sample_tasks 1" by (simp add: has_status_def sample_tasks_def)
  obtain h' ws where w: "wake_expired first_min ?now [?x, ?y] sample_tasks sample_tm =
      (h', set_ready (set ws) sample_tasks, move_ready ws sample_tm)"
    "mset h' = filter_mset (\<lambda>x. \<not> expired ?now x) (mset [?x, ?y])" "distinct ws"
    "set ws = {t. has_status Interruptible sample_tasks t \<and> (\<exists>x \<in> set [?x, ?y]. tw_task x = t \<and> expired ?now x)}"
    using wake_expired_wakes_expired [OF first_min_ok sample_sched, of ?now "[?x, ?y]"] by blast
  have "set ws = {1}" unfolding w(4) using e st by auto
  then have "ws = [1]" using w(3) by (metis distinct_card length_0_conv list.set_intros(1) set_empty singletonD card.empty
    card_insert_disjoint empty_iff finite.emptyI length_Suc_conv)
  moreover have "mset h' = {#?x#}" unfolding w(2) using e by simp
  ultimately show ?thesis unfolding w(1) by (simp add: move_ready_def sample_tm_def)
qed

end
