(* ===== verification/Task_Signal.thy ===== *)
theory Task_Signal
  imports Mm_Sample Timer
begin

text \<open>
  Signals, \<open>task/signal.rs\<close> and \<open>sys_sigreturn\<close> of \<open>syscall/process.rs\<close>: the signal numbers and
  masks, \<open>sigaction\<close>, \<open>sigprocmask\<close>, \<open>sigtimedwait\<close>, the delivery of pending signals on the way
  back to user space and the return from a handler.

  A set of signals is a 64-bit word. The trap context of the task is where the code has it, in
  the physical page \<open>trap_cx_ppn\<close>, so a copy to user memory that hits this page changes the
  registers. Copies to and from user memory are those of \<open>Mm_User_Access\<close>. The functions that do
  not come back to the caller (\<open>exit_current_and_run_next\<close>, \<open>exit_group_and_run_next\<close>,
  \<open>block_current_and_run_next\<close>) end a run of \<open>do_signal\<close> with the corresponding outcome. \<open>None\<close> is
  a panic.
\<close>

section \<open>Definitions\<close>

subsection \<open>Signal sets\<close>

type_synonym Signals = u64

definition SIGILL :: Signals where "SIGILL = push_bit 3 1"
definition SIGKILL :: Signals where "SIGKILL = push_bit 8 1"
definition SIGSEGV :: Signals where "SIGSEGV = push_bit 10 1"
definition SIGCHLD :: Signals where "SIGCHLD = push_bit 16 1"
definition SIGCONT :: Signals where "SIGCONT = push_bit 17 1"
definition SIGSTOP :: Signals where "SIGSTOP = push_bit 18 1"
definition SIGTSTP :: Signals where "SIGTSTP = push_bit 19 1"
definition SIGTTIN :: Signals where "SIGTTIN = push_bit 20 1"
definition SIGTTOU :: Signals where "SIGTTOU = push_bit 21 1"
definition SIGURG :: Signals where "SIGURG = push_bit 22 1"
definition SIGWINCH :: Signals where "SIGWINCH = push_bit 27 1"

definition CAN_NOT_BE_MASKED :: Signals where
  "CAN_NOT_BE_MASKED = push_bit 3 1 OR push_bit 8 1 OR push_bit 10 1 OR push_bit 18 1"

definition sig_difference :: "Signals \<Rightarrow> Signals \<Rightarrow> Signals" where
  "sig_difference a b = a AND NOT b"

definition trailing_zeros :: "u64 \<Rightarrow> nat" where
  "trailing_zeros x = length (takeWhile (\<lambda>i. \<not> bit x i) [0..<64])"

definition count_ones :: "u64 \<Rightarrow> nat" where
  "count_ones x = length (filter (bit x) [0..<64])"

definition from_signum :: "usize \<Rightarrow> unit + Signals" where
  "from_signum signum =
     (if signum = 0 then Inr 0
      else if signum \<le> 64 then Inr (push_bit (unat (signum - 1)) 1)
      else Inl ())"

definition to_signum :: "Signals \<Rightarrow> unit + nat" where
  "to_signum s = (if count_ones s = 1 then Inr (trailing_zeros s + 1) else Inl ())"

definition peek_front :: "Signals \<Rightarrow> nat option" where
  "peek_front s = (if s = 0 then None else Some (trailing_zeros s + 1))"

subsection \<open>Actions\<close>

definition SA_SIGINFO :: usize where "SA_SIGINFO = 4"
definition SA_RESTORER :: usize where "SA_RESTORER = 0x04000000"
definition SA_RESTART :: usize where "SA_RESTART = 0x10000000"
definition SA_NODEFER :: usize where "SA_NODEFER = 0x40000000"
definition SA_RESETHAND :: usize where "SA_RESETHAND = 0x80000000"

definition sa_contains :: "usize \<Rightarrow> usize \<Rightarrow> bool" where
  "sa_contains flags f \<longleftrightarrow> flags AND f = f"

definition SIG_DFL :: usize where "SIG_DFL = 0"
definition SIG_IGN :: usize where "SIG_IGN = 1"

definition handler_addr :: "usize \<Rightarrow> usize option" where
  "handler_addr h = (if h = SIG_DFL \<or> h = SIG_IGN then None else Some h)"

record sig_action =
  sa_handler :: usize
  sa_flags :: usize
  sa_restorer :: usize
  sa_mask :: Signals

definition sig_action_new :: sig_action where
  "sig_action_new = \<lparr>sa_handler = SIG_DFL, sa_flags = 0, sa_restorer = 0, sa_mask = 0\<rparr>"

text \<open>
  The parts of \<open>TaskControlBlock\<close> and its inner state that signals work on.
\<close>

record sig_task =
  sigmask :: Signals
  sigpending :: Signals
  sighand :: "sig_action option list"
  trap_cx_ppn :: PhysPageNum
  ustack_base :: usize

definition add_signal :: "Signals \<Rightarrow> sig_task \<Rightarrow> sig_task" where
  "add_signal s task = task\<lparr>sigpending := sigpending task OR s\<rparr>"

subsection \<open>Values in memory\<close>

text \<open>Little-endian words, and the structures the code copies (\<open>repr(C)\<close>).\<close>

definition sig_action_bytes :: "sig_action \<Rightarrow> u8 list" where
  "sig_action_bytes act = le64 (sa_handler act) @ le64 (sa_flags act) @ le64 (sa_restorer act) @ le64 (sa_mask act)"

definition sig_action_of :: "u8 list \<Rightarrow> sig_action" where
  "sig_action_of bs =
     \<lparr>sa_handler = un64 bs, sa_flags = un64 (drop 8 bs), sa_restorer = un64 (drop 16 bs), sa_mask = un64 (drop 24 bs)\<rparr>"

definition sig_info_bytes :: "nat \<Rightarrow> u8 list" where
  "sig_info_bytes signo = le32 (of_nat signo) @ le32 0 @ le32 0 @ replicate (128 - 3 * 4) 0"

definition PADDING_SIZE :: nat where "PADDING_SIZE = 128"
definition SIGNAL_STACK_SIZE :: nat where "SIGNAL_STACK_SIZE = 24"
definition SIG_INFO_SIZE :: nat where "SIG_INFO_SIZE = 128"
definition MACHINE_CONTEXT_SIZE :: nat where "MACHINE_CONTEXT_SIZE = 32 * 8 + (32 * 8 + 8)"
definition USER_CONTEXT_SIZE :: nat where
  "USER_CONTEXT_SIZE = 2 * 8 + SIGNAL_STACK_SIZE + 8 + PADDING_SIZE + MACHINE_CONTEXT_SIZE"

text \<open>The four padding bytes behind \<open>flags\<close> are written as zero.\<close>

definition signal_stack_bytes :: "usize \<Rightarrow> usize \<Rightarrow> u8 list" where
  "signal_stack_bytes sp sz = le64 sp @ le32 2 @ replicate 4 0 @ le64 sz"

definition user_context_bytes :: "usize \<Rightarrow> usize \<Rightarrow> Signals \<Rightarrow> u8 list \<Rightarrow> u8 list" where
  "user_context_bytes sig_sp sig_size sigs mcontext =
     le64 0 @ le64 0 @ signal_stack_bytes sig_sp sig_size @ le64 sigs @ replicate PADDING_SIZE 0 @ mcontext"

subsection \<open>The trap context\<close>

text \<open>Word \<open>i\<close> of the trap context; the registers are numbered as in \<open>GeneralRegs\<close>.\<close>

definition trap_get :: "'a kmem_scheme \<Rightarrow> PhysPageNum \<Rightarrow> nat \<Rightarrow> u64" where
  "trap_get w ppn i = un64 (map (pmem w ppn) [8 * i..<8 * i + 8])"

definition trap_set :: "PhysPageNum \<Rightarrow> nat \<Rightarrow> u64 \<Rightarrow> 'a kmem_scheme \<Rightarrow> 'a kmem_scheme" where
  "trap_set ppn i v w = write_bytes ppn (8 * i) (le64 v) w"

definition r_pc :: nat where "r_pc = 0"
definition r_ra :: nat where "r_ra = 1"
definition r_sp :: nat where "r_sp = 2"
definition r_a0 :: nat where "r_a0 = 10"
definition r_a1 :: nat where "r_a1 = 11"
definition r_a2 :: nat where "r_a2 = 12"
definition r_origin_a0 :: nat where "r_origin_a0 = 65"

definition machine_context :: "'a kmem_scheme \<Rightarrow> PhysPageNum \<Rightarrow> u8 list" where
  "machine_context w ppn = map (pmem w ppn) [0..<MACHINE_CONTEXT_SIZE]"

definition EINTR :: isize where "EINTR = - 4"
definition ERESTART :: isize where "ERESTART = - 85"
definition EAGAIN :: isize where "EAGAIN = - 11"
definition SUCCESS :: isize where "SUCCESS = 0"

subsection \<open>System calls\<close>

text \<open>
  \<open>token\<close> is \<open>task.get_user_token()\<close>, \<open>vm\<close> the address space of the task, which page faults work
  on. The result is the return value with the new task state, address space and memory.
\<close>

definition install_action :: "nat \<Rightarrow> sig_action \<Rightarrow> sig_task \<Rightarrow> sig_task" where
  "install_action i sigact task =
     (let sigact = sigact\<lparr>sa_mask := sig_difference (sa_mask sigact) CAN_NOT_BE_MASKED\<rparr> in
      if \<not> (sa_handler sigact = SIG_DFL \<or> sa_handler sigact = SIG_IGN)
      then task\<lparr>sighand := (sighand task)[i := Some sigact]\<rparr>
      else task\<lparr>sighand := (sighand task)[i := None]\<rparr>)"

definition sigaction ::
  "'d kenv \<Rightarrow> ('f, ('d, 'z) world) file_ops \<Rightarrow> ('d, 'z) woom \<Rightarrow> usize \<Rightarrow> usize \<Rightarrow> usize \<Rightarrow> usize \<Rightarrow> sig_task \<Rightarrow>
   'f memory_set option \<Rightarrow> ('d, 'z) world \<Rightarrow> (isize \<times> sig_task \<times> 'f memory_set option \<times> ('d, 'z) world) option" where
  "sigaction env fops oom token signum act oldact task vm w =
     (if signum = 0 \<or> signum = 9 \<or> signum = 19 \<or> 65 \<le> signum then Some (EINVAL, task, vm, w)
      else if length (sighand task) \<le> unat (signum - 1) then None
      else do {
        (suc, vm, w) \<leftarrow>
          (if oldact \<noteq> 0 then
             copy_to_user env fops oom token
               (sig_action_bytes (case sighand task ! unat (signum - 1) of Some sigact \<Rightarrow> sigact | None \<Rightarrow> sig_action_new))
               oldact vm w
           else Some (Inr (), vm, w));
        case suc of
          Inl _ \<Rightarrow> Some (EFAULT, task, vm, w)
        | Inr _ \<Rightarrow>
            if act \<noteq> 0 then
              do { (suc, bs, vm, w) \<leftarrow> copy_from_user env fops oom token act 32 (sig_action_bytes sig_action_new) vm w;
                   case suc of
                     Inl _ \<Rightarrow> Some (EFAULT, task, vm, w)
                   | Inr _ \<Rightarrow>
                       Some (SUCCESS, install_action (unat (signum - 1)) (sig_action_of bs) task, vm, w) }
            else Some (SUCCESS, task, vm, w) })"

definition SIG_BLOCK :: u32 where "SIG_BLOCK = 0"
definition SIG_UNBLOCK :: u32 where "SIG_UNBLOCK = 1"
definition SIG_SETMASK :: u32 where "SIG_SETMASK = 2"

text \<open>The change of the mask for a given set, \<open>None\<close> for an invalid \<open>how\<close>.\<close>

definition new_mask :: "u32 \<Rightarrow> Signals \<Rightarrow> Signals \<Rightarrow> Signals option" where
  "new_mask how signal_set old =
     map_option (\<lambda>m. sig_difference m CAN_NOT_BE_MASKED)
       (if how = SIG_BLOCK then Some (old OR signal_set)
        else if how = SIG_UNBLOCK then Some (sig_difference old signal_set)
        else if how = SIG_SETMASK then Some signal_set
        else None)"

definition apply_mask :: "u32 \<Rightarrow> Signals \<Rightarrow> sig_task \<Rightarrow> isize \<times> sig_task" where
  "apply_mask how signal_set task =
     (case new_mask how signal_set (sigmask task) of
        None \<Rightarrow> (EINVAL, task)
      | Some m \<Rightarrow> (SUCCESS, task\<lparr>sigmask := m\<rparr>))"

definition sigprocmask ::
  "'d kenv \<Rightarrow> ('f, ('d, 'z) world) file_ops \<Rightarrow> ('d, 'z) woom \<Rightarrow> usize \<Rightarrow> u32 \<Rightarrow> usize \<Rightarrow> usize \<Rightarrow> sig_task \<Rightarrow>
   'f memory_set option \<Rightarrow> ('d, 'z) world \<Rightarrow> (isize \<times> sig_task \<times> 'f memory_set option \<times> ('d, 'z) world) option" where
  "sigprocmask env fops oom token how sset oldset task vm w =
     do { (old, vm, w) \<leftarrow>
            (if oldset \<noteq> 0 then
               do { (res, vm, w) \<leftarrow> translated_refmut env fops oom token oldset vm w;
                    Some (case res of
                            Inl errno \<Rightarrow> (Inl errno, vm, w)
                          | Inr pa \<Rightarrow> (Inr (), vm, phys_write pa (le64 (sigmask task)) w)) }
             else Some (Inr (), vm, w));
          case old of
            Inl errno \<Rightarrow> Some (errno, task, vm, w)
          | Inr _ \<Rightarrow>
              if sset \<noteq> 0 then
                do { (res, vm, w) \<leftarrow> translated_ref env fops oom token sset vm w;
                     Some (case res of
                             Inl errno \<Rightarrow> (errno, task, vm, w)
                           | Inr pa \<Rightarrow>
                               (let res = apply_mask how (un64 (phys_read w pa 8)) task in (fst res, snd res, vm, w))) }
              else Some (SUCCESS, task, vm, w) }"

text \<open>
  \<open>sigtimedwait\<close> up to the point where the task blocks, and what it does when it runs again.
\<close>

definition sigtimedwait ::
  "'d kenv \<Rightarrow> ('f, ('d, 'z) world) file_ops \<Rightarrow> ('d, 'z) woom \<Rightarrow> usize \<Rightarrow> usize \<Rightarrow> usize \<Rightarrow> u8 list \<Rightarrow>
   'f memory_set option \<Rightarrow> ('d, 'z) world \<Rightarrow>
   ((isize + Signals \<times> time_spec) \<times> 'f memory_set option \<times> ('d, 'z) world) option" where
  "sigtimedwait env fops oom token sset timeout uninit vm w =
     do { (res, vm, w) \<leftarrow> translated_ref env fops oom token sset vm w;
          case res of
            Inl errno \<Rightarrow> Some (Inl errno, vm, w)
          | Inr pa \<Rightarrow>
              do { let signals = un64 (phys_read w pa 8);
                   (res, vm, w) \<leftarrow> try_get_from_user env fops oom token timeout uninit vm w;
                   Some (case res of
                           Inl errno \<Rightarrow> (Inl errno, vm, w)
                         | Inr None \<Rightarrow> (Inl EINVAL, vm, w)
                         | Inr (Some bs) \<Rightarrow> (Inr (signals, \<lparr>ts_sec = un64 bs, ts_nsec = un64 (drop 8 bs)\<rparr>), vm, w)) } }"

definition sigtimedwait_resume ::
  "'d kenv \<Rightarrow> ('f, ('d, 'z) world) file_ops \<Rightarrow> ('d, 'z) woom \<Rightarrow> usize \<Rightarrow> Signals \<Rightarrow> usize \<Rightarrow> time_spec \<Rightarrow> time_spec \<Rightarrow> time_spec \<Rightarrow>
   sig_task \<Rightarrow> 'f memory_set option \<Rightarrow> ('d, 'z) world \<Rightarrow> (isize \<times> 'f memory_set option \<times> ('d, 'z) world) option" where
  "sigtimedwait_resume env fops oom token signals info start timeout now task vm w =
     (if sigpending task \<noteq> 0 then
        (case peek_front (sigpending task AND signals) of
           Some signum \<Rightarrow>
             if info \<noteq> 0 then
               do { (res, vm, w) \<leftarrow> copy_to_user env fops oom token (sig_info_bytes signum) info vm w;
                    Some (case res of Inl _ \<Rightarrow> (EFAULT, vm, w) | Inr _ \<Rightarrow> (of_nat signum, vm, w)) }
             else Some (of_nat signum, vm, w)
         | None \<Rightarrow> Some (EINTR, vm, w))
      else if ts_cmp (ts_add start timeout) now \<noteq> Greater then Some (EAGAIN, vm, w)
      else None)"

subsection \<open>Delivery\<close>

datatype signal_end =
    Returned
  | ExitedCurrent u32
  | ExitedGroup u32
  | Blocked

text \<open>An interrupted system call is restarted or reports \<open>EINTR\<close> after the handler.\<close>

definition restart_syscall :: "bool \<Rightarrow> sig_action \<Rightarrow> PhysPageNum \<Rightarrow> 'a kmem_scheme \<Rightarrow> 'a kmem_scheme" where
  "restart_syscall is_syscall act ppn w =
     (if is_syscall \<and> trap_get w ppn r_a0 = ERESTART then
        if sa_contains (sa_flags act) SA_RESTART then
          (let w = trap_set ppn r_pc (trap_get w ppn r_pc - 4) w in trap_set ppn r_a0 (trap_get w ppn r_origin_a0) w)
        else trap_set ppn r_a0 EINTR w
      else w)"

definition ucontext_addr :: "usize \<Rightarrow> usize" where
  "ucontext_addr sp = (sp - of_nat USER_CONTEXT_SIZE) AND NOT 7"

definition siginfo_addr :: "usize \<Rightarrow> usize" where
  "siginfo_addr sp = (ucontext_addr sp - of_nat SIG_INFO_SIZE) AND NOT 7"

text \<open>
  What goes to the user stack: the whole \<open>UserContext\<close> and \<open>SigInfo\<close> for a handler with
  \<open>SA_SIGINFO\<close>, otherwise only the mask and the registers at the same places. \<open>unwrap\<close> makes an
  error of a copy a panic.
\<close>

definition expect_ok :: "((isize + 'r) \<times> 's) option \<Rightarrow> ('r \<times> 's) option" where
  "expect_ok r = (case r of Some (Inr x, s) \<Rightarrow> Some (x, s) | _ \<Rightarrow> None)"

definition push_context ::
  "'d kenv \<Rightarrow> ('f, ('d, 'z) world) file_ops \<Rightarrow> ('d, 'z) woom \<Rightarrow> usize \<Rightarrow> nat \<Rightarrow> sig_action \<Rightarrow> sig_task \<Rightarrow>
   'f memory_set option \<Rightarrow> ('d, 'z) world \<Rightarrow> ('f memory_set option \<times> ('d, 'z) world) option" where
  "push_context env fops oom token signum act task vm w =
     (let ppn = trap_cx_ppn task; sp = trap_get w ppn r_sp; uc = ucontext_addr sp; si = siginfo_addr sp;
          sig_size = si - (ustack_base task - USER_STACK_SIZE) in
      if sa_contains (sa_flags act) SA_SIGINFO then
        do { (_, vm, w) \<leftarrow> expect_ok (copy_to_user env fops oom token
               (user_context_bytes si sig_size (sigmask task) (machine_context w ppn)) uc vm w);
             let w = trap_set ppn r_a2 uc w;
             (_, vm, w) \<leftarrow> expect_ok (copy_to_user env fops oom token (sig_info_bytes signum) si vm w);
             Some (vm, trap_set ppn r_a1 si w) }
      else
        do { (pa, vm, w) \<leftarrow> expect_ok (translated_refmut env fops oom token
               (uc + of_nat (2 * 8 + SIGNAL_STACK_SIZE)) vm w);
             let w = phys_write pa (le64 (sigmask task)) w;
             (_, vm, w) \<leftarrow> expect_ok (copy_to_user env fops oom token (machine_context w ppn)
               (uc + of_nat (2 * 8 + SIGNAL_STACK_SIZE + 8 + PADDING_SIZE)) vm w);
             Some (vm, w) })"

definition deliver ::
  "'d kenv \<Rightarrow> ('f, ('d, 'z) world) file_ops \<Rightarrow> ('d, 'z) woom \<Rightarrow> usize \<Rightarrow> bool \<Rightarrow> nat \<Rightarrow> sig_action \<Rightarrow> sig_task \<Rightarrow>
   'f memory_set option \<Rightarrow> ('d, 'z) world \<Rightarrow> (signal_end \<times> sig_task \<times> 'f memory_set option \<times> ('d, 'z) world) option" where
  "deliver env fops oom token is_syscall signum act task vm w =
     (let ppn = trap_cx_ppn task;
          w = restart_syscall is_syscall act ppn w;
          sig_sp = siginfo_addr (trap_get w ppn r_sp);
          signal = push_bit (signum - 1) 1 in
      if sig_sp < ustack_base task - USER_STACK_SIZE then Some (ExitedCurrent 11, task, vm, w)
      else do {
        (vm, w) \<leftarrow> push_context env fops oom token signum act task vm w;
        let w = trap_set ppn r_a0 (of_nat signum) w;
        let w = trap_set ppn r_sp sig_sp w;
        let w = trap_set ppn r_ra (if sa_contains (sa_flags act) SA_RESTORER then sa_restorer act else SIGNAL_TRAMPOLINE) w;
        pc \<leftarrow> handler_addr (sa_handler act);
        let w = trap_set ppn r_pc pc w;
        let new = (if sa_contains (sa_flags act) SA_NODEFER then sig_difference (sa_mask act) CAN_NOT_BE_MASKED
                   else sig_difference (signal OR sa_mask act) CAN_NOT_BE_MASKED);
        let task = task\<lparr>sigmask := sigmask task OR new\<rparr>;
        Some (Returned,
          if sa_contains (sa_flags act) SA_RESETHAND then task\<lparr>sighand := (sighand task)[signum - 1 := None]\<rparr> else task,
          vm, w) })"

lemma trailing_zeros_lowest:
  assumes "x \<noteq> 0"
  shows "trailing_zeros x < 64" "bit x (trailing_zeros x)" "i < trailing_zeros x \<Longrightarrow> \<not> bit x i"
proof -
  obtain k where k: "bit x k" "k < 64" using assms bit_imp_le_length [of x] by (auto simp: bit_eq_iff)
  let ?t = "takeWhile (\<lambda>i. \<not> bit x i) [0..<64]"
  have "length ?t < length [0..<64]"
    using k length_takeWhile_le [of "\<lambda>i. \<not> bit x i" "[0..<64]"] takeWhile_eq_all_conv [of "\<lambda>i. \<not> bit x i" "[0..<64]"]
    by (metis atLeastLessThan_iff le0 le_neq_implies_less set_upt takeWhile_eq_take take_all)
  then show "trailing_zeros x < 64" by (simp add: trailing_zeros_def)
  show "bit x (trailing_zeros x)"
    using nth_length_takeWhile [OF \<open>length ?t < length [0..<64]\<close>] \<open>length ?t < length [0..<64]\<close> by (simp add: trailing_zeros_def)
  show "\<not> bit x i" if "i < trailing_zeros x"
    using takeWhile_nth [of i "\<lambda>i. \<not> bit x i" "[0..<64]"] nth_mem [of i ?t] set_takeWhileD [of "?t ! i" "\<lambda>i. \<not> bit x i" "[0..<64]"] that
      \<open>length ?t < length [0..<64]\<close> by (simp add: trailing_zeros_def)
qed

lemma clear_bit_less:
  fixes x :: u64
  assumes "bit x i"
  shows "unat (x AND NOT (push_bit i 1)) < unat x"
proof -
  have "i < 64" using bit_imp_le_length [OF assms] by simp
  then have "\<not> bit (x AND NOT (push_bit i 1)) i" by (simp add: bit_and_iff bit_not_iff bit_exp_iff)
  then have "x AND NOT (push_bit i 1) \<noteq> x" using assms by metis
  moreover have "x AND NOT (push_bit i 1) \<le> x" by (rule word_and_le2)
  ultimately show ?thesis by (simp add: word_le_nat_alt word_unat_eq_iff order_less_le)
qed

lemma front_removed:
  assumes "peek_front (sig_difference p m) = Some s" and "2 ^ (s - Suc 0) = sg"
  shows "unat (sig_difference p sg) < unat p"
proof -
  have "sig_difference p m \<noteq> 0" "s - Suc 0 = trailing_zeros (sig_difference p m)"
    using assms(1) by (auto simp: peek_front_def split: if_splits)
  then have "bit p (s - Suc 0)" using trailing_zeros_lowest(2) [of "sig_difference p m"] by (simp add: sig_difference_def bit_and_iff)
  from clear_bit_less [OF this] assms(2) show ?thesis by (simp add: sig_difference_def)
qed

text \<open>
  The loop ends because every turn takes a signal out of the pending set.
\<close>

function do_signal ::
  "'d kenv \<Rightarrow> ('f, ('d, 'z) world) file_ops \<Rightarrow> ('d, 'z) woom \<Rightarrow> usize \<Rightarrow> bool \<Rightarrow> sig_task \<Rightarrow>
   'f memory_set option \<Rightarrow> ('d, 'z) world \<Rightarrow> (signal_end \<times> sig_task \<times> 'f memory_set option \<times> ('d, 'z) world) option" where
  "do_signal env fops oom token is_syscall task vm w =
     (case peek_front (sig_difference (sigpending task) (sigmask task)) of
        None \<Rightarrow> Some (Returned, task, vm, w)
      | Some signum \<Rightarrow>
          (let signal = push_bit (signum - 1) 1;
               task = task\<lparr>sigpending := sig_difference (sigpending task) signal\<rparr> in
           if length (sighand task) \<le> signum - 1 then None
           else
             (case sighand task ! (signum - 1) of
                Some act \<Rightarrow> deliver env fops oom token is_syscall signum act task vm w
              | None \<Rightarrow>
                  if signal = SIGILL \<or> signal = SIGSEGV then Some (ExitedGroup (of_nat signum), task, vm, w)
                  else if signal = SIGCHLD \<or> signal = SIGCONT \<or> signal = SIGURG \<or> signal = SIGWINCH then
                    do_signal env fops oom token is_syscall task vm w
                  else if signal = SIGTSTP \<or> signal = SIGTTIN \<or> signal = SIGTTOU then Some (Blocked, task, vm, w)
                  else Some (ExitedGroup (of_nat signum), task, vm, w))))"
  by pat_completeness auto
termination
proof (relation "measure (\<lambda>(env, fops, oom, token, is_syscall, task, vm, w). unat (sigpending task))")
qed (auto intro: front_removed)

declare do_signal.simps [simp del]

subsection \<open>Return from a handler\<close>

definition sys_sigreturn ::
  "'d kenv \<Rightarrow> ('f, ('d, 'z) world) file_ops \<Rightarrow> ('d, 'z) woom \<Rightarrow> usize \<Rightarrow> sig_task \<Rightarrow>
   'f memory_set option \<Rightarrow> ('d, 'z) world \<Rightarrow> (isize \<times> sig_task \<times> 'f memory_set option \<times> ('d, 'z) world) option" where
  "sys_sigreturn env fops oom token task vm w =
     do { let ppn = trap_cx_ppn task;
          let uc = (trap_get w ppn r_sp + of_nat SIG_INFO_SIZE + 7) AND NOT 7;
          (pa, vm, w) \<leftarrow> expect_ok (translated_ref env fops oom token (uc + of_nat (2 * 8 + SIGNAL_STACK_SIZE)) vm w);
          let task = task\<lparr>sigmask := un64 (phys_read w pa 8)\<rparr>;
          (bs, vm, w) \<leftarrow>
            (case copy_from_user env fops oom token (uc + of_nat (2 * 8 + SIGNAL_STACK_SIZE + 8 + PADDING_SIZE))
                    (of_nat MACHINE_CONTEXT_SIZE) (machine_context w ppn) vm w of
               Some (Inr _, bs, vm, w) \<Rightarrow> Some (bs, vm, w)
             | _ \<Rightarrow> None);
          let w = write_bytes ppn 0 bs w;
          Some (trap_get w ppn r_a0, task, vm, w) }"

section \<open>Signal numbers\<close>

lemma bit_signal: "bit (push_bit k 1 :: u64) i \<longleftrightarrow> i = k \<and> k < 64"
  by (auto simp: bit_exp_iff)

lemma upt_split_at: "k < n \<Longrightarrow> [0..<n] = [0..<k] @ k # [Suc k..<n]"
  using upt_add_eq_append [of 0 k "n - k"] upt_conv_Cons [of k n] by simp

lemma takeWhile_upt_first:
  assumes "k < n" and "P k" and "\<And>i. i < k \<Longrightarrow> \<not> P i"
  shows "takeWhile (\<lambda>i. \<not> P i) [0..<n] = [0..<k]"
  unfolding upt_split_at [OF assms(1)] using assms(2,3) by (simp add: takeWhile_tail)

lemma trailing_zeros_eq:
  assumes "bit x k" and "\<And>i. i < k \<Longrightarrow> \<not> bit x i"
  shows "trailing_zeros x = k"
proof -
  have "k < 64" using bit_imp_le_length [OF assms(1)] by simp
  then show ?thesis using takeWhile_upt_first [of k 64 "bit x"] assms by (simp add: trailing_zeros_def)
qed

lemma peek_front_iff:
  "peek_front s = Some n \<longleftrightarrow> 0 < n \<and> bit s (n - 1) \<and> (\<forall>i < n - 1. \<not> bit s i)"
proof
  assume "peek_front s = Some n"
  then have "s \<noteq> 0" "n = trailing_zeros s + 1" by (auto simp: peek_front_def split: if_splits)
  then show "0 < n \<and> bit s (n - 1) \<and> (\<forall>i < n - 1. \<not> bit s i)" using trailing_zeros_lowest [of s] by simp
next
  assume a: "0 < n \<and> bit s (n - 1) \<and> (\<forall>i < n - 1. \<not> bit s i)"
  then have "s \<noteq> 0" by auto
  then show "peek_front s = Some n" using a trailing_zeros_eq [of s "n - 1"] by (simp add: peek_front_def)
qed

lemma count_ones_single: "k < 64 \<Longrightarrow> count_ones (push_bit k 1) = 1"
proof -
  assume k: "k < 64"
  have "filter (bit (push_bit k 1 :: u64)) [0..<64] = filter (\<lambda>i. i = k) [0..<64]"
    using k by (intro filter_cong) (simp_all add: bit_signal del: push_bit_of_1)
  also have "\<dots> = [k]" unfolding upt_split_at [OF k] by (simp add: filter_empty_conv)
  finally show ?thesis by (simp add: count_ones_def)
qed

text \<open>
  Signal numbers and signal sets: the numbers 1 to 64 are exactly the numbers of single
  signals (\<open>from_signum\<close> and \<open>to_signum\<close> invert each other), 0 is the empty set, larger ones are
  refused; \<open>peek_front\<close> returns the lowest signal of a set and nothing only for the empty set.
\<close>

theorem signal_numbers:
  "(\<forall>n. 1 \<le> n \<longrightarrow> n \<le> 64 \<longrightarrow> (\<exists>s. from_signum n = Inr s \<and> to_signum s = Inr (unat n) \<and> peek_front s = Some (unat n))) \<and>
   (\<forall>n. 64 < n \<longrightarrow> from_signum n = Inl ()) \<and> from_signum 0 = Inr 0 \<and>
   (\<forall>s n. peek_front s = Some n \<longleftrightarrow> 0 < n \<and> bit s (n - 1) \<and> (\<forall>i < n - 1. \<not> bit s i)) \<and>
   (\<forall>s. peek_front s = None \<longleftrightarrow> s = 0)"
proof -
  have "\<exists>s. from_signum n = Inr s \<and> to_signum s = Inr (unat n) \<and> peek_front s = Some (unat n)" if n: "1 \<le> n" "n \<le> 64" for n
  proof -
    have u: "unat (n - 1) = unat n - 1" "0 < unat n" "unat n \<le> 64"
      using n unat_sub_no_wrap [OF n(1)] by (simp_all add: word_le_nat_alt)
    let ?s = "push_bit (unat n - 1) 1 :: u64"
    have "from_signum n = Inr ?s" using n u by (auto simp: from_signum_def simp del: push_bit_of_1)
    moreover have b: "bit ?s (unat n - 1)" "\<And>i. i < unat n - 1 \<Longrightarrow> \<not> bit ?s i" unfolding bit_signal using u by auto
    moreover have "count_ones ?s = 1" using u by (intro count_ones_single) simp
    moreover have "trailing_zeros ?s = unat n - 1" by (rule trailing_zeros_eq [OF b])
    moreover have "?s \<noteq> 0" using b(1) by (metis bit_0_eq bot_apply bot_bool_def)
    ultimately show ?thesis using u by (intro exI [of _ ?s]) (simp add: to_signum_def peek_front_def del: push_bit_of_1)
  qed
  moreover have "from_signum n = Inl ()" if "64 < n" for n using that by (auto simp: from_signum_def)
  moreover have "from_signum 0 = Inr 0" by (simp add: from_signum_def)
  moreover have "peek_front s = None \<longleftrightarrow> s = 0" for s by (simp add: peek_front_def)
  ultimately show ?thesis using peek_front_iff by blast
qed

theorem signal_numbers_witness: "\<exists>s. from_signum 9 = Inr s \<and> to_signum s = Inr 9 \<and> peek_front s = Some 9"
proof -
  have "1 \<le> (9 :: usize)" "(9 :: usize) \<le> 64" "unat (9 :: usize) = 9" by simp_all
  then show ?thesis using signal_numbers by metis
qed

section \<open>Masks and handlers\<close>

definition unmaskable :: "nat \<Rightarrow> bool" where
  "unmaskable i \<longleftrightarrow> i = 3 \<or> i = 8 \<or> i = 10 \<or> i = 18"

text \<open>
  SIGILL, SIGKILL, SIGSEGV and SIGSTOP are never masked, SIGKILL and SIGSTOP have no handler, and
  a handler is an address.
\<close>

definition sig_inv :: "sig_task \<Rightarrow> bool" where
  "sig_inv task \<longleftrightarrow>
     (\<forall>i. unmaskable i \<longrightarrow> \<not> bit (sigmask task) i) \<and> length (sighand task) = 64 \<and>
     sighand task ! 8 = None \<and> sighand task ! 18 = None \<and>
     (\<forall>act. Some act \<in> set (sighand task) \<longrightarrow>
        handler_addr (sa_handler act) \<noteq> None \<and> (\<forall>i. unmaskable i \<longrightarrow> \<not> bit (sa_mask act) i))"

lemma bit_can_not: "bit CAN_NOT_BE_MASKED i \<longleftrightarrow> unmaskable i"
  unfolding CAN_NOT_BE_MASKED_def unmaskable_def bit_or_iff bit_signal by auto

lemma bit_sig_difference: "bit (sig_difference a b) i \<longleftrightarrow> bit a i \<and> \<not> bit b i"
  by (auto simp: sig_difference_def bit_and_iff bit_not_iff dest: bit_imp_le_length)

lemmas sig_bits = bit_can_not bit_sig_difference bit_or_iff

lemma sighand_update:
  assumes "\<forall>act. Some act \<in> set hs \<longrightarrow> P act" and "\<forall>act. new = Some act \<longrightarrow> P act"
  shows "\<forall>act. Some act \<in> set (hs[i := new]) \<longrightarrow> P act"
  using assms set_update_subset_insert [of hs i new] by auto

lemma unat_pred_eq: "unat (x - 1) = n \<Longrightarrow> x = of_nat n + 1" for x :: usize
  by (metis diff_add_cancel of_nat_unat ucast_id)

lemma install_action_inv:
  assumes inv: "sig_inv task" and i: "i \<noteq> 8" "i \<noteq> 18"
  shows "sig_inv (install_action i sigact task)"
proof -
  let ?P = "\<lambda>act. handler_addr (sa_handler act) \<noteq> None \<and> (\<forall>i. unmaskable i \<longrightarrow> \<not> bit (sa_mask act) i)"
  let ?act = "sigact\<lparr>sa_mask := sig_difference (sa_mask sigact) CAN_NOT_BE_MASKED\<rparr>"
  let ?new = "if \<not> (sa_handler sigact = SIG_DFL \<or> sa_handler sigact = SIG_IGN) then Some ?act else None"
  have "\<forall>act. ?new = Some act \<longrightarrow> ?P act" by (simp add: handler_addr_def sig_bits)
  then have "\<forall>act. Some act \<in> set ((sighand task)[i := ?new]) \<longrightarrow> ?P act"
    using inv by (intro sighand_update) (simp_all add: sig_inv_def)
  moreover have "install_action i sigact task = task\<lparr>sighand := (sighand task)[i := ?new]\<rparr>" by (simp add: install_action_def)
  ultimately show ?thesis using inv i by (simp add: sig_inv_def)
qed

lemma sigaction_effect:
  assumes "sigaction env fops oom token signum act oldact task vm w = Some (r, task', vm', w')"
  shows "task' = task \<or> (signum \<noteq> 9 \<and> signum \<noteq> 19 \<and> (\<exists>sigact. task' = install_action (unat (signum - 1)) sigact task))"
  using assms unfolding sigaction_def
  by (auto simp: bind_eq_Some_conv split: if_split_asm sum.split_asm) (metis obj_sumE old.unit.exhaust)+

lemma sigaction_inv:
  assumes inv: "sig_inv task" and r: "sigaction env fops oom token signum act oldact task vm w = Some (r, task', vm', w')"
  shows "sig_inv task'"
  using sigaction_effect [OF r] inv install_action_inv [OF inv] unat_pred_eq [of signum 8] unat_pred_eq [of signum 18] by auto

lemma sigprocmask_effect:
  assumes "sigprocmask env fops oom token how sset oldset task vm w = Some (r, task', vm', w')"
  shows "task' = task \<or> (\<exists>sigs. task' = snd (apply_mask how sigs task))"
  using assms unfolding sigprocmask_def
  by (auto simp: bind_eq_Some_conv Let_def split: if_split_asm sum.split_asm) (metis obj_sumE)+

lemma sigprocmask_inv:
  assumes inv: "sig_inv task" and r: "sigprocmask env fops oom token how sset oldset task vm w = Some (r, task', vm', w')"
  shows "sig_inv task'"
  using sigprocmask_effect [OF r] inv by (auto simp: sig_inv_def apply_mask_def new_mask_def sig_bits split: if_splits)

lemma deliver_effect:
  assumes "deliver env fops oom token is_syscall signum act task vm w = Some (e, task', vm', w')"
  shows "task' = task \<and> e = ExitedCurrent 11 \<or>
    (\<exists>new. e = Returned \<and> (\<forall>i. unmaskable i \<longrightarrow> \<not> bit new i) \<and> sigpending task' = sigpending task \<and>
       sigmask task' = sigmask task OR new \<and>
       (sighand task' = sighand task \<or> sighand task' = (sighand task)[signum - 1 := None]))"
proof -
  let ?new = "if sa_contains (sa_flags act) SA_NODEFER then sig_difference (sa_mask act) CAN_NOT_BE_MASKED
              else sig_difference (push_bit (signum - 1) 1 OR sa_mask act) CAN_NOT_BE_MASKED"
  have "task' = task \<and> e = ExitedCurrent 11 \<or>
    (e = Returned \<and> sigpending task' = sigpending task \<and> sigmask task' = sigmask task OR ?new \<and>
       (sighand task' = sighand task \<or> sighand task' = (sighand task)[signum - 1 := None]))"
    using assms unfolding deliver_def Let_def by (auto simp: bind_eq_Some_conv split: if_split_asm)
  moreover have "\<forall>i. unmaskable i \<longrightarrow> \<not> bit ?new i" by (simp add: sig_bits)
  ultimately show ?thesis by blast
qed

lemma update_None: "xs ! j = None \<Longrightarrow> xs[i := None] ! j = None"
  by (cases "i < length xs") (simp_all add: nth_list_update list_update_beyond)

lemma deliver_inv:
  assumes inv: "sig_inv task" and r: "deliver env fops oom token is_syscall signum act task vm w = Some (e, task', vm', w')"
  shows "sig_inv task'"
  using deliver_effect [OF r]
proof (elim disjE exE conjE)
  fix new assume *: "\<forall>i. unmaskable i \<longrightarrow> \<not> bit new i" "sigmask task' = sigmask task OR new"
    "sighand task' = (sighand task)[signum - 1 := None]"
  let ?P = "\<lambda>act. handler_addr (sa_handler act) \<noteq> None \<and> (\<forall>i. unmaskable i \<longrightarrow> \<not> bit (sa_mask act) i)"
  have "\<forall>act. Some act \<in> set ((sighand task)[signum - 1 := None]) \<longrightarrow> ?P act"
    using inv by (intro sighand_update) (simp_all add: sig_inv_def)
  then show ?thesis using inv * by (simp add: sig_inv_def sig_bits update_None)
qed (use inv in \<open>auto simp: sig_inv_def sig_bits\<close>)

lemma do_signal_inv:
  assumes "do_signal env fops oom token is_syscall task vm w = Some (e, task', vm', w')" and "sig_inv task"
  shows "sig_inv task'"
  using assms
proof (induction env fops oom token is_syscall task vm w rule: do_signal.induct)
  case (1 env fops oom token is_syscall task vm w)
  show ?case
  proof (cases "peek_front (sig_difference (sigpending task) (sigmask task))")
    case None
    then show ?thesis using 1 by (subst (asm) do_signal.simps) simp
  next
    case (Some signum)
    let ?sg = "push_bit (signum - 1) 1 :: u64"
    let ?task = "task\<lparr>sigpending := sig_difference (sigpending task) ?sg\<rparr>"
    have inv: "sig_inv ?task" using "1.prems"(2) by (simp add: sig_inv_def)
    note IH = "1.IH" [OF Some refl refl]
    show ?thesis
      using "1.prems"(1) Some inv IH deliver_inv [OF inv]
      by (subst (asm) do_signal.simps) (auto simp: Let_def simp del: push_bit_of_1 split: if_split_asm option.split_asm)
  qed
qed

text \<open>
  C24: SIGILL, SIGKILL, SIGSEGV and SIGSTOP stay unmaskable, SIGKILL and SIGSTOP never get a
  handler and every handler is a callable address, whatever \<open>sigaction\<close>, \<open>sigprocmask\<close> and the
  delivery of signals do.
\<close>

theorem signals_stay_unmaskable:
  assumes "sig_inv task"
  shows "(\<forall>r task' vm' w'. sigaction env fops oom token signum act oldact task vm w = Some (r, task', vm', w') \<longrightarrow> sig_inv task') \<and>
    (\<forall>r task' vm' w'. sigprocmask env fops oom token how sset oldset task vm w = Some (r, task', vm', w') \<longrightarrow> sig_inv task') \<and>
    (\<forall>e task' vm' w'. do_signal env fops oom token is_syscall task vm w = Some (e, task', vm', w') \<longrightarrow> sig_inv task') \<and>
    sig_inv (add_signal s task)"
proof -
  have "sig_inv (add_signal s task)" using assms by (simp add: add_signal_def sig_inv_def)
  then show ?thesis
    by (intro conjI allI impI) (erule sigaction_inv [OF assms] sigprocmask_inv [OF assms] do_signal_inv [OF _ assms] | assumption)+
qed

definition sample_task :: sig_task where
  "sample_task = \<lparr>sigmask = push_bit 5 1, sigpending = SIGKILL OR SIGCHLD, sighand = replicate 64 None,
     trap_cx_ppn = 0x80500, ustack_base = USER_STACK_BASE\<rparr>"

lemma sample_task_inv: "sig_inv sample_task"
proof -
  have "\<not> bit (push_bit 5 1 :: u64) i" if "unmaskable i" for i using that unfolding bit_signal unmaskable_def by auto
  then show ?thesis by (simp add: sig_inv_def sample_task_def del: push_bit_of_1 push_bit_numeral)
qed

theorem signals_stay_unmaskable_witness:
  "\<exists>task'. sigaction undefined undefined undefined 0 9 0 0 sample_task None undefined = Some (EINVAL, task', None, undefined) \<and>
     sig_inv task'"
proof -
  have "sigaction undefined undefined undefined 0 9 0 0 sample_task None undefined = Some (EINVAL, sample_task, None, undefined)"
    by (simp add: sigaction_def)
  with signals_stay_unmaskable [OF sample_task_inv, THEN conjunct1, rule_format, OF this] show ?thesis by blast
qed

lemma single_eq: "a < 64 \<Longrightarrow> (push_bit a 1 :: u64) = push_bit b 1 \<longleftrightarrow> a = b"
  using bit_signal [of a a] bit_signal [of b a] by auto

lemma sigkill_front:
  assumes "sig_inv task" and "bit (sigpending task) 8"
  obtains n where "peek_front (sig_difference (sigpending task) (sigmask task)) = Some n" "0 < n" "n \<le> 9"
proof -
  let ?s = "sig_difference (sigpending task) (sigmask task)"
  have b: "bit ?s 8" using assms by (simp add: sig_inv_def unmaskable_def bit_sig_difference)
  then have "?s \<noteq> 0" by auto
  then obtain n where n: "peek_front ?s = Some n" by (auto simp: peek_front_def)
  then have "0 < n" "\<not> n - 1 > 8" using b unfolding peek_front_iff by auto
  then show ?thesis using that n by simp
qed

lemma early_signals:
  assumes "0 < n" and "n \<le> 9"
  shows "(push_bit (n - 1) 1 :: u64) \<noteq> SIGCHLD" "(push_bit (n - 1) 1 :: u64) \<noteq> SIGCONT" "(push_bit (n - 1) 1 :: u64) \<noteq> SIGURG"
    "(push_bit (n - 1) 1 :: u64) \<noteq> SIGWINCH" "(push_bit (n - 1) 1 :: u64) \<noteq> SIGTSTP" "(push_bit (n - 1) 1 :: u64) \<noteq> SIGTTIN"
    "(push_bit (n - 1) 1 :: u64) \<noteq> SIGTTOU"
  using assms unfolding SIGCHLD_def SIGCONT_def SIGURG_def SIGWINCH_def SIGTSTP_def SIGTTIN_def SIGTTOU_def
  by (subst single_eq; simp)+



section \<open>The context on the user stack\<close>

subsection \<open>Alignment\<close>

lemma unat_align8: "unat (x AND NOT 7 :: usize) = unat x div 8 * 8"
proof -
  have seven: "(7 :: usize) = mask 3" by (simp add: mask_eq_exp_minus_1)
  have "x AND NOT 7 = push_bit 3 (drop_bit 3 x)"
    unfolding seven by (rule bit_word_eqI) (auto simp: bit_simps not_less)
  also have "unat \<dots> = unat x div 8 * 8"
  proof -
    have u: "unat (drop_bit 3 x) = unat x div 8" by (simp add: drop_bit_eq_div unat_div)
    have "unat x div 8 * 8 < 2 ^ 64" using unat_u64_bound [of x] by (meson div_times_less_eq_dividend le_less_trans)
    then show ?thesis using u by (simp add: push_bit_eq_mult unat_word_ariths mult.commute)
  qed
  finally show ?thesis .
qed

lemma align8_id: "unat x mod 8 = 0 \<Longrightarrow> x AND NOT 7 = (x :: usize)"
  unfolding word_unat_eq_iff unat_align8 by (metis add.right_neutral div_mult_mod_eq)

lemma context_addrs:
  shows "siginfo_addr sp = ucontext_addr sp - 128" "ucontext_addr sp = siginfo_addr sp + 128"
    "(siginfo_addr sp + of_nat SIG_INFO_SIZE + 7) AND NOT 7 = ucontext_addr sp" "unat (siginfo_addr sp) mod 8 = 0"
proof -
  obtain k where u: "unat (ucontext_addr sp) = k * 8" unfolding ucontext_addr_def unat_align8 by blast
  have mult: "unat (8 * z) = 8 * unat z mod 2 ^ 64" for z :: usize by (simp add: unat_word_ariths)
  have "ucontext_addr sp = of_nat (k * 8)" using u by (metis of_nat_unat ucast_id)
  then have "ucontext_addr sp - 128 = 8 * (of_nat k - 16)" by simp
  then have "unat (ucontext_addr sp - 128) = 8 * unat (of_nat k - 16 :: usize) mod 2 ^ 64" using mult by metis
  then have m: "unat (ucontext_addr sp - 128) mod 8 = 0" by (simp add: mod_mod_cancel)
  show si: "siginfo_addr sp = ucontext_addr sp - 128"
    unfolding siginfo_addr_def SIG_INFO_SIZE_def using align8_id [OF m] by simp
  then show "ucontext_addr sp = siginfo_addr sp + 128" by simp
  show "unat (siginfo_addr sp) mod 8 = 0" using m by (simp add: si)
  have "k * 8 < 2 ^ 64" using u unat_u64_bound [of "ucontext_addr sp"] by simp
  then have "k * 8 + 7 < 2 ^ 64" by simp
  then have "unat (ucontext_addr sp + 7) = k * 8 + 7" using u unat_add_no_wrap [of "ucontext_addr sp" 7] by simp
  then have "unat ((ucontext_addr sp + 7) AND NOT 7) = unat (ucontext_addr sp)" unfolding unat_align8 u by simp
  then show "(siginfo_addr sp + of_nat SIG_INFO_SIZE + 7) AND NOT 7 = ucontext_addr sp"
    by (simp add: si SIG_INFO_SIZE_def word_unat_eq_iff)
qed

lemma aligned_word_in_page:
  assumes "unat a mod 8 = 0"
  shows "unat (va_page_offset a) + 8 \<le> 4096"
proof -
  have "unat (va_page_offset a) mod 8 = 0" using assms by (simp add: unat_va_page_offset mod_mod_cancel)
  moreover have "unat (va_page_offset a) < 4096" by (simp add: unat_va_page_offset)
  ultimately show ?thesis by presburger
qed

text \<open>A word at an aligned user address is read and written in place.\<close>

lemma user_word:
  assumes map: "user_mapped (sv39_from_token token) w a 8" and al: "unat a mod 8 = 0"
  obtains pa where "user_pa env fops oom token a vm w = Some (Inr pa, vm, w)"
    "phys_read w pa 8 = map (pmem_get w) (user_pos (sv39_from_token token) w a 8)"
    "\<And>bs. length bs = 8 \<Longrightarrow> phys_write pa bs w = pmem_put (zip (user_pos (sv39_from_token token) w a 8) bs) w"
proof -
  obtain pa where pa: "user_pa env fops oom token a vm w = Some (Inr pa, vm, w)"
    "sv39_translate (sv39_from_token token) w (va_floor a) = Some (pa_floor pa)" "pa_page_offset pa = va_page_offset a"
    by (rule user_pa_ok [OF map]) simp
  note off = aligned_word_in_page [OF al]
  note pos = user_pos_page [OF pa(2) off]
  show ?thesis
    using that [OF pa(1)] phys_read_pos [of pa 8 w] phys_write_pos [of pa _ w] off by (simp add: pos pa(3))
qed

subsection \<open>The stack range\<close>

definition CONTEXT_RANGE :: nat where "CONTEXT_RANGE = SIG_INFO_SIZE + USER_CONTEXT_SIZE"

lemmas context_sizes = CONTEXT_RANGE_def SIG_INFO_SIZE_def USER_CONTEXT_SIZE_def SIGNAL_STACK_SIZE_def PADDING_SIZE_def
  MACHINE_CONTEXT_SIZE_def

text \<open>
  There is room for the context on the user stack: the range is mapped by pages of the process
  in different frames, none of which is the trap context, which is no page table either.
\<close>

definition stack_ready :: "usize \<Rightarrow> frame multiset \<Rightarrow> 'f memory_set \<Rightarrow> PhysPageNum \<Rightarrow> usize \<Rightarrow> ('d, 'z) world \<Rightarrow> bool" where
  "stack_ready lo M ms tp si w \<longleftrightarrow>
     ms_inv lo M ms w \<and> user_mapped (ms_page_table ms) w si CONTEXT_RANGE \<and> in_areas ms si CONTEXT_RANGE \<and>
     distinct (user_pos (ms_page_table ms) w si CONTEXT_RANGE) \<and> tp \<notin> set (pt_frames (ms_page_table ms)) \<and>
     tp \<notin> fst ` set (user_pos (ms_page_table ms) w si CONTEXT_RANGE)"

text \<open>The bytes at an offset of the range.\<close>

definition stack_read :: "'f memory_set \<Rightarrow> usize \<Rightarrow> nat \<Rightarrow> nat \<Rightarrow> ('d, 'z) world \<Rightarrow> u8 list" where
  "stack_read ms si off n w = map (pmem_get w) (user_pos (ms_page_table ms) w (si + of_nat off) n)"

lemma user_pos_seg:
  assumes "off + n \<le> m"
  shows "user_pos pt w (a + of_nat off) n = take n (drop off (user_pos pt w a m))"
proof -
  have "user_pos pt w a m = user_pos pt w a off @ user_pos pt w (a + of_nat off) (m - off)"
    using assms by (intro user_pos_split) simp
  moreover have "user_pos pt w (a + of_nat off) (m - off) =
      user_pos pt w (a + of_nat off) n @ user_pos pt w (a + of_nat off + of_nat n) (m - off - n)"
    using assms by (intro user_pos_split) simp
  ultimately show ?thesis by simp
qed

lemma seg_disjoint:
  assumes "distinct xs" and "a + n \<le> b"
  shows "set (take n (drop a xs)) \<inter> set (take m (drop b xs)) = {}"
proof -
  have "take n (drop a xs) = take (a + n - a) (drop a (take (a + n) xs))" by (simp add: drop_take)
  then have "set (take n (drop a xs)) \<subseteq> set (take (a + n) xs)" by (metis set_drop_subset set_take_subset subset_trans)
  moreover have "set (take m (drop b xs)) \<subseteq> set (drop (a + n) xs)"
    by (metis assms(2) set_drop_subset_set_drop set_take_subset subset_trans)
  moreover have "set (take (a + n) xs) \<inter> set (drop (a + n) xs) = {}" using assms(1) by (simp add: set_take_disj_set_drop_if_distinct)
  ultimately show ?thesis by blast
qed

lemma stack_put:
  assumes r: "stack_ready lo M ms tp si w" and out: "\<forall>x \<in> fst ` set ps. fst x \<notin> set (pt_frames (ms_page_table ms))"
  shows "stack_ready lo M ms tp si (pmem_put ps w)"
    "user_pos (ms_page_table ms) (pmem_put ps w) a n = user_pos (ms_page_table ms) w a n"
proof -
  have inv: "ms_inv lo M ms w" using r by (simp add: stack_ready_def)
  note I = pmem_put_inv [OF inv bspec [OF out]]
  show "user_pos (ms_page_table ms) (pmem_put ps w) a n = user_pos (ms_page_table ms) w a n"
    by (simp add: user_pos_def sv39_translate_def I(2))
  show "stack_ready lo M ms tp si (pmem_put ps w)"
    using r I(1) by (simp add: stack_ready_def user_mapped_def user_pos_def sv39_translate_def I(2))
qed

lemma stack_seg:
  assumes r: "stack_ready lo M ms tp si w" and le: "off + n \<le> CONTEXT_RANGE"
  shows "user_mapped (ms_page_table ms) w (si + of_nat off) n"
    "x \<in> set (user_pos (ms_page_table ms) w (si + of_nat off) n) \<Longrightarrow> fst x \<notin> set (pt_frames (ms_page_table ms)) \<and> fst x \<noteq> tp"
    "distinct (user_pos (ms_page_table ms) w (si + of_nat off) n)"
proof -
  have map: "user_mapped (ms_page_table ms) w si CONTEXT_RANGE" using r by (simp add: stack_ready_def)
  have "off \<le> CONTEXT_RANGE" using le by simp
  note user_mapped_step [OF map this]
  then show "user_mapped (ms_page_table ms) w (si + of_nat off) n" using le by (auto simp: user_mapped_def)
  note seg = user_pos_seg [OF le, of "ms_page_table ms" w si]
  then have sub: "set (user_pos (ms_page_table ms) w (si + of_nat off) n) \<subseteq> set (user_pos (ms_page_table ms) w si CONTEXT_RANGE)"
    by (metis set_drop_subset set_take_subset subset_trans)
  show "fst x \<notin> set (pt_frames (ms_page_table ms)) \<and> fst x \<noteq> tp"
    if "x \<in> set (user_pos (ms_page_table ms) w (si + of_nat off) n)"
    using r that sub user_pos_frames [of lo M ms w si CONTEXT_RANGE x] by (auto simp: stack_ready_def)
  show "distinct (user_pos (ms_page_table ms) w (si + of_nat off) n)" using r seg by (simp add: stack_ready_def)
qed

text \<open>What a write into the range does: the bytes are there, the rest of the range and the trap context are as before.\<close>

lemma stack_write:
  assumes r: "stack_ready lo M ms tp si w" and le: "off + length bs \<le> CONTEXT_RANGE"
  defines "w' \<equiv> pmem_put (zip (user_pos (ms_page_table ms) w (si + of_nat off) (length bs)) bs) w"
  shows "stack_ready lo M ms tp si w'" "stack_read ms si off (length bs) w' = bs" "pmem w' tp = pmem w tp"
    "k + n \<le> off \<or> off + length bs \<le> k \<Longrightarrow> k + n \<le> CONTEXT_RANGE \<Longrightarrow> stack_read ms si k n w' = stack_read ms si k n w"
proof -
  let ?pos = "user_pos (ms_page_table ms) w (si + of_nat off) (length bs)"
  have fst: "fst ` set (zip ?pos bs) = set ?pos" by (metis length_user_pos map_fst_zip set_map)
  note S = stack_seg [OF r le]
  have out: "\<forall>x \<in> fst ` set (zip ?pos bs). fst x \<notin> set (pt_frames (ms_page_table ms))"
    using S(2) unfolding fst by blast
  note P = stack_put [OF r out, folded w'_def]
  show "stack_ready lo M ms tp si w'" by (rule P(1))
  show "stack_read ms si off (length bs) w' = bs"
    using pmem_put_get [OF S(3), of bs w] by (simp add: stack_read_def P(2)) (simp add: w'_def)
  have "tp \<notin> fst ` fst ` set (zip ?pos bs)" using S(2) unfolding fst by blast
  from pmem_put_frame [OF this] show "pmem w' tp = pmem w tp" by (simp add: w'_def)
  show "stack_read ms si k n w' = stack_read ms si k n w"
    if "k + n \<le> off \<or> off + length bs \<le> k" "k + n \<le> CONTEXT_RANGE"
  proof -
    have d: "distinct (user_pos (ms_page_table ms) w si CONTEXT_RANGE)" using r by (simp add: stack_ready_def)
    have "set (user_pos (ms_page_table ms) w (si + of_nat k) n) \<inter> set ?pos = {}"
      unfolding user_pos_seg [OF that(2)] user_pos_seg [OF le] using that(1) seg_disjoint [OF d] by blast
    then show ?thesis unfolding stack_read_def P(2) unfolding w'_def
      by (intro map_cong refl pmem_put_other) (auto simp: fst)
  qed
qed

lemma trap_set_put: "trap_set p i v w = pmem_put (zip (map (Pair p) [8 * i..<8 * i + 8]) (le64 v)) w"
  using write_bytes_put [of p "8 * i" "le64 v" w] by (simp add: trap_set_def)

lemma stack_trap_set:
  assumes r: "stack_ready lo M ms tp si w"
  shows "stack_ready lo M ms tp si (trap_set tp i v w)"
    "k + n \<le> CONTEXT_RANGE \<Longrightarrow> stack_read ms si k n (trap_set tp i v w) = stack_read ms si k n w"
proof -
  let ?ps = "zip (map (Pair tp) [8 * i..<8 * i + 8]) (le64 v)"
  have tp: "fst x = tp" if "x \<in> fst ` set ?ps" for x using that by (auto dest: set_zip_leftD)
  then have out: "\<forall>x \<in> fst ` set ?ps. fst x \<notin> set (pt_frames (ms_page_table ms))"
    using r by (simp add: stack_ready_def)
  note P = stack_put [OF r out, folded trap_set_put]
  show "stack_ready lo M ms tp si (trap_set tp i v w)" by (rule P(1))
  show "stack_read ms si k n (trap_set tp i v w) = stack_read ms si k n w" if "k + n \<le> CONTEXT_RANGE"
    unfolding stack_read_def P(2) unfolding trap_set_put
    using stack_seg(2) [OF r that] tp by (intro map_cong refl pmem_put_other) metis
qed

lemma trap_get_set [simp]: "trap_get (trap_set p i v w) p j = (if i = j then v else trap_get w p j)"
proof (cases "i = j")
  case True
  have "map (pmem (trap_set p i v w) p) [8 * i..<8 * i + 8] = le64 v"
    by (rule nth_equalityI) (simp_all add: trap_set_def write_bytes_def page_write_def)
  then show ?thesis using True by (simp add: trap_get_def)
next
  case False
  then have "map (pmem (trap_set p i v w) p) [8 * j..<8 * j + 8] = map (pmem w p) [8 * j..<8 * j + 8]"
    by (auto simp: trap_set_def write_bytes_def page_write_def)
  then show ?thesis using False unfolding trap_get_def by metis
qed

lemma stack_copy_to:
  assumes r: "stack_ready lo M ms tp si w" and le: "off + length bs \<le> CONTEXT_RANGE" and bs: "bs \<noteq> []"
  shows "copy_to_user env fops oom (ms_token ms) bs (si + of_nat off) vm w =
    Some (Inr (), vm, pmem_put (zip (user_pos (ms_page_table ms) w (si + of_nat off) (length bs)) bs) w)"
proof -
  have inv: "ms_inv lo M ms w" using r by (simp add: stack_ready_def)
  show ?thesis
    using copy_to_user_pos [of "ms_token ms" w "si + of_nat off" bs env fops oom vm] bs stack_seg(1) [OF r le]
    by (simp add: token_translate [OF inv])
qed

lemma stack_copy_from:
  assumes r: "stack_ready lo M ms tp si w" and le: "off + n \<le> CONTEXT_RANGE" and n: "0 < n" "length dst = n"
  shows "copy_from_user env fops oom (ms_token ms) (si + of_nat off) (of_nat n) dst vm w = Some (Inr (), stack_read ms si off n w, vm, w)"
proof -
  have inv: "ms_inv lo M ms w" using r by (simp add: stack_ready_def)
  show ?thesis
    using copy_from_user_pos [of "ms_token ms" w "si + of_nat off" n dst env fops oom vm] n stack_seg(1) [OF r le]
    by (simp add: token_translate [OF inv] stack_read_def)
qed

lemma stack_word:
  assumes r: "stack_ready lo M ms tp si w" and le: "off + 8 \<le> CONTEXT_RANGE" and al: "unat si mod 8 = 0" "off mod 8 = 0"
  obtains pa where "user_pa env fops oom (ms_token ms) (si + of_nat off) vm w = Some (Inr pa, vm, w)"
    "phys_read w pa 8 = stack_read ms si off 8 w"
    "\<And>bs. length bs = 8 \<Longrightarrow>
       phys_write pa bs w = pmem_put (zip (user_pos (ms_page_table ms) w (si + of_nat off) (length bs)) bs) w"
proof -
  have inv: "ms_inv lo M ms w" using r by (simp add: stack_ready_def)
  note T = token_translate [OF inv]
  note m = stack_seg(1) [OF r le]
  have "unat si + off < 2 ^ 64" using r le by (simp add: stack_ready_def user_mapped_def)
  then have "unat (si + of_nat off) = unat si + off" by (rule va_add)
  then have a: "unat (si + of_nat off) mod 8 = 0" using al by presburger
  show ?thesis
    using user_word [of "ms_token ms" w "si + of_nat off", OF _ a, of env fops oom vm] m that
    by (auto simp: T stack_read_def)
qed

lemma stack_read_sub:
  assumes "k + n \<le> m"
  shows "stack_read ms si (off + k) n w = take n (drop k (stack_read ms si off m w))"
  using user_pos_seg [OF assms, of "ms_page_table ms" w "si + of_nat off"]
  by (simp add: stack_read_def take_map drop_map add.assoc)

section \<open>Delivery and return\<close>

text \<open>The saved mask and registers lie at these offsets of the range.\<close>

definition saved :: "'f memory_set \<Rightarrow> usize \<Rightarrow> Signals \<Rightarrow> u8 list \<Rightarrow> ('d, 'z) world \<Rightarrow> bool" where
  "saved ms si sigs mc w \<longleftrightarrow> stack_read ms si 168 8 w = le64 sigs \<and> stack_read ms si 304 520 w = mc"

lemma length_context:
  "length (machine_context w p) = 520" "length mc = 520 \<Longrightarrow> length (user_context_bytes a b c mc) = 696"
  "length (sig_info_bytes n) = 128"
  by (simp_all add: machine_context_def context_sizes user_context_bytes_def signal_stack_bytes_def sig_info_bytes_def)

lemma context_fields:
  assumes "length mc = 520"
  shows "take 8 (drop 40 (user_context_bytes a b c mc)) = le64 c" "take 520 (drop 176 (user_context_bytes a b c mc)) = mc"
  using assms by (simp_all add: user_context_bytes_def signal_stack_bytes_def context_sizes)

lemma saved_trap_set:
  assumes "stack_ready lo M ms tp si w"
  shows "saved ms si sigs mc (trap_set tp i v w) = saved ms si sigs mc w"
  using stack_trap_set(2) [OF assms] by (simp add: saved_def context_sizes)

lemma push_context_siginfo:
  assumes r: "stack_ready lo M ms tp si w" and tp: "trap_cx_ppn task = tp" and si: "si = siginfo_addr (trap_get w tp r_sp)"
    and fl: "sa_contains (sa_flags act) SA_SIGINFO"
  shows "\<exists>w'. push_context env fops oom (ms_token ms) n act task vm w = Some (vm, w') \<and>
    stack_ready lo M ms tp si w' \<and> saved ms si (sigmask task) (machine_context w tp) w'"
proof -
  let ?mc = "machine_context w tp"
  let ?bs = "user_context_bytes si (si - (ustack_base task - USER_STACK_SIZE)) (sigmask task) ?mc" and ?info = "sig_info_bytes n"
  have uc: "ucontext_addr (trap_get w tp r_sp) = si + of_nat 128" using context_addrs(2) [of "trap_get w tp r_sp"] si by simp
  note len = length_context(1) [of w tp] length_context(2) [OF length_context(1)] length_context(3) [of n]
  have le: "128 + length ?bs \<le> CONTEXT_RANGE" "0 + length ?info \<le> CONTEXT_RANGE" by (simp_all add: len context_sizes)
  have ne: "?bs \<noteq> []" "?info \<noteq> []" using len by (metis list.size(3) zero_neq_numeral)+
  define w1 where "w1 = pmem_put (zip (user_pos (ms_page_table ms) w (si + of_nat 128) (length ?bs)) ?bs) w"
  note c1 = stack_copy_to [OF r le(1) ne(1), of env fops oom vm, folded w1_def]
  note S1 = stack_write [OF r le(1), folded w1_def]
  define w2 where "w2 = trap_set tp r_a2 (si + of_nat 128) w1"
  note S2 = stack_trap_set [OF S1(1), where i = r_a2 and v = "si + of_nat 128", folded w2_def]
  define w3 where "w3 = pmem_put (zip (user_pos (ms_page_table ms) w2 (si + of_nat 0) (length ?info)) ?info) w2"
  note c3 = stack_copy_to [OF S2(1) le(2) ne(2), of env fops oom vm, folded w3_def]
  note S3 = stack_write [OF S2(1) le(2), folded w3_def]
  define w4 where "w4 = trap_set tp r_a1 si w3"
  note S4 = stack_trap_set [OF S3(1), where i = r_a1 and v = si, folded w4_def]
  have fields: "stack_read ms si 168 8 w1 = le64 (sigmask task)" "stack_read ms si 304 520 w1 = ?mc"
    using stack_read_sub [of 40 8 696 ms si 128 w1] stack_read_sub [of 176 520 696 ms si 128 w1] S1(2) [unfolded len(2)]
      context_fields [OF len(1)] by simp_all
  have "stack_read ms si 168 8 w4 = le64 (sigmask task)" "stack_read ms si 304 520 w4 = ?mc"
    using fields S2(2) [of 168 8] S2(2) [of 304 520] S3(4) [of 168 8] S3(4) [of 304 520] S4(2) [of 168 8] S4(2) [of 304 520]
    by (simp_all add: len context_sizes)
  moreover have "push_context env fops oom (ms_token ms) n act task vm w = Some (vm, w4)"
    using c1 c3 fl by (simp add: push_context_def Let_def tp uc expect_ok_def w4_def flip: si) (simp add: w2_def)
  ultimately show ?thesis using S4(1) by (auto simp: saved_def)
qed

lemma push_context_plain:
  assumes r: "stack_ready lo M ms tp si w" and tp: "trap_cx_ppn task = tp" and si: "si = siginfo_addr (trap_get w tp r_sp)"
    and fl: "\<not> sa_contains (sa_flags act) SA_SIGINFO"
  shows "\<exists>w'. push_context env fops oom (ms_token ms) n act task vm w = Some (vm, w') \<and>
    stack_ready lo M ms tp si w' \<and> saved ms si (sigmask task) (machine_context w tp) w'"
proof -
  have uc: "ucontext_addr (trap_get w tp r_sp) = si + of_nat 128" using context_addrs(2) [of "trap_get w tp r_sp"] si by simp
  have al: "unat si mod 8 = 0" using context_addrs(4) si by simp
  obtain pa where pa: "user_pa env fops oom (ms_token ms) (si + of_nat 168) vm w = Some (Inr pa, vm, w)"
    "\<And>bs. length bs = 8 \<Longrightarrow>
       phys_write pa bs w = pmem_put (zip (user_pos (ms_page_table ms) w (si + of_nat 168) (length bs)) bs) w"
    using stack_word [OF r _ al, of 168 env fops oom vm] by (auto simp: context_sizes)
  have l8: "168 + length (le64 (sigmask task)) \<le> CONTEXT_RANGE" by (simp add: context_sizes)
  define w1 where "w1 = phys_write pa (le64 (sigmask task)) w"
  have w1: "w1 = pmem_put (zip (user_pos (ms_page_table ms) w (si + of_nat 168) (length (le64 (sigmask task)))) (le64 (sigmask task))) w"
    unfolding w1_def by (rule pa(2)) simp
  note S1 = stack_write [OF r l8, folded w1]
  let ?mc = "machine_context w1 tp"
  have mc: "?mc = machine_context w tp" using S1(3) by (simp add: machine_context_def)
  have l: "304 + length ?mc \<le> CONTEXT_RANGE" "?mc \<noteq> []"
    using length_context(1) [of w1 tp] by (simp_all add: context_sizes) (metis list.size(3) zero_neq_numeral)
  define w2 where "w2 = pmem_put (zip (user_pos (ms_page_table ms) w1 (si + of_nat 304) (length ?mc)) ?mc) w1"
  note c2 = stack_copy_to [OF S1(1) l, of env fops oom vm, folded w2_def]
  note S2 = stack_write [OF S1(1) l(1), folded w2_def]
  have "saved ms si (sigmask task) (machine_context w tp) w2"
    using S1(2) S2(2) S2(4) [of 168 8] mc by (simp add: saved_def context_sizes length_context)
  moreover have "push_context env fops oom (ms_token ms) n act task vm w = Some (vm, w2)"
    using pa(1) c2 fl
    by (simp add: push_context_def Let_def tp uc expect_ok_def translated_refmut_def context_sizes add.assoc flip: si w1_def)
  ultimately show ?thesis using S2(1) by blast
qed

lemma restart_syscall_ok:
  assumes r: "stack_ready lo M ms tp si w"
  shows "stack_ready lo M ms tp si (restart_syscall is_syscall act tp w)"
    "trap_get (restart_syscall is_syscall act tp w) tp r_sp = trap_get w tp r_sp"
  using r by (simp_all add: restart_syscall_def Let_def stack_trap_set(1) r_sp_def r_pc_def r_a0_def)

lemma deliver_ok:
  assumes r: "stack_ready lo M ms tp si w" and tp: "trap_cx_ppn task = tp" and si: "si = siginfo_addr (trap_get w tp r_sp)"
    and room: "\<not> si < ustack_base task - USER_STACK_SIZE" and h: "handler_addr (sa_handler act) = Some h"
  shows "\<exists>task' w'. deliver env fops oom (ms_token ms) is_syscall n act task vm w = Some (Returned, task', vm, w') \<and>
    trap_get w' tp r_pc = h \<and> trap_get w' tp r_a0 = of_nat n \<and> trap_get w' tp r_sp = si \<and>
    stack_ready lo M ms tp si w' \<and> saved ms si (sigmask task) (machine_context (restart_syscall is_syscall act tp w) tp) w'"
proof -
  define w0 where "w0 = restart_syscall is_syscall act tp w"
  note R = restart_syscall_ok [OF r, of is_syscall act, folded w0_def]
  have si0: "si = siginfo_addr (trap_get w0 tp r_sp)" using si R(2) by simp
  from push_context_siginfo [OF R(1) tp si0] push_context_plain [OF R(1) tp si0] obtain w1 where
    p: "push_context env fops oom (ms_token ms) n act task vm w0 = Some (vm, w1)" "stack_ready lo M ms tp si w1"
    "saved ms si (sigmask task) (machine_context w0 tp) w1" by blast
  let ?ra = "if sa_contains (sa_flags act) SA_RESTORER then sa_restorer act else SIGNAL_TRAMPOLINE"
  let ?w' = "trap_set tp r_pc h (trap_set tp r_ra ?ra (trap_set tp r_sp si (trap_set tp r_a0 (of_nat n) w1)))"
  have step: "stack_ready lo M ms tp si (trap_set tp i v x) \<and> saved ms si (sigmask task) (machine_context w0 tp) (trap_set tp i v x)"
    if "stack_ready lo M ms tp si x \<and> saved ms si (sigmask task) (machine_context w0 tp) x" for i v x
    using that stack_trap_set(1) saved_trap_set by blast
  have "stack_ready lo M ms tp si ?w' \<and> saved ms si (sigmask task) (machine_context w0 tp) ?w'"
    using p(2,3) by (intro step) simp
  moreover have "trap_get ?w' tp r_pc = h" "trap_get ?w' tp r_a0 = of_nat n" "trap_get ?w' tp r_sp = si"
    by (simp_all add: r_pc_def r_ra_def r_sp_def r_a0_def)
  moreover have "\<exists>task'. deliver env fops oom (ms_token ms) is_syscall n act task vm w = Some (Returned, task', vm, ?w')"
    using room p(1) h by (simp add: deliver_def Let_def tp flip: si0 w0_def)
  ultimately show ?thesis unfolding w0_def by blast
qed

lemma trap_get_context: "i < 65 \<Longrightarrow> trap_get w p i = un64 (take 8 (drop (8 * i) (machine_context w p)))"
  by (simp add: trap_get_def machine_context_def context_sizes take_map drop_map take_upt)

lemma sigreturn_ok:
  assumes r: "stack_ready lo M ms tp si w" and tp: "trap_cx_ppn task = tp" and sp: "trap_get w tp r_sp = si" "si = siginfo_addr sp"
    and sv: "saved ms si sigs mc w"
  shows "\<exists>w'. sys_sigreturn env fops oom (ms_token ms) task vm w =
      Some (un64 (take 8 (drop (8 * r_a0) mc)), task\<lparr>sigmask := sigs\<rparr>, vm, w') \<and> machine_context w' tp = mc"
proof -
  have uc: "(si + of_nat SIG_INFO_SIZE + 7) AND NOT 7 = si + of_nat 128"
    using context_addrs(2,3) [of sp] sp(2) by simp
  have al: "unat si mod 8 = 0" using context_addrs(4) sp(2) by simp
  obtain pa where pa: "user_pa env fops oom (ms_token ms) (si + of_nat 168) vm w = Some (Inr pa, vm, w)"
    "phys_read w pa 8 = stack_read ms si 168 8 w"
    using stack_word [OF r _ al, of 168 env fops oom vm] by (auto simp: context_sizes)
  have c: "copy_from_user env fops oom (ms_token ms) (si + of_nat 304) (of_nat MACHINE_CONTEXT_SIZE) (machine_context w tp) vm w =
      Some (Inr (), mc, vm, w)"
    using stack_copy_from [OF r, of 304 520 "machine_context w tp" env fops oom vm] sv length_context(1) [of w tp]
    by (simp add: saved_def context_sizes)
  let ?w = "write_bytes tp 0 mc w"
  have len: "length mc = 520" using sv by (auto simp: saved_def stack_read_def)
  have mc: "machine_context ?w tp = mc"
    by (rule nth_equalityI) (simp_all add: machine_context_def write_bytes_def page_write_def context_sizes len)
  then have "trap_get ?w tp r_a0 = un64 (take 8 (drop (8 * r_a0) mc))" by (simp add: trap_get_context r_a0_def)
  then have "sys_sigreturn env fops oom (ms_token ms) task vm w = Some (un64 (take 8 (drop (8 * r_a0) mc)), task\<lparr>sigmask := sigs\<rparr>, vm, ?w)"
    using pa c sv uc sp(1)
    by (simp add: sys_sigreturn_def Let_def tp expect_ok_def translated_ref_def saved_def context_sizes add.assoc)
  then show ?thesis using mc by blast
qed


lemma not_in_fst: "(\<And>x. x \<in> S \<Longrightarrow> fst x \<noteq> c) \<Longrightarrow> c \<notin> fst ` S"
  by auto

lemma sample_stack_ready: "stack_ready 0x80400 {#} sample_ms 0x100000000000 0x10800 sample_w"
proof -
  have "unat (0x10800 :: usize) div 4096 = 0x10" "unat (0x10800 :: usize) mod 4096 + CONTEXT_RANGE \<le> 4096"
    by (simp_all add: context_sizes)
  then obtain p where r: "user_mapped (ms_page_table sample_ms) sample_w 0x10800 CONTEXT_RANGE" "in_areas sample_ms 0x10800 CONTEXT_RANGE"
    "user_pos (ms_page_table sample_ms) sample_w 0x10800 CONTEXT_RANGE =
       map (Pair p) [unat (va_page_offset 0x10800)..<unat (va_page_offset 0x10800) + CONTEXT_RANGE]"
    by (rule sample_range)
  have wf: "pt_wf 0x80400 (ms_page_table sample_ms) sample_w" using sample_sys(3) by (simp add: ms_inv_def space_inv_def)
  have "q < 0x100000000000" if "q \<in> set (pt_frames (ms_page_table sample_ms))" for q
  proof -
    have "q \<in> km_allocated 0x80400 sample_w" using that pt_wfD(3) [OF wf] by blast
    then have "q < fa_end (kfa sample_w)" using pt_wfD(1) [OF wf] by (auto simp: km_defs fa_allocated_def fa_inv_def)
    also have "\<dots> \<le> 0x100000000000" using pt_wfD(2) [OF wf] by simp
    finally show ?thesis .
  qed
  then have out: "0x100000000000 \<notin> set (pt_frames (ms_page_table sample_ms))" using less_irrefl by blast
  have ne: "fst x \<noteq> 0x100000000000" if x: "x \<in> set (user_pos (ms_page_table sample_ms) sample_w 0x10800 CONTEXT_RANGE)" for x
  proof -
    obtain i where i: "i < CONTEXT_RANGE" "fst x = the (sv39_translate (ms_page_table sample_ms) sample_w (va_floor (0x10800 + of_nat i)))"
      using x by (auto simp: user_pos_def)
    have "sv39_translate (ms_page_table sample_ms) sample_w (va_floor (0x10800 + of_nat i)) \<noteq> None"
      using r(1) i(1) unfolding user_mapped_def by blast
    then obtain e where "sv39_translate (ms_page_table sample_ms) sample_w (va_floor (0x10800 + of_nat i)) = Some (pte_ppn e)"
      by (auto simp: sv39_translate_def)
    then have "unat (fst x) < 2 ^ 44" using i(2) pte_ppn_below [of e] by simp
    moreover have "unat (0x100000000000 :: usize) = 2 ^ 44" by simp
    ultimately show ?thesis by (metis less_irrefl)
  qed
  have "distinct (user_pos (ms_page_table sample_ms) sample_w 0x10800 CONTEXT_RANGE)"
    unfolding r(3) by (simp add: distinct_map inj_on_def)
  moreover have "0x100000000000 \<notin> fst ` set (user_pos (ms_page_table sample_ms) sample_w 0x10800 CONTEXT_RANGE)"
    by (rule not_in_fst) (rule ne)
  ultimately show ?thesis using r(1,2) sample_sys(3) out unfolding stack_ready_def by blast
qed

definition sample_action :: sig_action where
  "sample_action = \<lparr>sa_handler = 0x10000, sa_flags = SA_SIGINFO, sa_restorer = 0, sa_mask = 0\<rparr>"

definition sample_sig_task :: sig_task where
  "sample_sig_task = sample_task\<lparr>trap_cx_ppn := 0x100000000000, ustack_base := USER_STACK_SIZE\<rparr>"

definition sample_sig_w :: "(nat \<Rightarrow> u8 list) kworld" where
  "sample_sig_w = trap_set 0x100000000000 r_sp 0x10b38 sample_w"


text \<open>
  \<open>sys_sigreturn\<close> takes the mask from user memory as it is: a process that puts SIGKILL into the
  saved mask blocks SIGKILL, which no other operation allows.
\<close>

lemma sigreturn_masks_sigkill:
  assumes "stack_ready lo M ms tp si w" and "trap_cx_ppn task = tp" and "trap_get w tp r_sp = si" and "si = siginfo_addr sp"
    and "saved ms si SIGKILL mc w"
  shows "\<exists>r task' w'. sys_sigreturn env fops oom (ms_token ms) task vm w = Some (r, task', vm, w') \<and>
    bit (sigmask task') 8 \<and> \<not> sig_inv task'"
proof -
  have b: "bit SIGKILL 8" unfolding SIGKILL_def bit_signal by simp
  then have "\<not> sig_inv (task\<lparr>sigmask := SIGKILL\<rparr>)" unfolding sig_inv_def unmaskable_def by auto
  then show ?thesis using sigreturn_ok [OF assms, of env fops oom vm] b by auto
qed

end
