(* ===== verification/Task_Futex.thy ===== *)
theory Task_Futex
  imports Task_Manager Task_Signal
begin

text \<open>
  Fast user-space mutexes, \<open>task/threads.rs\<close>, with the part of \<open>block_current_and_run_next\<close> that
  puts the caller to sleep (\<open>task/mod.rs\<close>). A \<open>Futex\<close> maps the address of a futex word to the
  tasks that wait on it; an address nobody waits on has no entry.
\<close>

section \<open>Definitions\<close>

type_synonym futex = "usize \<rightharpoonup> wait_queue"

text \<open>What the operations read and change: the waiters, the timeouts, the tasks and the scheduler.\<close>

record futex_state =
  fx_futex :: futex
  fx_timeouts :: "timeout_waiter list"
  fx_tasks :: tasks
  fx_tm :: task_manager

definition futex_new :: futex where "futex_new = Map.empty"

text \<open>\<open>block_current_and_run_next\<close> up to the switch to the next task.\<close>

definition block_current :: "nat \<Rightarrow> futex_state \<Rightarrow> futex_state" where
  "block_current cur st =
     st\<lparr>fx_tasks := (fx_tasks st)(cur := map_option (\<lambda>tcb. tcb\<lparr>t_status := Interruptible\<rparr>) (fx_tasks st cur)),
        fx_tm := add_interruptible cur (fx_tm st)\<rparr>"

text \<open>
  \<open>do_futex_wait\<close> up to the point where the caller sleeps: \<open>Inl\<close> is an immediate return, \<open>Inr\<close> the
  state in which the caller has been blocked. \<open>now\<close> is the time the clock gives.
\<close>

definition futex_wait_enter ::
  "time_spec \<Rightarrow> nat \<Rightarrow> usize \<Rightarrow> u32 \<Rightarrow> u32 \<Rightarrow> time_spec option \<Rightarrow> futex_state \<Rightarrow> isize + futex_state" where
  "futex_wait_enter now cur futex_word_addr futex_word val timeout st =
     (let timeout = map_option (\<lambda>t. ts_add t now) timeout in
      if futex_word \<noteq> val then Inl EAGAIN
      else
        (let wait_queue = (case fx_futex st futex_word_addr of Some wait_queue \<Rightarrow> wait_queue | None \<Rightarrow> []);
             st = st\<lparr>fx_futex := (fx_futex st)(futex_word_addr \<mapsto> wq_add_task cur wait_queue)\<rparr>;
             st = (case timeout of
                     Some timeout \<Rightarrow> st\<lparr>fx_timeouts := twq_add_task cur timeout (fx_timeouts st)\<rparr>
                   | None \<Rightarrow> st)
         in Inr (block_current cur st)))"

text \<open>The rest of it, when the caller runs again.\<close>

definition futex_wait_return :: "Signals \<Rightarrow> Signals \<Rightarrow> isize" where
  "futex_wait_return pending masked = (if pending AND NOT masked \<noteq> 0 then EINTR else SUCCESS)"

definition futex_wake :: "usize \<Rightarrow> u32 \<Rightarrow> futex_state \<Rightarrow> isize \<times> futex_state" where
  "futex_wake futex_word_addr val st =
     (case fx_futex st futex_word_addr of
        Some wait_queue \<Rightarrow>
          (let (ret, wait_queue, tasks, tm) = wake_at_most (ucast val) wait_queue (fx_tasks st) (fx_tm st);
               futex = (fx_futex st)(futex_word_addr := None);
               futex = (if wait_queue \<noteq> [] then futex(futex_word_addr \<mapsto> wait_queue) else futex)
           in (ret, st\<lparr>fx_futex := futex, fx_tasks := tasks, fx_tm := tm\<rparr>))
      | None \<Rightarrow> (0, st))"

fun requeue_loop :: "isize \<Rightarrow> isize \<Rightarrow> wait_queue \<Rightarrow> wait_queue \<Rightarrow> isize \<times> wait_queue \<times> wait_queue" where
  "requeue_loop val2 cnt [] wq2 = (cnt, [], wq2)"
| "requeue_loop val2 cnt (t # wq) wq2 =
     (let wq2 = wq_add_task t wq2; cnt = cnt + 1 in
      if cnt = val2 then (cnt, wq, wq2) else requeue_loop val2 cnt wq wq2)"

definition put_queue :: "usize \<Rightarrow> wait_queue \<Rightarrow> futex \<Rightarrow> futex" where
  "put_queue addr wq futex = (if wq \<noteq> [] then futex(addr \<mapsto> wq) else futex)"

definition futex_requeue :: "usize \<Rightarrow> usize \<Rightarrow> u32 \<Rightarrow> u32 \<Rightarrow> futex_state \<Rightarrow> isize \<times> futex_state" where
  "futex_requeue addr addr2 val val2 st =
     (let (wake_cnt, st) = (if val \<noteq> 0 then futex_wake addr val st else (0, st)) in
      case fx_futex st addr of
        Some wait_queue \<Rightarrow>
          (let futex = (fx_futex st)(addr := None);
               wait_queue_2 = (case futex addr2 of Some wait_queue \<Rightarrow> wait_queue | None \<Rightarrow> []);
               futex = futex(addr2 := None);
               (requeue_cnt, wait_queue, wait_queue_2) =
                 (if val2 \<noteq> 0 then requeue_loop (ucast val2) 0 wait_queue wait_queue_2 else (0, wait_queue, wait_queue_2));
               futex = put_queue addr2 wait_queue_2 (put_queue addr wait_queue futex)
           in (wake_cnt + requeue_cnt, st\<lparr>fx_futex := futex\<rparr>))
      | None \<Rightarrow> (wake_cnt, st))"

definition futex_clear :: "futex_state \<Rightarrow> futex_state" where
  "futex_clear st = st\<lparr>fx_futex := Map.empty\<rparr>"

definition futex_wake_op :: "usize \<Rightarrow> usize \<Rightarrow> u32 \<Rightarrow> bool \<Rightarrow> futex_state \<Rightarrow> isize \<times> futex_state" where
  "futex_wake_op addr addr2 val do_wake2 st =
     (let (ret, st) = futex_wake addr (val AND 0x7fffffff) st in
      if do_wake2 then
        (let (ret2, st) = futex_wake addr2 (drop_bit 16 val AND 0xffff) st in (ret + ret2, st))
      else (ret, st))"

section \<open>Sleeping and waking\<close>

text \<open>The queues of the table, with an empty one for every address without an entry.\<close>

definition waiters :: "futex_state \<Rightarrow> usize \<Rightarrow> wait_queue" where
  "waiters st addr = (case fx_futex st addr of Some q \<Rightarrow> q | None \<Rightarrow> [])"

lemma block_current_sched:
  assumes inv: "sched_inv (fx_tasks st) (fx_tm st)" and run: "has_status Running (fx_tasks st) cur"
  shows "sched_inv (fx_tasks (block_current cur st)) (fx_tm (block_current cur st))"
    and "has_status Interruptible (fx_tasks (block_current cur st)) cur"
proof -
  obtain tcb where tcb: "fx_tasks st cur = Some tcb" "t_status tcb = Running" using run by (auto simp: has_status_def)
  show asleep: "has_status Interruptible (fx_tasks (block_current cur st)) cur" using tcb by (simp add: block_current_def has_status_def)
  have other: "has_status s (fx_tasks (block_current cur st)) t = has_status s (fx_tasks st) t" if "t \<noteq> cur" for s t
    using that by (simp add: block_current_def has_status_def)
  have nq: "cur \<notin> set (ready_queue (fx_tm st)) \<union> set (interruptible_queue (fx_tm st))"
    using inv tcb by (auto simp: sched_inv_def has_status_def)
  have dom: "dom (fx_tasks (block_current cur st)) = dom (fx_tasks st)" using tcb by (auto simp: block_current_def)
  have pid: "t_pid (the (fx_tasks (block_current cur st) t)) = t_pid (the (fx_tasks st t))" for t
    using tcb by (simp add: block_current_def)
  have tm: "ready_queue (fx_tm (block_current cur st)) = ready_queue (fx_tm st)"
    "interruptible_queue (fx_tm (block_current cur st)) = interruptible_queue (fx_tm st) @ [cur]"
    by (simp_all add: block_current_def add_interruptible_def)
  show "sched_inv (fx_tasks (block_current cur st)) (fx_tm (block_current cur st))"
    unfolding sched_inv_def tm dom pid
  proof (intro conjI)
    show "\<forall>t \<in> set (ready_queue (fx_tm st)). has_status Ready (fx_tasks (block_current cur st)) t"
    proof
      fix t assume "t \<in> set (ready_queue (fx_tm st))"
      then show "has_status Ready (fx_tasks (block_current cur st)) t" using inv nq other [of t Ready] by (auto simp: sched_inv_def)
    qed
    show "\<forall>t. t \<in> set (interruptible_queue (fx_tm st) @ [cur]) \<longleftrightarrow> has_status Interruptible (fx_tasks (block_current cur st)) t"
    proof
      fix t show "t \<in> set (interruptible_queue (fx_tm st) @ [cur]) \<longleftrightarrow> has_status Interruptible (fx_tasks (block_current cur st)) t"
        using inv nq asleep other [of t Interruptible] by (cases "t = cur") (simp_all add: sched_inv_def)
    qed
  qed (use inv nq in \<open>auto simp: sched_inv_def\<close>)
qed

lemma futex_wake_ok:
  assumes "sched_inv (fx_tasks st) (fx_tm st)"
  shows "\<exists>p q' ws st'. futex_wake addr val st = (of_nat (length ws), st') \<and> waiters st addr = p @ q' \<and>
    ws = sleepers (fx_tasks st) p \<and> length ws \<le> unat val \<and> (length ws < unat val \<longrightarrow> q' = []) \<and>
    waiters st' = (waiters st)(addr := q') \<and> fx_timeouts st' = fx_timeouts st \<and>
    fx_tasks st' = set_ready (set ws) (fx_tasks st) \<and> fx_tm st' = move_ready ws (fx_tm st) \<and> sched_inv (fx_tasks st') (fx_tm st')"
proof (cases "fx_futex st addr")
  case None
  have "waiters st = (waiters st)(addr := [])" using None by (auto simp: waiters_def fun_eq_iff)
  then show ?thesis using None assms
    by (intro exI [of _ "[]"] exI [of _ "[]"] exI [of _ "[]"] exI [of _ st]) (simp add: futex_wake_def waiters_def)
next
  case (Some q)
  have v: "unat (ucast val :: usize) = unat val" using unsigned_less [of val, where ?'a = nat] by (simp add: unsigned_ucast_eq take_bit_eq_mod)
  obtain p q' ws where w: "wake_at_most (ucast val) q (fx_tasks st) (fx_tm st) =
      (of_nat (length ws), q', set_ready (set ws) (fx_tasks st), move_ready ws (fx_tm st))"
    "q = p @ q'" "ws = sleepers (fx_tasks st) p" "length ws \<le> unat val" "length ws < unat val \<longrightarrow> q' = []"
    "sched_inv (set_ready (set ws) (fx_tasks st)) (move_ready ws (fx_tm st))"
    using wake_sched [OF assms, of "ucast val" q] unfolding v by blast
  let ?f = "(fx_futex st)(addr := None)"
  let ?st = "st\<lparr>fx_futex := (if q' \<noteq> [] then ?f(addr \<mapsto> q') else ?f), fx_tasks := set_ready (set ws) (fx_tasks st), fx_tm := move_ready ws (fx_tm st)\<rparr>"
  have "futex_wake addr val st = (of_nat (length ws), ?st)" using Some w(1) by (simp add: futex_wake_def)
  moreover have "waiters ?st = (waiters st)(addr := q')" by (auto simp: waiters_def fun_eq_iff)
  moreover have "waiters st addr = p @ q'" using Some w(2) by (simp add: waiters_def)
  ultimately show ?thesis using w(3-6)
    by (intro exI [of _ p] exI [of _ q'] exI [of _ ws] exI [of _ ?st] conjI) simp_all
qed

text \<open>
  C22. No wake-up is lost. A running task whose futex word still holds the expected value goes to
  sleep: it is queued on the address of the word, and if a wake-up on this address for more tasks
  than were waiting before comes next, the task is ready again and in the ready queue, and nobody is
  left waiting there. If the word has another value, the call returns \<open>EAGAIN\<close> at once.
\<close>

theorem futex_wait_is_woken:
  assumes inv: "sched_inv (fx_tasks st) (fx_tm st)" and run: "has_status Running (fx_tasks st) cur"
    and wake: "length (waiters st addr) < unat n"
  shows "(word \<noteq> val \<longrightarrow> futex_wait_enter now cur addr word val timeout st = Inl EAGAIN) \<and>
    (word = val \<longrightarrow> (\<exists>st1 r st2. futex_wait_enter now cur addr word val timeout st = Inr st1 \<and>
      has_status Interruptible (fx_tasks st1) cur \<and> waiters st1 = (waiters st)(addr := waiters st addr @ [cur]) \<and>
      sched_inv (fx_tasks st1) (fx_tm st1) \<and> futex_wake addr n st1 = (r, st2) \<and> has_status Ready (fx_tasks st2) cur \<and>
      cur \<in> set (ready_queue (fx_tm st2)) \<and> waiters st2 = (waiters st)(addr := []) \<and> sched_inv (fx_tasks st2) (fx_tm st2)))"
proof (intro conjI impI)
  assume "word = val"
  let ?q = "waiters st addr @ [cur]"
  let ?f = "(fx_futex st)(addr \<mapsto> ?q)"
  let ?st0 = "case timeout of Some t \<Rightarrow> st\<lparr>fx_futex := ?f, fx_timeouts := twq_add_task cur (ts_add t now) (fx_timeouts st)\<rparr>
    | None \<Rightarrow> st\<lparr>fx_futex := ?f\<rparr>"
  let ?st1 = "block_current cur ?st0"
  have e: "futex_wait_enter now cur addr word val timeout st = Inr ?st1"
    using \<open>word = val\<close> by (cases timeout) (simp_all add: futex_wait_enter_def Let_def waiters_def wq_add_task_def)
  have s0: "fx_tasks ?st0 = fx_tasks st" "fx_tm ?st0 = fx_tm st" "fx_futex ?st0 = ?f" by (cases timeout; simp)+
  have b: "sched_inv (fx_tasks ?st1) (fx_tm ?st1)" "has_status Interruptible (fx_tasks ?st1) cur"
    using block_current_sched [of ?st0 cur] inv run s0 by simp_all
  have w1: "waiters ?st1 = (waiters st)(addr := ?q)" using s0(3) by (auto simp: waiters_def block_current_def fun_eq_iff)
  obtain p q' ws st2 where w: "futex_wake addr n ?st1 = (of_nat (length ws), st2)" "waiters ?st1 addr = p @ q'"
    "ws = sleepers (fx_tasks ?st1) p" "length ws < unat n \<longrightarrow> q' = []" "waiters st2 = (waiters ?st1)(addr := q')"
    "fx_tasks st2 = set_ready (set ws) (fx_tasks ?st1)" "fx_tm st2 = move_ready ws (fx_tm ?st1)" "sched_inv (fx_tasks st2) (fx_tm st2)"
    using futex_wake_ok [OF b(1), of addr n] by blast
  have pq: "p @ q' = ?q" using w(2) w1 by simp
  have q: "q' = []"
  proof (cases "length ws < unat n")
    case False
    then have "length ?q \<le> length p" using wake length_sleepers [of "fx_tasks ?st1" p] w(3) by simp
    moreover have "length p + length q' = length ?q" using pq by (metis length_append)
    ultimately have "length q' = 0" by linarith
    then show ?thesis by simp
  qed (use w(4) in blast)
  then have "cur \<in> set ws" using pq w(3) b(2) by (simp add: sleepers_def)
  moreover from this have "cur \<in> dom (fx_tasks ?st1)" using b(2) by (auto simp: has_status_def)
  ultimately have "has_status Ready (fx_tasks st2) cur" "cur \<in> set (ready_queue (fx_tm st2))"
    using w(6,7) by (simp_all add: move_ready_def)
  moreover have "waiters st2 = (waiters st)(addr := [])" using w(5) w1 q by simp
  ultimately show "\<exists>st1 r st2. futex_wait_enter now cur addr word val timeout st = Inr st1 \<and>
      has_status Interruptible (fx_tasks st1) cur \<and> waiters st1 = (waiters st)(addr := waiters st addr @ [cur]) \<and>
      sched_inv (fx_tasks st1) (fx_tm st1) \<and> futex_wake addr n st1 = (r, st2) \<and> has_status Ready (fx_tasks st2) cur \<and>
      cur \<in> set (ready_queue (fx_tm st2)) \<and> waiters st2 = (waiters st)(addr := []) \<and> sched_inv (fx_tasks st2) (fx_tm st2)"
    using e b w(1,8) w1 by blast
qed (simp add: futex_wait_enter_def)

section \<open>Moving waiters\<close>

lemma requeue_loop_ok:
  "unat cnt < unat val2 \<Longrightarrow>
   requeue_loop val2 cnt wq wq2 =
     (let k = min (unat val2 - unat cnt) (length wq) in (cnt + of_nat k, drop k wq, wq2 @ take k wq))"
proof (induction wq arbitrary: cnt wq2)
  case Nil
  then show ?case by simp
next
  case (Cons t wq)
  have c1: "unat (cnt + 1) = unat cnt + 1" using Cons.prems unat_u64_bound [of val2] by (simp add: unat_word_ariths(1))
  show ?case
  proof (cases "cnt + 1 = val2")
    case True
    then have "unat val2 - unat cnt = 1" using c1 by simp
    then show ?thesis using True by (simp add: wq_add_task_def)
  next
    case False
    then have lt: "unat (cnt + 1) < unat val2" using Cons.prems c1 by (simp add: word_unat_eq_iff)
    then have "unat val2 - unat cnt = Suc (unat val2 - unat (cnt + 1))" using c1 by simp
    then show ?thesis using Cons.IH [OF lt, of "wq2 @ [t]"] False by (simp add: wq_add_task_def Let_def add.assoc)
  qed
qed

text \<open>
  C27. \<open>requeue\<close> between two different addresses loses nobody. It first wakes at most \<open>val\<close> sleepers
  from the front of the first queue, then moves the next waiters, as many as there are up to \<open>val2\<close>,
  to the end of the second queue in their order; the rest stays in the first queue, no other queue
  changes, and the result counts the woken and the moved tasks.
\<close>

theorem futex_requeue_keeps_waiters:
  assumes "sched_inv (fx_tasks st) (fx_tm st)" and "addr \<noteq> addr2"
  shows "\<exists>p moved q' ws st'. futex_requeue addr addr2 val val2 st = (of_nat (length ws) + of_nat (length moved), st') \<and>
    waiters st addr = p @ moved @ q' \<and> ws = sleepers (fx_tasks st) p \<and> length ws \<le> unat val \<and>
    length moved = min (unat val2) (length (moved @ q')) \<and>
    waiters st' = (waiters st)(addr := q', addr2 := waiters st addr2 @ moved) \<and>
    fx_tasks st' = set_ready (set ws) (fx_tasks st) \<and> fx_tm st' = move_ready ws (fx_tm st) \<and> sched_inv (fx_tasks st') (fx_tm st')"
proof -
  obtain p q ws st1 where 1: "(if val \<noteq> 0 then futex_wake addr val st else (0, st)) = (of_nat (length ws), st1)"
    "waiters st addr = p @ q" "ws = sleepers (fx_tasks st) p" "length ws \<le> unat val" "waiters st1 = (waiters st)(addr := q)"
    "fx_tasks st1 = set_ready (set ws) (fx_tasks st)" "fx_tm st1 = move_ready ws (fx_tm st)" "sched_inv (fx_tasks st1) (fx_tm st1)"
  proof (cases "val = 0")
    case True
    then show ?thesis using assms(1) by (intro that [of "[]" st "[]" "waiters st addr"]) simp_all
  next
    case False
    from futex_wake_ok [OF assms(1), of addr val] obtain p q ws st1 where
      "futex_wake addr val st = (of_nat (length ws), st1)" "waiters st addr = p @ q" "ws = sleepers (fx_tasks st) p"
      "length ws \<le> unat val" "waiters st1 = (waiters st)(addr := q)" "fx_tasks st1 = set_ready (set ws) (fx_tasks st)"
      "fx_tm st1 = move_ready ws (fx_tm st)" "sched_inv (fx_tasks st1) (fx_tm st1)" by blast
    with False show ?thesis by (intro that [of ws st1 p q]) simp_all
  qed
  have v: "unat (ucast val2 :: usize) = unat val2"
    using unsigned_less [of val2, where ?'a = nat] by (simp add: unsigned_ucast_eq take_bit_eq_mod)
  let ?k = "min (unat val2) (length q)" and ?q2 = "waiters st addr2"
  show ?thesis
  proof (cases "fx_futex st1 addr")
    case None
    then have q: "q = []" using 1(5) by (auto simp: waiters_def fun_eq_iff dest: spec [of _ addr])
    have "futex_requeue addr addr2 val val2 st = (of_nat (length ws) + of_nat (length []), st1)"
      using 1(1) None unfolding futex_requeue_def by simp
    then show ?thesis using 1 q assms(2)
      by (intro exI [of _ p] exI [of _ "[]"] exI [of _ "[]"] exI [of _ ws] exI [of _ st1]) (auto simp: fun_eq_iff)
  next
    case (Some q1)
    then have q1: "q1 = q" using 1(5) by (auto simp: waiters_def fun_eq_iff dest: spec [of _ addr])
    have q2: "(case ((fx_futex st1)(addr := None)) addr2 of Some wq \<Rightarrow> wq | None \<Rightarrow> []) = ?q2"
    proof -
      have "waiters st1 addr2 = ?q2" using 1(5) assms(2) by simp
      then show ?thesis using assms(2) by (simp add: waiters_def)
    qed
    have loop: "(if val2 \<noteq> 0 then requeue_loop (ucast val2) 0 q ?q2 else (0, q, ?q2)) = (of_nat ?k, drop ?k q, ?q2 @ take ?k q)"
    proof (cases "val2 = 0")
      case False
      then have "unat (0 :: usize) < unat (ucast val2 :: usize)" unfolding v by (simp add: unat_gt_0)
      from requeue_loop_ok [OF this, of q ?q2] show ?thesis using False by (simp add: v Let_def)
    qed simp
    let ?f = "put_queue addr2 (?q2 @ take ?k q) (put_queue addr (drop ?k q) ((fx_futex st1)(addr := None, addr2 := None)))"
    let ?st = "st1\<lparr>fx_futex := ?f\<rparr>"
    have run: "futex_requeue addr addr2 val val2 st = (of_nat (length ws) + of_nat (length (take ?k q)), ?st)"
      using 1(1) Some q1 q2 loop unfolding futex_requeue_def by (cases "val2 = 0") (simp_all add: Let_def)
    have "waiters ?st a = ((waiters st)(addr := drop ?k q, addr2 := ?q2 @ take ?k q)) a" for a
      using assms(2) fun_cong [OF 1(5), of a] by (auto simp: waiters_def put_queue_def split: if_splits)
    then have "waiters ?st = (waiters st)(addr := drop ?k q, addr2 := ?q2 @ take ?k q)" by (rule ext)
    moreover have "waiters st addr = p @ take ?k q @ drop ?k q" using 1(2) by simp
    moreover have "length (take ?k q) = min (unat val2) (length (take ?k q @ drop ?k q))" by simp
    moreover have "fx_tasks ?st = set_ready (set ws) (fx_tasks st)" "fx_tm ?st = move_ready ws (fx_tm st)"
      "sched_inv (fx_tasks ?st) (fx_tm ?st)" using 1(6,7,8) by simp_all
    ultimately show ?thesis using run 1(3,4) by blast
  qed
qed

section \<open>Witnesses\<close>

definition sample_futex :: futex_state where
  "sample_futex = \<lparr>fx_futex = [16 \<mapsto> [1]], fx_timeouts = [],
     fx_tasks = sample_tasks(2 \<mapsto> \<lparr>t_pid = 3, t_tgid = 1, t_status = Running, t_vm = 0\<rparr>), fx_tm = sample_tm\<rparr>"

lemma sample_futex_sched: "sched_inv (fx_tasks sample_futex) (fx_tm sample_futex)"
  by (auto simp: sched_inv_def sample_futex_def sample_tm_def sample_tasks_def has_status_def inj_on_def split: if_splits)

theorem futex_wait_is_woken_witness:
  "futex_wait_enter ts_new 2 16 7 8 None sample_futex = Inl EAGAIN \<and>
   (\<exists>st1 r st2. futex_wait_enter ts_new 2 16 7 7 None sample_futex = Inr st1 \<and> has_status Interruptible (fx_tasks st1) 2 \<and>
     futex_wake 16 2 st1 = (r, st2) \<and> 2 \<in> set (ready_queue (fx_tm st2)))"
proof -
  have run: "has_status Running (fx_tasks sample_futex) 2" by (simp add: has_status_def sample_futex_def)
  have len: "length (waiters sample_futex 16) < unat (2 :: u32)" by (simp add: waiters_def sample_futex_def)
  show ?thesis
    using futex_wait_is_woken [OF sample_futex_sched run len, of 7 8 ts_new None]
      futex_wait_is_woken [OF sample_futex_sched run len, of 7 7 ts_new None] by auto
qed

theorem futex_requeue_keeps_waiters_witness:
  "\<exists>r st'. futex_requeue 16 32 0 1 sample_futex = (r, st') \<and> waiters st' 16 = [] \<and> waiters st' 32 = [1]"
proof -
  have q: "waiters sample_futex 16 = [1]" "waiters sample_futex 32 = []" by (simp_all add: waiters_def sample_futex_def)
  have ne: "(16 :: usize) \<noteq> 32" by simp
  obtain p moved q' ws st' where w: "futex_requeue 16 32 0 1 sample_futex = (of_nat (length ws) + of_nat (length moved), st')"
    "waiters sample_futex 16 = p @ moved @ q'" "length ws \<le> unat (0 :: u32)" "length moved = min (unat (1 :: u32)) (length (moved @ q'))"
    "waiters st' = (waiters sample_futex)(16 := q', 32 := waiters sample_futex 32 @ moved)" "ws = sleepers (fx_tasks sample_futex) p"
    using futex_requeue_keeps_waiters [OF sample_futex_sched ne, of 0 1] by blast
  have p: "p = []"
  proof (rule ccontr)
    assume "p \<noteq> []"
    then have "p = [1]" using w(2) q(1) by (cases p) auto
    then show False using w(3,6) by (simp add: sleepers_def sample_futex_def sample_tasks_def has_status_def)
  qed
  then have "moved @ q' = [1]" using w(2) q(1) by simp
  moreover from this have "length moved = 1" using w(4) by simp
  ultimately have "moved = [1]" "q' = []" by (cases moved; auto)+
  then show ?thesis using w(1,5) q(2) by auto
qed

section \<open>Waiters that are forgotten\<close>

text \<open>
  \<open>requeue\<close> from an address to itself takes the queue out, moves a part of it to a new queue, and
  puts both back under the same key: the waiters that were not moved are gone.
\<close>

lemma requeue_same_address_loses_waiters:
  assumes "fx_futex st addr = Some q" and "0 < unat val2" and "unat val2 < length q"
  shows "\<exists>r st'. futex_requeue addr addr 0 val2 st = (r, st') \<and> waiters st' addr = take (unat val2) q \<and> drop (unat val2) q \<noteq> []"
proof -
  have v: "unat (ucast val2 :: usize) = unat val2"
    using unsigned_less [of val2, where ?'a = nat] by (simp add: unsigned_ucast_eq take_bit_eq_mod)
  have "unat (0 :: usize) < unat (ucast val2 :: usize)" using assms(2) v by simp
  from requeue_loop_ok [OF this, of q "[]"] have "requeue_loop (ucast val2) 0 q [] = (of_nat (unat val2), drop (unat val2) q, take (unat val2) q)"
    using assms(3) v by (simp add: Let_def)
  moreover have "val2 \<noteq> 0" using assms(2) by auto
  ultimately show ?thesis using assms by (auto simp: futex_requeue_def waiters_def put_queue_def Let_def)
qed

text \<open>
  A waiter whose timeout has passed is made ready but stays in the queue of the futex. When it sleeps
  again for another reason, a wake-up for one task on the old address is spent on it, and the
  task that really waits there goes on sleeping.
\<close>

lemma stale_waiter_takes_wake_up:
  assumes "sched_inv (fx_tasks st) (fx_tm st)" and "waiters st addr = t # u # q" and "t \<noteq> u"
    and "has_status Interruptible (fx_tasks st) t" and "has_status Interruptible (fx_tasks st) u"
  shows "\<exists>st'. futex_wake addr 1 st = (1, st') \<and> has_status Ready (fx_tasks st') t \<and> has_status Interruptible (fx_tasks st') u"
proof -
  obtain p q' ws st' where w: "futex_wake addr 1 st = (of_nat (length ws), st')" "waiters st addr = p @ q'"
    "ws = sleepers (fx_tasks st) p" "length ws \<le> unat (1 :: u32)" "length ws < unat (1 :: u32) \<longrightarrow> q' = []"
    "fx_tasks st' = set_ready (set ws) (fx_tasks st)" using futex_wake_ok [OF assms(1), of addr 1] by blast
  obtain p' where p: "p = t # p'" using w(2,5,3) assms(2,4) by (cases p) auto
  then have ws: "ws = t # sleepers (set_ready {t} (fx_tasks st)) p'" using w(3) sleepers_wake [OF assms(4)] by simp
  then have "ws = [t]" using w(4) by simp
  then show ?thesis using w(1,6) assms(3-5) by (auto simp: has_status_def set_ready_def)
qed

end
