(* ===== verification/Fs_File_Descriptor.thy ===== *)
theory Fs_File_Descriptor
  imports Mm_Memory_Set
begin

text \<open>
  \<open>fs/file_descriptor.rs\<close>: file descriptors and the descriptor table of a process. A file behind
  the trait object \<open>dyn File\<close> is a value of a type parameter; the operations of the trait and of
  the directory tree that a descriptor calls are the fields of \<open>file_vt\<close>. Descriptor numbers are
  indices of vectors and hence natural numbers; the vector \<open>recycled\<close> holds them as bytes.
\<close>

section \<open>Definitions\<close>

definition ENOENT :: isize where "ENOENT = - 2"
definition EBADF :: isize where "EBADF = - 9"
definition ENOTDIR :: isize where "ENOTDIR = - 20"
definition EMFILE :: isize where "EMFILE = - 24"

type_synonym open_flags = u32

definition O_RDONLY :: open_flags where "O_RDONLY = 0"
definition O_DIRECTORY :: open_flags where "O_DIRECTORY = 65536"
definition O_CLOEXEC :: open_flags where "O_CLOEXEC = 524288"

subsection \<open>File descriptors\<close>

record 'f file_descriptor =
  fd_cloexec :: bool
  fd_nonblock :: bool
  fd_file :: 'f

text \<open>The calls a descriptor makes; \<open>'n\<close> are nodes of the directory tree, \<open>'s\<close> the state of the file systems.\<close>

record ('f, 'n, 's) file_vt =
  vt_is_file :: "'f \<Rightarrow> bool"
  vt_is_dir :: "'f \<Rightarrow> bool"
  vt_writable :: "'f \<Rightarrow> bool"
  vt_get_dirtree_node :: "'f \<Rightarrow> 'n option"
  vt_get_dirent :: "'f \<Rightarrow> usize \<Rightarrow> 's \<Rightarrow> string list \<times> 's"
  vt_truncate_size :: "'f \<Rightarrow> usize \<Rightarrow> 's \<Rightarrow> (isize + unit) \<times> 's"
  vt_node_get_cwd :: "'n \<Rightarrow> string"
  vt_node_open :: "'n \<Rightarrow> string \<Rightarrow> open_flags \<Rightarrow> bool \<Rightarrow> 's \<Rightarrow> (isize + 'f) \<times> 's"
  vt_node_mkdir :: "'n \<Rightarrow> string \<Rightarrow> 's \<Rightarrow> (isize + unit) \<times> 's"
  vt_node_delete :: "'n \<Rightarrow> string \<Rightarrow> bool \<Rightarrow> 's \<Rightarrow> (isize + unit) \<times> 's"
  vt_rename :: "string \<Rightarrow> string \<Rightarrow> 's \<Rightarrow> (isize + unit) \<times> 's"

definition fd_new :: "bool \<Rightarrow> bool \<Rightarrow> 'f \<Rightarrow> 'f file_descriptor" where
  "fd_new cloexec nonblock file = \<lparr>fd_cloexec = cloexec, fd_nonblock = nonblock, fd_file = file\<rparr>"

definition set_cloexec :: "bool \<Rightarrow> 'f file_descriptor \<Rightarrow> 'f file_descriptor" where
  "set_cloexec flag fd = fd\<lparr>fd_cloexec := flag\<rparr>"

definition get_cloexec :: "'f file_descriptor \<Rightarrow> bool" where "get_cloexec fd = fd_cloexec fd"

definition get_nonblock :: "'f file_descriptor \<Rightarrow> bool" where "get_nonblock fd = fd_nonblock fd"

definition fd_get_cwd :: "('f, 'n, 's) file_vt \<Rightarrow> 'f file_descriptor \<Rightarrow> string option" where
  "fd_get_cwd vt fd = map_option (vt_node_get_cwd vt) (vt_get_dirtree_node vt (fd_file fd))"

definition starts_with_slash :: "string \<Rightarrow> bool" where
  "starts_with_slash path \<longleftrightarrow> (case path of [] \<Rightarrow> False | c # _ \<Rightarrow> c = CHR ''/'')"

definition fd_open ::
  "('f, 'n, 's) file_vt \<Rightarrow> 'f file_descriptor \<Rightarrow> string \<Rightarrow> open_flags \<Rightarrow> bool \<Rightarrow> 's \<Rightarrow> (isize + 'f file_descriptor) \<times> 's" where
  "fd_open vt fd path flags special_use s =
     (if path = [] then (Inr fd, s)
      else if vt_is_file vt (fd_file fd) \<and> \<not> starts_with_slash path then (Inl ENOTDIR, s)
      else case vt_get_dirtree_node vt (fd_file fd) of
        None \<Rightarrow> (Inl ENOENT, s)
      | Some inode \<Rightarrow>
          (case vt_node_open vt inode path flags special_use s of
             (Inl errno, s) \<Rightarrow> (Inl errno, s)
           | (Inr file, s) \<Rightarrow> (Inr (fd_new (flags AND O_CLOEXEC = O_CLOEXEC) False file), s)))"

definition fd_cd ::
  "('f, 'n, 's) file_vt \<Rightarrow> 'f file_descriptor \<Rightarrow> string \<Rightarrow> 's \<Rightarrow> (isize + 'f file_descriptor) \<times> 's" where
  "fd_cd vt fd path s = fd_open vt fd path (O_DIRECTORY OR O_RDONLY) True s"

definition fd_mkdir :: "('f, 'n, 's) file_vt \<Rightarrow> 'f file_descriptor \<Rightarrow> string \<Rightarrow> 's \<Rightarrow> (isize + unit) \<times> 's" where
  "fd_mkdir vt fd path s =
     (if vt_is_file vt (fd_file fd) \<and> \<not> starts_with_slash path then (Inl ENOTDIR, s)
      else case vt_get_dirtree_node vt (fd_file fd) of
        None \<Rightarrow> (Inl ENOENT, s)
      | Some inode \<Rightarrow> vt_node_mkdir vt inode path s)"

definition fd_delete :: "('f, 'n, 's) file_vt \<Rightarrow> 'f file_descriptor \<Rightarrow> string \<Rightarrow> bool \<Rightarrow> 's \<Rightarrow> (isize + unit) \<times> 's" where
  "fd_delete vt fd path delete_directory s =
     (if vt_is_file vt (fd_file fd) \<and> \<not> starts_with_slash path then (Inl ENOTDIR, s)
      else case vt_get_dirtree_node vt (fd_file fd) of
        None \<Rightarrow> (Inl ENOENT, s)
      | Some inode \<Rightarrow> vt_node_delete vt inode path delete_directory s)"

definition fd_rename ::
  "('f, 'n, 's) file_vt \<Rightarrow> 'f file_descriptor \<Rightarrow> string \<Rightarrow> 'f file_descriptor \<Rightarrow> string \<Rightarrow> 's \<Rightarrow> (isize + unit) \<times> 's" where
  "fd_rename vt old_fd old_path new_fd new_path s =
     (if vt_is_file vt (fd_file old_fd) \<and> \<not> starts_with_slash old_path then (Inl ENOTDIR, s)
      else if vt_is_file vt (fd_file new_fd) \<and> \<not> starts_with_slash new_path then (Inl ENOTDIR, s)
      else case vt_get_dirtree_node vt (fd_file old_fd) of
        None \<Rightarrow> (Inl ENOENT, s)
      | Some old_inode \<Rightarrow>
          (case vt_get_dirtree_node vt (fd_file new_fd) of
             None \<Rightarrow> (Inl ENOENT, s)
           | Some new_inode \<Rightarrow>
               vt_rename vt (vt_node_get_cwd vt old_inode @ ''/'' @ old_path)
                 (vt_node_get_cwd vt new_inode @ ''/'' @ new_path) s))"

definition fd_get_dirent :: "('f, 'n, 's) file_vt \<Rightarrow> 'f file_descriptor \<Rightarrow> usize \<Rightarrow> 's \<Rightarrow> (isize + string list) \<times> 's" where
  "fd_get_dirent vt fd n s =
     (if \<not> vt_is_dir vt (fd_file fd) then (Inl ENOTDIR, s)
      else (let (ds, s) = vt_get_dirent vt (fd_file fd) n s in (Inr ds, s)))"

definition fd_truncate_size :: "('f, 'n, 's) file_vt \<Rightarrow> 'f file_descriptor \<Rightarrow> isize \<Rightarrow> 's \<Rightarrow> (isize + unit) \<times> 's" where
  "fd_truncate_size vt fd new_size s =
     (if new_size <s 0 \<or> \<not> vt_writable vt (fd_file fd) then (Inl EINVAL, s)
      else vt_truncate_size vt (fd_file fd) new_size s)"

subsection \<open>The descriptor table\<close>

record 'e fd_table =
  ft_inner :: "'e option list"
  ft_recycled :: "u8 list"
  ft_soft_limit :: nat
  ft_hard_limit :: nat

definition DEFAULT_FD_LIMIT :: nat where "DEFAULT_FD_LIMIT = 128"
definition SYSTEM_FD_LIMIT :: nat where "SYSTEM_FD_LIMIT = 256"

definition ft_new :: "'e option list \<Rightarrow> 'e fd_table" where
  "ft_new inner = \<lparr>ft_inner = inner, ft_recycled = [], ft_soft_limit = DEFAULT_FD_LIMIT, ft_hard_limit = SYSTEM_FD_LIMIT\<rparr>"

definition ft_shorten :: "nat \<Rightarrow> 'e fd_table \<Rightarrow> 'e fd_table" where
  "ft_shorten limit ft =
     (if limit < length (ft_inner ft) then
        ft\<lparr>ft_inner := take limit (ft_inner ft), ft_recycled := filter (\<lambda>fd. unat fd < limit) (ft_recycled ft)\<rparr>
      else ft)"

definition set_soft_limit :: "nat \<Rightarrow> 'e fd_table \<Rightarrow> 'e fd_table" where
  "set_soft_limit limit ft = (ft_shorten limit ft)\<lparr>ft_soft_limit := limit\<rparr>"

definition set_hard_limit :: "nat \<Rightarrow> 'e fd_table \<Rightarrow> 'e fd_table" where
  "set_hard_limit limit ft = (ft_shorten limit ft)\<lparr>ft_hard_limit := limit\<rparr>"

definition get_ref :: "nat \<Rightarrow> 'e fd_table \<Rightarrow> isize + 'e" where
  "get_ref fd ft =
     (if fd \<ge> length (ft_inner ft) then Inl EBADF
      else case ft_inner ft ! fd of Some file_descriptor \<Rightarrow> Inr file_descriptor | None \<Rightarrow> Inl EBADF)"

text \<open>\<open>get_refmut\<close> with the update \<open>f\<close> the caller makes through the reference.\<close>

definition get_refmut :: "nat \<Rightarrow> ('e \<Rightarrow> 'e) \<Rightarrow> 'e fd_table \<Rightarrow> (isize + unit) \<times> 'e fd_table" where
  "get_refmut fd f ft =
     (if fd \<ge> length (ft_inner ft) then (Inl EBADF, ft)
      else case ft_inner ft ! fd of
        Some file_descriptor \<Rightarrow> (Inr (), ft\<lparr>ft_inner := (ft_inner ft)[fd := Some (f file_descriptor)]\<rparr>)
      | None \<Rightarrow> (Inl EBADF, ft))"

definition ft_remove :: "nat \<Rightarrow> 'e fd_table \<Rightarrow> (isize + 'e) \<times> 'e fd_table" where
  "ft_remove fd ft =
     (if fd \<ge> length (ft_inner ft) then (Inl EBADF, ft)
      else case ft_inner ft ! fd of
        Some file_descriptor \<Rightarrow>
          (Inr file_descriptor, ft\<lparr>ft_inner := (ft_inner ft)[fd := None], ft_recycled := ft_recycled ft @ [of_nat fd]\<rparr>)
      | None \<Rightarrow> (Inl EBADF, ft))"

definition ft_check :: "nat \<Rightarrow> 'e fd_table \<Rightarrow> isize + unit" where
  "ft_check fd ft = (if fd \<ge> length (ft_inner ft) \<or> ft_inner ft ! fd = None then Inl EBADF else Inr ())"

text \<open>\<open>iter().min()\<close> and the removal of its first position.\<close>

definition find_min :: "'e fd_table \<Rightarrow> u8 option \<times> 'e fd_table" where
  "find_min ft =
     (if ft_recycled ft = [] then (None, ft)
      else (let min_value = fold min (tl (ft_recycled ft)) (hd (ft_recycled ft)) in
            (Some min_value, ft\<lparr>ft_recycled := remove1 min_value (ft_recycled ft)\<rparr>)))"

text \<open>\<open>None\<close> is the panic of an index out of bounds.\<close>

definition ft_insert :: "'e \<Rightarrow> 'e fd_table \<Rightarrow> ((isize + nat) \<times> 'e fd_table) option" where
  "ft_insert file_descriptor ft =
     (case find_min ft of
        (Some fd, ft) \<Rightarrow>
          (if unat fd < length (ft_inner ft) then
             Some (Inr (unat fd), ft\<lparr>ft_inner := (ft_inner ft)[unat fd := Some file_descriptor]\<rparr>)
           else None)
      | (None, ft) \<Rightarrow>
          (let current = length (ft_inner ft) in
           if current = ft_soft_limit ft then Some (Inl EMFILE, ft)
           else Some (Inr current, ft\<lparr>ft_inner := ft_inner ft @ [Some file_descriptor]\<rparr>)))"

definition insert_at :: "'e \<Rightarrow> nat \<Rightarrow> 'e fd_table \<Rightarrow> (isize + nat) \<times> 'e fd_table" where
  "insert_at file_descriptor pos ft =
     (let current = length (ft_inner ft) in
      if pos < current then
        (let ft = (if ft_inner ft ! pos = None
                   then ft\<lparr>ft_recycled := filter (\<lambda>fd. unat fd \<noteq> pos) (ft_recycled ft)\<rparr> else ft) in
         (Inr pos, ft\<lparr>ft_inner := (ft_inner ft)[pos := Some file_descriptor]\<rparr>))
      else if pos \<ge> ft_soft_limit ft then (Inl EMFILE, ft)
      else
        (Inr pos, ft\<lparr>ft_recycled := ft_recycled ft @ map of_nat (rev [current..<pos]),
                     ft_inner := vec_resize pos None (ft_inner ft) @ [Some file_descriptor]\<rparr>))"

definition try_insert_at :: "'e \<Rightarrow> nat \<Rightarrow> 'e fd_table \<Rightarrow> ((isize + nat) \<times> 'e fd_table) option" where
  "try_insert_at file_descriptor hint ft =
     (if hint \<ge> ft_soft_limit ft then Some (Inl EMFILE, ft)
      else
        (let current = length (ft_inner ft) in
         if hint < current then
           (case ft_inner ft ! hint of
              Some _ \<Rightarrow>
                (case find (\<lambda>fd. unat fd > hint) (ft_recycled ft) of
                   Some fd \<Rightarrow>
                     (if unat fd < length (ft_inner ft) then
                        Some (Inr (unat fd), ft\<lparr>ft_inner := (ft_inner ft)[unat fd := Some file_descriptor]\<rparr>)
                      else None)
                 | None \<Rightarrow>
                     (if current = ft_soft_limit ft then Some (Inl EMFILE, ft)
                      else Some (Inr current, ft\<lparr>ft_inner := ft_inner ft @ [Some file_descriptor]\<rparr>)))
            | None \<Rightarrow>
                Some (Inr hint, ft\<lparr>ft_recycled := filter (\<lambda>fd. unat fd \<noteq> hint) (ft_recycled ft),
                                   ft_inner := (ft_inner ft)[hint := Some file_descriptor]\<rparr>))
         else if hint \<ge> ft_soft_limit ft then Some (Inl EMFILE, ft)
         else
           Some (Inr hint, ft\<lparr>ft_recycled := ft_recycled ft @ map of_nat [current..<hint],
                              ft_inner := vec_resize hint None (ft_inner ft) @ [Some file_descriptor]\<rparr>)))"

definition ft_take :: "nat \<Rightarrow> 'e fd_table \<Rightarrow> 'e option \<times> 'e fd_table" where
  "ft_take fd ft =
     (if fd \<ge> length (ft_inner ft) then (None, ft)
      else (ft_inner ft ! fd, ft\<lparr>ft_inner := (ft_inner ft)[fd := None]\<rparr>))"

section \<open>The table as a map\<close>

definition fd_map :: "'e fd_table \<Rightarrow> nat \<Rightarrow> 'e option" where
  "fd_map ft fd = (if fd < length (ft_inner ft) then ft_inner ft ! fd else None)"

text \<open>
  The recycled numbers are exactly the free slots below the length of the table, each once, and
  the table is within its limit, which a byte can count up to.
\<close>

definition fd_inv :: "'e fd_table \<Rightarrow> bool" where
  "fd_inv ft \<longleftrightarrow>
     distinct (ft_recycled ft) \<and> unat ` set (ft_recycled ft) = {fd. fd < length (ft_inner ft) \<and> ft_inner ft ! fd = None} \<and>
     length (ft_inner ft) \<le> ft_soft_limit ft \<and> ft_soft_limit ft \<le> 256"

lemma fd_invD:
  assumes "fd_inv ft"
  shows "distinct (ft_recycled ft)" "length (ft_inner ft) \<le> ft_soft_limit ft" "ft_soft_limit ft \<le> 256"
    "x \<in> set (ft_recycled ft) \<Longrightarrow> unat x < length (ft_inner ft) \<and> ft_inner ft ! unat x = None"
    "fd < length (ft_inner ft) \<Longrightarrow> ft_inner ft ! fd = None \<Longrightarrow> \<exists>x \<in> set (ft_recycled ft). unat x = fd"
  using assms unfolding fd_inv_def by (blast, blast, blast, blast, metis (mono_tags, lifting) image_iff mem_Collect_eq)

lemma unat_of_nat_u8: "n < 256 \<Longrightarrow> unat (of_nat n :: u8) = n"
  by (simp add: unat_of_nat)

lemma find_min_ok:
  assumes "find_min ft = (Some m, ft')"
  shows "m \<in> set (ft_recycled ft)" "\<And>x. x \<in> set (ft_recycled ft) \<Longrightarrow> m \<le> x"
    "ft' = ft\<lparr>ft_recycled := remove1 m (ft_recycled ft)\<rparr>"
proof -
  have ne: "ft_recycled ft \<noteq> []" using assms by (auto simp: find_min_def)
  then have m: "m = Min (set (ft_recycled ft))"
    using assms Min.set_eq_fold [of "hd (ft_recycled ft)" "tl (ft_recycled ft)"] by (simp add: find_min_def Let_def)
  show "m \<in> set (ft_recycled ft)" "\<And>x. x \<in> set (ft_recycled ft) \<Longrightarrow> m \<le> x" using ne by (simp_all add: m)
  show "ft' = ft\<lparr>ft_recycled := remove1 m (ft_recycled ft)\<rparr>"
    using assms ne by (auto simp: find_min_def Let_def)
qed

lemma fd_inv_fill:
  assumes inv: "fd_inv ft" and x: "x \<in> set (ft_recycled ft)"
  shows "fd_inv (ft\<lparr>ft_recycled := remove1 x (ft_recycled ft), ft_inner := (ft_inner ft)[unat x := Some e]\<rparr>)"
proof -
  note I = fd_invD [OF inv]
  have "unat ` set (remove1 x (ft_recycled ft)) = unat ` set (ft_recycled ft) - {unat x}"
    using I(1) by (auto simp: set_remove1_eq word_unat_eq_iff)
  also have "\<dots> = {fd. fd < length (ft_inner ft) \<and> (ft_inner ft)[unat x := Some e] ! fd = None}"
    using inv I(4) [OF x] by (auto simp: fd_inv_def nth_list_update)
  finally show ?thesis using I(1-3) by (simp add: fd_inv_def)
qed

lemma fd_inv_push:
  assumes "fd_inv ft" and "length (ft_inner ft) < ft_soft_limit ft"
  shows "fd_inv (ft\<lparr>ft_inner := ft_inner ft @ [Some e]\<rparr>)"
  using assms unfolding fd_inv_def by (auto simp: nth_append less_Suc_eq)

lemma fd_map_push: "fd_map (ft\<lparr>ft_inner := ft_inner ft @ [Some e]\<rparr>) = (fd_map ft)(length (ft_inner ft) \<mapsto> e)"
  by (auto simp: fd_map_def fun_eq_iff nth_append)

lemma fd_map_fill:
  "k < length (ft_inner ft) \<Longrightarrow> fd_map (ft\<lparr>ft_recycled := r, ft_inner := (ft_inner ft)[k := v]\<rparr>) = (fd_map ft)(k := v)"
  by (auto simp: fd_map_def fun_eq_iff nth_list_update)

lemma no_free:
  assumes "fd_inv ft" and "ft_recycled ft = []" and "j < length (ft_inner ft)"
  shows "fd_map ft j \<noteq> None"
  using assms fd_invD(5) [OF assms(1)] by (auto simp: fd_map_def)

lemma ft_insert_ok:
  assumes inv: "fd_inv ft"
  shows "\<exists>res ft'. ft_insert e ft = Some (res, ft') \<and> fd_inv ft' \<and> ft_soft_limit ft' = ft_soft_limit ft \<and>
    (case res of
       Inr fd \<Rightarrow> fd_map ft fd = None \<and> (\<forall>j < fd. fd_map ft j \<noteq> None) \<and> fd < ft_soft_limit ft \<and> fd_map ft' = (fd_map ft)(fd \<mapsto> e)
     | Inl errno \<Rightarrow> errno = EMFILE \<and> ft' = ft \<and> (\<forall>j < ft_soft_limit ft. fd_map ft j \<noteq> None))"
proof (cases "ft_recycled ft = []")
  case True
  then have f: "find_min ft = (None, ft)" by (simp add: find_min_def)
  show ?thesis
  proof (cases "length (ft_inner ft) = ft_soft_limit ft")
    case True
    then show ?thesis using f inv no_free [OF inv \<open>ft_recycled ft = []\<close>] by (auto simp: ft_insert_def Let_def)
  next
    case False
    then have "length (ft_inner ft) < ft_soft_limit ft" using fd_invD(2) [OF inv] by simp
    then show ?thesis
      using f False fd_inv_push [OF inv] no_free [OF inv \<open>ft_recycled ft = []\<close>] fd_map_push [of ft e]
      by (auto simp: ft_insert_def Let_def fd_map_def)
  qed
next
  case False
  then obtain m ft1 where f: "find_min ft = (Some m, ft1)" by (simp add: find_min_def Let_def)
  note M = find_min_ok [OF f]
  note I = fd_invD(4) [OF inv M(1)]
  have "fd_map ft j \<noteq> None" if "j < unat m" for j
  proof
    assume "fd_map ft j = None"
    moreover have "j < length (ft_inner ft)" using that I by simp
    ultimately obtain x where "x \<in> set (ft_recycled ft)" "unat x = j" using fd_invD(5) [OF inv] by (auto simp: fd_map_def)
    then show False using M(2) [of x] that by (simp add: word_le_nat_alt)
  qed
  then show ?thesis
    using f M(3) I fd_inv_fill [OF inv M(1), of e] fd_map_fill [of "unat m" ft, where r = "remove1 m (ft_recycled ft)" and v = "Some e"]
      fd_invD(2) [OF inv] by (auto simp: ft_insert_def fd_map_def)
qed

lemma ft_remove_ok:
  assumes inv: "fd_inv ft" and e: "fd_map ft fd = Some e"
  shows "\<exists>ft'. ft_remove fd ft = (Inr e, ft') \<and> fd_inv ft' \<and> fd_map ft' = (fd_map ft)(fd := None) \<and> ft_soft_limit ft' = ft_soft_limit ft"
proof -
  have fd: "fd < length (ft_inner ft)" "ft_inner ft ! fd = Some e" using e by (auto simp: fd_map_def split: if_splits)
  let ?ft = "ft\<lparr>ft_recycled := ft_recycled ft @ [of_nat fd], ft_inner := (ft_inner ft)[fd := None]\<rparr>"
  note I = fd_invD [OF inv]
  have b: "unat (of_nat fd :: u8) = fd" using fd(1) I(2,3) by (intro unat_of_nat_u8) simp
  have "of_nat fd \<notin> set (ft_recycled ft)" using I(4) [of "of_nat fd"] fd(2) b by auto
  moreover have "unat ` set (ft_recycled ft @ [of_nat fd]) = insert fd (unat ` set (ft_recycled ft))" using b by simp
  ultimately have "fd_inv ?ft" using inv fd by (auto simp: fd_inv_def nth_list_update)
  moreover have "ft_remove fd ft = (Inr e, ?ft)" using fd by (simp add: ft_remove_def)
  ultimately show ?thesis using fd_map_fill [OF fd(1), where r = "ft_recycled ft @ [of_nat fd]" and v = None] by auto
qed

lemma ft_remove_bad: "fd_map ft fd = None \<Longrightarrow> ft_remove fd ft = (Inl EBADF, ft)"
  by (auto simp: fd_map_def ft_remove_def split: if_splits)

section \<open>A table of slots\<close>

text \<open>
  What the system calls rely on: a partial map from numbers to entries below a limit, in which
  \<open>insert\<close> takes the lowest free number.
\<close>

locale slot_table =
  fixes look :: "'t \<Rightarrow> nat \<Rightarrow> 'e option" and ins :: "'e \<Rightarrow> 't \<Rightarrow> ((isize + nat) \<times> 't) option"
    and rem :: "nat \<Rightarrow> 't \<Rightarrow> (isize + 'e) \<times> 't" and limit :: "'t \<Rightarrow> nat" and inv :: "'t \<Rightarrow> bool"
  assumes ins_total: "inv t \<Longrightarrow> ins e t \<noteq> None"
    and ins_inv: "inv t \<Longrightarrow> ins e t = Some (res, t') \<Longrightarrow> inv t' \<and> limit t' = limit t"
    and ins_ok: "inv t \<Longrightarrow> ins e t = Some (Inr n, t') \<Longrightarrow>
      look t n = None \<and> (\<forall>j < n. look t j \<noteq> None) \<and> n < limit t \<and> look t' = (look t)(n \<mapsto> e)"
    and ins_full: "inv t \<Longrightarrow> ins e t = Some (Inl errno, t') \<Longrightarrow> t' = t \<and> (\<forall>j < limit t. look t j \<noteq> None)"
    and rem_inv: "inv t \<Longrightarrow> rem n t = (old, t') \<Longrightarrow> inv t' \<and> limit t' = limit t"
    and rem_ok: "inv t \<Longrightarrow> look t n = Some e \<Longrightarrow> \<exists>t'. rem n t = (Inr e, t') \<and> look t' = (look t)(n := None)"
    and rem_bad: "look t n = None \<Longrightarrow> \<exists>errno. rem n t = (Inl errno, t)"
begin

lemma ins_never_overwrites:
  "inv t \<Longrightarrow> ins e t = Some (Inr n, t') \<Longrightarrow> look t m = Some d \<Longrightarrow> look t' m = Some d"
  using ins_ok [of t e n t'] by auto

lemma ins_rem:
  assumes "inv t" "ins e t = Some (Inr n, t1)"
  shows "\<exists>t2. rem n t1 = (Inr e, t2) \<and> inv t2 \<and> look t2 = look t"
proof -
  note I = ins_inv [OF assms] and O = ins_ok [OF assms]
  from rem_ok [of t1 n e] I O obtain t2 where r: "rem n t1 = (Inr e, t2)" "look t2 = (look t1)(n := None)" by auto
  then have "look t2 = look t" using O by (auto simp: fun_eq_iff)
  then show ?thesis using r(1) rem_inv [of t1 n] I by blast
qed

text \<open>After \<open>close(n)\<close> the next \<open>open\<close> succeeds with a number not above \<open>n\<close>.\<close>

lemma rem_ins:
  assumes "inv t" "look t n = Some d" "n < limit t" "rem n t = (res, t1)"
  shows "\<exists>m t2. ins e t1 = Some (Inr m, t2) \<and> m \<le> n"
proof -
  from rem_ok [OF assms(1,2)] assms(4) have l: "look t1 = (look t)(n := None)" by auto
  note I = rem_inv [OF assms(1,4)]
  from ins_total [of t1 e] I obtain r t2 where i: "ins e t1 = Some (r, t2)" by auto
  show ?thesis
  proof (cases r)
    case (Inl errno)
    then show ?thesis using ins_full [of t1 e errno t2] I i l assms(3) by auto
  next
    case (Inr m)
    then have "\<forall>j < m. look t1 j \<noteq> None" using ins_ok [of t1 e m t2] I i by auto
    then have "m \<le> n" using l by (metis fun_upd_same not_le)
    then show ?thesis using i Inr by blast
  qed
qed

end

interpretation fds: slot_table fd_map ft_insert ft_remove ft_soft_limit fd_inv
proof
  fix t :: "'a fd_table" and e n t' res errno
  show "ft_insert e t \<noteq> None" if "fd_inv t" using ft_insert_ok [OF that, of e] by auto
  show "fd_inv t' \<and> ft_soft_limit t' = ft_soft_limit t" if "fd_inv t" "ft_insert e t = Some (res, t')"
    using ft_insert_ok [OF that(1), of e] that(2) by auto
  show "fd_map t n = None \<and> (\<forall>j < n. fd_map t j \<noteq> None) \<and> n < ft_soft_limit t \<and> fd_map t' = (fd_map t)(n \<mapsto> e)"
    if "fd_inv t" "ft_insert e t = Some (Inr n, t')"
    using ft_insert_ok [OF that(1), of e] that(2) by auto
  show "t' = t \<and> (\<forall>j < ft_soft_limit t. fd_map t j \<noteq> None)" if "fd_inv t" "ft_insert e t = Some (Inl errno, t')"
    using ft_insert_ok [OF that(1), of e] that(2) by auto
  show "\<exists>t'. ft_remove n t = (Inr e, t') \<and> fd_map t' = (fd_map t)(n := None)" if "fd_inv t" "fd_map t n = Some e"
    using ft_remove_ok [OF that] by auto
  show "\<exists>errno. ft_remove n t = (Inl errno, t)" if "fd_map t n = None" using ft_remove_bad [OF that] by blast
  fix res2
  show "fd_inv t' \<and> ft_soft_limit t' = ft_soft_limit t" if "fd_inv t" "ft_remove n t = (res2, t')"
  proof (cases "fd_map t n")
    case None
    then show ?thesis using ft_remove_bad [OF None] that by simp
  next
    case (Some d)
    then show ?thesis using ft_remove_ok [OF that(1) Some] that(2) by auto
  qed
qed

section \<open>Properties\<close>



text \<open>
  Closing an open descriptor below the limit and opening again yields a descriptor that is not
  above the closed one; closing a descriptor that is not open is \<open>EBADF\<close> and changes nothing.
\<close>

theorem fd_close_reopen:
  assumes "fd_inv ft"
  shows "(fd_map ft fd = None \<longrightarrow> ft_remove fd ft = (Inl EBADF, ft)) \<and>
    (\<forall>d. fd_map ft fd = Some d \<longrightarrow>
      (\<exists>ft1 m ft2. ft_remove fd ft = (Inr d, ft1) \<and> fd_inv ft1 \<and> fd_map ft1 = (fd_map ft)(fd := None) \<and>
         ft_insert e ft1 = Some (Inr m, ft2) \<and> m \<le> fd))"
proof (intro conjI impI allI)
  show "fd_map ft fd = None \<Longrightarrow> ft_remove fd ft = (Inl EBADF, ft)" by (rule ft_remove_bad)
  fix d assume d: "fd_map ft fd = Some d"
  then have "fd < ft_soft_limit ft" using fd_invD(2) [OF assms] by (auto simp: fd_map_def split: if_splits)
  from ft_remove_ok [OF assms d] fds.rem_ins [OF assms d this, of _ _ e]
  show "\<exists>ft1 m ft2. ft_remove fd ft = (Inr d, ft1) \<and> fd_inv ft1 \<and> fd_map ft1 = (fd_map ft)(fd := None) \<and>
         ft_insert e ft1 = Some (Inr m, ft2) \<and> m \<le> fd" by blast
qed

theorem fd_close_reopen_witness:
  "\<exists>ft1 m ft2. ft_remove 0 (ft_new [Some (5 :: nat)]) = (Inr 5, ft1) \<and> ft_insert 6 ft1 = Some (Inr m, ft2) \<and> m \<le> 0"
proof -
  have "fd_inv (ft_new [Some (5 :: nat)])" by (auto simp: fd_inv_def ft_new_def DEFAULT_FD_LIMIT_def)
  from fd_close_reopen [OF this, of 0 6] show ?thesis by (auto simp: fd_map_def ft_new_def)
qed

section \<open>Descriptors that get lost\<close>

text \<open>
  \<open>try_insert_at\<close> (\<open>fcntl F_DUPFD\<close>) with an occupied hint fills a recycled slot without taking its
  number off \<open>recycled\<close>: the next \<open>insert\<close> silently overwrites the open descriptor.
\<close>

lemma try_insert_at_overwritten:
  "\<exists>ft1 ft2. try_insert_at (8 :: nat) 0 \<lparr>ft_inner = [Some 0, None], ft_recycled = [1], ft_soft_limit = 128, ft_hard_limit = 256\<rparr> =
      Some (Inr 1, ft1) \<and> fd_map ft1 1 = Some 8 \<and> ft_insert 9 ft1 = Some (Inr 1, ft2) \<and> fd_map ft2 1 = Some 9"
  by (simp add: try_insert_at_def ft_insert_def find_min_def fd_map_def)

text \<open>It also takes the first recycled number above the hint, not the lowest one.\<close>

lemma try_insert_at_not_lowest:
  "\<exists>ft1. try_insert_at (8 :: nat) 0 \<lparr>ft_inner = [Some 0, None, None], ft_recycled = [2, 1], ft_soft_limit = 128, ft_hard_limit = 256\<rparr> =
      Some (Inr 2, ft1) \<and> fd_map ft1 1 = None"
  by (simp add: try_insert_at_def fd_map_def)

text \<open>With a limit above 256 the numbers kept as bytes wrap around: closing 256 recycles 0, which is open.\<close>

lemma recycled_wraps:
  "ft_recycled (snd (ft_remove 256 \<lparr>ft_inner = replicate 257 (Some e), ft_recycled = [], ft_soft_limit = 300, ft_hard_limit = 300\<rparr>)) = [0]"
  by (simp add: ft_remove_def)

end
