(* ===== verification/Spec2Isabelle.thy ===== *)
theory Spec2Isabelle
  imports Mm_Properties Virtio_Blk Fs_Fat Fs_Page_Cache Task_Pid Fs_Pipe Task_Futex Fs_File_Descriptor
begin

text \<open>
  Verification of the Gcore kernel (\<open>src/GCore/os/src\<close>), the RISC-V configuration for the qemu board
  with the feature \<open>oom_handler\<close>.

  \<^bold>\<open>Conventions.\<close> The kernel is a Rust program compiled with \<open>overflow-checks = false\<close>, so machine
  integers are words and wrap around. A definition follows one function of the sources and keeps
  its name, with a prefix where several types have a function of that name (\<open>ms_\<close> for \<open>MemorySet\<close>,
  \<open>ma_\<close> for \<open>MapArea\<close>, \<open>lm_\<close> for \<open>LinearMap\<close>, \<open>sv39_\<close>, \<open>ts_\<close>, \<open>tm_\<close>, \<open>wq_\<close>, \<open>bc_\<close>, \<open>bcm_\<close>). State is passed
  explicitly. The outermost \<open>None\<close> is a panic, undefined behaviour or a loop that does not end; a
  \<open>Result\<close> is a sum with the error on the left. Theorems about operations that may fail state that
  they return. \<open>Arc\<close> reference counts are part of the state wherever the code asks for them.

  \<^bold>\<open>Memory management\<close> (\<open>mm/\<close>, \<open>hal/arch/riscv/sv39.rs\<close>, \<open>fs/swap.rs\<close>).
  \<open>Gcore_Prelude\<close> has the vectors, words and pages everything shares. \<open>Mm_Address\<close> is \<open>mm/address.rs\<close>.
  \<open>Mm_Frame_Allocator\<close> is \<open>mm/frame_allocator.rs\<close>: the stack allocator, the physical memory as a map
  from frame numbers to pages, and the counters of \<open>Arc<FrameTracker>\<close>; what the kernel does
  when memory runs out is the argument \<open>oom\<close>. \<open>Mm_Sv39\<close> is the three-level page table kept in that
  memory, entry by entry; its lemmas give the table as a map from page numbers to entries.
  \<open>Mm_Zram\<close> and \<open>Fs_Swap\<close> are the compressed store and the swap partition; both implement the same
  locale of a store of pages under ids. The LZ4 codec and the sectors of the block device are
  arguments with the round-trip laws \<open>lz4_ok\<close> and \<open>blk_ok\<close>. \<open>Mm_Frame\<close>, \<open>Mm_Linear_Map\<close> and
  \<open>Mm_Map_Area\<close> are \<open>mm/map_area.rs\<close>; \<open>Mm_Memory_Set\<close> is \<open>mm/memory_set.rs\<close>; \<open>Mm_User_Access\<close> is the
  access to user memory of \<open>mm/page_table.rs\<close>, and \<open>Mm_User_Copy\<close> its lemmas. \<open>Mm_Space\<close>, \<open>Mm_Insert\<close>,
  \<open>Mm_Mmap\<close>, \<open>Mm_Munmap\<close>, \<open>Mm_Fork\<close> and \<open>Mm_Process\<close> prove that each operation keeps the invariant of an
  address space (\<open>ms_inv\<close>) and say what it does to the contents a process sees (\<open>ms_view\<close>).
  \<open>Mm_System\<close> lifts this to all address spaces at once (\<open>sys_inv\<close>): every reference is covered by a
  counter, and a step of one space (\<open>space_step\<close>) leaves the others alone. \<open>Mm_Isolation\<close> has the
  step relation of the whole system; \<open>Mm_Boot\<close> and \<open>Mm_Sample\<close> build a first process from the
  booted state, which the witnesses use; \<open>Mm_Properties\<close> has the theorems: isolation of processes,
  the invariant in every reachable state, copy-on-write fork, mmap, munmap, faults, reclaiming,
  exit and copies between kernel and user memory.

  \<^bold>\<open>Tasks.\<close> \<open>Task_Pid\<close> is \<open>task/pid.rs\<close> and \<open>hal/arch/riscv/kern_stack.rs\<close>: ids as a set, disjoint kernel
  stacks. \<open>Task_Signal\<close> is \<open>task/signal.rs\<close> and \<open>sys_sigreturn\<close>: actions, masks, delivery with the
  context on the user stack; it shows that the unmaskable signals stay unmaskable, that SIGKILL
  terminates, and that returning from a handler restores the context. \<open>Task_Manager\<close> is
  \<open>task/manager.rs\<close>: the scheduling queues, the two kinds of wait queues, and \<open>do_oom\<close>, which cleans
  the address spaces of all tasks and is proved invisible to them on top of \<open>Mm_System\<close>.
  \<open>Task_Futex\<close> is \<open>task/threads.rs\<close> over these queues: no wake-up is lost, requeueing keeps the
  waiters. \<open>Timer\<close> is \<open>timer.rs\<close>, with the clock as an argument.

  \<^bold>\<open>Files.\<close> \<open>Fs_Pipe\<close> is \<open>fs/dev/pipe.rs\<close>, a bounded queue of bytes. \<open>Fs_File_Descriptor\<close> is the
  descriptor table of \<open>fs/file_descriptor.rs\<close>. \<open>Fs_Block_Cache\<close> is the block cache of \<open>fs/cache.rs\<close>,
  proved to behave like a plain array of blocks for every sequence of uses and evictions; this is
  the locale \<open>byte_store\<close>. \<open>Fs_Page_Cache\<close> is the page cache of the same file: loading a page gives
  the contents of the file, and eviction, which relies on the dirty bits of the kernel's table,
  loses none. \<open>Fs_Fat\<close> is the allocation table of \<open>fs/fat32/bitmap.rs\<close> over that cache:
  allocation extends the chain of a file with free clusters, freeing cuts it.

  \<^bold>\<open>Block device.\<close> \<open>Virtio_Queue\<close> is the virtqueue of the driver library kept in the tree
  (\<open>dependency/virtio-drivers/src/queue.rs\<close>): descriptors, rings and the two ways of adding a request. Its
  theorems say that every descriptor is on the free list or in a chain the device holds, in every
  state the driver can reach, and that a request comes back with the buffers it was made of.
  \<open>Virtio_Blk\<close> is \<open>device/blk.rs\<close> on top of it and the kernel's \<open>drivers/block/virtio_blk.rs\<close> with the hooks
  that lend frames to the device. The device is an argument with the contract \<open>blk_device\<close> of the
  VirtIO specification; over it the whole path is proved to be the medium of \<open>Fs_Swap\<close>, which is what the
  swap partition and the block cache assume.

  \<^bold>\<open>Interfaces.\<close> The locales are the contracts between components: page stores (compressed store and
  swap), the cleaner of one area and of one address space, the byte store of the block cache. Each
  is interpreted on the definitions of the component that provides it.

  \<^bold>\<open>Loops.\<close> Loops over vectors and ranges are structural recursion. \<open>chunks\<close> recurses over the length
  of its argument, which bounds the number of pieces. \<open>mprotect\<close> and \<open>wake_expired\<close> are functions
  with a termination proof. The allocation loop of the block cache, the traversal of a cluster
  chain and the driver's wait for the device may run for ever and are \<open>partial_function\<close>s; the theorems about them prove that they
  return under the stated conditions. The tasks that block (pipes, futexes, signals) are
  modelled up to the point where they sleep and from the point where they run again.

  \<^bold>\<open>Where the code goes wrong.\<close> Several theories end with lemmas that exhibit a fault of the code on the
  faithful model: writes of the kernel through copy-on-write pages (\<open>user_write_breaks_copy_on_write\<close>),
  a signal mask that hides SIGKILL (\<open>sigreturn_masks_sigkill\<close>), empty transfers on pipes, descriptors
  that are overwritten, clock readings, trackers of lent frames that are never dropped, clusters handed out twice, cyclic cluster chains, and
  futex waiters that are forgotten. The theorems before them state the conditions under which
  the code is right.

  \<^bold>\<open>Not modelled.\<close> Assembly, control registers, the TLB and device registers: they have no meaning in the
  sources themselves. The LoongArch port and the other boards: they repeat the same components
  with other constants. ELF loading, the network stack and the kernel heap: they are calls into the
  crates \<open>xmas_elf\<close>, \<open>smoltcp\<close> and \<open>buddy_system_allocator\<close>. FAT32
  directories, ext4, the directory tree and the system call layer are not modelled yet; where the
  modelled code calls them (the files behind descriptors and mappings) they are arguments.
  Locks are not modelled: the kernel is not preemptive and takes each lock for one operation.
  Logging is left out.
\<close>

end
